(* ===== verification/Prelude.thy ===== *)
theory Prelude imports Main begin

text \<open>
  What every component of the model shares: the result type of fallible code, Rust strings
  and the blank test \<^verbatim>\<open>text.trim().is_empty()\<close>, the 64-bit ranges that
  the store converts between, and tables as lists of rows in \<^verbatim>\<open>rowid\<close> order with
  the three SQL operations the source uses on them (a lookup by key, an update with a
  \<^verbatim>\<open>WHERE\<close> clause and its count of affected rows, and an insert that a conflicting key
  turns into nothing).
\<close>

named_theorems model_simps \<open>definitions the component proofs unfold\<close>
named_theorems table_simps \<open>rewrites on tables: lookups after updates and inserts\<close>

section \<open>Identifiers and numbers\<close>

text \<open>Every identifier of the source is a newtype over a string (\<^verbatim>\<open>harness-types/src/domain/ids.rs\<close>).\<close>

type_synonym ident = string

text \<open>Unsigned 64-bit values are natural numbers; the places where the width matters check it.\<close>

definition u64_max :: nat where "u64_max = 2 ^ 64 - 1"
definition i64_max :: nat where "i64_max = 2 ^ 63 - 1"
definition u32_max :: nat where "u32_max = 2 ^ 32 - 1"

definition checked_add_u64 :: "nat \<Rightarrow> nat \<Rightarrow> nat option" where
  "checked_add_u64 a b = (if a + b \<le> u64_max then Some (a + b) else None)"

definition saturating_add :: "nat \<Rightarrow> nat \<Rightarrow> nat \<Rightarrow> nat" where
  "saturating_add bound a b = min bound (a + b)"

lemma i64_max_less_u64_max: "i64_max < u64_max"
  by (simp add: i64_max_def u64_max_def)

lemma checked_add_u64_Some [simp]:
  "checked_add_u64 a b = Some c \<longleftrightarrow> c = a + b \<and> a + b \<le> u64_max"
  by (auto simp: checked_add_u64_def)

section \<open>Text\<close>

text \<open>
  A Rust string is its UTF-8 bytes, one \<open>char\<close> each. \<open>ws_len\<close> is the number of bytes of the
  white-space character a string starts with (the Unicode \<^verbatim>\<open>White_Space\<close> property, which
  \<^verbatim>\<open>str::trim\<close> uses), or 0 when it starts with something else.
\<close>

definition byte :: "char \<Rightarrow> nat" where
  "byte c = of_char c"

fun ws_len :: "string \<Rightarrow> nat" where
  "ws_len [] = 0"
| "ws_len (a # rest) =
    (if byte a = 32 \<or> (9 \<le> byte a \<and> byte a \<le> 13) then 1
     else case rest of
       [] \<Rightarrow> 0
     | b # rest' \<Rightarrow>
        (if byte a = 194 \<and> (byte b = 133 \<or> byte b = 160) then 2
         else case rest' of
           [] \<Rightarrow> 0
         | c # _ \<Rightarrow>
            (if (byte a = 225 \<and> byte b = 154 \<and> byte c = 128)
              \<or> (byte a = 226 \<and> byte b = 128 \<and>
                  ((128 \<le> byte c \<and> byte c \<le> 138) \<or> byte c = 168 \<or> byte c = 169 \<or> byte c = 175))
              \<or> (byte a = 226 \<and> byte b = 129 \<and> byte c = 159)
              \<or> (byte a = 227 \<and> byte b = 128 \<and> byte c = 128)
             then 3 else 0)))"

function trim_start :: "string \<Rightarrow> string" where
  "trim_start s = (if ws_len s = 0 then s else trim_start (drop (ws_len s) s))"
  by pat_completeness auto
termination
proof (relation "measure length", goal_cases)
  case (2 s)
  then show ?case by (cases s) auto
qed simp

declare trim_start.simps [simp del]

text \<open>\<^verbatim>\<open>s.trim().is_empty()\<close>: everything in \<open>s\<close> is white space.\<close>

definition blank :: "string \<Rightarrow> bool" where
  "blank s \<longleftrightarrow> trim_start s = []"

text \<open>
  The other end: \<open>ws_len_end\<close> is the number of bytes of the white-space character that the
  reversed string starts with.
\<close>

fun ws_len_end :: "string \<Rightarrow> nat" where
  "ws_len_end [] = 0"
| "ws_len_end (c # rest) =
    (if ws_len [c] \<noteq> 0 then 1
     else case rest of
       [] \<Rightarrow> 0
     | b # rest' \<Rightarrow>
        (if ws_len [b, c] = 2 then 2
         else case rest' of [] \<Rightarrow> 0 | a # _ \<Rightarrow> if ws_len [a, b, c] = 3 then 3 else 0))"

function trim_end_rev :: "string \<Rightarrow> string" where
  "trim_end_rev s = (if ws_len_end s = 0 then s else trim_end_rev (drop (ws_len_end s) s))"
  by pat_completeness auto
termination
proof (relation "measure length", goal_cases)
  case (2 s)
  then show ?case by (cases s) auto
qed simp

declare trim_end_rev.simps [simp del]

definition trim :: "string \<Rightarrow> string" where
  "trim s = rev (trim_end_rev (rev (trim_start s)))"

text \<open>\<^verbatim>\<open>join\<close> of a list of strings.\<close>

fun join_with :: "string \<Rightarrow> string list \<Rightarrow> string" where
  "join_with sep [] = []"
| "join_with sep [s] = s"
| "join_with sep (s # t # ts) = s @ sep @ join_with sep (t # ts)"

lemma trim_start_nonspace: "ws_len s = 0 \<Longrightarrow> trim_start s = s"
  by (subst trim_start.simps) simp

lemma trim_start_Nil [simp]: "trim_start [] = []"
  by (simp add: trim_start_nonspace)

lemma blank_Nil [simp]: "blank []"
  by (simp add: blank_def)

lemma blank_space: "blank (CHR '' '' # s) \<longleftrightarrow> blank s"
  unfolding blank_def by (subst trim_start.simps) (simp add: byte_def)

lemma not_blank_nonspace: "s \<noteq> [] \<Longrightarrow> ws_len s = 0 \<Longrightarrow> \<not> blank s"
  by (simp add: blank_def trim_start_nonspace)

definition starts_with :: "string \<Rightarrow> string \<Rightarrow> bool" where
  "starts_with p s \<longleftrightarrow> take (length p) s = p"

lemma starts_with_append [simp]: "starts_with p (p @ s)"
  by (simp add: starts_with_def)

lemma starts_withE: "starts_with p s \<Longrightarrow> (\<And>r. s = p @ r \<Longrightarrow> thesis) \<Longrightarrow> thesis"
  by (metis append_take_drop_id starts_with_def)

section \<open>Tables\<close>

text \<open>
  A table is the list of its rows in \<^verbatim>\<open>rowid\<close> order. \<open>sel P t\<close> is
  \<^verbatim>\<open>SELECT \<dots> WHERE P\<close> read with \<^verbatim>\<open>fetch_optional\<close>, \<open>upd P f t\<close> is
  \<^verbatim>\<open>UPDATE \<dots> SET f WHERE P\<close> and \<open>affected P t\<close> its \<^verbatim>\<open>rows_affected()\<close>.
\<close>

definition sel :: "('r \<Rightarrow> bool) \<Rightarrow> 'r list \<Rightarrow> 'r option" where
  "sel P t = find P t"

definition upd :: "('r \<Rightarrow> bool) \<Rightarrow> ('r \<Rightarrow> 'r) \<Rightarrow> 'r list \<Rightarrow> 'r list" where
  "upd P f t = map (\<lambda>r. if P r then f r else r) t"

definition affected :: "('r \<Rightarrow> bool) \<Rightarrow> 'r list \<Rightarrow> nat" where
  "affected P t = length (filter P t)"

text \<open>A table whose key column is unique.\<close>

definition keyed :: "('r \<Rightarrow> 'k) \<Rightarrow> 'r list \<Rightarrow> bool" where
  "keyed k t \<longleftrightarrow> distinct (map k t)"

lemma sel_Nil [simp]: "sel P [] = None"
  and sel_Cons: "sel P (r # t) = (if P r then Some r else sel P t)"
  by (simp_all add: sel_def)

lemma upd_Nil [simp]: "upd P f [] = []"
  and upd_Cons: "upd P f (r # t) = (if P r then f r else r) # upd P f t"
  by (simp_all add: upd_def)

lemma sel_None: "sel P t = None \<longleftrightarrow> (\<forall>r \<in> set t. \<not> P r)"
  by (auto simp: sel_def find_None_iff)

lemma sel_SomeD: "sel P t = Some r \<Longrightarrow> r \<in> set t \<and> P r"
  by (auto simp: sel_def find_Some_iff)

lemma sel_append: "sel P (s @ t) = (case sel P s of None \<Rightarrow> sel P t | Some r \<Rightarrow> Some r)"
  by (induction s) (auto simp: sel_Cons)

lemma sel_keyed:
  assumes "keyed k t" and "r \<in> set t"
  shows "sel (\<lambda>x. k x = k r) t = Some r"
  using assms
proof (induction t)
  case (Cons s t)
  then show ?case by (cases "k s = k r") (auto simp: sel_Cons keyed_def rev_image_eqI)
qed simp

lemma keyed_same: "keyed k t \<Longrightarrow> r \<in> set t \<Longrightarrow> s \<in> set t \<Longrightarrow> k r = k s \<Longrightarrow> r = s"
  by (metis option.inject sel_keyed)

lemma keyed_Cons: "keyed k (r # t) \<longleftrightarrow> (\<forall>s \<in> set t. k s \<noteq> k r) \<and> keyed k t"
  by (auto simp: keyed_def image_iff)

lemma keyed_Nil [simp]: "keyed k []"
  by (simp add: keyed_def)

lemma keyed_snoc: "keyed k (t @ [r]) \<longleftrightarrow> keyed k t \<and> (\<forall>s \<in> set t. k s \<noteq> k r)"
  by (auto simp: keyed_def image_iff)

lemma map_upd_same: "(\<And>r. k (f r) = k r) \<Longrightarrow> map k (upd P f t) = map k t"
  by (simp add: upd_def)

lemma keyed_upd [simp]: "(\<And>r. k (f r) = k r) \<Longrightarrow> keyed k (upd P f t) \<longleftrightarrow> keyed k t"
  by (simp add: keyed_def map_upd_same)

lemma length_upd [simp]: "length (upd P f t) = length t"
  by (simp add: upd_def)

lemma set_upd: "set (upd P f t) = (\<lambda>r. if P r then f r else r) ` set t"
  by (simp add: upd_def)

lemma upd_id: "(\<And>r. r \<in> set t \<Longrightarrow> P r \<Longrightarrow> f r = r) \<Longrightarrow> upd P f t = t"
  by (auto simp: upd_def intro: map_idI)

lemma upd_none: "(\<And>r. r \<in> set t \<Longrightarrow> \<not> P r) \<Longrightarrow> upd P f t = t"
  by (auto simp: upd_def intro: map_idI)

lemma sel_upd:
  assumes "\<And>r. Q (if P r then f r else r) = Q r"
  shows "sel Q (upd P f t) = map_option (\<lambda>r. if P r then f r else r) (sel Q t)"
proof (induction t)
  case (Cons r t)
  then show ?case using assms [of r] by (simp add: sel_Cons upd_Cons)
qed simp

lemma sel_upd_key [table_simps]:
  assumes "\<And>r. k (f r) = k r"
  shows "sel (\<lambda>x. k x = a) (upd (\<lambda>x. k x = b) f t) =
    (if a = b then map_option f (sel (\<lambda>x. k x = a) t) else sel (\<lambda>x. k x = a) t)"
  using assms by (induction t) (auto simp: sel_Cons upd_Cons)

lemma affected_pos: "0 < affected P t \<longleftrightarrow> (\<exists>r \<in> set t. P r)"
  by (induction t) (auto simp: affected_def)

lemma affected_keyed:
  assumes "keyed k t"
  shows "affected (\<lambda>x. k x = a \<and> Q x) t = (case sel (\<lambda>x. k x = a) t of
      None \<Rightarrow> 0 | Some r \<Rightarrow> if Q r then 1 else 0)"
  using assms
proof (induction t)
  case (Cons r t)
  show ?case
  proof (cases "k r = a")
    case True
    with Cons.prems have "sel (\<lambda>x. k x = a) t = None"
      by (auto simp: sel_None keyed_Cons)
    with True Cons show ?thesis by (simp add: affected_def sel_Cons keyed_Cons)
  next
    case False
    with Cons show ?thesis by (simp add: affected_def sel_Cons keyed_Cons)
  qed
qed (simp add: affected_def)

lemma affected_keyed_plain:
  "keyed k t \<Longrightarrow> affected (\<lambda>x. k x = a) t = (if sel (\<lambda>x. k x = a) t = None then 0 else 1)"
  using affected_keyed [of k t a "\<lambda>_. True"] by (simp split: option.splits)

section \<open>Sums over a table\<close>

lemma sum_list_upd_key:
  fixes g :: "'r \<Rightarrow> int"
  assumes "keyed k t" and "sel (\<lambda>x. k x = a) t = Some r"
  shows "(\<Sum>x \<leftarrow> upd (\<lambda>x. k x = a) f t. g x) = (\<Sum>x \<leftarrow> t. g x) - g r + g (f r)"
  using assms
proof (induction t)
  case (Cons s t)
  show ?case
  proof (cases "k s = a")
    case True
    with Cons.prems have "upd (\<lambda>x. k x = a) f t = t"
      by (intro upd_none) (auto simp: keyed_Cons)
    with True Cons.prems show ?thesis by (simp add: sel_Cons upd_Cons)
  next
    case False
    with Cons show ?thesis by (simp add: sel_Cons upd_Cons keyed_Cons)
  qed
qed simp

section \<open>Numbers in texts\<close>

fun decimal :: "nat \<Rightarrow> string" where
  "decimal n = (if n < 10 then [char_of (48 + n)] else decimal (n div 10) @ [char_of (48 + n mod 10)])"

declare decimal.simps [simp del]

end
