(* ===== verification/Dag.thy ===== *)
theory Dag imports Prelude begin

text \<open>
  Dependency orders, shared by the plugin graph of the kernel and the task graph of the
  orchestrator: both search a graph depth first, and both are right because the nodes they
  have finished form a list in which every node comes after everything it depends on.
\<close>

definition dependency_order :: "('n \<Rightarrow> 'n set) \<Rightarrow> 'n list \<Rightarrow> bool" where
  "dependency_order succ xs \<longleftrightarrow>
    distinct xs \<and> (\<forall>i < length xs. succ (xs ! i) \<subseteq> set (take i xs))"

lemma dependency_order_Nil [simp]: "dependency_order succ []"
  by (simp add: dependency_order_def)

lemma dependency_order_snoc [simp]:
  "dependency_order succ (xs @ [x]) \<longleftrightarrow>
    dependency_order succ xs \<and> x \<notin> set xs \<and> succ x \<subseteq> set xs"
  (is "?L \<longleftrightarrow> ?R")
proof
  assume L: ?L
  have "succ (xs ! i) \<subseteq> set (take i xs)" if "i < length xs" for i
  proof -
    from L that have "succ ((xs @ [x]) ! i) \<subseteq> set (take i (xs @ [x]))"
      unfolding dependency_order_def by (metis length_append_singleton less_SucI)
    with that show ?thesis by (simp add: nth_append)
  qed
  moreover from L have "succ ((xs @ [x]) ! length xs) \<subseteq> set (take (length xs) (xs @ [x]))"
    unfolding dependency_order_def by (metis length_append_singleton lessI)
  ultimately show ?R using L by (auto simp: dependency_order_def)
next
  assume R: ?R
  then show ?L by (auto simp: dependency_order_def nth_append less_Suc_eq)
qed

lemma dependency_order_closed:
  assumes "dependency_order succ xs" and "x \<in> set xs"
  shows "succ x \<subseteq> set xs"
proof -
  from assms(2) obtain i where "i < length xs" and "x = xs ! i"
    by (auto simp: in_set_conv_nth)
  with assms(1) have "succ x \<subseteq> set (take i xs)" by (simp add: dependency_order_def)
  then show ?thesis using set_take_subset by fastforce
qed

text \<open>A graph whose nodes with successors all have a place in such an order has no cycle.\<close>

lemma dependency_order_before:
  assumes "dependency_order succ xs" and "j < length xs" and "c \<in> succ (xs ! j)"
  shows "\<exists>i < j. xs ! i = c"
proof -
  from assms have "c \<in> set (take j xs)" by (auto simp: dependency_order_def)
  then show ?thesis by (auto simp: in_set_conv_nth)
qed

theorem dependency_order_acyclic:
  assumes order: "dependency_order succ xs" and cover: "\<And>n. succ n \<noteq> {} \<Longrightarrow> n \<in> set xs"
  shows "acyclic {(n, c). c \<in> succ n}"
proof -
  define pos where "pos n = (LEAST i. i < length xs \<and> xs ! i = n)" for n
  have pos_nth: "pos (xs ! i) = i" if "i < length xs" for i
  proof -
    from order have "distinct xs" by (simp add: dependency_order_def)
    then have "\<And>k. k < length xs \<and> xs ! k = xs ! i \<longleftrightarrow> k = i"
      using that by (auto simp: nth_eq_iff_index_eq)
    then show ?thesis unfolding pos_def by (intro Least_equality) auto
  qed
  have "{(n, c). c \<in> succ n}\<inverse> \<subseteq> measure pos"
  proof (clarsimp)
    fix n c
    assume c: "c \<in> succ n"
    then obtain j where j: "j < length xs" "n = xs ! j"
      using cover [of n] by (auto simp: in_set_conv_nth)
    from c j(2) have "c \<in> succ (xs ! j)" by simp
    from dependency_order_before [OF order j(1) this] obtain i where i: "i < j" "xs ! i = c"
      by (elim exE conjE)
    have "pos c = i" using pos_nth [of i] i j(1) by (metis less_trans)
    moreover have "pos n = j" using pos_nth [OF j(1)] by (simp only: j(2))
    ultimately show "pos c < pos n" using i(1) by (simp only:)
  qed
  then have "wf ({(n, c). c \<in> succ n}\<inverse>)" by (rule wf_subset [OF wf_measure])
  then have "acyclic ({(n, c). c \<in> succ n}\<inverse>)" by (rule wf_acyclic)
  then show ?thesis by (simp only: acyclic_converse)
qed

end
