(* ===== verification/Error_Codes.thy ===== *)
theory Error_Codes imports Prelude begin

text \<open>
  The stable error categories of \<^verbatim>\<open>crates/harness-types/src/error.rs\<close>: the codes, their
  spelling, retry class and process exit code, and the error value that carries one with a
  diagnostic message. Everywhere else in the model an error is its code alone: the source
  declares that display messages are diagnostics and that only the code, the retry class and
  the envelope version are protocol.
\<close>

section \<open>Codes\<close>

datatype (plugins only:) error_code =
    InvalidHash
  | InvalidId
  | InvalidPayload
  | InvalidSequence
  | MissingAuthority
  | UnsupportedSchemaVersion
  | ConfigReadError
  | ConfigParseError
  | ConfigUnknownField
  | FixtureIntegrity
  | GateConfigurationError
  | GateRequiredTestIgnored
  | GateTestDiscoveryEmpty
  | WriterLocked
  | StaleWriter
  | ReadOnlyStore
  | SequenceConflict
  | IdempotencyConflict
  | TaskLeaseConflict
  | StorageOpenFailed
  | StorageWriteFailed
  | MigrationFailed
  | SnapshotCorrupt
  | UnknownCriticalEvent
  | ArtifactWriteFailed
  | MissingRequiredService
  | IncompatibleService
  | PluginCycle
  | DuplicateRegistration
  | ServiceUnavailable
  | RateLimited
  | ShutdownFailed
  | InvalidStateTransition
  | MandatoryContextOverflow
  | ContextOverflow
  | ProviderCanceled
  | ProviderProtocol
  | RetryExhausted
  | CompactionConflict
  | RuntimeCommandConflict
  | RuntimeBlocked
  | BlockedByHook
  | PolicyDenied
  | ApprovalRequired
  | ApprovalStale
  | ApprovalConsumed
  | ApprovalRevoked
  | WorkspaceEscape
  | SensitivePathDenied
  | StaleWorkspace
  | UnsupportedTextEncoding
  | BinaryContentDenied
  | OutputLimitExceeded
  | ProcessTimedOut
  | ProcessCanceled
  | ProcessOutcomeUnknown
  | StrictIsolationUnavailable
  | RoleUnavailable
  | ProjectIdentityConflict
  | ToolIntentConflict
  | EditNotFound
  | EditAmbiguous
  | TaskNotFound
  | TaskNotReady
  | TaskDependencyFailed
  | TaskOwnershipConflict
  | DagCycle
  | UnknownTaskDependency
  | DuplicateTaskId
  | AmbiguousTaskOwner
  | DelegationDepthExceeded
  | BudgetExhausted
  | ScopeAuthorityDenied
  | DirtyWorkspaceDenied
  | IntegrationConflict
  | ResultIncomplete
  | SchedulerShutdown
  | DelegationQueueFull
  | DeliveryConflict
  | ExtensionProtocolError
  | ExtensionDigestMismatch
  | ExtensionProtocolUnsupported
  | ExtensionNotFound
  | ExtensionUntrusted
  | ExtensionCapabilityMismatch
  | HostMethodDenied
  | EnvironmentDenied
  | SecretNotGranted
  | FrameLimitExceeded
  | InflightLimitExceeded
  | DuplicateFrameId
  | SchemaVersionMismatch
  | SkillUnavailable
  | SourceUnavailable
  | ConfigTrustRequired
  | BackupManifestInvalid
  | RestoreTargetConflict
  | RetentionRefused
  | RevisionConflict
  | ResourceNotFound
  | AccessDenied

text \<open>The result type of every fallible operation of the model.\<close>

type_synonym 'a res = "error_code + 'a"

primrec error_code_str :: "error_code \<Rightarrow> string" where
    "error_code_str InvalidHash = ''invalid_hash''"
  | "error_code_str InvalidId = ''invalid_id''"
  | "error_code_str InvalidPayload = ''invalid_payload''"
  | "error_code_str InvalidSequence = ''invalid_sequence''"
  | "error_code_str MissingAuthority = ''missing_authority''"
  | "error_code_str UnsupportedSchemaVersion = ''unsupported_schema_version''"
  | "error_code_str ConfigReadError = ''config_read_error''"
  | "error_code_str ConfigParseError = ''config_parse_error''"
  | "error_code_str ConfigUnknownField = ''config_unknown_field''"
  | "error_code_str FixtureIntegrity = ''fixture_integrity''"
  | "error_code_str GateConfigurationError = ''gate_configuration_error''"
  | "error_code_str GateRequiredTestIgnored = ''gate_required_test_ignored''"
  | "error_code_str GateTestDiscoveryEmpty = ''gate_test_discovery_empty''"
  | "error_code_str WriterLocked = ''writer_locked''"
  | "error_code_str StaleWriter = ''stale_writer''"
  | "error_code_str ReadOnlyStore = ''read_only_store''"
  | "error_code_str SequenceConflict = ''sequence_conflict''"
  | "error_code_str IdempotencyConflict = ''idempotency_conflict''"
  | "error_code_str TaskLeaseConflict = ''task_lease_conflict''"
  | "error_code_str StorageOpenFailed = ''storage_open_failed''"
  | "error_code_str StorageWriteFailed = ''storage_write_failed''"
  | "error_code_str MigrationFailed = ''migration_failed''"
  | "error_code_str SnapshotCorrupt = ''snapshot_corrupt''"
  | "error_code_str UnknownCriticalEvent = ''unknown_critical_event''"
  | "error_code_str ArtifactWriteFailed = ''artifact_write_failed''"
  | "error_code_str MissingRequiredService = ''missing_required_service''"
  | "error_code_str IncompatibleService = ''incompatible_service''"
  | "error_code_str PluginCycle = ''plugin_cycle''"
  | "error_code_str DuplicateRegistration = ''duplicate_registration''"
  | "error_code_str ServiceUnavailable = ''service_unavailable''"
  | "error_code_str RateLimited = ''rate_limited''"
  | "error_code_str ShutdownFailed = ''shutdown_failed''"
  | "error_code_str InvalidStateTransition = ''invalid_state_transition''"
  | "error_code_str MandatoryContextOverflow = ''mandatory_context_overflow''"
  | "error_code_str ContextOverflow = ''context_overflow''"
  | "error_code_str ProviderCanceled = ''provider_canceled''"
  | "error_code_str ProviderProtocol = ''provider_protocol''"
  | "error_code_str RetryExhausted = ''retry_exhausted''"
  | "error_code_str CompactionConflict = ''compaction_conflict''"
  | "error_code_str RuntimeCommandConflict = ''runtime_command_conflict''"
  | "error_code_str RuntimeBlocked = ''runtime_blocked''"
  | "error_code_str BlockedByHook = ''blocked_by_hook''"
  | "error_code_str PolicyDenied = ''policy_denied''"
  | "error_code_str ApprovalRequired = ''approval_required''"
  | "error_code_str ApprovalStale = ''approval_stale''"
  | "error_code_str ApprovalConsumed = ''approval_consumed''"
  | "error_code_str ApprovalRevoked = ''approval_revoked''"
  | "error_code_str WorkspaceEscape = ''workspace_escape''"
  | "error_code_str SensitivePathDenied = ''sensitive_path_denied''"
  | "error_code_str StaleWorkspace = ''stale_workspace''"
  | "error_code_str UnsupportedTextEncoding = ''unsupported_text_encoding''"
  | "error_code_str BinaryContentDenied = ''binary_content_denied''"
  | "error_code_str OutputLimitExceeded = ''output_limit_exceeded''"
  | "error_code_str ProcessTimedOut = ''process_timed_out''"
  | "error_code_str ProcessCanceled = ''process_canceled''"
  | "error_code_str ProcessOutcomeUnknown = ''process_outcome_unknown''"
  | "error_code_str StrictIsolationUnavailable = ''strict_isolation_unavailable''"
  | "error_code_str RoleUnavailable = ''role_unavailable''"
  | "error_code_str ProjectIdentityConflict = ''project_identity_conflict''"
  | "error_code_str ToolIntentConflict = ''tool_intent_conflict''"
  | "error_code_str EditNotFound = ''edit_not_found''"
  | "error_code_str EditAmbiguous = ''edit_ambiguous''"
  | "error_code_str TaskNotFound = ''task_not_found''"
  | "error_code_str TaskNotReady = ''task_not_ready''"
  | "error_code_str TaskDependencyFailed = ''task_dependency_failed''"
  | "error_code_str TaskOwnershipConflict = ''task_ownership_conflict''"
  | "error_code_str DagCycle = ''dag_cycle''"
  | "error_code_str UnknownTaskDependency = ''unknown_task_dependency''"
  | "error_code_str DuplicateTaskId = ''duplicate_task_id''"
  | "error_code_str AmbiguousTaskOwner = ''ambiguous_task_owner''"
  | "error_code_str DelegationDepthExceeded = ''delegation_depth_exceeded''"
  | "error_code_str BudgetExhausted = ''budget_exhausted''"
  | "error_code_str ScopeAuthorityDenied = ''scope_authority_denied''"
  | "error_code_str DirtyWorkspaceDenied = ''dirty_workspace_denied''"
  | "error_code_str IntegrationConflict = ''integration_conflict''"
  | "error_code_str ResultIncomplete = ''result_incomplete''"
  | "error_code_str SchedulerShutdown = ''scheduler_shutdown''"
  | "error_code_str DelegationQueueFull = ''delegation_queue_full''"
  | "error_code_str DeliveryConflict = ''delivery_conflict''"
  | "error_code_str ExtensionProtocolError = ''extension_protocol_error''"
  | "error_code_str ExtensionDigestMismatch = ''extension_digest_mismatch''"
  | "error_code_str ExtensionProtocolUnsupported = ''extension_protocol_unsupported''"
  | "error_code_str ExtensionNotFound = ''extension_not_found''"
  | "error_code_str ExtensionUntrusted = ''extension_untrusted''"
  | "error_code_str ExtensionCapabilityMismatch = ''extension_capability_mismatch''"
  | "error_code_str HostMethodDenied = ''host_method_denied''"
  | "error_code_str EnvironmentDenied = ''environment_denied''"
  | "error_code_str SecretNotGranted = ''secret_not_granted''"
  | "error_code_str FrameLimitExceeded = ''frame_limit_exceeded''"
  | "error_code_str InflightLimitExceeded = ''inflight_limit_exceeded''"
  | "error_code_str DuplicateFrameId = ''duplicate_frame_id''"
  | "error_code_str SchemaVersionMismatch = ''schema_version_mismatch''"
  | "error_code_str SkillUnavailable = ''skill_unavailable''"
  | "error_code_str SourceUnavailable = ''source_unavailable''"
  | "error_code_str ConfigTrustRequired = ''config_trust_required''"
  | "error_code_str BackupManifestInvalid = ''backup_manifest_invalid''"
  | "error_code_str RestoreTargetConflict = ''restore_target_conflict''"
  | "error_code_str RetentionRefused = ''retention_refused''"
  | "error_code_str RevisionConflict = ''revision_conflict''"
  | "error_code_str ResourceNotFound = ''resource_not_found''"
  | "error_code_str AccessDenied = ''access_denied''"

datatype retry_class = Never | Transient | Bounded | Conflict | HumanAction

primrec retry_class_str :: "retry_class \<Rightarrow> string" where
    "retry_class_str Never = ''never''"
  | "retry_class_str Transient = ''transient''"
  | "retry_class_str Bounded = ''bounded''"
  | "retry_class_str Conflict = ''conflict''"
  | "retry_class_str HumanAction = ''human_action''"

primrec retry_class_of :: "error_code \<Rightarrow> retry_class" where
    "retry_class_of InvalidHash = Never"
  | "retry_class_of InvalidId = Never"
  | "retry_class_of InvalidPayload = Never"
  | "retry_class_of InvalidSequence = Never"
  | "retry_class_of MissingAuthority = Never"
  | "retry_class_of UnsupportedSchemaVersion = Never"
  | "retry_class_of ConfigReadError = Never"
  | "retry_class_of ConfigParseError = Never"
  | "retry_class_of ConfigUnknownField = Never"
  | "retry_class_of FixtureIntegrity = Never"
  | "retry_class_of GateConfigurationError = Never"
  | "retry_class_of GateRequiredTestIgnored = Never"
  | "retry_class_of GateTestDiscoveryEmpty = Never"
  | "retry_class_of WriterLocked = Transient"
  | "retry_class_of StaleWriter = Conflict"
  | "retry_class_of ReadOnlyStore = Never"
  | "retry_class_of SequenceConflict = Conflict"
  | "retry_class_of IdempotencyConflict = Conflict"
  | "retry_class_of TaskLeaseConflict = Conflict"
  | "retry_class_of StorageOpenFailed = Transient"
  | "retry_class_of StorageWriteFailed = Transient"
  | "retry_class_of MigrationFailed = Never"
  | "retry_class_of SnapshotCorrupt = Never"
  | "retry_class_of UnknownCriticalEvent = Never"
  | "retry_class_of ArtifactWriteFailed = Transient"
  | "retry_class_of MissingRequiredService = Never"
  | "retry_class_of IncompatibleService = Never"
  | "retry_class_of PluginCycle = Never"
  | "retry_class_of DuplicateRegistration = Conflict"
  | "retry_class_of ServiceUnavailable = Transient"
  | "retry_class_of RateLimited = Transient"
  | "retry_class_of ShutdownFailed = Transient"
  | "retry_class_of InvalidStateTransition = Conflict"
  | "retry_class_of MandatoryContextOverflow = Never"
  | "retry_class_of ContextOverflow = Never"
  | "retry_class_of ProviderCanceled = Never"
  | "retry_class_of ProviderProtocol = Bounded"
  | "retry_class_of RetryExhausted = Bounded"
  | "retry_class_of CompactionConflict = Conflict"
  | "retry_class_of RuntimeCommandConflict = Conflict"
  | "retry_class_of RuntimeBlocked = HumanAction"
  | "retry_class_of BlockedByHook = HumanAction"
  | "retry_class_of PolicyDenied = Never"
  | "retry_class_of ApprovalRequired = HumanAction"
  | "retry_class_of ApprovalStale = Conflict"
  | "retry_class_of ApprovalConsumed = Conflict"
  | "retry_class_of ApprovalRevoked = Never"
  | "retry_class_of WorkspaceEscape = Never"
  | "retry_class_of SensitivePathDenied = Never"
  | "retry_class_of StaleWorkspace = Conflict"
  | "retry_class_of UnsupportedTextEncoding = Never"
  | "retry_class_of BinaryContentDenied = Never"
  | "retry_class_of OutputLimitExceeded = Never"
  | "retry_class_of ProcessTimedOut = Bounded"
  | "retry_class_of ProcessCanceled = Never"
  | "retry_class_of ProcessOutcomeUnknown = HumanAction"
  | "retry_class_of StrictIsolationUnavailable = Never"
  | "retry_class_of RoleUnavailable = Never"
  | "retry_class_of ProjectIdentityConflict = Conflict"
  | "retry_class_of ToolIntentConflict = Conflict"
  | "retry_class_of EditNotFound = Never"
  | "retry_class_of EditAmbiguous = Never"
  | "retry_class_of TaskNotFound = Never"
  | "retry_class_of TaskNotReady = HumanAction"
  | "retry_class_of TaskDependencyFailed = Never"
  | "retry_class_of TaskOwnershipConflict = Conflict"
  | "retry_class_of DagCycle = Never"
  | "retry_class_of UnknownTaskDependency = Never"
  | "retry_class_of DuplicateTaskId = Conflict"
  | "retry_class_of AmbiguousTaskOwner = Conflict"
  | "retry_class_of DelegationDepthExceeded = Never"
  | "retry_class_of BudgetExhausted = HumanAction"
  | "retry_class_of ScopeAuthorityDenied = Never"
  | "retry_class_of DirtyWorkspaceDenied = HumanAction"
  | "retry_class_of IntegrationConflict = Conflict"
  | "retry_class_of ResultIncomplete = Never"
  | "retry_class_of SchedulerShutdown = Transient"
  | "retry_class_of DelegationQueueFull = HumanAction"
  | "retry_class_of DeliveryConflict = Conflict"
  | "retry_class_of ExtensionProtocolError = Never"
  | "retry_class_of ExtensionDigestMismatch = Never"
  | "retry_class_of ExtensionProtocolUnsupported = Never"
  | "retry_class_of ExtensionNotFound = Never"
  | "retry_class_of ExtensionUntrusted = Never"
  | "retry_class_of ExtensionCapabilityMismatch = Never"
  | "retry_class_of HostMethodDenied = Never"
  | "retry_class_of EnvironmentDenied = Never"
  | "retry_class_of SecretNotGranted = HumanAction"
  | "retry_class_of FrameLimitExceeded = Never"
  | "retry_class_of InflightLimitExceeded = Transient"
  | "retry_class_of DuplicateFrameId = Conflict"
  | "retry_class_of SchemaVersionMismatch = Conflict"
  | "retry_class_of SkillUnavailable = Never"
  | "retry_class_of SourceUnavailable = Never"
  | "retry_class_of ConfigTrustRequired = HumanAction"
  | "retry_class_of BackupManifestInvalid = Never"
  | "retry_class_of RestoreTargetConflict = Conflict"
  | "retry_class_of RetentionRefused = Conflict"
  | "retry_class_of RevisionConflict = Conflict"
  | "retry_class_of ResourceNotFound = Never"
  | "retry_class_of AccessDenied = Never"

primrec exit_code :: "error_code \<Rightarrow> nat" where
    "exit_code InvalidHash = 2"
  | "exit_code InvalidId = 2"
  | "exit_code InvalidPayload = 2"
  | "exit_code InvalidSequence = 2"
  | "exit_code MissingAuthority = 2"
  | "exit_code UnsupportedSchemaVersion = 2"
  | "exit_code ConfigReadError = 2"
  | "exit_code ConfigParseError = 2"
  | "exit_code ConfigUnknownField = 2"
  | "exit_code FixtureIntegrity = 2"
  | "exit_code GateConfigurationError = 2"
  | "exit_code GateRequiredTestIgnored = 2"
  | "exit_code GateTestDiscoveryEmpty = 2"
  | "exit_code WriterLocked = 5"
  | "exit_code StaleWriter = 5"
  | "exit_code ReadOnlyStore = 1"
  | "exit_code SequenceConflict = 5"
  | "exit_code IdempotencyConflict = 5"
  | "exit_code TaskLeaseConflict = 5"
  | "exit_code StorageOpenFailed = 4"
  | "exit_code StorageWriteFailed = 4"
  | "exit_code MigrationFailed = 4"
  | "exit_code SnapshotCorrupt = 4"
  | "exit_code UnknownCriticalEvent = 4"
  | "exit_code ArtifactWriteFailed = 4"
  | "exit_code MissingRequiredService = 1"
  | "exit_code IncompatibleService = 1"
  | "exit_code PluginCycle = 1"
  | "exit_code DuplicateRegistration = 5"
  | "exit_code ServiceUnavailable = 4"
  | "exit_code RateLimited = 4"
  | "exit_code ShutdownFailed = 4"
  | "exit_code InvalidStateTransition = 4"
  | "exit_code MandatoryContextOverflow = 3"
  | "exit_code ContextOverflow = 3"
  | "exit_code ProviderCanceled = 130"
  | "exit_code ProviderProtocol = 4"
  | "exit_code RetryExhausted = 4"
  | "exit_code CompactionConflict = 4"
  | "exit_code RuntimeCommandConflict = 4"
  | "exit_code RuntimeBlocked = 3"
  | "exit_code BlockedByHook = 1"
  | "exit_code PolicyDenied = 1"
  | "exit_code ApprovalRequired = 3"
  | "exit_code ApprovalStale = 5"
  | "exit_code ApprovalConsumed = 5"
  | "exit_code ApprovalRevoked = 5"
  | "exit_code WorkspaceEscape = 1"
  | "exit_code SensitivePathDenied = 1"
  | "exit_code StaleWorkspace = 5"
  | "exit_code UnsupportedTextEncoding = 1"
  | "exit_code BinaryContentDenied = 1"
  | "exit_code OutputLimitExceeded = 4"
  | "exit_code ProcessTimedOut = 4"
  | "exit_code ProcessCanceled = 130"
  | "exit_code ProcessOutcomeUnknown = 3"
  | "exit_code StrictIsolationUnavailable = 4"
  | "exit_code RoleUnavailable = 4"
  | "exit_code ProjectIdentityConflict = 5"
  | "exit_code ToolIntentConflict = 5"
  | "exit_code EditNotFound = 1"
  | "exit_code EditAmbiguous = 1"
  | "exit_code TaskNotFound = 1"
  | "exit_code TaskNotReady = 3"
  | "exit_code TaskDependencyFailed = 1"
  | "exit_code TaskOwnershipConflict = 5"
  | "exit_code DagCycle = 1"
  | "exit_code UnknownTaskDependency = 1"
  | "exit_code DuplicateTaskId = 5"
  | "exit_code AmbiguousTaskOwner = 5"
  | "exit_code DelegationDepthExceeded = 1"
  | "exit_code BudgetExhausted = 3"
  | "exit_code ScopeAuthorityDenied = 1"
  | "exit_code DirtyWorkspaceDenied = 3"
  | "exit_code IntegrationConflict = 4"
  | "exit_code ResultIncomplete = 4"
  | "exit_code SchedulerShutdown = 4"
  | "exit_code DelegationQueueFull = 3"
  | "exit_code DeliveryConflict = 5"
  | "exit_code ExtensionProtocolError = 1"
  | "exit_code ExtensionDigestMismatch = 1"
  | "exit_code ExtensionProtocolUnsupported = 1"
  | "exit_code ExtensionNotFound = 1"
  | "exit_code ExtensionUntrusted = 1"
  | "exit_code ExtensionCapabilityMismatch = 1"
  | "exit_code HostMethodDenied = 1"
  | "exit_code EnvironmentDenied = 1"
  | "exit_code SecretNotGranted = 3"
  | "exit_code FrameLimitExceeded = 1"
  | "exit_code InflightLimitExceeded = 4"
  | "exit_code DuplicateFrameId = 5"
  | "exit_code SchemaVersionMismatch = 4"
  | "exit_code SkillUnavailable = 1"
  | "exit_code SourceUnavailable = 1"
  | "exit_code ConfigTrustRequired = 2"
  | "exit_code BackupManifestInvalid = 4"
  | "exit_code RestoreTargetConflict = 5"
  | "exit_code RetentionRefused = 5"
  | "exit_code RevisionConflict = 5"
  | "exit_code ResourceNotFound = 1"
  | "exit_code AccessDenied = 1"

section \<open>Errors with a message\<close>

record harness_error =
  he_code :: error_code
  he_message :: string

text \<open>
  \<open>strip_code_prefix\<close> is the loop of \<^verbatim>\<open>without_code_prefix\<close>: it drops the prefix
  \<^verbatim>\<open>code: \<close> as long as the message starts with it.
\<close>

definition code_prefix :: "error_code \<Rightarrow> string" where
  "code_prefix c = error_code_str c @ '': ''"

function strip_code_prefix :: "error_code \<Rightarrow> string \<Rightarrow> string" where
  "strip_code_prefix c s =
    (if starts_with (code_prefix c) s then strip_code_prefix c (drop (length (code_prefix c)) s)
     else s)"
  by pat_completeness auto
termination
proof (relation "measure (\<lambda>(c, s). length s)", goal_cases)
  case (2 c s)
  then show ?case by (auto simp: code_prefix_def elim!: starts_withE)
qed simp

declare strip_code_prefix.simps [simp del]

definition without_code_prefix :: "error_code \<Rightarrow> string \<Rightarrow> string" where
  "without_code_prefix c message =
    (if \<not> starts_with (code_prefix c) message then message else strip_code_prefix c message)"

definition new_error :: "error_code \<Rightarrow> string \<Rightarrow> harness_error" where
  "new_error c message = \<lparr>he_code = c, he_message = without_code_prefix c message\<rparr>"

definition error_display :: "harness_error \<Rightarrow> string" where
  "error_display e = error_code_str (he_code e) @ '': '' @ he_message e"

text \<open>A layer that passes an error on builds it again from its code and its display text.\<close>

definition pass_on :: "harness_error \<Rightarrow> harness_error" where
  "pass_on e = new_error (he_code e) (error_display e)"

section \<open>Fallible code\<close>

text \<open>The operator \<^verbatim>\<open>?\<close>: an error ends the function, a value goes on.\<close>

definition bind_res :: "'a res \<Rightarrow> ('a \<Rightarrow> 'b res) \<Rightarrow> 'b res" where
  "bind_res r f = (case r of Inl e \<Rightarrow> Inl e | Inr x \<Rightarrow> f x)"

lemma bind_res_simps [simp]: "bind_res (Inl e) f = Inl e" "bind_res (Inr x) f = f x"
  by (simp_all add: bind_res_def)

lemma bind_res_Inr: "bind_res r f = Inr y \<longleftrightarrow> (\<exists>x. r = Inr x \<and> f x = Inr y)"
  by (cases r) (simp_all add: bind_res_def)

text \<open>\<^verbatim>\<open>collect::<Result<Vec<_>, _>>()\<close>: the first error, or every value.\<close>

fun collect_res :: "'a res list \<Rightarrow> 'a list res" where
  "collect_res [] = Inr []"
| "collect_res (Inl e # xs) = Inl e"
| "collect_res (Inr x # xs) = (case collect_res xs of Inl e \<Rightarrow> Inl e | Inr ys \<Rightarrow> Inr (x # ys))"

section \<open>Lemmas\<close>

lemma strip_code_prefix_clean: "\<not> starts_with (code_prefix c) (strip_code_prefix c s)"
proof (induction c s rule: strip_code_prefix.induct)
  case (1 c s)
  then show ?case by (subst strip_code_prefix.simps) auto
qed

lemma strip_code_prefix_none: "\<not> starts_with (code_prefix c) s \<Longrightarrow> strip_code_prefix c s = s"
  by (subst strip_code_prefix.simps) simp

lemma strip_code_prefix_append: "strip_code_prefix c (code_prefix c @ s) = strip_code_prefix c s"
  by (subst strip_code_prefix.simps) simp

lemma without_code_prefix_eq: "without_code_prefix c s = strip_code_prefix c s"
  by (simp add: without_code_prefix_def strip_code_prefix_none)

lemma error_display_prefix: "error_display e = code_prefix (he_code e) @ he_message e"
  by (simp add: error_display_def code_prefix_def)

text \<open>All codes, to decide facts about every one of them by evaluation.\<close>

definition all_codes :: "error_code list" where
  "all_codes = [InvalidHash, InvalidId, InvalidPayload, InvalidSequence,
    MissingAuthority, UnsupportedSchemaVersion, ConfigReadError, ConfigParseError,
    ConfigUnknownField, FixtureIntegrity, GateConfigurationError, GateRequiredTestIgnored,
    GateTestDiscoveryEmpty, WriterLocked, StaleWriter, ReadOnlyStore,
    SequenceConflict, IdempotencyConflict, TaskLeaseConflict, StorageOpenFailed,
    StorageWriteFailed, MigrationFailed, SnapshotCorrupt, UnknownCriticalEvent,
    ArtifactWriteFailed, MissingRequiredService, IncompatibleService, PluginCycle,
    DuplicateRegistration, ServiceUnavailable, RateLimited, ShutdownFailed,
    InvalidStateTransition, MandatoryContextOverflow, ContextOverflow, ProviderCanceled,
    ProviderProtocol, RetryExhausted, CompactionConflict, RuntimeCommandConflict,
    RuntimeBlocked, BlockedByHook, PolicyDenied, ApprovalRequired,
    ApprovalStale, ApprovalConsumed, ApprovalRevoked, WorkspaceEscape,
    SensitivePathDenied, StaleWorkspace, UnsupportedTextEncoding, BinaryContentDenied,
    OutputLimitExceeded, ProcessTimedOut, ProcessCanceled, ProcessOutcomeUnknown,
    StrictIsolationUnavailable, RoleUnavailable, ProjectIdentityConflict, ToolIntentConflict,
    EditNotFound, EditAmbiguous, TaskNotFound, TaskNotReady,
    TaskDependencyFailed, TaskOwnershipConflict, DagCycle, UnknownTaskDependency,
    DuplicateTaskId, AmbiguousTaskOwner, DelegationDepthExceeded, BudgetExhausted,
    ScopeAuthorityDenied, DirtyWorkspaceDenied, IntegrationConflict, ResultIncomplete,
    SchedulerShutdown, DelegationQueueFull, DeliveryConflict, ExtensionProtocolError,
    ExtensionDigestMismatch, ExtensionProtocolUnsupported, ExtensionNotFound, ExtensionUntrusted,
    ExtensionCapabilityMismatch, HostMethodDenied, EnvironmentDenied, SecretNotGranted,
    FrameLimitExceeded, InflightLimitExceeded, DuplicateFrameId, SchemaVersionMismatch,
    SkillUnavailable, SourceUnavailable, ConfigTrustRequired, BackupManifestInvalid,
    RestoreTargetConflict, RetentionRefused, RevisionConflict, ResourceNotFound,
    AccessDenied]"

lemma all_codes_complete: "c \<in> set all_codes"
  by (cases c) (simp_all add: all_codes_def)

lemma distinct_spellings: "distinct (map error_code_str all_codes)"
  by (simp add: all_codes_def)

text \<open>
  Error codes are faithful on the wire: two codes with the same stored spelling are the same
  code, and no failure exits with the status of a success.
\<close>

theorem error_codes_distinguished:
  "(error_code_str c = error_code_str d \<longleftrightarrow> c = d) \<and> exit_code c \<noteq> 0 \<and> exit_code c < 256"
proof -
  have "inj_on error_code_str (set all_codes)"
    using distinct_spellings by (simp add: distinct_map)
  then have "error_code_str c = error_code_str d \<longleftrightarrow> c = d"
    using all_codes_complete by (simp add: inj_on_eq_iff)
  moreover have "exit_code c \<noteq> 0 \<and> exit_code c < 256" by (cases c) simp_all
  ultimately show ?thesis by blast
qed

text \<open>
  Passing an error on adds nothing: however many layers build an error again from its code
  and its display text, the message carries the code's prefix once, in the display only.
\<close>

theorem pass_on_stable:
  "(pass_on ^^ n) (new_error c message) = new_error c message \<and>
    error_display ((pass_on ^^ n) (new_error c message)) = code_prefix c @ strip_code_prefix c message"
proof -
  have step: "pass_on (new_error c message) = new_error c message" for message
    by (simp add: pass_on_def new_error_def error_display_prefix without_code_prefix_eq
      strip_code_prefix_append strip_code_prefix_none strip_code_prefix_clean)
  have "(pass_on ^^ n) (new_error c message) = new_error c message"
    by (induction n) (simp_all add: step)
  then show ?thesis by (simp add: error_display_prefix new_error_def without_code_prefix_eq)
qed

end
