(* ===== verification/Kernel_Graph.thy ===== *)
theory Kernel_Graph imports Dag Error_Codes "HOL-Library.AList" "HOL-Library.List_Lexorder" "HOL-Library.Char_ord" begin

text \<open>
  \<^verbatim>\<open>PluginGraph\<close> of \<^verbatim>\<open>crates/harness-kernel/src/lib.rs\<close>: the composition of plugins is
  validated before any input is admitted. A \<^verbatim>\<open>BTreeMap\<close> is an association list; the key order
  of the \<^verbatim>\<open>edges\<close> map, in which the search starts from the nodes, is kept by sorting the
  identifiers.
\<close>

section \<open>Descriptors\<close>

record service_contract =
  sc_service_id :: string
  sc_api_version :: nat

definition service_contract_validate :: "service_contract \<Rightarrow> unit res" where
  "service_contract_validate s =
    (if blank (sc_service_id s) then Inl InvalidPayload
     else if sc_api_version s = 0 then Inl UnsupportedSchemaVersion
     else Inr ())"

record service_requirement =
  sr_service_id :: string
  sr_api_version :: nat
  sr_optional :: bool

definition required_service :: "string \<Rightarrow> nat \<Rightarrow> service_requirement" where
  "required_service s v = \<lparr>sr_service_id = s, sr_api_version = v, sr_optional = False\<rparr>"

definition optional_service :: "string \<Rightarrow> nat \<Rightarrow> service_requirement" where
  "optional_service s v = \<lparr>sr_service_id = s, sr_api_version = v, sr_optional = True\<rparr>"

record plugin_descriptor =
  pd_instance_id :: ident
  pd_scope_id :: ident
  pd_generation :: nat
  pd_provides :: "service_contract list"
  pd_requires :: "service_requirement list"

section \<open>Providers\<close>

type_synonym providers = "((ident \<times> string) \<times> plugin_descriptor list) list"

definition push_provider :: "plugin_descriptor \<Rightarrow> string \<Rightarrow> providers \<Rightarrow> providers" where
  "push_provider d service prov =
    (let key = (pd_scope_id d, service);
         candidates = (case map_of prov key of None \<Rightarrow> [] | Some cs \<Rightarrow> cs)
     in AList.update key
          (if \<exists>c \<in> set candidates. pd_instance_id c = pd_instance_id d then candidates
           else candidates @ [d]) prov)"

fun add_services :: "plugin_descriptor \<Rightarrow> service_contract list \<Rightarrow> providers \<Rightarrow> providers res" where
  "add_services d [] prov = Inr prov"
| "add_services d (s # ss) prov =
    (case service_contract_validate s of
      Inl e \<Rightarrow> Inl e
    | Inr _ \<Rightarrow> add_services d ss (push_provider d (sc_service_id s) prov))"

fun collect_providers ::
  "plugin_descriptor list \<Rightarrow> ident set \<Rightarrow> providers \<Rightarrow> providers res" where
  "collect_providers [] by_instance prov = Inr prov"
| "collect_providers (d # ds) by_instance prov =
    (if pd_generation d = 0 then Inl InvalidPayload
     else if pd_instance_id d \<in> by_instance then Inl DuplicateRegistration
     else case add_services d (pd_provides d) prov of
       Inl e \<Rightarrow> Inl e
     | Inr prov' \<Rightarrow> collect_providers ds (insert (pd_instance_id d) by_instance) prov')"

section \<open>Requirements\<close>

definition compatible_provider ::
  "plugin_descriptor list \<Rightarrow> service_requirement \<Rightarrow> plugin_descriptor option" where
  "compatible_provider candidates r =
    find (\<lambda>c. \<exists>s \<in> set (pd_provides c).
      sc_service_id s = sr_service_id r \<and> sc_api_version s = sr_api_version r) candidates"

definition resolve_requirement ::
  "providers \<Rightarrow> plugin_descriptor \<Rightarrow> service_requirement \<Rightarrow> ident option res" where
  "resolve_requirement prov d r =
    (if sr_api_version r = 0 \<or> blank (sr_service_id r) then Inl InvalidPayload
     else
      let candidates = map_of prov (pd_scope_id d, sr_service_id r)
      in case Option.bind candidates (\<lambda>cs. compatible_provider cs r) of
           Some p \<Rightarrow> Inr (Some (pd_instance_id p))
         | None \<Rightarrow>
             if sr_optional r then Inr None
             else if candidates \<noteq> None then Inl IncompatibleService
             else Inl MissingRequiredService)"

fun resolve_requirements ::
  "providers \<Rightarrow> plugin_descriptor \<Rightarrow> service_requirement list \<Rightarrow> ident list res" where
  "resolve_requirements prov d [] = Inr []"
| "resolve_requirements prov d (r # rs) =
    (case resolve_requirement prov d r of
      Inl e \<Rightarrow> Inl e
    | Inr dep \<Rightarrow>
        (case resolve_requirements prov d rs of
          Inl e \<Rightarrow> Inl e
        | Inr deps \<Rightarrow> Inr (case dep of None \<Rightarrow> deps | Some i \<Rightarrow> i # deps)))"

type_synonym edges = "(ident \<times> ident list) list"

fun dependency_edges :: "providers \<Rightarrow> plugin_descriptor list \<Rightarrow> edges res" where
  "dependency_edges prov [] = Inr []"
| "dependency_edges prov (d # ds) =
    (case resolve_requirements prov d (pd_requires d) of
      Inl e \<Rightarrow> Inl e
    | Inr deps \<Rightarrow>
        (case dependency_edges prov ds of
          Inl e \<Rightarrow> Inl e
        | Inr es \<Rightarrow> Inr ((pd_instance_id d, deps) # es)))"

section \<open>Cycle detection\<close>

definition children :: "edges \<Rightarrow> ident \<Rightarrow> ident list" where
  "children es n = (case map_of es n of None \<Rightarrow> [] | Some cs \<Rightarrow> cs)"

text \<open>The mutable sets \<^verbatim>\<open>visiting\<close> and \<^verbatim>\<open>visited\<close> are threaded through the calls.\<close>

function visit :: "edges \<Rightarrow> ident \<Rightarrow> ident set \<Rightarrow> ident set \<Rightarrow> (ident set \<times> ident set) res"
  and visit_each :: "edges \<Rightarrow> ident list \<Rightarrow> ident set \<Rightarrow> ident set \<Rightarrow> (ident set \<times> ident set) res"
where
  "visit es node visiting visited =
    (if node \<in> visited then Inr (visiting, visited)
     else if node \<in> visiting then Inl PluginCycle
     else case visit_each es (children es node) (insert node visiting) visited of
       Inl e \<Rightarrow> Inl e
     | Inr (visiting', visited') \<Rightarrow> Inr (visiting' - {node}, insert node visited'))"
| "visit_each es [] visiting visited = Inr (visiting, visited)"
| "visit_each es (c # cs) visiting visited =
    (case visit es c visiting visited of
      Inl e \<Rightarrow> Inl e
    | Inr (visiting', visited') \<Rightarrow> visit_each es cs visiting' visited')"
  by pat_completeness auto

lemma visit_restores_aux:
  "visit_visit_each_dom (Inl (es, n, vg, vd)) \<Longrightarrow> visit es n vg vd = Inr (vg', vd') \<Longrightarrow> vg' = vg"
  "visit_visit_each_dom (Inr (es, cs, vg, vd)) \<Longrightarrow> visit_each es cs vg vd = Inr (vg', vd') \<Longrightarrow> vg' = vg"
proof (induction es n vg vd and es cs vg vd arbitrary: vg' vd' and vg' vd' rule: visit_visit_each.pinduct)
  case (1 es node visiting visited)
  have eq: "visit es node visiting visited =
      (if node \<in> visited then Inr (visiting, visited)
       else if node \<in> visiting then Inl PluginCycle
       else case visit_each es (children es node) (insert node visiting) visited of
         Inl e \<Rightarrow> Inl e
       | Inr (visiting', visited') \<Rightarrow> Inr (visiting' - {node}, insert node visited'))"
    by (rule visit.psimps [OF "1.hyps"])
  show ?case
  proof (cases "node \<in> visited \<or> node \<in> visiting")
    case True
    with "1.prems" eq show ?thesis by (auto split: if_splits)
  next
    case False
    with "1.prems" eq obtain a b
      where r: "visit_each es (children es node) (insert node visiting) visited = Inr (a, b)"
      by (auto split: sum.splits)
    with False have "a = insert node visiting" using "1.IH" by blast
    with r "1.prems" eq False show ?thesis by auto
  qed
next
  case (2 es visiting visited)
  then show ?case by (simp add: visit_each.psimps)
next
  case (3 es c cs visiting visited)
  have eq: "visit_each es (c # cs) visiting visited =
      (case visit es c visiting visited of
        Inl e \<Rightarrow> Inl e
      | Inr (visiting', visited') \<Rightarrow> visit_each es cs visiting' visited')"
    by (rule visit_each.psimps(2) [OF "3.hyps"])
  with "3.prems" obtain a b where r: "visit es c visiting visited = Inr (a, b)"
    by (auto split: sum.splits)
  then have "a = visiting" using "3.IH"(1) by blast
  moreover from r "3.prems" eq have "visit_each es cs a b = Inr (vg', vd')" by simp
  ultimately show ?case using "3.IH"(2) [OF r] by blast
qed

definition visit_rank :: "edges \<Rightarrow> ident set \<Rightarrow> nat" where
  "visit_rank es visiting = card (set (map fst es) - visiting)"

lemma visit_rank_insert:
  "n \<notin> vg \<Longrightarrow> n \<in> fst ` set es \<Longrightarrow> visit_rank es (insert n vg) < visit_rank es vg"
  unfolding visit_rank_def by (intro psubset_card_mono) auto

lemma children_no_key: "n \<notin> fst ` set es \<Longrightarrow> children es n = []"
  by (simp add: children_def map_of_eq_None_iff [THEN iffD2])

termination visit
proof (relation "inv_image (less_than <*lex*> less_than)
    (\<lambda>x. case x of Inl (es, n, vg, vd) \<Rightarrow> (visit_rank es vg, 1)
       | Inr (es, cs, vg, vd) \<Rightarrow> (visit_rank es vg, 2 * length cs))", goal_cases)
  case (2 es n vg vd)
  then show ?case
  proof (cases "n \<in> fst ` set es")
    case True
    with 2 show ?thesis by (simp add: visit_rank_insert)
  next
    case False
    then have "visit_rank es (insert n vg) = visit_rank es vg"
      unfolding visit_rank_def by (metis Diff_insert0 list.set_map)
    with False show ?thesis by (simp add: children_no_key)
  qed
next
  case (4 es c cs vg vd p vg' vd')
  then have "vg' = vg" using visit_restores_aux(1) by metis
  then show ?case by simp
qed auto

declare visit.simps [simp del]

definition detect_cycle :: "edges \<Rightarrow> unit res" where
  "detect_cycle es =
    (case visit_each es (sort (map fst es)) {} {} of Inl e \<Rightarrow> Inl e | Inr _ \<Rightarrow> Inr ())"

definition plugin_graph_validate :: "plugin_descriptor list \<Rightarrow> unit res" where
  "plugin_graph_validate ds =
    (case collect_providers ds {} [] of
      Inl e \<Rightarrow> Inl e
    | Inr prov \<Rightarrow>
        if \<exists>p \<in> set prov. length (snd p) > 1 then Inl DuplicateRegistration
        else (case dependency_edges prov ds of
          Inl e \<Rightarrow> Inl e
        | Inr es \<Rightarrow> detect_cycle es))"

section \<open>The search is right\<close>

definition edge_succ :: "edges \<Rightarrow> ident \<Rightarrow> ident set" where
  "edge_succ es n = set (children es n)"

definition edge_rel :: "edges \<Rightarrow> (ident \<times> ident) set" where
  "edge_rel es = {(n, c). c \<in> edge_succ es n}"

text \<open>
  A visit that succeeds gives \<open>visiting\<close> back, finishes the node, finishes no node that is
  still being visited, and extends every dependency order of the finished nodes.
\<close>

definition visited_in_order :: "edges \<Rightarrow> ident set \<Rightarrow> bool" where
  "visited_in_order es vd \<longleftrightarrow> (\<exists>xs. set xs = vd \<and> dependency_order (edge_succ es) xs)"

lemma visited_in_order_insert:
  assumes "visited_in_order es vd" and "n \<notin> vd" and "edge_succ es n \<subseteq> vd"
  shows "visited_in_order es (insert n vd)"
proof -
  from assms(1) obtain xs where xs: "set xs = vd" "dependency_order (edge_succ es) xs"
    by (auto simp: visited_in_order_def)
  with assms(2,3) have "dependency_order (edge_succ es) (xs @ [n])" "set (xs @ [n]) = insert n vd"
    by auto
  then show ?thesis unfolding visited_in_order_def by blast
qed

lemma visit_sound:
  "visit es n vg vd = Inr (vg', vd') \<Longrightarrow>
    vg' = vg \<and> vd \<subseteq> vd' \<and> n \<in> vd' \<and> vd' \<inter> vg \<subseteq> vd \<and>
    (visited_in_order es vd \<longrightarrow> visited_in_order es vd')"
  "visit_each es cs vg vd = Inr (vg', vd') \<Longrightarrow>
    vg' = vg \<and> vd \<subseteq> vd' \<and> set cs \<subseteq> vd' \<and> vd' \<inter> vg \<subseteq> vd \<and>
    (visited_in_order es vd \<longrightarrow> visited_in_order es vd')"
proof (induction es n vg vd and es cs vg vd arbitrary: vg' vd' and vg' vd' rule: visit_visit_each.induct)
  case (1 es node visiting visited)
  show ?case
  proof (cases "node \<in> visited \<or> node \<in> visiting")
    case True
    with "1.prems" show ?thesis by (auto simp: visit.simps split: if_splits)
  next
    case False
    with "1.prems" obtain a b
      where r: "visit_each es (children es node) (insert node visiting) visited = Inr (a, b)"
        and out: "vg' = a - {node}" "vd' = insert node b"
      by (auto simp: visit.simps split: sum.splits)
    from "1.IH" [OF _ _ r] False
    have ih: "a = insert node visiting" "visited \<subseteq> b" "set (children es node) \<subseteq> b"
        "b \<inter> insert node visiting \<subseteq> visited"
        "visited_in_order es visited \<longrightarrow> visited_in_order es b"
      by blast+
    from ih(4) False have "node \<notin> b" by blast
    with ih out False show ?thesis
      by (auto intro!: visited_in_order_insert simp: edge_succ_def)
  qed
next
  case (2 es visiting visited)
  then show ?case by simp
next
  case (3 es c cs visiting visited)
  from "3.prems" obtain a b where r: "visit es c visiting visited = Inr (a, b)"
    and r': "visit_each es cs a b = Inr (vg', vd')"
    by (auto split: sum.splits)
  from "3.IH"(1) [OF r] have ih1: "a = visiting" "visited \<subseteq> b" "c \<in> b" "b \<inter> visiting \<subseteq> visited"
      "visited_in_order es visited \<longrightarrow> visited_in_order es b"
    by blast+
  from "3.IH"(2) [OF r refl r'] have ih2: "vg' = a" "b \<subseteq> vd'" "set cs \<subseteq> vd'" "vd' \<inter> a \<subseteq> b"
      "visited_in_order es b \<longrightarrow> visited_in_order es vd'"
    by blast+
  from ih1 ih2 have "vd' \<inter> visiting \<subseteq> visited" by blast
  moreover from ih1 ih2 have "set (c # cs) \<subseteq> vd'" "visited \<subseteq> vd'" by auto
  ultimately show ?case using ih1(1,5) ih2(1,5) by simp
qed

lemma visit_complete:
  "visit es n vg vd = Inl e \<Longrightarrow>
    e = PluginCycle \<and> ((\<forall>v \<in> vg. (v, n) \<in> (edge_rel es)\<^sup>+) \<longrightarrow> \<not> acyclic (edge_rel es))"
  "visit_each es cs vg vd = Inl e \<Longrightarrow>
    e = PluginCycle \<and>
    ((\<forall>v \<in> vg. \<forall>c \<in> set cs. (v, c) \<in> (edge_rel es)\<^sup>+) \<longrightarrow> \<not> acyclic (edge_rel es))"
proof (induction es n vg vd and es cs vg vd rule: visit_visit_each.induct)
  case (1 es node visiting visited)
  show ?case
  proof (cases "node \<in> visiting")
    case True
    with "1.prems" show ?thesis by (auto simp: visit.simps acyclic_def split: if_splits)
  next
    case False
    with "1.prems" have fresh: "node \<notin> visited"
      and r: "visit_each es (children es node) (insert node visiting) visited = Inl e"
      by (auto simp: visit.simps split: if_splits sum.splits)
    have "(v, c) \<in> (edge_rel es)\<^sup>+"
      if "\<forall>v \<in> visiting. (v, node) \<in> (edge_rel es)\<^sup>+" and "v \<in> insert node visiting"
        and "c \<in> set (children es node)" for v c
    proof -
      from that(3) have "(node, c) \<in> edge_rel es" by (simp add: edge_rel_def edge_succ_def)
      with that(1,2) show ?thesis by (auto intro: trancl_into_trancl)
    qed
    with "1.IH" [OF fresh False r] show ?thesis by blast
  qed
next
  case (2 es visiting visited)
  then show ?case by simp
next
  case (3 es c cs visiting visited)
  show ?case
  proof (cases "visit es c visiting visited")
    case (Inl e')
    with "3.prems" have "visit es c visiting visited = Inl e" by simp
    from "3.IH"(1) [OF this] show ?thesis by auto
  next
    case (Inr p)
    obtain a b where p: "p = (a, b)" by (cases p)
    from Inr p have "a = visiting" using visit_sound(1) by blast
    with Inr p "3.prems" have r: "visit_each es cs visiting b = Inl e" by simp
    from Inr p \<open>a = visiting\<close> have v: "visit es c visiting visited = Inr (visiting, b)" by simp
    from "3.IH"(2) [OF v refl r] show ?thesis by auto
  qed
qed

theorem detect_cycle_iff: "detect_cycle es = Inr () \<longleftrightarrow> acyclic (edge_rel es)"
proof (cases "visit_each es (sort (map fst es)) {} {}")
  case (Inl e)
  with visit_complete(2) [OF Inl] show ?thesis by (auto simp: detect_cycle_def)
next
  case (Inr p)
  obtain a b where p: "p = (a, b)" by (cases p)
  have "visited_in_order es {}" by (auto simp: visited_in_order_def)
  with visit_sound(2) [OF Inr [unfolded p]]
  have keys: "fst ` set es \<subseteq> b" and "visited_in_order es b" by auto
  then obtain xs where xs: "set xs = b" "dependency_order (edge_succ es) xs"
    by (auto simp: visited_in_order_def)
  have "n \<in> set xs" if "edge_succ es n \<noteq> {}" for n
    using that keys xs(1) children_no_key by (fastforce simp: edge_succ_def)
  with xs(2) have "acyclic (edge_rel es)"
    unfolding edge_rel_def by (rule dependency_order_acyclic)
  with Inr show ?thesis by (simp add: detect_cycle_def)
qed

lemma detect_cycle_Inl: "detect_cycle es = Inl e \<Longrightarrow> e = PluginCycle"
  using visit_complete(2) by (auto simp: detect_cycle_def split: sum.splits)

section \<open>The composition the validation accepts\<close>

text \<open>The contract, stated on the descriptors alone.\<close>

definition offers :: "plugin_descriptor \<Rightarrow> string \<Rightarrow> bool" where
  "offers d service \<longleftrightarrow> service \<in> sc_service_id ` set (pd_provides d)"

definition serves :: "plugin_descriptor \<Rightarrow> plugin_descriptor \<Rightarrow> service_requirement \<Rightarrow> bool" where
  "serves p d r \<longleftrightarrow> pd_scope_id p = pd_scope_id d \<and>
    (\<exists>s \<in> set (pd_provides p).
      sc_service_id s = sr_service_id r \<and> sc_api_version s = sr_api_version r)"

definition plugin_depends :: "plugin_descriptor list \<Rightarrow> (ident \<times> ident) set" where
  "plugin_depends ds =
    {(pd_instance_id d, pd_instance_id p) | d p. d \<in> set ds \<and> p \<in> set ds \<and>
      (\<exists>r \<in> set (pd_requires d). serves p d r)}"

definition well_formed_requirement :: "service_requirement \<Rightarrow> bool" where
  "well_formed_requirement r \<longleftrightarrow> sr_api_version r \<noteq> 0 \<and> \<not> blank (sr_service_id r)"

definition well_composed :: "plugin_descriptor list \<Rightarrow> bool" where
  "well_composed ds \<longleftrightarrow>
    distinct (map pd_instance_id ds) \<and>
    (\<forall>d \<in> set ds. 0 < pd_generation d \<and>
      (\<forall>s \<in> set (pd_provides d). service_contract_validate s = Inr ()) \<and>
      (\<forall>r \<in> set (pd_requires d). well_formed_requirement r \<and>
        (sr_optional r \<or> (\<exists>p \<in> set ds. serves p d r)))) \<and>
    (\<forall>d \<in> set ds. \<forall>p \<in> set ds. \<forall>service.
      pd_scope_id d = pd_scope_id p \<and> offers d service \<and> offers p service \<longrightarrow> d = p) \<and>
    acyclic (plugin_depends ds)"

section \<open>The provider table\<close>

definition candidates_of :: "providers \<Rightarrow> ident \<times> string \<Rightarrow> plugin_descriptor list" where
  "candidates_of prov key = (case map_of prov key of None \<Rightarrow> [] | Some cs \<Rightarrow> cs)"

definition prov_ok :: "providers \<Rightarrow> bool" where
  "prov_ok prov \<longleftrightarrow> distinct (map fst prov) \<and> [] \<notin> snd ` set prov"

lemma prov_ok_Nil [simp]: "prov_ok []"
  by (simp add: prov_ok_def)

lemma candidates_of_Nil [simp]: "candidates_of [] key = []"
  by (simp add: candidates_of_def)

lemma map_of_candidates:
  "prov_ok prov \<Longrightarrow> map_of prov key =
    (if candidates_of prov key = [] then None else Some (candidates_of prov key))"
  by (auto simp: candidates_of_def prov_ok_def rev_image_eqI split: option.splits dest!: map_of_SomeD)

lemma candidates_push:
  "candidates_of (push_provider d service prov) key =
    (if key = (pd_scope_id d, service) \<and>
        (\<forall>c \<in> set (candidates_of prov key). pd_instance_id c \<noteq> pd_instance_id d)
     then candidates_of prov key @ [d] else candidates_of prov key)"
  by (auto simp: push_provider_def candidates_of_def update_conv' Let_def split: option.splits)

lemma set_update_snd: "p \<in> set (AList.update k v xs) \<Longrightarrow> p \<in> set xs \<or> p = (k, v)"
  by (induction xs) (auto split: if_splits)

lemma prov_ok_push: "prov_ok prov \<Longrightarrow> prov_ok (push_provider d service prov)"
  unfolding prov_ok_def push_provider_def Let_def
  by (auto simp: distinct_update split: option.splits dest!: set_update_snd dest: map_of_SomeD)

lemma add_services_spec:
  assumes "add_services d ss prov = Inr prov'" and "prov_ok prov"
  shows "(\<forall>s \<in> set ss. service_contract_validate s = Inr ()) \<and> prov_ok prov' \<and>
    candidates_of prov' key =
      (if fst key = pd_scope_id d \<and> snd key \<in> sc_service_id ` set ss \<and>
          (\<forall>c \<in> set (candidates_of prov key). pd_instance_id c \<noteq> pd_instance_id d)
       then candidates_of prov key @ [d] else candidates_of prov key)"
  using assms
proof (induction ss arbitrary: prov)
  case (Cons s ss)
  from Cons.prems have v: "service_contract_validate s = Inr ()"
    and r: "add_services d ss (push_provider d (sc_service_id s) prov) = Inr prov'"
    by (auto split: sum.splits)
  note ih = Cons.IH [OF r prov_ok_push [OF Cons.prems(2)]]
  have "candidates_of prov' key =
      (if fst key = pd_scope_id d \<and> snd key \<in> sc_service_id ` set (s # ss) \<and>
          (\<forall>c \<in> set (candidates_of prov key). pd_instance_id c \<noteq> pd_instance_id d)
       then candidates_of prov key @ [d] else candidates_of prov key)"
  proof (cases "key = (pd_scope_id d, sc_service_id s)")
    case True
    then have "candidates_of (push_provider d (sc_service_id s) prov) key =
        (if \<forall>c \<in> set (candidates_of prov key). pd_instance_id c \<noteq> pd_instance_id d
         then candidates_of prov key @ [d] else candidates_of prov key)"
      by (simp add: candidates_push)
    with True ih show ?thesis by (auto split: if_splits)
  next
    case False
    then have "candidates_of (push_provider d (sc_service_id s) prov) key = candidates_of prov key"
      by (simp add: candidates_push)
    moreover from False have "\<not> (fst key = pd_scope_id d \<and> snd key = sc_service_id s)"
      by (cases key) auto
    ultimately show ?thesis using ih by auto
  qed
  with ih v show ?case by simp
qed simp

lemma add_services_ok:
  "\<forall>s \<in> set ss. service_contract_validate s = Inr () \<Longrightarrow> \<exists>prov'. add_services d ss prov = Inr prov'"
  by (induction ss arbitrary: prov) auto

definition offering :: "plugin_descriptor list \<Rightarrow> ident \<times> string \<Rightarrow> plugin_descriptor list" where
  "offering ds key = filter (\<lambda>d. pd_scope_id d = fst key \<and> offers d (snd key)) ds"

lemma offering_Nil [simp]: "offering [] key = []"
  by (simp add: offering_def)

lemma collect_providers_spec:
  assumes "collect_providers ds seen prov = Inr prov'" and "prov_ok prov"
    and "\<And>key. candidates_of prov key = offering prev key" and "seen = pd_instance_id ` set prev"
    and "distinct (map pd_instance_id prev)"
  shows "distinct (map pd_instance_id (prev @ ds)) \<and> prov_ok prov' \<and>
    (\<forall>d \<in> set ds. 0 < pd_generation d \<and>
      (\<forall>s \<in> set (pd_provides d). service_contract_validate s = Inr ())) \<and>
    (\<forall>key. candidates_of prov' key = offering (prev @ ds) key)"
  using assms
proof (induction ds arbitrary: seen prov prev)
  case (Cons d ds)
  from Cons.prems(1) obtain prov1 where g: "0 < pd_generation d" and new: "pd_instance_id d \<notin> seen"
    and a: "add_services d (pd_provides d) prov = Inr prov1"
    and r: "collect_providers ds (insert (pd_instance_id d) seen) prov1 = Inr prov'"
    by (auto split: if_splits sum.splits)
  note spec = add_services_spec [OF a Cons.prems(2)]
  have fresh: "pd_instance_id c \<noteq> pd_instance_id d" if "c \<in> set (candidates_of prov key)" for c key
  proof -
    from that have "c \<in> set prev" by (simp add: Cons.prems(3) offering_def)
    then have "pd_instance_id c \<in> seen" unfolding Cons.prems(4) by (rule imageI)
    with new show ?thesis by auto
  qed
  have "candidates_of prov1 key = offering (prev @ [d]) key" for key
  proof -
    have "\<forall>c \<in> set (candidates_of prov key). pd_instance_id c \<noteq> pd_instance_id d"
      using fresh by blast
    with spec [of key] have "candidates_of prov1 key =
        (if fst key = pd_scope_id d \<and> offers d (snd key) then candidates_of prov key @ [d]
         else candidates_of prov key)"
      by (simp add: offers_def)
    then show ?thesis by (simp add: Cons.prems(3) offering_def eq_commute)
  qed
  from Cons.IH [OF r _ this] spec new Cons.prems(4,5)
  have "distinct (map pd_instance_id ((prev @ [d]) @ ds)) \<and> prov_ok prov' \<and>
    (\<forall>d \<in> set ds. 0 < pd_generation d \<and>
      (\<forall>s \<in> set (pd_provides d). service_contract_validate s = Inr ())) \<and>
    (\<forall>key. candidates_of prov' key = offering ((prev @ [d]) @ ds) key)"
    by simp
  with spec g show ?case by simp
qed simp

lemma collect_providers_ok:
  assumes "\<forall>d \<in> set ds. 0 < pd_generation d \<and>
      (\<forall>s \<in> set (pd_provides d). service_contract_validate s = Inr ())"
    and "distinct (map pd_instance_id ds)" and "seen \<inter> pd_instance_id ` set ds = {}"
  shows "\<exists>prov'. collect_providers ds seen prov = Inr prov'"
  using assms
proof (induction ds arbitrary: seen prov)
  case (Cons d ds)
  then obtain prov1 where "add_services d (pd_provides d) prov = Inr prov1"
    using add_services_ok [of "pd_provides d"] by fastforce
  moreover have "\<exists>prov'. collect_providers ds (insert (pd_instance_id d) seen) prov1 = Inr prov'"
    using Cons.prems by (intro Cons.IH) auto
  ultimately show ?case using Cons.prems by auto
qed simp

section \<open>Validation decides the contract\<close>

lemma compatible_provider_single:
  "compatible_provider [p] r = (if \<exists>s \<in> set (pd_provides p).
     sc_service_id s = sr_service_id r \<and> sc_api_version s = sr_api_version r then Some p else None)"
  by (simp add: compatible_provider_def)

text \<open>What the provider table holds once no scope has two providers of one service.\<close>

definition table_of :: "providers \<Rightarrow> plugin_descriptor list \<Rightarrow> bool" where
  "table_of prov ds \<longleftrightarrow> prov_ok prov \<and> (\<forall>key. candidates_of prov key = offering ds key) \<and>
    (\<forall>key. length (offering ds key) \<le> 1)"

lemma find_serves:
  assumes "table_of prov ds"
  shows "Option.bind (map_of prov (pd_scope_id d, sr_service_id r)) (\<lambda>cs. compatible_provider cs r)
      = find (\<lambda>p. serves p d r) ds"
proof -
  let ?key = "(pd_scope_id d, sr_service_id r)"
  from assms have map: "map_of prov ?key = (if offering ds ?key = [] then None else Some (offering ds ?key))"
    by (simp add: table_of_def map_of_candidates)
  have serves: "serves p d r \<longleftrightarrow> (pd_scope_id p = pd_scope_id d \<and> offers p (sr_service_id r)) \<and>
      (\<exists>s \<in> set (pd_provides p). sc_service_id s = sr_service_id r \<and> sc_api_version s = sr_api_version r)"
    for p by (auto simp: serves_def offers_def rev_image_eqI)
  have "find (\<lambda>p. serves p d r) ds = compatible_provider (offering ds ?key) r"
    unfolding offering_def compatible_provider_def
    by (induction ds) (auto simp: serves)
  with map show ?thesis by (simp add: compatible_provider_def)
qed

lemma resolve_requirement_iff:
  assumes "table_of prov ds"
  shows "(\<exists>x. resolve_requirement prov d r = Inr x) \<longleftrightarrow>
      well_formed_requirement r \<and> (sr_optional r \<or> (\<exists>p \<in> set ds. serves p d r))"
    and "resolve_requirement prov d r = Inr x \<Longrightarrow>
      x = map_option pd_instance_id (find (\<lambda>p. serves p d r) ds)"
proof -
  have found: "(\<exists>p \<in> set ds. serves p d r) \<longleftrightarrow> find (\<lambda>p. serves p d r) ds \<noteq> None"
    by (auto simp: find_None_iff)
  show "(\<exists>x. resolve_requirement prov d r = Inr x) \<longleftrightarrow>
      well_formed_requirement r \<and> (sr_optional r \<or> (\<exists>p \<in> set ds. serves p d r))"
    unfolding resolve_requirement_def Let_def find_serves [OF assms] found well_formed_requirement_def
    by (auto split: option.split)
  show "resolve_requirement prov d r = Inr x \<Longrightarrow>
      x = map_option pd_instance_id (find (\<lambda>p. serves p d r) ds)"
    unfolding resolve_requirement_def Let_def find_serves [OF assms]
    by (auto split: option.splits if_splits)
qed

lemma resolve_requirements_iff:
  assumes "table_of prov ds"
  shows "(\<exists>deps. resolve_requirements prov d rs = Inr deps) \<longleftrightarrow>
      (\<forall>r \<in> set rs. well_formed_requirement r \<and> (sr_optional r \<or> (\<exists>p \<in> set ds. serves p d r)))"
    and "resolve_requirements prov d rs = Inr deps \<Longrightarrow>
      set deps = {pd_instance_id p | p r. r \<in> set rs \<and> find (\<lambda>p. serves p d r) ds = Some p}"
proof (induction rs arbitrary: deps)
  case (Cons r rs)
  {
    case 1
    show ?case using Cons.IH(1) resolve_requirement_iff(1) [OF assms, of d r]
      by (auto split: sum.splits)
  next
    case 2
    then obtain x deps' where "resolve_requirement prov d r = Inr x"
      and "resolve_requirements prov d rs = Inr deps'"
      and "deps = (case x of None \<Rightarrow> deps' | Some i \<Rightarrow> i # deps')"
      by (auto split: sum.splits)
    with Cons.IH(2) [of deps'] resolve_requirement_iff(2) [OF assms, of d r x] show ?case
      by (auto split: option.splits)
  }
qed auto

lemma dependency_edges_iff:
  assumes "table_of prov ds"
  shows "(\<exists>es. dependency_edges prov xs = Inr es) \<longleftrightarrow>
      (\<forall>d \<in> set xs. \<forall>r \<in> set (pd_requires d).
        well_formed_requirement r \<and> (sr_optional r \<or> (\<exists>p \<in> set ds. serves p d r)))"
    and "dependency_edges prov xs = Inr es \<Longrightarrow> map fst es = map pd_instance_id xs \<and>
      (\<forall>(i, deps) \<in> set es. \<exists>d \<in> set xs. i = pd_instance_id d \<and>
         resolve_requirements prov d (pd_requires d) = Inr deps) \<and>
      (\<forall>d \<in> set xs. \<exists>deps. (pd_instance_id d, deps) \<in> set es \<and>
         resolve_requirements prov d (pd_requires d) = Inr deps)"
proof (induction xs arbitrary: es)
  case (Cons d xs)
  {
    case 1
    show ?case
      using Cons.IH(1) resolve_requirements_iff(1) [OF assms, of d "pd_requires d"]
      by (cases "resolve_requirements prov d (pd_requires d)"; cases "dependency_edges prov xs") simp_all
  next
    case 2
    then obtain deps es' where "resolve_requirements prov d (pd_requires d) = Inr deps"
      and "dependency_edges prov xs = Inr es'" and "es = (pd_instance_id d, deps) # es'"
      by (auto split: sum.splits)
    with Cons.IH(2) [of es'] show ?case by auto
  }
qed auto

lemma find_serves_unique:
  assumes "\<forall>key. length (offering ds key) \<le> 1"
  shows "find (\<lambda>p. serves p d r) ds = Some p \<longleftrightarrow> p \<in> set ds \<and> serves p d r"
proof
  assume "find (\<lambda>p. serves p d r) ds = Some p"
  then show "p \<in> set ds \<and> serves p d r" by (auto simp: find_Some_iff)
next
  assume p: "p \<in> set ds \<and> serves p d r"
  then obtain q where q: "find (\<lambda>p. serves p d r) ds = Some q"
    by (cases "find (\<lambda>p. serves p d r) ds") (auto simp: find_None_iff)
  let ?L = "offering ds (pd_scope_id d, sr_service_id r)"
  from q have "q \<in> set ds \<and> serves q d r" by (auto simp: find_Some_iff)
  with p have "p \<in> set ?L" "q \<in> set ?L"
    by (auto simp: offering_def serves_def offers_def rev_image_eqI)
  moreover have "length ?L \<le> 1" using assms by blast
  ultimately have "p = q" by (cases ?L) (auto simp: le_Suc_eq length_Suc_conv)
  with q show "find (\<lambda>p. serves p d r) ds = Some p" by simp
qed

lemma edge_rel_plugin_depends:
  assumes table: "table_of prov ds" and distinct: "distinct (map pd_instance_id ds)"
    and edges: "dependency_edges prov ds = Inr es"
  shows "edge_rel es = plugin_depends ds"
proof -
  note spec = dependency_edges_iff(2) [OF table edges]
  from table have unique: "\<forall>key. length (offering ds key) \<le> 1" by (simp add: table_of_def)
  have map: "map_of es (pd_instance_id d) = Some deps \<longleftrightarrow>
      resolve_requirements prov d (pd_requires d) = Inr deps" if "d \<in> set ds" for d deps
  proof -
    from spec distinct have keys: "distinct (map fst es)" by simp
    from spec that obtain deps' where "(pd_instance_id d, deps') \<in> set es"
      and r: "resolve_requirements prov d (pd_requires d) = Inr deps'" by blast
    with keys have "map_of es (pd_instance_id d) = Some deps'" by (simp add: map_of_eq_Some_iff)
    with r show ?thesis by auto
  qed
  have succ: "edge_succ es (pd_instance_id d) =
      {pd_instance_id p | p r. r \<in> set (pd_requires d) \<and> p \<in> set ds \<and> serves p d r}" if "d \<in> set ds" for d
  proof -
    from spec that obtain deps where r: "resolve_requirements prov d (pd_requires d) = Inr deps"
      by blast
    with map [OF that, of deps]
    have "edge_succ es (pd_instance_id d) = set deps"
      by (simp add: edge_succ_def children_def)
    with resolve_requirements_iff(2) [OF table r] show ?thesis
      by (simp only: find_serves_unique [OF unique])
  qed
  have "n \<in> pd_instance_id ` set ds" if "edge_succ es n \<noteq> {}" for n
  proof -
    from that have "n \<in> fst ` set es" using children_no_key by (fastforce simp: edge_succ_def)
    also have "fst ` set es = pd_instance_id ` set ds"
      using spec by (metis list.set_map)
    finally show ?thesis .
  qed
  then show ?thesis
    unfolding edge_rel_def plugin_depends_def using succ by fastforce
qed

lemma collected_table:
  assumes "collect_providers ds {} [] = Inr prov" and "\<not> (\<exists>p \<in> set prov. length (snd p) > 1)"
  shows "table_of prov ds"
proof -
  from collect_providers_spec [OF assms(1), where prev = "[]"]
  have ok: "prov_ok prov" and c: "candidates_of prov key = offering ds key" for key
    by (auto simp del: split_paired_All)
  have "length (offering ds key) \<le> 1" for key
    using assms(2) c [of key] by (force simp: candidates_of_def split: option.splits dest: map_of_SomeD)
  with ok c show ?thesis by (simp add: table_of_def)
qed

lemma unique_offering:
  assumes "distinct (map pd_instance_id ds)"
  shows "(\<forall>key. length (offering ds key) \<le> 1) \<longleftrightarrow>
    (\<forall>d \<in> set ds. \<forall>p \<in> set ds. \<forall>service.
      pd_scope_id d = pd_scope_id p \<and> offers d service \<and> offers p service \<longrightarrow> d = p)"
    (is "?L \<longleftrightarrow> ?R")
proof
  assume L: ?L
  show ?R
  proof (intro ballI allI impI)
    fix d p service
    assume "d \<in> set ds" "p \<in> set ds"
      "pd_scope_id d = pd_scope_id p \<and> offers d service \<and> offers p service"
    then have "d \<in> set (offering ds (pd_scope_id d, service))"
      "p \<in> set (offering ds (pd_scope_id d, service))"
      by (auto simp: offering_def)
    moreover have "length (offering ds (pd_scope_id d, service)) \<le> 1" using L by blast
    ultimately show "d = p"
      by (cases "offering ds (pd_scope_id d, service)") (auto simp: le_Suc_eq length_Suc_conv)
  qed
next
  assume R: ?R
  show ?L
  proof
    fix key
    from assms have "distinct (offering ds key)"
      by (auto simp: offering_def distinct_map)
    moreover have "set (offering ds key) \<subseteq> {d}" if "d \<in> set (offering ds key)" for d
    proof
      fix x
      assume "x \<in> set (offering ds key)"
      with that R show "x \<in> {d}" unfolding offering_def by simp metis
    qed
    ultimately have "card (set (offering ds key)) \<le> 1"
      by (metis card.empty card_mono empty_set finite.emptyI finite_insert is_singletonI
          is_singleton_altdef le_numeral_extra(4) list.set_intros(1) neq_Nil_conv zero_le_one)
    with \<open>distinct (offering ds key)\<close> show "length (offering ds key) \<le> 1"
      by (simp add: distinct_card)
  qed
qed

lemma plugin_graph_validate_sound:
  assumes "plugin_graph_validate ds = Inr ()"
  shows "well_composed ds"
proof -
  from assms obtain prov es where c: "collect_providers ds {} [] = Inr prov"
    and single: "\<not> (\<exists>p \<in> set prov. length (snd p) > 1)"
    and e: "dependency_edges prov ds = Inr es" and acyc: "detect_cycle es = Inr ()"
    by (auto simp: plugin_graph_validate_def split: sum.splits if_splits)
  from c single have table: "table_of prov ds" by (rule collected_table)
  from collect_providers_spec [OF c, where prev = "[]"]
  have d: "distinct (map pd_instance_id ds)" and v: "\<forall>d \<in> set ds. 0 < pd_generation d \<and>
      (\<forall>s \<in> set (pd_provides d). service_contract_validate s = Inr ())"
    by (auto simp: offering_def)
  have "acyclic (plugin_depends ds)"
    using acyc edge_rel_plugin_depends [OF table d e] by (simp add: detect_cycle_iff)
  moreover have "\<forall>d \<in> set ds. \<forall>r \<in> set (pd_requires d).
      well_formed_requirement r \<and> (sr_optional r \<or> (\<exists>p \<in> set ds. serves p d r))"
    using dependency_edges_iff(1) [OF table, of ds] e by blast
  moreover have "\<forall>key. length (offering ds key) \<le> 1" using table by (simp add: table_of_def)
  ultimately show ?thesis using d v unique_offering [OF d] by (simp add: well_composed_def)
qed

lemma plugin_graph_validate_complete:
  assumes "well_composed ds"
  shows "plugin_graph_validate ds = Inr ()"
proof -
  from assms have d: "distinct (map pd_instance_id ds)"
    and v: "\<forall>d \<in> set ds. 0 < pd_generation d \<and>
      (\<forall>s \<in> set (pd_provides d). service_contract_validate s = Inr ())"
    by (auto simp: well_composed_def)
  then obtain prov where c: "collect_providers ds {} [] = Inr prov"
    using collect_providers_ok [of ds "{}" "[]"] by auto
  from collect_providers_spec [OF c, where prev = "[]"]
  have ok: "prov_ok prov" and cand: "candidates_of prov key = offering ds key" for key
    by (auto simp del: split_paired_All)
  have one: "length (offering ds key) \<le> 1" for key
    using assms unique_offering [OF d] unfolding well_composed_def by blast
  have single: "\<not> (\<exists>p \<in> set prov. length (snd p) > 1)"
  proof
    assume "\<exists>p \<in> set prov. length (snd p) > 1"
    then obtain k cs where "(k, cs) \<in> set prov" "length cs > 1" by auto
    with ok have "candidates_of prov k = cs"
      by (simp add: candidates_of_def prov_ok_def map_of_eq_Some_iff [THEN iffD2])
    with \<open>length cs > 1\<close> one [of k] cand [of k] show False by simp
  qed
  from c single have table: "table_of prov ds" by (rule collected_table)
  from assms obtain es where e: "dependency_edges prov ds = Inr es"
    using dependency_edges_iff(1) [OF table, of ds] by (auto simp: well_composed_def)
  from assms have "detect_cycle es = Inr ()"
    using edge_rel_plugin_depends [OF table d e] by (simp add: detect_cycle_iff well_composed_def)
  with c single e show ?thesis by (simp add: plugin_graph_validate_def)
qed

text \<open>
  C36. The graph validation accepts exactly the well-composed plugin sets: distinct instances
  with positive generations and valid services, one provider of a service per scope, every
  required service offered in its scope at its version, and no dependency cycle.
\<close>

theorem plugin_graph_validate_iff: "plugin_graph_validate ds = Inr () \<longleftrightarrow> well_composed ds"
  using plugin_graph_validate_sound plugin_graph_validate_complete by blast

text \<open>
  The depth-first search over the plugin edges succeeds exactly when the dependency
  relation has no cycle, and its only failure is the cycle error.
\<close>

theorem detect_cycle_decides:
  "detect_cycle es = (if acyclic (edge_rel es) then Inr () else Inl PluginCycle)"
  using detect_cycle_iff [of es] detect_cycle_Inl [of es]
  by (cases "detect_cycle es") auto

end
