(* ===== verification/Systems.thy ===== *)
theory Systems imports Prelude begin

text \<open>
  The interface every state machine of the model offers to its proofs: initial states, steps,
  and an invariant that holds in the former and is kept by the latter. A component interprets
  \<open>invariant_system\<close> on its own step relation and gets the invariant in every reachable state
  and along every run.
\<close>

inductive reach :: "('s \<Rightarrow> bool) \<Rightarrow> ('s \<Rightarrow> 's \<Rightarrow> bool) \<Rightarrow> 's \<Rightarrow> bool" for init step where
  reach_init: "init s \<Longrightarrow> reach init step s"
| reach_step: "reach init step s \<Longrightarrow> step s t \<Longrightarrow> reach init step t"

lemma reach_run: "step\<^sup>*\<^sup>* s t \<Longrightarrow> reach init step s \<Longrightarrow> reach init step t"
  by (induction rule: rtranclp_induct) (auto intro: reach_step)

locale step_system =
  fixes step :: "'s \<Rightarrow> 's \<Rightarrow> bool" and inv :: "'s \<Rightarrow> bool"
  assumes inv_step: "inv s \<Longrightarrow> step s t \<Longrightarrow> inv t"
begin

lemma inv_run: "step\<^sup>*\<^sup>* s t \<Longrightarrow> inv s \<Longrightarrow> inv t"
  by (induction rule: rtranclp_induct) (auto intro: inv_step)

text \<open>A relation between a state and its past that every step extends holds along a run.\<close>

lemma run_relation:
  assumes refl: "\<And>s. inv s \<Longrightarrow> R s s"
    and extend: "\<And>s t u. inv s \<Longrightarrow> inv t \<Longrightarrow> R s t \<Longrightarrow> step t u \<Longrightarrow> R s u"
    and run: "step\<^sup>*\<^sup>* s t" and inv: "inv s"
  shows "R s t"
  using run
proof (induction rule: rtranclp_induct)
  case base
  show ?case using inv by (rule refl)
next
  case (step t u)
  then have "inv t" using inv_run inv by blast
  with step extend inv show ?case by blast
qed

end

locale invariant_system = step_system step inv
  for step :: "'s \<Rightarrow> 's \<Rightarrow> bool" and inv :: "'s \<Rightarrow> bool" +
  fixes init :: "'s \<Rightarrow> bool"
  assumes inv_init: "init s \<Longrightarrow> inv s"
begin

lemma reach_inv: "reach init step s \<Longrightarrow> inv s"
  by (induction rule: reach.induct) (auto intro: inv_init inv_step)

end

end
