(* ===== verification/Kernel_Registry.thy ===== *)
theory Kernel_Registry imports Systems Error_Codes begin

text \<open>
  \<^verbatim>\<open>ScopedRegistry\<close> of \<^verbatim>\<open>crates/harness-kernel/src/lib.rs\<close>: services registered in a tree
  of scopes and looked up in the nearest one. The loop of \<^verbatim>\<open>lookup\<close> walks the parent chain, so
  it is modelled as a function that may not return; the tree invariant is what makes it return.
\<close>

record registration_token =
  rt_registration_id :: nat
  rt_instance_id :: ident
  rt_generation :: nat
  rt_scope_id :: ident
  rt_service_id :: string

record scoped_registry =
  reg_parents :: "ident \<rightharpoonup> ident option"
  reg_registrations :: "ident \<times> string \<rightharpoonup> registration_token"
  reg_next_id :: nat

definition default_registry :: scoped_registry where
  "default_registry = \<lparr>reg_parents = Map.empty, reg_registrations = Map.empty, reg_next_id = 0\<rparr>"

definition add_scope :: "ident \<Rightarrow> ident option \<Rightarrow> scoped_registry \<Rightarrow> scoped_registry res" where
  "add_scope scope parent r =
    (if (case parent of None \<Rightarrow> False | Some p \<Rightarrow> reg_parents r p = None) then Inl InvalidPayload
     else if reg_parents r scope \<noteq> None then Inl DuplicateRegistration
     else Inr (r\<lparr>reg_parents := (reg_parents r)(scope \<mapsto> parent)\<rparr>))"

definition add_root :: "ident \<Rightarrow> scoped_registry \<Rightarrow> scoped_registry res" where
  "add_root scope r = add_scope scope None r"

definition register ::
  "ident \<Rightarrow> string \<Rightarrow> ident \<Rightarrow> nat \<Rightarrow> scoped_registry \<Rightarrow> (registration_token \<times> scoped_registry) res" where
  "register scope service inst generation r =
    (if generation = 0 \<or> reg_parents r scope = None then Inl InvalidPayload
     else if blank service then Inl InvalidPayload
     else if reg_registrations r (scope, service) \<noteq> None then Inl DuplicateRegistration
     else case checked_add_u64 (reg_next_id r) 1 of
       None \<Rightarrow> Inl ShutdownFailed
     | Some next_id \<Rightarrow>
        let token = \<lparr>rt_registration_id = next_id, rt_instance_id = inst,
              rt_generation = generation, rt_scope_id = scope, rt_service_id = service\<rparr>
        in Inr (token, r\<lparr>reg_registrations := (reg_registrations r)((scope, service) \<mapsto> token),
                         reg_next_id := next_id\<rparr>))"

partial_function (option) lookup_from ::
  "scoped_registry \<Rightarrow> string \<Rightarrow> ident option \<Rightarrow> registration_token option option" where
  "lookup_from r service current =
    (case current of
      None \<Rightarrow> Some None
    | Some scope \<Rightarrow>
        (case reg_registrations r (scope, service) of
          Some registration \<Rightarrow> Some (Some registration)
        | None \<Rightarrow> lookup_from r service
            (case reg_parents r scope of None \<Rightarrow> None | Some parent \<Rightarrow> parent)))"

definition lookup :: "scoped_registry \<Rightarrow> ident \<Rightarrow> string \<Rightarrow> registration_token option option" where
  "lookup r scope service = lookup_from r service (Some scope)"

definition undo :: "registration_token \<Rightarrow> scoped_registry \<Rightarrow> bool \<times> scoped_registry" where
  "undo token r =
    (let key = (rt_scope_id token, rt_service_id token)
     in if reg_registrations r key = Some token
        then (True, r\<lparr>reg_registrations := (reg_registrations r)(key := None)\<rparr>)
        else (False, r))"

section \<open>Steps and invariant\<close>

inductive registry_step :: "scoped_registry \<Rightarrow> scoped_registry \<Rightarrow> bool" where
  step_add_scope: "add_scope scope parent r = Inr r' \<Longrightarrow> registry_step r r'"
| step_register: "register scope service inst generation r = Inr (token, r') \<Longrightarrow> registry_step r r'"
| step_undo: "undo token r = (b, r') \<Longrightarrow> registry_step r r'"

text \<open>
  The parents form a tree that only grows at the leaves; a token sits under the key it names,
  in a scope that exists, and carries an identifier that was handed out.
\<close>

definition parent_rel :: "scoped_registry \<Rightarrow> (ident \<times> ident) set" where
  "parent_rel r = {(p, s). reg_parents r s = Some (Some p)}"

definition registry_inv :: "scoped_registry \<Rightarrow> bool" where
  "registry_inv r \<longleftrightarrow>
    wf (parent_rel r) \<and>
    (\<forall>p s. (p, s) \<in> parent_rel r \<longrightarrow> reg_parents r p \<noteq> None) \<and>
    (\<forall>key t. reg_registrations r key = Some t \<longrightarrow>
      key = (rt_scope_id t, rt_service_id t) \<and> rt_registration_id t \<le> reg_next_id r \<and>
      reg_parents r (fst key) \<noteq> None)"

lemma registry_inv_row:
  "registry_inv r \<Longrightarrow> reg_registrations r key = Some t \<Longrightarrow>
    key = (rt_scope_id t, rt_service_id t) \<and> rt_registration_id t \<le> reg_next_id r \<and>
    reg_parents r (fst key) \<noteq> None"
  by (simp add: registry_inv_def del: split_paired_All)

lemma registry_inv_default: "registry_inv default_registry"
  by (simp add: registry_inv_def default_registry_def parent_rel_def)

lemma add_scope_inv:
  assumes inv: "registry_inv r" and add: "add_scope scope parent r = Inr r'"
  shows "registry_inv r'"
proof -
  from add have new: "reg_parents r scope = None"
    and r': "r' = r\<lparr>reg_parents := (reg_parents r)(scope \<mapsto> parent)\<rparr>"
    and known: "\<And>p. parent = Some p \<Longrightarrow> reg_parents r p \<noteq> None"
    by (auto simp: add_scope_def split: if_splits option.splits)
  from inv new have leaf: "(scope, s) \<notin> parent_rel r" for s
    by (auto simp: registry_inv_def)
  have rel: "parent_rel r' = (case parent of None \<Rightarrow> parent_rel r | Some p \<Rightarrow> insert (p, scope) (parent_rel r))"
    using new by (auto simp: parent_rel_def r' split: option.splits)
  have "wf (parent_rel r')"
  proof (cases parent)
    case None
    with rel inv show ?thesis by (simp add: registry_inv_def)
  next
    case (Some p)
    with known new have "p \<noteq> scope" by auto
    moreover have "(scope, p) \<notin> (parent_rel r)\<^sup>*" if "p \<noteq> scope"
      using that leaf by (metis converse_rtranclE)
    ultimately show ?thesis using Some rel inv by (simp add: registry_inv_def wf_insert)
  qed
  moreover have "reg_parents r' p \<noteq> None" if "(p, s) \<in> parent_rel r'" for p s
    using that inv rel known by (auto simp: r' registry_inv_def split: option.splits)
  ultimately show ?thesis using inv unfolding registry_inv_def by (auto simp: r')
qed

lemma register_inv:
  assumes inv: "registry_inv r" and reg: "register scope service inst generation r = Inr (token, r')"
  shows "registry_inv r'"
proof -
  from reg have r': "r' = r\<lparr>reg_registrations := (reg_registrations r)((scope, service) \<mapsto> token),
      reg_next_id := Suc (reg_next_id r)\<rparr>"
    and token: "rt_scope_id token = scope" "rt_service_id token = service"
      "rt_registration_id token = Suc (reg_next_id r)"
    and known: "reg_parents r scope \<noteq> None"
    by (auto simp: register_def Let_def split: if_splits option.splits)
  have rel: "parent_rel r' = parent_rel r" by (simp add: parent_rel_def r')
  have row: "key = (rt_scope_id t, rt_service_id t) \<and> rt_registration_id t \<le> reg_next_id r' \<and>
      reg_parents r' (fst key) \<noteq> None" if "reg_registrations r' key = Some t" for key t
  proof (cases "key = (scope, service)")
    case True
    with that have "t = token" by (simp add: r')
    with True token known show ?thesis by (simp add: r')
  next
    case False
    with that have "reg_registrations r key = Some t" by (auto simp: r')
    then show ?thesis using registry_inv_row [OF inv] by (fastforce simp: r')
  qed
  have "\<forall>p s. (p, s) \<in> parent_rel r \<longrightarrow> reg_parents r' p \<noteq> None"
    using inv by (simp add: registry_inv_def r')
  with row rel inv show ?thesis by (simp add: registry_inv_def del: split_paired_All)
qed

lemma undo_inv:
  assumes inv: "registry_inv r" and undo: "undo token r = (b, r')"
  shows "registry_inv r'"
proof -
  from undo have fields: "reg_parents r' = reg_parents r" "reg_next_id r' = reg_next_id r"
    and sub: "\<And>key t. reg_registrations r' key = Some t \<Longrightarrow> reg_registrations r key = Some t"
    by (auto simp: undo_def Let_def split: if_splits)
  from fields have "parent_rel r' = parent_rel r" by (simp add: parent_rel_def)
  moreover have "key = (rt_scope_id t, rt_service_id t) \<and> rt_registration_id t \<le> reg_next_id r \<and>
      reg_parents r (fst key) \<noteq> None" if "reg_registrations r' key = Some t" for key t
    using registry_inv_row [OF inv sub [OF that]] .
  ultimately show ?thesis using inv fields by (simp add: registry_inv_def del: split_paired_All)
qed

lemma registry_inv_step: "registry_inv r \<Longrightarrow> registry_step r r' \<Longrightarrow> registry_inv r'"
  by (auto elim!: registry_step.cases intro: add_scope_inv register_inv undo_inv)

interpretation registry: invariant_system registry_step registry_inv "\<lambda>r. r = default_registry"
  by unfold_locales (auto intro: registry_inv_step simp: registry_inv_default)

section \<open>Lookup finds the nearest registration\<close>

inductive nearest :: "scoped_registry \<Rightarrow> string \<Rightarrow> ident \<Rightarrow> registration_token \<Rightarrow> bool" for r service where
  nearest_here: "reg_registrations r (scope, service) = Some t \<Longrightarrow> nearest r service scope t"
| nearest_up: "reg_registrations r (scope, service) = None \<Longrightarrow>
    reg_parents r scope = Some (Some parent) \<Longrightarrow> nearest r service parent t \<Longrightarrow> nearest r service scope t"

inductive_simps nearest_iff: "nearest r service scope t"

lemma lookup_from_returns:
  assumes "registry_inv r"
  shows "\<exists>found. lookup_from r service (Some scope) = Some found \<and>
    (\<forall>t. found = Some t \<longleftrightarrow> nearest r service scope t)"
proof -
  from assms have "wf (parent_rel r)" by (simp add: registry_inv_def)
  then show ?thesis
  proof (induction scope rule: wf_induct_rule)
    case (less scope)
    show ?case
    proof (cases "reg_registrations r (scope, service)")
      case (Some t)
      then have "lookup_from r service (Some scope) = Some (Some t)"
        by (simp add: lookup_from.simps)
      with Some show ?thesis by (auto simp: nearest_iff [of r service scope])
    next
      case None
      show ?thesis
      proof (cases "reg_parents r scope")
        case n: None
        with None have "lookup_from r service (Some scope) = Some None"
          by (simp add: lookup_from.simps)
        with None n show ?thesis by (auto simp: nearest_iff [of r service scope])
      next
        case (Some parent)
        show ?thesis
        proof (cases parent)
          case n: None
          with None Some have "lookup_from r service (Some scope) = Some None"
            by (simp add: lookup_from.simps)
          with None Some n show ?thesis by (auto simp: nearest_iff [of r service scope])
        next
          case p: (Some p)
          with Some have "(p, scope) \<in> parent_rel r" by (simp add: parent_rel_def)
          from less.IH [OF this] None Some p show ?thesis
            by (simp add: lookup_from.simps [of r service "Some scope"] nearest_iff [of r service scope])
        qed
      qed
    qed
  qed
qed

text \<open>A registration is visible in its own scope and below it, nowhere else.\<close>

lemma nearest_above:
  assumes "nearest r service scope t" and "registry_inv r"
  shows "(rt_scope_id t, scope) \<in> (parent_rel r)\<^sup>*"
  using assms
proof (induction rule: nearest.induct)
  case (nearest_here scope t)
  then show ?case by (auto simp: registry_inv_def)
next
  case (nearest_up scope parent t)
  then have "(rt_scope_id t, parent) \<in> (parent_rel r)\<^sup>*" by simp
  moreover from nearest_up have "(parent, scope) \<in> parent_rel r" by (simp add: parent_rel_def)
  ultimately show ?case by (rule rtrancl_into_rtrancl)
qed

text \<open>Tokens are never reissued: what a run registers is new.\<close>

definition issued_since :: "scoped_registry \<Rightarrow> scoped_registry \<Rightarrow> bool" where
  "issued_since r r' \<longleftrightarrow> reg_next_id r \<le> reg_next_id r' \<and>
    (\<forall>scope service t. reg_registrations r' (scope, service) = Some t \<longrightarrow>
      reg_registrations r (scope, service) = Some t \<or> reg_next_id r < rt_registration_id t)"

lemma issued_since_refl: "issued_since r r"
  by (simp add: issued_since_def)

lemma issued_since_mono:
  assumes "issued_since s t" and "reg_next_id t \<le> reg_next_id u"
    and "\<And>scope service x. reg_registrations u (scope, service) = Some x \<Longrightarrow>
      reg_registrations t (scope, service) = Some x \<or> reg_next_id t < rt_registration_id x"
  shows "issued_since s u"
  using assms unfolding issued_since_def by (meson le_less_trans le_trans)

lemma issued_since_step:
  assumes "registry_step t u" and past: "issued_since s t"
  shows "issued_since s u"
  using assms(1)
proof (cases rule: registry_step.cases)
  case (step_add_scope scope parent)
  then show ?thesis
    by (intro issued_since_mono [OF past]) (auto simp: add_scope_def split: if_splits option.splits)
next
  case (step_register scope service inst generation token)
  then show ?thesis
    by (intro issued_since_mono [OF past])
      (auto simp: register_def Let_def split: if_splits option.splits)
next
  case (step_undo token b)
  then show ?thesis
    by (intro issued_since_mono [OF past]) (auto simp: undo_def Let_def split: if_splits)
qed

lemma issued_since_new:
  "issued_since r r' \<Longrightarrow> reg_registrations r (scope, service) = None \<Longrightarrow>
    reg_registrations r' (scope, service) = Some t \<Longrightarrow> reg_next_id r < rt_registration_id t"
  unfolding issued_since_def by (metis option.distinct(1))

lemma run_issued_since: "registry_step\<^sup>*\<^sup>* r r' \<Longrightarrow> registry_inv r \<Longrightarrow> issued_since r r'"
  by (rule registry.run_relation [where R = issued_since])
    (simp_all add: issued_since_refl issued_since_step)

text \<open>A task scope below an application scope that provides a log.\<close>

definition sample_token :: registration_token where
  "sample_token = \<lparr>rt_registration_id = 1, rt_instance_id = ''inst'', rt_generation = 1,
    rt_scope_id = ''app'', rt_service_id = ''log''\<rparr>"

definition sample_registry :: scoped_registry where
  "sample_registry = \<lparr>reg_parents = [''app'' \<mapsto> None, ''task'' \<mapsto> Some ''app''],
    reg_registrations = [(''app'', ''log'') \<mapsto> sample_token], reg_next_id = 1\<rparr>"

lemma sample_registry_reach: "reach (\<lambda>r. r = default_registry) registry_step sample_registry"
proof -
  let ?init = "\<lambda>r. r = default_registry"
  let ?r1 = "default_registry\<lparr>reg_parents := [''app'' \<mapsto> None]\<rparr>"
  let ?r2 = "default_registry\<lparr>reg_parents := [''app'' \<mapsto> None, ''task'' \<mapsto> Some ''app'']\<rparr>"
  have "add_root ''app'' default_registry = Inr ?r1"
    by (simp add: add_root_def add_scope_def default_registry_def)
  moreover have "add_scope ''task'' (Some ''app'') ?r1 = Inr ?r2"
    by (simp add: add_scope_def default_registry_def)
  moreover have "\<not> blank ''log''" by (rule not_blank_nonspace) (simp_all add: byte_def)
  then have "register ''app'' ''log'' ''inst'' 1 ?r2 = Inr (sample_token, sample_registry)"
    by (simp add: register_def default_registry_def sample_registry_def sample_token_def
      checked_add_u64_def u64_max_def Let_def)
  ultimately show ?thesis
    unfolding add_root_def by (blast intro: reach_init reach_step step_add_scope step_register)
qed

text \<open>
  Lookup always returns in a registry built by its operations, and what it returns is the
  registration in the nearest scope up the parent chain.
\<close>

theorem lookup_nearest:
  assumes "reach (\<lambda>r. r = default_registry) registry_step r"
  shows "\<exists>found. lookup r scope service = Some found \<and>
    (\<forall>t. found = Some t \<longleftrightarrow> nearest r service scope t \<and> (rt_scope_id t, scope) \<in> (parent_rel r)\<^sup>*)"
proof -
  from assms have inv: "registry_inv r" by (rule registry.reach_inv)
  from lookup_from_returns [OF this] obtain found
    where "lookup r scope service = Some found" "\<And>t. found = Some t \<longleftrightarrow> nearest r service scope t"
    unfolding lookup_def by blast
  with nearest_above [OF _ inv] show ?thesis by auto
qed

theorem lookup_nearest_witness:
  "lookup sample_registry ''task'' ''log'' = Some (Some sample_token)"
proof -
  have "nearest sample_registry ''log'' ''app'' sample_token"
    by (rule nearest_here) (simp add: sample_registry_def)
  then have "nearest sample_registry ''log'' ''task'' sample_token"
    by (rule nearest_up [rotated 2]) (simp_all add: sample_registry_def)
  moreover have "(''app'', ''task'') \<in> (parent_rel sample_registry)\<^sup>*"
    by (rule r_into_rtrancl) (simp add: parent_rel_def sample_registry_def)
  ultimately show ?thesis
    using lookup_nearest [OF sample_registry_reach, of "''task''" "''log''"] by (auto simp: sample_token_def)
qed

text \<open>
  A token that was undone stays undone: whatever is registered afterwards, a late second
  cleanup with it changes nothing and says so.
\<close>

theorem undo_is_final:
  assumes "reach (\<lambda>r. r = default_registry) registry_step r"
    and "undo token r = (True, r1)" and "registry_step\<^sup>*\<^sup>* r1 r2"
  shows "undo token r2 = (False, r2)"
proof -
  let ?key = "(rt_scope_id token, rt_service_id token)"
  from assms(1) have inv: "registry_inv r" by (rule registry.reach_inv)
  from assms(2) have cur: "reg_registrations r ?key = Some token"
    and r1: "reg_next_id r1 = reg_next_id r" "reg_registrations r1 ?key = None"
    by (auto simp: undo_def Let_def split: if_splits)
  from registry_inv_row [OF inv cur] have old: "rt_registration_id token \<le> reg_next_id r1"
    by (simp add: r1)
  have since: "issued_since r1 r2"
    using assms(3) undo_inv [OF inv assms(2)] by (rule run_issued_since)
  have "reg_registrations r2 ?key \<noteq> Some token"
  proof
    assume "reg_registrations r2 ?key = Some token"
    from issued_since_new [OF since r1(2) this] old show False by simp
  qed
  then show ?thesis by (simp add: undo_def)
qed

theorem undo_is_final_witness:
  "\<exists>r1 r2 t. undo sample_token sample_registry = (True, r1) \<and>
    register ''app'' ''log'' ''other'' 1 r1 = Inr (t, r2) \<and> undo sample_token r2 = (False, r2)"
proof -
  let ?r1 = "sample_registry\<lparr>reg_registrations := (reg_registrations sample_registry)((''app'', ''log'') := None)\<rparr>"
  have undone: "undo sample_token sample_registry = (True, ?r1)"
    by (simp add: undo_def sample_token_def sample_registry_def)
  have "\<not> blank ''log''" by (rule not_blank_nonspace) (simp_all add: byte_def)
  then obtain t r2 where again: "register ''app'' ''log'' ''other'' 1 ?r1 = Inr (t, r2)"
    by (simp add: register_def sample_registry_def checked_add_u64_def u64_max_def Let_def)
  then have "registry_step\<^sup>*\<^sup>* ?r1 r2" by (blast intro: step_register)
  from undo_is_final [OF sample_registry_reach undone this] undone again show ?thesis by blast
qed

end
