(* ===== verification/Kernel_Lifecycle.thy ===== *)
theory Kernel_Lifecycle imports Systems Error_Codes "HOL-Library.List_Lexorder" "HOL-Library.Char_ord" "HOL-Library.Word" begin

text \<open>
  Cleanup in \<^verbatim>\<open>crates/harness-kernel/src/lib.rs\<close>: resource sets and their rollback, the
  service provider that drains its calls before it releases its resource, and the shutdown
  coordinator that carries on where a cancelled shutdown stopped. For a resource set and the coordinator a managed resource is
  its name with what its \<^verbatim>\<open>shutdown\<close> and \<^verbatim>\<open>join\<close> futures return: each entry of theirs is awaited to
  its end at most once. The resource of a service provider can be shut down more than once, and its
  futures may return something else each time.
  \<^verbatim>\<open>KernelError\<close> has the fields, the constructor and the display of \<open>harness_error\<close>.
\<close>

section \<open>Reports and resource sets\<close>

record managed_resource =
  mr_name :: string
  mr_shutdown :: "harness_error + unit"
  mr_join :: "harness_error + unit"

record shutdown_report =
  closed :: "string list"
  errors :: "string list"
  outcome_uncertainties :: "string list"

definition empty_report :: shutdown_report where
  "empty_report = \<lparr>closed = [], errors = [], outcome_uncertainties = []\<rparr>"

definition record_step ::
  "string \<Rightarrow> string \<Rightarrow> harness_error + unit \<Rightarrow> shutdown_report \<Rightarrow> shutdown_report" where
  "record_step phase name outcome report = (case outcome of
      Inr _ \<Rightarrow> report\<lparr>closed := closed report @ [phase @ '':'' @ name]\<rparr>
    | Inl e \<Rightarrow> report\<lparr>errors := errors report @ [phase @ '':'' @ name @ '':'' @ error_display e]\<rparr>)"

fun close_from :: "managed_resource list \<Rightarrow> shutdown_report \<Rightarrow> shutdown_report" where
  "close_from [] report = report"
| "close_from (m # ms) report =
    close_from ms (record_step ''join'' (mr_name m) (mr_join m)
      (record_step ''shutdown'' (mr_name m) (mr_shutdown m) report))"

definition close_resources :: "managed_resource list \<Rightarrow> shutdown_report" where
  "close_resources ms = close_from ms empty_report"

record resource_set =
  rs_resources :: "managed_resource list"
  rs_published :: bool

definition new_resource_set :: resource_set where
  "new_resource_set = \<lparr>rs_resources = [], rs_published = False\<rparr>"

definition collect_resource :: "managed_resource \<Rightarrow> resource_set \<Rightarrow> resource_set" where
  "collect_resource m rset = rset\<lparr>rs_resources := rs_resources rset @ [m]\<rparr>"

definition publish :: "resource_set \<Rightarrow> resource_set" where
  "publish rset = rset\<lparr>rs_published := True\<rparr>"

definition rollback :: "resource_set \<Rightarrow> shutdown_report \<times> resource_set" where
  "rollback rset = (close_resources (rev (rs_resources rset)),
    \<lparr>rs_resources = [], rs_published = False\<rparr>)"

text \<open>\<open>build\<close> is the closure that mounts; the second component is what the rollback reported.\<close>

definition mount_resources ::
  "(resource_set \<Rightarrow> (harness_error + unit) \<times> resource_set) \<Rightarrow>
    (harness_error + resource_set) \<times> shutdown_report option" where
  "mount_resources build = (case build new_resource_set of
      (Inr _, rset) \<Rightarrow> (Inr (publish rset), None)
    | (Inl e, rset) \<Rightarrow>
        let report = fst (rollback rset) in
        (Inl (if errors report = [] then e
              else new_error (he_code e)
                (error_display e @ ''; rollback errors: '' @ join_with ''; '' (errors report))),
         Some report))"

text \<open>What a step of closing \<open>m\<close> records, success or failure.\<close>

datatype close_step = Shut managed_resource | Join managed_resource

primrec record_close :: "close_step \<Rightarrow> shutdown_report \<Rightarrow> shutdown_report" where
  "record_close (Shut m) = record_step ''shutdown'' (mr_name m) (mr_shutdown m)"
| "record_close (Join m) = record_step ''join'' (mr_name m) (mr_join m)"

definition close_steps :: "managed_resource list \<Rightarrow> close_step list" where
  "close_steps ms = concat (map (\<lambda>m. [Shut m, Join m]) ms)"

lemma close_steps_simps [simp]:
  "close_steps [] = []" "close_steps (m # ms) = Shut m # Join m # close_steps ms"
  by (simp_all add: close_steps_def)

lemma close_from_steps: "close_from ms report = fold record_close (close_steps ms) report"
  by (induction ms arbitrary: report) simp_all

lemma close_resources_steps: "close_resources ms = fold record_close (close_steps ms) empty_report"
  by (simp add: close_resources_def close_from_steps)

section \<open>Shutdown coordinator\<close>

datatype shutdown_phase = Consumer | Provider | Store

record shutdown_item =
  si_phase :: shutdown_phase
  si_resource :: managed_resource
  si_shut_down :: bool
  si_joined :: bool

record shutdown_coordinator =
  sc_items :: "shutdown_item list"
  sc_progress :: shutdown_report
  sc_completion :: "shutdown_report option"

definition new_coordinator :: "(shutdown_phase \<times> managed_resource) list \<Rightarrow> shutdown_coordinator" where
  "new_coordinator items =
    \<lparr>sc_items = map (\<lambda>(phase, resource). \<lparr>si_phase = phase, si_resource = resource,
        si_shut_down = False, si_joined = False\<rparr>) items,
     sc_progress = empty_report, sc_completion = None\<rparr>"

text \<open>The order of the two nested loops, as indices into the items.\<close>

definition phase_indices :: "shutdown_item list \<Rightarrow> shutdown_phase \<Rightarrow> nat list" where
  "phase_indices items phase = filter (\<lambda>i. si_phase (items ! i) = phase) (rev [0..<length items])"

definition loop_indices :: "shutdown_item list \<Rightarrow> nat list" where
  "loop_indices items = concat (map (phase_indices items) [Consumer, Provider, Store])"

text \<open>
  One pass of the body over an item awaits at most two futures. \<open>k\<close> counts the awaits that
  still complete before the future is dropped: when it is 0 at an await, the call ends there
  with nothing recorded for that await (\<open>None\<close> in the place of the remaining count).
\<close>

definition set_item :: "nat \<Rightarrow> (shutdown_item \<Rightarrow> shutdown_item) \<Rightarrow> shutdown_coordinator \<Rightarrow> shutdown_coordinator" where
  "set_item i f c = c\<lparr>sc_items := (sc_items c)[i := f (sc_items c ! i)]\<rparr>"

definition await_shutdown :: "nat \<Rightarrow> nat \<Rightarrow> shutdown_coordinator \<Rightarrow> nat option \<times> shutdown_coordinator" where
  "await_shutdown i k c =
    (if si_shut_down (sc_items c ! i) then (Some k, c)
     else case k of 0 \<Rightarrow> (None, c)
     | Suc k' \<Rightarrow> (Some k',
         set_item i (si_shut_down_update (\<lambda>_. True))
           (c\<lparr>sc_progress := record_close (Shut (si_resource (sc_items c ! i))) (sc_progress c)\<rparr>)))"

definition await_join :: "nat \<Rightarrow> nat \<Rightarrow> shutdown_coordinator \<Rightarrow> nat option \<times> shutdown_coordinator" where
  "await_join i k c =
    (if si_joined (sc_items c ! i) then (Some k, c)
     else case k of 0 \<Rightarrow> (None, c)
     | Suc k' \<Rightarrow> (Some k',
         set_item i (si_joined_update (\<lambda>_. True))
           (c\<lparr>sc_progress := record_close (Join (si_resource (sc_items c ! i))) (sc_progress c)\<rparr>)))"

fun shutdown_loop :: "nat list \<Rightarrow> nat \<Rightarrow> shutdown_coordinator \<Rightarrow> nat option \<times> shutdown_coordinator" where
  "shutdown_loop [] k c = (Some k, c)"
| "shutdown_loop (i # is) k c = (case await_shutdown i k c of
      (None, c1) \<Rightarrow> (None, c1)
    | (Some k1, c1) \<Rightarrow> (case await_join i k1 c1 of
        (None, c2) \<Rightarrow> (None, c2)
      | (Some k2, c2) \<Rightarrow> shutdown_loop is k2 c2))"

text \<open>\<^verbatim>\<open>ShutdownCoordinator::shutdown\<close>, dropped after \<open>k\<close> awaits when it is not complete by then.\<close>

definition shutdown :: "nat \<Rightarrow> shutdown_coordinator \<Rightarrow> shutdown_report option \<times> shutdown_coordinator" where
  "shutdown k c = (case sc_completion c of
      Some report \<Rightarrow> (Some report, c)
    | None \<Rightarrow> (case shutdown_loop (loop_indices (sc_items c)) k c of
        (None, c') \<Rightarrow> (None, c')
      | (Some _, c') \<Rightarrow> (Some (sc_progress c'), c'\<lparr>sc_completion := Some (sc_progress c')\<rparr>)))"

text \<open>A history of calls, each dropped after the given number of awaits.\<close>

fun shutdown_attempts :: "nat list \<Rightarrow> shutdown_coordinator \<Rightarrow> shutdown_coordinator" where
  "shutdown_attempts [] c = c"
| "shutdown_attempts (k # ks) c = shutdown_attempts ks (snd (shutdown k c))"

subsection \<open>Progress\<close>

definition item_left :: "shutdown_item \<Rightarrow> close_step list" where
  "item_left item = (if si_shut_down item then [] else [Shut (si_resource item)]) @
    (if si_joined item then [] else [Join (si_resource item)])"

definition steps_left :: "nat list \<Rightarrow> shutdown_coordinator \<Rightarrow> close_step list" where
  "steps_left is c = concat (map (\<lambda>i. item_left (sc_items c ! i)) is)"

lemma steps_left_simps [simp]:
  "steps_left [] c = []"
  "steps_left (i # is) c = item_left (sc_items c ! i) @ steps_left is c"
  by (simp_all add: steps_left_def)

lemma steps_left_set_item [simp]:
  "i \<notin> set is \<Longrightarrow> steps_left is (set_item i f c) = steps_left is c"
  by (induction "is") (auto simp: set_item_def)

lemma steps_left_progress [simp]: "steps_left is (c\<lparr>sc_progress := p\<rparr>) = steps_left is c"
  by (simp add: steps_left_def)

text \<open>What a call does: the first \<open>k\<close> steps that are left, and it completes when that is all of them.\<close>

definition made_progress :: "nat list \<Rightarrow> nat \<Rightarrow> shutdown_coordinator \<Rightarrow> shutdown_coordinator \<Rightarrow> bool" where
  "made_progress is k c c' \<longleftrightarrow>
    sc_progress c' = fold record_close (take k (steps_left is c)) (sc_progress c) \<and>
    steps_left is c' = drop k (steps_left is c) \<and>
    map si_phase (sc_items c') = map si_phase (sc_items c) \<and>
    (\<forall>j. j \<notin> set is \<longrightarrow> sc_items c' ! j = sc_items c ! j) \<and>
    sc_completion c' = sc_completion c"


lemma nth_set_item:
  "i < length (sc_items c) \<Longrightarrow> sc_items (set_item i f c) ! j = (if j = i then f (sc_items c ! i) else sc_items c ! j)"
  by (simp add: set_item_def)

lemma set_item_fields [simp]:
  "sc_progress (set_item i f c) = sc_progress c" "sc_completion (set_item i f c) = sc_completion c"
  "length (sc_items (set_item i f c)) = length (sc_items c)"
  by (simp_all add: set_item_def)

lemma map_phase_set_item [simp]:
  "(\<And>x. si_phase (f x) = si_phase x) \<Longrightarrow> map si_phase (sc_items (set_item i f c)) = map si_phase (sc_items c)"
  by (simp add: set_item_def map_update) (metis list_update_id map_update)

text \<open>An item whose steps all fit is closed and the loop goes on with the rest.\<close>

lemma item_body:
  assumes i: "i < length (sc_items c)"
  shows "\<exists>c2. shutdown_loop (i # js) (k + length (item_left (sc_items c ! i))) c = shutdown_loop js k c2 \<and>
    (i \<notin> set js \<longrightarrow> steps_left js c2 = steps_left js c) \<and> length (sc_items c2) = length (sc_items c) \<and>
    sc_progress c2 = fold record_close (item_left (sc_items c ! i)) (sc_progress c) \<and>
    item_left (sc_items c2 ! i) = [] \<and> map si_phase (sc_items c2) = map si_phase (sc_items c) \<and>
    (\<forall>j. j \<noteq> i \<longrightarrow> sc_items c2 ! j = sc_items c ! j) \<and> sc_completion c2 = sc_completion c"
  (is "\<exists>c2. _ = _ \<and> ?P c2")
proof -
  define c1 where "c1 = (if si_shut_down (sc_items c ! i) then c
    else set_item i (si_shut_down_update (\<lambda>_. True))
      (c\<lparr>sc_progress := record_close (Shut (si_resource (sc_items c ! i))) (sc_progress c)\<rparr>))"
  define c2 where "c2 = (if si_joined (sc_items c ! i) then c1
    else set_item i (si_joined_update (\<lambda>_. True))
      (c1\<lparr>sc_progress := record_close (Join (si_resource (sc_items c ! i))) (sc_progress c1)\<rparr>))"
  have "?P c2" using i
    by (simp add: c1_def c2_def item_left_def nth_set_item)
  moreover have "shutdown_loop (i # js) (k + length (item_left (sc_items c ! i))) c = shutdown_loop js k c2"
    using i by (simp add: await_shutdown_def await_join_def item_left_def c1_def c2_def nth_set_item)
  ultimately show ?thesis by blast
qed

lemma made_progress_Cons:
  assumes "made_progress is k c1 c'" and "steps_left is c1 = steps_left is c"
    and "sc_progress c1 = fold record_close (item_left (sc_items c ! i)) (sc_progress c)"
    and "item_left (sc_items c1 ! i) = []" and "map si_phase (sc_items c1) = map si_phase (sc_items c)"
    and "\<And>j. j \<noteq> i \<Longrightarrow> sc_items c1 ! j = sc_items c ! j" and "sc_completion c1 = sc_completion c"
    and "i \<notin> set is"
  shows "made_progress (i # is) (k + length (item_left (sc_items c ! i))) c c'"
  using assms by (simp add: made_progress_def)

lemma shutdown_loop_progress:
  assumes "distinct is" and "\<forall>i \<in> set is. i < length (sc_items c)"
  shows "made_progress is k c (snd (shutdown_loop is k c)) \<and>
    fst (shutdown_loop is k c) =
      (if length (steps_left is c) \<le> k then Some (k - length (steps_left is c)) else None)"
  using assms
proof (induction "is" arbitrary: k c)
  case Nil
  then show ?case by (simp add: made_progress_def)
next
  case (Cons i js)
  let ?m = "si_resource (sc_items c ! i)"
  define n where "n = length (item_left (sc_items c ! i))"
  from Cons.prems have i: "i < length (sc_items c)" "i \<notin> set js" by auto
  show ?case
  proof (cases "n \<le> k")
    case False
    then show ?thesis using i
      by (auto simp: n_def item_left_def await_shutdown_def await_join_def nth_set_item
        made_progress_def split: nat.splits if_splits)
  next
    case True
    then obtain k2 where k: "k = k2 + n" by (metis le_add_diff_inverse2)
    from item_body [OF i(1)] obtain c2
      where body: "shutdown_loop (i # js) k c = shutdown_loop js k2 c2"
      and c2: "steps_left js c2 = steps_left js c" "length (sc_items c2) = length (sc_items c)"
        "sc_progress c2 = fold record_close (item_left (sc_items c ! i)) (sc_progress c)"
        "item_left (sc_items c2 ! i) = []" "map si_phase (sc_items c2) = map si_phase (sc_items c)"
        "\<And>j. j \<noteq> i \<Longrightarrow> sc_items c2 ! j = sc_items c ! j" "sc_completion c2 = sc_completion c"
      unfolding k n_def using i(2) by blast
    from Cons.IH [of c2 k2] Cons.prems c2(2)
    have ih: "made_progress js k2 c2 (snd (shutdown_loop js k2 c2))"
      "fst (shutdown_loop js k2 c2) =
        (if length (steps_left js c) \<le> k2 then Some (k2 - length (steps_left js c)) else None)"
      by (simp_all add: c2(1))
    from made_progress_Cons [OF ih(1) c2(1,3-7) i(2)] ih(2) show ?thesis
      unfolding body unfolding k by (simp add: n_def del: shutdown_loop.simps)
  qed
qed

lemma loop_indices_distinct: "distinct (loop_indices items)"
  by (auto simp: loop_indices_def phase_indices_def)

lemma loop_indices_range: "i \<in> set (loop_indices items) \<longleftrightarrow> i < length items"
  by (cases "si_phase (items ! i)") (auto simp: loop_indices_def phase_indices_def)

lemma loop_indices_cong:
  assumes "map si_phase items' = map si_phase items"
  shows "loop_indices items' = loop_indices items"
proof -
  from assms have len: "length items' = length items" by (rule map_eq_imp_length_eq)
  have eq: "si_phase (items' ! i) = si_phase (items ! i)" if "i < length items" for i
    using assms that len by (metis nth_map)
  have "phase_indices items' phase = phase_indices items phase" for phase
    unfolding phase_indices_def len by (rule filter_cong) (simp_all add: eq)
  then show ?thesis by (simp add: loop_indices_def)
qed

text \<open>
  The invariant of a coordinator made for \<open>ps\<close>: what was recorded is a prefix of the steps of
  the full order, the rest is what is left, and it is complete when nothing is.
\<close>

definition phase_rank :: "shutdown_phase \<Rightarrow> nat" where
  "phase_rank p = (case p of Consumer \<Rightarrow> 0 | Provider \<Rightarrow> 1 | Store \<Rightarrow> 2)"

definition shutdown_order :: "(shutdown_phase \<times> managed_resource) list \<Rightarrow> (shutdown_phase \<times> managed_resource) list" where
  "shutdown_order ps = concat (map (\<lambda>phase. filter (\<lambda>p. fst p = phase) (rev ps)) [Consumer, Provider, Store])"

definition all_steps :: "(shutdown_phase \<times> managed_resource) list \<Rightarrow> close_step list" where
  "all_steps ps = close_steps (map snd (shutdown_order ps))"

definition coordinator_inv :: "(shutdown_phase \<times> managed_resource) list \<Rightarrow> nat \<Rightarrow> shutdown_coordinator \<Rightarrow> bool" where
  "coordinator_inv ps n c \<longleftrightarrow>
    map si_phase (sc_items c) = map fst ps \<and>
    sc_progress c = fold record_close (take n (all_steps ps)) empty_report \<and>
    steps_left (loop_indices (sc_items c)) c = drop n (all_steps ps) \<and>
    sc_completion c = (if length (all_steps ps) \<le> n \<and> sc_completion c \<noteq> None
      then Some (close_resources (map snd (shutdown_order ps))) else None)"

lemma new_coordinator_inv: "coordinator_inv ps 0 (new_coordinator ps)"
proof -
  let ?items = "sc_items (new_coordinator ps)"
  have item: "si_phase (?items ! i) = fst (ps ! i)" "item_left (?items ! i) = [Shut (snd (ps ! i)), Join (snd (ps ! i))]"
    if "i < length ps" for i
    using that by (simp_all add: new_coordinator_def item_left_def case_prod_beta)
  have len: "length ?items = length ps" by (simp add: new_coordinator_def)
  have "map ((!) ps) (phase_indices ?items phase) = filter (\<lambda>p. fst p = phase) (rev ps)" for phase
  proof -
    have "phase_indices ?items phase = filter (\<lambda>i. fst (ps ! i) = phase) (rev [0..<length ps])"
      unfolding phase_indices_def len by (rule filter_cong) (simp_all add: item)
    then have "map ((!) ps) (phase_indices ?items phase) =
        filter (\<lambda>p. fst p = phase) (map ((!) ps) (rev [0..<length ps]))"
      by (simp add: filter_map o_def)
    then show ?thesis by (simp add: rev_map [symmetric] map_nth)
  qed
  then have order: "map ((!) ps) (loop_indices ?items) = shutdown_order ps"
    by (simp add: loop_indices_def shutdown_order_def)
  have "map (\<lambda>i. item_left (?items ! i)) (loop_indices ?items) =
      map (\<lambda>p. [Shut (snd p), Join (snd p)]) (map ((!) ps) (loop_indices ?items))"
    by (simp add: item loop_indices_range len)
  then have "steps_left (loop_indices ?items) (new_coordinator ps) = all_steps ps"
    unfolding steps_left_def order by (simp add: all_steps_def close_steps_def o_def)
  then show ?thesis
    by (simp add: coordinator_inv_def new_coordinator_def o_def case_prod_beta)
qed

lemma length_all_steps: "length (all_steps ps) = 2 * length ps"
proof -
  have "length (close_steps ms) = 2 * length ms" for ms by (induction ms) simp_all
  moreover have "length (shutdown_order ps) = length ps"
  proof (induction ps)
    case (Cons p ps)
    then show ?case by (cases "fst p") (simp_all add: shutdown_order_def)
  qed (simp add: shutdown_order_def)
  ultimately show ?thesis by (simp add: all_steps_def)
qed

lemma shutdown_inv:
  assumes inv: "coordinator_inv ps n c"
  shows "coordinator_inv ps (n + k) (snd (shutdown k c))"
    and "fst (shutdown k c) = (if length (all_steps ps) \<le> n + k
      then Some (close_resources (map snd (shutdown_order ps))) else None)"
proof -
  let ?all = "all_steps ps" and ?order = "loop_indices (sc_items c)"
  let ?report = "close_resources (map snd (shutdown_order ps))"
  have report: "fold record_close ?all empty_report = ?report"
    by (simp add: close_resources_steps all_steps_def)
  obtain left c' where loop: "shutdown_loop ?order k c = (left, c')" by (cases "shutdown_loop ?order k c")
  have "made_progress ?order k c c' \<and> left = (if length (drop n ?all) \<le> k then Some (k - length (drop n ?all)) else None)"
    using shutdown_loop_progress [of ?order c k] inv
    by (simp add: loop_indices_distinct loop_indices_range loop coordinator_inv_def)
  then have c': "sc_progress c' = fold record_close (take (n + k) ?all) empty_report"
      "steps_left ?order c' = drop (n + k) ?all" "map si_phase (sc_items c') = map fst ps"
      "sc_completion c' = sc_completion c"
    and left: "left = None \<longleftrightarrow> n + k < length ?all"
    using inv by (auto simp: made_progress_def coordinator_inv_def take_add fold_append add.commute [of k n]
      split: if_splits)
  have order: "loop_indices (sc_items c') = ?order"
    using c'(3) inv by (intro loop_indices_cong) (simp add: coordinator_inv_def)
  have "coordinator_inv ps (n + k) (snd (shutdown k c)) \<and> fst (shutdown k c) =
      (if length ?all \<le> n + k then Some ?report else None)"
  proof (cases "sc_completion c")
    case (Some r)
    with inv have n: "length ?all \<le> n" and "r = ?report"
      by (auto simp: coordinator_inv_def split: if_splits)
    with Some inv show ?thesis by (simp add: shutdown_def coordinator_inv_def)
  next
    case None
    show ?thesis
    proof (cases left)
      case n: None
      with left have "\<not> length ?all \<le> n + k" by simp
      with None n show ?thesis
        by (simp add: shutdown_def loop coordinator_inv_def c' order)
    next
      case (Some k')
      with left have "length ?all \<le> n + k" by simp
      with None Some show ?thesis
        using c' order report
        by (simp add: shutdown_def loop coordinator_inv_def steps_left_def)
    qed
  qed
  then show "coordinator_inv ps (n + k) (snd (shutdown k c))"
    and "fst (shutdown k c) = (if length ?all \<le> n + k then Some ?report else None)" by simp_all
qed

lemma shutdown_attempts_inv:
  "coordinator_inv ps n c \<Longrightarrow> coordinator_inv ps (n + sum_list ks) (shutdown_attempts ks c)"
proof (induction ks arbitrary: n c)
  case (Cons k ks)
  from Cons.IH [OF shutdown_inv(1) [OF Cons.prems, of k]] show ?case by (simp add: add.assoc)
qed simp

lemma shutdown_order_phase:
  "filter (\<lambda>p. fst p = phase) (shutdown_order ps) = rev (filter (\<lambda>p. fst p = phase) ps)"
  by (cases phase) (simp_all add: shutdown_order_def rev_filter conj_commute cong: conj_cong)

lemma shutdown_order_sorted:
  "sorted_wrt (\<lambda>p q. phase_rank (fst p) \<le> phase_rank (fst q)) (shutdown_order ps)"
proof -
  have "sorted_wrt (\<lambda>p q. phase_rank (fst p) \<le> phase_rank (fst q)) (filter (\<lambda>p. fst p = phase) qs)"
    for phase and qs :: "(shutdown_phase \<times> managed_resource) list"
    by (induction qs) auto
  then show ?thesis by (auto simp: shutdown_order_def sorted_wrt_append phase_rank_def)
qed

text \<open>
  However often a shutdown is cancelled between two awaits, every resource is shut down and
  joined once in the recorded result, consumers before providers before stores and in reverse
  order within a phase, and a call returns exactly the report of one uninterrupted shutdown as
  soon as the awaits of all the calls together reach two per resource.
\<close>

theorem shutdown_resumes:
  "\<exists>order. sorted_wrt (\<lambda>p q. phase_rank (fst p) \<le> phase_rank (fst q)) order \<and>
    (\<forall>phase. filter (\<lambda>p. fst p = phase) order = rev (filter (\<lambda>p. fst p = phase) ps)) \<and>
    (\<forall>ks k. fst (shutdown k (shutdown_attempts ks (new_coordinator ps))) =
      (if 2 * length ps \<le> sum_list ks + k then Some (close_resources (map snd order)) else None))"
proof (intro exI conjI allI)
  show "fst (shutdown k (shutdown_attempts ks (new_coordinator ps))) =
      (if 2 * length ps \<le> sum_list ks + k then Some (close_resources (map snd (shutdown_order ps))) else None)"
    for ks k
    using shutdown_inv(2) [OF shutdown_attempts_inv [OF new_coordinator_inv, of ps ks]]
    by (simp add: length_all_steps)
qed (rule shutdown_order_sorted shutdown_order_phase)+

section \<open>Service provider\<close>

text \<open>
  \<open>sp_resource\<close> is the name of the resource, \<open>sp_in_flight\<close> the atomic counter, \<open>sp_active\<close> the ordered set under the mutex. The counter
  is incremented under that mutex and decremented outside it, so a call that finishes takes two
  steps: it leaves the set, then the counter. A live call occupies memory, so the counter does
  not reach \<open>2 ^ 64\<close>; its decrement is written with the wrap-around of \<^verbatim>\<open>fetch_sub\<close>.
\<close>

record service_provider =
  sp_service_id :: string
  sp_generation :: "64 word"
  sp_healthy :: bool
  sp_in_flight :: nat
  sp_active :: "string list"
  sp_resource :: string
  sp_lost_with :: "string list option"
  sp_released :: "shutdown_report option"

definition new_provider :: "string \<Rightarrow> 64 word \<Rightarrow> string \<Rightarrow> service_provider" where
  "new_provider service generation resource =
    \<lparr>sp_service_id = service, sp_generation = generation, sp_healthy = True, sp_in_flight = 0,
     sp_active = [], sp_resource = resource, sp_lost_with = None, sp_released = None\<rparr>"

definition lease :: "service_provider \<Rightarrow> 64 word" where
  "lease p = sp_generation p"

definition begin_call :: "64 word \<Rightarrow> string \<Rightarrow> service_provider \<Rightarrow> service_provider res" where
  "begin_call lease_generation call_id p =
    (if \<not> sp_healthy p \<or> sp_generation p \<noteq> lease_generation then Inl ServiceUnavailable
     else if call_id \<in> set (sp_active p) then Inl InvalidPayload
     else Inr (p\<lparr>sp_in_flight := sp_in_flight p + 1, sp_active := insort call_id (sp_active p)\<rparr>))"

definition finish_remove :: "string \<Rightarrow> service_provider \<Rightarrow> service_provider" where
  "finish_remove call_id p = p\<lparr>sp_active := remove1 call_id (sp_active p)\<rparr>"

definition finish_sub :: "service_provider \<Rightarrow> service_provider" where
  "finish_sub p = p\<lparr>sp_in_flight := (if sp_in_flight p = 0 then u64_max else sp_in_flight p - 1)\<rparr>"

text \<open>The block under the lock at the start of \<^verbatim>\<open>lose_and_drain\<close>.\<close>

definition lose :: "service_provider \<Rightarrow> string list \<times> service_provider" where
  "lose p = (case sp_lost_with p of
      Some calls \<Rightarrow> (calls, p)
    | None \<Rightarrow> (sp_active p, p\<lparr>sp_lost_with := Some (sp_active p), sp_healthy := False,
        sp_generation := sp_generation p + 1\<rparr>))"

text \<open>
  The provider together with the values other tasks hold: the live \<^verbatim>\<open>ServiceCall\<close>s, the calls
  between the two halves of \<^verbatim>\<open>finish_call\<close>, and the \<^verbatim>\<open>lose_and_drain\<close> futures by where they
  are: waiting for the calls to drain, past that loop, or running the one initialiser of
  \<^verbatim>\<open>released\<close>. Each carries its captured uncertainties. \<open>pw_log\<close> lists the resource futures
  that were awaited to their end with what they returned, which a step leaves open, \<open>pw_reports\<close>
  what drains returned.
\<close>

datatype release_await = Shut_Down "harness_error + unit" | Joined "harness_error + unit"

record provider_world =
  pw_provider :: service_provider
  pw_calls :: "string list"
  pw_finishing :: nat
  pw_waiting :: "string list list"
  pw_drained :: "string list list"
  pw_releasing :: "(string list \<times> shutdown_report \<times> bool) option"
  pw_log :: "release_await list"
  pw_reports :: "shutdown_report list"

definition provider_start :: "service_provider \<Rightarrow> provider_world" where
  "provider_start p = \<lparr>pw_provider = p, pw_calls = [], pw_finishing = 0, pw_waiting = [],
    pw_drained = [], pw_releasing = None, pw_log = [], pw_reports = []\<rparr>"

definition new_world :: "provider_world \<Rightarrow> bool" where
  "new_world w \<longleftrightarrow> (\<exists>service generation resource. w = provider_start (new_provider service generation resource))"

definition drain_report :: "string list \<Rightarrow> shutdown_report \<Rightarrow> shutdown_report" where
  "drain_report uncertainties report = report\<lparr>outcome_uncertainties := uncertainties\<rparr>"

inductive provider_step :: "provider_world \<Rightarrow> provider_world \<Rightarrow> bool" where
  ps_begin: "begin_call generation call_id (pw_provider w) = Inr p \<Longrightarrow>
    provider_step w (w\<lparr>pw_provider := p, pw_calls := call_id # pw_calls w\<rparr>)"
| ps_finish_remove: "call_id \<in> set (pw_calls w) \<Longrightarrow>
    provider_step w (w\<lparr>pw_provider := finish_remove call_id (pw_provider w),
      pw_calls := remove1 call_id (pw_calls w), pw_finishing := pw_finishing w + 1\<rparr>)"
| ps_finish_sub: "0 < pw_finishing w \<Longrightarrow>
    provider_step w (w\<lparr>pw_provider := finish_sub (pw_provider w), pw_finishing := pw_finishing w - 1\<rparr>)"
| ps_lose: "lose (pw_provider w) = (u, p) \<Longrightarrow>
    provider_step w (w\<lparr>pw_provider := p, pw_waiting := u # pw_waiting w\<rparr>)"
| ps_drained: "u \<in> set (pw_waiting w) \<Longrightarrow> sp_in_flight (pw_provider w) = 0 \<Longrightarrow>
    provider_step w (w\<lparr>pw_waiting := remove1 u (pw_waiting w), pw_drained := u # pw_drained w\<rparr>)"
| ps_release: "u \<in> set (pw_drained w) \<Longrightarrow> sp_released (pw_provider w) = None \<Longrightarrow> pw_releasing w = None \<Longrightarrow>
    provider_step w (w\<lparr>pw_drained := remove1 u (pw_drained w), pw_releasing := Some (u, empty_report, False)\<rparr>)"
| ps_shut: "pw_releasing w = Some (u, report, False) \<Longrightarrow> name = sp_resource (pw_provider w) \<Longrightarrow>
    provider_step w (w\<lparr>pw_releasing := Some (u, record_step ''shutdown'' name outcome report, True),
      pw_log := pw_log w @ [Shut_Down outcome]\<rparr>)"
| ps_join: "pw_releasing w = Some (u, report, True) \<Longrightarrow> name = sp_resource (pw_provider w) \<Longrightarrow>
    report' = record_step ''join'' name outcome report \<Longrightarrow>
    provider_step w (w\<lparr>pw_releasing := None, pw_log := pw_log w @ [Joined outcome],
      pw_provider := (pw_provider w)\<lparr>sp_released := Some report'\<rparr>,
      pw_reports := drain_report u report' # pw_reports w\<rparr>)"
| ps_reported: "u \<in> set (pw_drained w) \<Longrightarrow> sp_released (pw_provider w) = Some report \<Longrightarrow>
    provider_step w (w\<lparr>pw_drained := remove1 u (pw_drained w),
      pw_reports := drain_report u report # pw_reports w\<rparr>)"
| ps_cancel_waiting: "u \<in> set (pw_waiting w) \<Longrightarrow>
    provider_step w (w\<lparr>pw_waiting := remove1 u (pw_waiting w)\<rparr>)"
| ps_cancel_drained: "u \<in> set (pw_drained w) \<Longrightarrow>
    provider_step w (w\<lparr>pw_drained := remove1 u (pw_drained w)\<rparr>)"
| ps_cancel_release: "pw_releasing w \<noteq> None \<Longrightarrow> provider_step w (w\<lparr>pw_releasing := None\<rparr>)"

text \<open>Calls and counter agree.\<close>

definition calls_inv :: "provider_world \<Rightarrow> bool" where
  "calls_inv w \<longleftrightarrow> (let p = pw_provider w in
    distinct (pw_calls w) \<and> distinct (sp_active p) \<and> set (sp_active p) = set (pw_calls w) \<and>
    sp_in_flight p = length (pw_calls w) + pw_finishing w)"

text \<open>Loss is recorded before anything drains, and everything that drains saw the same loss.\<close>

definition loss_inv :: "provider_world \<Rightarrow> bool" where
  "loss_inv w \<longleftrightarrow> (let p = pw_provider w in
    (sp_healthy p \<longleftrightarrow> sp_lost_with p = None) \<and>
    (\<forall>u \<in> set (pw_waiting w) \<union> set (pw_drained w). sp_lost_with p = Some u) \<and>
    (\<forall>x. pw_releasing w = Some x \<longrightarrow> sp_lost_with p = Some (fst x)) \<and>
    (pw_log w \<noteq> [] \<or> pw_reports w \<noteq> [] \<or> sp_released p \<noteq> None \<longrightarrow> sp_lost_with p \<noteq> None))"

text \<open>What is past the drain loop sees the counter at 0, for good.\<close>

definition past_drain :: "provider_world \<Rightarrow> bool" where
  "past_drain w \<longleftrightarrow> pw_drained w \<noteq> [] \<or> pw_releasing w \<noteq> None \<or> pw_log w \<noteq> [] \<or>
    pw_reports w \<noteq> [] \<or> sp_released (pw_provider w) \<noteq> None"

definition drain_inv :: "provider_world \<Rightarrow> bool" where
  "drain_inv w \<longleftrightarrow> (past_drain w \<longrightarrow> sp_in_flight (pw_provider w) = 0)"

text \<open>
  What has been awaited: only shutdowns that were not followed by a join, the last of which is that
  of a release under way, until a shutdown and a join in a row made the one release there is. Every
  report is that release, with the calls active at the loss.
\<close>

definition shutdown_only :: "release_await list \<Rightarrow> bool" where
  "shutdown_only ws \<longleftrightarrow> (\<forall>x \<in> set ws. \<exists>outcome. x = Shut_Down outcome)"

definition release_report :: "string \<Rightarrow> harness_error + unit \<Rightarrow> harness_error + unit \<Rightarrow> shutdown_report" where
  "release_report name shut joined = record_step ''join'' name joined (record_step ''shutdown'' name shut empty_report)"

definition released_once :: "string \<Rightarrow> release_await list \<Rightarrow> shutdown_report \<Rightarrow> bool" where
  "released_once name log report \<longleftrightarrow> (\<exists>past shut joined. log = past @ [Shut_Down shut, Joined joined] \<and>
    shutdown_only past \<and> report = release_report name shut joined)"

definition under_way :: "string \<Rightarrow> release_await list \<Rightarrow> shutdown_report \<times> bool \<Rightarrow> bool" where
  "under_way name log = (\<lambda>(report, joining). if joining
    then (\<exists>past shut. log = past @ [Shut_Down shut] \<and> report = record_step ''shutdown'' name shut empty_report)
    else report = empty_report)"

definition release_inv :: "provider_world \<Rightarrow> bool" where
  "release_inv w \<longleftrightarrow> (let p = pw_provider w in
    (case sp_released p of
      None \<Rightarrow> shutdown_only (pw_log w) \<and> pw_reports w = [] \<and>
        (\<forall>u x. pw_releasing w = Some (u, x) \<longrightarrow> under_way (sp_resource p) (pw_log w) x)
    | Some report \<Rightarrow> pw_releasing w = None \<and> released_once (sp_resource p) (pw_log w) report \<and>
        (\<forall>r \<in> set (pw_reports w). \<exists>u. sp_lost_with p = Some u \<and> r = drain_report u report)))"

definition provider_inv :: "provider_world \<Rightarrow> bool" where
  "provider_inv w \<longleftrightarrow> calls_inv w \<and> loss_inv w \<and> drain_inv w \<and> release_inv w"

lemma provider_inv_new: "new_world w \<Longrightarrow> provider_inv w"
  by (auto simp: new_world_def provider_start_def new_provider_def provider_inv_def calls_inv_def
    loss_inv_def drain_inv_def past_drain_def release_inv_def shutdown_only_def)

lemma lose_fields:
  assumes "lose p = (u, p')"
  shows "sp_active p' = sp_active p" "sp_in_flight p' = sp_in_flight p"
    "sp_resource p' = sp_resource p" "sp_released p' = sp_released p" "sp_lost_with p' = Some u"
    "sp_lost_with p = None \<Longrightarrow> \<not> sp_healthy p'" "sp_lost_with p = Some v \<Longrightarrow> u = v \<and> p' = p"
  using assms by (auto simp: lose_def split: option.splits)

lemma in_remove1D: "x \<in> set (remove1 u xs) \<Longrightarrow> x \<in> set xs"
  by (meson notin_set_remove1)

lemma calls_inv_step:
  assumes "provider_step w w'" and "calls_inv w"
  shows "calls_inv w'"
  using assms
proof cases
  case (ps_begin generation call_id p)
  then have p: "call_id \<notin> set (sp_active (pw_provider w))"
      "p = (pw_provider w)\<lparr>sp_in_flight := sp_in_flight (pw_provider w) + 1,
        sp_active := insort call_id (sp_active (pw_provider w))\<rparr>"
    by (auto simp: begin_call_def split: if_splits)
  with ps_begin assms(2) show ?thesis
    by (simp add: calls_inv_def Let_def set_insort_key distinct_insort)
next
  case (ps_finish_remove call_id)
  from length_pos_if_in_set [OF ps_finish_remove(2)] assms(2) ps_finish_remove show ?thesis
    by (simp add: calls_inv_def Let_def finish_remove_def length_remove1)
next
  case ps_finish_sub
  then show ?thesis using assms(2) by (auto simp: calls_inv_def Let_def finish_sub_def)
next
  case (ps_lose u p)
  then show ?thesis using assms(2) by (simp add: calls_inv_def Let_def lose_fields)
qed (auto simp: calls_inv_def Let_def)

lemma loss_inv_step: 
  assumes "provider_step w w'" and "loss_inv w"
  shows "loss_inv w'"
  using assms
proof cases
  case (ps_begin generation call_id p)
  then show ?thesis using assms(2)
    by (auto simp: loss_inv_def Let_def begin_call_def split: if_splits)
next
  case (ps_lose u p)
  then show ?thesis using assms(2)
    by (auto simp: loss_inv_def Let_def lose_def split: option.splits)
qed (use assms(2) in \<open>auto simp: loss_inv_def Let_def finish_remove_def finish_sub_def dest: in_remove1D\<close>)

lemma drain_inv_step:
  assumes "provider_step w w'" and "calls_inv w" and "loss_inv w" and "drain_inv w"
  shows "drain_inv w'"
  using assms(1)
proof cases
  case (ps_begin generation call_id p)
  then have "sp_healthy (pw_provider w)" by (auto simp: begin_call_def split: if_splits)
  with assms(3) have "\<not> past_drain w"
    by (auto simp: loss_inv_def Let_def past_drain_def neq_Nil_conv)
  with ps_begin show ?thesis
    by (auto simp: drain_inv_def past_drain_def begin_call_def split: if_splits)
next
  case (ps_lose u p)
  then show ?thesis using assms(4) by (simp add: drain_inv_def past_drain_def lose_fields)
next
  case ps_finish_sub
  then show ?thesis using assms(2,4)
    by (auto simp: drain_inv_def past_drain_def finish_sub_def calls_inv_def Let_def)
qed (use assms(4) in \<open>auto simp: drain_inv_def past_drain_def finish_remove_def\<close>)

lemma release_inv_step:
  assumes "provider_step w w'" and "loss_inv w" and "release_inv w"
  shows "release_inv w'"
  using assms(1)
proof cases
  case (ps_begin generation call_id p)
  then have "\<not> past_drain w" using assms(2)
    by (auto simp: begin_call_def loss_inv_def Let_def past_drain_def neq_Nil_conv split: if_splits)
  with ps_begin show ?thesis
    by (auto simp: release_inv_def Let_def begin_call_def past_drain_def shutdown_only_def split: if_splits)
next
  case (ps_lose u p)
  then show ?thesis using assms(2,3)
    by (auto simp: release_inv_def loss_inv_def Let_def lose_def split: option.splits)
next
  case (ps_release u)
  then show ?thesis using assms(3) by (simp add: release_inv_def Let_def under_way_def)
next
  case (ps_shut u report name outcome)
  then show ?thesis using assms(3)
    by (auto simp: release_inv_def Let_def under_way_def shutdown_only_def split: option.splits)
next
  case (ps_join u report name report' outcome)
  from assms(3) ps_join(2) have none: "sp_released (pw_provider w) = None" "pw_reports w = []" "shutdown_only (pw_log w)"
    "under_way (sp_resource (pw_provider w)) (pw_log w) (report, True)"
    by (auto simp: release_inv_def Let_def split: option.splits)
  from none(4) obtain before shut where log: "pw_log w = before @ [Shut_Down shut]"
      and report: "report = record_step ''shutdown'' (sp_resource (pw_provider w)) shut empty_report"
    by (auto simp: under_way_def)
  from none(3) log have "shutdown_only before" by (simp add: shutdown_only_def)
  with log report ps_join(3,4) have "released_once (sp_resource (pw_provider w)) (pw_log w @ [Joined outcome]) report'"
    by (auto simp: released_once_def release_report_def)
  moreover from assms(2) ps_join(2) have "sp_lost_with (pw_provider w) = Some u"
    by (auto simp: loss_inv_def Let_def)
  ultimately show ?thesis using ps_join none(2) by (simp add: release_inv_def)
next
  case (ps_reported u report)
  then have "sp_lost_with (pw_provider w) = Some u" using assms(2) by (auto simp: loss_inv_def Let_def)
  then show ?thesis using assms(3) ps_reported by (simp add: release_inv_def Let_def)
next
  case ps_cancel_release
  then show ?thesis using assms(3) by (auto simp: release_inv_def Let_def split: option.splits)
qed (use assms(3) in \<open>auto simp: release_inv_def Let_def finish_remove_def finish_sub_def split: option.splits\<close>)

lemma provider_inv_step: "provider_inv w \<Longrightarrow> provider_step w w' \<Longrightarrow> provider_inv w'"
  unfolding provider_inv_def
  by (blast intro: calls_inv_step loss_inv_step drain_inv_step release_inv_step)

interpretation provider: invariant_system provider_step provider_inv new_world
  by unfold_locales (blast intro: provider_inv_step provider_inv_new)+

text \<open>Once lost, a provider keeps the calls it was lost with and its resource.\<close>

lemma lost_with_kept:
  assumes "provider_step w w'"
  shows "sp_resource (pw_provider w') = sp_resource (pw_provider w)"
    and "sp_lost_with (pw_provider w) = Some u \<Longrightarrow> sp_lost_with (pw_provider w') = Some u"
  using assms by (auto elim!: provider_step.cases simp: begin_call_def finish_remove_def finish_sub_def
    lose_def split: if_splits option.splits)

lemma lost_with_run:
  "provider_step\<^sup>*\<^sup>* w w' \<Longrightarrow> sp_lost_with (pw_provider w) = Some u \<Longrightarrow> sp_lost_with (pw_provider w') = Some u"
  by (induction rule: rtranclp_induct) (auto intro: lost_with_kept)

text \<open>A provider that lost one call and then drained: the state before the release starts.\<close>

definition drained_world :: "string \<Rightarrow> provider_world" where
  "drained_world m =
    \<lparr>pw_provider = \<lparr>sp_service_id = ''log'', sp_generation = 1, sp_healthy = False, sp_in_flight = 0,
       sp_active = [], sp_resource = m, sp_lost_with = Some [''call''], sp_released = None\<rparr>,
     pw_calls = [], pw_finishing = 0, pw_waiting = [], pw_drained = [[''call''], [''call'']],
     pw_releasing = None, pw_log = [], pw_reports = []\<rparr>"

lemma drained_world_reach: "reach new_world provider_step (drained_world m)"
proof -
  define p0 where "p0 = new_provider ''log'' 0 m"
  define w0 where "w0 = provider_start p0"
  define p1 where "p1 = p0\<lparr>sp_in_flight := 1, sp_active := [''call'']\<rparr>"
  define w1 where "w1 = w0\<lparr>pw_provider := p1, pw_calls := [''call'']\<rparr>"
  define p2 where "p2 = p1\<lparr>sp_lost_with := Some [''call''], sp_healthy := False, sp_generation := 1\<rparr>"
  define w2 where "w2 = w1\<lparr>pw_provider := p2, pw_waiting := [[''call'']]\<rparr>"
  define w3 where "w3 = w2\<lparr>pw_waiting := [[''call''], [''call'']]\<rparr>"
  define w4 where "w4 = w3\<lparr>pw_provider := p2\<lparr>sp_active := []\<rparr>, pw_calls := [], pw_finishing := 1\<rparr>"
  define w5 where "w5 = w4\<lparr>pw_provider := p2\<lparr>sp_active := [], sp_in_flight := 0\<rparr>, pw_finishing := 0\<rparr>"
  define w6 where "w6 = w5\<lparr>pw_waiting := [[''call'']], pw_drained := [[''call'']]\<rparr>"
  note defs = p0_def p1_def p2_def w0_def w1_def w2_def w3_def w4_def w5_def w6_def
    provider_start_def new_provider_def
  have r0: "reach new_world provider_step w0"
    unfolding w0_def p0_def by (rule reach_init) (auto simp: new_world_def)
  have s1: "provider_step w0 w1"
    using ps_begin [of 0 "''call''" w0 p1] by (simp add: defs begin_call_def)
  have s2: "provider_step w1 w2"
    using ps_lose [of w1 "[''call'']" p2] by (simp add: defs lose_def)
  have s3: "provider_step w2 w3"
    using ps_lose [of w2 "[''call'']" p2] by (simp add: defs lose_def)
  have s4: "provider_step w3 w4"
    using ps_finish_remove [of "''call''" w3] by (simp add: defs finish_remove_def)
  have s5: "provider_step w4 w5"
    using ps_finish_sub [of w4] by (simp add: defs finish_sub_def)
  have s6: "provider_step w5 w6"
    using ps_drained [of "[''call'']" w5] by (simp add: defs)
  have s7: "provider_step w6 (drained_world m)"
    using ps_drained [of "[''call'']" w6] by (simp add: defs drained_world_def)
  show ?thesis by (rule r0 [THEN reach_step, OF s1, THEN reach_step, OF s2, THEN reach_step, OF s3, THEN reach_step, OF s4, THEN reach_step, OF s5, THEN reach_step, OF s6, THEN reach_step, OF s7])
qed

definition released_world :: "string \<Rightarrow> provider_world" where
  "released_world m = (drained_world m)
    \<lparr>pw_provider := (pw_provider (drained_world m))\<lparr>sp_released := Some (release_report m (Inr ()) (Inr ()))\<rparr>,
     pw_drained := [[''call'']], pw_log := [Shut_Down (Inr ()), Joined (Inr ())],
     pw_reports := [drain_report [''call''] (release_report m (Inr ()) (Inr ()))]\<rparr>"

lemma released_world_run: "provider_step\<^sup>*\<^sup>* (drained_world m) (released_world m)"
proof -
  define ok :: "harness_error + unit" where "ok = Inr ()"
  define w0 where "w0 = drained_world m"
  define w1 where "w1 = w0\<lparr>pw_drained := [[''call'']], pw_releasing := Some ([''call''], empty_report, False)\<rparr>"
  define w2 where "w2 = w1\<lparr>pw_releasing := Some ([''call''], record_step ''shutdown'' m ok empty_report, True), pw_log := [Shut_Down ok]\<rparr>"
  note defs = w0_def w1_def w2_def drained_world_def released_world_def
  have s1: "provider_step w0 w1"
    using ps_release [of "[''call'']" w0] by (simp add: defs)
  have at_shut: "pw_releasing w1 = Some ([''call''], empty_report, False)" "m = sp_resource (pw_provider w1)" "pw_log w1 = []"
    by (simp_all add: defs)
  have s2: "provider_step w1 w2"
    using ps_shut [of w1 "[''call'']" empty_report m, OF at_shut(1,2), of ok] by (simp add: at_shut(3) w2_def)
  have final: "released_world m = w2\<lparr>pw_releasing := None, pw_log := pw_log w2 @ [Joined ok],
      pw_provider := (pw_provider w2)\<lparr>sp_released := Some (release_report m ok ok)\<rparr>,
      pw_reports := drain_report [''call''] (release_report m ok ok) # pw_reports w2\<rparr>"
    by (simp add: defs ok_def)
  have "pw_releasing w2 = Some ([''call''], record_step ''shutdown'' m ok empty_report, True)"
    "m = sp_resource (pw_provider w2)" by (simp_all add: defs)
  from ps_join [OF this, of "release_report m ok ok" ok] have s3: "provider_step w2 (released_world m)"
    unfolding final by (simp only: release_report_def)
  show ?thesis unfolding w0_def [symmetric]
    by (rule rtranclp.rtrancl_refl [of provider_step w0, THEN rtranclp.rtrancl_into_rtrancl, OF s1,
      THEN rtranclp.rtrancl_into_rtrancl, OF s2, THEN rtranclp.rtrancl_into_rtrancl, OF s3])
qed

text \<open>
  A provider's resource is released only when no call is in flight, and from then on, in
  whatever state of whatever interleaving, no lease can begin another call.
\<close>

theorem release_after_drain:
  assumes "reach new_world provider_step w" and "pw_log w \<noteq> [] \<or> pw_releasing w \<noteq> None \<or> pw_reports w \<noteq> []"
  shows "sp_in_flight (pw_provider w) = 0 \<and> sp_active (pw_provider w) = [] \<and> pw_calls w = [] \<and>
    begin_call generation call_id (pw_provider w) = Inl ServiceUnavailable"
proof -
  from assms(1) have inv: "provider_inv w" by (rule provider.reach_inv)
  from assms(2) have "past_drain w" by (auto simp: past_drain_def)
  with inv have idle: "sp_in_flight (pw_provider w) = 0" by (simp add: provider_inv_def drain_inv_def)
  with inv have "pw_calls w = []" "set (sp_active (pw_provider w)) = set (pw_calls w)"
    by (simp_all add: provider_inv_def calls_inv_def Let_def)
  moreover from inv assms(2) have "\<not> sp_healthy (pw_provider w)"
    by (auto simp: provider_inv_def loss_inv_def Let_def)
  ultimately show ?thesis using idle by (simp add: begin_call_def)
qed

theorem release_after_drain_witness:
  "begin_call 1 ''next'' (pw_provider (released_world ''db'')) = Inl ServiceUnavailable"
proof -
  have "pw_log (released_world ''db'') \<noteq> []" by (simp add: released_world_def)
  with release_after_drain [OF reach_run [OF released_world_run drained_world_reach]] show ?thesis by blast
qed

lemma released_for_good:
  assumes "provider_step\<^sup>*\<^sup>* w w'" and "provider_inv w" and "sp_released (pw_provider w) = Some r"
  shows "sp_released (pw_provider w') = Some r \<and> pw_log w' = pw_log w"
  using assms(1)
proof (induction rule: rtranclp_induct)
  case base
  show ?case using assms(3) by simp
next
  case (step v x)
  from provider.inv_run [OF step(1) assms(2)] step.IH have "pw_releasing v = None"
    by (simp add: provider_inv_def release_inv_def Let_def)
  with step(2) step.IH have "sp_released (pw_provider x) = sp_released (pw_provider v) \<and> pw_log x = pw_log v"
    by cases (auto simp: begin_call_def finish_remove_def finish_sub_def lose_def split: if_splits option.splits)
  with step.IH show ?case by simp
qed

text \<open>
  C37. The resource is released once: when a \<^verbatim>\<open>lose_and_drain\<close> has returned, whenever it was called
  and whatever was cancelled before, the resource was shut down and joined in a row once (before
  that only shutdowns were awaited, by releases that were cancelled), it is never touched again,
  and every drain that returns, now or later, reports what those two awaits returned, with the
  calls that were active at the first loss.
\<close>

theorem drain_reports_agree:
  assumes "reach new_world provider_step w" and "sp_lost_with (pw_provider w) = Some u"
    and "provider_step\<^sup>*\<^sup>* w w'" and "report \<in> set (pw_reports w')" and "provider_step\<^sup>*\<^sup>* w' w''"
  shows "(\<exists>past shut joined. pw_log w' = past @ [Shut_Down shut, Joined joined] \<and> shutdown_only past \<and>
      report = drain_report u (release_report (sp_resource (pw_provider w')) shut joined)) \<and>
    pw_log w'' = pw_log w' \<and> (\<forall>r \<in> set (pw_reports w''). r = report)"
proof -
  from reach_run [OF assms(3,1)] have inv: "provider_inv w'" by (rule provider.reach_inv)
  from provider.inv_run [OF assms(5) this] have inv'': "provider_inv w''" .
  have u: "sp_lost_with (pw_provider w') = Some u" "sp_lost_with (pw_provider w'') = Some u"
    using lost_with_run [OF assms(3,2)] lost_with_run [OF assms(5)] by blast+
  from inv assms(4) obtain r where r: "sp_released (pw_provider w') = Some r"
      "released_once (sp_resource (pw_provider w')) (pw_log w') r" "report = drain_report u r"
    using u(1) by (auto simp: provider_inv_def release_inv_def Let_def split: option.splits)
  from released_for_good [OF assms(5) inv r(1)] have later: "sp_released (pw_provider w'') = Some r" "pw_log w'' = pw_log w'" by simp_all
  with inv'' u(2) r(3) have "\<forall>x \<in> set (pw_reports w''). x = report"
    by (auto simp: provider_inv_def release_inv_def Let_def)
  with r(2,3) later(2) show ?thesis by (auto simp: released_once_def)
qed

theorem drain_reports_agree_witness:
  "pw_reports (released_world ''db'') = [drain_report [''call''] (release_report ''db'' (Inr ()) (Inr ()))] \<and>
    pw_log (released_world ''db'') = [Shut_Down (Inr ()), Joined (Inr ())]"
proof -
  have "drain_report [''call''] (release_report ''db'' (Inr ()) (Inr ())) \<in> set (pw_reports (released_world ''db''))"
    and lost: "sp_lost_with (pw_provider (drained_world ''db'')) = Some [''call'']"
    by (simp_all add: released_world_def drained_world_def)
  from drain_reports_agree [OF drained_world_reach lost released_world_run this(1) rtranclp.rtrancl_refl] show ?thesis
    by (auto simp: released_world_def)
qed

text \<open>
  The release itself is not shielded from cancellation: a drain dropped after the resource
  was shut down and before it was joined leaves nothing behind, and the retry shuts the same
  resource down a second time.
\<close>

theorem cancelled_release_repeats:
  "\<exists>w. reach new_world provider_step w \<and> pw_log w = [Shut_Down first, Shut_Down second]"
proof -
  define w0 where "w0 = drained_world ''db''"
  define w1 where "w1 = w0\<lparr>pw_drained := [[''call'']], pw_releasing := Some ([''call''], empty_report, False)\<rparr>"
  define w2 where "w2 = w1\<lparr>pw_releasing := Some ([''call''], record_step ''shutdown'' ''db'' first empty_report, True), pw_log := [Shut_Down first]\<rparr>"
  define w3 where "w3 = w2\<lparr>pw_releasing := None\<rparr>"
  define w4 where "w4 = w3\<lparr>pw_drained := [], pw_releasing := Some ([''call''], empty_report, False)\<rparr>"
  define w5 where "w5 = w4\<lparr>pw_releasing := Some ([''call''], record_step ''shutdown'' ''db'' second empty_report, True),
    pw_log := [Shut_Down first, Shut_Down second]\<rparr>"
  note defs = w0_def w1_def w2_def w3_def w4_def w5_def drained_world_def
  have s1: "provider_step w0 w1" using ps_release [of "[''call'']" w0] by (simp add: defs)
  have at_shut: "pw_releasing w1 = Some ([''call''], empty_report, False)" "''db'' = sp_resource (pw_provider w1)" "pw_log w1 = []"
    by (simp_all add: defs)
  have s2: "provider_step w1 w2"
    using ps_shut [of w1 "[''call'']" empty_report "''db''", OF at_shut(1,2), of first] by (simp add: at_shut(3) w2_def)
  have s3: "provider_step w2 w3" using ps_cancel_release [of w2] by (simp add: defs)
  have s4: "provider_step w3 w4" using ps_release [of "[''call'']" w3] by (simp add: defs)
  have again: "pw_releasing w4 = Some ([''call''], empty_report, False)" "''db'' = sp_resource (pw_provider w4)" "pw_log w4 = [Shut_Down first]"
    by (simp_all add: defs)
  have s5: "provider_step w4 w5"
    using ps_shut [of w4 "[''call'']" empty_report "''db''", OF again(1,2), of second] by (simp add: again(3) w5_def)
  have r0: "reach new_world provider_step w0" unfolding w0_def by (rule drained_world_reach)
  have "reach new_world provider_step w5"
    by (rule r0 [THEN reach_step, OF s1, THEN reach_step, OF s2, THEN reach_step, OF s3, THEN reach_step, OF s4, THEN reach_step, OF s5])
  then show ?thesis by (intro exI [of _ w5]) (simp add: defs)
qed

end
