(* ===== verification/Contracts.thy ===== *)
theory Contracts imports Error_Codes begin

text \<open>
  The shared contracts of \<^verbatim>\<open>crates/harness-types/src/contracts\<close> that the store commits: the
  event envelope, the working-state projection, the instruction ledger entry and the values of
  one admission, each with its validation. A content hash is its text; the canonical hash of a
  payload (SHA-256 over the canonical rendering) is the argument \<open>hash\<close> of the validation that
  uses it.
\<close>

section \<open>Values\<close>

text \<open>\<^verbatim>\<open>serde_json::Value\<close>; a number is kept as its text, an object as its entries in order.\<close>

datatype json = JNull | JBool bool | JNum string | JStr string | JArr "json list"
  | JObj "(string \<times> json) list"

definition json_get :: "string \<Rightarrow> json \<Rightarrow> json option" where
  "json_get k v = (case v of JObj entries \<Rightarrow> map_of entries k | _ \<Rightarrow> None)"

type_synonym content_hash = string
type_synonym canonical_hash = "json \<Rightarrow> content_hash res"

definition p0_schema_version :: nat where "p0_schema_version = 1"

definition validate_schema_version :: "nat \<Rightarrow> unit res" where
  "validate_schema_version v = (if v = p0_schema_version then Inr () else Inl UnsupportedSchemaVersion)"

definition validate_nonempty :: "string \<Rightarrow> unit res" where
  "validate_nonempty value = (if blank value then Inl InvalidPayload else Inr ())"

definition validate_sequence :: "nat \<Rightarrow> unit res" where
  "validate_sequence n = (if n = 0 then Inl InvalidSequence else Inr ())"

text \<open>The first failing check of a list, as \<^verbatim>\<open>?\<close> chains them.\<close>

fun checks :: "unit res list \<Rightarrow> unit res" where
  "checks [] = Inr ()"
| "checks (Inl e # cs) = Inl e"
| "checks (Inr _ # cs) = checks cs"

lemma checks_ok: "checks cs = Inr () \<longleftrightarrow> (\<forall>c \<in> set cs. c = Inr ())"
proof (induction cs)
  case (Cons c cs)
  then show ?case by (cases c) simp_all
qed simp

datatype source_authority = AuthUser | AuthHostPolicy | AuthRuntimeObserved | AuthModelProposed
  | AuthExternalPlugin

record producer_identity =
  pi_plugin_id :: string
  pi_implementation_version :: string

definition producer_validate :: "producer_identity \<Rightarrow> unit res" where
  "producer_validate p = checks [validate_nonempty (pi_plugin_id p),
    validate_nonempty (pi_implementation_version p)]"

record source_ref =
  sf_event_id :: ident
  sf_sequence :: nat
  sf_content_hash :: content_hash

definition source_ref_validate :: "source_ref \<Rightarrow> unit res" where
  "source_ref_validate r = validate_sequence (sf_sequence r)"

section \<open>Event envelope\<close>

record event_envelope =
  ev_schema_version :: nat
  ev_event_id :: ident
  ev_session_id :: ident
  ev_seq :: nat
  ev_event_type :: string
  ev_producer :: producer_identity
  ev_authority :: source_authority
  ev_correlation_id :: "ident option"
  ev_causation_id :: "ident option"
  ev_continuity_critical :: bool
  ev_payload :: "(string \<times> json) list"
  ev_payload_hash :: content_hash

definition event_validate :: "canonical_hash \<Rightarrow> event_envelope \<Rightarrow> unit res" where
  "event_validate hash e =
    (case checks [validate_schema_version (ev_schema_version e), validate_sequence (ev_seq e),
        validate_nonempty (ev_event_type e), producer_validate (ev_producer e)] of
      Inl err \<Rightarrow> Inl err
    | Inr _ \<Rightarrow> (case hash (JObj (ev_payload e)) of
        Inl err \<Rightarrow> Inl err
      | Inr expected \<Rightarrow> if expected \<noteq> ev_payload_hash e then Inl InvalidHash else Inr ()))"

section \<open>Working state\<close>

datatype plan_item_status = PlanPending | PlanInProgress | PlanCompleted | PlanBlocked

record plan_item =
  pl_id :: ident
  pl_status :: plan_item_status
  pl_owner :: "ident option"
  pl_dependencies :: "ident list"
  pl_evidence_refs :: "source_ref list"

record workspace_observation =
  wo_project_id :: ident
  wo_worktree_id :: string
  wo_base_commit :: string
  wo_observed_fingerprint :: content_hash

record workspace_change =
  wc_path :: string
  wc_before_hash :: "content_hash option"
  wc_after_hash :: "content_hash option"
  wc_tool_execution_id :: "ident option"

datatype check_outcome = CheckPassed | CheckFailed | CheckUnknown

record check_evidence =
  ce_command :: string
  ce_outcome :: check_outcome
  ce_tested_revision :: string
  ce_artifact_id :: "ident option"

datatype pending_tool_state = ToolPending | ToolOutcomeUnknown

record pending_tool_call =
  pt_execution_id :: ident
  pt_state :: pending_tool_state
  pt_reconciliation_hint :: string

datatype child_run_status = ChildPending | ChildRunning | ChildCompleted | ChildFailed | ChildCanceled

record child_state =
  ch_agent_run_id :: ident
  ch_task_id :: ident
  ch_status :: child_run_status
  ch_result_ref :: "source_ref option"

record next_action_proposal =
  na_authority :: source_authority
  na_description :: string

record working_state =
  ws_schema_version :: nat
  ws_session_id :: ident
  ws_task_id :: ident
  ws_revision :: nat
  ws_through_event_seq :: nat
  ws_objective_ref :: source_ref
  ws_acceptance_criteria_refs :: "source_ref list"
  ws_active_instruction_refs :: "ident list"
  ws_decision_refs :: "source_ref list"
  ws_superseded_decision_refs :: "source_ref list"
  ws_plan_items :: "plan_item list"
  ws_workspace :: workspace_observation
  ws_changes :: "workspace_change list"
  ws_checks :: "check_evidence list"
  ws_pending_tool_calls :: "pending_tool_call list"
  ws_children :: "child_state list"
  ws_blockers :: "string list"
  ws_pending_questions :: "string list"
  ws_next_action_proposals :: "next_action_proposal list"

fun plan_items_validate :: "ident set \<Rightarrow> plan_item list \<Rightarrow> unit res" where
  "plan_items_validate seen [] = Inr ()"
| "plan_items_validate seen (item # items) =
    (if pl_id item \<in> seen then Inl InvalidPayload
     else case checks (map source_ref_validate (pl_evidence_refs item)) of
       Inl e \<Rightarrow> Inl e
     | Inr _ \<Rightarrow> plan_items_validate (insert (pl_id item) seen) items)"

definition working_state_validate :: "working_state \<Rightarrow> unit res" where
  "working_state_validate w = checks [
    validate_schema_version (ws_schema_version w),
    validate_sequence (ws_through_event_seq w),
    source_ref_validate (ws_objective_ref w),
    if ws_through_event_seq w < sf_sequence (ws_objective_ref w) then Inl InvalidSequence else Inr (),
    plan_items_validate {} (ws_plan_items w),
    validate_nonempty (wo_worktree_id (ws_workspace w)),
    validate_nonempty (wo_base_commit (ws_workspace w))]"

lemma plan_items_validate_ok:
  "plan_items_validate seen items = Inr () \<longleftrightarrow>
    distinct (map pl_id items) \<and> seen \<inter> set (map pl_id items) = {} \<and>
    (\<forall>item \<in> set items. \<forall>r \<in> set (pl_evidence_refs item). 0 < sf_sequence r)"
proof (induction items arbitrary: seen)
  case (Cons item items)
  have refs: "checks (map source_ref_validate rs) = Inr () \<longleftrightarrow> (\<forall>r \<in> set rs. 0 < sf_sequence r)" for rs
    by (auto simp: checks_ok source_ref_validate_def validate_sequence_def)
  show ?case
  proof (cases "checks (map source_ref_validate (pl_evidence_refs item))")
    case (Inl e)
    with refs [of "pl_evidence_refs item"] show ?thesis by auto
  next
    case (Inr u)
    with refs [of "pl_evidence_refs item"] Cons.IH [of "insert (pl_id item) seen"] show ?thesis
      by auto
  qed
qed simp

section \<open>Instructions and admissions\<close>

datatype instruction_status = InstrEffective | InstrSuperseded | InstrUnknown

record instruction_entry =
  in_schema_version :: nat
  in_instruction_id :: ident
  in_source :: source_ref
  in_scope :: string
  in_authority :: source_authority
  in_mandatory :: bool
  in_status :: instruction_status
  in_source_hash :: content_hash
  in_superseded_by :: "ident option"

definition instruction_validate :: "instruction_entry \<Rightarrow> unit res" where
  "instruction_validate i = checks [validate_schema_version (in_schema_version i),
    source_ref_validate (in_source i), validate_nonempty (in_scope i)]"

record source_work_marker =
  mk_marker_id :: string
  mk_event_id :: ident
  mk_sequence :: nat
  mk_kind :: string
  mk_status :: string

record admission_commit =
  ad_session_id :: ident
  ad_task_id :: ident
  ad_input_id :: ident
  ad_input_hash :: content_hash
  ad_raw_text :: string
  ad_expected_sequence :: nat
  ad_event :: event_envelope
  ad_instruction :: instruction_entry
  ad_working_state :: working_state
  ad_marker :: source_work_marker

record admission_ack =
  ak_input_id :: ident
  ak_event_id :: ident
  ak_sequence :: nat
  ak_idempotent_replay :: bool

definition validate_admission :: "canonical_hash \<Rightarrow> admission_commit \<Rightarrow> unit res" where
  "validate_admission hash c = checks [
    if blank (ad_raw_text c) then Inl InvalidPayload else Inr (),
    event_validate hash (ad_event c),
    instruction_validate (ad_instruction c),
    working_state_validate (ad_working_state c),
    if ev_session_id (ad_event c) \<noteq> ad_session_id c
      \<or> ev_seq (ad_event c) \<noteq> ad_expected_sequence c
      \<or> ws_session_id (ad_working_state c) \<noteq> ad_session_id c
      \<or> ws_task_id (ad_working_state c) \<noteq> ad_task_id c
      \<or> ws_through_event_seq (ad_working_state c) \<noteq> ad_expected_sequence c
      \<or> mk_event_id (ad_marker c) \<noteq> ev_event_id (ad_event c)
      \<or> mk_sequence (ad_marker c) \<noteq> ad_expected_sequence c
    then Inl InvalidPayload else Inr ()]"

lemma event_validate_seq: "event_validate hash e = Inr () \<Longrightarrow> 0 < ev_seq e"
proof -
  assume ok: "event_validate hash e = Inr ()"
  let ?cs = "[validate_schema_version (ev_schema_version e), validate_sequence (ev_seq e),
    validate_nonempty (ev_event_type e), producer_validate (ev_producer e)]"
  from ok have "checks ?cs = Inr ()"
    unfolding event_validate_def by (cases "checks ?cs") simp_all
  then show ?thesis by (simp add: checks_ok validate_sequence_def split: if_splits)
qed

lemma validate_admissionD:
  assumes "validate_admission hash c = Inr ()"
  shows "\<not> blank (ad_raw_text c)" "event_validate hash (ad_event c) = Inr ()"
    "working_state_validate (ad_working_state c) = Inr ()"
    "ev_session_id (ad_event c) = ad_session_id c" "ev_seq (ad_event c) = ad_expected_sequence c"
    "ws_session_id (ad_working_state c) = ad_session_id c" "ws_task_id (ad_working_state c) = ad_task_id c"
    "ws_through_event_seq (ad_working_state c) = ad_expected_sequence c"
    "mk_event_id (ad_marker c) = ev_event_id (ad_event c)" "mk_sequence (ad_marker c) = ad_expected_sequence c"
    "0 < ad_expected_sequence c"
  using assms event_validate_seq [of hash "ad_event c"]
  by (simp_all add: validate_admission_def checks_ok split: if_splits)

end
