(* ===== verification/Tool_Records.thy ===== *)
theory Tool_Records imports Contracts begin

text \<open>
  The records of a tool execution (\<^verbatim>\<open>crates/harness-types/src/contracts\<close>): the binding of a
  single-use approval, the intent that is stored before the effect, and the receipt that is
  stored after it. The columns an intent and its row share are one record, \<open>tool_call\<close>, and the
  columns an approval and its binding share are the binding.
\<close>

record tool_approval_binding =
  ab_approval_id :: ident
  ab_session_id :: ident
  ab_task_id :: ident
  ab_invocation_id :: string
  ab_call_id :: "string option"
  ab_actor_id :: string
  ab_action_hash :: content_hash
  ab_workspace_root :: string
  ab_workspace_fingerprint :: content_hash
  ab_policy_revision :: nat
  ab_tool_revision :: nat

datatype tool_intent_status = StatusRecorded | StatusSettled | StatusUnknown

record tool_call =
  tc_execution_id :: ident
  tc_session_id :: ident
  tc_task_id :: ident
  tc_invocation_id :: string
  tc_call_id :: "string option"
  tc_actor_id :: string
  tc_tool_name :: string
  tc_action_json :: json
  tc_action_hash :: content_hash
  tc_workspace_root :: string
  tc_workspace_fingerprint :: content_hash
  tc_before_fingerprint :: "content_hash option"
  tc_policy_revision :: nat
  tc_tool_revision :: nat
  tc_intent_sequence :: nat

record tool_intent =
  ti_call :: tool_call
  ti_approval :: tool_approval_binding
  ti_status :: tool_intent_status

datatype tool_intent_state = IntentValidated | IntentDenied | IntentRecorded
datatype tool_outcome_state = ToolNotStarted | ToolSettled | ToolStateUnknown | ToolDenied

record tool_receipt =
  tr_schema_version :: nat
  tr_tool_execution_id :: ident
  tr_task_id :: ident
  tr_invocation_id :: string
  tr_call_id :: "string option"
  tr_input_hash :: content_hash
  tr_policy_revision :: nat
  tr_approval_id :: "string option"
  tr_intent_state :: tool_intent_state
  tr_outcome_state :: tool_outcome_state
  tr_before_fingerprint :: "content_hash option"
  tr_after_fingerprint :: "content_hash option"
  tr_before_hash :: "content_hash option"
  tr_after_hash :: "content_hash option"
  tr_exit_code :: "int option"
  tr_artifact_id :: "ident option"
  tr_observed_at_seq :: nat

definition tool_receipt_validate :: "tool_receipt \<Rightarrow> unit res" where
  "tool_receipt_validate r = checks [validate_schema_version (tr_schema_version r),
    validate_nonempty (tr_invocation_id r), validate_sequence (tr_observed_at_seq r)]"

record published_artifact =
  pa_artifact_id :: ident
  pa_content_hash :: content_hash
  pa_byte_len :: nat
  pa_relative_path :: string

record receipt_commit =
  xc_session_id :: ident
  xc_task_id :: ident
  xc_expected_sequence :: nat
  xc_event :: event_envelope
  xc_receipt :: tool_receipt
  xc_working_state :: working_state
  xc_marker :: source_work_marker
  xc_artifact :: "published_artifact option"

record receipt_ack =
  xa_event_id :: ident
  xa_sequence :: nat
  xa_idempotent_replay :: bool

record tool_intent_commit =
  ic_expected_sequence :: nat
  ic_event :: event_envelope
  ic_intent :: tool_intent
  ic_working_state :: working_state
  ic_marker :: source_work_marker

record tool_settlement_commit =
  zc_expected_sequence :: nat
  zc_event :: event_envelope
  zc_receipt :: tool_receipt
  zc_working_state :: working_state
  zc_marker :: source_work_marker
  zc_artifact :: "published_artifact option"
  zc_final_status :: tool_intent_status

record tool_task_update_commit =
  uc_session_id :: ident
  uc_task_id :: ident
  uc_expected_sequence :: nat
  uc_event :: event_envelope
  uc_working_state :: working_state
  uc_marker :: source_work_marker
  uc_approval :: tool_approval_binding

end
