(* ===== verification/Store_Records.thy ===== *)
theory Store_Records imports Tool_Records begin

text \<open>
  The durable records of \<^verbatim>\<open>crates/harness-store-sqlite/src/records/models.rs\<close>: the state
  enums with their stored spelling, the rows of the tables the model covers, and the database
  as one record of tables. A table is the list of its rows in \<^verbatim>\<open>rowid\<close> order
  (theory \<open>Prelude\<close>); columns that only hold a wall-clock default are left out.
\<close>

section \<open>Stored states\<close>

datatype tool_approval_state = ApprovalActive | ApprovalSpent | ApprovalWithdrawn

primrec tool_approval_state_str :: "tool_approval_state \<Rightarrow> string" where
  "tool_approval_state_str ApprovalActive = ''active''"
| "tool_approval_state_str ApprovalSpent = ''consumed''"
| "tool_approval_state_str ApprovalWithdrawn = ''revoked''"

definition parse_tool_approval_state :: "string \<Rightarrow> tool_approval_state option" where
  "parse_tool_approval_state s =
    (if s = ''active'' then Some ApprovalActive
     else if s = ''consumed'' then Some ApprovalSpent
     else if s = ''revoked'' then Some ApprovalWithdrawn else None)"

datatype runtime_command_state = CmdPending | CmdClaimed | CmdCompleted | CmdCanceled

primrec runtime_command_state_str :: "runtime_command_state \<Rightarrow> string" where
  "runtime_command_state_str CmdPending = ''pending''"
| "runtime_command_state_str CmdClaimed = ''claimed''"
| "runtime_command_state_str CmdCompleted = ''completed''"
| "runtime_command_state_str CmdCanceled = ''canceled''"

definition parse_runtime_command_state :: "string \<Rightarrow> runtime_command_state option" where
  "parse_runtime_command_state s =
    (if s = ''pending'' then Some CmdPending
     else if s = ''claimed'' then Some CmdClaimed
     else if s = ''completed'' then Some CmdCompleted
     else if s = ''canceled'' then Some CmdCanceled else None)"

datatype run_state = RunRunning | RunPaused | RunCompleted | RunFailed | RunCanceled

primrec run_state_str :: "run_state \<Rightarrow> string" where
  "run_state_str RunRunning = ''running''"
| "run_state_str RunPaused = ''paused''"
| "run_state_str RunCompleted = ''completed''"
| "run_state_str RunFailed = ''failed''"
| "run_state_str RunCanceled = ''canceled''"

definition parse_run_state :: "string \<Rightarrow> run_state option" where
  "parse_run_state s =
    (if s = ''running'' then Some RunRunning
     else if s = ''paused'' then Some RunPaused
     else if s = ''completed'' then Some RunCompleted
     else if s = ''failed'' then Some RunFailed
     else if s = ''canceled'' then Some RunCanceled else None)"

datatype reservation_state = Reserved | Settled | UnknownUsage | Released | ReservationExpired

primrec reservation_state_str :: "reservation_state \<Rightarrow> string" where
  "reservation_state_str Reserved = ''reserved''"
| "reservation_state_str Settled = ''settled''"
| "reservation_state_str UnknownUsage = ''unknown''"
| "reservation_state_str Released = ''released''"
| "reservation_state_str ReservationExpired = ''expired''"

definition parse_reservation_state :: "string \<Rightarrow> reservation_state option" where
  "parse_reservation_state s =
    (if s = ''reserved'' then Some Reserved
     else if s = ''settled'' then Some Settled
     else if s = ''unknown'' then Some UnknownUsage
     else if s = ''released'' then Some Released
     else if s = ''expired'' then Some ReservationExpired else None)"

datatype question_state = QOpen | QAnswered | QExpired | QCanceled

primrec question_state_str :: "question_state \<Rightarrow> string" where
  "question_state_str QOpen = ''open''"
| "question_state_str QAnswered = ''answered''"
| "question_state_str QExpired = ''expired''"
| "question_state_str QCanceled = ''canceled''"

definition parse_question_state :: "string \<Rightarrow> question_state option" where
  "parse_question_state s =
    (if s = ''open'' then Some QOpen
     else if s = ''answered'' then Some QAnswered
     else if s = ''expired'' then Some QExpired
     else if s = ''canceled'' then Some QCanceled else None)"

datatype run_command_kind = Steer | CancelRun

primrec run_command_kind_str :: "run_command_kind \<Rightarrow> string" where
  "run_command_kind_str Steer = ''steer''"
| "run_command_kind_str CancelRun = ''cancel''"

definition parse_run_command_kind :: "string \<Rightarrow> run_command_kind option" where
  "parse_run_command_kind s =
    (if s = ''steer'' then Some Steer else if s = ''cancel'' then Some CancelRun else None)"

datatype run_command_state = RcPending | RcClaimed | RcApplied | RcRejected

primrec run_command_state_str :: "run_command_state \<Rightarrow> string" where
  "run_command_state_str RcPending = ''pending''"
| "run_command_state_str RcClaimed = ''claimed''"
| "run_command_state_str RcApplied = ''applied''"
| "run_command_state_str RcRejected = ''rejected''"

definition parse_run_command_state :: "string \<Rightarrow> run_command_state option" where
  "parse_run_command_state s =
    (if s = ''pending'' then Some RcPending
     else if s = ''claimed'' then Some RcClaimed
     else if s = ''applied'' then Some RcApplied
     else if s = ''rejected'' then Some RcRejected else None)"

section \<open>The data directory marker\<close>

definition store_schema_version :: int where "store_schema_version = 2"
definition data_directory_format_version :: nat where "data_directory_format_version = 1"
definition data_directory_kind :: string where "data_directory_kind = ''harness-data''"

record data_directory_marker =
  dm_schema_version :: nat
  dm_kind :: string
  dm_store_schema_version :: int

definition current_marker :: data_directory_marker where
  "current_marker = \<lparr>dm_schema_version = data_directory_format_version,
    dm_kind = data_directory_kind, dm_store_schema_version = store_schema_version\<rparr>"

definition validate_marker :: "data_directory_marker \<Rightarrow> unit res" where
  "validate_marker m =
    (if dm_kind m \<noteq> data_directory_kind then Inl MigrationFailed
     else if dm_schema_version m > data_directory_format_version then Inl SchemaVersionMismatch
     else if dm_store_schema_version m > store_schema_version then Inl SchemaVersionMismatch
     else Inr ())"

section \<open>Rows\<close>

record host_fence =
  hf_host_id :: ident
  hf_generation :: nat

datatype fault_point = BeforeMigrationCommit | BeforeAdmissionCommit | BeforeReceiptCommit
  | BeforeSnapshotCommit | BeforeToolIntentCommit | BeforeToolSettlementCommit
  | BeforeDelegationDeliveryCommit | BeforeFreezeStepCommit | BeforeBudgetSettleCommit
  | BeforeQuestionAnswerCommit

record session_row =
  ss_session_id :: ident
  ss_task_id :: ident
  ss_next_sequence :: nat

record lease_row =
  tl_task_id :: ident
  tl_session_id :: ident
  tl_host_id :: ident
  tl_generation :: nat

record runtime_command =
  rc_command_id :: ident
  rc_session_id :: ident
  rc_task_id :: ident
  rc_state :: runtime_command_state
  rc_attempts :: nat
  rc_owner_generation :: nat
  rc_payload :: json
  rc_last_error :: "string option"

record lineage_row =
  ln_new_session_id :: ident
  ln_source_session_id :: ident
  ln_task_id :: ident

record event_row =
  er_session_id :: ident
  er_sequence :: nat
  er_event :: event_envelope

record inbox_row =
  ib_input_id :: ident
  ib_session_id :: ident
  ib_task_id :: ident
  ib_input_hash :: content_hash
  ib_raw_text :: string
  ib_event_id :: ident
  ib_admitted_sequence :: nat

record projection_row =
  pj_task_id :: ident
  pj_session_id :: ident
  pj_revision :: nat
  pj_through_sequence :: nat
  pj_state :: working_state

record marker_row =
  mr_marker_id :: string
  mr_session_id :: ident
  mr_task_id :: ident
  mr_event_id :: ident
  mr_sequence :: nat
  mr_marker :: source_work_marker

record run_record =
  run_id :: ident
  run_session_id :: ident
  run_task_id :: ident
  run_input_id :: ident
  run_st :: run_state
  run_acceptance :: "string option"
  run_stop_reason :: "string option"
  run_owner_generation :: nat
  run_revision :: nat
  run_budget_id :: "ident option"
  run_awaiting :: "ident option"

record run_step =
  st_step_id :: ident
  st_run_id :: ident
  st_index :: nat
  st_request_id :: ident
  st_packet_id :: ident
  st_manifest_hash :: string
  st_source_sequence :: nat
  st_state :: string
  st_stop_reason :: "string option"

record budget_account =
  ba_id :: ident
  ba_parent :: "ident option"
  ba_limit :: nat
  ba_spent :: nat
  ba_revision :: nat

record reservation =
  br_id :: ident
  br_budget_id :: ident
  br_operation_id :: string
  br_origin :: string
  br_bound :: nat
  br_settled :: "nat option"
  br_state :: reservation_state
  br_revision :: nat

record budget_settlement =
  bs_reservation_id :: ident
  bs_measured :: "nat option"

record question =
  q_id :: ident
  q_scope_key :: string
  q_session_id :: ident
  q_task_id :: ident
  q_run_id :: "ident option"
  q_kind :: string
  q_prompt :: string
  q_payload :: json
  q_state :: question_state
  q_answer :: "json option"
  q_answer_hash :: "string option"
  q_answered_by :: "string option"
  q_expires_at :: "nat option"
  q_created_at :: nat
  q_answered_at :: "nat option"

datatype question_outcome = Answered question | Duplicate question | NotFound
  | Expired question | Conflict question

record run_command =
  cm_id :: ident
  cm_run_id :: ident
  cm_session_id :: ident
  cm_task_id :: ident
  cm_kind :: run_command_kind
  cm_state :: run_command_state
  cm_payload :: json
  cm_detail :: "string option"
  cm_created_at :: nat
  cm_claimed_at :: "nat option"
  cm_applied_at :: "nat option"

record acceptance_row =
  ac_command_id :: ident
  ac_task_id :: ident
  ac_run_id :: ident
  ac_command :: json
  ac_record :: json

section \<open>Database\<close>

text \<open>
  \<open>db_epoch\<close> is the one row of \<^verbatim>\<open>host_epoch\<close>, \<open>db_hosts\<close> the table \<^verbatim>\<open>hosts\<close> by its primary
  key; every other table is a list of rows.
\<close>

text \<open>An approval row is the record with the two columns only the store writes.\<close>

record tool_approval =
  ta_binding :: tool_approval_binding
  ta_binding_hash :: content_hash
  ta_expires_at :: "nat option"
  ta_state :: tool_approval_state
  ta_json :: json

record approval_row =
  ar_approval :: tool_approval
  ar_consumed_by :: "string option"
  ar_revoked_reason :: "string option"

record intent_row =
  iw_call :: tool_call
  iw_approval_id :: ident
  iw_status :: tool_intent_status
  iw_event_id :: ident
  iw_settlement :: "ident option"

record receipt_row =
  rr_execution_id :: ident
  rr_session_id :: ident
  rr_task_id :: ident
  rr_event_id :: ident
  rr_sequence :: nat
  rr_receipt :: tool_receipt
  rr_artifact_id :: "ident option"

record artifact_scope =
  sa_artifact_id :: ident
  sa_project_id :: ident
  sa_task_id :: ident
  sa_execution_id :: ident

record db =
  db_epoch :: "nat option"
  db_hosts :: "ident \<rightharpoonup> nat"
  db_sessions :: "session_row list"
  db_leases :: "lease_row list"
  db_events :: "event_row list"
  db_inbox :: "inbox_row list"
  db_projections :: "projection_row list"
  db_markers :: "marker_row list"
  db_runtime_commands :: "runtime_command list"
  db_lineage :: "lineage_row list"
  db_runs :: "run_record list"
  db_steps :: "run_step list"
  db_accounts :: "budget_account list"
  db_reservations :: "reservation list"
  db_questions :: "question list"
  db_run_commands :: "run_command list"
  db_acceptances :: "acceptance_row list"
  db_approvals :: "approval_row list"
  db_intents :: "intent_row list"
  db_receipts :: "receipt_row list"
  db_artifacts :: "published_artifact list"
  db_artifact_scopes :: "artifact_scope list"

definition empty_db :: db where
  "empty_db = \<lparr>db_epoch = None, db_hosts = Map.empty, db_sessions = [], db_leases = [],
    db_events = [], db_inbox = [],
    db_projections = [], db_markers = [], db_runtime_commands = [], db_lineage = [], db_runs = [], db_steps = [],
    db_accounts = [], db_reservations = [], db_questions = [], db_run_commands = [],
    db_acceptances = [], db_approvals = [], db_intents = [],
    db_receipts = [], db_artifacts = [], db_artifact_scopes = []\<rparr>"

section \<open>Stored spellings are faithful\<close>

text \<open>What a spelling is parsed to is what was stored, and nothing else parses.\<close>

lemma parse_runtime_command_state_iff:
  "parse_runtime_command_state s = Some x \<longleftrightarrow> s = runtime_command_state_str x"
  by (cases x) (auto simp: parse_runtime_command_state_def)

lemma parse_tool_approval_state_iff:
  "parse_tool_approval_state s = Some x \<longleftrightarrow> s = tool_approval_state_str x"
  by (cases x) (auto simp: parse_tool_approval_state_def)

lemma parse_run_state_iff: "parse_run_state s = Some x \<longleftrightarrow> s = run_state_str x"
  by (cases x) (auto simp: parse_run_state_def)

lemma parse_reservation_state_iff: "parse_reservation_state s = Some x \<longleftrightarrow> s = reservation_state_str x"
  by (cases x) (auto simp: parse_reservation_state_def)

lemma parse_question_state_iff: "parse_question_state s = Some x \<longleftrightarrow> s = question_state_str x"
  by (cases x) (auto simp: parse_question_state_def)

lemma parse_run_command_kind_iff: "parse_run_command_kind s = Some x \<longleftrightarrow> s = run_command_kind_str x"
  by (cases x) (auto simp: parse_run_command_kind_def)

lemma parse_run_command_state_iff: "parse_run_command_state s = Some x \<longleftrightarrow> s = run_command_state_str x"
  by (cases x) (auto simp: parse_run_command_state_def)

text \<open>
  Every stored state is read back as it was written: each spelling parses to the state that
  was printed, and a spelling that was not printed does not parse.
\<close>

theorem stored_states_round_trip:
  "(parse_runtime_command_state s = Some a \<longleftrightarrow> s = runtime_command_state_str a) \<and>
    (parse_tool_approval_state s = Some b \<longleftrightarrow> s = tool_approval_state_str b) \<and>
    (parse_run_state s = Some c \<longleftrightarrow> s = run_state_str c) \<and>
    (parse_reservation_state s = Some d \<longleftrightarrow> s = reservation_state_str d) \<and>
    (parse_question_state s = Some e \<longleftrightarrow> s = question_state_str e) \<and>
    (parse_run_command_kind s = Some f \<longleftrightarrow> s = run_command_kind_str f) \<and>
    (parse_run_command_state s = Some g \<longleftrightarrow> s = run_command_state_str g)"
  by (simp only: parse_runtime_command_state_iff parse_tool_approval_state_iff parse_run_state_iff
    parse_reservation_state_iff parse_question_state_iff parse_run_command_kind_iff
    parse_run_command_state_iff simp_thms)

end
