(* ===== verification/Store_Core.thy ===== *)
theory Store_Core imports Store_Records begin

text \<open>
  The write path of \<^verbatim>\<open>crates/harness-store-sqlite/src/store/mod.rs\<close>: a store handle with the
  fence it was opened with, the fence check every write transaction starts with, and the
  operations on sessions, task leases and runtime commands. A transaction is a function from
  the database it began in to its end: an error (everything is rolled back), a rollback with a
  result, or a commit, which a test may have armed a fault for.
\<close>

section \<open>Integers of the database\<close>

definition to_i64 :: "nat \<Rightarrow> nat res" where
  "to_i64 n = (if i64_max < n then Inl InvalidPayload else Inr n)"

definition to_u64 :: "int \<Rightarrow> nat res" where
  "to_u64 i = (if i < 0 then Inl StorageWriteFailed else Inr (nat i))"

lemma to_i64_Inr [simp]: "to_i64 n = Inr m \<longleftrightarrow> m = n \<and> n \<le> i64_max"
  by (auto simp: to_i64_def)

lemma to_u64_to_i64: "to_i64 n = Inr m \<Longrightarrow> to_u64 (int m) = Inr n"
  by (simp add: to_u64_def)

section \<open>Fences\<close>

text \<open>The join of \<^verbatim>\<open>host_epoch\<close> and \<^verbatim>\<open>hosts\<close> that both fence checks read.\<close>

definition current_generation :: "ident \<Rightarrow> db \<Rightarrow> nat option" where
  "current_generation host d = (case db_epoch d of
      None \<Rightarrow> None
    | Some g \<Rightarrow> if db_hosts d host = Some g then Some g else None)"

definition assert_fence_in_tx :: "host_fence \<Rightarrow> db \<Rightarrow> unit res" where
  "assert_fence_in_tx f d = (case to_i64 (hf_generation f) of
      Inl e \<Rightarrow> Inl e
    | Inr g \<Rightarrow> if current_generation (hf_host_id f) d \<noteq> Some g then Inl StaleWriter else Inr ())"

definition assert_current_fence :: "host_fence \<Rightarrow> db \<Rightarrow> unit res" where
  "assert_current_fence f d = (case to_i64 (hf_generation f) of
      Inl e \<Rightarrow> Inl e
    | Inr g \<Rightarrow> if current_generation (hf_host_id f) d \<noteq> Some g then Inl StaleWriter else Inr ())"

definition acquire_fence :: "ident \<Rightarrow> db \<Rightarrow> (host_fence \<times> db) res" where
  "acquire_fence host d =
    (let current = (case db_epoch d of None \<Rightarrow> 0 | Some g \<Rightarrow> g)
     in if i64_max < current + 1 then Inl StorageWriteFailed
        else Inr (\<lparr>hf_host_id = host, hf_generation = current + 1\<rparr>,
          d\<lparr>db_epoch := Some (current + 1), db_hosts := (db_hosts d)(host \<mapsto> current + 1)\<rparr>))"

section \<open>Store handles and transactions\<close>

record store =
  s_writer :: "host_fence option"
  s_faults :: "fault_point set"
  s_db :: db

definition fence :: "store \<Rightarrow> host_fence res" where
  "fence s = (case s_writer s of Some f \<Rightarrow> Inr f | None \<Rightarrow> Inl ReadOnlyStore)"

definition consume :: "fault_point \<Rightarrow> fault_point set \<Rightarrow> bool \<times> fault_point set" where
  "consume p points = (p \<in> points, points - {p})"

datatype 'a tx_end = Rollback 'a | Commit 'a db | CommitAt fault_point 'a db

type_synonym 'a body = "host_fence \<Rightarrow> db \<Rightarrow> 'a tx_end res"

definition end_tx :: "'a tx_end res \<Rightarrow> store \<Rightarrow> 'a res \<times> store" where
  "end_tx r s = (case r of
      Inl e \<Rightarrow> (Inl e, s)
    | Inr (Rollback a) \<Rightarrow> (Inr a, s)
    | Inr (Commit a d) \<Rightarrow> (Inr a, s\<lparr>s_db := d\<rparr>)
    | Inr (CommitAt p a d) \<Rightarrow>
        (case consume p (s_faults s) of (hit, points) \<Rightarrow>
          if hit then (Inl StorageWriteFailed, s\<lparr>s_faults := points\<rparr>)
          else (Inr a, s\<lparr>s_faults := points, s_db := d\<rparr>)))"

text \<open>\<^verbatim>\<open>fence()?\<close>, \<^verbatim>\<open>begin_write\<close> with its fence check, the body, and the commit.\<close>

definition begin_write :: "host_fence \<Rightarrow> db \<Rightarrow> db res" where
  "begin_write f d = (case assert_fence_in_tx f d of Inl e \<Rightarrow> Inl e | Inr _ \<Rightarrow> Inr d)"

definition write_tx :: "'a body \<Rightarrow> store \<Rightarrow> 'a res \<times> store" where
  "write_tx body s = (case fence s of
      Inl e \<Rightarrow> (Inl e, s)
    | Inr f \<Rightarrow> (case begin_write f (s_db s) of
        Inl e \<Rightarrow> (Inl e, s)
      | Inr d \<Rightarrow> end_tx (body f d) s))"

definition may_write :: "store \<Rightarrow> bool" where
  "may_write s \<longleftrightarrow> (case s_writer s of
      None \<Rightarrow> False | Some f \<Rightarrow> assert_fence_in_tx f (s_db s) = Inr ())"

definition same_hosts :: "db \<Rightarrow> db \<Rightarrow> bool" where
  "same_hosts d d' \<longleftrightarrow> db_epoch d' = db_epoch d \<and> db_hosts d' = db_hosts d"

text \<open>The tables of tool executions are as they were.\<close>

definition same_tools :: "db \<Rightarrow> db \<Rightarrow> bool" where
  "same_tools d d' \<longleftrightarrow> db_approvals d' = db_approvals d \<and> db_intents d' = db_intents d \<and>
    db_receipts d' = db_receipts d \<and> db_artifacts d' = db_artifacts d \<and>
    db_artifact_scopes d' = db_artifact_scopes d"

lemma same_hosts_refl [simp]: "same_hosts d d"
  by (simp add: same_hosts_def)

lemma same_hosts_fence: "same_hosts d d' \<Longrightarrow> assert_fence_in_tx f d' = assert_fence_in_tx f d"
proof -
  assume "same_hosts d d'"
  then have "current_generation host d' = current_generation host d" for host
    by (cases "db_epoch d") (simp_all add: same_hosts_def current_generation_def)
  then show ?thesis
    by (simp add: assert_fence_in_tx_def to_i64_def)
qed

text \<open>
  The contract of every write operation: without current authority it is refused and changes
  nothing, an error leaves the database as it was, and the fence tables are not its business.
\<close>

locale fenced_operation =
  fixes op :: "store \<Rightarrow> 'a res \<times> store"
  assumes refused: "\<not> may_write s \<Longrightarrow> (\<exists>e. fst (op s) = Inl e) \<and> snd (op s) = s"
    and error_keeps: "fst (op s) = Inl e \<Longrightarrow> s_db (snd (op s)) = s_db s"
    and keeps_hosts: "same_hosts (s_db s) (s_db (snd (op s)))"
    and keeps_writer: "s_writer (snd (op s)) = s_writer s"
begin

lemma keeps_may_write: "may_write (snd (op s)) \<longleftrightarrow> may_write s"
  using keeps_hosts [of s]
  by (simp add: may_write_def keeps_writer same_hosts_fence split: option.splits)

lemma change_needs_authority: "s_db (snd (op s)) \<noteq> s_db s \<Longrightarrow> may_write s \<and> (\<exists>a. fst (op s) = Inr a)"
  using refused [of s] error_keeps [of s] by (cases "fst (op s)") auto

end

text \<open>What a transaction commits when it commits, and the two ways a body can be well behaved.\<close>

definition commits :: "'a tx_end res \<Rightarrow> db \<Rightarrow> bool" where
  "commits r d \<longleftrightarrow> (case r of
      Inl _ \<Rightarrow> False
    | Inr t \<Rightarrow> (case t of Rollback _ \<Rightarrow> False | Commit _ d' \<Rightarrow> d' = d | CommitAt _ _ d' \<Rightarrow> d' = d))"

lemma commits_simps [simp]:
  "\<not> commits (Inl e) d" "\<not> commits (Inr (Rollback a)) d"
  "commits (Inr (Commit a d')) d \<longleftrightarrow> d' = d" "commits (Inr (CommitAt p a d')) d \<longleftrightarrow> d' = d"
  by (simp_all add: commits_def)

lemma commits_bind [simp]: "commits (bind_res r g) d \<longleftrightarrow> (\<exists>x. r = Inr x \<and> commits (g x) d)"
  by (cases r) (simp_all add: bind_res_def)

lemma commits_if [simp]: "commits (if b then r else r') d \<longleftrightarrow> (if b then commits r d else commits r' d)"
  by simp

definition body_keeps_hosts :: "'a body \<Rightarrow> bool" where
  "body_keeps_hosts body \<longleftrightarrow> (\<forall>f d d'. commits (body f d) d' \<longrightarrow> same_hosts d d')"

lemma body_keeps_hostsI:
  "(\<And>f d d'. commits (body f d) d' \<Longrightarrow> same_hosts d d') \<Longrightarrow> body_keeps_hosts body"
  by (simp add: body_keeps_hosts_def)

definition body_keeps :: "(db \<Rightarrow> bool) \<Rightarrow> 'a body \<Rightarrow> bool" where
  "body_keeps I body \<longleftrightarrow> (\<forall>f d d'. I d \<longrightarrow> commits (body f d) d' \<longrightarrow> I d')"

lemma may_write_body:
  "may_write s \<longleftrightarrow> (\<exists>f. s_writer s = Some f \<and> assert_fence_in_tx f (s_db s) = Inr ())"
  by (auto simp: may_write_def split: option.splits)

lemma write_tx_refused: "\<not> may_write s \<Longrightarrow> (\<exists>e. write_tx body s = (Inl e, s))"
  by (auto simp: may_write_body write_tx_def fence_def begin_write_def split: option.splits sum.splits)

lemma write_tx_authorised:
  "s_writer s = Some f \<Longrightarrow> assert_fence_in_tx f (s_db s) = Inr () \<Longrightarrow>
    write_tx body s = end_tx (body f (s_db s)) s"
  by (simp add: write_tx_def fence_def begin_write_def)

lemma end_tx_simps [simp]:
  "end_tx (Inl e) s = (Inl e, s)"
  "end_tx (Inr (Rollback a)) s = (Inr a, s)"
  "end_tx (Inr (Commit a d)) s = (Inr a, s\<lparr>s_db := d\<rparr>)"
  "end_tx (Inr (CommitAt p a d)) s = (if p \<in> s_faults s
     then (Inl StorageWriteFailed, s\<lparr>s_faults := s_faults s - {p}\<rparr>)
     else (Inr a, s\<lparr>s_faults := s_faults s - {p}, s_db := d\<rparr>))"
  by (simp_all add: end_tx_def consume_def)

lemma end_tx_cases:
  obtains (failed) e where "fst (end_tx r s) = Inl e" "s_db (snd (end_tx r s)) = s_db s"
  | (rolled_back) a where "r = Inr (Rollback a)" "end_tx r s = (Inr a, s)"
  | (committed) a d where "commits r d" "fst (end_tx r s) = Inr a" "s_db (snd (end_tx r s)) = d"
proof (cases r)
  case (Inl e)
  with failed show ?thesis by simp
next
  case r: (Inr t)
  show ?thesis
  proof (cases t)
    case (CommitAt p a d)
    with r failed committed show ?thesis by (cases "p \<in> s_faults s") simp_all
  qed (use r rolled_back committed in simp_all)
qed

lemma end_tx_writer [simp]: "s_writer (snd (end_tx r s)) = s_writer s"
proof (cases r)
  case (Inr t)
  then show ?thesis by (cases t) simp_all
qed simp

lemma write_tx_fenced: "body_keeps_hosts body \<Longrightarrow> fenced_operation (write_tx body)"
proof
  fix s
  show "(\<exists>e. fst (write_tx body s) = Inl e) \<and> snd (write_tx body s) = s" if "\<not> may_write s"
    using write_tx_refused [OF that, of body] by auto
next
  fix s e
  assume err: "fst (write_tx body s) = Inl e"
  show "s_db (snd (write_tx body s)) = s_db s"
  proof (cases "may_write s")
    case True
    then obtain f where "write_tx body s = end_tx (body f (s_db s)) s"
      by (auto simp: may_write_body intro: write_tx_authorised)
    with err show ?thesis by (cases rule: end_tx_cases [of "body f (s_db s)" s]) auto
  next
    case False
    with write_tx_refused [of s body] show ?thesis by auto
  qed
next
  fix s
  assume keeps: "body_keeps_hosts body"
  show "same_hosts (s_db s) (s_db (snd (write_tx body s)))"
  proof (cases "may_write s")
    case True
    then obtain f where "write_tx body s = end_tx (body f (s_db s)) s"
      by (auto simp: may_write_body intro: write_tx_authorised)
    then show ?thesis
    proof (cases rule: end_tx_cases [of "body f (s_db s)" s])
      case (committed a d)
      with keeps \<open>write_tx body s = _\<close> show ?thesis by (auto simp: body_keeps_hosts_def)
    qed (simp_all add: same_hosts_def)
  next
    case False
    with write_tx_refused [of s body] show ?thesis by (auto simp: same_hosts_def)
  qed
next
  fix s
  show "s_writer (snd (write_tx body s)) = s_writer s"
    by (auto simp: write_tx_def split: sum.splits)
qed

text \<open>A check before the transaction.\<close>

lemma fenced_guard:
  assumes "fenced_operation op"
  shows "fenced_operation (\<lambda>s. case v of Inl e \<Rightarrow> (Inl e, s) | Inr _ \<Rightarrow> op s)"
proof (cases v)
  case (Inl e)
  then show ?thesis by (simp add: fenced_operation_def)
next
  case (Inr u)
  with assms show ?thesis by simp
qed

lemma write_tx_keeps:
  assumes "body_keeps I body" and "I (s_db s)"
  shows "I (s_db (snd (write_tx body s)))"
proof (cases "may_write s")
  case True
  then obtain f where tx: "write_tx body s = end_tx (body f (s_db s)) s"
    by (auto simp: may_write_body intro: write_tx_authorised)
  then show ?thesis
    by (cases rule: end_tx_cases [of "body f (s_db s)" s]) (use assms tx in \<open>auto simp: body_keeps_def\<close>)
next
  case False
  with write_tx_refused [of s body] assms(2) show ?thesis by auto
qed

lemma write_tx_InrE:
  assumes "write_tx body s = (Inr a, s')"
  obtains (rolled_back) f where "s_writer s = Some f" "assert_fence_in_tx f (s_db s) = Inr ()"
      "body f (s_db s) = Inr (Rollback a)" "s' = s"
  | (committed) f d where "s_writer s = Some f" "assert_fence_in_tx f (s_db s) = Inr ()"
      "body f (s_db s) = Inr (Commit a d)" "s' = s\<lparr>s_db := d\<rparr>"
  | (committed_at) f d p where "s_writer s = Some f" "assert_fence_in_tx f (s_db s) = Inr ()"
      "body f (s_db s) = Inr (CommitAt p a d)" "p \<notin> s_faults s" "s' = s\<lparr>s_db := d\<rparr>"
proof -
  from assms write_tx_refused [of s body] have "may_write s" by fastforce
  then obtain f where f: "s_writer s = Some f" "assert_fence_in_tx f (s_db s) = Inr ()"
    by (auto simp: may_write_body)
  from assms have tx: "end_tx (body f (s_db s)) s = (Inr a, s')"
    by (simp add: write_tx_authorised [OF f])
  then obtain t where t: "body f (s_db s) = Inr t" by (cases "body f (s_db s)") auto
  show thesis
  proof (cases t)
    case (Rollback x)
    with tx t have "body f (s_db s) = Inr (Rollback a)" "s' = s" by simp_all
    then show thesis by (rule rolled_back [OF f])
  next
    case (Commit x d)
    with tx t have "body f (s_db s) = Inr (Commit a d)" "s' = s\<lparr>s_db := d\<rparr>" by simp_all
    then show thesis by (rule committed [OF f])
  next
    case (CommitAt p x d)
    with tx t have p: "p \<notin> s_faults s" and "x = a" "s' = s\<lparr>s_faults := s_faults s - {p}, s_db := d\<rparr>"
      by (simp_all split: if_splits)
    moreover from p have "s\<lparr>s_faults := s_faults s - {p}, s_db := d\<rparr> = s\<lparr>s_db := d\<rparr>" by (cases s) simp
    ultimately have "body f (s_db s) = Inr (CommitAt p a d)" "s' = s\<lparr>s_db := d\<rparr>"
      using CommitAt t by simp_all
    with p show thesis by (intro committed_at [OF f])
  qed
qed

section \<open>One writer\<close>

text \<open>
  The host tables of every database the program reaches: no host has a generation past the
  epoch, and only one host has the epoch's.
\<close>

definition hosts_inv :: "db \<Rightarrow> bool" where
  "hosts_inv d \<longleftrightarrow> (\<forall>h g. db_hosts d h = Some g \<longrightarrow> (\<exists>epoch. db_epoch d = Some epoch \<and> g \<le> epoch)) \<and>
    (\<forall>h h' g. db_hosts d h = Some g \<longrightarrow> db_hosts d h' = Some g \<longrightarrow> h = h')"

lemma hosts_inv_empty: "hosts_inv empty_db"
  by (simp add: hosts_inv_def empty_db_def)

lemma acquire_fenceD:
  assumes "acquire_fence host d = Inr (f, d')"
  defines "g \<equiv> case db_epoch d of None \<Rightarrow> 1 | Some g \<Rightarrow> g + 1"
  shows "f = \<lparr>hf_host_id = host, hf_generation = g\<rparr>" and "g \<le> i64_max"
    and "d' = d\<lparr>db_epoch := Some g, db_hosts := (db_hosts d)(host \<mapsto> g)\<rparr>"
  using assms by (auto simp: acquire_fence_def Let_def split: if_splits option.splits)

lemma acquire_fence_inv:
  assumes inv: "hosts_inv d" and acq: "acquire_fence host d = Inr (f, d')"
  shows "hosts_inv d'"
proof -
  define g where "g = (case db_epoch d of None \<Rightarrow> 1 | Some g \<Rightarrow> g + 1)"
  have d': "d' = d\<lparr>db_epoch := Some g, db_hosts := (db_hosts d)(host \<mapsto> g)\<rparr>"
    using acquire_fenceD(3) [OF acq] by (simp add: g_def)
  have older: "g' < g" if "db_hosts d h = Some g'" for h g'
  proof -
    from inv that obtain epoch where "db_epoch d = Some epoch" "g' \<le> epoch"
      unfolding hosts_inv_def by blast
    then show ?thesis by (simp add: g_def)
  qed
  show ?thesis unfolding hosts_inv_def
  proof (intro conjI allI impI)
    fix h g' assume "db_hosts d' h = Some g'"
    then show "\<exists>epoch. db_epoch d' = Some epoch \<and> g' \<le> epoch"
      using older [of h g'] by (auto simp: d' split: if_splits)
  next
    fix h h' g' assume "db_hosts d' h = Some g'" "db_hosts d' h' = Some g'"
    then show "h = h'" using older inv by (fastforce simp: d' hosts_inv_def split: if_splits)
  qed
qed

lemma same_hosts_inv: "same_hosts d d' \<Longrightarrow> hosts_inv d' \<longleftrightarrow> hosts_inv d"
  by (simp add: same_hosts_def hosts_inv_def)

lemma assert_fence_iff:
  "assert_fence_in_tx f d = Inr () \<longleftrightarrow> hf_generation f \<le> i64_max \<and>
    db_epoch d = Some (hf_generation f) \<and> db_hosts d (hf_host_id f) = Some (hf_generation f)"
  by (auto simp: assert_fence_in_tx_def to_i64_def current_generation_def split: option.splits if_splits)

text \<open>After a takeover exactly the new fence passes the check.\<close>

lemma acquired_fence_only:
  assumes "hosts_inv d" and "acquire_fence host d = Inr (f, d')" and "same_hosts d' d''"
  shows "assert_fence_in_tx f' d'' = Inr () \<longleftrightarrow> f' = f"
proof -
  define g where "g = (case db_epoch d of None \<Rightarrow> 1 | Some g \<Rightarrow> g + 1)"
  note f = acquire_fenceD [OF assms(2), folded g_def]
  have inv: "hosts_inv d'" using assms(1,2) by (rule acquire_fence_inv)
  have "assert_fence_in_tx f' d' = Inr () \<longleftrightarrow> f' = f"
  proof
    assume "assert_fence_in_tx f' d' = Inr ()"
    then have "hf_generation f' = g" "db_hosts d' (hf_host_id f') = Some g"
      by (simp_all add: assert_fence_iff f(3) split: if_splits)
    moreover have "db_hosts d' host = Some g" by (simp add: f(3))
    ultimately show "f' = f" using inv f(1) by (auto simp: hosts_inv_def)
  next
    assume "f' = f"
    then show "assert_fence_in_tx f' d' = Inr ()" using f by (simp add: assert_fence_iff)
  qed
  with same_hosts_fence [OF assms(3)] show ?thesis by simp
qed

end
