(* ===== verification/Store_Commands.thy ===== *)
theory Store_Commands imports Store_Core begin

text \<open>
  Sessions, task leases and runtime commands of
  \<^verbatim>\<open>crates/harness-store-sqlite/src/store/mod.rs\<close>: the helpers a transaction is built from
  and the operations that enqueue, claim, retry and complete a command.
\<close>

section \<open>Sessions and sequences\<close>

definition session_by_id :: "ident \<Rightarrow> db \<Rightarrow> session_row option" where
  "session_by_id s d = sel (\<lambda>r. ss_session_id r = s) (db_sessions d)"

definition session_task_in_tx :: "ident \<Rightarrow> db \<Rightarrow> ident option" where
  "session_task_in_tx s d = map_option ss_task_id (session_by_id s d)"

definition ensure_session :: "ident \<Rightarrow> ident \<Rightarrow> nat \<Rightarrow> db \<Rightarrow> db res" where
  "ensure_session session task expected_sequence d = (case session_task_in_tx session d of
      Some existing \<Rightarrow> if existing \<noteq> task then Inl IdempotencyConflict else Inr d
    | None \<Rightarrow> if expected_sequence \<noteq> 1 then Inl SequenceConflict
        else Inr (d\<lparr>db_sessions := db_sessions d @
          [\<lparr>ss_session_id = session, ss_task_id = task, ss_next_sequence = 1\<rparr>]\<rparr>))"

definition ensure_session_existing :: "ident \<Rightarrow> ident \<Rightarrow> db \<Rightarrow> unit res" where
  "ensure_session_existing session task d = (case session_task_in_tx session d of
      Some existing \<Rightarrow> if existing = task then Inr () else Inl IdempotencyConflict
    | None \<Rightarrow> Inl InvalidPayload)"

text \<open>\<^verbatim>\<open>fetch_one\<close> fails without a row.\<close>

definition session_next_sequence :: "ident \<Rightarrow> db \<Rightarrow> nat res" where
  "session_next_sequence session d = (case session_by_id session d of
      None \<Rightarrow> Inl StorageWriteFailed
    | Some r \<Rightarrow> Inr (ss_next_sequence r))"

definition ensure_expected_sequence :: "ident \<Rightarrow> nat \<Rightarrow> db \<Rightarrow> unit res" where
  "ensure_expected_sequence session expected d = (case session_next_sequence session d of
      Inl e \<Rightarrow> Inl e
    | Inr actual \<Rightarrow> if actual \<noteq> expected then Inl SequenceConflict else Inr ())"

definition advance_sequence :: "ident \<Rightarrow> nat \<Rightarrow> db \<Rightarrow> db res" where
  "advance_sequence session expected d = (case to_i64 expected of
      Inl e \<Rightarrow> Inl e
    | Inr n \<Rightarrow>
        let hit = (\<lambda>r. ss_session_id r = session \<and> ss_next_sequence r = n) in
        if affected hit (db_sessions d) \<noteq> 1 then Inl SequenceConflict
        else Inr (d\<lparr>db_sessions := upd hit (\<lambda>r. r\<lparr>ss_next_sequence := ss_next_sequence r + 1\<rparr>) (db_sessions d)\<rparr>))"

text \<open>The table's foreign key and its \<^verbatim>\<open>CHECK\<close>s refuse the row as a write failure.\<close>

definition upsert_projection :: "ident \<Rightarrow> ident \<Rightarrow> working_state \<Rightarrow> db \<Rightarrow> db res" where
  "upsert_projection task session state d =
    (if i64_max < ws_revision state \<or> i64_max < ws_through_event_seq state then Inl InvalidPayload
     else if ws_revision state = 0 \<or> ws_through_event_seq state = 0 \<or> session_by_id session d = None
     then Inl StorageWriteFailed
     else let row = \<lparr>pj_task_id = task, pj_session_id = session, pj_revision = ws_revision state,
            pj_through_sequence = ws_through_event_seq state, pj_state = state\<rparr> in
       Inr (d\<lparr>db_projections :=
         (if sel (\<lambda>r. pj_task_id r = task) (db_projections d) = None then db_projections d @ [row]
          else upd (\<lambda>r. pj_task_id r = task) (\<lambda>_. row) (db_projections d))\<rparr>))"

section \<open>Task leases\<close>

definition lease_of :: "ident \<Rightarrow> db \<Rightarrow> lease_row option" where
  "lease_of task d = sel (\<lambda>r. tl_task_id r = task) (db_leases d)"

text \<open>The foreign key of \<^verbatim>\<open>task_leases\<close> refuses a session that does not exist.\<close>

definition claim_task :: "ident \<Rightarrow> ident \<Rightarrow> host_fence \<Rightarrow> db \<Rightarrow> db res" where
  "claim_task task session f d = (case lease_of task d of
      Some lease \<Rightarrow>
        if tl_session_id lease \<noteq> session \<and>
          (hf_generation f < tl_generation lease \<or>
            (tl_generation lease = hf_generation f \<and> tl_host_id lease = hf_host_id f))
        then Inl TaskLeaseConflict
        else (case to_i64 (hf_generation f) of
            Inl e \<Rightarrow> Inl e
          | Inr g \<Rightarrow> if session_by_id session d = None then Inl StorageWriteFailed
              else Inr (d\<lparr>db_leases := upd (\<lambda>r. tl_task_id r = task)
                (\<lambda>r. r\<lparr>tl_session_id := session, tl_host_id := hf_host_id f, tl_generation := g\<rparr>) (db_leases d)\<rparr>))
    | None \<Rightarrow> (case to_i64 (hf_generation f) of
            Inl e \<Rightarrow> Inl e
          | Inr g \<Rightarrow> if session_by_id session d = None then Inl StorageWriteFailed
              else Inr (d\<lparr>db_leases := db_leases d @ [\<lparr>tl_task_id = task, tl_session_id = session,
                tl_host_id = hf_host_id f, tl_generation = g\<rparr>]\<rparr>)))"

definition release_task_lease_body :: "ident \<Rightarrow> unit body" where
  "release_task_lease_body task f d = (case to_i64 (hf_generation f) of
      Inl e \<Rightarrow> Inl e
    | Inr g \<Rightarrow> Inr (Commit () (d\<lparr>db_leases := filter (\<lambda>r. \<not> (tl_task_id r = task \<and>
        tl_host_id r = hf_host_id f \<and> tl_generation r = g)) (db_leases d)\<rparr>)))"

definition release_task_lease :: "ident \<Rightarrow> store \<Rightarrow> unit res \<times> store" where
  "release_task_lease task = write_tx (release_task_lease_body task)"

definition continuation_link_body :: "ident \<Rightarrow> ident \<Rightarrow> ident \<Rightarrow> unit body" where
  "continuation_link_body source new_session task f d =
    (let row = \<lparr>ln_new_session_id = new_session, ln_source_session_id = source, ln_task_id = task\<rparr> in
    Inr (Commit () (if sel (\<lambda>r. ln_new_session_id r = new_session) (db_lineage d) = None
      then d\<lparr>db_lineage := db_lineage d @ [row]\<rparr>
      else d\<lparr>db_lineage := upd (\<lambda>r. ln_new_session_id r = new_session) (\<lambda>_. row) (db_lineage d)\<rparr>)))"

definition record_continuation_link :: "ident \<Rightarrow> ident \<Rightarrow> ident \<Rightarrow> store \<Rightarrow> unit res \<times> store" where
  "record_continuation_link source new_session task =
    write_tx (continuation_link_body source new_session task)"

section \<open>Runtime commands\<close>

definition command_by_id :: "ident \<Rightarrow> db \<Rightarrow> runtime_command option" where
  "command_by_id c d = sel (\<lambda>r. rc_command_id r = c) (db_runtime_commands d)"

text \<open>\<^verbatim>\<open>INSERT \<dots> ON CONFLICT(command_id) DO NOTHING\<close>, with whether a row was inserted.\<close>

definition insert_command :: "runtime_command \<Rightarrow> db \<Rightarrow> bool \<times> db" where
  "insert_command rec d = (if command_by_id (rc_command_id rec) d \<noteq> None then (False, d)
    else (True, d\<lparr>db_runtime_commands := db_runtime_commands d @ [rec]\<rparr>))"

definition enqueue_runtime_command_body :: "runtime_command \<Rightarrow> bool body" where
  "enqueue_runtime_command_body rec f d = (case to_i64 (rc_owner_generation rec) of
      Inl e \<Rightarrow> Inl e
    | Inr _ \<Rightarrow> (case insert_command rec d of (inserted, d') \<Rightarrow> Inr (Commit inserted d')))"

definition enqueue_runtime_command :: "runtime_command \<Rightarrow> store \<Rightarrow> bool res \<times> store" where
  "enqueue_runtime_command rec = write_tx (enqueue_runtime_command_body rec)"

definition read_runtime_command :: "ident \<Rightarrow> store \<Rightarrow> runtime_command option" where
  "read_runtime_command c s = command_by_id c (s_db s)"

definition set_command :: "ident \<Rightarrow> (runtime_command \<Rightarrow> runtime_command) \<Rightarrow> db \<Rightarrow> db" where
  "set_command c f d = d\<lparr>db_runtime_commands := upd (\<lambda>r. rc_command_id r = c) f (db_runtime_commands d)\<rparr>"

definition claim_runtime_command_body :: "ident \<Rightarrow> nat \<Rightarrow> runtime_command body" where
  "claim_runtime_command_body c max_attempts f d = (case command_by_id c d of
      None \<Rightarrow> Inl InvalidPayload
    | Some rec \<Rightarrow>
        if rc_state rec = CmdCompleted \<or> rc_state rec = CmdCanceled then Inr (Rollback rec)
        else if max_attempts \<le> rc_attempts rec then Inl RetryExhausted
        else let rec' = rec\<lparr>rc_attempts := saturating_add u32_max (rc_attempts rec) 1,
              rc_state := CmdClaimed, rc_owner_generation := hf_generation f\<rparr> in
          (case to_i64 (rc_owner_generation rec') of
            Inl e \<Rightarrow> Inl e
          | Inr g \<Rightarrow> Inr (Commit rec' (set_command c (\<lambda>r. r\<lparr>rc_state := rc_state rec',
              rc_attempts := rc_attempts rec', rc_owner_generation := g, rc_last_error := None\<rparr>) d))))"

definition claim_runtime_command :: "ident \<Rightarrow> nat \<Rightarrow> store \<Rightarrow> runtime_command res \<times> store" where
  "claim_runtime_command c max_attempts = write_tx (claim_runtime_command_body c max_attempts)"

text \<open>\<open>None\<close>: the command exists, the transaction was rolled back and the claim follows.\<close>

definition enqueue_claimed_body :: "runtime_command \<Rightarrow> nat \<Rightarrow> runtime_command option body" where
  "enqueue_claimed_body rec max_attempts f d =
    (if max_attempts = 0 then Inl RetryExhausted
     else let rec' = rec\<lparr>rc_state := CmdClaimed, rc_attempts := 1,
            rc_owner_generation := hf_generation f, rc_last_error := None\<rparr> in
       (case to_i64 (rc_owner_generation rec') of
          Inl e \<Rightarrow> Inl e
        | Inr _ \<Rightarrow> (case insert_command rec' d of
            (False, _) \<Rightarrow> Inr (Rollback None)
          | (True, d') \<Rightarrow> Inr (Commit (Some rec') d'))))"

definition enqueue_claimed_runtime_command ::
  "runtime_command \<Rightarrow> nat \<Rightarrow> store \<Rightarrow> runtime_command res \<times> store" where
  "enqueue_claimed_runtime_command rec max_attempts s =
    (case write_tx (enqueue_claimed_body rec max_attempts) s of
      (Inl e, s') \<Rightarrow> (Inl e, s')
    | (Inr (Some rec'), s') \<Rightarrow> (Inr rec', s')
    | (Inr None, s') \<Rightarrow> claim_runtime_command (rc_command_id rec) max_attempts s')"

definition complete_runtime_command_in_tx ::
  "ident \<Rightarrow> nat \<Rightarrow> runtime_command_state \<Rightarrow> string option \<Rightarrow> db \<Rightarrow> db res" where
  "complete_runtime_command_in_tx c owner_generation state error d = (case to_i64 owner_generation of
      Inl e \<Rightarrow> Inl e
    | Inr g \<Rightarrow>
        let hit = (\<lambda>r. rc_command_id r = c \<and> rc_owner_generation r = g) in
        if affected hit (db_runtime_commands d) \<noteq> 1 then Inl RuntimeCommandConflict
        else Inr (d\<lparr>db_runtime_commands := upd hit
          (\<lambda>r. r\<lparr>rc_state := state, rc_last_error := error\<rparr>) (db_runtime_commands d)\<rparr>))"

definition complete_runtime_command_body ::
  "ident \<Rightarrow> nat \<Rightarrow> runtime_command_state \<Rightarrow> string option \<Rightarrow> unit body" where
  "complete_runtime_command_body c owner_generation state error f d =
    (case complete_runtime_command_in_tx c owner_generation state error d of
      Inl e \<Rightarrow> Inl e | Inr d' \<Rightarrow> Inr (Commit () d'))"

definition complete_runtime_command ::
  "ident \<Rightarrow> nat \<Rightarrow> runtime_command_state \<Rightarrow> string option \<Rightarrow> store \<Rightarrow> unit res \<times> store" where
  "complete_runtime_command c owner_generation state error =
    write_tx (complete_runtime_command_body c owner_generation state error)"

definition bump_attempt_body :: "ident \<Rightarrow> nat \<Rightarrow> nat \<Rightarrow> nat body" where
  "bump_attempt_body c owner_generation max_attempts f d = (case to_i64 owner_generation of
      Inl e \<Rightarrow> Inl e
    | Inr g \<Rightarrow>
        let hit = (\<lambda>r. rc_command_id r = c \<and> rc_owner_generation r = g) in
        (case sel hit (db_runtime_commands d) of
          None \<Rightarrow> Inl RuntimeCommandConflict
        | Some rec \<Rightarrow>
            if u32_max < rc_attempts rec then Inl StorageWriteFailed
            else if max_attempts \<le> rc_attempts rec then Inl RetryExhausted
            else let n = saturating_add u32_max (rc_attempts rec) 1 in
              Inr (Commit n (d\<lparr>db_runtime_commands := upd hit
                (\<lambda>r. r\<lparr>rc_attempts := n, rc_state := CmdClaimed\<rparr>) (db_runtime_commands d)\<rparr>))))"

definition bump_runtime_command_attempt :: "ident \<Rightarrow> nat \<Rightarrow> nat \<Rightarrow> store \<Rightarrow> nat res \<times> store" where
  "bump_runtime_command_attempt c owner_generation max_attempts =
    write_tx (bump_attempt_body c owner_generation max_attempts)"

section \<open>Every operation is fenced\<close>

lemma release_task_lease_frame:
  "commits (release_task_lease_body task f d) d' \<Longrightarrow> \<exists>ls. d' = d\<lparr>db_leases := ls\<rparr>"
  by (auto simp: release_task_lease_body_def split: sum.splits)

lemma continuation_link_frame:
  "commits (continuation_link_body source new_session task f d) d' \<Longrightarrow> \<exists>ls. d' = d\<lparr>db_lineage := ls\<rparr>"
  by (auto simp: continuation_link_body_def Let_def)

lemma insert_command_frame: "\<exists>cs. snd (insert_command rec d) = d\<lparr>db_runtime_commands := cs\<rparr>"
  by (cases d) (auto simp: insert_command_def)

lemma enqueue_frame:
  "commits (enqueue_runtime_command_body rec f d) d' \<Longrightarrow> \<exists>cs. d' = d\<lparr>db_runtime_commands := cs\<rparr>"
  using insert_command_frame [of rec d]
  by (auto simp: enqueue_runtime_command_body_def split: sum.splits prod.splits)

lemma claim_frame:
  "commits (claim_runtime_command_body c max_attempts f d) d' \<Longrightarrow> \<exists>cs. d' = d\<lparr>db_runtime_commands := cs\<rparr>"
  by (auto simp: claim_runtime_command_body_def set_command_def Let_def split: option.splits sum.splits if_splits)

lemma enqueue_claimed_frame:
  "commits (enqueue_claimed_body rec max_attempts f d) d' \<Longrightarrow> \<exists>cs. d' = d\<lparr>db_runtime_commands := cs\<rparr>"
  by (auto simp: enqueue_claimed_body_def insert_command_def Let_def split: sum.splits if_splits)

lemma complete_in_tx_frame:
  "complete_runtime_command_in_tx c g state error d = Inr d' \<Longrightarrow> \<exists>cs. d' = d\<lparr>db_runtime_commands := cs\<rparr>"
  by (auto simp: complete_runtime_command_in_tx_def Let_def split: sum.splits if_splits)

lemma complete_frame:
  "commits (complete_runtime_command_body c g state error f d) d' \<Longrightarrow> \<exists>cs. d' = d\<lparr>db_runtime_commands := cs\<rparr>"
  by (auto simp: complete_runtime_command_body_def dest: complete_in_tx_frame split: sum.splits)

lemma bump_frame:
  "commits (bump_attempt_body c g max_attempts f d) d' \<Longrightarrow> \<exists>cs. d' = d\<lparr>db_runtime_commands := cs\<rparr>"
  by (auto simp: bump_attempt_body_def Let_def split: sum.splits option.splits if_splits)

lemmas command_frames = enqueue_frame claim_frame enqueue_claimed_frame complete_frame bump_frame

interpretation release_lease_op: fenced_operation "release_task_lease task" for task
  unfolding release_task_lease_def
  by (rule write_tx_fenced, rule body_keeps_hostsI) (auto simp: same_hosts_def dest: release_task_lease_frame)

interpretation continuation_op: fenced_operation "record_continuation_link source new_session task"
  for source new_session task
  unfolding record_continuation_link_def
  by (rule write_tx_fenced, rule body_keeps_hostsI) (auto simp: same_hosts_def dest: continuation_link_frame)

interpretation enqueue_op: fenced_operation "enqueue_runtime_command rec" for rec
  unfolding enqueue_runtime_command_def
  by (rule write_tx_fenced, rule body_keeps_hostsI) (auto simp: same_hosts_def dest: enqueue_frame)

interpretation claim_op: fenced_operation "claim_runtime_command c max_attempts" for c max_attempts
  unfolding claim_runtime_command_def
  by (rule write_tx_fenced, rule body_keeps_hostsI) (auto simp: same_hosts_def dest: claim_frame)

interpretation complete_op: fenced_operation "complete_runtime_command c g state error" for c g state error
  unfolding complete_runtime_command_def
  by (rule write_tx_fenced, rule body_keeps_hostsI) (auto simp: same_hosts_def dest: complete_frame)

interpretation bump_op: fenced_operation "bump_runtime_command_attempt c g max_attempts" for c g max_attempts
  unfolding bump_runtime_command_attempt_def
  by (rule write_tx_fenced, rule body_keeps_hostsI) (auto simp: same_hosts_def dest: bump_frame)

text \<open>The one operation of two transactions: what the first leaves, the second starts from.\<close>

interpretation enqueue_claimed_tx: fenced_operation "write_tx (enqueue_claimed_body rec max_attempts)"
  for rec max_attempts
  by (rule write_tx_fenced, rule body_keeps_hostsI) (auto simp: same_hosts_def dest: enqueue_claimed_frame)

lemma enqueue_claimed_first:
  assumes "write_tx (enqueue_claimed_body rec max_attempts) s = (Inr None, s')"
  shows "s' = s"
proof -
  have "may_write s"
    using enqueue_claimed_tx.refused [of s rec max_attempts] assms by fastforce
  then obtain f where f: "s_writer s = Some f" "assert_fence_in_tx f (s_db s) = Inr ()"
    by (auto simp: may_write_body)
  from assms have "end_tx (enqueue_claimed_body rec max_attempts f (s_db s)) s = (Inr None, s')"
    by (simp add: write_tx_authorised [OF f])
  then show ?thesis
    by (auto simp: enqueue_claimed_body_def Let_def split: sum.splits if_splits prod.splits bool.splits)
qed

lemma enqueue_claimed_cases:
  obtains (first) r where "enqueue_claimed_runtime_command rec max_attempts s = (r, snd (write_tx (enqueue_claimed_body rec max_attempts) s))"
      "\<And>e. r = Inl e \<longleftrightarrow> fst (write_tx (enqueue_claimed_body rec max_attempts) s) = Inl e"
  | (second) "enqueue_claimed_runtime_command rec max_attempts s =
      claim_runtime_command (rc_command_id rec) max_attempts s"
proof (cases "write_tx (enqueue_claimed_body rec max_attempts) s")
  case (Pair r s')
  show thesis
  proof (cases "r = Inr None")
    case True
    with Pair have tx: "write_tx (enqueue_claimed_body rec max_attempts) s = (Inr None, s')" by simp
    from enqueue_claimed_first [OF this] have "s' = s" .
    with tx second show thesis by (simp add: enqueue_claimed_runtime_command_def)
  next
    case False
    show thesis
    proof (cases r)
      case (Inl e)
      with Pair first [of "Inl e"] show thesis by (simp add: enqueue_claimed_runtime_command_def)
    next
      case (Inr o')
      with False obtain rec' where "r = Inr (Some rec')" by (cases o') auto
      with Pair first [of "Inr rec'"] show thesis by (simp add: enqueue_claimed_runtime_command_def)
    qed
  qed
qed

interpretation enqueue_claimed_op: fenced_operation "enqueue_claimed_runtime_command rec max_attempts"
  for rec max_attempts
proof
  fix s
  show "(\<exists>e. fst (enqueue_claimed_runtime_command rec max_attempts s) = Inl e) \<and>
      snd (enqueue_claimed_runtime_command rec max_attempts s) = s" if "\<not> may_write s"
    using enqueue_claimed_tx.refused [OF that] claim_op.refused [OF that]
    by (cases rule: enqueue_claimed_cases [of rec max_attempts s]) force+
next
  fix s e
  assume "fst (enqueue_claimed_runtime_command rec max_attempts s) = Inl e"
  then show "s_db (snd (enqueue_claimed_runtime_command rec max_attempts s)) = s_db s"
    using enqueue_claimed_tx.error_keeps claim_op.error_keeps
    by (cases rule: enqueue_claimed_cases [of rec max_attempts s]) auto
next
  fix s
  show "same_hosts (s_db s) (s_db (snd (enqueue_claimed_runtime_command rec max_attempts s)))"
    using enqueue_claimed_tx.keeps_hosts claim_op.keeps_hosts
    by (cases rule: enqueue_claimed_cases [of rec max_attempts s]) auto
next
  fix s
  show "s_writer (snd (enqueue_claimed_runtime_command rec max_attempts s)) = s_writer s"
    using enqueue_claimed_tx.keeps_writer claim_op.keeps_writer
    by (cases rule: enqueue_claimed_cases [of rec max_attempts s]) auto
qed

end
