(* ===== verification/Journal.thy ===== *)
theory Journal imports Store_Commands begin

text \<open>
  The journal of \<^verbatim>\<open>crates/harness-store-sqlite/src/store/mod.rs\<close>: the transactions that admit
  a user input, commit a projected runtime event and open a forked session. Each writes an
  event, its projection and its marker and moves the session's sequence in one transaction.
\<close>

section \<open>Inserts\<close>

text \<open>A refused constraint (key, foreign key, \<^verbatim>\<open>CHECK\<close>) is a write failure.\<close>

definition event_by_id :: "ident \<Rightarrow> db \<Rightarrow> event_row option" where
  "event_by_id e d = sel (\<lambda>r. ev_event_id (er_event r) = e) (db_events d)"

definition insert_event :: "ident \<Rightarrow> event_envelope \<Rightarrow> db \<Rightarrow> db res" where
  "insert_event session e d = (case to_i64 (ev_seq e) of
      Inl err \<Rightarrow> Inl err
    | Inr n \<Rightarrow>
        if n = 0 \<or> session_by_id session d = None
          \<or> sel (\<lambda>r. er_session_id r = session \<and> er_sequence r = n) (db_events d) \<noteq> None
          \<or> event_by_id (ev_event_id e) d \<noteq> None
        then Inl StorageWriteFailed
        else Inr (d\<lparr>db_events := db_events d @
          [\<lparr>er_session_id = session, er_sequence = n, er_event = e\<rparr>]\<rparr>))"

definition inbox_by_id :: "ident \<Rightarrow> db \<Rightarrow> inbox_row option" where
  "inbox_by_id i d = sel (\<lambda>r. ib_input_id r = i) (db_inbox d)"

definition insert_inbox :: "admission_commit \<Rightarrow> db \<Rightarrow> db res" where
  "insert_inbox c d = (case to_i64 (ev_seq (ad_event c)) of
      Inl err \<Rightarrow> Inl err
    | Inr n \<Rightarrow>
        if n = 0 \<or> session_by_id (ad_session_id c) d = None
          \<or> inbox_by_id (ad_input_id c) d \<noteq> None
          \<or> event_by_id (ev_event_id (ad_event c)) d = None
          \<or> sel (\<lambda>r. ib_event_id r = ev_event_id (ad_event c)) (db_inbox d) \<noteq> None
        then Inl StorageWriteFailed
        else Inr (d\<lparr>db_inbox := db_inbox d @
          [\<lparr>ib_input_id = ad_input_id c, ib_session_id = ad_session_id c, ib_task_id = ad_task_id c,
            ib_input_hash = ad_input_hash c, ib_raw_text = ad_raw_text c,
            ib_event_id = ev_event_id (ad_event c), ib_admitted_sequence = n\<rparr>]\<rparr>))"

definition insert_marker :: "ident \<Rightarrow> ident \<Rightarrow> source_work_marker \<Rightarrow> db \<Rightarrow> db res" where
  "insert_marker session task m d = (case to_i64 (mk_sequence m) of
      Inl err \<Rightarrow> Inl err
    | Inr n \<Rightarrow>
        if n = 0 \<or> session_by_id session d = None \<or> event_by_id (mk_event_id m) d = None
          \<or> sel (\<lambda>r. mr_marker_id r = mk_marker_id m) (db_markers d) \<noteq> None
        then Inl StorageWriteFailed
        else Inr (d\<lparr>db_markers := db_markers d @
          [\<lparr>mr_marker_id = mk_marker_id m, mr_session_id = session, mr_task_id = task,
            mr_event_id = mk_event_id m, mr_sequence = n, mr_marker = m\<rparr>]\<rparr>))"

section \<open>Transactions\<close>

definition admission_body :: "admission_commit \<Rightarrow> admission_ack body" where
  "admission_body c f d = (case inbox_by_id (ad_input_id c) d of
      Some row \<Rightarrow>
        if ib_session_id row = ad_session_id c \<and> ib_task_id row = ad_task_id c
          \<and> ib_input_hash row = ad_input_hash c
        then Inr (Rollback \<lparr>ak_input_id = ad_input_id c, ak_event_id = ib_event_id row,
          ak_sequence = ib_admitted_sequence row, ak_idempotent_replay = True\<rparr>)
        else Inl IdempotencyConflict
    | None \<Rightarrow>
        bind_res (ensure_session (ad_session_id c) (ad_task_id c) (ad_expected_sequence c) d) (\<lambda>d.
        bind_res (claim_task (ad_task_id c) (ad_session_id c) f d) (\<lambda>d.
        bind_res (ensure_expected_sequence (ad_session_id c) (ad_expected_sequence c) d) (\<lambda>_.
        bind_res (insert_event (ad_session_id c) (ad_event c) d) (\<lambda>d.
        bind_res (insert_inbox c d) (\<lambda>d.
        bind_res (upsert_projection (ad_task_id c) (ad_session_id c) (ad_working_state c) d) (\<lambda>d.
        bind_res (insert_marker (ad_session_id c) (ad_task_id c) (ad_marker c) d) (\<lambda>d.
        bind_res (advance_sequence (ad_session_id c) (ad_expected_sequence c) d) (\<lambda>d.
        Inr (CommitAt BeforeAdmissionCommit
          \<lparr>ak_input_id = ad_input_id c, ak_event_id = ev_event_id (ad_event c),
            ak_sequence = ev_seq (ad_event c), ak_idempotent_replay = False\<rparr> d))))))))))"

definition commit_admission ::
  "canonical_hash \<Rightarrow> admission_commit \<Rightarrow> store \<Rightarrow> admission_ack res \<times> store" where
  "commit_admission hash c s = (case validate_admission hash c of
      Inl e \<Rightarrow> (Inl e, s)
    | Inr _ \<Rightarrow> write_tx (admission_body c) s)"

definition projected_event_body ::
  "event_envelope \<Rightarrow> ident \<Rightarrow> working_state \<Rightarrow> source_work_marker \<Rightarrow> unit body" where
  "projected_event_body e task state m f d =
    bind_res (ensure_session_existing (ev_session_id e) task d) (\<lambda>_.
    bind_res (claim_task task (ev_session_id e) f d) (\<lambda>d.
    bind_res (ensure_expected_sequence (ev_session_id e) (ev_seq e) d) (\<lambda>_.
    bind_res (insert_event (ev_session_id e) e d) (\<lambda>d.
    bind_res (upsert_projection task (ev_session_id e) state d) (\<lambda>d.
    bind_res (insert_marker (ev_session_id e) task m d) (\<lambda>d.
    bind_res (advance_sequence (ev_session_id e) (ev_seq e) d) (\<lambda>d.
    Inr (Commit () d))))))))"

definition commit_projected_event ::
  "canonical_hash \<Rightarrow> event_envelope \<Rightarrow> ident \<Rightarrow> working_state \<Rightarrow> source_work_marker \<Rightarrow> store \<Rightarrow>
    unit res \<times> store" where
  "commit_projected_event hash e task state m s =
    (case checks [event_validate hash e, working_state_validate state,
        if ev_session_id e \<noteq> ws_session_id state \<or> ev_seq e \<noteq> ws_through_event_seq state
          \<or> ws_task_id state \<noteq> task then Inl InvalidPayload else Inr ()] of
      Inl err \<Rightarrow> (Inl err, s)
    | Inr _ \<Rightarrow> write_tx (projected_event_body e task state m) s)"

definition forked_session_body :: "ident \<Rightarrow> ident \<Rightarrow> ident \<Rightarrow> unit body" where
  "forked_session_body task source new_session f d = (case session_task_in_tx source d of
      None \<Rightarrow> Inl InvalidPayload
    | Some source_task \<Rightarrow>
        if source_task \<noteq> task then Inl ScopeAuthorityDenied
        else Inr (Commit () (if session_by_id new_session d \<noteq> None then d
          else d\<lparr>db_sessions := db_sessions d @
            [\<lparr>ss_session_id = new_session, ss_task_id = task, ss_next_sequence = 1\<rparr>]\<rparr>)))"

definition open_forked_session :: "ident \<Rightarrow> ident \<Rightarrow> ident \<Rightarrow> store \<Rightarrow> unit res \<times> store" where
  "open_forked_session task source new_session = write_tx (forked_session_body task source new_session)"

definition next_sequence :: "ident \<Rightarrow> store \<Rightarrow> nat res" where
  "next_sequence session s = (case session_by_id session (s_db s) of
      None \<Rightarrow> Inl InvalidPayload | Some r \<Rightarrow> Inr (ss_next_sequence r))"

text \<open>
  Reading back: \<^verbatim>\<open>ORDER BY sequence\<close>, each stored event validated again, the first failure
  reported; \<open>limit\<close> is capped at one page of 4096.
\<close>

definition journal_tail :: "ident \<Rightarrow> nat \<Rightarrow> db \<Rightarrow> event_envelope list" where
  "journal_tail session n d = map er_event (sort_key er_sequence
    (filter (\<lambda>r. er_session_id r = session \<and> n < er_sequence r) (db_events d)))"

definition parse_events :: "canonical_hash \<Rightarrow> event_envelope list \<Rightarrow> event_envelope list res" where
  "parse_events hash es = (case checks (map (event_validate hash) es) of
      Inl e \<Rightarrow> Inl e | Inr _ \<Rightarrow> Inr es)"

definition load_events_after :: "canonical_hash \<Rightarrow> ident \<Rightarrow> nat \<Rightarrow> db \<Rightarrow> event_envelope list res" where
  "load_events_after hash session n d =
    bind_res (to_i64 n) (\<lambda>n. parse_events hash (journal_tail session n d))"

definition load_events_after_limit ::
  "canonical_hash \<Rightarrow> ident \<Rightarrow> nat \<Rightarrow> nat \<Rightarrow> db \<Rightarrow> event_envelope list res" where
  "load_events_after_limit hash session n limit d =
    (if limit = 0 then Inr []
     else bind_res (to_i64 n) (\<lambda>n. parse_events hash (take (min limit 4096) (journal_tail session n d))))"

section \<open>What each helper changes\<close>

lemma ensure_sessionD:
  assumes "ensure_session s t n d = Inr d'"
  obtains (existing) "d' = d" "session_task_in_tx s d = Some t"
  | (created) "session_by_id s d = None" "n = 1"
      "d' = d\<lparr>db_sessions := db_sessions d @ [\<lparr>ss_session_id = s, ss_task_id = t, ss_next_sequence = 1\<rparr>]\<rparr>"
  using assms by (auto simp: ensure_session_def session_task_in_tx_def split: option.splits if_splits)

lemma claim_task_frame:
  "claim_task t s f d = Inr d' \<Longrightarrow> \<exists>leases. d' = d\<lparr>db_leases := leases\<rparr>"
  by (auto simp: claim_task_def split: option.splits if_splits sum.splits)

lemma ensure_expected_sequenceD:
  "ensure_expected_sequence s n d = Inr u \<Longrightarrow> \<exists>r. session_by_id s d = Some r \<and> ss_next_sequence r = n"
  by (auto simp: ensure_expected_sequence_def session_next_sequence_def split: option.splits if_splits)

lemma insert_eventD:
  "insert_event s e d = Inr d' \<Longrightarrow> event_by_id (ev_event_id e) d = None \<and>
    d' = d\<lparr>db_events := db_events d @ [\<lparr>er_session_id = s, er_sequence = ev_seq e, er_event = e\<rparr>]\<rparr>"
  by (auto simp: insert_event_def split: sum.splits if_splits)

lemma insert_inboxD:
  "insert_inbox c d = Inr d' \<Longrightarrow> inbox_by_id (ad_input_id c) d = None \<and>
    d' = d\<lparr>db_inbox := db_inbox d @
      [\<lparr>ib_input_id = ad_input_id c, ib_session_id = ad_session_id c, ib_task_id = ad_task_id c,
        ib_input_hash = ad_input_hash c, ib_raw_text = ad_raw_text c,
        ib_event_id = ev_event_id (ad_event c), ib_admitted_sequence = ev_seq (ad_event c)\<rparr>]\<rparr>"
  by (auto simp: insert_inbox_def split: sum.splits if_splits)

lemma upsert_projection_frame:
  "upsert_projection t s w d = Inr d' \<Longrightarrow> \<exists>ps. d' = d\<lparr>db_projections := ps\<rparr>"
  by (auto simp: upsert_projection_def Let_def split: if_splits)

lemma insert_marker_frame:
  "insert_marker s t m d = Inr d' \<Longrightarrow> \<exists>ms. d' = d\<lparr>db_markers := ms\<rparr>"
  by (auto simp: insert_marker_def split: sum.splits if_splits)

lemma advance_sequenceD:
  "advance_sequence s n d = Inr d' \<Longrightarrow> d' = d\<lparr>db_sessions :=
    upd (\<lambda>r. ss_session_id r = s \<and> ss_next_sequence r = n)
      (\<lambda>r. r\<lparr>ss_next_sequence := ss_next_sequence r + 1\<rparr>) (db_sessions d)\<rparr>"
  by (auto simp: advance_sequence_def Let_def split: sum.splits if_splits)

text \<open>
  A journal transaction writes these tables only: with the tables of tool executions
  (\<open>journal_rest\<close>) or without them.
\<close>

definition journal_rest :: "db \<Rightarrow> db \<Rightarrow> bool" where
  "journal_rest d d' \<longleftrightarrow> same_hosts d d' \<and> db_runtime_commands d' = db_runtime_commands d \<and>
    db_lineage d' = db_lineage d \<and> db_runs d' = db_runs d \<and> db_steps d' = db_steps d \<and>
    db_accounts d' = db_accounts d \<and> db_reservations d' = db_reservations d \<and>
    db_questions d' = db_questions d \<and> db_run_commands d' = db_run_commands d \<and>
    db_acceptances d' = db_acceptances d"

definition journal_frame :: "db \<Rightarrow> db \<Rightarrow> bool" where
  "journal_frame d d' \<longleftrightarrow> journal_rest d d' \<and> same_tools d d'"

lemma journal_rest_trans: "journal_rest d d1 \<Longrightarrow> journal_rest d1 d2 \<Longrightarrow> journal_rest d d2"
  by (simp add: journal_rest_def same_hosts_def)

lemma journal_frame_hosts: "journal_frame d d' \<Longrightarrow> same_hosts d d'"
  by (simp add: journal_frame_def journal_rest_def)

lemma journal_frame_trans: "journal_frame d d1 \<Longrightarrow> journal_frame d1 d2 \<Longrightarrow> journal_frame d d2"
  using journal_rest_trans [of d d1 d2] by (simp add: journal_frame_def same_tools_def)

lemma journal_frame_steps:
  "ensure_session s t n d = Inr d' \<Longrightarrow> journal_frame d d'"
  "claim_task t s f d = Inr d' \<Longrightarrow> journal_frame d d'"
  "insert_event s e d = Inr d' \<Longrightarrow> journal_frame d d'"
  "insert_inbox c d = Inr d' \<Longrightarrow> journal_frame d d'"
  "upsert_projection t s w d = Inr d' \<Longrightarrow> journal_frame d d'"
  "insert_marker s t m d = Inr d' \<Longrightarrow> journal_frame d d'"
  "advance_sequence s n d = Inr d' \<Longrightarrow> journal_frame d d'"
  unfolding journal_frame_def journal_rest_def same_hosts_def same_tools_def
  by (auto elim!: ensure_sessionD dest!: claim_task_frame insert_eventD insert_inboxD
    upsert_projection_frame insert_marker_frame advance_sequenceD)

lemma admission_frame: "commits (admission_body c f d) d' \<Longrightarrow> journal_frame d d'"
  by (auto simp: admission_body_def split: option.splits if_splits
    elim!: journal_frame_trans dest!: journal_frame_steps)

lemma projected_event_frame: "commits (projected_event_body e task state m f d) d' \<Longrightarrow> journal_frame d d'"
  by (auto simp: projected_event_body_def elim!: journal_frame_trans dest!: journal_frame_steps)

lemma forked_session_frame: "commits (forked_session_body t source s f d) d' \<Longrightarrow> journal_frame d d'"
  by (auto simp: journal_frame_def journal_rest_def same_tools_def same_hosts_def forked_session_body_def split: option.splits if_splits)

interpretation admission_op: fenced_operation "commit_admission hash c" for hash c
  unfolding commit_admission_def
  by (rule fenced_guard, rule write_tx_fenced, rule body_keeps_hostsI)
    (auto dest: admission_frame journal_frame_hosts)

interpretation projected_event_op: fenced_operation "commit_projected_event hash e task state m"
  for hash e task state m
  unfolding commit_projected_event_def
  by (rule fenced_guard, rule write_tx_fenced, rule body_keeps_hostsI)
    (auto dest: projected_event_frame journal_frame_hosts)

interpretation forked_session_op: fenced_operation "open_forked_session t source s" for t source s
  unfolding open_forked_session_def
  by (rule write_tx_fenced, rule body_keeps_hostsI) (auto dest: forked_session_frame journal_frame_hosts)

section \<open>The journal invariant\<close>

text \<open>
  Per session the events stand in the order of their sequences, which are exactly the numbers
  below the session's next one; every event is the one its row says, is valid, and belongs to a
  session; every admitted input points at its event.
\<close>

definition sequences :: "ident \<Rightarrow> db \<Rightarrow> nat list" where
  "sequences s d = map er_sequence (filter (\<lambda>r. er_session_id r = s) (db_events d))"

definition event_row_ok :: "canonical_hash \<Rightarrow> event_row \<Rightarrow> bool" where
  "event_row_ok hash r \<longleftrightarrow> er_session_id r = ev_session_id (er_event r) \<and>
    er_sequence r = ev_seq (er_event r) \<and> event_validate hash (er_event r) = Inr ()"

definition admitted :: "db \<Rightarrow> inbox_row \<Rightarrow> bool" where
  "admitted d i \<longleftrightarrow> (\<exists>r \<in> set (db_events d). ev_event_id (er_event r) = ib_event_id i \<and>
    er_session_id r = ib_session_id i \<and> er_sequence r = ib_admitted_sequence i)"

definition journal_inv :: "canonical_hash \<Rightarrow> db \<Rightarrow> bool" where
  "journal_inv hash d \<longleftrightarrow>
    keyed ss_session_id (db_sessions d) \<and>
    keyed (\<lambda>r. ev_event_id (er_event r)) (db_events d) \<and>
    keyed ib_input_id (db_inbox d) \<and>
    (\<forall>r \<in> set (db_sessions d). 0 < ss_next_sequence r \<and>
      sequences (ss_session_id r) d = [1..<ss_next_sequence r]) \<and>
    (\<forall>r \<in> set (db_events d). event_row_ok hash r \<and> session_by_id (er_session_id r) d \<noteq> None) \<and>
    (\<forall>i \<in> set (db_inbox d). admitted d i)"

lemma journal_inv_cong:
  assumes "db_sessions d' = db_sessions d" "db_events d' = db_events d" "db_inbox d' = db_inbox d"
  shows "journal_inv hash d' = journal_inv hash d"
  using assms by (simp add: journal_inv_def sequences_def admitted_def session_by_id_def)

lemma journal_inv_empty: "journal_inv hash empty_db"
  by (simp add: journal_inv_def empty_db_def)

text \<open>A new session starts without events.\<close>

lemma journal_inv_new_session:
  assumes inv: "journal_inv hash d" and new: "session_by_id s d = None"
  shows "journal_inv hash (d\<lparr>db_sessions := db_sessions d @
    [\<lparr>ss_session_id = s, ss_task_id = t, ss_next_sequence = 1\<rparr>]\<rparr>)" (is "journal_inv hash ?d'")
proof -
  have "session_by_id x ?d' \<noteq> None" if "session_by_id x d \<noteq> None" for x
    using that by (auto simp: session_by_id_def sel_append split: option.splits)
  moreover have "sequences s d = []"
    using inv new by (auto simp: journal_inv_def sequences_def filter_empty_conv)
  moreover have "keyed ss_session_id (db_sessions ?d')"
    using inv new by (auto simp: journal_inv_def keyed_snoc session_by_id_def sel_None)
  ultimately show ?thesis
    using inv unfolding journal_inv_def by (auto simp: sequences_def admitted_def)
qed

text \<open>An event at the session's next sequence, and the sequence moved past it.\<close>

lemma session_by_idD:
  "session_by_id s d = Some r \<Longrightarrow> r \<in> set (db_sessions d) \<and> ss_session_id r = s"
  unfolding session_by_id_def by (rule sel_SomeD)

lemma journal_inv_append:
  assumes inv: "journal_inv hash d" and row: "session_by_id s d = Some r"
    and e: "ev_session_id e = s" "ev_seq e = ss_next_sequence r" "event_validate hash e = Inr ()"
    and fresh: "event_by_id (ev_event_id e) d = None"
    and events: "db_events d' = db_events d @ [\<lparr>er_session_id = s, er_sequence = ev_seq e, er_event = e\<rparr>]"
    and sessions: "db_sessions d' = upd (\<lambda>x. ss_session_id x = s \<and> ss_next_sequence x = ev_seq e)
      (\<lambda>x. x\<lparr>ss_next_sequence := ss_next_sequence x + 1\<rparr>) (db_sessions d)"
    and inbox: "db_inbox d' = db_inbox d \<or> (\<exists>i. db_inbox d' = db_inbox d @ [i] \<and>
      inbox_by_id (ib_input_id i) d = None \<and> ib_session_id i = s \<and> ib_admitted_sequence i = ev_seq e \<and>
      ib_event_id i = ev_event_id e)"
  shows "journal_inv hash d'"
proof -
  have keyed: "keyed ss_session_id (db_sessions d)" using inv by (simp add: journal_inv_def)
  have sid: "session_by_id x d' \<noteq> None \<longleftrightarrow> session_by_id x d \<noteq> None" for x
    by (auto simp: session_by_id_def sessions sel_upd)
  have seqs: "sequences x d' = sequences x d @ (if x = s then [ev_seq e] else [])" for x
    by (simp add: sequences_def events)
  have rows: "0 < ss_next_sequence x \<and> sequences (ss_session_id x) d' = [1..<ss_next_sequence x]"
    if "x \<in> set (db_sessions d')" for x
  proof -
    from that obtain y where y: "y \<in> set (db_sessions d)"
      and x: "x = (if ss_session_id y = s \<and> ss_next_sequence y = ev_seq e
        then y\<lparr>ss_next_sequence := ss_next_sequence y + 1\<rparr> else y)"
      by (auto simp: sessions set_upd)
    have yinv: "0 < ss_next_sequence y" "sequences (ss_session_id y) d = [1..<ss_next_sequence y]"
      using inv y by (auto simp: journal_inv_def)
    show ?thesis
    proof (cases "ss_session_id y = s")
      case True
      with keyed_same [OF keyed y] session_by_idD [OF row] have "y = r" by auto
      with True x yinv e(2) show ?thesis by (auto simp: seqs)
    next
      case False
      with x yinv show ?thesis by (simp add: seqs)
    qed
  qed
  have "keyed ss_session_id (db_sessions d')" using keyed by (simp add: sessions)
  moreover have "keyed (\<lambda>r. ev_event_id (er_event r)) (db_events d')"
    using inv fresh by (auto simp: journal_inv_def events keyed_snoc event_by_id_def sel_None)
  moreover have "keyed ib_input_id (db_inbox d')"
    using inv inbox by (auto simp: journal_inv_def keyed_snoc inbox_by_id_def sel_None)
  moreover have "\<forall>x \<in> set (db_events d'). event_row_ok hash x \<and> session_by_id (er_session_id x) d' \<noteq> None"
    using inv e row unfolding sid by (auto simp: journal_inv_def events event_row_ok_def)
  moreover have "\<forall>i \<in> set (db_inbox d'). admitted d' i"
    using inv inbox by (auto simp: journal_inv_def admitted_def events)
  ultimately show ?thesis using rows by (simp add: journal_inv_def)
qed

lemma admission_body_inv:
  assumes ok: "validate_admission hash c = Inr ()" and inv: "journal_inv hash d"
    and body: "commits (admission_body c f d) d'"
  shows "journal_inv hash d'"
proof -
  note v = validate_admissionD [OF ok]
  let ?s = "ad_session_id c" and ?e = "ad_event c"
  from body have "inbox_by_id (ad_input_id c) d = None"
    by (auto simp: admission_body_def split: option.splits if_splits)
  with body obtain d1 d2 u d3 d4 d5 d6 where
    steps: "ensure_session ?s (ad_task_id c) (ad_expected_sequence c) d = Inr d1"
      "claim_task (ad_task_id c) ?s f d1 = Inr d2"
      "ensure_expected_sequence ?s (ad_expected_sequence c) d2 = Inr u"
      "insert_event ?s ?e d2 = Inr d3" "insert_inbox c d3 = Inr d4"
      "upsert_projection (ad_task_id c) ?s (ad_working_state c) d4 = Inr d5"
      "insert_marker ?s (ad_task_id c) (ad_marker c) d5 = Inr d6"
      "advance_sequence ?s (ad_expected_sequence c) d6 = Inr d'"
    by (auto simp: admission_body_def bind_res_Inr)
  have inv1: "journal_inv hash d1" using steps(1)
    by (cases rule: ensure_sessionD) (use inv in \<open>auto intro: journal_inv_new_session [unfolded One_nat_def]\<close>)
  from claim_task_frame [OF steps(2)] have inv2: "journal_inv hash d2"
    using inv1 journal_inv_cong [of d2 d1] by auto
  from ensure_expected_sequenceD [OF steps(3)] obtain r
    where r: "session_by_id ?s d2 = Some r" "ss_next_sequence r = ad_expected_sequence c" by blast
  from insert_eventD [OF steps(4)] insert_inboxD [OF steps(5)] upsert_projection_frame [OF steps(6)]
    insert_marker_frame [OF steps(7)] advance_sequenceD [OF steps(8)] v(4,5)
  have d': "event_by_id (ev_event_id ?e) d2 = None"
      "db_events d' = db_events d2 @ [\<lparr>er_session_id = ?s, er_sequence = ev_seq ?e, er_event = ?e\<rparr>]"
      "db_sessions d' = upd (\<lambda>x. ss_session_id x = ?s \<and> ss_next_sequence x = ev_seq ?e)
        (\<lambda>x. x\<lparr>ss_next_sequence := ss_next_sequence x + 1\<rparr>) (db_sessions d2)"
      "\<exists>i. db_inbox d' = db_inbox d2 @ [i] \<and> inbox_by_id (ib_input_id i) d2 = None \<and>
        ib_session_id i = ?s \<and> ib_admitted_sequence i = ev_seq ?e \<and> ib_event_id i = ev_event_id ?e"
    by (auto simp: inbox_by_id_def)
  show ?thesis
    by (rule journal_inv_append [OF inv2 r(1) v(4) _ v(2) d'(1-3)]) (use r(2) v(5) d'(4) in auto)
qed

lemma projected_event_body_inv:
  assumes ok: "event_validate hash e = Inr ()" and inv: "journal_inv hash d"
    and body: "commits (projected_event_body e task state m f d) d'"
  shows "journal_inv hash d'"
proof -
  let ?s = "ev_session_id e"
  from body obtain u u' d2 d3 d5 d6 where
    steps: "claim_task task ?s f d = Inr d2" "ensure_expected_sequence ?s (ev_seq e) d2 = Inr u'"
      "insert_event ?s e d2 = Inr d3" "upsert_projection task ?s state d3 = Inr d5"
      "insert_marker ?s task m d5 = Inr d6" "advance_sequence ?s (ev_seq e) d6 = Inr d'"
    by (auto simp: projected_event_body_def bind_res_Inr)
  from claim_task_frame [OF steps(1)] have inv2: "journal_inv hash d2"
    using inv journal_inv_cong [of d2 d] by auto
  from ensure_expected_sequenceD [OF steps(2)] obtain r
    where r: "session_by_id ?s d2 = Some r" "ss_next_sequence r = ev_seq e" by blast
  from insert_eventD [OF steps(3)] upsert_projection_frame [OF steps(4)]
    insert_marker_frame [OF steps(5)] advance_sequenceD [OF steps(6)]
  have d': "event_by_id (ev_event_id e) d2 = None"
      "db_events d' = db_events d2 @ [\<lparr>er_session_id = ?s, er_sequence = ev_seq e, er_event = e\<rparr>]"
      "db_sessions d' = upd (\<lambda>x. ss_session_id x = ?s \<and> ss_next_sequence x = ev_seq e)
        (\<lambda>x. x\<lparr>ss_next_sequence := ss_next_sequence x + 1\<rparr>) (db_sessions d2)"
      "db_inbox d' = db_inbox d2"
    by auto
  show ?thesis
    by (rule journal_inv_append [OF inv2 r(1) _ _ ok d'(1-3)]) (use r(2) d'(4) in auto)
qed

lemma forked_session_body_inv:
  "journal_inv hash d \<Longrightarrow> commits (forked_session_body t source s f d) d' \<Longrightarrow> journal_inv hash d'"
  by (auto simp: forked_session_body_def split: option.splits if_splits intro: journal_inv_new_session [unfolded One_nat_def])

section \<open>Reading the journal back\<close>

lemma journal_inv_session:
  assumes "journal_inv hash d" and "session_by_id s d = Some r"
  shows "sequences s d = [1..<ss_next_sequence r]" and "0 < ss_next_sequence r"
  using assms session_by_idD [OF assms(2)] by (auto simp: journal_inv_def)

lemma filter_less_upt: "filter (\<lambda>x. n < x) [1..<m] = [Suc n..<m]"
proof (induction m)
  case (Suc m)
  then show ?case by (cases "m = 0") auto
qed simp

lemma sort_key_sorted: "sorted (map f xs) \<Longrightarrow> sort_key f xs = xs"
  by (rule sort_key_id_if_sorted)

lemma journal_tail_rows:
  assumes inv: "journal_inv hash d" and row: "session_by_id s d = Some r"
  shows "journal_tail s n d = map er_event (filter (\<lambda>r. er_session_id r = s \<and> n < er_sequence r) (db_events d))"
    and "map er_sequence (filter (\<lambda>r. er_session_id r = s \<and> n < er_sequence r) (db_events d)) =
      [Suc n..<ss_next_sequence r]"
proof -
  show upt: "map er_sequence (filter (\<lambda>r. er_session_id r = s \<and> n < er_sequence r) (db_events d)) =
      [Suc n..<ss_next_sequence r]"
  proof -
    have "map er_sequence (filter (\<lambda>r. er_session_id r = s \<and> n < er_sequence r) (db_events d)) =
        filter (\<lambda>x. n < x) (sequences s d)"
      by (simp add: sequences_def filter_map o_def conj_commute)
    then show ?thesis
      using journal_inv_session(1) [OF inv row] by (simp add: filter_less_upt [unfolded One_nat_def])
  qed
  then have "sorted (map er_sequence (filter (\<lambda>r. er_session_id r = s \<and> n < er_sequence r) (db_events d)))"
    by simp
  then show "journal_tail s n d = map er_event (filter (\<lambda>r. er_session_id r = s \<and> n < er_sequence r) (db_events d))"
    by (simp add: journal_tail_def sort_key_sorted)
qed

lemma journal_tail_spec:
  assumes inv: "journal_inv hash d" and row: "session_by_id s d = Some r"
  shows "map ev_seq (journal_tail s n d) = [Suc n..<ss_next_sequence r]"
    and "\<forall>e \<in> set (journal_tail s n d). event_validate hash e = Inr () \<and> ev_session_id e = s"
proof -
  let ?rows = "filter (\<lambda>r. er_session_id r = s \<and> n < er_sequence r) (db_events d)"
  have ok: "event_row_ok hash x" if "x \<in> set ?rows" for x
    using inv that by (auto simp: journal_inv_def)
  then have "map ev_seq (map er_event ?rows) = map er_sequence ?rows"
    by (auto simp: event_row_ok_def)
  with journal_tail_rows [OF inv row, of n]
  show "map ev_seq (journal_tail s n d) = [Suc n..<ss_next_sequence r]" by simp
  show "\<forall>e \<in> set (journal_tail s n d). event_validate hash e = Inr () \<and> ev_session_id e = s"
    using ok by (auto simp: journal_tail_rows(1) [OF inv row] event_row_ok_def)
qed

lemma parse_events_ok: "(\<forall>e \<in> set es. event_validate hash e = Inr ()) \<Longrightarrow> parse_events hash es = Inr es"
proof -
  assume "\<forall>e \<in> set es. event_validate hash e = Inr ()"
  then have "checks (map (event_validate hash) es) = Inr ()" by (simp add: checks_ok)
  then show ?thesis by (simp add: parse_events_def)
qed

lemma load_events_ok:
  assumes inv: "journal_inv hash d" and row: "session_by_id s d = Some r" and n: "n \<le> i64_max"
  shows "load_events_after hash s n d = Inr (journal_tail s n d)"
    and "0 < limit \<Longrightarrow> load_events_after_limit hash s n limit d = Inr (take (min limit 4096) (journal_tail s n d))"
proof -
  note valid = journal_tail_spec(2) [OF inv row, of n]
  have i: "to_i64 n = Inr n" using n by simp
  from valid show "load_events_after hash s n d = Inr (journal_tail s n d)"
    by (simp add: load_events_after_def i bind_res_def parse_events_ok)
  from valid show "load_events_after_limit hash s n limit d = Inr (take (min limit 4096) (journal_tail s n d))"
    if "0 < limit"
  proof -
    from valid have "\<forall>e \<in> set (take (min limit 4096) (journal_tail s n d)). event_validate hash e = Inr ()"
      by (blast dest: in_set_takeD)
    with that show ?thesis by (simp add: load_events_after_limit_def i bind_res_def parse_events_ok)
  qed
qed

text \<open>A later cursor reads the rest of what an earlier one reads.\<close>

lemma filter_upt_drop:
  "map f xs = [a..<m] \<Longrightarrow> filter (\<lambda>x. a + k \<le> f x) xs = drop k xs"
proof (induction xs arbitrary: a k)
  case (Cons x xs)
  from Cons.prems [symmetric] have "a < m" "f x = a" "map f xs = [Suc a..<m]"
    by (auto simp: upt_eq_Cons_conv)
  show ?case
  proof (cases k)
    case 0
    have "filter (\<lambda>y. a \<le> f y) (x # xs) = x # xs"
    proof (rule filter_True, rule ballI)
      fix y assume "y \<in> set (x # xs)"
      then have "f y \<in> set [a..<m]" using Cons.prems by (metis image_eqI list.set_map)
      then show "a \<le> f y" by simp
    qed
    with 0 show ?thesis by simp
  next
    case (Suc j)
    with Cons.IH [of "Suc a" j] \<open>f x = a\<close> \<open>map f xs = _\<close> show ?thesis by simp
  qed
qed simp

lemma journal_tail_drop:
  assumes inv: "journal_inv hash d" and row: "session_by_id s d = Some r"
  shows "journal_tail s (n + k) d = drop k (journal_tail s n d)"
proof -
  let ?rows = "\<lambda>n. filter (\<lambda>r. er_session_id r = s \<and> n < er_sequence r) (db_events d)"
  have "?rows (n + k) = filter (\<lambda>r. Suc n + k \<le> er_sequence r) (?rows n)"
    by (auto intro: filter_cong)
  also have "\<dots> = drop k (?rows n)"
    by (rule filter_upt_drop) (rule journal_tail_rows(2) [OF inv row])
  finally show ?thesis by (simp add: journal_tail_rows(1) [OF inv row] drop_map)
qed

end
