(* ===== verification/Human_Store.thy ===== *)
theory Human_Store imports Journal "HOL-Library.Option_ord" begin

text \<open>
  Questions and run commands of \<^verbatim>\<open>crates/harness-store-sqlite/src/store/run.rs\<close>: what a run
  asks its user, and the steering and cancel commands that wait for a boundary of the run.
\<close>

section \<open>Questions\<close>

definition question_by_id :: "ident \<Rightarrow> db \<Rightarrow> question option" where
  "question_by_id q d = sel (\<lambda>r. q_id r = q) (db_questions d)"

definition question_by_scope :: "string \<Rightarrow> db \<Rightarrow> question option" where
  "question_by_scope k d = sel (\<lambda>r. q_scope_key r = k) (db_questions d)"

definition fits_opt :: "nat option \<Rightarrow> bool" where
  "fits_opt n = (case n of None \<Rightarrow> True | Some n \<Rightarrow> n \<le> i64_max)"

definition open_question_body :: "question \<Rightarrow> question body" where
  "open_question_body q f d =
    (if \<not> fits_opt (q_expires_at q) \<or> i64_max < q_created_at q then Inl InvalidPayload
     else bind_res
       (if question_by_scope (q_scope_key q) d \<noteq> None then Inr d
        else if question_by_id (q_id q) d \<noteq> None then Inl StorageWriteFailed
        else Inr (d\<lparr>db_questions := db_questions d @ [q\<lparr>q_state := QOpen, q_answer := None,
          q_answer_hash := None, q_answered_by := None, q_answered_at := None\<rparr>]\<rparr>)) (\<lambda>d.
     case question_by_scope (q_scope_key q) d of
       None \<Rightarrow> Inl StorageWriteFailed
     | Some existing \<Rightarrow> Inr (Commit existing d)))"

definition open_question :: "question \<Rightarrow> store \<Rightarrow> question res \<times> store" where
  "open_question q = write_tx (open_question_body q)"

definition set_question :: "(question \<Rightarrow> bool) \<Rightarrow> (question \<Rightarrow> question) \<Rightarrow> db \<Rightarrow> db" where
  "set_question P f d = d\<lparr>db_questions := upd P f (db_questions d)\<rparr>"

definition question_due :: "nat \<Rightarrow> question \<Rightarrow> bool" where
  "question_due now q = (case q_expires_at q of None \<Rightarrow> False | Some t \<Rightarrow> t \<le> now)"

definition answered :: "json \<Rightarrow> content_hash \<Rightarrow> string \<Rightarrow> nat \<Rightarrow> question \<Rightarrow> question" where
  "answered answer hash by_whom now q = q\<lparr>q_state := QAnswered, q_answer := Some answer,
    q_answer_hash := Some hash, q_answered_by := Some by_whom, q_answered_at := Some now\<rparr>"

definition answer_question_body ::
  "string \<Rightarrow> json \<Rightarrow> content_hash \<Rightarrow> string \<Rightarrow> nat \<Rightarrow> question_outcome body" where
  "answer_question_body scope answer hash by_whom now f d = (case question_by_scope scope d of
      None \<Rightarrow> Inr (Rollback NotFound)
    | Some current \<Rightarrow> (case q_state current of
        QAnswered \<Rightarrow> Inr (Rollback (if q_answer_hash current = Some hash then Duplicate current else Conflict current))
      | QExpired \<Rightarrow> Inr (Rollback (Expired current))
      | QCanceled \<Rightarrow> Inr (Rollback (Expired current))
      | QOpen \<Rightarrow>
          if question_due now current
          then Inr (Commit (Expired (current\<lparr>q_state := QExpired\<rparr>))
            (set_question (\<lambda>r. q_id r = q_id current) (\<lambda>r. r\<lparr>q_state := QExpired\<rparr>) d))
          else (case to_i64 now of
              Inl e \<Rightarrow> Inl e
            | Inr now' \<Rightarrow>
                let hit = (\<lambda>r. q_id r = q_id current \<and> q_state r = QOpen) in
                if affected hit (db_questions d) \<noteq> 1 then Inl SequenceConflict
                else Inr (CommitAt BeforeQuestionAnswerCommit (Answered (answered answer hash by_whom now current))
                  (set_question hit (answered answer hash by_whom now') d)))))"

definition answer_question ::
  "string \<Rightarrow> json \<Rightarrow> content_hash \<Rightarrow> string \<Rightarrow> nat \<Rightarrow> store \<Rightarrow> question_outcome res \<times> store" where
  "answer_question scope answer hash by_whom now = write_tx (answer_question_body scope answer hash by_whom now)"

definition cancel_question_body :: "ident \<Rightarrow> question body" where
  "cancel_question_body q f d = (case question_by_id q d of
      None \<Rightarrow> Inl InvalidPayload
    | Some current \<Rightarrow>
        if q_state current = QOpen
        then Inr (Commit (current\<lparr>q_state := QCanceled\<rparr>)
          (set_question (\<lambda>r. q_id r = q \<and> q_state r = QOpen) (\<lambda>r. r\<lparr>q_state := QCanceled\<rparr>) d))
        else Inr (Commit current d))"

definition cancel_question :: "ident \<Rightarrow> store \<Rightarrow> question res \<times> store" where
  "cancel_question q = write_tx (cancel_question_body q)"

definition list_questions :: "ident \<Rightarrow> store \<Rightarrow> question list" where
  "list_questions session s = filter (\<lambda>q. q_session_id q = session) (db_questions (s_db s))"

section \<open>Run commands\<close>

definition run_command_by_id :: "ident \<Rightarrow> db \<Rightarrow> run_command option" where
  "run_command_by_id c d = sel (\<lambda>r. cm_id r = c) (db_run_commands d)"

definition enqueue_run_command_body :: "run_command \<Rightarrow> bool body" where
  "enqueue_run_command_body c f d = (case to_i64 (cm_created_at c) of
      Inl e \<Rightarrow> Inl e
    | Inr at \<Rightarrow>
        if run_command_by_id (cm_id c) d \<noteq> None then Inr (Commit False d)
        else Inr (Commit True (d\<lparr>db_run_commands := db_run_commands d @ [c\<lparr>cm_state := RcPending,
          cm_detail := None, cm_created_at := at, cm_claimed_at := None, cm_applied_at := None\<rparr>]\<rparr>)))"

definition enqueue_run_command :: "run_command \<Rightarrow> store \<Rightarrow> bool res \<times> store" where
  "enqueue_run_command c = write_tx (enqueue_run_command_body c)"

definition record_applied_body :: "run_command \<Rightarrow> string \<Rightarrow> unit body" where
  "record_applied_body c detail f d = (case to_i64 (cm_created_at c) of
      Inl e \<Rightarrow> Inl e
    | Inr at \<Rightarrow>
        if run_command_by_id (cm_id c) d \<noteq> None then Inr (Commit () d)
        else Inr (Commit () (d\<lparr>db_run_commands := db_run_commands d @ [c\<lparr>cm_state := RcApplied,
          cm_detail := Some detail, cm_created_at := at, cm_claimed_at := Some at,
          cm_applied_at := Some at\<rparr>]\<rparr>)))"

definition record_applied_run_command :: "run_command \<Rightarrow> string \<Rightarrow> store \<Rightarrow> unit res \<times> store" where
  "record_applied_run_command c detail = write_tx (record_applied_body c detail)"

text \<open>\<open>oldest_pending\<close> is the subquery of the claim: pending rows of the run in \<^verbatim>\<open>rowid\<close> order.\<close>

definition oldest_pending :: "ident \<Rightarrow> nat \<Rightarrow> db \<Rightarrow> ident list" where
  "oldest_pending run limit d = map cm_id (take limit
    (filter (\<lambda>r. cm_run_id r = run \<and> cm_state r = RcPending) (db_run_commands d)))"

definition claim_run_commands_body :: "ident \<Rightarrow> nat \<Rightarrow> nat \<Rightarrow> run_command list body" where
  "claim_run_commands_body run limit now f d = (case to_i64 now of
      Inl e \<Rightarrow> Inl e
    | Inr at \<Rightarrow>
        let chosen = oldest_pending run limit d;
            d' = d\<lparr>db_run_commands := upd (\<lambda>r. cm_id r \<in> set chosen \<and> cm_state r = RcPending)
              (\<lambda>r. r\<lparr>cm_state := RcClaimed, cm_claimed_at := Some at\<rparr>) (db_run_commands d)\<rparr>
        in Inr (Commit (filter (\<lambda>r. cm_run_id r = run \<and> cm_state r = RcClaimed \<and> cm_claimed_at r = Some at)
             (db_run_commands d')) d'))"

definition claim_run_commands :: "ident \<Rightarrow> nat \<Rightarrow> nat \<Rightarrow> store \<Rightarrow> run_command list res \<times> store" where
  "claim_run_commands run limit now = write_tx (claim_run_commands_body run limit now)"

definition applied_steering :: "ident \<Rightarrow> store \<Rightarrow> run_command list" where
  "applied_steering session s = sort_key cm_applied_at
    (filter (\<lambda>r. cm_session_id r = session \<and> cm_kind r = Steer \<and> cm_state r = RcApplied) (db_run_commands (s_db s)))"

definition complete_run_command_body ::
  "ident \<Rightarrow> run_command_state \<Rightarrow> string option \<Rightarrow> nat \<Rightarrow> unit body" where
  "complete_run_command_body c state detail now f d = (case to_i64 now of
      Inl e \<Rightarrow> Inl e
    | Inr at \<Rightarrow>
        let hit = (\<lambda>r. cm_id r = c \<and> cm_state r = RcClaimed) in
        if affected hit (db_run_commands d) \<noteq> 1 then Inl RuntimeCommandConflict
        else Inr (Commit () (d\<lparr>db_run_commands := upd hit
          (\<lambda>r. r\<lparr>cm_state := state, cm_detail := detail, cm_applied_at := Some at\<rparr>) (db_run_commands d)\<rparr>)))"

definition complete_run_command ::
  "ident \<Rightarrow> run_command_state \<Rightarrow> string option \<Rightarrow> nat \<Rightarrow> store \<Rightarrow> unit res \<times> store" where
  "complete_run_command c state detail now = write_tx (complete_run_command_body c state detail now)"

section \<open>Frames\<close>

lemma open_question_frame: "commits (open_question_body q f d) d' \<Longrightarrow> \<exists>qs. d' = d\<lparr>db_questions := qs\<rparr>"
  by (cases d) (auto simp: open_question_body_def split: option.splits if_splits)

lemma answer_question_frame:
  "commits (answer_question_body k a h w n f d) d' \<Longrightarrow> \<exists>qs. d' = d\<lparr>db_questions := qs\<rparr>"
  by (auto simp: answer_question_body_def set_question_def Let_def
    split: option.splits question_state.splits sum.splits if_splits)

lemma cancel_question_frame: "commits (cancel_question_body q f d) d' \<Longrightarrow> \<exists>qs. d' = d\<lparr>db_questions := qs\<rparr>"
  by (cases d) (auto simp: cancel_question_body_def set_question_def split: option.splits if_splits)

lemma enqueue_run_command_frame:
  "commits (enqueue_run_command_body c f d) d' \<Longrightarrow> \<exists>cs. d' = d\<lparr>db_run_commands := cs\<rparr>"
  by (cases d) (auto simp: enqueue_run_command_body_def split: sum.splits if_splits)

lemma record_applied_frame:
  "commits (record_applied_body c t f d) d' \<Longrightarrow> \<exists>cs. d' = d\<lparr>db_run_commands := cs\<rparr>"
  by (cases d) (auto simp: record_applied_body_def split: sum.splits if_splits)

lemma claim_run_commands_frame:
  "commits (claim_run_commands_body r l n f d) d' \<Longrightarrow> \<exists>cs. d' = d\<lparr>db_run_commands := cs\<rparr>"
  by (auto simp: claim_run_commands_body_def Let_def split: sum.splits)

lemma complete_run_command_frame:
  "commits (complete_run_command_body c st t n f d) d' \<Longrightarrow> \<exists>cs. d' = d\<lparr>db_run_commands := cs\<rparr>"
  by (auto simp: complete_run_command_body_def Let_def split: sum.splits if_splits)

lemmas question_frames = open_question_frame answer_question_frame cancel_question_frame
lemmas run_command_frames = enqueue_run_command_frame record_applied_frame claim_run_commands_frame
  complete_run_command_frame

interpretation open_question_op: fenced_operation "open_question q" for q
  unfolding open_question_def
  by (rule write_tx_fenced, rule body_keeps_hostsI) (auto simp: same_hosts_def dest: open_question_frame)

interpretation answer_question_op: fenced_operation "answer_question k a h w n" for k a h w n
  unfolding answer_question_def
  by (rule write_tx_fenced, rule body_keeps_hostsI) (auto simp: same_hosts_def dest: answer_question_frame)

interpretation cancel_question_op: fenced_operation "cancel_question q" for q
  unfolding cancel_question_def
  by (rule write_tx_fenced, rule body_keeps_hostsI) (auto simp: same_hosts_def dest: cancel_question_frame)

interpretation enqueue_run_command_op: fenced_operation "enqueue_run_command c" for c
  unfolding enqueue_run_command_def
  by (rule write_tx_fenced, rule body_keeps_hostsI) (auto simp: same_hosts_def dest: enqueue_run_command_frame)

interpretation record_applied_op: fenced_operation "record_applied_run_command c t" for c t
  unfolding record_applied_run_command_def
  by (rule write_tx_fenced, rule body_keeps_hostsI) (auto simp: same_hosts_def dest: record_applied_frame)

interpretation claim_run_commands_op: fenced_operation "claim_run_commands r l n" for r l n
  unfolding claim_run_commands_def
  by (rule write_tx_fenced, rule body_keeps_hostsI) (auto simp: same_hosts_def dest: claim_run_commands_frame)

interpretation complete_run_command_op: fenced_operation "complete_run_command c st t n" for c st t n
  unfolding complete_run_command_def
  by (rule write_tx_fenced, rule body_keeps_hostsI) (auto simp: same_hosts_def dest: complete_run_command_frame)

section \<open>Questions are answered once, in time\<close>

text \<open>An answer is complete and earlier than the deadline; nothing else carries one.\<close>

definition question_ok :: "question \<Rightarrow> bool" where
  "question_ok q \<longleftrightarrow>
    (if q_state q = QAnswered
     then q_answer q \<noteq> None \<and> q_answer_hash q \<noteq> None \<and>
       (case q_answered_at q of None \<Rightarrow> False | Some t \<Rightarrow> \<not> question_due t q)
     else q_answer q = None \<and> q_answer_hash q = None \<and> q_answered_at q = None)"

definition questions_inv :: "db \<Rightarrow> bool" where
  "questions_inv d \<longleftrightarrow> keyed q_id (db_questions d) \<and> keyed q_scope_key (db_questions d) \<and>
    (\<forall>q \<in> set (db_questions d). question_ok q)"

text \<open>A closed question stays as it is, an open one keeps what it asks.\<close>

definition question_later :: "question \<Rightarrow> question \<Rightarrow> bool" where
  "question_later q q' \<longleftrightarrow> (if q_state q = QOpen
    then q' = q\<lparr>q_state := q_state q', q_answer := q_answer q', q_answer_hash := q_answer_hash q',
      q_answered_by := q_answered_by q', q_answered_at := q_answered_at q'\<rparr>
    else q' = q)"

definition questions_later :: "db \<Rightarrow> db \<Rightarrow> bool" where
  "questions_later d d' \<longleftrightarrow> (\<forall>q \<in> set (db_questions d). \<exists>q' \<in> set (db_questions d'). question_later q q')"

lemma question_later_refl [simp]: "question_later q q"
  by (simp add: question_later_def)

lemma question_later_trans: "question_later q r \<Longrightarrow> question_later r t \<Longrightarrow> question_later q t"
  by (cases q; cases r; cases t) (auto simp: question_later_def split: if_splits)

lemma questions_later_refl [simp]: "questions_later d d"
  unfolding questions_later_def by (blast intro: question_later_refl)

lemma questions_later_trans: "questions_later d e \<Longrightarrow> questions_later e g \<Longrightarrow> questions_later d g"
  unfolding questions_later_def by (meson question_later_trans)

lemma questions_inv_empty: "questions_inv empty_db"
  by (simp add: questions_inv_def empty_db_def)

lemma questions_cong:
  assumes "db_questions d' = db_questions d"
  shows "questions_inv d' = questions_inv d" and "questions_later d d'"
  using assms by (simp add: questions_inv_def)
    (use assms in \<open>auto simp: questions_later_def intro: question_later_refl\<close>)

lemma questions_upd:
  assumes inv: "questions_inv d"
    and f: "\<And>q. q_id (f q) = q_id q" "\<And>q. q_scope_key (f q) = q_scope_key q"
    and step: "\<And>q. q \<in> set (db_questions d) \<Longrightarrow> P q \<Longrightarrow> question_ok (f q) \<and> question_later q (f q)"
  shows "questions_inv (set_question P f d)" and "questions_later d (set_question P f d)"
proof -
  show "questions_inv (set_question P f d)"
    using inv f step by (auto simp: questions_inv_def set_question_def set_upd)
  show "questions_later d (set_question P f d)" unfolding questions_later_def
  proof
    fix q assume q: "q \<in> set (db_questions d)"
    then have "(if P q then f q else q) \<in> set (db_questions (set_question P f d))"
      by (auto simp: set_question_def set_upd)
    moreover have "question_later q (if P q then f q else q)" using step [OF q] by simp
    ultimately show "\<exists>q' \<in> set (db_questions (set_question P f d)). question_later q q'" by blast
  qed
qed

lemma open_question_inv:
  assumes inv: "questions_inv d" and body: "commits (open_question_body q f d) d'"
  shows "questions_inv d' \<and> questions_later d d'"
proof -
  let ?q = "q\<lparr>q_state := QOpen, q_answer := None, q_answer_hash := None, q_answered_by := None, q_answered_at := None\<rparr>"
  from body have "d' = d \<or> question_by_scope (q_scope_key q) d = None \<and> question_by_id (q_id q) d = None \<and>
      d' = d\<lparr>db_questions := db_questions d @ [?q]\<rparr>"
    by (simp add: open_question_body_def split: if_splits option.splits)
  then show ?thesis
  proof
    assume "d' = d"
    with inv show ?thesis by simp
  next
    assume "question_by_scope (q_scope_key q) d = None \<and> question_by_id (q_id q) d = None \<and>
      d' = d\<lparr>db_questions := db_questions d @ [?q]\<rparr>"
    moreover have "question_ok ?q" by (simp add: question_ok_def)
    ultimately show ?thesis using inv
      by (auto simp: questions_inv_def questions_later_def keyed_snoc question_by_scope_def
        question_by_id_def sel_None intro: question_later_refl)
  qed
qed

lemma answer_question_inv:
  assumes inv: "questions_inv d" and body: "commits (answer_question_body k a h w now f d) d'"
  shows "questions_inv d' \<and> questions_later d d'"
proof -
  from body obtain q where q: "question_by_scope k d = Some q" "q_state q = QOpen"
    and d': "question_due now q \<and> d' = set_question (\<lambda>r. q_id r = q_id q) (\<lambda>r. r\<lparr>q_state := QExpired\<rparr>) d \<or>
      \<not> question_due now q \<and> d' = set_question (\<lambda>r. q_id r = q_id q \<and> q_state r = QOpen) (answered a h w now) d"
    by (auto simp: answer_question_body_def Let_def split: option.splits question_state.splits sum.splits if_splits)
  from q(1) have "q \<in> set (db_questions d)" unfolding question_by_scope_def by (auto dest: sel_SomeD)
  with inv have only: "r = q" if "r \<in> set (db_questions d)" "q_id r = q_id q" for r
    using keyed_same [of q_id "db_questions d" r q] that by (simp add: questions_inv_def)
  from inv \<open>q \<in> _\<close> q(2) have ok: "q_answer q = None" "q_answer_hash q = None" "q_answered_at q = None"
    by (auto simp: questions_inv_def question_ok_def)
  from d' show ?thesis
  proof
    assume e: "question_due now q \<and> d' = set_question (\<lambda>r. q_id r = q_id q) (\<lambda>r. r\<lparr>q_state := QExpired\<rparr>) d"
    have "question_ok (r\<lparr>q_state := QExpired\<rparr>) \<and> question_later r (r\<lparr>q_state := QExpired\<rparr>)"
      if "r \<in> set (db_questions d)" "q_id r = q_id q" for r
      unfolding only [OF that] using ok q(2) by (simp add: question_ok_def question_later_def)
    with e inv questions_upd show ?thesis by simp
  next
    assume e: "\<not> question_due now q \<and> d' = set_question (\<lambda>r. q_id r = q_id q \<and> q_state r = QOpen) (answered a h w now) d"
    have "question_ok (answered a h w now r) \<and> question_later r (answered a h w now r)"
      if "r \<in> set (db_questions d)" "q_id r = q_id q \<and> q_state r = QOpen" for r
      unfolding only [OF that(1) that(2) [THEN conjunct1]] using e q(2)
      by (simp add: question_ok_def question_later_def answered_def question_due_def)
    with e inv questions_upd show ?thesis by (simp add: answered_def)
  qed
qed

lemma cancel_question_inv:
  assumes inv: "questions_inv d" and body: "commits (cancel_question_body k f d) d'"
  shows "questions_inv d' \<and> questions_later d d'"
proof -
  from body have "d' = d \<or> d' = set_question (\<lambda>r. q_id r = k \<and> q_state r = QOpen) (\<lambda>r. r\<lparr>q_state := QCanceled\<rparr>) d"
    by (auto simp: cancel_question_body_def split: option.splits if_splits)
  moreover have "question_ok (r\<lparr>q_state := QCanceled\<rparr>) \<and> question_later r (r\<lparr>q_state := QCanceled\<rparr>)"
    if "r \<in> set (db_questions d)" "q_id r = k \<and> q_state r = QOpen" for r
    using inv that by (auto simp: questions_inv_def question_ok_def question_later_def)
  ultimately show ?thesis using inv questions_upd by auto
qed

section \<open>Run commands are claimed in order\<close>

definition run_commands_inv :: "db \<Rightarrow> bool" where
  "run_commands_inv d \<longleftrightarrow> keyed cm_id (db_run_commands d)"

definition run_commands_later :: "db \<Rightarrow> db \<Rightarrow> bool" where
  "run_commands_later d d' \<longleftrightarrow> (\<forall>c \<in> set (db_run_commands d).
    cm_state c = RcApplied \<or> cm_state c = RcRejected \<longrightarrow> c \<in> set (db_run_commands d'))"

definition pending_commands :: "ident \<Rightarrow> db \<Rightarrow> run_command list" where
  "pending_commands run d = filter (\<lambda>r. cm_run_id r = run \<and> cm_state r = RcPending) (db_run_commands d)"

definition claimed_row :: "nat \<Rightarrow> run_command \<Rightarrow> run_command" where
  "claimed_row now c = c\<lparr>cm_state := RcClaimed, cm_claimed_at := Some now\<rparr>"

lemma run_commands_body_inv:
  assumes "run_commands_inv d"
  shows "commits (enqueue_run_command_body c f d) d' \<Longrightarrow> run_commands_inv d'"
    and "commits (record_applied_body c t f d) d' \<Longrightarrow> run_commands_inv d'"
    and "commits (claim_run_commands_body r l n f d) d' \<Longrightarrow> run_commands_inv d'"
    and "commits (complete_run_command_body k st u n f d) d' \<Longrightarrow> run_commands_inv d'"
  using assms
  by (auto simp: run_commands_inv_def enqueue_run_command_body_def record_applied_body_def
    claim_run_commands_body_def complete_run_command_body_def Let_def keyed_snoc run_command_by_id_def
    sel_None split: sum.splits if_splits)

lemma run_commands_body_later:
  shows "commits (enqueue_run_command_body c f d) d' \<Longrightarrow> run_commands_later d d'"
    and "commits (record_applied_body c t f d) d' \<Longrightarrow> run_commands_later d d'"
    and "commits (claim_run_commands_body r l n f d) d' \<Longrightarrow> run_commands_later d d'"
    and "commits (complete_run_command_body k st u n f d) d' \<Longrightarrow> run_commands_later d d'"
  by (force simp: run_commands_later_def enqueue_run_command_body_def record_applied_body_def
    claim_run_commands_body_def complete_run_command_body_def Let_def set_upd
    split: sum.splits if_splits)+

lemma filter_not_taken:
  "distinct (map f ys) \<Longrightarrow> filter (\<lambda>y. f y \<notin> set (take n (map f ys))) ys = drop n ys"
proof (induction ys arbitrary: n)
  case (Cons y ys)
  show ?case
  proof (cases n)
    case (Suc m)
    have "filter (\<lambda>x. f x \<notin> set (take n (map f (y # ys)))) ys = filter (\<lambda>x. f x \<notin> set (take m (map f ys))) ys"
      using Cons.prems by (intro filter_cong) (auto simp: Suc rev_image_eqI)
    with Cons Suc show ?thesis by simp
  qed simp
qed simp

lemma filter_taken:
  "distinct (map f ys) \<Longrightarrow> filter (\<lambda>y. f y \<in> set (take n (map f ys))) ys = take n ys"
proof (induction ys arbitrary: n)
  case (Cons y ys)
  show ?case
  proof (cases n)
    case (Suc m)
    have "filter (\<lambda>x. f x \<in> set (take n (map f (y # ys)))) ys = filter (\<lambda>x. f x \<in> set (take m (map f ys))) ys"
      using Cons.prems by (intro filter_cong) (auto simp: Suc rev_image_eqI)
    with Cons Suc show ?thesis by simp
  qed simp
qed simp

lemma filter_upd:
  "filter Q (upd P f t) = map (\<lambda>r. if P r then f r else r) (filter (\<lambda>r. Q (if P r then f r else r)) t)"
  by (simp add: upd_def filter_map o_def)

text \<open>The rows a claim updates: pending rows of the run among the chosen ones.\<close>

lemma claim_rows:
  fixes run limit
  assumes "run_commands_inv d"
  defines "hit \<equiv> \<lambda>r. cm_id r \<in> set (oldest_pending run limit d) \<and> cm_state r = RcPending"
  shows "filter hit (db_run_commands d) = take limit (pending_commands run d)"
    and "filter (\<lambda>r. \<not> hit r) (pending_commands run d) = drop limit (pending_commands run d)"
    and "\<And>r. r \<in> set (db_run_commands d) \<Longrightarrow> hit r \<Longrightarrow> cm_run_id r = run"
proof -
  let ?ys = "pending_commands run d"
  have chosen: "set (oldest_pending run limit d) = set (take limit (map cm_id ?ys))"
    by (simp add: oldest_pending_def pending_commands_def take_map)
  have keyed: "keyed cm_id (db_run_commands d)" using assms(1) by (simp add: run_commands_inv_def)
  then have dist: "distinct (map cm_id ?ys)"
    by (simp add: keyed_def pending_commands_def distinct_map_filter)
  show mine: "\<And>r. r \<in> set (db_run_commands d) \<Longrightarrow> hit r \<Longrightarrow> cm_run_id r = run"
  proof -
    fix r assume r: "r \<in> set (db_run_commands d)" "hit r"
    then obtain y where "y \<in> set ?ys" "cm_id y = cm_id r"
      unfolding hit_def chosen by (auto dest!: in_set_takeD)
    with keyed_same [OF keyed] r(1) show "cm_run_id r = run" by (auto simp: pending_commands_def)
  qed
  have "hit r \<longleftrightarrow> cm_id r \<in> set (take limit (map cm_id ?ys)) \<and> cm_run_id r = run \<and> cm_state r = RcPending"
    if "r \<in> set (db_run_commands d)" for r
    using mine [OF that] by (auto simp: hit_def chosen)
  then have "filter hit (db_run_commands d) = filter (\<lambda>r. cm_id r \<in> set (take limit (map cm_id ?ys)) \<and>
      cm_run_id r = run \<and> cm_state r = RcPending) (db_run_commands d)"
    by (rule filter_cong [OF refl])
  also have "\<dots> = filter (\<lambda>r. cm_id r \<in> set (take limit (map cm_id ?ys))) ?ys"
    by (simp add: pending_commands_def conj_commute)
  finally have "filter hit (db_run_commands d) = filter (\<lambda>r. cm_id r \<in> set (take limit (map cm_id ?ys))) ?ys" .
  then show "filter hit (db_run_commands d) = take limit ?ys" by (simp add: filter_taken dist)
  have "filter (\<lambda>r. \<not> hit r) ?ys = filter (\<lambda>r. cm_id r \<notin> set (take limit (map cm_id ?ys))) ?ys"
    by (rule filter_cong) (auto simp: hit_def chosen pending_commands_def)
  then show "filter (\<lambda>r. \<not> hit r) ?ys = drop limit ?ys" by (simp add: filter_not_taken dist)
qed

text \<open>
  A claim takes the oldest pending commands of the run, in order and at most \<open>limit\<close>, and
  leaves exactly the others pending, provided no earlier claim carries the same time stamp.
\<close>

theorem claim_oldest_first:
  assumes "run_commands_inv (s_db s)" and "claim_run_commands run limit now s = (Inr cs, s')"
    and "\<forall>r \<in> set (db_run_commands (s_db s)). cm_claimed_at r \<noteq> Some now"
  shows "cs = map (claimed_row now) (take limit (pending_commands run (s_db s))) \<and>
    pending_commands run (s_db s') = drop limit (pending_commands run (s_db s))"
  using assms(2) unfolding claim_run_commands_def
proof (cases rule: write_tx_InrE)
  case (committed f d)
  let ?d = "s_db s"
  let ?hit = "\<lambda>r. cm_id r \<in> set (oldest_pending run limit ?d) \<and> cm_state r = RcPending"
  note rows = claim_rows [OF assms(1), where run = run and limit = limit]
  have d: "db_run_commands d = upd ?hit (claimed_row now) (db_run_commands ?d)"
    and cs: "cs = filter (\<lambda>r. cm_run_id r = run \<and> cm_state r = RcClaimed \<and> cm_claimed_at r = Some now) (db_run_commands d)"
    using committed(3)
    by (auto simp: claim_run_commands_body_def Let_def claimed_row_def [abs_def] split: sum.splits)
  have "filter (\<lambda>r. cm_run_id r = run \<and> cm_state r = RcClaimed \<and> cm_claimed_at r = Some now) (db_run_commands d) =
      map (claimed_row now) (filter ?hit (db_run_commands ?d))"
    unfolding d filter_upd
    by (rule map_cong, rule filter_cong) (use assms(3) rows(3) in \<open>auto simp: claimed_row_def\<close>)
  moreover have "pending_commands run d = filter (\<lambda>r. \<not> ?hit r) (pending_commands run ?d)"
  proof -
    have "pending_commands run d = map (\<lambda>r. if ?hit r then claimed_row now r else r)
        (filter (\<lambda>r. \<not> ?hit r) (pending_commands run ?d))"
      unfolding pending_commands_def d filter_upd filter_filter
      by (rule map_cong, rule filter_cong) (auto simp: claimed_row_def)
    also have "\<dots> = filter (\<lambda>r. \<not> ?hit r) (pending_commands run ?d)"
      by (rule map_idI) auto
    finally show ?thesis .
  qed
  ultimately show ?thesis using cs committed(4) rows(1,2) by simp
qed (auto simp: claim_run_commands_body_def Let_def split: sum.splits)

text \<open>A run with two steering commands waiting.\<close>

definition steer_command :: "ident \<Rightarrow> run_command" where
  "steer_command i = \<lparr>cm_id = i, cm_run_id = ''run'', cm_session_id = ''session'', cm_task_id = ''task'',
    cm_kind = Steer, cm_state = RcPending, cm_payload = JStr ''go on'', cm_detail = None,
    cm_created_at = 1, cm_claimed_at = None, cm_applied_at = None\<rparr>"

definition steered_store :: "run_command list \<Rightarrow> store" where
  "steered_store cs = \<lparr>s_writer = Some \<lparr>hf_host_id = ''host'', hf_generation = 1\<rparr>, s_faults = {},
    s_db = empty_db\<lparr>db_epoch := Some 1, db_hosts := [''host'' \<mapsto> 1], db_run_commands := cs\<rparr>\<rparr>"

lemma steered_store_tx:
  "write_tx body (steered_store cs) =
    end_tx (body \<lparr>hf_host_id = ''host'', hf_generation = 1\<rparr> (s_db (steered_store cs))) (steered_store cs)"
  by (rule write_tx_authorised) (simp_all add: steered_store_def assert_fence_iff i64_max_def)

lemma steered_store_claim:
  "claim_run_commands ''run'' 1 7 (steered_store [steer_command ''a'', steer_command ''b'']) =
    (Inr [claimed_row 7 (steer_command ''a'')],
     steered_store [claimed_row 7 (steer_command ''a''), steer_command ''b''])"
  unfolding claim_run_commands_def steered_store_tx
  by (simp add: claim_run_commands_body_def Let_def to_i64_def i64_max_def steered_store_def oldest_pending_def steer_command_def claimed_row_def upd_Cons)

theorem claim_oldest_first_witness:
  "take 1 (pending_commands ''run'' (s_db (steered_store [steer_command ''a'', steer_command ''b'']))) = [steer_command ''a''] \<and>
    pending_commands ''run'' (s_db (steered_store [claimed_row 7 (steer_command ''a''), steer_command ''b''])) =
      [steer_command ''b'']"
proof -
  let ?s = "steered_store [steer_command ''a'', steer_command ''b'']"
  have "run_commands_inv (s_db ?s)"
    by (simp add: run_commands_inv_def steered_store_def keyed_def steer_command_def)
  moreover have "\<forall>r \<in> set (db_run_commands (s_db ?s)). cm_claimed_at r \<noteq> Some 7"
    by (simp add: steered_store_def steer_command_def)
  ultimately have "pending_commands ''run'' (s_db (steered_store [claimed_row 7 (steer_command ''a''), steer_command ''b''])) =
      drop 1 (pending_commands ''run'' (s_db ?s))"
    using claim_oldest_first [OF _ steered_store_claim] by blast
  moreover have "pending_commands ''run'' (s_db ?s) = [steer_command ''a'', steer_command ''b'']"
    by (simp add: pending_commands_def steered_store_def steer_command_def)
  ultimately show ?thesis by simp
qed

text \<open>
  The rows a claim returns are found again by their time stamp, so two claims of one run in
  the same millisecond both return the command that the first one claimed.
\<close>

theorem claim_same_millisecond:
  "\<exists>s s1 c. claim_run_commands ''run'' 1 7 s = (Inr [c], s1) \<and>
    claim_run_commands ''run'' 1 7 s1 = (Inr [c], s1)"
proof -
  let ?c = "claimed_row 7 (steer_command ''a'')"
  have "claim_run_commands ''run'' 1 7 (steered_store [steer_command ''a'']) = (Inr [?c], steered_store [?c])"
    unfolding claim_run_commands_def steered_store_tx
    by (simp add: claim_run_commands_body_def Let_def to_i64_def i64_max_def steered_store_def oldest_pending_def steer_command_def claimed_row_def upd_Cons)
  moreover have "claim_run_commands ''run'' 1 7 (steered_store [?c]) = (Inr [?c], steered_store [?c])"
    unfolding claim_run_commands_def steered_store_tx
    by (simp add: claim_run_commands_body_def Let_def to_i64_def i64_max_def steered_store_def oldest_pending_def steer_command_def claimed_row_def upd_Cons)
  ultimately show ?thesis by blast
qed

end
