(* ===== verification/Budget_Store.thy ===== *)
theory Budget_Store imports Journal begin

text \<open>
  The budget tables of \<^verbatim>\<open>crates/harness-store-sqlite/src/store/run.rs\<close>: accounts in a tree,
  reservations that charge an account and all its ancestors, and their settlement. The ledger
  theorem says that what every account has spent is exactly the sum of what the reservations
  below it hold, whatever order operations came in.
\<close>

section \<open>Accounts\<close>

definition account_by_id :: "ident \<Rightarrow> budget_account list \<Rightarrow> budget_account option" where
  "account_by_id b as = sel (\<lambda>a. ba_id a = b) as"

text \<open>
  The loop of \<^verbatim>\<open>charge_chain\<close> over an account and its ancestors. \<open>delta\<close> is the \<^verbatim>\<open>i64\<close> that is
  added; \<open>next\<close> is computed in \<^verbatim>\<open>i128\<close>, so nothing wraps.
\<close>

function charge_loop ::
  "int \<Rightarrow> ident set \<Rightarrow> ident option \<Rightarrow> budget_account list \<Rightarrow> budget_account list res" where
  "charge_loop delta visited None as = Inr as"
| "charge_loop delta visited (Some b) as =
    (if b \<in> visited then Inl StorageWriteFailed
     else case account_by_id b as of
       None \<Rightarrow> Inl BudgetExhausted
     | Some a \<Rightarrow>
        let new_spent = int (ba_spent a) + delta in
        if new_spent < 0 then Inl BudgetExhausted
        else if int (ba_limit a) < new_spent \<and> 0 < delta then Inl BudgetExhausted
        else if int u64_max < new_spent then Inl BudgetExhausted
        else if i64_max < nat new_spent then Inl InvalidPayload
        else
          let hit = (\<lambda>r. ba_id r = b \<and> ba_revision r = ba_revision a) in
          if affected hit as \<noteq> 1 then Inl SequenceConflict
          else charge_loop delta (insert b visited) (ba_parent a)
            (upd hit (\<lambda>r. r\<lparr>ba_spent := nat new_spent, ba_revision := ba_revision r + 1\<rparr>) as))"
  by pat_completeness auto
termination
proof (relation "measure (\<lambda>(delta, visited, b, as).
    case b of None \<Rightarrow> 0 | Some _ \<Rightarrow> Suc (card (set (map ba_id as) - visited)))", goal_cases)
  case (2 delta visited b as a new_spent hit)
  from 2(2) have "b \<in> set (map ba_id as)"
    by (auto simp: account_by_id_def dest: sel_SomeD)
  with 2(1) have "set (map ba_id as) - insert b visited \<subset> set (map ba_id as) - visited" by auto
  then have "card (set (map ba_id as) - insert b visited) < card (set (map ba_id as) - visited)"
    by (intro psubset_card_mono) auto
  moreover have "map ba_id (upd hit (\<lambda>r. r\<lparr>ba_spent := nat new_spent, ba_revision := ba_revision r + 1\<rparr>) as) =
      map ba_id as"
    by (rule map_upd_same) simp
  ultimately show ?case by (simp split: option.splits del: set_map)
qed simp

definition charge_chain :: "ident \<Rightarrow> int \<Rightarrow> db \<Rightarrow> db res" where
  "charge_chain b delta d = (case charge_loop delta {} (Some b) (db_accounts d) of
      Inl e \<Rightarrow> Inl e | Inr as \<Rightarrow> Inr (d\<lparr>db_accounts := as\<rparr>))"

text \<open>The walk that \<^verbatim>\<open>ensure_budget_account\<close> makes up the parents of a new account.\<close>

function parent_walk :: "ident set \<Rightarrow> ident option \<Rightarrow> budget_account list \<Rightarrow> unit res" where
  "parent_walk visited None as = Inr ()"
| "parent_walk visited (Some b) as =
    (if b \<in> visited then Inl InvalidPayload
     else case account_by_id b as of
       None \<Rightarrow> Inl InvalidPayload
     | Some a \<Rightarrow> parent_walk (insert b visited) (ba_parent a) as)"
  by pat_completeness auto
termination
proof (relation "measure (\<lambda>(visited, b, as).
    case b of None \<Rightarrow> 0 | Some _ \<Rightarrow> Suc (card (set (map ba_id as) - visited)))", goal_cases)
  case (2 visited b as a)
  from 2(2) have "b \<in> set (map ba_id as)"
    by (auto simp: account_by_id_def dest: sel_SomeD)
  with 2(1) have "set (map ba_id as) - insert b visited \<subset> set (map ba_id as) - visited" by auto
  then have "card (set (map ba_id as) - insert b visited) < card (set (map ba_id as) - visited)"
    by (intro psubset_card_mono) auto
  then show ?case by (simp split: option.splits del: set_map)
qed simp

definition ensure_account_body :: "budget_account \<Rightarrow> budget_account body" where
  "ensure_account_body rec f d =
    bind_res (case ba_parent rec of
        None \<Rightarrow> Inr ()
      | Some p \<Rightarrow> parent_walk {ba_id rec} (Some p) (db_accounts d)) (\<lambda>_.
    bind_res (to_i64 (ba_limit rec)) (\<lambda>limit.
    let as = (if account_by_id (ba_id rec) (db_accounts d) \<noteq> None then db_accounts d
        else db_accounts d @ [\<lparr>ba_id = ba_id rec, ba_parent = ba_parent rec, ba_limit = limit,
          ba_spent = 0, ba_revision = 1\<rparr>])
    in case account_by_id (ba_id rec) as of
        None \<Rightarrow> Inl StorageWriteFailed
      | Some existing \<Rightarrow>
          if ba_limit existing \<noteq> ba_limit rec \<or> ba_parent existing \<noteq> ba_parent rec
          then Inl IdempotencyConflict
          else Inr (Commit existing (d\<lparr>db_accounts := as\<rparr>))))"

definition ensure_budget_account :: "budget_account \<Rightarrow> store \<Rightarrow> budget_account res \<times> store" where
  "ensure_budget_account rec = write_tx (ensure_account_body rec)"

definition read_budget_account :: "ident \<Rightarrow> store \<Rightarrow> budget_account option" where
  "read_budget_account b s = account_by_id b (db_accounts (s_db s))"

section \<open>Reservations\<close>

definition reservation_by_id :: "ident \<Rightarrow> db \<Rightarrow> reservation option" where
  "reservation_by_id i d = sel (\<lambda>r. br_id r = i) (db_reservations d)"

definition reservation_by_operation :: "string \<Rightarrow> db \<Rightarrow> reservation option" where
  "reservation_by_operation op d = sel (\<lambda>r. br_operation_id r = op) (db_reservations d)"

definition budget_reservation_by_operation :: "string \<Rightarrow> store \<Rightarrow> reservation option" where
  "budget_reservation_by_operation op s = reservation_by_operation op (s_db s)"

text \<open>
  \<^verbatim>\<open>INSERT \<dots> ON CONFLICT(operation_id) DO NOTHING\<close>: the conflict target is checked first, any
  other key conflict is an error. The result says whether a row was inserted.
\<close>

definition insert_reservation :: "reservation \<Rightarrow> db \<Rightarrow> (bool \<times> db) res" where
  "insert_reservation r d = (case to_i64 (br_bound r) of
      Inl e \<Rightarrow> Inl e
    | Inr bound \<Rightarrow>
        if reservation_by_operation (br_operation_id r) d \<noteq> None then Inr (False, d)
        else if reservation_by_id (br_id r) d \<noteq> None then Inl StorageWriteFailed
        else Inr (True, d\<lparr>db_reservations := db_reservations d @
          [\<lparr>br_id = br_id r, br_budget_id = br_budget_id r, br_operation_id = br_operation_id r,
            br_origin = br_origin r, br_bound = bound, br_settled = None, br_state = Reserved,
            br_revision = 1\<rparr>]\<rparr>))"

definition reserve_body :: "reservation \<Rightarrow> reservation body" where
  "reserve_body r f d =
    bind_res (insert_reservation r d) (\<lambda>(inserted, d).
    bind_res (if inserted then charge_chain (br_budget_id r) (int (br_bound r)) d else Inr d) (\<lambda>d.
    case reservation_by_operation (br_operation_id r) d of
      None \<Rightarrow> Inl StorageWriteFailed
    | Some existing \<Rightarrow>
        if \<not> inserted \<and> (br_budget_id existing \<noteq> br_budget_id r \<or> br_bound existing \<noteq> br_bound r)
        then Inl IdempotencyConflict
        else Inr (Commit existing d)))"

definition reserve_budget :: "reservation \<Rightarrow> store \<Rightarrow> reservation res \<times> store" where
  "reserve_budget r = write_tx (reserve_body r)"

definition set_reservation :: "ident \<Rightarrow> nat \<Rightarrow> (reservation \<Rightarrow> reservation) \<Rightarrow> db \<Rightarrow> db" where
  "set_reservation i revision f d =
    d\<lparr>db_reservations := upd (\<lambda>r. br_id r = i \<and> br_revision r = revision) f (db_reservations d)\<rparr>"

definition release_body :: "ident \<Rightarrow> reservation body" where
  "release_body i f d = (case reservation_by_id i d of
      None \<Rightarrow> Inl InvalidPayload
    | Some current \<Rightarrow>
        if br_state current \<noteq> Reserved then Inr (Rollback current)
        else if i64_max < br_bound current then Inl BudgetExhausted
        else bind_res (charge_chain (br_budget_id current) (- int (br_bound current)) d) (\<lambda>d.
          Inr (Commit (current\<lparr>br_state := Released, br_revision := br_revision current + 1\<rparr>)
            (set_reservation i (br_revision current)
              (\<lambda>r. r\<lparr>br_state := Released, br_revision := br_revision r + 1\<rparr>) d))))"

definition release_budget_reservation :: "ident \<Rightarrow> store \<Rightarrow> reservation res \<times> store" where
  "release_budget_reservation i = write_tx (release_body i)"

definition settle_in_tx :: "budget_settlement \<Rightarrow> db \<Rightarrow> (reservation \<times> db) res" where
  "settle_in_tx s d = (case reservation_by_id (bs_reservation_id s) d of
      None \<Rightarrow> Inl InvalidPayload
    | Some current \<Rightarrow>
        if br_state current \<in> {Settled, UnknownUsage, Released, ReservationExpired}
        then if br_settled current \<noteq> bs_measured s then Inl IdempotencyConflict else Inr (current, d)
        else
          let next_state = (if bs_measured s \<noteq> None then Settled else UnknownUsage);
              delta = (case bs_measured s of Some n \<Rightarrow> int n - int (br_bound current) | None \<Rightarrow> 0)
          in bind_res (if delta = 0 then Inr d
               else if int i64_max < delta then Inl BudgetExhausted
               else charge_chain (br_budget_id current) delta d) (\<lambda>d.
             bind_res (case bs_measured s of
                 None \<Rightarrow> Inr None
               | Some n \<Rightarrow> bind_res (to_i64 n) (\<lambda>n. Inr (Some n))) (\<lambda>settled.
             let hit = (\<lambda>r. br_id r = bs_reservation_id s \<and> br_revision r = br_revision current) in
             if affected hit (db_reservations d) \<noteq> 1 then Inl SequenceConflict
             else Inr (current\<lparr>br_state := next_state, br_settled := bs_measured s,
                   br_revision := br_revision current + 1\<rparr>,
                 set_reservation (bs_reservation_id s) (br_revision current)
                   (\<lambda>r. r\<lparr>br_state := next_state, br_settled := settled,
                     br_revision := br_revision r + 1\<rparr>) d))))"

definition settle_body :: "budget_settlement \<Rightarrow> reservation body" where
  "settle_body s f d = bind_res (settle_in_tx s d) (\<lambda>(r, d). Inr (CommitAt BeforeBudgetSettleCommit r d))"

definition settle_budget_reservation :: "budget_settlement \<Rightarrow> store \<Rightarrow> reservation res \<times> store" where
  "settle_budget_reservation s = write_tx (settle_body s)"

section \<open>The account tree\<close>

text \<open>
  An account's chain is itself and its ancestors. Parents are older than their children, so the
  chain is read off the rows from the newest to the oldest; it depends on the identifiers and
  parents of the rows only.
\<close>

fun chain_in :: "ident \<Rightarrow> (ident \<times> ident option) list \<Rightarrow> ident list" where
  "chain_in b [] = []"
| "chain_in b ((i, parent) # older) =
    (if i = b then b # (case parent of None \<Rightarrow> [] | Some p \<Rightarrow> chain_in p older) else chain_in b older)"

fun parents_older :: "(ident \<times> ident option) list \<Rightarrow> bool" where
  "parents_older [] = True"
| "parents_older ((i, parent) # older) =
    (i \<notin> fst ` set older \<and> (case parent of None \<Rightarrow> True | Some p \<Rightarrow> p \<in> fst ` set older) \<and> parents_older older)"

definition shape :: "budget_account list \<Rightarrow> (ident \<times> ident option) list" where
  "shape as = rev (map (\<lambda>a. (ba_id a, ba_parent a)) as)"

definition chain :: "ident \<Rightarrow> budget_account list \<Rightarrow> ident list" where
  "chain b as = chain_in b (shape as)"

definition account_tree :: "budget_account list \<Rightarrow> bool" where
  "account_tree as \<longleftrightarrow> parents_older (shape as)"

lemma chain_in_known: "set (chain_in b ps) \<subseteq> fst ` set ps"
proof (induction b ps rule: chain_in.induct)
  case (2 b i parent older)
  then show ?case by (auto split: option.splits)
qed simp

lemma chain_in_distinct: "parents_older ps \<Longrightarrow> distinct (chain_in b ps)"
proof (induction b ps rule: chain_in.induct)
  case (2 b i parent older)
  show ?case
  proof (cases parent)
    case None
    with 2 show ?thesis by simp
  next
    case (Some p)
    with 2 chain_in_known [of p older] show ?thesis by auto
  qed
qed simp

lemma chain_in_skip: "b \<noteq> i \<Longrightarrow> chain_in b ((i, parent) # older) = chain_in b older"
  by simp

lemma chain_in_unfold:
  "parents_older ps \<Longrightarrow> (b, parent) \<in> set ps \<Longrightarrow>
    chain_in b ps = b # (case parent of None \<Rightarrow> [] | Some p \<Rightarrow> chain_in p ps)"
proof (induction ps)
  case (Cons x older)
  obtain i par where x: "x = (i, par)" by (cases x)
  have other: "p \<noteq> i" if "p \<in> fst ` set older" for p using Cons.prems(1) that by (auto simp: x)
  show ?case
  proof (cases "b = i")
    case True
    with Cons.prems x have "parent = par" by force
    with True Cons.prems(1) x other show ?thesis by (auto split: option.splits)
  next
    case False
    with Cons.prems x have older: "(b, parent) \<in> set older" "parents_older older" by auto
    have "p \<in> fst ` set older" if "parent = Some p" for p
      using older that
    proof (induction older)
      case (Cons y ys)
      then show ?case by (cases y) (auto split: option.splits)
    qed simp
    with other Cons.IH [OF older(2,1)] False show ?thesis by (auto simp: x split: option.splits)
  qed
qed simp

lemma account_tree_keyed: "account_tree as \<Longrightarrow> keyed ba_id as"
proof -
  have "parents_older ps \<Longrightarrow> distinct (map fst ps)" for ps
    by (induction ps rule: parents_older.induct) auto
  then show "account_tree as \<Longrightarrow> keyed ba_id as"
    by (fastforce simp: account_tree_def shape_def keyed_def rev_map [symmetric] o_def)
qed

lemma chain_unfold:
  assumes "account_tree as" and "account_by_id b as = Some a"
  shows "chain b as = b # (case ba_parent a of None \<Rightarrow> [] | Some p \<Rightarrow> chain p as)"
proof -
  from assms(2) have "a \<in> set as \<and> ba_id a = b" unfolding account_by_id_def by (rule sel_SomeD)
  then have "(b, ba_parent a) \<in> set (shape as)" by (auto simp: shape_def)
  with assms(1) show ?thesis unfolding chain_def account_tree_def by (rule chain_in_unfold)
qed

lemma chain_distinct: "account_tree as \<Longrightarrow> distinct (chain b as)"
  by (simp add: chain_def account_tree_def chain_in_distinct)

lemma chain_cong: "shape as' = shape as \<Longrightarrow> chain b as' = chain b as"
  by (simp add: chain_def)

section \<open>What charging does\<close>

definition charged :: "ident set \<Rightarrow> int \<Rightarrow> budget_account list \<Rightarrow> budget_account list" where
  "charged S delta as = upd (\<lambda>a. ba_id a \<in> S)
    (\<lambda>a. a\<lparr>ba_spent := nat (int (ba_spent a) + delta), ba_revision := ba_revision a + 1\<rparr>) as"

lemma shape_charged [simp]: "shape (charged S delta as) = shape as"
  by (simp add: shape_def charged_def upd_def o_def)

lemma charged_empty [simp]: "charged {} delta as = as"
  by (simp add: charged_def upd_none)

lemma charged_insert:
  "b \<notin> S \<Longrightarrow> charged S delta (charged {b} delta as) = charged (insert b S) delta as"
  by (auto simp: charged_def upd_def)

definition may_charge :: "int \<Rightarrow> budget_account \<Rightarrow> bool" where
  "may_charge delta a \<longleftrightarrow> 0 \<le> int (ba_spent a) + delta \<and> int (ba_spent a) + delta \<le> int i64_max \<and>
    (0 < delta \<longrightarrow> int (ba_spent a) + delta \<le> int (ba_limit a))"

lemma upd_cong:
  assumes "\<And>r. r \<in> set t \<Longrightarrow> P r = Q r" and "\<And>r. r \<in> set t \<Longrightarrow> P r \<Longrightarrow> f r = g r"
  shows "upd P f t = upd Q g t"
  using assms by (auto simp: upd_def)

lemma charge_loop_spec:
  assumes "charge_loop delta visited (Some b) as = Inr as'" and "account_tree as"
  shows "as' = charged (set (chain b as)) delta as \<and>
    b \<in> ba_id ` set as \<and> (\<forall>a \<in> set as. ba_id a \<in> set (chain b as) \<longrightarrow> may_charge delta a)"
  using assms
proof (induction delta visited "Some b" as arbitrary: b rule: charge_loop.induct)
  case (2 delta visited b as)
  then obtain a where fresh: "b \<notin> visited" and a: "account_by_id b as = Some a"
    by (auto split: if_splits option.splits)
  define new_spent where "new_spent = int (ba_spent a) + delta"
  define as1 where "as1 = upd (\<lambda>r. ba_id r = b \<and> ba_revision r = ba_revision a)
    (\<lambda>r. r\<lparr>ba_spent := nat new_spent, ba_revision := ba_revision r + 1\<rparr>) as"
  note loop = 2(2) [unfolded charge_loop.simps(2) if_not_P [OF fresh] a option.case Let_def,
      folded new_spent_def, folded as1_def]
  have rest: "charge_loop delta (insert b visited) (ba_parent a) as1 = Inr as'"
    and range: "\<not> new_spent < 0" "\<not> (int (ba_limit a) < new_spent \<and> 0 < delta)" "\<not> i64_max < nat new_spent"
      "\<not> int u64_max < new_spent"
      "\<not> affected (\<lambda>r. ba_id r = b \<and> ba_revision r = ba_revision a) as \<noteq> 1"
    using loop by (simp_all only: split: if_split_asm) simp_all
  from range have ok: "may_charge delta a" by (auto simp: may_charge_def new_spent_def)
  from a have in_as: "a \<in> set as" "ba_id a = b" unfolding account_by_id_def by (auto dest: sel_SomeD)
  have keyed: "keyed ba_id as" using 2(3) by (rule account_tree_keyed)
  have only: "r = a" if "r \<in> set as" "ba_id r = b" for r
    using keyed_same [OF keyed that(1) in_as(1)] that(2) in_as(2) by simp
  have mine: "may_charge delta r" if "r \<in> set as" "ba_id r = b" for r
    using only [OF that] ok by simp
  have as1: "as1 = charged {b} delta as"
    unfolding as1_def charged_def
  proof (rule upd_cong)
    fix r assume r: "r \<in> set as"
    show "(ba_id r = b \<and> ba_revision r = ba_revision a) = (ba_id r \<in> {b})"
      using only [OF r] by auto
    show "r\<lparr>ba_spent := nat new_spent, ba_revision := ba_revision r + 1\<rparr> =
        r\<lparr>ba_spent := nat (int (ba_spent r) + delta), ba_revision := ba_revision r + 1\<rparr>"
      if "ba_id r = b \<and> ba_revision r = ba_revision a"
      using only [OF r] that by (simp add: new_spent_def)
  qed
  have tree: "account_tree as1" using 2(3) by (simp add: as1 account_tree_def)
  note unfold = chain_unfold [OF 2(3) a]
  show ?case
  proof (cases "ba_parent a")
    case None
    with rest have "as' = as1" by simp
    moreover from None unfold have "chain b as = [b]" by simp
    ultimately show ?thesis using in_as mine as1 by auto
  next
    case (Some p)
    have chain1: "chain p as1 = chain p as" by (rule chain_cong) (simp add: as1)
    from chain_distinct [OF 2(3), of b] unfold Some have new: "b \<notin> set (chain p as)" by simp
    have IH: "as' = charged (set (chain p as)) delta as1 \<and>
        (\<forall>x \<in> set as1. ba_id x \<in> set (chain p as) \<longrightarrow> may_charge delta x)"
      using 2(1) [OF fresh a new_spent_def range(1,2,4,3) refl range(5) Some, folded as1_def]
        rest tree chain1 Some by simp
    from IH unfold Some new have "as' = charged (set (chain b as)) delta as"
      by (simp add: as1 charged_insert)
    moreover have "may_charge delta x" if "x \<in> set as" "ba_id x \<in> set (chain b as)" for x
    proof (cases "ba_id x = b")
      case True
      with that(1) show ?thesis by (rule mine)
    next
      case False
      then have "x \<in> set as1" using that(1) by (auto simp: as1 charged_def set_upd)
      moreover have "ba_id x \<in> set (chain p as)" using that(2) False unfold Some by simp
      ultimately show ?thesis using IH by simp
    qed
    ultimately show ?thesis using in_as by auto
  qed
qed

lemma charge_chainD:
  assumes "charge_chain b delta d = Inr d'" and "account_tree (db_accounts d)"
  shows "d' = d\<lparr>db_accounts := charged (set (chain b (db_accounts d))) delta (db_accounts d)\<rparr>"
    and "account_by_id b (db_accounts d) \<noteq> None"
    and "\<forall>a \<in> set (db_accounts d). ba_id a \<in> set (chain b (db_accounts d)) \<longrightarrow> may_charge delta a"
proof -
  from assms(1) obtain as' where as': "charge_loop delta {} (Some b) (db_accounts d) = Inr as'"
      "d' = d\<lparr>db_accounts := as'\<rparr>"
    unfolding charge_chain_def by (cases "charge_loop delta {} (Some b) (db_accounts d)") auto
  from charge_loop_spec [OF as'(1) assms(2)] as'(2)
  show "d' = d\<lparr>db_accounts := charged (set (chain b (db_accounts d))) delta (db_accounts d)\<rparr>"
    "account_by_id b (db_accounts d) \<noteq> None"
    "\<forall>a \<in> set (db_accounts d). ba_id a \<in> set (chain b (db_accounts d)) \<longrightarrow> may_charge delta a"
    by (auto simp: account_by_id_def sel_None)
qed

section \<open>The ledger\<close>

text \<open>What a reservation holds against its account: its bound until its usage is known.\<close>

definition held :: "reservation \<Rightarrow> nat" where
  "held r = (case br_state r of
      Reserved \<Rightarrow> br_bound r
    | UnknownUsage \<Rightarrow> br_bound r
    | ReservationExpired \<Rightarrow> br_bound r
    | Released \<Rightarrow> 0
    | Settled \<Rightarrow> (case br_settled r of Some n \<Rightarrow> n | None \<Rightarrow> br_bound r))"

definition holding :: "budget_account list \<Rightarrow> ident \<Rightarrow> reservation \<Rightarrow> int" where
  "holding as b r = (if b \<in> set (chain (br_budget_id r) as) then int (held r) else 0)"

definition ledger :: "budget_account list \<Rightarrow> reservation list \<Rightarrow> ident \<Rightarrow> int" where
  "ledger as rs b = (\<Sum>r \<leftarrow> rs. holding as b r)"

definition accounts_exact :: "budget_account list \<Rightarrow> reservation list \<Rightarrow> bool" where
  "accounts_exact as rs \<longleftrightarrow> (\<forall>a \<in> set as. int (ba_spent a) = ledger as rs (ba_id a) \<and> ba_spent a \<le> ba_limit a)"

definition reservation_ok :: "reservation \<Rightarrow> bool" where
  "reservation_ok r \<longleftrightarrow> (br_state r = Settled \<longleftrightarrow> br_settled r \<noteq> None) \<and>
    br_state r \<noteq> ReservationExpired \<and> br_bound r \<le> i64_max"

definition budget_inv :: "db \<Rightarrow> bool" where
  "budget_inv d \<longleftrightarrow> account_tree (db_accounts d) \<and> keyed br_id (db_reservations d) \<and>
    keyed br_operation_id (db_reservations d) \<and>
    (\<forall>r \<in> set (db_reservations d). reservation_ok r \<and> account_by_id (br_budget_id r) (db_accounts d) \<noteq> None) \<and>
    accounts_exact (db_accounts d) (db_reservations d)"

lemma budget_inv_cong:
  "db_accounts d' = db_accounts d \<Longrightarrow> db_reservations d' = db_reservations d \<Longrightarrow> budget_inv d' = budget_inv d"
  by (simp add: budget_inv_def)

lemma budget_inv_empty: "budget_inv empty_db"
  by (simp add: budget_inv_def empty_db_def account_tree_def shape_def accounts_exact_def)

lemma account_known: "account_by_id b as \<noteq> None \<longleftrightarrow> b \<in> ba_id ` set as"
  by (auto simp: account_by_id_def sel_None)

lemma account_by_id_charged [simp]:
  "account_by_id b (charged S delta as) = None \<longleftrightarrow> account_by_id b as = None"
proof -
  have "map ba_id (charged S delta as) = map ba_id as"
    unfolding charged_def by (rule map_upd_same) simp
  then have "ba_id ` set (charged S delta as) = ba_id ` set as" by (metis list.set_map)
  then show ?thesis using account_known [of b as] account_known [of b "charged S delta as"] by auto
qed

lemma account_tree_charged [simp]: "account_tree (charged S delta as) = account_tree as"
  by (simp add: account_tree_def)

lemma ledger_charged [simp]: "ledger (charged S delta as) = ledger as"
proof -
  have "chain b (charged S delta as) = chain b as" for b by (rule chain_cong) simp
  then show ?thesis by (intro ext) (simp add: ledger_def holding_def)
qed

text \<open>Charging a chain while the reservations below it change by as much.\<close>

lemma accounts_exact_charged:
  assumes exact: "accounts_exact as rs"
    and may: "\<forall>a \<in> set as. ba_id a \<in> set (chain b as) \<longrightarrow> may_charge delta a"
    and change: "\<And>c. ledger as rs' c = ledger as rs c + (if c \<in> set (chain b as) then delta else 0)"
  shows "accounts_exact (charged (set (chain b as)) delta as) rs'"
  unfolding accounts_exact_def ledger_charged
proof
  fix a' assume "a' \<in> set (charged (set (chain b as)) delta as)"
  then obtain a where a: "a \<in> set as" and a': "a' = (if ba_id a \<in> set (chain b as)
      then a\<lparr>ba_spent := nat (int (ba_spent a) + delta), ba_revision := ba_revision a + 1\<rparr> else a)"
    by (auto simp: charged_def set_upd)
  from exact a have old: "int (ba_spent a) = ledger as rs (ba_id a)" "ba_spent a \<le> ba_limit a"
    by (auto simp: accounts_exact_def)
  show "int (ba_spent a') = ledger as rs' (ba_id a') \<and> ba_spent a' \<le> ba_limit a'"
  proof (cases "ba_id a \<in> set (chain b as)")
    case True
    with may a have "may_charge delta a" by blast
    with True a' old change [of "ba_id a"] show ?thesis by (auto simp: may_charge_def)
  next
    case False
    with a' old change [of "ba_id a"] show ?thesis by simp
  qed
qed

lemma ledger_snoc: "ledger as (rs @ [r]) b = ledger as rs b + holding as b r"
  by (simp add: ledger_def)

lemma ledger_upd:
  assumes "keyed br_id rs" and "sel (\<lambda>r. br_id r = i) rs = Some r" and "br_budget_id (f r) = br_budget_id r"
  shows "ledger as (upd (\<lambda>r. br_id r = i) f rs) b = ledger as rs b +
    (if b \<in> set (chain (br_budget_id r) as) then int (held (f r)) - int (held r) else 0)"
  using sum_list_upd_key [OF assms(1,2), where f = f and g = "holding as b"]
  by (simp add: ledger_def holding_def assms(3))

lemma set_reservation_key:
  assumes "keyed br_id (db_reservations d)" and "reservation_by_id i d = Some r"
  shows "set_reservation i (br_revision r) f d =
    d\<lparr>db_reservations := upd (\<lambda>r. br_id r = i) f (db_reservations d)\<rparr>"
proof -
  from assms(2) have r: "r \<in> set (db_reservations d)" "br_id r = i"
    unfolding reservation_by_id_def by (auto dest: sel_SomeD)
  have "br_id x = i \<and> br_revision x = br_revision r \<longleftrightarrow> br_id x = i" if "x \<in> set (db_reservations d)" for x
    using keyed_same [OF assms(1) that r(1)] r(2) by auto
  then show ?thesis unfolding set_reservation_def by (simp cong: upd_cong)
qed

section \<open>Every operation keeps the ledger exact\<close>

lemma insert_reservationD:
  assumes "insert_reservation r d = Inr (inserted, d')"
  obtains (present) x where "\<not> inserted" "d' = d" "reservation_by_operation (br_operation_id r) d = Some x"
  | (new) x where "inserted" "reservation_by_operation (br_operation_id r) d = None"
      "reservation_by_id (br_id r) d = None" "br_bound r \<le> i64_max"
      "x = r\<lparr>br_settled := None, br_state := Reserved, br_revision := 1\<rparr>"
      "d' = d\<lparr>db_reservations := db_reservations d @ [x]\<rparr>"
  using assms by (cases r) (auto simp: insert_reservation_def split: sum.splits if_splits)

text \<open>A new reservation together with its charge.\<close>

lemma budget_inv_reserved:
  assumes inv: "budget_inv d" and ins: "insert_reservation r d = Inr (True, d1)"
    and charge: "charge_chain (br_budget_id r) (int (br_bound r)) d1 = Inr d'"
  shows "budget_inv d'"
  using ins
proof (cases rule: insert_reservationD)
  case (new x)
  have tree: "account_tree (db_accounts d1)" using inv new by (simp add: budget_inv_def)
  note c = charge_chainD [OF charge tree]
  let ?as = "db_accounts d" and ?b = "br_budget_id r"
  have x: "held x = br_bound r" "br_budget_id x = ?b" "br_id x = br_id r"
      "br_operation_id x = br_operation_id r" "reservation_ok x"
    using new by (simp_all add: held_def reservation_ok_def)
  have "accounts_exact (charged (set (chain ?b ?as)) (int (br_bound r)) ?as) (db_reservations d @ [x])"
    by (rule accounts_exact_charged) (use inv c new x in \<open>auto simp: budget_inv_def ledger_snoc holding_def\<close>)
  with inv new c x show ?thesis
    by (auto simp: budget_inv_def keyed_snoc reservation_by_id_def reservation_by_operation_def sel_None)
qed simp

lemma reserve_body_inv:
  assumes inv: "budget_inv d" and body: "commits (reserve_body r f d) d'"
  shows "budget_inv d'"
proof -
  from body obtain inserted d1 where ins: "insert_reservation r d = Inr (inserted, d1)"
    and charge: "(if inserted then charge_chain (br_budget_id r) (int (br_bound r)) d1 else Inr d1) = Inr d'"
    by (auto simp: reserve_body_def bind_res_Inr split: option.splits if_splits)
  show ?thesis
  proof (cases inserted)
    case True
    with ins charge inv show ?thesis by (auto intro: budget_inv_reserved)
  next
    case False
    with ins charge inv show ?thesis by (auto elim: insert_reservationD)
  qed
qed

text \<open>A reservation that changes what it holds together with the difference charged.\<close>

lemma budget_inv_changed:
  assumes inv: "budget_inv d" and r: "reservation_by_id i d = Some r"
    and charge: "charge_chain (br_budget_id r) delta d = Inr d1 \<or> (delta = 0 \<and> d1 = d)"
    and d': "d' = set_reservation i (br_revision r) f d1"
    and f: "\<And>x. br_id (f x) = br_id x" "\<And>x. br_operation_id (f x) = br_operation_id x"
      "\<And>x. br_budget_id (f x) = br_budget_id x" "reservation_ok (f r)"
    and delta: "delta = int (held (f r)) - int (held r)"
  shows "budget_inv d'"
proof -
  let ?as = "db_accounts d" and ?rs = "db_reservations d" and ?b = "br_budget_id r"
  let ?rs' = "upd (\<lambda>x. br_id x = i) f ?rs"
  have keyed: "keyed br_id ?rs" and tree: "account_tree ?as" using inv by (auto simp: budget_inv_def)
  have selr: "sel (\<lambda>x. br_id x = i) ?rs = Some r" using r by (simp add: reservation_by_id_def)
  have changes: "ledger as ?rs' c = ledger as ?rs c +
      (if c \<in> set (chain ?b as) then int (held (f r)) - int (held r) else 0)" for as c
    using keyed selr f(3) by (rule ledger_upd)
  obtain as1 where d1: "d1 = d\<lparr>db_accounts := as1\<rparr>" and as1: "accounts_exact as1 ?rs'" "account_tree as1"
    "\<And>b. account_by_id b as1 \<noteq> None \<longleftrightarrow> account_by_id b ?as \<noteq> None"
  proof (cases "delta = 0 \<and> d1 = d")
    case True
    have "ledger ?as ?rs' c = ledger ?as ?rs c" for c
      using changes True delta by simp
    then have "accounts_exact ?as ?rs'" using inv by (simp add: budget_inv_def accounts_exact_def)
    with True tree that [of ?as] show thesis by simp
  next
    case False
    with charge have c: "charge_chain ?b delta d = Inr d1" by simp
    note c = charge_chainD [OF c tree]
    have "accounts_exact (charged (set (chain ?b ?as)) delta ?as) ?rs'"
      by (rule accounts_exact_charged)
        (use inv c changes delta in \<open>auto simp: budget_inv_def\<close>)
    with c tree that [of "charged (set (chain ?b ?as)) delta ?as"] show thesis by simp
  qed
  have d'_eq: "d' = d\<lparr>db_accounts := as1, db_reservations := ?rs'\<rparr>"
    using set_reservation_key [of d1 i r f] keyed r by (simp add: d' d1 reservation_by_id_def)
  have "reservation_ok x \<and> account_by_id (br_budget_id x) as1 \<noteq> None" if "x \<in> set ?rs'" for x
  proof -
    from that obtain y where y: "y \<in> set ?rs" "x = (if br_id y = i then f y else y)"
      by (auto simp: set_upd)
    from selr have r_in: "r \<in> set ?rs" "br_id r = i" by (auto dest: sel_SomeD)
    from inv y have y_ok: "reservation_ok y" "account_by_id (br_budget_id y) ?as \<noteq> None"
      by (simp_all add: budget_inv_def)
    show ?thesis
    proof (cases "br_id y = i")
      case True
      with keyed_same [OF keyed y(1) r_in(1)] r_in(2) have "y = r" by simp
      with True y y_ok f show ?thesis unfolding as1(3) by simp
    next
      case False
      with y y_ok show ?thesis unfolding as1(3) by simp
    qed
  qed
  with inv as1 f(1,2) show ?thesis by (simp add: budget_inv_def d'_eq)
qed

lemma budget_inv_row:
  "budget_inv d \<Longrightarrow> reservation_by_id i d = Some r \<Longrightarrow> reservation_ok r \<and> br_id r = i"
  unfolding reservation_by_id_def budget_inv_def by (auto dest: sel_SomeD)

lemma release_body_inv:
  assumes inv: "budget_inv d" and body: "commits (release_body i f d) d'"
  shows "budget_inv d'"
proof -
  from body obtain r d1 where r: "reservation_by_id i d = Some r" "br_state r = Reserved"
    and charge: "charge_chain (br_budget_id r) (- int (br_bound r)) d = Inr d1"
    and d': "d' = set_reservation i (br_revision r)
      (\<lambda>r. r\<lparr>br_state := Released, br_revision := br_revision r + 1\<rparr>) d1"
    by (auto simp: release_body_def bind_res_Inr split: option.splits if_splits)
  from budget_inv_row [OF inv r(1)] r(2) have "reservation_ok r" "held r = br_bound r"
    by (simp_all add: held_def)
  then show ?thesis
    by (intro budget_inv_changed [OF inv r(1) _ d'])
      (use charge r(2) in \<open>auto simp: reservation_ok_def held_def\<close>)
qed

text \<open>What settling an open reservation writes.\<close>

definition settled_row :: "nat option \<Rightarrow> reservation \<Rightarrow> reservation" where
  "settled_row measured r = r\<lparr>br_state := (if measured \<noteq> None then Settled else UnknownUsage),
    br_settled := measured, br_revision := br_revision r + 1\<rparr>"

lemma settle_in_txD:
  assumes "settle_in_tx s d = Inr (a, d')"
  obtains (old) "reservation_by_id (bs_reservation_id s) d = Some a" "br_state a \<noteq> Reserved"
      "br_settled a = bs_measured s" "d' = d"
  | (settled) r d1 delta where "reservation_by_id (bs_reservation_id s) d = Some r" "br_state r = Reserved"
      "delta = (case bs_measured s of Some n \<Rightarrow> int n - int (br_bound r) | None \<Rightarrow> 0)"
      "charge_chain (br_budget_id r) delta d = Inr d1 \<or> delta = 0 \<and> d1 = d"
      "a = settled_row (bs_measured s) r"
      "d' = set_reservation (bs_reservation_id s) (br_revision r) (settled_row (bs_measured s)) d1"
proof -
  from assms obtain r where r: "reservation_by_id (bs_reservation_id s) d = Some r"
    by (auto simp: settle_in_tx_def split: option.splits)
  show thesis
  proof (cases "br_state r = Reserved")
    case False
    then have "br_state r \<in> {Settled, UnknownUsage, Released, ReservationExpired}"
      by (cases "br_state r") simp_all
    with assms r have "a = r" "br_settled r = bs_measured s" "d' = d"
      by (auto simp: settle_in_tx_def split: if_splits)
    with r False old show thesis by simp
  next
    case True
    let ?delta = "case bs_measured s of Some n \<Rightarrow> int n - int (br_bound r) | None \<Rightarrow> 0"
    from assms r True obtain d1 settled where
      charge: "(if ?delta = 0 then Inr d else if int i64_max < ?delta then Inl BudgetExhausted
         else charge_chain (br_budget_id r) ?delta d) = Inr d1"
      and settled: "(case bs_measured s of None \<Rightarrow> Inr None | Some n \<Rightarrow> bind_res (to_i64 n) (\<lambda>n. Inr (Some n)))
         = Inr settled"
      and a: "a = settled_row (bs_measured s) r"
      and d': "d' = set_reservation (bs_reservation_id s) (br_revision r) (\<lambda>x. x\<lparr>br_state :=
        (if bs_measured s \<noteq> None then Settled else UnknownUsage), br_settled := settled,
        br_revision := br_revision x + 1\<rparr>) d1"
      by (auto simp: settle_in_tx_def Let_def bind_res_Inr settled_row_def split: if_splits)
    from settled have "settled = bs_measured s" by (auto simp: bind_res_Inr split: option.splits)
    with d' have "d' = set_reservation (bs_reservation_id s) (br_revision r) (settled_row (bs_measured s)) d1"
      by (simp add: settled_row_def [abs_def])
    moreover from charge have "charge_chain (br_budget_id r) ?delta d = Inr d1 \<or> ?delta = 0 \<and> d1 = d"
      by (auto split: if_splits)
    ultimately show thesis using that(2) [OF r True refl] a by blast
  qed
qed

lemma settle_in_tx_inv:
  assumes inv: "budget_inv d" and settle: "settle_in_tx s d = Inr (a, d')"
  shows "budget_inv d'"
  using settle
proof (cases rule: settle_in_txD)
  case (settled r d1 delta)
  from budget_inv_row [OF inv settled(1)] settled(2) have "reservation_ok r" "held r = br_bound r"
    by (simp_all add: held_def)
  then show ?thesis
    by (intro budget_inv_changed [OF inv settled(1,4,6)])
      (use settled(2,3) in \<open>auto simp: reservation_ok_def held_def settled_row_def split: option.splits\<close>)
qed (use inv in simp)

lemma parent_walk_known:
  "parent_walk visited (Some p) as = Inr () \<Longrightarrow> p \<in> ba_id ` set as"
  by (auto simp: account_by_id_def sel_None split: if_splits option.splits dest: sel_SomeD)

lemma ensure_account_body_inv:
  assumes inv: "budget_inv d" and body: "commits (ensure_account_body rec f d) d'"
  shows "budget_inv d'"
proof -
  let ?as = "db_accounts d" and ?b = "ba_id rec"
  let ?row = "\<lparr>ba_id = ?b, ba_parent = ba_parent rec, ba_limit = ba_limit rec, ba_spent = 0, ba_revision = 1\<rparr>"
  from body have walk: "ba_parent rec = None \<or> (\<exists>p. ba_parent rec = Some p \<and> parent_walk {?b} (Some p) ?as = Inr ())"
    and d': "d' = d\<lparr>db_accounts := (if account_by_id ?b ?as \<noteq> None then ?as else ?as @ [?row])\<rparr>"
    by (auto simp: ensure_account_body_def bind_res_Inr Let_def split: option.splits if_splits)
  show ?thesis
  proof (cases "account_by_id ?b ?as = None")
    case False
    with inv d' show ?thesis by (simp add: budget_inv_def)
  next
    case True
    then have new: "?b \<notin> ba_id ` set ?as" using account_known [of ?b ?as] by simp
    have tree: "account_tree (?as @ [?row])"
    proof -
      have "case ba_parent rec of None \<Rightarrow> True | Some p \<Rightarrow> p \<in> ba_id ` set ?as"
      proof (cases "ba_parent rec")
        case (Some p)
        with walk have "parent_walk {?b} (Some p) ?as = Inr ()" by simp
        from parent_walk_known [OF this] Some show ?thesis by simp
      qed simp
      moreover have "fst ` set (shape ?as) = ba_id ` set ?as"
        by (simp add: shape_def image_image)
      moreover have "shape (?as @ [?row]) = (?b, ba_parent rec) # shape ?as" by (simp add: shape_def)
      ultimately show ?thesis using inv new
        by (simp add: budget_inv_def account_tree_def split: option.splits)
    qed
    have chain: "chain c (?as @ [?row]) = chain c ?as" if "c \<in> ba_id ` set ?as" for c
      using that new by (auto simp: chain_def shape_def)
    have budgets: "br_budget_id r \<in> ba_id ` set ?as" if "r \<in> set (db_reservations d)" for r
      using inv that account_known by (auto simp: budget_inv_def)
    have "holding (?as @ [?row]) c r = holding ?as c r" if "r \<in> set (db_reservations d)" for c r
      using chain [OF budgets [OF that]] by (simp add: holding_def)
    then have same: "ledger (?as @ [?row]) (db_reservations d) c = ledger ?as (db_reservations d) c" for c
      by (simp add: ledger_def cong: map_cong)
    have "holding ?as ?b r = 0" for r
      using new chain_in_known [of "br_budget_id r" "shape ?as"] by (auto simp: holding_def chain_def shape_def)
    then have "ledger ?as (db_reservations d) ?b = 0" by (simp add: ledger_def)
    with inv same have "accounts_exact (?as @ [?row]) (db_reservations d)"
      by (simp add: budget_inv_def accounts_exact_def)
    with inv tree True d' show ?thesis
      by (auto simp: budget_inv_def account_by_id_def sel_append split: option.splits)
  qed
qed

lemma settle_body_inv: "budget_inv d \<Longrightarrow> commits (settle_body s f d) d' \<Longrightarrow> budget_inv d'"
  by (auto simp: settle_body_def intro: settle_in_tx_inv)

section \<open>Every operation is fenced\<close>

text \<open>A budget transaction writes the two budget tables only.\<close>

definition budget_frame :: "db \<Rightarrow> db \<Rightarrow> bool" where
  "budget_frame d d' \<longleftrightarrow> (\<exists>as rs. d' = d\<lparr>db_accounts := as, db_reservations := rs\<rparr>)"

lemma budget_frame_hosts: "budget_frame d d' \<Longrightarrow> same_hosts d d'"
  by (auto simp: budget_frame_def same_hosts_def)

lemma budget_frame_refl [simp]: "budget_frame d d"
  unfolding budget_frame_def by (rule exI [of _ "db_accounts d"], rule exI [of _ "db_reservations d"]) simp

lemma budget_frame_trans: "budget_frame d d1 \<Longrightarrow> budget_frame d1 d2 \<Longrightarrow> budget_frame d d2"
  by (cases d) (auto simp: budget_frame_def)

lemma budget_frame_one [simp]:
  "budget_frame d (d\<lparr>db_accounts := as\<rparr>)" "budget_frame d (d\<lparr>db_reservations := rs\<rparr>)"
  by (cases d, auto simp: budget_frame_def)+

lemma budget_frame_steps:
  "charge_chain b delta d = Inr d' \<Longrightarrow> budget_frame d d'"
  "insert_reservation r d = Inr (i, d') \<Longrightarrow> budget_frame d d'"
  by (auto simp: charge_chain_def insert_reservation_def split: sum.splits if_splits)

lemma set_reservation_frame [simp]: "budget_frame d (set_reservation i n f d)"
  by (simp add: set_reservation_def)

lemma ensure_account_frame: "commits (ensure_account_body rec f d) d' \<Longrightarrow> budget_frame d d'"
  by (auto simp: ensure_account_body_def Let_def split: option.splits if_splits)

lemma reserve_frame: "commits (reserve_body r f d) d' \<Longrightarrow> budget_frame d d'"
  by (auto simp: reserve_body_def split: option.splits if_splits dest!: budget_frame_steps
    elim: budget_frame_trans)

lemma release_frame: "commits (release_body i f d) d' \<Longrightarrow> budget_frame d d'"
  by (auto simp: release_body_def split: option.splits if_splits dest!: budget_frame_steps
    elim: budget_frame_trans)

lemma settle_in_tx_frame: "settle_in_tx s d = Inr (a, d') \<Longrightarrow> budget_frame d d'"
  by (erule settle_in_txD) (auto dest!: budget_frame_steps elim: budget_frame_trans)

lemma settle_frame: "commits (settle_body s f d) d' \<Longrightarrow> budget_frame d d'"
  by (auto simp: settle_body_def dest: settle_in_tx_frame)

interpretation ensure_account_op: fenced_operation "ensure_budget_account rec" for rec
  unfolding ensure_budget_account_def
  by (rule write_tx_fenced, rule body_keeps_hostsI) (auto dest: ensure_account_frame budget_frame_hosts)

interpretation reserve_op: fenced_operation "reserve_budget r" for r
  unfolding reserve_budget_def
  by (rule write_tx_fenced, rule body_keeps_hostsI) (auto dest: reserve_frame budget_frame_hosts)

interpretation release_op: fenced_operation "release_budget_reservation i" for i
  unfolding release_budget_reservation_def
  by (rule write_tx_fenced, rule body_keeps_hostsI) (auto dest: release_frame budget_frame_hosts)

interpretation settle_op: fenced_operation "settle_budget_reservation s" for s
  unfolding settle_budget_reservation_def
  by (rule write_tx_fenced, rule body_keeps_hostsI) (auto dest: settle_frame budget_frame_hosts)

section \<open>Settlement and reservation are idempotent\<close>

lemma reservation_by_id_set:
  assumes "keyed br_id (db_reservations d)" and "reservation_by_id i d = Some r"
    and "\<And>x. br_id (f x) = br_id x"
  shows "reservation_by_id i (set_reservation i (br_revision r) f d) = Some (f r)"
  using assms by (simp add: set_reservation_key reservation_by_id_def sel_upd_key)

lemma settle_again:
  assumes inv: "budget_inv d" and settle: "settle_in_tx s d = Inr (a, d')"
  shows "reservation_by_id (bs_reservation_id s) d' = Some a" "br_settled a = bs_measured s"
    "br_state a \<noteq> Reserved"
proof -
  have keyed: "keyed br_id (db_reservations d)" using inv by (simp add: budget_inv_def)
  from settle have "reservation_by_id (bs_reservation_id s) d' = Some a \<and> br_settled a = bs_measured s \<and>
    br_state a \<noteq> Reserved"
  proof (cases rule: settle_in_txD)
    case (settled r d1 delta)
    have "db_reservations d1 = db_reservations d"
      using settled(4) by (auto simp: charge_chain_def split: sum.splits)
    then have "keyed br_id (db_reservations d1)" "reservation_by_id (bs_reservation_id s) d1 = Some r"
      using keyed settled(1) by (simp_all add: reservation_by_id_def)
    from reservation_by_id_set [OF this, of "settled_row (bs_measured s)"] settled(5,6)
    show ?thesis by (simp add: settled_row_def)
  qed simp
  then show "reservation_by_id (bs_reservation_id s) d' = Some a" "br_settled a = bs_measured s"
    "br_state a \<noteq> Reserved" by simp_all
qed

lemma settle_in_tx_closed:
  assumes "reservation_by_id (bs_reservation_id s) d = Some a" and "br_state a \<noteq> Reserved"
  shows "settle_in_tx s d = (if br_settled a \<noteq> bs_measured s then Inl IdempotencyConflict else Inr (a, d))"
  using assms by (cases "br_state a") (simp_all add: settle_in_tx_def)

text \<open>
  Settling is idempotent: settling the same reservation again with the same usage returns
  the stored record and writes nothing, and with any other usage it is a conflict that writes
  nothing, so no usage is ever charged twice.
\<close>

theorem settle_once:
  assumes "budget_inv (s_db s)" and "settle_budget_reservation x s = (Inr a, s')"
  shows "settle_budget_reservation x s' = (Inr a, s') \<and>
    (\<forall>m. m \<noteq> bs_measured x \<longrightarrow>
      settle_budget_reservation (x\<lparr>bs_measured := m\<rparr>) s' = (Inl IdempotencyConflict, s'))"
  using assms(2) unfolding settle_budget_reservation_def
proof (cases rule: write_tx_InrE)
  case (committed_at f d p)
  then have settle: "settle_in_tx x (s_db s) = Inr (a, d)" and p: "p = BeforeBudgetSettleCommit"
    by (auto simp: settle_body_def bind_res_Inr)
  note again = settle_again [OF assms(1) settle]
  have "may_write s'"
    using settle_op.keeps_may_write [of x s] assms(2) committed_at(1,2) by (simp add: may_write_body)
  then have f': "s_writer s' = Some f" "assert_fence_in_tx f (s_db s') = Inr ()"
    using committed_at(1,5) by (auto simp: may_write_body)
  have "s_faults s' = s_faults s" "s_db s' = d" "s'\<lparr>s_faults := s_faults s' - {p}, s_db := d\<rparr> = s'"
    using committed_at(4,5) by (cases s; simp)+
  with committed_at(4) again p show "write_tx (settle_body x) s' = (Inr a, s') \<and>
    (\<forall>m. m \<noteq> bs_measured x \<longrightarrow> write_tx (settle_body (x\<lparr>bs_measured := m\<rparr>)) s' = (Inl IdempotencyConflict, s'))"
    unfolding write_tx_authorised [OF f']
    by (simp add: settle_body_def settle_in_tx_closed bind_res_def)
qed (auto simp: settle_body_def bind_res_Inr)

text \<open>An account with one open reservation of 30 tokens.\<close>

definition sample_reservation :: reservation where
  "sample_reservation = \<lparr>br_id = ''res'', br_budget_id = ''task'', br_operation_id = ''op'',
    br_origin = ''step'', br_bound = 30, br_settled = None, br_state = Reserved, br_revision = 1\<rparr>"

definition sample_account :: budget_account where
  "sample_account = \<lparr>ba_id = ''task'', ba_parent = None, ba_limit = 100, ba_spent = 30, ba_revision = 2\<rparr>"

definition sample_db :: db where
  "sample_db = empty_db\<lparr>db_epoch := Some 1, db_hosts := [''host'' \<mapsto> 1],
    db_accounts := [sample_account], db_reservations := [sample_reservation]\<rparr>"

definition sample_store :: store where
  "sample_store = \<lparr>s_writer = Some \<lparr>hf_host_id = ''host'', hf_generation = 1\<rparr>, s_faults = {}, s_db = sample_db\<rparr>"

lemmas sample_defs = sample_reservation_def sample_account_def sample_db_def sample_store_def empty_db_def

lemma sample_budget_inv: "budget_inv sample_db"
  by (simp add: sample_defs budget_inv_def account_tree_def shape_def keyed_def reservation_ok_def
    accounts_exact_def ledger_def holding_def held_def chain_def account_by_id_def sel_Cons i64_max_def)

lemma sample_fence: "assert_fence_in_tx \<lparr>hf_host_id = ''host'', hf_generation = 1\<rparr> sample_db = Inr ()"
  by (simp add: assert_fence_iff sample_defs i64_max_def)

lemma sample_settle:
  "settle_budget_reservation \<lparr>bs_reservation_id = ''res'', bs_measured = Some 20\<rparr> sample_store =
    (Inr (sample_reservation\<lparr>br_state := Settled, br_settled := Some 20, br_revision := 2\<rparr>),
     sample_store\<lparr>s_db := sample_db\<lparr>db_accounts := [sample_account\<lparr>ba_spent := 20, ba_revision := 3\<rparr>],
       db_reservations := [sample_reservation\<lparr>br_state := Settled, br_settled := Some 20, br_revision := 2\<rparr>]\<rparr>\<rparr>)"
proof -
  have tx: "write_tx body sample_store = end_tx (body \<lparr>hf_host_id = ''host'', hf_generation = 1\<rparr> sample_db) sample_store"
    for body :: "reservation body"
    using write_tx_authorised [of sample_store "\<lparr>hf_host_id = ''host'', hf_generation = 1\<rparr>" body] sample_fence
    by (simp add: sample_store_def)
  have charge: "charge_chain ''task'' (- 10) sample_db =
      Inr (sample_db\<lparr>db_accounts := [sample_account\<lparr>ba_spent := 20, ba_revision := 3\<rparr>]\<rparr>)"
    by (simp add: charge_chain_def sample_defs account_by_id_def sel_Cons Let_def affected_def upd_Cons
      i64_max_def u64_max_def)
  have row: "reservation_by_id ''res'' sample_db = Some sample_reservation"
    by (simp add: reservation_by_id_def sel_Cons sample_defs)
  have "settle_in_tx \<lparr>bs_reservation_id = ''res'', bs_measured = Some 20\<rparr> sample_db =
      Inr (sample_reservation\<lparr>br_state := Settled, br_settled := Some 20, br_revision := 2\<rparr>,
        sample_db\<lparr>db_accounts := [sample_account\<lparr>ba_spent := 20, ba_revision := 3\<rparr>],
          db_reservations := [sample_reservation\<lparr>br_state := Settled, br_settled := Some 20, br_revision := 2\<rparr>]\<rparr>)"
    unfolding settle_in_tx_def using charge row
    by (simp add: sample_reservation_def Let_def to_i64_def i64_max_def affected_def set_reservation_def
      upd_Cons sample_db_def)
  then show ?thesis unfolding settle_budget_reservation_def tx
    by (simp add: settle_body_def sample_store_def)
qed

theorem settle_once_witness:
  "\<exists>s'. fst (settle_budget_reservation \<lparr>bs_reservation_id = ''res'', bs_measured = Some 20\<rparr> sample_store) =
      Inr (sample_reservation\<lparr>br_state := Settled, br_settled := Some 20, br_revision := 2\<rparr>) \<and>
    settle_budget_reservation \<lparr>bs_reservation_id = ''res'', bs_measured = Some 25\<rparr> s' = (Inl IdempotencyConflict, s')"
proof -
  let ?x = "\<lparr>bs_reservation_id = ''res'', bs_measured = Some (20::nat)\<rparr>"
  let ?s' = "snd (settle_budget_reservation ?x sample_store)"
  have "budget_inv (s_db sample_store)" using sample_budget_inv by (simp add: sample_store_def)
  from settle_once [OF this sample_settle] have
    "\<forall>m. m \<noteq> Some 20 \<longrightarrow> settle_budget_reservation (?x\<lparr>bs_measured := m\<rparr>) ?s' = (Inl IdempotencyConflict, ?s')"
    by (simp add: sample_settle)
  from this [rule_format, of "Some 25"] sample_settle show ?thesis by (intro exI [of _ ?s']) simp
qed

end
