(* ===== verification/Run_Store.thy ===== *)
theory Run_Store imports Budget_Store begin

text \<open>
  Runs and their steps in \<^verbatim>\<open>crates/harness-store-sqlite/src/store/run.rs\<close>: one run per
  admitted input, steps frozen together with their budget reservation under the run's revision,
  and the settlements that close a step with its reservation or its command.
\<close>

section \<open>Runs\<close>

definition run_by_id :: "ident \<Rightarrow> db \<Rightarrow> run_record option" where
  "run_by_id r d = sel (\<lambda>x. run_id x = r) (db_runs d)"

definition run_by_input :: "ident \<Rightarrow> db \<Rightarrow> run_record option" where
  "run_by_input i d = sel (\<lambda>x. run_input_id x = i) (db_runs d)"

definition latest_run :: "ident \<Rightarrow> db \<Rightarrow> run_record option" where
  "latest_run session d = sel (\<lambda>x. run_session_id x = session) (rev (db_runs d))"

text \<open>\<open>fresh\<close> is the identifier \<^verbatim>\<open>AgentRunId::generate\<close> returns.\<close>

definition start_run_body :: "ident \<Rightarrow> ident \<Rightarrow> ident \<Rightarrow> ident \<Rightarrow> ident option \<Rightarrow> run_record body" where
  "start_run_body fresh session task input budget f d = (case to_i64 (hf_generation f) of
      Inl e \<Rightarrow> Inl e
    | Inr g \<Rightarrow>
        bind_res
          (if run_by_input input d \<noteq> None then Inr d
           else if run_by_id fresh d \<noteq> None then Inl StorageWriteFailed
           else Inr (d\<lparr>db_runs := db_runs d @ [\<lparr>run_id = fresh, run_session_id = session,
             run_task_id = task, run_input_id = input, run_st = RunRunning, run_acceptance = None,
             run_stop_reason = None, run_owner_generation = g, run_revision = 1,
             run_budget_id = budget, run_awaiting = None\<rparr>]\<rparr>)) (\<lambda>d.
        case run_by_input input d of
          None \<Rightarrow> Inl StorageWriteFailed
        | Some rec \<Rightarrow>
            if run_session_id rec \<noteq> session \<or> run_task_id rec \<noteq> task then Inl IdempotencyConflict
            else if (run_st rec = RunRunning \<or> run_st rec = RunPaused) \<and> run_owner_generation rec \<noteq> hf_generation f
            then
              let hit = (\<lambda>x. run_id x = run_id rec \<and> run_owner_generation x = run_owner_generation rec) in
              if affected hit (db_runs d) \<noteq> 1 then Inl StaleWriter
              else Inr (Commit (rec\<lparr>run_owner_generation := hf_generation f\<rparr>)
                (d\<lparr>db_runs := upd hit (\<lambda>x. x\<lparr>run_owner_generation := g\<rparr>) (db_runs d)\<rparr>))
            else Inr (Commit rec d)))"

definition start_run ::
  "ident \<Rightarrow> ident \<Rightarrow> ident \<Rightarrow> ident \<Rightarrow> ident option \<Rightarrow> store \<Rightarrow> run_record res \<times> store" where
  "start_run fresh session task input budget = write_tx (start_run_body fresh session task input budget)"

section \<open>Steps\<close>

definition run_steps :: "ident \<Rightarrow> db \<Rightarrow> run_step list" where
  "run_steps r d = sort_key st_index (filter (\<lambda>x. st_run_id x = r) (db_steps d))"

definition run_step_count :: "ident \<Rightarrow> db \<Rightarrow> nat" where
  "run_step_count r d = length (filter (\<lambda>x. st_run_id x = r) (db_steps d))"

text \<open>The primary key and the two unique indexes of \<^verbatim>\<open>run_steps\<close>.\<close>

definition step_conflicts :: "run_step \<Rightarrow> run_step \<Rightarrow> bool" where
  "step_conflicts s x \<longleftrightarrow> st_step_id x = st_step_id s \<or>
    (st_run_id x = st_run_id s \<and> st_index x = st_index s) \<or> st_request_id x = st_request_id s"

definition insert_step :: "run_step \<Rightarrow> db \<Rightarrow> db res" where
  "insert_step s d = (case to_i64 (st_source_sequence s) of
      Inl e \<Rightarrow> Inl e
    | Inr n \<Rightarrow>
        if sel (step_conflicts s) (db_steps d) \<noteq> None then Inl StorageWriteFailed
        else Inr (d\<lparr>db_steps := db_steps d @ [s\<lparr>st_source_sequence := n, st_stop_reason := None\<rparr>]\<rparr>))"

text \<open>The reservation of a step: inserted and charged, or already there with the same terms.\<close>

definition reserve_for_step :: "reservation \<Rightarrow> db \<Rightarrow> db res" where
  "reserve_for_step r d = bind_res (insert_reservation r d) (\<lambda>(inserted, d).
    if inserted then charge_chain (br_budget_id r) (int (br_bound r)) d
    else case reservation_by_operation (br_operation_id r) d of
      None \<Rightarrow> Inl StorageWriteFailed
    | Some existing \<Rightarrow>
        if br_budget_id existing \<noteq> br_budget_id r \<or> br_bound existing \<noteq> br_bound r
        then Inl IdempotencyConflict else Inr d)"

definition freeze_run_step_body :: "ident \<Rightarrow> nat \<Rightarrow> run_step \<Rightarrow> reservation option \<Rightarrow> run_record body" where
  "freeze_run_step_body r expected step reservation f d = (case run_by_id r d of
      None \<Rightarrow> Inl InvalidPayload
    | Some current \<Rightarrow>
        if run_owner_generation current \<noteq> hf_generation f then Inl StaleWriter
        else if run_st current \<noteq> RunRunning then Inl InvalidStateTransition
        else if run_revision current \<noteq> expected then Inl SequenceConflict
        else if st_run_id step \<noteq> r then Inl InvalidPayload
        else
          bind_res (case reservation of None \<Rightarrow> Inr d | Some res \<Rightarrow> reserve_for_step res d) (\<lambda>d.
          bind_res (insert_step step d) (\<lambda>d.
          bind_res (to_i64 expected) (\<lambda>expected.
          let hit = (\<lambda>x. run_id x = r \<and> run_revision x = expected) in
          if affected hit (db_runs d) \<noteq> 1 then Inl SequenceConflict
          else Inr (CommitAt BeforeFreezeStepCommit (current\<lparr>run_revision := run_revision current + 1\<rparr>)
            (d\<lparr>db_runs := upd hit (\<lambda>x. x\<lparr>run_revision := run_revision x + 1\<rparr>) (db_runs d)\<rparr>))))))"

definition freeze_run_step ::
  "ident \<Rightarrow> nat \<Rightarrow> run_step \<Rightarrow> reservation option \<Rightarrow> store \<Rightarrow> run_record res \<times> store" where
  "freeze_run_step r expected step reservation = write_tx (freeze_run_step_body r expected step reservation)"

text \<open>
  \<^verbatim>\<open>settle_run_step_in_tx\<close> up to its fault point, which the two operations below meet right
  before their commit.
\<close>

definition settle_run_step_in_tx ::
  "ident \<Rightarrow> string \<Rightarrow> string option \<Rightarrow> budget_settlement option \<Rightarrow> db \<Rightarrow> db res" where
  "settle_run_step_in_tx step state stop_reason settlement d =
    (if affected (\<lambda>x. st_step_id x = step) (db_steps d) \<noteq> 1 then Inl InvalidPayload
     else let d1 = d\<lparr>db_steps := upd (\<lambda>x. st_step_id x = step)
            (\<lambda>x. x\<lparr>st_state := state, st_stop_reason := stop_reason\<rparr>) (db_steps d)\<rparr> in
       case settlement of
         None \<Rightarrow> Inr d1
       | Some s \<Rightarrow> bind_res (settle_in_tx s d1) (\<lambda>(_, d2). Inr d2))"

definition settle_run_step_body ::
  "ident \<Rightarrow> string \<Rightarrow> string option \<Rightarrow> budget_settlement option \<Rightarrow> unit body" where
  "settle_run_step_body step state stop_reason settlement f d =
    bind_res (settle_run_step_in_tx step state stop_reason settlement d) (\<lambda>d.
    Inr (CommitAt BeforeBudgetSettleCommit () d))"

definition settle_run_step ::
  "ident \<Rightarrow> string \<Rightarrow> string option \<Rightarrow> budget_settlement option \<Rightarrow> store \<Rightarrow> unit res \<times> store" where
  "settle_run_step step state stop_reason settlement =
    write_tx (settle_run_step_body step state stop_reason settlement)"

definition complete_settling_body ::
  "ident \<Rightarrow> nat \<Rightarrow> runtime_command_state \<Rightarrow> ident \<Rightarrow> string \<Rightarrow> unit body" where
  "complete_settling_body c owner_generation command_state step step_state f d =
    bind_res (complete_runtime_command_in_tx c owner_generation command_state None d) (\<lambda>d.
    bind_res (settle_run_step_in_tx step step_state None None d) (\<lambda>d.
    Inr (CommitAt BeforeBudgetSettleCommit () d)))"

definition complete_runtime_command_settling_step ::
  "ident \<Rightarrow> nat \<Rightarrow> runtime_command_state \<Rightarrow> ident \<Rightarrow> string \<Rightarrow> store \<Rightarrow> unit res \<times> store" where
  "complete_runtime_command_settling_step c owner_generation command_state step step_state =
    write_tx (complete_settling_body c owner_generation command_state step step_state)"

section \<open>Finishing\<close>

definition finish_run_body ::
  "ident \<Rightarrow> nat \<Rightarrow> run_state \<Rightarrow> string option \<Rightarrow> string option \<Rightarrow> ident option \<Rightarrow> run_record body" where
  "finish_run_body r expected state acceptance stop_reason awaiting f d = (case run_by_id r d of
      None \<Rightarrow> Inl InvalidPayload
    | Some current \<Rightarrow>
        if run_owner_generation current \<noteq> hf_generation f then Inl StaleWriter
        else if run_revision current \<noteq> expected then Inl SequenceConflict
        else bind_res (to_i64 expected) (\<lambda>expected.
          let hit = (\<lambda>x. run_id x = r \<and> run_revision x = expected);
              finish = (\<lambda>x. x\<lparr>run_st := state, run_acceptance := acceptance, run_stop_reason := stop_reason,
                run_awaiting := awaiting, run_revision := run_revision x + 1\<rparr>) in
          if affected hit (db_runs d) \<noteq> 1 then Inl SequenceConflict
          else Inr (Commit (finish current) (d\<lparr>db_runs := upd hit finish (db_runs d)\<rparr>))))"

definition finish_run ::
  "ident \<Rightarrow> nat \<Rightarrow> run_state \<Rightarrow> string option \<Rightarrow> string option \<Rightarrow> ident option \<Rightarrow> store \<Rightarrow> run_record res \<times> store" where
  "finish_run r expected state acceptance stop_reason awaiting =
    write_tx (finish_run_body r expected state acceptance stop_reason awaiting)"

section \<open>Frames\<close>

text \<open>What a run transaction may write: runs, steps, the budget tables and runtime commands.\<close>

definition run_frame :: "db \<Rightarrow> db \<Rightarrow> bool" where
  "run_frame d d' \<longleftrightarrow> same_hosts d d' \<and> db_sessions d' = db_sessions d \<and> db_leases d' = db_leases d \<and>
    db_events d' = db_events d \<and> db_inbox d' = db_inbox d \<and> db_projections d' = db_projections d \<and>
    db_markers d' = db_markers d \<and> db_lineage d' = db_lineage d \<and> db_questions d' = db_questions d \<and>
    db_run_commands d' = db_run_commands d \<and> db_acceptances d' = db_acceptances d \<and>
    same_tools d d'"

lemma run_frame_hosts: "run_frame d d' \<Longrightarrow> same_hosts d d'"
  by (simp add: run_frame_def)

lemma run_frame_trans: "run_frame d d1 \<Longrightarrow> run_frame d1 d2 \<Longrightarrow> run_frame d d2"
  by (simp add: run_frame_def same_hosts_def same_tools_def)

lemma run_frame_one [simp]:
  "run_frame d d" "run_frame d (d\<lparr>db_runs := rs\<rparr>)" "run_frame d (d\<lparr>db_steps := ss\<rparr>)"
  "run_frame d (d\<lparr>db_runtime_commands := cs\<rparr>)"
  by (simp_all add: run_frame_def same_hosts_def same_tools_def)

lemma budget_run_frame: "budget_frame d d' \<Longrightarrow> run_frame d d'"
  by (auto simp: budget_frame_def run_frame_def same_hosts_def same_tools_def)

lemma start_run_frame: "commits (start_run_body r s t i b f d) d' \<Longrightarrow> run_frame d d'"
  by (auto simp: start_run_body_def Let_def split: sum.splits option.splits if_splits
    intro: run_frame_trans [OF run_frame_one(2) run_frame_one(2)])

lemma reserve_for_step_frame: "reserve_for_step r d = Inr d' \<Longrightarrow> budget_frame d d'"
  by (auto simp: reserve_for_step_def bind_res_Inr split: option.splits if_splits
    dest!: budget_frame_steps elim: budget_frame_trans)

lemma insert_step_frame: "insert_step s d = Inr d' \<Longrightarrow> \<exists>ss. d' = d\<lparr>db_steps := ss\<rparr>"
  by (auto simp: insert_step_def split: sum.splits if_splits)

lemma insert_stepD:
  "insert_step s d = Inr d' \<Longrightarrow> sel (step_conflicts s) (db_steps d) = None \<and>
    d' = d\<lparr>db_steps := db_steps d @ [s\<lparr>st_stop_reason := None\<rparr>]\<rparr>"
  by (cases s) (auto simp: insert_step_def to_i64_def split: if_splits)

text \<open>A freeze takes the reservation, then the step, then the revision.\<close>

lemma freeze_bodyE:
  assumes "commits (freeze_run_step_body r n step res f d) d'"
  obtains cur d1 where "run_by_id r d = Some cur" "run_owner_generation cur = hf_generation f"
    "run_st cur = RunRunning" "run_revision cur = n" "st_run_id step = r" "n \<le> i64_max"
    "(case res of None \<Rightarrow> Inr d | Some x \<Rightarrow> reserve_for_step x d) = Inr d1"
    "sel (step_conflicts step) (db_steps d1) = None"
    "d' = d1\<lparr>db_steps := db_steps d1 @ [step\<lparr>st_stop_reason := None\<rparr>],
      db_runs := upd (\<lambda>x. run_id x = r \<and> run_revision x = n) (\<lambda>x. x\<lparr>run_revision := run_revision x + 1\<rparr>) (db_runs d1)\<rparr>"
proof -
  from assms obtain cur d1 d2 where facts: "run_by_id r d = Some cur" "run_owner_generation cur = hf_generation f"
    "run_st cur = RunRunning" "run_revision cur = n" "st_run_id step = r" "n \<le> i64_max"
    and res: "(case res of None \<Rightarrow> Inr d | Some x \<Rightarrow> reserve_for_step x d) = Inr d1"
    and step: "insert_step step d1 = Inr d2"
    and d': "d' = d2\<lparr>db_runs := upd (\<lambda>x. run_id x = r \<and> run_revision x = n)
      (\<lambda>x. x\<lparr>run_revision := run_revision x + 1\<rparr>) (db_runs d2)\<rparr>"
    unfolding freeze_run_step_body_def Let_def by (auto split: option.split_asm if_split_asm)
  from insert_stepD [OF step] d' that [OF facts res] show thesis by simp
qed

lemma reserve_opt_frame:
  "(case res of None \<Rightarrow> Inr d | Some x \<Rightarrow> reserve_for_step x d) = Inr d1 \<Longrightarrow> budget_frame d d1"
  by (auto split: option.splits dest: reserve_for_step_frame)

lemma freeze_frame: "commits (freeze_run_step_body r n step res f d) d' \<Longrightarrow> run_frame d d'"
proof (erule freeze_bodyE)
  fix cur d1
  assume res: "(case res of None \<Rightarrow> Inr d | Some x \<Rightarrow> reserve_for_step x d) = Inr d1"
    and d': "d' = d1\<lparr>db_steps := db_steps d1 @ [step\<lparr>st_stop_reason := None\<rparr>],
      db_runs := upd (\<lambda>x. run_id x = r \<and> run_revision x = n) (\<lambda>x. x\<lparr>run_revision := run_revision x + 1\<rparr>) (db_runs d1)\<rparr>"
  from budget_run_frame [OF reserve_opt_frame [OF res]] show ?thesis
    by (simp add: d' run_frame_def same_hosts_def same_tools_def)
qed

lemma settle_run_step_in_txD:
  "settle_run_step_in_tx step state reason x d = Inr d' \<Longrightarrow> \<exists>ss d1. d1 = d\<lparr>db_steps := ss\<rparr> \<and>
    map st_step_id ss = map st_step_id (db_steps d) \<and> map st_run_id ss = map st_run_id (db_steps d) \<and>
    map st_index ss = map st_index (db_steps d) \<and> map st_request_id ss = map st_request_id (db_steps d) \<and>
    (case x of None \<Rightarrow> d' = d1 | Some y \<Rightarrow> \<exists>a. settle_in_tx y d1 = Inr (a, d'))"
  by (rule exI [of _ "upd (\<lambda>x. st_step_id x = step) (\<lambda>x. x\<lparr>st_state := state, st_stop_reason := reason\<rparr>) (db_steps d)"])
    (auto simp: settle_run_step_in_tx_def Let_def bind_res_Inr map_upd_same split: option.splits if_splits)

lemma settle_run_step_in_tx_frame: "settle_run_step_in_tx step state reason x d = Inr d' \<Longrightarrow> run_frame d d'"
  by (auto dest!: settle_run_step_in_txD settle_in_tx_frame budget_run_frame
    split: option.splits intro: run_frame_trans [OF run_frame_one(3)])

lemma settle_run_step_frame: "commits (settle_run_step_body step state reason x f d) d' \<Longrightarrow> run_frame d d'"
  by (auto simp: settle_run_step_body_def dest: settle_run_step_in_tx_frame)

lemma complete_settling_frame: "commits (complete_settling_body c g cs step st f d) d' \<Longrightarrow> run_frame d d'"
  by (auto simp: complete_settling_body_def dest!: complete_in_tx_frame settle_run_step_in_tx_frame
    intro: run_frame_trans [OF run_frame_one(4)])

lemma finish_run_frame: "commits (finish_run_body r n st acc reason q f d) d' \<Longrightarrow> run_frame d d'"
  by (auto simp: finish_run_body_def Let_def split: option.splits if_splits)

interpretation start_run_op: fenced_operation "start_run r s t i b" for r s t i b
  unfolding start_run_def
  by (rule write_tx_fenced, rule body_keeps_hostsI) (auto dest: start_run_frame run_frame_hosts)

interpretation freeze_op: fenced_operation "freeze_run_step r n step res" for r n step res
  unfolding freeze_run_step_def
  by (rule write_tx_fenced, rule body_keeps_hostsI) (auto dest: freeze_frame run_frame_hosts)

interpretation settle_step_op: fenced_operation "settle_run_step step state reason x" for step state reason x
  unfolding settle_run_step_def
  by (rule write_tx_fenced, rule body_keeps_hostsI) (auto dest: settle_run_step_frame run_frame_hosts)

interpretation complete_settling_op: fenced_operation "complete_runtime_command_settling_step c g cs step st"
  for c g cs step st
  unfolding complete_runtime_command_settling_step_def
  by (rule write_tx_fenced, rule body_keeps_hostsI) (auto dest: complete_settling_frame run_frame_hosts)

interpretation finish_op: fenced_operation "finish_run r n st acc reason q" for r n st acc reason q
  unfolding finish_run_def
  by (rule write_tx_fenced, rule body_keeps_hostsI) (auto dest: finish_run_frame run_frame_hosts)

section \<open>The budget ledger through run transactions\<close>

lemma reserve_for_step_inv:
  assumes inv: "budget_inv d" and res: "reserve_for_step r d = Inr d'"
  shows "budget_inv d'"
proof -
  from res obtain inserted d1 where ins: "insert_reservation r d = Inr (inserted, d1)"
    and rest: "(if inserted then charge_chain (br_budget_id r) (int (br_bound r)) d1 = Inr d' else d' = d1)"
    by (auto simp: reserve_for_step_def bind_res_Inr split: option.splits if_splits)
  show ?thesis
  proof (cases inserted)
    case True
    with ins rest inv show ?thesis by (auto intro: budget_inv_reserved)
  next
    case False
    with ins rest inv show ?thesis by (auto elim: insert_reservationD)
  qed
qed

lemma start_run_budget: "commits (start_run_body r s t i b f d) d' \<Longrightarrow> budget_inv d \<Longrightarrow> budget_inv d'"
  by (auto simp: start_run_body_def Let_def budget_inv_def split: sum.splits option.splits if_splits)

lemma freeze_budget:
  assumes "commits (freeze_run_step_body r n step res f d) d'" and inv: "budget_inv d"
  shows "budget_inv d'"
  using assms(1)
proof (rule freeze_bodyE)
  fix cur d1
  assume "(case res of None \<Rightarrow> Inr d | Some x \<Rightarrow> reserve_for_step x d) = Inr d1"
  with inv have "budget_inv d1" by (auto split: option.splits intro: reserve_for_step_inv)
  moreover assume "d' = d1\<lparr>db_steps := db_steps d1 @ [step\<lparr>st_stop_reason := None\<rparr>],
      db_runs := upd (\<lambda>x. run_id x = r \<and> run_revision x = n) (\<lambda>x. x\<lparr>run_revision := run_revision x + 1\<rparr>) (db_runs d1)\<rparr>"
  ultimately show ?thesis by (simp add: budget_inv_def)
qed

lemma settle_run_step_in_tx_budget:
  assumes "settle_run_step_in_tx step state reason x d = Inr d'" and inv: "budget_inv d"
  shows "budget_inv d'"
proof -
  from settle_run_step_in_txD [OF assms(1)] obtain ss where
    "case x of None \<Rightarrow> d' = d\<lparr>db_steps := ss\<rparr> | Some y \<Rightarrow> \<exists>a. settle_in_tx y (d\<lparr>db_steps := ss\<rparr>) = Inr (a, d')"
    by auto
  moreover have "budget_inv (d\<lparr>db_steps := ss\<rparr>)" using inv by (simp add: budget_inv_def)
  ultimately show ?thesis by (auto split: option.splits intro: settle_in_tx_inv)
qed

lemma settle_run_step_budget:
  "commits (settle_run_step_body step state reason x f d) d' \<Longrightarrow> budget_inv d \<Longrightarrow> budget_inv d'"
  by (auto simp: settle_run_step_body_def intro: settle_run_step_in_tx_budget)

lemma complete_settling_budget:
  assumes "commits (complete_settling_body c g cs step st f d) d'" and inv: "budget_inv d"
  shows "budget_inv d'"
proof -
  from assms(1) obtain d1 where com: "complete_runtime_command_in_tx c g cs None d = Inr d1"
    and settle: "settle_run_step_in_tx step st None None d1 = Inr d'"
    by (auto simp: complete_settling_body_def)
  from complete_in_tx_frame [OF com] inv have "budget_inv d1" by (auto simp: budget_inv_def)
  with settle show ?thesis by (rule settle_run_step_in_tx_budget)
qed

lemma finish_run_budget: "commits (finish_run_body r n st acc reason q f d) d' \<Longrightarrow> budget_inv d \<Longrightarrow> budget_inv d'"
  by (auto simp: finish_run_body_def Let_def budget_inv_def split: option.splits if_splits)

section \<open>Runs keep their identity and their history\<close>

text \<open>The keys of the two tables, and every step's run.\<close>

definition runs_inv :: "db \<Rightarrow> bool" where
  "runs_inv d \<longleftrightarrow> keyed run_id (db_runs d) \<and> keyed run_input_id (db_runs d) \<and>
    keyed st_step_id (db_steps d) \<and> keyed st_request_id (db_steps d) \<and>
    keyed (\<lambda>x. (st_run_id x, st_index x)) (db_steps d) \<and>
    st_run_id ` set (db_steps d) \<subseteq> run_id ` set (db_runs d)"

lemma runs_inv_cong: "db_runs d' = db_runs d \<Longrightarrow> db_steps d' = db_steps d \<Longrightarrow> runs_inv d' = runs_inv d"
  by (simp add: runs_inv_def)

lemma runs_inv_empty: "runs_inv empty_db"
  by (simp add: runs_inv_def empty_db_def)

text \<open>No run disappears, and its revision only grows.\<close>

definition runs_later :: "db \<Rightarrow> db \<Rightarrow> bool" where
  "runs_later d d' \<longleftrightarrow> (\<forall>r x. run_by_id r d = Some x \<longrightarrow>
    (\<exists>y. run_by_id r d' = Some y \<and> run_revision x \<le> run_revision y))"

lemma runs_later_refl [simp]: "runs_later d d"
  by (simp add: runs_later_def)

lemma runs_later_trans: "runs_later d d1 \<Longrightarrow> runs_later d1 d2 \<Longrightarrow> runs_later d d2"
  unfolding runs_later_def by (meson le_trans)

lemma runs_later_cong: "db_runs d1 = db_runs d2 \<Longrightarrow> runs_later d d1 = runs_later d d2"
  by (simp add: runs_later_def run_by_id_def)

lemma runs_later_same: "db_runs d' = db_runs d \<Longrightarrow> runs_later d d'"
  using runs_later_cong [of d' d d] by simp

lemma runs_later_upd:
  assumes "\<And>x. run_id (g x) = run_id x" "\<And>x. run_revision x \<le> run_revision (g x)"
    and d': "db_runs d' = upd P g (db_runs d)"
  shows "runs_later d d'"
proof -
  have "run_by_id r d' = map_option (\<lambda>x. if P x then g x else x) (run_by_id r d)" for r
    unfolding run_by_id_def d' by (rule sel_upd) (simp add: assms(1))
  with assms(2) show ?thesis by (auto simp: runs_later_def)
qed

lemma runs_later_snoc: "db_runs d' = db_runs d @ rs \<Longrightarrow> runs_later d d'"
  by (auto simp: runs_later_def run_by_id_def sel_append)

lemma runs_inv_upd:
  assumes "runs_inv d" "\<And>x. run_id (g x) = run_id x" "\<And>x. run_input_id (g x) = run_input_id x"
    and "db_runs d' = upd P g (db_runs d)" and "db_steps d' = db_steps d"
  shows "runs_inv d'"
proof -
  have "map run_id (upd P g (db_runs d)) = map run_id (db_runs d)" by (rule map_upd_same) (rule assms(2))
  then have "run_id ` set (upd P g (db_runs d)) = run_id ` set (db_runs d)" by (metis list.set_map)
  with assms show ?thesis by (simp add: runs_inv_def)
qed

lemma start_run_runs:
  assumes inv: "runs_inv d" and body: "commits (start_run_body r s t i b f d) d'"
  shows "runs_inv d' \<and> runs_later d d'"
proof -
  define x where "x = \<lparr>run_id = r, run_session_id = s, run_task_id = t, run_input_id = i,
    run_st = RunRunning, run_acceptance = None, run_stop_reason = None,
    run_owner_generation = hf_generation f, run_revision = 1, run_budget_id = b, run_awaiting = None\<rparr>"
  define d1 where "d1 = (if run_by_input i d \<noteq> None then d else d\<lparr>db_runs := db_runs d @ [x]\<rparr>)"
  from body have new: "run_by_input i d = None \<Longrightarrow> run_by_id r d = None"
    by (auto simp: start_run_body_def split: sum.splits if_splits)
  have ins: "(if run_by_input i d \<noteq> None then Inr d
      else if run_by_id r d \<noteq> None then Inl StorageWriteFailed
      else Inr (d\<lparr>db_runs := db_runs d @ [x]\<rparr>)) = (Inr d1 :: db res)"
    using new by (simp add: d1_def)
  from body have "to_i64 (hf_generation f) = Inr (hf_generation f)"
    by (auto simp: start_run_body_def split: sum.splits)
  note eq = start_run_body_def [of r s t i b f d, unfolded this sum.case ins [unfolded x_def] bind_res_simps]
  from body have d': "d' = d1 \<or> (\<exists>P g. d' = d1\<lparr>db_runs := upd P (\<lambda>x. x\<lparr>run_owner_generation := g\<rparr>) (db_runs d1)\<rparr>)"
    unfolding eq by (auto simp: Let_def split: option.splits if_splits)
  have one: "runs_inv d1 \<and> runs_later d d1"
  proof (cases "run_by_input i d = None")
    case True
    with new have "\<forall>y \<in> set (db_runs d). run_id y \<noteq> r \<and> run_input_id y \<noteq> i"
      by (auto simp: run_by_id_def run_by_input_def sel_None)
    with True inv have "runs_inv d1" by (auto simp: d1_def x_def runs_inv_def keyed_snoc)
    with True show ?thesis by (simp add: d1_def runs_later_snoc)
  next
    case False
    with inv show ?thesis by (simp add: d1_def)
  qed
  from d' show ?thesis
  proof
    assume "\<exists>P g. d' = d1\<lparr>db_runs := upd P (\<lambda>x. x\<lparr>run_owner_generation := g\<rparr>) (db_runs d1)\<rparr>"
    then obtain P g where d': "db_steps d' = db_steps d1"
      "db_runs d' = upd P (\<lambda>x. x\<lparr>run_owner_generation := g\<rparr>) (db_runs d1)" by auto
    have "runs_inv d'" by (rule runs_inv_upd [OF conjunct1 [OF one] _ _ d'(2,1)]) simp_all
    moreover have "runs_later d1 d'" by (rule runs_later_upd [OF _ _ d'(2)]) simp_all
    ultimately show ?thesis using one runs_later_trans by blast
  qed (use one in simp)
qed

lemma freeze_runs:
  assumes inv: "runs_inv d" and body: "commits (freeze_run_step_body r n step res f d) d'"
  shows "runs_inv d' \<and> runs_later d d'"
  using body
proof (rule freeze_bodyE)
  let ?g = "\<lambda>x. x\<lparr>run_revision := run_revision x + 1\<rparr>" and ?P = "\<lambda>x. run_id x = r \<and> run_revision x = n"
  fix cur d1
  assume cur: "run_by_id r d = Some cur" and own: "st_run_id step = r"
    and res: "(case res of None \<Rightarrow> Inr d | Some x \<Rightarrow> reserve_for_step x d) = Inr d1"
    and new: "sel (step_conflicts step) (db_steps d1) = None"
    and d': "d' = d1\<lparr>db_steps := db_steps d1 @ [step\<lparr>st_stop_reason := None\<rparr>], db_runs := upd ?P ?g (db_runs d1)\<rparr>"
  from reserve_opt_frame [OF res] have same: "db_runs d1 = db_runs d" "db_steps d1 = db_steps d"
    by (auto simp: budget_frame_def)
  have later: "runs_later d d'" by (rule runs_later_upd [of ?g d' ?P]) (simp_all add: d' same)
  have run: "r \<in> run_id ` set (db_runs d)"
    using cur unfolding run_by_id_def by (auto dest: sel_SomeD)
  have "runs_inv (d\<lparr>db_steps := db_steps d @ [step\<lparr>st_stop_reason := None\<rparr>]\<rparr>)"
    using inv new run own unfolding same by (auto simp: runs_inv_def keyed_snoc sel_None step_conflicts_def)
  then have "runs_inv d'" by (rule runs_inv_upd [of _ ?g d' ?P]) (simp_all add: d' same)
  with later show ?thesis by simp
qed

lemma settle_run_step_in_tx_runs:
  assumes inv: "runs_inv d" and settle: "settle_run_step_in_tx step state reason x d = Inr d'"
  shows "runs_inv d' \<and> db_runs d' = db_runs d"
proof -
  from settle_run_step_in_txD [OF settle] obtain ss d1 where d1: "d1 = d\<lparr>db_steps := ss\<rparr>"
    and keys: "map st_step_id ss = map st_step_id (db_steps d)" "map st_run_id ss = map st_run_id (db_steps d)"
      "map st_index ss = map st_index (db_steps d)" "map st_request_id ss = map st_request_id (db_steps d)"
    and d': "case x of None \<Rightarrow> d' = d1 | Some y \<Rightarrow> \<exists>a. settle_in_tx y d1 = Inr (a, d')" by blast
  have same: "db_runs d' = db_runs d" "db_steps d' = ss"
    using d' d1 by (auto split: option.splits dest!: settle_in_tx_frame simp: budget_frame_def)
  have "map (\<lambda>x. (st_run_id x, st_index x)) ss = map (\<lambda>x. (st_run_id x, st_index x)) (db_steps d)"
  proof -
    have pairs: "map (\<lambda>x. (st_run_id x, st_index x)) l = zip (map st_run_id l) (map st_index l)" for l
      by (induction l) simp_all
    show ?thesis by (simp only: pairs keys)
  qed
  moreover from keys(2) have "st_run_id ` set ss = st_run_id ` set (db_steps d)" by (metis list.set_map)
  ultimately show ?thesis using inv keys same by (simp add: runs_inv_def keyed_def)
qed

lemma settle_run_step_runs:
  "runs_inv d \<Longrightarrow> commits (settle_run_step_body step state reason x f d) d' \<Longrightarrow> runs_inv d' \<and> runs_later d d'"
  by (auto simp: settle_run_step_body_def dest: settle_run_step_in_tx_runs runs_later_same)

lemma complete_settling_runs:
  assumes inv: "runs_inv d" and "commits (complete_settling_body c g cs step st f d) d'"
  shows "runs_inv d' \<and> runs_later d d'"
proof -
  from assms(2) obtain d1 where com: "complete_runtime_command_in_tx c g cs None d = Inr d1"
    and settle: "settle_run_step_in_tx step st None None d1 = Inr d'"
    by (auto simp: complete_settling_body_def)
  from complete_in_tx_frame [OF com] have same: "db_runs d1 = db_runs d" "db_steps d1 = db_steps d" by auto
  with inv have "runs_inv d1" by (simp add: runs_inv_def)
  from settle_run_step_in_tx_runs [OF this settle] same show ?thesis by (simp add: runs_later_same)
qed

lemma finish_run_runs:
  assumes inv: "runs_inv d" and body: "commits (finish_run_body r n st acc reason q f d) d'"
  shows "runs_inv d' \<and> runs_later d d'"
proof -
  let ?g = "\<lambda>x. x\<lparr>run_st := st, run_acceptance := acc, run_stop_reason := reason,
                run_awaiting := q, run_revision := run_revision x + 1\<rparr>"
  let ?P = "\<lambda>x. run_id x = r \<and> run_revision x = n"
  from body have d': "db_runs d' = upd ?P ?g (db_runs d)" "db_steps d' = db_steps d"
    by (auto simp: finish_run_body_def Let_def split: option.splits if_splits)
  have "runs_inv d'" by (rule runs_inv_upd [OF inv _ _ d']) simp_all
  moreover have "runs_later d d'" by (rule runs_later_upd [OF _ _ d'(1)]) simp_all
  ultimately show ?thesis by simp
qed

section \<open>Freezing is atomic, starting is idempotent\<close>

lemma freeze_result:
  "freeze_run_step_body r n step res f d = Inr t \<Longrightarrow> \<exists>cur d'. run_by_id r d = Some cur \<and>
    t = CommitAt BeforeFreezeStepCommit (cur\<lparr>run_revision := run_revision cur + 1\<rparr>) d'"
  unfolding freeze_run_step_body_def Let_def
  by (auto simp: bind_res_Inr split: option.split_asm if_split_asm)

lemma reserve_for_step_row:
  assumes "reserve_for_step x d = Inr d'"
  shows "\<exists>y. reservation_by_operation (br_operation_id x) d' = Some y \<and>
    br_budget_id y = br_budget_id x \<and> br_bound y = br_bound x"
proof -
  from assms obtain inserted d1 where ins: "insert_reservation x d = Inr (inserted, d1)"
    and rest: "if inserted then charge_chain (br_budget_id x) (int (br_bound x)) d1 = Inr d'
      else d' = d1 \<and> (\<exists>y. reservation_by_operation (br_operation_id x) d1 = Some y \<and>
        br_budget_id y = br_budget_id x \<and> br_bound y = br_bound x)"
    by (auto simp: reserve_for_step_def bind_res_Inr split: option.splits if_splits)
  show ?thesis
  proof (cases inserted)
    case True
    from rest True have "db_reservations d' = db_reservations d1"
      by (auto simp: charge_chain_def split: sum.splits)
    with ins True show ?thesis
      by (auto elim!: insert_reservationD simp: reservation_by_operation_def sel_append sel_Cons)
  next
    case False
    with rest show ?thesis by simp
  qed
qed

text \<open>
  Freezing a step is atomic: when it is acknowledged, the step, the reservation that pays
  for it and the run's next revision are all stored, the step once and the reservation on the
  caller's terms; when it fails, by any check or by a fault before the commit, none of the
  three is.
\<close>

theorem freeze_atomic:
  assumes "freeze_run_step r n step (Some x) s = (result, s')"
  shows "case result of
      Inl e \<Rightarrow> s_db s' = s_db s
    | Inr run \<Rightarrow> run_by_id r (s_db s') = Some run \<and> run_revision run = n + 1 \<and>
        db_steps (s_db s') = db_steps (s_db s) @ [step\<lparr>st_stop_reason := None\<rparr>] \<and>
        (\<exists>y. reservation_by_operation (br_operation_id x) (s_db s') = Some y \<and>
          br_budget_id y = br_budget_id x \<and> br_bound y = br_bound x)"
proof (cases result)
  case (Inl e)
  with freeze_op.error_keeps [of r n step "Some x" s e] assms show ?thesis by simp
next
  case (Inr run)
  with assms have "write_tx (freeze_run_step_body r n step (Some x)) s = (Inr run, s')"
    by (simp add: freeze_run_step_def)
  then obtain f d where body: "freeze_run_step_body r n step (Some x) f (s_db s) =
      Inr (CommitAt BeforeFreezeStepCommit run d)" and d: "s_db s' = d"
    by (cases rule: write_tx_InrE) (auto dest: freeze_result)
  from freeze_result [OF body] obtain cur where run: "run_by_id r (s_db s) = Some cur"
    "run = cur\<lparr>run_revision := run_revision cur + 1\<rparr>" by auto
  from body have "commits (freeze_run_step_body r n step (Some x) f (s_db s)) d" by simp
  then show ?thesis
  proof (rule freeze_bodyE)
    fix c d1
    let ?P = "\<lambda>x. run_id x = r \<and> run_revision x = n" and ?g = "\<lambda>x. x\<lparr>run_revision := run_revision x + 1\<rparr>"
    assume c: "run_by_id r (s_db s) = Some c" and rev: "run_revision c = n"
      and res: "(case Some x of None \<Rightarrow> Inr (s_db s) | Some x \<Rightarrow> reserve_for_step x (s_db s)) = Inr d1"
      and d': "d = d1\<lparr>db_steps := db_steps d1 @ [step\<lparr>st_stop_reason := None\<rparr>], db_runs := upd ?P ?g (db_runs d1)\<rparr>"
    from reserve_opt_frame [OF res] have same: "db_runs d1 = db_runs (s_db s)" "db_steps d1 = db_steps (s_db s)"
      by (auto simp: budget_frame_def)
    from res have "reserve_for_step x (s_db s) = Inr d1" by simp
    from reserve_for_step_row [OF this] obtain y where
      y: "reservation_by_operation (br_operation_id x) d1 = Some y"
        "br_budget_id y = br_budget_id x" "br_bound y = br_bound x" by blast
    have runs: "db_runs d = upd ?P ?g (db_runs (s_db s))" by (simp add: d' same)
    have "run_by_id r d = map_option (\<lambda>x. if ?P x then ?g x else x) (run_by_id r (s_db s))"
      unfolding run_by_id_def runs by (rule sel_upd) simp
    moreover have "run_id c = r" using c unfolding run_by_id_def by (auto dest: sel_SomeD)
    ultimately have "run_by_id r d = Some run" "run_revision run = n + 1"
      using c rev run by simp_all
    moreover have "db_steps d = db_steps (s_db s) @ [step\<lparr>st_stop_reason := None\<rparr>]" by (simp add: d' same)
    moreover have "reservation_by_operation (br_operation_id x) d = Some y"
      using y(1) by (simp add: d' reservation_by_operation_def)
    ultimately show ?thesis using Inr d y(2,3) by auto
  qed
qed

text \<open>
  The transaction of \<open>start_run\<close> in one equation, for a run that is there already.
\<close>

lemma start_run_present:
  assumes "run_by_input i d = Some rec" and "run_session_id rec = s" and "run_task_id rec = t"
    and "run_owner_generation rec = hf_generation f \<or> \<not> (run_st rec = RunRunning \<or> run_st rec = RunPaused)"
    and "hf_generation f \<le> i64_max"
  shows "start_run_body r s t i b f d = Inr (Commit rec d)"
  using assms by (auto simp: start_run_body_def to_i64_def Let_def)

lemma start_run_stored:
  assumes "start_run_body r s t i b f d = Inr e"
  shows "\<exists>rec d'. e = Commit rec d' \<and> run_by_input i d' = Some rec \<and> run_session_id rec = s \<and> run_task_id rec = t \<and>
    (run_owner_generation rec = hf_generation f \<or> \<not> (run_st rec = RunRunning \<or> run_st rec = RunPaused))"
proof -
  from assms obtain d1 rec where rec: "run_by_input i d1 = Some rec"
    and scope: "run_session_id rec = s" "run_task_id rec = t"
    and e: "e = (if (run_st rec = RunRunning \<or> run_st rec = RunPaused) \<and> run_owner_generation rec \<noteq> hf_generation f
      then Commit (rec\<lparr>run_owner_generation := hf_generation f\<rparr>)
        (d1\<lparr>db_runs := upd (\<lambda>x. run_id x = run_id rec \<and> run_owner_generation x = run_owner_generation rec)
          (\<lambda>x. x\<lparr>run_owner_generation := hf_generation f\<rparr>) (db_runs d1)\<rparr>)
      else Commit rec d1)"
    unfolding start_run_body_def Let_def
    by (auto simp: bind_res_Inr split: sum.split_asm option.split_asm if_split_asm)
  show ?thesis
  proof (cases "(run_st rec = RunRunning \<or> run_st rec = RunPaused) \<and> run_owner_generation rec \<noteq> hf_generation f")
    case True
    have "sel (\<lambda>x. run_input_id x = i) (upd P (\<lambda>x. x\<lparr>run_owner_generation := hf_generation f\<rparr>) (db_runs d1)) =
      map_option (\<lambda>x. if P x then x\<lparr>run_owner_generation := hf_generation f\<rparr> else x) (Some rec)" for P
      using rec unfolding run_by_input_def by (subst sel_upd) simp_all
    with True e scope show ?thesis by (simp add: run_by_input_def)
  next
    case False
    then have "e = Commit rec d1" "run_owner_generation rec = hf_generation f \<or>
        \<not> (run_st rec = RunRunning \<or> run_st rec = RunPaused)" using e by auto
    with rec scope show ?thesis by simp
  qed
qed

text \<open>
  Starting a run is idempotent in its input: once a run was returned for an admitted
  input, the same request with any other fresh identifier and budget returns the same run and
  writes nothing, and a request that puts the input in another session or task is refused.
\<close>

theorem start_run_once:
  assumes "start_run r session task input b s = (Inr rec, s')"
  shows "start_run r' session task input b' s' = (Inr rec, s') \<and>
    (\<forall>session' task'. (session', task') \<noteq> (session, task) \<longrightarrow>
      start_run r' session' task' input b' s' = (Inl IdempotencyConflict, s'))"
  using assms unfolding start_run_def
proof (cases rule: write_tx_InrE)
  case (committed f d)
  from start_run_stored [OF committed(3)] have rec: "run_by_input input d = Some rec"
    "run_session_id rec = session" "run_task_id rec = task"
    "run_owner_generation rec = hf_generation f \<or> \<not> (run_st rec = RunRunning \<or> run_st rec = RunPaused)" by auto
  have "may_write s'"
    using start_run_op.keeps_may_write [of r session task input b s] assms committed(1,2) by (simp add: may_write_body)
  then have f': "s_writer s' = Some f" "assert_fence_in_tx f (s_db s') = Inr ()"
    using committed(1,4) by (auto simp: may_write_body)
  have s': "s_db s' = d" "s'\<lparr>s_db := d\<rparr> = s'" using committed(4) by simp_all
  from f'(2) have g: "hf_generation f \<le> i64_max" by (simp add: assert_fence_iff)
  from start_run_present [OF rec g] g rec s' show "write_tx (start_run_body r' session task input b') s' = (Inr rec, s') \<and>
    (\<forall>session' task'. (session', task') \<noteq> (session, task) \<longrightarrow>
      write_tx (start_run_body r' session' task' input b') s' = (Inl IdempotencyConflict, s'))"
    unfolding write_tx_authorised [OF f'] by (auto simp: start_run_body_def to_i64_def)
qed (auto dest: start_run_stored)

text \<open>A run at revision 3 beside the sample account, a step of it and the reservation it asks for.\<close>

definition sample_run :: run_record where
  "sample_run = \<lparr>run_id = ''run'', run_session_id = ''s'', run_task_id = ''t'', run_input_id = ''in'',
    run_st = RunRunning, run_acceptance = None, run_stop_reason = None, run_owner_generation = 1,
    run_revision = 3, run_budget_id = Some ''task'', run_awaiting = None\<rparr>"

definition sample_step :: run_step where
  "sample_step = \<lparr>st_step_id = ''step'', st_run_id = ''run'', st_index = 0, st_request_id = ''req'',
    st_packet_id = ''p'', st_manifest_hash = ''h'', st_source_sequence = 1, st_state = ''frozen'',
    st_stop_reason = None\<rparr>"

definition sample_ask :: reservation where
  "sample_ask = sample_reservation\<lparr>br_id := ''res2'', br_operation_id := ''op2'', br_bound := 10\<rparr>"

definition run_store :: store where
  "run_store = sample_store\<lparr>s_db := sample_db\<lparr>db_runs := [sample_run]\<rparr>\<rparr>"

lemma sample_freeze:
  "freeze_run_step ''run'' 3 sample_step (Some sample_ask) run_store =
    (Inr (sample_run\<lparr>run_revision := 4\<rparr>), run_store\<lparr>s_db := sample_db\<lparr>db_runs := [sample_run\<lparr>run_revision := 4\<rparr>],
      db_steps := [sample_step], db_accounts := [sample_account\<lparr>ba_spent := 40, ba_revision := 3\<rparr>],
      db_reservations := [sample_reservation, sample_ask]\<rparr>\<rparr>)"
proof -
  let ?f = "\<lparr>hf_host_id = ''host'', hf_generation = 1\<rparr>"
  have tx: "write_tx body run_store = end_tx (body ?f (s_db run_store)) run_store" for body :: "run_record body"
    using write_tx_authorised [of run_store ?f body]
    by (simp add: run_store_def sample_defs assert_fence_iff i64_max_def)
  have ins: "insert_reservation sample_ask (sample_db\<lparr>db_runs := [sample_run]\<rparr>) =
      Inr (True, sample_db\<lparr>db_runs := [sample_run], db_reservations := [sample_reservation, sample_ask]\<rparr>)"
    by (simp add: insert_reservation_def sample_ask_def sample_defs to_i64_def i64_max_def
      reservation_by_operation_def reservation_by_id_def sel_Cons)
  have charge: "charge_chain ''task'' 10 (sample_db\<lparr>db_runs := [sample_run], db_reservations := rs\<rparr>) =
      Inr (sample_db\<lparr>db_runs := [sample_run], db_accounts := [sample_account\<lparr>ba_spent := 40, ba_revision := 3\<rparr>],
        db_reservations := rs\<rparr>)" for rs
    by (simp add: charge_chain_def sample_defs account_by_id_def sel_Cons Let_def affected_def upd_Cons
      i64_max_def u64_max_def)
  have "reserve_for_step sample_ask (sample_db\<lparr>db_runs := [sample_run]\<rparr>) =
      Inr (sample_db\<lparr>db_runs := [sample_run], db_accounts := [sample_account\<lparr>ba_spent := 40, ba_revision := 3\<rparr>],
        db_reservations := [sample_reservation, sample_ask]\<rparr>)"
    using charge by (simp add: reserve_for_step_def ins) (simp add: sample_ask_def sample_reservation_def)
  then show ?thesis unfolding freeze_run_step_def tx
    by (simp add: freeze_run_step_body_def run_by_id_def run_store_def sel_Cons sample_run_def
      sample_step_def insert_step_def to_i64_def i64_max_def Let_def affected_def upd_Cons sample_store_def
      sample_db_def empty_db_def)
qed

theorem freeze_atomic_witness:
  "\<exists>s'. freeze_run_step ''run'' 3 sample_step (Some sample_ask) run_store = (Inr (sample_run\<lparr>run_revision := 4\<rparr>), s') \<and>
    run_by_id ''run'' (s_db s') = Some (sample_run\<lparr>run_revision := 4\<rparr>) \<and>
    (\<exists>y. reservation_by_operation ''op2'' (s_db s') = Some y \<and> br_bound y = 10)"
  using freeze_atomic [OF sample_freeze] sample_freeze
  by (auto simp: sample_ask_def)

lemma sample_start:
  "start_run ''run'' ''s'' ''t'' ''in'' None sample_store =
    (Inr (sample_run\<lparr>run_revision := 1, run_budget_id := None\<rparr>),
      sample_store\<lparr>s_db := sample_db\<lparr>db_runs := [sample_run\<lparr>run_revision := 1, run_budget_id := None\<rparr>]\<rparr>\<rparr>)"
proof -
  let ?f = "\<lparr>hf_host_id = ''host'', hf_generation = 1\<rparr>"
  have tx: "write_tx body sample_store = end_tx (body ?f sample_db) sample_store" for body :: "run_record body"
    using write_tx_authorised [of sample_store ?f body] sample_fence by (simp add: sample_store_def)
  have "start_run_body ''run'' ''s'' ''t'' ''in'' None ?f sample_db =
      Inr (Commit (sample_run\<lparr>run_revision := 1, run_budget_id := None\<rparr>)
        (sample_db\<lparr>db_runs := [sample_run\<lparr>run_revision := 1, run_budget_id := None\<rparr>]\<rparr>))"
    by (simp add: start_run_body_def to_i64_def i64_max_def run_by_input_def run_by_id_def sample_db_def
      empty_db_def sel_Cons sample_run_def Let_def)
  then show ?thesis unfolding start_run_def tx by (simp add: sample_store_def)
qed

theorem start_run_once_witness:
  "\<exists>rec s'. start_run ''run'' ''s'' ''t'' ''in'' None sample_store = (Inr rec, s') \<and>
    start_run ''other'' ''s'' ''t'' ''in'' None s' = (Inr rec, s') \<and>
    start_run ''other'' ''s2'' ''t'' ''in'' None s' = (Inl IdempotencyConflict, s')"
  using start_run_once [OF sample_start, of "''other''" None] sample_start by auto

end
