(* ===== verification/Tool_Store.thy ===== *)
theory Tool_Store imports Journal begin

text \<open>
  Tool executions in the store (\<^verbatim>\<open>crates/harness-store-sqlite/src/store/mod.rs\<close>): approvals are
  issued and revoked, an intent consumes its approval in the transaction that records it, and a
  settlement stores the receipt. Each of the commits writes a journal event like the commits of
  theory \<open>Journal\<close>. The clock is the argument \<open>now\<close> (an error when it is before the epoch), the
  published files are the argument \<open>files\<close> with \<open>hash_bytes\<close> their content hash.
\<close>

section \<open>Validation\<close>

definition validate_tool_approval :: "canonical_hash \<Rightarrow> tool_approval \<Rightarrow> unit res" where
  "validate_tool_approval hash a = (let b = ta_binding a in
    if ta_state a \<noteq> ApprovalActive \<or> blank (ab_actor_id b) \<or> blank (ab_workspace_root b)
      \<or> ab_policy_revision b = 0 \<or> ab_tool_revision b = 0
    then Inl InvalidPayload
    else bind_res (hash (ta_json a)) (\<lambda>expected.
      if expected \<noteq> ta_binding_hash a then Inl InvalidHash else Inr ()))"

definition one_event :: "ident \<Rightarrow> ident \<Rightarrow> nat \<Rightarrow> event_envelope \<Rightarrow> working_state \<Rightarrow> source_work_marker \<Rightarrow> bool" where
  "one_event session task n e w m \<longleftrightarrow> ev_session_id e = session \<and> ev_seq e = n \<and>
    ws_session_id w = session \<and> ws_task_id w = task \<and> ws_through_event_seq w = n \<and>
    mk_event_id m = ev_event_id e \<and> mk_sequence m = n"

definition intent_bound :: "tool_intent \<Rightarrow> nat \<Rightarrow> bool" where
  "intent_bound i n \<longleftrightarrow> (let c = ti_call i; b = ti_approval i in
    ti_status i = StatusRecorded \<and> \<not> blank (tc_invocation_id c) \<and> \<not> blank (tc_actor_id c) \<and>
    \<not> blank (tc_tool_name c) \<and> \<not> blank (tc_workspace_root c) \<and> tc_policy_revision c \<noteq> 0 \<and>
    tc_tool_revision c \<noteq> 0 \<and> tc_intent_sequence c = n \<and> ab_actor_id b = tc_actor_id c \<and>
    ab_action_hash b = tc_action_hash c \<and> ab_workspace_root b = tc_workspace_root c \<and>
    ab_workspace_fingerprint b = tc_workspace_fingerprint c \<and>
    ab_policy_revision b = tc_policy_revision c \<and> ab_tool_revision b = tc_tool_revision c)"

definition validate_tool_intent_commit :: "canonical_hash \<Rightarrow> tool_intent_commit \<Rightarrow> unit res" where
  "validate_tool_intent_commit hash k =
    bind_res (event_validate hash (ic_event k)) (\<lambda>_.
    bind_res (working_state_validate (ic_working_state k)) (\<lambda>_.
    if \<not> intent_bound (ic_intent k) (ic_expected_sequence k) then Inl InvalidPayload
    else let c = ti_call (ic_intent k) in
    bind_res (hash (tc_action_json c)) (\<lambda>action_hash.
    if action_hash \<noteq> tc_action_hash c
      \<or> \<not> one_event (tc_session_id c) (tc_task_id c) (ic_expected_sequence k) (ic_event k)
        (ic_working_state k) (ic_marker k)
    then Inl InvalidPayload else Inr ())))"

definition artifact_bound :: "ident option \<Rightarrow> published_artifact option \<Rightarrow> unit res" where
  "artifact_bound i a = (if i = map_option pa_artifact_id a then Inr () else Inl ArtifactWriteFailed)"

definition validate_tool_settlement_commit :: "canonical_hash \<Rightarrow> tool_settlement_commit \<Rightarrow> unit res" where
  "validate_tool_settlement_commit hash k =
    bind_res (event_validate hash (zc_event k)) (\<lambda>_.
    bind_res (tool_receipt_validate (zc_receipt k)) (\<lambda>_.
    bind_res (working_state_validate (zc_working_state k)) (\<lambda>_.
    if zc_final_status k \<notin> {StatusSettled, StatusUnknown}
      \<or> tr_observed_at_seq (zc_receipt k) \<noteq> zc_expected_sequence k
      \<or> \<not> one_event (ev_session_id (zc_event k)) (tr_task_id (zc_receipt k)) (zc_expected_sequence k)
        (zc_event k) (zc_working_state k) (zc_marker k)
    then Inl InvalidPayload
    else artifact_bound (tr_artifact_id (zc_receipt k)) (zc_artifact k))))"

definition validate_tool_task_update_commit :: "canonical_hash \<Rightarrow> tool_task_update_commit \<Rightarrow> unit res" where
  "validate_tool_task_update_commit hash k =
    bind_res (event_validate hash (uc_event k)) (\<lambda>_.
    bind_res (working_state_validate (uc_working_state k)) (\<lambda>_. let b = uc_approval k in
    if blank (ab_actor_id b) \<or> blank (ab_workspace_root b) \<or> ab_policy_revision b = 0
      \<or> ab_tool_revision b = 0
      \<or> \<not> one_event (uc_session_id k) (uc_task_id k) (uc_expected_sequence k) (uc_event k)
        (uc_working_state k) (uc_marker k)
    then Inl InvalidPayload else Inr ()))"

definition validate_receipt :: "canonical_hash \<Rightarrow> receipt_commit \<Rightarrow> unit res" where
  "validate_receipt hash k =
    bind_res (event_validate hash (xc_event k)) (\<lambda>_.
    bind_res (tool_receipt_validate (xc_receipt k)) (\<lambda>_.
    bind_res (working_state_validate (xc_working_state k)) (\<lambda>_.
    if tr_task_id (xc_receipt k) \<noteq> xc_task_id k
      \<or> tr_observed_at_seq (xc_receipt k) \<noteq> xc_expected_sequence k
      \<or> \<not> one_event (xc_session_id k) (xc_task_id k) (xc_expected_sequence k) (xc_event k)
        (xc_working_state k) (xc_marker k)
    then Inl InvalidPayload
    else artifact_bound (tr_artifact_id (xc_receipt k)) (xc_artifact k))))"

type_synonym files = "string \<Rightarrow> string option"

definition validate_published_artifact ::
    "files \<Rightarrow> (string \<Rightarrow> content_hash) \<Rightarrow> published_artifact \<Rightarrow> unit res" where
  "validate_published_artifact files hash_bytes a =
    (if pa_relative_path a \<noteq> ''artifacts/'' @ pa_artifact_id a @ ''.bin'' then Inl ArtifactWriteFailed
     else case files (pa_relative_path a) of
       None \<Rightarrow> Inl ArtifactWriteFailed
     | Some bytes \<Rightarrow>
        if length bytes \<noteq> pa_byte_len a \<or> hash_bytes bytes \<noteq> pa_content_hash a
        then Inl ArtifactWriteFailed else Inr ())"

definition published_if_any ::
    "files \<Rightarrow> (string \<Rightarrow> content_hash) \<Rightarrow> published_artifact option \<Rightarrow> unit res" where
  "published_if_any files hash_bytes a = (case a of
      None \<Rightarrow> Inr () | Some x \<Rightarrow> validate_published_artifact files hash_bytes x)"

section \<open>Approvals\<close>

abbreviation row_id :: "approval_row \<Rightarrow> ident" where
  "row_id r \<equiv> ab_approval_id (ta_binding (ar_approval r))"

abbreviation row_state :: "approval_row \<Rightarrow> tool_approval_state" where
  "row_state r \<equiv> ta_state (ar_approval r)"

definition approval_by_id :: "ident \<Rightarrow> db \<Rightarrow> approval_row option" where
  "approval_by_id i d = sel (\<lambda>r. row_id r = i) (db_approvals d)"

definition issue_approval_body :: "tool_approval \<Rightarrow> unit body" where
  "issue_approval_body a f d =
    bind_res (to_i64 (ab_policy_revision (ta_binding a))) (\<lambda>_.
    bind_res (to_i64 (ab_tool_revision (ta_binding a))) (\<lambda>_.
    bind_res (case ta_expires_at a of None \<Rightarrow> Inr 0 | Some e \<Rightarrow> to_i64 e) (\<lambda>_.
    (case approval_by_id (ab_approval_id (ta_binding a)) d of
       None \<Rightarrow> Inr (Commit () (d\<lparr>db_approvals := db_approvals d @
         [\<lparr>ar_approval = a, ar_consumed_by = None, ar_revoked_reason = None\<rparr>]\<rparr>))
     | Some row \<Rightarrow>
        if ta_binding_hash (ar_approval row) \<noteq> ta_binding_hash a \<or> ta_json (ar_approval row) \<noteq> ta_json a
        then Inl IdempotencyConflict else Inr (Commit () d)))))"

definition issue_tool_approval :: "canonical_hash \<Rightarrow> tool_approval \<Rightarrow> store \<Rightarrow> unit res \<times> store" where
  "issue_tool_approval hash a s = (case validate_tool_approval hash a of
      Inl e \<Rightarrow> (Inl e, s) | Inr _ \<Rightarrow> write_tx (issue_approval_body a) s)"

definition active_row :: "ident \<Rightarrow> approval_row \<Rightarrow> bool" where
  "active_row i r \<longleftrightarrow> row_id r = i \<and> row_state r = ApprovalActive"

definition revoked :: "string \<Rightarrow> approval_row \<Rightarrow> approval_row" where
  "revoked reason r = r\<lparr>ar_approval := (ar_approval r)\<lparr>ta_state := ApprovalWithdrawn\<rparr>,
    ar_revoked_reason := Some reason\<rparr>"

definition mark_consumed :: "string \<Rightarrow> approval_row \<Rightarrow> approval_row" where
  "mark_consumed by_whom r = r\<lparr>ar_approval := (ar_approval r)\<lparr>ta_state := ApprovalSpent\<rparr>,
    ar_consumed_by := Some by_whom\<rparr>"

definition revoke_approval_body :: "ident \<Rightarrow> string \<Rightarrow> unit body" where
  "revoke_approval_body i reason f d =
    (if affected (active_row i) (db_approvals d) \<noteq> 1 then Inl ApprovalRevoked
     else Inr (Commit () (d\<lparr>db_approvals := upd (active_row i) (revoked reason) (db_approvals d)\<rparr>)))"

definition revoke_tool_approval :: "ident \<Rightarrow> string \<Rightarrow> store \<Rightarrow> unit res \<times> store" where
  "revoke_tool_approval i reason s =
    (if blank reason then (Inl InvalidPayload, s) else write_tx (revoke_approval_body i reason) s)"

definition validate_tool_approval_loaded :: "canonical_hash \<Rightarrow> tool_approval \<Rightarrow> unit res" where
  "validate_tool_approval_loaded hash a = (let b = ta_binding a in
    if blank (ab_actor_id b) \<or> blank (ab_workspace_root b) \<or> ab_policy_revision b = 0 \<or> ab_tool_revision b = 0
    then Inl StorageWriteFailed
    else bind_res (hash (ta_json a)) (\<lambda>expected.
      if expected \<noteq> ta_binding_hash a then Inl StorageWriteFailed else Inr ()))"

definition tool_approval_of :: "canonical_hash \<Rightarrow> ident \<Rightarrow> db \<Rightarrow> tool_approval option res" where
  "tool_approval_of hash i d = (case approval_by_id i d of
      None \<Rightarrow> Inr None
    | Some r \<Rightarrow> bind_res (validate_tool_approval_loaded hash (ar_approval r)) (\<lambda>_. Inr (Some (ar_approval r))))"

definition consume_tool_approval :: "nat res \<Rightarrow> tool_approval_binding \<Rightarrow> string \<Rightarrow> db \<Rightarrow> db res" where
  "consume_tool_approval now b by_whom d = (case approval_by_id (ab_approval_id b) d of
      None \<Rightarrow> Inl ApprovalRequired
    | Some row \<Rightarrow> (case row_state row of
        ApprovalSpent \<Rightarrow> Inl ApprovalConsumed
      | ApprovalWithdrawn \<Rightarrow> Inl ApprovalRevoked
      | ApprovalActive \<Rightarrow>
          bind_res (case ta_expires_at (ar_approval row) of
              None \<Rightarrow> Inr ()
            | Some e \<Rightarrow> bind_res now (\<lambda>t. if e < t then Inl ApprovalStale else Inr ())) (\<lambda>_.
          if ta_binding (ar_approval row) \<noteq> b then Inl ApprovalStale
          else if affected (active_row (ab_approval_id b)) (db_approvals d) \<noteq> 1 then Inl ApprovalConsumed
          else Inr (d\<lparr>db_approvals :=
            upd (active_row (ab_approval_id b)) (mark_consumed by_whom) (db_approvals d)\<rparr>))))"

section \<open>Inserts\<close>

definition intent_by_id :: "ident \<Rightarrow> db \<Rightarrow> intent_row option" where
  "intent_by_id i d = sel (\<lambda>r. tc_execution_id (iw_call r) = i) (db_intents d)"

definition receipt_by_id :: "ident \<Rightarrow> db \<Rightarrow> receipt_row option" where
  "receipt_by_id i d = sel (\<lambda>r. rr_execution_id r = i) (db_receipts d)"

definition artifact_by_id :: "ident \<Rightarrow> db \<Rightarrow> published_artifact option" where
  "artifact_by_id i d = sel (\<lambda>a. pa_artifact_id a = i) (db_artifacts d)"

definition insert_intent :: "tool_intent \<Rightarrow> ident \<Rightarrow> db \<Rightarrow> db res" where
  "insert_intent i event d = (let c = ti_call i in
    bind_res (to_i64 (tc_policy_revision c)) (\<lambda>_.
    bind_res (to_i64 (tc_tool_revision c)) (\<lambda>_.
    bind_res (to_i64 (tc_intent_sequence c)) (\<lambda>_.
    if intent_by_id (tc_execution_id c) d \<noteq> None \<or> session_by_id (tc_session_id c) d = None
      \<or> approval_by_id (ab_approval_id (ti_approval i)) d = None \<or> event_by_id event d = None
    then Inl StorageWriteFailed
    else Inr (d\<lparr>db_intents := db_intents d @ [\<lparr>iw_call = c,
      iw_approval_id = ab_approval_id (ti_approval i), iw_status = ti_status i, iw_event_id = event,
      iw_settlement = None\<rparr>]\<rparr>)))))"

definition insert_artifact :: "published_artifact \<Rightarrow> db \<Rightarrow> db res" where
  "insert_artifact a d = bind_res (to_i64 (pa_byte_len a)) (\<lambda>_.
    if artifact_by_id (pa_artifact_id a) d \<noteq> None then Inr d
    else if sel (\<lambda>x. pa_relative_path x = pa_relative_path a) (db_artifacts d) \<noteq> None
    then Inl StorageWriteFailed
    else Inr (d\<lparr>db_artifacts := db_artifacts d @ [a]\<rparr>))"

definition insert_artifact_scope :: "artifact_scope \<Rightarrow> db \<Rightarrow> db res" where
  "insert_artifact_scope x d =
    (if sel (\<lambda>y. sa_artifact_id y = sa_artifact_id x \<or> sa_execution_id y = sa_execution_id x)
          (db_artifact_scopes d) \<noteq> None
        \<or> artifact_by_id (sa_artifact_id x) d = None \<or> intent_by_id (sa_execution_id x) d = None
     then Inl StorageWriteFailed
     else Inr (d\<lparr>db_artifact_scopes := db_artifact_scopes d @ [x]\<rparr>))"

definition insert_receipt :: "ident \<Rightarrow> ident \<Rightarrow> event_envelope \<Rightarrow> tool_receipt \<Rightarrow> ident option \<Rightarrow> db \<Rightarrow> db res" where
  "insert_receipt session task e r artifact d = bind_res (to_i64 (ev_seq e)) (\<lambda>n.
    if n = 0 \<or> receipt_by_id (tr_tool_execution_id r) d \<noteq> None \<or> session_by_id session d = None
      \<or> sel (\<lambda>x. rr_event_id x = ev_event_id e) (db_receipts d) \<noteq> None
      \<or> event_by_id (ev_event_id e) d = None
      \<or> (case artifact of None \<Rightarrow> False | Some a \<Rightarrow> artifact_by_id a d = None)
    then Inl StorageWriteFailed
    else Inr (d\<lparr>db_receipts := db_receipts d @ [\<lparr>rr_execution_id = tr_tool_execution_id r,
      rr_session_id = session, rr_task_id = task, rr_event_id = ev_event_id e, rr_sequence = n,
      rr_receipt = r, rr_artifact_id = artifact\<rparr>]\<rparr>))"

section \<open>Commits\<close>

definition receipt_body :: "receipt_commit \<Rightarrow> receipt_ack body" where
  "receipt_body k f d = (case receipt_by_id (tr_tool_execution_id (xc_receipt k)) d of
      Some row \<Rightarrow>
        if rr_session_id row = xc_session_id k \<and> rr_task_id row = xc_task_id k
          \<and> rr_receipt row = xc_receipt k
        then Inr (Rollback \<lparr>xa_event_id = rr_event_id row, xa_sequence = rr_sequence row,
          xa_idempotent_replay = True\<rparr>)
        else Inl IdempotencyConflict
    | None \<Rightarrow>
        bind_res (ensure_session_existing (xc_session_id k) (xc_task_id k) d) (\<lambda>_.
        bind_res (claim_task (xc_task_id k) (xc_session_id k) f d) (\<lambda>d.
        bind_res (ensure_expected_sequence (xc_session_id k) (xc_expected_sequence k) d) (\<lambda>_.
        bind_res (case xc_artifact k of None \<Rightarrow> Inr d | Some a \<Rightarrow> insert_artifact a d) (\<lambda>d.
        bind_res (insert_event (xc_session_id k) (xc_event k) d) (\<lambda>d.
        bind_res (insert_receipt (xc_session_id k) (xc_task_id k) (xc_event k) (xc_receipt k)
          (map_option pa_artifact_id (xc_artifact k)) d) (\<lambda>d.
        bind_res (upsert_projection (xc_task_id k) (xc_session_id k) (xc_working_state k) d) (\<lambda>d.
        bind_res (insert_marker (xc_session_id k) (xc_task_id k) (xc_marker k) d) (\<lambda>d.
        bind_res (advance_sequence (xc_session_id k) (xc_expected_sequence k) d) (\<lambda>d.
        Inr (CommitAt BeforeReceiptCommit \<lparr>xa_event_id = ev_event_id (xc_event k),
          xa_sequence = ev_seq (xc_event k), xa_idempotent_replay = False\<rparr> d)))))))))))"

definition commit_receipt ::
    "canonical_hash \<Rightarrow> files \<Rightarrow> (string \<Rightarrow> content_hash) \<Rightarrow> receipt_commit \<Rightarrow> store \<Rightarrow> receipt_ack res \<times> store" where
  "commit_receipt hash files hash_bytes k s =
    (case bind_res (validate_receipt hash k) (\<lambda>_. published_if_any files hash_bytes (xc_artifact k)) of
      Inl e \<Rightarrow> (Inl e, s) | Inr _ \<Rightarrow> write_tx (receipt_body k) s)"

definition tool_intent_body :: "nat res \<Rightarrow> tool_intent_commit \<Rightarrow> unit body" where
  "tool_intent_body now k f d = (let i = ic_intent k; c = ti_call i in
    if intent_by_id (tc_execution_id c) d \<noteq> None then Inl ToolIntentConflict else
    bind_res (ensure_session_existing (tc_session_id c) (tc_task_id c) d) (\<lambda>_.
    bind_res (claim_task (tc_task_id c) (tc_session_id c) f d) (\<lambda>d.
    bind_res (ensure_expected_sequence (tc_session_id c) (ic_expected_sequence k) d) (\<lambda>_.
    bind_res (consume_tool_approval now (ti_approval i) (tc_execution_id c) d) (\<lambda>d.
    bind_res (insert_event (tc_session_id c) (ic_event k) d) (\<lambda>d.
    bind_res (insert_intent i (ev_event_id (ic_event k)) d) (\<lambda>d.
    bind_res (upsert_projection (tc_task_id c) (tc_session_id c) (ic_working_state k) d) (\<lambda>d.
    bind_res (insert_marker (tc_session_id c) (tc_task_id c) (ic_marker k) d) (\<lambda>d.
    bind_res (advance_sequence (tc_session_id c) (ic_expected_sequence k) d) (\<lambda>d.
    Inr (CommitAt BeforeToolIntentCommit () d)))))))))))"

definition commit_tool_intent ::
    "canonical_hash \<Rightarrow> nat res \<Rightarrow> tool_intent_commit \<Rightarrow> store \<Rightarrow> unit res \<times> store" where
  "commit_tool_intent hash now k s = (case validate_tool_intent_commit hash k of
      Inl e \<Rightarrow> (Inl e, s) | Inr _ \<Rightarrow> write_tx (tool_intent_body now k) s)"

definition recorded_row :: "ident \<Rightarrow> intent_row \<Rightarrow> bool" where
  "recorded_row i r \<longleftrightarrow> tc_execution_id (iw_call r) = i \<and> iw_status r = StatusRecorded"

definition settle_intent :: "ident \<Rightarrow> tool_intent_status \<Rightarrow> db \<Rightarrow> db" where
  "settle_intent i status d = d\<lparr>db_intents :=
    upd (recorded_row i) (\<lambda>r. r\<lparr>iw_status := status, iw_settlement := Some i\<rparr>) (db_intents d)\<rparr>"

definition scope_artifact :: "tool_settlement_commit \<Rightarrow> db \<Rightarrow> db res" where
  "scope_artifact k d = (case zc_artifact k of
      None \<Rightarrow> Inr d
    | Some a \<Rightarrow> bind_res (insert_artifact a d) (insert_artifact_scope
        \<lparr>sa_artifact_id = pa_artifact_id a, sa_project_id = wo_project_id (ws_workspace (zc_working_state k)),
          sa_task_id = tr_task_id (zc_receipt k), sa_execution_id = tr_tool_execution_id (zc_receipt k)\<rparr>))"

definition tool_settlement_body :: "tool_settlement_commit \<Rightarrow> receipt_ack body" where
  "tool_settlement_body k f d = (let r = zc_receipt k; e = zc_event k; x = tr_tool_execution_id r;
      session = ev_session_id e; task = tr_task_id r in
    case receipt_by_id x d of
      Some row \<Rightarrow>
        if rr_receipt row = r
        then Inr (Rollback \<lparr>xa_event_id = rr_event_id row, xa_sequence = rr_sequence row,
          xa_idempotent_replay = True\<rparr>)
        else Inl IdempotencyConflict
    | None \<Rightarrow> (case intent_by_id x d of
        None \<Rightarrow> Inl ToolIntentConflict
      | Some i \<Rightarrow>
          if tc_session_id (iw_call i) \<noteq> session \<or> tc_task_id (iw_call i) \<noteq> task
            \<or> iw_status i \<noteq> StatusRecorded
          then Inl ToolIntentConflict else
          bind_res (ensure_session_existing session task d) (\<lambda>_.
          bind_res (claim_task task session f d) (\<lambda>d.
          bind_res (ensure_expected_sequence session (zc_expected_sequence k) d) (\<lambda>_.
          bind_res (scope_artifact k d) (\<lambda>d.
          bind_res (insert_event session e d) (\<lambda>d.
          bind_res (insert_receipt session task e r (map_option pa_artifact_id (zc_artifact k)) d) (\<lambda>d.
          let d = settle_intent x (zc_final_status k) d in
          bind_res (upsert_projection task session (zc_working_state k) d) (\<lambda>d.
          bind_res (insert_marker session task (zc_marker k) d) (\<lambda>d.
          bind_res (advance_sequence session (zc_expected_sequence k) d) (\<lambda>d.
          Inr (CommitAt BeforeToolSettlementCommit \<lparr>xa_event_id = ev_event_id e,
            xa_sequence = ev_seq e, xa_idempotent_replay = False\<rparr> d))))))))))))"

definition commit_tool_settlement :: "canonical_hash \<Rightarrow> files \<Rightarrow> (string \<Rightarrow> content_hash) \<Rightarrow>
    tool_settlement_commit \<Rightarrow> store \<Rightarrow> receipt_ack res \<times> store" where
  "commit_tool_settlement hash files hash_bytes k s =
    (case bind_res (validate_tool_settlement_commit hash k)
        (\<lambda>_. published_if_any files hash_bytes (zc_artifact k)) of
      Inl e \<Rightarrow> (Inl e, s) | Inr _ \<Rightarrow> write_tx (tool_settlement_body k) s)"

definition task_update_body :: "nat res \<Rightarrow> tool_task_update_commit \<Rightarrow> unit body" where
  "task_update_body now k f d =
    bind_res (ensure_session_existing (uc_session_id k) (uc_task_id k) d) (\<lambda>_.
    bind_res (claim_task (uc_task_id k) (uc_session_id k) f d) (\<lambda>d.
    bind_res (ensure_expected_sequence (uc_session_id k) (uc_expected_sequence k) d) (\<lambda>_.
    bind_res (consume_tool_approval now (uc_approval k) ''task_update'' d) (\<lambda>d.
    bind_res (insert_event (uc_session_id k) (uc_event k) d) (\<lambda>d.
    bind_res (upsert_projection (uc_task_id k) (uc_session_id k) (uc_working_state k) d) (\<lambda>d.
    bind_res (insert_marker (uc_session_id k) (uc_task_id k) (uc_marker k) d) (\<lambda>d.
    bind_res (advance_sequence (uc_session_id k) (uc_expected_sequence k) d) (\<lambda>d.
    Inr (Commit () d)))))))))"

definition commit_tool_task_update ::
    "canonical_hash \<Rightarrow> nat res \<Rightarrow> tool_task_update_commit \<Rightarrow> store \<Rightarrow> unit res \<times> store" where
  "commit_tool_task_update hash now k s = (case validate_tool_task_update_commit hash k of
      Inl e \<Rightarrow> (Inl e, s) | Inr _ \<Rightarrow> write_tx (task_update_body now k) s)"

section \<open>Readers\<close>

text \<open>An intent is read back with a binding rebuilt from its own columns.\<close>

definition binding_of_call :: "ident \<Rightarrow> tool_call \<Rightarrow> tool_approval_binding" where
  "binding_of_call approval c = \<lparr>ab_approval_id = approval, ab_session_id = tc_session_id c,
    ab_task_id = tc_task_id c, ab_invocation_id = tc_invocation_id c, ab_call_id = tc_call_id c,
    ab_actor_id = tc_actor_id c, ab_action_hash = tc_action_hash c,
    ab_workspace_root = tc_workspace_root c, ab_workspace_fingerprint = tc_workspace_fingerprint c,
    ab_policy_revision = tc_policy_revision c, ab_tool_revision = tc_tool_revision c\<rparr>"

definition tool_intent_from_row :: "canonical_hash \<Rightarrow> intent_row \<Rightarrow> tool_intent res" where
  "tool_intent_from_row hash r = bind_res (hash (tc_action_json (iw_call r))) (\<lambda>actual.
    if actual \<noteq> tc_action_hash (iw_call r) then Inl InvalidHash
    else Inr \<lparr>ti_call = iw_call r, ti_approval = binding_of_call (iw_approval_id r) (iw_call r),
      ti_status = iw_status r\<rparr>)"

definition tool_intent_of :: "canonical_hash \<Rightarrow> ident \<Rightarrow> db \<Rightarrow> tool_intent option res" where
  "tool_intent_of hash i d = (case intent_by_id i d of
      None \<Rightarrow> Inr None
    | Some r \<Rightarrow> bind_res (tool_intent_from_row hash r) (\<lambda>x. Inr (Some x)))"

definition pending_tool_intents :: "canonical_hash \<Rightarrow> ident \<Rightarrow> db \<Rightarrow> tool_intent list res" where
  "pending_tool_intents hash session d = collect_res (map (tool_intent_from_row hash)
    (sort_key (\<lambda>r. tc_intent_sequence (iw_call r)) (filter (\<lambda>r. tc_session_id (iw_call r) = session
      \<and> iw_status r = StatusRecorded) (db_intents d))))"

definition tool_intent_call_ids :: "ident \<Rightarrow> db \<Rightarrow> string set" where
  "tool_intent_call_ids session d = set (concat (map (\<lambda>r. case tc_call_id (iw_call r) of
      None \<Rightarrow> [] | Some i \<Rightarrow> if tc_session_id (iw_call r) = session then [i] else []) (db_intents d)))"

definition artifact_is_scoped_to :: "ident \<Rightarrow> ident \<Rightarrow> ident \<Rightarrow> db \<Rightarrow> bool" where
  "artifact_is_scoped_to artifact project task d \<longleftrightarrow> affected (\<lambda>x. sa_artifact_id x = artifact
    \<and> sa_project_id x = project \<and> sa_task_id x = task) (db_artifact_scopes d) = 1"

section \<open>What each step changes\<close>

text \<open>Steps on the tables of tool executions.\<close>

definition tool_only :: "db \<Rightarrow> db \<Rightarrow> bool" where
  "tool_only d d' \<longleftrightarrow> d' = d\<lparr>db_approvals := db_approvals d', db_intents := db_intents d',
    db_receipts := db_receipts d', db_artifacts := db_artifacts d',
    db_artifact_scopes := db_artifact_scopes d'\<rparr>"

lemma tool_only_refl [simp]: "tool_only d d"
  by (simp add: tool_only_def)

lemma tool_only_trans: "tool_only d e \<Longrightarrow> tool_only e g \<Longrightarrow> tool_only d g"
  unfolding tool_only_def by (cases d; cases e; cases g) simp

lemma tool_only_one [simp]:
  "tool_only d (d\<lparr>db_approvals := a\<rparr>)" "tool_only d (d\<lparr>db_intents := i\<rparr>)"
  "tool_only d (d\<lparr>db_receipts := r\<rparr>)" "tool_only d (d\<lparr>db_artifacts := x\<rparr>)"
  "tool_only d (d\<lparr>db_artifact_scopes := y\<rparr>)"
  by (simp_all add: tool_only_def)

lemma tool_only_tables:
  assumes "tool_only d d'"
  shows "journal_rest d d'" "same_hosts d d'" "db_sessions d' = db_sessions d" "db_leases d' = db_leases d"
    "db_events d' = db_events d" "db_inbox d' = db_inbox d" "db_projections d' = db_projections d"
    "db_markers d' = db_markers d"
proof -
  from assms have e: "d' = d\<lparr>db_approvals := db_approvals d', db_intents := db_intents d',
    db_receipts := db_receipts d', db_artifacts := db_artifacts d',
    db_artifact_scopes := db_artifact_scopes d'\<rparr>" by (simp add: tool_only_def)
  show "journal_rest d d'" "same_hosts d d'" by (subst e; simp add: journal_rest_def same_hosts_def)+
  show "db_sessions d' = db_sessions d" "db_leases d' = db_leases d"
    "db_events d' = db_events d" "db_inbox d' = db_inbox d" "db_projections d' = db_projections d"
    "db_markers d' = db_markers d" by (subst e; simp)+
qed

lemma consume_tool_approvalD:
  assumes "consume_tool_approval now b w d = Inr d'"
  obtains row where "approval_by_id (ab_approval_id b) d = Some row" "row_state row = ApprovalActive"
    "ta_binding (ar_approval row) = b"
    "d' = d\<lparr>db_approvals := upd (active_row (ab_approval_id b)) (mark_consumed w) (db_approvals d)\<rparr>"
proof -
  from assms obtain row where row: "approval_by_id (ab_approval_id b) d = Some row"
    by (cases "approval_by_id (ab_approval_id b) d") (auto simp: consume_tool_approval_def)
  with assms have st: "row_state row = ApprovalActive"
    by (cases "row_state row") (simp_all add: consume_tool_approval_def)
  from assms show thesis
    by (rule_tac that [OF row st])
      (simp_all add: consume_tool_approval_def row st bind_res_Inr split: if_splits)
qed

lemma insert_intentD:
  assumes "insert_intent i ev d = Inr d'"
  shows "d' = d\<lparr>db_intents := db_intents d @ [\<lparr>iw_call = ti_call i,
      iw_approval_id = ab_approval_id (ti_approval i), iw_status = ti_status i, iw_event_id = ev,
      iw_settlement = None\<rparr>]\<rparr>"
    and "intent_by_id (tc_execution_id (ti_call i)) d = None"
  using assms by (simp_all add: insert_intent_def Let_def bind_res_Inr split: if_splits)

lemma insert_receiptD:
  assumes "insert_receipt session task e r artifact d = Inr d'"
  shows "d' = d\<lparr>db_receipts := db_receipts d @ [\<lparr>rr_execution_id = tr_tool_execution_id r,
      rr_session_id = session, rr_task_id = task, rr_event_id = ev_event_id e, rr_sequence = ev_seq e,
      rr_receipt = r, rr_artifact_id = artifact\<rparr>]\<rparr>"
    and "receipt_by_id (tr_tool_execution_id r) d = None"
  using assms by (simp_all add: insert_receipt_def bind_res_Inr split: if_splits)

text \<open>Artifacts and their scopes leave the approvals, intents and receipts alone.\<close>

definition artifact_only :: "db \<Rightarrow> db \<Rightarrow> bool" where
  "artifact_only d d' \<longleftrightarrow> d' = d\<lparr>db_artifacts := db_artifacts d', db_artifact_scopes := db_artifact_scopes d'\<rparr>"

lemma artifact_only_tool: "artifact_only d d' \<Longrightarrow> tool_only d d'"
  unfolding artifact_only_def tool_only_def by (cases d; cases d') simp

lemma artifact_only_tables:
  "artifact_only d d' \<Longrightarrow> db_approvals d' = db_approvals d \<and> db_intents d' = db_intents d \<and>
    db_receipts d' = db_receipts d"
  unfolding artifact_only_def by (cases d; cases d') simp

lemma insert_artifact_only: "insert_artifact a d = Inr d' \<Longrightarrow> artifact_only d d'"
  by (auto simp: insert_artifact_def artifact_only_def bind_res_Inr split: if_splits)

lemma scope_artifact_only: "scope_artifact k d = Inr d' \<Longrightarrow> artifact_only d d'"
proof (cases "zc_artifact k")
  case (Some a)
  assume "scope_artifact k d = Inr d'"
  with Some obtain e x where "insert_artifact a d = Inr e" and s: "insert_artifact_scope x e = Inr d'"
    by (auto simp: scope_artifact_def bind_res_Inr)
  then have "artifact_only d e" by (simp add: insert_artifact_only)
  moreover from s have "d' = e\<lparr>db_artifact_scopes := db_artifact_scopes e @ [x]\<rparr>"
    by (simp add: insert_artifact_scope_def split: if_splits)
  ultimately show ?thesis unfolding artifact_only_def by (cases d; cases e; cases d') simp
qed (simp add: scope_artifact_def artifact_only_def)

text \<open>
  The frame of the four commits: a claim, steps on the tool tables around the event, and the
  projection, the marker and the sequence.
\<close>

definition tool_commit ::
    "ident \<Rightarrow> ident \<Rightarrow> nat \<Rightarrow> event_envelope \<Rightarrow> host_fence \<Rightarrow> db \<Rightarrow> db \<Rightarrow> db \<Rightarrow> db \<Rightarrow> db \<Rightarrow> db \<Rightarrow> bool" where
  "tool_commit session task n e f d c0 c1 c2 c3 d' \<longleftrightarrow>
    claim_task task session f d = Inr c0 \<and> ensure_expected_sequence session n c0 = Inr () \<and>
    tool_only c0 c1 \<and> insert_event session e c1 = Inr c2 \<and> tool_only c2 c3 \<and>
    (\<exists>w m d4 d5. upsert_projection task session w c3 = Inr d4 \<and> insert_marker session task m d4 = Inr d5 \<and>
      advance_sequence session n d5 = Inr d')"

lemma tool_commit_steps:
  assumes "tool_commit session task n e f d c0 c1 c2 c3 d'"
  shows "journal_rest d d'" and "same_tools d c0" "same_tools c1 c2" "same_tools c3 d'"
proof -
  from assms obtain w m d4 d5 where steps: "claim_task task session f d = Inr c0" "tool_only c0 c1"
      "insert_event session e c1 = Inr c2" "tool_only c2 c3" "upsert_projection task session w c3 = Inr d4"
      "insert_marker session task m d4 = Inr d5" "advance_sequence session n d5 = Inr d'"
    by (auto simp: tool_commit_def)
  have frames: "journal_frame d c0" "journal_frame c1 c2" "journal_frame c3 d4" "journal_frame d4 d5"
      "journal_frame d5 d'"
    using steps by (auto intro: journal_frame_steps)
  then have "journal_frame c3 d'" by (blast intro: journal_frame_trans)
  with frames(1,2) show "same_tools d c0" "same_tools c1 c2" "same_tools c3 d'"
    by (simp_all add: journal_frame_def)
  have "journal_rest d c0" "journal_rest c1 c2" "journal_rest c3 d'"
    using frames(1,2) \<open>journal_frame c3 d'\<close> by (simp_all add: journal_frame_def)
  with tool_only_tables(1) [OF steps(2)] tool_only_tables(1) [OF steps(4)] show "journal_rest d d'"
    by (blast intro: journal_rest_trans)
qed

lemma tool_commit_inv:
  assumes c: "tool_commit session task n e f d c0 c1 c2 c3 d'"
    and e: "ev_session_id e = session" "ev_seq e = n" "event_validate hash e = Inr ()"
    and inv: "journal_inv hash d"
  shows "journal_inv hash d'"
proof -
  from c obtain w m d4 d5 where steps: "claim_task task session f d = Inr c0"
      "ensure_expected_sequence session n c0 = Inr ()" "tool_only c0 c1"
      "insert_event session e c1 = Inr c2" "tool_only c2 c3" "upsert_projection task session w c3 = Inr d4"
      "insert_marker session task m d4 = Inr d5" "advance_sequence session n d5 = Inr d'"
    by (auto simp: tool_commit_def)
  note t1 = tool_only_tables(3,5,6) [OF steps(3)] and t2 = tool_only_tables(3,5,6) [OF steps(5)]
  from claim_task_frame [OF steps(1)] have inv0: "journal_inv hash c0"
    using inv journal_inv_cong [of c0 d] by auto
  then have inv1: "journal_inv hash c1" using journal_inv_cong [OF t1] by simp
  from ensure_expected_sequenceD [OF steps(2)] obtain r
    where "session_by_id session c0 = Some r" and r: "ss_next_sequence r = n" by blast
  then have row: "session_by_id session c1 = Some r" by (simp add: session_by_id_def t1(1))
  from insert_eventD [OF steps(4)] upsert_projection_frame [OF steps(6)]
    insert_marker_frame [OF steps(7)] advance_sequenceD [OF steps(8)] t2 e(2)
  have d': "event_by_id (ev_event_id e) c1 = None"
      "db_events d' = db_events c1 @ [\<lparr>er_session_id = session, er_sequence = ev_seq e, er_event = e\<rparr>]"
      "db_sessions d' = upd (\<lambda>x. ss_session_id x = session \<and> ss_next_sequence x = ev_seq e)
        (\<lambda>x. x\<lparr>ss_next_sequence := ss_next_sequence x + 1\<rparr>) (db_sessions c1)"
      "db_inbox d' = db_inbox c1"
    by auto
  show ?thesis
    by (rule journal_inv_append [OF inv1 row _ _ e(3) d'(1-3)]) (use e r d'(4) in auto)
qed

lemma receipt_body_commit:
  assumes "commits (receipt_body k f d) d'"
  obtains c0 c1 c2 c3 where
    "tool_commit (xc_session_id k) (xc_task_id k) (xc_expected_sequence k) (xc_event k) f d c0 c1 c2 c3 d'"
    "artifact_only c0 c1" "insert_receipt (xc_session_id k) (xc_task_id k) (xc_event k) (xc_receipt k)
      (map_option pa_artifact_id (xc_artifact k)) c2 = Inr c3"
proof -
  from assms have n: "receipt_by_id (tr_tool_execution_id (xc_receipt k)) d = None"
    by (auto simp: receipt_body_def split: option.splits if_splits)
  with assms obtain c0 c1 c2 c3 d4 d5 where steps:
      "claim_task (xc_task_id k) (xc_session_id k) f d = Inr c0"
      "ensure_expected_sequence (xc_session_id k) (xc_expected_sequence k) c0 = Inr ()"
      "(case xc_artifact k of None \<Rightarrow> Inr c0 | Some a \<Rightarrow> insert_artifact a c0) = Inr c1"
      "insert_event (xc_session_id k) (xc_event k) c1 = Inr c2"
      "insert_receipt (xc_session_id k) (xc_task_id k) (xc_event k) (xc_receipt k)
        (map_option pa_artifact_id (xc_artifact k)) c2 = Inr c3"
      "upsert_projection (xc_task_id k) (xc_session_id k) (xc_working_state k) c3 = Inr d4"
      "insert_marker (xc_session_id k) (xc_task_id k) (xc_marker k) d4 = Inr d5"
      "advance_sequence (xc_session_id k) (xc_expected_sequence k) d5 = Inr d'"
    by (auto simp: receipt_body_def bind_res_Inr)
  have a: "artifact_only c0 c1"
    using steps(3) by (cases "xc_artifact k") (auto simp: artifact_only_def dest: insert_artifact_only [unfolded artifact_only_def])
  have "tool_only c2 c3" using insert_receiptD(1) [OF steps(5)] by simp
  with steps artifact_only_tool [OF a] have
    "tool_commit (xc_session_id k) (xc_task_id k) (xc_expected_sequence k) (xc_event k) f d c0 c1 c2 c3 d'"
    unfolding tool_commit_def by blast
  from that [OF this a steps(5)] show thesis .
qed

lemma intent_body_commit:
  assumes "commits (tool_intent_body now k f d) d'"
  obtains c0 c1 c2 c3 where
    "tool_commit (tc_session_id (ti_call (ic_intent k))) (tc_task_id (ti_call (ic_intent k)))
      (ic_expected_sequence k) (ic_event k) f d c0 c1 c2 c3 d'"
    "consume_tool_approval now (ti_approval (ic_intent k)) (tc_execution_id (ti_call (ic_intent k))) c0 = Inr c1"
    "insert_intent (ic_intent k) (ev_event_id (ic_event k)) c2 = Inr c3"
proof -
  let ?c = "ti_call (ic_intent k)"
  from assms have n: "intent_by_id (tc_execution_id ?c) d = None"
    by (auto simp: tool_intent_body_def Let_def split: if_splits)
  with assms obtain c0 c1 c2 c3 d4 d5 where steps:
      "claim_task (tc_task_id ?c) (tc_session_id ?c) f d = Inr c0"
      "ensure_expected_sequence (tc_session_id ?c) (ic_expected_sequence k) c0 = Inr ()"
      "consume_tool_approval now (ti_approval (ic_intent k)) (tc_execution_id ?c) c0 = Inr c1"
      "insert_event (tc_session_id ?c) (ic_event k) c1 = Inr c2"
      "insert_intent (ic_intent k) (ev_event_id (ic_event k)) c2 = Inr c3"
      "upsert_projection (tc_task_id ?c) (tc_session_id ?c) (ic_working_state k) c3 = Inr d4"
      "insert_marker (tc_session_id ?c) (tc_task_id ?c) (ic_marker k) d4 = Inr d5"
      "advance_sequence (tc_session_id ?c) (ic_expected_sequence k) d5 = Inr d'"
    by (auto simp: tool_intent_body_def Let_def bind_res_Inr)
  have "tool_only c0 c1" using steps(3) by (rule consume_tool_approvalD) simp
  moreover have "tool_only c2 c3" using insert_intentD(1) [OF steps(5)] by simp
  ultimately have "tool_commit (tc_session_id ?c) (tc_task_id ?c) (ic_expected_sequence k) (ic_event k)
      f d c0 c1 c2 c3 d'"
    using steps unfolding tool_commit_def by blast
  from that [OF this steps(3,5)] show thesis .
qed

lemma task_update_body_commit:
  assumes "commits (task_update_body now k f d) d'"
  obtains c0 c1 c2 where
    "tool_commit (uc_session_id k) (uc_task_id k) (uc_expected_sequence k) (uc_event k) f d c0 c1 c2 c2 d'"
    "consume_tool_approval now (uc_approval k) ''task_update'' c0 = Inr c1"
proof -
  from assms obtain c0 c1 c2 d4 d5 where steps:
      "claim_task (uc_task_id k) (uc_session_id k) f d = Inr c0"
      "ensure_expected_sequence (uc_session_id k) (uc_expected_sequence k) c0 = Inr ()"
      "consume_tool_approval now (uc_approval k) ''task_update'' c0 = Inr c1"
      "insert_event (uc_session_id k) (uc_event k) c1 = Inr c2"
      "upsert_projection (uc_task_id k) (uc_session_id k) (uc_working_state k) c2 = Inr d4"
      "insert_marker (uc_session_id k) (uc_task_id k) (uc_marker k) d4 = Inr d5"
      "advance_sequence (uc_session_id k) (uc_expected_sequence k) d5 = Inr d'"
    by (auto simp: task_update_body_def bind_res_Inr)
  have "tool_only c0 c1" using steps(3) by (rule consume_tool_approvalD) simp
  then have "tool_commit (uc_session_id k) (uc_task_id k) (uc_expected_sequence k) (uc_event k)
      f d c0 c1 c2 c2 d'"
    using steps tool_only_refl [of c2] unfolding tool_commit_def by blast
  from that [OF this steps(3)] show thesis .
qed

lemma settlement_body_commit:
  assumes "commits (tool_settlement_body k f d) d'"
  obtains i c0 c1 c2 c3 where
    "tool_commit (ev_session_id (zc_event k)) (tr_task_id (zc_receipt k)) (zc_expected_sequence k)
      (zc_event k) f d c0 c1 c2 (settle_intent (tr_tool_execution_id (zc_receipt k)) (zc_final_status k) c3) d'"
    "artifact_only c0 c1" "insert_receipt (ev_session_id (zc_event k)) (tr_task_id (zc_receipt k)) (zc_event k)
      (zc_receipt k) (map_option pa_artifact_id (zc_artifact k)) c2 = Inr c3"
    "intent_by_id (tr_tool_execution_id (zc_receipt k)) d = Some i" "iw_status i = StatusRecorded"
proof -
  let ?x = "tr_tool_execution_id (zc_receipt k)" and ?s = "ev_session_id (zc_event k)"
    and ?t = "tr_task_id (zc_receipt k)"
  from assms have n: "receipt_by_id ?x d = None"
    by (auto simp: tool_settlement_body_def Let_def split: option.splits if_splits)
  with assms obtain i where i: "intent_by_id ?x d = Some i"
    by (auto simp: tool_settlement_body_def Let_def split: option.splits)
  with assms n have st: "\<not> (tc_session_id (iw_call i) \<noteq> ?s \<or> tc_task_id (iw_call i) \<noteq> ?t \<or> iw_status i \<noteq> StatusRecorded)"
    by (auto simp: tool_settlement_body_def Let_def split: if_splits)
  have "tool_settlement_body k f d =
      bind_res (ensure_session_existing ?s ?t d) (\<lambda>_.
      bind_res (claim_task ?t ?s f d) (\<lambda>d.
      bind_res (ensure_expected_sequence ?s (zc_expected_sequence k) d) (\<lambda>_.
      bind_res (scope_artifact k d) (\<lambda>d.
      bind_res (insert_event ?s (zc_event k) d) (\<lambda>d.
      bind_res (insert_receipt ?s ?t (zc_event k) (zc_receipt k) (map_option pa_artifact_id (zc_artifact k)) d) (\<lambda>d.
      bind_res (upsert_projection ?t ?s (zc_working_state k) (settle_intent ?x (zc_final_status k) d)) (\<lambda>d.
      bind_res (insert_marker ?s ?t (zc_marker k) d) (\<lambda>d.
      bind_res (advance_sequence ?s (zc_expected_sequence k) d) (\<lambda>d.
      Inr (CommitAt BeforeToolSettlementCommit \<lparr>xa_event_id = ev_event_id (zc_event k),
        xa_sequence = ev_seq (zc_event k), xa_idempotent_replay = False\<rparr> d))))))))))"
    using st by (simp add: tool_settlement_body_def Let_def n i)
  with assms obtain c0 c1 c2 c3 d4 d5 where steps: "claim_task ?t ?s f d = Inr c0"
      "ensure_expected_sequence ?s (zc_expected_sequence k) c0 = Inr ()"
      "scope_artifact k c0 = Inr c1" "insert_event ?s (zc_event k) c1 = Inr c2"
      "insert_receipt ?s ?t (zc_event k) (zc_receipt k) (map_option pa_artifact_id (zc_artifact k)) c2 = Inr c3"
      "upsert_projection ?t ?s (zc_working_state k) (settle_intent ?x (zc_final_status k) c3) = Inr d4"
      "insert_marker ?s ?t (zc_marker k) d4 = Inr d5" "advance_sequence ?s (zc_expected_sequence k) d5 = Inr d'"
    by auto
  have a: "artifact_only c0 c1" using steps(3) by (rule scope_artifact_only)
  have "tool_only c2 (settle_intent ?x (zc_final_status k) c3)"
    using insert_receiptD(1) [OF steps(5)] by (simp add: settle_intent_def tool_only_def)
  with steps artifact_only_tool [OF a] have "tool_commit ?s ?t (zc_expected_sequence k) (zc_event k) f d
      c0 c1 c2 (settle_intent ?x (zc_final_status k) c3) d'"
    unfolding tool_commit_def by blast
  from that [OF this a steps(5) i] st show thesis by simp
qed

section \<open>The invariant of tool executions\<close>

text \<open>
  Every intent rests on an approval of its own that was consumed for it and binds what it does;
  a settled intent has its receipt.
\<close>

definition authorises :: "tool_approval_binding \<Rightarrow> tool_call \<Rightarrow> bool" where
  "authorises b c \<longleftrightarrow> ab_actor_id b = tc_actor_id c \<and> ab_action_hash b = tc_action_hash c \<and>
    ab_workspace_root b = tc_workspace_root c \<and> ab_workspace_fingerprint b = tc_workspace_fingerprint c \<and>
    ab_policy_revision b = tc_policy_revision c \<and> ab_tool_revision b = tc_tool_revision c"

definition spent_for :: "string \<Rightarrow> approval_row \<Rightarrow> bool" where
  "spent_for w a \<longleftrightarrow> row_state a = ApprovalSpent \<and> ar_consumed_by a = Some w"

definition intent_authorised :: "approval_row list \<Rightarrow> intent_row \<Rightarrow> bool" where
  "intent_authorised as i \<longleftrightarrow> (\<exists>a \<in> set as. row_id a = iw_approval_id i \<and>
    spent_for (tc_execution_id (iw_call i)) a \<and> authorises (ta_binding (ar_approval a)) (iw_call i))"

definition intent_closed :: "receipt_row list \<Rightarrow> intent_row \<Rightarrow> bool" where
  "intent_closed rs i \<longleftrightarrow> iw_status i = StatusRecorded \<or>
    iw_settlement i = Some (tc_execution_id (iw_call i)) \<and>
    (\<exists>r \<in> set rs. rr_execution_id r = tc_execution_id (iw_call i))"

definition tools_inv :: "db \<Rightarrow> bool" where
  "tools_inv d \<longleftrightarrow> keyed (\<lambda>r. row_id r) (db_approvals d) \<and>
    keyed (\<lambda>r. tc_execution_id (iw_call r)) (db_intents d) \<and> keyed rr_execution_id (db_receipts d) \<and>
    (\<forall>i \<in> set (db_intents d). intent_authorised (db_approvals d) i \<and> intent_closed (db_receipts d) i)"

text \<open>What no step undoes.\<close>

definition approval_later :: "approval_row \<Rightarrow> approval_row \<Rightarrow> bool" where
  "approval_later a a' \<longleftrightarrow> ta_binding (ar_approval a') = ta_binding (ar_approval a) \<and>
    ta_binding_hash (ar_approval a') = ta_binding_hash (ar_approval a) \<and>
    ta_expires_at (ar_approval a') = ta_expires_at (ar_approval a) \<and>
    ta_json (ar_approval a') = ta_json (ar_approval a) \<and>
    (row_state a \<noteq> ApprovalActive \<longrightarrow> a' = a)"

definition intent_later :: "intent_row \<Rightarrow> intent_row \<Rightarrow> bool" where
  "intent_later i i' \<longleftrightarrow> iw_call i' = iw_call i \<and> iw_approval_id i' = iw_approval_id i \<and>
    iw_event_id i' = iw_event_id i \<and> (iw_status i \<noteq> StatusRecorded \<longrightarrow> i' = i)"

definition tools_later :: "db \<Rightarrow> db \<Rightarrow> bool" where
  "tools_later d d' \<longleftrightarrow> (\<forall>a \<in> set (db_approvals d). \<exists>a' \<in> set (db_approvals d'). approval_later a a') \<and>
    (\<forall>i \<in> set (db_intents d). \<exists>i' \<in> set (db_intents d'). intent_later i i') \<and>
    (\<exists>rs. db_receipts d' = db_receipts d @ rs)"

lemma approval_later_refl [simp, intro]: "approval_later a a" and intent_later_refl [simp, intro]: "intent_later i i"
  by (simp_all add: approval_later_def intent_later_def)

lemma approval_later_trans: "approval_later a b \<Longrightarrow> approval_later b c \<Longrightarrow> approval_later a c"
  unfolding approval_later_def by (elim conjE) metis

lemma intent_later_trans: "intent_later a b \<Longrightarrow> intent_later b c \<Longrightarrow> intent_later a c"
  unfolding intent_later_def by (elim conjE) metis

lemma tools_later_trans:
  assumes "tools_later d e" and "tools_later e g"
  shows "tools_later d g"
  unfolding tools_later_def
proof (intro conjI ballI)
  fix a assume "a \<in> set (db_approvals d)"
  then show "\<exists>a' \<in> set (db_approvals g). approval_later a a'"
    using assms approval_later_trans unfolding tools_later_def by meson
next
  fix i assume "i \<in> set (db_intents d)"
  then show "\<exists>i' \<in> set (db_intents g). intent_later i i'"
    using assms intent_later_trans unfolding tools_later_def by meson
next
  show "\<exists>rs. db_receipts g = db_receipts d @ rs" using assms by (auto simp: tools_later_def)
qed

lemma tools_same:
  assumes "same_tools d d'"
  shows "tools_inv d' \<longleftrightarrow> tools_inv d" and "tools_later d d'"
  using assms by (auto simp: tools_inv_def tools_later_def same_tools_def intro: approval_later_refl intent_later_refl)

lemma tools_inv_empty: "tools_inv empty_db"
  by (simp add: tools_inv_def empty_db_def)

lemma consumed_simps [simp]:
  "row_id (mark_consumed w r) = row_id r" "row_id (revoked t r) = row_id r"
  "ta_binding (ar_approval (mark_consumed w r)) = ta_binding (ar_approval r)"
  "row_state (mark_consumed w r) = ApprovalSpent" "ar_consumed_by (mark_consumed w r) = Some w"
  by (simp_all add: mark_consumed_def revoked_def)

lemma approval_later_upd:
  "g = mark_consumed w \<or> g = revoked t \<Longrightarrow> active_row i a \<Longrightarrow> approval_later a (g a)"
  by (elim disjE) (simp_all add: approval_later_def active_row_def mark_consumed_def revoked_def)

lemma upd_approvals_later:
  assumes "g = mark_consumed w \<or> g = revoked t" and "a \<in> set as"
  shows "\<exists>a' \<in> set (upd (active_row i) g as). approval_later a a'"
proof (cases "active_row i a")
  case True
  with assms(2) have "g a \<in> set (upd (active_row i) g as)" by (force simp: set_upd)
  then show ?thesis using approval_later_upd [OF assms(1) True] by blast
next
  case False
  with assms(2) have "a \<in> set (upd (active_row i) g as)" by (force simp: set_upd)
  then show ?thesis using approval_later_refl by blast
qed

lemma upd_approvals_authorised:
  assumes "g = mark_consumed w \<or> g = revoked t" and "intent_authorised as i"
  shows "intent_authorised (upd (active_row x) g as) i"
proof -
  from assms(2) obtain a where a: "a \<in> set as" "row_id a = iw_approval_id i"
      "spent_for (tc_execution_id (iw_call i)) a" "authorises (ta_binding (ar_approval a)) (iw_call i)"
    by (auto simp: intent_authorised_def)
  then have "\<not> active_row x a" by (simp add: active_row_def spent_for_def)
  with a(1) have "a \<in> set (upd (active_row x) g as)" by (force simp: set_upd)
  with a show ?thesis by (auto simp: intent_authorised_def)
qed

lemma approvals_keyed_upd:
  "g = mark_consumed w \<or> g = revoked t \<Longrightarrow>
    keyed (\<lambda>r. row_id r) (upd (active_row x) g as) \<longleftrightarrow> keyed (\<lambda>r. row_id r) as"
  by (elim disjE) (simp_all only:, (rule keyed_upd, simp)+)

lemma approvals_upd_tools:
  assumes inv: "tools_inv d" and g: "g = mark_consumed w \<or> g = revoked t"
    and d': "db_approvals d' = upd (active_row x) g (db_approvals d)" "db_intents d' = db_intents d"
      "db_receipts d' = db_receipts d"
  shows "tools_inv d' \<and> tools_later d d'"
proof
  show "tools_inv d'" using inv approvals_keyed_upd [OF g] upd_approvals_authorised [OF g]
    by (simp add: tools_inv_def d')
  show "tools_later d d'" using upd_approvals_later [OF g] by (auto simp: tools_later_def d' intro: intent_later_refl)
qed

lemma issue_tools:
  assumes inv: "tools_inv d" and body: "commits (issue_approval_body a f d) d'"
  shows "tools_inv d' \<and> tools_later d d'"
proof (cases "approval_by_id (ab_approval_id (ta_binding a)) d")
  case None
  let ?r = "\<lparr>ar_approval = a, ar_consumed_by = None, ar_revoked_reason = None\<rparr>"
  from None body have d': "d' = d\<lparr>db_approvals := db_approvals d @ [?r]\<rparr>"
    by (auto simp: issue_approval_body_def split: option.splits sum.splits)
  have "keyed (\<lambda>r. row_id r) (db_approvals d @ [?r])"
    using inv None by (auto simp: tools_inv_def keyed_snoc approval_by_id_def sel_None)
  moreover have "intent_authorised (db_approvals d @ [?r]) i" if "intent_authorised (db_approvals d) i" for i
    using that by (auto simp: intent_authorised_def)
  ultimately have "tools_inv d'" using inv by (simp add: d' tools_inv_def)
  moreover have "tools_later d d'" by (auto simp: d' tools_later_def intro: approval_later_refl intent_later_refl)
  ultimately show ?thesis by simp
next
  case (Some row)
  with body have "d' = d" by (auto simp: issue_approval_body_def split: option.splits sum.splits if_splits)
  then show ?thesis using inv tools_same(2) [of d d] by (simp add: same_tools_def)
qed

lemma revoke_tools:
  assumes inv: "tools_inv d" and body: "commits (revoke_approval_body i reason f d) d'"
  shows "tools_inv d' \<and> tools_later d d'"
  by (rule approvals_upd_tools [OF inv, of "revoked reason" w reason])
    (use body in \<open>auto simp: revoke_approval_body_def split: if_splits\<close>)


definition tools_step :: "db \<Rightarrow> db \<Rightarrow> bool" where
  "tools_step d d' \<longleftrightarrow> (tools_inv d \<longrightarrow> tools_inv d' \<and> tools_later d d')"

lemma tools_step_trans [trans]: "tools_step d e \<Longrightarrow> tools_step e g \<Longrightarrow> tools_step d g"
  unfolding tools_step_def using tools_later_trans by blast

lemma same_tools_step: "same_tools d d' \<Longrightarrow> tools_step d d'"
  using tools_same by (simp add: tools_step_def)

lemma artifact_only_step: "artifact_only d d' \<Longrightarrow> tools_step d d'"
  using artifact_only_tables [of d d'] by (auto simp: tools_step_def tools_inv_def tools_later_def)

lemma consume_step:
  assumes "consume_tool_approval now b w d = Inr d'"
  shows "tools_step d d'"
proof -
  from assms obtain x where d': "d' = d\<lparr>db_approvals := upd (active_row x) (mark_consumed w) (db_approvals d)\<rparr>"
    by (rule consume_tool_approvalD)
  show ?thesis unfolding tools_step_def
    using approvals_upd_tools [of d "mark_consumed w" w undefined d' x] d' by simp
qed

lemma receipt_step:
  assumes "insert_receipt session task e r artifact d = Inr d'"
  shows "tools_step d d'"
proof -
  note d' = insert_receiptD [OF assms]
  let ?r = "\<lparr>rr_execution_id = tr_tool_execution_id r, rr_session_id = session, rr_task_id = task,
      rr_event_id = ev_event_id e, rr_sequence = ev_seq e, rr_receipt = r, rr_artifact_id = artifact\<rparr>"
  have "intent_closed (db_receipts d @ [?r]) i" if "intent_closed (db_receipts d) i" for i
    using that by (auto simp: intent_closed_def)
  moreover have "keyed rr_execution_id (db_receipts d @ [?r])" if "keyed rr_execution_id (db_receipts d)"
    using that d'(2) by (simp add: keyed_snoc receipt_by_id_def sel_None)
  ultimately show ?thesis by (auto simp: tools_step_def tools_inv_def tools_later_def d'(1))
qed

lemma settle_step:
  assumes receipt: "\<exists>r \<in> set (db_receipts d). rr_execution_id r = x"
  shows "tools_step d (settle_intent x status d)"
proof -
  let ?f = "\<lambda>r. r\<lparr>iw_status := status, iw_settlement := Some x\<rparr>"
  let ?is = "upd (recorded_row x) ?f (db_intents d)"
  have keyed: "keyed (\<lambda>r. tc_execution_id (iw_call r)) ?is \<longleftrightarrow>
      keyed (\<lambda>r. tc_execution_id (iw_call r)) (db_intents d)"
    by (rule keyed_upd) simp
  have inv: "intent_authorised (db_approvals d) i \<and> intent_closed (db_receipts d) i"
    if "\<forall>i \<in> set (db_intents d). intent_authorised (db_approvals d) i \<and> intent_closed (db_receipts d) i"
      and "i \<in> set ?is" for i
  proof -
    from that(2) obtain j where j: "j \<in> set (db_intents d)" "i = (if recorded_row x j then ?f j else j)"
      by (auto simp: set_upd)
    then have "intent_authorised (db_approvals d) i" using that(1)
      by (simp add: intent_authorised_def)
    moreover have "intent_closed (db_receipts d) i" using j that(1) receipt
      by (simp add: intent_closed_def recorded_row_def)
    ultimately show ?thesis by simp
  qed
  have later: "\<exists>i' \<in> set ?is. intent_later i i'" if "i \<in> set (db_intents d)" for i
  proof (cases "recorded_row x i")
    case True
    with that have "?f i \<in> set ?is" by (force simp: set_upd)
    moreover have "intent_later i (?f i)" using True by (simp add: intent_later_def recorded_row_def)
    ultimately show ?thesis by blast
  next
    case False
    with that have "i \<in> set ?is" by (force simp: set_upd)
    then show ?thesis using intent_later_refl by blast
  qed
  have tables: "db_approvals (settle_intent x status d) = db_approvals d"
      "db_intents (settle_intent x status d) = ?is" "db_receipts (settle_intent x status d) = db_receipts d"
    by (simp_all add: settle_intent_def)
  have "tools_inv (settle_intent x status d)" if "tools_inv d"
  proof -
    from that have a: "keyed (\<lambda>r. row_id r) (db_approvals d)" "keyed rr_execution_id (db_receipts d)"
        "keyed (\<lambda>r. tc_execution_id (iw_call r)) (db_intents d)"
        "\<forall>i \<in> set (db_intents d). intent_authorised (db_approvals d) i \<and> intent_closed (db_receipts d) i"
      by (simp_all add: tools_inv_def)
    have "\<forall>i \<in> set ?is. intent_authorised (db_approvals d) i \<and> intent_closed (db_receipts d) i"
      using inv [OF a(4)] by blast
    with a(1,2) keyed [THEN iffD2, OF a(3)] show ?thesis unfolding tools_inv_def tables by blast
  qed
  moreover have "tools_later d (settle_intent x status d)"
    unfolding tools_later_def tables using later by (intro conjI) auto
  ultimately show ?thesis by (simp add: tools_step_def)
qed

text \<open>An intent is recorded in the transaction that spends its approval.\<close>

lemma intent_step:
  assumes consume: "consume_tool_approval now (ti_approval i) (tc_execution_id (ti_call i)) d = Inr d1"
    and same: "same_tools d1 d2" and ins: "insert_intent i ev d2 = Inr d3"
    and bound: "authorises (ti_approval i) (ti_call i)" "ti_status i = StatusRecorded"
  shows "tools_step d1 d3"
proof -
  note d3 = insert_intentD [OF ins]
  let ?c = "ti_call i"
  let ?r = "\<lparr>iw_call = ?c, iw_approval_id = ab_approval_id (ti_approval i), iw_status = ti_status i,
      iw_event_id = ev, iw_settlement = None\<rparr>"
  from consume obtain row where row: "approval_by_id (ab_approval_id (ti_approval i)) d = Some row"
      "row_state row = ApprovalActive" "ta_binding (ar_approval row) = ti_approval i"
      and d1: "d1 = d\<lparr>db_approvals := upd (active_row (ab_approval_id (ti_approval i)))
        (mark_consumed (tc_execution_id ?c)) (db_approvals d)\<rparr>"
    by (rule consume_tool_approvalD)
  have "row \<in> set (db_approvals d)" using row(1) by (auto simp: approval_by_id_def dest: sel_SomeD)
  moreover have "active_row (ab_approval_id (ti_approval i)) row"
    using row(2,3) by (simp add: active_row_def)
  ultimately have "mark_consumed (tc_execution_id ?c) row \<in> set (db_approvals d1)"
    by (force simp: d1 set_upd)
  then have auth: "intent_authorised (db_approvals d1) ?r" unfolding intent_authorised_def
    using row(3) bound(1) by (intro bexI) (auto simp: spent_for_def)
  have tools: "db_approvals d2 = db_approvals d1" "db_intents d2 = db_intents d1" "db_receipts d2 = db_receipts d1"
    using same by (simp_all add: same_tools_def)
  have fresh: "\<forall>r \<in> set (db_intents d1). tc_execution_id (iw_call r) \<noteq> tc_execution_id ?c"
    using d3(2) by (simp add: intent_by_id_def sel_None tools)
  show ?thesis unfolding tools_step_def tools_inv_def tools_later_def
    using auth fresh bound(2) by (auto simp: d3(1) tools keyed_snoc intent_closed_def)
qed

section \<open>Each commit keeps the invariant\<close>

lemma receipt_tools:
  assumes "commits (receipt_body k f d) d'"
  shows "tools_step d d'"
  using assms
proof (rule receipt_body_commit)
  fix c0 c1 c2 c3
  assume c: "tool_commit (xc_session_id k) (xc_task_id k) (xc_expected_sequence k) (xc_event k) f d c0 c1 c2 c3 d'"
    and "artifact_only c0 c1" "insert_receipt (xc_session_id k) (xc_task_id k) (xc_event k) (xc_receipt k)
      (map_option pa_artifact_id (xc_artifact k)) c2 = Inr c3"
  then show ?thesis
    using tool_commit_steps(2-4) [OF c] artifact_only_step receipt_step same_tools_step tools_step_trans by meson
qed

lemma task_update_tools:
  assumes "commits (task_update_body now k f d) d'"
  shows "tools_step d d'"
  using assms
proof (rule task_update_body_commit)
  fix c0 c1 c2
  assume c: "tool_commit (uc_session_id k) (uc_task_id k) (uc_expected_sequence k) (uc_event k) f d c0 c1 c2 c2 d'"
    and "consume_tool_approval now (uc_approval k) ''task_update'' c0 = Inr c1"
  then show ?thesis
    using tool_commit_steps(2-4) [OF c] consume_step same_tools_step tools_step_trans by meson
qed

lemma intent_tools:
  assumes "commits (tool_intent_body now k f d) d'" and "intent_bound (ic_intent k) (ic_expected_sequence k)"
  shows "tools_step d d'"
  using assms(1)
proof (rule intent_body_commit)
  fix c0 c1 c2 c3
  assume c: "tool_commit (tc_session_id (ti_call (ic_intent k))) (tc_task_id (ti_call (ic_intent k)))
      (ic_expected_sequence k) (ic_event k) f d c0 c1 c2 c3 d'"
    and u: "consume_tool_approval now (ti_approval (ic_intent k)) (tc_execution_id (ti_call (ic_intent k))) c0 = Inr c1"
    and ins: "insert_intent (ic_intent k) (ev_event_id (ic_event k)) c2 = Inr c3"
  from assms(2) have "authorises (ti_approval (ic_intent k)) (ti_call (ic_intent k))"
      "ti_status (ic_intent k) = StatusRecorded"
    by (simp_all add: intent_bound_def authorises_def Let_def)
  then have "tools_step c1 c3" using intent_step [OF u _ ins] tool_commit_steps(3) [OF c] by simp
  then show ?thesis
    using tool_commit_steps(2,4) [OF c] consume_step [OF u] same_tools_step tools_step_trans by meson
qed

lemma settlement_tools:
  assumes "commits (tool_settlement_body k f d) d'"
  shows "tools_step d d'"
  using assms
proof (rule settlement_body_commit)
  let ?x = "tr_tool_execution_id (zc_receipt k)"
  fix i c0 c1 c2 c3
  assume c: "tool_commit (ev_session_id (zc_event k)) (tr_task_id (zc_receipt k)) (zc_expected_sequence k)
      (zc_event k) f d c0 c1 c2 (settle_intent ?x (zc_final_status k) c3) d'"
    and a: "artifact_only c0 c1" and r: "insert_receipt (ev_session_id (zc_event k)) (tr_task_id (zc_receipt k))
      (zc_event k) (zc_receipt k) (map_option pa_artifact_id (zc_artifact k)) c2 = Inr c3"
  have "\<exists>r \<in> set (db_receipts c3). rr_execution_id r = ?x" by (simp add: insert_receiptD(1) [OF r])
  then have "tools_step c3 (settle_intent ?x (zc_final_status k) c3)" by (rule settle_step)
  then show ?thesis
    using tool_commit_steps(2-4) [OF c] artifact_only_step [OF a] receipt_step [OF r] same_tools_step tools_step_trans
    by meson
qed

section \<open>The operations are fenced\<close>

lemma tool_commit_hosts: "tool_commit session task n e f d c0 c1 c2 c3 d' \<Longrightarrow> same_hosts d d'"
  using tool_commit_steps(1) by (simp add: journal_rest_def)

interpretation issue_approval_op: fenced_operation "issue_tool_approval hash a" for hash a
  unfolding issue_tool_approval_def
  by (rule fenced_guard, rule write_tx_fenced, rule body_keeps_hostsI)
    (auto simp: issue_approval_body_def same_hosts_def split: option.splits sum.splits if_splits)

lemma revoke_approval_fenced: "fenced_operation (write_tx (revoke_approval_body i reason))"
  by (rule write_tx_fenced, rule body_keeps_hostsI)
    (auto simp: revoke_approval_body_def same_hosts_def split: if_splits)

lemma revoke_approval_guard: "revoke_tool_approval i reason =
    (\<lambda>s. case (if blank reason then Inl InvalidPayload else Inr ()) of
      Inl e \<Rightarrow> (Inl e, s) | Inr _ \<Rightarrow> write_tx (revoke_approval_body i reason) s)"
  by (simp add: revoke_tool_approval_def fun_eq_iff)

interpretation revoke_approval_op: fenced_operation "revoke_tool_approval i reason" for i reason
  unfolding revoke_approval_guard by (rule fenced_guard [OF revoke_approval_fenced])

interpretation receipt_op: fenced_operation "commit_receipt hash files hash_bytes k" for hash files hash_bytes k
  unfolding commit_receipt_def
  by (rule fenced_guard, rule write_tx_fenced, rule body_keeps_hostsI)
    (auto elim!: receipt_body_commit dest: tool_commit_hosts)

interpretation intent_op: fenced_operation "commit_tool_intent hash now k" for hash now k
  unfolding commit_tool_intent_def
  by (rule fenced_guard, rule write_tx_fenced, rule body_keeps_hostsI)
    (auto elim!: intent_body_commit dest: tool_commit_hosts)

interpretation settlement_op: fenced_operation "commit_tool_settlement hash files hash_bytes k"
  for hash files hash_bytes k
  unfolding commit_tool_settlement_def
  by (rule fenced_guard, rule write_tx_fenced, rule body_keeps_hostsI)
    (auto elim!: settlement_body_commit dest: tool_commit_hosts)

interpretation task_update_op: fenced_operation "commit_tool_task_update hash now k" for hash now k
  unfolding commit_tool_task_update_def
  by (rule fenced_guard, rule write_tx_fenced, rule body_keeps_hostsI)
    (auto elim!: task_update_body_commit dest: tool_commit_hosts)

end
