(* ===== verification/Store_System.thy ===== *)
theory Store_System imports Systems Human_Store Run_Store Tool_Store begin

text \<open>
  The store as a system: any number of handles, each with the fence it was opened with, run
  the operations of the other store theories on one database, and hosts take the writer role
  over. The invariant of every reachable database is the conjunction of the components'
  invariants; the history relation says what no later step undoes. What the program relies on
  (one writer, a gapless journal, an exact ledger, answers that stay) follows for every
  reachable state.
\<close>

section \<open>What no transaction undoes\<close>

text \<open>A reservation keeps its terms; once it is closed it is never written again.\<close>

definition reservation_later :: "reservation \<Rightarrow> reservation \<Rightarrow> bool" where
  "reservation_later r r' \<longleftrightarrow> br_id r' = br_id r \<and> br_budget_id r' = br_budget_id r \<and>
    br_operation_id r' = br_operation_id r \<and> br_origin r' = br_origin r \<and> br_bound r' = br_bound r \<and>
    (br_state r \<noteq> Reserved \<longrightarrow> r' = r)"

definition reservations_later :: "db \<Rightarrow> db \<Rightarrow> bool" where
  "reservations_later d d' \<longleftrightarrow>
    (\<forall>r \<in> set (db_reservations d). \<exists>r' \<in> set (db_reservations d'). reservation_later r r')"

lemma reservation_later_refl [simp]: "reservation_later r r"
  by (simp add: reservation_later_def)

lemma reservation_later_trans: "reservation_later r x \<Longrightarrow> reservation_later x y \<Longrightarrow> reservation_later r y"
  by (auto simp: reservation_later_def)

lemma reservations_later_refl: "db_reservations d' = db_reservations d \<Longrightarrow> reservations_later d d'"
  by (auto simp: reservations_later_def intro: reservation_later_refl)

lemma reservations_later_trans: "reservations_later d e \<Longrightarrow> reservations_later e g \<Longrightarrow> reservations_later d g"
  unfolding reservations_later_def by (meson reservation_later_trans)

lemma reservations_later_snoc: "db_reservations d' = db_reservations d @ rs \<Longrightarrow> reservations_later d d'"
  by (auto simp: reservations_later_def intro: reservation_later_refl)

lemma charge_reservations: "charge_chain b delta d = Inr d' \<Longrightarrow> db_reservations d' = db_reservations d"
  by (auto simp: charge_chain_def split: sum.splits)

lemma insert_reservation_later: "insert_reservation r d = Inr (i, d') \<Longrightarrow> reservations_later d d'"
  by (erule insert_reservationD) (simp_all add: reservations_later_refl reservations_later_snoc)

lemma set_reservation_later:
  assumes keyed: "keyed br_id (db_reservations d)" and row: "reservation_by_id i d = Some r" "br_state r = Reserved"
    and f: "reservation_later r (f r)"
  shows "reservations_later d (set_reservation i (br_revision r) f d)"
proof -
  from row(1) have r: "r \<in> set (db_reservations d)" "br_id r = i"
    unfolding reservation_by_id_def by (auto dest: sel_SomeD)
  show ?thesis unfolding reservations_later_def set_reservation_key [OF keyed row(1)]
  proof
    fix x assume x: "x \<in> set (db_reservations d)"
    let ?y = "if br_id x = i then f x else x"
    have "?y \<in> set (db_reservations (d\<lparr>db_reservations := upd (\<lambda>r. br_id r = i) f (db_reservations d)\<rparr>))"
      using x by (auto simp: set_upd)
    moreover have "reservation_later x ?y"
      using keyed_same [OF keyed x r(1)] r(2) f by auto
    ultimately show "\<exists>y \<in> set (db_reservations (d\<lparr>db_reservations := upd (\<lambda>r. br_id r = i) f (db_reservations d)\<rparr>)).
      reservation_later x y" by blast
  qed
qed

lemma set_reservation_after_charge:
  assumes inv: "budget_inv d" and row: "reservation_by_id i d = Some r" "br_state r = Reserved"
    and d1: "db_reservations d1 = db_reservations d" and f: "reservation_later r (f r)"
  shows "reservations_later d (set_reservation i (br_revision r) f d1)"
proof -
  have "keyed br_id (db_reservations d1)" "reservation_by_id i d1 = Some r"
    using inv row(1) d1 by (simp_all add: budget_inv_def reservation_by_id_def)
  from set_reservation_later [where f = f, OF this row(2) f] d1 show ?thesis by (simp add: reservations_later_def)
qed

lemma reserve_later: "commits (reserve_body r f d) d' \<Longrightarrow> reservations_later d d'"
  by (auto simp: reserve_body_def split: option.splits if_splits
    dest!: insert_reservation_later charge_reservations
    intro: reservations_later_trans [OF _ reservations_later_refl])

lemma release_later:
  assumes inv: "budget_inv d" and body: "commits (release_body i f d) d'"
  shows "reservations_later d d'"
proof -
  let ?g = "\<lambda>r. r\<lparr>br_state := Released, br_revision := br_revision r + 1\<rparr>"
  from body obtain r d1 where r: "reservation_by_id i d = Some r" "br_state r = Reserved"
    and charge: "charge_chain (br_budget_id r) (- int (br_bound r)) d = Inr d1"
    and d': "d' = set_reservation i (br_revision r) ?g d1"
    by (auto simp: release_body_def split: option.splits if_splits)
  show ?thesis unfolding d'
    by (rule set_reservation_after_charge [OF inv r charge_reservations [OF charge]])
      (simp add: reservation_later_def r(2))
qed

lemma settle_in_tx_later:
  assumes inv: "budget_inv d" and settle: "settle_in_tx s d = Inr (a, d')"
  shows "reservations_later d d'"
  using settle
proof (cases rule: settle_in_txD)
  case (settled r d1 delta)
  from settled(4) have d1: "db_reservations d1 = db_reservations d"
    by (auto dest: charge_reservations split: if_splits)
  show ?thesis unfolding settled(6)
    by (rule set_reservation_after_charge [OF inv settled(1,2) d1])
      (simp add: reservation_later_def settled_row_def settled(2))
qed (simp add: reservations_later_refl)

lemma freeze_later:
  assumes "commits (freeze_run_step_body r n step res f d) d'"
  shows "reservations_later d d'"
  using assms
proof (rule freeze_bodyE)
  fix cur d1
  assume "(case res of None \<Rightarrow> Inr d | Some x \<Rightarrow> reserve_for_step x d) = Inr d1"
  then have "reservations_later d d1"
    by (auto simp: reserve_for_step_def bind_res_Inr split: option.splits if_splits
      dest!: insert_reservation_later charge_reservations
      intro: reservations_later_refl reservations_later_trans [OF _ reservations_later_refl])
  moreover assume "d' = d1\<lparr>db_steps := db_steps d1 @ [step\<lparr>st_stop_reason := None\<rparr>],
      db_runs := upd (\<lambda>x. run_id x = r \<and> run_revision x = n) (\<lambda>x. x\<lparr>run_revision := run_revision x + 1\<rparr>) (db_runs d1)\<rparr>"
  ultimately show ?thesis by (simp add: reservations_later_def)
qed

lemma settle_run_step_in_tx_later:
  assumes "settle_run_step_in_tx step state reason x d = Inr d'" and inv: "budget_inv d"
  shows "reservations_later d d'"
proof -
  from settle_run_step_in_txD [OF assms(1)] obtain ss where
    d': "case x of None \<Rightarrow> d' = d\<lparr>db_steps := ss\<rparr> | Some y \<Rightarrow> \<exists>a. settle_in_tx y (d\<lparr>db_steps := ss\<rparr>) = Inr (a, d')"
    by auto
  have "budget_inv (d\<lparr>db_steps := ss\<rparr>)" using inv by (simp add: budget_inv_def)
  with d' have "reservations_later (d\<lparr>db_steps := ss\<rparr>) d'"
    by (auto split: option.splits intro: settle_in_tx_later reservations_later_refl)
  then show ?thesis by (simp add: reservations_later_def)
qed

text \<open>The journal and the inbox only grow at their end.\<close>

definition journal_later :: "db \<Rightarrow> db \<Rightarrow> bool" where
  "journal_later d d' \<longleftrightarrow> (\<exists>es. db_events d' = db_events d @ es) \<and> (\<exists>is. db_inbox d' = db_inbox d @ is)"

lemma journal_later_same:
  "db_events d' = db_events d \<Longrightarrow> db_inbox d' = db_inbox d \<Longrightarrow> journal_later d d'"
  by (simp add: journal_later_def)

lemma journal_later_trans: "journal_later d e \<Longrightarrow> journal_later e g \<Longrightarrow> journal_later d g"
  by (auto simp: journal_later_def)

lemma journal_later_steps:
  "ensure_session s t n d = Inr d' \<Longrightarrow> journal_later d d'"
  "claim_task t s f d = Inr d' \<Longrightarrow> journal_later d d'"
  "insert_event s e d = Inr d' \<Longrightarrow> journal_later d d'"
  "insert_inbox c d = Inr d' \<Longrightarrow> journal_later d d'"
  "upsert_projection t s w d = Inr d' \<Longrightarrow> journal_later d d'"
  "insert_marker s t m d = Inr d' \<Longrightarrow> journal_later d d'"
  "advance_sequence s n d = Inr d' \<Longrightarrow> journal_later d d'"
  unfolding journal_later_def
  by (auto elim!: ensure_sessionD dest!: claim_task_frame insert_eventD insert_inboxD
    upsert_projection_frame insert_marker_frame advance_sequenceD)

lemma admission_later: "commits (admission_body c f d) d' \<Longrightarrow> journal_later d d'"
  by (auto simp: admission_body_def split: option.splits if_splits
    dest!: journal_later_steps elim!: journal_later_trans)

lemma projected_event_later: "commits (projected_event_body e task state m f d) d' \<Longrightarrow> journal_later d d'"
  by (auto simp: projected_event_body_def dest!: journal_later_steps elim!: journal_later_trans)

lemma forked_session_later: "commits (forked_session_body t source s f d) d' \<Longrightarrow> journal_later d d'"
  by (auto simp: forked_session_body_def journal_later_def split: option.splits if_splits)

section \<open>Task leases\<close>

text \<open>
  A lease is never of a generation to come, and a lease of the current generation is held by the
  current host. Its task stays with its session as long as that host is the writer.
\<close>

definition leases_inv :: "db \<Rightarrow> bool" where
  "leases_inv d \<longleftrightarrow> keyed tl_task_id (db_leases d) \<and> (\<forall>l \<in> set (db_leases d). \<exists>epoch.
    db_epoch d = Some epoch \<and> tl_generation l \<le> epoch \<and>
    (tl_generation l = epoch \<longrightarrow> db_hosts d (tl_host_id l) = Some epoch))"

definition leases_kept :: "db \<Rightarrow> db \<Rightarrow> bool" where
  "leases_kept d d' \<longleftrightarrow> (\<forall>task l. lease_of task d = Some l \<longrightarrow> db_epoch d = Some (tl_generation l) \<longrightarrow>
    lease_of task d' = None \<or> lease_of task d' = Some l)"

lemma leases_same:
  assumes "db_leases d' = db_leases d"
  shows "same_hosts d d' \<Longrightarrow> leases_inv d' = leases_inv d" and "leases_kept d d'"
  using assms by (simp_all add: leases_inv_def leases_kept_def same_hosts_def lease_of_def)

lemma leases_inv_empty: "leases_inv empty_db"
  by (simp add: leases_inv_def empty_db_def)

lemma claim_task_leases:
  assumes hosts: "hosts_inv d" and inv: "leases_inv d" and f: "assert_fence_in_tx f d = Inr ()"
    and claim: "claim_task t s f d = Inr d'"
  shows "leases_inv d' \<and> leases_kept d d'"
proof -
  let ?row = "\<lparr>tl_task_id = t, tl_session_id = s, tl_host_id = hf_host_id f, tl_generation = hf_generation f\<rparr>"
  from f have g: "db_epoch d = Some (hf_generation f)" "db_hosts d (hf_host_id f) = Some (hf_generation f)"
    by (simp_all add: assert_fence_iff)
  have same: "same_hosts d d'" using claim_task_frame [OF claim] by (auto simp: same_hosts_def)
  show ?thesis
  proof (cases "lease_of t d")
    case None
    with claim have d': "db_leases d' = db_leases d @ [?row]"
      by (auto simp: claim_task_def split: sum.splits if_splits)
    have "leases_kept d d'" using None
      by (auto simp: leases_kept_def lease_of_def d' sel_append sel_Cons)
    moreover have "leases_inv d'" using inv None g same
      by (auto simp: leases_inv_def d' keyed_snoc lease_of_def sel_None same_hosts_def)
    ultimately show ?thesis by simp
  next
    case (Some l)
    let ?g = "\<lambda>r. r\<lparr>tl_session_id := s, tl_host_id := hf_host_id f, tl_generation := hf_generation f\<rparr>"
    from claim Some have d': "db_leases d' = upd (\<lambda>r. tl_task_id r = t) ?g (db_leases d)"
      and free: "tl_session_id l = s \<or> \<not> (hf_generation f < tl_generation l \<or>
        tl_generation l = hf_generation f \<and> tl_host_id l = hf_host_id f)"
      by (auto simp: claim_task_def split: sum.splits if_splits)
    have l: "l \<in> set (db_leases d)" using Some unfolding lease_of_def by (auto dest: sel_SomeD)
    have "?g l = l" if "tl_generation l = hf_generation f"
    proof -
      from inv l that g(1) have "db_hosts d (tl_host_id l) = Some (hf_generation f)"
        by (auto simp: leases_inv_def)
      with g(2) hosts have "tl_host_id l = hf_host_id f" unfolding hosts_inv_def by blast
      with free that show ?thesis by (cases l) auto
    qed
    then have "leases_kept d d'" unfolding leases_kept_def lease_of_def d'
      using Some g(1) by (auto simp: sel_upd_key lease_of_def)
    moreover have "leases_inv d'"
      unfolding leases_inv_def
    proof (intro conjI ballI)
      show "keyed tl_task_id (db_leases d')" using inv by (simp add: leases_inv_def d')
      fix x assume "x \<in> set (db_leases d')"
      then obtain y where "y \<in> set (db_leases d)" "x = (if tl_task_id y = t then ?g y else y)"
        by (auto simp: d' set_upd)
      with inv g same show "\<exists>epoch. db_epoch d' = Some epoch \<and> tl_generation x \<le> epoch \<and>
          (tl_generation x = epoch \<longrightarrow> db_hosts d' (tl_host_id x) = Some epoch)"
        by (cases "tl_task_id y = t") (auto simp: leases_inv_def same_hosts_def)
    qed
    ultimately show ?thesis by simp
  qed
qed

lemma release_lease_leases:
  assumes inv: "leases_inv d" and body: "commits (release_task_lease_body task f d) d'"
  shows "leases_inv d' \<and> leases_kept d d'"
proof -
  from body obtain P where d': "d' = d\<lparr>db_leases := filter P (db_leases d)\<rparr>"
    by (auto simp: release_task_lease_body_def split: sum.splits)
  have keyed: "keyed tl_task_id (db_leases d)" using inv by (simp add: leases_inv_def)
  have "lease_of t d' = None \<or> lease_of t d' = Some l" if "lease_of t d = Some l" for t l
  proof (cases "lease_of t d'")
    case (Some l')
    then have "l' \<in> set (db_leases d)" "tl_task_id l' = t"
      unfolding lease_of_def by (auto dest!: sel_SomeD simp: d')
    moreover from that have "l \<in> set (db_leases d)" "tl_task_id l = t"
      unfolding lease_of_def by (auto dest: sel_SomeD)
    ultimately have "l' = l" using keyed_same [OF keyed] by blast
    with Some show ?thesis by simp
  qed simp
  then have "leases_kept d d'" by (simp add: leases_kept_def)
  moreover have "leases_inv d'"
    using inv by (auto simp: leases_inv_def d' keyed_def distinct_map_filter)
  ultimately show ?thesis by simp
qed

section \<open>The invariant and the history of the database\<close>

definition db_inv :: "canonical_hash \<Rightarrow> db \<Rightarrow> bool" where
  "db_inv hash d \<longleftrightarrow> hosts_inv d \<and> leases_inv d \<and> journal_inv hash d \<and> budget_inv d \<and>
    questions_inv d \<and> run_commands_inv d \<and> runs_inv d \<and> tools_inv d"

definition db_later :: "db \<Rightarrow> db \<Rightarrow> bool" where
  "db_later d d' \<longleftrightarrow> journal_later d d' \<and> reservations_later d d' \<and> questions_later d d' \<and>
    run_commands_later d d' \<and> runs_later d d' \<and> tools_later d d'"

lemma db_inv_empty: "db_inv hash empty_db"
  by (simp add: db_inv_def hosts_inv_empty leases_inv_empty journal_inv_empty budget_inv_empty
    questions_inv_empty run_commands_inv_def runs_inv_empty tools_inv_empty) (simp add: empty_db_def)

lemma run_commands_later_same: "db_run_commands d' = db_run_commands d \<Longrightarrow> run_commands_later d d'"
  by (simp add: run_commands_later_def)

lemma run_commands_later_trans: "run_commands_later d e \<Longrightarrow> run_commands_later e g \<Longrightarrow> run_commands_later d g"
  unfolding run_commands_later_def by blast

lemma tools_later_refl: "tools_later d d"
  by (rule tools_same(2)) (simp add: same_tools_def)

lemma db_later_refl [simp]: "db_later d d"
  by (simp add: db_later_def journal_later_same reservations_later_refl run_commands_later_same tools_later_refl)

lemma db_later_trans: "db_later d e \<Longrightarrow> db_later e g \<Longrightarrow> db_later d g"
  unfolding db_later_def
  using journal_later_trans reservations_later_trans questions_later_trans run_commands_later_trans
    runs_later_trans tools_later_trans by blast

text \<open>What a transaction must do to the database it commits to.\<close>

definition good_change :: "canonical_hash \<Rightarrow> db \<Rightarrow> db \<Rightarrow> bool" where
  "good_change hash d d' \<longleftrightarrow> same_hosts d d' \<and> db_inv hash d' \<and> db_later d d' \<and> leases_kept d d'"

definition good_tx :: "canonical_hash \<Rightarrow> 'a body \<Rightarrow> bool" where
  "good_tx hash body \<longleftrightarrow> (\<forall>f d d'. db_inv hash d \<longrightarrow> assert_fence_in_tx f d = Inr () \<longrightarrow>
    commits (body f d) d' \<longrightarrow> good_change hash d d')"

lemma good_txI:
  "(\<And>f d d'. db_inv hash d \<Longrightarrow> assert_fence_in_tx f d = Inr () \<Longrightarrow> commits (body f d) d' \<Longrightarrow>
    good_change hash d d') \<Longrightarrow> good_tx hash body"
  by (simp add: good_tx_def)

lemma good_change_refl: "db_inv hash d \<Longrightarrow> good_change hash d d"
  by (simp add: good_change_def leases_same(2))

lemma good_change_trans:
  assumes "good_change hash d e" and "good_change hash e g"
    and "leases_kept d g"
  shows "good_change hash d g"
  using assms db_later_trans by (auto simp: good_change_def same_hosts_def)

text \<open>One lemma per group of tables a transaction writes; everything else is unchanged.\<close>

lemma good_change_journal_tools:
  assumes inv: "db_inv hash d" and fr: "journal_rest d d'" and later: "journal_later d d'"
    and tools: "tools_step d d'" and "journal_inv hash d'" "leases_inv d'" "leases_kept d d'"
  shows "good_change hash d d'"
proof -
  from fr have same: "same_hosts d d'" "db_questions d' = db_questions d"
    "db_run_commands d' = db_run_commands d" "db_runs d' = db_runs d" "db_steps d' = db_steps d"
    "db_accounts d' = db_accounts d" "db_reservations d' = db_reservations d"
    by (simp_all add: journal_rest_def)
  from inv tools have t: "tools_inv d'" "tools_later d d'" by (simp_all add: db_inv_def tools_step_def)
  have "db_inv hash d'" using inv assms(5,6) same_hosts_inv [OF same(1)] budget_inv_cong [OF same(6,7)]
      questions_cong(1) [OF same(2)] runs_inv_cong [OF same(4,5)] t(1)
    by (simp add: db_inv_def run_commands_inv_def same(3))
  moreover have "db_later d d'" using later questions_cong(2) [OF same(2)] same t(2)
    by (simp add: db_later_def reservations_later_refl run_commands_later_same runs_later_same)
  ultimately show ?thesis using assms(7) same(1) by (simp add: good_change_def)
qed

lemma good_change_journal:
  assumes "db_inv hash d" and "journal_frame d d'" and "journal_later d d'"
    and "journal_inv hash d'" "leases_inv d'" "leases_kept d d'"
  shows "good_change hash d d'"
  using assms(2) by (intro good_change_journal_tools [OF assms(1) _ assms(3) _ assms(4-6)])
    (simp_all add: journal_frame_def same_tools_step)

lemma good_change_run:
  assumes inv: "db_inv hash d" and fr: "run_frame d d'"
    and "budget_inv d'" "reservations_later d d'" "runs_inv d'" "runs_later d d'"
  shows "good_change hash d d'"
proof -
  from fr have same: "same_hosts d d'" "db_questions d' = db_questions d"
    "db_run_commands d' = db_run_commands d" "db_sessions d' = db_sessions d"
    "db_events d' = db_events d" "db_inbox d' = db_inbox d" "db_leases d' = db_leases d" "same_tools d d'"
    by (simp_all add: run_frame_def)
  have "db_inv hash d'" using inv assms(3,5) same_hosts_inv [OF same(1)]
      journal_inv_cong [OF same(4,5,6)] questions_cong(1) [OF same(2)] leases_same(1) [OF same(7,1)]
      tools_same(1) [OF same(8)]
    by (simp add: db_inv_def run_commands_inv_def same(3))
  moreover have "db_later d d'" using assms(4,6) questions_cong(2) [OF same(2)] same tools_same(2) [OF same(8)]
    by (simp add: db_later_def journal_later_same run_commands_later_same)
  ultimately show ?thesis using same(1) leases_same(2) [OF same(7)] by (simp add: good_change_def)
qed

lemma good_change_budget:
  assumes inv: "db_inv hash d" and fr: "budget_frame d d'" and "budget_inv d'" "reservations_later d d'"
  shows "good_change hash d d'"
proof -
  from fr have same: "db_runs d' = db_runs d" "db_steps d' = db_steps d" by (auto simp: budget_frame_def)
  from inv have "runs_inv d'" using runs_inv_cong [OF same] by (simp add: db_inv_def)
  then show ?thesis
    using good_change_run [OF inv budget_run_frame [OF fr] assms(3,4)] runs_later_same [OF same(1)] by blast
qed

lemma good_change_human:
  assumes inv: "db_inv hash d" and d': "d' = d\<lparr>db_questions := qs, db_run_commands := cs\<rparr>"
    and "questions_inv d'" "questions_later d d'" "run_commands_inv d'" "run_commands_later d d'"
  shows "good_change hash d d'"
proof -
  have same: "same_hosts d d'" "db_sessions d' = db_sessions d" "db_events d' = db_events d"
    "db_inbox d' = db_inbox d" "db_leases d' = db_leases d" "db_runs d' = db_runs d"
    "db_steps d' = db_steps d" "db_accounts d' = db_accounts d" "db_reservations d' = db_reservations d"
    "same_tools d d'"
    by (simp_all add: d' same_hosts_def same_tools_def)
  have "db_inv hash d'" using inv assms(3,5) same_hosts_inv [OF same(1)] budget_inv_cong [OF same(8,9)]
      journal_inv_cong [OF same(2-4)] runs_inv_cong [OF same(6,7)] leases_same(1) [OF same(5,1)]
      tools_same(1) [OF same(10)]
    by (simp add: db_inv_def)
  moreover have "db_later d d'" using assms(4,6) same tools_same(2) [OF same(10)]
    by (simp add: db_later_def journal_later_same reservations_later_refl runs_later_same)
  ultimately show ?thesis using same(1) leases_same(2) [OF same(5)] by (simp add: good_change_def)
qed

lemma good_change_other:
  assumes inv: "db_inv hash d" and d': "d' = d\<lparr>db_runtime_commands := cs, db_lineage := ls\<rparr>"
  shows "good_change hash d d'"
proof -
  have "budget_inv d'" "runs_inv d'" "runs_later d d'"
    using inv by (simp_all add: d' db_inv_def budget_inv_def runs_inv_def runs_later_def run_by_id_def)
  moreover have t: "same_tools d d'" by (simp add: d' same_tools_def)
  moreover have "questions_inv d'" "run_commands_inv d'" "journal_inv hash d'" "leases_inv d'" "hosts_inv d'"
    using inv by (simp_all add: d' db_inv_def questions_inv_def run_commands_inv_def journal_inv_def
      sequences_def admitted_def session_by_id_def leases_inv_def hosts_inv_def)
  moreover have "db_later d d'" "leases_kept d d'" "same_hosts d d'"
    by (auto simp: d' db_later_def journal_later_same reservations_later_refl run_commands_later_same
      runs_later_same leases_same(2) same_hosts_def questions_cong(2) intro: tools_same(2) [OF t, unfolded d'])
  moreover have "tools_inv d'" using inv tools_same(1) [OF t] by (simp add: db_inv_def)
  ultimately show ?thesis by (simp add: good_change_def db_inv_def)
qed

section \<open>Every transaction is good\<close>

lemma admission_good:
  assumes "validate_admission hash c = Inr ()"
  shows "good_tx hash (admission_body c)"
proof (rule good_txI)
  fix f d d'
  assume inv: "db_inv hash d" and f: "assert_fence_in_tx f d = Inr ()" and body: "commits (admission_body c f d) d'"
  have "journal_inv hash d'"
    using admission_body_inv [OF assms _ body] inv by (simp add: db_inv_def)
  moreover have "leases_inv d' \<and> leases_kept d d'"
  proof -
    from body obtain d1 d2 u d3 d4 d5 d6 where
      steps: "ensure_session (ad_session_id c) (ad_task_id c) (ad_expected_sequence c) d = Inr d1"
        "claim_task (ad_task_id c) (ad_session_id c) f d1 = Inr d2"
        "insert_event (ad_session_id c) (ad_event c) d2 = Inr d3" "insert_inbox c d3 = Inr d4"
        "upsert_projection (ad_task_id c) (ad_session_id c) (ad_working_state c) d4 = Inr d5"
        "insert_marker (ad_session_id c) (ad_task_id c) (ad_marker c) d5 = Inr d6"
        "advance_sequence (ad_session_id c) (ad_expected_sequence c) d6 = Inr d'"
      by (auto simp: admission_body_def bind_res_Inr split: option.splits if_splits)
    from steps(1) have one: "db_leases d1 = db_leases d" "same_hosts d d1"
      by (auto elim!: ensure_sessionD simp: same_hosts_def)
    have "hosts_inv d1" "leases_inv d1" "assert_fence_in_tx f d1 = Inr ()"
      using inv f one same_hosts_inv [OF one(2)] leases_same(1) [OF one] same_hosts_fence [OF one(2)]
      by (simp_all add: db_inv_def)
    from claim_task_leases [OF this steps(2)] have two: "leases_inv d2" "leases_kept d1 d2" by simp_all
    have three: "db_leases d' = db_leases d2" "same_hosts d2 d'"
      using steps(3-) by (auto dest!: insert_eventD insert_inboxD upsert_projection_frame
        insert_marker_frame advance_sequenceD simp: same_hosts_def)
    from two leases_same(1) [OF three] have "leases_inv d'" by simp
    moreover from two(2) one three have "leases_kept d d'"
      by (simp add: leases_kept_def same_hosts_def lease_of_def)
    ultimately show ?thesis by simp
  qed
  ultimately show "good_change hash d d'"
    using good_change_journal [OF inv admission_frame [OF body] admission_later [OF body]] by blast
qed

lemma projected_event_good:
  assumes "event_validate hash e = Inr ()"
  shows "good_tx hash (projected_event_body e task state m)"
proof (rule good_txI)
  fix f d d'
  assume inv: "db_inv hash d" and f: "assert_fence_in_tx f d = Inr ()"
    and body: "commits (projected_event_body e task state m f d) d'"
  have "journal_inv hash d'"
    using projected_event_body_inv [OF assms _ body] inv by (simp add: db_inv_def)
  moreover have "leases_inv d' \<and> leases_kept d d'"
  proof -
    from body obtain d2 d3 d5 d6 where
      steps: "claim_task task (ev_session_id e) f d = Inr d2" "insert_event (ev_session_id e) e d2 = Inr d3"
        "upsert_projection task (ev_session_id e) state d3 = Inr d5"
        "insert_marker (ev_session_id e) task m d5 = Inr d6" "advance_sequence (ev_session_id e) (ev_seq e) d6 = Inr d'"
      by (auto simp: projected_event_body_def bind_res_Inr)
    have "hosts_inv d" "leases_inv d" using inv by (simp_all add: db_inv_def)
    from claim_task_leases [OF this f steps(1)] have two: "leases_inv d2" "leases_kept d d2" by simp_all
    have three: "db_leases d' = db_leases d2" "same_hosts d2 d'"
      using steps(2-) by (auto dest!: insert_eventD upsert_projection_frame
        insert_marker_frame advance_sequenceD simp: same_hosts_def)
    from two leases_same(1) [OF three] have "leases_inv d'" by simp
    moreover from two(2) three have "leases_kept d d'"
      by (simp add: leases_kept_def lease_of_def)
    ultimately show ?thesis by simp
  qed
  ultimately show "good_change hash d d'"
    using good_change_journal [OF inv projected_event_frame [OF body] projected_event_later [OF body]] by blast
qed

lemma forked_session_good: "good_tx hash (forked_session_body t source s)"
proof (rule good_txI)
  fix f d d'
  assume inv: "db_inv hash d" and body: "commits (forked_session_body t source s f d) d'"
  have same: "db_leases d' = db_leases d"
    using body by (auto simp: forked_session_body_def split: option.splits if_splits)
  have "journal_inv hash d'"
    using forked_session_body_inv [OF _ body] inv by (simp add: db_inv_def)
  moreover have "leases_inv d'" "leases_kept d d'"
    using leases_same [OF same] journal_frame_hosts [OF forked_session_frame [OF body]] inv
    by (simp_all add: db_inv_def)
  ultimately show "good_change hash d d'"
    using good_change_journal [OF inv forked_session_frame [OF body] forked_session_later [OF body]] by blast
qed

lemma tool_commit_good:
  assumes c: "tool_commit session task n e f d c0 c1 c2 c3 d'" and tools: "tools_step d d'"
    and e: "ev_session_id e = session" "ev_seq e = n" "event_validate hash e = Inr ()"
    and inv: "db_inv hash d" and f: "assert_fence_in_tx f d = Inr ()"
  shows "good_change hash d d'"
proof -
  from c obtain w m d4 d5 where steps: "claim_task task session f d = Inr c0" "tool_only c0 c1"
      "insert_event session e c1 = Inr c2" "tool_only c2 c3" "upsert_projection task session w c3 = Inr d4"
      "insert_marker session task m d4 = Inr d5" "advance_sequence session n d5 = Inr d'"
    by (auto simp: tool_commit_def)
  have inv0: "hosts_inv d" "leases_inv d" "journal_inv hash d" using inv by (simp_all add: db_inv_def)
  from claim_task_leases [OF inv0(1,2) f steps(1)] have l0: "leases_inv c0" "leases_kept d c0" by simp_all
  have three: "db_leases d' = db_leases c0" "same_hosts c0 d'"
    using steps(3,5-) tool_only_tables(2,4) [OF steps(2)] tool_only_tables(2,4) [OF steps(4)]
    by (auto dest!: insert_eventD upsert_projection_frame insert_marker_frame advance_sequenceD simp: same_hosts_def)
  have "journal_later d c0" "journal_later c0 c1" "journal_later c1 c2" "journal_later c2 c3"
      "journal_later c3 d4" "journal_later d4 d5" "journal_later d5 d'"
    using steps tool_only_tables(5,6) [OF steps(2)] tool_only_tables(5,6) [OF steps(4)]
    by (auto intro: journal_later_steps journal_later_same)
  then have "journal_later d d'" by (blast intro: journal_later_trans)
  moreover have "leases_inv d'" "leases_kept d d'"
    using l0 leases_same(1) [OF three] three(1) by (simp_all add: leases_kept_def lease_of_def)
  ultimately show ?thesis
    using good_change_journal_tools [OF inv tool_commit_steps(1) [OF c] _ tools]
      tool_commit_inv [OF c e inv0(3)] by blast
qed

lemma receipt_good: "validate_receipt hash k = Inr () \<Longrightarrow> good_tx hash (receipt_body k)"
proof (rule good_txI)
  fix f d d'
  assume v: "validate_receipt hash k = Inr ()" and inv: "db_inv hash d" "assert_fence_in_tx f d = Inr ()"
    and body: "commits (receipt_body k f d) d'"
  from v have e: "ev_session_id (xc_event k) = xc_session_id k" "ev_seq (xc_event k) = xc_expected_sequence k"
      "event_validate hash (xc_event k) = Inr ()"
    by (auto simp: validate_receipt_def bind_res_Inr one_event_def split: if_splits)
  show "good_change hash d d'" using body
    by (rule receipt_body_commit) (rule tool_commit_good [OF _ receipt_tools [OF body] e inv])
qed

lemma intent_good: "validate_tool_intent_commit hash k = Inr () \<Longrightarrow> good_tx hash (tool_intent_body now k)"
proof (rule good_txI)
  let ?c = "ti_call (ic_intent k)"
  fix f d d'
  assume v: "validate_tool_intent_commit hash k = Inr ()" and inv: "db_inv hash d" "assert_fence_in_tx f d = Inr ()"
    and body: "commits (tool_intent_body now k f d) d'"
  from v have e: "ev_session_id (ic_event k) = tc_session_id ?c" "ev_seq (ic_event k) = ic_expected_sequence k"
      "event_validate hash (ic_event k) = Inr ()" and b: "intent_bound (ic_intent k) (ic_expected_sequence k)"
    by (auto simp: validate_tool_intent_commit_def bind_res_Inr one_event_def Let_def split: if_splits)
  show "good_change hash d d'" using body
    by (rule intent_body_commit) (rule tool_commit_good [OF _ intent_tools [OF body b] e inv])
qed

lemma settlement_good:
  "validate_tool_settlement_commit hash k = Inr () \<Longrightarrow> good_tx hash (tool_settlement_body k)"
proof (rule good_txI)
  fix f d d'
  assume v: "validate_tool_settlement_commit hash k = Inr ()" and inv: "db_inv hash d" "assert_fence_in_tx f d = Inr ()"
    and body: "commits (tool_settlement_body k f d) d'"
  from v have e: "ev_seq (zc_event k) = zc_expected_sequence k" "event_validate hash (zc_event k) = Inr ()"
    by (auto simp: validate_tool_settlement_commit_def bind_res_Inr one_event_def split: if_splits)
  show "good_change hash d d'" using body
    by (rule settlement_body_commit) (rule tool_commit_good [OF _ settlement_tools [OF body] refl e inv])
qed

lemma task_update_good:
  "validate_tool_task_update_commit hash k = Inr () \<Longrightarrow> good_tx hash (task_update_body now k)"
proof (rule good_txI)
  fix f d d'
  assume v: "validate_tool_task_update_commit hash k = Inr ()" and inv: "db_inv hash d" "assert_fence_in_tx f d = Inr ()"
    and body: "commits (task_update_body now k f d) d'"
  from v have e: "ev_session_id (uc_event k) = uc_session_id k" "ev_seq (uc_event k) = uc_expected_sequence k"
      "event_validate hash (uc_event k) = Inr ()"
    by (auto simp: validate_tool_task_update_commit_def bind_res_Inr one_event_def Let_def split: if_splits)
  show "good_change hash d d'" using body
    by (rule task_update_body_commit) (rule tool_commit_good [OF _ task_update_tools [OF body] e inv])
qed

lemma approvals_good:
  assumes "\<And>f d d'. commits (body f d) d' \<Longrightarrow> \<exists>as. d' = d\<lparr>db_approvals := as\<rparr>"
    and "\<And>f d d'. tools_inv d \<Longrightarrow> commits (body f d) d' \<Longrightarrow> tools_inv d' \<and> tools_later d d'"
  shows "good_tx hash body"
proof (rule good_txI)
  fix f d d'
  assume inv: "db_inv hash d" and body: "commits (body f d) d'"
  from assms(1) [OF body] obtain as where d': "d' = d\<lparr>db_approvals := as\<rparr>" ..
  have t: "tools_step d d'" using assms(2) [OF _ body] by (simp add: tools_step_def)
  have j: "journal_inv hash d'" using inv journal_inv_cong [of d' d hash] by (simp add: d' db_inv_def)
  show "good_change hash d d'"
    by (rule good_change_journal_tools [OF inv _ _ t j])
      (use inv in \<open>simp_all add: d' journal_rest_def same_hosts_def journal_later_same leases_same(2) db_inv_def
        leases_inv_def\<close>)
qed

lemma approvals_frame_refl: "\<exists>as. d = d\<lparr>db_approvals := as\<rparr>"
  by (rule exI [of _ "db_approvals d"]) simp

lemma approval_ops_good: "good_tx hash (issue_approval_body a)" "good_tx hash (revoke_approval_body i reason)"
proof -
  show "good_tx hash (issue_approval_body a)"
    by (rule approvals_good [OF _ issue_tools])
      (auto simp: issue_approval_body_def split: option.splits sum.splits if_splits
        intro: approvals_frame_refl)
  show "good_tx hash (revoke_approval_body i reason)"
    by (rule approvals_good [OF _ revoke_tools]) (auto simp: revoke_approval_body_def split: if_splits)
qed

lemma release_lease_good: "good_tx hash (release_task_lease_body task)"
proof (rule good_txI)
  fix f d d'
  assume inv: "db_inv hash d" and body: "commits (release_task_lease_body task f d) d'"
  from release_task_lease_frame [OF body] obtain ls where d': "d' = d\<lparr>db_leases := ls\<rparr>" ..
  from release_lease_leases [OF _ body] inv have l: "leases_inv d'" "leases_kept d d'"
    by (simp_all add: db_inv_def)
  have j: "journal_inv hash d'" using inv journal_inv_cong [of d' d hash] by (simp add: d' db_inv_def)
  show "good_change hash d d'"
    by (rule good_change_journal [OF inv _ _ j l])
      (simp_all add: d' journal_frame_def journal_rest_def same_hosts_def same_tools_def journal_later_same)
qed

text \<open>Transactions on runtime commands and lineage rows only.\<close>

lemma other_good:
  assumes "\<And>f d d'. commits (body f d) d' \<Longrightarrow> \<exists>cs ls. d' = d\<lparr>db_runtime_commands := cs, db_lineage := ls\<rparr>"
  shows "good_tx hash body"
  by (rule good_txI) (use assms good_change_other in blast)

lemma command_frame_other:
  "\<exists>cs. d' = d\<lparr>db_runtime_commands := cs\<rparr> \<Longrightarrow> \<exists>cs ls. d' = d\<lparr>db_runtime_commands := cs, db_lineage := ls\<rparr>"
  "\<exists>ls. d' = d\<lparr>db_lineage := ls\<rparr> \<Longrightarrow> \<exists>cs ls. d' = d\<lparr>db_runtime_commands := cs, db_lineage := ls\<rparr>"
proof -
  assume "\<exists>cs. d' = d\<lparr>db_runtime_commands := cs\<rparr>"
  then obtain cs where "d' = d\<lparr>db_runtime_commands := cs, db_lineage := db_lineage d\<rparr>" by (cases d) auto
  then show "\<exists>cs ls. d' = d\<lparr>db_runtime_commands := cs, db_lineage := ls\<rparr>" by blast
next
  assume "\<exists>ls. d' = d\<lparr>db_lineage := ls\<rparr>"
  then obtain ls where "d' = d\<lparr>db_runtime_commands := db_runtime_commands d, db_lineage := ls\<rparr>" by (cases d) auto
  then show "\<exists>cs ls. d' = d\<lparr>db_runtime_commands := cs, db_lineage := ls\<rparr>" by blast
qed

lemma commands_good:
  "good_tx hash (continuation_link_body source new_session task)"
  "good_tx hash (enqueue_runtime_command_body rec)"
  "good_tx hash (claim_runtime_command_body c n)"
  "good_tx hash (enqueue_claimed_body rec n)"
  "good_tx hash (complete_runtime_command_body c g state error)"
  "good_tx hash (bump_attempt_body c g n)"
  by (rule other_good, erule command_frames [THEN command_frame_other(1)]
        continuation_link_frame [THEN command_frame_other(2)])+

lemma budget_good:
  "good_tx hash (ensure_account_body rec)" "good_tx hash (reserve_body r)"
  "good_tx hash (release_body i)" "good_tx hash (settle_body x)"
proof -
  have inv: "db_inv hash d \<Longrightarrow> budget_inv d" for d by (simp add: db_inv_def)
  show "good_tx hash (ensure_account_body rec)"
  proof (rule good_txI)
    fix f d d' assume d: "db_inv hash d" "commits (ensure_account_body rec f d) d'"
    then have "db_reservations d' = db_reservations d"
      by (auto simp: ensure_account_body_def Let_def split: option.splits if_splits)
    then show "good_change hash d d'"
      using good_change_budget [OF d(1) ensure_account_frame [OF d(2)]
        ensure_account_body_inv [OF inv [OF d(1)] d(2)] reservations_later_refl] by blast
  qed
  show "good_tx hash (reserve_body r)"
  proof (rule good_txI)
    fix f d d' assume d: "db_inv hash d" "commits (reserve_body r f d) d'"
    show "good_change hash d d'"
      by (rule good_change_budget [OF d(1) reserve_frame [OF d(2)]
        reserve_body_inv [OF inv [OF d(1)] d(2)] reserve_later [OF d(2)]])
  qed
  show "good_tx hash (release_body i)"
  proof (rule good_txI)
    fix f d d' assume d: "db_inv hash d" "commits (release_body i f d) d'"
    show "good_change hash d d'"
      by (rule good_change_budget [OF d(1) release_frame [OF d(2)]
        release_body_inv [OF inv [OF d(1)] d(2)] release_later [OF inv [OF d(1)] d(2)]])
  qed
  show "good_tx hash (settle_body x)"
  proof (rule good_txI)
    fix f d d' assume d: "db_inv hash d" "commits (settle_body x f d) d'"
    then obtain a where "settle_in_tx x d = Inr (a, d')" by (auto simp: settle_body_def)
    then show "good_change hash d d'"
      using good_change_budget [OF d(1) settle_frame [OF d(2)]
        settle_body_inv [OF inv [OF d(1)] d(2)]] settle_in_tx_later [OF inv [OF d(1)]] by blast
  qed
qed

lemma human_good:
  "good_tx hash (open_question_body q)" "good_tx hash (answer_question_body k a h w n)"
  "good_tx hash (cancel_question_body i)" "good_tx hash (enqueue_run_command_body c)"
  "good_tx hash (record_applied_body c t)" "good_tx hash (claim_run_commands_body r l n)"
  "good_tx hash (complete_run_command_body i st u n)"
proof -
  have questions: "good_tx hash body"
    if keep: "\<And>f d d'. questions_inv d \<Longrightarrow> commits (body f d) d' \<Longrightarrow> questions_inv d' \<and> questions_later d d'"
    and fr: "\<And>f d d'. commits (body f d) d' \<Longrightarrow> \<exists>qs. d' = d\<lparr>db_questions := qs\<rparr>" for body :: "'a body"
  proof (rule good_txI)
    fix f d d' assume d: "db_inv hash d" "commits (body f d) d'"
    then obtain qs where d': "d' = d\<lparr>db_questions := qs, db_run_commands := db_run_commands d\<rparr>"
      using fr [OF d(2)] by (cases d) auto
    have "questions_inv d'" "questions_later d d'"
      using keep [OF _ d(2)] d(1) by (simp_all add: db_inv_def)
    then show "good_change hash d d'"
      by (rule good_change_human [OF d(1) d'])
        (use d(1) in \<open>simp_all add: d' db_inv_def run_commands_inv_def run_commands_later_same\<close>)
  qed
  have commands: "good_tx hash body"
    if keep: "\<And>f d d'. run_commands_inv d \<Longrightarrow> commits (body f d) d' \<Longrightarrow> run_commands_inv d'"
    and later: "\<And>f d d'. commits (body f d) d' \<Longrightarrow> run_commands_later d d'"
    and fr: "\<And>f d d'. commits (body f d) d' \<Longrightarrow> \<exists>cs. d' = d\<lparr>db_run_commands := cs\<rparr>" for body :: "'a body"
  proof (rule good_txI)
    fix f d d' assume d: "db_inv hash d" "commits (body f d) d'"
    then obtain cs where d': "d' = d\<lparr>db_questions := db_questions d, db_run_commands := cs\<rparr>"
      using fr [OF d(2)] by (cases d) auto
    have same: "db_questions d' = db_questions d" by (simp add: d')
    have "run_commands_inv d'" using keep [OF _ d(2)] d(1) by (simp add: db_inv_def)
    then show "good_change hash d d'"
      by (intro good_change_human [OF d(1) d']) (use d(1) questions_cong [OF same] later [OF d(2)] in
        \<open>simp_all add: db_inv_def\<close>)
  qed
  show "good_tx hash (open_question_body q)" by (rule questions [OF open_question_inv open_question_frame])
  show "good_tx hash (answer_question_body k a h w n)" by (rule questions [OF answer_question_inv answer_question_frame])
  show "good_tx hash (cancel_question_body i)" by (rule questions [OF cancel_question_inv cancel_question_frame])
  show "good_tx hash (enqueue_run_command_body c)"
    by (rule commands [OF run_commands_body_inv(1) run_commands_body_later(1) enqueue_run_command_frame])
  show "good_tx hash (record_applied_body c t)"
    by (rule commands [OF run_commands_body_inv(2) run_commands_body_later(2) record_applied_frame])
  show "good_tx hash (claim_run_commands_body r l n)"
    by (rule commands [OF run_commands_body_inv(3) run_commands_body_later(3) claim_run_commands_frame])
  show "good_tx hash (complete_run_command_body i st u n)"
    by (rule commands [OF run_commands_body_inv(4) run_commands_body_later(4) complete_run_command_frame])
qed

lemma run_good_txI:
  assumes "\<And>f d d'. commits (body f d) d' \<Longrightarrow> run_frame d d'"
    and "\<And>f d d'. commits (body f d) d' \<Longrightarrow> budget_inv d \<Longrightarrow> budget_inv d'"
    and "\<And>f d d'. budget_inv d \<Longrightarrow> commits (body f d) d' \<Longrightarrow> reservations_later d d'"
    and "\<And>f d d'. runs_inv d \<Longrightarrow> commits (body f d) d' \<Longrightarrow> runs_inv d' \<and> runs_later d d'"
  shows "good_tx hash body"
proof (rule good_txI)
  fix f d d' assume d: "db_inv hash d" "commits (body f d) d'"
  have inv: "budget_inv d" "runs_inv d" using d(1) by (simp_all add: db_inv_def)
  from assms(4) [OF inv(2) d(2)] show "good_change hash d d'"
    using good_change_run [OF d(1) assms(1) [OF d(2)] assms(2) [OF d(2) inv(1)] assms(3) [OF inv(1) d(2)]] by blast
qed

lemma run_good:
  "good_tx hash (start_run_body r s t i b)" "good_tx hash (freeze_run_step_body r n step res)"
  "good_tx hash (settle_run_step_body sid st reason x)" "good_tx hash (complete_settling_body c g cs sid st)"
  "good_tx hash (finish_run_body r n rst acc reason q)"
proof -
  show "good_tx hash (start_run_body r s t i b)"
  proof (rule run_good_txI [OF start_run_frame start_run_budget _ start_run_runs])
    fix f d d' assume "commits (start_run_body r s t i b f d) d'"
    then have "db_reservations d' = db_reservations d"
      by (auto simp: start_run_body_def Let_def split: sum.splits option.splits if_splits)
    then show "reservations_later d d'" by (rule reservations_later_refl)
  qed
  show "good_tx hash (freeze_run_step_body r n step res)"
    by (rule run_good_txI [OF freeze_frame freeze_budget freeze_later freeze_runs])
  show "good_tx hash (settle_run_step_body sid st reason x)"
    by (rule run_good_txI [OF settle_run_step_frame settle_run_step_budget _ settle_run_step_runs])
      (auto simp: settle_run_step_body_def intro: settle_run_step_in_tx_later)
  show "good_tx hash (complete_settling_body c g cs sid st)"
  proof (rule run_good_txI [OF complete_settling_frame complete_settling_budget _ complete_settling_runs])
    fix f d d' assume inv: "budget_inv d" and body: "commits (complete_settling_body c g cs sid st f d) d'"
    from body obtain d1 where com: "complete_runtime_command_in_tx c g cs None d = Inr d1"
      and settle: "settle_run_step_in_tx sid st None None d1 = Inr d'"
      by (auto simp: complete_settling_body_def)
    from complete_in_tx_frame [OF com] obtain rows where d1: "d1 = d\<lparr>db_runtime_commands := rows\<rparr>" ..
    then have "budget_inv d1" using inv by (simp add: budget_inv_def)
    from settle_run_step_in_tx_later [OF settle this] show "reservations_later d d'"
      by (simp add: d1 reservations_later_def)
  qed
  show "good_tx hash (finish_run_body r n rst acc reason q)"
  proof (rule run_good_txI [OF finish_run_frame finish_run_budget _ finish_run_runs])
    fix f d d' assume "commits (finish_run_body r n rst acc reason q f d) d'"
    then have "db_reservations d' = db_reservations d"
      by (auto simp: finish_run_body_def Let_def split: option.splits if_splits)
    then show "reservations_later d d'" by (rule reservations_later_refl)
  qed
qed

section \<open>Steps\<close>

text \<open>
  The operations of the store with what they answer: their error, or that they succeeded (the value
  they return is dropped, so that they all have one type).
\<close>

definition reply :: "'a res \<times> store \<Rightarrow> unit res \<times> store" where
  "reply r = (case fst r of Inl e \<Rightarrow> (Inl e, snd r) | Inr _ \<Rightarrow> (Inr (), snd r))"

lemma reply_store [simp]: "snd (reply r) = snd r" "fst (reply r) = Inl e \<longleftrightarrow> fst r = Inl e"
  by (simp_all add: reply_def split: sum.split)

lemma reply_refused: "(\<exists>e. fst r = Inl e) \<and> snd r = s \<Longrightarrow> \<exists>e. reply r = (Inl e, s)"
  by (auto simp: reply_def)

inductive store_call :: "canonical_hash \<Rightarrow> (store \<Rightarrow> unit res \<times> store) \<Rightarrow> bool" for hash where
  call_admission: "store_call hash (\<lambda>s. reply (commit_admission hash c s))"
| call_event: "store_call hash (\<lambda>s. reply (commit_projected_event hash e task state m s))"
| call_fork: "store_call hash (\<lambda>s. reply (open_forked_session task source session s))"
| call_release_lease: "store_call hash (\<lambda>s. reply (release_task_lease task s))"
| call_link: "store_call hash (\<lambda>s. reply (record_continuation_link source session task s))"
| call_enqueue: "store_call hash (\<lambda>s. reply (enqueue_runtime_command rec s))"
| call_claim: "store_call hash (\<lambda>s. reply (claim_runtime_command c n s))"
| call_enqueue_claimed: "store_call hash (\<lambda>s. reply (enqueue_claimed_runtime_command rec n s))"
| call_complete: "store_call hash (\<lambda>s. reply (complete_runtime_command c g state error s))"
| call_bump: "store_call hash (\<lambda>s. reply (bump_runtime_command_attempt c g n s))"
| call_account: "store_call hash (\<lambda>s. reply (ensure_budget_account account s))"
| call_reserve: "store_call hash (\<lambda>s. reply (reserve_budget reservation s))"
| call_release: "store_call hash (\<lambda>s. reply (release_budget_reservation i s))"
| call_settle: "store_call hash (\<lambda>s. reply (settle_budget_reservation x s))"
| call_start: "store_call hash (\<lambda>s. reply (start_run fresh session task input budget s))"
| call_freeze: "store_call hash (\<lambda>s. reply (freeze_run_step r n step reserve s))"
| call_settle_step: "store_call hash (\<lambda>s. reply (settle_run_step sid st reason settlement s))"
| call_complete_step: "store_call hash (\<lambda>s. reply (complete_runtime_command_settling_step c g cs sid st s))"
| call_finish: "store_call hash (\<lambda>s. reply (finish_run r n rst acceptance reason awaiting s))"
| call_ask: "store_call hash (\<lambda>s. reply (open_question q s))"
| call_answer: "store_call hash (\<lambda>s. reply (answer_question k a h w now s))"
| call_cancel: "store_call hash (\<lambda>s. reply (cancel_question i s))"
| call_run_command: "store_call hash (\<lambda>s. reply (enqueue_run_command cmd s))"
| call_applied: "store_call hash (\<lambda>s. reply (record_applied_run_command cmd t s))"
| call_claim_run_commands: "store_call hash (\<lambda>s. reply (claim_run_commands r limit now s))"
| call_issue: "store_call hash (\<lambda>s. reply (issue_tool_approval hash a s))"
| call_revoke: "store_call hash (\<lambda>s. reply (revoke_tool_approval i why s))"
| call_receipt: "store_call hash (\<lambda>s. reply (commit_receipt hash files hash_bytes xk s))"
| call_intent: "store_call hash (\<lambda>s. reply (commit_tool_intent hash clock ik s))"
| call_settlement: "store_call hash (\<lambda>s. reply (commit_tool_settlement hash files hash_bytes zk s))"
| call_task_update: "store_call hash (\<lambda>s. reply (commit_tool_task_update hash clock uk s))"
| call_complete_run_command: "store_call hash (\<lambda>s. reply (complete_run_command i cst detail now s))"

text \<open>Without its authority every operation answers an error and leaves its handle as it was.\<close>

lemmas op_refused = admission_op.refused projected_event_op.refused forked_session_op.refused release_lease_op.refused
  continuation_op.refused enqueue_op.refused claim_op.refused enqueue_claimed_op.refused complete_op.refused
  bump_op.refused ensure_account_op.refused reserve_op.refused release_op.refused settle_op.refused
  start_run_op.refused freeze_op.refused settle_step_op.refused complete_settling_op.refused finish_op.refused
  open_question_op.refused answer_question_op.refused cancel_question_op.refused enqueue_run_command_op.refused
  record_applied_op.refused claim_run_commands_op.refused complete_run_command_op.refused
  issue_approval_op.refused revoke_approval_op.refused receipt_op.refused intent_op.refused
  settlement_op.refused task_update_op.refused

lemma store_call_refused: "store_call hash call \<Longrightarrow> \<not> may_write s \<Longrightarrow> \<exists>e. call s = (Inl e, s)"
  by (induction rule: store_call.induct) (rule reply_refused, erule op_refused)+

text \<open>What an operation does to its handle.\<close>

definition store_op :: "canonical_hash \<Rightarrow> (store \<Rightarrow> store) \<Rightarrow> bool" where
  "store_op hash op \<longleftrightarrow> (\<exists>call. store_call hash call \<and> op = (\<lambda>s. snd (call s)))"

lemma op_of: "store_call hash (\<lambda>s. reply (f s)) \<Longrightarrow> store_op hash (\<lambda>s. snd (f s))"
  unfolding store_op_def by (intro exI [of _ "\<lambda>s. reply (f s)"]) simp

lemmas do_admission = op_of [OF call_admission]
lemmas do_event = op_of [OF call_event]
lemmas do_fork = op_of [OF call_fork]
lemmas do_release_lease = op_of [OF call_release_lease]
lemmas do_link = op_of [OF call_link]
lemmas do_enqueue = op_of [OF call_enqueue]
lemmas do_claim = op_of [OF call_claim]
lemmas do_enqueue_claimed = op_of [OF call_enqueue_claimed]
lemmas do_complete = op_of [OF call_complete]
lemmas do_bump = op_of [OF call_bump]
lemmas do_account = op_of [OF call_account]
lemmas do_reserve = op_of [OF call_reserve]
lemmas do_release = op_of [OF call_release]
lemmas do_settle = op_of [OF call_settle]
lemmas do_start = op_of [OF call_start]
lemmas do_freeze = op_of [OF call_freeze]
lemmas do_settle_step = op_of [OF call_settle_step]
lemmas do_complete_step = op_of [OF call_complete_step]
lemmas do_finish = op_of [OF call_finish]
lemmas do_ask = op_of [OF call_ask]
lemmas do_answer = op_of [OF call_answer]
lemmas do_cancel = op_of [OF call_cancel]
lemmas do_run_command = op_of [OF call_run_command]
lemmas do_applied = op_of [OF call_applied]
lemmas do_claim_run_commands = op_of [OF call_claim_run_commands]
lemmas do_issue = op_of [OF call_issue]
lemmas do_revoke = op_of [OF call_revoke]
lemmas do_receipt = op_of [OF call_receipt]
lemmas do_intent = op_of [OF call_intent]
lemmas do_settlement = op_of [OF call_settlement]
lemmas do_task_update = op_of [OF call_task_update]
lemmas do_complete_run_command = op_of [OF call_complete_run_command]

text \<open>
  A step of the database: an operation through any handle, or a host that takes the writer role
  over, as every open of a writable store does.
\<close>

inductive db_step :: "canonical_hash \<Rightarrow> db \<Rightarrow> db \<Rightarrow> bool" for hash where
  operate: "store_op hash op \<Longrightarrow> db_step hash (s_db s) (s_db (op s))"
| take_over: "acquire_fence host d = Inr (f, d') \<Longrightarrow> db_step hash d d'"

definition good_op :: "canonical_hash \<Rightarrow> (store \<Rightarrow> store) \<Rightarrow> bool" where
  "good_op hash op \<longleftrightarrow> (\<forall>s. (\<not> may_write s \<longrightarrow> op s = s) \<and> s_writer (op s) = s_writer s \<and>
    (db_inv hash (s_db s) \<longrightarrow> good_change hash (s_db s) (s_db (op s))))"

lemma good_write_tx:
  assumes tx: "good_tx hash body"
  shows "good_op hash (\<lambda>s. snd (write_tx body s))"
proof -
  have writer: "s_writer (snd (write_tx body s)) = s_writer s" for s
    by (auto simp: write_tx_def split: sum.splits)
  have "good_change hash (s_db s) (s_db (snd (write_tx body s)))" if inv: "db_inv hash (s_db s)" for s
  proof (cases "may_write s")
    case True
    then obtain f where f: "s_writer s = Some f" "assert_fence_in_tx f (s_db s) = Inr ()"
      by (auto simp: may_write_body)
    have tx_eq: "write_tx body s = end_tx (body f (s_db s)) s" by (rule write_tx_authorised [OF f])
    show ?thesis
    proof (cases rule: end_tx_cases [of "body f (s_db s)" s])
      case (committed a d)
      with tx inv f(2) have "good_change hash (s_db s) d" unfolding good_tx_def by blast
      with committed(3) tx_eq show ?thesis by simp
    qed (use tx_eq good_change_refl [OF inv] in simp_all)
  next
    case False
    with write_tx_refused [OF False, of body] good_change_refl [OF inv] show ?thesis by auto
  qed
  moreover have "snd (write_tx body s) = s" if "\<not> may_write s" for s
    using write_tx_refused [OF that, of body] by auto
  ultimately show ?thesis using writer by (simp add: good_op_def)
qed

text \<open>An operation that validates its input before it opens the transaction.\<close>

lemma good_guarded:
  assumes "\<And>s. op s = s \<or> op s = op' s" and "good_op hash op'"
  shows "good_op hash op"
  unfolding good_op_def
proof
  fix s
  from assms(2) have "(\<not> may_write s \<longrightarrow> op' s = s) \<and> s_writer (op' s) = s_writer s \<and>
    (db_inv hash (s_db s) \<longrightarrow> good_change hash (s_db s) (s_db (op' s)))" by (simp add: good_op_def)
  with assms(1) [of s] good_change_refl [of hash "s_db s"]
  show "(\<not> may_write s \<longrightarrow> op s = s) \<and> s_writer (op s) = s_writer s \<and>
    (db_inv hash (s_db s) \<longrightarrow> good_change hash (s_db s) (s_db (op s)))" by auto
qed

lemma admission_op_good: "good_op hash (\<lambda>s. snd (commit_admission hash c s))"
proof (cases "validate_admission hash c")
  case (Inl e)
  then show ?thesis by (simp add: commit_admission_def good_op_def good_change_refl)
next
  case (Inr u)
  from good_write_tx [OF admission_good] Inr show ?thesis by (simp add: commit_admission_def)
qed

lemma event_op_good: "good_op hash (\<lambda>s. snd (commit_projected_event hash e task state m s))"
proof (cases "event_validate hash e")
  case (Inl err)
  then show ?thesis by (simp add: commit_projected_event_def good_op_def good_change_refl)
next
  case (Inr u)
  from good_write_tx [OF projected_event_good] Inr
  have "good_op hash (\<lambda>s. snd (write_tx (projected_event_body e task state m) s))" by simp
  then show ?thesis
    by (rule good_guarded [rotated]) (auto simp: commit_projected_event_def split: sum.splits)
qed

lemma enqueue_claimed_op_good: "good_op hash (\<lambda>s. snd (enqueue_claimed_runtime_command rec n s))"
  unfolding good_op_def
proof
  fix s
  have first: "good_op hash (\<lambda>s. snd (write_tx (enqueue_claimed_body rec n) s))"
    by (rule good_write_tx [OF commands_good(4)])
  have second: "good_op hash (\<lambda>s. snd (claim_runtime_command (rc_command_id rec) n s))"
    unfolding claim_runtime_command_def
    by (rule good_write_tx [OF commands_good(3)])
  show "(\<not> may_write s \<longrightarrow> snd (enqueue_claimed_runtime_command rec n s) = s) \<and>
      s_writer (snd (enqueue_claimed_runtime_command rec n s)) = s_writer s \<and>
      (db_inv hash (s_db s) \<longrightarrow> good_change hash (s_db s) (s_db (snd (enqueue_claimed_runtime_command rec n s))))"
    by (cases rule: enqueue_claimed_cases [of rec n s]) (use first second in \<open>simp_all add: good_op_def\<close>)
qed

lemma guarded_op_good:
  assumes "v = Inr () \<Longrightarrow> good_tx hash body"
  shows "good_op hash (\<lambda>s. snd (case v of Inl e \<Rightarrow> (Inl e, s) | Inr _ \<Rightarrow> write_tx body s))"
proof (cases v)
  case (Inl e)
  then show ?thesis by (simp add: good_op_def good_change_refl)
next
  case (Inr u)
  with good_write_tx [OF assms] show ?thesis by simp
qed

lemma tool_ops_good:
  "good_op hash (\<lambda>s. snd (issue_tool_approval hash a s))" "good_op hash (\<lambda>s. snd (revoke_tool_approval i why s))"
  "good_op hash (\<lambda>s. snd (commit_receipt hash files hash_bytes xk s))"
  "good_op hash (\<lambda>s. snd (commit_tool_intent hash clock ik s))"
  "good_op hash (\<lambda>s. snd (commit_tool_settlement hash files hash_bytes zk s))"
  "good_op hash (\<lambda>s. snd (commit_tool_task_update hash clock uk s))"
  unfolding issue_tool_approval_def revoke_approval_guard commit_receipt_def commit_tool_intent_def
    commit_tool_settlement_def commit_tool_task_update_def
  by (rule guarded_op_good; auto simp: bind_res_Inr intro: approval_ops_good receipt_good intent_good
      settlement_good task_update_good)+

lemmas tx_good = forked_session_good release_lease_good commands_good budget_good run_good human_good

lemmas tx_definitions = open_forked_session_def release_task_lease_def record_continuation_link_def
  enqueue_runtime_command_def claim_runtime_command_def complete_runtime_command_def
  bump_runtime_command_attempt_def ensure_budget_account_def reserve_budget_def
  release_budget_reservation_def settle_budget_reservation_def start_run_def freeze_run_step_def
  settle_run_step_def complete_runtime_command_settling_step_def finish_run_def open_question_def
  answer_question_def cancel_question_def enqueue_run_command_def record_applied_run_command_def
  claim_run_commands_def complete_run_command_def

lemma store_call_good: "store_call hash call \<Longrightarrow> good_op hash (\<lambda>s. snd (call s))"
proof (induction rule: store_call.induct)
  case call_admission
  show ?case unfolding reply_store by (rule admission_op_good)
next
  case call_event
  show ?case unfolding reply_store by (rule event_op_good)
next
  case call_enqueue_claimed
  show ?case unfolding reply_store by (rule enqueue_claimed_op_good)
next
  case call_issue
  show ?case unfolding reply_store by (rule tool_ops_good)
next
  case call_revoke
  show ?case unfolding reply_store by (rule tool_ops_good)
next
  case call_receipt
  show ?case unfolding reply_store by (rule tool_ops_good)
next
  case call_intent
  show ?case unfolding reply_store by (rule tool_ops_good)
next
  case call_settlement
  show ?case unfolding reply_store by (rule tool_ops_good)
next
  case call_task_update
  show ?case unfolding reply_store by (rule tool_ops_good)
qed (unfold reply_store tx_definitions, (rule good_write_tx, rule tx_good)+)

lemma store_op_good: "store_op hash op \<Longrightarrow> good_op hash op"
  by (auto simp: store_op_def intro: store_call_good)

lemma op_keeps_inv: "store_op hash op \<Longrightarrow> db_inv hash (s_db s) \<Longrightarrow> db_inv hash (s_db (op s))"
  using store_op_good [of hash op] by (simp add: good_op_def good_change_def)

text \<open>Every reachable database keeps the invariant, and every step only adds to the history.\<close>

lemma take_over_good:
  assumes inv: "db_inv hash d" and acq: "acquire_fence host d = Inr (f, d')"
  shows "db_inv hash d' \<and> db_later d d'"
proof -
  define g where "g = (case db_epoch d of None \<Rightarrow> 1 | Some g \<Rightarrow> g + 1)"
  from acquire_fenceD(3) [OF acq] have d': "d' = d\<lparr>db_epoch := Some g, db_hosts := (db_hosts d)(host \<mapsto> g)\<rparr>"
    by (simp add: g_def)
  have "same_tools d d'" by (simp add: d' same_tools_def)
  from tools_same [OF this] inv have t: "tools_inv d'" "tools_later d d'" by (simp_all add: db_inv_def)
  have "hosts_inv d'" using acquire_fence_inv [OF _ acq] inv by (simp add: db_inv_def)
  moreover have "leases_inv d'" using inv by (fastforce simp: db_inv_def leases_inv_def d' g_def)
  moreover have "journal_inv hash d'" using inv journal_inv_cong [of d' d hash] by (simp add: d' db_inv_def)
  moreover have "budget_inv d'" "questions_inv d'" "run_commands_inv d'" "runs_inv d'"
    using inv by (simp_all add: d' db_inv_def budget_inv_def questions_inv_def run_commands_inv_def runs_inv_def)
  moreover have "db_later d d'" by (simp add: d' db_later_def journal_later_same reservations_later_refl
    run_commands_later_same runs_later_same questions_cong(2) t(2) [unfolded d'])
  ultimately show ?thesis using t(1) by (simp add: db_inv_def)
qed

lemma db_step_good: "db_step hash d d' \<Longrightarrow> db_inv hash d \<Longrightarrow> db_inv hash d' \<and> db_later d d'"
proof (induction rule: db_step.induct)
  case (operate op s)
  then show ?case using store_op_good [OF operate(1)] by (auto simp: good_op_def good_change_def)
qed (use take_over_good in blast)

interpretation database: invariant_system "db_step hash" "db_inv hash" "\<lambda>d. d = empty_db" for hash
  by unfold_locales (use db_step_good db_inv_empty in blast)+

lemma db_run_later:
  assumes "(db_step hash)\<^sup>*\<^sup>* d d'" and "db_inv hash d"
  shows "db_later d d'"
proof (rule database.run_relation [OF _ _ assms])
  show "db_later x z" if "db_inv hash y" "db_later x y" "db_step hash y z" for x y z
    using db_step_good [OF that(3,1)] db_later_trans [OF that(2)] by blast
qed simp

lemma db_run_inv: "(db_step hash)\<^sup>*\<^sup>* d d' \<Longrightarrow> db_inv hash d \<Longrightarrow> db_inv hash d'"
  by (rule database.inv_run)

abbreviation reachable_db :: "canonical_hash \<Rightarrow> db \<Rightarrow> bool" where
  "reachable_db hash \<equiv> reach (\<lambda>d. d = empty_db) (db_step hash)"

section \<open>One writer at a time\<close>

text \<open>Operations through any handles, without a takeover.\<close>

definition op_step :: "canonical_hash \<Rightarrow> db \<Rightarrow> db \<Rightarrow> bool" where
  "op_step hash d d' \<longleftrightarrow> (\<exists>op s. store_op hash op \<and> d = s_db s \<and> d' = s_db (op s))"

lemma op_run_good:
  "(op_step hash)\<^sup>*\<^sup>* d d' \<Longrightarrow> db_inv hash d \<Longrightarrow> db_inv hash d' \<and> same_hosts d d'"
proof (induction rule: rtranclp_induct)
  case (step e g)
  then obtain op s where op: "store_op hash op" "e = s_db s" "g = s_db (op s)" by (auto simp: op_step_def)
  from step.IH step.prems have e: "db_inv hash e" "same_hosts d e" by simp_all
  from store_op_good [OF op(1)] e(1) op(2,3) have "good_change hash e g" by (simp add: good_op_def)
  with e(2) show ?case by (simp add: good_change_def same_hosts_def)
qed simp

text \<open>The epoch never goes back.\<close>

definition epoch_reached :: "nat \<Rightarrow> db \<Rightarrow> bool" where
  "epoch_reached g d \<longleftrightarrow> (\<exists>epoch. db_epoch d = Some epoch \<and> g \<le> epoch)"

lemma epoch_step:
  assumes "db_step hash d d'" and "db_inv hash d" and "epoch_reached g d"
  shows "epoch_reached g d'"
  using assms(1)
proof cases
  case (operate op s)
  with store_op_good [OF operate(3)] assms(2) have "same_hosts d d'" by (simp add: good_op_def good_change_def)
  with assms(3) show ?thesis by (simp add: epoch_reached_def same_hosts_def)
next
  case (take_over host f)
  from acquire_fenceD(3) [OF this] assms(3) show ?thesis by (auto simp: epoch_reached_def)
qed

lemma epoch_run: "(db_step hash)\<^sup>*\<^sup>* d d' \<Longrightarrow> db_inv hash d \<Longrightarrow> epoch_reached g d \<Longrightarrow> epoch_reached g d'"
  by (induction rule: rtranclp_induct) (auto intro: epoch_step dest: db_run_inv)

text \<open>
  C1. A takeover fences the handles before it out. Whatever happens to the database afterwards,
  further takeovers included, every operation through a handle whose fence has an older generation
  (or that has none) answers an error and leaves its handle and the database as they were. As long
  as nobody else takes over, that is so for every handle that does not carry the new fence, while
  the new fence is accepted before and after every operation.
\<close>

theorem takeover_fences_out:
  assumes "reachable_db hash d" and "acquire_fence host d = Inr (f, d')"
    and "(db_step hash)\<^sup>*\<^sup>* d' (s_db s)" and "store_call hash call"
  shows "((\<forall>g. s_writer s = Some g \<longrightarrow> hf_generation g < hf_generation f) \<longrightarrow> (\<exists>e. call s = (Inl e, s))) \<and>
    ((op_step hash)\<^sup>*\<^sup>* d' (s_db s) \<longrightarrow>
      (s_writer s \<noteq> Some f \<longrightarrow> (\<exists>e. call s = (Inl e, s))) \<and>
      (s_writer s = Some f \<longrightarrow> may_write s \<and> may_write (snd (call s))))"
proof (intro conjI impI)
  have inv: "db_inv hash d" using assms(1) by (rule database.reach_inv)
  from take_over_good [OF inv assms(2)] have inv': "db_inv hash d'" by simp
  {
    assume older: "\<forall>g. s_writer s = Some g \<longrightarrow> hf_generation g < hf_generation f"
    have "epoch_reached (hf_generation f) d'" using acquire_fenceD [OF assms(2)] by (simp add: epoch_reached_def)
    from epoch_run [OF assms(3) inv' this] older have "\<not> may_write s"
      by (auto simp: may_write_body assert_fence_iff epoch_reached_def)
    with store_call_refused [OF assms(4)] show "\<exists>e. call s = (Inl e, s)" by blast
  next
    assume run: "(op_step hash)\<^sup>*\<^sup>* d' (s_db s)"
    have "hosts_inv d" using inv by (simp add: db_inv_def)
    from op_run_good [OF run inv'] have s: "db_inv hash (s_db s)" "same_hosts d' (s_db s)" by simp_all
    have may: "may_write s \<longleftrightarrow> s_writer s = Some f"
      using acquired_fence_only [OF \<open>hosts_inv d\<close> assms(2) s(2)] by (auto simp: may_write_def split: option.splits)
    show "\<exists>e. call s = (Inl e, s)" if "s_writer s \<noteq> Some f"
      using that may store_call_refused [OF assms(4)] by blast
    assume "s_writer s = Some f"
    with may show "may_write s" by blast
    from store_call_good [OF assms(4)] s(1) have "s_writer (snd (call s)) = s_writer s" "same_hosts (s_db s) (s_db (snd (call s)))"
      by (simp_all add: good_op_def good_change_def)
    with \<open>may_write s\<close> show "may_write (snd (call s))"
      by (simp add: may_write_def same_hosts_fence split: option.splits)
  }
qed

text \<open>
  The lease of a task is exclusive within a generation: while the host that holds it is the
  writer, no operation gives the task to another session. After any operation, and after any
  takeover, the lease is the same row or it was released.
\<close>

theorem lease_not_stolen:
  assumes "reachable_db hash d" and "db_step hash d d'"
    and "lease_of task d = Some l" and "db_epoch d = Some (tl_generation l)"
  shows "lease_of task d' = None \<or> lease_of task d' = Some l"
  using assms(2)
proof (cases rule: db_step.cases)
  case (operate op s)
  have "db_inv hash d" using assms(1) by (rule database.reach_inv)
  with store_op_good [OF operate(3)] operate(1,2) have "leases_kept d d'"
    by (simp add: good_op_def good_change_def)
  with assms(3,4) show ?thesis by (simp add: leases_kept_def)
next
  case (take_over host f)
  from acquire_fenceD(3) [OF take_over] assms(3) show ?thesis by (simp add: lease_of_def)
qed

section \<open>The journal\<close>

text \<open>
  C3. In every reachable database the journal of a session has no gap and no duplicate: reading
  after any cursor returns exactly the events from the next number up to the last committed one,
  in order, each of them valid and of this session.
\<close>

theorem journal_gapless:
  assumes "reachable_db hash d" and "session_by_id session d = Some row" and "n \<le> i64_max"
  shows "\<exists>es. load_events_after hash session n d = Inr es \<and> map ev_seq es = [Suc n..<ss_next_sequence row] \<and>
    (\<forall>e \<in> set es. event_validate hash e = Inr () \<and> ev_session_id e = session)"
proof -
  have inv: "journal_inv hash d" using database.reach_inv [OF assms(1)] by (simp add: db_inv_def)
  from load_events_ok(1) [OF inv assms(2,3)] journal_tail_spec [OF inv assms(2)] show ?thesis by blast
qed

lemma last_take_upt:
  assumes seqs: "map f xs = [Suc n..<m]" and page: "take k xs \<noteq> []"
  shows "f (last (take k xs)) = n + length (take k xs)"
proof -
  let ?j = "length (take k xs)"
  have j: "0 < ?j" "?j \<le> k" "?j \<le> length xs" using page by auto
  from seqs have len: "length xs = m - Suc n" by (metis length_map length_upt)
  have "f (last (take k xs)) = f (xs ! (?j - 1))"
    unfolding last_conv_nth [OF page] using j by (subst nth_take) linarith+
  also have "\<dots> = map f xs ! (?j - 1)" using j by (subst nth_map) linarith+
  also have "\<dots> = Suc n + (?j - 1)" unfolding seqs using j len by (subst nth_upt) linarith+
  finally show ?thesis using j(1) by simp
qed

text \<open>
  Reading in pages loses and repeats nothing: a page followed by what is read after its last
  event is what one read returns, and a page is empty only when nothing is left.
\<close>

theorem pages_compose:
  assumes "reachable_db hash d" and "session_by_id session d = Some row" and "n \<le> i64_max"
    and "0 < limit" and "ss_next_sequence row \<le> i64_max"
  shows "\<exists>page. load_events_after_limit hash session n limit d = Inr page \<and> length page \<le> limit \<and>
    (if page = [] then load_events_after hash session n d = Inr []
     else \<exists>rest. load_events_after hash session (ev_seq (last page)) d = Inr rest \<and>
       load_events_after hash session n d = Inr (page @ rest))"
proof -
  have inv: "journal_inv hash d" using database.reach_inv [OF assms(1)] by (simp add: db_inv_def)
  let ?all = "journal_tail session n d" and ?k = "min limit 4096"
  note load = load_events_ok [OF inv assms(2,3)]
  show ?thesis
  proof (cases "?all = []")
    case True
    with load assms(4) show ?thesis by simp
  next
    case False
    let ?page = "take ?k ?all" and ?j = "length (take ?k ?all)"
    from False assms(4) have page: "?page \<noteq> []" "0 < ?j" by simp_all
    have seqs: "map ev_seq ?all = [Suc n..<ss_next_sequence row]" by (rule journal_tail_spec(1) [OF inv assms(2)])
    then have last: "ev_seq (last ?page) = n + ?j" using page(1) by (rule last_take_upt)
    have "n + ?j < ss_next_sequence row"
    proof -
      from seqs have "length ?all = ss_next_sequence row - Suc n" by (metis length_map length_upt)
      moreover have "?j \<le> length ?all" by simp
      ultimately show ?thesis using page(2) by linarith
    qed
    with assms(5) have "n + ?j \<le> i64_max" by simp
    from load_events_ok(1) [OF inv assms(2) this] journal_tail_drop [OF inv assms(2), of n ?j]
    have "load_events_after hash session (ev_seq (last ?page)) d = Inr (drop ?j ?all)" by (simp add: last)
    moreover have "?page @ drop ?j ?all = ?all" by (metis append_take_drop_id length_take min_def take_all nle_le)
    ultimately show ?thesis using load(1) load(2) [OF assms(4)] page(1) by auto
  qed
qed

text \<open>What an accepted admission leaves in the inbox.\<close>

definition inbox_matches :: "admission_commit \<Rightarrow> admission_ack \<Rightarrow> db \<Rightarrow> bool" where
  "inbox_matches c ack d \<longleftrightarrow> (\<exists>row. inbox_by_id (ad_input_id c) d = Some row \<and>
    ib_session_id row = ad_session_id c \<and> ib_task_id row = ad_task_id c \<and> ib_input_hash row = ad_input_hash c \<and>
    ak_input_id ack = ad_input_id c \<and> ak_event_id ack = ib_event_id row \<and> ak_sequence ack = ib_admitted_sequence row)"

lemma inbox_matches_later: "inbox_matches c ack d \<Longrightarrow> journal_later d d' \<Longrightarrow> inbox_matches c ack d'"
  by (auto simp: inbox_matches_def journal_later_def inbox_by_id_def sel_append split: option.splits)

lemma admission_commits_row:
  assumes ok: "validate_admission hash c = Inr ()" and body: "admission_body c f d = Inr (CommitAt p ack d')"
  shows "inbox_matches c ack d'"
proof -
  from body obtain d1 d2 u d3 d4 d5 d6 where
    steps: "insert_event (ad_session_id c) (ad_event c) d2 = Inr d3" "insert_inbox c d3 = Inr d4"
      "upsert_projection (ad_task_id c) (ad_session_id c) (ad_working_state c) d4 = Inr d5"
      "insert_marker (ad_session_id c) (ad_task_id c) (ad_marker c) d5 = Inr d6"
      "advance_sequence (ad_session_id c) (ad_expected_sequence c) d6 = Inr d'"
    and ack: "ack = \<lparr>ak_input_id = ad_input_id c, ak_event_id = ev_event_id (ad_event c),
      ak_sequence = ev_seq (ad_event c), ak_idempotent_replay = False\<rparr>"
    by (auto simp: admission_body_def bind_res_Inr split: option.splits if_splits)
  from steps(3-5) have "db_inbox d' = db_inbox d4"
    by (auto dest!: upsert_projection_frame insert_marker_frame advance_sequenceD)
  with insert_inboxD [OF steps(2)] ack show ?thesis
    by (auto simp: inbox_matches_def inbox_by_id_def sel_append sel_Cons)
qed

lemma admission_accepted:
  assumes "commit_admission hash c s = (Inr ack, s')"
  shows "validate_admission hash c = Inr () \<and> inbox_matches c ack (s_db s')"
proof -
  from assms have ok: "validate_admission hash c = Inr ()"
    and tx: "write_tx (admission_body c) s = (Inr ack, s')"
    by (auto simp: commit_admission_def split: sum.splits)
  from tx have "inbox_matches c ack (s_db s')"
  proof (cases rule: write_tx_InrE)
    case (rolled_back f)
    then show ?thesis
      by (auto simp: admission_body_def bind_res_Inr inbox_matches_def split: option.splits if_splits)
  next
    case (committed f d)
    then show ?thesis by (auto simp: admission_body_def bind_res_Inr split: option.splits if_splits)
  next
    case (committed_at f d p)
    from admission_commits_row [OF ok committed_at(3)] committed_at(5) show ?thesis by simp
  qed
  with ok show ?thesis by simp
qed

text \<open>
  C6. Admission is idempotent for good: once an input was acknowledged, then after any later
  operations and takeovers the same admission returns the same acknowledgement marked as a replay
  and writes nothing, and an admission that reuses the input identifier with another session,
  task or content is a conflict that writes nothing.
\<close>

theorem admission_replayed:
  assumes "reachable_db hash (s_db s)" and "commit_admission hash c s = (Inr ack, s')"
    and "(db_step hash)\<^sup>*\<^sup>* (s_db s') (s_db t)" and "may_write t"
  shows "commit_admission hash c t = (Inr (ack\<lparr>ak_idempotent_replay := True\<rparr>), t) \<and>
    (\<forall>c'. validate_admission hash c' = Inr () \<longrightarrow> ad_input_id c' = ad_input_id c \<longrightarrow>
      (ad_session_id c', ad_task_id c', ad_input_hash c') \<noteq> (ad_session_id c, ad_task_id c, ad_input_hash c) \<longrightarrow>
      commit_admission hash c' t = (Inl IdempotencyConflict, t))"
proof -
  from admission_accepted [OF assms(2)] have ok: "validate_admission hash c = Inr ()"
    and stored: "inbox_matches c ack (s_db s')" by simp_all
  have "db_inv hash (s_db s)" using assms(1) by (rule database.reach_inv)
  from op_keeps_inv [OF do_admission [of hash c] this] have "db_inv hash (s_db s')"
    by (simp add: assms(2))
  from db_run_later [OF assms(3) this] have "journal_later (s_db s') (s_db t)" by (simp add: db_later_def)
  from inbox_matches_later [OF stored this] obtain row where row: "inbox_by_id (ad_input_id c) (s_db t) = Some row"
    "ib_session_id row = ad_session_id c" "ib_task_id row = ad_task_id c" "ib_input_hash row = ad_input_hash c"
    "ak_input_id ack = ad_input_id c" "ak_event_id ack = ib_event_id row" "ak_sequence ack = ib_admitted_sequence row"
    by (auto simp: inbox_matches_def)
  from assms(4) obtain f where f: "s_writer t = Some f" "assert_fence_in_tx f (s_db t) = Inr ()"
    by (auto simp: may_write_body)
  have "commit_admission hash c t = (Inr (ack\<lparr>ak_idempotent_replay := True\<rparr>), t)"
    using ok row by (simp add: commit_admission_def write_tx_authorised [OF f] admission_body_def)
  moreover have "commit_admission hash c' t = (Inl IdempotencyConflict, t)"
    if "validate_admission hash c' = Inr ()" "ad_input_id c' = ad_input_id c"
      "(ad_session_id c', ad_task_id c', ad_input_hash c') \<noteq> (ad_session_id c, ad_task_id c, ad_input_hash c)" for c'
    using that row by (auto simp: commit_admission_def write_tx_authorised [OF f] admission_body_def)
  ultimately show ?thesis by blast
qed

section \<open>Budgets\<close>

lemma member_le_sum_list_int:
  fixes g :: "'a \<Rightarrow> int"
  assumes "x \<in> set xs" and "\<And>y. 0 \<le> g y"
  shows "g x \<le> (\<Sum>y \<leftarrow> xs. g y)"
  using assms(1)
proof (induction xs)
  case (Cons y ys)
  moreover have "0 \<le> (\<Sum>y \<leftarrow> ys. g y)" using assms(2) by (intro sum_list_nonneg) auto
  ultimately show ?case using assms(2) [of y] by auto
qed simp

text \<open>
  C4. The ledger of every reachable database is exact: what an account has spent is the sum of
  what the reservations of it and of the accounts below it hold (the bound while a reservation is
  open or its usage unknown, the measured amount once settled, nothing once released), and it
  never exceeds the account's limit.
\<close>

theorem ledger_exact:
  assumes "reachable_db hash d" and "a \<in> set (db_accounts d)"
  shows "int (ba_spent a) = (\<Sum>r \<leftarrow> db_reservations d.
      if ba_id a \<in> set (chain (br_budget_id r) (db_accounts d)) then int (held r) else 0) \<and>
    ba_spent a \<le> ba_limit a"
proof -
  have "budget_inv d" using database.reach_inv [OF assms(1)] by (simp add: db_inv_def)
  with assms(2) show ?thesis by (simp add: budget_inv_def accounts_exact_def ledger_def holding_def [abs_def])
qed

text \<open>
  C9. A closed reservation is final: once a reservation is settled, released or its usage is
  unknown, no operation and no takeover writes its row again, so an unknown usage stays charged
  at its bound for good.
\<close>

theorem closed_reservation_final:
  assumes "reachable_db hash d" and "(db_step hash)\<^sup>*\<^sup>* d d'"
    and "r \<in> set (db_reservations d)" and "br_state r \<noteq> Reserved"
  shows "r \<in> set (db_reservations d') \<and> (br_state r = UnknownUsage \<longrightarrow>
    (\<forall>a \<in> set (db_accounts d'). ba_id a \<in> set (chain (br_budget_id r) (db_accounts d')) \<longrightarrow> br_bound r \<le> ba_spent a))"
proof -
  have inv: "db_inv hash d" using assms(1) by (rule database.reach_inv)
  from db_run_later [OF assms(2) inv] assms(3) obtain r' where "r' \<in> set (db_reservations d')" "reservation_later r r'"
    unfolding db_later_def reservations_later_def by blast
  with assms(4) have r: "r \<in> set (db_reservations d')" by (simp add: reservation_later_def)
  have budget: "budget_inv d'" using db_run_inv [OF assms(2) inv] by (simp add: db_inv_def)
  have "br_bound r \<le> ba_spent a" if "br_state r = UnknownUsage" "a \<in> set (db_accounts d')"
    "ba_id a \<in> set (chain (br_budget_id r) (db_accounts d'))" for a
  proof -
    have "holding (db_accounts d') (ba_id a) r \<le> (\<Sum>x \<leftarrow> db_reservations d'. holding (db_accounts d') (ba_id a) x)"
      by (rule member_le_sum_list_int [OF r]) (simp add: holding_def)
    with budget that show ?thesis by (auto simp: budget_inv_def accounts_exact_def ledger_def holding_def held_def)
  qed
  with r show ?thesis by blast
qed

section \<open>Answers and revisions\<close>

lemma answer_accepted:
  assumes inv: "questions_inv (s_db s)" and tx: "answer_question k a h w now s = (Inr (Answered q), s')"
  shows "question_by_scope k (s_db s') = Some q \<and> q_state q = QAnswered \<and> q_answer q = Some a \<and>
    q_answer_hash q = Some h \<and> \<not> question_due now q"
  using tx unfolding answer_question_def
proof (cases rule: write_tx_InrE)
  case (rolled_back f)
  then show ?thesis
    by (auto simp: answer_question_body_def Let_def split: option.splits question_state.splits if_splits sum.splits)
next
  case (committed f d)
  then show ?thesis
    by (auto simp: answer_question_body_def Let_def split: option.splits question_state.splits if_splits sum.splits)
next
  case (committed_at f d p)
  then obtain c where c: "question_by_scope k (s_db s) = Some c" "q_state c = QOpen" "\<not> question_due now c"
    and q: "q = answered a h w now c"
    and d: "d = set_question (\<lambda>r. q_id r = q_id c \<and> q_state r = QOpen) (answered a h w now) (s_db s)"
    by (auto simp: answer_question_body_def Let_def split: option.splits question_state.splits if_splits sum.splits)
  have "sel (\<lambda>r. q_scope_key r = k) (upd (\<lambda>r. q_id r = q_id c \<and> q_state r = QOpen) (answered a h w now) (db_questions (s_db s))) =
      map_option (\<lambda>r. if q_id r = q_id c \<and> q_state r = QOpen then answered a h w now r else r) (Some c)"
    using c(1) unfolding question_by_scope_def by (subst sel_upd) (simp_all add: answered_def)
  with c q d committed_at(5) show ?thesis
    by (simp add: question_by_scope_def set_question_def) (simp add: answered_def question_due_def)
qed

text \<open>
  C13. The first answer in time wins: an answer is accepted only before the question's deadline,
  and from then on, whatever operations and takeovers follow, the question carries exactly that
  answer; answering again with the same content is a duplicate, with any other a conflict, and
  neither writes anything.
\<close>

theorem first_answer_final:
  assumes "reachable_db hash (s_db s)" and "answer_question k a h w now s = (Inr (Answered q), s')"
    and "(db_step hash)\<^sup>*\<^sup>* (s_db s') (s_db t)" and "may_write t"
  shows "\<not> question_due now q \<and> q_answer q = Some a \<and> question_by_scope k (s_db t) = Some q \<and>
    (\<forall>a' h' w' now'. answer_question k a' h' w' now' t =
      (Inr (if h' = h then Duplicate q else Conflict q), t))"
proof -
  have inv: "db_inv hash (s_db s)" using assms(1) by (rule database.reach_inv)
  have inv': "db_inv hash (s_db s')"
    using op_keeps_inv [OF do_answer [of hash k a h w now] inv] by (simp add: assms(2))
  from inv have "questions_inv (s_db s)" by (simp add: db_inv_def)
  note q = answer_accepted [OF this assms(2)]
  then have "q \<in> set (db_questions (s_db s'))" "q_scope_key q = k"
    unfolding question_by_scope_def by (auto dest: sel_SomeD)
  moreover from db_run_later [OF assms(3) inv'] have "questions_later (s_db s') (s_db t)"
    by (simp add: db_later_def)
  ultimately have "q \<in> set (db_questions (s_db t))"
    using q unfolding questions_later_def question_later_def by fastforce
  moreover from db_run_inv [OF assms(3) inv'] have "keyed q_scope_key (db_questions (s_db t))"
    by (simp add: db_inv_def questions_inv_def)
  ultimately have t: "question_by_scope k (s_db t) = Some q"
    using sel_keyed [of q_scope_key "db_questions (s_db t)" q] \<open>q_scope_key q = k\<close>
    by (simp add: question_by_scope_def)
  from assms(4) obtain f where f: "s_writer t = Some f" "assert_fence_in_tx f (s_db t) = Inr ()"
    by (auto simp: may_write_body)
  have "answer_question k a' h' w' now' t = (Inr (if h' = h then Duplicate q else Conflict q), t)" for a' h' w' now'
    using q t by (simp add: answer_question_def write_tx_authorised [OF f] answer_question_body_def)
  with q t show ?thesis by blast
qed

lemma write_tx_error:
  assumes "\<And>f. \<exists>e. body f (s_db t) = Inl e"
  shows "\<exists>e. fst (write_tx body t) = Inl e"
proof (cases "may_write t")
  case True
  then obtain f where f: "s_writer t = Some f" "assert_fence_in_tx f (s_db t) = Inr ()"
    by (auto simp: may_write_body)
  from assms [of f] show ?thesis by (auto simp: write_tx_authorised [OF f])
next
  case False
  with write_tx_refused [of t body] show ?thesis by auto
qed

lemma stale_refused:
  assumes "\<And>x. run_by_id r (s_db t) = Some x \<Longrightarrow> n < run_revision x"
  shows "\<exists>e. fst (freeze_run_step r n step res t) = Inl e" and "\<exists>e. fst (finish_run r n st acc reason q t) = Inl e"
proof -
  have "\<exists>e. freeze_run_step_body r n step res f (s_db t) = Inl e" for f
    using assms by (auto simp: freeze_run_step_body_def split: option.splits)
  then show "\<exists>e. fst (freeze_run_step r n step res t) = Inl e"
    unfolding freeze_run_step_def by (rule write_tx_error)
  have "\<exists>e. finish_run_body r n st acc reason q f (s_db t) = Inl e" for f
    using assms by (auto simp: finish_run_body_def split: option.splits)
  then show "\<exists>e. fst (finish_run r n st acc reason q t) = Inl e"
    unfolding finish_run_def by (rule write_tx_error)
qed

text \<open>A freeze or a finish at a revision moves the run past it.\<close>

lemma revision_moved:
  assumes "(op = (\<lambda>s. freeze_run_step r n step res s)) \<or> (op = (\<lambda>s. finish_run r n st acc reason q s))"
    and tx: "op s = (Inr run, s')"
  shows "\<exists>x. run_by_id r (s_db s') = Some x \<and> n < run_revision x"
proof -
  have moved: "\<exists>x. run_by_id r d = Some x \<and> n < run_revision x"
    if cur: "run_by_id r (s_db s) = Some cur" "run_revision cur = n"
    and runs: "db_runs d = upd (\<lambda>x. run_id x = r \<and> run_revision x = n) g (db_runs (s_db s))"
    and g: "\<And>x. run_id (g x) = run_id x" "\<And>x. run_revision (g x) = run_revision x + 1" for cur d g
  proof -
    have "run_by_id r d = map_option (\<lambda>x. if run_id x = r \<and> run_revision x = n then g x else x) (run_by_id r (s_db s))"
      unfolding run_by_id_def runs by (rule sel_upd) (simp add: g)
    moreover have "run_id cur = r" using cur(1) unfolding run_by_id_def by (auto dest: sel_SomeD)
    ultimately show ?thesis using cur g by simp
  qed
  from assms(1) show ?thesis
  proof
    assume "op = (\<lambda>s. freeze_run_step r n step res s)"
    with tx have "write_tx (freeze_run_step_body r n step res) s = (Inr run, s')" by (simp add: freeze_run_step_def)
    then obtain f p where "freeze_run_step_body r n step res f (s_db s) = Inr (CommitAt p run (s_db s'))"
      by (cases rule: write_tx_InrE) (auto dest: freeze_result)
    then have "commits (freeze_run_step_body r n step res f (s_db s)) (s_db s')" by simp
    then show ?thesis
    proof (rule freeze_bodyE)
      fix cur d1
      assume cur: "run_by_id r (s_db s) = Some cur" "run_revision cur = n"
        and "(case res of None \<Rightarrow> Inr (s_db s) | Some x \<Rightarrow> reserve_for_step x (s_db s)) = Inr d1"
      then have "db_runs d1 = db_runs (s_db s)" by (auto dest!: reserve_opt_frame simp: budget_frame_def)
      moreover assume "s_db s' = d1\<lparr>db_steps := db_steps d1 @ [step\<lparr>st_stop_reason := None\<rparr>],
        db_runs := upd (\<lambda>x. run_id x = r \<and> run_revision x = n) (\<lambda>x. x\<lparr>run_revision := run_revision x + 1\<rparr>) (db_runs d1)\<rparr>"
      ultimately show ?thesis
        by (intro moved [OF cur, of _ "\<lambda>x. x\<lparr>run_revision := run_revision x + 1\<rparr>"]) simp_all
    qed
  next
    let ?g = "\<lambda>x. x\<lparr>run_st := st, run_acceptance := acc, run_stop_reason := reason,
                run_awaiting := q, run_revision := run_revision x + 1\<rparr>"
    assume "op = (\<lambda>s. finish_run r n st acc reason q s)"
    with tx have "write_tx (finish_run_body r n st acc reason q) s = (Inr run, s')" by (simp add: finish_run_def)
    then obtain f d where body: "finish_run_body r n st acc reason q f (s_db s) = Inr (Commit run d)" "s_db s' = d"
      by (cases rule: write_tx_InrE) (auto simp: finish_run_body_def bind_res_Inr Let_def split: option.splits if_splits)
    from body(1) obtain cur where cur: "run_by_id r (s_db s) = Some cur" "run_revision cur = n"
      and d: "d = (s_db s)\<lparr>db_runs := upd (\<lambda>x. run_id x = r \<and> run_revision x = n) ?g (db_runs (s_db s))\<rparr>"
      by (auto simp: finish_run_body_def bind_res_Inr Let_def split: option.splits if_splits)
    then show ?thesis unfolding body(2) by (intro moved [OF cur, of _ ?g]) simp_all
  qed
qed

text \<open>
  C14. A revision of a run is used once: after a freeze or a finish was acknowledged at a
  revision, no later freeze or finish at that revision succeeds through any handle, whatever
  operations and takeovers happened in between, and the refused call changes nothing.
\<close>

theorem revision_used_once:
  assumes "reachable_db hash (s_db s)"
    and "fst (freeze_run_step r n step res s) = Inr run \<and> s' = snd (freeze_run_step r n step res s) \<or>
      fst (finish_run r n st acc reason q s) = Inr run \<and> s' = snd (finish_run r n st acc reason q s)"
    and "(db_step hash)\<^sup>*\<^sup>* (s_db s') (s_db t)"
  shows "\<exists>e e'. fst (freeze_run_step r n step' res' t) = Inl e \<and> fst (finish_run r n st' acc' reason' q' t) = Inl e' \<and>
    s_db (snd (freeze_run_step r n step' res' t)) = s_db t \<and> s_db (snd (finish_run r n st' acc' reason' q' t)) = s_db t"
proof -
  have inv: "db_inv hash (s_db s)" using assms(1) by (rule database.reach_inv)
  have "db_inv hash (s_db s')" using assms(2)
    op_keeps_inv [OF do_freeze [of hash r n step res] inv] op_keeps_inv [OF do_finish [of hash r n st acc reason q] inv]
    by auto
  from db_run_later [OF assms(3) this] have later: "runs_later (s_db s') (s_db t)" by (simp add: db_later_def)
  have "\<exists>x. run_by_id r (s_db s') = Some x \<and> n < run_revision x"
    using assms(2) by (auto intro: revision_moved [where s = s] simp: prod_eq_iff)
  with later have "n < run_revision y" if "run_by_id r (s_db t) = Some y" for y
    using that unfolding runs_later_def by fastforce
  from stale_refused [where n = n, OF this] obtain e e' where
    "fst (freeze_run_step r n step' res' t) = Inl e" "fst (finish_run r n st' acc' reason' q' t) = Inl e'" by blast
  then show ?thesis using freeze_op.error_keeps finish_op.error_keeps by blast
qed

end
