(* ===== verification/Store_Histories.thy ===== *)
theory Store_Histories imports Store_System begin

text \<open>
  Small histories of a store, from an empty database: a host takes the writer role, admits an
  input, keeps a budget, asks a question and runs a step. The theorems of \<open>Store_System\<close> are
  applied to them.
\<close>

section \<open>The first writer\<close>

definition writer_db :: db where
  "writer_db = empty_db\<lparr>db_epoch := Some 1, db_hosts := [''host'' \<mapsto> 1]\<rparr>"

definition first_fence :: host_fence where
  "first_fence = \<lparr>hf_host_id = ''host'', hf_generation = 1\<rparr>"

definition handle :: "db \<Rightarrow> store" where
  "handle d = \<lparr>s_writer = Some first_fence, s_faults = {}, s_db = d\<rparr>"

lemma handle_db [simp]: "s_db (handle d) = d"
  by (simp add: handle_def)

lemma writer_reachable: "reachable_db hash writer_db"
proof (rule reach_step [OF reach_init])
  show "db_step hash empty_db writer_db"
    by (rule take_over [of "''host''" _ first_fence])
      (simp add: acquire_fence_def writer_db_def first_fence_def empty_db_def i64_max_def)
qed simp

lemma handle_may_write: "same_hosts writer_db d \<Longrightarrow> may_write (handle d)"
  by (auto simp: may_write_def handle_def assert_fence_iff first_fence_def same_hosts_def writer_db_def i64_max_def)

lemma handle_tx:
  assumes "same_hosts writer_db d"
  shows "write_tx body (handle d) = end_tx (body first_fence d) (handle d)"
proof -
  from handle_may_write [OF assms] have "assert_fence_in_tx first_fence d = Inr ()"
    by (auto simp: may_write_def handle_def)
  with write_tx_authorised [of "handle d" first_fence body] show ?thesis by (simp add: handle_def)
qed

lemma handle_step: "store_op hash op \<Longrightarrow> op (handle d) = handle d' \<Longrightarrow> db_step hash d d'"
  using operate [of hash op "handle d"] by simp

lemma writer_db_simps [simp]:
  "db_sessions writer_db = []" "db_leases writer_db = []" "db_events writer_db = []" "db_inbox writer_db = []"
  "db_projections writer_db = []" "db_markers writer_db = []" "db_accounts writer_db = []"
  "db_reservations writer_db = []" "db_questions writer_db = []" "db_runs writer_db = []" "db_steps writer_db = []"
  "db_epoch writer_db = Some 1"
  by (simp_all add: writer_db_def empty_db_def)

text \<open>A second host takes over; the first one's handle is fenced out.\<close>

theorem takeover_fences_out_witness:
  "\<exists>f d e. acquire_fence ''other'' writer_db = Inr (f, d) \<and>
    release_task_lease ''task'' (handle d) = (Inl e, handle d)"
proof -
  let ?f = "\<lparr>hf_host_id = ''other'', hf_generation = 2\<rparr>"
  let ?d = "writer_db\<lparr>db_epoch := Some 2, db_hosts := (db_hosts writer_db)(''other'' \<mapsto> 2)\<rparr>"
  have acq: "acquire_fence ''other'' writer_db = Inr (?f, ?d)"
    by (simp add: acquire_fence_def i64_max_def) (simp add: numeral_2_eq_2)
  have "\<forall>g. s_writer (handle ?d) = Some g \<longrightarrow> hf_generation g < hf_generation ?f" by (simp add: handle_def first_fence_def)
  with takeover_fences_out [of "\<lambda>_. Inr ''h''" writer_db "''other''" ?f ?d "handle ?d", OF writer_reachable acq _ call_release_lease [where task = "''task''"]]
  obtain e where "reply (release_task_lease ''task'' (handle ?d)) = (Inl e, handle ?d)" by auto
  then have "fst (release_task_lease ''task'' (handle ?d)) = Inl e" "snd (release_task_lease ''task'' (handle ?d)) = handle ?d"
    by (auto simp: reply_def split: sum.splits)
  with acq show ?thesis by (metis prod.collapse)
qed

section \<open>An admitted input\<close>

abbreviation text_hash :: canonical_hash where
  "text_hash \<equiv> (\<lambda>_. Inr ''h'')"

definition sample_event :: event_envelope where
  "sample_event = \<lparr>ev_schema_version = 1, ev_event_id = ''e1'', ev_session_id = ''s'', ev_seq = 1,
    ev_event_type = ''input.admitted'', ev_producer = \<lparr>pi_plugin_id = ''host'', pi_implementation_version = ''1''\<rparr>,
    ev_authority = AuthUser, ev_correlation_id = None, ev_causation_id = None, ev_continuity_critical = True,
    ev_payload = [(''input_id'', JStr ''in''), (''text'', JStr ''hello''), (''instruction_id'', JStr ''i''), (''task_id'', JStr ''t''),
      (''workspace'', JNull), (''initial_plan_items'', JArr [])], ev_payload_hash = ''h''\<rparr>"

definition sample_source :: source_ref where
  "sample_source = \<lparr>sf_event_id = ''e1'', sf_sequence = 1, sf_content_hash = ''h''\<rparr>"

definition sample_state :: working_state where
  "sample_state = \<lparr>ws_schema_version = 1, ws_session_id = ''s'', ws_task_id = ''t'', ws_revision = 1,
    ws_through_event_seq = 1, ws_objective_ref = sample_source, ws_acceptance_criteria_refs = [],
    ws_active_instruction_refs = [], ws_decision_refs = [], ws_superseded_decision_refs = [],
    ws_plan_items = [], ws_workspace = \<lparr>wo_project_id = ''p'', wo_worktree_id = ''w'', wo_base_commit = ''b'',
      wo_observed_fingerprint = ''h''\<rparr>, ws_changes = [], ws_checks = [], ws_pending_tool_calls = [],
    ws_children = [], ws_blockers = [], ws_pending_questions = [], ws_next_action_proposals = []\<rparr>"

definition sample_admission :: admission_commit where
  "sample_admission = \<lparr>ad_session_id = ''s'', ad_task_id = ''t'', ad_input_id = ''in'', ad_input_hash = ''h'',
    ad_raw_text = ''hello'', ad_expected_sequence = 1, ad_event = sample_event,
    ad_instruction = \<lparr>in_schema_version = 1, in_instruction_id = ''i'', in_source = sample_source,
      in_scope = ''task'', in_authority = AuthUser, in_mandatory = True, in_status = InstrEffective,
      in_source_hash = ''h'', in_superseded_by = None\<rparr>,
    ad_working_state = sample_state,
    ad_marker = \<lparr>mk_marker_id = ''m'', mk_event_id = ''e1'', mk_sequence = 1, mk_kind = ''input'', mk_status = ''open''\<rparr>\<rparr>"

definition sample_ack :: admission_ack where
  "sample_ack = \<lparr>ak_input_id = ''in'', ak_event_id = ''e1'', ak_sequence = 1, ak_idempotent_replay = False\<rparr>"

definition admitted_db :: db where
  "admitted_db = writer_db\<lparr>
    db_sessions := [\<lparr>ss_session_id = ''s'', ss_task_id = ''t'', ss_next_sequence = 2\<rparr>],
    db_leases := [\<lparr>tl_task_id = ''t'', tl_session_id = ''s'', tl_host_id = ''host'', tl_generation = 1\<rparr>],
    db_events := [\<lparr>er_session_id = ''s'', er_sequence = 1, er_event = sample_event\<rparr>],
    db_inbox := [\<lparr>ib_input_id = ''in'', ib_session_id = ''s'', ib_task_id = ''t'', ib_input_hash = ''h'',
      ib_raw_text = ''hello'', ib_event_id = ''e1'', ib_admitted_sequence = 1\<rparr>],
    db_projections := [\<lparr>pj_task_id = ''t'', pj_session_id = ''s'', pj_revision = 1, pj_through_sequence = 1,
      pj_state = sample_state\<rparr>],
    db_markers := [\<lparr>mr_marker_id = ''m'', mr_session_id = ''s'', mr_task_id = ''t'', mr_event_id = ''e1'',
      mr_sequence = 1, mr_marker = ad_marker sample_admission\<rparr>]\<rparr>"

lemma letter_not_blank:
  assumes "32 < byte c" and "byte c < 128"
  shows "\<not> blank (c # rest)"
proof (rule not_blank_nonspace)
  show "ws_len (c # rest) = 0"
    using assms by (cases rest rule: list.exhaust; cases "tl rest") auto
qed simp

lemma sample_valid: "validate_admission text_hash sample_admission = Inr ()"
  by (simp add: validate_admission_def checks_ok event_validate_def instruction_validate_def
    working_state_validate_def validate_schema_version_def validate_sequence_def validate_nonempty_def
    producer_validate_def source_ref_validate_def p0_schema_version_def letter_not_blank byte_def
    sample_admission_def sample_event_def sample_state_def sample_source_def)

lemma sample_admitted:
  "commit_admission text_hash sample_admission (handle writer_db) = (Inr sample_ack, handle admitted_db)"
proof -
  have "same_hosts writer_db writer_db" by simp
  note tx = handle_tx [OF this, of "admission_body sample_admission"]
  have "admission_body sample_admission first_fence writer_db =
      Inr (CommitAt BeforeAdmissionCommit sample_ack admitted_db)"
    by (simp add: admission_body_def inbox_by_id_def ensure_session_def session_task_in_tx_def
      session_by_id_def claim_task_def lease_of_def ensure_expected_sequence_def session_next_sequence_def
      insert_event_def event_by_id_def insert_inbox_def upsert_projection_def insert_marker_def
      advance_sequence_def affected_def upd_Cons sel_Cons to_i64_def i64_max_def Let_def
      sample_admission_def sample_event_def sample_state_def sample_ack_def first_fence_def admitted_db_def)
  then show ?thesis by (simp add: commit_admission_def sample_valid tx) (simp add: handle_def)
qed

lemma admitted_reachable: "reachable_db text_hash admitted_db"
proof (rule reach_step [OF writer_reachable])
  show "db_step text_hash writer_db admitted_db"
    by (rule handle_step [OF do_admission [of text_hash sample_admission]]) (simp add: sample_admitted)
qed

lemma admitted_db_simps [simp]:
  "db_epoch admitted_db = Some 1" "same_hosts writer_db admitted_db"
  by (simp_all add: admitted_db_def same_hosts_def)

lemma admitted_session: "session_by_id ''s'' admitted_db = Some \<lparr>ss_session_id = ''s'', ss_task_id = ''t'', ss_next_sequence = 2\<rparr>"
  by (simp add: session_by_id_def admitted_db_def sel_Cons)

theorem lease_not_stolen_witness:
  "lease_of ''t'' admitted_db \<noteq> None \<and>
    lease_of ''t'' (s_db (snd (commit_admission text_hash
      (sample_admission\<lparr>ad_session_id := ''other'', ad_input_id := ''in2''\<rparr>) (handle admitted_db)))) \<in> {None, lease_of ''t'' admitted_db}"
proof -
  have l: "lease_of ''t'' admitted_db = Some \<lparr>tl_task_id = ''t'', tl_session_id = ''s'', tl_host_id = ''host'', tl_generation = 1\<rparr>"
    by (simp add: lease_of_def admitted_db_def sel_Cons)
  let ?c = "sample_admission\<lparr>ad_session_id := ''other'', ad_input_id := ''in2''\<rparr>"
  have "db_step text_hash admitted_db (s_db (snd (commit_admission text_hash ?c (handle admitted_db))))"
    using operate [OF do_admission [of text_hash ?c], of "handle admitted_db"] by simp
  from lease_not_stolen [OF admitted_reachable this l] l show ?thesis by auto
qed

theorem journal_gapless_witness:
  "\<exists>es. load_events_after text_hash ''s'' 0 admitted_db = Inr es \<and> map ev_seq es = [1]"
  using journal_gapless [OF admitted_reachable admitted_session, of 0] by (auto simp: upt_rec)

theorem pages_compose_witness:
  "\<exists>page. load_events_after_limit text_hash ''s'' 0 1 admitted_db = Inr page \<and> length page \<le> 1"
  using pages_compose [OF admitted_reachable admitted_session, of 0 1] by (auto simp: i64_max_def)

theorem admission_replayed_witness:
  "commit_admission text_hash sample_admission (handle admitted_db) =
    (Inr (sample_ack\<lparr>ak_idempotent_replay := True\<rparr>), handle admitted_db)"
proof -
  have "reachable_db text_hash (s_db (handle writer_db))" using writer_reachable by simp
  from admission_replayed [OF this sample_admitted rtranclp.rtrancl_refl handle_may_write]
  show ?thesis by simp
qed

section \<open>A budget\<close>

definition charged_db :: db where
  "charged_db = writer_db\<lparr>db_accounts := [sample_account\<lparr>ba_spent := 0, ba_revision := 1\<rparr>]\<rparr>"

definition held_db :: db where
  "held_db = writer_db\<lparr>db_accounts := [sample_account], db_reservations := [sample_reservation]\<rparr>"

definition unknown_db :: db where
  "unknown_db = writer_db\<lparr>db_accounts := [sample_account],
    db_reservations := [sample_reservation\<lparr>br_state := UnknownUsage, br_revision := 2\<rparr>]\<rparr>"

lemma budget_hosts [simp]: "same_hosts writer_db charged_db" "same_hosts writer_db held_db"
  "same_hosts writer_db unknown_db"
  by (simp_all add: same_hosts_def charged_db_def held_db_def unknown_db_def)

lemma sample_history:
  "snd (ensure_budget_account sample_account (handle writer_db)) = handle charged_db"
  "snd (reserve_budget sample_reservation (handle charged_db)) = handle held_db"
  "snd (settle_budget_reservation \<lparr>bs_reservation_id = ''res'', bs_measured = None\<rparr> (handle held_db)) = handle unknown_db"
proof -
  show "snd (ensure_budget_account sample_account (handle writer_db)) = handle charged_db"
    unfolding ensure_budget_account_def handle_tx [OF same_hosts_refl]
    by (simp add: ensure_account_body_def sample_account_def account_by_id_def sel_Cons Let_def
      to_i64_def i64_max_def handle_def charged_db_def)
  show "snd (reserve_budget sample_reservation (handle charged_db)) = handle held_db"
    unfolding reserve_budget_def handle_tx [OF budget_hosts(1)]
    by (simp add: reserve_body_def insert_reservation_def sample_reservation_def reservation_by_operation_def
      reservation_by_id_def sel_Cons charge_chain_def account_by_id_def affected_def upd_Cons sample_account_def
      Let_def to_i64_def i64_max_def u64_max_def charged_db_def held_db_def) (simp add: handle_def numeral_2_eq_2)
  show "snd (settle_budget_reservation \<lparr>bs_reservation_id = ''res'', bs_measured = None\<rparr> (handle held_db)) = handle unknown_db"
    unfolding settle_budget_reservation_def handle_tx [OF budget_hosts(2)]
    by (simp add: settle_body_def settle_in_tx_def reservation_by_id_def sel_Cons affected_def
      set_reservation_def upd_Cons sample_reservation_def Let_def held_db_def unknown_db_def) (simp add: handle_def numeral_2_eq_2)
qed

lemma unknown_reachable: "reachable_db hash unknown_db"
  by (rule reach_step [OF reach_step [OF reach_step [OF writer_reachable]]])
    (rule handle_step [OF do_account sample_history(1)] handle_step [OF do_reserve sample_history(2)]
      handle_step [OF do_settle sample_history(3)])+

theorem ledger_exact_witness:
  "int (ba_spent sample_account) = (\<Sum>r \<leftarrow> db_reservations unknown_db.
      if ba_id sample_account \<in> set (chain (br_budget_id r) (db_accounts unknown_db)) then int (held r) else 0) \<and>
    ba_spent sample_account \<le> ba_limit sample_account"
  by (rule ledger_exact [OF unknown_reachable [of text_hash]]) (simp add: unknown_db_def)

theorem closed_reservation_final_witness:
  "\<exists>d. (db_step text_hash)\<^sup>*\<^sup>* unknown_db d \<and> sample_reservation\<lparr>br_state := UnknownUsage, br_revision := 2\<rparr> \<in> set (db_reservations d)"
proof -
  have "sample_reservation\<lparr>br_state := UnknownUsage, br_revision := 2\<rparr> \<in> set (db_reservations unknown_db)"
    by (simp add: unknown_db_def)
  from closed_reservation_final [OF unknown_reachable rtranclp.rtrancl_refl [of "db_step text_hash"] this]
  show ?thesis by auto
qed

section \<open>A question\<close>

definition sample_question :: question where
  "sample_question = \<lparr>q_id = ''q'', q_scope_key = ''scope'', q_session_id = ''s'', q_task_id = ''t'',
    q_run_id = None, q_kind = ''approval'', q_prompt = ''go?'', q_payload = JNull, q_state = QOpen,
    q_answer = None, q_answer_hash = None, q_answered_by = None, q_expires_at = Some 10, q_created_at = 1,
    q_answered_at = None\<rparr>"

definition asked_db :: db where
  "asked_db = writer_db\<lparr>db_questions := [sample_question]\<rparr>"

definition sample_answer :: question where
  "sample_answer = answered (JBool True) ''h'' ''user'' 9 sample_question"

definition answered_db :: db where
  "answered_db = writer_db\<lparr>db_questions := [sample_answer]\<rparr>"

lemma question_hosts [simp]: "same_hosts writer_db asked_db" "same_hosts writer_db answered_db"
  by (simp_all add: same_hosts_def asked_db_def answered_db_def)

lemma sample_asked: "snd (open_question sample_question (handle writer_db)) = handle asked_db"
  unfolding open_question_def handle_tx [OF same_hosts_refl]
  by (simp add: open_question_body_def fits_opt_def i64_max_def question_by_scope_def question_by_id_def
    sel_Cons sample_question_def handle_def asked_db_def)

lemma sample_answered:
  "answer_question ''scope'' (JBool True) ''h'' ''user'' 9 (handle asked_db) = (Inr (Answered sample_answer), handle answered_db)"
  unfolding answer_question_def handle_tx [OF question_hosts(1)]
  by (simp add: answer_question_body_def question_by_scope_def sel_Cons question_due_def Let_def to_i64_def
    i64_max_def affected_def set_question_def upd_Cons sample_answer_def sample_question_def answered_def
    asked_db_def answered_db_def) (simp add: handle_def)

lemma asked_reachable: "reachable_db hash asked_db"
  by (rule reach_step [OF writer_reachable handle_step [OF do_ask sample_asked]])

theorem first_answer_final_witness:
  "answer_question ''scope'' JNull ''h2'' ''user'' 20 (handle answered_db) = (Inr (Conflict sample_answer), handle answered_db)"
proof -
  have "reachable_db text_hash (s_db (handle asked_db))" using asked_reachable by simp
  from first_answer_final [OF this sample_answered rtranclp.rtrancl_refl handle_may_write]
  show ?thesis by simp
qed

section \<open>A run\<close>

definition run_db :: "nat \<Rightarrow> run_step list \<Rightarrow> db" where
  "run_db n steps = writer_db\<lparr>db_runs := [sample_run\<lparr>run_revision := n, run_budget_id := None\<rparr>], db_steps := steps\<rparr>"

lemma run_hosts [simp]: "same_hosts writer_db (run_db n steps)"
  by (simp add: same_hosts_def run_db_def)

lemma sample_started: "snd (start_run ''run'' ''s'' ''t'' ''in'' None (handle writer_db)) = handle (run_db 1 [])"
  unfolding start_run_def handle_tx [OF same_hosts_refl]
  by (simp add: start_run_body_def first_fence_def to_i64_def i64_max_def run_by_input_def run_by_id_def
    sel_Cons Let_def run_db_def sample_run_def) (simp add: handle_def first_fence_def writer_db_def empty_db_def)

lemma sample_frozen:
  "freeze_run_step ''run'' 1 sample_step None (handle (run_db 1 [])) =
    (Inr (sample_run\<lparr>run_revision := 2, run_budget_id := None\<rparr>), handle (run_db 2 [sample_step]))"
  unfolding freeze_run_step_def handle_tx [OF run_hosts]
  by (simp add: freeze_run_step_body_def run_by_id_def sel_Cons run_db_def sample_run_def first_fence_def
    sample_step_def insert_step_def to_i64_def i64_max_def Let_def affected_def upd_Cons)
    (simp add: handle_def first_fence_def numeral_2_eq_2)

lemma run_reachable: "reachable_db hash (run_db 1 [])"
  by (rule reach_step [OF writer_reachable handle_step [OF do_start sample_started]])

theorem revision_used_once_witness:
  "\<exists>e. fst (finish_run ''run'' 1 RunCompleted None None None (handle (run_db 2 [sample_step]))) = Inl e"
proof -
  have "reachable_db text_hash (s_db (handle (run_db 1 [])))" using run_reachable by simp
  from revision_used_once [where n = 1 and r = "''run''" and step = sample_step and res = None, OF this _ rtranclp.rtrancl_refl,
      of "sample_run\<lparr>run_revision := 2, run_budget_id := None\<rparr>" "handle (run_db 2 [sample_step])"] sample_frozen
  show ?thesis by fastforce
qed

end
