(* ===== verification/Tool_Histories.thy ===== *)
theory Tool_Histories imports Store_Histories begin

text \<open>
  Tool executions over the histories of a store: an approval is used once, an intent rests on an
  approval that was spent for it, a receipt is kept, and what the store leaves to its caller.
\<close>

section \<open>A spent approval\<close>

definition approval_spent :: "ident \<Rightarrow> db \<Rightarrow> bool" where
  "approval_spent i d \<longleftrightarrow> (\<exists>a \<in> set (db_approvals d). row_id a = i \<and> row_state a = ApprovalSpent)"

lemma spent_row:
  assumes "tools_inv d" and "approval_spent i d"
  shows "\<exists>a. approval_by_id i d = Some a \<and> row_state a = ApprovalSpent"
proof -
  from assms(2) obtain a where a: "a \<in> set (db_approvals d)" "row_id a = i" "row_state a = ApprovalSpent"
    by (auto simp: approval_spent_def)
  have "keyed (\<lambda>r. row_id r) (db_approvals d)" using assms(1) by (simp add: tools_inv_def)
  from sel_keyed [OF this a(1)] a show ?thesis by (auto simp: approval_by_id_def)
qed

lemma spent_later: "tools_later d d' \<Longrightarrow> approval_spent i d \<Longrightarrow> approval_spent i d'"
  unfolding tools_later_def approval_spent_def approval_later_def by fastforce

lemma spent_same: "same_tools d d' \<Longrightarrow> approval_spent i d' \<longleftrightarrow> approval_spent i d"
  by (simp add: approval_spent_def same_tools_def)

lemma consume_spends:
  assumes "consume_tool_approval now b w d = Inr d'"
  shows "approval_spent (ab_approval_id b) d'" and "tools_inv d \<Longrightarrow> \<not> approval_spent (ab_approval_id b) d"
proof -
  from assms obtain row where row: "approval_by_id (ab_approval_id b) d = Some row" "row_state row = ApprovalActive"
      "ta_binding (ar_approval row) = b"
      "d' = d\<lparr>db_approvals := upd (active_row (ab_approval_id b)) (mark_consumed w) (db_approvals d)\<rparr>"
    by (rule consume_tool_approvalD)
  from row(1) have "row \<in> set (db_approvals d)" by (auto simp: approval_by_id_def dest: sel_SomeD)
  with row(2-4) have "mark_consumed w row \<in> set (db_approvals d')" by (force simp: set_upd active_row_def)
  then show "approval_spent (ab_approval_id b) d'"
    unfolding approval_spent_def by (rule bexI [rotated]) (simp add: row(3))
  show "\<not> approval_spent (ab_approval_id b) d" if "tools_inv d"
    using spent_row [OF that] row(1,2) by fastforce
qed

text \<open>The approval a commit consumes; a commit always ends in a written transaction.\<close>

lemma intent_spends:
  assumes "commits (tool_intent_body now k f d) d'" and "tools_inv d"
  shows "\<not> approval_spent (ab_approval_id (ti_approval (ic_intent k))) d"
    and "approval_spent (ab_approval_id (ti_approval (ic_intent k))) d'"
proof -
  let ?i = "ab_approval_id (ti_approval (ic_intent k))"
  from assms(1) have "\<not> approval_spent ?i d \<and> approval_spent ?i d'"
  proof (rule intent_body_commit)
    fix c0 c1 c2 c3
    assume c: "tool_commit (tc_session_id (ti_call (ic_intent k))) (tc_task_id (ti_call (ic_intent k)))
        (ic_expected_sequence k) (ic_event k) f d c0 c1 c2 c3 d'"
      and u: "consume_tool_approval now (ti_approval (ic_intent k)) (tc_execution_id (ti_call (ic_intent k))) c0 = Inr c1"
      and ins: "insert_intent (ic_intent k) (ev_event_id (ic_event k)) c2 = Inr c3"
    note same = tool_commit_steps(2-4) [OF c]
    have "db_approvals c3 = db_approvals c2" using insert_intentD(1) [OF ins] by simp
    then have "approval_spent ?i d'"
      using consume_spends(1) [OF u] spent_same [OF same(2)] spent_same [OF same(3)]
      by (simp add: approval_spent_def)
    moreover have "\<not> approval_spent ?i d"
      using consume_spends(2) [OF u] tools_same(1) [OF same(1)] assms(2) spent_same [OF same(1)] by simp
    ultimately show ?thesis by simp
  qed
  then show "\<not> approval_spent ?i d" "approval_spent ?i d'" by simp_all
qed

lemma task_update_spends:
  assumes "commits (task_update_body now k f d) d'" and "tools_inv d"
  shows "\<not> approval_spent (ab_approval_id (uc_approval k)) d"
    and "approval_spent (ab_approval_id (uc_approval k)) d'"
proof -
  let ?i = "ab_approval_id (uc_approval k)"
  from assms(1) have "\<not> approval_spent ?i d \<and> approval_spent ?i d'"
  proof (rule task_update_body_commit)
    fix c0 c1 c2
    assume c: "tool_commit (uc_session_id k) (uc_task_id k) (uc_expected_sequence k) (uc_event k) f d c0 c1 c2 c2 d'"
      and u: "consume_tool_approval now (uc_approval k) ''task_update'' c0 = Inr c1"
    note same = tool_commit_steps(2-4) [OF c]
    show ?thesis
      using consume_spends [OF u] spent_same [OF same(1)] spent_same [OF same(2)] spent_same [OF same(3)]
        tools_same(1) [OF same(1)] assms(2) by simp
  qed
  then show "\<not> approval_spent ?i d" "approval_spent ?i d'" by simp_all
qed

lemma tool_bodies_commit:
  "tool_intent_body now k f d = Inr r \<Longrightarrow> \<exists>d'. commits (tool_intent_body now k f d) d'"
  "task_update_body now u f d = Inr q \<Longrightarrow> \<exists>d'. commits (task_update_body now u f d) d'"
  by (auto simp: tool_intent_body_def task_update_body_def Let_def bind_res_Inr split: if_splits)

lemma accepted_tx:
  assumes "write_tx body s = (Inr a, s')" and "\<And>f. body f (s_db s) \<noteq> Inr (Rollback a)"
  shows "\<exists>f. commits (body f (s_db s)) (s_db s')"
  using assms(1)
proof (cases rule: write_tx_InrE)
  case (rolled_back f)
  with assms(2) show ?thesis by simp
next
  case (committed f d)
  then have "commits (body f (s_db s)) (s_db s')" by simp
  then show ?thesis by blast
next
  case (committed_at f d p)
  then have "commits (body f (s_db s)) (s_db s')" by simp
  then show ?thesis by blast
qed

lemma intent_accepted:
  assumes "commit_tool_intent hash now k s = (Inr u, s')"
  shows "validate_tool_intent_commit hash k = Inr ()" and "\<exists>f. commits (tool_intent_body now k f (s_db s)) (s_db s')"
proof -
  from assms show "validate_tool_intent_commit hash k = Inr ()"
    by (auto simp: commit_tool_intent_def split: sum.splits)
  with assms have "write_tx (tool_intent_body now k) s = (Inr u, s')" by (simp add: commit_tool_intent_def)
  then show "\<exists>f. commits (tool_intent_body now k f (s_db s)) (s_db s')"
    by (rule accepted_tx) (auto simp: tool_intent_body_def Let_def bind_res_def split: sum.splits if_splits)
qed

lemma task_update_accepted:
  assumes "commit_tool_task_update hash now k s = (Inr u, s')"
  shows "\<exists>f. commits (task_update_body now k f (s_db s)) (s_db s')"
proof -
  from assms have "write_tx (task_update_body now k) s = (Inr u, s')"
    by (auto simp: commit_tool_task_update_def split: sum.splits)
  then show ?thesis
    by (rule accepted_tx) (auto simp: task_update_body_def bind_res_def split: sum.splits)
qed

text \<open>
  C23. An approval is used once: after an intent or a task update was acknowledged under an
  approval, no later intent and no later task update under that approval is accepted through any
  handle, whatever operations, revocations and takeovers happened in between, and the refused
  call changes nothing.
\<close>

theorem approval_used_once:
  assumes "reachable_db hash (s_db s)"
    and "commit_tool_intent hash now k s = (Inr (), s') \<and> i = ab_approval_id (ti_approval (ic_intent k)) \<or>
      commit_tool_task_update hash now u s = (Inr (), s') \<and> i = ab_approval_id (uc_approval u)"
    and "(db_step hash)\<^sup>*\<^sup>* (s_db s') (s_db t)"
    and "ab_approval_id (ti_approval (ic_intent k')) = i" and "ab_approval_id (uc_approval u') = i"
  shows "(\<exists>e e'. fst (commit_tool_intent hash now' k' t) = Inl e \<and> fst (commit_tool_task_update hash now' u' t) = Inl e') \<and>
    s_db (snd (commit_tool_intent hash now' k' t)) = s_db t \<and>
    s_db (snd (commit_tool_task_update hash now' u' t)) = s_db t"
proof -
  have inv: "db_inv hash (s_db s)" using assms(1) by (rule database.reach_inv)
  then have tools: "tools_inv (s_db s)" by (simp add: db_inv_def)
  have inv': "db_inv hash (s_db s')" using assms(2)
      op_keeps_inv [OF do_intent [of hash now k] inv] op_keeps_inv [OF do_task_update [of hash now u] inv] by auto
  have "approval_spent i (s_db s')"
    using assms(2) intent_accepted(2) [of hash now k s "()" s'] intent_spends(2) [OF _ tools]
      task_update_accepted [of hash now u s "()" s'] task_update_spends(2) [OF _ tools] by blast
  with db_run_later [OF assms(3) inv'] have spent: "approval_spent i (s_db t)"
    using spent_later by (auto simp: db_later_def)
  have tools': "tools_inv (s_db t)" using db_run_inv [OF assms(3) inv'] by (simp add: db_inv_def)
  have "\<exists>e. fst (commit_tool_intent hash now' k' t) = Inl e"
  proof (rule ccontr)
    assume "\<not> ?thesis"
    then obtain t' where "commit_tool_intent hash now' k' t = (Inr (), t')"
      by (cases "commit_tool_intent hash now' k' t"; cases "fst (commit_tool_intent hash now' k' t)") auto
    from intent_accepted(2) [OF this] intent_spends(1) [OF _ tools'] spent assms(4) show False by blast
  qed
  moreover have "\<exists>e. fst (commit_tool_task_update hash now' u' t) = Inl e"
  proof (rule ccontr)
    assume "\<not> ?thesis"
    then obtain t' where "commit_tool_task_update hash now' u' t = (Inr (), t')"
      by (cases "commit_tool_task_update hash now' u' t"; cases "fst (commit_tool_task_update hash now' u' t)") auto
    from task_update_accepted [OF this] task_update_spends(1) [OF _ tools'] spent assms(5) show False by blast
  qed
  ultimately show ?thesis using intent_op.error_keeps task_update_op.error_keeps by blast
qed

text \<open>
  C24. No effect without its own approval: in every reachable database each recorded intent has an
  approval row that was spent for exactly this execution and binds the same actor, action,
  workspace and revisions; no other intent rests on that approval, and an intent that is no longer
  open has its receipt.
\<close>

theorem intents_authorised:
  assumes "reachable_db hash d" and "i \<in> set (db_intents d)"
  shows "(\<exists>a \<in> set (db_approvals d). row_id a = iw_approval_id i \<and> row_state a = ApprovalSpent \<and>
      ar_consumed_by a = Some (tc_execution_id (iw_call i)) \<and> authorises (ta_binding (ar_approval a)) (iw_call i)) \<and>
    (\<forall>j \<in> set (db_intents d). iw_approval_id j = iw_approval_id i \<longrightarrow> j = i) \<and>
    (iw_status i = StatusRecorded \<or> (\<exists>r \<in> set (db_receipts d). rr_execution_id r = tc_execution_id (iw_call i)))"
proof -
  have inv: "tools_inv d" using database.reach_inv [OF assms(1)] by (simp add: db_inv_def)
  then have approvals: "keyed (\<lambda>r. row_id r) (db_approvals d)"
      and intents: "keyed (\<lambda>r. tc_execution_id (iw_call r)) (db_intents d)"
      and auth: "j \<in> set (db_intents d) \<Longrightarrow> intent_authorised (db_approvals d) j"
      and closed: "intent_closed (db_receipts d) i" for j
    using assms(2) by (simp_all add: tools_inv_def)
  from auth [OF assms(2)] obtain a where a: "a \<in> set (db_approvals d)" "row_id a = iw_approval_id i"
      "spent_for (tc_execution_id (iw_call i)) a" "authorises (ta_binding (ar_approval a)) (iw_call i)"
    by (auto simp: intent_authorised_def)
  have "j = i" if j: "j \<in> set (db_intents d)" "iw_approval_id j = iw_approval_id i" for j
  proof -
    from auth [OF j(1)] obtain b where b: "b \<in> set (db_approvals d)" "row_id b = iw_approval_id j"
        "spent_for (tc_execution_id (iw_call j)) b"
      by (auto simp: intent_authorised_def)
    have "b = a" using keyed_same [OF approvals b(1) a(1)] b(2) a(2) j(2) by simp
    with a(3) b(3) have "tc_execution_id (iw_call j) = tc_execution_id (iw_call i)" by (simp add: spent_for_def)
    then show ?thesis using keyed_same [OF intents j(1) assms(2)] by simp
  qed
  with a closed show ?thesis by (auto simp: spent_for_def intent_closed_def)
qed

section \<open>A stored receipt\<close>

lemma receipt_stored:
  assumes "commit_tool_settlement hash files hb k s = (Inr ack, s')"
  shows "\<exists>row. receipt_by_id (tr_tool_execution_id (zc_receipt k)) (s_db s') = Some row \<and>
      rr_receipt row = zc_receipt k \<and> rr_event_id row = xa_event_id ack \<and> rr_sequence row = xa_sequence ack"
    and "validate_tool_settlement_commit hash k = Inr ()"
proof -
  let ?x = "tr_tool_execution_id (zc_receipt k)"
  from assms show "validate_tool_settlement_commit hash k = Inr ()"
    by (auto simp: commit_tool_settlement_def bind_res_def split: sum.splits)
  from assms have tx: "write_tx (tool_settlement_body k) s = (Inr ack, s')"
    by (auto simp: commit_tool_settlement_def split: sum.splits)
  show "\<exists>row. receipt_by_id ?x (s_db s') = Some row \<and> rr_receipt row = zc_receipt k \<and>
      rr_event_id row = xa_event_id ack \<and> rr_sequence row = xa_sequence ack"
  proof (cases "receipt_by_id ?x (s_db s)")
    case (Some row)
    with tx show ?thesis
      by (cases rule: write_tx_InrE) (auto simp: tool_settlement_body_def Let_def split: if_splits)
  next
    case None
    then have new: "ack = \<lparr>xa_event_id = ev_event_id (zc_event k), xa_sequence = ev_seq (zc_event k),
          xa_idempotent_replay = False\<rparr> \<and> commits (tool_settlement_body k f (s_db s)) d"
      if "tool_settlement_body k f (s_db s) = Inr (CommitAt p ack d)" for f p d
      using that by (auto simp: tool_settlement_body_def Let_def bind_res_Inr split: option.splits if_splits)
    from tx None obtain f p where "tool_settlement_body k f (s_db s) = Inr (CommitAt p ack (s_db s'))"
      by (cases rule: write_tx_InrE)
        (auto simp: tool_settlement_body_def Let_def bind_res_Inr split: option.splits if_splits)
    from new [OF this] have ack: "xa_event_id ack = ev_event_id (zc_event k)" "xa_sequence ack = ev_seq (zc_event k)"
      and body: "commits (tool_settlement_body k f (s_db s)) (s_db s')" by simp_all
    from body show ?thesis
    proof (rule settlement_body_commit)
      fix i c0 c1 c2 c3
      assume c: "tool_commit (ev_session_id (zc_event k)) (tr_task_id (zc_receipt k)) (zc_expected_sequence k)
          (zc_event k) f (s_db s) c0 c1 c2 (settle_intent ?x (zc_final_status k) c3) (s_db s')"
        and "artifact_only c0 c1" and r: "insert_receipt (ev_session_id (zc_event k)) (tr_task_id (zc_receipt k))
          (zc_event k) (zc_receipt k) (map_option pa_artifact_id (zc_artifact k)) c2 = Inr c3"
      have "db_receipts (s_db s') = db_receipts c3"
        using tool_commit_steps(4) [OF c] by (simp add: same_tools_def settle_intent_def)
      with insert_receiptD [OF r] ack show ?thesis
        by (auto simp: receipt_by_id_def sel_append sel_Cons split: option.splits)
    qed
  qed
qed

lemma receipt_later: "tools_later d d' \<Longrightarrow> receipt_by_id x d = Some row \<Longrightarrow> receipt_by_id x d' = Some row"
  by (auto simp: tools_later_def receipt_by_id_def sel_append)

text \<open>
  A settlement happens once: once the receipt of an execution was acknowledged, through any
  later history the same settlement is answered with that acknowledgement and writes nothing, and
  a settlement of the execution with any other receipt is a conflict.
\<close>

theorem receipt_kept:
  assumes "reachable_db hash (s_db s)" and "commit_tool_settlement hash files hb k s = (Inr ack, s')"
    and "(db_step hash)\<^sup>*\<^sup>* (s_db s') (s_db t)" and "may_write t"
    and "published_if_any files' hb (zc_artifact k) = Inr ()"
  shows "commit_tool_settlement hash files' hb k t = (Inr (ack\<lparr>xa_idempotent_replay := True\<rparr>), t) \<and>
    (\<forall>k'. validate_tool_settlement_commit hash k' = Inr () \<longrightarrow> published_if_any files' hb (zc_artifact k') = Inr () \<longrightarrow>
      tr_tool_execution_id (zc_receipt k') = tr_tool_execution_id (zc_receipt k) \<longrightarrow> zc_receipt k' \<noteq> zc_receipt k \<longrightarrow>
      commit_tool_settlement hash files' hb k' t = (Inl IdempotencyConflict, t))"
proof -
  from receipt_stored [OF assms(2)] obtain row where
    row: "receipt_by_id (tr_tool_execution_id (zc_receipt k)) (s_db s') = Some row" "rr_receipt row = zc_receipt k"
      "rr_event_id row = xa_event_id ack" "rr_sequence row = xa_sequence ack"
    and valid: "validate_tool_settlement_commit hash k = Inr ()" by blast
  have "db_inv hash (s_db s)" using assms(1) by (rule database.reach_inv)
  from op_keeps_inv [OF do_settlement [of hash files hb k] this] have "db_inv hash (s_db s')"
    by (simp add: assms(2))
  from db_run_later [OF assms(3) this] have "tools_later (s_db s') (s_db t)" by (simp add: db_later_def)
  note stored = receipt_later [OF this row(1)]
  from assms(4) obtain f where f: "s_writer t = Some f" "assert_fence_in_tx f (s_db t) = Inr ()"
    by (auto simp: may_write_body)
  have "commit_tool_settlement hash files' hb k t = (Inr (ack\<lparr>xa_idempotent_replay := True\<rparr>), t)"
    using valid assms(5) stored row(2-4)
    by (simp add: commit_tool_settlement_def write_tx_authorised [OF f] tool_settlement_body_def)
  moreover have "commit_tool_settlement hash files' hb k' t = (Inl IdempotencyConflict, t)"
    if "validate_tool_settlement_commit hash k' = Inr ()" "published_if_any files' hb (zc_artifact k') = Inr ()"
      "tr_tool_execution_id (zc_receipt k') = tr_tool_execution_id (zc_receipt k)" "zc_receipt k' \<noteq> zc_receipt k" for k'
    using that stored row(2)
    by (simp add: commit_tool_settlement_def write_tx_authorised [OF f] tool_settlement_body_def)
  ultimately show ?thesis by blast
qed

section \<open>What the store leaves to its caller\<close>

definition of_invocation :: "string \<Rightarrow> string option \<Rightarrow> tool_intent_commit \<Rightarrow> tool_intent_commit" where
  "of_invocation v c k = k\<lparr>ic_intent := (ic_intent k)\<lparr>ti_call :=
    (ti_call (ic_intent k))\<lparr>tc_invocation_id := v, tc_call_id := c\<rparr>\<rparr>\<rparr>"

lemma past_intents:
  "upsert_projection t s w (d\<lparr>db_intents := x\<rparr>) = bind_res (upsert_projection t s w d) (\<lambda>d. Inr (d\<lparr>db_intents := x\<rparr>))"
  "insert_marker s t m (d\<lparr>db_intents := x\<rparr>) = bind_res (insert_marker s t m d) (\<lambda>d. Inr (d\<lparr>db_intents := x\<rparr>))"
  "advance_sequence s n (d\<lparr>db_intents := x\<rparr>) = bind_res (advance_sequence s n d) (\<lambda>d. Inr (d\<lparr>db_intents := x\<rparr>))"
  by (simp_all add: upsert_projection_def insert_marker_def advance_sequence_def Let_def session_by_id_def
      event_by_id_def to_i64_def)

definition scoped_row :: "string \<Rightarrow> string option \<Rightarrow> tool_intent_commit \<Rightarrow> intent_row" where
  "scoped_row v c k = \<lparr>iw_call = (ti_call (ic_intent k))\<lparr>tc_invocation_id := v, tc_call_id := c\<rparr>,
    iw_approval_id = ab_approval_id (ti_approval (ic_intent k)), iw_status = ti_status (ic_intent k),
    iw_event_id = ev_event_id (ic_event k), iw_settlement = None\<rparr>"

lemma insert_scoped:
  assumes "insert_intent (ic_intent k) (ev_event_id (ic_event k)) d = Inr d'"
  shows "insert_intent (ic_intent (of_invocation v c k)) (ev_event_id (ic_event k)) d =
    Inr (d'\<lparr>db_intents := db_intents d @ [scoped_row v c k]\<rparr>)"
proof -
  let ?c = "ti_call (ic_intent k)"
  from assms have fits: "tc_policy_revision ?c \<le> i64_max" "tc_tool_revision ?c \<le> i64_max"
      "tc_intent_sequence ?c \<le> i64_max" and free: "intent_by_id (tc_execution_id ?c) d = None"
      "session_by_id (tc_session_id ?c) d \<noteq> None"
      "approval_by_id (ab_approval_id (ti_approval (ic_intent k))) d \<noteq> None" "event_by_id (ev_event_id (ic_event k)) d \<noteq> None"
    by (simp_all add: insert_intent_def Let_def bind_res_Inr to_i64_def split: if_splits)
  then show ?thesis using insert_intentD(1) [OF assms]
    by (simp add: insert_intent_def of_invocation_def scoped_row_def Let_def to_i64_def)
qed

lemma other_invocation_body:
  assumes "tool_intent_body now k f d = Inr (CommitAt p () d')"
  shows "\<exists>is. tool_intent_body now (of_invocation v c k) f d =
    Inr (CommitAt p () (d'\<lparr>db_intents := is @ [scoped_row v c k]\<rparr>))"
proof -
  let ?c = "ti_call (ic_intent k)"
  from assms have n: "intent_by_id (tc_execution_id ?c) d = None"
    by (auto simp: tool_intent_body_def Let_def split: if_splits)
  with assms obtain c0 c1 c2 c3 d4 d5 where steps:
      "ensure_session_existing (tc_session_id ?c) (tc_task_id ?c) d = Inr ()"
      "claim_task (tc_task_id ?c) (tc_session_id ?c) f d = Inr c0"
      "ensure_expected_sequence (tc_session_id ?c) (ic_expected_sequence k) c0 = Inr ()"
      "consume_tool_approval now (ti_approval (ic_intent k)) (tc_execution_id ?c) c0 = Inr c1"
      "insert_event (tc_session_id ?c) (ic_event k) c1 = Inr c2"
      "insert_intent (ic_intent k) (ev_event_id (ic_event k)) c2 = Inr c3"
      "upsert_projection (tc_task_id ?c) (tc_session_id ?c) (ic_working_state k) c3 = Inr d4"
      "insert_marker (tc_session_id ?c) (tc_task_id ?c) (ic_marker k) d4 = Inr d5"
      "advance_sequence (tc_session_id ?c) (ic_expected_sequence k) d5 = Inr d'"
    and p: "p = BeforeToolIntentCommit"
    by (auto simp: tool_intent_body_def Let_def bind_res_Inr)
  have other: "ic_event (of_invocation v c k) = ic_event k" "ic_working_state (of_invocation v c k) = ic_working_state k"
      "ic_marker (of_invocation v c k) = ic_marker k" "ic_expected_sequence (of_invocation v c k) = ic_expected_sequence k"
      "ti_approval (ic_intent (of_invocation v c k)) = ti_approval (ic_intent k)"
      "tc_execution_id (ti_call (ic_intent (of_invocation v c k))) = tc_execution_id ?c"
      "tc_session_id (ti_call (ic_intent (of_invocation v c k))) = tc_session_id ?c"
      "tc_task_id (ti_call (ic_intent (of_invocation v c k))) = tc_task_id ?c"
    by (simp_all add: of_invocation_def)
  show ?thesis
    by (rule exI [of _ "db_intents c2"])
      (simp add: tool_intent_body_def Let_def other n steps insert_scoped [OF steps(6)] past_intents p)
qed

text \<open>
  An approval is issued for one invocation, but the store spends it for any: an intent that is
  accepted is accepted just as well when its call names another invocation and another provider
  call than the approval it consumes, and it is stored with them. Only the caller compares them.
\<close>

theorem intent_scope_unchecked:
  assumes "commit_tool_intent hash now k s = (Inr (), s')" and "\<not> blank v"
  shows "\<exists>t. commit_tool_intent hash now (of_invocation v c k) s = (Inr (), t) \<and>
    (\<exists>i \<in> set (db_intents (s_db t)). tc_invocation_id (iw_call i) = v \<and> tc_call_id (iw_call i) = c \<and>
      iw_approval_id i = ab_approval_id (ti_approval (ic_intent k))) \<and>
    db_approvals (s_db t) = db_approvals (s_db s')"
proof -
  from intent_accepted(1) [OF assms(1)] assms(2) have valid: "validate_tool_intent_commit hash (of_invocation v c k) = Inr ()"
    by (auto simp: validate_tool_intent_commit_def of_invocation_def intent_bound_def Let_def bind_res_Inr
        split: if_splits)
  from assms(1) have "write_tx (tool_intent_body now k) s = (Inr (), s')"
    using intent_accepted(1) [OF assms(1)] by (simp add: commit_tool_intent_def)
  then obtain f p d where f: "s_writer s = Some f" "assert_fence_in_tx f (s_db s) = Inr ()"
      and body: "tool_intent_body now k f (s_db s) = Inr (CommitAt p () d)" "p \<notin> s_faults s" "s' = s\<lparr>s_db := d\<rparr>"
    by (cases rule: write_tx_InrE)
      (auto simp: tool_intent_body_def Let_def bind_res_def split: sum.splits if_splits)
  from other_invocation_body [OF body(1)] obtain "is" where
    "tool_intent_body now (of_invocation v c k) f (s_db s) =
      Inr (CommitAt p () (d\<lparr>db_intents := is @ [scoped_row v c k]\<rparr>))" by blast
  then have "commit_tool_intent hash now (of_invocation v c k) s =
      (Inr (), s\<lparr>s_db := d\<lparr>db_intents := is @ [scoped_row v c k]\<rparr>\<rparr>)"
    using body(2) by (simp add: commit_tool_intent_def valid write_tx_authorised [OF f])
  then show ?thesis by (simp add: body(3) scoped_row_def)
qed

section \<open>A sample execution\<close>

definition sample_call :: tool_call where
  "sample_call = \<lparr>tc_execution_id = ''x1'', tc_session_id = ''s'', tc_task_id = ''t'', tc_invocation_id = ''inv'',
    tc_call_id = None, tc_actor_id = ''user'', tc_tool_name = ''write'', tc_action_json = JNull,
    tc_action_hash = ''h'', tc_workspace_root = ''w'', tc_workspace_fingerprint = ''h'',
    tc_before_fingerprint = None, tc_policy_revision = 1, tc_tool_revision = 1, tc_intent_sequence = 2\<rparr>"

definition sample_approval :: tool_approval where
  "sample_approval = \<lparr>ta_binding = binding_of_call ''ap'' sample_call, ta_binding_hash = ''h'',
    ta_expires_at = None, ta_state = ApprovalActive, ta_json = JNull\<rparr>"

definition approved_row :: approval_row where
  "approved_row = \<lparr>ar_approval = sample_approval, ar_consumed_by = None, ar_revoked_reason = None\<rparr>"

definition event_at :: "nat \<Rightarrow> string \<Rightarrow> event_envelope" where
  "event_at n i = sample_event\<lparr>ev_event_id := i, ev_seq := n\<rparr>"

definition state_at :: "nat \<Rightarrow> working_state" where
  "state_at n = sample_state\<lparr>ws_revision := n, ws_through_event_seq := n\<rparr>"

definition marker_at :: "nat \<Rightarrow> string \<Rightarrow> source_work_marker" where
  "marker_at n i = \<lparr>mk_marker_id = i, mk_event_id = i, mk_sequence = n, mk_kind = ''tool'', mk_status = ''open''\<rparr>"

definition sample_intent :: tool_intent_commit where
  "sample_intent = \<lparr>ic_expected_sequence = 2, ic_event = event_at 2 ''e2'',
    ic_intent = \<lparr>ti_call = sample_call, ti_approval = binding_of_call ''ap'' sample_call, ti_status = StatusRecorded\<rparr>,
    ic_working_state = state_at 2, ic_marker = marker_at 2 ''e2''\<rparr>"

definition sample_tool_receipt :: tool_receipt where
  "sample_tool_receipt = \<lparr>tr_schema_version = 1, tr_tool_execution_id = ''x1'', tr_task_id = ''t'',
    tr_invocation_id = ''inv'', tr_call_id = None, tr_input_hash = ''h'', tr_policy_revision = 1,
    tr_approval_id = Some ''ap'', tr_intent_state = IntentRecorded, tr_outcome_state = ToolSettled,
    tr_before_fingerprint = None, tr_after_fingerprint = None, tr_before_hash = None, tr_after_hash = None,
    tr_exit_code = Some 0, tr_artifact_id = None, tr_observed_at_seq = 3\<rparr>"

definition sample_settlement :: tool_settlement_commit where
  "sample_settlement = \<lparr>zc_expected_sequence = 3, zc_event = event_at 3 ''e3'', zc_receipt = sample_tool_receipt,
    zc_working_state = state_at 3, zc_marker = marker_at 3 ''e3'', zc_artifact = None, zc_final_status = StatusSettled\<rparr>"

definition issued_db :: db where
  "issued_db = admitted_db\<lparr>db_approvals := [approved_row]\<rparr>"

definition journaled :: "nat \<Rightarrow> string \<Rightarrow> db \<Rightarrow> db" where
  "journaled n i d = d\<lparr>db_sessions := [\<lparr>ss_session_id = ''s'', ss_task_id = ''t'', ss_next_sequence = Suc n\<rparr>],
    db_events := db_events d @ [\<lparr>er_session_id = ''s'', er_sequence = n, er_event = event_at n i\<rparr>],
    db_projections := [\<lparr>pj_task_id = ''t'', pj_session_id = ''s'', pj_revision = n, pj_through_sequence = n,
      pj_state = state_at n\<rparr>],
    db_markers := db_markers d @ [\<lparr>mr_marker_id = i, mr_session_id = ''s'', mr_task_id = ''t'', mr_event_id = i,
      mr_sequence = n, mr_marker = marker_at n i\<rparr>]\<rparr>"

definition recorded_intent :: intent_row where
  "recorded_intent = \<lparr>iw_call = sample_call, iw_approval_id = ''ap'', iw_status = StatusRecorded,
    iw_event_id = ''e2'', iw_settlement = None\<rparr>"

definition recorded_db :: db where
  "recorded_db = (journaled 2 ''e2'' issued_db)\<lparr>db_approvals := [mark_consumed ''x1'' approved_row],
    db_intents := [recorded_intent]\<rparr>"

definition settled_db :: db where
  "settled_db = (journaled 3 ''e3'' recorded_db)\<lparr>
    db_intents := [recorded_intent\<lparr>iw_status := StatusSettled, iw_settlement := Some ''x1''\<rparr>],
    db_receipts := [\<lparr>rr_execution_id = ''x1'', rr_session_id = ''s'', rr_task_id = ''t'', rr_event_id = ''e3'',
      rr_sequence = 3, rr_receipt = sample_tool_receipt, rr_artifact_id = None\<rparr>]\<rparr>"

lemma execution_hosts [simp]: "same_hosts writer_db issued_db" "same_hosts writer_db recorded_db"
  "same_hosts writer_db settled_db"
  by (simp_all add: same_hosts_def issued_db_def recorded_db_def settled_db_def journaled_def admitted_db_def)

lemma sample_parts_valid:
  assumes "0 < n"
  shows "event_validate text_hash (event_at n i) = Inr ()" and "working_state_validate (state_at n) = Inr ()"
  using assms by (simp_all add: event_at_def event_validate_def state_at_def working_state_validate_def checks_ok
    validate_schema_version_def validate_sequence_def validate_nonempty_def producer_validate_def
    source_ref_validate_def p0_schema_version_def letter_not_blank byte_def sample_event_def sample_state_def
    sample_source_def)

lemma one_event_at: "one_event ''s'' ''t'' n (event_at n i) (state_at n) (marker_at n i)"
  by (simp add: one_event_def event_at_def state_at_def marker_at_def sample_event_def sample_state_def)

lemma sample_issued: "issue_tool_approval text_hash sample_approval (handle admitted_db) = (Inr (), handle issued_db)"
proof -
  have "validate_tool_approval text_hash sample_approval = Inr ()"
    by (simp add: validate_tool_approval_def sample_approval_def binding_of_call_def sample_call_def
      letter_not_blank byte_def)
  moreover have "issue_approval_body sample_approval first_fence admitted_db = Inr (Commit () issued_db)"
    by (simp add: issue_approval_body_def approval_by_id_def sample_approval_def binding_of_call_def sample_call_def
      to_i64_def i64_max_def issued_db_def approved_row_def admitted_db_def writer_db_def empty_db_def)
  ultimately show ?thesis
    using handle_tx [OF admitted_db_simps(2), of "issue_approval_body sample_approval"]
    by (simp add: issue_tool_approval_def) (simp add: handle_def)
qed

lemma sample_intent_recorded:
  "commit_tool_intent text_hash (Inr 0) sample_intent (handle issued_db) = (Inr (), handle recorded_db)"
proof -
  have "validate_tool_intent_commit text_hash sample_intent = Inr ()"
    using one_event_at [of 2 "''e2''"] sample_parts_valid [of 2]
    by (simp add: validate_tool_intent_commit_def sample_intent_def intent_bound_def sample_call_def
      binding_of_call_def letter_not_blank byte_def)
  moreover have "tool_intent_body (Inr 0) sample_intent first_fence issued_db =
      Inr (CommitAt BeforeToolIntentCommit () recorded_db)"
    by (simp add: tool_intent_body_def Let_def sample_intent_def sample_call_def intent_by_id_def
      ensure_session_existing_def session_task_in_tx_def session_by_id_def claim_task_def lease_of_def
      ensure_expected_sequence_def session_next_sequence_def consume_tool_approval_def approval_by_id_def
      insert_event_def event_by_id_def insert_intent_def upsert_projection_def insert_marker_def
      advance_sequence_def affected_def upd_Cons sel_Cons to_i64_def i64_max_def binding_of_call_def
      active_row_def approved_row_def sample_approval_def event_at_def state_at_def marker_at_def
      sample_event_def sample_state_def first_fence_def issued_db_def admitted_db_def recorded_db_def
      journaled_def recorded_intent_def writer_db_def empty_db_def)
  ultimately show ?thesis
    using handle_tx [OF execution_hosts(1), of "tool_intent_body (Inr 0) sample_intent"]
    by (simp add: commit_tool_intent_def) (simp add: handle_def)
qed

abbreviation no_files :: files where
  "no_files \<equiv> (\<lambda>_. None)"

abbreviation any_bytes :: "string \<Rightarrow> content_hash" where
  "any_bytes \<equiv> (\<lambda>_. ''h'')"

definition settled_ack :: receipt_ack where
  "settled_ack = \<lparr>xa_event_id = ''e3'', xa_sequence = 3, xa_idempotent_replay = False\<rparr>"

lemma execution_settled:
  "commit_tool_settlement text_hash no_files any_bytes sample_settlement (handle recorded_db) =
    (Inr settled_ack, handle settled_db)"
proof -
  have "tool_receipt_validate sample_tool_receipt = Inr ()"
    by (simp add: tool_receipt_validate_def sample_tool_receipt_def checks_ok validate_schema_version_def
      validate_nonempty_def validate_sequence_def p0_schema_version_def letter_not_blank byte_def)
  then have "validate_tool_settlement_commit text_hash sample_settlement = Inr ()"
    using one_event_at [of 3 "''e3''"] sample_parts_valid [of 3]
    by (simp add: validate_tool_settlement_commit_def sample_settlement_def artifact_bound_def event_at_def
      sample_event_def) (simp add: sample_tool_receipt_def)
  moreover have "tool_settlement_body sample_settlement first_fence recorded_db =
      Inr (CommitAt BeforeToolSettlementCommit settled_ack settled_db)"
    by (simp add: tool_settlement_body_def Let_def sample_settlement_def sample_tool_receipt_def intent_by_id_def
      receipt_by_id_def scope_artifact_def insert_receipt_def settle_intent_def recorded_row_def
      ensure_session_existing_def session_task_in_tx_def session_by_id_def claim_task_def lease_of_def
      ensure_expected_sequence_def session_next_sequence_def
      insert_event_def event_by_id_def upsert_projection_def insert_marker_def
      advance_sequence_def affected_def upd_Cons sel_Cons to_i64_def i64_max_def
      event_at_def state_at_def marker_at_def settled_ack_def
      sample_event_def sample_state_def first_fence_def issued_db_def admitted_db_def recorded_db_def settled_db_def
      journaled_def recorded_intent_def sample_call_def writer_db_def empty_db_def)
  ultimately show ?thesis
    using handle_tx [OF execution_hosts(2), of "tool_settlement_body sample_settlement"]
    by (simp add: commit_tool_settlement_def published_if_any_def sample_settlement_def)
      (simp add: handle_def)
qed

lemma execution_reachable:
  "reachable_db text_hash issued_db" "reachable_db text_hash recorded_db" "reachable_db text_hash settled_db"
proof -
  show issued: "reachable_db text_hash issued_db"
    by (rule reach_step [OF admitted_reachable])
      (rule handle_step [OF do_issue [of text_hash sample_approval]], simp add: sample_issued)
  show recorded: "reachable_db text_hash recorded_db"
    by (rule reach_step [OF issued])
      (rule handle_step [OF do_intent [of text_hash "Inr 0" sample_intent]], simp add: sample_intent_recorded)
  show "reachable_db text_hash settled_db"
    by (rule reach_step [OF recorded])
      (rule handle_step [OF do_settlement [of text_hash no_files any_bytes sample_settlement]], simp add: execution_settled)
qed

theorem approval_used_once_witness:
  "\<exists>e. fst (commit_tool_task_update text_hash (Inr 0)
      \<lparr>uc_session_id = ''s'', uc_task_id = ''t'', uc_expected_sequence = 4, uc_event = event_at 4 ''e4'',
        uc_working_state = state_at 4, uc_marker = marker_at 4 ''e4'',
        uc_approval = binding_of_call ''ap'' sample_call\<rparr> (handle settled_db)) = Inl e"
proof -
  have run: "(db_step text_hash)\<^sup>*\<^sup>* (s_db (handle recorded_db)) (s_db (handle settled_db))"
    using handle_step [OF do_settlement [of text_hash no_files any_bytes sample_settlement], of recorded_db settled_db]
    by (simp add: execution_settled r_into_rtranclp)
  have "reachable_db text_hash (s_db (handle issued_db))" using execution_reachable(1) by simp
  from approval_used_once [of text_hash "handle issued_db" "Inr 0" sample_intent "handle recorded_db" "''ap''" undefined
      "handle settled_db" sample_intent, OF this _ run] sample_intent_recorded
  show ?thesis by (fastforce simp: sample_intent_def binding_of_call_def)
qed

theorem intents_authorised_witness:
  "recorded_intent \<in> set (db_intents recorded_db) \<and>
    (\<exists>a \<in> set (db_approvals recorded_db). row_state a = ApprovalSpent \<and> ar_consumed_by a = Some ''x1'')"
proof -
  have i: "recorded_intent \<in> set (db_intents recorded_db)" by (simp add: recorded_db_def)
  have x: "tc_execution_id (iw_call recorded_intent) = ''x1''" by (simp add: recorded_intent_def sample_call_def)
  from intents_authorised [OF execution_reachable(2) i, THEN conjunct1] obtain a where
    "a \<in> set (db_approvals recorded_db)" "row_state a = ApprovalSpent" "ar_consumed_by a = Some ''x1''"
    unfolding x by blast
  with i show ?thesis by blast
qed

theorem receipt_kept_witness:
  "commit_tool_settlement text_hash no_files any_bytes sample_settlement (handle settled_db) =
    (Inr (settled_ack\<lparr>xa_idempotent_replay := True\<rparr>), handle settled_db)"
proof -
  have "reachable_db text_hash (s_db (handle recorded_db))" using execution_reachable(2) by simp
  from receipt_kept [OF this execution_settled rtranclp.rtrancl_refl handle_may_write, of no_files]
  show ?thesis by (simp add: published_if_any_def sample_settlement_def)
qed

theorem intent_scope_unchecked_witness:
  "\<exists>t. commit_tool_intent text_hash (Inr 0) (of_invocation ''other'' (Some ''call'') sample_intent) (handle issued_db) = (Inr (), t)"
  using intent_scope_unchecked [OF sample_intent_recorded, of "''other''" "Some ''call''"]
  by (auto simp: letter_not_blank byte_def)

end
