(* ===== verification/Acceptance.thy ===== *)
theory Acceptance imports Contracts begin

text \<open>
  Task acceptance (\<^verbatim>\<open>crates/harness-types/src/validation/acceptance.rs\<close>): the criteria
  of a task with their typed evidence, the durable acceptance record with its validation, and
  the reducer \<^verbatim>\<open>AcceptanceRecord::apply\<close>. The lemmas say what the validation of a record
  means, and the theorems that a record is accepted only on complete evidence or on a named
  human decision, and that an acceptance is final.
\<close>

section \<open>Evidence\<close>

datatype criterion_status = CriterionPending | CriterionSatisfied | CriterionFailed

datatype criterion_evidence =
    RunObserved (ro_run_id: ident) (ro_evidence_kind: string) (ro_source: string)
      (ro_content_hash: content_hash)
  | FileChanged (fc_path: string) (fc_before: "content_hash option")
      (fc_after: "content_hash option") (fc_receipt_ref: "string option")
  | CheckExecuted (cx_command: string) (cx_workspace_digest: "content_hash option")
      (cx_exit_code: "int option") (cx_outcome: check_outcome) (cx_receipt_ref: "string option")
  | ArtifactProduced (ap_artifact_id: "ident option") (ap_reference: string)

fun evidence_kind :: "criterion_evidence \<Rightarrow> string" where
  "evidence_kind (RunObserved _ _ _ _) = ''run_observed''"
| "evidence_kind (FileChanged _ _ _ _) = ''file_changed''"
| "evidence_kind (CheckExecuted _ _ _ _ _) = ''check_executed''"
| "evidence_kind (ArtifactProduced _ _) = ''artifact_produced''"

definition observed_kinds :: "string list" where
  "observed_kinds = [''response'', ''tool_execution'', ''file_change'', ''check'', ''artifact'']"

fun evidence_validate :: "criterion_evidence \<Rightarrow> unit res" where
  "evidence_validate (RunObserved _ kind source _) =
    (if kind \<notin> set observed_kinds then Inl InvalidPayload
     else if blank source then Inl InvalidPayload else Inr ())"
| "evidence_validate (FileChanged path _ _ _) = (if blank path then Inl InvalidPayload else Inr ())"
| "evidence_validate (CheckExecuted command _ _ _ _) =
    (if blank command then Inl InvalidPayload else Inr ())"
| "evidence_validate (ArtifactProduced _ reference) =
    (if blank reference then Inl InvalidPayload else Inr ())"

record criterion_state =
  cr_criterion_id :: string
  cr_required :: bool
  cr_status :: criterion_status
  cr_evidence :: "criterion_evidence list"

definition criterion_validate :: "criterion_state \<Rightarrow> unit res" where
  "criterion_validate c = checks (
    [if blank (cr_criterion_id c) then Inl InvalidPayload else Inr (),
     if cr_status c = CriterionSatisfied \<and> cr_evidence c = [] then Inl InvalidPayload else Inr ()]
    @ map evidence_validate (cr_evidence c))"

text \<open>The set \<^verbatim>\<open>seen\<close> of the loop is the first argument.\<close>

fun validate_criteria :: "string set \<Rightarrow> criterion_state list \<Rightarrow> unit res" where
  "validate_criteria seen [] = Inr ()"
| "validate_criteria seen (c # cs) =
    (case criterion_validate c of
      Inl e \<Rightarrow> Inl e
    | Inr _ \<Rightarrow>
        if cr_criterion_id c \<in> seen then Inl InvalidPayload
        else validate_criteria (insert (cr_criterion_id c) seen) cs)"

section \<open>The acceptance record\<close>

datatype acceptance_actor = ActorAutomatic | ActorHuman string

fun acceptance_actor_str :: "acceptance_actor \<Rightarrow> string" where
  "acceptance_actor_str ActorAutomatic = ''automatic''"
| "acceptance_actor_str (ActorHuman _) = ''human''"

datatype acceptance_decision = NotAccepted | Accepted

record acceptance_record =
  ar_schema_version :: nat
  ar_task_id :: ident
  ar_criteria :: "criterion_state list"
  ar_pending_effects :: nat
  ar_evidence_fingerprint :: "content_hash option"
  ar_decision :: acceptance_decision
  ar_decided_by :: acceptance_actor
  ar_decision_source :: "source_ref option"

datatype acceptance_command =
    Evaluate "criterion_state list" nat "content_hash option"
  | HumanAccept string source_ref

datatype acceptance_event =
    Evaluated nat nat bool
  | AcceptedBy acceptance_actor
  | HumanOverride string

definition acceptance_initial :: "ident \<Rightarrow> acceptance_record" where
  "acceptance_initial task = \<lparr>ar_schema_version = p0_schema_version, ar_task_id = task,
    ar_criteria = [], ar_pending_effects = 0, ar_evidence_fingerprint = None,
    ar_decision = NotAccepted, ar_decided_by = ActorAutomatic, ar_decision_source = None\<rparr>"

definition is_accepted :: "acceptance_record \<Rightarrow> bool" where
  "is_accepted r \<longleftrightarrow> ar_decision r = Accepted"

fun check_fails :: "content_hash option \<Rightarrow> criterion_evidence \<Rightarrow> bool" where
  "check_fails fingerprint (CheckExecuted _ digest exit outcome _) \<longleftrightarrow>
    outcome \<noteq> CheckPassed \<or> exit \<noteq> Some 0 \<or> digest = None \<or> digest \<noteq> fingerprint"
| "check_fails fingerprint _ \<longleftrightarrow> False"

definition acceptance_validate :: "acceptance_record \<Rightarrow> unit res" where
  "acceptance_validate r =
    (let required = filter cr_required (ar_criteria r) in
     checks [
      if ar_schema_version r \<noteq> p0_schema_version then Inl UnsupportedSchemaVersion else Inr (),
      case ar_decided_by r of
        ActorHuman actor \<Rightarrow> if blank actor then Inl InvalidPayload else Inr ()
      | ActorAutomatic \<Rightarrow> Inr (),
      if ar_decided_by r \<noteq> ActorAutomatic \<and> ar_decision_source r = None
      then Inl MissingAuthority else Inr (),
      validate_criteria {} (ar_criteria r),
      if ar_decided_by r = ActorAutomatic \<and> ar_decision_source r \<noteq> None
      then Inl InvalidPayload else Inr (),
      if ar_decision r = Accepted \<and> ar_pending_effects r \<noteq> 0
      then Inl InvalidStateTransition else Inr (),
      if ar_decision r = Accepted \<and> ar_decided_by r = ActorAutomatic then
        (if required = [] \<or> ar_pending_effects r \<noteq> 0
            \<or> (\<exists>c \<in> set required. cr_status c \<noteq> CriterionSatisfied)
         then Inl InvalidStateTransition
         else if \<exists>c \<in> set required. \<exists>e \<in> set (cr_evidence c).
            check_fails (ar_evidence_fingerprint r) e
         then Inl InvalidPayload
         else Inr ())
      else Inr (),
      if ar_decided_by r \<noteq> ActorAutomatic \<and> ar_decision r \<noteq> Accepted
      then Inl InvalidStateTransition else Inr ()])"

section \<open>The reducer\<close>

definition acceptance_apply ::
  "acceptance_record \<Rightarrow> acceptance_command \<Rightarrow> (acceptance_record \<times> acceptance_event list) res" where
  "acceptance_apply r command =
    (case acceptance_validate r of
      Inl e \<Rightarrow> Inl e
    | Inr _ \<Rightarrow>
      if is_accepted r then Inl InvalidStateTransition
      else case command of
        Evaluate criteria pending fingerprint \<Rightarrow>
          (case validate_criteria {} criteria of
            Inl e \<Rightarrow> Inl e
          | Inr _ \<Rightarrow>
            let required = length (filter cr_required criteria);
                satisfied = length (filter
                  (\<lambda>c. cr_required c \<and> cr_status c = CriterionSatisfied) criteria);
                accepted = (required = satisfied \<and> pending = 0);
                next = \<lparr>ar_schema_version = p0_schema_version, ar_task_id = ar_task_id r,
                  ar_criteria = criteria, ar_pending_effects = pending,
                  ar_evidence_fingerprint = fingerprint,
                  ar_decision = (if accepted then Accepted else NotAccepted),
                  ar_decided_by = ActorAutomatic, ar_decision_source = None\<rparr>
            in if required = 0 then Inl InvalidPayload
               else case acceptance_validate next of
                 Inl e \<Rightarrow> Inl e
               | Inr _ \<Rightarrow> Inr (next, Evaluated satisfied required accepted #
                   (if accepted then [AcceptedBy ActorAutomatic] else [])))
      | HumanAccept actor source \<Rightarrow>
          if blank actor then Inl InvalidPayload
          else (case source_ref_validate source of
            Inl e \<Rightarrow> Inl e
          | Inr _ \<Rightarrow>
            let next = \<lparr>ar_schema_version = p0_schema_version, ar_task_id = ar_task_id r,
                  ar_criteria = ar_criteria r, ar_pending_effects = ar_pending_effects r,
                  ar_evidence_fingerprint = ar_evidence_fingerprint r,
                  ar_decision = Accepted, ar_decided_by = ActorHuman actor,
                  ar_decision_source = Some source\<rparr>
            in case acceptance_validate next of
                 Inl e \<Rightarrow> Inl e
               | Inr _ \<Rightarrow> Inr (next, [HumanOverride actor, AcceptedBy (ActorHuman actor)])))"

section \<open>What a validation means\<close>

fun evidence_ok :: "criterion_evidence \<Rightarrow> bool" where
  "evidence_ok (RunObserved _ kind source _) \<longleftrightarrow> kind \<in> set observed_kinds \<and> \<not> blank source"
| "evidence_ok (FileChanged path _ _ _) \<longleftrightarrow> \<not> blank path"
| "evidence_ok (CheckExecuted command _ _ _ _) \<longleftrightarrow> \<not> blank command"
| "evidence_ok (ArtifactProduced _ reference) \<longleftrightarrow> \<not> blank reference"

definition criterion_ok :: "criterion_state \<Rightarrow> bool" where
  "criterion_ok c \<longleftrightarrow> \<not> blank (cr_criterion_id c) \<and>
    (cr_status c = CriterionSatisfied \<longrightarrow> cr_evidence c \<noteq> []) \<and>
    (\<forall>e \<in> set (cr_evidence c). evidence_ok e)"

definition criteria_ok :: "criterion_state list \<Rightarrow> bool" where
  "criteria_ok cs \<longleftrightarrow> distinct (map cr_criterion_id cs) \<and> (\<forall>c \<in> set cs. criterion_ok c)"

text \<open>Everything an acceptance without a human needs.\<close>

definition proven :: "criterion_state list \<Rightarrow> nat \<Rightarrow> content_hash option \<Rightarrow> bool" where
  "proven cs pending fingerprint \<longleftrightarrow> pending = 0 \<and> (\<exists>c \<in> set cs. cr_required c) \<and>
    (\<forall>c \<in> set cs. cr_required c \<longrightarrow> cr_status c = CriterionSatisfied \<and>
      (\<forall>e \<in> set (cr_evidence c). \<not> check_fails fingerprint e))"

lemma evidence_validate_ok: "evidence_validate e = Inr () \<longleftrightarrow> evidence_ok e"
  by (cases e) auto

lemma criterion_validate_ok: "criterion_validate c = Inr () \<longleftrightarrow> criterion_ok c"
  unfolding criterion_validate_def checks_ok criterion_ok_def by (auto simp: evidence_validate_ok)

lemma criteria_ok_Nil [simp]: "criteria_ok []"
  by (simp add: criteria_ok_def)

lemma criteria_ok_Cons: "criteria_ok (c # cs) \<longleftrightarrow>
    criterion_ok c \<and> cr_criterion_id c \<notin> cr_criterion_id ` set cs \<and> criteria_ok cs"
  by (auto simp: criteria_ok_def)

lemma validate_criteria_seen:
  "validate_criteria seen cs = Inr () \<longleftrightarrow> criteria_ok cs \<and> seen \<inter> cr_criterion_id ` set cs = {}"
proof (induction cs arbitrary: seen)
  case (Cons c cs)
  show ?case
    using criterion_validate_ok [of c] Cons.IH [of "insert (cr_criterion_id c) seen"]
    by (cases "criterion_validate c") (auto simp: criteria_ok_Cons)
qed simp

lemma validate_criteria_ok: "validate_criteria {} cs = Inr () \<longleftrightarrow> criteria_ok cs"
  by (simp add: validate_criteria_seen)

definition record_ok :: "acceptance_record \<Rightarrow> bool" where
  "record_ok r \<longleftrightarrow> ar_schema_version r = p0_schema_version \<and> criteria_ok (ar_criteria r) \<and>
    (case ar_decided_by r of
      ActorAutomatic \<Rightarrow> ar_decision_source r = None \<and>
        (is_accepted r \<longrightarrow>
          proven (ar_criteria r) (ar_pending_effects r) (ar_evidence_fingerprint r))
    | ActorHuman actor \<Rightarrow> \<not> blank actor \<and> ar_decision_source r \<noteq> None \<and> is_accepted r \<and>
        ar_pending_effects r = 0)"

lemma acceptance_validate_ok: "acceptance_validate r = Inr () \<longleftrightarrow> record_ok r"
proof (cases "ar_decided_by r")
  case ActorAutomatic
  then show ?thesis
    unfolding acceptance_validate_def Let_def checks_ok record_ok_def
    by (auto simp: validate_criteria_ok is_accepted_def proven_def filter_empty_conv)
next
  case (ActorHuman actor)
  then show ?thesis
    unfolding acceptance_validate_def Let_def checks_ok record_ok_def
    by (auto simp: validate_criteria_ok is_accepted_def)
qed

lemma record_ok_initial [simp]: "record_ok (acceptance_initial task)"
  by (simp add: record_ok_def acceptance_initial_def is_accepted_def)

lemma acceptance_initial_task [simp]: "ar_task_id (acceptance_initial task) = task"
  by (simp add: acceptance_initial_def)

lemma proven_counts:
  "length (filter cr_required cs) =
      length (filter (\<lambda>c. cr_required c \<and> cr_status c = CriterionSatisfied) cs) \<longleftrightarrow>
    (\<forall>c \<in> set cs. cr_required c \<longrightarrow> cr_status c = CriterionSatisfied)"
proof (induction cs)
  case (Cons c cs)
  have "length (filter (\<lambda>c. cr_required c \<and> cr_status c = CriterionSatisfied) cs)
      \<le> length (filter cr_required cs)"
    by (induction cs) auto
  with Cons show ?case by auto
qed simp

lemma required_some: "length (filter cr_required cs) = 0 \<longleftrightarrow> \<not> (\<exists>c \<in> set cs. cr_required c)"
  by (simp add: filter_empty_conv)

text \<open>The record an evaluation leaves, and when it is accepted.\<close>

definition evaluated :: "acceptance_record \<Rightarrow> criterion_state list \<Rightarrow> nat \<Rightarrow> content_hash option
    \<Rightarrow> acceptance_record" where
  "evaluated r cs pending fingerprint = \<lparr>ar_schema_version = p0_schema_version,
    ar_task_id = ar_task_id r, ar_criteria = cs, ar_pending_effects = pending,
    ar_evidence_fingerprint = fingerprint,
    ar_decision = (if (\<forall>c \<in> set cs. cr_required c \<longrightarrow> cr_status c = CriterionSatisfied) \<and> pending = 0
      then Accepted else NotAccepted),
    ar_decided_by = ActorAutomatic, ar_decision_source = None\<rparr>"

lemma apply_evaluate:
  "acceptance_apply r (Evaluate cs pending fingerprint) = Inr (r', evs) \<longleftrightarrow>
    record_ok r \<and> \<not> is_accepted r \<and> criteria_ok cs \<and> (\<exists>c \<in> set cs. cr_required c) \<and>
    r' = evaluated r cs pending fingerprint \<and> record_ok r' \<and>
    evs = Evaluated (length (filter (\<lambda>c. cr_required c \<and> cr_status c = CriterionSatisfied) cs))
        (length (filter cr_required cs)) (is_accepted r')
      # (if is_accepted r' then [AcceptedBy ActorAutomatic] else [])"
proof -
  have next_eq: "\<lparr>ar_schema_version = p0_schema_version, ar_task_id = ar_task_id r,
      ar_criteria = cs, ar_pending_effects = pending, ar_evidence_fingerprint = fingerprint,
      ar_decision = (if length (filter cr_required cs) =
          length (filter (\<lambda>c. cr_required c \<and> cr_status c = CriterionSatisfied) cs) \<and> pending = 0
        then Accepted else NotAccepted),
      ar_decided_by = ActorAutomatic, ar_decision_source = None\<rparr> = evaluated r cs pending fingerprint"
    by (simp add: evaluated_def proven_counts)
  have acc: "is_accepted (evaluated r cs pending fingerprint) \<longleftrightarrow>
      length (filter cr_required cs) =
        length (filter (\<lambda>c. cr_required c \<and> cr_status c = CriterionSatisfied) cs) \<and> pending = 0"
    by (simp add: is_accepted_def evaluated_def proven_counts)
  show ?thesis
  proof (cases "acceptance_validate r = Inr () \<and> \<not> is_accepted r \<and> validate_criteria {} cs = Inr ()
      \<and> length (filter cr_required cs) \<noteq> 0")
    case True
    then have "acceptance_apply r (Evaluate cs pending fingerprint) =
      (case acceptance_validate (evaluated r cs pending fingerprint) of Inl e \<Rightarrow> Inl e
       | Inr _ \<Rightarrow> Inr (evaluated r cs pending fingerprint,
          Evaluated (length (filter (\<lambda>c. cr_required c \<and> cr_status c = CriterionSatisfied) cs))
            (length (filter cr_required cs)) (is_accepted (evaluated r cs pending fingerprint))
          # (if is_accepted (evaluated r cs pending fingerprint) then [AcceptedBy ActorAutomatic] else [])))"
      by (simp only: acceptance_apply_def Let_def next_eq acc sum.case acceptance_command.case
          simp_thms if_True if_False)
    with True show ?thesis
      using acceptance_validate_ok [of "evaluated r cs pending fingerprint"]
        acceptance_validate_ok [of r] validate_criteria_ok [of cs] required_some [of cs]
      by (cases "acceptance_validate (evaluated r cs pending fingerprint)") auto
  next
    case False
    then have "acceptance_apply r (Evaluate cs pending fingerprint) \<noteq> Inr (r', evs)"
      unfolding acceptance_apply_def Let_def by (auto split: sum.splits)
    with False show ?thesis
      using acceptance_validate_ok [of r] validate_criteria_ok [of cs] required_some [of cs] by blast
  qed
qed

text \<open>The record a human decision leaves: the criteria and their evidence are untouched.\<close>

definition overridden :: "acceptance_record \<Rightarrow> string \<Rightarrow> source_ref \<Rightarrow> acceptance_record" where
  "overridden r actor source = r\<lparr>ar_schema_version := p0_schema_version, ar_decision := Accepted,
    ar_decided_by := ActorHuman actor, ar_decision_source := Some source\<rparr>"

lemma apply_human:
  "acceptance_apply r (HumanAccept actor source) = Inr (r', evs) \<longleftrightarrow>
    record_ok r \<and> \<not> is_accepted r \<and> \<not> blank actor \<and> source_ref_validate source = Inr () \<and>
    ar_pending_effects r = 0 \<and> r' = overridden r actor source \<and>
    evs = [HumanOverride actor, AcceptedBy (ActorHuman actor)]"
proof -
  have next_eq: "\<lparr>ar_schema_version = p0_schema_version, ar_task_id = ar_task_id r,
      ar_criteria = ar_criteria r, ar_pending_effects = ar_pending_effects r,
      ar_evidence_fingerprint = ar_evidence_fingerprint r, ar_decision = Accepted,
      ar_decided_by = ActorHuman actor, ar_decision_source = Some source\<rparr> = overridden r actor source"
    by (simp add: overridden_def)
  have ok: "record_ok (overridden r actor source) \<longleftrightarrow> ar_pending_effects r = 0"
    if "record_ok r" "\<not> blank actor"
    using that by (simp add: record_ok_def overridden_def is_accepted_def)
  show ?thesis
  proof (cases "acceptance_validate r = Inr () \<and> \<not> is_accepted r \<and> \<not> blank actor
      \<and> source_ref_validate source = Inr ()")
    case True
    then have "acceptance_apply r (HumanAccept actor source) =
      (case acceptance_validate (overridden r actor source) of Inl e \<Rightarrow> Inl e
       | Inr _ \<Rightarrow> Inr (overridden r actor source, [HumanOverride actor, AcceptedBy (ActorHuman actor)]))"
      by (simp only: acceptance_apply_def Let_def next_eq sum.case acceptance_command.case
          simp_thms if_True if_False)
    with True show ?thesis
      using acceptance_validate_ok [of "overridden r actor source"] acceptance_validate_ok [of r] ok
      by (cases "acceptance_validate (overridden r actor source)") auto
  next
    case False
    then have "acceptance_apply r (HumanAccept actor source) \<noteq> Inr (r', evs)"
      unfolding acceptance_apply_def Let_def by (auto split: sum.splits)
    with False show ?thesis using acceptance_validate_ok [of r] by blast
  qed
qed

lemma apply_accepted: "is_accepted r \<Longrightarrow> \<exists>e. acceptance_apply r command = Inl e"
  by (cases "acceptance_validate r") (simp_all add: acceptance_apply_def)

lemma apply_accepted_valid:
  "is_accepted r \<Longrightarrow> record_ok r \<Longrightarrow> acceptance_apply r command = Inl InvalidStateTransition"
  using acceptance_validate_ok [of r] by (simp add: acceptance_apply_def)

lemma apply_record_ok: "acceptance_apply r command = Inr (r', evs) \<Longrightarrow> record_ok r'"
proof (cases command)
  case (Evaluate cs pending fingerprint)
  assume "acceptance_apply r command = Inr (r', evs)"
  then show ?thesis unfolding Evaluate apply_evaluate by blast
next
  case (HumanAccept actor source)
  assume "acceptance_apply r command = Inr (r', evs)"
  then show ?thesis unfolding HumanAccept apply_human
    by (simp add: record_ok_def overridden_def is_accepted_def)
qed

section \<open>Histories of one task\<close>

inductive acceptance_step :: "acceptance_record \<Rightarrow> acceptance_record \<Rightarrow> bool" where
  "acceptance_apply r command = Inr (r', evs) \<Longrightarrow> acceptance_step r r'"

inductive_cases acceptance_stepE: "acceptance_step r r'"

lemma acceptance_step_kept:
  assumes "acceptance_step r r'"
  shows "record_ok r' \<and> ar_task_id r' = ar_task_id r \<and> \<not> is_accepted r"
proof -
  from assms obtain command evs where a: "acceptance_apply r command = Inr (r', evs)"
    by (rule acceptance_stepE)
  have "ar_task_id r' = ar_task_id r"
    using a by (cases command) (simp_all add: apply_evaluate apply_human evaluated_def overridden_def)
  with a show ?thesis using apply_record_ok [OF a] apply_accepted [of r command] by auto
qed

lemma acceptance_reachable_ok:
  "acceptance_step\<^sup>*\<^sup>* r r' \<Longrightarrow> record_ok r \<Longrightarrow> record_ok r' \<and> ar_task_id r' = ar_task_id r"
  by (induction rule: rtranclp_induct) (auto dest: acceptance_step_kept)

text \<open>
  C11. However a task's record came about, when it is accepted no effect is pending and either
  every required criterion is satisfied, by evidence whose checks passed with exit code 0 at the
  accepted fingerprint of the workspace, or a named human decided it with the source of the
  decision; and from then on every command is refused.
\<close>

theorem accepted_by_authority:
  assumes "acceptance_step\<^sup>*\<^sup>* (acceptance_initial task) r" and "is_accepted r"
  shows "ar_task_id r = task \<and> ar_pending_effects r = 0 \<and>
    (case ar_decided_by r of
      ActorAutomatic \<Rightarrow> (\<exists>c \<in> set (ar_criteria r). cr_required c) \<and>
        (\<forall>c \<in> set (ar_criteria r). cr_required c \<longrightarrow>
          cr_status c = CriterionSatisfied \<and> cr_evidence c \<noteq> [] \<and>
          (\<forall>e \<in> set (cr_evidence c). \<not> check_fails (ar_evidence_fingerprint r) e))
    | ActorHuman actor \<Rightarrow> \<not> blank actor \<and> ar_decision_source r \<noteq> None) \<and>
    acceptance_apply r command = Inl InvalidStateTransition"
proof -
  from acceptance_reachable_ok [OF assms(1)] have ok: "record_ok r" and "ar_task_id r = task"
    by simp_all
  moreover from ok assms(2) have "acceptance_apply r command = Inl InvalidStateTransition"
    by (simp add: apply_accepted_valid)
  moreover from ok assms(2) have "ar_pending_effects r = 0"
    by (auto simp: record_ok_def proven_def split: acceptance_actor.splits)
  moreover from ok assms(2) have "case ar_decided_by r of
      ActorAutomatic \<Rightarrow> (\<exists>c \<in> set (ar_criteria r). cr_required c) \<and>
        (\<forall>c \<in> set (ar_criteria r). cr_required c \<longrightarrow>
          cr_status c = CriterionSatisfied \<and> cr_evidence c \<noteq> [] \<and>
          (\<forall>e \<in> set (cr_evidence c). \<not> check_fails (ar_evidence_fingerprint r) e))
    | ActorHuman actor \<Rightarrow> \<not> blank actor \<and> ar_decision_source r \<noteq> None"
    by (auto simp: record_ok_def proven_def criteria_ok_def criterion_ok_def
        split: acceptance_actor.splits)
  ultimately show ?thesis by blast
qed

definition sample_criterion :: criterion_state where
  "sample_criterion = \<lparr>cr_criterion_id = ''tests'', cr_required = True,
    cr_status = CriterionSatisfied,
    cr_evidence = [CheckExecuted ''cargo test'' (Some ''f'') (Some 0) CheckPassed None]\<rparr>"

definition sample_accepted :: acceptance_record where
  "sample_accepted = evaluated (acceptance_initial ''t'') [sample_criterion] 0 (Some ''f'')"

lemma ws_len_ascii: "32 < byte c \<Longrightarrow> byte c < 128 \<Longrightarrow> ws_len (c # s) = 0"
  by (auto split: list.split)

lemma not_blank_ascii: "32 < byte c \<Longrightarrow> byte c < 128 \<Longrightarrow> \<not> blank (c # s)"
  by (rule not_blank_nonspace) (simp_all only: ws_len_ascii list.distinct not_False_eq_True)

lemma not_blank_letters [simp]: "\<not> blank (CHR ''c'' # s)" "\<not> blank (CHR ''t'' # s)"
  by (rule not_blank_ascii; simp add: byte_def)+

lemma sample_accepted_step: "acceptance_step (acceptance_initial ''t'') sample_accepted"
proof -
  have "record_ok sample_accepted"
    by (simp add: record_ok_def sample_accepted_def evaluated_def sample_criterion_def
        criteria_ok_def criterion_ok_def is_accepted_def proven_def)
  then show ?thesis
    unfolding sample_accepted_def
    by (intro acceptance_step.intros [OF apply_evaluate [THEN iffD2]] conjI record_ok_initial refl)
      (simp_all add: sample_criterion_def criteria_ok_def criterion_ok_def is_accepted_def
        acceptance_initial_def)
qed

lemma accepted_by_authority_witness:
  "acceptance_apply sample_accepted (HumanAccept ''c'' \<lparr>sf_event_id = ''e'', sf_sequence = 1,
      sf_content_hash = ''h''\<rparr>) = Inl InvalidStateTransition
    \<and> ar_pending_effects sample_accepted = 0"
proof -
  have "is_accepted sample_accepted"
    by (simp add: sample_accepted_def evaluated_def sample_criterion_def is_accepted_def)
  from accepted_by_authority [OF r_into_rtranclp [where r = acceptance_step, OF sample_accepted_step] this]
  show ?thesis by blast
qed

text \<open>
  An evaluation of a task that is not accepted yet succeeds exactly when its criteria are well
  formed, one of them is required, and, if all required ones are satisfied with nothing pending,
  the evidence of each stands up; it accepts exactly when the evidence is complete, and its events
  say how many criteria are satisfied and whether that accepted the task.
\<close>

theorem evaluation_decides:
  assumes "acceptance_step\<^sup>*\<^sup>* (acceptance_initial task) r" and "\<not> is_accepted r"
  shows "((\<exists>r' evs. acceptance_apply r (Evaluate cs pending fingerprint) = Inr (r', evs)) \<longleftrightarrow>
      criteria_ok cs \<and> (\<exists>c \<in> set cs. cr_required c) \<and>
      (pending = 0 \<and> (\<forall>c \<in> set cs. cr_required c \<longrightarrow> cr_status c = CriterionSatisfied) \<longrightarrow>
        proven cs pending fingerprint)) \<and>
    (\<forall>r' evs. acceptance_apply r (Evaluate cs pending fingerprint) = Inr (r', evs) \<longrightarrow>
      ar_criteria r' = cs \<and> (is_accepted r' \<longleftrightarrow> proven cs pending fingerprint) \<and>
      (AcceptedBy ActorAutomatic \<in> set evs \<longleftrightarrow> proven cs pending fingerprint))"
proof (intro conjI allI impI)
  from acceptance_reachable_ok [OF assms(1)] have ok: "record_ok r" by simp
  let ?e = "evaluated r cs pending fingerprint"
  have acc: "record_ok ?e \<longleftrightarrow> criteria_ok cs \<and>
      ((\<forall>c \<in> set cs. cr_required c \<longrightarrow> cr_status c = CriterionSatisfied) \<and> pending = 0 \<longrightarrow>
        proven cs pending fingerprint)"
    by (cases "(\<forall>c \<in> set cs. cr_required c \<longrightarrow> cr_status c = CriterionSatisfied) \<and> pending = 0")
      (simp_all add: record_ok_def evaluated_def is_accepted_def, auto)
  have accepted: "record_ok ?e \<Longrightarrow> is_accepted ?e \<longleftrightarrow> proven cs pending fingerprint"
    unfolding acc by (auto simp: is_accepted_def evaluated_def proven_def split: if_splits)
  from acc ok assms(2) show "(\<exists>r' evs. acceptance_apply r (Evaluate cs pending fingerprint) = Inr (r', evs)) \<longleftrightarrow>
      criteria_ok cs \<and> (\<exists>c \<in> set cs. cr_required c) \<and>
      (pending = 0 \<and> (\<forall>c \<in> set cs. cr_required c \<longrightarrow> cr_status c = CriterionSatisfied) \<longrightarrow>
        proven cs pending fingerprint)"
    unfolding apply_evaluate by blast
  fix r' evs
  assume "acceptance_apply r (Evaluate cs pending fingerprint) = Inr (r', evs)"
  then have r': "r' = ?e" "record_ok r'" and evs: "AcceptedBy ActorAutomatic \<in> set evs \<longleftrightarrow> is_accepted r'"
    unfolding apply_evaluate by (auto split: if_splits)
  from r' show "ar_criteria r' = cs" by (simp add: evaluated_def)
  from r' accepted show "is_accepted r' \<longleftrightarrow> proven cs pending fingerprint" by simp
  with evs show "AcceptedBy ActorAutomatic \<in> set evs \<longleftrightarrow> proven cs pending fingerprint" by simp
qed

lemma evaluation_decides_witness:
  "\<exists>r' evs. acceptance_apply (acceptance_initial ''t'') (Evaluate [sample_criterion] 0 (Some ''f''))
    = Inr (r', evs)"
proof -
  have "\<not> is_accepted (acceptance_initial ''t'')"
    by (simp add: acceptance_initial_def is_accepted_def)
  from evaluation_decides [OF rtranclp.rtrancl_refl this, of "[sample_criterion]" 0 "Some ''f''"]
  show ?thesis
    by (simp add: sample_criterion_def criteria_ok_def criterion_ok_def proven_def)
qed

end
