(* ===== verification/Delegation_Contracts.thy ===== *)
theory Delegation_Contracts imports Acceptance Tool_Records begin

text \<open>
  The delegation contracts of \<^verbatim>\<open>crates/harness-orchestrator/src/coordination/contracts.rs\<close>:
  roles, grants and budgets with the intersection that hands a part of them to a child, the brief
  of a task, the life cycles of a task and of a worktree, the report of a worker with its
  validation and its acceptance, and the bounds of the scheduler. The plan that a task graph
  compiles to is the theory \<open>Task_Plan\<close>.
\<close>

section \<open>Constants and roles\<close>

definition delegation_contract_version :: nat where "delegation_contract_version = 1"
definition default_max_workers :: nat where "default_max_workers = 3"
definition default_max_queued_workers :: nat where "default_max_queued_workers = 8"
definition default_max_depth :: nat where "default_max_depth = 2"
definition unbounded_depth :: nat where "unbounded_depth = u32_max"
definition unbounded_workers :: nat where "unbounded_workers = u32_max"
definition default_max_model_requests :: nat where "default_max_model_requests = 24"

datatype agent_role = RoleCoordinator | RoleExplorer | RoleCoder | RoleReviewer | RoleVerifier

fun agent_role_str :: "agent_role \<Rightarrow> string" where
  "agent_role_str RoleCoordinator = ''coordinator''"
| "agent_role_str RoleExplorer = ''explorer''"
| "agent_role_str RoleCoder = ''coder''"
| "agent_role_str RoleReviewer = ''reviewer''"
| "agent_role_str RoleVerifier = ''verifier''"

definition parse_agent_role :: "string \<Rightarrow> agent_role option" where
  "parse_agent_role v =
    (if v = ''coordinator'' then Some RoleCoordinator
     else if v = ''explorer'' then Some RoleExplorer
     else if v = ''coder'' then Some RoleCoder
     else if v = ''reviewer'' then Some RoleReviewer
     else if v = ''verifier'' then Some RoleVerifier
     else None)"

definition worker_roles :: "agent_role list" where
  "worker_roles = [RoleExplorer, RoleCoder, RoleVerifier]"

definition default_edit_capable :: "agent_role \<Rightarrow> bool" where
  "default_edit_capable r \<longleftrightarrow> r = RoleCoder"

record worker_ref =
  wr_profile_id :: ident
  wr_run_id :: ident
  wr_role :: agent_role
  wr_generation :: nat

datatype grant_action = GrantRead | GrantPropose | GrantPublish | GrantBind | GrantInvalidate

fun grant_action_str :: "grant_action \<Rightarrow> string" where
  "grant_action_str GrantRead = ''read''"
| "grant_action_str GrantPropose = ''propose''"
| "grant_action_str GrantPublish = ''publish''"
| "grant_action_str GrantBind = ''bind''"
| "grant_action_str GrantInvalidate = ''invalidate''"

definition parse_grant_action :: "string \<Rightarrow> grant_action option" where
  "parse_grant_action v =
    (if v = ''read'' then Some GrantRead
     else if v = ''propose'' then Some GrantPropose
     else if v = ''publish'' then Some GrantPublish
     else if v = ''bind'' then Some GrantBind
     else if v = ''invalidate'' then Some GrantInvalidate
     else None)"

section \<open>Budgets\<close>

record delegation_budget =
  bu_max_workers :: nat
  bu_max_model_requests :: nat
  bu_max_retries :: nat
  bu_max_cost_units :: nat

record budget_usage =
  us_model_requests :: nat
  us_retries :: nat

definition default_budget :: delegation_budget where
  "default_budget = \<lparr>bu_max_workers = default_max_workers,
    bu_max_model_requests = default_max_model_requests, bu_max_retries = 1, bu_max_cost_units = 0\<rparr>"

definition budget_validate :: "delegation_budget \<Rightarrow> unit res" where
  "budget_validate b =
    (if bu_max_workers b = 0 \<or> bu_max_workers b > default_max_workers then Inl BudgetExhausted
     else if bu_max_model_requests b = 0 then Inl BudgetExhausted else Inr ())"

definition budget_intersect :: "delegation_budget \<Rightarrow> delegation_budget \<Rightarrow> delegation_budget" where
  "budget_intersect b requested = \<lparr>
    bu_max_workers = min (bu_max_workers b) (bu_max_workers requested),
    bu_max_model_requests = min (bu_max_model_requests b) (bu_max_model_requests requested),
    bu_max_retries = min (bu_max_retries b) (bu_max_retries requested),
    bu_max_cost_units = min (bu_max_cost_units b) (bu_max_cost_units requested)\<rparr>"

definition checked_sub :: "nat \<Rightarrow> nat \<Rightarrow> nat option" where
  "checked_sub a b = (if b \<le> a then Some (a - b) else None)"

definition budget_charge :: "delegation_budget \<Rightarrow> budget_usage \<Rightarrow> delegation_budget res" where
  "budget_charge b usage =
    (case checked_sub (bu_max_model_requests b) (us_model_requests usage) of
      None \<Rightarrow> Inl BudgetExhausted
    | Some requests \<Rightarrow>
      (case checked_sub (bu_max_retries b) (us_retries usage) of
        None \<Rightarrow> Inl BudgetExhausted
      | Some retries \<Rightarrow> Inr (b\<lparr>bu_max_model_requests := requests, bu_max_retries := retries\<rparr>)))"

section \<open>Grants\<close>

record delegation_grants =
  dg_project_id :: ident
  dg_task_id :: ident
  dg_actions :: "grant_action list"
  dg_write_scope :: "string list"
  dg_edit_workspace :: bool
  dg_max_depth :: nat
  dg_budget :: delegation_budget

definition allows :: "delegation_grants \<Rightarrow> grant_action \<Rightarrow> bool" where
  "allows g a \<longleftrightarrow> a \<in> set (dg_actions g)"

fun contains_text :: "string \<Rightarrow> string \<Rightarrow> bool" where
  "contains_text p [] \<longleftrightarrow> p = []"
| "contains_text p (c # s) \<longleftrightarrow> starts_with p (c # s) \<or> contains_text p s"

definition validate_scope_path :: "string \<Rightarrow> unit res" where
  "validate_scope_path path =
    (if blank path \<or> starts_with ''/'' path \<or> starts_with [CHR 0x5C] path
        \<or> contains_text ''..'' path \<or> contains_text '':'' path
     then Inl ScopeAuthorityDenied else Inr ())"

definition grants_validate :: "delegation_grants \<Rightarrow> unit res" where
  "grants_validate g = checks (
    [if dg_max_depth g > default_max_depth \<and> dg_max_depth g \<noteq> unbounded_depth
     then Inl DelegationDepthExceeded else Inr (),
     budget_validate (dg_budget g),
     if dg_edit_workspace g \<and> dg_write_scope g = [] then Inl ScopeAuthorityDenied else Inr ()]
    @ map validate_scope_path (dg_write_scope g))"

definition intersected_grants :: "delegation_grants \<Rightarrow> delegation_grants \<Rightarrow> delegation_grants" where
  "intersected_grants g requested = \<lparr>dg_project_id = dg_project_id g, dg_task_id = dg_task_id g,
    dg_actions = filter (allows g) (dg_actions requested), dg_write_scope = dg_write_scope requested,
    dg_edit_workspace = dg_edit_workspace requested, dg_max_depth = dg_max_depth requested,
    dg_budget = budget_intersect (dg_budget g) (dg_budget requested)\<rparr>"

definition grants_intersect :: "delegation_grants \<Rightarrow> delegation_grants \<Rightarrow> delegation_grants res" where
  "grants_intersect g requested =
    (if dg_project_id requested \<noteq> dg_project_id g \<or> dg_task_id requested \<noteq> dg_task_id g
     then Inl ScopeAuthorityDenied
     else if dg_max_depth requested > dg_max_depth g then Inl DelegationDepthExceeded
     else if length (filter (allows g) (dg_actions requested)) \<noteq> length (dg_actions requested)
     then Inl ScopeAuthorityDenied
     else if \<exists>path \<in> set (dg_write_scope requested). path \<notin> set (dg_write_scope g)
     then Inl ScopeAuthorityDenied
     else if dg_edit_workspace requested \<and> \<not> dg_edit_workspace g then Inl ScopeAuthorityDenied
     else (case grants_validate (intersected_grants g requested) of
       Inl e \<Rightarrow> Inl e
     | Inr _ \<Rightarrow> Inr (intersected_grants g requested)))"

section \<open>Briefs and task states\<close>

record task_brief =
  tb_schema_version :: nat
  tb_task_id :: ident
  tb_title :: string
  tb_objective :: string
  tb_acceptance_criteria :: "string list"
  tb_inputs :: "string list"
  tb_base_snapshot :: string
  tb_base_commit :: string
  tb_workspace :: workspace_observation
  tb_grants :: delegation_grants
  tb_expected_artifacts :: "string list"
  tb_deadline_unix_ms :: "nat option"
  tb_role :: agent_role

definition brief_validate :: "task_brief \<Rightarrow> unit res" where
  "brief_validate b = checks [
    if tb_schema_version b \<noteq> delegation_contract_version then Inl UnsupportedSchemaVersion else Inr (),
    if blank (tb_title b) \<or> blank (tb_objective b) then Inl InvalidPayload else Inr (),
    if tb_acceptance_criteria b = [] then Inl InvalidPayload else Inr (),
    if blank (tb_base_snapshot b) \<or> blank (tb_base_commit b) then Inl InvalidPayload else Inr (),
    grants_validate (tb_grants b),
    if dg_task_id (tb_grants b) \<noteq> tb_task_id b then Inl AmbiguousTaskOwner else Inr (),
    if default_edit_capable (tb_role b) \<noteq> dg_edit_workspace (tb_grants b) \<and> tb_role b \<noteq> RoleCoder
    then Inl ScopeAuthorityDenied else Inr ()]"

datatype task_status = TaskPending | TaskReady | TaskAssigned | TaskRunning | TaskBlocked
  | TaskCompleted | TaskFailed | TaskCanceled

fun task_status_str :: "task_status \<Rightarrow> string" where
  "task_status_str TaskPending = ''pending''"
| "task_status_str TaskReady = ''ready''"
| "task_status_str TaskAssigned = ''assigned''"
| "task_status_str TaskRunning = ''running''"
| "task_status_str TaskBlocked = ''blocked''"
| "task_status_str TaskCompleted = ''completed''"
| "task_status_str TaskFailed = ''failed''"
| "task_status_str TaskCanceled = ''canceled''"

definition parse_task_status :: "string \<Rightarrow> task_status option" where
  "parse_task_status v =
    (if v = ''pending'' then Some TaskPending
     else if v = ''ready'' then Some TaskReady
     else if v = ''assigned'' then Some TaskAssigned
     else if v = ''running'' then Some TaskRunning
     else if v = ''blocked'' then Some TaskBlocked
     else if v = ''completed'' then Some TaskCompleted
     else if v = ''failed'' then Some TaskFailed
     else if v = ''canceled'' then Some TaskCanceled
     else None)"

definition task_is_terminal :: "task_status \<Rightarrow> bool" where
  "task_is_terminal s \<longleftrightarrow> s \<in> {TaskCompleted, TaskFailed, TaskCanceled}"

definition task_is_live :: "task_status \<Rightarrow> bool" where
  "task_is_live s \<longleftrightarrow> s \<in> {TaskReady, TaskAssigned, TaskRunning, TaskBlocked}"

fun task_allowed :: "task_status \<Rightarrow> task_status \<Rightarrow> bool" where
  "task_allowed TaskPending n \<longleftrightarrow> n \<in> {TaskReady, TaskCanceled, TaskBlocked}"
| "task_allowed TaskReady n \<longleftrightarrow> n \<in> {TaskPending, TaskAssigned, TaskBlocked, TaskCanceled}"
| "task_allowed TaskAssigned n \<longleftrightarrow> n \<in> {TaskReady, TaskRunning, TaskBlocked, TaskCanceled}"
| "task_allowed TaskRunning n \<longleftrightarrow>
    n \<in> {TaskBlocked, TaskCompleted, TaskFailed, TaskCanceled, TaskReady}"
| "task_allowed TaskBlocked n \<longleftrightarrow> n \<in> {TaskReady, TaskFailed, TaskCanceled}"
| "task_allowed TaskCompleted n \<longleftrightarrow> False"
| "task_allowed TaskFailed n \<longleftrightarrow> False"
| "task_allowed TaskCanceled n \<longleftrightarrow> False"

definition task_transition :: "task_status \<Rightarrow> task_status \<Rightarrow> task_status res" where
  "task_transition s n = (if s = n \<or> task_allowed s n then Inr n else Inl InvalidStateTransition)"

datatype delegated_outcome = OutcomeCompleted | OutcomeFailed | OutcomeBlocked | OutcomeCanceled
  | OutcomeUnknown

fun delegated_outcome_str :: "delegated_outcome \<Rightarrow> string" where
  "delegated_outcome_str OutcomeCompleted = ''completed''"
| "delegated_outcome_str OutcomeFailed = ''failed''"
| "delegated_outcome_str OutcomeBlocked = ''blocked''"
| "delegated_outcome_str OutcomeCanceled = ''canceled''"
| "delegated_outcome_str OutcomeUnknown = ''outcome_unknown''"

definition parse_delegated_outcome :: "string \<Rightarrow> delegated_outcome option" where
  "parse_delegated_outcome v =
    (if v = ''completed'' then Some OutcomeCompleted
     else if v = ''failed'' then Some OutcomeFailed
     else if v = ''blocked'' then Some OutcomeBlocked
     else if v = ''canceled'' then Some OutcomeCanceled
     else if v = ''outcome_unknown'' then Some OutcomeUnknown
     else None)"

fun maps_to :: "delegated_outcome \<Rightarrow> task_status" where
  "maps_to OutcomeCompleted = TaskCompleted"
| "maps_to OutcomeFailed = TaskFailed"
| "maps_to OutcomeCanceled = TaskCanceled"
| "maps_to OutcomeBlocked = TaskBlocked"
| "maps_to OutcomeUnknown = TaskBlocked"

datatype worktree_state = TreeCreating | TreeReady | TreeIntegrating | TreeIntegrated | TreeRemoved

fun worktree_state_str :: "worktree_state \<Rightarrow> string" where
  "worktree_state_str TreeCreating = ''creating''"
| "worktree_state_str TreeReady = ''ready''"
| "worktree_state_str TreeIntegrating = ''integrating''"
| "worktree_state_str TreeIntegrated = ''integrated''"
| "worktree_state_str TreeRemoved = ''removed''"

definition parse_worktree_state :: "string \<Rightarrow> worktree_state option" where
  "parse_worktree_state v =
    (if v = ''creating'' then Some TreeCreating
     else if v = ''ready'' then Some TreeReady
     else if v = ''integrating'' then Some TreeIntegrating
     else if v = ''integrated'' then Some TreeIntegrated
     else if v = ''removed'' then Some TreeRemoved
     else None)"

definition worktree_allowed :: "(worktree_state \<times> worktree_state) set" where
  "worktree_allowed = {(TreeCreating, TreeReady), (TreeCreating, TreeRemoved),
    (TreeReady, TreeIntegrating), (TreeReady, TreeRemoved),
    (TreeIntegrating, TreeIntegrated), (TreeIntegrating, TreeReady), (TreeIntegrating, TreeRemoved),
    (TreeIntegrated, TreeRemoved)}"

definition worktree_transition :: "worktree_state \<Rightarrow> worktree_state \<Rightarrow> worktree_state res" where
  "worktree_transition s n =
    (if (s, n) \<in> worktree_allowed \<or> s = n then Inr n else Inl InvalidStateTransition)"

section \<open>Reports\<close>

record checked_revision =
  cv_command :: string
  cv_revision :: string
  cv_passed :: bool
  cv_workspace_digest :: "content_hash option"
  cv_exit_code :: "int option"
  cv_artifact_id :: "ident option"

record delegated_result =
  dr_schema_version :: nat
  dr_result_id :: string
  dr_task_id :: ident
  dr_worker :: worker_ref
  dr_outcome :: delegated_outcome
  dr_summary :: string
  dr_artifact_refs :: "string list"
  dr_base_revision :: string
  dr_result_revision :: string
  dr_checked_revisions :: "checked_revision list"
  dr_check_receipts :: "tool_receipt list"
  dr_usage :: budget_usage
  dr_detail :: json

text \<open>The object whose canonical hash ties a receipt to the check it ran.\<close>

definition check_input :: "delegated_result \<Rightarrow> checked_revision \<Rightarrow> json" where
  "check_input r check = JObj [(''command'', JStr (cv_command check)),
    (''base_commit'', JStr (dr_base_revision r)), (''revision'', JStr (cv_revision check))]"

definition check_matches :: "content_hash \<Rightarrow> delegated_result \<Rightarrow> checked_revision \<times> tool_receipt \<Rightarrow> bool" where
  "check_matches expected r = (\<lambda>(check, receipt).
    \<not> blank (cv_command check) \<and> cv_workspace_digest check \<noteq> None \<and>
    (cv_passed check \<longleftrightarrow> cv_exit_code check = Some 0) \<and>
    tr_task_id receipt = dr_task_id r \<and>
    tr_intent_state receipt \<in> {IntentValidated, IntentRecorded} \<and>
    tr_outcome_state receipt = ToolSettled \<and>
    tr_exit_code receipt = cv_exit_code check \<and>
    tr_after_fingerprint receipt = cv_workspace_digest check \<and>
    tr_input_hash receipt = expected)"

definition pair_validate ::
  "canonical_hash \<Rightarrow> delegated_result \<Rightarrow> checked_revision \<times> tool_receipt \<Rightarrow> unit res" where
  "pair_validate hash r p =
    (case hash (check_input r (fst p)) of
      Inl e \<Rightarrow> Inl e
    | Inr expected \<Rightarrow> if check_matches expected r p then Inr () else Inl ResultIncomplete)"

definition result_validate :: "canonical_hash \<Rightarrow> delegated_result \<Rightarrow> task_brief \<Rightarrow> unit res" where
  "result_validate hash r brief = checks (
    [if dr_schema_version r \<noteq> delegation_contract_version then Inl UnsupportedSchemaVersion else Inr (),
     if dr_task_id r \<noteq> tb_task_id brief then Inl AmbiguousTaskOwner else Inr (),
     if blank (dr_result_id r) then Inl InvalidPayload else Inr (),
     if blank (dr_base_revision r) \<or> blank (dr_result_revision r) then Inl ResultIncomplete else Inr (),
     if blank (dr_summary r) then Inl ResultIncomplete else Inr (),
     if \<exists>expected \<in> set (tb_expected_artifacts brief). expected \<notin> set (dr_artifact_refs r)
     then Inl ResultIncomplete else Inr (),
     if \<exists>c \<in> set (dr_checked_revisions r).
         blank (cv_revision c) \<or> cv_revision c \<noteq> dr_result_revision r
     then Inl ResultIncomplete else Inr (),
     if length (dr_checked_revisions r) \<noteq> length (dr_check_receipts r)
     then Inl ResultIncomplete else Inr ()]
    @ map (pair_validate hash r) (zip (dr_checked_revisions r) (dr_check_receipts r))
    @ [if dr_outcome r = OutcomeCompleted then
         (if tb_expected_artifacts brief \<noteq> [] \<and> dr_check_receipts r = [] \<and> dr_artifact_refs r = []
          then Inl ResultIncomplete
          else if tb_expected_artifacts brief = [] \<and> dr_check_receipts r = []
          then Inl ResultIncomplete else Inr ())
       else Inr ()])"

definition acceptance_fingerprint :: "delegated_result \<Rightarrow> content_hash option" where
  "acceptance_fingerprint r =
    (case dr_checked_revisions r of
      [] \<Rightarrow> None
    | first # rest \<Rightarrow>
      (case cv_workspace_digest first of
        None \<Rightarrow> None
      | Some digest \<Rightarrow>
          if \<forall>check \<in> set rest. cv_workspace_digest check = Some digest then Some digest else None))"

definition check_evidence_of :: "checked_revision \<times> tool_receipt \<Rightarrow> criterion_evidence" where
  "check_evidence_of = (\<lambda>(c, receipt). CheckExecuted (cv_command c) (cv_workspace_digest c)
    (cv_exit_code c)
    (if cv_passed c \<and> cv_exit_code c = Some 0 then CheckPassed else CheckFailed)
    (Some (tr_tool_execution_id receipt)))"

definition acceptance_evidence :: "delegated_result \<Rightarrow> criterion_evidence list" where
  "acceptance_evidence r = map (ArtifactProduced None) (dr_artifact_refs r)
    @ map check_evidence_of (zip (dr_checked_revisions r) (dr_check_receipts r))"

definition acceptance_criteria :: "delegated_result \<Rightarrow> criterion_state list" where
  "acceptance_criteria r = [\<lparr>cr_criterion_id = ''worker.outcome'', cr_required = True,
    cr_status = (if dr_outcome r = OutcomeCompleted then CriterionSatisfied else CriterionFailed),
    cr_evidence = acceptance_evidence r\<rparr>]"

definition accepted_completion :: "delegated_result \<Rightarrow> bool" where
  "accepted_completion r =
    (case acceptance_apply (acceptance_initial (dr_task_id r))
        (Evaluate (acceptance_criteria r) 0 (acceptance_fingerprint r)) of
      Inl _ \<Rightarrow> False
    | Inr (next, _) \<Rightarrow> is_accepted next)"

section \<open>Scheduler bounds\<close>

record scheduler_config =
  sg_max_concurrent_workers :: nat
  sg_max_depth :: nat
  sg_max_queued_workers :: nat
  sg_budget :: delegation_budget

definition default_scheduler_config :: scheduler_config where
  "default_scheduler_config = \<lparr>sg_max_concurrent_workers = default_max_workers,
    sg_max_depth = default_max_depth, sg_max_queued_workers = default_max_queued_workers,
    sg_budget = default_budget\<rparr>"

definition scheduler_validate :: "scheduler_config \<Rightarrow> unit res" where
  "scheduler_validate c =
    (if sg_max_concurrent_workers c = 0 \<or>
        (sg_max_concurrent_workers c > default_max_workers \<and>
          sg_max_concurrent_workers c \<noteq> unbounded_workers)
     then Inl BudgetExhausted
     else if sg_max_depth c = 0 \<or> (sg_max_depth c > default_max_depth \<and> sg_max_depth c \<noteq> unbounded_depth)
     then Inl DelegationDepthExceeded
     else if sg_max_queued_workers c > default_max_queued_workers \<and>
        sg_max_queued_workers c \<noteq> unbounded_workers
     then Inl DelegationQueueFull
     else budget_validate (sg_budget c))"

definition queue_capacity :: "scheduler_config \<Rightarrow> nat" where
  "queue_capacity c =
    saturating_add u32_max (sg_max_concurrent_workers c) (sg_max_queued_workers c)"

definition require_queue_capacity :: "scheduler_config \<Rightarrow> nat \<Rightarrow> unit res" where
  "require_queue_capacity c reserved =
    (if reserved \<ge> queue_capacity c then Inl DelegationQueueFull else Inr ())"

definition require_depth :: "scheduler_config \<Rightarrow> nat \<Rightarrow> unit res" where
  "require_depth c depth = (if depth > sg_max_depth c then Inl DelegationDepthExceeded else Inr ())"

section \<open>A delegation never widens what it hands on\<close>

definition budget_within :: "delegation_budget \<Rightarrow> delegation_budget \<Rightarrow> bool" where
  "budget_within b c \<longleftrightarrow> bu_max_workers b \<le> bu_max_workers c \<and>
    bu_max_model_requests b \<le> bu_max_model_requests c \<and>
    bu_max_retries b \<le> bu_max_retries c \<and> bu_max_cost_units b \<le> bu_max_cost_units c"

definition grants_within :: "delegation_grants \<Rightarrow> delegation_grants \<Rightarrow> bool" where
  "grants_within g h \<longleftrightarrow> dg_project_id g = dg_project_id h \<and> dg_task_id g = dg_task_id h \<and>
    set (dg_actions g) \<subseteq> set (dg_actions h) \<and> set (dg_write_scope g) \<subseteq> set (dg_write_scope h) \<and>
    (dg_edit_workspace g \<longrightarrow> dg_edit_workspace h) \<and> dg_max_depth g \<le> dg_max_depth h \<and>
    budget_within (dg_budget g) (dg_budget h)"

lemma budget_within_refl [simp]: "budget_within b b"
  by (simp add: budget_within_def)

lemma budget_within_trans: "budget_within a b \<Longrightarrow> budget_within b c \<Longrightarrow> budget_within a c"
  by (auto simp: budget_within_def)

lemma grants_within_refl [simp]: "grants_within g g"
  by (simp add: grants_within_def)

lemma grants_within_trans:
  assumes "grants_within g h" and "grants_within h k"
  shows "grants_within g k"
  using assms budget_within_trans [of "dg_budget g" "dg_budget h" "dg_budget k"]
  by (auto simp: grants_within_def)

lemma budget_intersect_within:
  "budget_within (budget_intersect b c) b" "budget_within (budget_intersect b c) c"
  by (simp_all add: budget_within_def budget_intersect_def)

text \<open>The intersection is the greatest budget within both.\<close>

lemma budget_intersect_greatest:
  "budget_within a (budget_intersect b c) \<longleftrightarrow> budget_within a b \<and> budget_within a c"
  by (auto simp: budget_within_def budget_intersect_def)

lemma filter_length_all: "length (filter P xs) = length xs \<longleftrightarrow> (\<forall>x \<in> set xs. P x)"
proof (induction xs)
  case (Cons x xs)
  have "length (filter P xs) < Suc (length xs)" by (simp add: less_Suc_eq_le)
  with Cons show ?case by auto
qed simp

lemma grants_intersect_iff:
  "grants_intersect g requested = Inr c \<longleftrightarrow>
    dg_project_id requested = dg_project_id g \<and> dg_task_id requested = dg_task_id g \<and>
    dg_max_depth requested \<le> dg_max_depth g \<and>
    set (dg_actions requested) \<subseteq> set (dg_actions g) \<and>
    set (dg_write_scope requested) \<subseteq> set (dg_write_scope g) \<and>
    (dg_edit_workspace requested \<longrightarrow> dg_edit_workspace g) \<and>
    c = requested\<lparr>dg_budget := budget_intersect (dg_budget g) (dg_budget requested)\<rparr> \<and>
    grants_validate c = Inr ()" (is "_ \<longleftrightarrow> ?R")
proof (cases "dg_project_id requested = dg_project_id g \<and> dg_task_id requested = dg_task_id g \<and>
    dg_max_depth requested \<le> dg_max_depth g \<and>
    set (dg_actions requested) \<subseteq> set (dg_actions g) \<and>
    set (dg_write_scope requested) \<subseteq> set (dg_write_scope g) \<and>
    (dg_edit_workspace requested \<longrightarrow> dg_edit_workspace g)")
  case True
  then have all: "filter (allows g) (dg_actions requested) = dg_actions requested"
    by (intro filter_True) (auto simp: allows_def)
  with True have eq: "intersected_grants g requested =
      requested\<lparr>dg_budget := budget_intersect (dg_budget g) (dg_budget requested)\<rparr>"
    by (simp add: intersected_grants_def)
  from True have "\<not> (\<exists>path \<in> set (dg_write_scope requested). path \<notin> set (dg_write_scope g))"
    by auto
  with True all have "grants_intersect g requested =
      (case grants_validate (intersected_grants g requested) of
        Inl e \<Rightarrow> Inl e | Inr _ \<Rightarrow> Inr (intersected_grants g requested))"
    unfolding grants_intersect_def by auto
  with True eq show ?thesis by (cases "grants_validate (intersected_grants g requested)") auto
next
  case False
  then have "grants_intersect g requested \<noteq> Inr c"
    by (auto simp: grants_intersect_def filter_length_all allows_def)
  with False show ?thesis by blast
qed

text \<open>A grant handed down a chain of delegations, one intersection after the other.\<close>

fun delegate :: "delegation_grants \<Rightarrow> delegation_grants list \<Rightarrow> delegation_grants res" where
  "delegate g [] = Inr g"
| "delegate g (r # rs) = (case grants_intersect g r of Inl e \<Rightarrow> Inl e | Inr c \<Rightarrow> delegate c rs)"

lemma grants_intersect_within:
  assumes "grants_intersect g r = Inr c"
  shows "grants_within c g" "grants_within c r" "grants_validate c = Inr ()"
proof -
  note iff = assms [unfolded grants_intersect_iff]
  then show "grants_within c g" "grants_within c r"
    by (simp_all add: grants_within_def budget_intersect_within)
  from iff show "grants_validate c = Inr ()" by blast
qed

text \<open>
  C8. However many workers a grant is handed down through, what the last one holds is within the
  first grant and within every request on the way (no action, path, editing workspace, depth or
  budget is added), and it is itself a valid grant.
\<close>

theorem delegation_never_widens:
  assumes "delegate g rs = Inr c" and "rs \<noteq> []"
  shows "grants_within c g \<and> (\<forall>r \<in> set rs. grants_within c r) \<and> grants_validate c = Inr ()"
  using assms
proof (induction rs arbitrary: g)
  case (Cons r rs)
  then obtain d where d: "grants_intersect g r = Inr d" and rest: "delegate d rs = Inr c"
    by (auto split: sum.splits)
  note w = grants_intersect_within [OF d]
  show ?case
  proof (cases "rs = []")
    case True
    with rest w show ?thesis by simp
  next
    case False
    from Cons.IH [OF rest False] have ih: "grants_within c d" "\<forall>r \<in> set rs. grants_within c r"
      "grants_validate c = Inr ()"
      by blast+
    from grants_within_trans [OF ih(1) w(1)] grants_within_trans [OF ih(1) w(2)] ih(2,3)
    show ?thesis by simp
  qed
qed simp

definition sample_grants :: "nat \<Rightarrow> delegation_grants" where
  "sample_grants n = \<lparr>dg_project_id = ''p'', dg_task_id = ''t'', dg_actions = [GrantRead],
    dg_write_scope = [''src''], dg_edit_workspace = True, dg_max_depth = 2,
    dg_budget = default_budget\<lparr>bu_max_model_requests := n\<rparr>\<rparr>"

lemma not_blank_src [simp]: "\<not> blank ''src''"
  by (rule not_blank_ascii) (simp_all add: byte_def)

lemma sample_grants_valid: "0 < n \<Longrightarrow> grants_validate (sample_grants n) = Inr ()"
  by (simp add: grants_validate_def sample_grants_def budget_validate_def default_budget_def
      default_max_workers_def default_max_depth_def validate_scope_path_def starts_with_def)

lemma delegation_never_widens_witness:
  "grants_within (sample_grants 3) (sample_grants 9) \<and> grants_validate (sample_grants 3) = Inr ()"
proof -
  have c: "grants_intersect (sample_grants 9) (sample_grants 5) = Inr (sample_grants 5)"
    "grants_intersect (sample_grants 5) (sample_grants 3) = Inr (sample_grants 3)"
    unfolding grants_intersect_iff using sample_grants_valid [of 5] sample_grants_valid [of 3]
    by (simp_all add: sample_grants_def budget_intersect_def)
  then have "delegate (sample_grants 9) [sample_grants 5, sample_grants 3] = Inr (sample_grants 3)"
    by simp
  from delegation_never_widens [OF this] show ?thesis by simp
qed

section \<open>Charging a budget\<close>

fun charges :: "delegation_budget \<Rightarrow> budget_usage list \<Rightarrow> delegation_budget res" where
  "charges b [] = Inr b"
| "charges b (u # us) = (case budget_charge b u of Inl e \<Rightarrow> Inl e | Inr c \<Rightarrow> charges c us)"

lemma budget_charge_eq:
  "budget_charge b u =
    (if us_model_requests u \<le> bu_max_model_requests b \<and> us_retries u \<le> bu_max_retries b
     then Inr (b\<lparr>bu_max_model_requests := bu_max_model_requests b - us_model_requests u,
       bu_max_retries := bu_max_retries b - us_retries u\<rparr>)
     else Inl BudgetExhausted)"
  by (simp add: budget_charge_def checked_sub_def)

text \<open>
  A run of charges against a budget succeeds exactly when the requests and the retries of all
  of them together fit, and then leaves exactly the rest: nothing is clamped, and the order of the
  charges does not matter.
\<close>

theorem charges_exact:
  "charges b us =
    (if (\<Sum>u \<leftarrow> us. us_model_requests u) \<le> bu_max_model_requests b
        \<and> (\<Sum>u \<leftarrow> us. us_retries u) \<le> bu_max_retries b
     then Inr (b\<lparr>bu_max_model_requests := bu_max_model_requests b - (\<Sum>u \<leftarrow> us. us_model_requests u),
       bu_max_retries := bu_max_retries b - (\<Sum>u \<leftarrow> us. us_retries u)\<rparr>)
     else Inl BudgetExhausted)"
proof (induction us arbitrary: b)
  case (Cons u us)
  show ?case
  proof (cases "us_model_requests u \<le> bu_max_model_requests b \<and> us_retries u \<le> bu_max_retries b")
    case True
    then have "charges b (u # us) = charges (b\<lparr>bu_max_model_requests :=
        bu_max_model_requests b - us_model_requests u,
        bu_max_retries := bu_max_retries b - us_retries u\<rparr>) us"
      by (simp add: budget_charge_eq)
    also note Cons.IH
    finally show ?thesis using True by (auto simp: le_diff_conv2 add.commute)
  next
    case False
    then show ?thesis by (auto simp: budget_charge_eq)
  qed
qed simp

section \<open>The life of a task\<close>

definition task_moves :: "task_status list \<Rightarrow> bool" where
  "task_moves ss \<longleftrightarrow> successively (\<lambda>s n. task_transition s n = Inr n) ss"

lemma task_transition_allowed: "task_transition s n = Inr n \<longleftrightarrow> s = n \<or> task_allowed s n"
  by (simp add: task_transition_def)

lemma task_moves_snoc:
  "xs \<noteq> [] \<Longrightarrow> task_moves (xs @ [x]) \<longleftrightarrow> task_moves xs \<and> (last xs = x \<or> task_allowed (last xs) x)"
  by (simp add: task_moves_def successively_append_iff task_transition_allowed)

lemma task_allowed_to:
  "task_allowed s TaskCompleted \<longleftrightarrow> s = TaskRunning"
  "task_allowed s TaskRunning \<longleftrightarrow> s = TaskAssigned"
  "task_allowed s TaskAssigned \<longleftrightarrow> s = TaskReady"
  by (cases s; simp)+

text \<open>
  A task that starts pending is completed only after it has been ready, assigned and running,
  and a completed, failed or canceled task keeps its state forever.
\<close>

theorem completion_is_earned:
  assumes "task_moves ss" and "ss \<noteq> []" and "hd ss = TaskPending"
  shows "(TaskCompleted \<in> set ss \<longrightarrow> {TaskReady, TaskAssigned, TaskRunning} \<subseteq> set ss) \<and>
    (\<forall>i j. i \<le> j \<longrightarrow> j < length ss \<longrightarrow> task_is_terminal (ss ! i) \<longrightarrow> ss ! j = ss ! i)"
proof (rule conjI)
  have "(TaskCompleted \<in> set ss \<longrightarrow> TaskRunning \<in> set ss) \<and>
    (TaskRunning \<in> set ss \<longrightarrow> TaskAssigned \<in> set ss) \<and> (TaskAssigned \<in> set ss \<longrightarrow> TaskReady \<in> set ss)"
    using assms
  proof (induction ss rule: rev_induct)
    case (snoc x xs)
    show ?case
    proof (cases "xs = []")
      case True
      with snoc.prems show ?thesis by simp
    next
      case False
      with snoc.prems have ih: "(TaskCompleted \<in> set xs \<longrightarrow> TaskRunning \<in> set xs) \<and>
          (TaskRunning \<in> set xs \<longrightarrow> TaskAssigned \<in> set xs) \<and> (TaskAssigned \<in> set xs \<longrightarrow> TaskReady \<in> set xs)"
        and x: "last xs = x \<or> task_allowed (last xs) x"
        using snoc.IH by (simp_all add: task_moves_snoc)
      from False have "last xs \<in> set xs" by simp
      with x ih show ?thesis by (cases x) (auto simp: task_allowed_to)
    qed
  qed simp
  then show "TaskCompleted \<in> set ss \<longrightarrow> {TaskReady, TaskAssigned, TaskRunning} \<subseteq> set ss" by blast
  show "\<forall>i j. i \<le> j \<longrightarrow> j < length ss \<longrightarrow> task_is_terminal (ss ! i) \<longrightarrow> ss ! j = ss ! i"
  proof (intro allI impI)
    fix i j assume "i \<le> j" "j < length ss" "task_is_terminal (ss ! i)"
    then show "ss ! j = ss ! i"
    proof (induction j rule: dec_induct)
      case (step j)
      with assms(1) have "ss ! j = ss ! Suc j \<or> task_allowed (ss ! j) (ss ! Suc j)"
        unfolding task_moves_def successively_conv_nth by (auto simp: task_transition_allowed)
      with step show ?case by (auto simp: task_is_terminal_def)
    qed simp
  qed
qed

lemma completion_is_earned_witness:
  "{TaskReady, TaskAssigned, TaskRunning} \<subseteq>
    set [TaskPending, TaskReady, TaskAssigned, TaskRunning, TaskCompleted]"
proof -
  have "task_moves [TaskPending, TaskReady, TaskAssigned, TaskRunning, TaskCompleted]"
    by (simp add: task_moves_def task_transition_def)
  from completion_is_earned [OF this] show ?thesis by simp
qed

section \<open>Accepting a report\<close>

lemma result_validateD:
  assumes "result_validate hash r brief = Inr ()"
  shows "dr_task_id r = tb_task_id brief" "\<not> blank (dr_result_revision r)"
    "set (tb_expected_artifacts brief) \<subseteq> set (dr_artifact_refs r)"
    "\<forall>c \<in> set (dr_checked_revisions r). cv_revision c = dr_result_revision r"
    "length (dr_checked_revisions r) = length (dr_check_receipts r)"
    "\<forall>p \<in> set (zip (dr_checked_revisions r) (dr_check_receipts r)). pair_validate hash r p = Inr ()"
    "dr_outcome r = OutcomeCompleted \<Longrightarrow> dr_check_receipts r \<noteq> [] \<or> dr_artifact_refs r \<noteq> []"
  using assms unfolding result_validate_def checks_ok by (auto split: if_splits)

lemma pair_validateD:
  "pair_validate hash r p = Inr () \<Longrightarrow>
    \<exists>expected. hash (check_input r (fst p)) = Inr expected \<and> check_matches expected r p"
  by (auto simp: pair_validate_def split: sum.splits if_splits)

lemma accepted_completion_evidence:
  "accepted_completion r \<longleftrightarrow> dr_outcome r = OutcomeCompleted \<and> acceptance_evidence r \<noteq> [] \<and>
    (\<forall>e \<in> set (acceptance_evidence r). evidence_ok e \<and> \<not> check_fails (acceptance_fingerprint r) e)"
proof -
  let ?a = "acceptance_initial (dr_task_id r)"
  let ?cs = "acceptance_criteria r"
  let ?n = "evaluated ?a ?cs 0 (acceptance_fingerprint r)"
  have "\<not> blank ''worker.outcome''" by (rule not_blank_ascii) (simp_all add: byte_def)
  then have cs: "criteria_ok ?cs \<longleftrightarrow> (dr_outcome r = OutcomeCompleted \<longrightarrow> acceptance_evidence r \<noteq> [])
      \<and> (\<forall>e \<in> set (acceptance_evidence r). evidence_ok e)"
    by (simp add: acceptance_criteria_def criteria_ok_def criterion_ok_def)
  have acc: "is_accepted ?n \<longleftrightarrow> dr_outcome r = OutcomeCompleted"
    by (simp add: evaluated_def is_accepted_def acceptance_criteria_def)
  have ok: "record_ok ?n \<longleftrightarrow> criteria_ok ?cs \<and> (dr_outcome r = OutcomeCompleted \<longrightarrow>
      (\<forall>e \<in> set (acceptance_evidence r). \<not> check_fails (acceptance_fingerprint r) e))"
    by (simp add: record_ok_def is_accepted_def evaluated_def proven_def acceptance_criteria_def)
  have "accepted_completion r \<longleftrightarrow>
      (\<exists>r' evs. acceptance_apply ?a (Evaluate ?cs 0 (acceptance_fingerprint r)) = Inr (r', evs) \<and> is_accepted r')"
    by (auto simp: accepted_completion_def split: sum.splits)
  also have "\<dots> \<longleftrightarrow> criteria_ok ?cs \<and> record_ok ?n \<and> is_accepted ?n"
  proof -
    have "\<exists>c \<in> set ?cs. cr_required c" by (simp add: acceptance_criteria_def)
    moreover have "\<not> is_accepted ?a" by (simp add: is_accepted_def acceptance_initial_def)
    ultimately show ?thesis unfolding apply_evaluate using record_ok_initial by blast
  qed
  also have "\<dots> \<longleftrightarrow> dr_outcome r = OutcomeCompleted \<and> acceptance_evidence r \<noteq> [] \<and>
    (\<forall>e \<in> set (acceptance_evidence r). evidence_ok e \<and> \<not> check_fails (acceptance_fingerprint r) e)"
    unfolding ok acc cs by blast
  finally show ?thesis .
qed

lemma acceptance_fingerprint_common:
  assumes "\<forall>c \<in> set (dr_checked_revisions r). cv_workspace_digest c \<noteq> None"
  shows "(\<forall>c \<in> set (dr_checked_revisions r). cv_workspace_digest c = acceptance_fingerprint r) \<longleftrightarrow>
    (\<exists>d. \<forall>c \<in> set (dr_checked_revisions r). cv_workspace_digest c = d)"
proof (cases "dr_checked_revisions r")
  case (Cons first rest)
  with assms obtain d where d: "cv_workspace_digest first = Some d" by auto
  show ?thesis
  proof (cases "\<forall>c \<in> set rest. cv_workspace_digest c = Some d")
    case True
    then show ?thesis using Cons d by (simp add: acceptance_fingerprint_def)
  next
    case False
    then show ?thesis using Cons d by (auto simp: acceptance_fingerprint_def)
  qed
qed simp

lemma checked_revision_facts:
  assumes v: "result_validate hash r brief = Inr ()"
  shows "(c, receipt) \<in> set (zip (dr_checked_revisions r) (dr_check_receipts r)) \<Longrightarrow>
      \<exists>expected. hash (check_input r c) = Inr expected \<and> check_matches expected r (c, receipt)"
    and "fst ` set (zip (dr_checked_revisions r) (dr_check_receipts r)) = set (dr_checked_revisions r)"
    and "c \<in> set (dr_checked_revisions r) \<Longrightarrow> \<not> blank (cv_command c) \<and> cv_workspace_digest c \<noteq> None \<and>
      (cv_passed c \<longleftrightarrow> cv_exit_code c = Some 0)"
proof -
  let ?z = "zip (dr_checked_revisions r) (dr_check_receipts r)"
  note d = result_validateD [OF v]
  show m: "\<exists>expected. hash (check_input r c) = Inr expected \<and> check_matches expected r (c, receipt)"
    if "(c, receipt) \<in> set ?z" for c receipt
    using d(6) that pair_validateD [of hash r "(c, receipt)"] by auto
  show fst_z: "fst ` set ?z = set (dr_checked_revisions r)"
    using d(5) by (metis list.set_map map_fst_zip)
  assume "c \<in> set (dr_checked_revisions r)"
  then obtain receipt where "(c, receipt) \<in> set ?z" unfolding fst_z [symmetric] by auto
  with m show "\<not> blank (cv_command c) \<and> cv_workspace_digest c \<noteq> None \<and>
      (cv_passed c \<longleftrightarrow> cv_exit_code c = Some 0)" by (fastforce simp: check_matches_def)
qed

lemma acceptance_evidence_ok:
  assumes v: "result_validate hash r brief = Inr ()"
  shows "(\<forall>e \<in> set (acceptance_evidence r). evidence_ok e \<and> \<not> check_fails (acceptance_fingerprint r) e)
    \<longleftrightarrow> (\<forall>a \<in> set (dr_artifact_refs r). \<not> blank a) \<and>
      (\<forall>c \<in> set (dr_checked_revisions r). cv_passed c \<and> cv_workspace_digest c = acceptance_fingerprint r)"
proof -
  let ?z = "zip (dr_checked_revisions r) (dr_check_receipts r)"
  note facts = checked_revision_facts [OF v]
  have "evidence_ok (check_evidence_of p) \<and> \<not> check_fails (acceptance_fingerprint r) (check_evidence_of p)
      \<longleftrightarrow> cv_passed (fst p) \<and> cv_workspace_digest (fst p) = acceptance_fingerprint r"
    if "p \<in> set ?z" for p
  proof -
    from that facts(2) have "fst p \<in> set (dr_checked_revisions r)" by blast
    with facts(3) [of "fst p"] show ?thesis by (cases p) (auto simp: check_evidence_of_def)
  qed
  then show ?thesis unfolding facts(2) [symmetric] by (auto simp: acceptance_evidence_def ball_Un)
qed

text \<open>
  C12. A report that passes validation is accepted exactly when the worker completed, its artifact
  references name something, every check it lists passed, and all checks saw the same workspace.
  Its checks then ran on the reported revision, each with a settled receipt of this task, exit
  code 0 and the hash of that very command.
\<close>

theorem report_acceptance:
  assumes "result_validate hash r brief = Inr ()"
  shows "(accepted_completion r \<longleftrightarrow> dr_outcome r = OutcomeCompleted \<and>
      (\<forall>a \<in> set (dr_artifact_refs r). \<not> blank a) \<and>
      (\<forall>c \<in> set (dr_checked_revisions r). cv_passed c) \<and>
      (\<exists>d. \<forall>c \<in> set (dr_checked_revisions r). cv_workspace_digest c = d)) \<and>
    (accepted_completion r \<longrightarrow>
      (\<forall>(c, receipt) \<in> set (zip (dr_checked_revisions r) (dr_check_receipts r)).
        cv_revision c = dr_result_revision r \<and> tr_task_id receipt = tb_task_id brief \<and>
        tr_outcome_state receipt = ToolSettled \<and> tr_exit_code receipt = Some 0 \<and>
        hash (check_input r c) = Inr (tr_input_hash receipt)))"
proof -
  note v = result_validateD [OF assms]
  note facts = checked_revision_facts [OF assms]
  have common: "(\<forall>c \<in> set (dr_checked_revisions r). cv_workspace_digest c = acceptance_fingerprint r) \<longleftrightarrow>
    (\<exists>d. \<forall>c \<in> set (dr_checked_revisions r). cv_workspace_digest c = d)"
    using facts(3) by (intro acceptance_fingerprint_common) blast
  have nonempty: "dr_outcome r = OutcomeCompleted \<Longrightarrow> acceptance_evidence r \<noteq> []"
    using v(5,7) by (auto simp: acceptance_evidence_def)
  have iff: "accepted_completion r \<longleftrightarrow> dr_outcome r = OutcomeCompleted \<and>
      (\<forall>a \<in> set (dr_artifact_refs r). \<not> blank a) \<and>
      (\<forall>c \<in> set (dr_checked_revisions r). cv_passed c) \<and>
      (\<exists>d. \<forall>c \<in> set (dr_checked_revisions r). cv_workspace_digest c = d)"
    unfolding accepted_completion_evidence acceptance_evidence_ok [OF assms] common [symmetric]
    using nonempty by blast
  have "cv_revision c = dr_result_revision r \<and> tr_task_id receipt = tb_task_id brief \<and>
        tr_outcome_state receipt = ToolSettled \<and> tr_exit_code receipt = Some 0 \<and>
        hash (check_input r c) = Inr (tr_input_hash receipt)"
    if acc: "accepted_completion r" and z: "(c, receipt) \<in> set (zip (dr_checked_revisions r) (dr_check_receipts r))"
    for c receipt
  proof -
    from z have c: "c \<in> set (dr_checked_revisions r)" by (rule set_zip_leftD)
    from acc c iff have "cv_passed c" by blast
    with facts(1) [OF z] c v(1,4) show ?thesis by (auto simp: check_matches_def)
  qed
  with iff show ?thesis by auto
qed

definition sample_brief :: "string \<Rightarrow> task_brief" where
  "sample_brief t = \<lparr>tb_schema_version = 1, tb_task_id = t, tb_title = ''title'',
    tb_objective = ''title'', tb_acceptance_criteria = [''tests''], tb_inputs = [],
    tb_base_snapshot = ''src'', tb_base_commit = ''src'',
    tb_workspace = \<lparr>wo_project_id = ''p'', wo_worktree_id = ''w'', wo_base_commit = ''src'',
      wo_observed_fingerprint = ''f''\<rparr>,
    tb_grants = (sample_grants 5)\<lparr>dg_task_id := t\<rparr>, tb_expected_artifacts = [],
    tb_deadline_unix_ms = None, tb_role = RoleCoder\<rparr>"

definition sample_receipt :: tool_receipt where
  "sample_receipt = \<lparr>tr_schema_version = 1, tr_tool_execution_id = ''x'', tr_task_id = ''t'',
    tr_invocation_id = ''i'', tr_call_id = None, tr_input_hash = ''h'', tr_policy_revision = 1,
    tr_approval_id = None, tr_intent_state = IntentRecorded, tr_outcome_state = ToolSettled,
    tr_before_fingerprint = None, tr_after_fingerprint = Some ''f'', tr_before_hash = None,
    tr_after_hash = None, tr_exit_code = Some 0, tr_artifact_id = None, tr_observed_at_seq = 1\<rparr>"

definition sample_report :: delegated_result where
  "sample_report = \<lparr>dr_schema_version = 1, dr_result_id = ''r'', dr_task_id = ''t'',
    dr_worker = \<lparr>wr_profile_id = ''p'', wr_run_id = ''r'', wr_role = RoleCoder, wr_generation = 1\<rparr>,
    dr_outcome = OutcomeCompleted, dr_summary = ''tests'', dr_artifact_refs = [],
    dr_base_revision = ''src'', dr_result_revision = ''src'',
    dr_checked_revisions = [\<lparr>cv_command = ''cargo test'', cv_revision = ''src'', cv_passed = True,
      cv_workspace_digest = Some ''f'', cv_exit_code = Some 0, cv_artifact_id = None\<rparr>],
    dr_check_receipts = [sample_receipt],
    dr_usage = \<lparr>us_model_requests = 1, us_retries = 0\<rparr>, dr_detail = JNull\<rparr>"

lemma not_blank_r [simp]: "\<not> blank (CHR ''r'' # s)"
  by (rule not_blank_ascii) (simp_all add: byte_def)

lemma sample_report_valid: "result_validate (\<lambda>_. Inr ''h'') sample_report (sample_brief ''t'') = Inr ()"
  by (simp add: result_validate_def sample_report_def sample_brief_def delegation_contract_version_def
      pair_validate_def check_matches_def sample_receipt_def)

lemma report_acceptance_witness: "accepted_completion sample_report"
  using report_acceptance [OF sample_report_valid] by (simp add: sample_report_def)

section \<open>Spellings\<close>

text \<open>
  The spellings of roles, grant actions, task states, report outcomes and worktree states are
  read back exactly: a text is parsed to a value if and only if it is that value's spelling.
\<close>

theorem delegation_spellings_round_trip:
  "(parse_agent_role s = Some role \<longleftrightarrow> s = agent_role_str role) \<and>
   (parse_grant_action s = Some action \<longleftrightarrow> s = grant_action_str action) \<and>
   (parse_task_status s = Some status \<longleftrightarrow> s = task_status_str status) \<and>
   (parse_delegated_outcome s = Some outcome \<longleftrightarrow> s = delegated_outcome_str outcome) \<and>
   (parse_worktree_state s = Some tree \<longleftrightarrow> s = worktree_state_str tree)"
proof (intro conjI)
  show "parse_agent_role s = Some role \<longleftrightarrow> s = agent_role_str role"
    by (cases role) (auto simp: parse_agent_role_def split: if_splits)
  show "parse_grant_action s = Some action \<longleftrightarrow> s = grant_action_str action"
    by (cases action) (auto simp: parse_grant_action_def split: if_splits)
  show "parse_task_status s = Some status \<longleftrightarrow> s = task_status_str status"
    by (cases status) (auto simp: parse_task_status_def split: if_splits)
  show "parse_delegated_outcome s = Some outcome \<longleftrightarrow> s = delegated_outcome_str outcome"
    by (cases outcome) (auto simp: parse_delegated_outcome_def split: if_splits)
  show "parse_worktree_state s = Some tree \<longleftrightarrow> s = worktree_state_str tree"
    by (cases tree) (auto simp: parse_worktree_state_def split: if_splits)
qed

end
