(* ===== verification/Delegation_Store.thy ===== *)
theory Delegation_Store imports Systems Store_Core Delegation_Contracts begin

text \<open>
  The delegation tables of \<^verbatim>\<open>crates/harness-store-sqlite/src/store/delegation.rs\<close>: admitted
  tasks and their dependencies, owners, worker results, messages to a parent, charged usage and
  worktrees. They are a part of the database of their own, written under the same host fence. The
  status of a task is the text the column holds, with the \<^verbatim>\<open>CHECK\<close> of the schema; a row that
  violates it is skipped by \<^verbatim>\<open>INSERT OR IGNORE\<close> and makes any other write fail. Time stamps, and
  the readers that order by them, are left out.
\<close>

section \<open>Rows\<close>

record task_row =
  tk_task_id :: ident
  tk_parent :: "ident option"
  tk_role :: string
  tk_status :: string
  tk_revision :: nat
  tk_depth :: nat
  tk_brief :: json
  tk_node :: json

record stored_task = task_row +
  tk_depends_on :: "ident list"

record task_owner =
  ow_task_id :: ident
  ow_run_id :: ident
  ow_session_id :: ident
  ow_role :: string
  ow_generation :: nat
  ow_lease_revision :: nat

record stored_result =
  rw_result_id :: string
  rw_task_id :: ident
  rw_worker_run_id :: ident
  rw_outcome :: string
  rw_base_revision :: string
  rw_result_revision :: string
  rw_artifact_refs :: "string list"
  rw_report :: json
  rw_hash :: content_hash

record parent_delivery =
  dv_message_id :: string
  dv_sender :: ident
  dv_recipient :: ident
  dv_recipient_session :: ident
  dv_result_id :: "string option"
  dv_payload_hash :: content_hash
  dv_payload :: json
  dv_state :: string
  dv_consumed_by :: "string option"

record usage_record =
  ug_model_requests :: nat
  ug_retries :: nat
  ug_cost_units :: nat

record worktree_row =
  wt_worktree_id :: string
  wt_task_id :: ident
  wt_run_id :: ident
  wt_project_id :: ident
  wt_base_commit :: string
  wt_base_branch :: string
  wt_branch :: string
  wt_path :: string
  wt_write_scope :: "string list"
  wt_state :: string
  wt_input_fingerprint :: content_hash
  wt_result_fingerprint :: "content_hash option"
  wt_generation :: nat

record tables =
  dt_tasks :: "task_row list"
  dt_dependencies :: "(ident \<times> ident) list"
  dt_owners :: "task_owner list"
  dt_results :: "stored_result list"
  dt_deliveries :: "parent_delivery list"
  dt_attempts :: "string \<Rightarrow> nat"
  dt_usage :: "(ident \<times> usage_record) list"
  dt_worktrees :: "worktree_row list"

definition empty_tables :: tables where
  "empty_tables = \<lparr>dt_tasks = [], dt_dependencies = [], dt_owners = [], dt_results = [],
    dt_deliveries = [], dt_attempts = (\<lambda>_. 0), dt_usage = [], dt_worktrees = []\<rparr>"

definition task_statuses :: "string list" where
  "task_statuses = [''pending'', ''ready'', ''running'', ''blocked'', ''completed'', ''failed'', ''canceled'']"

definition task_checks :: "string \<Rightarrow> nat \<Rightarrow> bool" where
  "task_checks status revision \<longleftrightarrow> status \<in> set task_statuses \<and> 1 \<le> revision"

abbreviation task_of :: "tables \<Rightarrow> ident \<Rightarrow> task_row option" where
  "task_of T t \<equiv> sel (\<lambda>r. tk_task_id r = t) (dt_tasks T)"

abbreviation owner_row :: "tables \<Rightarrow> ident \<Rightarrow> task_owner option" where
  "owner_row T t \<equiv> sel (\<lambda>r. ow_task_id r = t) (dt_owners T)"

abbreviation result_of :: "tables \<Rightarrow> string \<Rightarrow> stored_result option" where
  "result_of T i \<equiv> sel (\<lambda>r. rw_result_id r = i) (dt_results T)"

abbreviation delivery_of :: "tables \<Rightarrow> string \<Rightarrow> parent_delivery option" where
  "delivery_of T i \<equiv> sel (\<lambda>r. dv_message_id r = i) (dt_deliveries T)"

section \<open>Inserts\<close>

definition insert_task :: "stored_task \<Rightarrow> tables \<Rightarrow> tables res" where
  "insert_task t T = bind_res (to_i64 (tk_revision t)) (\<lambda>revision.
    if task_of T (tk_task_id t) \<noteq> None \<or> \<not> task_checks (tk_status t) revision
    then Inl DuplicateTaskId
    else Inr (T\<lparr>dt_tasks := dt_tasks T @ [task_row.truncate t],
      dt_dependencies := fold (\<lambda>d ds. if (tk_task_id t, d) \<in> set ds then ds else ds @ [(tk_task_id t, d)])
        (tk_depends_on t) (dt_dependencies T)\<rparr>))"

definition upsert_owner :: "task_owner \<Rightarrow> tables \<Rightarrow> tables" where
  "upsert_owner ow T = T\<lparr>dt_owners := (if owner_row T (ow_task_id ow) = None then dt_owners T @ [ow]
    else upd (\<lambda>r. ow_task_id r = ow_task_id ow) (\<lambda>_. ow) (dt_owners T))\<rparr>"

definition insert_owner :: "task_owner \<Rightarrow> tables \<Rightarrow> tables res" where
  "insert_owner ow T = bind_res (to_i64 (ow_generation ow)) (\<lambda>generation.
    bind_res (to_i64 (ow_lease_revision ow)) (\<lambda>lease.
      if generation < 1 \<or> lease < 1 \<or> task_of T (ow_task_id ow) = None then Inl StorageWriteFailed
      else Inr (upsert_owner ow T)))"

definition insert_result :: "stored_result \<Rightarrow> tables \<Rightarrow> tables res" where
  "insert_result r T = (case result_of T (rw_result_id r) of
      Some existing \<Rightarrow> if rw_hash existing \<noteq> rw_hash r then Inl DeliveryConflict else Inr T
    | None \<Rightarrow> if task_of T (rw_task_id r) = None then Inl StorageWriteFailed
        else Inr (T\<lparr>dt_results := dt_results T @ [r]\<rparr>))"

definition insert_delivery :: "parent_delivery \<Rightarrow> tables \<Rightarrow> tables res" where
  "insert_delivery m T =
    (if dv_state m = ''consumed'' then Inl DeliveryConflict
     else case delivery_of T (dv_message_id m) of
       Some existing \<Rightarrow> if dv_payload_hash existing \<noteq> dv_payload_hash m then Inl DeliveryConflict else Inr T
     | None \<Rightarrow> Inr (T\<lparr>dt_deliveries := dt_deliveries T @
         [m\<lparr>dv_state := ''pending'', dv_consumed_by := None\<rparr>]\<rparr>))"

section \<open>Operations\<close>

text \<open>The part of a transaction after the fence checks; the last argument is the tables.\<close>

type_synonym 'a task_body = "tables \<Rightarrow> ('a \<times> tables) res"

definition admit_one :: "stored_task \<times> task_owner option \<Rightarrow> tables \<Rightarrow> tables res" where
  "admit_one a T = bind_res (insert_task (fst a) T) (\<lambda>T'.
    case snd a of None \<Rightarrow> Inr T' | Some ow \<Rightarrow> insert_owner ow T')"

fun admit_each :: "(stored_task \<times> task_owner option) list \<Rightarrow> tables \<Rightarrow> tables res" where
  "admit_each [] T = Inr T"
| "admit_each (a # as) T = bind_res (admit_one a T) (admit_each as)"

definition admit_task_body :: "stored_task \<times> task_owner option \<Rightarrow> unit task_body" where
  "admit_task_body a T = bind_res (admit_one a T) (\<lambda>T'. Inr ((), T'))"

definition admit_graph_body :: "(stored_task \<times> task_owner option) list \<Rightarrow> unit task_body" where
  "admit_graph_body as T = bind_res (admit_each as T) (\<lambda>T'. Inr ((), T'))"

definition claim_task_body :: "task_owner \<Rightarrow> nat \<Rightarrow> nat task_body" where
  "claim_task_body ow expected T =
    (let conflict = (case owner_row T (ow_task_id ow) of
        None \<Rightarrow> False
      | Some r \<Rightarrow> ow_generation r > ow_generation ow
          \<or> (ow_generation r = ow_generation ow \<and> ow_run_id r \<noteq> ow_run_id ow))
     in if conflict then Inl TaskOwnershipConflict
        else case task_of T (ow_task_id ow) of
          None \<Rightarrow> Inl TaskNotFound
        | Some t \<Rightarrow>
            if tk_status t = ''completed'' then Inl TaskOwnershipConflict
            else if tk_revision t \<noteq> expected then Inl SequenceConflict
            else bind_res (insert_owner ow T) (\<lambda>T1.
              let next = saturating_add u64_max (tk_revision t) 1;
                  status = (if tk_status t = ''pending'' then ''ready'' else tk_status t)
              in bind_res (to_i64 next) (\<lambda>n.
                Inr (next, T1\<lparr>dt_tasks := upd (\<lambda>r. tk_task_id r = ow_task_id ow)
                  (\<lambda>r. r\<lparr>tk_revision := n, tk_status := status\<rparr>) (dt_tasks T1)\<rparr>))))"

record delivery_commit =
  dc_transition :: stored_task
  dc_result :: "stored_result option"
  dc_delivery :: parent_delivery
  dc_usage :: "usage_record option"

definition charge_usage :: "ident \<Rightarrow> usage_record \<Rightarrow> tables \<Rightarrow> tables res" where
  "charge_usage t u T = bind_res (to_i64 (ug_cost_units u)) (\<lambda>cost.
    Inr (T\<lparr>dt_usage := (case map_of (dt_usage T) t of
        None \<Rightarrow> dt_usage T @ [(t, u)]
      | Some _ \<Rightarrow> map (\<lambda>(k, v). if k = t then
          (k, \<lparr>ug_model_requests = ug_model_requests v + ug_model_requests u,
            ug_retries = ug_retries v + ug_retries u, ug_cost_units = ug_cost_units v + cost\<rparr>)
          else (k, v)) (dt_usage T))\<rparr>))"

definition set_task :: "stored_task \<Rightarrow> tables \<Rightarrow> tables res" where
  "set_task t T = bind_res (to_i64 (tk_revision t)) (\<lambda>revision.
    if \<not> task_checks (tk_status t) revision then Inl StorageWriteFailed
    else Inr (T\<lparr>dt_tasks := upd (\<lambda>r. tk_task_id r = tk_task_id t)
      (\<lambda>r. r\<lparr>tk_status := tk_status t, tk_revision := revision, tk_node := tk_node t\<rparr>) (dt_tasks T)\<rparr>))"

definition commit_delivery_body :: "delivery_commit \<Rightarrow> unit task_body" where
  "commit_delivery_body c T =
    (let t = dc_transition c in
     case task_of T (tk_task_id t) of
       None \<Rightarrow> Inl TaskNotFound
     | Some current \<Rightarrow>
         if tk_status current = ''completed'' \<and> tk_status t \<noteq> ''completed'' then Inl InvalidStateTransition
         else bind_res (case dc_result c of None \<Rightarrow> Inr T | Some r \<Rightarrow> insert_result r T) (\<lambda>T1.
           bind_res (set_task t T1) (\<lambda>T2.
           bind_res (insert_delivery (dc_delivery c) T2) (\<lambda>T3.
           bind_res (case dc_usage c of None \<Rightarrow> Inr T3 | Some u \<Rightarrow> charge_usage (tk_task_id t) u T3) (\<lambda>T4.
           Inr ((), T4))))))"

definition consume_delivery_body :: "string \<Rightarrow> string \<Rightarrow> bool task_body" where
  "consume_delivery_body message consumer T =
    (case delivery_of T message of
      None \<Rightarrow> Inl DeliveryConflict
    | Some m \<Rightarrow>
        if dv_state m = ''pending'' then
          Inr (True, T\<lparr>dt_deliveries := upd (\<lambda>r. dv_message_id r = message \<and> dv_state r = ''pending'')
              (\<lambda>r. r\<lparr>dv_state := ''consumed'', dv_consumed_by := Some consumer\<rparr>) (dt_deliveries T),
            dt_attempts := (dt_attempts T)(message := dt_attempts T message + 1)\<rparr>)
        else Inr (False, T))"

definition assert_owner :: "ident \<Rightarrow> ident \<Rightarrow> nat \<Rightarrow> tables \<Rightarrow> unit res" where
  "assert_owner task run generation T = (case owner_row T task of
      None \<Rightarrow> Inl TaskOwnershipConflict
    | Some ow \<Rightarrow> if ow_run_id ow \<noteq> run \<or> ow_generation ow \<noteq> generation then Inl TaskOwnershipConflict
        else Inr ())"

definition read_task_revision :: "ident \<Rightarrow> tables \<Rightarrow> nat res" where
  "read_task_revision task T = (case task_of T task of None \<Rightarrow> Inl TaskNotFound | Some r \<Rightarrow> Inr (tk_revision r))"

definition mark_running_body :: "ident \<Rightarrow> ident \<Rightarrow> nat \<Rightarrow> nat task_body" where
  "mark_running_body task run generation T =
    bind_res (assert_owner task run generation T) (\<lambda>_.
    bind_res (read_task_revision task T) (\<lambda>revision.
      let next = saturating_add u64_max revision 1 in
      bind_res (to_i64 next) (\<lambda>n.
        Inr (next, T\<lparr>dt_tasks := upd (\<lambda>r. tk_task_id r = task)
          (\<lambda>r. r\<lparr>tk_status := ''running'', tk_revision := n\<rparr>) (dt_tasks T)\<rparr>))))"

definition upsert_worktree_body :: "worktree_row \<Rightarrow> unit task_body" where
  "upsert_worktree_body w T = bind_res (to_i64 (wt_generation w)) (\<lambda>generation.
    if generation < 1 then Inl StorageWriteFailed
    else if \<exists>r \<in> set (dt_worktrees T). wt_worktree_id r = wt_worktree_id w then
      Inr ((), T\<lparr>dt_worktrees := upd (\<lambda>r. wt_worktree_id r = wt_worktree_id w)
        (\<lambda>r. r\<lparr>wt_state := wt_state w, wt_result_fingerprint := wt_result_fingerprint w,
          wt_path := wt_path w\<rparr>) (dt_worktrees T)\<rparr>)
    else if \<exists>r \<in> set (dt_worktrees T). wt_branch r = wt_branch w then Inl StorageWriteFailed
    else Inr ((), T\<lparr>dt_worktrees := dt_worktrees T @ [w]\<rparr>))"

section \<open>Transactions\<close>

text \<open>
  A write runs under the fence of its handle, like every write of the store; \<open>armed\<close> is the fault
  point before its commit, if it has one. The pair of the result is the database afterwards: the
  faults still planned and the tables.
\<close>

definition task_tx ::
  "fault_point option \<Rightarrow> 'a task_body \<Rightarrow> store \<Rightarrow> tables \<Rightarrow> 'a res \<times> fault_point set \<times> tables" where
  "task_tx armed body s T =
    (case fence s of
      Inl e \<Rightarrow> (Inl e, s_faults s, T)
    | Inr f \<Rightarrow> (case begin_write f (s_db s) of
        Inl e \<Rightarrow> (Inl e, s_faults s, T)
      | Inr _ \<Rightarrow> (case assert_fence_in_tx f (s_db s) of
          Inl e \<Rightarrow> (Inl e, s_faults s, T)
        | Inr _ \<Rightarrow> (case body T of
            Inl e \<Rightarrow> (Inl e, s_faults s, T)
          | Inr (a, T') \<Rightarrow> (case armed of
              None \<Rightarrow> (Inr a, s_faults s, T')
            | Some p \<Rightarrow> (case consume p (s_faults s) of (hit, points) \<Rightarrow>
                if hit then (Inl StorageWriteFailed, points, T) else (Inr a, points, T')))))))"

definition admit_task where "admit_task a = task_tx None (admit_task_body a)"

definition admit_task_graph where
  "admit_task_graph as s T =
    (if as = [] then (Inl InvalidPayload, s_faults s, T) else task_tx None (admit_graph_body as) s T)"

definition claim_owned_task where "claim_owned_task ow expected = task_tx None (claim_task_body ow expected)"

definition commit_delivery where
  "commit_delivery c = task_tx (Some BeforeDelegationDeliveryCommit) (commit_delivery_body c)"

definition consume_delivery where
  "consume_delivery message consumer = task_tx None (consume_delivery_body message consumer)"

definition mark_task_running where
  "mark_task_running task run generation = task_tx None (mark_running_body task run generation)"

definition upsert_worktree where "upsert_worktree w = task_tx None (upsert_worktree_body w)"

section \<open>Readers\<close>

definition json_strings :: "json option \<Rightarrow> string list" where
  "json_strings v = (case v of
      Some (JArr vs) \<Rightarrow> concat (map (\<lambda>x. case x of JStr t \<Rightarrow> [t] | _ \<Rightarrow> []) vs)
    | _ \<Rightarrow> [])"

text \<open>\<open>parse\<close> is \<^verbatim>\<open>TaskId::parse\<close>, whose format check is that of the \<^verbatim>\<open>uuid\<close> crate.\<close>

definition read_task_row :: "(string \<Rightarrow> ident res) \<Rightarrow> task_row \<Rightarrow> stored_task res" where
  "read_task_row parse r = bind_res (collect_res (map parse (json_strings (json_get ''depends_on'' (tk_node r)))))
    (\<lambda>depends. if u32_max < tk_depth r then Inl StorageWriteFailed
      else Inr (task_row.extend r \<lparr>tk_depends_on = depends\<rparr>))"

definition read_task_node :: "(string \<Rightarrow> ident res) \<Rightarrow> tables \<Rightarrow> ident \<Rightarrow> stored_task option res" where
  "read_task_node parse T t = (case task_of T t of
      None \<Rightarrow> Inr None
    | Some r \<Rightarrow> (case read_task_row parse r of Inl e \<Rightarrow> Inl e | Inr x \<Rightarrow> Inr (Some x)))"

definition task_owner_of :: "tables \<Rightarrow> ident \<Rightarrow> task_owner option" where
  "task_owner_of T t = owner_row T t"

definition delivery :: "tables \<Rightarrow> string \<Rightarrow> parent_delivery option" where
  "delivery T i = delivery_of T i"

definition worktree :: "tables \<Rightarrow> string \<Rightarrow> worktree_row option" where
  "worktree T i = sel (\<lambda>r. wt_worktree_id r = i) (dt_worktrees T)"

definition delegation_task_count :: "tables \<Rightarrow> nat" where
  "delegation_task_count T = length (dt_tasks T)"

section \<open>What the tables keep\<close>

definition tables_ok :: "tables \<Rightarrow> bool" where
  "tables_ok T \<longleftrightarrow> keyed tk_task_id (dt_tasks T) \<and> keyed ow_task_id (dt_owners T) \<and>
    keyed rw_result_id (dt_results T) \<and> keyed dv_message_id (dt_deliveries T) \<and>
    keyed wt_worktree_id (dt_worktrees T) \<and> keyed wt_branch (dt_worktrees T) \<and>
    (\<forall>r \<in> set (dt_tasks T). task_checks (tk_status r) (tk_revision r)) \<and>
    (\<forall>r \<in> set (dt_owners T). task_of T (ow_task_id r) \<noteq> None) \<and>
    (\<forall>r \<in> set (dt_results T). task_of T (rw_task_id r) \<noteq> None) \<and>
    (\<forall>m \<in> set (dt_deliveries T). dv_state m = ''pending'' \<and> dv_consumed_by m = None \<or>
      dv_state m = ''consumed'' \<and> dv_consumed_by m \<noteq> None)"

text \<open>How each table may change: nothing is lost, and what identifies a row stays.\<close>

definition task_same :: "task_row \<Rightarrow> task_row \<Rightarrow> bool" where
  "task_same r r' \<longleftrightarrow> tk_task_id r' = tk_task_id r \<and> tk_parent r' = tk_parent r \<and>
    tk_role r' = tk_role r \<and> tk_depth r' = tk_depth r \<and> tk_brief r' = tk_brief r"

definition delivery_later :: "parent_delivery \<Rightarrow> parent_delivery \<Rightarrow> bool" where
  "delivery_later m m' \<longleftrightarrow> m' = m \<or> dv_state m = ''pending'' \<and>
    (\<exists>c. m' = m\<lparr>dv_state := ''consumed'', dv_consumed_by := Some c\<rparr>)"

definition wt_identity :: "worktree_row \<Rightarrow> worktree_row" where
  "wt_identity w = w\<lparr>wt_state := [], wt_result_fingerprint := None, wt_path := []\<rparr>"

definition worktree_later :: "worktree_row \<Rightarrow> worktree_row \<Rightarrow> bool" where
  "worktree_later w w' \<longleftrightarrow> wt_identity w' = wt_identity w"

definition owner_later :: "task_owner \<Rightarrow> task_owner \<Rightarrow> bool" where
  "owner_later r r' \<longleftrightarrow> ow_generation r < ow_generation r' \<or>
    ow_generation r = ow_generation r' \<and> ow_run_id r = ow_run_id r'"

definition rows_later :: "('r \<Rightarrow> 'k) \<Rightarrow> ('r \<Rightarrow> 'r \<Rightarrow> bool) \<Rightarrow> 'r list \<Rightarrow> 'r list \<Rightarrow> bool" where
  "rows_later k R t t' \<longleftrightarrow>
    (\<forall>a r. sel (\<lambda>x. k x = a) t = Some r \<longrightarrow> (\<exists>r'. sel (\<lambda>x. k x = a) t' = Some r' \<and> R r r'))"

definition tables_later :: "tables \<Rightarrow> tables \<Rightarrow> bool" where
  "tables_later T T' \<longleftrightarrow> rows_later tk_task_id task_same (dt_tasks T) (dt_tasks T') \<and>
    rows_later ow_task_id owner_later (dt_owners T) (dt_owners T') \<and>
    rows_later rw_result_id (\<lambda>r r'. r' = r) (dt_results T) (dt_results T') \<and>
    rows_later dv_message_id delivery_later (dt_deliveries T) (dt_deliveries T') \<and>
    rows_later wt_worktree_id worktree_later (dt_worktrees T) (dt_worktrees T')"

lemma rows_later_refl: "(\<And>r. R r r) \<Longrightarrow> rows_later k R t t"
  by (auto simp: rows_later_def)

lemma rows_later_trans:
  assumes "rows_later k R t u" and "rows_later k R u v" and "\<And>x y z. R x y \<Longrightarrow> R y z \<Longrightarrow> R x z"
  shows "rows_later k R t v"
  unfolding rows_later_def
proof (intro allI impI)
  fix a r assume "sel (\<lambda>x. k x = a) t = Some r"
  with assms(1) obtain r' where r': "sel (\<lambda>x. k x = a) u = Some r'" "R r r'"
    unfolding rows_later_def by blast
  with assms(2) obtain r'' where "sel (\<lambda>x. k x = a) v = Some r''" "R r' r''"
    unfolding rows_later_def by blast
  with assms(3) [OF r'(2)] show "\<exists>r''. sel (\<lambda>x. k x = a) v = Some r'' \<and> R r r''" by blast
qed

lemma rows_later_snoc: "(\<And>r. R r r) \<Longrightarrow> rows_later k R t (t @ [r])"
  by (auto simp: rows_later_def sel_append)

lemma rows_later_upd:
  assumes "\<And>r. k (f r) = k r" and "\<And>r. R r r" and "\<And>r. r \<in> set t \<Longrightarrow> P r \<Longrightarrow> R r (f r)"
  shows "rows_later k R t (upd P f t)"
proof -
  have "sel (\<lambda>x. k x = a) (upd P f t) = map_option (\<lambda>r. if P r then f r else r) (sel (\<lambda>x. k x = a) t)" for a
    by (rule sel_upd) (simp add: assms(1))
  with assms(2,3) show ?thesis by (auto simp: rows_later_def dest: sel_SomeD)
qed

lemma rows_later_known: "rows_later k R t t' \<Longrightarrow> sel (\<lambda>x. k x = a) t \<noteq> None \<Longrightarrow> sel (\<lambda>x. k x = a) t' \<noteq> None"
  unfolding rows_later_def by fastforce

lemma task_same_refl [simp]: "task_same r r"
  and delivery_later_refl [simp]: "delivery_later m m"
  and worktree_later_refl [simp]: "worktree_later w w"
  and owner_later_refl [simp]: "owner_later ow ow"
  by (simp_all add: task_same_def delivery_later_def worktree_later_def owner_later_def)

lemma delivery_later_trans: "delivery_later x y \<Longrightarrow> delivery_later y z \<Longrightarrow> delivery_later x z"
  by (auto simp: delivery_later_def)

lemma worktree_later_trans: "worktree_later x y \<Longrightarrow> worktree_later y z \<Longrightarrow> worktree_later x z"
  by (auto simp: worktree_later_def)

lemma owner_later_trans: "owner_later x y \<Longrightarrow> owner_later y z \<Longrightarrow> owner_later x z"
  by (auto simp: owner_later_def)

lemma tables_later_refl [simp]: "tables_later T T"
  by (simp add: tables_later_def rows_later_refl)

lemma tables_later_trans:
  assumes "tables_later T U" and "tables_later U V"
  shows "tables_later T V"
  using assms unfolding tables_later_def
  by (auto elim!: rows_later_trans intro: delivery_later_trans worktree_later_trans owner_later_trans simp: task_same_def)

definition good :: "tables \<Rightarrow> tables \<Rightarrow> bool" where
  "good T T' \<longleftrightarrow> tables_ok T' \<and> tables_later T T'"

lemma good_refl: "tables_ok T \<Longrightarrow> good T T"
  by (simp add: good_def)

lemma good_trans: "good T U \<Longrightarrow> good U V \<Longrightarrow> good T V"
  using tables_later_trans by (auto simp: good_def)

lemma good_ok: "good T U \<Longrightarrow> tables_ok U"
  by (simp add: good_def)

lemma tables_frame [simp]:
  "tables_ok (T\<lparr>dt_dependencies := d\<rparr>) = tables_ok T" "tables_ok (T\<lparr>dt_attempts := f\<rparr>) = tables_ok T"
  "tables_ok (T\<lparr>dt_usage := u\<rparr>) = tables_ok T"
  "tables_later T (U\<lparr>dt_dependencies := d\<rparr>) = tables_later T U"
  "tables_later T (U\<lparr>dt_attempts := f\<rparr>) = tables_later T U"
  "tables_later T (U\<lparr>dt_usage := u\<rparr>) = tables_later T U"
  by (simp_all add: tables_ok_def tables_later_def)

lemma good_tasks:
  assumes "tables_ok T" and "keyed tk_task_id ts" and "\<forall>r \<in> set ts. task_checks (tk_status r) (tk_revision r)"
    and later: "rows_later tk_task_id task_same (dt_tasks T) ts"
  shows "good T (T\<lparr>dt_tasks := ts\<rparr>)"
proof -
  have "sel (\<lambda>r. tk_task_id r = a) ts \<noteq> None" if "task_of T a \<noteq> None" for a
    using rows_later_known [OF later that] .
  with assms show ?thesis
    by (simp add: good_def tables_ok_def tables_later_def rows_later_refl)
qed

lemma good_owners:
  assumes "tables_ok T" and "keyed ow_task_id os" and "\<forall>r \<in> set os. task_of T (ow_task_id r) \<noteq> None"
    and "rows_later ow_task_id owner_later (dt_owners T) os"
  shows "good T (T\<lparr>dt_owners := os\<rparr>)"
  using assms by (simp add: good_def tables_ok_def tables_later_def rows_later_refl)

lemma good_deliveries:
  assumes "tables_ok T" and "keyed dv_message_id ms"
    and "\<forall>m \<in> set ms. dv_state m = ''pending'' \<and> dv_consumed_by m = None \<or>
      dv_state m = ''consumed'' \<and> dv_consumed_by m \<noteq> None"
    and "rows_later dv_message_id delivery_later (dt_deliveries T) ms"
  shows "good T (T\<lparr>dt_deliveries := ms\<rparr>)"
  using assms by (simp add: good_def tables_ok_def tables_later_def rows_later_refl)

lemma good_worktrees:
  assumes "tables_ok T" and "keyed wt_worktree_id ws" and "keyed wt_branch ws"
    and "rows_later wt_worktree_id worktree_later (dt_worktrees T) ws"
  shows "good T (T\<lparr>dt_worktrees := ws\<rparr>)"
  using assms by (simp add: good_def tables_ok_def tables_later_def rows_later_refl)

lemma keyed_snoc_new: "keyed k t \<Longrightarrow> sel (\<lambda>x. k x = k r) t = None \<Longrightarrow> keyed k (t @ [r])"
  by (auto simp: keyed_snoc sel_None)

lemma good_upd_task:
  assumes "tables_ok T" and "\<And>r. task_same r (f r)"
    and "\<And>r. r \<in> set (dt_tasks T) \<Longrightarrow> P r \<Longrightarrow> task_checks (tk_status (f r)) (tk_revision (f r))"
  shows "good T (T\<lparr>dt_tasks := upd P f (dt_tasks T)\<rparr>)"
proof (rule good_tasks [OF assms(1)])
  have k: "tk_task_id (f r) = tk_task_id r" for r using assms(2) by (simp add: task_same_def)
  with assms(1) show "keyed tk_task_id (upd P f (dt_tasks T))" by (simp add: tables_ok_def)
  show "rows_later tk_task_id task_same (dt_tasks T) (upd P f (dt_tasks T))"
    using k assms(2) by (intro rows_later_upd) simp_all
  show "\<forall>r \<in> set (upd P f (dt_tasks T)). task_checks (tk_status r) (tk_revision r)"
    using assms(1,3) by (auto simp: set_upd tables_ok_def)
qed

lemma truncate_fields [simp]:
  "tk_task_id (task_row.truncate t) = tk_task_id t" "tk_status (task_row.truncate t) = tk_status t"
  "tk_revision (task_row.truncate t) = tk_revision t" "tk_node (task_row.truncate t) = tk_node t"
  by (simp_all add: task_row.truncate_def)

lemma insert_task_good:
  assumes "insert_task t T = Inr U" and "tables_ok T"
  shows "good T U" and "task_of T (tk_task_id t) = None" and "task_of U (tk_task_id t) = Some (task_row.truncate t)"
    and "dt_owners U = dt_owners T"
proof -
  from assms(1) have new: "task_of T (tk_task_id t) = None" and c: "task_checks (tk_status t) (tk_revision t)"
    and U: "\<exists>ds. U = T\<lparr>dt_tasks := dt_tasks T @ [task_row.truncate t], dt_dependencies := ds\<rparr>"
    by (auto simp: insert_task_def bind_res_Inr split: if_splits)
  from U obtain ds where U: "U = T\<lparr>dt_tasks := dt_tasks T @ [task_row.truncate t], dt_dependencies := ds\<rparr>"
    by blast
  have "good T (T\<lparr>dt_tasks := dt_tasks T @ [task_row.truncate t]\<rparr>)"
    using assms(2) new c by (intro good_tasks rows_later_snoc keyed_snoc_new) (auto simp: tables_ok_def)
  with U show "good T U" by (simp add: good_def)
  show "task_of T (tk_task_id t) = None" by (rule new)
  from new U show "task_of U (tk_task_id t) = Some (task_row.truncate t)" by (simp add: sel_append sel_Cons)
  from U show "dt_owners U = dt_owners T" by simp
qed

lemma upsert_owner_row: "owner_row (upsert_owner ow T) (ow_task_id ow) = Some ow"
proof (cases "owner_row T (ow_task_id ow)")
  case None
  then show ?thesis by (simp add: upsert_owner_def sel_append sel_Cons)
next
  case (Some r)
  have "sel (\<lambda>r. ow_task_id r = ow_task_id ow) (upd (\<lambda>r. ow_task_id r = ow_task_id ow) (\<lambda>_. ow) t) =
      (if sel (\<lambda>r. ow_task_id r = ow_task_id ow) t = None then None else Some ow)" for t
    by (induction t) (auto simp: sel_Cons upd_Cons)
  with Some show ?thesis by (simp add: upsert_owner_def)
qed

lemma insert_owner_good:
  assumes "insert_owner ow T = Inr U" and "tables_ok T"
    and "\<And>r. owner_row T (ow_task_id ow) = Some r \<Longrightarrow> owner_later r ow"
  shows "good T U" and "U = upsert_owner ow T"
proof -
  from assms(1) have task: "task_of T (ow_task_id ow) \<noteq> None" and U: "U = upsert_owner ow T"
    by (auto simp: insert_owner_def bind_res_Inr split: if_splits)
  show "good T U"
  proof (cases "owner_row T (ow_task_id ow)")
    case None
    with U have "U = T\<lparr>dt_owners := dt_owners T @ [ow]\<rparr>" by (simp add: upsert_owner_def)
    moreover have "good T (T\<lparr>dt_owners := dt_owners T @ [ow]\<rparr>)"
      using assms(2) None task by (intro good_owners rows_later_snoc keyed_snoc_new) (auto simp: tables_ok_def)
    ultimately show ?thesis by simp
  next
    case (Some r)
    let ?P = "\<lambda>r. ow_task_id r = ow_task_id ow"
    let ?f = "\<lambda>r. if ?P r then ow else r"
    have eq: "upd ?P (\<lambda>_. ow) (dt_owners T) = upd ?P ?f (dt_owners T)" by (simp add: upd_def)
    have key: "ow_task_id (?f x) = ow_task_id x" for x by simp
    have old: "owner_later x (?f x)" if "x \<in> set (dt_owners T)" "?P x" for x
    proof -
      from assms(2) that(1) have "owner_row T (ow_task_id x) = Some x"
        by (intro sel_keyed) (simp add: tables_ok_def)
      with that(2) assms(3) show ?thesis by simp
    qed
    have "good T (T\<lparr>dt_owners := upd ?P ?f (dt_owners T)\<rparr>)"
    proof (rule good_owners [OF assms(2)])
      show "keyed ow_task_id (upd ?P ?f (dt_owners T))" using assms(2) key by (simp add: tables_ok_def)
      show "\<forall>r \<in> set (upd ?P ?f (dt_owners T)). task_of T (ow_task_id r) \<noteq> None"
        using assms(2) task by (auto simp: set_upd tables_ok_def)
      show "rows_later ow_task_id owner_later (dt_owners T)
          (upd ?P ?f (dt_owners T))"
        by (rule rows_later_upd) (use key old in auto)
    qed
    with U Some eq show ?thesis by (simp add: upsert_owner_def)
  qed
  show "U = upsert_owner ow T" by (rule U)
qed

lemma insert_result_good:
  assumes "insert_result r T = Inr U" and "tables_ok T"
  shows "good T U" and "\<exists>x. result_of U (rw_result_id r) = Some x \<and> rw_hash x = rw_hash r"
    and "dt_tasks U = dt_tasks T"
proof -
  have *: "good T U \<and> (\<exists>x. result_of U (rw_result_id r) = Some x \<and> rw_hash x = rw_hash r) \<and>
    dt_tasks U = dt_tasks T"
  proof (cases "result_of T (rw_result_id r)")
    case None
    with assms(1) have task: "task_of T (rw_task_id r) \<noteq> None"
      and U: "U = T\<lparr>dt_results := dt_results T @ [r]\<rparr>"
      by (auto simp: insert_result_def split: if_splits)
    have "rows_later rw_result_id (\<lambda>r r'. r' = r) (dt_results T) (dt_results T @ [r])"
      by (rule rows_later_snoc) simp
    moreover from assms(2) None have "keyed rw_result_id (dt_results T @ [r])"
      by (intro keyed_snoc_new) (simp_all add: tables_ok_def)
    ultimately have "good T U" using assms(2) task
      by (simp add: U good_def tables_ok_def tables_later_def rows_later_refl)
    with U None show ?thesis by (simp add: sel_append sel_Cons)
  next
    case (Some x)
    with assms show ?thesis by (auto simp: insert_result_def good_refl split: if_splits)
  qed
  then show "good T U" and "\<exists>x. result_of U (rw_result_id r) = Some x \<and> rw_hash x = rw_hash r"
    and "dt_tasks U = dt_tasks T"
    by blast+
qed

lemma insert_delivery_good:
  assumes "insert_delivery m T = Inr U" and "tables_ok T"
  shows "good T U" and "\<exists>x. delivery_of U (dv_message_id m) = Some x \<and> dv_payload_hash x = dv_payload_hash m"
    and "dt_tasks U = dt_tasks T" and "dt_results U = dt_results T"
proof -
  let ?m = "m\<lparr>dv_state := ''pending'', dv_consumed_by := None\<rparr>"
  have *: "good T U \<and> (\<exists>x. delivery_of U (dv_message_id m) = Some x \<and> dv_payload_hash x = dv_payload_hash m)
    \<and> dt_tasks U = dt_tasks T \<and> dt_results U = dt_results T"
  proof (cases "delivery_of T (dv_message_id m)")
    case None
    with assms(1) have U: "U = T\<lparr>dt_deliveries := dt_deliveries T @ [?m]\<rparr>"
      by (auto simp: insert_delivery_def split: if_splits)
    have "good T (T\<lparr>dt_deliveries := dt_deliveries T @ [?m]\<rparr>)"
      using assms(2) None by (intro good_deliveries rows_later_snoc keyed_snoc_new) (auto simp: tables_ok_def)
    with U None show ?thesis by (simp add: sel_append sel_Cons)
  next
    case (Some x)
    with assms show ?thesis by (auto simp: insert_delivery_def good_refl split: if_splits)
  qed
  then show "good T U"
    and "\<exists>x. delivery_of U (dv_message_id m) = Some x \<and> dv_payload_hash x = dv_payload_hash m"
    and "dt_tasks U = dt_tasks T" and "dt_results U = dt_results T"
    by blast+
qed

lemma set_task_good:
  assumes "set_task t T = Inr U" and "tables_ok T"
  shows "good T U" and "U = T\<lparr>dt_tasks := upd (\<lambda>r. tk_task_id r = tk_task_id t)
    (\<lambda>r. r\<lparr>tk_status := tk_status t, tk_revision := tk_revision t, tk_node := tk_node t\<rparr>) (dt_tasks T)\<rparr>"
proof -
  from assms(1) have c: "task_checks (tk_status t) (tk_revision t)"
    and U: "U = T\<lparr>dt_tasks := upd (\<lambda>r. tk_task_id r = tk_task_id t)
      (\<lambda>r. r\<lparr>tk_status := tk_status t, tk_revision := tk_revision t, tk_node := tk_node t\<rparr>) (dt_tasks T)\<rparr>"
    by (auto simp: set_task_def bind_res_Inr split: if_splits)
  show "good T U" unfolding U using assms(2) c by (intro good_upd_task) (simp_all add: task_same_def)
  show "U = T\<lparr>dt_tasks := upd (\<lambda>r. tk_task_id r = tk_task_id t)
      (\<lambda>r. r\<lparr>tk_status := tk_status t, tk_revision := tk_revision t, tk_node := tk_node t\<rparr>) (dt_tasks T)\<rparr>"
    by (rule U)
qed

lemma charge_usage_good:
  assumes "charge_usage t u T = Inr U" and "tables_ok T"
  shows "good T U" and "dt_tasks U = dt_tasks T" and "dt_results U = dt_results T"
    and "dt_deliveries U = dt_deliveries T"
proof -
  from assms(1) obtain us where "U = T\<lparr>dt_usage := us\<rparr>"
    by (auto simp: charge_usage_def bind_res_Inr)
  with assms(2) show "good T U" "dt_tasks U = dt_tasks T" "dt_results U = dt_results T"
    "dt_deliveries U = dt_deliveries T"
    by (simp_all add: good_def)
qed

text \<open>An admission whose owner, if it has one, owns the task it admits.\<close>

definition own_admission :: "stored_task \<times> task_owner option \<Rightarrow> bool" where
  "own_admission a \<longleftrightarrow> (\<forall>ow. snd a = Some ow \<longrightarrow> ow_task_id ow = tk_task_id (fst a))"

lemma no_owner: "tables_ok T \<Longrightarrow> task_of T t = None \<Longrightarrow> owner_row T t = None"
proof (rule ccontr)
  assume ok: "tables_ok T" and none: "task_of T t = None" and "owner_row T t \<noteq> None"
  then obtain r where "r \<in> set (dt_owners T)" "ow_task_id r = t" by (auto dest: sel_SomeD)
  with ok none show False by (auto simp: tables_ok_def)
qed

lemma admit_one_good:
  assumes "admit_one a T = Inr U" and "tables_ok T" and "own_admission a"
  shows "good T U" and "task_of T (tk_task_id (fst a)) = None"
    and "task_of U (tk_task_id (fst a)) = Some (task_row.truncate (fst a))"
proof -
  from assms(1) obtain V where V: "insert_task (fst a) T = Inr V"
    and o: "(case snd a of None \<Rightarrow> Inr V | Some ow \<Rightarrow> insert_owner ow V) = Inr U"
    by (auto simp: admit_one_def bind_res_Inr)
  note i = insert_task_good [OF V assms(2)]
  have "good V U \<and> dt_tasks U = dt_tasks V"
  proof (cases "snd a")
    case None
    with o i(1) show ?thesis by (simp add: good_refl [OF good_ok])
  next
    case (Some ow)
    with assms(3) have id: "ow_task_id ow = tk_task_id (fst a)" by (simp add: own_admission_def)
    from no_owner [OF assms(2) i(2)] i(4) have "owner_row V (ow_task_id ow) = None" by (simp add: id)
    with insert_owner_good [OF _ good_ok [OF i(1)], of ow U] o Some show ?thesis
      by (simp add: upsert_owner_def)
  qed
  with i good_trans [OF i(1)] show "good T U" and "task_of T (tk_task_id (fst a)) = None"
    and "task_of U (tk_task_id (fst a)) = Some (task_row.truncate (fst a))"
    by auto
qed

lemma admit_each_good:
  assumes "admit_each as T = Inr U" and "tables_ok T" and "\<forall>a \<in> set as. own_admission a"
  shows "good T U \<and> distinct (map (\<lambda>a. tk_task_id (fst a)) as) \<and>
    (\<forall>a \<in> set as. task_of T (tk_task_id (fst a)) = None \<and>
      (\<exists>r. task_of U (tk_task_id (fst a)) = Some r \<and> task_same (task_row.truncate (fst a)) r))"
  using assms
proof (induction as arbitrary: T)
  case Nil
  then show ?case by (simp add: good_refl)
next
  case (Cons a as)
  from Cons.prems(1) obtain V where V: "admit_one a T = Inr V" and r: "admit_each as V = Inr U"
    by (auto simp: bind_res_Inr)
  from Cons.prems(3) have own: "own_admission a" "\<forall>a \<in> set as. own_admission a" by simp_all
  note i = admit_one_good [OF V Cons.prems(2) own(1)]
  from Cons.IH [OF r good_ok [OF i(1)] own(2)] have ih: "good V U" "distinct (map (\<lambda>a. tk_task_id (fst a)) as)"
    "\<forall>a \<in> set as. task_of V (tk_task_id (fst a)) = None \<and>
      (\<exists>r. task_of U (tk_task_id (fst a)) = Some r \<and> task_same (task_row.truncate (fst a)) r)"
    by blast+
  from i(1) have later: "rows_later tk_task_id task_same (dt_tasks T) (dt_tasks V)"
    by (simp add: good_def tables_later_def)
  from ih(1) have later': "rows_later tk_task_id task_same (dt_tasks V) (dt_tasks U)"
    by (simp add: good_def tables_later_def)
  have "task_of T (tk_task_id (fst b)) = None" if "b \<in> set as" for b
    using rows_later_known [OF later] ih(3) that by blast
  moreover have "tk_task_id (fst a) \<notin> (\<lambda>a. tk_task_id (fst a)) ` set as"
  proof
    assume "tk_task_id (fst a) \<in> (\<lambda>a. tk_task_id (fst a)) ` set as"
    with ih(3) have "task_of V (tk_task_id (fst a)) = None" by auto
    with i(3) show False by simp
  qed
  moreover obtain r where "task_of U (tk_task_id (fst a)) = Some r" "task_same (task_row.truncate (fst a)) r"
    using later' i(3) unfolding rows_later_def by blast
  ultimately show ?case using good_trans [OF i(1) ih(1)] ih(2,3) i(2) by simp
qed

lemma next_revision: "to_i64 (saturating_add u64_max n 1) = Inr m \<Longrightarrow> m = n + 1 \<and> saturating_add u64_max n 1 = n + 1"
  using i64_max_less_u64_max by (auto simp: saturating_add_def)

lemma task_checks_of: "tables_ok T \<Longrightarrow> task_of T t = Some r \<Longrightarrow> task_checks (tk_status r) (tk_revision r)"
  by (auto simp: tables_ok_def dest: sel_SomeD)

lemma sel_upd_const:
  "(\<And>r. k (f r) = k r) \<Longrightarrow> sel (\<lambda>x. k x = a) t = Some r \<Longrightarrow> sel (\<lambda>x. k x = a) (upd (\<lambda>x. k x = a) f t) = Some (f r)"
  by (simp add: sel_upd_key)

lemma claim_task_effect:
  assumes "claim_task_body ow expected T = Inr (n, U)" and "tables_ok T"
  shows "good T U" and "owner_row U (ow_task_id ow) = Some ow" and "n = expected + 1"
    and "\<exists>t t'. task_of T (ow_task_id ow) = Some t \<and> tk_revision t = expected \<and> tk_status t \<noteq> ''completed'' \<and>
      task_of U (ow_task_id ow) = Some t' \<and> tk_revision t' = expected + 1 \<and>
      tk_status t' = (if tk_status t = ''pending'' then ''ready'' else tk_status t)"
    and "owner_row T (ow_task_id ow) = Some r \<Longrightarrow> owner_later r ow"
proof -
  from assms(1) obtain t V where free: "\<And>r. owner_row T (ow_task_id ow) = Some r \<Longrightarrow>
      \<not> (ow_generation r > ow_generation ow \<or> (ow_generation r = ow_generation ow \<and> ow_run_id r \<noteq> ow_run_id ow))"
    and t: "task_of T (ow_task_id ow) = Some t" "tk_status t \<noteq> ''completed''" "tk_revision t = expected"
    and V: "insert_owner ow T = Inr V"
    and rest: "bind_res (to_i64 (saturating_add u64_max (tk_revision t) 1)) (\<lambda>m.
        Inr (saturating_add u64_max (tk_revision t) 1, V\<lparr>dt_tasks := upd (\<lambda>r. tk_task_id r = ow_task_id ow)
          (\<lambda>r. r\<lparr>tk_revision := m,
            tk_status := (if tk_status t = ''pending'' then ''ready'' else tk_status t)\<rparr>) (dt_tasks V)\<rparr>)) = Inr (n, U)"
    unfolding claim_task_body_def Let_def
    by (auto simp: bind_res_Inr split: option.splits if_splits)
  let ?s = "if tk_status t = ''pending'' then ''ready'' else tk_status t"
  from rest obtain m where "to_i64 (saturating_add u64_max (tk_revision t) 1) = Inr m"
    by (auto simp: bind_res_Inr)
  with next_revision [OF this] rest t(3) have n: "n = expected + 1"
    and U: "U = V\<lparr>dt_tasks := upd (\<lambda>r. tk_task_id r = ow_task_id ow)
          (\<lambda>r. r\<lparr>tk_revision := expected + 1, tk_status := ?s\<rparr>) (dt_tasks V)\<rparr>"
    by (auto simp: bind_res_Inr)
  have gen: "owner_later r ow" if "owner_row T (ow_task_id ow) = Some r" for r
    using free [OF that] by (auto simp: owner_later_def)
  note i = insert_owner_good [OF V assms(2)]
  have goodV: "good T V" using gen by (intro i(1)) blast
  have tasksV: "dt_tasks V = dt_tasks T" using i(2) [OF gen] by (simp add: upsert_owner_def)
  have "task_checks ?s (expected + 1)"
    using task_checks_of [OF assms(2) t(1)] by (auto simp: task_checks_def task_statuses_def)
  then have "good V U" unfolding U
    using good_ok [OF goodV] by (intro good_upd_task) (simp_all add: task_same_def)
  with goodV show "good T U" by (rule good_trans)
  show "n = expected + 1" by (rule n)
  have V_eq: "V = upsert_owner ow T" using gen by (intro i(2)) blast
  show "owner_row U (ow_task_id ow) = Some ow" using upsert_owner_row [of ow T] by (simp add: U V_eq)
  have "task_of U (ow_task_id ow) = Some (t\<lparr>tk_revision := expected + 1, tk_status := ?s\<rparr>)"
    using t(1) by (simp add: U tasksV sel_upd_const)
  with t show "\<exists>t t'. task_of T (ow_task_id ow) = Some t \<and> tk_revision t = expected \<and> tk_status t \<noteq> ''completed'' \<and>
      task_of U (ow_task_id ow) = Some t' \<and> tk_revision t' = expected + 1 \<and>
      tk_status t' = (if tk_status t = ''pending'' then ''ready'' else tk_status t)"
    by auto
  show "owner_row T (ow_task_id ow) = Some r \<Longrightarrow> owner_later r ow"
    by (rule gen)
qed

lemma commit_delivery_effect:
  assumes "commit_delivery_body c T = Inr (u, U)" and "tables_ok T"
  shows "good T U"
    and "\<exists>t t'. task_of T (tk_task_id (dc_transition c)) = Some t \<and>
      (tk_status t = ''completed'' \<longrightarrow> tk_status (dc_transition c) = ''completed'') \<and>
      task_of U (tk_task_id (dc_transition c)) = Some t' \<and>
      tk_status t' = tk_status (dc_transition c) \<and> tk_revision t' = tk_revision (dc_transition c) \<and>
      tk_node t' = tk_node (dc_transition c)"
    and "\<exists>m. delivery_of U (dv_message_id (dc_delivery c)) = Some m \<and>
      dv_payload_hash m = dv_payload_hash (dc_delivery c)"
    and "dc_result c = Some r \<Longrightarrow> \<exists>x. result_of U (rw_result_id r) = Some x \<and> rw_hash x = rw_hash r"
    and "a \<noteq> tk_task_id (dc_transition c) \<Longrightarrow> task_of U a = task_of T a"
proof -
  let ?t = "dc_transition c"
  from assms(1) obtain t T1 T2 T3 where t: "task_of T (tk_task_id ?t) = Some t"
    and guard: "\<not> (tk_status t = ''completed'' \<and> tk_status ?t \<noteq> ''completed'')"
    and T1: "(case dc_result c of None \<Rightarrow> Inr T | Some r \<Rightarrow> insert_result r T) = Inr T1"
    and T2: "set_task ?t T1 = Inr T2" and T3: "insert_delivery (dc_delivery c) T2 = Inr T3"
    and T4: "(case dc_usage c of None \<Rightarrow> Inr T3 | Some u \<Rightarrow> charge_usage (tk_task_id ?t) u T3) = Inr U"
    unfolding commit_delivery_body_def Let_def
    by (auto simp: bind_res_Inr split: option.splits if_splits)
  have g1: "good T T1 \<and> dt_tasks T1 = dt_tasks T"
    using T1 assms(2) insert_result_good(1,3) by (auto split: option.splits simp: good_refl)
  have r1: "\<exists>x. result_of T1 (rw_result_id r) = Some x \<and> rw_hash x = rw_hash r" if "dc_result c = Some r"
    using T1 that assms(2) insert_result_good(2) by simp
  from g1 have ok1: "tables_ok T1" using good_ok by blast
  note s2 = set_task_good [OF T2 ok1]
  note d3 = insert_delivery_good [OF T3 good_ok [OF s2(1)]]
  have g4: "good T3 U \<and> dt_tasks U = dt_tasks T3 \<and> dt_results U = dt_results T3 \<and> dt_deliveries U = dt_deliveries T3"
    using T4 good_ok [OF d3(1)] charge_usage_good by (auto split: option.splits simp: good_refl)
  from g1 s2(1) d3(1) g4 show "good T U" by (meson good_trans)
  have tasks: "dt_tasks U = upd (\<lambda>r. tk_task_id r = tk_task_id ?t)
    (\<lambda>r. r\<lparr>tk_status := tk_status ?t, tk_revision := tk_revision ?t, tk_node := tk_node ?t\<rparr>) (dt_tasks T)"
    using g4 d3(3) s2(2) g1 by simp
  with t have "task_of U (tk_task_id ?t) =
      Some (t\<lparr>tk_status := tk_status ?t, tk_revision := tk_revision ?t, tk_node := tk_node ?t\<rparr>)"
    by (simp add: sel_upd_const)
  with t guard show "\<exists>t t'. task_of T (tk_task_id ?t) = Some t \<and>
      (tk_status t = ''completed'' \<longrightarrow> tk_status ?t = ''completed'') \<and>
      task_of U (tk_task_id ?t) = Some t' \<and>
      tk_status t' = tk_status ?t \<and> tk_revision t' = tk_revision ?t \<and> tk_node t' = tk_node ?t"
    by auto
  from d3(2) g4 show "\<exists>m. delivery_of U (dv_message_id (dc_delivery c)) = Some m \<and>
      dv_payload_hash m = dv_payload_hash (dc_delivery c)" by simp
  show "\<exists>x. result_of U (rw_result_id r) = Some x \<and> rw_hash x = rw_hash r" if "dc_result c = Some r"
    using r1 [OF that] g4 d3(4) s2(2) by simp
  show "task_of U a = task_of T a" if "a \<noteq> tk_task_id ?t"
    using that by (simp add: tasks sel_upd_key)
qed

lemma consume_delivery_effect:
  assumes "consume_delivery_body message consumer T = Inr (first, U)" and "tables_ok T"
  shows "good T U" and "dt_tasks U = dt_tasks T"
    and "\<exists>m m'. delivery_of T message = Some m \<and> delivery_of U message = Some m' \<and>
      (first \<longleftrightarrow> dv_state m = ''pending'') \<and> dv_state m' = ''consumed'' \<and>
      m' = (if first then m\<lparr>dv_state := ''consumed'', dv_consumed_by := Some consumer\<rparr> else m)"
proof -
  from assms(1) obtain m where m: "delivery_of T message = Some m"
    by (auto simp: consume_delivery_body_def split: option.splits)
  from assms(2) m have states: "dv_state m = ''pending'' \<and> dv_consumed_by m = None \<or>
      dv_state m = ''consumed'' \<and> dv_consumed_by m \<noteq> None"
    unfolding tables_ok_def by (blast dest: sel_SomeD)
  let ?P = "\<lambda>r. dv_message_id r = message \<and> dv_state r = ''pending''"
  let ?f = "\<lambda>r. r\<lparr>dv_state := ''consumed'', dv_consumed_by := Some consumer\<rparr>"
  have *: "good T U \<and> dt_tasks U = dt_tasks T \<and> (\<exists>m'. delivery_of U message = Some m' \<and>
      (first \<longleftrightarrow> dv_state m = ''pending'') \<and> dv_state m' = ''consumed'' \<and>
      m' = (if first then m\<lparr>dv_state := ''consumed'', dv_consumed_by := Some consumer\<rparr> else m))"
  proof (cases "dv_state m = ''pending''")
    case True
    with assms(1) m have first: "first" and U: "\<exists>f. U = T\<lparr>dt_deliveries := upd ?P ?f (dt_deliveries T), dt_attempts := f\<rparr>"
      by (auto simp: consume_delivery_body_def)
    then obtain g where U: "U = T\<lparr>dt_deliveries := upd ?P ?f (dt_deliveries T), dt_attempts := g\<rparr>" by blast
    have "good T (T\<lparr>dt_deliveries := upd ?P ?f (dt_deliveries T)\<rparr>)"
    proof (rule good_deliveries [OF assms(2)])
      show "keyed dv_message_id (upd ?P ?f (dt_deliveries T))" using assms(2) by (simp add: tables_ok_def)
      show "\<forall>m \<in> set (upd ?P ?f (dt_deliveries T)). dv_state m = ''pending'' \<and> dv_consumed_by m = None \<or>
          dv_state m = ''consumed'' \<and> dv_consumed_by m \<noteq> None"
        using assms(2) unfolding tables_ok_def set_upd by fastforce
      show "rows_later dv_message_id delivery_later (dt_deliveries T) (upd ?P ?f (dt_deliveries T))"
        by (rule rows_later_upd) (auto simp: delivery_later_def)
    qed
    moreover have "delivery_of U message = Some (?f m)"
    proof -
      have "sel (\<lambda>r. dv_message_id r = message) (upd ?P ?f t) =
          map_option (\<lambda>r. if ?P r then ?f r else r) (sel (\<lambda>r. dv_message_id r = message) t)" for t
        by (rule sel_upd) simp
      from this [of "dt_deliveries T"] m have eq: "delivery_of U message = Some (if ?P m then ?f m else m)"
        by (simp add: U)
      from sel_SomeD [OF m] True have "?P m" by blast
      with eq show ?thesis by simp
    qed
    ultimately show ?thesis using first True by (simp add: U good_def)
  next
    case False
    with assms m states show ?thesis by (auto simp: consume_delivery_body_def good_refl)
  qed
  then show "good T U" and "dt_tasks U = dt_tasks T" by blast+
  from * m show "\<exists>m m'. delivery_of T message = Some m \<and> delivery_of U message = Some m' \<and>
      (first \<longleftrightarrow> dv_state m = ''pending'') \<and> dv_state m' = ''consumed'' \<and>
      m' = (if first then m\<lparr>dv_state := ''consumed'', dv_consumed_by := Some consumer\<rparr> else m)" by blast
qed

lemma mark_running_effect:
  assumes "mark_running_body task run generation T = Inr (n, U)" and "tables_ok T"
  shows "good T U"
    and "\<exists>ow t. owner_row T task = Some ow \<and> ow_run_id ow = run \<and> ow_generation ow = generation \<and>
      task_of T task = Some t \<and> n = tk_revision t + 1 \<and>
      task_of U task = Some (t\<lparr>tk_status := ''running'', tk_revision := n\<rparr>)"
proof -
  from assms(1) obtain ow t m where o: "owner_row T task = Some ow" "ow_run_id ow = run" "ow_generation ow = generation"
    and t: "task_of T task = Some t" and m: "to_i64 (saturating_add u64_max (tk_revision t) 1) = Inr m"
    and n: "n = saturating_add u64_max (tk_revision t) 1"
    and U: "U = T\<lparr>dt_tasks := upd (\<lambda>r. tk_task_id r = task)
      (\<lambda>r. r\<lparr>tk_status := ''running'', tk_revision := m\<rparr>) (dt_tasks T)\<rparr>"
    unfolding mark_running_body_def assert_owner_def read_task_revision_def Let_def
    by (auto simp: bind_res_Inr split: option.splits if_splits)
  from next_revision [OF m] n have m': "m = n" "n = tk_revision t + 1" by simp_all
  have "task_checks ''running'' m" using m' by (simp add: task_checks_def task_statuses_def)
  then show "good T U" unfolding U using assms(2) by (intro good_upd_task) (simp_all add: task_same_def)
  from t have "task_of U task = Some (t\<lparr>tk_status := ''running'', tk_revision := n\<rparr>)"
    by (simp add: U sel_upd_const m'(1))
  with o t m'(2) show "\<exists>ow t. owner_row T task = Some ow \<and> ow_run_id ow = run \<and> ow_generation ow = generation \<and>
      task_of T task = Some t \<and> n = tk_revision t + 1 \<and>
      task_of U task = Some (t\<lparr>tk_status := ''running'', tk_revision := n\<rparr>)" by blast
qed

lemma upsert_worktree_good:
  assumes "upsert_worktree_body w T = Inr (u, U)" and "tables_ok T"
  shows "good T U" and "dt_tasks U = dt_tasks T"
proof -
  let ?P = "\<lambda>r. wt_worktree_id r = wt_worktree_id w"
  let ?f = "\<lambda>r. r\<lparr>wt_state := wt_state w, wt_result_fingerprint := wt_result_fingerprint w, wt_path := wt_path w\<rparr>"
  have "good T U \<and> dt_tasks U = dt_tasks T"
  proof (cases "\<exists>r \<in> set (dt_worktrees T). ?P r")
    case True
    with assms(1) have U: "U = T\<lparr>dt_worktrees := upd ?P ?f (dt_worktrees T)\<rparr>"
      by (auto simp: upsert_worktree_body_def bind_res_Inr split: if_splits)
    have "rows_later wt_worktree_id worktree_later (dt_worktrees T) (upd ?P ?f (dt_worktrees T))"
      by (rule rows_later_upd) (simp_all add: worktree_later_def wt_identity_def)
    with assms(2) have "good T (T\<lparr>dt_worktrees := upd ?P ?f (dt_worktrees T)\<rparr>)"
      by (intro good_worktrees) (simp_all add: tables_ok_def)
    with U show ?thesis by simp
  next
    case False
    with assms(1) have free: "\<not> (\<exists>r \<in> set (dt_worktrees T). wt_branch r = wt_branch w)"
      and U: "U = T\<lparr>dt_worktrees := dt_worktrees T @ [w]\<rparr>"
      by (auto simp: upsert_worktree_body_def bind_res_Inr split: if_splits)
    have "good T (T\<lparr>dt_worktrees := dt_worktrees T @ [w]\<rparr>)"
      using assms(2) False free
      by (intro good_worktrees rows_later_snoc) (auto simp: tables_ok_def keyed_snoc)
    with U show ?thesis by simp
  qed
  then show "good T U" and "dt_tasks U = dt_tasks T" by blast+
qed

end
