(* ===== verification/Delegation_Histories.thy ===== *)
theory Delegation_Histories imports Delegation_Store begin

text \<open>
  The runs of the delegation tables: the changes the operations of \<^verbatim>\<open>store/delegation.rs\<close> commit as
  one step relation, and what they promise over any such history.
\<close>

section \<open>Runs of the tables\<close>

text \<open>
  The changes the operations commit. \<open>tables_op\<close> leaves out \<^verbatim>\<open>mark_task_running\<close>, which is the
  last rule of \<open>tables_step\<close>; an admission owns the task it admits, as every caller's does.
\<close>

inductive tables_op :: "tables \<Rightarrow> tables \<Rightarrow> bool" where
  to_admit: "admit_task_body a T = Inr (u, U) \<Longrightarrow> own_admission a \<Longrightarrow> tables_op T U"
| to_admit_graph: "admit_graph_body as T = Inr (u, U) \<Longrightarrow> \<forall>a \<in> set as. own_admission a \<Longrightarrow> tables_op T U"
| to_claim: "claim_task_body ow expected T = Inr (n, U) \<Longrightarrow> tables_op T U"
| to_deliver: "commit_delivery_body c T = Inr (u, U) \<Longrightarrow> tables_op T U"
| to_consume: "consume_delivery_body message consumer T = Inr (first, U) \<Longrightarrow> tables_op T U"
| to_worktree: "upsert_worktree_body w T = Inr (u, U) \<Longrightarrow> tables_op T U"

inductive tables_step :: "tables \<Rightarrow> tables \<Rightarrow> bool" where
  ts_op: "tables_op T U \<Longrightarrow> tables_step T U"
| ts_mark: "mark_running_body task run generation T = Inr (n, U) \<Longrightarrow> tables_step T U"

lemma tables_op_good:
  assumes "tables_op T U" and "tables_ok T"
  shows "good T U"
  using assms(1)
proof cases
  case (to_admit a u)
  then show ?thesis using admit_one_good(1) [OF _ assms(2)] by (auto simp: admit_task_body_def bind_res_Inr)
next
  case (to_admit_graph as u)
  then show ?thesis using admit_each_good [OF _ assms(2)] by (auto simp: admit_graph_body_def bind_res_Inr)
next
  case to_claim
  then show ?thesis by (rule claim_task_effect(1) [OF _ assms(2)])
next
  case to_deliver
  then show ?thesis by (rule commit_delivery_effect(1) [OF _ assms(2)])
next
  case to_consume
  then show ?thesis by (rule consume_delivery_effect(1) [OF _ assms(2)])
next
  case to_worktree
  then show ?thesis by (rule upsert_worktree_good(1) [OF _ assms(2)])
qed

lemma tables_step_good: "tables_step T U \<Longrightarrow> tables_ok T \<Longrightarrow> good T U"
  by (auto elim!: tables_step.cases intro: tables_op_good mark_running_effect(1))

lemma tables_ok_empty: "tables_ok empty_tables"
  by (simp add: tables_ok_def empty_tables_def)

interpretation delegation: invariant_system tables_step tables_ok "\<lambda>T. T = empty_tables"
  by unfold_locales (auto simp: tables_ok_empty dest: tables_step_good good_ok)

lemma tables_run_later:
  assumes "tables_step\<^sup>*\<^sup>* T U" and "tables_ok T"
  shows "tables_later T U"
proof (rule delegation.run_relation [OF _ _ assms])
  show "tables_later T T" for T by simp
  show "tables_later S V" if "tables_ok T" "tables_later S T" "tables_step T V" for S T V
    using tables_step_good [OF that(3,1)] that(2) tables_later_trans by (auto simp: good_def)
qed

abbreviation reachable_tables :: "tables \<Rightarrow> bool" where
  "reachable_tables T \<equiv> reach (\<lambda>T. T = empty_tables) tables_step T"


lemma run_ok: "reachable_tables T \<Longrightarrow> tables_step\<^sup>*\<^sup>* T U \<Longrightarrow> tables_ok T \<and> tables_ok U \<and> tables_later T U"
  using delegation.reach_inv tables_run_later delegation.inv_run by blast

lemma later_rowE:
  assumes "rows_later k R t u" and "sel (\<lambda>x. k x = a) t = Some r"
  obtains r' where "sel (\<lambda>x. k x = a) u = Some r'" and "R r r'"
  using assms unfolding rows_later_def by blast

lemma sample_reach: "tables_op T U \<Longrightarrow> reachable_tables T \<Longrightarrow> reachable_tables U"
proof -
  assume "tables_op T U" and T: "reachable_tables T"
  then have "tables_step T U" by (blast intro: ts_op)
  with T show "reachable_tables U" by (rule reach_step)
qed

section \<open>A sample history\<close>

definition sample_task :: stored_task where
  "sample_task = \<lparr>tk_task_id = ''task'', tk_parent = None, tk_role = ''explorer'', tk_status = ''pending'',
    tk_revision = 1, tk_depth = 1, tk_brief = JNull, tk_node = JNull, tk_depends_on = []\<rparr>"

definition sample_owner :: task_owner where
  "sample_owner = \<lparr>ow_task_id = ''task'', ow_run_id = ''run'', ow_session_id = ''session'',
    ow_role = ''explorer'', ow_generation = 2, ow_lease_revision = 1\<rparr>"

definition sample_result_row :: stored_result where
  "sample_result_row = \<lparr>rw_result_id = ''result'', rw_task_id = ''task'', rw_worker_run_id = ''run'',
    rw_outcome = ''completed'', rw_base_revision = [], rw_result_revision = [], rw_artifact_refs = [],
    rw_report = JNull, rw_hash = ''h''\<rparr>"

definition sample_message :: parent_delivery where
  "sample_message = \<lparr>dv_message_id = ''message'', dv_sender = ''task'', dv_recipient = ''root'',
    dv_recipient_session = ''session'', dv_result_id = Some ''result'', dv_payload_hash = ''p'',
    dv_payload = JNull, dv_state = ''pending'', dv_consumed_by = None\<rparr>"

definition tables_admitted :: tables where
  "tables_admitted = empty_tables\<lparr>dt_tasks := [task_row.truncate sample_task]\<rparr>"

definition sample_commit :: delivery_commit where
  "sample_commit = \<lparr>dc_transition = sample_task\<lparr>tk_status := ''completed'', tk_revision := 3\<rparr>,
    dc_result = Some sample_result_row, dc_delivery = sample_message, dc_usage = None\<rparr>"

definition claimed :: tables where
  "claimed = empty_tables\<lparr>dt_tasks := [(task_row.truncate sample_task)\<lparr>tk_status := ''ready'', tk_revision := 2\<rparr>],
    dt_owners := [sample_owner]\<rparr>"

definition delivered :: tables where
  "delivered = claimed\<lparr>dt_tasks := [(task_row.truncate sample_task)\<lparr>tk_status := ''completed'', tk_revision := 3\<rparr>],
    dt_results := [sample_result_row], dt_deliveries := [sample_message]\<rparr>"

definition consumed :: tables where
  "consumed = delivered\<lparr>dt_deliveries := [sample_message\<lparr>dv_state := ''consumed'', dv_consumed_by := Some ''host''\<rparr>],
    dt_attempts := (\<lambda>_. 0)(''message'' := 1)\<rparr>"

definition task_store :: store where
  "task_store = \<lparr>s_writer = Some \<lparr>hf_host_id = ''host'', hf_generation = 1\<rparr>, s_faults = {},
    s_db = empty_db\<lparr>db_epoch := Some 1, db_hosts := [''host'' \<mapsto> 1]\<rparr>\<rparr>"

lemmas sample_tables = sample_task_def sample_owner_def sample_result_row_def sample_message_def tables_admitted_def
  sample_commit_def claimed_def delivered_def consumed_def empty_tables_def

lemma sample_admit: "admit_task_body (sample_task, None) empty_tables = Inr ((), tables_admitted)"
  by (simp add: admit_task_body_def admit_one_def insert_task_def bind_res_def to_i64_def i64_max_def
    task_checks_def task_statuses_def sample_tables)

lemma sample_claim: "claim_task_body sample_owner 1 tables_admitted = Inr (2, claimed)"
  by (simp add: claim_task_body_def insert_owner_def upsert_owner_def bind_res_def to_i64_def i64_max_def
    u64_max_def saturating_add_def sel_Cons upd_Cons task_row.truncate_def sample_tables)

lemma sample_deliver: "commit_delivery_body sample_commit claimed = Inr ((), delivered)"
  by (simp add: commit_delivery_body_def insert_result_def set_task_def insert_delivery_def bind_res_def
    to_i64_def i64_max_def sel_Cons upd_Cons task_row.truncate_def task_checks_def task_statuses_def sample_tables)

lemma sample_consume: "consume_delivery_body ''message'' ''host'' delivered = Inr (True, consumed)"
  by (simp add: consume_delivery_body_def sel_Cons upd_Cons sample_tables)

lemma reachable_tables_admitted: "reachable_tables tables_admitted"
proof (rule sample_reach)
  show "reachable_tables empty_tables" by (rule reach_init) simp
  show "tables_op empty_tables tables_admitted"
    by (rule to_admit [OF sample_admit]) (simp add: own_admission_def)
qed

lemma reachable_claimed: "reachable_tables claimed"
  by (rule sample_reach [OF to_claim [OF sample_claim] reachable_tables_admitted])

lemma reachable_delivered: "reachable_tables delivered"
  by (rule sample_reach [OF to_deliver [OF sample_deliver] reachable_claimed])

section \<open>What a history keeps\<close>

text \<open>
  A message to a parent is consumed once, for one consumer: after a consumption that reported
  itself the first, in every later database the message still holds that consumer and the payload
  it was sent with, and every other consumption is told it is not the first and changes nothing.
\<close>

theorem delivery_consumed_once:
  assumes "reachable_tables T" and "consume_delivery_body message consumer T = Inr (True, U)"
    and "tables_step\<^sup>*\<^sup>* U V"
  shows "\<exists>m. delivery T message = Some m \<and>
    delivery V message = Some (m\<lparr>dv_state := ''consumed'', dv_consumed_by := Some consumer\<rparr>) \<and>
    (\<forall>other. consume_delivery_body message other V = Inr (False, V))"
proof -
  from assms(1) have ok: "tables_ok T" by (rule delegation.reach_inv)
  from consume_delivery_effect(1,3) [OF assms(2) ok] obtain m where g: "good T U"
    and m: "delivery_of T message = Some m"
    and u: "delivery_of U message = Some (m\<lparr>dv_state := ''consumed'', dv_consumed_by := Some consumer\<rparr>)"
    by auto
  from tables_run_later [OF assms(3) good_ok [OF g]]
  have "rows_later dv_message_id delivery_later (dt_deliveries U) (dt_deliveries V)"
    by (simp add: tables_later_def)
  from this u obtain m' where v: "delivery_of V message = Some m'"
    and l: "delivery_later (m\<lparr>dv_state := ''consumed'', dv_consumed_by := Some consumer\<rparr>) m'"
    by (rule later_rowE)
  from l have "m' = m\<lparr>dv_state := ''consumed'', dv_consumed_by := Some consumer\<rparr>"
    by (simp add: delivery_later_def)
  with m v show ?thesis by (simp add: delivery_def consume_delivery_body_def)
qed

lemma delivery_consumed_once_witness:
  "\<exists>m. delivery delivered ''message'' = Some m \<and>
    delivery consumed ''message'' = Some (m\<lparr>dv_state := ''consumed'', dv_consumed_by := Some ''host''\<rparr>) \<and>
    (\<forall>other. consume_delivery_body ''message'' other consumed = Inr (False, consumed))"
  by (rule delivery_consumed_once [OF reachable_delivered sample_consume rtranclp.rtrancl_refl])

text \<open>
  A worker's report is final: once a result is stored it is read back unchanged in every later
  database, and no commit replaces it. One that carries the same result id with another content
  hash fails and leaves every table as it was.
\<close>

theorem stored_report_final:
  assumes "reachable_tables T" and "result_of T i = Some r" and "tables_step\<^sup>*\<^sup>* T U"
    and "dc_result c = Some x" and "rw_result_id x = i" and "rw_hash x \<noteq> rw_hash r"
  shows "result_of U i = Some r \<and> (\<exists>e. commit_delivery c s U = (Inl e, s_faults s, U))"
proof -
  from run_ok [OF assms(1,3)] have "rows_later rw_result_id (\<lambda>r r'. r' = r) (dt_results T) (dt_results U)"
    by (simp add: tables_later_def)
  from this assms(2) obtain r' where "result_of U i = Some r'" "r' = r" by (rule later_rowE)
  then have r: "result_of U i = Some r" by simp
  with assms(5,6) have "insert_result x U = Inl DeliveryConflict" by (simp add: insert_result_def)
  with assms(4) have "\<exists>e. commit_delivery_body c U = Inl e"
    by (simp add: commit_delivery_body_def Let_def split: option.split)
  then obtain e where e: "commit_delivery_body c U = Inl e" by blast
  have "\<exists>e. commit_delivery c s U = (Inl e, s_faults s, U)"
    by (simp add: commit_delivery_def task_tx_def e split: sum.splits)
  with r show ?thesis by blast
qed

lemma stored_report_final_witness:
  "result_of consumed ''result'' = Some sample_result_row \<and>
    (\<exists>e. commit_delivery (sample_commit\<lparr>dc_result := Some (sample_result_row\<lparr>rw_hash := ''other''\<rparr>)\<rparr>)
      task_store consumed = (Inl e, s_faults task_store, consumed))"
proof (rule stored_report_final [OF reachable_delivered,
      where x = "sample_result_row\<lparr>rw_hash := ''other''\<rparr>"])
  show "result_of delivered ''result'' = Some sample_result_row" by (simp add: sel_Cons sample_tables)
  have "tables_op delivered consumed" by (rule to_consume [OF sample_consume])
  then have "tables_step delivered consumed" by (rule ts_op)
  then show "tables_step\<^sup>*\<^sup>* delivered consumed" by (rule r_into_rtranclp)
qed (simp_all add: sample_tables)

text \<open>
  C15. Taking a task over fences its older owner out for good: after a claim, in every later
  database a claim of that task for an older generation, or for the same generation and another
  run, and a mark that it runs, are refused with an ownership conflict.
\<close>

theorem task_takeover_fences_out:
  assumes "reachable_tables T" and "claim_task_body ow expected T = Inr (n, U)" and "tables_step\<^sup>*\<^sup>* U V"
    and "ow_task_id old = ow_task_id ow"
    and "ow_generation old < ow_generation ow \<or>
      ow_generation old = ow_generation ow \<and> ow_run_id old \<noteq> ow_run_id ow"
  shows "claim_task_body old e V = Inl TaskOwnershipConflict \<and>
    mark_running_body (ow_task_id old) (ow_run_id old) (ow_generation old) V = Inl TaskOwnershipConflict"
proof -
  from assms(1) have ok: "tables_ok T" by (rule delegation.reach_inv)
  note c = claim_task_effect(1,2) [OF assms(2) ok]
  from tables_run_later [OF assms(3) good_ok [OF c(1)]]
  have "rows_later ow_task_id owner_later (dt_owners U) (dt_owners V)" by (simp add: tables_later_def)
  from this c(2) obtain r where r: "owner_row V (ow_task_id ow) = Some r" "owner_later ow r"
    by (rule later_rowE)
  from assms(5) r(2) have "ow_generation r > ow_generation old \<or>
      ow_generation r = ow_generation old \<and> ow_run_id r \<noteq> ow_run_id old"
    unfolding owner_later_def by fastforce
  with r(1) assms(4) show ?thesis
    by (auto simp: claim_task_body_def mark_running_body_def assert_owner_def Let_def)
qed

lemma task_takeover_fences_out_witness:
  "claim_task_body (sample_owner\<lparr>ow_generation := 1\<rparr>) 3 delivered = Inl TaskOwnershipConflict \<and>
    mark_running_body ''task'' ''run'' 1 delivered = Inl TaskOwnershipConflict"
proof -
  have "tables_op claimed delivered" by (rule to_deliver [OF sample_deliver])
  then have "tables_step claimed delivered" by (rule ts_op)
  then have run: "tables_step\<^sup>*\<^sup>* claimed delivered" by (rule r_into_rtranclp)
  have "claim_task_body (sample_owner\<lparr>ow_generation := 1\<rparr>) 3 delivered = Inl TaskOwnershipConflict \<and>
    mark_running_body (ow_task_id (sample_owner\<lparr>ow_generation := 1\<rparr>))
      (ow_run_id (sample_owner\<lparr>ow_generation := 1\<rparr>)) (ow_generation (sample_owner\<lparr>ow_generation := 1\<rparr>)) delivered =
      Inl TaskOwnershipConflict"
    by (rule task_takeover_fences_out [OF reachable_tables_admitted sample_claim run]) (simp_all add: sample_owner_def)
  then show ?thesis by (simp add: sample_owner_def)
qed

section \<open>Admission\<close>

lemma admit_one_rows:
  assumes "admit_one a T = Inr U" and "tables_ok T" and "own_admission a"
  shows "dt_tasks U = dt_tasks T @ [task_row.truncate (fst a)]"
    and "dt_owners U = dt_owners T @ (case snd a of None \<Rightarrow> [] | Some ow \<Rightarrow> [ow])"
proof -
  from assms(1) obtain V where V: "insert_task (fst a) T = Inr V"
    and o: "(case snd a of None \<Rightarrow> Inr V | Some ow \<Rightarrow> insert_owner ow V) = Inr U"
    by (auto simp: admit_one_def bind_res_Inr)
  from V have tasks: "dt_tasks V = dt_tasks T @ [task_row.truncate (fst a)]"
    by (auto simp: insert_task_def bind_res_Inr split: if_splits)
  note i = insert_task_good [OF V assms(2)]
  have "dt_tasks U = dt_tasks V \<and> dt_owners U = dt_owners V @ (case snd a of None \<Rightarrow> [] | Some ow \<Rightarrow> [ow])"
  proof (cases "snd a")
    case None
    with o show ?thesis by simp
  next
    case (Some ow)
    with assms(3) have id: "ow_task_id ow = tk_task_id (fst a)" by (simp add: own_admission_def)
    from no_owner [OF assms(2) i(2)] i(4) have new: "owner_row V (ow_task_id ow) = None" by (simp add: id)
    with insert_owner_good(2) [OF _ good_ok [OF i(1)], of ow U] o Some show ?thesis
      by (simp add: upsert_owner_def)
  qed
  with tasks i(4) show "dt_tasks U = dt_tasks T @ [task_row.truncate (fst a)]"
    and "dt_owners U = dt_owners T @ (case snd a of None \<Rightarrow> [] | Some ow \<Rightarrow> [ow])"
    by simp_all
qed

definition admitted_owners :: "(stored_task \<times> task_owner option) list \<Rightarrow> task_owner list" where
  "admitted_owners as = concat (map (\<lambda>a. case snd a of None \<Rightarrow> [] | Some ow \<Rightarrow> [ow]) as)"

lemma admit_each_rows:
  assumes "admit_each as T = Inr U" and "tables_ok T" and "\<forall>a \<in> set as. own_admission a"
  shows "dt_tasks U = dt_tasks T @ map (\<lambda>a. task_row.truncate (fst a)) as \<and>
    dt_owners U = dt_owners T @ admitted_owners as"
  using assms
proof (induction as arbitrary: T)
  case Nil
  then show ?case by (simp add: admitted_owners_def)
next
  case (Cons a as)
  from Cons.prems(1) obtain V where V: "admit_one a T = Inr V" and r: "admit_each as V = Inr U"
    by (auto simp: bind_res_Inr)
  from Cons.prems(3) have own: "own_admission a" "\<forall>a \<in> set as. own_admission a" by simp_all
  note i = admit_one_good(1) [OF V Cons.prems(2) own(1)]
  from Cons.IH [OF r good_ok [OF i] own(2)] admit_one_rows [OF V Cons.prems(2) own(1)]
  show ?case by (simp add: admitted_owners_def)
qed

lemma task_tx_cases:
  assumes "task_tx armed body s T = (r, fs, U)"
  shows "case r of Inl e \<Rightarrow> U = T | Inr a \<Rightarrow> may_write s \<and> body T = Inr (a, U)"
  using assms by (auto simp: task_tx_def fence_def begin_write_def may_write_def
    split: option.splits sum.splits prod.splits if_splits)

text \<open>
  Admitting a graph is all or nothing: it succeeds only for a handle that holds write
  authority, and then exactly its nodes, every one of them a task the tables did not have, and
  exactly its owners are appended; any failure leaves every table as it was.
\<close>

theorem admission_all_or_nothing:
  assumes "reachable_tables T" and "\<forall>a \<in> set as. own_admission a"
    and "admit_task_graph as s T = (r, fs, U)"
  shows "case r of
      Inl e \<Rightarrow> U = T
    | Inr _ \<Rightarrow> may_write s \<and> as \<noteq> [] \<and> distinct (map (\<lambda>a. tk_task_id (fst a)) as) \<and>
        (\<forall>a \<in> set as. task_of T (tk_task_id (fst a)) = None) \<and>
        dt_tasks U = dt_tasks T @ map (\<lambda>a. task_row.truncate (fst a)) as \<and>
        dt_owners U = dt_owners T @ admitted_owners as"
proof (cases "as = []")
  case True
  with assms(3) show ?thesis by (auto simp: admit_task_graph_def)
next
  case False
  with assms(3) have "task_tx None (admit_graph_body as) s T = (r, fs, U)" by (simp add: admit_task_graph_def)
  from task_tx_cases [OF this] show ?thesis
  proof (cases r)
    case (Inr a)
    with task_tx_cases [OF \<open>task_tx None (admit_graph_body as) s T = (r, fs, U)\<close>]
    have w: "may_write s" and e: "admit_each as T = Inr U"
      by (auto simp: admit_graph_body_def bind_res_Inr)
    from assms(1) have ok: "tables_ok T" by (rule delegation.reach_inv)
    from admit_each_good [OF e ok assms(2)] admit_each_rows [OF e ok assms(2)] w False Inr
    show ?thesis by simp
  qed simp
qed

lemma admission_all_or_nothing_witness:
  "dt_tasks tables_admitted = dt_tasks empty_tables @ map (\<lambda>a. task_row.truncate (fst a)) [(sample_task, None)]"
proof -
  have "assert_fence_in_tx \<lparr>hf_host_id = ''host'', hf_generation = 1\<rparr> (s_db task_store) = Inr ()"
    by (simp add: assert_fence_iff task_store_def i64_max_def empty_db_def)
  moreover have "admit_graph_body [(sample_task, None)] empty_tables = Inr ((), tables_admitted)"
    using sample_admit by (auto simp: admit_graph_body_def admit_task_body_def bind_res_Inr)
  ultimately have run: "admit_task_graph [(sample_task, None)] task_store empty_tables = (Inr (), {}, tables_admitted)"
    by (simp add: admit_task_graph_def task_tx_def fence_def begin_write_def task_store_def)
  have "reachable_tables empty_tables" by (rule reach_init) simp
  from admission_all_or_nothing [OF this _ run] show ?thesis by (simp add: own_admission_def)
qed

section \<open>Completed tasks\<close>

lemma claim_task_other:
  assumes "claim_task_body ow expected T = Inr (n, U)" and "a \<noteq> ow_task_id ow"
  shows "task_of U a = task_of T a"
proof -
  from assms(1) obtain V f where V: "insert_owner ow T = Inr V"
    and U: "dt_tasks U = upd (\<lambda>r. tk_task_id r = ow_task_id ow) f (dt_tasks V)" and f: "\<And>r. tk_task_id (f r) = tk_task_id r"
    unfolding claim_task_body_def Let_def by (auto simp: bind_res_Inr split: option.splits if_splits)
  from V have "dt_tasks V = dt_tasks T" by (auto simp: insert_owner_def bind_res_Inr upsert_owner_def split: if_splits)
  with U f assms(2) show ?thesis by (simp add: sel_upd_key)
qed

lemma completed_op:
  assumes "tables_op T U" and "tables_ok T" and t: "task_of T a = Some r" "tk_status r = ''completed''"
  shows "\<exists>r'. task_of U a = Some r' \<and> tk_status r' = ''completed''"
  using assms(1)
proof cases
  case (to_admit x u)
  then have "admit_one x T = Inr U" by (auto simp: admit_task_body_def bind_res_Inr)
  from admit_one_rows(1) [OF this assms(2) to_admit(2)] t show ?thesis by (simp add: sel_append)
next
  case (to_admit_graph as u)
  then have "admit_each as T = Inr U" by (auto simp: admit_graph_body_def bind_res_Inr)
  from admit_each_rows [OF this assms(2) to_admit_graph(2)] t show ?thesis by (simp add: sel_append)
next
  case (to_claim ow expected n)
  show ?thesis
  proof (cases "a = ow_task_id ow")
    case True
    with claim_task_effect(4) [OF to_claim assms(2)] t show ?thesis by auto
  next
    case False
    with claim_task_other [OF to_claim] t show ?thesis by simp
  qed
next
  case (to_deliver c u)
  show ?thesis
  proof (cases "a = tk_task_id (dc_transition c)")
    case True
    with commit_delivery_effect(2) [OF to_deliver assms(2)] t show ?thesis by auto
  next
    case False
    with commit_delivery_effect(5) [OF to_deliver assms(2)] t show ?thesis by simp
  qed
next
  case (to_consume message consumer first)
  with consume_delivery_effect(2) [OF _ assms(2)] t show ?thesis by auto
next
  case (to_worktree w u)
  with upsert_worktree_good(2) [OF _ assms(2)] t show ?thesis by auto
qed

lemma completed_run:
  assumes "tables_op\<^sup>*\<^sup>* T U" and "tables_ok T" and "task_of T a = Some r" and "tk_status r = ''completed''"
  shows "tables_ok U \<and> (\<exists>r'. task_of U a = Some r' \<and> tk_status r' = ''completed'')"
  using assms(1)
proof (induction rule: rtranclp_induct)
  case base
  with assms show ?case by blast
next
  case (step U V)
  from step.IH obtain r' where "tables_ok U" "task_of U a = Some r'" "tk_status r' = ''completed''" by blast
  with completed_op [OF step.hyps(2)] tables_op_good [OF step.hyps(2)] good_ok show ?case by blast
qed

text \<open>
  Completed is final for every operation but one. Through admissions, claims, commits,
  consumptions and worktree updates a completed task stays completed and refuses every claim;
  \<^verbatim>\<open>mark_task_running\<close> does not look at the status it replaces, and puts the completed task back to
  running for its owner.
\<close>

theorem completed_final_but_for_mark:
  assumes "reachable_tables T" and "task_of T a = Some r" and "tk_status r = ''completed''"
    and "tables_op\<^sup>*\<^sup>* T U"
  shows "(\<exists>r'. task_of U a = Some r' \<and> tk_status r' = ''completed'') \<and>
    (\<forall>ow expected. ow_task_id ow = a \<longrightarrow> claim_task_body ow expected U = Inl TaskOwnershipConflict) \<and>
    (\<forall>ow. owner_row T a = Some ow \<longrightarrow> tk_revision r < i64_max \<longrightarrow>
      (\<exists>V. mark_running_body a (ow_run_id ow) (ow_generation ow) T = Inr (tk_revision r + 1, V) \<and>
        task_of V a = Some (r\<lparr>tk_status := ''running'', tk_revision := tk_revision r + 1\<rparr>)))"
proof (intro conjI allI impI)
  from assms(1) have ok: "tables_ok T" by (rule delegation.reach_inv)
  from completed_run [OF assms(4) ok assms(2,3)]
  obtain r' where r': "task_of U a = Some r'" "tk_status r' = ''completed''" by blast
  then show "\<exists>r'. task_of U a = Some r' \<and> tk_status r' = ''completed''" by blast
  show "claim_task_body ow expected U = Inl TaskOwnershipConflict" if "ow_task_id ow = a" for ow expected
    using r' that by (simp add: claim_task_body_def Let_def)
  fix ow assume o: "owner_row T a = Some ow" and b: "tk_revision r < i64_max"
  let ?V = "T\<lparr>dt_tasks := upd (\<lambda>x. tk_task_id x = a)
    (\<lambda>x. x\<lparr>tk_status := ''running'', tk_revision := tk_revision r + 1\<rparr>) (dt_tasks T)\<rparr>"
  from b have "saturating_add u64_max (tk_revision r) 1 = tk_revision r + 1"
    using i64_max_less_u64_max by (simp add: saturating_add_def)
  with o b assms(2) have "mark_running_body a (ow_run_id ow) (ow_generation ow) T = Inr (tk_revision r + 1, ?V)"
    by (simp add: mark_running_body_def assert_owner_def read_task_revision_def to_i64_def)
  moreover have "task_of ?V a = Some (r\<lparr>tk_status := ''running'', tk_revision := tk_revision r + 1\<rparr>)"
    using assms(2) by (simp add: sel_upd_const)
  ultimately show "\<exists>V. mark_running_body a (ow_run_id ow) (ow_generation ow) T = Inr (tk_revision r + 1, V) \<and>
      task_of V a = Some (r\<lparr>tk_status := ''running'', tk_revision := tk_revision r + 1\<rparr>)" by blast
qed

lemma completed_final_but_for_mark_witness:
  "\<exists>V. mark_running_body ''task'' ''run'' 2 delivered = Inr (4, V) \<and>
    task_of V ''task'' = Some ((task_row.truncate sample_task)\<lparr>tk_status := ''running'', tk_revision := 4\<rparr>)"
proof -
  let ?r = "(task_row.truncate sample_task)\<lparr>tk_status := ''completed'', tk_revision := 3\<rparr>"
  have r: "task_of delivered ''task'' = Some ?r"
    by (simp add: delivered_def claimed_def sel_Cons) (simp add: task_row.truncate_def sample_task_def)
  have o: "owner_row delivered ''task'' = Some sample_owner"
    by (simp add: delivered_def claimed_def sel_Cons sample_owner_def)
  have "tk_status ?r = ''completed''" by simp
  from completed_final_but_for_mark [OF reachable_delivered r this rtranclp.rtrancl_refl] o
  show ?thesis by (simp add: sample_owner_def i64_max_def)
qed

text \<open>
  The status \<^verbatim>\<open>assigned\<close> of the delegation contract cannot be stored: an admission that carries
  it is reported as a duplicate task whatever the tables hold, and a commit that moves a task to
  it fails.
\<close>

theorem assigned_not_storable:
  "insert_task (t\<lparr>tk_status := task_status_str TaskAssigned, tk_revision := n\<rparr>) T =
      (if n \<le> i64_max then Inl DuplicateTaskId else Inl InvalidPayload) \<and>
    (\<exists>e. set_task (t\<lparr>tk_status := task_status_str TaskAssigned, tk_revision := n\<rparr>) T = Inl e)"
  by (simp add: insert_task_def set_task_def task_checks_def task_statuses_def to_i64_def)

end
