(* ===== verification/Task_Plan.thy ===== *)
theory Task_Plan imports Dag Delegation_Contracts "HOL-Library.AList" begin

text \<open>
  The task graph a coordinator proposes and the plan it compiles to
  (\<^verbatim>\<open>TaskNode\<close>, \<^verbatim>\<open>TaskGraph\<close>, \<^verbatim>\<open>TaskPlan::compile\<close> and the functions it calls in
  \<^verbatim>\<open>crates/harness-orchestrator/src/coordination/contracts.rs\<close>), with the enforcement of a
  write scope (\<^verbatim>\<open>scope_violations\<close> in \<^verbatim>\<open>workspaces/workspace.rs\<close>). The theorems give the
  graphs that compile, the order of the plan, and what the write scopes of two tasks share.
\<close>

section \<open>Graphs and plans\<close>

record task_node =
  tn_schema_version :: nat
  tn_task_id :: ident
  tn_parent_task_id :: "ident option"
  tn_role :: agent_role
  tn_brief :: task_brief
  tn_depends_on :: "ident list"
  tn_status :: task_status
  tn_depth :: nat
  tn_revision :: nat

record task_graph =
  gr_schema_version :: nat
  gr_coordinator :: worker_ref
  gr_tasks :: "task_node list"

type_synonym nodes = "(ident \<times> task_node) list"

record task_plan =
  tp_schema_version :: nat
  tp_coordinator :: worker_ref
  tp_order :: "ident list"
  tp_nodes :: nodes
  tp_topological_order :: "ident list"

definition node_validate :: "task_node \<Rightarrow> unit res" where
  "node_validate n = checks [
    if tn_schema_version n \<noteq> delegation_contract_version then Inl UnsupportedSchemaVersion else Inr (),
    if tb_task_id (tn_brief n) \<noteq> tn_task_id n then Inl AmbiguousTaskOwner else Inr (),
    if tn_depth n > dg_max_depth (tb_grants (tn_brief n)) then Inl DelegationDepthExceeded else Inr (),
    brief_validate (tn_brief n)]"

section \<open>Collecting the nodes\<close>

text \<open>The loop that fills \<^verbatim>\<open>order\<close> and \<^verbatim>\<open>nodes\<close>.\<close>

fun collect_nodes :: "task_node list \<Rightarrow> ident list \<times> nodes \<Rightarrow> (ident list \<times> nodes) res" where
  "collect_nodes [] acc = Inr acc"
| "collect_nodes (n # ns) (order, nodes) =
    (case node_validate n of
      Inl e \<Rightarrow> Inl e
    | Inr _ \<Rightarrow>
        if tn_parent_task_id n = Some (tn_task_id n) then Inl AmbiguousTaskOwner
        else if map_of nodes (tn_task_id n) \<noteq> None then Inl DuplicateTaskId
        else collect_nodes ns (order @ [tn_task_id n], nodes @ [(tn_task_id n, n)]))"

section \<open>Depths\<close>

text \<open>The loop up the parents; \<open>guard\<close> counts the parents followed so far.\<close>

function depth_loop :: "nodes \<Rightarrow> ident option \<Rightarrow> nat \<Rightarrow> nat \<Rightarrow> nat res" where
  "depth_loop nodes None guard depth = Inr depth"
| "depth_loop nodes (Some parent) guard depth =
    (if guard + 1 > length nodes + 1 then Inl DagCycle
     else case map_of nodes parent of
       None \<Rightarrow> Inr depth
     | Some node \<Rightarrow> depth_loop nodes (tn_parent_task_id node) (guard + 1) (depth + 1))"
  by pat_completeness auto
termination
  by (relation "measure (\<lambda>(nodes, cursor, guard, depth). length nodes + 1 - guard)") auto

definition depth_from_parents :: "nodes \<Rightarrow> ident \<Rightarrow> nat res" where
  "depth_from_parents nodes task =
    depth_loop nodes (Option.bind (map_of nodes task) tn_parent_task_id) 0 0"

text \<open>The loop that writes each depth into its node and checks it against the bounds.\<close>

fun assign_depths :: "ident list \<Rightarrow> nodes \<Rightarrow> nodes res" where
  "assign_depths [] nodes = Inr nodes"
| "assign_depths (t # ts) nodes =
    (case depth_from_parents nodes t of
      Inl e \<Rightarrow> Inl e
    | Inr depth \<Rightarrow>
        if depth > default_max_depth then Inl DelegationDepthExceeded
        else (case map_of nodes t of
          None \<Rightarrow> Inl TaskNotFound
        | Some node \<Rightarrow>
            if depth > dg_max_depth (tb_grants (tn_brief node)) then Inl DelegationDepthExceeded
            else assign_depths ts (AList.update t (node\<lparr>tn_depth := depth\<rparr>) nodes)))"

section \<open>Write scopes\<close>

definition slashes :: "string \<Rightarrow> string" where
  "slashes s = map (\<lambda>c. if c = CHR 0x5C then CHR ''/'' else c) s"

definition trim_end_slash :: "string \<Rightarrow> string" where
  "trim_end_slash s = rev (dropWhile (\<lambda>c. c = CHR ''/'') (rev s))"

definition normalize_scope_path :: "string \<Rightarrow> string" where
  "normalize_scope_path path =
    (let s = trim_end_slash (slashes path) in if starts_with ''./'' s then drop 2 s else s)"

definition under :: "string \<Rightarrow> string \<Rightarrow> bool" where
  "under scope path \<longleftrightarrow> starts_with (scope @ ''/'') path"

definition scopes_overlap :: "string \<Rightarrow> string \<Rightarrow> bool" where
  "scopes_overlap l r \<longleftrightarrow> l = r \<or> under r l \<or> under l r"

type_synonym scopes = "(string \<times> ident) list"

fun claim_scopes :: "ident \<Rightarrow> string list \<Rightarrow> scopes \<Rightarrow> scopes res" where
  "claim_scopes t [] scopes = Inr scopes"
| "claim_scopes t (path # paths) scopes =
    (if \<exists>existing \<in> fst ` set scopes. scopes_overlap (normalize_scope_path path) existing
     then Inl AmbiguousTaskOwner
     else claim_scopes t paths (AList.update (normalize_scope_path path) t scopes))"

fun check_scopes :: "nodes \<Rightarrow> ident list \<Rightarrow> scopes \<Rightarrow> scopes res" where
  "check_scopes nodes [] scopes = Inr scopes"
| "check_scopes nodes (t # ts) scopes =
    (case map_of nodes t of
      None \<Rightarrow> Inl TaskNotFound
    | Some node \<Rightarrow>
        (case claim_scopes t (dg_write_scope (tb_grants (tn_brief node))) scopes of
          Inl e \<Rightarrow> Inl e
        | Inr scopes' \<Rightarrow> check_scopes nodes ts scopes'))"

section \<open>Dependencies\<close>

fun check_dependencies :: "nodes \<Rightarrow> ident \<Rightarrow> ident set \<Rightarrow> ident list \<Rightarrow> unit res" where
  "check_dependencies nodes t seen [] = Inr ()"
| "check_dependencies nodes t seen (d # ds) =
    (if d = t then Inl DagCycle
     else if map_of nodes d = None then Inl UnknownTaskDependency
     else if d \<in> seen then Inl DuplicateTaskId
     else check_dependencies nodes t (insert d seen) ds)"

fun check_all_dependencies :: "nodes \<Rightarrow> ident list \<Rightarrow> unit res" where
  "check_all_dependencies nodes [] = Inr ()"
| "check_all_dependencies nodes (t # ts) =
    (case map_of nodes t of
      None \<Rightarrow> Inl TaskNotFound
    | Some node \<Rightarrow>
        (case check_dependencies nodes t {} (tn_depends_on node) of
          Inl e \<Rightarrow> Inl e
        | Inr _ \<Rightarrow> check_all_dependencies nodes ts))"

text \<open>
  The depth-first search. The map \<^verbatim>\<open>state\<close> holds 1 for a task being visited and 2 for a task
  that is done; it and \<^verbatim>\<open>sorted\<close> are threaded through the calls.
\<close>

type_synonym search = "(ident \<rightharpoonup> nat) \<times> ident list"

function task_visit :: "nodes \<Rightarrow> ident \<Rightarrow> search \<Rightarrow> search res"
  and task_visit_each :: "nodes \<Rightarrow> ident list \<Rightarrow> search \<Rightarrow> search res" where
  "task_visit nodes t (st, out) =
    (if st t = Some 1 then Inl DagCycle
     else if st t = Some 2 then Inr (st, out)
     else case map_of nodes t of
       None \<Rightarrow> Inl UnknownTaskDependency
     | Some node \<Rightarrow>
         (case task_visit_each nodes (tn_depends_on node) (st(t \<mapsto> 1), out) of
           Inl e \<Rightarrow> Inl e
         | Inr (st', out') \<Rightarrow> Inr (st'(t \<mapsto> 2), out' @ [t])))"
| "task_visit_each nodes [] (st, out) = Inr (st, out)"
| "task_visit_each nodes (d # ds) (st, out) =
    (case task_visit nodes d (st, out) of
      Inl e \<Rightarrow> Inl e
    | Inr (st', out') \<Rightarrow> task_visit_each nodes ds (st', out'))"
  by pat_completeness auto

text \<open>The nodes a search has not touched yet.\<close>

definition untouched :: "nodes \<Rightarrow> (ident \<rightharpoonup> nat) \<Rightarrow> ident set" where
  "untouched nodes st = {k \<in> fst ` set nodes. st k \<noteq> Some 1 \<and> st k \<noteq> Some 2}"

lemma finite_untouched [simp]: "finite (untouched nodes st)"
  by (simp add: untouched_def)

lemma task_visit_untouched_aux:
  "task_visit_task_visit_each_dom (Inl (nodes, t, s)) \<Longrightarrow> task_visit nodes t s = Inr s' \<Longrightarrow>
    untouched nodes (fst s') \<subseteq> untouched nodes (fst s)"
  "task_visit_task_visit_each_dom (Inr (nodes, ds, s)) \<Longrightarrow> task_visit_each nodes ds s = Inr s' \<Longrightarrow>
    untouched nodes (fst s') \<subseteq> untouched nodes (fst s)"
proof (induction nodes t s and nodes ds s arbitrary: s' and s'
    rule: task_visit_task_visit_each.pinduct)
  case (1 nodes t st out)
  note eq = task_visit.psimps [OF "1.hyps"]
  show ?case
  proof (cases "st t = Some 1 \<or> st t = Some 2")
    case True
    with "1.prems" eq show ?thesis by (auto split: if_splits)
  next
    case False
    with "1.prems" eq obtain node st2 out2 where n: "map_of nodes t = Some node"
      and r: "task_visit_each nodes (tn_depends_on node) (st(t \<mapsto> 1), out) = Inr (st2, out2)"
      and s': "s' = (st2(t \<mapsto> 2), out2 @ [t])"
      by (auto split: option.splits sum.splits)
    from "1.IH" [OF _ _ n r] False
    have "untouched nodes (fst (st2, out2)) \<subseteq> untouched nodes (fst (st(t \<mapsto> 1), out))" by blast
    then have "untouched nodes st2 \<subseteq> untouched nodes (st(t \<mapsto> 1))" by (simp only: fst_conv)
    with s' show ?thesis by (auto simp: untouched_def)
  qed
next
  case (2 nodes st out)
  then show ?case by (simp add: task_visit_each.psimps)
next
  case (3 nodes d ds st out)
  note eq = task_visit_each.psimps(2) [OF "3.hyps"]
  from "3.prems" eq obtain st2 out2 where r: "task_visit nodes d (st, out) = Inr (st2, out2)"
    and r2: "task_visit_each nodes ds (st2, out2) = Inr s'"
    by (auto split: sum.splits)
  from "3.IH"(1) [OF r] "3.IH"(2) [OF r refl r2] show ?case by auto
qed

termination task_visit
proof (relation "inv_image (less_than <*lex*> less_than)
    (\<lambda>x. case x of Inl (nodes, t, s) \<Rightarrow> (card (untouched nodes (fst s)), 0)
       | Inr (nodes, ds, s) \<Rightarrow> (card (untouched nodes (fst s)), Suc (length ds)))", goal_cases)
  case (2 nodes t st out node)
  then have "t \<in> fst ` set nodes" by (metis map_of_eq_None_iff option.distinct(1))
  with 2 have "untouched nodes (st(t \<mapsto> 1)) \<subset> untouched nodes st" by (auto simp: untouched_def)
  then show ?case by (simp add: psubset_card_mono)
next
  case (4 nodes d ds st out s st2 out2)
  from task_visit_untouched_aux(1) [OF 4(3) 4(1)]
  have "untouched nodes st2 \<subseteq> untouched nodes st" by (simp only: fst_conv flip: 4(2))
  then have "card (untouched nodes st2) \<le> card (untouched nodes st)" by (intro card_mono) simp_all
  then show ?case by auto
qed auto

declare task_visit.simps [simp del]

definition topological_sort :: "nodes \<Rightarrow> ident list \<Rightarrow> ident list res" where
  "topological_sort nodes order =
    (case task_visit_each nodes order (Map.empty, []) of
      Inl e \<Rightarrow> Inl e
    | Inr (_, out) \<Rightarrow> Inr out)"

section \<open>Compiling\<close>

definition compile :: "task_graph \<Rightarrow> task_plan res" where
  "compile g =
    (if gr_schema_version g \<noteq> delegation_contract_version then Inl UnsupportedSchemaVersion
     else if wr_role (gr_coordinator g) \<noteq> RoleCoordinator then Inl AmbiguousTaskOwner
     else if length (gr_tasks g) > default_max_workers then Inl BudgetExhausted
     else case collect_nodes (gr_tasks g) ([], []) of
       Inl e \<Rightarrow> Inl e
     | Inr (order, nodes) \<Rightarrow>
         if nodes = [] then Inl InvalidPayload
         else case assign_depths order nodes of
           Inl e \<Rightarrow> Inl e
         | Inr nodes' \<Rightarrow>
           (case check_scopes nodes' order [] of
             Inl e \<Rightarrow> Inl e
           | Inr _ \<Rightarrow>
             (case check_all_dependencies nodes' order of
               Inl e \<Rightarrow> Inl e
             | Inr _ \<Rightarrow>
               (case topological_sort nodes' order of
                 Inl e \<Rightarrow> Inl e
               | Inr out \<Rightarrow> Inr \<lparr>tp_schema_version = delegation_contract_version,
                   tp_coordinator = gr_coordinator g, tp_order = order, tp_nodes = nodes',
                   tp_topological_order = out\<rparr>))))"

definition plan_node :: "task_plan \<Rightarrow> ident \<Rightarrow> task_node option" where
  "plan_node p t = map_of (tp_nodes p) t"

section \<open>What each loop accepts\<close>

definition node_table :: "task_node list \<Rightarrow> nodes" where
  "node_table ns = map (\<lambda>n. (tn_task_id n, n)) ns"

lemma fst_node_table [simp]: "map fst (node_table ns) = map tn_task_id ns"
  by (simp add: node_table_def)

lemma collect_nodes_iff:
  "collect_nodes ns (order, nodes) = Inr (order', nodes') \<longleftrightarrow>
    (\<forall>n \<in> set ns. node_validate n = Inr () \<and> tn_parent_task_id n \<noteq> Some (tn_task_id n)) \<and>
    distinct (map tn_task_id ns) \<and> tn_task_id ` set ns \<inter> fst ` set nodes = {} \<and>
    order' = order @ map tn_task_id ns \<and> nodes' = nodes @ node_table ns"
proof (induction ns arbitrary: order nodes)
  case (Cons n ns)
  show ?case
  proof (cases "node_validate n = Inr () \<and> tn_parent_task_id n \<noteq> Some (tn_task_id n)
      \<and> tn_task_id n \<notin> fst ` set nodes")
    case True
    then have "collect_nodes (n # ns) (order, nodes) =
        collect_nodes ns (order @ [tn_task_id n], nodes @ [(tn_task_id n, n)])"
      by (simp add: map_of_eq_None_iff)
    with True Cons.IH [of "order @ [tn_task_id n]" "nodes @ [(tn_task_id n, n)]"] show ?thesis
      by (auto simp: node_table_def)
  next
    case False
    then have "collect_nodes (n # ns) (order, nodes) \<noteq> Inr (order', nodes')"
      by (auto simp: map_of_eq_None_iff split: sum.splits)
    with False show ?thesis by auto
  qed
qed (auto simp: node_table_def)

text \<open>The depth a chain of parents gives, as a relation on the cursor of the loop.\<close>

inductive parent_depth :: "nodes \<Rightarrow> ident option \<Rightarrow> nat \<Rightarrow> bool" for nodes where
  no_parent: "parent_depth nodes None 0"
| outside: "map_of nodes parent = None \<Longrightarrow> parent_depth nodes (Some parent) 0"
| inside: "map_of nodes parent = Some node \<Longrightarrow> parent_depth nodes (tn_parent_task_id node) d \<Longrightarrow>
    parent_depth nodes (Some parent) (Suc d)"

inductive_simps parent_depth_None [simp]: "parent_depth nodes None d"
inductive_simps parent_depth_Some: "parent_depth nodes (Some parent) d"

lemma parent_depth_unique: "parent_depth nodes c d \<Longrightarrow> parent_depth nodes c e \<Longrightarrow> d = e"
proof (induction arbitrary: e rule: parent_depth.induct)
  case (inside parent node d)
  from inside.prems inside.hyps(1)
  obtain e' where "e = Suc e'" "parent_depth nodes (tn_parent_task_id node) e'"
    by (cases rule: parent_depth.cases) auto
  with inside.IH show ?case by blast
qed (auto simp: parent_depth_Some)

lemma parent_depth_bound:
  assumes "parent_depth nodes c d"
  shows "\<exists>S \<subseteq> fst ` set nodes. card S = d \<and>
    (\<forall>k \<in> S. \<exists>n e. map_of nodes k = Some n \<and> parent_depth nodes (tn_parent_task_id n) e \<and> e < d)"
  using assms
proof (induction rule: parent_depth.induct)
  case (inside parent node d)
  then obtain S where S: "S \<subseteq> fst ` set nodes" "card S = d"
    "\<forall>k \<in> S. \<exists>n e. map_of nodes k = Some n \<and> parent_depth nodes (tn_parent_task_id n) e \<and> e < d"
    by blast
  have "parent \<notin> S"
  proof
    assume "parent \<in> S"
    with S(3) inside.hyps(1) obtain e where "parent_depth nodes (tn_parent_task_id node) e" "e < d"
      by fastforce
    with parent_depth_unique [OF inside.hyps(2)] show False by blast
  qed
  moreover from S(1) have "finite S" by (rule finite_subset) simp
  ultimately have "card (insert parent S) = Suc d" using S(2) by simp
  moreover from inside.hyps(1) have "parent \<in> fst ` set nodes"
    by (metis map_of_eq_None_iff option.distinct(1))
  moreover have "\<forall>k \<in> insert parent S. \<exists>n e. map_of nodes k = Some n \<and>
      parent_depth nodes (tn_parent_task_id n) e \<and> e < Suc d"
  proof
    fix k assume "k \<in> insert parent S"
    then consider "k = parent" | "k \<in> S" by blast
    then show "\<exists>n e. map_of nodes k = Some n \<and> parent_depth nodes (tn_parent_task_id n) e \<and> e < Suc d"
    proof cases
      case 1
      with inside.hyps show ?thesis by blast
    next
      case 2
      with S(3) show ?thesis using less_SucI by blast
    qed
  qed
  ultimately show ?case using S(1) by (intro exI [of _ "insert parent S"]) simp
qed auto

lemma parent_depth_le: "parent_depth nodes c d \<Longrightarrow> d \<le> length nodes"
proof -
  assume "parent_depth nodes c d"
  from parent_depth_bound [OF this] obtain S where "S \<subseteq> fst ` set nodes" and c: "card S = d" by blast
  then have "card S \<le> card (fst ` set nodes)" by (intro card_mono) simp_all
  also have "\<dots> \<le> length nodes"
    using card_length [of "map fst nodes"] by simp
  finally show ?thesis by (simp add: c)
qed

lemma depth_loop_sound:
  "depth_loop nodes c guard depth = Inr r \<Longrightarrow> \<exists>d. parent_depth nodes c d \<and> r = depth + d"
proof (induction nodes c guard depth rule: depth_loop.induct)
  case (2 nodes parent guard depth)
  show ?case
  proof (cases "map_of nodes parent")
    case None
    with "2.prems" show ?thesis by (auto simp: parent_depth_Some split: if_splits)
  next
    case (Some node)
    with "2.prems" have "guard + 1 \<le> length nodes + 1"
      and "depth_loop nodes (tn_parent_task_id node) (guard + 1) (depth + 1) = Inr r"
      by (auto split: if_splits)
    with "2.IH" [OF _ Some] obtain d where "parent_depth nodes (tn_parent_task_id node) d" "r = depth + 1 + d"
      by auto
    with Some show ?thesis by (intro exI [of _ "Suc d"]) (simp add: parent_depth.inside)
  qed
qed simp

lemma depth_loop_complete:
  "parent_depth nodes c d \<Longrightarrow> guard + d \<le> length nodes \<Longrightarrow> depth_loop nodes c guard depth = Inr (depth + d)"
  by (induction arbitrary: guard depth rule: parent_depth.induct) simp_all

lemma depth_from_parents_iff:
  "map_of nodes t = Some n \<Longrightarrow>
    depth_from_parents nodes t = Inr d \<longleftrightarrow> parent_depth nodes (tn_parent_task_id n) d"
  using depth_loop_sound [of nodes "tn_parent_task_id n" 0 0 d]
    depth_loop_complete [of nodes "tn_parent_task_id n" d 0 0] parent_depth_le
  by (auto simp: depth_from_parents_def)

text \<open>Two tables that differ in depths only.\<close>

definition same_tasks :: "nodes \<Rightarrow> nodes \<Rightarrow> bool" where
  "same_tasks ns ms \<longleftrightarrow> map fst ns = map fst ms \<and>
    (\<forall>k. map_option (tn_depth_update (\<lambda>_. 0)) (map_of ns k) =
      map_option (tn_depth_update (\<lambda>_. 0)) (map_of ms k))"

lemma same_tasks_refl [simp]: "same_tasks ns ns"
  by (simp add: same_tasks_def)

lemma same_tasks_trans: "same_tasks a b \<Longrightarrow> same_tasks b c \<Longrightarrow> same_tasks a c"
  by (simp add: same_tasks_def)

lemma same_tasks_None: "same_tasks ns ms \<Longrightarrow> map_of ms k = None \<longleftrightarrow> map_of ns k = None"
  by (simp add: same_tasks_def map_of_eq_None_iff) (metis list.set_map)

lemma same_tasks_Some:
  assumes "same_tasks ns ms" and "map_of ns k = Some n"
  obtains m where "map_of ms k = Some m" "tn_parent_task_id m = tn_parent_task_id n"
    "tn_brief m = tn_brief n" "tn_depends_on m = tn_depends_on n"
    "tn_depth_update (\<lambda>_. 0) m = tn_depth_update (\<lambda>_. 0) n"
proof -
  from assms have eq: "map_option (tn_depth_update (\<lambda>_. 0)) (map_of ms k) =
      Some (tn_depth_update (\<lambda>_. 0) n)"
    unfolding same_tasks_def by (metis option.simps(9))
  then obtain m where m: "map_of ms k = Some m" "tn_depth_update (\<lambda>_. 0) m = tn_depth_update (\<lambda>_. 0) n"
    by auto
  from m(2) have "tn_parent_task_id m = tn_parent_task_id n" "tn_brief m = tn_brief n"
    "tn_depends_on m = tn_depends_on n"
    by (cases m; cases n; simp)+
  with m show ?thesis by (intro that)
qed

lemma same_tasks_sym: "same_tasks a b \<Longrightarrow> same_tasks b a"
  by (simp add: same_tasks_def)

lemma parent_depth_same:
  assumes "parent_depth ns c d" and same: "same_tasks ns ms"
  shows "parent_depth ms c d"
  using assms(1)
proof (induction rule: parent_depth.induct)
  case (outside parent)
  with same_tasks_None [OF same] show ?case by (simp add: parent_depth.outside)
next
  case (inside parent node d)
  from same_tasks_Some [OF same inside.hyps(1)] obtain m
    where "map_of ms parent = Some m" "tn_parent_task_id m = tn_parent_task_id node" by blast
  with inside.IH show ?case by (simp add: parent_depth.inside)
qed (rule parent_depth.no_parent)

definition depth_ok :: "nodes \<Rightarrow> ident \<Rightarrow> bool" where
  "depth_ok nodes t \<longleftrightarrow> (\<exists>n d. map_of nodes t = Some n \<and>
    parent_depth nodes (tn_parent_task_id n) d \<and> d \<le> default_max_depth \<and>
    d \<le> dg_max_depth (tb_grants (tn_brief n)))"

lemma depth_ok_same: "same_tasks ns ms \<Longrightarrow> depth_ok ns t \<Longrightarrow> depth_ok ms t"
proof -
  assume same: "same_tasks ns ms" and "depth_ok ns t"
  then obtain n d where n: "map_of ns t = Some n" and d: "parent_depth ns (tn_parent_task_id n) d"
    "d \<le> default_max_depth" "d \<le> dg_max_depth (tb_grants (tn_brief n))"
    by (auto simp: depth_ok_def)
  from same_tasks_Some [OF same n] obtain m where m: "map_of ms t = Some m"
    "tn_parent_task_id m = tn_parent_task_id n" "tn_brief m = tn_brief n"
    by blast
  from parent_depth_same [OF d(1) same] m d(2,3) show "depth_ok ms t" by (auto simp: depth_ok_def)
qed

lemma same_tasks_update:
  assumes "map_of nodes t = Some n"
  shows "same_tasks nodes (AList.update t (n\<lparr>tn_depth := d\<rparr>) nodes)"
proof -
  from assms have "t \<in> set (map fst nodes)" by (metis map_of_eq_None_iff option.distinct(1) list.set_map)
  then have "map fst (AList.update t (n\<lparr>tn_depth := d\<rparr>) nodes) = map fst nodes"
    by (simp add: update_keys)
  with assms show ?thesis by (simp add: same_tasks_def update_conv')
qed

lemma assign_depths_same:
  "assign_depths ts nodes = Inr nodes' \<Longrightarrow> same_tasks nodes nodes'"
proof (induction ts arbitrary: nodes)
  case (Cons t ts)
  then obtain d n where n: "map_of nodes t = Some n"
    and r: "assign_depths ts (AList.update t (n\<lparr>tn_depth := d\<rparr>) nodes) = Inr nodes'"
    by (auto split: sum.splits if_splits option.splits)
  from same_tasks_trans [OF same_tasks_update [OF n] Cons.IH [OF r]] show ?case .
qed simp

lemma assign_depths_ok:
  "(\<exists>nodes'. assign_depths ts nodes = Inr nodes') \<longleftrightarrow> (\<forall>t \<in> set ts. depth_ok nodes t)"
proof (induction ts arbitrary: nodes)
  case (Cons t ts)
  show ?case
  proof (cases "depth_ok nodes t")
    case True
    then obtain n d where n: "map_of nodes t = Some n" and d: "parent_depth nodes (tn_parent_task_id n) d"
      "d \<le> default_max_depth" "d \<le> dg_max_depth (tb_grants (tn_brief n))"
      by (auto simp: depth_ok_def)
    from n d(1) have "depth_from_parents nodes t = Inr d" by (simp add: depth_from_parents_iff)
    with n d have step: "assign_depths (t # ts) nodes =
        assign_depths ts (AList.update t (n\<lparr>tn_depth := d\<rparr>) nodes)"
      by simp
    note same = same_tasks_update [OF n, of d]
    have "depth_ok (AList.update t (n\<lparr>tn_depth := d\<rparr>) nodes) u \<longleftrightarrow> depth_ok nodes u" for u
      using depth_ok_same [OF same] depth_ok_same [OF same_tasks_sym [OF same]] by blast
    with True Cons.IH show ?thesis unfolding step by simp
  next
    case False
    have "assign_depths (t # ts) nodes \<noteq> Inr nodes'" for nodes'
    proof
      assume "assign_depths (t # ts) nodes = Inr nodes'"
      then obtain d n where "depth_from_parents nodes t = Inr d" "d \<le> default_max_depth"
        "map_of nodes t = Some n" "d \<le> dg_max_depth (tb_grants (tn_brief n))"
        by (auto split: sum.splits if_splits option.splits)
      with False show False by (auto simp: depth_ok_def depth_from_parents_iff)
    qed
    with False show ?thesis by auto
  qed
qed simp

lemma assign_depths_depth:
  "assign_depths ts nodes = Inr nodes' \<Longrightarrow> t \<in> set ts \<Longrightarrow> map_of nodes' t = Some n \<Longrightarrow>
    parent_depth nodes (tn_parent_task_id n) (tn_depth n)"
proof (induction ts arbitrary: nodes)
  case (Cons u ts)
  from Cons.prems(1) obtain d m where d: "depth_from_parents nodes u = Inr d"
    and m: "map_of nodes u = Some m"
    and r: "assign_depths ts (AList.update u (m\<lparr>tn_depth := d\<rparr>) nodes) = Inr nodes'"
    by (auto split: sum.splits if_splits option.splits)
  note same = same_tasks_update [OF m, of d]
  show ?case
  proof (cases "t \<in> set ts")
    case True
    from Cons.IH [OF r True Cons.prems(3)] show ?thesis
      by (rule parent_depth_same [OF _ same_tasks_sym [OF same]])
  next
    case False
    with Cons.prems(2) have t: "t = u" by simp
    have kept: "map_of nodes' t = map_of xs t" if "assign_depths ts xs = Inr nodes'" "t \<notin> set ts" for xs ts
      using that
    proof (induction ts arbitrary: xs)
      case (Cons v ts)
      then show ?case by (auto simp: update_conv' split: sum.splits if_splits option.splits)
    qed simp
    from kept [OF r False] Cons.prems(3) t have "n = m\<lparr>tn_depth := d\<rparr>" by (simp add: update_conv')
    with d m show ?thesis by (simp add: depth_from_parents_iff)
  qed
qed simp

lemma scopes_overlap_sym: "scopes_overlap a b \<longleftrightarrow> scopes_overlap b a"
  by (auto simp: scopes_overlap_def)

abbreviation apart :: "string list \<Rightarrow> bool" where
  "apart xs \<equiv> sorted_wrt (\<lambda>a b. \<not> scopes_overlap a b) xs"

definition scopes_of :: "task_node \<Rightarrow> string list" where
  "scopes_of n = map normalize_scope_path (dg_write_scope (tb_grants (tn_brief n)))"

lemma claim_scopes_keys:
  "claim_scopes t ps scopes = Inr scopes' \<Longrightarrow>
    fst ` set scopes' = fst ` set scopes \<union> normalize_scope_path ` set ps"
proof (induction ps arbitrary: scopes)
  case (Cons p ps)
  then have "claim_scopes t ps (AList.update (normalize_scope_path p) t scopes) = Inr scopes'"
    by (auto split: if_splits)
  from Cons.IH [OF this] show ?case by (auto simp: dom_update)
qed simp

lemma claim_scopes_ok:
  "(\<exists>scopes'. claim_scopes t ps scopes = Inr scopes') \<longleftrightarrow>
    apart (map normalize_scope_path ps) \<and>
    (\<forall>a \<in> fst ` set scopes. \<forall>b \<in> normalize_scope_path ` set ps. \<not> scopes_overlap a b)"
proof (induction ps arbitrary: scopes)
  case (Cons p ps)
  have keys: "fst ` set (AList.update (normalize_scope_path p) t scopes) =
      insert (normalize_scope_path p) (fst ` set scopes)"
    by (auto simp: dom_update)
  show ?case
  proof (cases "\<exists>existing \<in> fst ` set scopes. scopes_overlap (normalize_scope_path p) existing")
    case True
    then show ?thesis using scopes_overlap_sym by auto
  next
    case False
    then have "(\<exists>scopes'. claim_scopes t (p # ps) scopes = Inr scopes') \<longleftrightarrow>
        (\<exists>scopes'. claim_scopes t ps (AList.update (normalize_scope_path p) t scopes) = Inr scopes')"
      by simp
    with False show ?thesis unfolding Cons.IH keys using scopes_overlap_sym by auto
  qed
qed simp

lemma sorted_wrt_app:
  "sorted_wrt P (xs @ ys) \<longleftrightarrow> sorted_wrt P xs \<and> sorted_wrt P ys \<and> (\<forall>a \<in> set xs. \<forall>b \<in> set ys. P a b)"
  by (rule sorted_wrt_append)

lemma check_scopes_ok:
  assumes "\<forall>t \<in> set ts. \<exists>n. map_of nodes t = Some n"
  shows "(\<exists>scopes'. check_scopes nodes ts scopes = Inr scopes') \<longleftrightarrow>
    apart (concat (map (\<lambda>t. scopes_of (the (map_of nodes t))) ts)) \<and>
    (\<forall>a \<in> fst ` set scopes. \<forall>t \<in> set ts. \<forall>b \<in> set (scopes_of (the (map_of nodes t))).
      \<not> scopes_overlap a b)"
  using assms
proof (induction ts arbitrary: scopes)
  case (Cons t ts)
  then obtain n where n: "map_of nodes t = Some n" by auto
  let ?ps = "dg_write_scope (tb_grants (tn_brief n))"
  let ?F = "\<lambda>t. scopes_of (the (map_of nodes t))"
  have set_scopes: "set (scopes_of n) = normalize_scope_path ` set ?ps" by (simp add: scopes_of_def)
  have split: "apart (concat (map ?F (t # ts))) \<longleftrightarrow> apart (scopes_of n) \<and> apart (concat (map ?F ts)) \<and>
      (\<forall>a \<in> set (scopes_of n). \<forall>u \<in> set ts. \<forall>b \<in> set (?F u). \<not> scopes_overlap a b)"
    using n by (auto simp: sorted_wrt_app)
  have Ft: "?F t = scopes_of n" using n by simp
  show ?case
  proof (cases "\<exists>scopes'. claim_scopes t ?ps scopes = Inr scopes'")
    case True
    then obtain s1 where s1: "claim_scopes t ?ps scopes = Inr s1" by blast
    note keys = claim_scopes_keys [OF s1]
    from True have ok: "apart (scopes_of n)"
      "\<forall>a \<in> fst ` set scopes. \<forall>b \<in> set (scopes_of n). \<not> scopes_overlap a b"
      unfolding claim_scopes_ok set_scopes by (simp_all add: scopes_of_def)
    from n s1 have "(\<exists>scopes'. check_scopes nodes (t # ts) scopes = Inr scopes') \<longleftrightarrow>
        (\<exists>scopes'. check_scopes nodes ts s1 = Inr scopes')"
      by simp
    also have "\<dots> \<longleftrightarrow> apart (concat (map (\<lambda>t. scopes_of (the (map_of nodes t))) ts)) \<and>
        (\<forall>a \<in> fst ` set s1. \<forall>t \<in> set ts. \<forall>b \<in> set (scopes_of (the (map_of nodes t))).
          \<not> scopes_overlap a b)"
      using Cons.prems by (intro Cons.IH) simp
    finally show ?thesis using ok unfolding split keys set_scopes [symmetric] ball_Un list.set ball_simps Ft
      by blast
  next
    case False
    then have "\<not> (\<exists>scopes'. check_scopes nodes (t # ts) scopes = Inr scopes')"
      using n by (auto split: sum.splits)
    moreover from False have "\<not> (apart (scopes_of n) \<and>
        (\<forall>a \<in> fst ` set scopes. \<forall>b \<in> set (scopes_of n). \<not> scopes_overlap a b))"
      unfolding claim_scopes_ok set_scopes by (simp add: scopes_of_def)
    ultimately show ?thesis unfolding split list.set ball_simps Ft by blast
  qed
qed simp

lemma check_dependencies_ok:
  "check_dependencies nodes t seen ds = Inr () \<longleftrightarrow>
    t \<notin> set ds \<and> set ds \<subseteq> fst ` set nodes \<and> distinct ds \<and> set ds \<inter> seen = {}"
  by (induction ds arbitrary: seen) (auto simp: map_of_eq_None_iff)

lemma check_all_dependencies_ok:
  assumes "\<forall>t \<in> set ts. \<exists>n. map_of nodes t = Some n"
  shows "check_all_dependencies nodes ts = Inr () \<longleftrightarrow>
    (\<forall>t \<in> set ts. check_dependencies nodes t {} (tn_depends_on (the (map_of nodes t))) = Inr ())"
  using assms
proof (induction ts)
  case (Cons t ts)
  then obtain n where "map_of nodes t = Some n" by auto
  with Cons show ?case by (cases "check_dependencies nodes t {} (tn_depends_on n)") simp_all
qed simp

section \<open>The search\<close>

definition deps :: "nodes \<Rightarrow> ident \<Rightarrow> ident set" where
  "deps nodes t = (case map_of nodes t of None \<Rightarrow> {} | Some n \<Rightarrow> set (tn_depends_on n))"

definition dep_rel :: "nodes \<Rightarrow> (ident \<times> ident) set" where
  "dep_rel nodes = {(t, d). d \<in> deps nodes t}"

definition search_ok :: "nodes \<Rightarrow> search \<Rightarrow> bool" where
  "search_ok nodes s \<longleftrightarrow> dependency_order (deps nodes) (snd s) \<and>
    (\<forall>k. fst s k = Some 2 \<longleftrightarrow> k \<in> set (snd s)) \<and> set (snd s) \<subseteq> fst ` set nodes"

text \<open>What a call that succeeds does to the state of the search.\<close>

definition search_grows :: "ident set \<Rightarrow> search \<Rightarrow> search \<Rightarrow> bool" where
  "search_grows done s s' \<longleftrightarrow> (\<forall>k. fst s' k = Some 1 \<longleftrightarrow> fst s k = Some 1) \<and>
    set (snd s) \<subseteq> set (snd s') \<and> done \<subseteq> set (snd s')"

lemma search_growsD:
  assumes "search_grows d s s'"
  shows "fst s' k = Some 1 \<longleftrightarrow> fst s k = Some 1" "set (snd s) \<subseteq> set (snd s')" "d \<subseteq> set (snd s')"
  using assms by (simp_all add: search_grows_def)

lemma task_visit_sound:
  "task_visit nodes t s = Inr s' \<Longrightarrow> search_ok nodes s \<Longrightarrow> search_ok nodes s' \<and> search_grows {t} s s'"
  "task_visit_each nodes ds s = Inr s' \<Longrightarrow> search_ok nodes s \<Longrightarrow>
    search_ok nodes s' \<and> search_grows (set ds) s s'"
proof (induction nodes t s and nodes ds s arbitrary: s' and s' rule: task_visit_task_visit_each.induct)
  case (1 nodes t st out)
  show ?case
  proof (cases "st t = Some 1 \<or> st t = Some 2")
    case True
    with "1.prems" show ?thesis
      by (auto simp: task_visit.simps search_ok_def search_grows_def split: if_splits)
  next
    case False
    with "1.prems" obtain node st2 out2 where n: "map_of nodes t = Some node"
      and r: "task_visit_each nodes (tn_depends_on node) (st(t \<mapsto> 1), out) = Inr (st2, out2)"
      and s': "s' = (st2(t \<mapsto> 2), out2 @ [t])"
      by (auto simp: task_visit.simps split: option.splits sum.splits)
    from "1.prems"(2) False have "search_ok nodes (st(t \<mapsto> 1), out)" by (auto simp: search_ok_def)
    with "1.IH" [OF _ _ n r] False have ok: "search_ok nodes (st2, out2)"
      and grows: "search_grows (set (tn_depends_on node)) (st(t \<mapsto> 1), out) (st2, out2)"
      by blast+
    note g = search_growsD [OF grows]
    from g(1) [of t] have "st2 t = Some 1" by simp
    moreover from ok have "st2 t = Some 2 \<longleftrightarrow> t \<in> set out2" by (simp add: search_ok_def)
    ultimately have new: "t \<notin> set out2" by simp
    from n have key: "t \<in> fst ` set nodes" by (metis map_of_eq_None_iff option.distinct(1))
    have "search_ok nodes s'"
      using ok new key g(3) n by (auto simp: search_ok_def s' deps_def)
    moreover have "search_grows {t} (st, out) s'"
      using g(1,2) False by (auto simp: search_grows_def s' split: if_splits)
    ultimately show ?thesis by blast
  qed
next
  case (2 nodes st out)
  then show ?case by (simp add: search_grows_def)
next
  case (3 nodes d ds st out)
  from "3.prems" obtain st2 out2 where r: "task_visit nodes d (st, out) = Inr (st2, out2)"
    and r2: "task_visit_each nodes ds (st2, out2) = Inr s'"
    by (auto split: sum.splits)
  from "3.IH"(1) [OF r "3.prems"(2)] have ok: "search_ok nodes (st2, out2)"
    and g1: "search_grows {d} (st, out) (st2, out2)" by blast+
  from "3.IH"(2) [OF r refl r2 ok] have "search_ok nodes s'"
    and g2: "search_grows (set ds) (st2, out2) s'" by blast+
  moreover have "search_grows (set (d # ds)) (st, out) s'"
    using search_growsD [OF g1] search_growsD [OF g2] by (auto simp: search_grows_def)
  ultimately show ?case by blast
qed

definition closed_deps :: "nodes \<Rightarrow> bool" where
  "closed_deps nodes \<longleftrightarrow> (\<forall>t. deps nodes t \<subseteq> fst ` set nodes)"

lemma task_visit_complete:
  "task_visit nodes t s = Inl e \<Longrightarrow> search_ok nodes s \<Longrightarrow> closed_deps nodes \<Longrightarrow> t \<in> fst ` set nodes \<Longrightarrow>
    \<forall>v. fst s v = Some 1 \<longrightarrow> (v, t) \<in> (dep_rel nodes)\<^sup>+ \<Longrightarrow>
    e = DagCycle \<and> \<not> acyclic (dep_rel nodes)"
  "task_visit_each nodes ds s = Inl e \<Longrightarrow> search_ok nodes s \<Longrightarrow> closed_deps nodes \<Longrightarrow>
    set ds \<subseteq> fst ` set nodes \<Longrightarrow>
    \<forall>v. \<forall>d \<in> set ds. fst s v = Some 1 \<longrightarrow> (v, d) \<in> (dep_rel nodes)\<^sup>+ \<Longrightarrow>
    e = DagCycle \<and> \<not> acyclic (dep_rel nodes)"
proof (induction nodes t s and nodes ds s rule: task_visit_task_visit_each.induct)
  case (1 nodes t st out)
  show ?case
  proof (cases "st t = Some 1")
    case True
    with "1.prems" show ?thesis by (auto simp: task_visit.simps acyclic_def)
  next
    case False
    with "1.prems"(1) have two: "st t \<noteq> Some 2" by (auto simp: task_visit.simps)
    from "1.prems"(4) obtain node where n: "map_of nodes t = Some node"
      by (metis map_of_eq_None_iff not_None_eq)
    from "1.prems"(1) False two n
    have r: "task_visit_each nodes (tn_depends_on node) (st(t \<mapsto> 1), out) = Inl e"
      by (auto simp: task_visit.simps split: sum.splits)
    from n have dep: "deps nodes t = set (tn_depends_on node)" by (simp add: deps_def)
    have "search_ok nodes (st(t \<mapsto> 1), out)" using "1.prems"(2) two by (auto simp: search_ok_def)
    moreover have "set (tn_depends_on node) \<subseteq> fst ` set nodes"
      using "1.prems"(3) dep unfolding closed_deps_def by blast
    moreover have "\<forall>v. \<forall>d \<in> set (tn_depends_on node). fst (st(t \<mapsto> 1), out) v = Some 1 \<longrightarrow>
        (v, d) \<in> (dep_rel nodes)\<^sup>+"
    proof (intro allI ballI impI)
      fix v d assume d: "d \<in> set (tn_depends_on node)" and v: "fst (st(t \<mapsto> 1), out) v = Some 1"
      from d dep have td: "(t, d) \<in> dep_rel nodes" by (simp add: dep_rel_def)
      show "(v, d) \<in> (dep_rel nodes)\<^sup>+"
      proof (cases "v = t")
        case True
        with td show ?thesis by blast
      next
        case False
        with v "1.prems"(5) have "(v, t) \<in> (dep_rel nodes)\<^sup>+" by simp
        with td show ?thesis by (rule trancl_into_trancl [rotated])
      qed
    qed
    ultimately show ?thesis using "1.IH" [OF False two n r] "1.prems"(3) by blast
  qed
next
  case (2 nodes st out)
  then show ?case by simp
next
  case (3 nodes d ds st out)
  show ?case
  proof (cases "task_visit nodes d (st, out)")
    case (Inl e')
    with "3.prems"(1) have "e' = e" by simp
    with Inl "3.IH"(1) "3.prems" show ?thesis by simp
  next
    case (Inr p)
    obtain st2 out2 where p: "p = (st2, out2)" by (cases p)
    note v = Inr [unfolded p]
    from task_visit_sound(1) [OF v "3.prems"(2)] have ok: "search_ok nodes (st2, out2)"
      and g: "search_grows {d} (st, out) (st2, out2)" by blast+
    from v "3.prems"(1) have r: "task_visit_each nodes ds (st2, out2) = Inl e" by simp
    have "\<forall>v. \<forall>d \<in> set ds. fst (st2, out2) v = Some 1 \<longrightarrow> (v, d) \<in> (dep_rel nodes)\<^sup>+"
      using search_growsD(1) [OF g] "3.prems"(5) by simp
    with "3.IH"(2) [OF v refl r ok "3.prems"(3)] "3.prems"(4) show ?thesis by simp
  qed
qed

lemma topological_sort_order:
  assumes "topological_sort nodes order = Inr out"
  shows "dependency_order (deps nodes) out" "set order \<subseteq> set out" "set out \<subseteq> fst ` set nodes"
proof -
  from assms obtain st where r: "task_visit_each nodes order (Map.empty, []) = Inr (st, out)"
    by (auto simp: topological_sort_def split: sum.splits)
  have "search_ok nodes (Map.empty, [])" by (simp add: search_ok_def)
  from task_visit_sound(2) [OF r this]
  show "dependency_order (deps nodes) out" "set order \<subseteq> set out" "set out \<subseteq> fst ` set nodes"
    by (simp_all add: search_ok_def search_grows_def)
qed

lemma topological_sort_iff:
  assumes "closed_deps nodes" and "set order = fst ` set nodes"
  shows "(\<exists>out. topological_sort nodes order = Inr out) \<longleftrightarrow> acyclic (dep_rel nodes)"
proof
  assume "\<exists>out. topological_sort nodes order = Inr out"
  then obtain out where "topological_sort nodes order = Inr out" by blast
  note o = topological_sort_order [OF this]
  have "n \<in> set out" if "deps nodes n \<noteq> {}" for n
  proof -
    from that have "n \<in> fst ` set nodes"
      by (auto simp: deps_def split: option.splits) (metis map_of_eq_None_iff option.distinct(1))
    with o(2) assms(2) show ?thesis by blast
  qed
  with o(1) show "acyclic (dep_rel nodes)"
    unfolding dep_rel_def by (rule dependency_order_acyclic)
next
  assume acyclic: "acyclic (dep_rel nodes)"
  show "\<exists>out. topological_sort nodes order = Inr out"
  proof (cases "task_visit_each nodes order (Map.empty, [])")
    case (Inl e)
    have "search_ok nodes (Map.empty, [])" by (simp add: search_ok_def)
    with task_visit_complete(2) [OF Inl] assms acyclic show ?thesis by simp
  next
    case (Inr p)
    then show ?thesis by (cases p) (simp add: topological_sort_def)
  qed
qed

section \<open>The graphs that compile\<close>

text \<open>The contract of a task graph, stated on the tasks alone.\<close>

definition task_depends :: "task_node list \<Rightarrow> (ident \<times> ident) set" where
  "task_depends ns = {(tn_task_id n, d) | n d. n \<in> set ns \<and> d \<in> set (tn_depends_on n)}"

definition well_planned :: "task_graph \<Rightarrow> bool" where
  "well_planned g \<longleftrightarrow> gr_schema_version g = delegation_contract_version \<and>
    wr_role (gr_coordinator g) = RoleCoordinator \<and>
    gr_tasks g \<noteq> [] \<and> length (gr_tasks g) \<le> default_max_workers \<and>
    distinct (map tn_task_id (gr_tasks g)) \<and>
    (\<forall>n \<in> set (gr_tasks g). node_validate n = Inr () \<and>
      tn_parent_task_id n \<noteq> Some (tn_task_id n) \<and>
      (\<exists>d. parent_depth (node_table (gr_tasks g)) (tn_parent_task_id n) d \<and>
        d \<le> default_max_depth \<and> d \<le> dg_max_depth (tb_grants (tn_brief n))) \<and>
      tn_task_id n \<notin> set (tn_depends_on n) \<and> distinct (tn_depends_on n) \<and>
      set (tn_depends_on n) \<subseteq> tn_task_id ` set (gr_tasks g)) \<and>
    apart (concat (map scopes_of (gr_tasks g))) \<and>
    acyclic (task_depends (gr_tasks g))"

lemma node_table_keys [simp]: "fst ` set (node_table ns) = tn_task_id ` set ns"
  by (force simp: node_table_def)

lemma map_of_node_table:
  assumes "distinct (map tn_task_id ns)"
  shows "map_of (node_table ns) k = Some n \<longleftrightarrow> n \<in> set ns \<and> k = tn_task_id n"
proof -
  from assms have "distinct (map fst (node_table ns))" by simp
  then show ?thesis by (auto simp: map_of_eq_Some_iff) (auto simp: node_table_def)
qed

lemma deps_same: "same_tasks ns ms \<Longrightarrow> deps ms t = deps ns t"
proof (cases "map_of ns t")
  case None
  moreover assume "same_tasks ns ms"
  ultimately show ?thesis using same_tasks_None [of ns ms t] by (simp add: deps_def)
next
  case (Some n)
  assume "same_tasks ns ms"
  from same_tasks_Some [OF this Some] obtain m where "map_of ms t = Some m"
    "tn_depends_on m = tn_depends_on n" by blast
  with Some show ?thesis by (simp add: deps_def)
qed

lemma compile_steps:
  "compile g = Inr p \<longleftrightarrow> gr_schema_version g = delegation_contract_version \<and>
    wr_role (gr_coordinator g) = RoleCoordinator \<and> length (gr_tasks g) \<le> default_max_workers \<and>
    (\<exists>order nodes nodes' s out. collect_nodes (gr_tasks g) ([], []) = Inr (order, nodes) \<and> nodes \<noteq> [] \<and>
      assign_depths order nodes = Inr nodes' \<and> check_scopes nodes' order [] = Inr s \<and>
      check_all_dependencies nodes' order = Inr () \<and> topological_sort nodes' order = Inr out \<and>
      p = \<lparr>tp_schema_version = delegation_contract_version, tp_coordinator = gr_coordinator g,
        tp_order = order, tp_nodes = nodes', tp_topological_order = out\<rparr>)"
  unfolding compile_def by (auto split: sum.splits if_splits)

lemma compileE:
  assumes "compile g = Inr p"
  obtains s where "gr_schema_version g = delegation_contract_version"
    "wr_role (gr_coordinator g) = RoleCoordinator" "length (gr_tasks g) \<le> default_max_workers"
    "gr_tasks g \<noteq> []" "distinct (map tn_task_id (gr_tasks g))"
    "\<forall>n \<in> set (gr_tasks g). node_validate n = Inr () \<and> tn_parent_task_id n \<noteq> Some (tn_task_id n)"
    "tp_order p = map tn_task_id (gr_tasks g)"
    "assign_depths (tp_order p) (node_table (gr_tasks g)) = Inr (tp_nodes p)"
    "check_scopes (tp_nodes p) (tp_order p) [] = Inr s"
    "check_all_dependencies (tp_nodes p) (tp_order p) = Inr ()"
    "topological_sort (tp_nodes p) (tp_order p) = Inr (tp_topological_order p)"
    "tp_coordinator p = gr_coordinator g"
  using assms unfolding compile_steps by (auto simp: collect_nodes_iff node_table_def intro: that)

text \<open>What a table that differs from the proposed tasks in depths only says about them.\<close>

lemma table_task:
  assumes "distinct (map tn_task_id ns)" and "same_tasks (node_table ns) N" and "n \<in> set ns"
  obtains m where "map_of N (tn_task_id n) = Some m" "tn_parent_task_id m = tn_parent_task_id n"
    "tn_brief m = tn_brief n" "tn_depends_on m = tn_depends_on n"
    "tn_depth_update (\<lambda>_. 0) m = tn_depth_update (\<lambda>_. 0) n"
proof -
  from assms(3) have "map_of (node_table ns) (tn_task_id n) = Some n"
    by (simp add: map_of_node_table [OF assms(1)])
  then show ?thesis by (rule same_tasks_Some [OF assms(2)]) (rule that)
qed

lemma table_scopes:
  assumes "distinct (map tn_task_id ns)" and "same_tasks (node_table ns) N"
  shows "map (\<lambda>t. scopes_of (the (map_of N t))) (map tn_task_id ns) = map scopes_of ns"
  unfolding map_map
proof (rule map_cong [OF refl])
  fix n assume "n \<in> set ns"
  from table_task [OF assms this] obtain m where "map_of N (tn_task_id n) = Some m" "tn_brief m = tn_brief n"
    by blast
  then show "((\<lambda>t. scopes_of (the (map_of N t))) \<circ> tn_task_id) n = scopes_of n"
    by (simp add: scopes_of_def)
qed

lemma table_keys: "same_tasks (node_table ns) N \<Longrightarrow> fst ` set N = tn_task_id ` set ns"
  by (metis same_tasks_def fst_node_table list.set_map)

lemma table_known:
  assumes "same_tasks (node_table ns) N"
  shows "\<forall>t \<in> set (map tn_task_id ns). \<exists>n. map_of N t = Some n"
proof
  fix t assume "t \<in> set (map tn_task_id ns)"
  then have "t \<in> fst ` set N" unfolding table_keys [OF assms] by simp
  then show "\<exists>n. map_of N t = Some n" by (metis map_of_eq_None_iff not_None_eq)
qed

lemma table_dep_rel:
  assumes "distinct (map tn_task_id ns)" and "same_tasks (node_table ns) N"
  shows "dep_rel N = task_depends ns"
proof -
  have "d \<in> deps (node_table ns) t \<longleftrightarrow> (\<exists>n \<in> set ns. t = tn_task_id n \<and> d \<in> set (tn_depends_on n))" for t d
  proof -
    have "d \<in> deps (node_table ns) t \<longleftrightarrow>
        (\<exists>n. map_of (node_table ns) t = Some n \<and> d \<in> set (tn_depends_on n))"
      by (simp add: deps_def split: option.split)
    then show ?thesis unfolding map_of_node_table [OF assms(1)] by blast
  qed
  then show ?thesis
    unfolding dep_rel_def task_depends_def deps_same [OF assms(2)] by auto
qed

lemma table_dependencies:
  assumes "distinct (map tn_task_id ns)" and "same_tasks (node_table ns) N"
  shows "check_all_dependencies N (map tn_task_id ns) = Inr () \<longleftrightarrow>
    (\<forall>n \<in> set ns. tn_task_id n \<notin> set (tn_depends_on n) \<and> distinct (tn_depends_on n) \<and>
      set (tn_depends_on n) \<subseteq> tn_task_id ` set ns)"
proof -
  have "tn_depends_on (the (map_of N (tn_task_id n))) = tn_depends_on n" if "n \<in> set ns" for n
  proof -
    from table_task [OF assms that] obtain m where "map_of N (tn_task_id n) = Some m"
      "tn_depends_on m = tn_depends_on n" by blast
    then show ?thesis by simp
  qed
  then show ?thesis
    unfolding check_all_dependencies_ok [OF table_known [OF assms(2)]] check_dependencies_ok
      table_keys [OF assms(2)]
    by simp blast
qed

lemma table_depths:
  assumes "distinct (map tn_task_id ns)"
  shows "(\<forall>t \<in> set (map tn_task_id ns). depth_ok (node_table ns) t) \<longleftrightarrow>
    (\<forall>n \<in> set ns. \<exists>d. parent_depth (node_table ns) (tn_parent_task_id n) d \<and>
        d \<le> default_max_depth \<and> d \<le> dg_max_depth (tb_grants (tn_brief n)))"
proof -
  have "depth_ok (node_table ns) (tn_task_id n) \<longleftrightarrow>
      (\<exists>d. parent_depth (node_table ns) (tn_parent_task_id n) d \<and>
        d \<le> default_max_depth \<and> d \<le> dg_max_depth (tb_grants (tn_brief n)))" if "n \<in> set ns" for n
  proof -
    from that have "map_of (node_table ns) (tn_task_id n) = Some n"
      by (simp add: map_of_node_table [OF assms])
    then show ?thesis by (simp add: depth_ok_def)
  qed
  then show ?thesis by simp
qed

lemma table_closed:
  assumes "distinct (map tn_task_id ns)" and "same_tasks (node_table ns) N"
    and "\<forall>n \<in> set ns. set (tn_depends_on n) \<subseteq> tn_task_id ` set ns"
  shows "closed_deps N"
proof -
  have "d \<in> tn_task_id ` set ns" if "d \<in> deps N t" for t d
  proof -
    from that have "(t, d) \<in> task_depends ns"
      unfolding table_dep_rel [OF assms(1,2), symmetric] by (simp add: dep_rel_def)
    with assms(3) show ?thesis by (auto simp: task_depends_def)
  qed
  then show ?thesis unfolding closed_deps_def table_keys [OF assms(2)] by blast
qed

lemma compiled_well_planned:
  assumes "compile g = Inr p"
  shows "well_planned g"
  using assms
proof (rule compileE)
  fix s
  assume head: "gr_schema_version g = delegation_contract_version"
    "wr_role (gr_coordinator g) = RoleCoordinator" "length (gr_tasks g) \<le> default_max_workers"
    "gr_tasks g \<noteq> []"
    and dist: "distinct (map tn_task_id (gr_tasks g))"
    and each: "\<forall>n \<in> set (gr_tasks g). node_validate n = Inr () \<and> tn_parent_task_id n \<noteq> Some (tn_task_id n)"
    and order: "tp_order p = map tn_task_id (gr_tasks g)"
    and depths: "assign_depths (tp_order p) (node_table (gr_tasks g)) = Inr (tp_nodes p)"
    and scopes: "check_scopes (tp_nodes p) (tp_order p) [] = Inr s"
    and depends: "check_all_dependencies (tp_nodes p) (tp_order p) = Inr ()"
    and sort: "topological_sort (tp_nodes p) (tp_order p) = Inr (tp_topological_order p)"
  note same = assign_depths_same [OF depths]
  note ex = table_known [OF same, folded order]
  have "apart (concat (map scopes_of (gr_tasks g)))"
    using scopes check_scopes_ok [OF ex, of "[]"] unfolding order table_scopes [OF dist same] by blast
  moreover note d = depends [unfolded order table_dependencies [OF dist same]]
  moreover have "closed_deps (tp_nodes p)"
    using d by (intro table_closed [OF dist same]) blast
  then have "acyclic (task_depends (gr_tasks g))"
    using topological_sort_iff [of "tp_nodes p" "tp_order p"] sort table_keys [OF same]
    unfolding table_dep_rel [OF dist same, symmetric] order by auto
  moreover have "\<forall>n \<in> set (gr_tasks g). \<exists>d. parent_depth (node_table (gr_tasks g)) (tn_parent_task_id n) d \<and>
      d \<le> default_max_depth \<and> d \<le> dg_max_depth (tb_grants (tn_brief n))"
    using depths assign_depths_ok [of "tp_order p" "node_table (gr_tasks g)"]
    unfolding order table_depths [OF dist] by blast
  ultimately show "well_planned g" using head dist each unfolding well_planned_def by blast
qed

lemma well_planned_compiles:
  assumes w: "well_planned g"
  shows "\<exists>p. compile g = Inr p"
proof -
  from w have dist: "distinct (map tn_task_id (gr_tasks g))" by (simp add: well_planned_def)
  let ?T = "node_table (gr_tasks g)" and ?order = "map tn_task_id (gr_tasks g)"
  have c: "collect_nodes (gr_tasks g) ([], []) = Inr (?order, ?T)" and ne: "?T \<noteq> []"
    using w by (auto simp: well_planned_def collect_nodes_iff node_table_def)
  from w have "\<forall>t \<in> set ?order. depth_ok ?T t"
    unfolding table_depths [OF dist] by (simp add: well_planned_def)
  then obtain N where N: "assign_depths ?order ?T = Inr N"
    using assign_depths_ok [of ?order ?T] by blast
  note same = assign_depths_same [OF N]
  note ex = table_known [OF same]
  from w obtain s where s: "check_scopes N ?order [] = Inr s"
    using check_scopes_ok [OF ex, of "[]"] unfolding table_scopes [OF dist same]
    by (auto simp: well_planned_def)
  from w have d: "check_all_dependencies N ?order = Inr ()"
    unfolding table_dependencies [OF dist same] by (simp add: well_planned_def)
  have "closed_deps N"
    using d [unfolded table_dependencies [OF dist same]] by (intro table_closed [OF dist same]) blast
  with w obtain out where "topological_sort N ?order = Inr out"
    using topological_sort_iff [of N ?order] table_keys [OF same]
    unfolding table_dep_rel [OF dist same] by (auto simp: well_planned_def)
  with w c ne N s d have "compile g = Inr \<lparr>tp_schema_version = delegation_contract_version,
      tp_coordinator = gr_coordinator g, tp_order = ?order, tp_nodes = N, tp_topological_order = out\<rparr>"
    unfolding compile_steps by (auto simp: well_planned_def)
  then show "\<exists>p. compile g = Inr p" by blast
qed

text \<open>
  C7. A task graph compiles exactly when it is well planned: one to three tasks with distinct
  identifiers under a coordinator, each valid, none its own parent, each at a depth (the length of
  its chain of parents inside the graph) within the cap and its own grant, each depending on other
  tasks of the graph without repetition, with pairwise disjoint declared write scopes and no cycle
  of dependencies.
\<close>

theorem compile_iff: "(\<exists>p. compile g = Inr p) \<longleftrightarrow> well_planned g"
  using compiled_well_planned well_planned_compiles by blast

lemma planned_node:
  assumes c: "compile g = Inr p" and n: "n \<in> set (gr_tasks g)"
  shows "\<exists>d \<le> default_max_depth. plan_node p (tn_task_id n) = Some (n\<lparr>tn_depth := d\<rparr>) \<and>
    parent_depth (node_table (gr_tasks g)) (tn_parent_task_id n) d \<and>
    d \<le> dg_max_depth (tb_grants (tn_brief n))"
  using c
proof (rule compileE)
  assume dist: "distinct (map tn_task_id (gr_tasks g))"
    and order: "tp_order p = map tn_task_id (gr_tasks g)"
    and depths: "assign_depths (tp_order p) (node_table (gr_tasks g)) = Inr (tp_nodes p)"
  note same = assign_depths_same [OF depths]
  from c have w: "well_planned g" by (rule compiled_well_planned)
  from table_task [OF dist same n] obtain m where m: "map_of (tp_nodes p) (tn_task_id n) = Some m"
    "tn_parent_task_id m = tn_parent_task_id n"
    "tn_depth_update (\<lambda>_. 0) m = tn_depth_update (\<lambda>_. 0) n" by blast
  from n have "tn_task_id n \<in> set (tp_order p)" by (simp add: order)
  from assign_depths_depth [OF depths this m(1)]
  have d: "parent_depth (node_table (gr_tasks g)) (tn_parent_task_id n) (tn_depth m)" by (simp add: m(2))
  from w n obtain e where e: "parent_depth (node_table (gr_tasks g)) (tn_parent_task_id n) e"
    "e \<le> default_max_depth" "e \<le> dg_max_depth (tb_grants (tn_brief n))"
    unfolding well_planned_def by blast
  from parent_depth_unique [OF d e(1)] have "tn_depth m = e" .
  moreover from m(3) have "m = n\<lparr>tn_depth := tn_depth m\<rparr>" by (cases m; cases n; simp)
  ultimately show ?thesis using m(1) e by (metis plan_node_def)
qed

text \<open>
  A compiled plan lists every task once, and a task only after everything it depends on; its
  nodes are the proposed tasks with the depth of their chain of parents written in, which is at
  most two and within the task's own grant.
\<close>

theorem plan_order:
  assumes "compile g = Inr p"
  shows "tp_order p = map tn_task_id (gr_tasks g) \<and>
    distinct (tp_topological_order p) \<and>
    set (tp_topological_order p) = tn_task_id ` set (gr_tasks g) \<and>
    (\<forall>j < length (tp_topological_order p). \<forall>n \<in> set (gr_tasks g).
      tn_task_id n = tp_topological_order p ! j \<longrightarrow>
        set (tn_depends_on n) \<subseteq> set (take j (tp_topological_order p))) \<and>
    (\<forall>n \<in> set (gr_tasks g). \<exists>d \<le> default_max_depth.
      plan_node p (tn_task_id n) = Some (n\<lparr>tn_depth := d\<rparr>) \<and>
      parent_depth (node_table (gr_tasks g)) (tn_parent_task_id n) d \<and>
      d \<le> dg_max_depth (tb_grants (tn_brief n)))"
  using assms
proof (rule compileE)
  fix s
  assume dist: "distinct (map tn_task_id (gr_tasks g))"
    and order: "tp_order p = map tn_task_id (gr_tasks g)"
    and depths: "assign_depths (tp_order p) (node_table (gr_tasks g)) = Inr (tp_nodes p)"
    and sort: "topological_sort (tp_nodes p) (tp_order p) = Inr (tp_topological_order p)"
  let ?out = "tp_topological_order p"
  note same = assign_depths_same [OF depths]
  note o = topological_sort_order [OF sort]
  have set_out: "set ?out = tn_task_id ` set (gr_tasks g)"
    using o(2,3) unfolding table_keys [OF same] order by auto
  have before: "set (tn_depends_on n) \<subseteq> set (take j ?out)"
    if "j < length ?out" "n \<in> set (gr_tasks g)" "tn_task_id n = ?out ! j" for j n
  proof -
    from table_task [OF dist same that(2)] obtain m where m: "map_of (tp_nodes p) (tn_task_id n) = Some m"
      "tn_depends_on m = tn_depends_on n" by blast
    then have "deps (tp_nodes p) (?out ! j) = set (tn_depends_on n)"
      unfolding that(3) [symmetric] by (simp add: deps_def)
    with o(1) that(1) show ?thesis unfolding dependency_order_def by metis
  qed
  from o(1) have "distinct ?out" by (simp add: dependency_order_def)
  with order set_out before planned_node [OF assms] show ?thesis by blast
qed

section \<open>What two write scopes share\<close>

text \<open>
  \<^verbatim>\<open>scope_violations\<close> reads a scope its own way: blanks at both ends are dropped, every leading
  \<^verbatim>\<open>./\<close> is, and a lone \<^verbatim>\<open>.\<close> is the whole repository.
\<close>

fun strip_dot_slashes :: "string \<Rightarrow> string" where
  "strip_dot_slashes (a # b # s) =
    (if a = CHR ''.'' \<and> b = CHR ''/'' then strip_dot_slashes s else a # b # s)"
| "strip_dot_slashes s = s"

definition scope_entry :: "string \<Rightarrow> string" where
  "scope_entry scope =
    (let trimmed = trim_end_slash (slashes (trim scope))
     in if trimmed = ''.'' then ''.'' else strip_dot_slashes trimmed)"

definition scope_allows :: "string list \<Rightarrow> string \<Rightarrow> bool" where
  "scope_allows scopes path \<longleftrightarrow>
    (\<exists>scope \<in> set (map scope_entry scopes).
      scope = ''.'' \<or> slashes path = scope \<or> under scope (slashes path))"

definition scope_violations :: "string list \<Rightarrow> string list \<Rightarrow> string list" where
  "scope_violations paths scopes = map slashes (filter (\<lambda>path. \<not> scope_allows scopes path) paths)"

lemma starts_with_longer:
  assumes "starts_with p s" and "starts_with q s" and "length p \<le> length q"
  shows "starts_with p q"
proof -
  from assms(2) have "q = take (length q) s" by (simp add: starts_with_def)
  then have "take (length p) q = take (length p) s" using assms(3) by (metis min.absorb1 take_take)
  with assms(1) show ?thesis by (simp add: starts_with_def)
qed

lemma under_both:
  assumes "under a path" and "under b path"
  shows "scopes_overlap a b"
proof -
  have *: "scopes_overlap a b" if "under a path" "under b path" "length a \<le> length b" for a b
  proof (cases "length a = length b")
    case True
    with that have "a @ ''/'' = b @ ''/''" unfolding under_def starts_with_def
      by (metis length_append)
    then show ?thesis by (simp add: scopes_overlap_def)
  next
    case False
    with that(3) have l: "length (a @ ''/'') \<le> length b" by simp
    from that(2) have "starts_with b path" unfolding under_def starts_with_def
      by (metis append_eq_conv_conj length_append min.absorb1 take_append take_take le_add1)
    from starts_with_longer [OF that(1) [unfolded under_def] this l] show ?thesis
      by (simp add: scopes_overlap_def under_def)
  qed
  show ?thesis
  proof (cases "length a \<le> length b")
    case True
    with * assms show ?thesis by blast
  next
    case False
    then have "length b \<le> length a" by simp
    with * [OF assms(2,1)] show ?thesis by (simp add: scopes_overlap_sym)
  qed
qed

lemma apart_pairs:
  assumes "apart (concat (map f xs))" and "distinct xs" and "x \<in> set xs" and "y \<in> set xs" and "x \<noteq> y"
    and "a \<in> set (f x)" and "b \<in> set (f y)"
  shows "\<not> scopes_overlap a b"
  using assms
proof (induction xs)
  case (Cons z zs)
  then have cross: "\<forall>c \<in> set (f z). \<forall>u \<in> set zs. \<forall>d \<in> set (f u). \<not> scopes_overlap c d"
    and rest: "apart (concat (map f zs))"
    by (auto simp: sorted_wrt_app)
  consider "x = z" "y \<in> set zs" | "y = z" "x \<in> set zs" | "x \<in> set zs" "y \<in> set zs"
    using Cons.prems(3-5) by auto
  then show ?case
  proof cases
    case 1
    with cross Cons.prems(6,7) show ?thesis by blast
  next
    case 2
    with cross Cons.prems(6,7) have "\<not> scopes_overlap b a" by blast
    then show ?thesis by (simp add: scopes_overlap_sym)
  next
    case 3
    with Cons.IH [OF rest _ 3] Cons.prems(2,5-7) show ?thesis by simp
  qed
qed simp

text \<open>The scopes that the compiler and the enforcement read alike.\<close>

definition plain_scope :: "string \<Rightarrow> bool" where
  "plain_scope s \<longleftrightarrow> scope_entry s = normalize_scope_path s \<and> scope_entry s \<noteq> ''.''"

lemma scope_violations_Nil: "scope_violations [path] scopes = [] \<longleftrightarrow> scope_allows scopes path"
  by (simp add: scope_violations_def)

text \<open>
  In a plan that compiles no path may be changed by two tasks: when the write scopes of two
  different tasks are written plainly (no blanks around them, at most one leading \<^verbatim>\<open>./\<close>, not
  the whole repository), the enforcement of at least one of the two scopes reports the path.
\<close>

theorem scopes_disjoint:
  assumes "compile g = Inr p" and "n \<in> set (gr_tasks g)" and "m \<in> set (gr_tasks g)"
    and "tn_task_id n \<noteq> tn_task_id m"
    and "\<forall>a \<in> set (dg_write_scope (tb_grants (tn_brief n))). plain_scope a"
    and "\<forall>b \<in> set (dg_write_scope (tb_grants (tn_brief m))). plain_scope b"
  shows "scope_violations [path] (dg_write_scope (tb_grants (tn_brief n))) \<noteq> [] \<or>
    scope_violations [path] (dg_write_scope (tb_grants (tn_brief m))) \<noteq> []"
proof (rule ccontr)
  assume "\<not> ?thesis"
  then have "scope_allows (dg_write_scope (tb_grants (tn_brief n))) path"
    and "scope_allows (dg_write_scope (tb_grants (tn_brief m))) path"
    by (simp_all add: scope_violations_Nil)
  then obtain a b where a: "a \<in> set (dg_write_scope (tb_grants (tn_brief n)))"
      "scope_entry a = ''.'' \<or> slashes path = scope_entry a \<or> under (scope_entry a) (slashes path)"
    and b: "b \<in> set (dg_write_scope (tb_grants (tn_brief m)))"
      "scope_entry b = ''.'' \<or> slashes path = scope_entry b \<or> under (scope_entry b) (slashes path)"
    by (auto simp: scope_allows_def)
  let ?a = "normalize_scope_path a" and ?b = "normalize_scope_path b"
  from a b assms(5,6) have "slashes path = ?a \<or> under ?a (slashes path)"
    and "slashes path = ?b \<or> under ?b (slashes path)"
    unfolding plain_scope_def by metis+
  then have "scopes_overlap ?a ?b"
    using under_both [of ?a "slashes path" ?b] by (auto simp: scopes_overlap_def)
  moreover from assms(1) have w: "well_planned g" by (rule compiled_well_planned)
  then have "distinct (gr_tasks g)" and "apart (concat (map scopes_of (gr_tasks g)))"
    by (simp_all add: well_planned_def distinct_map)
  from apart_pairs [OF this(2,1) assms(2,3)] assms(4) a(1) b(1)
  have "\<not> scopes_overlap ?a ?b" by (auto simp: scopes_of_def)
  ultimately show False by blast
qed

definition sample_node :: "string \<Rightarrow> string list \<Rightarrow> ident list \<Rightarrow> task_node" where
  "sample_node t scope ds = \<lparr>tn_schema_version = 1, tn_task_id = t, tn_parent_task_id = None,
    tn_role = RoleCoder,
    tn_brief = (sample_brief t)\<lparr>tb_grants := (sample_grants 5)\<lparr>dg_task_id := t, dg_write_scope := scope\<rparr>\<rparr>,
    tn_depends_on = ds, tn_status = TaskPending, tn_depth = 0, tn_revision = 1\<rparr>"

definition sample_graph :: "string \<Rightarrow> task_graph" where
  "sample_graph scope = \<lparr>gr_schema_version = 1,
    gr_coordinator = \<lparr>wr_profile_id = ''p'', wr_run_id = ''r'', wr_role = RoleCoordinator, wr_generation = 1\<rparr>,
    gr_tasks = [sample_node ''b'' [''src''] [''a''], sample_node ''a'' [scope] []]\<rparr>"

lemma task_depends_UN: "task_depends ns = (\<Union>n \<in> set ns. Pair (tn_task_id n) ` set (tn_depends_on n))"
  by (auto simp: task_depends_def)

lemma sample_graph_compiles:
  assumes "validate_scope_path scope = Inr ()" and "\<not> scopes_overlap ''src'' (normalize_scope_path scope)"
  shows "\<exists>p. compile (sample_graph scope) = Inr p"
proof -
  have "task_depends (gr_tasks (sample_graph scope)) = {(''b'', ''a'')}"
    by (simp add: task_depends_UN sample_graph_def sample_node_def)
  moreover have "acyclic ({} :: (ident \<times> ident) set)" by (simp add: acyclic_def)
  ultimately have "acyclic (task_depends (gr_tasks (sample_graph scope)))"
    by (simp add: acyclic_insert)
  moreover have "node_validate (sample_node t [s] ds) = Inr ()" if "validate_scope_path s = Inr ()" for t s ds
    using that sample_grants_valid [of 5]
    by (simp add: node_validate_def sample_node_def brief_validate_def sample_brief_def checks_ok
        delegation_contract_version_def grants_validate_def sample_grants_def)
  moreover have "validate_scope_path ''src'' = Inr ()"
    by (simp add: validate_scope_path_def starts_with_def)
  moreover have "normalize_scope_path ''src'' = ''src''"
    by (simp add: normalize_scope_path_def slashes_def trim_end_slash_def starts_with_def)
  ultimately have "well_planned (sample_graph scope)"
    using assms unfolding well_planned_def
    by (simp add: sample_graph_def delegation_contract_version_def default_max_workers_def scopes_of_def
        sample_node_def parent_depth.no_parent sample_grants_def)
  then show ?thesis by (rule well_planned_compiles)
qed

lemma scope_entry_letters:
  "scope_entry ''src'' = ''src''" "scope_entry ''doc'' = ''doc''" "scope_entry ''.'' = ''.''"
  by (simp_all add: scope_entry_def trim_def trim_start_nonspace trim_end_rev.simps byte_def
      slashes_def trim_end_slash_def)

lemma normalize_letters:
  "normalize_scope_path ''src'' = ''src''" "normalize_scope_path ''doc'' = ''doc''"
  "normalize_scope_path ''.'' = ''.''"
  by (simp_all add: normalize_scope_path_def slashes_def trim_end_slash_def starts_with_def)

lemma valid_letters:
  "validate_scope_path ''doc'' = Inr ()" "validate_scope_path ''.'' = Inr ()"
proof -
  have "\<not> blank ''doc''" "\<not> blank ''.''" by (rule not_blank_ascii; simp add: byte_def)+
  then show "validate_scope_path ''doc'' = Inr ()" "validate_scope_path ''.'' = Inr ()"
    by (simp_all add: validate_scope_path_def starts_with_def)
qed

lemma scopes_disjoint_witness:
  "scope_violations [''src/a''] [''src''] \<noteq> [] \<or> scope_violations [''src/a''] [''doc''] \<noteq> []"
proof -
  have "\<not> scopes_overlap ''src'' (normalize_scope_path ''doc'')"
    by (simp add: normalize_letters scopes_overlap_def under_def starts_with_def)
  from sample_graph_compiles [OF valid_letters(1) this]
  obtain p where p: "compile (sample_graph ''doc'') = Inr p" by blast
  let ?n = "sample_node ''b'' [''src''] [''a'']" and ?m = "sample_node ''a'' [''doc''] []"
  have "?n \<in> set (gr_tasks (sample_graph ''doc''))" "?m \<in> set (gr_tasks (sample_graph ''doc''))"
    by (simp_all add: sample_graph_def)
  from scopes_disjoint [OF p this, of "''src/a''"] show ?thesis
    by (simp add: sample_node_def plain_scope_def scope_entry_letters normalize_letters)
qed

text \<open>
  The compiler does not see that the scope \<^verbatim>\<open>.\<close> is the whole repository: a graph whose
  tasks claim \<^verbatim>\<open>.\<close> and \<^verbatim>\<open>src\<close> compiles, and the enforcement of either scope lets its task
  change \<^verbatim>\<open>src/a\<close>.
\<close>

theorem root_scope_is_shared:
  "(\<exists>p. compile (sample_graph ''.'') = Inr p) \<and>
    map (\<lambda>n. dg_write_scope (tb_grants (tn_brief n))) (gr_tasks (sample_graph ''.'')) = [[''src''], [''.'']] \<and>
    scope_violations [''src/a''] [''src''] = [] \<and> scope_violations [''src/a''] [''.''] = []"
proof (intro conjI)
  have "\<not> scopes_overlap ''src'' (normalize_scope_path ''.'')"
    by (simp add: normalize_letters scopes_overlap_def under_def starts_with_def)
  then show "\<exists>p. compile (sample_graph ''.'') = Inr p" by (rule sample_graph_compiles [OF valid_letters(2)])
  show "map (\<lambda>n. dg_write_scope (tb_grants (tn_brief n))) (gr_tasks (sample_graph ''.'')) = [[''src''], [''.'']]"
    by (simp add: sample_graph_def sample_node_def)
  show "scope_violations [''src/a''] [''src''] = []" "scope_violations [''src/a''] [''.''] = []"
    by (simp_all add: scope_violations_Nil scope_allows_def scope_entry_letters under_def
        starts_with_def slashes_def)
qed

lemma plan_order_witness:
  "\<exists>p. tp_topological_order p \<noteq> [] \<and> distinct (tp_topological_order p) \<and>
    compile (sample_graph ''doc'') = Inr p"
proof -
  have "\<not> scopes_overlap ''src'' (normalize_scope_path ''doc'')"
    by (simp add: normalize_letters scopes_overlap_def under_def starts_with_def)
  from sample_graph_compiles [OF valid_letters(1) this]
  obtain p where p: "compile (sample_graph ''doc'') = Inr p" by blast
  from plan_order [OF p] have "distinct (tp_topological_order p)"
    "set (tp_topological_order p) = {''b'', ''a''}"
    by (simp_all add: sample_graph_def sample_node_def)
  with p show ?thesis by force
qed

end
