(* ===== verification/Scheduler.thy ===== *)
theory Scheduler imports Systems Delegation_Contracts begin

text \<open>
  The worker scheduler of \<^verbatim>\<open>crates/harness-orchestrator/src/coordination/scheduler.rs\<close> as a
  system of interleaved steps. A dispatch and the task it spawns, a lease, the receiver of outcomes
  and a drain each go through their phases one atomic operation or locked section at a time; the
  compute slots, the reservations, the request ledger, the outstanding count and the channel of
  outcomes are shared. The order in which the semaphore serves its waiters and the choice of a
  ready branch of \<^verbatim>\<open>select!\<close> are left open, so the theorems hold for every schedule. The backend
  is a parameter in this sense too: a running worker may end with any outcome at any time, or never.
\<close>

section \<open>Workers and messages\<close>

datatype worker_outcome = WorkerReported delegated_result | WorkerObserved delegated_result
  | WorkerNoReport string | WorkerFailed error_code | WorkerUnknown string

type_synonym settled = "(ident \<times> worker_outcome) res"

datatype phase = PhChecking | PhReserving | PhCharging | PhBackingOff | PhUnreserving
  | PhRefused error_code | PhCharged | PhWaiting | PhHolding | PhListed | PhRunning
  | PhFinished settled | PhRetiring settled | PhUnlisted settled | PhSending settled | PhSent settled

record worker =
  wk_key :: ident
  wk_cancelled :: bool
  wk_phase :: phase

datatype lease_phase = LsWaiting | LsPermit | LsBackingOff | LsDropping | LsHeld | LsReleased | LsFailed

datatype receiver = RxFree | RxNext | RxNextWait | RxNextGot
  | RxDrain "settled list" | RxDrainWait "settled list" | RxDrainGot "settled list"

text \<open>
  \<open>sd_requests\<close> is the \<^verbatim>\<open>AtomicU32\<close> of the ledger, which wraps at \<open>2 ^ 32\<close>. \<open>sd_outstanding\<close> counts
  workers in flight and messages not taken; it is not given a width, since it is at most the request
  limit as long as the ledger keeps that limit (\<open>outstanding_fits\<close>).
  \<open>sd_flagged\<close>, \<open>sd_cancelling\<close> and \<open>sd_closing\<close> count the calls of \<^verbatim>\<open>cancel_descendants\<close> that have
  set the flag, cancelled the live workers and closed the slots; \<open>sd_taken\<close> is the history of the
  channel and \<open>sd_drains\<close> that of the finished drains.
\<close>

record scheduler =
  sd_config :: scheduler_config
  sd_permits :: nat
  sd_closed :: bool
  sd_requests :: nat
  sd_workers :: "worker list"
  sd_leases :: "lease_phase list"
  sd_reserved :: "ident set"
  sd_live :: "ident \<rightharpoonup> nat"
  sd_outstanding :: nat
  sd_shutting_down :: bool
  sd_channel :: "(nat \<times> settled) list"
  sd_receiver :: receiver
  sd_flagged :: nat
  sd_cancelling :: nat
  sd_closing :: nat
  sd_taken :: "(nat \<times> settled) list"
  sd_drains :: "settled list list"

definition channel_capacity :: nat where "channel_capacity = 64"

definition scheduler_new :: "scheduler_config \<Rightarrow> scheduler res" where
  "scheduler_new c =
    (case scheduler_validate c of
      Inl e \<Rightarrow> Inl e
    | Inr _ \<Rightarrow> Inr \<lparr>sd_config = c, sd_permits = sg_max_concurrent_workers c, sd_closed = False,
        sd_requests = 0, sd_workers = [], sd_leases = [], sd_reserved = {}, sd_live = Map.empty,
        sd_outstanding = 0, sd_shutting_down = False, sd_channel = [], sd_receiver = RxFree,
        sd_flagged = 0, sd_cancelling = 0, sd_closing = 0, sd_taken = [], sd_drains = []\<rparr>)"

definition max_requests :: "scheduler \<Rightarrow> nat" where
  "max_requests s = bu_max_model_requests (sg_budget (sd_config s))"

definition remaining_requests :: "scheduler \<Rightarrow> nat" where
  "remaining_requests s = max_requests s - sd_requests s"

definition reserved_workers :: "scheduler \<Rightarrow> nat" where
  "reserved_workers s = min u32_max (card (sd_reserved s))"

definition queued_workers :: "scheduler \<Rightarrow> nat" where
  "queued_workers s = reserved_workers s - min u32_max (card (dom (sd_live s)))"

section \<open>Steps\<close>

definition at :: "scheduler \<Rightarrow> nat \<Rightarrow> phase \<Rightarrow> bool" where
  "at s i p \<longleftrightarrow> i < length (sd_workers s) \<and> wk_phase (sd_workers s ! i) = p"

definition key :: "scheduler \<Rightarrow> nat \<Rightarrow> ident" where
  "key s i = wk_key (sd_workers s ! i)"

definition set_phase :: "nat \<Rightarrow> phase \<Rightarrow> scheduler \<Rightarrow> scheduler" where
  "set_phase i p s = s\<lparr>sd_workers := (sd_workers s)[i := (sd_workers s ! i)\<lparr>wk_phase := p\<rparr>]\<rparr>"

definition cancel_worker :: "nat \<Rightarrow> scheduler \<Rightarrow> scheduler" where
  "cancel_worker i s = s\<lparr>sd_workers := (sd_workers s)[i := (sd_workers s ! i)\<lparr>wk_cancelled := True\<rparr>]\<rparr>"

definition set_lease :: "nat \<Rightarrow> lease_phase \<Rightarrow> scheduler \<Rightarrow> scheduler" where
  "set_lease j p s = s\<lparr>sd_leases := (sd_leases s)[j := p]\<rparr>"

text \<open>
  \<^verbatim>\<open>BudgetLedger::charge_request\<close> is an increment and, when the value before it was at the limit,
  a later decrement, both wrapping; \<open>charge_ok\<close> is the test between them.
\<close>

definition u32_size :: nat where "u32_size = 2 ^ 32"

definition wrapping_add_one :: "nat \<Rightarrow> nat" where
  "wrapping_add_one n = (n + 1) mod u32_size"

definition wrapping_sub_one :: "nat \<Rightarrow> nat" where
  "wrapping_sub_one n = (n + (u32_size - 1)) mod u32_size"

definition charge_ok :: "scheduler \<Rightarrow> bool" where
  "charge_ok s \<longleftrightarrow> sd_requests s < max_requests s"

text \<open>
  \<^verbatim>\<open>dispatch\<close>: admission (\<^verbatim>\<open>require_admission\<close>), the reservation under its lock, the charge,
  and the spawned task up to its message. A refused dispatch ends in \<open>PhRefused\<close>.
\<close>

inductive dispatch_step :: "scheduler \<Rightarrow> scheduler \<Rightarrow> bool" where
  ds_call: "\<not> sd_shutting_down s \<Longrightarrow> require_depth (sd_config s) depth = Inr () \<Longrightarrow>
    dispatch_step s (s\<lparr>sd_workers := sd_workers s @
      [\<lparr>wk_key = k, wk_cancelled = c, wk_phase = PhChecking\<rparr>]\<rparr>)"
| ds_admit: "at s i PhChecking \<Longrightarrow> sd_requests s < max_requests s \<Longrightarrow>
    dispatch_step s (set_phase i PhReserving s)"
| ds_exhausted: "at s i PhChecking \<Longrightarrow> \<not> sd_requests s < max_requests s \<Longrightarrow>
    dispatch_step s (set_phase i (PhRefused BudgetExhausted) s)"
| ds_reserve: "at s i PhReserving \<Longrightarrow>
    require_queue_capacity (sd_config s) (reserved_workers s) = Inr () \<Longrightarrow> key s i \<notin> sd_reserved s \<Longrightarrow>
    dispatch_step s (set_phase i PhCharging (s\<lparr>sd_reserved := insert (key s i) (sd_reserved s)\<rparr>))"
| ds_full: "at s i PhReserving \<Longrightarrow>
    require_queue_capacity (sd_config s) (reserved_workers s) = Inl e \<Longrightarrow>
    dispatch_step s (set_phase i (PhRefused e) s)"
| ds_conflict: "at s i PhReserving \<Longrightarrow>
    require_queue_capacity (sd_config s) (reserved_workers s) = Inr () \<Longrightarrow> key s i \<in> sd_reserved s \<Longrightarrow>
    dispatch_step s (set_phase i (PhRefused TaskOwnershipConflict) s)"
| ds_charge: "at s i PhCharging \<Longrightarrow>
    dispatch_step s (set_phase i (if charge_ok s then PhCharged else PhBackingOff)
      (s\<lparr>sd_requests := wrapping_add_one (sd_requests s)\<rparr>))"
| ds_back_off: "at s i PhBackingOff \<Longrightarrow>
    dispatch_step s (set_phase i PhUnreserving (s\<lparr>sd_requests := wrapping_sub_one (sd_requests s)\<rparr>))"
| ds_unreserve: "at s i PhUnreserving \<Longrightarrow>
    dispatch_step s (set_phase i (PhRefused BudgetExhausted)
      (s\<lparr>sd_reserved := sd_reserved s - {key s i}\<rparr>))"
| ds_launch: "at s i PhCharged \<Longrightarrow>
    dispatch_step s (set_phase i PhWaiting (s\<lparr>sd_outstanding := sd_outstanding s + 1\<rparr>))"
| ds_acquire: "at s i PhWaiting \<Longrightarrow> \<not> sd_closed s \<Longrightarrow> 0 < sd_permits s \<Longrightarrow>
    dispatch_step s (set_phase i PhHolding (s\<lparr>sd_permits := sd_permits s - 1\<rparr>))"
| ds_cancelled: "at s i PhWaiting \<Longrightarrow> wk_cancelled (sd_workers s ! i) \<Longrightarrow>
    dispatch_step s (set_phase i (PhRetiring (Inr (key s i,
      WorkerUnknown ''worker was canceled before it obtained a slot''))) s)"
| ds_closed: "at s i PhWaiting \<Longrightarrow> sd_closed s \<Longrightarrow>
    dispatch_step s (set_phase i (PhRetiring (Inl SchedulerShutdown)) s)"
| ds_list: "at s i PhHolding \<Longrightarrow>
    dispatch_step s (set_phase i PhListed (s\<lparr>sd_live := (sd_live s)(key s i \<mapsto> i)\<rparr>))"
| ds_run: "at s i PhListed \<Longrightarrow>
    dispatch_step s (set_phase i PhRunning (if sd_shutting_down s then cancel_worker i s else s))"
| ds_finish: "at s i PhRunning \<Longrightarrow>
    dispatch_step s (set_phase i (PhFinished (Inr (key s i, outcome))) s)"
| ds_release: "at s i (PhFinished m) \<Longrightarrow>
    dispatch_step s (set_phase i (PhRetiring m) (s\<lparr>sd_permits := sd_permits s + 1\<rparr>))"
| ds_unlist: "at s i (PhRetiring m) \<Longrightarrow>
    dispatch_step s (set_phase i (PhUnlisted m) (s\<lparr>sd_live := (sd_live s)(key s i := None)\<rparr>))"
| ds_retire: "at s i (PhUnlisted m) \<Longrightarrow>
    dispatch_step s (set_phase i (PhSending m) (s\<lparr>sd_reserved := sd_reserved s - {key s i}\<rparr>))"
| ds_send: "at s i (PhSending m) \<Longrightarrow> length (sd_channel s) < channel_capacity \<Longrightarrow>
    dispatch_step s (set_phase i (PhSent m) (s\<lparr>sd_channel := sd_channel s @ [(i, m)]\<rparr>))"

text \<open>\<^verbatim>\<open>acquire_lease\<close> and \<^verbatim>\<open>WorkerLease::release\<close>; a caller may also stop waiting.\<close>

inductive lease_step :: "scheduler \<Rightarrow> scheduler \<Rightarrow> bool" where
  ls_call: "\<not> sd_shutting_down s \<Longrightarrow> lease_step s (s\<lparr>sd_leases := sd_leases s @ [LsWaiting]\<rparr>)"
| ls_acquire: "j < length (sd_leases s) \<Longrightarrow> sd_leases s ! j = LsWaiting \<Longrightarrow> \<not> sd_closed s \<Longrightarrow>
    0 < sd_permits s \<Longrightarrow> lease_step s (set_lease j LsPermit (s\<lparr>sd_permits := sd_permits s - 1\<rparr>))"
| ls_closed: "j < length (sd_leases s) \<Longrightarrow> sd_leases s ! j = LsWaiting \<Longrightarrow> sd_closed s \<Longrightarrow>
    lease_step s (set_lease j LsFailed s)"
| ls_abandon: "j < length (sd_leases s) \<Longrightarrow> sd_leases s ! j = LsWaiting \<Longrightarrow>
    lease_step s (set_lease j LsFailed s)"
| ls_charge: "j < length (sd_leases s) \<Longrightarrow> sd_leases s ! j = LsPermit \<Longrightarrow>
    lease_step s (set_lease j (if charge_ok s then LsHeld else LsBackingOff)
      (s\<lparr>sd_requests := wrapping_add_one (sd_requests s)\<rparr>))"
| ls_back_off: "j < length (sd_leases s) \<Longrightarrow> sd_leases s ! j = LsBackingOff \<Longrightarrow>
    lease_step s (set_lease j LsDropping (s\<lparr>sd_requests := wrapping_sub_one (sd_requests s)\<rparr>))"
| ls_drop: "j < length (sd_leases s) \<Longrightarrow> sd_leases s ! j = LsDropping \<Longrightarrow>
    lease_step s (set_lease j LsFailed (s\<lparr>sd_permits := sd_permits s + 1\<rparr>))"
| ls_release: "j < length (sd_leases s) \<Longrightarrow> sd_leases s ! j = LsHeld \<Longrightarrow>
    lease_step s (set_lease j LsReleased (s\<lparr>sd_permits := sd_permits s + 1\<rparr>))"

text \<open>\<^verbatim>\<open>next_settled\<close>: the lock, the test of the count, the message, the decrement.\<close>

inductive receive_step :: "scheduler \<Rightarrow> scheduler \<Rightarrow> bool" where
  rx_lock: "sd_receiver s = RxFree \<Longrightarrow> receive_step s (s\<lparr>sd_receiver := RxNext\<rparr>)"
| rx_none: "sd_receiver s = RxNext \<Longrightarrow> sd_outstanding s = 0 \<Longrightarrow>
    receive_step s (s\<lparr>sd_receiver := RxFree\<rparr>)"
| rx_wait: "sd_receiver s = RxNext \<Longrightarrow> sd_outstanding s \<noteq> 0 \<Longrightarrow>
    receive_step s (s\<lparr>sd_receiver := RxNextWait\<rparr>)"
| rx_take: "sd_receiver s = RxNextWait \<Longrightarrow> sd_channel s = x # xs \<Longrightarrow>
    receive_step s (s\<lparr>sd_receiver := RxNextGot, sd_channel := xs, sd_taken := sd_taken s @ [x]\<rparr>)"
| rx_sub: "sd_receiver s = RxNextGot \<Longrightarrow>
    receive_step s (s\<lparr>sd_receiver := RxFree, sd_outstanding := sd_outstanding s - 1\<rparr>)"
| rx_abandon: "sd_receiver s \<in> {RxNext, RxNextWait} \<Longrightarrow> receive_step s (s\<lparr>sd_receiver := RxFree\<rparr>)"

text \<open>\<^verbatim>\<open>cancel_descendants\<close>, and \<^verbatim>\<open>drain_descendants\<close> after it.\<close>

fun is_unknown :: "settled \<Rightarrow> bool" where
  "is_unknown (Inl _) \<longleftrightarrow> True"
| "is_unknown (Inr (_, WorkerUnknown _)) \<longleftrightarrow> True"
| "is_unknown (Inr _) \<longleftrightarrow> False"

definition cancel_live :: "scheduler \<Rightarrow> scheduler" where
  "cancel_live s = s\<lparr>sd_workers := map (\<lambda>(i, w). if i \<in> ran (sd_live s) then w\<lparr>wk_cancelled := True\<rparr> else w)
    (enumerate 0 (sd_workers s))\<rparr>"

inductive cancel_step :: "scheduler \<Rightarrow> scheduler \<Rightarrow> bool" where
  cn_flag: "cancel_step s (s\<lparr>sd_shutting_down := True, sd_flagged := sd_flagged s + 1\<rparr>)"
| cn_cancel: "0 < sd_flagged s \<Longrightarrow>
    cancel_step s ((cancel_live s)\<lparr>sd_flagged := sd_flagged s - 1, sd_cancelling := sd_cancelling s + 1\<rparr>)"
| cn_close: "0 < sd_cancelling s \<Longrightarrow>
    cancel_step s (s\<lparr>sd_closed := True, sd_cancelling := sd_cancelling s - 1,
      sd_closing := sd_closing s + 1\<rparr>)"
| cn_return: "0 < sd_closing s \<Longrightarrow> cancel_step s (s\<lparr>sd_closing := sd_closing s - 1\<rparr>)"

inductive drain_step :: "scheduler \<Rightarrow> scheduler \<Rightarrow> bool" where
  dr_lock: "0 < sd_closing s \<Longrightarrow> sd_receiver s = RxFree \<Longrightarrow>
    drain_step s (s\<lparr>sd_closing := sd_closing s - 1, sd_receiver := RxDrain []\<rparr>)"
| dr_wait: "sd_receiver s = RxDrain us \<Longrightarrow> 0 < sd_outstanding s \<Longrightarrow>
    drain_step s (s\<lparr>sd_receiver := RxDrainWait us\<rparr>)"
| dr_take: "sd_receiver s = RxDrainWait us \<Longrightarrow> sd_channel s = x # xs \<Longrightarrow>
    drain_step s (s\<lparr>sd_receiver := RxDrainGot (if is_unknown (snd x) then us @ [snd x] else us),
      sd_channel := xs, sd_taken := sd_taken s @ [x]\<rparr>)"
| dr_sub: "sd_receiver s = RxDrainGot us \<Longrightarrow>
    drain_step s (s\<lparr>sd_receiver := RxDrain us, sd_outstanding := sd_outstanding s - 1\<rparr>)"
| dr_done: "sd_receiver s = RxDrain us \<Longrightarrow> \<not> 0 < sd_outstanding s \<Longrightarrow>
    drain_step s (s\<lparr>sd_receiver := RxFree, sd_drains := sd_drains s @ [us]\<rparr>)"
| dr_abandon: "sd_receiver s \<in> {RxDrain us, RxDrainWait us} \<Longrightarrow>
    drain_step s (s\<lparr>sd_receiver := RxFree\<rparr>)"

inductive scheduler_step :: "scheduler \<Rightarrow> scheduler \<Rightarrow> bool" where
  st_dispatch: "dispatch_step s t \<Longrightarrow> scheduler_step s t"
| st_token: "i < length (sd_workers s) \<Longrightarrow> scheduler_step s (cancel_worker i s)"
| st_lease: "lease_step s t \<Longrightarrow> scheduler_step s t"
| st_receive: "receive_step s t \<Longrightarrow> scheduler_step s t"
| st_cancel: "cancel_step s t \<Longrightarrow> scheduler_step s t"
| st_drain: "drain_step s t \<Longrightarrow> scheduler_step s t"

text \<open>What \<^verbatim>\<open>shutdown\<close> of the managed resource reports after a drain.\<close>

definition shutdown_outcome :: "settled list \<Rightarrow> unit res" where
  "shutdown_outcome us = (if us = [] then Inr () else Inl ProcessOutcomeUnknown)"

section \<open>Counting phases\<close>

definition count_of :: "('a \<Rightarrow> bool) \<Rightarrow> 'a list \<Rightarrow> nat" where
  "count_of P xs = length (filter P xs)"

lemma count_of_Nil [simp]: "count_of P [] = 0"
  and count_of_snoc [simp]: "count_of P (xs @ [x]) = count_of P xs + of_bool (P x)"
  by (simp_all add: count_of_def)

lemma count_of_update:
  "i < length xs \<Longrightarrow> count_of P (xs[i := x]) + of_bool (P (xs ! i)) = count_of P xs + of_bool (P x)"
proof (induction xs arbitrary: i)
  case (Cons y ys)
  then show ?case by (cases i) (auto simp: count_of_def)
qed simp

lemma count_of_pos: "i < length xs \<Longrightarrow> P (xs ! i) \<Longrightarrow> 0 < count_of P xs"
  using nth_mem by (auto simp: count_of_def filter_empty_conv)

lemma count_of_zero: "count_of P xs = 0 \<longleftrightarrow> (\<forall>x \<in> set xs. \<not> P x)"
  by (auto simp: count_of_def filter_empty_conv)

lemma count_of_mono: "(\<And>x. P x \<Longrightarrow> Q x) \<Longrightarrow> count_of P xs \<le> count_of Q xs"
  by (induction xs) (auto simp: count_of_def)

definition phases :: "scheduler \<Rightarrow> phase list" where
  "phases s = map wk_phase (sd_workers s)"

abbreviation n_ph :: "(phase \<Rightarrow> bool) \<Rightarrow> scheduler \<Rightarrow> nat" where
  "n_ph P s \<equiv> count_of P (phases s)"

abbreviation n_ls :: "(lease_phase \<Rightarrow> bool) \<Rightarrow> scheduler \<Rightarrow> nat" where
  "n_ls P s \<equiv> count_of P (sd_leases s)"

lemma at_phases: "at s i p \<longleftrightarrow> i < length (phases s) \<and> phases s ! i = p"
  by (auto simp: at_def phases_def)

lemma phases_set_phase [simp]: "phases (set_phase i p s) = (phases s)[i := p]"
  by (simp add: phases_def set_phase_def map_update)

lemma phases_cancel_worker [simp]: "phases (cancel_worker i s) = phases s"
proof (cases "i < length (sd_workers s)")
  case True
  then show ?thesis by (simp add: phases_def cancel_worker_def map_update) (metis list_update_id nth_map)
qed (simp add: phases_def cancel_worker_def list_update_beyond)

lemma phases_cancel_live [simp]: "phases (cancel_live s) = phases s"
  by (auto simp: phases_def cancel_live_def intro!: nth_equalityI simp: nth_enumerate_eq)

lemma phases_frame [simp]: "phases (s\<lparr>sd_reserved := r\<rparr>) = phases s" "phases (s\<lparr>sd_requests := n\<rparr>) = phases s"
  "phases (s\<lparr>sd_outstanding := n\<rparr>) = phases s" "phases (s\<lparr>sd_permits := n\<rparr>) = phases s"
  "phases (s\<lparr>sd_live := l\<rparr>) = phases s" "phases (s\<lparr>sd_channel := c\<rparr>) = phases s"
  "phases (s\<lparr>sd_leases := ls\<rparr>) = phases s" "phases (s\<lparr>sd_receiver := r'\<rparr>) = phases s"
  "phases (s\<lparr>sd_taken := t\<rparr>) = phases s" "phases (s\<lparr>sd_flagged := n\<rparr>) = phases s"
  "phases (s\<lparr>sd_cancelling := n\<rparr>) = phases s" "phases (s\<lparr>sd_closing := n\<rparr>) = phases s"
  "phases (s\<lparr>sd_shutting_down := b\<rparr>) = phases s" "phases (s\<lparr>sd_closed := b\<rparr>) = phases s"
  "phases (s\<lparr>sd_drains := d\<rparr>) = phases s"
  by (simp_all add: phases_def)

lemma phases_call [simp]: "phases (s\<lparr>sd_workers := sd_workers s @ [w]\<rparr>) = phases s @ [wk_phase w]"
  by (simp add: phases_def)

lemma n_ph_set_phase:
  "at s i p \<Longrightarrow> phases t = phases s \<Longrightarrow>
    n_ph P (set_phase i q t) + of_bool (P p) = n_ph P s + of_bool (P q)"
  using count_of_update [of i "phases s" P q] by (auto simp: at_phases)

lemma n_ls_set_lease:
  "j < length (sd_leases s) \<Longrightarrow> sd_leases t = sd_leases s \<Longrightarrow>
    n_ls P (set_lease j q t) + of_bool (P (sd_leases s ! j)) = n_ls P s + of_bool (P q)"
  using count_of_update [of j "sd_leases s" P q] by (simp add: set_lease_def)

lemma nth_update_field: "f x = f (xs ! i) \<Longrightarrow> f (xs[i := x] ! j) = f (xs ! j)"
  by (cases "i < length xs"; cases "i = j") (auto simp: list_update_beyond)

lemma set_phase_frame [simp]:
  "sd_config (set_phase i p s) = sd_config s" "sd_permits (set_phase i p s) = sd_permits s"
  "sd_closed (set_phase i p s) = sd_closed s" "sd_requests (set_phase i p s) = sd_requests s"
  "sd_leases (set_phase i p s) = sd_leases s" "sd_reserved (set_phase i p s) = sd_reserved s"
  "sd_live (set_phase i p s) = sd_live s" "sd_outstanding (set_phase i p s) = sd_outstanding s"
  "sd_shutting_down (set_phase i p s) = sd_shutting_down s" "sd_channel (set_phase i p s) = sd_channel s"
  "sd_receiver (set_phase i p s) = sd_receiver s" "sd_taken (set_phase i p s) = sd_taken s"
  "sd_drains (set_phase i p s) = sd_drains s" "sd_closing (set_phase i p s) = sd_closing s"
  "length (sd_workers (set_phase i p s)) = length (sd_workers s)" "key (set_phase i p s) j = key s j"
  by (simp_all add: set_phase_def key_def nth_update_field)

lemma cancel_worker_frame [simp]:
  "sd_config (cancel_worker i s) = sd_config s" "sd_permits (cancel_worker i s) = sd_permits s"
  "sd_closed (cancel_worker i s) = sd_closed s" "sd_requests (cancel_worker i s) = sd_requests s"
  "sd_leases (cancel_worker i s) = sd_leases s" "sd_reserved (cancel_worker i s) = sd_reserved s"
  "sd_live (cancel_worker i s) = sd_live s" "sd_outstanding (cancel_worker i s) = sd_outstanding s"
  "sd_shutting_down (cancel_worker i s) = sd_shutting_down s" "sd_channel (cancel_worker i s) = sd_channel s"
  "sd_receiver (cancel_worker i s) = sd_receiver s" "sd_taken (cancel_worker i s) = sd_taken s"
  "sd_drains (cancel_worker i s) = sd_drains s" "sd_closing (cancel_worker i s) = sd_closing s"
  "length (sd_workers (cancel_worker i s)) = length (sd_workers s)" "key (cancel_worker i s) j = key s j"
  by (simp_all add: cancel_worker_def key_def nth_update_field)

lemma cancel_live_frame [simp]:
  "sd_config (cancel_live s) = sd_config s" "sd_permits (cancel_live s) = sd_permits s"
  "sd_closed (cancel_live s) = sd_closed s" "sd_requests (cancel_live s) = sd_requests s"
  "sd_leases (cancel_live s) = sd_leases s" "sd_reserved (cancel_live s) = sd_reserved s"
  "sd_live (cancel_live s) = sd_live s" "sd_outstanding (cancel_live s) = sd_outstanding s"
  "sd_shutting_down (cancel_live s) = sd_shutting_down s" "sd_channel (cancel_live s) = sd_channel s"
  "sd_receiver (cancel_live s) = sd_receiver s" "sd_taken (cancel_live s) = sd_taken s"
  "sd_drains (cancel_live s) = sd_drains s" "sd_closing (cancel_live s) = sd_closing s"
  "length (sd_workers (cancel_live s)) = length (sd_workers s)"
  by (simp_all add: cancel_live_def)

lemma set_lease_frame [simp]:
  "sd_config (set_lease j p s) = sd_config s" "sd_permits (set_lease j p s) = sd_permits s"
  "sd_closed (set_lease j p s) = sd_closed s" "sd_requests (set_lease j p s) = sd_requests s"
  "sd_workers (set_lease j p s) = sd_workers s" "sd_reserved (set_lease j p s) = sd_reserved s"
  "sd_live (set_lease j p s) = sd_live s" "sd_outstanding (set_lease j p s) = sd_outstanding s"
  "sd_shutting_down (set_lease j p s) = sd_shutting_down s" "sd_channel (set_lease j p s) = sd_channel s"
  "sd_receiver (set_lease j p s) = sd_receiver s" "sd_taken (set_lease j p s) = sd_taken s"
  "sd_drains (set_lease j p s) = sd_drains s" "sd_closing (set_lease j p s) = sd_closing s"
  "key (set_lease j p s) = key s" "phases (set_lease j p s) = phases s"
  by (simp_all add: set_lease_def key_def fun_eq_iff)

section \<open>The invariants\<close>

fun holds_slot :: "phase \<Rightarrow> bool" where
  "holds_slot PhHolding \<longleftrightarrow> True"
| "holds_slot PhListed \<longleftrightarrow> True"
| "holds_slot PhRunning \<longleftrightarrow> True"
| "holds_slot (PhFinished _) \<longleftrightarrow> True"
| "holds_slot _ \<longleftrightarrow> False"

fun in_flight :: "phase \<Rightarrow> bool" where
  "in_flight PhWaiting \<longleftrightarrow> True"
| "in_flight (PhRetiring _) \<longleftrightarrow> True"
| "in_flight (PhUnlisted _) \<longleftrightarrow> True"
| "in_flight (PhSending _) \<longleftrightarrow> True"
| "in_flight p \<longleftrightarrow> holds_slot p"

fun request_charged :: "phase \<Rightarrow> bool" where
  "request_charged PhCharged \<longleftrightarrow> True"
| "request_charged (PhSent _) \<longleftrightarrow> True"
| "request_charged p \<longleftrightarrow> in_flight p"

fun has_task :: "phase \<Rightarrow> bool" where
  "has_task PhCharging \<longleftrightarrow> True"
| "has_task PhBackingOff \<longleftrightarrow> True"
| "has_task PhUnreserving \<longleftrightarrow> True"
| "has_task PhCharged \<longleftrightarrow> True"
| "has_task (PhSending _) \<longleftrightarrow> False"
| "has_task p \<longleftrightarrow> in_flight p"

definition lease_holds :: "lease_phase \<Rightarrow> bool" where
  "lease_holds p \<longleftrightarrow> p \<in> {LsPermit, LsBackingOff, LsDropping, LsHeld}"

definition lease_charged :: "lease_phase \<Rightarrow> bool" where
  "lease_charged p \<longleftrightarrow> p \<in> {LsHeld, LsReleased}"

definition backing_off :: "scheduler \<Rightarrow> nat" where
  "backing_off s = n_ph (\<lambda>p. p = PhBackingOff) s + n_ls (\<lambda>p. p = LsBackingOff) s"

definition charges_made :: "scheduler \<Rightarrow> nat" where
  "charges_made s = n_ph request_charged s + n_ls lease_charged s"

text \<open>The slots are all accounted for.\<close>

definition slots_inv :: "scheduler \<Rightarrow> bool" where
  "slots_inv s \<longleftrightarrow>
    sd_permits s + n_ph holds_slot s + n_ls lease_holds s = sg_max_concurrent_workers (sd_config s)"

text \<open>The ledger is exact up to the charges that are being taken back, and up to the wrap-around.\<close>

definition ledger_inv :: "scheduler \<Rightarrow> bool" where
  "ledger_inv s \<longleftrightarrow> sd_requests s = (charges_made s + backing_off s) mod u32_size"

text \<open>There is room in the counter for the limit and the charges being taken back.\<close>

definition crowd_fits :: "scheduler \<Rightarrow> bool" where
  "crowd_fits s \<longleftrightarrow> max_requests s + backing_off s < u32_size"

definition roomy_step :: "scheduler \<Rightarrow> scheduler \<Rightarrow> bool" where
  "roomy_step s t \<longleftrightarrow> scheduler_step s t \<and> crowd_fits t"

text \<open>Charges are taken back only when the budget is used up.\<close>

definition budget_kept :: "scheduler \<Rightarrow> bool" where
  "budget_kept s \<longleftrightarrow> charges_made s \<le> max_requests s \<and> (0 < backing_off s \<longrightarrow> charges_made s = max_requests s)"

text \<open>The count of outstanding outcomes: in flight, in the channel, or taken and not yet counted.\<close>

definition got :: "scheduler \<Rightarrow> nat" where
  "got s = (case sd_receiver s of RxNextGot \<Rightarrow> 1 | RxDrainGot _ \<Rightarrow> 1 | _ \<Rightarrow> 0)"

definition outstanding_inv :: "scheduler \<Rightarrow> bool" where
  "outstanding_inv s \<longleftrightarrow> sd_outstanding s = n_ph in_flight s + length (sd_channel s) + got s"

text \<open>A receiver waits only while an outcome is outstanding.\<close>

definition waiting_inv :: "scheduler \<Rightarrow> bool" where
  "waiting_inv s \<longleftrightarrow>
    (sd_receiver s = RxNextWait \<or> (\<exists>us. sd_receiver s = RxDrainWait us) \<longrightarrow> 0 < sd_outstanding s)"

text \<open>Each reservation belongs to one worker.\<close>

definition owners :: "scheduler \<Rightarrow> nat set" where
  "owners s = {i. i < length (phases s) \<and> has_task (phases s ! i)}"

definition reservations_inv :: "scheduler \<Rightarrow> bool" where
  "reservations_inv s \<longleftrightarrow> sd_reserved s = key s ` owners s \<and> inj_on (key s) (owners s) \<and>
    card (sd_reserved s) \<le> queue_capacity (sd_config s)"

text \<open>Every message sent is in the channel or was taken, once.\<close>

definition messages_inv :: "scheduler \<Rightarrow> bool" where
  "messages_inv s \<longleftrightarrow> distinct (map fst (sd_taken s @ sd_channel s)) \<and>
    (\<forall>i m. (i, m) \<in> set (sd_taken s @ sd_channel s) \<longleftrightarrow> at s i (PhSent m))"

definition draining :: "scheduler \<Rightarrow> bool" where
  "draining s \<longleftrightarrow> (\<exists>us. sd_receiver s \<in> {RxDrain us, RxDrainWait us, RxDrainGot us})"

text \<open>Once the slots are closed nothing new starts; a finished drain leaves nothing running.\<close>

definition closing_inv :: "scheduler \<Rightarrow> bool" where
  "closing_inv s \<longleftrightarrow> (0 < sd_closing s \<or> draining s \<or> sd_drains s \<noteq> [] \<longrightarrow> sd_closed s) \<and>
    (sd_drains s \<noteq> [] \<longrightarrow> n_ph holds_slot s = 0)"

definition scheduler_inv :: "scheduler \<Rightarrow> bool" where
  "scheduler_inv s \<longleftrightarrow> slots_inv s \<and> ledger_inv s \<and> outstanding_inv s \<and> waiting_inv s \<and>
    reservations_inv s \<and> messages_inv s \<and> closing_inv s"

lemma count_phase:
  "at s i p \<Longrightarrow> count_of P ((phases s)[i := q]) = count_of P (phases s) + of_bool (P q) - of_bool (P p)"
  using count_of_update [of i "phases s" P q] by (auto simp: at_phases)

lemma count_phase_same:
  "at s i p \<Longrightarrow> P p = P q \<Longrightarrow> count_of P ((phases s)[i := q]) = count_of P (phases s)"
  using count_of_update [of i "phases s" P q] by (auto simp: at_phases)

lemma count_phase_pos: "at s i p \<Longrightarrow> P p \<Longrightarrow> 0 < count_of P (phases s)"
  using count_of_pos [of i "phases s" P] by (auto simp: at_phases)

lemma count_lease:
  "j < length (sd_leases s) \<Longrightarrow> sd_leases s ! j = p \<Longrightarrow>
    count_of P ((sd_leases s)[j := q]) = count_of P (sd_leases s) + of_bool (P q) - of_bool (P p)"
  using count_of_update [of j "sd_leases s" P q] by auto

lemma count_lease_pos:
  "j < length (sd_leases s) \<Longrightarrow> sd_leases s ! j = p \<Longrightarrow> P p \<Longrightarrow> 0 < count_of P (sd_leases s)"
  using count_of_pos [of j "sd_leases s" P] by auto

lemma leases_set_lease [simp]: "sd_leases (set_lease j p s) = (sd_leases s)[j := p]"
  by (simp add: set_lease_def)

lemma slots_dispatch: "dispatch_step s t \<Longrightarrow> slots_inv s \<Longrightarrow> slots_inv t"
proof (induction rule: dispatch_step.induct)
  case (ds_release s i m)
  with count_phase_pos [OF ds_release(1), of holds_slot] show ?case
    by (simp add: slots_inv_def count_phase)
qed (auto simp: slots_inv_def count_phase)

lemma slots_lease: "lease_step s t \<Longrightarrow> slots_inv s \<Longrightarrow> slots_inv t"
proof (induction rule: lease_step.induct)
  case (ls_drop j s)
  with count_lease_pos [OF ls_drop(1,2), of lease_holds] show ?case
    by (simp add: slots_inv_def count_lease lease_holds_def)
next
  case (ls_release j s)
  with count_lease_pos [OF ls_release(1,2), of lease_holds] show ?case
    by (simp add: slots_inv_def count_lease lease_holds_def)
qed (auto simp: slots_inv_def count_lease lease_holds_def)

lemma slots_step:
  assumes "scheduler_step s t" and "slots_inv s"
  shows "slots_inv t"
  using assms(1)
proof cases
  case st_dispatch
  then show ?thesis using assms(2) by (rule slots_dispatch)
next
  case st_lease
  then show ?thesis using assms(2) by (rule slots_lease)
next
  case st_receive
  then show ?thesis using assms(2) by cases (simp_all add: slots_inv_def)
next
  case st_cancel
  then show ?thesis using assms(2) by cases (simp_all add: slots_inv_def)
next
  case st_drain
  then show ?thesis using assms(2) by cases (simp_all add: slots_inv_def)
qed (use assms(2) in \<open>simp add: slots_inv_def\<close>)

lemmas count_defs = charges_made_def backing_off_def max_requests_def lease_charged_def

lemmas ledger_defs = ledger_inv_def count_defs

lemma wrapping_up: "wrapping_add_one (n mod u32_size) = Suc n mod u32_size"
  by (simp add: wrapping_add_one_def mod_Suc_eq)

lemma wrapping_down: "wrapping_sub_one (Suc n mod u32_size) = n mod u32_size"
proof -
  have "wrapping_sub_one (Suc n mod u32_size) = (Suc n + (u32_size - 1)) mod u32_size"
    unfolding wrapping_sub_one_def by (rule mod_add_left_eq)
  also have "Suc n + (u32_size - 1) = n + u32_size" by (simp add: u32_size_def)
  finally show ?thesis by simp
qed

lemma counted_down: "r = (c + b) mod u32_size \<Longrightarrow> Suc b' = b \<Longrightarrow> wrapping_sub_one r = (c + b') mod u32_size"
  using wrapping_down [of "c + b'"] by auto

text \<open>How a step counts: what it does to the charges made and to those being taken back.\<close>

lemma counted_back_off:
  assumes "at s i PhBackingOff" and "phases t = phases s" and "sd_leases t = sd_leases s"
  shows "charges_made (set_phase i PhUnreserving t) = charges_made s \<and>
    Suc (backing_off (set_phase i PhUnreserving t)) = backing_off s"
  using count_phase_pos [OF assms(1), of "\<lambda>p. p = PhBackingOff"] assms
  by (simp add: count_defs count_phase)

lemma counted_lease_back_off:
  assumes "j < length (sd_leases s)" and "sd_leases s ! j = LsBackingOff" and "phases t = phases s" and "sd_leases t = sd_leases s"
  shows "charges_made (set_lease j LsDropping t) = charges_made s \<and>
    Suc (backing_off (set_lease j LsDropping t)) = backing_off s"
  using count_lease_pos [OF assms(1,2), of "\<lambda>p. p = LsBackingOff"] assms
  by (simp add: count_defs count_lease)

lemma ledger_dispatch: "dispatch_step s t \<Longrightarrow> ledger_inv s \<Longrightarrow> ledger_inv t"
proof (induction rule: dispatch_step.induct)
  case (ds_back_off s i)
  then show ?case
    using counted_back_off [OF ds_back_off(1), of "s\<lparr>sd_requests := wrapping_sub_one (sd_requests s)\<rparr>"]
    by (simp add: ledger_inv_def counted_down)
next
  case (ds_charge s i)
  then show ?case by (cases "charge_ok s") (simp_all add: ledger_defs count_phase wrapping_up)
qed (auto simp: ledger_defs count_phase count_phase_same)

lemma ledger_lease: "lease_step s t \<Longrightarrow> ledger_inv s \<Longrightarrow> ledger_inv t"
proof (induction rule: lease_step.induct)
  case (ls_back_off j s)
  then show ?case
    using counted_lease_back_off [OF ls_back_off(1,2), of "s\<lparr>sd_requests := wrapping_sub_one (sd_requests s)\<rparr>"]
    by (simp add: ledger_inv_def counted_down)
next
  case (ls_charge j s)
  then show ?case by (cases "charge_ok s") (simp_all add: ledger_defs count_lease wrapping_up)
next
  case (ls_release j s)
  with count_lease_pos [OF ls_release(1,2), of lease_charged] show ?case
    by (auto simp: ledger_defs count_lease)
qed (auto simp: ledger_defs count_lease)

lemma ledger_step:
  assumes "scheduler_step s t" and "ledger_inv s"
  shows "ledger_inv t"
  using assms(1)
proof cases
  case st_dispatch
  then show ?thesis using assms(2) by (rule ledger_dispatch)
next
  case st_lease
  then show ?thesis using assms(2) by (rule ledger_lease)
next
  case st_receive
  then show ?thesis using assms(2) by cases (simp_all add: ledger_defs)
next
  case st_cancel
  then show ?thesis using assms(2) by cases (simp_all add: ledger_defs)
next
  case st_drain
  then show ?thesis using assms(2) by cases (simp_all add: ledger_defs)
qed (use assms(2) in \<open>simp add: ledger_defs\<close>)

text \<open>While there is room the counter is exact, and the test of a charge is the test of the budget.\<close>

lemma roomy_counter:
  assumes "ledger_inv s" and "crowd_fits s" and "budget_kept s"
  shows "sd_requests s = charges_made s + backing_off s" and "charge_ok s \<longleftrightarrow> charges_made s < max_requests s \<and> backing_off s = 0"
proof -
  from assms(2,3) have "charges_made s + backing_off s < u32_size" by (simp add: crowd_fits_def budget_kept_def)
  with assms(1) show r: "sd_requests s = charges_made s + backing_off s" unfolding ledger_inv_def by (simp only: mod_less)
  show "charge_ok s \<longleftrightarrow> charges_made s < max_requests s \<and> backing_off s = 0"
    using assms(3) unfolding charge_ok_def r budget_kept_def by auto
qed

lemma budget_dispatch:
  "dispatch_step s t \<Longrightarrow> (charge_ok s \<longleftrightarrow> charges_made s < max_requests s \<and> backing_off s = 0) \<Longrightarrow> budget_kept s \<Longrightarrow> budget_kept t"
proof (induction rule: dispatch_step.induct)
  case (ds_back_off s i)
  then show ?case
    using counted_back_off [OF ds_back_off(1), of "s\<lparr>sd_requests := wrapping_sub_one (sd_requests s)\<rparr>"]
    by (simp add: budget_kept_def max_requests_def)
next
  case (ds_charge s i)
  then show ?case by (cases "charge_ok s") (auto simp: budget_kept_def count_defs count_phase)
qed (auto simp: budget_kept_def count_defs count_phase count_phase_same)

lemma budget_lease:
  "lease_step s t \<Longrightarrow> (charge_ok s \<longleftrightarrow> charges_made s < max_requests s \<and> backing_off s = 0) \<Longrightarrow> budget_kept s \<Longrightarrow> budget_kept t"
proof (induction rule: lease_step.induct)
  case (ls_back_off j s)
  then show ?case
    using counted_lease_back_off [OF ls_back_off(1,2), of "s\<lparr>sd_requests := wrapping_sub_one (sd_requests s)\<rparr>"]
    by (simp add: budget_kept_def max_requests_def)
next
  case (ls_charge j s)
  then show ?case by (cases "charge_ok s") (auto simp: budget_kept_def count_defs count_lease)
next
  case (ls_release j s)
  with count_lease_pos [OF ls_release(1,2), of lease_charged] show ?case
    by (auto simp: budget_kept_def count_defs count_lease)
qed (auto simp: budget_kept_def count_defs count_lease)

lemma budget_step:
  assumes "scheduler_step s t" and "ledger_inv s" and "crowd_fits s" and "budget_kept s"
  shows "budget_kept t"
proof -
  note ok = roomy_counter(2) [OF assms(2-4)]
  from assms(1) show ?thesis
  proof cases
    case st_dispatch
    then show ?thesis using ok assms(4) by (rule budget_dispatch)
  next
    case st_lease
    then show ?thesis using ok assms(4) by (rule budget_lease)
  next
    case st_receive
    then show ?thesis using assms(4) by cases (simp_all add: budget_kept_def count_defs)
  next
    case st_cancel
    then show ?thesis using assms(4) by cases (simp_all add: budget_kept_def count_defs)
  next
    case st_drain
    then show ?thesis using assms(4) by cases (simp_all add: budget_kept_def count_defs)
  qed (use assms(4) in \<open>simp add: budget_kept_def count_defs\<close>)
qed

lemma outstanding_dispatch: "dispatch_step s t \<Longrightarrow> outstanding_inv s \<Longrightarrow> outstanding_inv t"
proof (induction rule: dispatch_step.induct)
  case (ds_send s i m)
  with count_phase_pos [OF ds_send(1), of in_flight] show ?case
    by (simp add: outstanding_inv_def got_def count_phase)
qed (auto simp: outstanding_inv_def got_def count_phase count_phase_same)

lemma outstanding_step:
  assumes "scheduler_step s t" and "outstanding_inv s"
  shows "outstanding_inv t"
  using assms(1)
proof cases
  case st_dispatch
  then show ?thesis using assms(2) by (rule outstanding_dispatch)
next
  case st_lease
  then show ?thesis using assms(2) by cases (simp_all add: outstanding_inv_def got_def)
next
  case st_receive
  then show ?thesis using assms(2) by cases (auto simp: outstanding_inv_def got_def)
next
  case st_cancel
  then show ?thesis using assms(2) by cases (simp_all add: outstanding_inv_def got_def)
next
  case st_drain
  then show ?thesis using assms(2) by cases (auto simp: outstanding_inv_def got_def)
qed (use assms(2) in \<open>simp add: outstanding_inv_def got_def\<close>)

lemma waiting_step:
  assumes "scheduler_step s t" and "waiting_inv s"
  shows "waiting_inv t"
  using assms(1)
proof cases
  case st_dispatch
  then show ?thesis using assms(2) by cases (simp_all add: waiting_inv_def)
next
  case st_lease
  then show ?thesis using assms(2) by cases (simp_all add: waiting_inv_def)
next
  case st_receive
  then show ?thesis using assms(2) by cases (auto simp: waiting_inv_def)
next
  case st_cancel
  then show ?thesis using assms(2) by cases (simp_all add: waiting_inv_def)
next
  case st_drain
  then show ?thesis using assms(2) by cases (auto simp: waiting_inv_def)
qed (use assms(2) in \<open>simp add: waiting_inv_def\<close>)

lemma shutdown_dispatch: "dispatch_step s t \<Longrightarrow> closing_inv s \<Longrightarrow> closing_inv t"
proof (induction rule: dispatch_step.induct)
  case (ds_acquire s i)
  then show ?case by (simp add: closing_inv_def draining_def)
qed (auto simp: closing_inv_def draining_def count_phase count_phase_same)

lemma shutdown_step:
  assumes "scheduler_step s t" and "outstanding_inv s" and "closing_inv s"
  shows "closing_inv t"
  using assms(1)
proof cases
  case st_dispatch
  then show ?thesis using assms(3) by (rule shutdown_dispatch)
next
  case st_lease
  then show ?thesis using assms(3) by cases (simp_all add: closing_inv_def draining_def)
next
  case st_receive
  then show ?thesis using assms(3) by cases (auto simp: closing_inv_def draining_def)
next
  case st_cancel
  then show ?thesis using assms(3) by cases (auto simp: closing_inv_def draining_def)
next
  case st_drain
  then show ?thesis
  proof cases
    case (dr_done us)
    with assms(2) have "n_ph in_flight s = 0" by (simp add: outstanding_inv_def)
    moreover have "holds_slot p \<Longrightarrow> in_flight p" for p by (cases p) simp_all
    then have "n_ph holds_slot s \<le> n_ph in_flight s" by (rule count_of_mono)
    ultimately show ?thesis using dr_done assms(3) by (auto simp: closing_inv_def draining_def)
  qed (use assms(3) in \<open>auto simp: closing_inv_def draining_def\<close>)
qed (use assms(3) in \<open>simp add: closing_inv_def draining_def\<close>)

lemma key_frame [simp]: "key (s\<lparr>sd_reserved := r\<rparr>) = key s" "key (s\<lparr>sd_requests := n\<rparr>) = key s"
  "key (s\<lparr>sd_outstanding := n\<rparr>) = key s" "key (s\<lparr>sd_permits := n\<rparr>) = key s"
  "key (s\<lparr>sd_live := l\<rparr>) = key s" "key (s\<lparr>sd_channel := c\<rparr>) = key s"
  "key (s\<lparr>sd_leases := ls\<rparr>) = key s" "key (s\<lparr>sd_receiver := r'\<rparr>) = key s"
  "key (s\<lparr>sd_taken := t\<rparr>) = key s" "key (s\<lparr>sd_flagged := n\<rparr>) = key s"
  "key (s\<lparr>sd_cancelling := n\<rparr>) = key s" "key (s\<lparr>sd_closing := n\<rparr>) = key s"
  "key (s\<lparr>sd_shutting_down := b\<rparr>) = key s" "key (s\<lparr>sd_closed := b\<rparr>) = key s"
  "key (s\<lparr>sd_drains := d\<rparr>) = key s"
  by (simp_all add: key_def fun_eq_iff)

lemma finite_owners [simp]: "finite (owners s)"
  by (simp add: owners_def)

lemma finite_reserved: "reservations_inv s \<Longrightarrow> finite (sd_reserved s)"
  by (simp add: reservations_inv_def)

lemma key_set_phase [simp]: "key (set_phase i p s) = key s" "key (cancel_worker i s) = key s"
  by (simp_all add: fun_eq_iff)

lemma owners_set_phase:
  assumes "at s i p" and "phases t = phases s"
  shows "owners (set_phase i q t) = (if has_task q then insert i (owners s) else owners s - {i})"
  using assms by (auto simp: owners_def at_phases nth_list_update split: if_splits)

lemma owners_same: "phases t = phases s \<Longrightarrow> owners t = owners s"
  by (simp add: owners_def)

lemma owner_of: "at s i p \<Longrightarrow> i \<in> owners s \<longleftrightarrow> has_task p"
  by (simp add: owners_def at_phases)

text \<open>A step that takes or gives back no reservation.\<close>

lemma reservations_kept:
  assumes "reservations_inv s" and "owners t = owners s" and "sd_reserved t = sd_reserved s"
    and "sd_config t = sd_config s" and "\<And>i. i \<in> owners s \<Longrightarrow> key t i = key s i"
  shows "reservations_inv t"
proof -
  have "key t ` owners s = key s ` owners s" using assms(5) by (rule image_cong [OF refl])
  moreover have "inj_on (key t) (owners s) = inj_on (key s) (owners s)"
    using assms(5) by (rule inj_on_cong)
  ultimately show ?thesis using assms(1) unfolding reservations_inv_def assms(2-4) by metis
qed

lemma reservations_phase:
  assumes "reservations_inv s" and "at s i p" and "has_task p = has_task q" and "phases t = phases s"
    and "sd_reserved t = sd_reserved s" and "sd_config t = sd_config s" and "key t = key s"
  shows "reservations_inv (set_phase i q t)"
proof (rule reservations_kept [OF assms(1)])
  show "owners (set_phase i q t) = owners s"
    using assms(2,3) owner_of [OF assms(2)] by (auto simp: owners_set_phase [OF assms(2,4)])
qed (use assms in simp_all)

lemma reservations_taken:
  assumes "reservations_inv s" and "at s i p" and "\<not> has_task p" and "has_task q"
    and "key s i \<notin> sd_reserved s" and "card (sd_reserved s) < queue_capacity (sd_config s)"
  shows "reservations_inv (set_phase i q (s\<lparr>sd_reserved := insert (key s i) (sd_reserved s)\<rparr>))"
proof -
  have o: "owners (set_phase i q (s\<lparr>sd_reserved := insert (key s i) (sd_reserved s)\<rparr>)) = insert i (owners s)"
    using assms(4) by (simp add: owners_set_phase [OF assms(2)])
  from assms(1) have r: "sd_reserved s = key s ` owners s" and inj: "inj_on (key s) (owners s)"
    by (simp_all add: reservations_inv_def)
  have "key s i \<notin> key s ` owners s" using assms(5) unfolding r .
  with inj have "inj_on (key s) (insert i (owners s))" by auto
  moreover from assms(6) finite_reserved [OF assms(1)] assms(5)
  have "card (insert (key s i) (sd_reserved s)) \<le> queue_capacity (sd_config s)" by simp
  ultimately show ?thesis unfolding reservations_inv_def o using r by simp
qed

lemma reservations_given_back:
  assumes "reservations_inv s" and "at s i p" and "has_task p" and "\<not> has_task q"
  shows "reservations_inv (set_phase i q (s\<lparr>sd_reserved := sd_reserved s - {key s i}\<rparr>))"
proof -
  have o: "owners (set_phase i q (s\<lparr>sd_reserved := sd_reserved s - {key s i}\<rparr>)) = owners s - {i}"
    using assms(4) by (simp add: owners_set_phase [OF assms(2)])
  from assms(2,3) have i: "i \<in> owners s" by (simp add: owner_of)
  from assms(1) have inj: "inj_on (key s) (owners s)" and r: "sd_reserved s = key s ` owners s"
    and c: "card (sd_reserved s) \<le> queue_capacity (sd_config s)"
    unfolding reservations_inv_def by blast+
  from inj i have "key s ` owners s - {key s i} = key s ` (owners s - {i})"
    by (auto simp: inj_on_def)
  moreover have "card (sd_reserved s - {key s i}) \<le> queue_capacity (sd_config s)"
    using c card_Diff1_le [of "sd_reserved s" "key s i"] by (rule order_trans [rotated])
  ultimately show ?thesis unfolding reservations_inv_def o using r inj
    by (auto intro: inj_on_subset)
qed

lemma reservations_dispatch: "dispatch_step s t \<Longrightarrow> reservations_inv s \<Longrightarrow> reservations_inv t"
proof (induction rule: dispatch_step.induct)
  case (ds_call s depth k c)
  from ds_call(3) show ?case
  proof (rule reservations_kept)
    show "owners (s\<lparr>sd_workers := sd_workers s @ [\<lparr>wk_key = k, wk_cancelled = c, wk_phase = PhChecking\<rparr>]\<rparr>)
        = owners s"
      by (auto simp: owners_def nth_append less_Suc_eq)
    fix i assume "i \<in> owners s"
    then have "i < length (sd_workers s)" by (simp add: owners_def phases_def)
    then show "key (s\<lparr>sd_workers := sd_workers s @ [\<lparr>wk_key = k, wk_cancelled = c, wk_phase = PhChecking\<rparr>]\<rparr>) i
        = key s i"
      by (simp add: key_def nth_append)
  qed simp_all
next
  case (ds_reserve s i)
  from ds_reserve(2) have "card (sd_reserved s) < queue_capacity (sd_config s)"
    by (auto simp: require_queue_capacity_def reserved_workers_def queue_capacity_def saturating_add_def
        split: if_splits)
  with ds_reserve(3) show ?case by (intro reservations_taken [OF ds_reserve(4,1)]) simp_all
next
  case (ds_unreserve s i)
  show ?case by (rule reservations_given_back [OF ds_unreserve(2,1)]) simp_all
next
  case (ds_retire s i m)
  show ?case by (rule reservations_given_back [OF ds_retire(2,1)]) simp_all
next
  case (ds_charge s i)
  then show ?case by (intro reservations_phase [OF ds_charge(2,1)]) simp_all
qed (erule (1) reservations_phase; simp)+

lemma reservations_step:
  assumes "scheduler_step s t" and "reservations_inv s"
  shows "reservations_inv t"
  using assms(1)
proof cases
  case st_dispatch
  then show ?thesis using assms(2) by (rule reservations_dispatch)
next
  case (st_token i)
  then show ?thesis by (auto intro!: reservations_kept [OF assms(2)] owners_same)
next
  case st_lease
  then show ?thesis by cases (auto intro!: reservations_kept [OF assms(2)] owners_same)
next
  case st_receive
  then show ?thesis by cases (auto intro!: reservations_kept [OF assms(2)] owners_same)
next
  case st_cancel
  then show ?thesis
  proof cases
    case cn_cancel
    have "key (cancel_live s) i = key s i" if "i \<in> owners s" for i
      using that by (simp add: key_def cancel_live_def owners_def phases_def nth_enumerate_eq)
    with cn_cancel show ?thesis by (auto intro!: reservations_kept [OF assms(2)] owners_same)
  qed (auto intro!: reservations_kept [OF assms(2)] owners_same)
next
  case st_drain
  then show ?thesis by cases (auto intro!: reservations_kept [OF assms(2)] owners_same)
qed

lemma at_set_phase:
  "at s i p \<Longrightarrow> phases t = phases s \<Longrightarrow> at (set_phase i q t) j r \<longleftrightarrow> (if j = i then r = q else at s j r)"
  by (auto simp: at_phases nth_list_update)

lemma at_same: "phases t = phases s \<Longrightarrow> at t = at s"
  by (simp add: at_phases fun_eq_iff)

lemma at_unique: "at s i p \<Longrightarrow> at s i q \<Longrightarrow> p = q"
  by (simp add: at_def)

definition is_sent :: "phase \<Rightarrow> bool" where
  "is_sent p \<longleftrightarrow> (\<exists>m. p = PhSent m)"

lemma messages_phase:
  assumes "messages_inv s" and "at s i p" and "\<not> is_sent p" and "\<not> is_sent q" and "phases t = phases s"
    and "sd_taken t = sd_taken s" and "sd_channel t = sd_channel s"
  shows "messages_inv (set_phase i q t)"
proof -
  have "at (set_phase i q t) j (PhSent m) \<longleftrightarrow> at s j (PhSent m)" for j m
    using assms(3,4) at_unique [OF assms(2), of "PhSent m"]
    by (auto simp: at_set_phase [OF assms(2,5)] is_sent_def)
  with assms(1,6,7) show ?thesis by (simp add: messages_inv_def)
qed

lemma messages_same:
  assumes "messages_inv s" and "phases t = phases s" and "sd_taken t @ sd_channel t = sd_taken s @ sd_channel s"
  shows "messages_inv t"
  using assms unfolding messages_inv_def assms(3) at_same [OF assms(2)] by blast

lemma messages_dispatch: "dispatch_step s t \<Longrightarrow> messages_inv s \<Longrightarrow> messages_inv t"
proof (induction rule: dispatch_step.induct)
  case (ds_call s depth k c)
  have "at (s\<lparr>sd_workers := sd_workers s @ [\<lparr>wk_key = k, wk_cancelled = c, wk_phase = PhChecking\<rparr>]\<rparr>) j
      (PhSent m) \<longleftrightarrow> at s j (PhSent m)" for j m
    by (auto simp: at_phases nth_append less_Suc_eq)
  with ds_call(3) show ?case by (simp add: messages_inv_def)
next
  case (ds_send s i m)
  have sent: "at (set_phase i (PhSent m) (s\<lparr>sd_channel := sd_channel s @ [(i, m)]\<rparr>)) j (PhSent m') \<longleftrightarrow>
      (if j = i then m' = m else at s j (PhSent m'))" for j m'
    using at_set_phase [OF ds_send(1), of "s\<lparr>sd_channel := sd_channel s @ [(i, m)]\<rparr>"] by simp
  from ds_send(3) have inv: "distinct (map fst (sd_taken s @ sd_channel s))"
      "\<And>j m'. (j, m') \<in> set (sd_taken s @ sd_channel s) \<longleftrightarrow> at s j (PhSent m')"
    by (simp_all add: messages_inv_def)
  have new: "i \<notin> fst ` set (sd_taken s @ sd_channel s)"
  proof
    assume "i \<in> fst ` set (sd_taken s @ sd_channel s)"
    then obtain m' where "(i, m') \<in> set (sd_taken s @ sd_channel s)" by (metis imageE prod.collapse)
    with inv(2) at_unique [OF ds_send(1), of "PhSent m'"] show False by auto
  qed
  let ?t = "set_phase i (PhSent m) (s\<lparr>sd_channel := sd_channel s @ [(i, m)]\<rparr>)"
  have list: "sd_taken ?t @ sd_channel ?t = (sd_taken s @ sd_channel s) @ [(i, m)]" by simp
  have "distinct (map fst ((sd_taken s @ sd_channel s) @ [(i, m)]))"
    using inv(1) new by (simp only: map_append distinct_append) auto
  moreover have "(j, m') \<in> set ((sd_taken s @ sd_channel s) @ [(i, m)]) \<longleftrightarrow>
      (if j = i then m' = m else at s j (PhSent m'))" for j m'
  proof -
    have "j \<noteq> i" if "(j, m') \<in> set (sd_taken s @ sd_channel s)" using new that by force
    with inv(2) [of j m'] show ?thesis by (cases "j = i") auto
  qed
  ultimately show ?case unfolding messages_inv_def sent list by blast
next
  case (ds_charge s i)
  show ?case by (rule messages_phase [OF ds_charge(2,1)]) (simp_all add: is_sent_def)
qed (erule (1) messages_phase; simp add: is_sent_def)+

lemma messages_step:
  assumes "scheduler_step s t" and "messages_inv s"
  shows "messages_inv t"
  using assms(1)
proof cases
  case st_dispatch
  then show ?thesis using assms(2) by (rule messages_dispatch)
next
  case (st_token i)
  then show ?thesis by (auto intro!: messages_same [OF assms(2)])
next
  case st_lease
  then show ?thesis by cases (auto intro!: messages_same [OF assms(2)])
next
  case st_receive
  then show ?thesis by cases (auto intro!: messages_same [OF assms(2)])
next
  case st_cancel
  then show ?thesis by cases (auto intro!: messages_same [OF assms(2)])
next
  case st_drain
  then show ?thesis by cases (auto intro!: messages_same [OF assms(2)])
qed

definition new_scheduler :: "scheduler \<Rightarrow> bool" where
  "new_scheduler s \<longleftrightarrow> (\<exists>c. scheduler_new c = Inr s)"

lemma scheduler_inv_new:
  assumes "new_scheduler s"
  shows "scheduler_inv s"
proof -
  from assms obtain c where "scheduler_new c = Inr s" by (auto simp: new_scheduler_def)
  then have "s = \<lparr>sd_config = c, sd_permits = sg_max_concurrent_workers c, sd_closed = False,
        sd_requests = 0, sd_workers = [], sd_leases = [], sd_reserved = {}, sd_live = Map.empty,
        sd_outstanding = 0, sd_shutting_down = False, sd_channel = [], sd_receiver = RxFree,
        sd_flagged = 0, sd_cancelling = 0, sd_closing = 0, sd_taken = [], sd_drains = []\<rparr>"
    by (cases "scheduler_validate c") (simp_all add: scheduler_new_def)
  then show ?thesis
    by (simp add: scheduler_inv_def slots_inv_def ledger_defs outstanding_inv_def got_def
      waiting_inv_def reservations_inv_def owners_def messages_inv_def at_def closing_inv_def draining_def phases_def)
qed

interpretation workers: invariant_system scheduler_step scheduler_inv new_scheduler
proof unfold_locales
  fix s t assume "scheduler_inv s" "scheduler_step s t"
  then show "scheduler_inv t" unfolding scheduler_inv_def
    by (blast intro: slots_step ledger_step outstanding_step waiting_step reservations_step messages_step shutdown_step)
qed (rule scheduler_inv_new)

section \<open>What holds in every schedule\<close>

text \<open>Runs with room in the counter: they keep the budget.\<close>

definition roomy :: "scheduler \<Rightarrow> bool" where
  "roomy = reach (\<lambda>s. new_scheduler s \<and> crowd_fits s) roomy_step"

lemma new_scheduler_counts: "new_scheduler s \<Longrightarrow> charges_made s = 0 \<and> backing_off s = 0 \<and> sd_taken s = [] \<and> sd_receiver s = RxFree"
proof -
  assume "new_scheduler s"
  then obtain c where "scheduler_new c = Inr s" by (auto simp: new_scheduler_def)
  then have "sd_workers s = []" "sd_leases s = []" "sd_taken s = []" "sd_receiver s = RxFree"
    by (cases "scheduler_validate c"; auto simp: scheduler_new_def)+
  then show ?thesis by (simp add: count_defs phases_def)
qed

interpretation roomy_workers: invariant_system roomy_step
  "\<lambda>s. scheduler_inv s \<and> crowd_fits s \<and> budget_kept s" "\<lambda>s. new_scheduler s \<and> crowd_fits s"
proof unfold_locales
  fix s t assume s: "scheduler_inv s \<and> crowd_fits s \<and> budget_kept s" and "roomy_step s t"
  then have t: "scheduler_step s t" "crowd_fits t" by (simp_all add: roomy_step_def)
  then have "scheduler_inv t" using s workers.inv_step by blast
  moreover from s have "ledger_inv s" by (simp add: scheduler_inv_def)
  with budget_step [OF t(1)] s have "budget_kept t" by blast
  ultimately show "scheduler_inv t \<and> crowd_fits t \<and> budget_kept t" using t(2) by blast
next
  fix s assume "new_scheduler s \<and> crowd_fits s"
  with scheduler_inv_new new_scheduler_counts show "scheduler_inv s \<and> crowd_fits s \<and> budget_kept s"
    by (auto simp: budget_kept_def)
qed

text \<open>
  C5. Whatever the schedule: the workers that hold a slot and the leases together never exceed the
  configured slots, no more tasks are reserved than the queue bound allows, two dispatches never
  own the same task at once, and the ledger counts, modulo \<open>2 ^ 32\<close>, the charges that stand and
  those that are being taken back. As long as the request limit and the charges being taken back
  at once have fit below \<open>2 ^ 32\<close>, the charges that stand never exceed the limit.
\<close>

theorem workers_bounded:
  assumes "reach new_scheduler scheduler_step s"
  shows "n_ph holds_slot s + n_ls lease_holds s \<le> sg_max_concurrent_workers (sd_config s) \<and>
    card (sd_reserved s) \<le> queue_capacity (sd_config s) \<and>
    (\<forall>i p j q. at s i p \<longrightarrow> at s j q \<longrightarrow> has_task p \<longrightarrow> has_task q \<longrightarrow> key s i = key s j \<longrightarrow> i = j) \<and>
    sd_requests s = (charges_made s + backing_off s) mod u32_size \<and>
    (roomy s \<longrightarrow> charges_made s \<le> max_requests s \<and> sd_requests s = charges_made s + backing_off s)"
proof -
  from workers.reach_inv [OF assms] have inv: "scheduler_inv s" .
  then have "inj_on (key s) (owners s)" and "card (sd_reserved s) \<le> queue_capacity (sd_config s)"
    unfolding scheduler_inv_def reservations_inv_def by blast+
  moreover from this(1)
  have "\<forall>i p j q. at s i p \<longrightarrow> at s j q \<longrightarrow> has_task p \<longrightarrow> has_task q \<longrightarrow> key s i = key s j \<longrightarrow> i = j"
    using owner_of by (blast dest: inj_onD)
  moreover from inv have "slots_inv s" "ledger_inv s" by (simp_all add: scheduler_inv_def)
  moreover from this(2) have "charges_made s \<le> max_requests s \<and> sd_requests s = charges_made s + backing_off s" if "roomy s"
    using roomy_workers.reach_inv [of s] that roomy_counter(1) [of s] by (auto simp: roomy_def budget_kept_def)
  ultimately show ?thesis by (simp add: slots_inv_def ledger_inv_def)
qed

text \<open>
  C10. The receiver is told that nothing is left only when that is so: when it holds the lock and
  reads an outstanding count of 0, no dispatched worker is anywhere between its launch and its
  message, the channel is empty, and every message ever sent has been taken, exactly once.
\<close>

theorem none_means_none:
  assumes "reach new_scheduler scheduler_step s" and "sd_receiver s = RxNext" and "sd_outstanding s = 0"
  shows "(\<forall>i p. at s i p \<longrightarrow> \<not> in_flight p) \<and> sd_channel s = [] \<and>
    distinct (map fst (sd_taken s)) \<and> (\<forall>i m. at s i (PhSent m) \<longleftrightarrow> (i, m) \<in> set (sd_taken s))"
proof -
  from workers.reach_inv [OF assms(1)] have o: "outstanding_inv s" and m: "messages_inv s"
    by (simp_all add: scheduler_inv_def)
  from o assms(2,3) have "n_ph in_flight s = 0" and c: "sd_channel s = []"
    by (simp_all add: outstanding_inv_def got_def)
  then have "\<forall>i p. at s i p \<longrightarrow> \<not> in_flight p" by (auto simp: count_of_zero at_phases)
  with m c show ?thesis by (simp add: messages_inv_def)
qed

text \<open>A worker in flight can always move by itself, but for one that runs or waits for a slot.\<close>

lemma in_flight_moves:
  assumes "at s i p" and "in_flight p" and "p \<noteq> PhRunning" and "sd_closed s" and "sd_channel s = []"
  shows "\<exists>t. dispatch_step s t \<and> \<not> at t i p"
proof -
  have moved: "\<not> at (set_phase i q t) i p" if "q \<noteq> p" "phases t = phases s" for q t
    using at_set_phase [OF assms(1) that(2), of q i p] that(1) by simp
  show ?thesis
  proof (cases p)
    case PhWaiting
    from ds_closed [OF assms(1) [unfolded PhWaiting] assms(4)] moved [of _ s] show ?thesis
      unfolding PhWaiting by blast
  next
    case PhHolding
    have "\<not> at (set_phase i PhListed (s\<lparr>sd_live := (sd_live s)(key s i \<mapsto> i)\<rparr>)) i p"
      by (rule moved) (simp_all add: PhHolding)
    with ds_list [OF assms(1) [unfolded PhHolding]] show ?thesis by blast
  next
    case PhListed
    have "\<not> at (set_phase i PhRunning (if sd_shutting_down s then cancel_worker i s else s)) i p"
      by (rule moved) (simp_all add: PhListed)
    with ds_run [OF assms(1) [unfolded PhListed]] show ?thesis by blast
  next
    case (PhFinished m)
    have "\<not> at (set_phase i (PhRetiring m) (s\<lparr>sd_permits := sd_permits s + 1\<rparr>)) i p"
      by (rule moved) (simp_all add: PhFinished)
    with ds_release [OF assms(1) [unfolded PhFinished]] show ?thesis by blast
  next
    case (PhRetiring m)
    have "\<not> at (set_phase i (PhUnlisted m) (s\<lparr>sd_live := (sd_live s)(key s i := None)\<rparr>)) i p"
      by (rule moved) (simp_all add: PhRetiring)
    with ds_unlist [OF assms(1) [unfolded PhRetiring]] show ?thesis by blast
  next
    case (PhUnlisted m)
    have "\<not> at (set_phase i (PhSending m) (s\<lparr>sd_reserved := sd_reserved s - {key s i}\<rparr>)) i p"
      by (rule moved) (simp_all add: PhUnlisted)
    with ds_retire [OF assms(1) [unfolded PhUnlisted]] show ?thesis by blast
  next
    case (PhSending m)
    have "\<not> at (set_phase i (PhSent m) (s\<lparr>sd_channel := sd_channel s @ [(i, m)]\<rparr>)) i p"
      by (rule moved) (simp_all add: PhSending)
    with ds_send [OF assms(1) [unfolded PhSending]] assms(5) show ?thesis
      by (auto simp: channel_capacity_def)
  qed (use assms(2,3) in simp_all)
qed

text \<open>
  A drain that waits is never stuck: there is a message to take, or some worker is still on its
  way to sending one and either its backend is running or the worker has a step of its own to take,
  whatever the other workers, the leases and the receivers do.
\<close>

theorem drain_not_stuck:
  assumes "reach new_scheduler scheduler_step s" and "sd_receiver s = RxDrainWait us"
  shows "sd_channel s \<noteq> [] \<or> (\<exists>i p. at s i p \<and> in_flight p \<and>
    (p = PhRunning \<or> (\<exists>t. dispatch_step s t \<and> \<not> at t i p)))"
proof (cases "sd_channel s = []")
  case True
  from workers.reach_inv [OF assms(1)] have o: "outstanding_inv s" "waiting_inv s" and sh: "closing_inv s"
    by (simp_all add: scheduler_inv_def)
  from o assms(2) True have "0 < n_ph in_flight s" by (simp add: outstanding_inv_def waiting_inv_def got_def)
  then obtain i p where i: "at s i p" "in_flight p"
    using count_of_zero [of in_flight "phases s"] by (auto simp: at_phases in_set_conv_nth)
  from sh assms(2) have "sd_closed s" by (auto simp: closing_inv_def draining_def)
  with in_flight_moves [OF i] i True show ?thesis by blast
qed simp

text \<open>
  Once a drain has finished, no worker holds a slot and none ever will: only leases can still
  keep slots from being free.
\<close>

theorem drained_for_good:
  assumes "reach new_scheduler scheduler_step s" and "sd_drains s \<noteq> []" and "scheduler_step\<^sup>*\<^sup>* s t"
  shows "n_ph holds_slot t = 0 \<and> sd_closed t \<and>
    sd_permits t = sg_max_concurrent_workers (sd_config t) - n_ls lease_holds t"
proof -
  from assms(3,1) have "reach new_scheduler scheduler_step t" by (rule reach_run)
  from workers.reach_inv [OF this] have inv: "scheduler_inv t" .
  have "sd_drains t \<noteq> []" if "scheduler_step s t" "sd_drains s \<noteq> []" for s t
    using that(1)
  proof cases
    case st_dispatch
    then show ?thesis using that(2) by cases simp_all
  next
    case st_lease
    then show ?thesis using that(2) by cases simp_all
  next
    case st_receive
    then show ?thesis using that(2) by cases simp_all
  next
    case st_cancel
    then show ?thesis using that(2) by cases simp_all
  next
    case st_drain
    then show ?thesis using that(2) by cases simp_all
  qed (use that(2) in simp)
  with assms(3,2) have "sd_drains t \<noteq> []" by (induction rule: rtranclp_induct) blast+
  with inv show ?thesis by (auto simp: scheduler_inv_def closing_inv_def slots_inv_def)
qed

section \<open>Every dispatch comes to an end\<close>

fun rank :: "phase \<Rightarrow> nat" where
  "rank PhChecking = 13"
| "rank PhReserving = 12"
| "rank PhCharging = 11"
| "rank PhBackingOff = 2"
| "rank PhUnreserving = 1"
| "rank (PhRefused _) = 0"
| "rank PhCharged = 10"
| "rank PhWaiting = 9"
| "rank PhHolding = 8"
| "rank PhListed = 7"
| "rank PhRunning = 6"
| "rank (PhFinished _) = 5"
| "rank (PhRetiring _) = 4"
| "rank (PhUnlisted _) = 3"
| "rank (PhSending _) = 2"
| "rank (PhSent _) = 0"

definition work :: "scheduler \<Rightarrow> nat" where
  "work s = sum_list (map rank (phases s))"

lemma work_set_phase:
  assumes "at s i p" and "phases t = phases s" and "rank q < rank p"
  shows "work (set_phase i q t) < work s"
proof -
  have "sum_list (map rank (xs[i := q])) < sum_list (map rank xs)" if "i < length xs" "rank q < rank (xs ! i)" for xs
    using that
  proof (induction xs arbitrary: i)
    case (Cons x xs)
    then show ?case by (cases i) auto
  qed simp
  from this [of "phases s"] assms show ?thesis by (simp add: work_def at_phases)
qed

definition dispatch_move :: "scheduler \<Rightarrow> scheduler \<Rightarrow> bool" where
  "dispatch_move s t \<longleftrightarrow> dispatch_step s t \<and> length (sd_workers t) = length (sd_workers s)"

lemma dispatch_move_work: "dispatch_move s t \<Longrightarrow> work t < work s"
proof -
  assume m: "dispatch_move s t"
  then have "dispatch_step s t" by (simp add: dispatch_move_def)
  then show ?thesis
  proof cases
    case ds_call
    with m show ?thesis by (simp add: dispatch_move_def)
  next
    case (ds_charge i)
    then show ?thesis by (auto intro!: work_set_phase [OF ds_charge(2)])
  next
    case (ds_run i)
    then show ?thesis by (auto intro!: work_set_phase [OF ds_run(2)])
  qed (simp, erule work_set_phase, simp, simp)+
qed

text \<open>
  Dispatches come to an end: among \<open>n\<close> dispatches no more than 13 \<open>n\<close> steps can be made
  altogether, in whatever order, before every one of them was refused or has sent its message (a
  backend that never answers stops its own worker earlier).
\<close>

theorem dispatches_finish:
  assumes "(dispatch_move ^^ n) s t"
  shows "n \<le> 13 * length (sd_workers s)"
proof -
  have "n + work t \<le> work s"
    using assms
  proof (induction n arbitrary: t)
    case (Suc n)
    then obtain u where u: "(dispatch_move ^^ n) s u" "dispatch_move u t" by auto
    with Suc.IH [OF u(1)] dispatch_move_work [OF u(2)] show ?case by simp
  qed simp
  moreover have "rank p \<le> 13" for p by (cases p) simp_all
  then have "sum_list (map rank xs) \<le> 13 * length xs" for xs
    by (induction xs) (auto intro: add_mono)
  then have "work s \<le> 13 * length (sd_workers s)"
    unfolding work_def by (metis length_map phases_def)
  ultimately show ?thesis by simp
qed

section \<open>A run of one worker\<close>

definition sample_worker :: "phase \<Rightarrow> nat \<Rightarrow> ident set \<Rightarrow> nat \<Rightarrow> scheduler" where
  "sample_worker p requests reserved outstanding = \<lparr>sd_config = default_scheduler_config, sd_permits = 3,
    sd_closed = False, sd_requests = requests,
    sd_workers = [\<lparr>wk_key = ''t'', wk_cancelled = False, wk_phase = p\<rparr>], sd_leases = [],
    sd_reserved = reserved, sd_live = Map.empty, sd_outstanding = outstanding,
    sd_shutting_down = False, sd_channel = [], sd_receiver = RxFree,
    sd_flagged = 0, sd_cancelling = 0, sd_closing = 0, sd_taken = [], sd_drains = []\<rparr>"

lemma default_config_valid: "scheduler_validate default_scheduler_config = Inr ()"
  by (simp add: scheduler_validate_def default_scheduler_config_def default_max_workers_def
      default_max_depth_def default_max_queued_workers_def default_budget_def budget_validate_def
      default_max_model_requests_def)

lemmas sample_simps = sample_worker_def at_def set_phase_def key_def reserved_workers_def
  require_queue_capacity_def queue_capacity_def saturating_add_def u32_max_def max_requests_def
  default_scheduler_config_def default_budget_def default_max_model_requests_def
  default_max_workers_def default_max_queued_workers_def charge_ok_def wrapping_add_one_def u32_size_def

lemma sample_new: "new_scheduler ((sample_worker p 0 {} 0)\<lparr>sd_workers := []\<rparr>)"
  using default_config_valid
  by (auto simp: new_scheduler_def scheduler_new_def sample_worker_def default_scheduler_config_def
      default_max_workers_def intro!: exI [of _ default_scheduler_config])

lemma roomy_reach: "roomy s \<Longrightarrow> reach new_scheduler scheduler_step s"
proof -
  assume "roomy s"
  then have "reach (\<lambda>s. new_scheduler s \<and> crowd_fits s) roomy_step s" by (simp add: roomy_def)
  then show ?thesis by (induction rule: reach.induct) (auto intro: reach_init reach_step simp: roomy_step_def)
qed

lemma roomy_next: "roomy s \<Longrightarrow> scheduler_step s t \<Longrightarrow> crowd_fits t \<Longrightarrow> roomy t"
  unfolding roomy_def by (erule reach_step) (simp add: roomy_step_def)

lemma sample_fits: "crowd_fits (sample_worker p r res n)"
  by (simp add: crowd_fits_def backing_off_def count_of_def phases_def sample_simps)

lemma sample_roomy: "roomy (sample_worker PhWaiting 1 {''t''} 1)"
proof -
  let ?s0 = "(sample_worker PhChecking 0 {} 0)\<lparr>sd_workers := []\<rparr>"
  have s1: "dispatch_step ?s0 (sample_worker PhChecking 0 {} 0)"
    using ds_call [of ?s0 1 "''t''" False]
    by (simp add: sample_simps require_depth_def default_max_depth_def)
  have s2: "dispatch_step (sample_worker PhChecking 0 {} 0) (sample_worker PhReserving 0 {} 0)"
    using ds_admit [of "sample_worker PhChecking 0 {} 0" 0] by (simp add: sample_simps)
  have s3: "dispatch_step (sample_worker PhReserving 0 {} 0) (sample_worker PhCharging 0 {''t''} 0)"
    using ds_reserve [of "sample_worker PhReserving 0 {} 0" 0] by (simp add: sample_simps)
  have s4: "dispatch_step (sample_worker PhCharging 0 {''t''} 0) (sample_worker PhCharged 1 {''t''} 0)"
    using ds_charge [of "sample_worker PhCharging 0 {''t''} 0" 0] by (simp add: sample_simps)
  have s5: "dispatch_step (sample_worker PhCharged 1 {''t''} 0) (sample_worker PhWaiting 1 {''t''} 1)"
    using ds_launch [of "sample_worker PhCharged 1 {''t''} 0" 0] by (simp add: sample_simps)
  have "crowd_fits ?s0" by (simp add: crowd_fits_def backing_off_def phases_def sample_simps)
  then have s0: "roomy ?s0" unfolding roomy_def by (intro reach_init) (simp add: sample_new)
  note more = roomy_next [OF _ st_dispatch sample_fits]
  show ?thesis by (rule more [OF more [OF more [OF more [OF more [OF s0 s1] s2] s3] s4] s5])
qed

lemmas sample_launched = sample_roomy [THEN roomy_reach]

lemma workers_bounded_witness:
  "charges_made (sample_worker PhWaiting 1 {''t''} 1) \<le> 24"
proof -
  have "max_requests (sample_worker PhWaiting 1 {''t''} 1) = 24" by (simp add: sample_simps)
  with workers_bounded [OF sample_launched] sample_roomy show ?thesis by simp
qed

text \<open>The same worker, with the scheduler shut down.\<close>

definition sample_drain :: "phase \<Rightarrow> ident set \<Rightarrow> nat \<Rightarrow> (nat \<times> settled) list \<Rightarrow> receiver
    \<Rightarrow> (nat \<times> settled) list \<Rightarrow> settled list list \<Rightarrow> scheduler" where
  "sample_drain p reserved outstanding channel receiver taken drains =
    (sample_worker p 1 reserved outstanding)\<lparr>sd_closed := True, sd_shutting_down := True,
      sd_channel := channel, sd_receiver := receiver, sd_taken := taken, sd_drains := drains\<rparr>"

lemmas drain_simps = sample_drain_def sample_worker_def at_def set_phase_def key_def channel_capacity_def

lemma sample_draining:
  "reach new_scheduler scheduler_step (sample_drain PhWaiting {''t''} 1 [] (RxDrainWait []) [] [])"
proof -
  let ?w = "sample_worker PhWaiting 1 {''t''} 1"
  let ?d = "sample_drain PhWaiting {''t''} 1 []"
  have s1: "cancel_step ?w (?w\<lparr>sd_shutting_down := True, sd_flagged := 1\<rparr>)"
    using cn_flag [of ?w] by (simp add: sample_worker_def)
  have s2: "cancel_step (?w\<lparr>sd_shutting_down := True, sd_flagged := 1\<rparr>)
      (?w\<lparr>sd_shutting_down := True, sd_cancelling := 1\<rparr>)"
    using cn_cancel [of "?w\<lparr>sd_shutting_down := True, sd_flagged := 1\<rparr>"]
    by (simp add: sample_worker_def cancel_live_def)
  have s3: "cancel_step (?w\<lparr>sd_shutting_down := True, sd_cancelling := 1\<rparr>)
      (?w\<lparr>sd_shutting_down := True, sd_closed := True, sd_closing := 1\<rparr>)"
    using cn_close [of "?w\<lparr>sd_shutting_down := True, sd_cancelling := 1\<rparr>"]
    by (simp add: sample_worker_def)
  have s4: "drain_step (?w\<lparr>sd_shutting_down := True, sd_closed := True, sd_closing := 1\<rparr>) (?d (RxDrain []) [] [])"
    using dr_lock [of "?w\<lparr>sd_shutting_down := True, sd_closed := True, sd_closing := 1\<rparr>"]
    by (simp add: sample_worker_def sample_drain_def)
  have s5: "drain_step (?d (RxDrain []) [] []) (?d (RxDrainWait []) [] [])"
    using dr_wait [of "?d (RxDrain []) [] []" "[]"] by (simp add: drain_simps)
  show ?thesis
    by (rule sample_launched [THEN reach_step, OF st_cancel [OF s1], THEN reach_step, OF st_cancel [OF s2],
        THEN reach_step, OF st_cancel [OF s3], THEN reach_step, OF st_drain [OF s4],
        THEN reach_step, OF st_drain [OF s5]])
qed

abbreviation closed_message :: settled where
  "closed_message \<equiv> Inl SchedulerShutdown"

lemma sample_drained:
  "reach new_scheduler scheduler_step
    (sample_drain (PhSent closed_message) {} 0 [] RxFree [(0, closed_message)] [[closed_message]])"
proof -
  let ?m = closed_message
  let ?d = "\<lambda>p r n c rx t. sample_drain p r n c rx t []"
  have s1: "dispatch_step (?d PhWaiting {''t''} 1 [] (RxDrainWait []) [])
      (?d (PhRetiring ?m) {''t''} 1 [] (RxDrainWait []) [])"
    using ds_closed [of "?d PhWaiting {''t''} 1 [] (RxDrainWait []) []" 0] by (simp add: drain_simps)
  have s2: "dispatch_step (?d (PhRetiring ?m) {''t''} 1 [] (RxDrainWait []) [])
      (?d (PhUnlisted ?m) {''t''} 1 [] (RxDrainWait []) [])"
    using ds_unlist [of "?d (PhRetiring ?m) {''t''} 1 [] (RxDrainWait []) []" 0 ?m]
    by (simp add: drain_simps)
  have s3: "dispatch_step (?d (PhUnlisted ?m) {''t''} 1 [] (RxDrainWait []) [])
      (?d (PhSending ?m) {} 1 [] (RxDrainWait []) [])"
    using ds_retire [of "?d (PhUnlisted ?m) {''t''} 1 [] (RxDrainWait []) []" 0 ?m]
    by (simp add: drain_simps)
  have s4: "dispatch_step (?d (PhSending ?m) {} 1 [] (RxDrainWait []) [])
      (?d (PhSent ?m) {} 1 [(0, ?m)] (RxDrainWait []) [])"
    using ds_send [of "?d (PhSending ?m) {} 1 [] (RxDrainWait []) []" 0 ?m] by (simp add: drain_simps)
  have s5: "drain_step (?d (PhSent ?m) {} 1 [(0, ?m)] (RxDrainWait []) [])
      (?d (PhSent ?m) {} 1 [] (RxDrainGot [?m]) [(0, ?m)])"
    using dr_take [of "?d (PhSent ?m) {} 1 [(0, ?m)] (RxDrainWait []) []" "[]" "(0, ?m)" "[]"]
    by (simp add: drain_simps)
  have s6: "drain_step (?d (PhSent ?m) {} 1 [] (RxDrainGot [?m]) [(0, ?m)])
      (?d (PhSent ?m) {} 0 [] (RxDrain [?m]) [(0, ?m)])"
    using dr_sub [of "?d (PhSent ?m) {} 1 [] (RxDrainGot [?m]) [(0, ?m)]" "[?m]"]
    by (simp add: drain_simps)
  have s7: "drain_step (?d (PhSent ?m) {} 0 [] (RxDrain [?m]) [(0, ?m)])
      (sample_drain (PhSent ?m) {} 0 [] RxFree [(0, ?m)] [[?m]])"
    using dr_done [of "?d (PhSent ?m) {} 0 [] (RxDrain [?m]) [(0, ?m)]" "[?m]"]
    by (simp add: drain_simps)
  show ?thesis
    by (rule sample_draining [THEN reach_step, OF st_dispatch [OF s1], THEN reach_step, OF st_dispatch [OF s2],
        THEN reach_step, OF st_dispatch [OF s3], THEN reach_step, OF st_dispatch [OF s4],
        THEN reach_step, OF st_drain [OF s5], THEN reach_step, OF st_drain [OF s6],
        THEN reach_step, OF st_drain [OF s7]])
qed

lemma none_means_none_witness:
  "distinct (map fst (sd_taken (sample_drain (PhSent closed_message) {} 0 [] RxNext
    [(0, closed_message)] [[closed_message]])))"
proof -
  let ?d = "\<lambda>rx. sample_drain (PhSent closed_message) {} 0 [] rx [(0, closed_message)] [[closed_message]]"
  have "receive_step (?d RxFree) (?d RxNext)"
    using rx_lock [of "?d RxFree"] by (simp add: drain_simps)
  from reach_step [OF sample_drained st_receive [OF this]]
  have "reach new_scheduler scheduler_step (?d RxNext)" .
  from none_means_none [OF this] show ?thesis by (simp add: sample_drain_def sample_worker_def)
qed

lemma drain_not_stuck_witness:
  "\<exists>i p. at (sample_drain PhWaiting {''t''} 1 [] (RxDrainWait []) [] []) i p \<and> in_flight p"
proof -
  have "sd_receiver (sample_drain PhWaiting {''t''} 1 [] (RxDrainWait []) [] []) = RxDrainWait []"
    by (simp add: sample_drain_def)
  from drain_not_stuck [OF sample_draining this] show ?thesis by (auto simp: sample_drain_def)
qed

lemma drained_for_good_witness:
  "sd_permits (sample_drain (PhSent closed_message) {} 0 [] RxFree [(0, closed_message)]
    [[closed_message]]) = 3"
  using drained_for_good [OF sample_drained _ rtranclp.rtrancl_refl]
  by (simp add: sample_drain_def sample_worker_def default_scheduler_config_def default_max_workers_def)

lemma dispatches_finish_witness:
  "1 \<le> 13 * length (sd_workers (sample_worker PhChecking 0 {} 0))"
proof -
  have "dispatch_step (sample_worker PhChecking 0 {} 0) (sample_worker PhReserving 0 {} 0)"
    using ds_admit [of "sample_worker PhChecking 0 {} 0" 0] by (simp add: sample_simps)
  then have "dispatch_move (sample_worker PhChecking 0 {} 0) (sample_worker PhReserving 0 {} 0)"
    by (simp add: dispatch_move_def) (simp add: sample_worker_def)
  then have "(dispatch_move ^^ 1) (sample_worker PhChecking 0 {} 0) (sample_worker PhReserving 0 {} 0)"
    by (simp only: relpowp_1)
  then show ?thesis by (rule dispatches_finish)
qed

section \<open>The width of the counters\<close>

text \<open>
  In a run with room the count of outstanding outcomes is at most the request limit, so it stays
  below \<open>2 ^ 32\<close> as well: a message counted there is that of a worker whose request was charged.
\<close>

lemma got_taken_step:
  assumes "scheduler_step s t" and "got s \<le> length (sd_taken s)"
  shows "got t \<le> length (sd_taken t)"
  using assms(1)
proof cases
  case st_dispatch
  then show ?thesis using assms(2) by cases (simp_all add: got_def)
next
  case st_lease
  then show ?thesis using assms(2) by cases (simp_all add: got_def)
next
  case st_receive
  then show ?thesis using assms(2) by cases (simp_all add: got_def split: receiver.splits)
next
  case st_cancel
  then show ?thesis using assms(2) by cases (simp_all add: got_def cancel_live_def)
next
  case st_drain
  then show ?thesis using assms(2) by cases (simp_all add: got_def split: receiver.splits)
qed (use assms(2) in \<open>simp add: got_def\<close>)

lemma got_taken: "reach new_scheduler scheduler_step s \<Longrightarrow> got s \<le> length (sd_taken s)"
proof (induction rule: reach.induct)
  case (reach_init s)
  from new_scheduler_counts [OF this] show ?case by (simp add: got_def)
next
  case (reach_step s t)
  from got_taken_step [OF reach_step(2,3)] show ?case .
qed

lemma messages_sent:
  assumes "messages_inv s"
  shows "length (sd_taken s) + length (sd_channel s) \<le> n_ph is_sent s"
proof -
  let ?xs = "map fst (sd_taken s @ sd_channel s)" and ?sent = "{i. i < length (phases s) \<and> is_sent (phases s ! i)}"
  have "i \<in> ?sent" if "i \<in> set ?xs" for i
  proof -
    from that obtain m where "(i, m) \<in> set (sd_taken s @ sd_channel s)" unfolding set_map by force
    with assms have "at s i (PhSent m)" unfolding messages_inv_def by blast
    then show ?thesis by (auto simp: at_phases is_sent_def)
  qed
  then have "set ?xs \<subseteq> ?sent" by blast
  then have "card (set ?xs) \<le> card ?sent" by (intro card_mono) simp_all
  also have "card ?sent = n_ph is_sent s" by (simp add: count_of_def length_filter_conv_card)
  finally show ?thesis using assms distinct_card [of ?xs] by (simp add: messages_inv_def)
qed

lemma charged_phases: "n_ph in_flight s + n_ph is_sent s \<le> n_ph request_charged s"
proof -
  have p: "of_bool (in_flight p) + of_bool (is_sent p) \<le> (of_bool (request_charged p) :: nat)" for p
    by (cases p) (simp_all add: is_sent_def)
  have "count_of in_flight ps + count_of is_sent ps \<le> count_of request_charged ps" for ps
  proof (induction ps)
    case (Cons x ps)
    then show ?case using p [of x] by (auto simp: count_of_def split: if_splits)
  qed simp
  then show ?thesis .
qed

theorem outstanding_fits:
  assumes "roomy s"
  shows "sd_outstanding s \<le> max_requests s \<and> sd_outstanding s < u32_size"
proof -
  have "reach new_scheduler scheduler_step s" by (rule roomy_reach [OF assms])
  from workers.reach_inv [OF this] got_taken [OF this]
  have "outstanding_inv s" "messages_inv s" "got s \<le> length (sd_taken s)" by (simp_all add: scheduler_inv_def)
  with messages_sent [of s] charged_phases [of s] have "sd_outstanding s \<le> charges_made s"
    by (simp add: outstanding_inv_def charges_made_def)
  moreover have "budget_kept s" "crowd_fits s" using roomy_workers.reach_inv [of s] assms by (simp_all add: roomy_def)
  ultimately show ?thesis by (simp add: budget_kept_def crowd_fits_def)
qed

text \<open>
  A limit of \<^verbatim>\<open>u32::MAX\<close>, which the host configures, leaves no room: once that many charges stand, a
  charge that is refused makes the counter 0 until it is taken back, and a charge in between is
  granted.
\<close>

definition wide_config :: scheduler_config where
  "wide_config = default_scheduler_config\<lparr>sg_budget := default_budget\<lparr>bu_max_model_requests := u32_max\<rparr>\<rparr>"

definition leased :: "nat \<Rightarrow> nat \<Rightarrow> nat \<Rightarrow> lease_phase list \<Rightarrow> scheduler" where
  "leased n requests permits ls = \<lparr>sd_config = wide_config, sd_permits = permits, sd_closed = False,
    sd_requests = requests, sd_workers = [], sd_leases = replicate n LsReleased @ ls, sd_reserved = {},
    sd_live = Map.empty, sd_outstanding = 0, sd_shutting_down = False, sd_channel = [], sd_receiver = RxFree,
    sd_flagged = 0, sd_cancelling = 0, sd_closing = 0, sd_taken = [], sd_drains = []\<rparr>"

abbreviation leases_reached :: "scheduler \<Rightarrow> bool" where
  "leases_reached \<equiv> reach new_scheduler scheduler_step"

lemma leased_call: "leases_reached (leased n r p ls) \<Longrightarrow> leases_reached (leased n r p (ls @ [LsWaiting]))"
  by (erule reach_step, rule st_lease) (use ls_call [of "leased n r p ls"] in \<open>simp add: leased_def\<close>)

lemma leased_acquire:
  "leases_reached (leased n r (Suc p) (ls @ LsWaiting # ls')) \<Longrightarrow> leases_reached (leased n r p (ls @ LsPermit # ls'))"
  by (erule reach_step, rule st_lease)
    (use ls_acquire [of "n + length ls" "leased n r (Suc p) (ls @ LsWaiting # ls')"] in
      \<open>simp add: leased_def set_lease_def nth_append list_update_append\<close>)

lemma leased_charge:
  "leases_reached (leased n r p (ls @ LsPermit # ls')) \<Longrightarrow>
    leases_reached (leased n (wrapping_add_one r) p (ls @ (if r < u32_max then LsHeld else LsBackingOff) # ls'))"
  by (erule reach_step, rule st_lease)
    (use ls_charge [of "n + length ls" "leased n r p (ls @ LsPermit # ls')"] in
      \<open>simp add: leased_def set_lease_def nth_append list_update_append charge_ok_def max_requests_def wide_config_def\<close>)

lemma leased_release:
  "leases_reached (leased n r p [LsHeld]) \<Longrightarrow> leases_reached (leased (Suc n) r (Suc p) [])"
  by (erule reach_step, rule st_lease)
    (use ls_release [of n "leased n r p [LsHeld]"] in
      \<open>simp add: leased_def set_lease_def nth_append list_update_append replicate_append_same\<close>)

lemma wrapping_add_one_small: "n < u32_max \<Longrightarrow> wrapping_add_one n = Suc n"
  by (simp add: wrapping_add_one_def u32_size_def u32_max_def)

lemma leased_many: "n \<le> u32_max \<Longrightarrow> leases_reached (leased n n 3 [])"
proof (induction n)
  case 0
  have "scheduler_validate wide_config = Inr ()"
    by (simp add: scheduler_validate_def wide_config_def default_scheduler_config_def default_max_workers_def
        default_max_depth_def default_max_queued_workers_def default_budget_def budget_validate_def u32_max_def)
  then have "new_scheduler (leased 0 0 3 [])"
    by (auto simp: new_scheduler_def scheduler_new_def leased_def wide_config_def default_scheduler_config_def
        default_max_workers_def intro!: exI [of _ wide_config])
  then show ?case by (rule reach_init)
next
  case (Suc n)
  then have n: "n < u32_max" and r: "leases_reached (leased n n (Suc 2) [])" by (simp_all add: numeral_3_eq_3)
  have "leases_reached (leased n n (Suc 2) ([] @ LsWaiting # []))" using leased_call [OF r] by simp
  from leased_charge [OF leased_acquire [OF this]] n have "leases_reached (leased n (Suc n) 2 [LsHeld])"
    by (simp add: wrapping_add_one_small)
  from leased_release [OF this] show ?case by simp
qed

theorem budget_overrun:
  "\<exists>s. reach new_scheduler scheduler_step s \<and> max_requests s = u32_max \<and> max_requests s < charges_made s"
proof -
  define m where "m = u32_max"
  have "leases_reached (leased m m (Suc 2) [])" using leased_many [of m] by (simp add: m_def)
  then have "leases_reached (leased m m (Suc 2) ([] @ LsWaiting # [LsWaiting]))"
    using leased_call [OF leased_call [of m m "Suc 2" "[]"]] by simp
  from leased_acquire [OF this] have "leases_reached (leased m m (Suc 1) ([LsPermit] @ LsWaiting # []))" by (simp add: numeral_2_eq_2)
  from leased_acquire [OF this] have "leases_reached (leased m m 1 ([] @ LsPermit # [LsPermit]))" by simp
  from leased_charge [OF this] have "leases_reached (leased m 0 1 ([LsBackingOff] @ LsPermit # []))"
    by (simp add: m_def wrapping_add_one_def u32_max_def u32_size_def)
  from leased_charge [OF this] have r: "leases_reached (leased m (wrapping_add_one 0) 1 [LsBackingOff, LsHeld])"
    by (simp add: u32_max_def)
  have "charges_made (leased m (wrapping_add_one 0) 1 [LsBackingOff, LsHeld]) = Suc m"
    by (simp add: charges_made_def phases_def leased_def count_of_def lease_charged_def)
  moreover have "max_requests (leased m (wrapping_add_one 0) 1 [LsBackingOff, LsHeld]) = u32_max"
    by (simp add: max_requests_def leased_def wide_config_def)
  ultimately show ?thesis using r by (intro exI conjI) (assumption, assumption, simp add: m_def)
qed

end
