(* ===== verification/Coordinator.thy ===== *)
theory Coordinator imports Delegation_Histories Task_Plan Scheduler "HOL-Library.List_Lexorder" "HOL-Library.Char_ord" begin

text \<open>
  The delegation coordinator of \<^verbatim>\<open>crates/harness-orchestrator/src/coordination/coordinator.rs\<close>: it
  admits a compiled plan, claims tasks at the generation of its host, and settles the outcome of a
  worker as one durable commit. An operation reads the database and commits later, so a definition
  here takes the tables and sessions it read and yields what it then hands to the store. The text
  of an error, the serialisers of \<^verbatim>\<open>serde\<close>, the canonical hash and the parser of a task id are
  parameters.
\<close>

section \<open>Outcomes\<close>

record step_outcome =
  so_task_id :: ident
  so_status :: task_status
  so_accepted :: bool

definition stop_reason :: "step_outcome \<Rightarrow> string" where
  "stop_reason s = (if so_accepted s then ''accepted'' else case so_status s of
      TaskCompleted \<Rightarrow> ''completed_unverified''
    | TaskFailed \<Rightarrow> ''worker_failed''
    | TaskCanceled \<Rightarrow> ''canceled''
    | TaskBlocked \<Rightarrow> ''evidence_incomplete''
    | TaskReady \<Rightarrow> ''ready_not_dispatched''
    | TaskAssigned \<Rightarrow> ''assigned_not_settled''
    | TaskRunning \<Rightarrow> ''running''
    | TaskPending \<Rightarrow> ''pending'')"

definition claimed_but_unverified :: "step_outcome \<Rightarrow> bool" where
  "claimed_but_unverified s = (\<not> so_accepted s)"

text \<open>\<^verbatim>\<open>EvidenceVerifier\<close>, the verifier \<^verbatim>\<open>DelegationCoordinator::new\<close> installs.\<close>

definition verify :: "delegated_result \<Rightarrow> unit res" where
  "verify r =
    (if \<not> accepted_completion r then Inl ResultIncomplete
     else if dr_checked_revisions r = [] \<and> dr_artifact_refs r = [] then Inl ResultIncomplete
     else if dr_base_revision r = dr_result_revision r \<and> dr_checked_revisions r \<noteq> [] \<and>
       (\<exists>c \<in> set (dr_checked_revisions r). cv_passed c) then Inr ()
     else if blank (dr_base_revision r) \<or> blank (dr_result_revision r) then Inl ResultIncomplete
     else Inr ())"

section \<open>Serialised values\<close>

record serial =
  sr_hash :: canonical_hash
  sr_parse :: "string \<Rightarrow> ident res"
  sr_node :: "task_node \<Rightarrow> json option"
  sr_brief :: "task_brief \<Rightarrow> json option"
  sr_result :: "delegated_result \<Rightarrow> json option"

definition to_value :: "json option \<Rightarrow> json res" where
  "to_value v = (case v of None \<Rightarrow> Inl InvalidPayload | Some j \<Rightarrow> Inr j)"

definition int_decimal :: "int \<Rightarrow> string" where
  "int_decimal i = (if i < 0 then CHR ''-'' # decimal (nat (- i)) else decimal (nat i))"

definition checked_value :: "checked_revision \<Rightarrow> json" where
  "checked_value c = JObj ([(''command'', JStr (cv_command c)), (''revision'', JStr (cv_revision c)),
      (''passed'', JBool (cv_passed c))]
    @ (case cv_workspace_digest c of None \<Rightarrow> [] | Some d \<Rightarrow> [(''workspace_digest'', JStr d)])
    @ (case cv_exit_code c of None \<Rightarrow> [] | Some i \<Rightarrow> [(''exit_code'', JNum (int_decimal i))])
    @ [(''artifact_id'', case cv_artifact_id c of None \<Rightarrow> JNull | Some a \<Rightarrow> JStr a)])"

text \<open>\<^verbatim>\<open>as_object_mut\<close> and \<^verbatim>\<open>insert\<close>: a value that is not an object stays as it is.\<close>

definition json_insert :: "string \<Rightarrow> json \<Rightarrow> json \<Rightarrow> json" where
  "json_insert k v j = (case j of JObj entries \<Rightarrow> JObj (AList.update k v entries) | _ \<Rightarrow> j)"

definition last_segment :: "string \<Rightarrow> string" where
  "last_segment t = rev (takeWhile (\<lambda>c. c \<noteq> CHR ''-'') (rev t))"

section \<open>Admission and claims\<close>

text \<open>Each node is looked up in the store on its own; \<open>seen t\<close> is the tables that read saw.\<close>

definition admission_of :: "serial \<Rightarrow> task_node \<Rightarrow> stored_task res" where
  "admission_of x n = bind_res (to_value (sr_node x n)) (\<lambda>node.
    bind_res (to_value (sr_brief x (tn_brief n))) (\<lambda>brief.
      Inr \<lparr>tk_task_id = tn_task_id n, tk_parent = tn_parent_task_id n, tk_role = agent_role_str (tn_role n),
        tk_status = task_status_str TaskPending, tk_revision = 1, tk_depth = tn_depth n,
        tk_brief = brief, tk_node = node, tk_depends_on = tn_depends_on n\<rparr>))"

fun admissions_of ::
  "serial \<Rightarrow> task_plan \<Rightarrow> (ident \<Rightarrow> tables) \<Rightarrow> ident list \<Rightarrow> (stored_task \<times> task_owner option) list res" where
  "admissions_of x p seen [] = Inr []"
| "admissions_of x p seen (t # ts) = (case plan_node p t of
      None \<Rightarrow> Inl TaskNotFound
    | Some n \<Rightarrow> bind_res (read_task_node (sr_parse x) (seen t) t) (\<lambda>already.
        if already \<noteq> None then admissions_of x p seen ts
        else bind_res (admission_of x n) (\<lambda>a.
          bind_res (admissions_of x p seen ts) (\<lambda>rest. Inr ((a, None) # rest)))))"

definition admit ::
  "serial \<Rightarrow> task_plan \<Rightarrow> (ident \<Rightarrow> tables) \<Rightarrow> store \<Rightarrow> tables \<Rightarrow> unit res \<times> fault_point set \<times> tables" where
  "admit x p seen s T = (case admissions_of x p seen (tp_order p) of
      Inl e \<Rightarrow> (Inl e, s_faults s, T)
    | Inr as \<Rightarrow> if as = [] then (Inr (), s_faults s, T) else admit_task_graph as s T)"

text \<open>What a claim hands to the store: the owner row and the revision it read.\<close>

definition claim ::
  "serial \<Rightarrow> nat \<Rightarrow> ident \<Rightarrow> worker_ref \<Rightarrow> ident \<Rightarrow> tables \<Rightarrow> (task_owner \<times> nat) res" where
  "claim x generation t w session T = bind_res (read_task_node (sr_parse x) T t) (\<lambda>found. case found of
      None \<Rightarrow> Inl TaskNotFound
    | Some stored \<Rightarrow>
        if tk_status stored = task_status_str TaskCompleted then Inl TaskOwnershipConflict
        else if wr_generation w \<noteq> generation then Inl TaskOwnershipConflict
        else Inr (\<lparr>ow_task_id = t, ow_run_id = wr_run_id w, ow_session_id = session,
          ow_role = agent_role_str (wr_role w), ow_generation = generation,
          ow_lease_revision = tk_revision stored\<rparr>, tk_revision stored))"

section \<open>Settling\<close>

definition recipient_task_id :: "task_plan \<Rightarrow> ident \<Rightarrow> ident option" where
  "recipient_task_id p t = (case plan_node p t of None \<Rightarrow> None | Some n \<Rightarrow> tn_parent_task_id n)"

definition recipient_session :: "db \<Rightarrow> ident \<Rightarrow> ident res" where
  "recipient_session d parent =
    (case filter (\<lambda>r. ss_task_id r = parent) (sort_key ss_session_id (db_sessions d)) of
      [] \<Rightarrow> Inl InvalidPayload | r # _ \<Rightarrow> Inr (ss_session_id r))"

definition result_row :: "ident \<Rightarrow> delegated_result \<Rightarrow> json \<Rightarrow> content_hash \<Rightarrow> stored_result" where
  "result_row t r report h = \<lparr>rw_result_id = dr_result_id r, rw_task_id = t,
    rw_worker_run_id = wr_run_id (dr_worker r), rw_outcome = delegated_outcome_str (dr_outcome r),
    rw_base_revision = dr_base_revision r, rw_result_revision = dr_result_revision r,
    rw_artifact_refs = dr_artifact_refs r, rw_report = report, rw_hash = h\<rparr>"

definition parent_of :: "task_plan \<Rightarrow> ident \<Rightarrow> ident" where
  "parent_of p t = (case recipient_task_id p t of None \<Rightarrow> t | Some q \<Rightarrow> q)"

definition report_payload :: "task_node \<Rightarrow> ident \<Rightarrow> delegated_result \<Rightarrow> json" where
  "report_payload n t r = JObj [(''task_id'', JStr t), (''result_id'', JStr (dr_result_id r)),
    (''outcome'', JStr (delegated_outcome_str (dr_outcome r))), (''summary'', JStr (dr_summary r)),
    (''artifact_refs'', JArr (map JStr (dr_artifact_refs r))), (''base_revision'', JStr (dr_base_revision r)),
    (''result_revision'', JStr (dr_result_revision r)),
    (''checked_revisions'', JArr (map checked_value (dr_checked_revisions r))),
    (''role'', JStr (agent_role_str (tn_role n)))]"

definition report_commit ::
  "task_plan \<Rightarrow> ident \<Rightarrow> delegated_result \<Rightarrow> task_status \<Rightarrow> budget_usage \<Rightarrow> stored_task \<Rightarrow> task_node \<Rightarrow>
    content_hash \<Rightarrow> json \<Rightarrow> content_hash \<Rightarrow> ident \<Rightarrow> delivery_commit" where
  "report_commit p t r status usage stored n payload_hash report result_hash session =
    \<lparr>dc_transition = stored\<lparr>tk_task_id := t, tk_status := task_status_str status,
        tk_revision := saturating_add u64_max (tk_revision stored) 1,
        tk_node := json_insert ''status'' (JStr (task_status_str status)) (tk_node stored)\<rparr>,
      dc_result = Some (result_row t r report result_hash),
      dc_delivery = \<lparr>dv_message_id = ''delivery-'' @ last_segment t @ ''-'' @ dr_result_id r,
        dv_sender = t, dv_recipient = parent_of p t, dv_recipient_session = session,
        dv_result_id = Some (dr_result_id r), dv_payload_hash = payload_hash,
        dv_payload = report_payload n t r, dv_state = ''pending'', dv_consumed_by = None\<rparr>,
      dc_usage = Some \<lparr>ug_model_requests = us_model_requests usage, ug_retries = us_retries usage,
        ug_cost_units = 0\<rparr>\<rparr>"

definition persist ::
  "serial \<Rightarrow> task_plan \<Rightarrow> ident \<Rightarrow> delegated_result \<Rightarrow> task_status \<Rightarrow> budget_usage \<Rightarrow> tables \<Rightarrow> db \<Rightarrow>
    delivery_commit res" where
  "persist x p t r status usage T d = bind_res (read_task_node (sr_parse x) T t) (\<lambda>found. case found of
      None \<Rightarrow> Inl TaskNotFound
    | Some stored \<Rightarrow> (case plan_node p t of
        None \<Rightarrow> Inl TaskNotFound
      | Some n \<Rightarrow> bind_res (sr_hash x (report_payload n t r)) (\<lambda>payload_hash.
          bind_res (to_value (sr_result x r)) (\<lambda>report.
          bind_res (sr_hash x report) (\<lambda>result_hash.
          bind_res (recipient_session d (parent_of p t)) (\<lambda>session.
          Inr (report_commit p t r status usage stored n payload_hash report result_hash session)))))))"

definition blocked_payload :: "ident \<Rightarrow> string \<Rightarrow> json" where
  "blocked_payload t reason =
    JObj [(''task_id'', JStr t), (''outcome'', JStr ''blocked''), (''reason'', JStr reason)]"

definition blocked_commit ::
  "task_plan \<Rightarrow> ident \<Rightarrow> string \<Rightarrow> stored_task \<Rightarrow> content_hash \<Rightarrow> ident \<Rightarrow> delivery_commit" where
  "blocked_commit p t reason stored payload_hash session =
    (let revision = saturating_add u64_max (tk_revision stored) 1 in
     \<lparr>dc_transition = stored\<lparr>tk_task_id := t, tk_status := task_status_str TaskBlocked, tk_revision := revision,
        tk_node := json_insert ''blocked_reason'' (JStr reason)
          (json_insert ''status'' (JStr (task_status_str TaskBlocked)) (tk_node stored))\<rparr>,
      dc_result = None,
      dc_delivery = \<lparr>dv_message_id = ''delivery-'' @ last_segment t @ ''-blocked-'' @ decimal revision,
        dv_sender = t, dv_recipient = parent_of p t, dv_recipient_session = session,
        dv_result_id = None, dv_payload_hash = payload_hash, dv_payload = blocked_payload t reason,
        dv_state = ''pending'', dv_consumed_by = None\<rparr>,
      dc_usage = None\<rparr>)"

definition persist_blocked ::
  "serial \<Rightarrow> task_plan \<Rightarrow> ident \<Rightarrow> string \<Rightarrow> tables \<Rightarrow> db \<Rightarrow> delivery_commit option res" where
  "persist_blocked x p t reason T d = bind_res (read_task_node (sr_parse x) T t) (\<lambda>found. case found of
      None \<Rightarrow> Inl TaskNotFound
    | Some stored \<Rightarrow>
        if tk_status stored = task_status_str TaskCompleted then Inr None
        else bind_res (sr_hash x (blocked_payload t reason)) (\<lambda>payload_hash.
          bind_res (recipient_session d (parent_of p t)) (\<lambda>session.
          Inr (Some (blocked_commit p t reason stored payload_hash session)))))"

definition persist_rejection ::
  "serial \<Rightarrow> task_plan \<Rightarrow> ident \<Rightarrow> delegated_result \<Rightarrow> string \<Rightarrow> tables \<Rightarrow> db \<Rightarrow> delivery_commit option res" where
  "persist_rejection x p t r reason T d =
    persist_blocked x p t (''result '' @ dr_result_id r @ '' rejected: '' @ reason) T d"

text \<open>
  \<^verbatim>\<open>settle\<close> up to its commit: the outcome it reports if the commit succeeds, and the commit, if there
  is one. \<open>display\<close> is the text of an error.
\<close>

definition based :: "task_node \<Rightarrow> delegated_result \<Rightarrow> delegated_result" where
  "based n r = (if blank (dr_base_revision r) then r\<lparr>dr_base_revision := tb_base_commit (tn_brief n)\<rparr> else r)"

definition settle_report ::
  "serial \<Rightarrow> (error_code \<Rightarrow> string) \<Rightarrow> task_plan \<Rightarrow> ident \<Rightarrow> task_node \<Rightarrow> delegated_result \<Rightarrow> tables \<Rightarrow> db \<Rightarrow>
    (step_outcome \<times> delivery_commit option) res" where
  "settle_report x display p t n r T d =
    (case bind_res (result_validate (sr_hash x) r (tn_brief n)) (\<lambda>_. verify r) of
      Inr _ \<Rightarrow> (let status = maps_to (dr_outcome r) in
        bind_res (persist x p t r status (dr_usage r) T d) (\<lambda>c.
          Inr (\<lparr>so_task_id = t, so_status = status, so_accepted = (status = TaskCompleted)\<rparr>, Some c)))
    | Inl e \<Rightarrow> bind_res (persist_rejection x p t r (display e) T d) (\<lambda>c.
        Inr (\<lparr>so_task_id = t, so_status = TaskBlocked, so_accepted = False\<rparr>, c)))"

definition settle ::
  "serial \<Rightarrow> (error_code \<Rightarrow> string) \<Rightarrow> task_plan \<Rightarrow> ident \<Rightarrow> worker_outcome \<Rightarrow> tables \<Rightarrow> db \<Rightarrow>
    (step_outcome \<times> delivery_commit option) res" where
  "settle x display p t w T d = (case plan_node p t of
      None \<Rightarrow> Inl TaskNotFound
    | Some n \<Rightarrow>
      let stopped = \<lambda>status reason. bind_res (persist_blocked x p t reason T d) (\<lambda>c.
        Inr (\<lparr>so_task_id = t, so_status = status, so_accepted = False\<rparr>, c))
      in case w of
        WorkerReported r \<Rightarrow> settle_report x display p t n (based n r) T d
      | WorkerObserved r \<Rightarrow> settle_report x display p t n (based n r) T d
      | WorkerNoReport reason \<Rightarrow> stopped TaskBlocked reason
      | WorkerFailed e \<Rightarrow> stopped TaskFailed (display e)
      | WorkerUnknown reason \<Rightarrow> stopped TaskBlocked reason)"

section \<open>Progress\<close>

text \<open>\<open>rows\<close> is what \<^verbatim>\<open>list_task_nodes\<close> read, in its order.\<close>

fun progress_of :: "stored_task list \<Rightarrow> (ident \<rightharpoonup> task_status) \<Rightarrow> (ident \<rightharpoonup> task_status) res" where
  "progress_of [] m = Inr m"
| "progress_of (n # ns) m = (case parse_task_status (tk_status n) of
      None \<Rightarrow> Inl StorageWriteFailed
    | Some status \<Rightarrow> progress_of ns (m(tk_task_id n \<mapsto> status)))"

definition durable_progress :: "serial \<Rightarrow> task_row list \<Rightarrow> (ident \<rightharpoonup> task_status) res" where
  "durable_progress x rows = bind_res (collect_res (map (read_task_row (sr_parse x)) rows))
    (\<lambda>ns. progress_of ns Map.empty)"

definition completed_tasks :: "serial \<Rightarrow> task_row list \<Rightarrow> ident list res" where
  "completed_tasks x rows = bind_res (collect_res (map (read_task_row (sr_parse x)) rows))
    (\<lambda>ns. Inr (map tk_task_id (filter (\<lambda>n. tk_status n = task_status_str TaskCompleted) ns)))"

section \<open>What a settlement hands to the store\<close>

lemma accepted_outcome: "verify r = Inr () \<Longrightarrow> accepted_completion r \<and> dr_outcome r = OutcomeCompleted"
  using accepted_completion_evidence by (auto simp: verify_def split: if_splits)

lemma report_commit_fields [simp]:
  "tk_task_id (dc_transition (report_commit p t r status usage stored n ph report h session)) = t"
  "tk_status (dc_transition (report_commit p t r status usage stored n ph report h session)) = task_status_str status"
  "dc_result (report_commit p t r status usage stored n ph report h session) = Some (result_row t r report h)"
  by (simp_all add: report_commit_def)

lemma blocked_commit_fields [simp]:
  "tk_task_id (dc_transition (blocked_commit p t reason stored ph session)) = t"
  "tk_status (dc_transition (blocked_commit p t reason stored ph session)) = ''blocked''"
  "dc_result (blocked_commit p t reason stored ph session) = None"
  by (simp_all add: blocked_commit_def Let_def)

lemma to_value_Inr: "to_value v = Inr j \<longleftrightarrow> v = Some j"
  by (simp add: to_value_def split: option.split)

lemma case_found_Inr:
  "(case v of None \<Rightarrow> Inl e | Some a \<Rightarrow> f a) = Inr y \<longleftrightarrow> (\<exists>a. v = Some a \<and> f a = Inr y)"
  by (simp split: option.split)

lemma persist_shape:
  assumes "persist x p t r status usage T d = Inr c"
  shows "tk_task_id (dc_transition c) = t" and "tk_status (dc_transition c) = task_status_str status"
    and "\<exists>report h. sr_result x r = Some report \<and> sr_hash x report = Inr h \<and>
      dc_result c = Some (result_row t r report h)"
proof -
  from assms obtain stored n ph report h session where r: "sr_result x r = Some report" "sr_hash x report = Inr h"
    and c: "c = report_commit p t r status usage stored n ph report h session"
    unfolding persist_def by (auto simp: bind_res_Inr to_value_Inr case_found_Inr)
  from c r show "tk_task_id (dc_transition c) = t" and "tk_status (dc_transition c) = task_status_str status"
    and "\<exists>report h. sr_result x r = Some report \<and> sr_hash x report = Inr h \<and>
      dc_result c = Some (result_row t r report h)" by simp_all
qed

lemma persist_blocked_shape:
  assumes "persist_blocked x p t reason T d = Inr (Some c)"
  shows "tk_task_id (dc_transition c) = t" and "tk_status (dc_transition c) = ''blocked''"
    and "dc_result c = None"
  using assms unfolding persist_blocked_def
  by (auto simp: bind_res_Inr case_found_Inr split: if_splits)

text \<open>
  \<open>earned\<close>: a report on a task of the plan that its brief accepts, whose evidence proves completion
  and whose row is stored under the hash of its content.
\<close>

definition accepted_report :: "serial \<Rightarrow> task_plan \<Rightarrow> ident \<Rightarrow> delegated_result \<Rightarrow> bool" where
  "accepted_report x p t r \<longleftrightarrow> (\<exists>n. plan_node p t = Some n \<and>
    result_validate (sr_hash x) r (tn_brief n) = Inr () \<and> accepted_completion r)"

definition stored_as :: "serial \<Rightarrow> tables \<Rightarrow> delegated_result \<Rightarrow> bool" where
  "stored_as x T r \<longleftrightarrow> (\<exists>row report. result_of T (dr_result_id r) = Some row \<and>
    sr_result x r = Some report \<and> sr_hash x report = Inr (rw_hash row))"

definition completions_earned :: "serial \<Rightarrow> task_plan \<Rightarrow> tables \<Rightarrow> bool" where
  "completions_earned x p T \<longleftrightarrow> (\<forall>t row. task_of T t = Some row \<longrightarrow> tk_status row = ''completed'' \<longrightarrow>
    (\<exists>r. accepted_report x p t r \<and> stored_as x T r))"

lemma settle_report_shape:
  assumes "settle_report x display p t n r T d = Inr (so, Some c)" and "plan_node p t = Some n"
  shows "tk_task_id (dc_transition c) = t" and "tk_status (dc_transition c) = task_status_str (so_status so)"
    and "so_accepted so \<longleftrightarrow> so_status so = TaskCompleted" and "so_status so \<in> {TaskCompleted, TaskBlocked}"
    and "so_status so = TaskCompleted \<Longrightarrow> accepted_report x p t r \<and>
      (\<exists>report h. sr_result x r = Some report \<and> sr_hash x report = Inr h \<and>
        dc_result c = Some (result_row t r report h))"
proof -
  have "tk_task_id (dc_transition c) = t \<and> tk_status (dc_transition c) = task_status_str (so_status so) \<and>
    (so_accepted so \<longleftrightarrow> so_status so = TaskCompleted) \<and> so_status so \<in> {TaskCompleted, TaskBlocked} \<and>
    (so_status so = TaskCompleted \<longrightarrow> accepted_report x p t r \<and>
      (\<exists>report h. sr_result x r = Some report \<and> sr_hash x report = Inr h \<and>
        dc_result c = Some (result_row t r report h)))"
  proof (cases "bind_res (result_validate (sr_hash x) r (tn_brief n)) (\<lambda>_. verify r)")
    case (Inl e)
    with assms(1) have "persist_rejection x p t r (display e) T d = Inr (Some c)"
      and so: "so = \<lparr>so_task_id = t, so_status = TaskBlocked, so_accepted = False\<rparr>"
      by (auto simp: settle_report_def bind_res_Inr)
    then show ?thesis using persist_blocked_shape by (simp add: persist_rejection_def)
  next
    case (Inr u)
    then have v: "result_validate (sr_hash x) r (tn_brief n) = Inr ()" "verify r = Inr ()"
      by (auto simp: bind_res_Inr)
    note a = accepted_outcome [OF v(2)]
    then have m: "maps_to (dr_outcome r) = TaskCompleted" by simp
    from assms(1) Inr m have p: "persist x p t r TaskCompleted (dr_usage r) T d = Inr c"
      and so: "so = \<lparr>so_task_id = t, so_status = TaskCompleted, so_accepted = True\<rparr>"
      by (auto simp: settle_report_def bind_res_Inr Let_def)
    from v(1) a assms(2) have "accepted_report x p t r" by (simp add: accepted_report_def)
    with persist_shape [OF p] so show ?thesis by simp
  qed
  then show "tk_task_id (dc_transition c) = t" and "tk_status (dc_transition c) = task_status_str (so_status so)"
    and "so_accepted so \<longleftrightarrow> so_status so = TaskCompleted" and "so_status so \<in> {TaskCompleted, TaskBlocked}"
    and "so_status so = TaskCompleted \<Longrightarrow> accepted_report x p t r \<and>
      (\<exists>report h. sr_result x r = Some report \<and> sr_hash x report = Inr h \<and>
        dc_result c = Some (result_row t r report h))"
    by blast+
qed

definition worker_failed :: "worker_outcome \<Rightarrow> bool" where
  "worker_failed w \<longleftrightarrow> (\<exists>e. w = WorkerFailed e)"

lemma settle_shape:
  assumes "settle x display p t w T d = Inr (so, Some c)"
  shows "tk_task_id (dc_transition c) = t"
    and "tk_status (dc_transition c) = (if worker_failed w then ''blocked'' else task_status_str (so_status so))"
    and "so_status so \<in> {TaskCompleted, TaskBlocked, TaskFailed}"
    and "so_status so = TaskFailed \<longleftrightarrow> worker_failed w"
    and "so_accepted so \<longleftrightarrow> so_status so = TaskCompleted"
    and "so_status so = TaskCompleted \<Longrightarrow> \<exists>r report h. accepted_report x p t r \<and>
      sr_result x r = Some report \<and> sr_hash x report = Inr h \<and> dc_result c = Some (result_row t r report h)"
proof -
  from assms obtain n where n: "plan_node p t = Some n" by (auto simp: settle_def split: option.splits)
  let ?G = "tk_task_id (dc_transition c) = t \<and>
    tk_status (dc_transition c) = (if worker_failed w then ''blocked'' else task_status_str (so_status so)) \<and>
    so_status so \<in> {TaskCompleted, TaskBlocked, TaskFailed} \<and> (so_status so = TaskFailed \<longleftrightarrow> worker_failed w) \<and>
    (so_accepted so \<longleftrightarrow> so_status so = TaskCompleted) \<and>
    (so_status so = TaskCompleted \<longrightarrow> (\<exists>r report h. accepted_report x p t r \<and>
      sr_result x r = Some report \<and> sr_hash x report = Inr h \<and> dc_result c = Some (result_row t r report h)))"
  have report: ?G if "settle_report x display p t n r T d = Inr (so, Some c)" "\<not> worker_failed w" for r
  proof -
    note s = settle_report_shape [OF that(1) n]
    from s(4) that(2) have "so_status so = TaskFailed \<longleftrightarrow> worker_failed w" by auto
    with s that(2) show ?thesis by auto
  qed
  have stopped: ?G if "persist_blocked x p t reason T d = Inr (Some c)"
      "so = \<lparr>so_task_id = t, so_status = (if worker_failed w then TaskFailed else TaskBlocked), so_accepted = False\<rparr>"
    for reason
    using persist_blocked_shape [OF that(1)] that(2) by simp
  have ?G
  proof (cases w)
    case (WorkerReported r)
    with assms n show ?thesis by (intro report) (auto simp: settle_def worker_failed_def Let_def)
  next
    case (WorkerObserved r)
    with assms n show ?thesis by (intro report) (auto simp: settle_def worker_failed_def Let_def)
  next
    case (WorkerNoReport reason)
    with assms n show ?thesis
      by (intro stopped) (auto simp: settle_def worker_failed_def Let_def bind_res_Inr)
  next
    case (WorkerFailed e)
    with assms n show ?thesis
      by (intro stopped) (auto simp: settle_def worker_failed_def Let_def bind_res_Inr)
  next
    case (WorkerUnknown reason)
    with assms n show ?thesis
      by (intro stopped) (auto simp: settle_def worker_failed_def Let_def bind_res_Inr)
  qed
  then show "tk_task_id (dc_transition c) = t"
    and "tk_status (dc_transition c) = (if worker_failed w then ''blocked'' else task_status_str (so_status so))"
    and "so_status so \<in> {TaskCompleted, TaskBlocked, TaskFailed}"
    and "so_status so = TaskFailed \<longleftrightarrow> worker_failed w"
    and "so_accepted so \<longleftrightarrow> so_status so = TaskCompleted"
    and "so_status so = TaskCompleted \<Longrightarrow> \<exists>r report h. accepted_report x p t r \<and>
      sr_result x r = Some report \<and> sr_hash x report = Inr h \<and> dc_result c = Some (result_row t r report h)"
    by blast+
qed

section \<open>A coordinated run\<close>

text \<open>
  The changes a coordinator at host generation \<open>g\<close> makes while it drives the plan \<open>p\<close>, and those its
  host makes beside it. What an operation read may be as old as it likes: any tables, sessions and
  error texts are allowed for it, only its commit meets the current tables.
\<close>

inductive coordinator_step :: "serial \<Rightarrow> task_plan \<Rightarrow> nat \<Rightarrow> tables \<Rightarrow> tables \<Rightarrow> bool" for x p g where
  co_admit: "admissions_of x p seen (tp_order p) = Inr as \<Longrightarrow> admit_graph_body as T = Inr (u, U) \<Longrightarrow>
    coordinator_step x p g T U"
| co_claim: "claim x g t w session T0 = Inr (ow, expected) \<Longrightarrow> claim_task_body ow expected T = Inr (n, U) \<Longrightarrow>
    coordinator_step x p g T U"
| co_settle: "settle x display p t w T0 d = Inr (so, Some c) \<Longrightarrow> commit_delivery_body c T = Inr (u, U) \<Longrightarrow>
    coordinator_step x p g T U"
| co_consume: "consume_delivery_body message consumer T = Inr (first, U) \<Longrightarrow> coordinator_step x p g T U"
| co_worktree: "upsert_worktree_body w T = Inr (u, U) \<Longrightarrow> coordinator_step x p g T U"

lemma admissions_of_each:
  assumes "admissions_of x p seen ts = Inr as" and "a \<in> set as"
  shows "snd a = None \<and> tk_status (fst a) = ''pending'' \<and> tk_revision (fst a) = 1"
  using assms
  by (induction ts arbitrary: as) (auto simp: bind_res_Inr case_found_Inr admission_of_def split: if_splits)

lemma coordinator_op:
  assumes "coordinator_step x p g T U"
  shows "tables_op T U"
  using assms
proof cases
  case (co_admit seen as u)
  from admissions_of_each [OF co_admit(1)] have "\<forall>a \<in> set as. own_admission a" by (simp add: own_admission_def)
  with co_admit(2) show ?thesis by (rule to_admit_graph)
qed (blast intro: tables_op.intros)+

lemma stored_as_later: "stored_as x T r \<Longrightarrow> tables_later T U \<Longrightarrow> stored_as x U r"
  unfolding stored_as_def tables_later_def by (blast elim: later_rowE)

lemma completed_source:
  assumes step: "coordinator_step x p g T U" and ok: "tables_ok T"
    and row: "task_of U a = Some row" "tk_status row = ''completed''"
  shows "(\<exists>row. task_of T a = Some row \<and> tk_status row = ''completed'') \<or>
    (\<exists>r. accepted_report x p a r \<and> stored_as x U r)"
  using step
proof cases
  case (co_admit seen as u)
  from admissions_of_each [OF co_admit(1)] have own: "\<forall>b \<in> set as. own_admission b"
    and pending: "\<forall>b \<in> set as. tk_status (fst b) = ''pending''"
    by (simp_all add: own_admission_def)
  from co_admit(2) have "admit_each as T = Inr U" by (auto simp: admit_graph_body_def bind_res_Inr)
  from admit_each_rows [OF this ok own] have U: "dt_tasks U = dt_tasks T @ map (\<lambda>b. task_row.truncate (fst b)) as"
    by simp
  show ?thesis
  proof (cases "task_of T a")
    case None
    with U row(1) have "sel (\<lambda>r. tk_task_id r = a) (map (\<lambda>b. task_row.truncate (fst b)) as) = Some row"
      by (simp add: sel_append)
    from sel_SomeD [OF this] pending row(2) show ?thesis by auto
  next
    case (Some r)
    with U row show ?thesis by (simp add: sel_append)
  qed
next
  case (co_claim t w session T0 ow expected n)
  show ?thesis
  proof (cases "a = ow_task_id ow")
    case True
    with claim_task_effect(4) [OF co_claim(2) ok] row show ?thesis by (auto split: if_splits)
  next
    case False
    with claim_task_other [OF co_claim(2)] row show ?thesis by simp
  qed
next
  case (co_settle display t w T0 d so c u)
  note s = settle_shape [OF co_settle(1)] and e = commit_delivery_effect [OF co_settle(2) ok]
  show ?thesis
  proof (cases "a = t")
    case False
    with e(5) [of a] s(1) have "task_of U a = task_of T a" by simp
    with row have "task_of T a = Some row" by simp
    with row(2) show ?thesis by blast
  next
    case True
    with e(2) s(1) row have "tk_status (dc_transition c) = ''completed''" by auto
    with s(2,3) have "so_status so = TaskCompleted" by (auto split: if_splits)
    from s(6) [OF this] obtain r report h where r: "accepted_report x p t r" "sr_result x r = Some report"
      "sr_hash x report = Inr h" and c: "dc_result c = Some (result_row t r report h)" by blast
    from e(4) [OF c] r have "stored_as x U r" by (auto simp: stored_as_def result_row_def)
    with r(1) True show ?thesis by blast
  qed
next
  case (co_consume message consumer first)
  with consume_delivery_effect(2) [OF _ ok] row show ?thesis by auto
next
  case (co_worktree w u)
  with upsert_worktree_good(2) [OF _ ok] row show ?thesis by auto
qed

definition coordinated :: "serial \<Rightarrow> task_plan \<Rightarrow> tables \<Rightarrow> bool" where
  "coordinated x p T \<longleftrightarrow> tables_ok T \<and> completions_earned x p T"

lemma coordinated_step:
  assumes "coordinator_step x p g T U" and "coordinated x p T"
  shows "coordinated x p U"
proof -
  from assms(2) have ok: "tables_ok T" and earned: "completions_earned x p T" by (simp_all add: coordinated_def)
  from tables_op_good [OF coordinator_op [OF assms(1)] ok] have "tables_ok U" and later: "tables_later T U"
    by (simp_all add: good_def)
  moreover have "completions_earned x p U"
    unfolding completions_earned_def
  proof (intro allI impI)
    fix a row assume "task_of U a = Some row" and "tk_status row = ''completed''"
    from completed_source [OF assms(1) ok this] earned stored_as_later [OF _ later]
    show "\<exists>r. accepted_report x p a r \<and> stored_as x U r" unfolding completions_earned_def by blast
  qed
  ultimately show ?thesis by (simp add: coordinated_def)
qed

interpretation coordination: invariant_system "coordinator_step x p g" "coordinated x p" "\<lambda>T. T = empty_tables"
  for x p g
proof
  show "coordinated x p U" if "coordinated x p T" "coordinator_step x p g T U" for T U
    using coordinated_step that by blast
  show "coordinated x p T" if "T = empty_tables" for T
    using that tables_ok_empty by (simp add: coordinated_def completions_earned_def empty_tables_def)
qed

section \<open>A sample coordination\<close>

definition sample_serial :: serial where
  "sample_serial = \<lparr>sr_hash = (\<lambda>_. Inr ''h''), sr_parse = Inr, sr_node = (\<lambda>_. Some JNull),
    sr_brief = (\<lambda>_. Some JNull), sr_result = (\<lambda>_. Some JNull)\<rparr>"

definition sample_plan :: task_plan where
  "sample_plan = \<lparr>tp_schema_version = 1,
    tp_coordinator = \<lparr>wr_profile_id = ''p'', wr_run_id = ''r'', wr_role = RoleCoder, wr_generation = 1\<rparr>,
    tp_order = [''t''], tp_nodes = [(''t'', (sample_node ''t'' [''src''] [])\<lparr>tn_brief := sample_brief ''t''\<rparr>)],
    tp_topological_order = [''t'']\<rparr>"

definition sample_sessions :: db where
  "sample_sessions = empty_db\<lparr>db_sessions := [\<lparr>ss_session_id = ''s'', ss_task_id = ''t'', ss_next_sequence = 1\<rparr>]\<rparr>"

definition planned :: stored_task where
  "planned = \<lparr>tk_task_id = ''t'', tk_parent = None, tk_role = ''coder'', tk_status = ''pending'', tk_revision = 1,
    tk_depth = tn_depth (sample_node ''t'' [''src''] []), tk_brief = JNull, tk_node = JNull, tk_depends_on = []\<rparr>"

definition planned_tables :: tables where
  "planned_tables = empty_tables\<lparr>dt_tasks := [task_row.truncate planned]\<rparr>"

lemmas sample_coordination = sample_serial_def sample_plan_def sample_sessions_def planned_def planned_tables_def

lemma sample_admission:
  "admissions_of sample_serial sample_plan (\<lambda>_. empty_tables) (tp_order sample_plan) = Inr [(planned, None)]"
  by (simp add: sample_coordination plan_node_def read_task_node_def empty_tables_def admission_of_def
    to_value_def sample_node_def)

lemma sample_graph_admitted: "admit_graph_body [(planned, None)] empty_tables = Inr ((), planned_tables)"
  by (simp add: admit_graph_body_def admit_one_def insert_task_def bind_res_def to_i64_def i64_max_def
    task_checks_def task_statuses_def planned_tables_def planned_def empty_tables_def)

lemma sample_verified: "verify sample_report = Inr ()"
proof -
  have "accepted_completion sample_report"
    by (simp add: accepted_completion_evidence acceptance_evidence_def check_evidence_of_def
      acceptance_fingerprint_def sample_report_def sample_receipt_def)
  then show ?thesis by (simp add: verify_def sample_report_def)
qed

section \<open>Completion in the store\<close>

text \<open>
  C2. A completed task in the store is earned. However the coordinator's operations read the
  database before they commit, in every database a coordinated run reaches a task that is stored
  as completed has a report of its own plan node: the report is valid against the brief of that
  node, names its task and delivers every artifact the brief expects, its evidence proves
  completion, and its row is in the store under the canonical hash of the report.
\<close>

theorem durable_completion_earned:
  assumes "reach (\<lambda>T. T = empty_tables) (coordinator_step x p g) T" and "task_of T t = Some row"
    and "tk_status row = ''completed''"
  shows "\<exists>n r report stored. plan_node p t = Some n \<and>
    result_validate (sr_hash x) r (tn_brief n) = Inr () \<and> accepted_completion r \<and>
    dr_task_id r = tb_task_id (tn_brief n) \<and> set (tb_expected_artifacts (tn_brief n)) \<subseteq> set (dr_artifact_refs r) \<and>
    result_of T (dr_result_id r) = Some stored \<and> sr_result x r = Some report \<and>
    sr_hash x report = Inr (rw_hash stored)"
proof -
  have "coordinated x p T" by (rule coordination.reach_inv [OF assms(1)])
  with assms(2,3) obtain r where "accepted_report x p t r" and s: "stored_as x T r"
    unfolding coordinated_def completions_earned_def by blast
  then obtain n where n: "plan_node p t = Some n" "result_validate (sr_hash x) r (tn_brief n) = Inr ()"
    "accepted_completion r" by (auto simp: accepted_report_def)
  from s obtain stored report where "result_of T (dr_result_id r) = Some stored" "sr_result x r = Some report"
    "sr_hash x report = Inr (rw_hash stored)" by (auto simp: stored_as_def)
  with n result_validateD(1,3) [OF n(2)] show ?thesis by blast
qed

text \<open>The commit a settled report prepares for the sample plan, and the tables after it.\<close>

definition settled_commit :: delivery_commit where
  "settled_commit = report_commit sample_plan ''t'' sample_report TaskCompleted (dr_usage sample_report)
    planned ((sample_node ''t'' [''src''] [])\<lparr>tn_brief := sample_brief ''t''\<rparr>) ''h'' JNull ''h'' ''s''"

definition settled_tables :: tables where
  "settled_tables = (case commit_delivery_body settled_commit planned_tables of Inr (_, U) \<Rightarrow> U)"

lemma sample_recipient: "recipient_session sample_sessions ''t'' = Inr ''s''"
  by (simp add: recipient_session_def sample_sessions_def empty_db_def)

lemma sample_persisted:
  "persist sample_serial sample_plan ''t'' sample_report TaskCompleted (dr_usage sample_report)
    planned_tables sample_sessions = Inr settled_commit"
proof -
  have n: "plan_node sample_plan ''t'' = Some ((sample_node ''t'' [''src''] [])\<lparr>tn_brief := sample_brief ''t''\<rparr>)"
    by (simp add: plan_node_def sample_plan_def)
  have "parent_of sample_plan ''t'' = ''t''"
    unfolding parent_of_def recipient_task_id_def n by (simp add: sample_node_def)
  moreover have "read_task_node Inr planned_tables ''t'' = Inr (Some planned)"
    by (simp add: read_task_node_def planned_tables_def planned_def sel_Cons task_row.truncate_def
      read_task_row_def json_get_def json_strings_def task_row.extend_def sample_node_def u32_max_def)
  ultimately show ?thesis
    using sample_recipient by (simp add: persist_def sample_serial_def n to_value_def settled_commit_def)
qed

lemma sample_settled:
  "settle sample_serial (\<lambda>_. []) sample_plan ''t'' (WorkerReported sample_report) planned_tables sample_sessions =
    Inr (\<lparr>so_task_id = ''t'', so_status = TaskCompleted, so_accepted = True\<rparr>, Some settled_commit)"
proof -
  let ?n = "(sample_node ''t'' [''src''] [])\<lparr>tn_brief := sample_brief ''t''\<rparr>"
  have n: "plan_node sample_plan ''t'' = Some ?n" by (simp add: plan_node_def sample_plan_def)
  have b: "based ?n sample_report = sample_report"
  proof -
    have "\<not> blank (dr_base_revision sample_report)"
      using sample_verified sample_report_valid by (auto simp: result_validate_def split: if_splits)
    then show ?thesis by (simp add: based_def)
  qed
  have "dr_outcome sample_report = OutcomeCompleted" by (simp add: sample_report_def)
  moreover have "sr_hash sample_serial = (\<lambda>_. Inr ''h'')" by (simp add: sample_serial_def)
  ultimately have "settle_report sample_serial (\<lambda>_. []) sample_plan ''t'' ?n sample_report planned_tables sample_sessions =
    Inr (\<lparr>so_task_id = ''t'', so_status = TaskCompleted, so_accepted = True\<rparr>, Some settled_commit)"
    using sample_report_valid sample_verified sample_persisted by (simp add: settle_report_def Let_def)
  then show ?thesis using b by (simp add: settle_def n Let_def)
qed

lemma sample_delivered:
  "commit_delivery_body settled_commit planned_tables = Inr ((), settled_tables) \<and>
    (\<exists>row. task_of settled_tables ''t'' = Some row \<and> tk_status row = ''completed'')"
proof -
  have "\<exists>U. commit_delivery_body settled_commit planned_tables = Inr ((), U)"
    by (simp add: commit_delivery_body_def settled_commit_def report_commit_def insert_result_def result_row_def
      set_task_def insert_delivery_def charge_usage_def bind_res_def to_i64_def i64_max_def u64_max_def
      saturating_add_def sel_Cons task_checks_def task_statuses_def sample_report_def
      planned_tables_def planned_def empty_tables_def task_row.truncate_def)
  then have c: "commit_delivery_body settled_commit planned_tables = Inr ((), settled_tables)"
    by (auto simp: settled_tables_def)
  have "tables_ok planned_tables"
    using admit_each_good [of "[(planned, None)]" empty_tables planned_tables] sample_graph_admitted tables_ok_empty
    by (auto simp: admit_graph_body_def bind_res_Inr own_admission_def good_def)
  from commit_delivery_effect(2) [OF c this] c show ?thesis by (auto simp: settled_commit_def)
qed

lemma durable_completion_earned_witness:
  "\<exists>stored. result_of settled_tables ''r'' = Some stored \<and> rw_hash stored = ''h''"
proof -
  let ?step = "coordinator_step sample_serial sample_plan 1"
  have "reach (\<lambda>T. T = empty_tables) ?step empty_tables" by (rule reach_init) simp
  moreover have "?step empty_tables planned_tables" by (rule co_admit [OF sample_admission sample_graph_admitted])
  ultimately have "reach (\<lambda>T. T = empty_tables) ?step planned_tables" by (rule reach_step)
  moreover have "?step planned_tables settled_tables"
    by (rule co_settle [OF sample_settled]) (simp add: sample_delivered)
  ultimately have run: "reach (\<lambda>T. T = empty_tables) ?step settled_tables" by (rule reach_step)
  from sample_delivered obtain row where "task_of settled_tables ''t'' = Some row" "tk_status row = ''completed''"
    by blast
  from durable_completion_earned [OF run this] obtain r :: delegated_result and report stored where
    st: "result_of settled_tables (dr_result_id r) = Some stored"
    and h: "sr_hash sample_serial report = Inr (rw_hash stored)" by blast
  from h have "rw_hash stored = ''h''" by (simp add: sample_serial_def)
  with st have "result_of settled_tables (dr_result_id r) = Some stored \<and> rw_hash stored = ''h''" by blast
  moreover have "dt_results settled_tables = [result_row ''t'' sample_report JNull ''h'']"
    by (simp add: settled_tables_def commit_delivery_body_def settled_commit_def report_commit_def insert_result_def result_row_def
      set_task_def insert_delivery_def charge_usage_def bind_res_def to_i64_def i64_max_def u64_max_def
      saturating_add_def sel_Cons task_checks_def task_statuses_def sample_report_def
      planned_tables_def planned_def empty_tables_def task_row.truncate_def)
  ultimately show ?thesis by (simp add: sel_Cons result_row_def sample_report_def split: if_splits)
qed

section \<open>What a settlement leaves behind\<close>

text \<open>
  A settlement that commits reports what it stored, except for a worker that failed: the stored
  status is the status of the outcome, completed exactly when the outcome is accepted, and blocked
  otherwise; the outcome of a failed worker says failed, while the task is stored as blocked, so a
  restarted host does not have the same answer as the live one.
\<close>

theorem settlement_as_stored:
  assumes "settle x display p t w T0 d = Inr (so, Some c)" and "reachable_tables T"
    and "commit_delivery c s T = (Inr u, fs, U)"
  shows "\<exists>row. task_of U t = Some row \<and>
    parse_task_status (tk_status row) = Some (if worker_failed w then TaskBlocked else so_status so) \<and>
    (so_accepted so \<longleftrightarrow> tk_status row = ''completed'') \<and>
    (so_status so = TaskFailed \<longleftrightarrow> worker_failed w) \<and>
    stop_reason so = (if tk_status row = ''completed'' then ''accepted''
      else if worker_failed w then ''worker_failed'' else ''evidence_incomplete'')"
proof -
  note st = settle_shape [OF assms(1)]
  from assms(3) have c: "commit_delivery_body c T = Inr (u, U)"
    using task_tx_cases [of "Some BeforeDelegationDeliveryCommit" "commit_delivery_body c" s T]
    by (simp add: commit_delivery_def)
  from assms(2) have "tables_ok T" by (rule delegation.reach_inv)
  from commit_delivery_effect(2) [OF c this] st(1,2) obtain row where row: "task_of U t = Some row"
    and status: "tk_status row = (if worker_failed w then ''blocked'' else task_status_str (so_status so))"
    by auto
  have "parse_task_status (tk_status row) = Some (if worker_failed w then TaskBlocked else so_status so)"
    using status st(3) by (auto simp: parse_task_status_def)
  moreover have "so_accepted so \<longleftrightarrow> tk_status row = ''completed''"
    using status st(3-5) by auto
  moreover have "stop_reason so = (if tk_status row = ''completed'' then ''accepted''
      else if worker_failed w then ''worker_failed'' else ''evidence_incomplete'')"
    using status st(3-5) by (auto simp: stop_reason_def)
  ultimately show ?thesis using row st(4) by blast
qed

definition failed_commit :: delivery_commit where
  "failed_commit = blocked_commit sample_plan ''t'' [] planned ''h'' ''s''"

lemma sample_failed:
  "settle sample_serial (\<lambda>_. []) sample_plan ''t'' (WorkerFailed ProcessOutcomeUnknown) planned_tables
    sample_sessions = Inr (\<lparr>so_task_id = ''t'', so_status = TaskFailed, so_accepted = False\<rparr>, Some failed_commit)"
proof -
  have n: "plan_node sample_plan ''t'' = Some ((sample_node ''t'' [''src''] [])\<lparr>tn_brief := sample_brief ''t''\<rparr>)"
    by (simp add: plan_node_def sample_plan_def)
  have "parent_of sample_plan ''t'' = ''t''"
    unfolding parent_of_def recipient_task_id_def n by (simp add: sample_node_def)
  moreover have "read_task_node Inr planned_tables ''t'' = Inr (Some planned)"
    by (simp add: read_task_node_def planned_tables_def planned_def sel_Cons task_row.truncate_def
      read_task_row_def json_get_def json_strings_def task_row.extend_def sample_node_def u32_max_def)
  moreover have "tk_status planned \<noteq> ''completed''" by (simp add: planned_def)
  ultimately show ?thesis
    using sample_recipient by (simp add: settle_def n persist_blocked_def sample_serial_def failed_commit_def Let_def)
qed

lemma settlement_as_stored_witness:
  "\<exists>row. task_of (snd (snd (commit_delivery failed_commit task_store planned_tables))) ''t'' = Some row \<and>
    parse_task_status (tk_status row) = Some TaskBlocked \<and>
    stop_reason \<lparr>so_task_id = ''t'', so_status = TaskFailed, so_accepted = False\<rparr> = ''worker_failed''"
proof -
  have "tables_op empty_tables planned_tables"
    by (rule to_admit_graph [OF sample_graph_admitted]) (simp add: own_admission_def)
  moreover have "reachable_tables empty_tables" by (rule reach_init) simp
  ultimately have run: "reachable_tables planned_tables" by (rule sample_reach)
  have "\<exists>U. commit_delivery_body failed_commit planned_tables = Inr ((), U)"
    by (simp add: commit_delivery_body_def failed_commit_def blocked_commit_def set_task_def insert_delivery_def
      bind_res_def to_i64_def i64_max_def u64_max_def saturating_add_def sel_Cons task_checks_def
      task_statuses_def planned_tables_def planned_def empty_tables_def task_row.truncate_def Let_def)
  then obtain U where U: "commit_delivery_body failed_commit planned_tables = Inr ((), U)" by blast
  have "assert_fence_in_tx \<lparr>hf_host_id = ''host'', hf_generation = 1\<rparr> (s_db task_store) = Inr ()"
    by (simp add: assert_fence_iff task_store_def i64_max_def empty_db_def)
  with U have c: "commit_delivery failed_commit task_store planned_tables = (Inr (), {}, U)"
    by (simp add: commit_delivery_def task_tx_def fence_def begin_write_def task_store_def consume_def)
  from settlement_as_stored [OF sample_failed run c] c show ?thesis
    by (auto simp: worker_failed_def stop_reason_def)
qed

text \<open>
  Admission adds the tasks the store does not have and nothing else: it fails before it writes
  or hands over exactly the tasks of the plan that its reads did not find, in the order of the plan,
  each pending at revision 1 without an owner. A task that was found is passed over whatever the
  plan now says of it; a changed node is not refused.
\<close>

theorem admission_passes_over:
  assumes "admissions_of x p seen ts = Inr as" and "\<forall>t n. plan_node p t = Some n \<longrightarrow> tn_task_id n = t"
  shows "map (\<lambda>a. tk_task_id (fst a)) as = filter (\<lambda>t. task_of (seen t) t = None) ts \<and>
    (\<forall>a \<in> set as. snd a = None \<and> tk_status (fst a) = ''pending'' \<and> tk_revision (fst a) = 1)"
proof
  show "map (\<lambda>a. tk_task_id (fst a)) as = filter (\<lambda>t. task_of (seen t) t = None) ts"
    using assms(1)
  proof (induction ts arbitrary: as)
    case Nil
    then show ?case by simp
  next
    case (Cons t ts)
    from Cons.prems obtain n found where n: "plan_node p t = Some n"
      and found: "read_task_node (sr_parse x) (seen t) t = Inr found"
      and rest: "(if found \<noteq> None then admissions_of x p seen ts
        else bind_res (admission_of x n) (\<lambda>a. bind_res (admissions_of x p seen ts)
          (\<lambda>rest. Inr ((a, None) # rest)))) = Inr as"
      by (auto simp: bind_res_Inr case_found_Inr)
    from found have f: "found = None \<longleftrightarrow> task_of (seen t) t = None"
      by (auto simp: read_task_node_def split: option.splits sum.splits)
    show ?case
    proof (cases "found = None")
      case True
      with rest obtain a bs where a: "admission_of x n = Inr a" and bs: "admissions_of x p seen ts = Inr bs"
        and "as = (a, None) # bs" by (auto simp: bind_res_Inr)
      moreover from a have "tk_task_id a = tn_task_id n" by (auto simp: admission_of_def bind_res_Inr)
      ultimately show ?thesis using Cons.IH [OF bs] f True n assms(2) by simp
    next
      case False
      with rest Cons.IH f show ?thesis by simp
    qed
  qed
qed (use admissions_of_each [OF assms(1)] in blast)

lemma admission_passes_over_witness:
  "map (\<lambda>a. tk_task_id (fst a)) [(planned, None :: task_owner option)] =
    filter (\<lambda>t. task_of empty_tables t = None) [''t'']"
proof -
  have "\<forall>t n. plan_node sample_plan t = Some n \<longrightarrow> tn_task_id n = t"
    by (simp add: plan_node_def sample_plan_def sample_node_def)
  from admission_passes_over [OF sample_admission this] show ?thesis
    by (simp add: sample_plan_def)
qed

end
