(* ===== verification/Json_Values.thy ===== *)
theory Json_Values imports Contracts begin

text \<open>
  How the code reads a JSON value (\<^verbatim>\<open>serde_json::Value\<close>), shared by the parser of tool calls and
  the decoders of provider streams. Strings are their UTF-8 bytes.
\<close>

definition newline :: string where
  "newline = [CHR 0x0A]"

text \<open>\<^verbatim>\<open>chars().count()\<close> of valid UTF-8: every byte that does not continue a character.\<close>

definition char_count :: "string \<Rightarrow> nat" where
  "char_count s = length (filter (\<lambda>c. byte c < 128 \<or> 192 \<le> byte c) s)"

definition ascii_digit :: "char \<Rightarrow> bool" where
  "ascii_digit c \<longleftrightarrow> 48 \<le> byte c \<and> byte c \<le> 57"

definition digits :: "string \<Rightarrow> bool" where
  "digits s \<longleftrightarrow> s \<noteq> [] \<and> (\<forall>c \<in> set s. ascii_digit c)"

definition decimal_value :: "string \<Rightarrow> nat" where
  "decimal_value s = foldl (\<lambda>n c. 10 * n + (byte c - 48)) 0 s"

text \<open>
  \<^verbatim>\<open>Value::as_u64\<close> and \<^verbatim>\<open>as_i64\<close>: a number that was written with a point or an exponent, or
  that leaves the range, is a float for \<^verbatim>\<open>serde_json\<close> and has neither.
\<close>

fun as_u64 :: "json \<Rightarrow> nat option" where
  "as_u64 (JNum t) = (if digits t \<and> decimal_value t \<le> u64_max then Some (decimal_value t) else None)"
| "as_u64 _ = None"

fun as_i64 :: "json \<Rightarrow> int option" where
  "as_i64 (JNum t) =
    (if digits t \<and> decimal_value t \<le> i64_max then Some (int (decimal_value t))
     else case t of
       [] \<Rightarrow> None
     | c # d \<Rightarrow> if c = CHR ''-'' \<and> digits d \<and> 0 < decimal_value d \<and> decimal_value d \<le> i64_max + 1
         then Some (- int (decimal_value d)) else None)"
| "as_i64 _ = None"

fun as_str :: "json \<Rightarrow> string option" where
  "as_str (JStr s) = Some s"
| "as_str _ = None"

fun as_array :: "json \<Rightarrow> json list option" where
  "as_array (JArr vs) = Some vs"
| "as_array _ = None"

fun as_object :: "json \<Rightarrow> (string \<times> json) list option" where
  "as_object (JObj entries) = Some entries"
| "as_object _ = None"

end
