(* ===== verification/Tool_Actions.thy ===== *)
theory Tool_Actions imports Json_Values "HOL-Library.Multiset" "HOL-Library.List_Lexorder" "HOL-Library.Char_ord" begin

text \<open>
  The typed actions a provider tool call becomes
  (\<^verbatim>\<open>crates/harness-tools/src/contracts.rs\<close>): \<open>coding_tool_action\<close> with its kinds and effect
  classes, the environment references a process may name, and \<open>from_provider_call\<close> with one
  definition per arm of its match. \<open>parsers\<close> holds what the function takes from outside: the
  JSON text parser and the two time parsers of \<^verbatim>\<open>chrono\<close>. The theorems bound what a parsed
  call can ask for.
\<close>

section \<open>Environment references\<close>

definition env_reference_prefix :: string where "env_reference_prefix = ''secret://''"
definition max_env_bindings :: nat where "max_env_bindings = 8"
definition max_env_name_len :: nat where "max_env_name_len = 64"
definition max_env_reference_len :: nat where "max_env_reference_len = 200"

record env_binding =
  eb_name :: string
  eb_reference :: string

definition ascii_alpha :: "char \<Rightarrow> bool" where
  "ascii_alpha c \<longleftrightarrow> 65 \<le> byte c \<and> byte c \<le> 90 \<or> 97 \<le> byte c \<and> byte c \<le> 122"

fun is_environment_name :: "string \<Rightarrow> bool" where
  "is_environment_name [] \<longleftrightarrow> False"
| "is_environment_name (c # s) \<longleftrightarrow> (ascii_alpha c \<or> c = CHR ''_'') \<and>
    (\<forall>d \<in> set s. ascii_alpha d \<or> ascii_digit d \<or> d = CHR ''_'')"

definition strip_prefix :: "string \<Rightarrow> string \<Rightarrow> string option" where
  "strip_prefix p s = (if starts_with p s then Some (drop (length p) s) else None)"

definition env_validate :: "env_binding \<Rightarrow> unit res" where
  "env_validate b =
    (if length (eb_name b) > max_env_name_len \<or> \<not> is_environment_name (eb_name b)
     then Inl EnvironmentDenied
     else if length (eb_reference b) > max_env_reference_len then Inl EnvironmentDenied
     else case strip_prefix env_reference_prefix (eb_reference b) of
       None \<Rightarrow> Inl EnvironmentDenied
     | Some target \<Rightarrow>
        if target = [] \<or> \<not> is_environment_name target then Inl EnvironmentDenied else Inr ())"

text \<open>The loop over the sorted bindings; the first argument is the name before this one.\<close>

fun check_bindings :: "string option \<Rightarrow> env_binding list \<Rightarrow> unit res" where
  "check_bindings before [] = Inr ()"
| "check_bindings before (b # bs) = bind_res (env_validate b) (\<lambda>_.
    if before = Some (eb_name b) then Inl EnvironmentDenied
    else check_bindings (Some (eb_name b)) bs)"

definition normalize_env_bindings :: "env_binding list \<Rightarrow> env_binding list res" where
  "normalize_env_bindings bs =
    (if length bs > max_env_bindings then Inl EnvironmentDenied
     else bind_res (check_bindings None (sort_key eb_name bs)) (\<lambda>_. Inr (sort_key eb_name bs)))"

section \<open>Actions\<close>

datatype capture_stream = StreamStdout | StreamStderr

datatype isolation_mode = IsoBestEffort | IsoStrict

record edit_spec =
  es_old_string :: string
  es_new_string :: string
  es_replace_all :: bool
  es_start :: "string option"
  es_end :: "string option"

record history_search_filter =
  hf_since_ms :: "nat option"
  hf_until_ms :: "nat option"
  hf_kinds :: "string list"
  hf_oldest_first :: bool
  hf_readout :: "nat option"

text \<open>The fields of each variant stand in the order of the source.\<close>

datatype coding_tool_action =
    ReadFile string "nat option" "nat option" "nat option"
  | ListFiles "string option" "nat option"
  | SearchText string "string option" bool bool "string option" "nat option" "string list"
  | ApplyPatch string content_hash string
  | WriteFile string string "content_hash option"
  | EditFile string string string bool "edit_spec list"
  | GlobFiles string "string option"
  | FindFiles string "string option" "nat option"
  | RunProcess string "string list" nat isolation_mode "env_binding list"
  | RunShell string nat isolation_mode "env_binding list"
  | ReadProcessOutput string capture_stream nat nat
  | HistorySearch string "nat option" bool history_search_filter
  | HistoryRead string nat nat bool
  | GitStatus
  | GitDiff "string option"
  | GitLog "string option" "nat option"
  | TaskUpdate string
  | ExternalTool string string json "string option" nat

datatype tool_kind = KindReadFile | KindListFiles | KindSearchText | KindApplyPatch | KindWriteFile
  | KindEditFile | KindGlob | KindFindFiles | KindRunProcess | KindRunShell | KindReadProcessOutput
  | KindHistorySearch | KindHistoryRead | KindGitStatus | KindGitDiff | KindGitLog | KindTaskUpdate
  | KindExternalTool

fun tool_kind_str :: "tool_kind \<Rightarrow> string" where
  "tool_kind_str KindReadFile = ''read_file''"
| "tool_kind_str KindListFiles = ''list_files''"
| "tool_kind_str KindSearchText = ''search_text''"
| "tool_kind_str KindApplyPatch = ''apply_patch''"
| "tool_kind_str KindWriteFile = ''write_file''"
| "tool_kind_str KindEditFile = ''edit_file''"
| "tool_kind_str KindGlob = ''glob''"
| "tool_kind_str KindFindFiles = ''find_files''"
| "tool_kind_str KindRunProcess = ''run_process''"
| "tool_kind_str KindRunShell = ''run_shell''"
| "tool_kind_str KindReadProcessOutput = ''read_process_output''"
| "tool_kind_str KindHistorySearch = ''history_search''"
| "tool_kind_str KindHistoryRead = ''history_read''"
| "tool_kind_str KindGitStatus = ''git_status''"
| "tool_kind_str KindGitDiff = ''git_diff''"
| "tool_kind_str KindGitLog = ''git_log''"
| "tool_kind_str KindTaskUpdate = ''task_update''"
| "tool_kind_str KindExternalTool = ''external_tool''"

definition is_read_only :: "tool_kind \<Rightarrow> bool" where
  "is_read_only k \<longleftrightarrow> k \<in> {KindReadFile, KindListFiles, KindSearchText, KindGlob, KindFindFiles,
    KindReadProcessOutput, KindHistorySearch, KindHistoryRead, KindGitStatus, KindGitDiff, KindGitLog}"

fun action_kind :: "coding_tool_action \<Rightarrow> tool_kind" where
  "action_kind (ReadFile _ _ _ _) = KindReadFile"
| "action_kind (ListFiles _ _) = KindListFiles"
| "action_kind (SearchText _ _ _ _ _ _ _) = KindSearchText"
| "action_kind (ApplyPatch _ _ _) = KindApplyPatch"
| "action_kind (WriteFile _ _ _) = KindWriteFile"
| "action_kind (EditFile _ _ _ _ _) = KindEditFile"
| "action_kind (GlobFiles _ _) = KindGlob"
| "action_kind (FindFiles _ _ _) = KindFindFiles"
| "action_kind (RunProcess _ _ _ _ _) = KindRunProcess"
| "action_kind (RunShell _ _ _ _) = KindRunShell"
| "action_kind (ReadProcessOutput _ _ _ _) = KindReadProcessOutput"
| "action_kind (HistorySearch _ _ _ _) = KindHistorySearch"
| "action_kind (HistoryRead _ _ _ _) = KindHistoryRead"
| "action_kind GitStatus = KindGitStatus"
| "action_kind (GitDiff _) = KindGitDiff"
| "action_kind (GitLog _ _) = KindGitLog"
| "action_kind (TaskUpdate _) = KindTaskUpdate"
| "action_kind (ExternalTool _ _ _ _ _) = KindExternalTool"

fun path_hint :: "coding_tool_action \<Rightarrow> string option" where
  "path_hint (ReadFile path _ _ _) = Some path"
| "path_hint (ApplyPatch path _ _) = Some path"
| "path_hint (WriteFile path _ _) = Some path"
| "path_hint (EditFile path _ _ _ _) = Some path"
| "path_hint (ListFiles path _) = path"
| "path_hint (SearchText _ path _ _ _ _ _) = path"
| "path_hint (GlobFiles _ path) = path"
| "path_hint (FindFiles _ path _) = path"
| "path_hint (GitDiff path) = path"
| "path_hint (GitLog path _) = path"
| "path_hint _ = None"

fun edit_specs :: "coding_tool_action \<Rightarrow> edit_spec list" where
  "edit_specs (EditFile path old new all edits) =
    (if edits = [] \<or> old \<noteq> []
     then [\<lparr>es_old_string = old, es_new_string = new, es_replace_all = all, es_start = None,
       es_end = None\<rparr>] else []) @ edits"
| "edit_specs _ = []"

datatype effect_class = EffectReadOnly | EffectMutating | EffectExternal | EffectInteractive

definition effect_class_for :: "string \<Rightarrow> effect_class" where
  "effect_class_for name =
    (if name \<in> {''read_file'', ''list_files'', ''search_text'', ''git_status'', ''git_diff'',
        ''git_log'', ''read_process_output'', ''history_search'', ''history_read'', ''glob'',
        ''find_files''} then EffectReadOnly
     else if name \<in> {''apply_patch'', ''write_file'', ''edit_file''} then EffectMutating
     else if name = ''ask_user'' then EffectInteractive
     else EffectExternal)"

definition coding_tool_names :: "string list" where
  "coding_tool_names = [''read_file'', ''list_files'', ''search_text'', ''apply_patch'',
    ''write_file'', ''edit_file'', ''glob'', ''find_files'', ''run_process'', ''run_shell'',
    ''read_process_output'', ''history_search'', ''history_read'', ''git_status'', ''git_diff'',
    ''git_log'', ''task_update'', ''ask_user'']"

section \<open>Reading a JSON value\<close>

type_synonym fields = "(string \<times> json) list"

text \<open>\<^verbatim>\<open>None | Some(Value::Null)\<close> is one arm of most matches of the parser.\<close>

definition given :: "fields \<Rightarrow> string \<Rightarrow> json option" where
  "given obj key = (case map_of obj key of
      Some v \<Rightarrow> if v = JNull then None else Some v
    | None \<Rightarrow> None)"

definition ok_or :: "error_code \<Rightarrow> 'a option \<Rightarrow> 'a res" where
  "ok_or e v = (case v of None \<Rightarrow> Inl e | Some x \<Rightarrow> Inr x)"

lemma ok_or_Inr [simp]: "ok_or e v = Inr x \<longleftrightarrow> v = Some x"
  by (cases v) (simp_all add: ok_or_def)

definition required_string :: "fields \<Rightarrow> string \<Rightarrow> string res" where
  "required_string obj key = ok_or InvalidPayload (Option.bind (map_of obj key) as_str)"

definition parse_optional_bool :: "fields \<Rightarrow> string \<Rightarrow> bool option res" where
  "parse_optional_bool obj key = (case given obj key of
      None \<Rightarrow> Inr None
    | Some v \<Rightarrow> (case v of JBool b \<Rightarrow> Inr (Some b) | _ \<Rightarrow> Inl InvalidPayload))"

definition optional_path :: "fields \<Rightarrow> string option" where
  "optional_path obj = (case Option.bind (map_of obj ''path'') as_str of
      None \<Rightarrow> None
    | Some path \<Rightarrow> if trim path = [] then None else Some (trim path))"

definition parse_optional_string :: "fields \<Rightarrow> string \<Rightarrow> string option res" where
  "parse_optional_string obj key = (case given obj key of
      None \<Rightarrow> Inr None
    | Some v \<Rightarrow> (case v of JStr s \<Rightarrow> Inr (Some s) | _ \<Rightarrow> Inl InvalidPayload))"

definition parse_optional_u64 :: "fields \<Rightarrow> string \<Rightarrow> nat option res" where
  "parse_optional_u64 obj key = (case given obj key of
      None \<Rightarrow> Inr None
    | Some v \<Rightarrow> bind_res (ok_or InvalidPayload (as_u64 v)) (\<lambda>n. Inr (Some n)))"

text \<open>\<^verbatim>\<open>as_u64().and_then(u32::try_from).filter(lo..=hi)\<close>, with \<open>hi\<close> below \<^verbatim>\<open>2^32\<close>.\<close>

definition bounded_u32 :: "nat \<Rightarrow> nat \<Rightarrow> json \<Rightarrow> nat res" where
  "bounded_u32 lo hi v = (case as_u64 v of
      None \<Rightarrow> Inl InvalidPayload
    | Some n \<Rightarrow> if n \<le> u32_max \<and> lo \<le> n \<and> n \<le> hi then Inr n else Inl InvalidPayload)"

definition parse_optional_bounded_u32 :: "fields \<Rightarrow> string \<Rightarrow> nat \<Rightarrow> nat \<Rightarrow> nat option res" where
  "parse_optional_bounded_u32 obj key lo hi = (case given obj key of
      None \<Rightarrow> Inr None
    | Some v \<Rightarrow> bind_res (bounded_u32 lo hi v) (\<lambda>n. Inr (Some n)))"

definition search_any_of_max :: nat where "search_any_of_max = 16"

fun any_of_items :: "json list \<Rightarrow> string list res" where
  "any_of_items [] = Inr []"
| "any_of_items (v # vs) = bind_res (ok_or InvalidPayload (as_str v)) (\<lambda>text.
    bind_res (any_of_items vs) (\<lambda>rest. Inr (if text = [] then rest else text # rest)))"

definition parse_any_of :: "fields \<Rightarrow> string list res" where
  "parse_any_of obj = (case given obj ''any_of'' of
      None \<Rightarrow> Inr []
    | Some v \<Rightarrow> bind_res (ok_or InvalidPayload (as_array v)) (\<lambda>items.
        if length items > search_any_of_max then Inl InvalidPayload else any_of_items items))"

definition env_binding_of :: "string \<times> json \<Rightarrow> env_binding res" where
  "env_binding_of e = bind_res (ok_or EnvironmentDenied (as_str (snd e)))
    (\<lambda>reference. Inr \<lparr>eb_name = fst e, eb_reference = reference\<rparr>)"

definition parse_env_bindings :: "json option \<Rightarrow> env_binding list res" where
  "parse_env_bindings v = (case v of
      None \<Rightarrow> Inr []
    | Some v \<Rightarrow> if v = JNull then Inr []
        else bind_res (ok_or EnvironmentDenied (as_object v)) (\<lambda>obj.
          if length obj > max_env_bindings then Inl EnvironmentDenied
          else bind_res (collect_res (map env_binding_of obj)) normalize_env_bindings))"

definition parse_isolation :: "json option \<Rightarrow> isolation_mode res" where
  "parse_isolation v = (case v of
      None \<Rightarrow> Inr IsoBestEffort
    | Some v \<Rightarrow> if v = JStr ''best_effort'' then Inr IsoBestEffort
        else if v = JStr ''strict'' then Inr IsoStrict else Inl InvalidPayload)"

definition parse_history_scope :: "json option \<Rightarrow> bool res" where
  "parse_history_scope v = (case v of
      None \<Rightarrow> Inr False
    | Some v \<Rightarrow> if v = JNull then Inr False
        else if v = JStr ''task'' then Inr False
        else if v = JStr ''project'' then Inr True else Inl InvalidPayload)"

section \<open>Edits and history filters\<close>

text \<open>
  The derived deserializer of \<^verbatim>\<open>EditSpec\<close>: an object by field name, or an array by position
  (unknown fields are ignored, too long an array is refused).
\<close>

definition text_or :: "string \<Rightarrow> json option \<Rightarrow> string res" where
  "text_or fallback v = (case v of None \<Rightarrow> Inr fallback | Some v \<Rightarrow> ok_or InvalidPayload (as_str v))"

definition flag_or_false :: "json option \<Rightarrow> bool res" where
  "flag_or_false v = (case v of
      None \<Rightarrow> Inr False
    | Some v \<Rightarrow> (case v of JBool b \<Rightarrow> Inr b | _ \<Rightarrow> Inl InvalidPayload))"

definition optional_text :: "json option \<Rightarrow> string option res" where
  "optional_text v = (case v of
      None \<Rightarrow> Inr None
    | Some v \<Rightarrow> if v = JNull then Inr None
        else bind_res (ok_or InvalidPayload (as_str v)) (\<lambda>t. Inr (Some t)))"

definition edit_from :: "(nat \<Rightarrow> json option) \<Rightarrow> edit_spec res" where
  "edit_from field = bind_res (text_or [] (field 0)) (\<lambda>old.
    bind_res (case field 1 of None \<Rightarrow> Inl InvalidPayload | Some v \<Rightarrow> text_or [] (Some v)) (\<lambda>new.
    bind_res (flag_or_false (field 2)) (\<lambda>all.
    bind_res (optional_text (field 3)) (\<lambda>start.
    bind_res (optional_text (field 4)) (\<lambda>stop.
    Inr \<lparr>es_old_string = old, es_new_string = new, es_replace_all = all, es_start = start,
      es_end = stop\<rparr>)))))"

definition edit_field_names :: "string list" where
  "edit_field_names = [''old_string'', ''new_string'', ''replace_all'', ''start'', ''end'']"

definition edit_spec_of :: "json \<Rightarrow> edit_spec res" where
  "edit_spec_of v = (case v of
      JObj entries \<Rightarrow> edit_from (\<lambda>i. map_of entries (edit_field_names ! i))
    | JArr vs \<Rightarrow> if length vs > length edit_field_names then Inl InvalidPayload
        else edit_from (\<lambda>i. if i < length vs then Some (vs ! i) else None)
    | _ \<Rightarrow> Inl InvalidPayload)"

definition edit_file_max_edits :: nat where "edit_file_max_edits = 50"

definition edit_item :: "json \<Rightarrow> edit_spec res" where
  "edit_item v = bind_res (edit_spec_of v) (\<lambda>spec.
    if es_old_string spec = [] \<and> es_start spec = None then Inl InvalidPayload else Inr spec)"

text \<open>What the parser takes from other crates.\<close>

record parsers =
  ps_json :: "string \<Rightarrow> json option"
  ps_rfc3339 :: "string \<Rightarrow> int option"
  ps_date :: "string \<Rightarrow> int option"

definition parse_edits :: "parsers \<Rightarrow> fields \<Rightarrow> edit_spec list res" where
  "parse_edits ps obj = (case given obj ''edits'' of
      None \<Rightarrow> Inr []
    | Some v \<Rightarrow>
        bind_res (case v of JStr text \<Rightarrow> ok_or InvalidPayload (ps_json ps text) | _ \<Rightarrow> Inr v) (\<lambda>v.
        bind_res (ok_or InvalidPayload (as_array v)) (\<lambda>items.
        if length items > edit_file_max_edits then Inl InvalidPayload
        else collect_res (map edit_item items))))"

definition parse_time :: "parsers \<Rightarrow> fields \<Rightarrow> string \<Rightarrow> nat option res" where
  "parse_time ps obj key = (case given obj key of
      None \<Rightarrow> Inr None
    | Some v \<Rightarrow> bind_res (ok_or InvalidPayload (as_str v)) (\<lambda>text.
        case (case ps_rfc3339 ps (trim text) of Some t \<Rightarrow> Some t | None \<Rightarrow> ps_date ps (trim text)) of
          None \<Rightarrow> Inl InvalidPayload
        | Some t \<Rightarrow> Inr (Some (nat t))))"

definition kind_item :: "json \<Rightarrow> string res" where
  "kind_item v = bind_res (ok_or InvalidPayload (as_str v)) (\<lambda>t. Inr (trim t))"

definition parse_kinds :: "fields \<Rightarrow> string list res" where
  "parse_kinds obj = (case given obj ''kind'' of
      None \<Rightarrow> Inr []
    | Some v \<Rightarrow> (case v of
        JStr t \<Rightarrow> Inr [trim t]
      | JArr vs \<Rightarrow> collect_res (map kind_item vs)
      | _ \<Rightarrow> Inl InvalidPayload))"

definition parse_order :: "fields \<Rightarrow> bool res" where
  "parse_order obj = (case given obj ''order'' of
      None \<Rightarrow> Inr False
    | Some v \<Rightarrow> if v = JStr ''newest'' then Inr False
        else if v = JStr ''oldest'' then Inr True else Inl InvalidPayload)"

definition parse_readout :: "fields \<Rightarrow> nat option \<Rightarrow> nat option res" where
  "parse_readout obj slots = (case given obj ''mode'' of
      None \<Rightarrow> Inr None
    | Some v \<Rightarrow> if v = JStr ''rank'' then Inr None
        else if v = JStr ''readout'' then Inr (Some (case slots of None \<Rightarrow> 8 | Some n \<Rightarrow> n))
        else Inl InvalidPayload)"

definition parse_history_filter :: "parsers \<Rightarrow> fields \<Rightarrow> history_search_filter res" where
  "parse_history_filter ps obj =
    bind_res (parse_kinds obj) (\<lambda>kinds.
    bind_res (parse_order obj) (\<lambda>oldest_first.
    bind_res (parse_optional_bounded_u32 obj ''slots'' 1 16) (\<lambda>slots.
    bind_res (parse_readout obj slots) (\<lambda>readout.
    bind_res (parse_time ps obj ''since'') (\<lambda>since.
    bind_res (parse_time ps obj ''until'') (\<lambda>until.
    Inr \<lparr>hf_since_ms = since, hf_until_ms = until, hf_kinds = kinds,
      hf_oldest_first = oldest_first, hf_readout = readout\<rparr>))))))"

section \<open>The arms of the parser\<close>

definition read_file_max_lines :: nat where "read_file_max_lines = 500"
definition list_preview_max_lines :: nat where "list_preview_max_lines = 30"
definition list_preview_default_lines :: nat where "list_preview_default_lines = 10"
definition search_context_max_lines :: nat where "search_context_max_lines = 3"
definition find_max_limit :: nat where "find_max_limit = 200"
definition history_search_max_limit :: nat where "history_search_max_limit = 50"
definition history_read_max_bytes :: nat where "history_read_max_bytes = 64 * 1024"
definition history_read_default_bytes :: nat where "history_read_default_bytes = 16 * 1024"
definition process_output_page_max_bytes :: nat where "process_output_page_max_bytes = 64 * 1024"
definition process_output_page_default_bytes :: nat where
  "process_output_page_default_bytes = 16 * 1024"
definition git_log_max_limit :: nat where "git_log_max_limit = 100"

definition hash_parse :: "string \<Rightarrow> content_hash res" where
  "hash_parse value = (case strip_prefix ''sha256:'' value of
      None \<Rightarrow> Inl InvalidHash
    | Some hex \<Rightarrow>
        if length hex \<noteq> 64 \<or> (\<exists>c \<in> set hex. \<not> (ascii_digit c
            \<or> 65 \<le> byte c \<and> byte c \<le> 70 \<or> 97 \<le> byte c \<and> byte c \<le> 102)) then Inl InvalidHash
        else if \<exists>c \<in> set hex. 65 \<le> byte c \<and> byte c \<le> 90 then Inl InvalidHash
        else Inr value)"

definition negative_offset :: "fields \<Rightarrow> nat option" where
  "negative_offset obj = (case Option.bind (map_of obj ''offset'') as_i64 of
      None \<Rightarrow> None
    | Some n \<Rightarrow> if n < 0 then Some (nat (- n)) else None)"

definition parse_read_file :: "fields \<Rightarrow> coding_tool_action res" where
  "parse_read_file obj = (let tail = negative_offset obj in
    bind_res (if tail \<noteq> None then Inr None else parse_optional_u64 obj ''offset'') (\<lambda>offset.
    bind_res (parse_optional_bounded_u32 obj ''limit'' 1 u32_max) (\<lambda>limit.
    bind_res (required_string obj ''path'') (\<lambda>path.
    Inr (ReadFile path offset (map_option (min read_file_max_lines) limit) tail)))))"

definition parse_preview :: "fields \<Rightarrow> nat option res" where
  "parse_preview obj =
    (if map_of obj ''preview'' = Some (JBool True) then Inr (Some list_preview_default_lines)
     else if map_of obj ''preview'' = Some (JBool False) then Inr None
     else bind_res (parse_optional_bounded_u32 obj ''preview'' 0 u32_max) (\<lambda>lines.
       Inr (case lines of None \<Rightarrow> None
         | Some n \<Rightarrow> if 0 < n then Some (min list_preview_max_lines n) else None)))"

definition parse_list_files :: "fields \<Rightarrow> coding_tool_action res" where
  "parse_list_files obj =
    bind_res (parse_preview obj) (\<lambda>preview. Inr (ListFiles (optional_path obj) preview))"

definition parse_search_text :: "fields \<Rightarrow> coding_tool_action res" where
  "parse_search_text obj =
    bind_res (required_string obj ''query'') (\<lambda>query.
    bind_res (parse_optional_bool obj ''regex'') (\<lambda>regex.
    bind_res (parse_optional_bool obj ''case_insensitive'') (\<lambda>insensitive.
    bind_res (parse_optional_string obj ''glob'') (\<lambda>pattern.
    bind_res (parse_optional_bounded_u32 obj ''context_lines'' 0 u32_max) (\<lambda>lines.
    bind_res (parse_any_of obj) (\<lambda>any_of.
    Inr (SearchText query (optional_path obj) (regex = Some True) (insensitive = Some True) pattern
      (map_option (min search_context_max_lines) lines) any_of)))))))"

definition parse_apply_patch :: "fields \<Rightarrow> coding_tool_action res" where
  "parse_apply_patch obj =
    bind_res (required_string obj ''path'') (\<lambda>path.
    bind_res (bind_res (required_string obj ''expected_hash'') hash_parse) (\<lambda>hash.
    bind_res (required_string obj ''replacement'') (\<lambda>replacement.
    Inr (ApplyPatch path hash replacement))))"

definition parse_write_file :: "fields \<Rightarrow> coding_tool_action res" where
  "parse_write_file obj =
    bind_res (required_string obj ''path'') (\<lambda>path.
    bind_res (required_string obj ''content'') (\<lambda>content.
    bind_res (parse_optional_string obj ''expected_hash'') (\<lambda>expected.
    bind_res (case expected of None \<Rightarrow> Inr None
      | Some text \<Rightarrow> bind_res (hash_parse text) (\<lambda>h. Inr (Some h))) (\<lambda>hash.
    Inr (WriteFile path content hash)))))"

definition parse_edit_file :: "parsers \<Rightarrow> fields \<Rightarrow> coding_tool_action res" where
  "parse_edit_file ps obj =
    bind_res (parse_edits ps obj) (\<lambda>edits.
    bind_res (if edits = [] then required_string obj ''old_string''
      else bind_res (parse_optional_string obj ''old_string'')
        (\<lambda>t. Inr (case t of None \<Rightarrow> [] | Some x \<Rightarrow> x))) (\<lambda>old.
    bind_res (if edits = [] then required_string obj ''new_string''
      else bind_res (parse_optional_string obj ''new_string'')
        (\<lambda>t. Inr (case t of None \<Rightarrow> [] | Some x \<Rightarrow> x))) (\<lambda>new.
    bind_res (required_string obj ''path'') (\<lambda>path.
    bind_res (parse_optional_bool obj ''replace_all'') (\<lambda>all.
    Inr (EditFile path old new (all = Some True) edits))))))"

definition parse_glob :: "fields \<Rightarrow> coding_tool_action res" where
  "parse_glob obj = bind_res (required_string obj ''pattern'')
    (\<lambda>pattern. Inr (GlobFiles pattern (optional_path obj)))"

definition parse_find_files :: "fields \<Rightarrow> coding_tool_action res" where
  "parse_find_files obj =
    bind_res (parse_optional_string obj ''query'') (\<lambda>query.
    bind_res (parse_optional_bounded_u32 obj ''limit'' 1 u32_max) (\<lambda>limit.
    Inr (FindFiles (case query of None \<Rightarrow> [] | Some q \<Rightarrow> q) (optional_path obj)
      (map_option (min find_max_limit) limit))))"

definition parse_timeout :: "fields \<Rightarrow> nat res" where
  "parse_timeout obj = ok_or InvalidPayload (Option.bind (map_of obj ''timeout_ms'') as_u64)"

definition parse_run_process :: "fields \<Rightarrow> coding_tool_action res" where
  "parse_run_process obj =
    bind_res (ok_or InvalidPayload (Option.bind (map_of obj ''args'') as_array)) (\<lambda>items.
    bind_res (collect_res (map (\<lambda>v. ok_or InvalidPayload (as_str v)) items)) (\<lambda>args.
    bind_res (parse_timeout obj) (\<lambda>timeout.
    bind_res (required_string obj ''executable'') (\<lambda>executable.
    bind_res (parse_isolation (map_of obj ''isolation'')) (\<lambda>isolation.
    bind_res (parse_env_bindings (map_of obj ''env'')) (\<lambda>env.
    Inr (RunProcess executable args timeout isolation env)))))))"

definition parse_run_shell :: "fields \<Rightarrow> coding_tool_action res" where
  "parse_run_shell obj =
    bind_res (required_string obj ''command'') (\<lambda>command.
    bind_res (parse_timeout obj) (\<lambda>timeout.
    bind_res (parse_isolation (map_of obj ''isolation'')) (\<lambda>isolation.
    bind_res (parse_env_bindings (map_of obj ''env'')) (\<lambda>env.
    Inr (RunShell command timeout isolation env)))))"

definition parse_history_search :: "parsers \<Rightarrow> fields \<Rightarrow> coding_tool_action res" where
  "parse_history_search ps obj =
    bind_res (required_string obj ''query'') (\<lambda>query.
    if blank query then Inl InvalidPayload else
    bind_res (parse_optional_bounded_u32 obj ''limit'' 1 history_search_max_limit) (\<lambda>limit.
    bind_res (parse_history_scope (map_of obj ''scope'')) (\<lambda>project.
    bind_res (parse_history_filter ps obj) (\<lambda>hf.
    Inr (HistorySearch query limit project hf)))))"

definition parse_offset :: "fields \<Rightarrow> nat res" where
  "parse_offset obj = bind_res (parse_optional_u64 obj ''offset'')
    (\<lambda>offset. Inr (case offset of None \<Rightarrow> 0 | Some n \<Rightarrow> n))"

definition parse_length :: "fields \<Rightarrow> nat \<Rightarrow> nat \<Rightarrow> nat res" where
  "parse_length obj hi fallback = bind_res (parse_optional_bounded_u32 obj ''length'' 1 hi)
    (\<lambda>len. Inr (case len of None \<Rightarrow> fallback | Some n \<Rightarrow> n))"

definition parse_history_read :: "fields \<Rightarrow> coding_tool_action res" where
  "parse_history_read obj =
    bind_res (required_string obj ''source_id'') (\<lambda>source_id.
    if blank source_id then Inl InvalidPayload else
    bind_res (parse_offset obj) (\<lambda>offset.
    bind_res (parse_length obj history_read_max_bytes history_read_default_bytes) (\<lambda>len.
    bind_res (parse_history_scope (map_of obj ''scope'')) (\<lambda>project.
    Inr (HistoryRead source_id offset len project)))))"

definition parse_stream :: "fields \<Rightarrow> capture_stream res" where
  "parse_stream obj = (case given obj ''stream'' of
      None \<Rightarrow> Inr StreamStdout
    | Some v \<Rightarrow> if v = JStr ''stdout'' then Inr StreamStdout
        else if v = JStr ''stderr'' then Inr StreamStderr else Inl InvalidPayload)"

definition parse_read_process_output :: "fields \<Rightarrow> coding_tool_action res" where
  "parse_read_process_output obj =
    bind_res (required_string obj ''artifact_id'') (\<lambda>artifact_id.
    bind_res (parse_stream obj) (\<lambda>stream.
    bind_res (parse_offset obj) (\<lambda>offset.
    bind_res (parse_length obj process_output_page_max_bytes process_output_page_default_bytes) (\<lambda>len.
    Inr (ReadProcessOutput artifact_id stream offset len)))))"

definition parse_git_log :: "fields \<Rightarrow> coding_tool_action res" where
  "parse_git_log obj = bind_res (parse_optional_bounded_u32 obj ''limit'' 1 git_log_max_limit)
    (\<lambda>limit. Inr (GitLog (optional_path obj) limit))"

definition parse_task_update :: "fields \<Rightarrow> coding_tool_action res" where
  "parse_task_update obj = bind_res (required_string obj ''note'') (\<lambda>note. Inr (TaskUpdate note))"

definition parse_action :: "parsers \<Rightarrow> string \<Rightarrow> fields \<Rightarrow> coding_tool_action res" where
  "parse_action ps name obj =
    (if name = ''read_file'' then parse_read_file obj
     else if name = ''list_files'' then parse_list_files obj
     else if name = ''search_text'' then parse_search_text obj
     else if name = ''apply_patch'' then parse_apply_patch obj
     else if name = ''write_file'' then parse_write_file obj
     else if name = ''edit_file'' then parse_edit_file ps obj
     else if name = ''glob'' then parse_glob obj
     else if name = ''find_files'' then parse_find_files obj
     else if name = ''run_process'' then parse_run_process obj
     else if name = ''run_shell'' then parse_run_shell obj
     else if name = ''history_search'' then parse_history_search ps obj
     else if name = ''history_read'' then parse_history_read obj
     else if name = ''git_status'' then Inr GitStatus
     else if name = ''read_process_output'' then parse_read_process_output obj
     else if name = ''git_diff'' then Inr (GitDiff (optional_path obj))
     else if name = ''git_log'' then parse_git_log obj
     else if name = ''task_update'' then parse_task_update obj
     else Inl PolicyDenied)"

section \<open>A provider call\<close>

definition field_table :: "(string \<times> string list) list" where
  "field_table = [
    (''read_file'', [''path'', ''paths'', ''offset'', ''limit'']),
    (''list_files'', [''path'', ''preview'']),
    (''git_diff'', [''path'']),
    (''search_text'', [''query'', ''path'', ''regex'', ''case_insensitive'', ''glob'',
      ''context_lines'', ''any_of'']),
    (''apply_patch'', [''path'', ''expected_hash'', ''replacement'']),
    (''write_file'', [''path'', ''content'', ''expected_hash'']),
    (''edit_file'', [''path'', ''old_string'', ''new_string'', ''replace_all'', ''edits'']),
    (''glob'', [''pattern'', ''path'']),
    (''find_files'', [''query'', ''path'', ''limit'']),
    (''run_process'', [''executable'', ''args'', ''timeout_ms'', ''isolation'', ''env'']),
    (''run_shell'', [''command'', ''timeout_ms'', ''isolation'', ''env'']),
    (''git_status'', []),
    (''read_process_output'', [''artifact_id'', ''stream'', ''offset'', ''length'']),
    (''history_search'', [''query'', ''limit'', ''scope'', ''since'', ''until'', ''kind'',
      ''order'', ''mode'', ''slots'']),
    (''history_read'', [''source_id'', ''offset'', ''length'', ''scope'']),
    (''git_log'', [''path'', ''limit'']),
    (''task_update'', [''note''])]"

definition allowed_fields :: "string \<Rightarrow> string list option" where
  "allowed_fields name = map_of field_table name"

text \<open>\<^verbatim>\<open>is_some_and(|value| !value.is_null() && !value.is_string())\<close>.\<close>

definition not_text :: "fields \<Rightarrow> string \<Rightarrow> bool" where
  "not_text obj key = (case given obj key of None \<Rightarrow> False | Some v \<Rightarrow> as_str v = None)"

definition from_provider_call :: "parsers \<Rightarrow> string \<Rightarrow> string \<Rightarrow> coding_tool_action res" where
  "from_provider_call ps name arguments =
    bind_res (ok_or ProviderProtocol (ps_json ps arguments)) (\<lambda>v.
    bind_res (ok_or InvalidPayload (as_object v)) (\<lambda>obj.
    bind_res (ok_or PolicyDenied (allowed_fields name)) (\<lambda>allowed.
    if \<exists>key \<in> set (map fst obj). key \<notin> set allowed then Inl InvalidPayload
    else if name \<in> {''list_files'', ''search_text'', ''glob'', ''find_files'', ''git_diff'', ''git_log''}
        \<and> not_text obj ''path'' then Inl InvalidPayload
    else if name = ''search_text'' \<and> not_text obj ''glob'' then Inl InvalidPayload
    else if name = ''write_file'' \<and> not_text obj ''expected_hash'' then Inl InvalidPayload
    else parse_action ps name obj)))"

section \<open>Environment references: what is accepted\<close>

lemma ok_or_cases: "ok_or e v = (if v = None then Inl e else Inr (the v))"
  by (cases v) (simp_all add: ok_or_def)

lemma env_validate_code: "env_validate b = Inr () \<or> env_validate b = Inl EnvironmentDenied"
  by (simp add: env_validate_def split: option.splits)

lemma check_bindings_code:
  "check_bindings before bs = Inr () \<or> check_bindings before bs = Inl EnvironmentDenied"
proof (induction bs arbitrary: before)
  case (Cons b bs)
  show ?case
    using env_validate_code [of b] Cons.IH [of "Some (eb_name b)"] by (elim disjE) simp_all
qed simp

lemma check_bindings_sorted:
  assumes "sorted (map eb_name bs)" and "\<And>n b. p = Some n \<Longrightarrow> b \<in> set bs \<Longrightarrow> n \<le> eb_name b"
  shows "check_bindings p bs = Inr () \<longleftrightarrow> (\<forall>b \<in> set bs. env_validate b = Inr ()) \<and>
    distinct (map eb_name bs) \<and> (\<forall>b \<in> set bs. p \<noteq> Some (eb_name b))"
  using assms
proof (induction bs arbitrary: p)
  case (Cons b bs)
  have step: "check_bindings (Some (eb_name b)) bs = Inr () \<longleftrightarrow>
      (\<forall>c \<in> set bs. env_validate c = Inr ()) \<and> distinct (map eb_name bs) \<and>
      (\<forall>c \<in> set bs. eb_name b \<noteq> eb_name c)"
    using Cons.IH [of "Some (eb_name b)"] Cons.prems(1) by auto
  have later: "p \<noteq> Some (eb_name c)" if "c \<in> set bs" "p \<noteq> Some (eb_name b)" for c
    using Cons.prems that by (cases p) (auto dest: order_antisym)
  show ?case using step later env_validate_code [of b] by auto
qed simp

definition env_accepted :: "env_binding list \<Rightarrow> bool" where
  "env_accepted bs \<longleftrightarrow> length bs \<le> max_env_bindings \<and> distinct (map eb_name bs) \<and>
    (\<forall>b \<in> set bs. env_validate b = Inr ())"

lemma sort_key_names: "sorted (map eb_name (sort_key eb_name bs))"
  by simp

lemma distinct_sort_names:
  "distinct (map eb_name (sort_key eb_name bs)) \<longleftrightarrow> distinct (map eb_name bs)"
  by (metis mset_map mset_sort mset_eq_imp_distinct_iff)

lemma normalize_eq:
  "normalize_env_bindings bs =
    (if env_accepted bs then Inr (sort_key eb_name bs) else Inl EnvironmentDenied)"
proof -
  have "check_bindings None (sort_key eb_name bs) = Inr () \<longleftrightarrow>
      (\<forall>b \<in> set bs. env_validate b = Inr ()) \<and> distinct (map eb_name bs)"
    using check_bindings_sorted [of "sort_key eb_name bs" None] by (simp add: distinct_sort_names)
  then show ?thesis
    using check_bindings_code [of None "sort_key eb_name bs"]
    by (auto simp: normalize_env_bindings_def env_accepted_def)
qed

lemma normalize_Inr: "normalize_env_bindings bs = Inr ns \<Longrightarrow> env_accepted ns \<and> sorted (map eb_name ns)"
  by (auto simp: normalize_eq env_accepted_def distinct_sort_names split: if_splits)

lemma env_accepted_mset: "mset bs = mset cs \<Longrightarrow> env_accepted bs \<longleftrightarrow> env_accepted cs"
  unfolding env_accepted_def
  by (metis mset_eq_length mset_eq_setD mset_map mset_eq_imp_distinct_iff)

lemma filter_same_name:
  assumes "distinct (map eb_name xs)" and "k \<in> set xs"
  shows "filter (\<lambda>x. eb_name k = eb_name x) xs = [k]"
  using assms
proof (induction xs)
  case (Cons x xs)
  show ?case
  proof (cases "x = k")
    case True
    then have "filter (\<lambda>x. eb_name k = eb_name x) xs = []"
      using Cons.prems by (auto simp: filter_empty_conv)
    with True show ?thesis by simp
  next
    case False
    with Cons.prems have "k \<in> set xs" "eb_name k \<noteq> eb_name x" by (auto simp: image_iff)
    with Cons show ?thesis by simp
  qed
qed simp

lemma sort_key_mset:
  assumes "mset bs = mset cs" and "distinct (map eb_name bs)"
  shows "sort_key eb_name bs = sort_key eb_name cs"
proof (rule properties_for_sort_key [symmetric])
  show "mset (sort_key eb_name bs) = mset cs" using assms(1) by simp
  show "sorted (map eb_name (sort_key eb_name bs))" by simp
next
  fix k
  assume k: "k \<in> set (sort_key eb_name bs)"
  have "distinct (map eb_name cs)" using assms by (metis mset_map mset_eq_imp_distinct_iff)
  moreover have "k \<in> set cs" using k mset_eq_setD [OF assms(1)] by simp
  ultimately show "filter (\<lambda>x. eb_name k = eb_name x) (sort_key eb_name bs) =
      filter (\<lambda>x. eb_name k = eb_name x) cs"
    using k assms(2) by (simp add: filter_same_name distinct_sort_names)
qed

lemma normalize_mset:
  assumes "mset bs = mset cs"
  shows "normalize_env_bindings bs = normalize_env_bindings cs"
  using assms env_accepted_mset [OF assms] sort_key_mset [OF assms]
  by (auto simp: normalize_eq env_accepted_def)

lemma collect_res_Inr:
  "collect_res rs = Inr ys \<longleftrightarrow> rs = map Inr ys"
proof (induction rs arbitrary: ys)
  case (Cons r rs)
  show ?case
  proof (cases r)
    case (Inr x)
    then have "collect_res (r # rs) = Inr ys \<longleftrightarrow> (\<exists>zs. collect_res rs = Inr zs \<and> ys = x # zs)"
      by (simp split: sum.split) blast
    also have "\<dots> \<longleftrightarrow> r # rs = map Inr ys"
      using Inr Cons.IH by (cases ys) auto
    finally show ?thesis .
  qed (cases ys; simp)
qed (simp add: eq_commute)

lemma collect_res_Inl: "collect_res rs = Inl e \<Longrightarrow> Inl e \<in> set rs"
proof (induction rs)
  case (Cons r rs)
  then show ?case by (cases r) (auto split: sum.splits)
qed simp

lemma collect_res_mset:
  assumes "mset rs = mset ts" and "\<And>e. Inl e \<in> set rs \<Longrightarrow> e = c"
  shows "(\<exists>xs ys. collect_res rs = Inr xs \<and> collect_res ts = Inr ys \<and> mset xs = mset ys) \<or>
    collect_res rs = Inl c \<and> collect_res ts = Inl c"
proof (cases "collect_res rs")
  case (Inl e)
  with assms(2) have e: "e = c" "Inl c \<in> set rs" by (auto dest: collect_res_Inl)
  then have "Inl c \<in> set ts" using assms(1) by (metis mset_eq_setD)
  then have "collect_res ts \<noteq> Inr ys" for ys by (auto simp: collect_res_Inr)
  then obtain d where d: "collect_res ts = Inl d" by (cases "collect_res ts") auto
  then have "d = c" using assms by (metis collect_res_Inl mset_eq_setD)
  with Inl e d show ?thesis by simp
next
  case (Inr xs)
  then have rs: "rs = map Inr xs" by (simp add: collect_res_Inr)
  then have "set ts = Inr ` set xs"
    using mset_eq_setD [OF assms(1)] by simp
  then have "\<forall>t \<in> set ts. \<exists>y. t = Inr y" by auto
  then have ts: "ts = map Inr (map projr ts)" by (induction ts) auto
  then have c: "collect_res ts = Inr (map projr ts)" using collect_res_Inr by blast
  have "mset (map projr ts) = image_mset projr (mset rs)" using assms(1) by simp
  also have "\<dots> = mset xs" by (simp add: rs image_mset.compositionality comp_def)
  finally show ?thesis using Inr c by auto
qed

lemma env_binding_of_code: "env_binding_of e = Inl c \<Longrightarrow> c = EnvironmentDenied"
  by (simp add: env_binding_of_def bind_res_def ok_or_cases split: if_splits)

lemma parse_env_Inr:
  "parse_env_bindings v = Inr env \<Longrightarrow> env_accepted env \<and> sorted (map eb_name env)"
  by (auto simp: parse_env_bindings_def bind_res_Inr env_accepted_def max_env_bindings_def
      dest: normalize_Inr split: option.splits if_splits)

lemma env_validate_reference:
  assumes "env_validate b = Inr ()"
  shows "starts_with env_reference_prefix (eb_reference b)"
  using assms by (auto simp: env_validate_def strip_prefix_def split: if_splits option.splits)

section \<open>What a parsed call can ask for\<close>

text \<open>The bounds every reader and search of the crate relies on.\<close>

definition within :: "nat \<Rightarrow> nat \<Rightarrow> nat option \<Rightarrow> bool" where
  "within lo hi v \<longleftrightarrow> (case v of None \<Rightarrow> True | Some n \<Rightarrow> lo \<le> n \<and> n \<le> hi)"

definition path_given :: "string option \<Rightarrow> bool" where
  "path_given p \<longleftrightarrow> (case p of None \<Rightarrow> True | Some path \<Rightarrow> \<not> blank path)"

fun action_bounded :: "coding_tool_action \<Rightarrow> bool" where
  "action_bounded (ReadFile path offset limit tail) \<longleftrightarrow>
    within 0 u64_max offset \<and> within 1 500 limit \<and> within 1 (2 ^ 63) tail \<and> (tail = None \<or> offset = None)"
| "action_bounded (ListFiles path preview) \<longleftrightarrow> path_given path \<and> within 1 30 preview"
| "action_bounded (SearchText query path regex insensitive pattern lines any_of) \<longleftrightarrow>
    path_given path \<and> within 0 3 lines \<and> length any_of \<le> 16 \<and> [] \<notin> set any_of"
| "action_bounded (ApplyPatch path hash replacement) \<longleftrightarrow> hash_parse hash = Inr hash"
| "action_bounded (WriteFile path content hash) \<longleftrightarrow>
    (case hash of None \<Rightarrow> True | Some h \<Rightarrow> hash_parse h = Inr h)"
| "action_bounded (EditFile path old new all edits) \<longleftrightarrow> length edits \<le> 50 \<and>
    (\<forall>e \<in> set edits. es_old_string e \<noteq> [] \<or> es_start e \<noteq> None)"
| "action_bounded (GlobFiles pattern path) \<longleftrightarrow> path_given path"
| "action_bounded (FindFiles query path limit) \<longleftrightarrow> path_given path \<and> within 1 200 limit"
| "action_bounded (RunProcess executable args timeout isolation env) \<longleftrightarrow>
    timeout \<le> u64_max \<and> env_accepted env \<and> sorted (map eb_name env)"
| "action_bounded (RunShell command timeout isolation env) \<longleftrightarrow>
    timeout \<le> u64_max \<and> env_accepted env \<and> sorted (map eb_name env)"
| "action_bounded (ReadProcessOutput artifact stream offset len) \<longleftrightarrow>
    offset \<le> u64_max \<and> 1 \<le> len \<and> len \<le> 65536"
| "action_bounded (HistorySearch query limit project hf) \<longleftrightarrow>
    \<not> blank query \<and> within 1 50 limit \<and> within 1 16 (hf_readout hf)"
| "action_bounded (HistoryRead source offset len project) \<longleftrightarrow>
    \<not> blank source \<and> offset \<le> u64_max \<and> 1 \<le> len \<and> len \<le> 65536"
| "action_bounded GitStatus \<longleftrightarrow> True"
| "action_bounded (GitDiff path) \<longleftrightarrow> path_given path"
| "action_bounded (GitLog path limit) \<longleftrightarrow> path_given path \<and> within 1 100 limit"
| "action_bounded (TaskUpdate note) \<longleftrightarrow> True"
| "action_bounded (ExternalTool plugin tool arguments parent timeout) \<longleftrightarrow> False"

lemma ws_len_take: "ws_len (take n s) \<noteq> 0 \<Longrightarrow> ws_len s \<noteq> 0"
proof -
  assume a: "ws_len (take n s) \<noteq> 0"
  then obtain c r m where s: "s = c # r" "n = Suc m"
    by (cases s; cases n) auto
  show ?thesis
  proof (cases r)
    case Nil with a s show ?thesis by simp
  next
    case (Cons d r')
    show ?thesis
    proof (cases m)
      case 0 with a s show ?thesis by (auto split: if_splits)
    next
      case (Suc k)
      show ?thesis
      proof (cases r')
        case Nil with a s Cons Suc show ?thesis by simp
      next
        case (Cons e r'')
        with a s \<open>r = d # r'\<close> Suc show ?thesis by (cases k) (auto split: if_splits)
      qed
    qed
  qed
qed

lemma ws_len_trim_start: "ws_len (trim_start s) = 0"
proof (induction s rule: trim_start.induct)
  case (1 s)
  then show ?case by (subst trim_start.simps) simp
qed

lemma trim_end_rev_drop: "\<exists>n. trim_end_rev s = drop n s"
proof (induction s rule: trim_end_rev.induct)
  case (1 s)
  show ?case
  proof (cases "ws_len_end s = 0")
    case True
    then show ?thesis by (subst trim_end_rev.simps) (auto intro: exI [of _ 0])
  next
    case False
    with 1 obtain n where "trim_end_rev (drop (ws_len_end s) s) = drop n (drop (ws_len_end s) s)" by blast
    with False show ?thesis by (subst trim_end_rev.simps) (auto simp: drop_drop)
  qed
qed

text \<open>What \<^verbatim>\<open>trim\<close> leaves is either nothing or not blank.\<close>

lemma trim_not_blank: "trim s \<noteq> [] \<Longrightarrow> \<not> blank (trim s)"
proof -
  assume ne: "trim s \<noteq> []"
  obtain n where "trim_end_rev (rev (trim_start s)) = drop n (rev (trim_start s))"
    using trim_end_rev_drop by blast
  then have "trim s = take (length (trim_start s) - n) (trim_start s)"
    by (simp add: trim_def rev_drop)
  with ws_len_trim_start have "ws_len (trim s) = 0" by (metis ws_len_take)
  with ne show ?thesis by (rule not_blank_nonspace)
qed

lemma optional_path_given: "path_given (optional_path obj)"
  by (simp add: optional_path_def path_given_def trim_not_blank split: option.splits)

lemma bounded_u32_Inr: "bounded_u32 lo hi v = Inr n \<Longrightarrow> lo \<le> n \<and> n \<le> hi \<and> n \<le> u32_max"
  by (simp add: bounded_u32_def split: option.splits if_splits)

lemma parse_bounded_within: "parse_optional_bounded_u32 obj key lo hi = Inr v \<Longrightarrow> within lo hi v"
  by (auto simp: parse_optional_bounded_u32_def within_def bind_res_Inr split: option.splits
      dest: bounded_u32_Inr)

lemma within_capped:
  assumes "within lo hi v" and "lo \<le> cap"
  shows "within lo cap (map_option (min cap) v)"
  using assms by (cases v) (simp_all add: within_def)

lemma as_u64_bound: "as_u64 v = Some n \<Longrightarrow> n \<le> u64_max"
  by (cases v) (simp_all split: if_splits)

lemma parse_u64_within: "parse_optional_u64 obj key = Inr v \<Longrightarrow> within 0 u64_max v"
  by (auto simp: parse_optional_u64_def within_def bind_res_Inr split: option.splits dest: as_u64_bound)

lemma as_i64_bound: "as_i64 v = Some n \<Longrightarrow> - n \<le> 2 ^ 63"
  by (cases v) (auto simp: i64_max_def split: if_splits list.splits)

lemma negative_offset_within: "within 1 (2 ^ 63) (negative_offset obj)"
proof (cases "Option.bind (map_of obj ''offset'') as_i64")
  case None
  then show ?thesis by (simp add: negative_offset_def within_def)
next
  case (Some n)
  then obtain v where "as_i64 v = Some n" by (cases "map_of obj ''offset''") auto
  then have "nat (- n) \<le> 2 ^ 63" using as_i64_bound by fastforce
  then show ?thesis using Some by (auto simp: negative_offset_def within_def Suc_le_eq)
qed

lemma any_of_items_within: "any_of_items vs = Inr ts \<Longrightarrow> length ts \<le> length vs \<and> [] \<notin> set ts"
proof (induction vs arbitrary: ts)
  case (Cons v vs)
  then obtain t rest where "any_of_items vs = Inr rest" "ts = (if t = [] then rest else t # rest)"
    by (auto simp: bind_res_Inr)
  with Cons.IH [of rest] show ?case by auto
qed simp

lemma parse_any_of_within: "parse_any_of obj = Inr ts \<Longrightarrow> length ts \<le> 16 \<and> [] \<notin> set ts"
  by (fastforce simp: parse_any_of_def search_any_of_max_def bind_res_Inr split: option.splits if_splits
      dest: any_of_items_within)

lemma parse_edits_within:
  assumes "parse_edits ps obj = Inr edits"
  shows "length edits \<le> 50 \<and> (\<forall>e \<in> set edits. es_old_string e \<noteq> [] \<or> es_start e \<noteq> None)"
proof (cases "given obj ''edits''")
  case None
  with assms show ?thesis by (simp add: parse_edits_def)
next
  case (Some v)
  with assms obtain items where "length items \<le> 50" and c: "collect_res (map edit_item items) = Inr edits"
    by (auto simp: parse_edits_def bind_res_Inr edit_file_max_edits_def not_less split: if_splits)
  moreover from c have m: "map edit_item items = map Inr edits" by (simp add: collect_res_Inr)
  then have "length items = length edits" by (metis length_map)
  moreover have "es_old_string e \<noteq> [] \<or> es_start e \<noteq> None" if "e \<in> set edits" for e
  proof -
    from that m have "Inr e \<in> edit_item ` set items"
      by (metis image_eqI image_set)
    then obtain x where "edit_item x = Inr e" by (metis imageE)
    then show ?thesis by (auto simp: edit_item_def bind_res_Inr split: if_splits)
  qed
  ultimately show ?thesis by simp
qed

lemma hash_parse_same: "hash_parse t = Inr h \<Longrightarrow> h = t"
  by (simp add: hash_parse_def split: option.splits if_split_asm)

lemma hash_parse_Inr: "hash_parse t = Inr h \<Longrightarrow> hash_parse h = Inr h"
  using hash_parse_same by fastforce

lemma parse_length_within:
  assumes "parse_length obj hi d = Inr n" and "1 \<le> d" "d \<le> hi"
  shows "1 \<le> n \<and> n \<le> hi"
proof -
  from assms obtain v where v: "parse_optional_bounded_u32 obj ''length'' 1 hi = Inr v"
    and n: "n = (case v of None \<Rightarrow> d | Some m \<Rightarrow> m)"
    by (auto simp: parse_length_def bind_res_Inr)
  show ?thesis using parse_bounded_within [OF v] n assms by (cases v) (simp_all add: within_def)
qed

lemma parse_offset_within:
  assumes "parse_offset obj = Inr n"
  shows "n \<le> u64_max"
proof -
  from assms obtain v where v: "parse_optional_u64 obj ''offset'' = Inr v"
    and n: "n = (case v of None \<Rightarrow> 0 | Some m \<Rightarrow> m)"
    by (auto simp: parse_offset_def bind_res_Inr)
  show ?thesis using parse_u64_within [OF v] n by (cases v) (simp_all add: within_def)
qed

lemma parse_filter_within:
  assumes "parse_history_filter ps obj = Inr hf"
  shows "within 1 16 (hf_readout hf)"
proof -
  from assms obtain slots where "parse_optional_bounded_u32 obj ''slots'' 1 16 = Inr slots"
    and "parse_readout obj slots = Inr (hf_readout hf)"
    by (auto simp: parse_history_filter_def bind_res_Inr)
  then show ?thesis
    by (auto simp: parse_readout_def within_def split: option.splits if_splits dest!: parse_bounded_within)
qed

lemma parse_timeout_within: "parse_timeout obj = Inr n \<Longrightarrow> n \<le> u64_max"
  by (auto simp: parse_timeout_def as_u64_bound bind_eq_Some_conv)

lemmas arm_bounds = optional_path_given parse_u64_within negative_offset_within
  parse_any_of_within parse_edits_within hash_parse_Inr parse_offset_within parse_filter_within
  parse_timeout_within parse_env_Inr

lemma parse_preview_within: "parse_preview obj = Inr v \<Longrightarrow> within 1 30 v"
  by (auto simp: parse_preview_def bind_res_Inr list_preview_default_lines_def
      list_preview_max_lines_def within_def split: if_split_asm option.splits)

lemma parse_read_file_bounded:
  assumes "parse_read_file obj = Inr a"
  shows "action_bounded a \<and> action_kind a = KindReadFile"
proof -
  from assms obtain path offset limit where o: "(if negative_offset obj \<noteq> None then Inr None
      else parse_optional_u64 obj ''offset'') = Inr offset"
    and l: "parse_optional_bounded_u32 obj ''limit'' 1 u32_max = Inr limit"
    and a: "a = ReadFile path offset (map_option (min 500) limit) (negative_offset obj)"
    by (auto simp: parse_read_file_def Let_def bind_res_Inr read_file_max_lines_def)
  have "within 0 u64_max offset \<and> (negative_offset obj = None \<or> offset = None)"
  proof (cases "negative_offset obj = None")
    case True
    with o have "parse_optional_u64 obj ''offset'' = Inr offset" by simp
    with True show ?thesis using parse_u64_within by blast
  next
    case False
    with o show ?thesis by (simp add: within_def)
  qed
  then show ?thesis
    using a within_capped [OF parse_bounded_within [OF l], of 500] negative_offset_within [of obj] by simp
qed

lemma parse_list_files_bounded:
  "parse_list_files obj = Inr a \<Longrightarrow> action_bounded a \<and> action_kind a = KindListFiles"
  using parse_preview_within by (auto simp: parse_list_files_def bind_res_Inr optional_path_given)

lemma parse_search_text_bounded:
  assumes "parse_search_text obj = Inr a"
  shows "action_bounded a \<and> action_kind a = KindSearchText"
proof -
  from assms obtain query regex insensitive pattern lines any_of
    where l: "parse_optional_bounded_u32 obj ''context_lines'' 0 u32_max = Inr lines"
      and "parse_any_of obj = Inr any_of"
      and "a = SearchText query (optional_path obj) regex insensitive pattern
        (map_option (min 3) lines) any_of"
    by (auto simp: parse_search_text_def bind_res_Inr search_context_max_lines_def)
  with within_capped [OF parse_bounded_within [OF l], of 3] show ?thesis
    using parse_any_of_within [of obj any_of] by (simp add: optional_path_given)
qed

lemma parse_apply_patch_bounded:
  assumes "parse_apply_patch obj = Inr a"
  shows "action_bounded a \<and> action_kind a = KindApplyPatch"
proof -
  from assms obtain path t hash replacement where "hash_parse t = Inr hash"
    and "a = ApplyPatch path hash replacement"
    by (auto simp: parse_apply_patch_def bind_res_Inr)
  then show ?thesis by (simp add: hash_parse_Inr)
qed

lemma parse_write_file_bounded:
  assumes "parse_write_file obj = Inr a"
  shows "action_bounded a \<and> action_kind a = KindWriteFile"
proof -
  from assms obtain path content expected hash where
      "(case expected of None \<Rightarrow> Inr None
        | Some t \<Rightarrow> bind_res (hash_parse t) (\<lambda>h. Inr (Some h))) = Inr hash"
    and "a = WriteFile path content hash"
    by (auto simp: parse_write_file_def bind_res_Inr)
  then show ?thesis by (cases expected) (auto simp: bind_res_Inr hash_parse_Inr)
qed

lemma parse_edit_file_bounded:
  assumes "parse_edit_file ps obj = Inr a"
  shows "action_bounded a \<and> action_kind a = KindEditFile"
proof -
  from assms obtain path old new all edits where "parse_edits ps obj = Inr edits"
    and "a = EditFile path old new all edits"
    by (auto simp: parse_edit_file_def bind_res_Inr)
  then show ?thesis using parse_edits_within by simp
qed

lemma parse_glob_bounded: "parse_glob obj = Inr a \<Longrightarrow> action_bounded a \<and> action_kind a = KindGlob"
  by (auto simp: parse_glob_def bind_res_Inr optional_path_given)

lemma parse_find_files_bounded:
  assumes "parse_find_files obj = Inr a"
  shows "action_bounded a \<and> action_kind a = KindFindFiles"
proof -
  from assms obtain query limit where b: "parse_optional_bounded_u32 obj ''limit'' 1 u32_max = Inr limit"
    and a: "a = FindFiles query (optional_path obj) (map_option (min 200) limit)"
    by (auto simp: parse_find_files_def bind_res_Inr find_max_limit_def)
  show ?thesis using within_capped [OF parse_bounded_within [OF b], of 200] a
    by (simp add: optional_path_given)
qed

lemma parse_run_process_bounded:
  "parse_run_process obj = Inr a \<Longrightarrow> action_bounded a \<and> action_kind a = KindRunProcess"
  by (auto simp: parse_run_process_def bind_res_Inr dest!: parse_timeout_within parse_env_Inr)

lemma parse_run_shell_bounded:
  "parse_run_shell obj = Inr a \<Longrightarrow> action_bounded a \<and> action_kind a = KindRunShell"
  by (auto simp: parse_run_shell_def bind_res_Inr dest!: parse_timeout_within parse_env_Inr)

lemma parse_history_search_bounded:
  assumes "parse_history_search ps obj = Inr a"
  shows "action_bounded a \<and> action_kind a = KindHistorySearch"
proof -
  from assms obtain query limit project hf where "\<not> blank query"
    and "parse_optional_bounded_u32 obj ''limit'' 1 50 = Inr limit"
    and "parse_history_filter ps obj = Inr hf" and "a = HistorySearch query limit project hf"
    by (auto simp: parse_history_search_def bind_res_Inr history_search_max_limit_def split: if_splits)
  then show ?thesis using parse_bounded_within parse_filter_within by simp
qed

lemma parse_history_read_bounded:
  assumes "parse_history_read obj = Inr a"
  shows "action_bounded a \<and> action_kind a = KindHistoryRead"
proof -
  from assms obtain source offset len project where "\<not> blank source"
    and "parse_offset obj = Inr offset" and l: "parse_length obj 65536 16384 = Inr len"
    and "a = HistoryRead source offset len project"
    by (auto simp: parse_history_read_def bind_res_Inr history_read_max_bytes_def
        history_read_default_bytes_def split: if_splits)
  with parse_length_within [OF l] show ?thesis by (simp add: parse_offset_within)
qed

lemma parse_read_process_output_bounded:
  assumes "parse_read_process_output obj = Inr a"
  shows "action_bounded a \<and> action_kind a = KindReadProcessOutput"
proof -
  from assms obtain artifact stream offset len where "parse_offset obj = Inr offset"
    and l: "parse_length obj 65536 16384 = Inr len" and "a = ReadProcessOutput artifact stream offset len"
    by (auto simp: parse_read_process_output_def bind_res_Inr process_output_page_max_bytes_def
        process_output_page_default_bytes_def)
  with parse_length_within [OF l] show ?thesis by (simp add: parse_offset_within)
qed

lemma parse_git_log_bounded: "parse_git_log obj = Inr a \<Longrightarrow> action_bounded a \<and> action_kind a = KindGitLog"
  by (auto simp: parse_git_log_def bind_res_Inr git_log_max_limit_def optional_path_given
      dest!: parse_bounded_within)

lemmas arms_bounded = parse_read_file_bounded parse_list_files_bounded parse_search_text_bounded
  parse_apply_patch_bounded parse_write_file_bounded parse_edit_file_bounded parse_glob_bounded
  parse_find_files_bounded parse_run_process_bounded parse_run_shell_bounded
  parse_history_search_bounded parse_history_read_bounded parse_read_process_output_bounded
  parse_git_log_bounded

lemma parse_action_bounded:
  assumes "parse_action ps name obj = Inr a"
  shows "action_bounded a \<and> tool_kind_str (action_kind a) = name"
  using assms unfolding parse_action_def
  by (auto split: if_split_asm simp: parse_task_update_def bind_res_Inr optional_path_given
      dest!: arms_bounded)

text \<open>
  C25. Every typed action that a provider call parses to is of the kind the call named and is
  within the bounds the readers, searches and processes rely on.
\<close>

theorem parsed_call_bounded:
  assumes "from_provider_call ps name arguments = Inr a"
  shows "tool_kind_str (action_kind a) = name \<and> action_bounded a"
proof -
  from assms obtain obj where "parse_action ps name obj = Inr a"
    by (auto simp: from_provider_call_def bind_res_Inr split: if_splits)
  then show ?thesis using parse_action_bounded by blast
qed

text \<open>
  A call with an environment and the action it becomes: the variables come sorted by name.
\<close>

definition sample_shell :: fields where
  "sample_shell = [(''command'', JStr ''make''), (''timeout_ms'', JNum ''90000''),
    (''env'', JObj [(''PATH_B'', JStr ''secret://B''), (''A'', JStr ''secret://TOKEN'')])]"

definition sample_parsers :: parsers where
  "sample_parsers = \<lparr>ps_json = \<lambda>_. Some (JObj sample_shell), ps_rfc3339 = \<lambda>_. None,
    ps_date = \<lambda>_. None\<rparr>"

definition sample_action :: coding_tool_action where
  "sample_action = RunShell ''make'' 90000 IsoBestEffort
    [\<lparr>eb_name = ''A'', eb_reference = ''secret://TOKEN''\<rparr>,
     \<lparr>eb_name = ''PATH_B'', eb_reference = ''secret://B''\<rparr>]"

definition sample_env :: "env_binding list" where
  "sample_env = [\<lparr>eb_name = ''A'', eb_reference = ''secret://TOKEN''\<rparr>,
     \<lparr>eb_name = ''PATH_B'', eb_reference = ''secret://B''\<rparr>]"

lemma sample_env_parsed: "parse_env_bindings (map_of sample_shell ''env'') = Inr sample_env"
proof -
  have "case parse_env_bindings (map_of sample_shell ''env'') of
      Inl _ \<Rightarrow> False | Inr a \<Rightarrow> a = sample_env"
    by code_simp
  then show ?thesis by (simp split: sum.splits)
qed

lemma sample_timeout: "parse_timeout sample_shell = Inr 90000"
  by (simp add: parse_timeout_def sample_shell_def digits_def ascii_digit_def decimal_value_def byte_def
      u64_max_def)

lemma sample_shell_parsed: "parse_run_shell sample_shell = Inr sample_action"
  by (simp add: parse_run_shell_def sample_timeout sample_env_parsed sample_action_def)
    (simp add: sample_shell_def sample_env_def required_string_def parse_isolation_def ok_or_def)

lemma sample_fields: "allowed_fields ''run_shell'' = Some [''command'', ''timeout_ms'', ''isolation'', ''env'']"
  by (simp add: allowed_fields_def field_table_def)

lemma sample_call: "from_provider_call sample_parsers ''run_shell'' [] = Inr sample_action"
proof -
  have "from_provider_call sample_parsers ''run_shell'' [] = parse_action sample_parsers ''run_shell'' sample_shell"
    by (simp add: from_provider_call_def sample_parsers_def ok_or_def sample_fields)
      (simp add: sample_shell_def)
  also have "\<dots> = Inr sample_action"
    by (simp add: parse_action_def sample_shell_parsed)
  finally show ?thesis .
qed

theorem parsed_call_bounded_witness:
  "tool_kind_str (action_kind sample_action) = ''run_shell'' \<and> action_bounded sample_action"
  by (rule parsed_call_bounded [OF sample_call])

text \<open>
  The order in which the model writes the variables of a process does not matter: any two
  orders of the same entries give the same bindings, or the same refusal.
\<close>

theorem env_order_irrelevant:
  assumes "mset entries = mset entries'"
  shows "parse_env_bindings (Some (JObj entries)) = parse_env_bindings (Some (JObj entries'))"
proof -
  have len: "length entries = length entries'" using assms by (rule mset_eq_length)
  have "mset (map env_binding_of entries) = mset (map env_binding_of entries')" using assms by simp
  moreover have "e = EnvironmentDenied" if "Inl e \<in> set (map env_binding_of entries)" for e
  proof -
    from that obtain x where "Inl e = env_binding_of x" by auto
    from env_binding_of_code [OF this [symmetric]] show ?thesis .
  qed
  ultimately have "(\<exists>xs ys. collect_res (map env_binding_of entries) = Inr xs \<and>
        collect_res (map env_binding_of entries') = Inr ys \<and> mset xs = mset ys) \<or>
      collect_res (map env_binding_of entries) = Inl EnvironmentDenied \<and>
        collect_res (map env_binding_of entries') = Inl EnvironmentDenied"
    by (rule collect_res_mset) blast
  then show ?thesis
  proof (elim disjE exE conjE)
    fix xs ys
    assume "collect_res (map env_binding_of entries) = Inr xs"
      "collect_res (map env_binding_of entries') = Inr ys" and m: "mset xs = mset ys"
    then show ?thesis by (simp add: parse_env_bindings_def ok_or_def len normalize_mset [OF m])
  qed (simp add: parse_env_bindings_def ok_or_def len)
qed

theorem env_order_irrelevant_witness:
  "parse_env_bindings (Some (JObj [(''A'', JStr ''secret://X''), (''B'', JNull)])) =
   parse_env_bindings (Some (JObj [(''B'', JNull), (''A'', JStr ''secret://X'')]))"
  by (rule env_order_irrelevant) simp

text \<open>The tables of names agree: kinds, effect classes, accepted fields, advertised names.\<close>

definition built_in_kinds :: "tool_kind list" where
  "built_in_kinds = [KindReadFile, KindListFiles, KindSearchText, KindApplyPatch, KindWriteFile,
    KindEditFile, KindGlob, KindFindFiles, KindRunProcess, KindRunShell, KindReadProcessOutput,
    KindHistorySearch, KindHistoryRead, KindGitStatus, KindGitDiff, KindGitLog, KindTaskUpdate]"

lemma built_in_kinds: "k \<in> set built_in_kinds \<longleftrightarrow> k \<noteq> KindExternalTool"
  by (cases k) (simp_all add: built_in_kinds_def)

lemma tool_names: "set coding_tool_names = insert ''ask_user'' (set (map tool_kind_str built_in_kinds))"
proof -
  have "set coding_tool_names = set (''ask_user'' # map tool_kind_str built_in_kinds)" by code_simp
  then show ?thesis by simp
qed

lemma accepted_names: "allowed_fields name \<noteq> None \<longleftrightarrow> name \<in> set (map tool_kind_str built_in_kinds)"
proof -
  have "set (map fst field_table) = set (map tool_kind_str built_in_kinds)" by code_simp
  then show ?thesis by (metis allowed_fields_def map_of_eq_None_iff set_map)
qed

lemma read_only_effect:
  "k \<in> set built_in_kinds \<Longrightarrow> is_read_only k \<longleftrightarrow> effect_class_for (tool_kind_str k) = EffectReadOnly"
  by (cases k) (simp_all add: is_read_only_def effect_class_for_def)

end
