(* ===== verification/Tool_Policy.thy ===== *)
theory Tool_Policy imports Tool_Actions begin

text \<open>
  The tool policy (\<^verbatim>\<open>crates/harness-tools/src/security/policy.rs\<close>): path and pattern rules,
  the approval mode, the rules and the mode a user confirms while a turn runs, the decision on an
  action, and the transform that every action passes before it is prepared; with the policies of
  the host that are built from it (\<^verbatim>\<open>build_tool_policy\<close>, \<^verbatim>\<open>verifier_policy\<close>). The glob compiler of
  the \<^verbatim>\<open>globset\<close> crate is the argument \<open>glob\<close>: a pattern that compiles gives its matcher. The
  shared \<^verbatim>\<open>ToolPolicyRules\<close> handle is the value \<open>turn_state option\<close>, \<open>None\<close> when its lock is
  poisoned. The build is the one for Unix (paths keep their case).
\<close>

section \<open>Rules\<close>

datatype policy_effect = PolicyAllow | PolicyDeny

datatype policy_mode = ModeAsk | ModeAutoEdit | ModeFullAuto

definition parse_policy_mode :: "string \<Rightarrow> policy_mode res" where
  "parse_policy_mode v =
    (if v = ''ask'' then Inr ModeAsk
     else if v = ''auto-edit'' then Inr ModeAutoEdit
     else if v = ''full-auto'' then Inr ModeFullAuto
     else Inl ConfigParseError)"

record tool_pattern_rule =
  tr_pattern :: string
  tr_effect :: policy_effect
  tr_reason :: string

record policy_rule =
  pr_path_prefix :: string
  pr_effect :: policy_effect
  pr_reason :: string

type_synonym globber = "string \<Rightarrow> (string \<Rightarrow> bool) option"

fun has_space :: "string \<Rightarrow> bool" where
  "has_space [] \<longleftrightarrow> False"
| "has_space (c # s) \<longleftrightarrow> ws_len (c # s) \<noteq> 0 \<or> has_space s"

definition validate_tool_pattern :: "globber \<Rightarrow> string \<Rightarrow> unit res" where
  "validate_tool_pattern glob pattern = (let trimmed = trim pattern;
      name = takeWhile (\<lambda>c. c \<noteq> CHR ''('') trimmed in
    if CHR ''('' \<notin> set trimmed then Inl ConfigParseError
    else if last trimmed \<noteq> CHR '')'' \<or> name = [] \<or> has_space name then Inl ConfigParseError
    else if glob trimmed = None then Inl ConfigParseError
    else Inr ())"

section \<open>What a turn adds\<close>

record turn_state =
  ts_revision :: nat
  ts_rules :: "tool_pattern_rule list"
  ts_mode :: "policy_mode option"

type_synonym turn_rules = "turn_state option"

abbreviation next_revision :: "nat \<Rightarrow> nat" where
  "next_revision n \<equiv> saturating_add u64_max n 1"

definition new_turn_state :: turn_state where
  "new_turn_state = \<lparr>ts_revision = 0, ts_rules = [], ts_mode = None\<rparr>"

definition clear_to :: "policy_mode option \<Rightarrow> turn_rules \<Rightarrow> turn_rules" where
  "clear_to mode T = (case T of
      None \<Rightarrow> None
    | Some s \<Rightarrow> if ts_rules s \<noteq> [] \<or> ts_mode s \<noteq> mode
        then Some \<lparr>ts_revision = next_revision (ts_revision s), ts_rules = [], ts_mode = mode\<rparr>
        else Some s)"

definition add_rule :: "globber \<Rightarrow> tool_pattern_rule \<Rightarrow> turn_rules \<Rightarrow> unit res \<times> turn_rules" where
  "add_rule glob rule T = (case validate_tool_pattern glob (tr_pattern rule) of
      Inl e \<Rightarrow> (Inl e, T)
    | Inr _ \<Rightarrow> (case T of
        None \<Rightarrow> (Inl PolicyDenied, None)
      | Some s \<Rightarrow> (Inr (), Some (if rule \<in> set (ts_rules s) then s
          else s\<lparr>ts_revision := next_revision (ts_revision s), ts_rules := ts_rules s @ [rule]\<rparr>))))"

definition set_mode :: "policy_mode \<Rightarrow> turn_rules \<Rightarrow> turn_rules" where
  "set_mode mode T = (case T of
      None \<Rightarrow> None
    | Some s \<Rightarrow> if ts_mode s \<noteq> Some mode
        then Some (s\<lparr>ts_revision := next_revision (ts_revision s), ts_mode := Some mode\<rparr>)
        else Some s)"

section \<open>The policy\<close>

record tool_policy =
  tp_revision :: nat
  tp_rules :: "policy_rule list"
  tp_tool_rules :: "tool_pattern_rule list"
  tp_mode :: policy_mode
  tp_max_timeout :: nat
  tp_granted_secrets :: "string list"

definition default_policy :: tool_policy where
  "default_policy = \<lparr>tp_revision = 1, tp_rules = [], tp_tool_rules = [], tp_mode = ModeAsk,
    tp_max_timeout = 60000, tp_granted_secrets = []\<rparr>"

definition new_policy :: "nat \<Rightarrow> policy_rule list \<Rightarrow> tool_policy" where
  "new_policy revision rules = default_policy\<lparr>tp_revision := revision, tp_rules := rules\<rparr>"

definition with_mode :: "policy_mode \<Rightarrow> tool_policy \<Rightarrow> tool_policy" where
  "with_mode mode p = (if tp_mode p \<noteq> mode
    then p\<lparr>tp_revision := next_revision (tp_revision p), tp_mode := mode\<rparr> else p)"

definition with_tool_rules :: "tool_pattern_rule list \<Rightarrow> tool_policy \<Rightarrow> tool_policy" where
  "with_tool_rules rules p = (if rules = [] then p
    else p\<lparr>tp_revision := saturating_add u64_max (tp_revision p) (length rules),
      tp_tool_rules := tp_tool_rules p @ rules\<rparr>)"

definition with_granted_secrets :: "string list \<Rightarrow> tool_policy \<Rightarrow> tool_policy" where
  "with_granted_secrets secrets p = p\<lparr>tp_granted_secrets := secrets\<rparr>"

definition policy_mode_of :: "tool_policy \<Rightarrow> turn_rules \<Rightarrow> policy_mode" where
  "policy_mode_of p T = (case T of
      None \<Rightarrow> tp_mode p
    | Some s \<Rightarrow> (case ts_mode s of None \<Rightarrow> tp_mode p | Some m \<Rightarrow> m))"

definition tool_rules_of :: "tool_policy \<Rightarrow> turn_rules \<Rightarrow> tool_pattern_rule list" where
  "tool_rules_of p T = tp_tool_rules p @ (case T of None \<Rightarrow> [] | Some s \<Rightarrow> ts_rules s)"

definition policy_revision_of :: "tool_policy \<Rightarrow> turn_rules \<Rightarrow> nat" where
  "policy_revision_of p T = saturating_add u64_max (tp_revision p)
    (case T of None \<Rightarrow> u64_max | Some s \<Rightarrow> ts_revision s)"

definition allows_secret :: "tool_policy \<Rightarrow> string \<Rightarrow> bool" where
  "allows_secret p reference \<longleftrightarrow> reference \<in> set (tp_granted_secrets p)"

section \<open>What a rule matches\<close>

definition pattern_matches :: "globber \<Rightarrow> string \<Rightarrow> string \<Rightarrow> bool" where
  "pattern_matches glob pattern target \<longleftrightarrow> (case glob pattern of None \<Rightarrow> False | Some m \<Rightarrow> m target)"

text \<open>The cache of compiled patterns that \<^verbatim>\<open>pattern_matches\<close> keeps, in the order of insertion.\<close>

type_synonym glob_cache = "(string \<times> (string \<Rightarrow> bool) option) list"

definition max_cached_patterns :: nat where "max_cached_patterns = 1024"

definition cached_pattern_matches ::
    "globber \<Rightarrow> string \<Rightarrow> string \<Rightarrow> glob_cache \<Rightarrow> bool \<times> glob_cache" where
  "cached_pattern_matches glob pattern target cache =
    (let cache = (if length cache \<ge> max_cached_patterns \<and> map_of cache pattern = None then [] else cache)
     in case map_of cache pattern of
       Some compiled \<Rightarrow> ((case compiled of None \<Rightarrow> False | Some m \<Rightarrow> m target), cache)
     | None \<Rightarrow> ((case glob pattern of None \<Rightarrow> False | Some m \<Rightarrow> m target),
         cache @ [(pattern, glob pattern)]))"

fun split_parts :: "string \<Rightarrow> string \<Rightarrow> string list" where
  "split_parts acc [] = [rev acc]"
| "split_parts acc (c # s) =
    (if c = CHR ''/'' \<or> c = CHR 0x5C then rev acc # split_parts [] s else split_parts (c # acc) s)"

definition policy_components :: "string \<Rightarrow> string list" where
  "policy_components path = filter (\<lambda>part. part \<noteq> [] \<and> part \<noteq> ''.'') (split_parts [] path)"

definition rule_matches :: "string \<Rightarrow> string \<Rightarrow> bool" where
  "rule_matches prefix path \<longleftrightarrow>
    take (length (policy_components prefix)) (policy_components path) = policy_components prefix"

fun join_words :: "string list \<Rightarrow> string" where
  "join_words [] = []"
| "join_words [s] = s"
| "join_words (s # t # ts) = s @ '' '' @ join_words (t # ts)"

fun tool_pattern_target :: "coding_tool_action \<Rightarrow> string" where
  "tool_pattern_target (RunProcess executable args _ _ _) =
    ''run_process('' @ join_words (executable # args) @ '')''"
| "tool_pattern_target (RunShell command _ _ _) = ''run_shell('' @ command @ '')''"
| "tool_pattern_target (ExternalTool _ tool_name _ _ _) = tool_name @ ''()''"
| "tool_pattern_target (GlobFiles pattern _) = ''glob('' @ pattern @ '')''"
| "tool_pattern_target action = tool_kind_str (action_kind action) @ ''('' @
    (case path_hint action of None \<Rightarrow> [] | Some path \<Rightarrow> path) @ '')''"

section \<open>Decisions\<close>

datatype decision = Blocked string | Deny string | Allow string | Ask

fun recursive_action :: "coding_tool_action \<Rightarrow> bool" where
  "recursive_action (ListFiles _ _) \<longleftrightarrow> True"
| "recursive_action (SearchText _ _ _ _ _ _ _) \<longleftrightarrow> True"
| "recursive_action (GlobFiles _ _) \<longleftrightarrow> True"
| "recursive_action (FindFiles _ _ _) \<longleftrightarrow> True"
| "recursive_action (GitDiff _) \<longleftrightarrow> True"
| "recursive_action (GitLog _ _) \<longleftrightarrow> True"
| "recursive_action GitStatus \<longleftrightarrow> True"
| "recursive_action _ \<longleftrightarrow> False"

definition acted_path :: "coding_tool_action \<Rightarrow> string option" where
  "acted_path action = (case path_hint action of
      Some path \<Rightarrow> Some path
    | None \<Rightarrow> if recursive_action action then Some [] else None)"

definition unavailable :: string where
  "unavailable = ''tool permission rules are unavailable; refusing the action''"

definition covers :: "coding_tool_action \<Rightarrow> string \<Rightarrow> policy_rule \<Rightarrow> bool" where
  "covers action path rule \<longleftrightarrow> rule_matches (pr_path_prefix rule) path \<or>
    recursive_action action \<and> rule_matches path (pr_path_prefix rule)"

definition path_denial :: "tool_policy \<Rightarrow> coding_tool_action \<Rightarrow> string option" where
  "path_denial p action = (case acted_path action of
      None \<Rightarrow> None
    | Some path \<Rightarrow> map_option (\<lambda>rule. if blank (pr_reason rule)
          then ''policy denied '' @ tool_kind_str (action_kind action) @ '' at '' @ pr_path_prefix rule
          else pr_reason rule)
        (find (\<lambda>rule. pr_effect rule = PolicyDeny) (filter (covers action path) (tp_rules p))))"

definition rule_hits :: "globber \<Rightarrow> policy_effect \<Rightarrow> string \<Rightarrow> tool_pattern_rule \<Rightarrow> bool" where
  "rule_hits glob eff target rule \<longleftrightarrow> tr_effect rule = eff \<and> pattern_matches glob (tr_pattern rule) target"

definition rule_reason :: "tool_pattern_rule \<Rightarrow> string" where
  "rule_reason rule = (if blank (tr_reason rule) then tr_pattern rule else tr_reason rule)"

definition denial_for :: "globber \<Rightarrow> tool_policy \<Rightarrow> turn_rules \<Rightarrow> coding_tool_action \<Rightarrow> string option" where
  "denial_for glob p T action =
    (if T = None then Some unavailable
     else case path_denial p action of
       Some reason \<Rightarrow> Some reason
     | None \<Rightarrow> map_option rule_reason
         (find (rule_hits glob PolicyDeny (tool_pattern_target action)) (tool_rules_of p T)))"

definition json_index :: "json \<Rightarrow> string \<Rightarrow> json" where
  "json_index v key = (case json_get key v of None \<Rightarrow> JNull | Some x \<Rightarrow> x)"

fun runs_feature_commands :: "coding_tool_action \<Rightarrow> bool" where
  "runs_feature_commands (ExternalTool _ _ arguments _ _) \<longleftrightarrow>
    json_index arguments ''action'' = JStr ''verify'' \<and>
    (case as_array (json_index arguments ''commands'') of None \<Rightarrow> False | Some cs \<Rightarrow> cs \<noteq> [])"
| "runs_feature_commands _ \<longleftrightarrow> False"

fun auto_edit_action :: "coding_tool_action \<Rightarrow> bool" where
  "auto_edit_action (RunProcess _ _ _ _ _) \<longleftrightarrow> False"
| "auto_edit_action (RunShell _ _ _ _) \<longleftrightarrow> False"
| "auto_edit_action (ExternalTool _ _ _ _ _) \<longleftrightarrow> False"
| "auto_edit_action (TaskUpdate _) \<longleftrightarrow> False"
| "auto_edit_action _ \<longleftrightarrow> True"

text \<open>The external tools that are the host's own and need no question, with the reason given.\<close>

fun host_tool :: "coding_tool_action \<Rightarrow> string option" where
  "host_tool (ExternalTool plugin tool arguments parent timeout) =
    (if plugin = ''knowledge'' \<and> tool = ''knowledge'' \<and>
        as_str (json_index arguments ''action'') \<in> {Some ''list'', Some ''search'', Some ''read'', Some ''graph''}
     then Some ''knowledge reference (read-only)''
     else if plugin = ''memory'' \<and> tool = ''memory'' then Some ''memory (ha's own state)''
     else if plugin = ''skill'' \<and> tool \<in> {''list_skills'', ''activate_skill'', ''read_skill_file''}
     then Some ''skill catalogue (read-only)''
     else if plugin = ''goal'' \<and> tool = ''goal_complete'' \<or>
        plugin = ''task'' \<and> tool = ''task_state'' \<or>
        plugin = ''feature'' \<and> tool = ''feature'' \<and>
          \<not> runs_feature_commands (ExternalTool plugin tool arguments parent timeout) \<or>
        plugin = ''agent'' \<and> tool \<in> {''agent_message'', ''progress_note''}
     then Some ''ha's own state''
     else if plugin = ''web'' \<and> tool = ''web_search'' then Some ''web search (query only)''
     else None)"
| "host_tool _ = None"

definition mode_decision :: "policy_mode \<Rightarrow> coding_tool_action \<Rightarrow> decision" where
  "mode_decision mode action = (case mode of
      ModeAutoEdit \<Rightarrow> if auto_edit_action action then Allow ''mode auto-edit'' else Ask
    | ModeFullAuto \<Rightarrow> Allow ''mode full-auto''
    | ModeAsk \<Rightarrow> Ask)"

definition decide :: "globber \<Rightarrow> tool_policy \<Rightarrow> turn_rules \<Rightarrow> coding_tool_action \<Rightarrow> decision" where
  "decide glob p T action =
    (if T = None then Deny unavailable
     else case denial_for glob p T action of
       Some reason \<Rightarrow> Deny reason
     | None \<Rightarrow> (let target = tool_pattern_target action; rules = tool_rules_of p T in
        case find (rule_hits glob PolicyDeny target) rules of
          Some rule \<Rightarrow> Deny (rule_reason rule)
        | None \<Rightarrow> (case find (rule_hits glob PolicyAllow target) rules of
            Some rule \<Rightarrow> Allow (''rule '' @ tr_pattern rule)
          | None \<Rightarrow> (case host_tool action of
              Some reason \<Rightarrow> Allow reason
            | None \<Rightarrow> mode_decision (policy_mode_of p T) action))))"

section \<open>Shape and transform\<close>

definition has_nul :: "string \<Rightarrow> bool" where
  "has_nul s \<longleftrightarrow> CHR 0x00 \<in> set s"

definition refuse_if :: "bool \<Rightarrow> error_code \<Rightarrow> unit res" where
  "refuse_if c e = (if c then Inl e else Inr ())"

definition blank_path :: "string option \<Rightarrow> bool" where
  "blank_path p \<longleftrightarrow> (case p of None \<Rightarrow> False | Some path \<Rightarrow> blank path)"

text \<open>The arms of the match, in order, for each variant.\<close>

fun validate_action_shape :: "coding_tool_action \<Rightarrow> unit res" where
  "validate_action_shape (ReadFile path _ _ _) = refuse_if (blank path) InvalidPayload"
| "validate_action_shape (ApplyPatch path _ replacement) = checks [
    refuse_if (blank path) InvalidPayload,
    refuse_if (has_nul replacement) BinaryContentDenied]"
| "validate_action_shape (WriteFile path content _) = checks [
    refuse_if (blank path) InvalidPayload,
    refuse_if (has_nul content) BinaryContentDenied,
    refuse_if (length content > 1024 * 1024) OutputLimitExceeded]"
| "validate_action_shape (EditFile path old new all edits) = checks [
    refuse_if (blank path) InvalidPayload,
    refuse_if (old = [] \<and> edits = []) InvalidPayload,
    refuse_if (length edits > edit_file_max_edits) InvalidPayload,
    refuse_if (\<exists>e \<in> set (edit_specs (EditFile path old new all edits)).
      has_nul (es_old_string e) \<or> has_nul (es_new_string e)) BinaryContentDenied]"
| "validate_action_shape (ListFiles path _) = refuse_if (blank_path path) InvalidPayload"
| "validate_action_shape (SearchText query path _ _ _ _ _) = checks [
    refuse_if (blank_path path) InvalidPayload, refuse_if (blank query) InvalidPayload]"
| "validate_action_shape (GlobFiles pattern path) = checks [
    refuse_if (blank_path path) InvalidPayload, refuse_if (blank pattern) InvalidPayload]"
| "validate_action_shape (FindFiles _ path _) = refuse_if (blank_path path) InvalidPayload"
| "validate_action_shape (GitDiff path) = refuse_if (blank_path path) InvalidPayload"
| "validate_action_shape (GitLog path _) = refuse_if (blank_path path) InvalidPayload"
| "validate_action_shape (RunProcess executable _ timeout _ _) =
    refuse_if (blank executable \<or> timeout = 0) InvalidPayload"
| "validate_action_shape (RunShell command timeout _ _) =
    refuse_if (blank command \<or> timeout = 0) InvalidPayload"
| "validate_action_shape (TaskUpdate note) = refuse_if (blank note) InvalidPayload"
| "validate_action_shape (ReadProcessOutput artifact _ _ len) = checks [
    refuse_if (blank artifact) InvalidPayload,
    refuse_if (len = 0 \<or> len > process_output_page_max_bytes) InvalidPayload]"
| "validate_action_shape _ = Inr ()"

fun env_bindings_of :: "coding_tool_action \<Rightarrow> env_binding list" where
  "env_bindings_of (RunProcess _ _ _ _ env) = env"
| "env_bindings_of (RunShell _ _ _ env) = env"
| "env_bindings_of _ = []"

definition validate_secret_grants :: "tool_policy \<Rightarrow> coding_tool_action \<Rightarrow> unit res" where
  "validate_secret_grants p action = checks (map (\<lambda>b.
    refuse_if (\<not> allows_secret p (eb_reference b)) SecretNotGranted) (env_bindings_of action))"

fun cap_timeout :: "nat \<Rightarrow> coding_tool_action \<Rightarrow> coding_tool_action" where
  "cap_timeout cap (RunProcess executable args timeout isolation env) =
    RunProcess executable args (min timeout cap) isolation env"
| "cap_timeout cap (RunShell command timeout isolation env) = RunShell command (min timeout cap) isolation env"
| "cap_timeout cap action = action"

definition transform_and_validate :: "tool_policy \<Rightarrow> coding_tool_action \<Rightarrow> coding_tool_action res" where
  "transform_and_validate p action =
    bind_res (validate_action_shape action) (\<lambda>_.
    bind_res (validate_secret_grants p action) (\<lambda>_.
    bind_res (validate_action_shape (cap_timeout (tp_max_timeout p) action)) (\<lambda>_.
    Inr (cap_timeout (tp_max_timeout p) action))))"

section \<open>The host's policies\<close>

fun configured_rules :: "globber \<Rightarrow> policy_effect \<Rightarrow> string \<Rightarrow> string list \<Rightarrow> tool_pattern_rule list res" where
  "configured_rules glob eff reason [] = Inr []"
| "configured_rules glob eff reason (pattern # ps) =
    bind_res (validate_tool_pattern glob pattern) (\<lambda>_.
    bind_res (configured_rules glob eff reason ps) (\<lambda>rest.
    Inr (\<lparr>tr_pattern = pattern, tr_effect = eff, tr_reason = reason\<rparr> # rest)))"

definition build_tool_policy ::
    "globber \<Rightarrow> string \<Rightarrow> string list \<Rightarrow> string list \<Rightarrow> policy_mode option \<Rightarrow> tool_policy res" where
  "build_tool_policy glob approval allow deny session_mode =
    bind_res (case session_mode of Some mode \<Rightarrow> Inr mode | None \<Rightarrow> parse_policy_mode approval) (\<lambda>mode.
    bind_res (configured_rules glob PolicyAllow ''configured allow rule'' allow) (\<lambda>allows.
    bind_res (configured_rules glob PolicyDeny ''configured deny rule'' deny) (\<lambda>denies.
    Inr (with_tool_rules (allows @ denies) (with_mode mode default_policy)))))"

definition verifier_denied_tools :: "string list" where
  "verifier_denied_tools = [''apply_patch'', ''write_file'', ''edit_file'']"

definition verifier_rules :: "tool_pattern_rule list" where
  "verifier_rules = map (\<lambda>tool. \<lparr>tr_pattern = tool @ ''(*)'', tr_effect = PolicyDeny,
    tr_reason = ''a verifier does not edit the work it checks''\<rparr>) verifier_denied_tools"

definition verifier_policy :: "tool_policy \<Rightarrow> turn_rules \<Rightarrow> tool_policy" where
  "verifier_policy parent T = with_tool_rules (tool_rules_of parent T @ verifier_rules) parent"

definition child_policy :: "tool_policy \<Rightarrow> tool_policy" where
  "child_policy parent = parent"

section \<open>Decisions by tiers\<close>

text \<open>The three tiers of a decision: a denial, an explicit or host-owned allow, the mode.\<close>

definition path_denied :: "tool_policy \<Rightarrow> coding_tool_action \<Rightarrow> bool" where
  "path_denied p a \<longleftrightarrow> (case acted_path a of
      None \<Rightarrow> False
    | Some path \<Rightarrow> \<exists>r \<in> set (tp_rules p). pr_effect r = PolicyDeny \<and> covers a path r)"

definition rule_denied :: "globber \<Rightarrow> tool_pattern_rule list \<Rightarrow> coding_tool_action \<Rightarrow> bool" where
  "rule_denied glob rules a \<longleftrightarrow> (\<exists>r \<in> set rules. rule_hits glob PolicyDeny (tool_pattern_target a) r)"

definition rule_allowed :: "globber \<Rightarrow> tool_pattern_rule list \<Rightarrow> coding_tool_action \<Rightarrow> bool" where
  "rule_allowed glob rules a \<longleftrightarrow> (\<exists>r \<in> set rules. rule_hits glob PolicyAllow (tool_pattern_target a) r)"

definition policy_denied :: "globber \<Rightarrow> tool_policy \<Rightarrow> turn_rules \<Rightarrow> coding_tool_action \<Rightarrow> bool" where
  "policy_denied glob p T a \<longleftrightarrow> T = None \<or> path_denied p a \<or> rule_denied glob (tool_rules_of p T) a"

definition mode_allows :: "policy_mode \<Rightarrow> coding_tool_action \<Rightarrow> bool" where
  "mode_allows mode a \<longleftrightarrow> mode = ModeFullAuto \<or> mode = ModeAutoEdit \<and> auto_edit_action a"

lemma find_hit: "(\<exists>y. find P xs = Some y) \<longleftrightarrow> (\<exists>x \<in> set xs. P x)"
  by (metis find_None_iff not_None_eq)

lemma path_denial_iff: "path_denial p a \<noteq> None \<longleftrightarrow> path_denied p a"
  by (cases "acted_path a") (simp_all add: path_denial_def path_denied_def find_hit, blast)

lemma denial_for_iff: "denial_for glob p T a \<noteq> None \<longleftrightarrow> policy_denied glob p T a"
proof (cases "path_denial p a")
  case None
  then show ?thesis using path_denial_iff [of p a]
    by (cases T) (simp_all add: denial_for_def policy_denied_def rule_denied_def find_hit)
next
  case (Some r)
  then show ?thesis using path_denial_iff [of p a]
    by (cases T) (simp_all add: denial_for_def policy_denied_def)
qed

lemma decide_denied:
  "policy_denied glob p T a \<Longrightarrow> \<exists>r. denial_for glob p T a = Some r \<and> decide glob p T a = Deny r"
proof -
  assume "policy_denied glob p T a"
  then obtain r where "denial_for glob p T a = Some r" using denial_for_iff by blast
  then show ?thesis by (auto simp: decide_def denial_for_def)
qed

lemma decide_not_denied:
  assumes "\<not> policy_denied glob p T a"
  shows "decide glob p T a =
    (case find (rule_hits glob PolicyAllow (tool_pattern_target a)) (tool_rules_of p T) of
       Some rule \<Rightarrow> Allow (''rule '' @ tr_pattern rule)
     | None \<Rightarrow> (case host_tool a of Some reason \<Rightarrow> Allow reason
       | None \<Rightarrow> mode_decision (policy_mode_of p T) a))"
proof -
  have "denial_for glob p T a = None" using assms denial_for_iff by blast
  moreover have "find (rule_hits glob PolicyDeny (tool_pattern_target a)) (tool_rules_of p T) = None"
    using assms by (auto simp: policy_denied_def rule_denied_def find_None_iff)
  moreover obtain y where T: "T = Some y" using assms by (auto simp: policy_denied_def)
  ultimately show ?thesis by (simp only: T decide_def Let_def option.simps if_False)
qed

lemma mode_decision_eq: "mode_decision mode a = Ask \<longleftrightarrow> \<not> mode_allows mode a"
  "(\<exists>r. mode_decision mode a = Allow r) \<longleftrightarrow> mode_allows mode a"
  "mode_decision mode a \<noteq> Deny r" "mode_decision mode a \<noteq> Blocked r"
  by (cases mode; simp add: mode_decision_def mode_allows_def)+

lemma decide_allowed:
  assumes "\<not> policy_denied glob p T a"
  shows "(\<exists>r. decide glob p T a = Allow r) \<longleftrightarrow> rule_allowed glob (tool_rules_of p T) a \<or>
      host_tool a \<noteq> None \<or> mode_allows (policy_mode_of p T) a"
    and "decide glob p T a = Ask \<or> (\<exists>r. decide glob p T a = Allow r)"
proof -
  let ?f = "find (rule_hits glob PolicyAllow (tool_pattern_target a)) (tool_rules_of p T)"
  have f: "?f \<noteq> None \<longleftrightarrow> rule_allowed glob (tool_rules_of p T) a"
    by (simp add: rule_allowed_def find_hit)
  show "(\<exists>r. decide glob p T a = Allow r) \<longleftrightarrow> rule_allowed glob (tool_rules_of p T) a \<or>
      host_tool a \<noteq> None \<or> mode_allows (policy_mode_of p T) a"
    unfolding decide_not_denied [OF assms] f [symmetric]
    by (cases ?f; cases "host_tool a") (simp_all add: mode_decision_eq)
  show "decide glob p T a = Ask \<or> (\<exists>r. decide glob p T a = Allow r)"
    unfolding decide_not_denied [OF assms]
    by (cases ?f; cases "host_tool a") (auto simp: mode_decision_eq)
qed

text \<open>
  C16. A decision has three tiers. It is a denial exactly when the rules cannot be read, a deny
  rule covers the path, or a deny pattern matches, and it is then the denial of \<open>denial_for\<close>;
  otherwise it is an allow exactly when an allow pattern matches, the tool is the host's own or
  the mode allows it, and a question in every other case. It never blocks.
\<close>

theorem decision_tiers:
  "((\<exists>r. decide glob p T a = Deny r) \<longleftrightarrow> policy_denied glob p T a) \<and>
   (\<forall>r. decide glob p T a = Deny r \<longleftrightarrow> denial_for glob p T a = Some r) \<and>
   ((\<exists>r. decide glob p T a = Allow r) \<longleftrightarrow> \<not> policy_denied glob p T a \<and>
     (rule_allowed glob (tool_rules_of p T) a \<or> (\<exists>h. host_tool a = Some h) \<or>
      mode_allows (policy_mode_of p T) a)) \<and>
   (\<nexists>r. decide glob p T a = Blocked r)"
proof (cases "policy_denied glob p T a")
  case True
  then show ?thesis using decide_denied [OF True] by auto
next
  case False
  then have n: "denial_for glob p T a = None" using denial_for_iff by blast
  show ?thesis using decide_allowed [OF False] False n by auto
qed

lemma policy_denied_mono:
  assumes "policy_denied glob p (Some s) a" and "set (tp_rules p) \<subseteq> set (tp_rules q)"
    and "set (tool_rules_of p (Some s)) \<subseteq> set (tool_rules_of q T)"
  shows "policy_denied glob q T a"
  using assms by (auto simp: policy_denied_def path_denied_def rule_denied_def split: option.splits)

text \<open>
  C17. A denial is monotonic: adding rules of any effect, to the policy or to the turn, and
  changing the mode, the secrets or the revision, never lifts it.
\<close>

theorem denial_monotonic:
  assumes "decide glob p (Some s) a = Deny r" and "set (tp_rules p) \<subseteq> set (tp_rules q)"
    and "set (tool_rules_of p (Some s)) \<subseteq> set (tool_rules_of q T)"
  shows "\<exists>r'. decide glob q T a = Deny r'"
proof -
  from assms(1) have "policy_denied glob p (Some s) a"
    using decide_allowed [of glob p "Some s" a] by force
  then have "policy_denied glob q T a" using assms(2,3) by (rule policy_denied_mono)
  then show ?thesis using decide_denied by blast
qed

text \<open>A small glob for the witnesses: a star matches any text, every other character itself.\<close>

fun wild :: "string \<Rightarrow> string \<Rightarrow> bool" where
  "wild [] t \<longleftrightarrow> t = []"
| "wild (c # p) [] \<longleftrightarrow> c = CHR ''*'' \<and> wild p []"
| "wild (c # p) (d # t) \<longleftrightarrow>
    (if c = CHR ''*'' then wild p (d # t) \<or> wild (c # p) t else c = d \<and> wild p t)"

definition sample_glob :: globber where
  "sample_glob pattern = Some (wild pattern)"

definition docs_policy :: tool_policy where
  "docs_policy = \<lparr>tp_revision = 1, tp_rules = [\<lparr>pr_path_prefix = ''docs'', pr_effect = PolicyDeny,
    pr_reason = ''reviewed''\<rparr>], tp_tool_rules = [], tp_mode = ModeAsk, tp_max_timeout = 60000,
    tp_granted_secrets = [''secret://TOKEN'', ''secret://B'']\<rparr>"

definition open_policy :: tool_policy where
  "open_policy = docs_policy\<lparr>tp_mode := ModeFullAuto, tp_tool_rules := [\<lparr>tr_pattern = ''write_file(*)'',
    tr_effect = PolicyAllow, tr_reason = []\<rparr>]\<rparr>"

definition docs_write :: coding_tool_action where
  "docs_write = WriteFile ''./docs//a'' ''x'' None"

lemma not_blank_reviewed: "\<not> blank ''reviewed''"
  by (rule not_blank_nonspace) (simp_all add: byte_def)

lemma sample_path_denial: "path_denial docs_policy docs_write = Some ''reviewed''"
  by (simp add: path_denial_def docs_policy_def docs_write_def acted_path_def covers_def
      rule_matches_def policy_components_def not_blank_reviewed)

lemma sample_denied: "decide sample_glob docs_policy (Some new_turn_state) docs_write = Deny ''reviewed''"
  by (simp add: decide_def denial_for_def sample_path_denial)

theorem denial_monotonic_witness:
  "\<exists>r. decide sample_glob open_policy (Some new_turn_state) docs_write = Deny r"
  by (rule denial_monotonic [OF sample_denied])
    (auto simp: open_policy_def docs_policy_def tool_rules_of_def)

section \<open>The turn's rules and the revision\<close>

datatype turn_op = ClearTo "policy_mode option" | AddRule tool_pattern_rule | SetMode policy_mode

definition turn_step :: "globber \<Rightarrow> turn_rules \<Rightarrow> turn_op \<Rightarrow> turn_rules" where
  "turn_step glob T op = (case op of
      ClearTo mode \<Rightarrow> clear_to mode T
    | AddRule rule \<Rightarrow> snd (add_rule glob rule T)
    | SetMode mode \<Rightarrow> set_mode mode T)"

definition turn_run :: "globber \<Rightarrow> turn_op list \<Rightarrow> turn_rules \<Rightarrow> turn_rules" where
  "turn_run glob ops T = foldl (turn_step glob) T ops"

text \<open>A later state of the rules is the same, or has a later revision unless that is at its end.\<close>

definition turn_later :: "turn_state \<Rightarrow> turn_state \<Rightarrow> bool" where
  "turn_later s s' \<longleftrightarrow> s' = s \<or> ts_revision s < ts_revision s' \<or> ts_revision s' = u64_max"

lemma turn_step_later:
  assumes "ts_revision s \<le> u64_max"
  shows "\<exists>s'. turn_step glob (Some s) op = Some s' \<and> turn_later s s' \<and> ts_revision s' \<le> u64_max
    \<and> ts_revision s \<le> ts_revision s'"
  using assms
  by (cases op) (auto simp: turn_step_def clear_to_def add_rule_def set_mode_def turn_later_def
      saturating_add_def split: sum.split)

lemma turn_run_later:
  assumes "ts_revision s \<le> u64_max"
  shows "\<exists>s'. turn_run glob ops (Some s) = Some s' \<and> turn_later s s' \<and> ts_revision s' \<le> u64_max
    \<and> ts_revision s \<le> ts_revision s'"
  using assms
proof (induction ops arbitrary: s)
  case Nil
  then show ?case by (simp add: turn_run_def turn_later_def)
next
  case (Cons op ops)
  obtain s1 where 1: "turn_step glob (Some s) op = Some s1" "turn_later s s1"
    "ts_revision s1 \<le> u64_max" "ts_revision s \<le> ts_revision s1"
    using turn_step_later [OF Cons.prems] by blast
  obtain s2 where 2: "turn_run glob ops (Some s1) = Some s2" "turn_later s1 s2"
    "ts_revision s2 \<le> u64_max" "ts_revision s1 \<le> ts_revision s2"
    using Cons.IH [OF 1(3)] by blast
  have "turn_run glob (op # ops) (Some s) = Some s2" using 1(1) 2(1) by (simp add: turn_run_def)
  moreover have "turn_later s s2"
  proof (cases "s2 = s1")
    case True
    with 1(2) show ?thesis by simp
  next
    case False
    with 2(2) 1(4) show ?thesis by (auto simp: turn_later_def)
  qed
  moreover have "ts_revision s \<le> ts_revision s2" using 1(4) 2(4) by (rule le_trans)
  ultimately show ?case using 2(3) by blast
qed

lemma turn_run_poisoned: "turn_run glob ops None = None"
proof -
  have "turn_step glob None op = None" for op
    by (cases op) (simp_all add: turn_step_def clear_to_def add_rule_def set_mode_def split: sum.split)
  then show ?thesis by (induction ops) (simp_all add: turn_run_def)
qed

text \<open>
  The revision pins the rules: whatever rules were added, cleared and modes switched since,
  if the policy revision is the same (and not at the end of its range), then so are the rules and
  the mode, and every action is decided as before. So an approval that is bound to a revision is
  never used under other rules.
\<close>

theorem revision_pins_decisions:
  assumes "ts_revision s \<le> u64_max"
    and "policy_revision_of p (turn_run glob ops (Some s)) = policy_revision_of p (Some s)"
    and "policy_revision_of p (Some s) < u64_max"
  shows "decide glob p (turn_run glob ops (Some s)) a = decide glob p (Some s) a
    \<and> turn_run glob ops (Some s) = Some s"
proof -
  obtain s' where s': "turn_run glob ops (Some s) = Some s'" "turn_later s s'"
    using turn_run_later [OF assms(1)] by blast
  have "policy_revision_of p (Some s') < u64_max" using assms(2,3) s'(1) by simp
  with assms(2) s'(1) have "ts_revision s' = ts_revision s" "ts_revision s' < u64_max"
    by (auto simp: policy_revision_of_def saturating_add_def min_def split: if_splits)
  with s'(2) have "s' = s" by (simp add: turn_later_def)
  with s'(1) show ?thesis by simp
qed

definition auto_state :: turn_state where
  "auto_state = \<lparr>ts_revision = 3, ts_rules = [], ts_mode = Some ModeFullAuto\<rparr>"

theorem revision_pins_decisions_witness:
  "decide sample_glob docs_policy (turn_run sample_glob [SetMode ModeFullAuto, ClearTo (Some ModeFullAuto)]
      (Some auto_state)) sample_action = decide sample_glob docs_policy (Some auto_state) sample_action
    \<and> turn_run sample_glob [SetMode ModeFullAuto, ClearTo (Some ModeFullAuto)] (Some auto_state) =
      Some auto_state"
  by (rule revision_pins_decisions)
    (simp_all add: turn_run_def turn_step_def set_mode_def clear_to_def auto_state_def u64_max_def
      policy_revision_of_def saturating_add_def docs_policy_def)

section \<open>The transform\<close>

lemma checks_Inr_all: "checks cs = Inr u \<longleftrightarrow> (\<forall>c \<in> set cs. c = Inr ())"
  using checks_ok [of cs] by simp

lemma cap_timeout_same [simp]:
  "tool_pattern_target (cap_timeout n a) = tool_pattern_target a"
  "path_hint (cap_timeout n a) = path_hint a"
  "action_kind (cap_timeout n a) = action_kind a"
  "env_bindings_of (cap_timeout n a) = env_bindings_of a"
  "recursive_action (cap_timeout n a) = recursive_action a"
  "auto_edit_action (cap_timeout n a) = auto_edit_action a"
  "host_tool (cap_timeout n a) = host_tool a"
  by (cases a; simp)+

lemma cap_timeout_idem [simp]: "cap_timeout n (cap_timeout n a) = cap_timeout n a"
  by (cases a) simp_all

lemma cap_timeout_path_denial [simp]: "path_denial p (cap_timeout n a) = path_denial p a"
proof -
  have "covers (cap_timeout n a) = covers a" by (intro ext) (simp add: covers_def)
  then show ?thesis by (simp only: path_denial_def acted_path_def cap_timeout_same)
qed

lemma cap_timeout_decision: "decide glob p T (cap_timeout n a) = decide glob p T a"
proof -
  have d: "denial_for glob p T (cap_timeout n a) = denial_for glob p T a"
    unfolding denial_for_def cap_timeout_same cap_timeout_path_denial ..
  have m: "mode_decision m (cap_timeout n a) = mode_decision m a" for m
    unfolding mode_decision_def cap_timeout_same ..
  show ?thesis unfolding decide_def Let_def d m cap_timeout_same ..
qed

fun timeout_of :: "coding_tool_action \<Rightarrow> nat option" where
  "timeout_of (RunProcess _ _ timeout _ _) = Some timeout"
| "timeout_of (RunShell _ timeout _ _) = Some timeout"
| "timeout_of _ = None"

lemma shape_timeout: "validate_action_shape a = Inr () \<Longrightarrow> timeout_of a = Some n \<Longrightarrow> 0 < n"
  by (cases a) (auto simp: refuse_if_def split: if_splits)

lemma cap_timeout_of: "timeout_of (cap_timeout m a) = Some n \<Longrightarrow> n \<le> m"
  by (cases a) auto

text \<open>
  What the transform returns is what the policy would return for it again: it passed the
  shape checks, its process may run for at least a millisecond and at most the policy's limit,
  every secret it names is granted, and the policy decides it as it decides the original.
\<close>

theorem transform_stable:
  assumes "transform_and_validate p a = Inr b"
  shows "transform_and_validate p b = Inr b \<and> validate_action_shape b = Inr () \<and>
    (\<forall>n. timeout_of b = Some n \<longrightarrow> 0 < n \<and> n \<le> tp_max_timeout p) \<and>
    (\<forall>e \<in> set (env_bindings_of b). eb_reference e \<in> set (tp_granted_secrets p)) \<and>
    decide glob p T b = decide glob p T a"
proof -
  from assms have g: "validate_secret_grants p a = Inr ()" and v: "validate_action_shape b = Inr ()"
    and b: "b = cap_timeout (tp_max_timeout p) a"
    by (auto simp: transform_and_validate_def bind_res_Inr)
  have gb: "validate_secret_grants p b = Inr ()" using g b by (simp add: validate_secret_grants_def)
  have "transform_and_validate p b = Inr b"
    using v gb by (simp add: transform_and_validate_def) (simp add: b)
  moreover have "0 < n \<and> n \<le> tp_max_timeout p" if "timeout_of b = Some n" for n
    using that shape_timeout [OF v] cap_timeout_of b by blast
  moreover have "eb_reference e \<in> set (tp_granted_secrets p)" if "e \<in> set (env_bindings_of b)" for e
    using gb that by (auto simp: validate_secret_grants_def checks_Inr_all refuse_if_def
        allows_secret_def split: if_splits)
  moreover have "decide glob p T b = decide glob p T a" unfolding b by (rule cap_timeout_decision)
  ultimately show ?thesis using v by simp
qed

lemma sample_transform: "transform_and_validate docs_policy sample_action = Inr (cap_timeout 60000 sample_action)"
  by (simp add: transform_and_validate_def sample_action_def docs_policy_def validate_secret_grants_def
      refuse_if_def allows_secret_def not_blank_nonspace byte_def)

theorem transform_stable_witness:
  "transform_and_validate docs_policy (cap_timeout 60000 sample_action) =
      Inr (cap_timeout 60000 sample_action) \<and>
    validate_action_shape (cap_timeout 60000 sample_action) = Inr () \<and>
    decide sample_glob docs_policy None (cap_timeout 60000 sample_action) =
      decide sample_glob docs_policy None sample_action"
  using transform_stable [OF sample_transform, of sample_glob None] by blast

section \<open>The cache of compiled patterns\<close>

definition cache_ok :: "globber \<Rightarrow> glob_cache \<Rightarrow> bool" where
  "cache_ok glob cache \<longleftrightarrow> length cache \<le> max_cached_patterns \<and>
    (\<forall>e \<in> set cache. snd e = glob (fst e))"

lemma cached_step:
  assumes "cache_ok glob cache"
  shows "fst (cached_pattern_matches glob pattern target cache) = pattern_matches glob pattern target"
    and "cache_ok glob (snd (cached_pattern_matches glob pattern target cache))"
proof -
  define c where "c = (if length cache \<ge> max_cached_patterns \<and> map_of cache pattern = None then [] else cache)"
  have c: "cache_ok glob c" and room: "map_of c pattern = None \<Longrightarrow> length c < max_cached_patterns"
    using assms by (auto simp: c_def cache_ok_def max_cached_patterns_def split: if_splits)
  have hit: "m = glob pattern" if "map_of c pattern = Some m" for m
    using c map_of_SomeD [OF that] by (auto simp: cache_ok_def)
  have eq: "cached_pattern_matches glob pattern target cache = (case map_of c pattern of
       Some compiled \<Rightarrow> ((case compiled of None \<Rightarrow> False | Some m \<Rightarrow> m target), c)
     | None \<Rightarrow> ((case glob pattern of None \<Rightarrow> False | Some m \<Rightarrow> m target), c @ [(pattern, glob pattern)]))"
    unfolding cached_pattern_matches_def Let_def c_def ..
  show "fst (cached_pattern_matches glob pattern target cache) = pattern_matches glob pattern target"
  proof (cases "map_of c pattern")
    case (Some m)
    with hit have "map_of c pattern = Some (glob pattern)" by simp
    then show ?thesis by (simp add: eq pattern_matches_def)
  qed (simp add: eq pattern_matches_def)
  show "cache_ok glob (snd (cached_pattern_matches glob pattern target cache))"
    unfolding eq
  proof (cases "map_of c pattern")
    case None
    with room c show "cache_ok glob (snd (case map_of c pattern of
       Some compiled \<Rightarrow> ((case compiled of None \<Rightarrow> False | Some m \<Rightarrow> m target), c)
     | None \<Rightarrow> ((case glob pattern of None \<Rightarrow> False | Some m \<Rightarrow> m target), c @ [(pattern, glob pattern)])))"
      by (auto simp: cache_ok_def)
  qed (simp add: c)
qed

fun cached_run :: "globber \<Rightarrow> (string \<times> string) list \<Rightarrow> glob_cache \<Rightarrow> bool list \<times> glob_cache" where
  "cached_run glob [] cache = ([], cache)"
| "cached_run glob (q # qs) cache =
    (let (hit, cache) = cached_pattern_matches glob (fst q) (snd q) cache;
         (hits, cache) = cached_run glob qs cache in (hit # hits, cache))"

lemma cached_run_ok:
  "cache_ok glob cache \<Longrightarrow> fst (cached_run glob qs cache) = map (\<lambda>q. pattern_matches glob (fst q) (snd q)) qs
    \<and> cache_ok glob (snd (cached_run glob qs cache))"
proof (induction qs arbitrary: cache)
  case (Cons q qs)
  then show ?case
    using cached_step [OF Cons.prems, of "fst q" "snd q"] Cons.IH
    by (simp add: split_beta Let_def)
qed simp

text \<open>
  The cache of compiled globs is invisible: from an empty cache, any sequence of queries gets
  the answers of compiling the pattern each time, and the cache never holds more than 1024.
\<close>

theorem cached_matching:
  "fst (cached_run glob qs []) = map (\<lambda>q. pattern_matches glob (fst q) (snd q)) qs
    \<and> length (snd (cached_run glob qs [])) \<le> max_cached_patterns"
  using cached_run_ok [of glob "[]" qs] by (simp add: cache_ok_def)

section \<open>The policies of the host\<close>

lemma configured_rules_Inr:
  "configured_rules glob eff reason ps = Inr rules \<Longrightarrow>
    (\<forall>pattern \<in> set ps. validate_tool_pattern glob pattern = Inr ()) \<and>
    rules = map (\<lambda>pattern. \<lparr>tr_pattern = pattern, tr_effect = eff, tr_reason = reason\<rparr>) ps"
  by (induction ps arbitrary: rules) (auto simp: bind_res_Inr)

lemma build_tool_policy_Inr:
  assumes "build_tool_policy glob approval allow deny session_mode = Inr p"
  shows "tp_rules p = []" and "tp_tool_rules p =
    map (\<lambda>pattern. \<lparr>tr_pattern = pattern, tr_effect = PolicyAllow, tr_reason = ''configured allow rule''\<rparr>) allow @
    map (\<lambda>pattern. \<lparr>tr_pattern = pattern, tr_effect = PolicyDeny, tr_reason = ''configured deny rule''\<rparr>) deny"
  using assms
  by (auto simp: build_tool_policy_def bind_res_Inr with_tool_rules_def with_mode_def default_policy_def
      dest!: configured_rules_Inr)

lemma configured_path_denied: "tp_rules p = [] \<Longrightarrow> \<not> path_denied p a"
  by (simp add: path_denied_def split: option.split)

lemma turn_denies_append:
  "rule_denied glob (tool_rules_of p T) a \<longleftrightarrow> rule_denied glob (tp_tool_rules p) a \<or>
    rule_denied glob (case T of None \<Rightarrow> [] | Some s \<Rightarrow> ts_rules s) a"
  by (auto simp: rule_denied_def tool_rules_of_def)

lemma rule_denied_Nil [simp]: "\<not> rule_denied glob [] a"
  by (simp add: rule_denied_def)

lemma configured_denies:
  assumes "build_tool_policy glob approval allow deny session_mode = Inr p"
  shows "rule_denied glob (tp_tool_rules p) a \<longleftrightarrow>
    (\<exists>pattern \<in> set deny. pattern_matches glob pattern (tool_pattern_target a))"
  unfolding rule_denied_def build_tool_policy_Inr(2) [OF assms] by (simp add: rule_hits_def bex_Un)

text \<open>
  A policy built from the configuration denies, in every mode and whatever the turn allowed,
  exactly the actions that a configured deny pattern or a deny rule of the turn matches.
\<close>

theorem configured_denials:
  assumes "build_tool_policy glob approval allow deny session_mode = Inr p"
  shows "(\<exists>r. decide glob p (Some s) a = Deny r) \<longleftrightarrow>
    (\<exists>pattern \<in> set deny. pattern_matches glob pattern (tool_pattern_target a)) \<or>
    rule_denied glob (ts_rules s) a"
proof -
  have "policy_denied glob p (Some s) a \<longleftrightarrow>
      (\<exists>pattern \<in> set deny. pattern_matches glob pattern (tool_pattern_target a)) \<or>
      rule_denied glob (ts_rules s) a"
    using configured_path_denied [OF build_tool_policy_Inr(1) [OF assms]]
    by (simp add: policy_denied_def turn_denies_append configured_denies [OF assms])
  moreover have "(\<exists>r. decide glob p (Some s) a = Deny r) \<longleftrightarrow> policy_denied glob p (Some s) a"
    using decide_allowed(2) [of glob p "Some s" a] decide_denied [of glob p "Some s" a] by force
  ultimately show ?thesis by simp
qed

text \<open>A target never starts with a blank, unless an external tool is named so.\<close>

lemma target_start:
  assumes "action_kind a \<noteq> KindExternalTool"
  shows "\<exists>c s. tool_pattern_target a = c # s \<and> c \<noteq> CHR '' ''"
  using assms by (cases a) simp_all

lemma trim_space: "trim (CHR '' '' # s) = trim s"
  unfolding trim_def by (subst trim_start.simps) (simp add: byte_def)

lemma configured_snoc:
  assumes "configured_rules glob eff reason ps = Inr rules" and "validate_tool_pattern glob pat = Inr ()"
  shows "configured_rules glob eff reason (ps @ [pat]) = Inr (rules @ [\<lparr>tr_pattern = pat, tr_effect = eff, tr_reason = reason\<rparr>])"
  using assms by (induction ps arbitrary: rules) (auto simp: bind_res_Inr)

lemma find_app: "find P (xs @ ys) = (case find P xs of None \<Rightarrow> find P ys | Some x \<Rightarrow> Some x)"
  by (induction xs) simp_all

text \<open>A rule that matches nothing changes no decision, wherever it stands.\<close>

lemma idle_rule:
  assumes "tp_tool_rules p' = before @ rule # after" and "tp_tool_rules p = before @ after"
    and "tp_rules p' = tp_rules p" and "tp_mode p' = tp_mode p"
    and "\<not> pattern_matches glob (tr_pattern rule) (tool_pattern_target a)"
  shows "decide glob p' T a = decide glob p T a"
proof -
  have "find (rule_hits glob eff (tool_pattern_target a)) (tool_rules_of p' T) =
      find (rule_hits glob eff (tool_pattern_target a)) (tool_rules_of p T)" for eff
    using assms(1,2,5) by (simp add: tool_rules_of_def find_app rule_hits_def split: option.split)
  then show ?thesis using assms(3,4)
    by (simp add: decide_def Let_def denial_for_def path_denial_def policy_mode_of_def cong: option.case_cong)
qed

text \<open>
  C38. \<^verbatim>\<open>validate_tool_pattern\<close> checks the trimmed pattern and the policy matches the pattern as
  written. Where a blank of a glob matches only itself, as for \<^verbatim>\<open>globset\<close>, a deny pattern that is
  accepted is accepted with a blank before it too, and then it denies nothing of what a built-in
  tool does: with it and without it the policy decides every such action alike, whatever the other
  patterns, the mode and the rules of the turn.
\<close>

theorem padded_denial_is_void:
  assumes "\<And>pat m t. glob (CHR '' '' # pat) = Some m \<Longrightarrow> m t \<Longrightarrow> \<exists>u. t = CHR '' '' # u"
    and "build_tool_policy glob approval allow deny session_mode = Inr p"
    and "validate_tool_pattern glob pat = Inr ()" and "action_kind a \<noteq> KindExternalTool"
  shows "\<exists>p'. build_tool_policy glob approval allow (deny @ [CHR '' '' # pat]) session_mode = Inr p' \<and>
    (\<forall>T. decide glob p' T a = decide glob p T a)"
proof -
  let ?pad = "CHR '' '' # pat"
  let ?rule = "\<lparr>tr_pattern = ?pad, tr_effect = PolicyDeny, tr_reason = ''configured deny rule''\<rparr>"
  have pad: "validate_tool_pattern glob ?pad = Inr ()"
    using assms(3) by (simp add: validate_tool_pattern_def trim_space)
  from assms(2) obtain mode allows denies where
    m: "(case session_mode of Some mode \<Rightarrow> Inr mode | None \<Rightarrow> parse_policy_mode approval) = Inr mode"
    and al: "configured_rules glob PolicyAllow ''configured allow rule'' allow = Inr allows"
    and de: "configured_rules glob PolicyDeny ''configured deny rule'' deny = Inr denies"
    and p: "p = with_tool_rules (allows @ denies) (with_mode mode default_policy)"
    by (auto simp: build_tool_policy_def bind_res_Inr)
  let ?p = "with_tool_rules (allows @ denies @ [?rule]) (with_mode mode default_policy)"
  have "build_tool_policy glob approval allow (deny @ [?pad]) session_mode = Inr ?p"
    by (simp add: build_tool_policy_def m al configured_snoc [OF de pad])
  moreover have "\<not> pattern_matches glob ?pad (tool_pattern_target a)"
    using assms(1) target_start [OF assms(4)] by (fastforce simp: pattern_matches_def split: option.splits)
  then have "decide glob ?p T a = decide glob p T a" for T
    by (intro idle_rule [of _ "tp_tool_rules (with_mode mode default_policy) @ allows @ denies" ?rule "[]"])
      (simp_all add: p with_tool_rules_def)
  ultimately show ?thesis by blast
qed

lemma tool_rules_of_with [simp]:
  "tool_rules_of (with_tool_rules rules p) T =
    tp_tool_rules p @ rules @ (case T of None \<Rightarrow> [] | Some s \<Rightarrow> ts_rules s)"
  by (simp add: with_tool_rules_def tool_rules_of_def)

lemma tp_rules_with [simp]: "tp_rules (with_tool_rules rules p) = tp_rules p"
  by (simp add: with_tool_rules_def)

text \<open>
  The policy of a verifier denies every edit whatever its mode and rules, and denies all that
  its parent denied when the verifier was started. (\<^verbatim>\<open>tool(*)\<close> matches every argument, since
  \<^verbatim>\<open>globset\<close> lets a star match any text.)
\<close>

theorem verifier_never_edits:
  assumes "\<And>tool. tool \<in> set verifier_denied_tools \<Longrightarrow>
      \<exists>m. glob (tool @ ''(*)'') = Some m \<and> (\<forall>text. m (tool @ ''('' @ text @ '')''))"
    and "action_kind a \<in> {KindApplyPatch, KindWriteFile, KindEditFile} \<or>
      (\<exists>r. decide glob parent (Some s) a = Deny r)"
  shows "\<exists>r. decide glob (verifier_policy parent (Some s)) T a = Deny r"
proof -
  let ?v = "verifier_policy parent (Some s)"
  from assms(2) have "policy_denied glob ?v T a"
  proof
    assume k: "action_kind a \<in> {KindApplyPatch, KindWriteFile, KindEditFile}"
    define tool and path where "tool = tool_kind_str (action_kind a)" and "path = the (path_hint a)"
    have tool: "tool \<in> set verifier_denied_tools"
      using k by (auto simp: tool_def verifier_denied_tools_def)
    have target: "tool_pattern_target a = tool @ ''('' @ path @ '')''"
      using k by (cases a) (simp_all add: tool_def path_def)
    from tool target assms(1) have "pattern_matches glob (tool @ ''(*)'') (tool_pattern_target a)"
      by (fastforce simp: pattern_matches_def)
    with tool have "rule_denied glob verifier_rules a"
      by (auto simp: rule_denied_def verifier_rules_def rule_hits_def)
    then show ?thesis by (auto simp: policy_denied_def verifier_policy_def rule_denied_def)
  next
    assume "\<exists>r. decide glob parent (Some s) a = Deny r"
    then have "policy_denied glob parent (Some s) a"
      using decide_allowed(2) [of glob parent "Some s" a] by force
    then show ?thesis
      by (rule policy_denied_mono) (auto simp: verifier_policy_def)
  qed
  then show ?thesis using decide_denied by blast
qed

lemma built_policy:
  assumes "\<forall>pattern \<in> set deny. validate_tool_pattern sample_glob pattern = Inr ()"
  shows "\<exists>p. build_tool_policy sample_glob ''ask'' [] deny None = Inr p"
proof -
  have "\<exists>rules. configured_rules sample_glob eff reason ps = Inr rules"
    if "\<forall>pattern \<in> set ps. validate_tool_pattern sample_glob pattern = Inr ()" for eff reason ps
    using that by (induction ps) auto
  with assms obtain rules where
    "configured_rules sample_glob PolicyDeny ''configured deny rule'' deny = Inr rules"
    by blast
  then show ?thesis by (simp add: build_tool_policy_def parse_policy_mode_def)
qed

lemma trim_tight: "ws_len s = 0 \<Longrightarrow> ws_len_end (rev s) = 0 \<Longrightarrow> trim s = s"
  by (simp add: trim_def trim_start_nonspace trim_end_rev.simps)

lemma sample_tight: "trim ''run_shell(*)'' = ''run_shell(*)''"
  by (rule trim_tight) (simp_all add: byte_def)

lemma sample_pattern: "validate_tool_pattern sample_glob ''run_shell(*)'' = Inr ()"
  by (simp add: validate_tool_pattern_def Let_def sample_tight byte_def sample_glob_def)

definition sample_shell_action :: coding_tool_action where
  "sample_shell_action = RunShell ''rm x'' 1 IsoBestEffort []"

lemma sample_glob_blank: "sample_glob (CHR '' '' # pat) = Some m \<Longrightarrow> m t \<Longrightarrow> \<exists>u. t = CHR '' '' # u"
  by (cases t) (auto simp: sample_glob_def)

lemma sample_shell_hit: "pattern_matches sample_glob ''run_shell(*)'' (tool_pattern_target sample_shell_action)"
  by (simp add: pattern_matches_def sample_glob_def sample_shell_action_def)

text \<open>The same rule, as written and with a blank before it.\<close>

theorem configured_denials_witness:
  "\<exists>p. build_tool_policy sample_glob ''ask'' [] [''run_shell(*)''] None = Inr p \<and>
    (\<exists>r. decide sample_glob p (Some new_turn_state) sample_shell_action = Deny r)"
proof -
  obtain p where p: "build_tool_policy sample_glob ''ask'' [] [''run_shell(*)''] None = Inr p"
    using built_policy [of "[''run_shell(*)'']"] sample_pattern by auto
  have "\<exists>r. decide sample_glob p (Some new_turn_state) sample_shell_action = Deny r"
    unfolding configured_denials [OF p] using sample_shell_hit by simp
  with p show ?thesis by blast
qed

theorem padded_denial_is_void_witness:
  "\<exists>p p'. build_tool_policy sample_glob ''ask'' [] [] None = Inr p \<and>
    build_tool_policy sample_glob ''ask'' [] [CHR '' '' # ''run_shell(*)''] None = Inr p' \<and>
    decide sample_glob p' (Some new_turn_state) sample_shell_action = decide sample_glob p (Some new_turn_state) sample_shell_action"
proof -
  obtain p where p: "build_tool_policy sample_glob ''ask'' [] [] None = Inr p" using built_policy [of "[]"] by auto
  have "action_kind sample_shell_action \<noteq> KindExternalTool" by (simp add: sample_shell_action_def)
  from padded_denial_is_void [OF sample_glob_blank p sample_pattern this] p show ?thesis by force
qed

lemma wild_star: "wild ''*)'' (t @ '')'')"
  by (induction t) simp_all

lemma sample_glob_star:
  "tool \<in> set verifier_denied_tools \<Longrightarrow>
    \<exists>m. sample_glob (tool @ ''(*)'') = Some m \<and> (\<forall>t. m (tool @ ''('' @ t @ '')''))"
  by (auto simp: verifier_denied_tools_def sample_glob_def wild_star [simplified])

theorem verifier_never_edits_witness:
  "\<exists>r. decide sample_glob (verifier_policy open_policy (Some new_turn_state)) None docs_write = Deny r"
  by (rule verifier_never_edits [OF sample_glob_star]) (simp_all add: docs_write_def)

end
