(* ===== verification/Provider_Messages.thy ===== *)
theory Provider_Messages imports Json_Values begin

text \<open>
  Messages as the model providers get them (\<^verbatim>\<open>crates/harness-providers/src/lib.rs\<close>): the check of a
  transcript before it is sent, and its wire form for Chat Completions, in which every announced
  call is answered whatever the transcript holds.
\<close>

section \<open>Messages\<close>

datatype message_role = RoleSystem | RoleUser | RoleAssistant | RoleTool

datatype image_source = InlineImage string string | RemoteImage string

record image_attachment =
  ia_source :: image_source
  ia_label :: string

record reasoning =
  rg_text :: string
  rg_signature :: "string option"

record provider_call =
  pc_call_id :: string
  pc_name :: string
  pc_arguments :: string

record provider_message =
  pm_role :: message_role
  pm_content :: string
  pm_attachments :: "image_attachment list"
  pm_tool_calls :: "provider_call list"
  pm_tool_call_id :: "string option"
  pm_reasoning :: "reasoning option"

definition max_remote_url_chars :: nat where
  "max_remote_url_chars = 8192"

definition remote_image :: "string \<Rightarrow> image_source option" where
  "remote_image url = (if (starts_with ''http://'' url \<or> starts_with ''https://'' url)
      \<and> char_count url \<le> max_remote_url_chars
    then Some (RemoteImage url) else None)"

fun image_url :: "image_source \<Rightarrow> string" where
  "image_url (InlineImage media base64) = ''data:'' @ media @ '';base64,'' @ base64"
| "image_url (RemoteImage url) = url"

definition plain_message :: "message_role \<Rightarrow> string \<Rightarrow> provider_message" where
  "plain_message role content = \<lparr>pm_role = role, pm_content = content, pm_attachments = [],
    pm_tool_calls = [], pm_tool_call_id = None, pm_reasoning = None\<rparr>"

definition assistant_with_calls :: "string \<Rightarrow> provider_call list \<Rightarrow> provider_message" where
  "assistant_with_calls content calls = (plain_message RoleAssistant content)\<lparr>pm_tool_calls := calls\<rparr>"

definition tool_result :: "string \<Rightarrow> string \<Rightarrow> provider_message" where
  "tool_result call_id payload = (plain_message RoleTool payload)\<lparr>pm_tool_call_id := Some call_id\<rparr>"

definition with_reasoning :: "reasoning option \<Rightarrow> provider_message \<Rightarrow> provider_message" where
  "with_reasoning r m = m\<lparr>pm_reasoning := (case r of
      None \<Rightarrow> None
    | Some x \<Rightarrow> if rg_text x \<noteq> [] \<or> rg_signature x \<noteq> None then Some x else None)\<rparr>"

section \<open>The transcript check\<close>

fun announce :: "string set \<Rightarrow> provider_call list \<Rightarrow> string set res" where
  "announce seen [] = Inr seen"
| "announce seen (c # cs) = (if blank (pc_call_id c) \<or> pc_call_id c \<in> seen then Inl ProviderProtocol
    else announce (insert (pc_call_id c) seen) cs)"

fun check_transcript :: "string set \<Rightarrow> string set \<Rightarrow> provider_message list \<Rightarrow> unit res" where
  "check_transcript seen got [] = Inr ()"
| "check_transcript seen got (m # ms) =
    bind_res (announce seen (pm_tool_calls m)) (\<lambda>seen.
    case pm_tool_call_id m of
      None \<Rightarrow> check_transcript seen got ms
    | Some i \<Rightarrow> if i \<notin> seen \<or> i \<in> got then Inl ProviderProtocol
        else check_transcript seen (insert i got) ms)"

definition validate_transcript :: "provider_message list \<Rightarrow> unit res" where
  "validate_transcript ms = check_transcript {} {} ms"

section \<open>The wire form\<close>

abbreviation j_text :: "string \<Rightarrow> string \<Rightarrow> string \<times> json" where
  "j_text k s \<equiv> (k, JStr s)"

definition text_block :: "string \<Rightarrow> json" where
  "text_block s = JObj [j_text ''type'' ''text'', j_text ''text'' s]"

definition image_block :: "image_attachment \<Rightarrow> json" where
  "image_block i = JObj [j_text ''type'' ''image_url'',
    (''image_url'', JObj [j_text ''url'' (image_url (ia_source i)), j_text ''detail'' ''auto''])]"

definition to_wire :: "provider_message \<Rightarrow> json" where
  "to_wire m = (let text = (if pm_role m = RoleTool then ''[tool result]'' @ newline @ pm_content m
        else pm_content m) in
    if pm_attachments m \<noteq> [] \<and> pm_role m \<in> {RoleUser, RoleTool}
    then JObj [j_text ''role'' ''user'', (''content'', JArr (text_block text # map image_block (pm_attachments m)))]
    else JObj [j_text ''role'' (case pm_role m of RoleSystem \<Rightarrow> ''system'' | RoleAssistant \<Rightarrow> ''assistant''
      | _ \<Rightarrow> ''user''), j_text ''content'' text])"

definition tool_entry :: "string \<Rightarrow> string \<Rightarrow> json" where
  "tool_entry i content = JObj [j_text ''role'' ''tool'', j_text ''tool_call_id'' i, j_text ''content'' content]"

definition call_entry :: "provider_call \<Rightarrow> json" where
  "call_entry c = JObj [j_text ''id'' (pc_call_id c), j_text ''type'' ''function'',
    (''function'', JObj [j_text ''name'' (pc_name c), j_text ''arguments'' (pc_arguments c)])]"

definition assistant_entry :: "bool \<Rightarrow> provider_message \<Rightarrow> json" where
  "assistant_entry reasoning m = JObj ([j_text ''role'' ''assistant''] @
    (if pm_tool_calls m = [] then [j_text ''content'' (pm_content m)]
     else [(''content'', if pm_content m = [] then JNull else JStr (pm_content m)),
       (''tool_calls'', JArr (map call_entry (pm_tool_calls m)))]) @
    (if reasoning then [j_text ''reasoning_content'' (case pm_reasoning m of None \<Rightarrow> [] | Some r \<Rightarrow> rg_text r)]
     else []))"

definition close_calls :: "string list \<Rightarrow> json list \<Rightarrow> json list" where
  "close_calls open images = map (\<lambda>i. tool_entry i ''No result provided'') open @
    (if images = [] then []
     else [JObj [j_text ''role'' ''user'',
       (''content'', JArr (text_block ''Attached image(s) from tool result:'' # images))]])"

text \<open>The calls announced and not answered yet, and the images of the run of results so far.\<close>

definition answers :: "string list \<Rightarrow> provider_message \<Rightarrow> string option" where
  "answers open m = (case pm_tool_call_id m of
      None \<Rightarrow> None
    | Some i \<Rightarrow> if pm_role m = RoleTool \<and> i \<in> set open then Some i else None)"

definition result_text :: "provider_message \<Rightarrow> string" where
  "result_text m = (if pm_content m = [] \<and> pm_attachments m \<noteq> [] then ''(see attached image)''
    else pm_content m)"

fun chat_loop :: "bool \<Rightarrow> string list \<Rightarrow> json list \<Rightarrow> provider_message list \<Rightarrow> json list" where
  "chat_loop reasoning open images [] = close_calls open images"
| "chat_loop reasoning open images (m # ms) = (case answers open m of
      Some i \<Rightarrow> tool_entry i (result_text m) #
        chat_loop reasoning (filter (\<lambda>x. x \<noteq> i) open) (images @ map image_block (pm_attachments m)) ms
    | None \<Rightarrow> close_calls open images @
        (if pm_role m = RoleAssistant
         then if pm_tool_calls m = [] \<and> pm_content m = [] then chat_loop reasoning [] [] ms
           else assistant_entry reasoning m # chat_loop reasoning (map pc_call_id (pm_tool_calls m)) [] ms
         else to_wire m # chat_loop reasoning [] [] ms))"

definition chat_messages :: "bool \<Rightarrow> provider_message list \<Rightarrow> json list" where
  "chat_messages reasoning ms = chat_loop reasoning [] [] ms"

section \<open>What the check accepts\<close>

definition call_ids :: "provider_message list \<Rightarrow> string list" where
  "call_ids ms = map pc_call_id (concat (map pm_tool_calls ms))"

definition result_ids :: "provider_message list \<Rightarrow> string list" where
  "result_ids ms = concat (map (\<lambda>m. case pm_tool_call_id m of None \<Rightarrow> [] | Some i \<Rightarrow> [i]) ms)"

lemma call_ids_simps [simp]:
  "call_ids [] = []" "call_ids (m # ms) = map pc_call_id (pm_tool_calls m) @ call_ids ms"
  "call_ids (ms @ ns) = call_ids ms @ call_ids ns"
  by (simp_all add: call_ids_def)

lemma result_ids_simps [simp]:
  "result_ids [] = []"
  "result_ids (m # ms) = (case pm_tool_call_id m of None \<Rightarrow> [] | Some i \<Rightarrow> [i]) @ result_ids ms"
  "result_ids (ms @ ns) = result_ids ms @ result_ids ns"
  by (simp_all add: result_ids_def)

lemma announce_ok:
  "announce seen cs = Inr s \<longleftrightarrow> (\<forall>c \<in> set cs. \<not> blank (pc_call_id c)) \<and> distinct (map pc_call_id cs) \<and>
    seen \<inter> pc_call_id ` set cs = {} \<and> s = seen \<union> pc_call_id ` set cs"
  by (induction cs arbitrary: seen) auto

definition well_paired :: "string set \<Rightarrow> string set \<Rightarrow> provider_message list \<Rightarrow> bool" where
  "well_paired seen got ms \<longleftrightarrow> (\<forall>i \<in> set (call_ids ms). \<not> blank i) \<and> distinct (call_ids ms) \<and>
    seen \<inter> set (call_ids ms) = {} \<and> distinct (result_ids ms) \<and> got \<inter> set (result_ids ms) = {} \<and>
    (\<forall>k < length ms. \<forall>i. pm_tool_call_id (ms ! k) = Some i \<longrightarrow> i \<in> seen \<union> set (call_ids (take (Suc k) ms)))"

lemma well_paired_Nil [simp]: "well_paired seen got []"
  by (simp add: well_paired_def)

lemma all_less_Suc_conv: "(\<forall>k < Suc n. P k) \<longleftrightarrow> P 0 \<and> (\<forall>k < n. P (Suc k))"
  by (metis Suc_less_eq gr0_conv_Suc not0_implies_Suc zero_less_Suc)

lemma well_paired_Cons:
  "well_paired seen got (m # ms) \<longleftrightarrow> (\<forall>c \<in> set (pm_tool_calls m). \<not> blank (pc_call_id c)) \<and>
    distinct (map pc_call_id (pm_tool_calls m)) \<and> seen \<inter> pc_call_id ` set (pm_tool_calls m) = {} \<and>
    (\<forall>i. pm_tool_call_id m = Some i \<longrightarrow> i \<in> seen \<union> pc_call_id ` set (pm_tool_calls m) \<and> i \<notin> got) \<and>
    well_paired (seen \<union> pc_call_id ` set (pm_tool_calls m))
      (got \<union> {i. pm_tool_call_id m = Some i}) ms"
  unfolding well_paired_def length_Cons all_less_Suc_conv
  by (cases "pm_tool_call_id m") (auto simp: Un_assoc)

lemma check_transcript_ok: "check_transcript seen got ms = Inr () \<longleftrightarrow> well_paired seen got ms"
proof (induction ms arbitrary: seen got)
  case (Cons m ms)
  show ?case
  proof (cases "announce seen (pm_tool_calls m)")
    case (Inl e)
    then have "\<not> ((\<forall>c \<in> set (pm_tool_calls m). \<not> blank (pc_call_id c)) \<and>
        distinct (map pc_call_id (pm_tool_calls m)) \<and> seen \<inter> pc_call_id ` set (pm_tool_calls m) = {})"
      using announce_ok [of seen "pm_tool_calls m"] by auto
    with Inl show ?thesis by (auto simp: well_paired_Cons)
  next
    case (Inr s)
    with announce_ok [of seen "pm_tool_calls m" s] show ?thesis
      by (cases "pm_tool_call_id m") (auto simp: well_paired_Cons Cons.IH)
  qed
qed simp

text \<open>
  The transcript check accepts exactly the paired transcripts: no call id is blank or announced
  twice, no call is answered twice, and every result answers a call announced no later than it.
\<close>

theorem transcript_iff:
  "validate_transcript ms = Inr () \<longleftrightarrow> (\<forall>i \<in> set (call_ids ms). \<not> blank i) \<and>
    distinct (call_ids ms) \<and> distinct (result_ids ms) \<and>
    (\<forall>k < length ms. \<forall>i. pm_tool_call_id (ms ! k) = Some i \<longrightarrow> i \<in> set (call_ids (take (Suc k) ms)))"
  by (simp add: validate_transcript_def check_transcript_ok well_paired_def)

definition sample_provider_call :: provider_call where
  "sample_provider_call = \<lparr>pc_call_id = ''c1'', pc_name = ''read'', pc_arguments = ''{}''\<rparr>"

lemma not_blank_sample: "\<not> blank (pc_call_id sample_provider_call)"
  by (simp add: sample_provider_call_def blank_def trim_start_nonspace byte_def)

theorem transcript_iff_witness:
  "validate_transcript [assistant_with_calls [] [sample_provider_call], tool_result ''c1'' ''ok''] = Inr () \<and>
    validate_transcript [tool_result ''c1'' ''ok'', assistant_with_calls [] [sample_provider_call]] \<noteq> Inr ()"
proof -
  have "validate_transcript [assistant_with_calls [] [sample_provider_call], tool_result ''c1'' ''ok''] = Inr ()"
    using not_blank_sample by (subst transcript_iff)
      (simp add: assistant_with_calls_def tool_result_def plain_message_def sample_provider_call_def all_less_Suc_conv numeral_2_eq_2)
  moreover have "validate_transcript [tool_result ''c1'' ''ok'', assistant_with_calls [] [sample_provider_call]] \<noteq> Inr ()"
    by (subst transcript_iff) (simp add: tool_result_def plain_message_def exI [of _ 0])
  ultimately show ?thesis by blast
qed

section \<open>What the wire promises\<close>

text \<open>
  The contract of the Chat Completions API, read off the entries that are sent: a \<open>tool\<close> entry
  answers a call that is still open, and any other entry comes when no call is open; it opens the
  calls it carries.
\<close>

definition wire_text :: "string \<Rightarrow> json \<Rightarrow> string" where
  "wire_text k w = (case json_get k w of Some (JStr s) \<Rightarrow> s | _ \<Rightarrow> [])"

definition wire_calls :: "json \<Rightarrow> string list" where
  "wire_calls w = (case json_get ''tool_calls'' w of Some (JArr cs) \<Rightarrow> map (wire_text ''id'') cs | _ \<Rightarrow> [])"

definition wire_step :: "string list \<Rightarrow> json \<Rightarrow> string list option" where
  "wire_step open w =
    (if wire_text ''role'' w = ''tool''
     then if wire_text ''tool_call_id'' w \<in> set open then Some (remove1 (wire_text ''tool_call_id'' w) open) else None
     else if open = [] \<and> distinct (wire_calls w) then Some (wire_calls w) else None)"

fun wire_run :: "string list \<Rightarrow> json list \<Rightarrow> string list option" where
  "wire_run open [] = Some open"
| "wire_run open (w # ws) = (case wire_step open w of None \<Rightarrow> None | Some o' \<Rightarrow> wire_run o' ws)"

lemma wire_run_append:
  "wire_run open (ws @ vs) = (case wire_run open ws of None \<Rightarrow> None | Some o' \<Rightarrow> wire_run o' vs)"
  by (induction ws arbitrary: "open") (auto split: option.splits)

lemma call_entry_id [simp]: "wire_text ''id'' (call_entry c) = pc_call_id c"
  by (simp add: wire_text_def json_get_def call_entry_def)

lemma wire_texts [simp]:
  "wire_text k (JObj ((k', JStr t) # es)) = (if k = k' then t else wire_text k (JObj es))"
  "wire_text k (JObj ((k', JArr vs) # es)) = (if k = k' then [] else wire_text k (JObj es))"
  by (simp_all add: wire_text_def json_get_def)

lemma assistant_calls: "wire_calls (assistant_entry r m) = map pc_call_id (pm_tool_calls m)"
  by (simp add: wire_calls_def json_get_def assistant_entry_def)

lemma wire_entries:
  "i \<in> set open \<Longrightarrow> wire_step open (tool_entry i c) = Some (remove1 i open)"
  "wire_step [] (to_wire m) = Some []"
  "distinct (map pc_call_id (pm_tool_calls m)) \<Longrightarrow>
    wire_step [] (assistant_entry r m) = Some (map pc_call_id (pm_tool_calls m))"
  "wire_step [] (JObj [j_text ''role'' ''user'', (''content'', x)]) = Some []"
proof -
  show "i \<in> set open \<Longrightarrow> wire_step open (tool_entry i c) = Some (remove1 i open)"
    by (simp add: wire_step_def tool_entry_def)
  show "wire_step [] (to_wire m) = Some []"
    by (cases "pm_role m") (simp_all add: wire_step_def to_wire_def Let_def wire_calls_def json_get_def)
  show "wire_step [] (assistant_entry r m) = Some (map pc_call_id (pm_tool_calls m))"
    if "distinct (map pc_call_id (pm_tool_calls m))"
    using that by (simp add: wire_step_def assistant_calls) (simp add: assistant_entry_def)
  show "wire_step [] (JObj [j_text ''role'' ''user'', (''content'', x)]) = Some []"
    by (simp add: wire_step_def wire_calls_def json_get_def)
qed

lemma close_calls_run: "wire_run open (close_calls open images) = Some []"
proof -
  have "wire_run open (map (\<lambda>i. tool_entry i ''No result provided'') open) = Some []"
    by (induction "open") (simp_all add: wire_entries)
  then show ?thesis by (simp add: close_calls_def wire_run_append wire_entries)
qed

lemma chat_loop_run:
  assumes "\<forall>m \<in> set ms. distinct (map pc_call_id (pm_tool_calls m))" and "distinct open"
  shows "wire_run open (chat_loop r open images ms) = Some []"
  using assms
proof (induction r "open" images ms rule: chat_loop.induct)
  case (1 r "open" images)
  show ?case by (simp add: close_calls_run)
next
  case (2 r "open" images m ms)
  show ?case
  proof (cases "answers open m")
    case (Some i)
    then have "i \<in> set open" by (auto simp: answers_def split: option.splits if_splits)
    moreover have "remove1 i open = filter (\<lambda>x. x \<noteq> i) open" using 2(6) by (simp add: distinct_remove1_removeAll removeAll_filter_not_eq eq_commute)
    ultimately show ?thesis using 2(4) [OF Some] 2(5,6) Some by (simp add: wire_entries)
  next
    case None
    then show ?thesis using 2
      by (simp add: wire_run_append close_calls_run wire_entries split: if_splits)
  qed
qed

text \<open>
  C26. The wire form is always well formed: whatever results are missing, late, repeated or
  unannounced in the transcript, on the wire every call that is announced is answered exactly once
  before anything else follows, and no answer stands without its open call.
\<close>

theorem wire_well_formed:
  assumes "\<forall>m \<in> set ms. distinct (map pc_call_id (pm_tool_calls m))"
  shows "wire_run [] (chat_messages r ms) = Some []"
  using chat_loop_run [OF assms, of "[]"] by (simp add: chat_messages_def)

theorem wire_well_formed_witness:
  "distinct (map pc_call_id (pm_tool_calls (assistant_with_calls [] [sample_provider_call]))) \<and>
    wire_run [] (chat_messages False [tool_result ''c1'' [], assistant_with_calls [] [sample_provider_call]]) = Some []"
  using wire_well_formed [of "[tool_result ''c1'' [], assistant_with_calls [] [sample_provider_call]]" False]
  by (simp add: assistant_with_calls_def tool_result_def plain_message_def)

end
