(* ===== verification/Provider_Streams.thy ===== *)
theory Provider_Streams imports Provider_Messages begin

text \<open>
  The events of a provider stream (\<^verbatim>\<open>crates/harness-providers/src/lib.rs\<close>), the response they
  assemble to, the repair of almost-JSON arguments (\<^verbatim>\<open>support/json_repair.rs\<close>), and what the
  runtime stores of a stream (\<^verbatim>\<open>crates/harness-runtime/src/lib.rs\<close>). Whether a text is JSON is the
  argument \<open>parses\<close> (\<^verbatim>\<open>serde_json::from_str\<close>).
\<close>

section \<open>Events and responses\<close>

datatype stream_event =
    StreamStarted ident
  | StreamText string
  | StreamThinking string
  | StreamSignature string
  | StreamCall string string string
  | StreamUsage nat nat nat nat nat
  | StreamCompleted string

definition is_completed :: "stream_event \<Rightarrow> bool" where
  "is_completed e \<longleftrightarrow> (case e of StreamCompleted _ \<Rightarrow> True | _ \<Rightarrow> False)"

record provider_response =
  rs_text :: string
  rs_reasoning :: string
  rs_signature :: "string option"
  rs_finish_reason :: "string option"
  rs_incomplete_tool_calls :: bool
  rs_tool_calls :: "provider_call list"

definition is_dispatchable :: "provider_response \<Rightarrow> bool" where
  "is_dispatchable r \<longleftrightarrow> rs_finish_reason r \<noteq> None \<and> \<not> rs_incomplete_tool_calls r"

section \<open>Repairing arguments\<close>

definition quote_char :: char where "quote_char = CHR 0x22"
definition escape_char :: char where "escape_char = CHR 0x5C"

definition valid_json_escapes :: "char list" where
  "valid_json_escapes = [quote_char, escape_char, CHR ''/'', CHR ''b'', CHR ''f'', CHR ''n'', CHR ''r'', CHR ''t'']"

definition hex_digit :: "char \<Rightarrow> bool" where
  "hex_digit c \<longleftrightarrow> ascii_digit c \<or> (65 \<le> byte c \<and> byte c \<le> 70) \<or> (97 \<le> byte c \<and> byte c \<le> 102)"

definition is_control_character :: "char \<Rightarrow> bool" where
  "is_control_character c \<longleftrightarrow> byte c \<le> 31"

definition hex_chars :: string where "hex_chars = ''0123456789abcdef''"

definition escape_control_character :: "char \<Rightarrow> string" where
  "escape_control_character c = escape_char # (let n = byte c in
    if n = 8 then ''b'' else if n = 12 then ''f'' else if n = 10 then ''n'' else if n = 13 then ''r''
    else if n = 9 then ''t'' else [CHR ''u'', CHR ''0'', CHR ''0'', hex_chars ! (n div 16), hex_chars ! (n mod 16)])"

fun repair_from :: "bool \<Rightarrow> string \<Rightarrow> string" where
  "repair_from in_string [] = []"
| "repair_from False (c # cs) = c # repair_from (c = quote_char) cs"
| "repair_from True (c # cs) =
    (if c = quote_char then c # repair_from False cs
     else if c = escape_char then (case cs of
        [] \<Rightarrow> [escape_char, escape_char]
      | n # ds \<Rightarrow>
          if n = CHR ''u'' then
            if length (take 4 ds) = 4 \<and> list_all hex_digit (take 4 ds)
            then escape_char # n # take 4 ds @ repair_from True (drop 4 ds)
            else escape_char # escape_char # repair_from True (n # ds)
          else if n \<in> set valid_json_escapes then escape_char # n # repair_from True ds
          else escape_char # escape_char # repair_from True (n # ds))
     else if is_control_character c then escape_control_character c @ repair_from True cs
     else c # repair_from True cs)"

definition repair_json :: "string \<Rightarrow> string" where
  "repair_json s = repair_from False s"

definition repaired_arguments :: "(string \<Rightarrow> bool) \<Rightarrow> string \<Rightarrow> string option" where
  "repaired_arguments parses s = (if parses s then Some s
    else let r = repair_json s in if r \<noteq> s \<and> parses r then Some r else None)"

section \<open>Assembling a stream\<close>

text \<open>A delta of a call goes to the call of its id, the first delta of an id opens the call.\<close>

fun add_delta :: "string \<Rightarrow> string \<Rightarrow> string \<Rightarrow> provider_call list \<Rightarrow> provider_call list" where
  "add_delta i name args [] = [\<lparr>pc_call_id = i, pc_name = name, pc_arguments = args\<rparr>]"
| "add_delta i name args (c # cs) = (if pc_call_id c = i
    then c\<lparr>pc_name := (if name = [] then pc_name c else name), pc_arguments := pc_arguments c @ args\<rparr> # cs
    else c # add_delta i name args cs)"

definition started_response :: provider_response where
  "started_response = \<lparr>rs_text = [], rs_reasoning = [], rs_signature = None, rs_finish_reason = None,
    rs_incomplete_tool_calls = False, rs_tool_calls = []\<rparr>"

fun absorb :: "provider_response \<Rightarrow> stream_event \<Rightarrow> provider_response" where
  "absorb r (StreamText t) = r\<lparr>rs_text := rs_text r @ t\<rparr>"
| "absorb r (StreamThinking t) = r\<lparr>rs_reasoning := rs_reasoning r @ t\<rparr>"
| "absorb r (StreamSignature t) = r\<lparr>rs_signature := Some (case rs_signature r of None \<Rightarrow> t | Some s \<Rightarrow> s @ t)\<rparr>"
| "absorb r (StreamCall i name args) = r\<lparr>rs_tool_calls := add_delta i name args (rs_tool_calls r)\<rparr>"
| "absorb r (StreamCompleted reason) = r\<lparr>rs_finish_reason := Some reason\<rparr>"
| "absorb r _ = r"

definition repair_call :: "(string \<Rightarrow> bool) \<Rightarrow> provider_call \<Rightarrow> provider_call" where
  "repair_call parses c = (case repaired_arguments parses (pc_arguments c) of
      None \<Rightarrow> c | Some a \<Rightarrow> c\<lparr>pc_arguments := a\<rparr>)"

definition finish_response :: "(string \<Rightarrow> bool) \<Rightarrow> provider_response \<Rightarrow> provider_response" where
  "finish_response parses r = (let calls = map (repair_call parses) (rs_tool_calls r) in
    r\<lparr>rs_tool_calls := calls, rs_incomplete_tool_calls :=
      list_ex (\<lambda>c. blank (pc_name c) \<or> \<not> parses (pc_arguments c)) calls\<rparr>)"

definition assemble_stream :: "(string \<Rightarrow> bool) \<Rightarrow> stream_event list \<Rightarrow> provider_response" where
  "assemble_stream parses es = finish_response parses (foldl absorb started_response es)"

section \<open>What the runtime keeps of a stream\<close>

fun joined :: "stream_event \<Rightarrow> stream_event \<Rightarrow> stream_event option" where
  "joined (StreamText t) (StreamText d) = Some (StreamText (t @ d))"
| "joined (StreamCall i name args) (StreamCall j name' args') = (if i = j
    then Some (StreamCall i (if name' = [] then name else name') (args @ args')) else None)"
| "joined _ _ = None"

definition private_event :: "stream_event \<Rightarrow> bool" where
  "private_event e \<longleftrightarrow> (case e of StreamThinking _ \<Rightarrow> True | StreamSignature _ \<Rightarrow> True | _ \<Rightarrow> False)"

definition durable_push :: "stream_event list \<Rightarrow> stream_event \<Rightarrow> stream_event list" where
  "durable_push acc e = (if private_event e then acc
    else if acc = [] then [e]
    else case joined (last acc) e of
      Some m \<Rightarrow> butlast acc @ [m]
    | None \<Rightarrow> acc @ [e])"

definition durable_provider_events :: "stream_event list \<Rightarrow> stream_event list" where
  "durable_provider_events es = foldl durable_push [] es"

definition canceled_partial :: "stream_event list \<Rightarrow> stream_event list" where
  "canceled_partial es = filter (\<lambda>e. case e of StreamStarted _ \<Rightarrow> True | StreamText _ \<Rightarrow> True
    | StreamThinking _ \<Rightarrow> True | _ \<Rightarrow> False) es"

fun usage_total :: "stream_event \<Rightarrow> nat option" where
  "usage_total (StreamUsage prompt completion all_tokens read written) =
    (let n = (if 0 < all_tokens then all_tokens else saturating_add u64_max prompt completion) in
     if 0 < n then Some n else None)"
| "usage_total _ = None"

fun measured_prompt_of :: "stream_event \<Rightarrow> nat option" where
  "measured_prompt_of (StreamUsage prompt completion all_tokens read written) = (if 0 < prompt then Some prompt else None)"
| "measured_prompt_of _ = None"

fun find_map :: "('a \<Rightarrow> 'b option) \<Rightarrow> 'a list \<Rightarrow> 'b option" where
  "find_map f [] = None"
| "find_map f (x # xs) = (case f x of Some y \<Rightarrow> Some y | None \<Rightarrow> find_map f xs)"

definition provider_usage :: "stream_event list \<Rightarrow> nat option" where
  "provider_usage es = find_map usage_total (rev es)"

definition measured_prompt :: "stream_event list \<Rightarrow> nat option" where
  "measured_prompt es = find_map measured_prompt_of (rev es)"

section \<open>Repair\<close>

lemma hex_chars_nth: "k < 16 \<Longrightarrow> hex_digit (hex_chars ! k)"
proof -
  have "list_all hex_digit hex_chars"
    by (simp add: hex_chars_def hex_digit_def ascii_digit_def byte_def)
  moreover have "length hex_chars = 16" by (simp add: hex_chars_def)
  ultimately show "k < 16 \<Longrightarrow> hex_digit (hex_chars ! k)" by (simp add: list_all_length)
qed

lemma hex_digit_zero: "hex_digit (CHR ''0'')"
  by (simp add: hex_digit_def ascii_digit_def byte_def)

lemma escape_chars: "escape_char \<noteq> quote_char" "escape_char \<in> set valid_json_escapes" "escape_char \<noteq> CHR ''u''"
  by (simp_all add: valid_json_escapes_def) (simp_all add: escape_char_def quote_char_def)

lemma repair_unicode:
  "hex_digit a \<Longrightarrow> hex_digit b \<Longrightarrow> hex_digit c \<Longrightarrow> hex_digit d \<Longrightarrow>
    repair_from True (escape_char # CHR ''u'' # a # b # c # d # s) =
      escape_char # CHR ''u'' # a # b # c # d # repair_from True s"
  by (simp add: escape_chars numeral_eq_Suc)

lemma repair_short:
  "n \<in> set valid_json_escapes \<Longrightarrow> n \<noteq> CHR ''u'' \<Longrightarrow>
    repair_from True (escape_char # n # s) = escape_char # n # repair_from True s"
  by (simp add: escape_chars)

lemma control_escape_cases:
  assumes "is_control_character c"
  obtains (short) n where "escape_control_character c = [escape_char, n]" "n \<in> set valid_json_escapes" "n \<noteq> CHR ''u''"
  | (unicode) x y where "escape_control_character c = [escape_char, CHR ''u'', CHR ''0'', CHR ''0'', x, y]"
      "hex_digit x" "hex_digit y"
proof (cases "byte c \<in> {8, 12, 10, 13, 9}")
  case True
  then show thesis using short by (auto simp: escape_control_character_def Let_def valid_json_escapes_def)
next
  case False
  from assms have "byte c div 16 < 16" "byte c mod 16 < 16" by (simp_all add: is_control_character_def)
  with unicode [OF _ hex_chars_nth hex_chars_nth] False show thesis
    by (simp add: escape_control_character_def Let_def)
qed

lemma repair_from_escape:
  assumes "is_control_character c"
  shows "repair_from True (escape_control_character c @ s) = escape_control_character c @ repair_from True s"
  using assms by (cases rule: control_escape_cases) (simp_all add: repair_short repair_unicode hex_digit_zero del: repair_from.simps)

lemma repair_from_idem: "repair_from b (repair_from b s) = repair_from b s"
proof (induction b s rule: repair_from.induct)
  case (3 c cs)
  note ne = escape_chars(1) and esc = escape_chars(2,3)
  show ?case
  proof (cases "c = escape_char")
    case True
    show ?thesis
    proof (cases cs)
      case Nil
      with True ne esc show ?thesis by simp
    next
      case (Cons n ds)
      let ?hex = "length (take 4 ds) = 4 \<and> list_all hex_digit (take 4 ds)"
      show ?thesis
      proof (cases "n = CHR ''u'' \<and> ?hex")
        case True
        then have "take 4 (take 4 ds @ repair_from True (drop 4 ds)) = take 4 ds"
            "drop 4 (take 4 ds @ repair_from True (drop 4 ds)) = repair_from True (drop 4 ds)" by simp_all
        with True Cons \<open>c = escape_char\<close> ne 3 show ?thesis by simp
      next
        case False
        then show ?thesis using Cons \<open>c = escape_char\<close> ne esc 3 by auto
      qed
    qed
  next
    case False
    then show ?thesis using 3 by (auto simp: repair_from_escape)
  qed
qed simp_all

text \<open>
  Repairing arguments is stable: text that is JSON is kept as it is, a repaired text is repaired
  to itself, and what the repair returns parses.
\<close>

theorem repair_stable:
  "repair_json (repair_json s) = repair_json s \<and>
    (parses s \<longrightarrow> repaired_arguments parses s = Some s) \<and>
    (\<forall>r. repaired_arguments parses s = Some r \<longrightarrow> parses r \<and> repaired_arguments parses r = Some r)"
proof -
  have "repair_json (repair_json s) = repair_json s" by (simp add: repair_json_def repair_from_idem)
  then show ?thesis by (auto simp: repaired_arguments_def Let_def split: if_splits)
qed

theorem repair_stable_witness:
  "repair_json (repair_json [quote_char, CHR 0x0A, quote_char]) = repair_json [quote_char, CHR 0x0A, quote_char] \<and>
    repaired_arguments (\<lambda>s. CHR 0x0A \<notin> set s) [quote_char, CHR 0x0A, quote_char] =
      Some [quote_char, escape_char, CHR ''n'', quote_char]"
  using repair_stable [of "[quote_char, CHR 0x0A, quote_char]" "\<lambda>s. CHR 0x0A \<notin> set s"]
  by (auto simp: repaired_arguments_def repair_json_def quote_char_def escape_char_def is_control_character_def
      escape_control_character_def byte_def)

section \<open>What is stored assembles to the same response\<close>

definition muted :: "provider_response \<Rightarrow> provider_response" where
  "muted r = r\<lparr>rs_reasoning := [], rs_signature := None\<rparr>"

lemma muted_absorb: "muted (absorb r e) = (if private_event e then muted r else absorb (muted r) e)"
  by (cases e) (simp_all add: muted_def private_event_def)

lemma add_delta_twice:
  "add_delta i name' args' (add_delta i name args cs) = add_delta i (if name' = [] then name else name') (args @ args') cs"
  by (induction cs) auto

lemma absorb_joined: "joined a e = Some m \<Longrightarrow> absorb (absorb r a) e = absorb r m"
  by (cases "(a, e)" rule: joined.cases) (auto simp: add_delta_twice split: if_splits)

lemma foldl_durable_push:
  "foldl absorb r (durable_push acc e) = (if private_event e then foldl absorb r acc else absorb (foldl absorb r acc) e)"
proof (cases "private_event e \<or> acc = [] \<or> joined (last acc) e = None")
  case True
  then show ?thesis by (auto simp: durable_push_def)
next
  case False
  then obtain a as m where acc: "acc = as @ [a]" and m: "joined a e = Some m"
    by (cases acc rule: rev_cases) auto
  with False show ?thesis by (simp add: durable_push_def absorb_joined [OF m])
qed

lemma durable_absorbs: "foldl absorb (muted r) (durable_provider_events es) = muted (foldl absorb r es)"
proof (induction es rule: rev_induct)
  case (snoc e es)
  have "durable_provider_events (es @ [e]) = durable_push (durable_provider_events es) e"
    by (simp add: durable_provider_events_def)
  then show ?case by (simp add: foldl_durable_push snoc.IH muted_absorb)
qed (simp add: durable_provider_events_def)

lemma find_map_append: "find_map f (xs @ ys) = (case find_map f xs of Some y \<Rightarrow> Some y | None \<Rightarrow> find_map f ys)"
  by (induction xs) (auto split: option.splits)

lemma find_map_durable:
  assumes "\<And>e. private_event e \<Longrightarrow> f e = None" and "\<And>a e m. joined a e = Some m \<Longrightarrow> f a = None \<and> f e = None \<and> f m = None"
  shows "find_map f (rev (durable_provider_events es)) = find_map f (rev es)"
proof (induction es rule: rev_induct)
  case (snoc e es)
  let ?d = "durable_provider_events es"
  have d: "durable_provider_events (es @ [e]) = durable_push ?d e" by (simp add: durable_provider_events_def)
  have "find_map f (rev (durable_push ?d e)) = (case f e of Some y \<Rightarrow> Some y | None \<Rightarrow> find_map f (rev ?d))"
  proof (cases "private_event e \<or> ?d = [] \<or> joined (last ?d) e = None")
    case True
    then show ?thesis using assms(1) by (cases "f e") (auto simp: durable_push_def)
  next
    case False
    then obtain a as m where "?d = as @ [a]" "joined a e = Some m" "\<not> private_event e"
      by (cases ?d rule: rev_cases) auto
    with assms(2) show ?thesis by (simp add: durable_push_def)
  qed
  with snoc.IH show ?case by (cases "f e") (simp_all add: d)
qed (simp add: durable_provider_events_def)

text \<open>
  C35. The stored events of an attempt assemble to the response the live stream assembled to, its
  private reasoning aside, and report the same usage: joining the deltas and leaving the reasoning
  out loses nothing else.
\<close>

theorem durable_same_response:
  "assemble_stream parses (durable_provider_events es) = muted (assemble_stream parses es) \<and>
    provider_usage (durable_provider_events es) = provider_usage es \<and>
    measured_prompt (durable_provider_events es) = measured_prompt es"
proof -
  have "muted started_response = started_response" by (simp add: muted_def started_response_def)
  then have "foldl absorb started_response (durable_provider_events es) = muted (foldl absorb started_response es)"
    using durable_absorbs [of started_response es] by simp
  then have "assemble_stream parses (durable_provider_events es) = muted (assemble_stream parses es)"
    by (simp add: assemble_stream_def finish_response_def muted_def Let_def)
  moreover have "find_map usage_total (rev (durable_provider_events es)) = find_map usage_total (rev es)"
    by (rule find_map_durable) (auto simp: private_event_def elim!: joined.elims split: stream_event.splits if_splits)
  moreover have "find_map measured_prompt_of (rev (durable_provider_events es)) = find_map measured_prompt_of (rev es)"
    by (rule find_map_durable) (auto simp: private_event_def elim!: joined.elims split: stream_event.splits if_splits)
  ultimately show ?thesis by (simp add: provider_usage_def measured_prompt_def)
qed

section \<open>What may be dispatched\<close>

lemma add_delta_ids: "map pc_call_id (add_delta i name args cs) =
    (if i \<in> set (map pc_call_id cs) then map pc_call_id cs else map pc_call_id cs @ [i])"
  by (induction cs) auto

lemma absorb_distinct: "distinct (map pc_call_id (rs_tool_calls r)) \<Longrightarrow> distinct (map pc_call_id (rs_tool_calls (absorb r e)))"
  by (cases e) (simp_all add: add_delta_ids)

lemma foldl_absorb_distinct:
  "distinct (map pc_call_id (rs_tool_calls r)) \<Longrightarrow> distinct (map pc_call_id (rs_tool_calls (foldl absorb r es)))"
  by (induction es arbitrary: r) (simp_all add: absorb_distinct)

lemma repair_call_id [simp]: "pc_call_id (repair_call parses c) = pc_call_id c" "pc_name (repair_call parses c) = pc_name c"
  by (simp_all add: repair_call_def split: option.splits)

text \<open>
  A response that may be dispatched is a finished one: the stream named a reason, every call
  has a name and arguments that parse, and no two calls share an id.
\<close>

theorem dispatchable_complete:
  assumes "r = assemble_stream parses es"
  shows "distinct (map pc_call_id (rs_tool_calls r)) \<and>
    (is_dispatchable r \<longleftrightarrow> (\<exists>reason. StreamCompleted reason \<in> set es) \<and>
      (\<forall>c \<in> set (rs_tool_calls r). \<not> blank (pc_name c) \<and> parses (pc_arguments c)))"
proof -
  let ?f = "foldl absorb started_response es"
  have "distinct (map pc_call_id (rs_tool_calls ?f))"
    by (rule foldl_absorb_distinct) (simp add: started_response_def)
  then have ids: "distinct (map pc_call_id (rs_tool_calls r))"
    by (simp add: assms assemble_stream_def finish_response_def Let_def o_def)
  have "rs_finish_reason (foldl absorb q es) \<noteq> None \<longleftrightarrow> rs_finish_reason q \<noteq> None \<or> (\<exists>reason. StreamCompleted reason \<in> set es)" for q
  proof (induction es arbitrary: q)
    case (Cons e es)
    then show ?case by (cases e) auto
  qed simp
  then have "rs_finish_reason r \<noteq> None \<longleftrightarrow> (\<exists>reason. StreamCompleted reason \<in> set es)"
    by (simp add: assms assemble_stream_def finish_response_def Let_def started_response_def)
  moreover have "\<not> rs_incomplete_tool_calls r \<longleftrightarrow>
      (\<forall>c \<in> set (rs_tool_calls r). \<not> blank (pc_name c) \<and> parses (pc_arguments c))"
    by (simp add: assms assemble_stream_def finish_response_def Let_def list_ex_iff)
  ultimately show ?thesis using ids by (simp add: is_dispatchable_def)
qed

theorem dispatchable_complete_witness:
  "is_dispatchable (assemble_stream (\<lambda>s. s = ''{}'') [StreamCall ''a'' ''f'' ''{'', StreamCall ''a'' [] ''}'',
      StreamCompleted ''tool_calls'']) \<and>
    map pc_arguments (rs_tool_calls (assemble_stream (\<lambda>s. s = ''{}'') [StreamCall ''a'' ''f'' ''{'',
      StreamCall ''a'' [] ''}'', StreamCompleted ''tool_calls''])) = [''{}'']"
proof -
  let ?r = "assemble_stream (\<lambda>s. s = ''{}'') [StreamCall ''a'' ''f'' ''{'', StreamCall ''a'' [] ''}'', StreamCompleted ''tool_calls'']"
  have calls: "rs_tool_calls ?r = [\<lparr>pc_call_id = ''a'', pc_name = ''f'', pc_arguments = ''{}''\<rparr>]"
    by (simp add: assemble_stream_def finish_response_def started_response_def repair_call_def repaired_arguments_def Let_def)
  then show ?thesis using dispatchable_complete [OF refl, of "\<lambda>s. s = ''{}''" "[StreamCall ''a'' ''f'' ''{'',
      StreamCall ''a'' [] ''}'', StreamCompleted ''tool_calls'']"]
    by (simp add: blank_def trim_start_nonspace byte_def)
qed

end
