(* ===== verification/Sse_Decoder.thy ===== *)
theory Sse_Decoder imports Provider_Streams begin

text \<open>
  The decoder of a provider's event stream (\<^verbatim>\<open>SseDecoder\<close> of
  \<^verbatim>\<open>crates/harness-providers/src/lib.rs\<close>): bytes in, events out, under the limits of the stream. An
  error ends the stream, so the state an error leaves behind is not modelled. The JSON text parser
  is the argument \<open>parse\<close> (\<^verbatim>\<open>serde_json::from_str\<close>).
\<close>

section \<open>State\<close>

record sse_limits =
  sl_max_buffered_bytes :: nat
  sl_max_frame_bytes :: nat
  sl_max_tool_calls :: nat
  sl_max_arguments_bytes :: nat
  sl_max_output_bytes :: nat

definition default_limits :: sse_limits where
  "default_limits = \<lparr>sl_max_buffered_bytes = 4 * 1024 * 1024, sl_max_frame_bytes = 1024 * 1024,
    sl_max_tool_calls = 64, sl_max_arguments_bytes = 1024 * 1024, sl_max_output_bytes = 16 * 1024 * 1024\<rparr>"

text \<open>What the decoder knows of the stream; the bytes not parsed yet are kept beside it.\<close>

record sse_state =
  se_tool_call_ids :: "nat \<times> nat \<Rightarrow> string option"
  se_id_only_ids :: "string set"
  se_identity_count :: nat
  se_arguments_bytes :: "string \<Rightarrow> nat"
  se_decoded_bytes :: nat
  se_last_tool_call_id :: "string option"
  se_saw_terminal :: bool
  se_saw_done :: bool
  se_limits :: sse_limits

record sse_decoder =
  sd_buffer :: string
  sd_state :: sse_state

definition with_limits :: "sse_limits \<Rightarrow> sse_decoder" where
  "with_limits l = \<lparr>sd_buffer = [], sd_state = \<lparr>se_tool_call_ids = Map.empty, se_id_only_ids = {},
    se_identity_count = 0, se_arguments_bytes = (\<lambda>_. 0), se_decoded_bytes = 0, se_last_tool_call_id = None,
    se_saw_terminal = False, se_saw_done = False, se_limits = l\<rparr>\<rparr>"

type_synonym 'a decoding = "sse_state \<Rightarrow> ('a \<times> sse_state) res"

section \<open>Counting\<close>

definition note_identity :: "sse_state \<Rightarrow> sse_state res" where
  "note_identity s = (let n = saturating_add u64_max (se_identity_count s) 1 in
    if sl_max_tool_calls (se_limits s) < n then Inl FrameLimitExceeded
    else Inr (s\<lparr>se_identity_count := n\<rparr>))"

definition note_output :: "nat \<Rightarrow> sse_state \<Rightarrow> sse_state res" where
  "note_output bytes s = (let n = saturating_add u64_max (se_decoded_bytes s) bytes in
    if sl_max_output_bytes (se_limits s) < n then Inl OutputLimitExceeded
    else Inr (s\<lparr>se_decoded_bytes := n\<rparr>))"

section \<open>One fragment of a call\<close>

definition default_tool_call_id :: string where
  "default_tool_call_id = ''tool-call''"

definition slot_id :: "nat \<Rightarrow> nat \<Rightarrow> string" where
  "slot_id choice index = default_tool_call_id @ ''-'' @ decimal choice @ ''-'' @ decimal index"

definition str_field :: "string \<Rightarrow> json \<Rightarrow> string option" where
  "str_field k v = Option.bind (json_get k v) as_str"

definition nonempty :: "string option \<Rightarrow> string option" where
  "nonempty x = (case x of Some [] \<Rightarrow> None | _ \<Rightarrow> x)"

definition fragment_call_id :: "nat \<Rightarrow> nat option \<Rightarrow> string option \<Rightarrow> string decoding" where
  "fragment_call_id choice index named s = (case (index, named) of
      (Some n, Some i) \<Rightarrow> (let t = s\<lparr>se_tool_call_ids := (se_tool_call_ids s)((choice, n) \<mapsto> i)\<rparr> in
        case se_tool_call_ids s (choice, n) of
          Some previous \<Rightarrow> if previous \<noteq> i then Inl ProviderProtocol else Inr (i, t)
        | None \<Rightarrow> bind_res (note_identity t) (\<lambda>t. Inr (i, t)))
    | (Some n, None) \<Rightarrow> (case se_tool_call_ids s (choice, n) of
          Some i \<Rightarrow> Inr (i, s)
        | None \<Rightarrow> bind_res (note_identity s) (\<lambda>t.
            Inr (slot_id choice n, t\<lparr>se_tool_call_ids := (se_tool_call_ids t)((choice, n) \<mapsto> slot_id choice n)\<rparr>)))
    | (None, Some i) \<Rightarrow>
        if i \<in> se_id_only_ids s then Inr (i, s)
        else bind_res (note_identity (s\<lparr>se_id_only_ids := insert i (se_id_only_ids s)\<rparr>)) (\<lambda>t. Inr (i, t))
    | (None, None) \<Rightarrow> Inr (case se_last_tool_call_id s of Some i \<Rightarrow> i | None \<Rightarrow> default_tool_call_id, s))"

definition tool_call_fragment :: "nat \<Rightarrow> json \<Rightarrow> stream_event decoding" where
  "tool_call_fragment choice fragment s =
    bind_res (fragment_call_id choice (Option.bind (json_get ''index'' fragment) as_u64)
      (nonempty (str_field ''id'' fragment)) s) (\<lambda>(i, s).
    let function = (case json_get ''function'' fragment of Some f \<Rightarrow> f | None \<Rightarrow> JObj []);
      arguments = (case str_field ''arguments'' function of Some a \<Rightarrow> a | None \<Rightarrow> []);
      total_bytes = saturating_add u64_max (se_arguments_bytes s i) (length arguments);
      s = s\<lparr>se_last_tool_call_id := Some i, se_arguments_bytes := (se_arguments_bytes s)(i := total_bytes)\<rparr> in
    if sl_max_arguments_bytes (se_limits s) < total_bytes then Inl OutputLimitExceeded
    else bind_res (note_output (length arguments) s) (\<lambda>s.
      Inr (StreamCall i (case str_field ''name'' function of Some n \<Rightarrow> n | None \<Rightarrow> []) arguments, s)))"

fun fragment_events :: "nat \<Rightarrow> json list \<Rightarrow> stream_event list decoding" where
  "fragment_events choice [] s = Inr ([], s)"
| "fragment_events choice (f # fs) s =
    bind_res (tool_call_fragment choice f s) (\<lambda>(e, s).
    bind_res (fragment_events choice fs s) (\<lambda>(es, s). Inr (e # es, s)))"

section \<open>One frame\<close>

definition u64_field :: "string \<Rightarrow> json \<Rightarrow> nat" where
  "u64_field k v = (case Option.bind (json_get k v) as_u64 of Some n \<Rightarrow> n | None \<Rightarrow> 0)"

definition usage_event :: "json \<Rightarrow> stream_event" where
  "usage_event u = StreamUsage (u64_field ''prompt_tokens'' u) (u64_field ''completion_tokens'' u)
    (u64_field ''total_tokens'' u)
    (max (case json_get ''prompt_tokens_details'' u of Some d \<Rightarrow> u64_field ''cached_tokens'' d | None \<Rightarrow> 0)
      (u64_field ''prompt_cache_hit_tokens'' u)) 0"

definition object_field :: "string \<Rightarrow> json \<Rightarrow> json option" where
  "object_field k v = (case json_get k v of Some (JObj es) \<Rightarrow> Some (JObj es) | _ \<Rightarrow> None)"

definition frame_usage :: "json \<Rightarrow> json list \<Rightarrow> stream_event option" where
  "frame_usage v choices = map_option usage_event (case object_field ''usage'' v of
      Some u \<Rightarrow> Some u
    | None \<Rightarrow> (case choices of [] \<Rightarrow> None | c # _ \<Rightarrow> object_field ''usage'' c))"

definition text_part :: "(string \<Rightarrow> stream_event) \<Rightarrow> string option \<Rightarrow> stream_event list decoding" where
  "text_part event text s = (case nonempty text of
      None \<Rightarrow> Inr ([], s)
    | Some t \<Rightarrow> bind_res (note_output (length t) s) (\<lambda>s. Inr ([event t], s)))"

definition reasoning_text :: "json \<Rightarrow> string option" where
  "reasoning_text delta = find_map (\<lambda>k. str_field k delta) [''reasoning_content'', ''reasoning'', ''reasoning_text'']"

definition choice_events :: "nat \<Rightarrow> json \<Rightarrow> stream_event list decoding" where
  "choice_events n choice s = (let delta = (case json_get ''delta'' choice of Some d \<Rightarrow> d | None \<Rightarrow> JObj []) in
    bind_res (text_part StreamText (str_field ''content'' delta) s) (\<lambda>(content, s).
    bind_res (text_part StreamThinking (reasoning_text delta) s) (\<lambda>(thought, s).
    bind_res (case Option.bind (json_get ''tool_calls'' delta) as_array of
        None \<Rightarrow> Inr ([], s) | Some fs \<Rightarrow> fragment_events n fs s) (\<lambda>(calls, s).
    case str_field ''finish_reason'' choice of
      None \<Rightarrow> Inr (content @ thought @ calls, s)
    | Some reason \<Rightarrow> Inr (content @ thought @ calls @ [StreamCompleted reason], s\<lparr>se_saw_terminal := True\<rparr>)))))"

fun choices_events :: "nat \<Rightarrow> json list \<Rightarrow> stream_event list decoding" where
  "choices_events n [] s = Inr ([], s)"
| "choices_events n (c # cs) s =
    bind_res (choice_events n c s) (\<lambda>(es, s).
    bind_res (choices_events (Suc n) cs s) (\<lambda>(fs, s). Inr (es @ fs, s)))"

definition frame_events :: "(string \<Rightarrow> json option) \<Rightarrow> string \<Rightarrow> stream_event list decoding" where
  "frame_events parse data s = (case parse data of
      None \<Rightarrow> Inl ProviderProtocol
    | Some v \<Rightarrow> (let choices = (case Option.bind (json_get ''choices'' v) as_array of Some cs \<Rightarrow> cs | None \<Rightarrow> []);
          usage = frame_usage v choices in
        if choices = [] then (case usage of
            Some u \<Rightarrow> Inr ([u], s)
          | None \<Rightarrow> (case json_get ''error'' v of
              Some e \<Rightarrow> if e \<noteq> JNull then Inl ProviderProtocol else Inr ([], s)
            | None \<Rightarrow> Inr ([], s)))
        else bind_res (choices_events 0 choices s) (\<lambda>(es, s).
          let all_events = (case usage of Some u \<Rightarrow> [u] | None \<Rightarrow> []) @ es in
          Inr (if all_events = [] then [StreamText []] else all_events, s))))"

text \<open>The first field that is there is taken, although the code means the first that says something.\<close>

lemma empty_field_hides_reasoning:
  "nonempty (reasoning_text (JObj [(''reasoning_content'', JStr []), (''reasoning'', JStr ''because'')])) = None"
  by (simp add: reasoning_text_def str_field_def json_get_def nonempty_def)

section \<open>Bytes to frames\<close>

definition continues :: "char \<Rightarrow> bool" where
  "continues c \<longleftrightarrow> 128 \<le> byte c \<and> byte c < 192"

fun valid_utf8 :: "string \<Rightarrow> bool" where
  "valid_utf8 [] \<longleftrightarrow> True"
| "valid_utf8 (a # s) \<longleftrightarrow>
    (if byte a < 128 then valid_utf8 s
     else if 194 \<le> byte a \<and> byte a < 224 then (case s of b # t \<Rightarrow> continues b \<and> valid_utf8 t | [] \<Rightarrow> False)
     else if 224 \<le> byte a \<and> byte a < 240 then (case s of
        b # c # t \<Rightarrow> continues b \<and> continues c \<and> (byte a = 224 \<longrightarrow> 160 \<le> byte b) \<and> (byte a = 237 \<longrightarrow> byte b < 160) \<and>
          valid_utf8 t
      | _ \<Rightarrow> False)
     else if 240 \<le> byte a \<and> byte a < 245 then (case s of
        b # c # d # t \<Rightarrow> continues b \<and> continues c \<and> continues d \<and> (byte a = 240 \<longrightarrow> 144 \<le> byte b) \<and>
          (byte a = 244 \<longrightarrow> byte b < 144) \<and> valid_utf8 t
      | _ \<Rightarrow> False)
     else False)"

text \<open>\<^verbatim>\<open>str::lines\<close>.\<close>

fun split_lines :: "string \<Rightarrow> string \<Rightarrow> string list" where
  "split_lines acc [] = (if acc = [] then [] else [rev acc])"
| "split_lines acc (c # s) = (if c = CHR 0x0A
    then rev (case acc of d # r \<Rightarrow> if d = CHR 0x0D then r else acc | [] \<Rightarrow> acc) # split_lines [] s
    else split_lines (c # acc) s)"

definition frame_data :: "string \<Rightarrow> string" where
  "frame_data frame = join_with newline (map (\<lambda>l. trim (drop 5 l)) (filter (starts_with ''data:'') (split_lines [] frame)))"

text \<open>The length of the first frame with the blank line that ends it.\<close>

fun frame_end :: "string \<Rightarrow> nat option" where
  "frame_end (a # b # s) =
    (if a = CHR 0x0A \<and> b = CHR 0x0A then Some 2
     else if a = CHR 0x0D \<and> starts_with [CHR 0x0A, CHR 0x0D, CHR 0x0A] (b # s) then Some 4
     else map_option Suc (frame_end (b # s)))"
| "frame_end _ = None"

definition one_frame :: "(string \<Rightarrow> json option) \<Rightarrow> string \<Rightarrow> stream_event list decoding" where
  "one_frame parse frame s =
    (if sl_max_frame_bytes (se_limits s) < length frame then Inl FrameLimitExceeded
     else if \<not> valid_utf8 frame then Inl ProviderProtocol
     else let data = frame_data frame in
       if data = [] then Inr ([], s)
       else if data = ''[DONE]'' then Inr (if se_saw_terminal s then [] else [StreamCompleted ''stop''],
         s\<lparr>se_saw_done := True, se_saw_terminal := True\<rparr>)
       else frame_events parse data s)"

lemma starts_with_chars:
  "starts_with [] s" "\<not> starts_with (p # ps) []" "starts_with (p # ps) (c # s) \<longleftrightarrow> c = p \<and> starts_with ps s"
  by (auto simp: starts_with_def)

lemma starts_with_length: "starts_with p s \<Longrightarrow> length p \<le> length s"
  by (auto simp: starts_with_def dest: arg_cong [of _ _ length])

lemma frame_end_bounds: "frame_end s = Some n \<Longrightarrow> 2 \<le> n \<and> n \<le> length s"
  by (induction s arbitrary: n rule: frame_end.induct)
    (auto dest: starts_with_length split: if_splits)

function drain_frames :: "(string \<Rightarrow> json option) \<Rightarrow> string \<Rightarrow> sse_state \<Rightarrow> (stream_event list \<times> string \<times> sse_state) res" where
  "drain_frames parse buffer s = (case frame_end buffer of
      None \<Rightarrow> Inr ([], buffer, s)
    | Some n \<Rightarrow> bind_res (one_frame parse (take n buffer) s) (\<lambda>(es, s).
        bind_res (drain_frames parse (drop n buffer) s) (\<lambda>(fs, rest, s). Inr (es @ fs, rest, s))))"
  by auto
termination
  by (relation "measure (\<lambda>(parse, buffer, s). length buffer)") (auto dest: frame_end_bounds)

declare drain_frames.simps [simp del]

definition feed :: "(string \<Rightarrow> json option) \<Rightarrow> string \<Rightarrow> sse_decoder \<Rightarrow> (stream_event list \<times> sse_decoder) res" where
  "feed parse bytes d = (let buffer = sd_buffer d @ bytes in
    if sl_max_buffered_bytes (se_limits (sd_state d)) < length buffer then Inl FrameLimitExceeded
    else bind_res (drain_frames parse buffer (sd_state d)) (\<lambda>(es, rest, s).
      Inr (es, \<lparr>sd_buffer = rest, sd_state = s\<rparr>)))"

definition ascii_whitespace :: "char \<Rightarrow> bool" where
  "ascii_whitespace c \<longleftrightarrow> byte c \<in> {9, 10, 12, 13, 32}"

definition finish_stream :: "(string \<Rightarrow> json option) \<Rightarrow> sse_decoder \<Rightarrow> (stream_event list \<times> sse_decoder) res" where
  "finish_stream parse d = bind_res (drain_frames parse (sd_buffer d) (sd_state d)) (\<lambda>(es, rest, s).
    if list_all ascii_whitespace rest then Inr (es, \<lparr>sd_buffer = rest, sd_state = s\<rparr>) else Inl ProviderProtocol)"

section \<open>Chunks do not matter\<close>

lemma frame_end_append: "frame_end s = Some n \<Longrightarrow> frame_end (s @ t) = Some n"
proof (induction s arbitrary: n rule: frame_end.induct)
  case (1 a b s)
  show ?case
  proof (cases "a = CHR 0x0A \<and> b = CHR 0x0A")
    case True
    with 1(2) show ?thesis by simp
  next
    case first: False
    show ?thesis
    proof (cases "a = CHR 0x0D \<and> starts_with [CHR 0x0A, CHR 0x0D, CHR 0x0A] (b # s)")
      case True
      then have "starts_with [CHR 0x0A, CHR 0x0D, CHR 0x0A] ((b # s) @ t)"
        by (auto simp: starts_with_def dest: arg_cong [of _ _ length])
      with True first 1(2) show ?thesis by simp
    next
      case False
      with first 1(2) obtain m where m: "frame_end (b # s) = Some m" "n = Suc m" by auto
      have "\<not> (a = CHR 0x0D \<and> starts_with [CHR 0x0A, CHR 0x0D, CHR 0x0A] ((b # s) @ t))"
      proof
        assume h: "a = CHR 0x0D \<and> starts_with [CHR 0x0A, CHR 0x0D, CHR 0x0A] ((b # s) @ t)"
        then have b: "b = CHR 0x0A" "starts_with [CHR 0x0D, CHR 0x0A] (s @ t)" by (simp_all add: starts_with_chars)
        with h False have "s = [] \<or> s = [CHR 0x0D]"
          by (cases s rule: list.exhaust; cases "tl s" rule: list.exhaust) (auto simp: starts_with_chars)
        with m(1) b(1) show False by auto
      qed
      then show ?thesis using first 1(1) [OF first False m(1)] m(2) by auto
    qed
  qed
qed simp_all

lemma drain_append:
  "drain_frames parse (x @ y) s = bind_res (drain_frames parse x s) (\<lambda>(es, rest, s).
    bind_res (drain_frames parse (rest @ y) s) (\<lambda>(fs, rest, s). Inr (es @ fs, rest, s)))"
proof (induction parse x s rule: drain_frames.induct)
  case (1 parse x s)
  show ?case
  proof (cases "frame_end x")
    case None
    have "drain_frames parse x s = Inr ([], x, s)" by (subst drain_frames.simps) (simp add: None)
    then show ?thesis by (simp add: bind_res_def split: sum.split)
  next
    case (Some n)
    note n = frame_end_append [OF Some, of y] frame_end_bounds [OF Some]
    show ?thesis
      by (subst (1 2) drain_frames.simps)
        (use n Some 1 [OF Some] in \<open>auto simp: bind_res_def split: sum.splits\<close>)
  qed
qed

lemma bind_res_pair: "bind_res r (\<lambda>(x, y). k x y) = Inr z \<longleftrightarrow> (\<exists>x y. r = Inr (x, y) \<and> k x y = Inr z)"
  by (auto simp: bind_res_def split: sum.splits)

lemma note_limits:
  "note_identity s = Inr t \<Longrightarrow> se_limits t = se_limits s" "note_output n s = Inr t \<Longrightarrow> se_limits t = se_limits s"
  by (auto simp: note_identity_def note_output_def Let_def split: if_splits)

lemma fragment_limits: "tool_call_fragment c f s = Inr (e, t) \<Longrightarrow> se_limits t = se_limits s"
  by (auto simp: tool_call_fragment_def fragment_call_id_def bind_res_Inr Let_def bind_res_pair
      dest!: note_limits split: option.splits if_splits)

lemma fragments_limits: "fragment_events c fs s = Inr (es, t) \<Longrightarrow> se_limits t = se_limits s"
proof (induction fs arbitrary: s es)
  case (Cons f fs)
  then show ?case by (auto simp: bind_res_pair dest!: fragment_limits)
qed simp

lemma text_limits: "text_part ev x s = Inr (es, t) \<Longrightarrow> se_limits t = se_limits s"
  by (auto simp: text_part_def bind_res_Inr dest: note_limits split: option.splits)

lemma choice_limits: "choice_events n c s = Inr (es, t) \<Longrightarrow> se_limits t = se_limits s"
  by (auto simp: choice_events_def Let_def bind_res_pair dest!: text_limits fragments_limits split: option.splits)

lemma choices_limits: "choices_events n cs s = Inr (es, t) \<Longrightarrow> se_limits t = se_limits s"
proof (induction cs arbitrary: n s es)
  case (Cons c cs)
  then show ?case by (auto simp: bind_res_pair dest!: choice_limits)
qed simp

lemma frame_limits: "one_frame parse frame s = Inr (es, t) \<Longrightarrow> se_limits t = se_limits s"
  by (auto simp: one_frame_def frame_events_def Let_def bind_res_pair dest!: choices_limits
      split: if_splits option.splits)

lemma drain_rest:
  "drain_frames parse x s = Inr (es, rest, t) \<Longrightarrow> frame_end rest = None \<and> length rest \<le> length x \<and> se_limits t = se_limits s"
proof (induction parse x s arbitrary: es rule: drain_frames.induct)
  case (1 parse x s)
  show ?case
  proof (cases "frame_end x")
    case None
    with 1(2) show ?thesis by (subst (asm) drain_frames.simps) simp
  next
    case (Some n)
    from 1(2) Some obtain fs u gs where "one_frame parse (take n x) s = Inr (fs, u)"
        "drain_frames parse (drop n x) u = Inr (gs, rest, t)"
      by (subst (asm) drain_frames.simps) (auto simp: bind_res_pair)
    with 1(1) [OF Some] frame_limits show ?thesis by fastforce
  qed
qed

lemma feed_split:
  assumes "feed parse (x @ y) d = Inr (es, e)"
  shows "\<exists>fs c gs. feed parse x d = Inr (fs, c) \<and> feed parse y c = Inr (gs, e) \<and> es = fs @ gs"
proof -
  let ?s = "sd_state d" and ?max = "sl_max_buffered_bytes (se_limits (sd_state d))"
  from assms obtain rest t where fits: "length (sd_buffer d @ x @ y) \<le> ?max"
      and all: "drain_frames parse ((sd_buffer d @ x) @ y) ?s = Inr (es, rest, t)" and e: "e = \<lparr>sd_buffer = rest, sd_state = t\<rparr>"
    by (auto simp: feed_def Let_def bind_res_pair split: if_splits)
  from all have "bind_res (drain_frames parse (sd_buffer d @ x) ?s) (\<lambda>(es, rest, s).
      bind_res (drain_frames parse (rest @ y) s) (\<lambda>(fs, rest, s). Inr (es @ fs, rest, s))) = Inr (es, rest, t)"
    by (rule trans [OF drain_append [symmetric]])
  then obtain fs r u gs where one: "drain_frames parse (sd_buffer d @ x) ?s = Inr (fs, r, u)"
      and two: "drain_frames parse (r @ y) u = Inr (gs, rest, t)" and es: "es = fs @ gs"
    by (auto simp: bind_res_pair)
  have "feed parse x d = Inr (fs, \<lparr>sd_buffer = r, sd_state = u\<rparr>)"
    using fits one by (simp add: feed_def)
  moreover have "feed parse y \<lparr>sd_buffer = r, sd_state = u\<rparr> = Inr (gs, e)"
    using fits two drain_rest [OF one] by (simp add: feed_def e)
  ultimately show ?thesis using es by blast
qed

text \<open>A stream is its chunks, in order.\<close>

fun feed_all :: "(string \<Rightarrow> json option) \<Rightarrow> string list \<Rightarrow> sse_decoder \<Rightarrow> (stream_event list \<times> sse_decoder) res" where
  "feed_all parse [] d = Inr ([], d)"
| "feed_all parse (x # xs) d = bind_res (feed parse x d) (\<lambda>(es, d).
    bind_res (feed_all parse xs d) (\<lambda>(fs, d). Inr (es @ fs, d)))"

lemma drain_nothing: "frame_end x = None \<Longrightarrow> drain_frames parse x s = Inr ([], x, s)"
  by (subst drain_frames.simps) simp

lemma feed_pieces:
  "frame_end (sd_buffer d) = None \<Longrightarrow> feed parse (concat chunks) d = Inr (es, e) \<Longrightarrow> feed_all parse chunks d = Inr (es, e)"
proof (induction chunks arbitrary: d es)
  case Nil
  from Nil(2) drain_nothing [OF Nil(1)] show ?case by (auto simp: feed_def Let_def split: if_splits)
next
  case (Cons x xs)
  from Cons.prems(2) feed_split [of parse x "concat xs" d es e] obtain fs c gs where
    c: "feed parse x d = Inr (fs, c)" and rest: "feed parse (concat xs) c = Inr (gs, e)" and es: "es = fs @ gs" by auto
  from c have "frame_end (sd_buffer c) = None"
    by (auto simp: feed_def Let_def bind_res_pair dest: drain_rest split: if_splits)
  from Cons.IH [OF this rest] c es show ?case by simp
qed

lemma feed_all_drain:
  assumes "frame_end (sd_buffer d) = None"
  shows "feed_all parse chunks d = (case drain_frames parse (sd_buffer d @ concat chunks) (sd_state d) of
      Inr (es, rest, s) \<Rightarrow> Inr (es, \<lparr>sd_buffer = rest, sd_state = s\<rparr>) | Inl c \<Rightarrow> Inl c) \<or>
    feed_all parse chunks d = Inl FrameLimitExceeded"
  using assms
proof (induction chunks arbitrary: d)
  case Nil
  then show ?case by (simp add: drain_nothing)
next
  case (Cons x xs)
  let ?s = "sd_state d"
  have whole: "drain_frames parse (sd_buffer d @ x @ concat xs) ?s =
      bind_res (drain_frames parse (sd_buffer d @ x) ?s) (\<lambda>(es, rest, s).
        bind_res (drain_frames parse (rest @ concat xs) s) (\<lambda>(fs, rest, s). Inr (es @ fs, rest, s)))"
    using drain_append [of parse "sd_buffer d @ x" "concat xs" ?s] by (rule trans [OF arg_cong2 [of _ _ _ _ "drain_frames parse"], rotated 2]) simp_all
  show ?case
  proof (cases "feed parse x d")
    case (Inl c)
    then have "c = FrameLimitExceeded \<or> drain_frames parse (sd_buffer d @ x) ?s = Inl c"
      by (auto simp: feed_def Let_def bind_res_def split: if_splits sum.splits)
    with Inl whole show ?thesis by auto
  next
    case (Inr r)
    then obtain es c where r: "feed parse x d = Inr (es, c)" by (cases r) auto
    then have c: "drain_frames parse (sd_buffer d @ x) ?s = Inr (es, sd_buffer c, sd_state c)"
      by (auto simp: feed_def Let_def bind_res_pair split: if_splits)
    from Cons.IH [of c] drain_rest [OF c] have "feed_all parse xs c = (case drain_frames parse (sd_buffer c @ concat xs) (sd_state c) of
        Inr (es, rest, s) \<Rightarrow> Inr (es, \<lparr>sd_buffer = rest, sd_state = s\<rparr>) | Inl c \<Rightarrow> Inl c) \<or>
      feed_all parse xs c = Inl FrameLimitExceeded" by simp
    then show ?thesis
    proof
      assume "feed_all parse xs c = Inl FrameLimitExceeded"
      with r show ?thesis by simp
    next
      assume "feed_all parse xs c = (case drain_frames parse (sd_buffer c @ concat xs) (sd_state c) of
        Inr (es, rest, s) \<Rightarrow> Inr (es, \<lparr>sd_buffer = rest, sd_state = s\<rparr>) | Inl c \<Rightarrow> Inl c)"
      with r c whole show ?thesis
        by (cases "drain_frames parse (sd_buffer c @ concat xs) (sd_state c)") auto
    qed
  qed
qed

text \<open>
  C27. The transport's cuts do not matter: two ways to cut the same bytes give the same events in the
  same order, the same error or the same decoder, unless the buffer limit stops one of them; and
  bytes that can be read in one piece can be read in any pieces, with the same result.
\<close>

theorem chunks_irrelevant:
  assumes "frame_end (sd_buffer d) = None" and "concat xs = concat ys"
  shows "(feed_all parse xs d = feed_all parse ys d \<or>
      feed_all parse xs d = Inl FrameLimitExceeded \<or> feed_all parse ys d = Inl FrameLimitExceeded) \<and>
    (\<forall>es e. feed parse (concat xs) d = Inr (es, e) \<longrightarrow> feed_all parse xs d = Inr (es, e))"
  using feed_all_drain [OF assms(1), of parse xs] feed_all_drain [OF assms(1), of parse ys]
    feed_pieces [OF assms(1), of parse xs] unfolding assms(2) by metis

theorem chunks_irrelevant_witness:
  "feed_all (\<lambda>_. Some (JObj [])) [[CHR 0x0A], [CHR 0x0A, CHR ''x'']] (with_limits default_limits) =
      feed_all (\<lambda>_. Some (JObj [])) [[CHR 0x0A, CHR 0x0A], ''x''] (with_limits default_limits) \<or>
    feed_all (\<lambda>_. Some (JObj [])) [[CHR 0x0A], [CHR 0x0A, CHR ''x'']] (with_limits default_limits) = Inl FrameLimitExceeded \<or>
    feed_all (\<lambda>_. Some (JObj [])) [[CHR 0x0A, CHR 0x0A], ''x''] (with_limits default_limits) = Inl FrameLimitExceeded"
  using chunks_irrelevant [of "with_limits default_limits" "[[CHR 0x0A], [CHR 0x0A, CHR ''x'']]"
      "[[CHR 0x0A, CHR 0x0A], ''x'']" "\<lambda>_. Some (JObj [])"] by (simp add: with_limits_def)

section \<open>What the limits bound\<close>

fun event_bytes :: "stream_event \<Rightarrow> nat" where
  "event_bytes (StreamText t) = length t"
| "event_bytes (StreamThinking t) = length t"
| "event_bytes (StreamCall i name args) = length args"
| "event_bytes _ = 0"

fun call_bytes :: "string \<Rightarrow> stream_event \<Rightarrow> nat" where
  "call_bytes j (StreamCall i name args) = (if i = j then length args else 0)"
| "call_bytes j _ = 0"

fun event_call :: "stream_event \<Rightarrow> string set" where
  "event_call (StreamCall i name args) = {i}"
| "event_call _ = {}"

definition known_calls :: "sse_state \<Rightarrow> string set" where
  "known_calls s = ran (se_tool_call_ids s) \<union> se_id_only_ids s"

text \<open>What the counters of a state mean for the events decoded so far.\<close>

definition stream_within :: "sse_limits \<Rightarrow> stream_event list \<Rightarrow> sse_state \<Rightarrow> bool" where
  "stream_within l es s \<longleftrightarrow> se_limits s = l \<and>
    sum_list (map event_bytes es) \<le> se_decoded_bytes s \<and> se_decoded_bytes s \<le> sl_max_output_bytes l \<and>
    (\<forall>i. sum_list (map (call_bytes i) es) \<le> se_arguments_bytes s i \<and> se_arguments_bytes s i \<le> sl_max_arguments_bytes l) \<and>
    finite (dom (se_tool_call_ids s)) \<and> finite (se_id_only_ids s) \<and>
    card (dom (se_tool_call_ids s)) + card (se_id_only_ids s) \<le> se_identity_count s \<and>
    se_identity_count s \<le> sl_max_tool_calls l \<and>
    (\<Union>(event_call ` set es) \<union> set_option (se_last_tool_call_id s)) \<subseteq> insert default_tool_call_id (known_calls s)"

definition bounded_limits :: "sse_limits \<Rightarrow> bool" where
  "bounded_limits l \<longleftrightarrow> sl_max_tool_calls l < u64_max \<and> sl_max_arguments_bytes l < u64_max \<and> sl_max_output_bytes l < u64_max"

lemma saturating_within: "saturating_add u64_max a b \<le> m \<Longrightarrow> m < u64_max \<Longrightarrow> saturating_add u64_max a b = a + b"
  by (simp add: saturating_add_def min_def split: if_splits)

lemma card_known: 
  assumes "stream_within l es s" shows "finite (known_calls s) \<and> card (known_calls s) \<le> sl_max_tool_calls l"
proof -
  have m: "finite (dom (se_tool_call_ids s))" "finite (se_id_only_ids s)"
      and c: "card (dom (se_tool_call_ids s)) + card (se_id_only_ids s) \<le> sl_max_tool_calls l"
    using assms by (simp_all add: stream_within_def)
  have r: "ran (se_tool_call_ids s) = (the \<circ> se_tool_call_ids s) ` dom (se_tool_call_ids s)"
    by (force simp: ran_def image_def)
  have "card (ran (se_tool_call_ids s)) \<le> card (dom (se_tool_call_ids s))" unfolding r by (rule card_image_le [OF m(1)])
  with c have "card (ran (se_tool_call_ids s)) + card (se_id_only_ids s) \<le> sl_max_tool_calls l" by simp
  moreover have "finite (known_calls s)" using m by (simp add: known_calls_def finite_ran)
  ultimately show ?thesis using card_Un_le [of "ran (se_tool_call_ids s)" "se_id_only_ids s"] by (simp add: known_calls_def)
qed

lemma note_identity_Inr:
  assumes "bounded_limits (se_limits s)" and "note_identity s = Inr t"
  shows "t = s\<lparr>se_identity_count := Suc (se_identity_count s)\<rparr> \<and> Suc (se_identity_count s) \<le> sl_max_tool_calls (se_limits s)"
proof -
  from assms(2) have "saturating_add u64_max (se_identity_count s) 1 \<le> sl_max_tool_calls (se_limits s)"
    by (simp add: note_identity_def Let_def split: if_splits)
  from saturating_within [OF this] assms show ?thesis
    by (auto simp: note_identity_def bounded_limits_def Let_def split: if_splits)
qed

lemma note_output_Inr:
  assumes "bounded_limits (se_limits s)" and "note_output n s = Inr t"
  shows "t = s\<lparr>se_decoded_bytes := se_decoded_bytes s + n\<rparr> \<and> se_decoded_bytes s + n \<le> sl_max_output_bytes (se_limits s)"
proof -
  from assms(2) have "saturating_add u64_max (se_decoded_bytes s) n \<le> sl_max_output_bytes (se_limits s)"
    by (simp add: note_output_def Let_def split: if_splits)
  from saturating_within [OF this] assms show ?thesis
    by (auto simp: note_output_def bounded_limits_def Let_def split: if_splits)
qed

lemma within_slot:
  assumes "stream_within l es s" and "se_tool_call_ids s k = None" and "Suc (se_identity_count s) \<le> sl_max_tool_calls l"
  shows "stream_within l es (s\<lparr>se_tool_call_ids := (se_tool_call_ids s)(k \<mapsto> i), se_identity_count := Suc (se_identity_count s)\<rparr>)"
proof -
  have "k \<notin> dom (se_tool_call_ids s)" using assms(2) by auto
  moreover have "ran ((se_tool_call_ids s)(k \<mapsto> i)) = insert i (ran (se_tool_call_ids s))" using assms(2) by simp
  ultimately show ?thesis using assms by (auto simp: stream_within_def known_calls_def)
qed

lemma within_id:
  assumes "stream_within l es s" and "i \<notin> se_id_only_ids s" and "Suc (se_identity_count s) \<le> sl_max_tool_calls l"
  shows "stream_within l es (s\<lparr>se_id_only_ids := insert i (se_id_only_ids s), se_identity_count := Suc (se_identity_count s)\<rparr>)"
  using assms by (auto simp: stream_within_def known_calls_def)

lemma fragment_id_within:
  assumes w: "stream_within l es s" and b: "bounded_limits l" and r: "fragment_call_id choice index named s = Inr (i, t)"
  shows "stream_within l es t \<and> i \<in> insert default_tool_call_id (known_calls t)"
proof -
  have l: "se_limits s = l" using w by (simp add: stream_within_def)
  note id = note_identity_Inr [OF b [folded l], unfolded l]
  show ?thesis
  proof (cases index)
    case None
    then show ?thesis
    proof (cases named)
      case (Some j)
      with None r w l b show ?thesis
        by (auto simp: fragment_call_id_def bind_res_Inr known_calls_def intro: within_id
            dest!: note_identity_Inr [rotated] split: if_splits)
    next
      case none: None
      with None r w show ?thesis by (auto simp: fragment_call_id_def stream_within_def split: option.splits)
    qed
  next
    case (Some n)
    show ?thesis
    proof (cases "se_tool_call_ids s (choice, n)")
      case None
      show ?thesis
      proof (cases named)
        case (Some j)
        with \<open>index = Some n\<close> None r l b have "t = s\<lparr>se_tool_call_ids := (se_tool_call_ids s)((choice, n) \<mapsto> j),
            se_identity_count := Suc (se_identity_count s)\<rparr> \<and> i = j \<and> Suc (se_identity_count s) \<le> sl_max_tool_calls l"
          by (auto simp: fragment_call_id_def Let_def bind_res_Inr dest!: note_identity_Inr [rotated])
        with within_slot [OF w None] show ?thesis by (auto simp: known_calls_def ran_def)
      next
        case none: None
        with \<open>index = Some n\<close> None r l b have "t = s\<lparr>se_tool_call_ids := (se_tool_call_ids s)((choice, n) \<mapsto> i),
            se_identity_count := Suc (se_identity_count s)\<rparr> \<and> Suc (se_identity_count s) \<le> sl_max_tool_calls l"
          by (auto simp: fragment_call_id_def Let_def bind_res_Inr dest!: id)
        with within_slot [OF w None] show ?thesis by (auto simp: known_calls_def ran_def)
      qed
    next
      case old: (Some j)
      have j: "j \<in> known_calls s" using old by (auto simp: known_calls_def ran_def)
      from Some old r have "i = j \<and> t = s"
        by (cases named) (auto simp: fragment_call_id_def Let_def fun_upd_idem split: if_splits)
      with w j show ?thesis by simp
    qed
  qed
qed

lemma within_silent:
  assumes "stream_within l es s"
  shows "stream_within l (es @ [StreamText []]) s" "stream_within l (es @ [StreamCompleted r]) (s\<lparr>se_saw_terminal := b\<rparr>)"
    "stream_within l (es @ [StreamCompleted r]) (s\<lparr>se_saw_done := b, se_saw_terminal := b'\<rparr>)"
    "stream_within l es (s\<lparr>se_saw_terminal := b\<rparr>)" "stream_within l es (s\<lparr>se_saw_done := b, se_saw_terminal := b'\<rparr>)"
    "stream_within l (es @ [StreamUsage i j k m n]) s"
  using assms by (simp_all add: stream_within_def known_calls_def)

lemma fragment_within:
  assumes w: "stream_within l es s" and b: "bounded_limits l" and r: "tool_call_fragment c f s = Inr (e, t)"
  shows "stream_within l (es @ [e]) t"
proof -
  from r obtain i u where u: "fragment_call_id c (Option.bind (json_get ''index'' f) as_u64)
      (nonempty (str_field ''id'' f)) s = Inr (i, u)" by (auto simp: tool_call_fragment_def bind_res_pair)
  from fragment_id_within [OF w b u] have wu: "stream_within l es u" and iu: "i \<in> insert default_tool_call_id (known_calls u)" by auto
  from wu have lu: "se_limits u = l" by (simp add: stream_within_def)
  define v args where "v = u\<lparr>se_last_tool_call_id := Some i, se_arguments_bytes :=
      (se_arguments_bytes u)(i := se_arguments_bytes u i + length args)\<rparr>"
    and "args = (case str_field ''arguments'' (case json_get ''function'' f of Some f \<Rightarrow> f | None \<Rightarrow> JObj []) of
      Some a \<Rightarrow> a | None \<Rightarrow> [])"
  define sum where "sum = saturating_add u64_max (se_arguments_bytes u i) (length args)"
  from r u lu have fits: "sum \<le> sl_max_arguments_bytes l"
    by (auto simp: tool_call_fragment_def Let_def sum_def args_def split: if_splits)
  with b have sum: "sum = se_arguments_bytes u i + length args"
    unfolding sum_def by (intro saturating_within) (auto simp: bounded_limits_def)
  from r u have "\<exists>name. bind_res (note_output (length args) v) (\<lambda>s. Inr (StreamCall i name args, s)) = Inr (e, t)"
    by (auto simp: tool_call_fragment_def Let_def v_def sum [symmetric] simp flip: args_def sum_def split: if_splits)
  then obtain name where n: "note_output (length args) v = Inr t" and e: "e = StreamCall i name args"
    by (auto simp: bind_res_Inr)
  have "se_limits v = l" using lu by (simp add: v_def)
  from note_output_Inr [of v, unfolded this, OF b n]
  have t: "t = v\<lparr>se_decoded_bytes := se_decoded_bytes u + length args\<rparr>" and out: "se_decoded_bytes u + length args \<le> sl_max_output_bytes l"
    by (simp_all add: v_def)
  show ?thesis using wu iu fits sum out unfolding t v_def e
    by (auto simp: stream_within_def known_calls_def)
qed

lemma fragments_within:
  "stream_within l es s \<Longrightarrow> bounded_limits l \<Longrightarrow> fragment_events c fs s = Inr (gs, t) \<Longrightarrow> stream_within l (es @ gs) t"
proof (induction fs arbitrary: es s gs)
  case (Cons f fs)
  from Cons.prems(3) obtain e u hs where e: "tool_call_fragment c f s = Inr (e, u)"
      and hs: "fragment_events c fs u = Inr (hs, t)" "gs = e # hs" by (auto simp: bind_res_pair)
  from Cons.IH [OF fragment_within [OF Cons.prems(1,2) e] Cons.prems(2) hs(1)] hs(2) show ?case by simp
qed simp

lemma text_within:
  assumes "stream_within l es s" and "bounded_limits l" and "text_part ev x s = Inr (gs, t)"
    and "\<And>x. event_bytes (ev x) = length x \<and> event_call (ev x) = {} \<and> (\<forall>i. call_bytes i (ev x) = 0)"
  shows "stream_within l (es @ gs) t"
proof (cases "nonempty x")
  case None
  with assms(1,3) show ?thesis by (simp add: text_part_def)
next
  case (Some y)
  with assms(3) obtain u where u: "note_output (length y) s = Inr t" "gs = [ev y]" by (auto simp: text_part_def bind_res_Inr)
  have "se_limits s = l" using assms(1) by (simp add: stream_within_def)
  from note_output_Inr [of s, unfolded this, OF assms(2) u(1)] u(2) assms(1,4) show ?thesis
    by (auto simp: stream_within_def known_calls_def)
qed

lemma choice_within:
  assumes "stream_within l es s" and b: "bounded_limits l" and "choice_events n c s = Inr (gs, t)"
  shows "stream_within l (es @ gs) t"
proof -
  define d where "d = (case json_get ''delta'' c of Some d \<Rightarrow> d | None \<Rightarrow> JObj [])"
  from assms(3) obtain ct u th v cl w where
      1: "text_part StreamText (str_field ''content'' d) s = Inr (ct, u)"
      and 2: "text_part StreamThinking (reasoning_text d) u = Inr (th, v)"
      and 3: "(case Option.bind (json_get ''tool_calls'' d) as_array of
          None \<Rightarrow> Inr ([], v) | Some fs \<Rightarrow> fragment_events n fs v) = Inr (cl, w)"
      and 4: "(case str_field ''finish_reason'' c of None \<Rightarrow> (ct @ th @ cl, w)
          | Some r \<Rightarrow> (ct @ th @ cl @ [StreamCompleted r], w\<lparr>se_saw_terminal := True\<rparr>)) = (gs, t)"
    by (cases "str_field ''finish_reason'' c") (auto simp: choice_events_def bind_res_pair simp flip: d_def)
  have "stream_within l (es @ ct) u" by (rule text_within [OF assms(1) b 1]) simp
  then have "stream_within l ((es @ ct) @ th) v" by (rule text_within [OF _ b 2]) simp
  then have "stream_within l (((es @ ct) @ th) @ cl) w"
    using 3 by (auto intro: fragments_within [OF _ b] simp del: append_assoc split: option.splits)
  with 4 within_silent(2) show ?thesis by (fastforce split: option.splits)
qed

lemma choices_within:
  "stream_within l es s \<Longrightarrow> bounded_limits l \<Longrightarrow> choices_events n cs s = Inr (gs, t) \<Longrightarrow> stream_within l (es @ gs) t"
proof (induction cs arbitrary: n es s gs)
  case (Cons c cs)
  from Cons.prems(3) obtain fs u hs where e: "choice_events n c s = Inr (fs, u)"
      and hs: "choices_events (Suc n) cs u = Inr (hs, t)" "gs = fs @ hs" by (auto simp: bind_res_pair)
  from Cons.IH [OF choice_within [OF Cons.prems(1,2) e] Cons.prems(2) hs(1)] hs(2) show ?case by simp
qed simp

lemma within_usage: "stream_within l (u @ es) s \<longleftrightarrow> stream_within l es s" if "list_all (\<lambda>e. \<exists>i j k m n. e = StreamUsage i j k m n) u"
  using that
proof (induction u)
  case (Cons e u)
  then show ?case by (auto simp: stream_within_def)
qed simp

lemma within_swap: "stream_within l (es @ us @ gs) s \<longleftrightarrow> stream_within l (us @ es @ gs) s"
  by (auto simp: stream_within_def ac_simps)

lemma frame_within:
  assumes w: "stream_within l es s" and b: "bounded_limits l" and r: "frame_events parse data s = Inr (gs, t)"
  shows "stream_within l (es @ gs) t"
proof -
  from r obtain v where v: "parse data = Some v" by (auto simp: frame_events_def split: option.splits)
  define cs where "cs = (case Option.bind (json_get ''choices'' v) as_array of Some cs \<Rightarrow> cs | None \<Rightarrow> [])"
  have u: "frame_usage v cs = Some u \<Longrightarrow> \<exists>i j k m n. u = StreamUsage i j k m n" for u
    by (auto simp: frame_usage_def usage_event_def)
  show ?thesis
  proof (cases "cs = []")
    case True
    with r v u w show ?thesis
      by (auto simp: frame_events_def within_silent simp flip: cs_def split: option.splits if_splits)
  next
    case False
    with r v obtain hs where h: "choices_events 0 cs s = Inr (hs, t)"
        and gs: "gs = (let a = (case frame_usage v cs of Some u \<Rightarrow> [u] | None \<Rightarrow> []) @ hs in if a = [] then [StreamText []] else a)"
      by (auto simp: frame_events_def bind_res_pair Let_def simp flip: cs_def)
    define us where "us = (case frame_usage v cs of Some u \<Rightarrow> [u] | None \<Rightarrow> [])"
    have us: "list_all (\<lambda>e. \<exists>i j k m n. e = StreamUsage i j k m n) us" using u by (auto simp: us_def split: option.splits)
    from choices_within [OF w b h] have "stream_within l (es @ us @ hs) t"
      using within_swap [of l es us hs t] within_usage [OF us, of l "es @ hs" t] by blast
    moreover have "stream_within l (es @ [StreamText []]) t" if "us @ hs = []" using that choices_within [OF w b h] within_silent(1) by simp
    ultimately show ?thesis by (simp add: gs Let_def flip: us_def)
  qed
qed

lemma one_frame_within:
  assumes "stream_within l es s" and "bounded_limits l" and "one_frame parse frame s = Inr (gs, t)"
  shows "stream_within l (es @ gs) t"
  using assms frame_within [OF assms(1,2)]
  by (auto simp: one_frame_def Let_def within_silent split: if_splits)

lemma drain_within:
  "drain_frames parse x s = Inr (gs, rest, t) \<Longrightarrow> stream_within l es s \<Longrightarrow> bounded_limits l \<Longrightarrow> stream_within l (es @ gs) t"
proof (induction parse x s arbitrary: es gs rule: drain_frames.induct)
  case (1 parse x s)
  show ?case
  proof (cases "frame_end x")
    case None
    with 1(2,3) show ?thesis by (subst (asm) drain_frames.simps) simp
  next
    case (Some n)
    from 1(2) Some obtain fs u hs where f: "one_frame parse (take n x) s = Inr (fs, u)"
        "drain_frames parse (drop n x) u = Inr (hs, rest, t)" "gs = fs @ hs"
      by (subst (asm) drain_frames.simps) (auto simp: bind_res_pair)
    from 1(1) [OF Some f(2) one_frame_within [OF 1(3,4) f(1)] 1(4)] f(3) show ?thesis by simp
  qed
qed

lemma feed_within:
  "feed parse x d = Inr (gs, e) \<Longrightarrow> stream_within l es (sd_state d) \<Longrightarrow> bounded_limits l \<Longrightarrow> stream_within l (es @ gs) (sd_state e)"
  by (auto simp: feed_def Let_def bind_res_pair intro: drain_within split: if_splits)

lemma feed_all_within:
  "feed_all parse xs d = Inr (gs, e) \<Longrightarrow> stream_within l es (sd_state d) \<Longrightarrow> bounded_limits l \<Longrightarrow> stream_within l (es @ gs) (sd_state e)"
proof (induction xs arbitrary: d es gs)
  case (Cons x xs)
  from Cons.prems(1) obtain fs c hs where c: "feed parse x d = Inr (fs, c)" "feed_all parse xs c = Inr (hs, e)" "gs = fs @ hs"
    by (auto simp: bind_res_pair)
  from Cons.IH [OF c(2) feed_within [OF c(1) Cons.prems(2,3)] Cons.prems(3)] c(3) show ?case by simp
qed simp

text \<open>
  C28. Whatever the provider sends, a stream read within limits below the \<^verbatim>\<open>u64\<close> maximum yields no
  more text, reasoning and argument bytes than the output limit, no more argument bytes for any one
  call than the argument limit, and no more calls than the call limit, where the fragments that
  name no call and have no index, which share one placeholder id, are not counted.
\<close>

theorem stream_bounded:
  assumes "bounded_limits l" and "feed_all parse chunks (with_limits l) = Inr (es, d)"
  shows "sum_list (map event_bytes es) \<le> sl_max_output_bytes l \<and>
    sum_list (map (call_bytes i) es) \<le> sl_max_arguments_bytes l \<and>
    card (\<Union>(event_call ` set es) - {default_tool_call_id}) \<le> sl_max_tool_calls l"
proof -
  have "stream_within l [] (sd_state (with_limits l))" by (simp add: stream_within_def with_limits_def known_calls_def)
  from feed_all_within [OF assms(2) this assms(1)] have w: "stream_within l es (sd_state d)" by simp
  let ?k = "known_calls (sd_state d)"
  have k: "finite ?k" "card ?k \<le> sl_max_tool_calls l" using card_known [OF w] by simp_all
  have "\<Union>(event_call ` set es) - {default_tool_call_id} \<subseteq> ?k" using w by (auto simp: stream_within_def)
  then have "card (\<Union>(event_call ` set es) - {default_tool_call_id}) \<le> card ?k" using k(1) by (intro card_mono)
  also note k(2)
  moreover have "sum_list (map event_bytes es) \<le> sl_max_output_bytes l"
    using w unfolding stream_within_def by (elim conjE) (rule le_trans)
  moreover have "sum_list (map (call_bytes i) es) \<le> sl_max_arguments_bytes l"
    using w unfolding stream_within_def by (elim conjE) (blast intro: le_trans)
  ultimately show ?thesis by simp
qed

theorem stream_bounded_witness:
  "\<exists>d. feed_all (\<lambda>t. if t = ''x'' then Some (JObj [(''choices'', JArr [JObj [(''delta'',
        JObj [(''content'', JStr ''ab''), (''tool_calls'', JArr [JObj [(''id'', JStr ''a''),
          (''function'', JObj [(''name'', JStr ''f''), (''arguments'', JStr ''{}'')])]])])]])]) else None)
      [''data:'', [CHR ''x'', CHR 0x0A], [CHR 0x0A]] (with_limits \<lparr>sl_max_buffered_bytes = 99, sl_max_frame_bytes = 9,
        sl_max_tool_calls = 1, sl_max_arguments_bytes = 2, sl_max_output_bytes = 5\<rparr>) =
      Inr ([StreamText ''ab'', StreamCall ''a'' ''f'' ''{}''], d) \<and>
    card (\<Union>(event_call ` set [StreamText ''ab'', StreamCall ''a'' ''f'' ''{}'']) - {default_tool_call_id}) \<le> 1 \<and>
    sum_list (map event_bytes [StreamText ''ab'', StreamCall ''a'' ''f'' ''{}'']) \<le> 5"
proof -
  let ?l = "\<lparr>sl_max_buffered_bytes = 99, sl_max_frame_bytes = 9, sl_max_tool_calls = 1, sl_max_arguments_bytes = 2,
    sl_max_output_bytes = 5\<rparr>"
  let ?v = "JObj [(''choices'', JArr [JObj [(''delta'', JObj [(''content'', JStr ''ab''), (''tool_calls'', JArr
    [JObj [(''id'', JStr ''a''), (''function'', JObj [(''name'', JStr ''f''), (''arguments'', JStr ''{}'')])]])])]])]"
  let ?p = "\<lambda>t. if t = ''x'' then Some ?v else None"
  have p1: "feed ?p ''data:'' (with_limits ?l) = Inr ([], \<lparr>sd_buffer = ''data:'', sd_state = sd_state (with_limits ?l)\<rparr>)"
    by (simp add: feed_def with_limits_def drain_nothing starts_with_chars)
  have p2: "feed ?p [CHR ''x'', CHR 0x0A] \<lparr>sd_buffer = ''data:'', sd_state = sd_state (with_limits ?l)\<rparr> =
      Inr ([], \<lparr>sd_buffer = ''data:x'' @ [CHR 0x0A], sd_state = sd_state (with_limits ?l)\<rparr>)"
    by (simp add: feed_def with_limits_def drain_nothing starts_with_chars)
  have data: "frame_data (''data:x'' @ [CHR 0x0A, CHR 0x0A]) = ''x''"
    by (simp add: frame_data_def starts_with_chars trim_def trim_start_nonspace trim_end_rev.simps byte_def)
  define frame where "frame = ''data:x'' @ [CHR 0x0A, CHR 0x0A]"
  have facts: "valid_utf8 frame" "frame_data frame = ''x''" "length frame = 8" "frame_end frame = Some 8"
    using data by (simp_all add: frame_def byte_def starts_with_chars)
  have "\<exists>s. frame_events ?p ''x'' (sd_state (with_limits ?l)) = Inr ([StreamText ''ab'', StreamCall ''a'' ''f'' ''{}''], s)"
    by (simp add: frame_events_def frame_usage_def object_field_def choice_events_def text_part_def nonempty_def
        str_field_def reasoning_text_def json_get_def note_output_def with_limits_def saturating_add_def u64_max_def
        tool_call_fragment_def fragment_call_id_def note_identity_def)
  then obtain s where "frame_events ?p ''x'' (sd_state (with_limits ?l)) = Inr ([StreamText ''ab'', StreamCall ''a'' ''f'' ''{}''], s)"
    by blast
  then have "drain_frames ?p frame (sd_state (with_limits ?l)) = Inr ([StreamText ''ab'', StreamCall ''a'' ''f'' ''{}''], [], s)"
    using facts drain_nothing [of "[]" ?p s] by (subst drain_frames.simps) (simp add: one_frame_def with_limits_def)
  then have p3: "feed ?p [CHR 0x0A] \<lparr>sd_buffer = ''data:x'' @ [CHR 0x0A], sd_state = sd_state (with_limits ?l)\<rparr> =
      Inr ([StreamText ''ab'', StreamCall ''a'' ''f'' ''{}''], \<lparr>sd_buffer = [], sd_state = s\<rparr>)"
    by (simp add: feed_def frame_def with_limits_def)
  have all: "feed_all ?p [''data:'', [CHR ''x'', CHR 0x0A], [CHR 0x0A]] (with_limits ?l) =
      Inr ([StreamText ''ab'', StreamCall ''a'' ''f'' ''{}''], \<lparr>sd_buffer = [], sd_state = s\<rparr>)"
    by (simp only: feed_all.simps p1 p2 p3 bind_res_simps case_prod_conv append_Nil append_Nil2)
  with stream_bounded [OF _ all] show ?thesis by (auto simp: bounded_limits_def u64_max_def)
qed

end
