(* ===== verification/Compaction.thy ===== *)
theory Compaction imports Sse_Decoder begin

text \<open>
  How the runtime keeps a conversation within the model's window
  (\<^verbatim>\<open>crates/harness-runtime/src/lib.rs\<close>): the estimate of what messages cost, where a conversation
  and a turn are cut, which tool results are shortened, how the folded steps of a turn leave it,
  and how a transcript is cut into the requests of a summary. The share of the window that the
  configured percentage names (a product of floating point numbers) is the argument \<open>share\<close>, the
  reading and printing of a call's arguments are \<open>parse\<close> and \<open>show\<close>.
\<close>

section \<open>Configuration\<close>

record runtime_config =
  cf_context_window_tokens :: nat
  cf_output_reservation_tokens :: nat
  cf_compaction_reserve_tokens :: nat
  cf_protocol_overhead_tokens :: nat
  cf_safety_margin_tokens :: nat
  cf_max_attempts :: nat
  cf_config_revision :: nat
  cf_compaction_ceiling_tokens :: nat

definition keep_recent_tokens :: nat where "keep_recent_tokens = 20000"
definition max_summary_tokens :: nat where "max_summary_tokens = 8192"
definition compaction_ceiling :: nat where "compaction_ceiling = 200000"

definition default_config :: runtime_config where
  "default_config = \<lparr>cf_context_window_tokens = 8192, cf_output_reservation_tokens = 1024,
    cf_compaction_reserve_tokens = 16384, cf_protocol_overhead_tokens = 128, cf_safety_margin_tokens = 128,
    cf_max_attempts = 3, cf_config_revision = 1, cf_compaction_ceiling_tokens = compaction_ceiling\<rparr>"

definition validate_config :: "runtime_config \<Rightarrow> unit res" where
  "validate_config c =
    (if cf_context_window_tokens c \<le> saturating_add u64_max
        (saturating_add u64_max (cf_output_reservation_tokens c) (cf_protocol_overhead_tokens c)) (cf_safety_margin_tokens c)
     then Inl InvalidPayload
     else if cf_max_attempts c = 0 then Inl InvalidPayload
     else if cf_config_revision c = 0 then Inl InvalidPayload
     else Inr ())"

definition effective_reserve :: "runtime_config \<Rightarrow> nat" where
  "effective_reserve c = min (cf_compaction_reserve_tokens c) (cf_context_window_tokens c div 4)"

definition compaction_threshold :: "(nat \<Rightarrow> nat) \<Rightarrow> runtime_config \<Rightarrow> nat" where
  "compaction_threshold share c = (let window = cf_context_window_tokens c;
      requested = share window;
      floor = saturating_add u64_max (saturating_add u64_max keep_recent_tokens
        (min u64_max (2 * effective_reserve c))) 1;
      threshold = min (window - cf_output_reservation_tokens c - effective_reserve c) (max requested floor) in
    if cf_compaction_ceiling_tokens c = 0 then threshold
    else min threshold (cf_compaction_ceiling_tokens c))"

text \<open>The product cannot overflow: the reserve is at most a quarter of the window.\<close>

definition history_summary_budget :: "runtime_config \<Rightarrow> nat" where
  "history_summary_budget c = min (effective_reserve c * 4 div 5) max_summary_tokens"

section \<open>Estimates\<close>

definition estimate_tokens :: "string \<Rightarrow> nat" where
  "estimate_tokens s = max 1 (saturating_add u64_max (length s) 3 div 4)"

text \<open>
  The sums over calls and messages are plain: what they count is held in memory. The additions the
  code saturates are saturated here.
\<close>

definition calls_tokens :: "provider_message \<Rightarrow> nat" where
  "calls_tokens m = sum_list (map (\<lambda>c. estimate_tokens (pc_arguments c)) (pm_tool_calls m))"

definition message_tokens :: "provider_message \<Rightarrow> nat" where
  "message_tokens m = saturating_add u64_max (estimate_tokens (pm_content m)) (calls_tokens m)"

definition messages_tokens :: "provider_message list \<Rightarrow> nat" where
  "messages_tokens ms = sum_list (map message_tokens ms)"

section \<open>Cutting the conversation\<close>

text \<open>
  The loops below run from the newest message: their argument is the conversation reversed, its
  length is the index after the message at its head.
\<close>

fun recent_cut :: "nat \<Rightarrow> nat \<Rightarrow> nat \<Rightarrow> provider_message list \<Rightarrow> nat" where
  "recent_cut keep kept point [] = point"
| "recent_cut keep kept point (m # older) = (let kept = saturating_add u64_max kept (messages_tokens [m]) in
    if keep < kept then point
    else recent_cut keep kept (if pm_role m = RoleUser then length older else point) older)"

definition split_at :: "nat \<Rightarrow> 'a list \<Rightarrow> 'a list \<times> 'a list" where
  "split_at n xs = (take n xs, drop n xs)"

definition split_recent :: "provider_message list \<Rightarrow> nat \<Rightarrow> provider_message list \<times> provider_message list" where
  "split_recent ms keep = split_at (recent_cut keep 0 (length ms) (rev ms)) ms"

definition compaction_cut_stride :: nat where "compaction_cut_stride = 8"

definition user_indices :: "provider_message list \<Rightarrow> nat list" where
  "user_indices ms = filter (\<lambda>i. pm_role (ms ! i) = RoleUser) [0..<length ms]"

definition last_of :: "'a list \<Rightarrow> 'a option" where
  "last_of xs = (if xs = [] then None else Some (last xs))"

definition aligned_cut :: "provider_message list \<Rightarrow> nat \<Rightarrow> nat option" where
  "aligned_cut ms natural = map_option snd (last_of (filter (\<lambda>(ordinal, i).
    0 < ordinal \<and> ordinal mod compaction_cut_stride = 0 \<and> i \<le> natural)
      (zip [0..<length (user_indices ms)] (user_indices ms))))"

definition split_recent_aligned ::
    "provider_message list \<Rightarrow> nat \<Rightarrow> nat \<Rightarrow> provider_message list \<times> provider_message list" where
  "split_recent_aligned ms keep max_keep = (let (older, recent) = split_recent ms keep in
    case aligned_cut ms (length older) of
      Some point \<Rightarrow> if messages_tokens (drop point ms) \<le> max_keep then split_at point ms else (older, recent)
    | None \<Rightarrow> (older, recent))"

fun turn_cut :: "nat \<Rightarrow> nat \<Rightarrow> nat option \<Rightarrow> nat \<Rightarrow> provider_message list \<Rightarrow> nat option" where
  "turn_cut keep kept point offset [] = point"
| "turn_cut keep kept point offset (m # older) = (let kept = saturating_add u64_max kept (messages_tokens [m]);
      point = (if pm_role m = RoleAssistant then Some (offset + length older) else point) in
    if keep < kept then point else turn_cut keep kept point offset older)"

definition split_turn :: "provider_message list \<Rightarrow> nat \<Rightarrow> (nat \<times> nat) option" where
  "split_turn ms keep = (case last_of (user_indices ms) of
      None \<Rightarrow> None
    | Some start \<Rightarrow> (case turn_cut keep 0 None (Suc start) (rev (drop (Suc start) ms)) of
        None \<Rightarrow> None
      | Some point \<Rightarrow> if Suc start < point then Some (start, point) else None))"

text \<open>The conversation as it is sent once it is over the threshold: what is summarized as history,
  what is summarized as the start of a turn, and what is kept.\<close>

definition cut_conversation :: "provider_message list \<Rightarrow> nat \<Rightarrow>
    provider_message list \<times> provider_message list \<times> provider_message list" where
  "cut_conversation ms threshold = (let keep = min keep_recent_tokens (threshold div 4);
      (older, recent) = split_recent_aligned ms keep (max (threshold div 2) keep) in
    if recent = [] then (case split_turn older keep of
        Some (start, point) \<Rightarrow> (take start older, take (point - start) (drop start older), drop point older)
      | None \<Rightarrow> (older, [], recent))
    else (older, [], recent))"

section \<open>Shortening results and folding steps\<close>

definition fitted_note :: string where
  "fitted_note = ''[this earlier tool result was removed to keep the conversation within the model's context window; run the tool again if its output is needed]''"

definition fitted_head_chars :: nat where "fitted_head_chars = 400"

fun take_chars :: "nat \<Rightarrow> string \<Rightarrow> string" where
  "take_chars n [] = []"
| "take_chars n (c # s) = (if continues c then c # take_chars n s
    else case n of 0 \<Rightarrow> [] | Suc k \<Rightarrow> c # take_chars k s)"

definition ellipsis :: string where
  "ellipsis = [CHR 0xE2, CHR 0x80, CHR 0xA6]"

definition fitted_result :: "string \<Rightarrow> string" where
  "fitted_result content = (let head = trim content in
    if char_count head \<le> fitted_head_chars then fitted_note @ newline @ ''It read:'' @ newline @ head
    else fitted_note @ newline @ ''Its start:'' @ newline @ take_chars fitted_head_chars head @ ellipsis)"

definition is_tool :: "provider_message \<Rightarrow> bool" where
  "is_tool m \<longleftrightarrow> pm_role m = RoleTool"

definition newest_result :: "provider_message list \<Rightarrow> nat option" where
  "newest_result ms = last_of (filter (\<lambda>i. is_tool (ms ! i)) [0..<length ms])"

definition saved_tokens :: "provider_message \<Rightarrow> nat" where
  "saved_tokens m = (if \<not> is_tool m \<or> starts_with fitted_note (pm_content m) then 0
    else estimate_tokens (pm_content m) - estimate_tokens (fitted_result (pm_content m)))"

fun fit_loop :: "nat \<Rightarrow> nat option \<Rightarrow> nat \<Rightarrow> nat \<Rightarrow> provider_message list \<Rightarrow> provider_message list \<times> nat" where
  "fit_loop budget newest i total_tokens [] = ([], 0)"
| "fit_loop budget newest i total_tokens (m # ms) =
    (if total_tokens \<le> budget div 4 * 3 \<or> (total_tokens \<le> budget \<and> newest = Some i) then (m # ms, 0)
     else if saved_tokens m = 0 then
       (let (ms', n) = fit_loop budget newest (Suc i) total_tokens ms in (m # ms', n))
     else (let (ms', n) = fit_loop budget newest (Suc i) (total_tokens - saved_tokens m) ms in
       (m\<lparr>pm_content := fitted_result (pm_content m)\<rparr> # ms', Suc n)))"

definition fit_tool_results :: "provider_message list \<Rightarrow> nat \<Rightarrow> provider_message list \<times> nat" where
  "fit_tool_results ms budget = (if messages_tokens ms \<le> budget then (ms, 0)
    else fit_loop budget (newest_result ms) 0 (messages_tokens ms) ms)"

definition folded_note :: string where
  "folded_note = ''[The steps of this turn after this one, up to the most recent ones, are summarized here because the turn outgrew the model's window.]''"

fun place_summary :: "string \<Rightarrow> bool \<Rightarrow> provider_message list \<Rightarrow> provider_message list" where
  "place_summary summary placed [] = []"
| "place_summary summary placed (m # ms) =
    (if \<not> is_tool m then m # place_summary summary placed ms
     else m\<lparr>pm_content := if placed then fitted_note else folded_note @ newline @ summary\<rparr>
       # place_summary summary True ms)"

definition fold_turn :: "provider_message list \<Rightarrow> nat \<Rightarrow> nat \<Rightarrow> nat \<Rightarrow> string \<Rightarrow> provider_message list" where
  "fold_turn appended start second point summary =
    take (Suc start) (take second appended) @ place_summary summary False (drop (Suc start) (take second appended)) @
    drop point appended"

definition step_starts :: "provider_message list \<Rightarrow> nat list" where
  "step_starts ms = filter (\<lambda>i. pm_role (ms ! i) = RoleAssistant \<and> pm_tool_calls (ms ! i) \<noteq> []) [0..<length ms]"

text \<open>The steps a turn folds: its first two starts and the cut, when nothing was folded before.\<close>

definition fold_points :: "provider_message list \<Rightarrow> nat \<Rightarrow> (nat \<times> nat \<times> nat) option" where
  "fold_points ms keep = (case step_starts ms of
      first # second # others \<Rightarrow> (case find (\<lambda>i. messages_tokens (drop i ms) \<le> keep) others of
          Some point \<Rightarrow> Some (first, second, point)
        | None \<Rightarrow> (let point = last (step_starts ms) in if second < point then Some (first, second, point) else None))
    | _ \<Rightarrow> None)"

section \<open>Requests of a summary\<close>

definition transcript_arguments :: "(string \<Rightarrow> json option) \<Rightarrow> (json \<Rightarrow> string) \<Rightarrow> string \<Rightarrow> string" where
  "transcript_arguments parse show arguments = (case parse arguments of
      Some (JObj pairs) \<Rightarrow> join_with '', '' (map (\<lambda>(k, v). k @ ''='' @ show v) pairs)
    | _ \<Rightarrow> arguments)"

definition transcript_result_chars :: nat where "transcript_result_chars = 2000"
definition transcript_result_tail_chars :: nat where "transcript_result_tail_chars = 500"

definition tail_chars :: "string \<Rightarrow> nat \<Rightarrow> string" where
  "tail_chars s limit = (if char_count s \<le> limit then s
    else drop (length (take_chars (char_count s - limit) s)) s)"

definition head_and_tail :: "string \<Rightarrow> string" where
  "head_and_tail s = (let n = char_count s;
      head_chars = transcript_result_chars - (transcript_result_tail_chars + 80) in
    if n \<le> transcript_result_chars then s
    else take_chars head_chars s @ newline @ newline @ ''[... '' @ decimal (n - head_chars - transcript_result_tail_chars) @
      '' characters truncated; first '' @ decimal head_chars @ '' and last '' @ decimal transcript_result_tail_chars @
      '' kept ...]'' @ newline @ newline @ tail_chars s transcript_result_tail_chars)"

text \<open>The numbers of the calls so far, by call id.\<close>

type_synonym numbering = "(string \<times> nat \<times> string) list"

fun assign :: "string \<Rightarrow> 'a \<Rightarrow> (string \<times> 'a) list \<Rightarrow> (string \<times> 'a) list" where
  "assign k v [] = [(k, v)]"
| "assign k v (e # es) = (if fst e = k then (k, v) # es else e # assign k v es)"

fun number_calls :: "(string \<Rightarrow> string) \<Rightarrow> provider_call list \<Rightarrow> numbering \<Rightarrow> string list \<times> numbering" where
  "number_calls show_args [] numbers = ([], numbers)"
| "number_calls show_args (c # cs) numbers = (let n = Suc (length numbers);
      (texts, numbers) = number_calls show_args cs (assign (pc_call_id c) (n, pc_name c) numbers) in
    ((CHR ''#'' # decimal n @ '' '' @ pc_name c @ ''('' @ show_args (pc_arguments c) @ '')'') # texts, numbers))"

definition result_label :: "numbering \<Rightarrow> provider_message \<Rightarrow> string" where
  "result_label numbers m = (case Option.bind (pm_tool_call_id m) (map_of numbers) of
      None \<Rightarrow> ''[Tool result]''
    | Some (n, name) \<Rightarrow> ''[Tool result ('' @ name @ '') #'' @ decimal n @ '']'')"

definition labelled :: "string \<Rightarrow> string \<Rightarrow> string list" where
  "labelled label s = (if blank s then [] else [label @ '': '' @ s])"

definition message_entries :: "(string \<Rightarrow> string) \<Rightarrow> provider_message \<Rightarrow> numbering \<Rightarrow> string list \<times> numbering" where
  "message_entries show_args m numbers = (case pm_role m of
      RoleUser \<Rightarrow> (labelled ''[User]'' (pm_content m), numbers)
    | RoleSystem \<Rightarrow> (labelled ''[System]'' (pm_content m), numbers)
    | RoleAssistant \<Rightarrow> (let (calls, numbers) = number_calls show_args (pm_tool_calls m) numbers in
        ((case pm_reasoning m of None \<Rightarrow> [] | Some r \<Rightarrow> labelled ''[Assistant thinking]'' (rg_text r)) @
         labelled ''[Assistant]'' (pm_content m) @
         (if pm_tool_calls m = [] then [] else [''[Assistant tool calls]: '' @ join_with ''; '' calls]), numbers))
    | RoleTool \<Rightarrow> ([result_label numbers m @ '': '' @ head_and_tail (pm_content m)], numbers))"

fun entries_from :: "(string \<Rightarrow> string) \<Rightarrow> provider_message list \<Rightarrow> numbering \<Rightarrow> string list" where
  "entries_from show_args [] numbers = []"
| "entries_from show_args (m # ms) numbers = (let (es, numbers) = message_entries show_args m numbers in
    es @ entries_from show_args ms numbers)"

definition summary_entries :: "(string \<Rightarrow> json option) \<Rightarrow> (json \<Rightarrow> string) \<Rightarrow> provider_message list \<Rightarrow> string list" where
  "summary_entries parse show ms = entries_from (transcript_arguments parse show) ms []"

definition char_boundary :: "string \<Rightarrow> nat \<Rightarrow> bool" where
  "char_boundary s i \<longleftrightarrow> i = 0 \<or> i = length s \<or> (i < length s \<and> \<not> continues (s ! i))"

fun floor_boundary :: "string \<Rightarrow> nat \<Rightarrow> nat" where
  "floor_boundary s 0 = 0"
| "floor_boundary s (Suc i) = (if char_boundary s (Suc i) then Suc i else floor_boundary s i)"

definition clip_entry :: "nat \<Rightarrow> string \<Rightarrow> string" where
  "clip_entry limit e = (if limit < length e then take (floor_boundary e limit) e else e)"

definition add_entry :: "nat \<Rightarrow> string list \<Rightarrow> string \<Rightarrow> string list" where
  "add_entry limit chunks entry = (let e = clip_entry limit entry;
      chunks = (if last chunks \<noteq> [] \<and> limit < length (last chunks) + length e + 2 then chunks @ [[]] else chunks) in
    butlast chunks @ [last chunks @ e @ newline @ newline])"

definition summary_chunks :: "string list \<Rightarrow> nat \<Rightarrow> string list" where
  "summary_chunks entries limit = foldl (add_entry limit) [[]] entries"

definition newest_assistant_text :: "provider_message list \<Rightarrow> string option" where
  "newest_assistant_text ms = find (\<lambda>s. s \<noteq> []) (map (\<lambda>m. trim (pm_content m))
    (filter (\<lambda>m. pm_role m = RoleAssistant) (rev ms)))"

section \<open>The chunks of a summary\<close>

lemma floor_boundary_le: "floor_boundary s i \<le> i"
  by (induction i) auto

lemma clip_entry_length: "length (clip_entry limit e) \<le> limit"
  using floor_boundary_le [of e limit] by (simp add: clip_entry_def)

lemma add_entry_concat: "chunks \<noteq> [] \<Longrightarrow>
    concat (add_entry limit chunks e) = concat chunks @ clip_entry limit e @ newline @ newline"
  by (cases chunks rule: rev_cases) (simp_all add: add_entry_def Let_def butlast_append)

lemma add_entry_bound: 
  assumes "chunks \<noteq> []" and "\<forall>c \<in> set chunks. length c \<le> limit + 2"
  shows "\<forall>c \<in> set (add_entry limit chunks e). length c \<le> limit + 2"
proof -
  obtain cs c where c: "chunks = cs @ [c]" using assms(1) by (cases chunks rule: rev_cases) auto
  have "length newline = 1" by (simp add: newline_def)
  with assms clip_entry_length [of limit e] show ?thesis
    by (auto simp: add_entry_def Let_def c butlast_append)
qed

lemma add_entry_full: "chunks \<noteq> [] \<Longrightarrow> \<forall>c \<in> set (add_entry limit chunks e). c \<noteq> [] \<or> c \<in> set (butlast chunks)"
  by (cases chunks rule: rev_cases) (auto simp: add_entry_def Let_def newline_def butlast_append)

text \<open>
  The requests of a summary carry the whole transcript in order, each entry clipped to the limit
  and closed by a blank line, and each request is at most two bytes over the limit.
\<close>

theorem chunks_cover:
  "concat (summary_chunks es limit) = concat (map (\<lambda>e. clip_entry limit e @ newline @ newline) es) \<and>
    (\<forall>c \<in> set (summary_chunks es limit). length c \<le> limit + 2) \<and>
    (es \<noteq> [] \<longrightarrow> [] \<notin> set (summary_chunks es limit))"
proof -
  have "summary_chunks es limit \<noteq> [] \<and>
      concat (summary_chunks es limit) = concat (map (\<lambda>e. clip_entry limit e @ newline @ newline) es) \<and>
      (\<forall>c \<in> set (summary_chunks es limit). length c \<le> limit + 2) \<and>
      [] \<notin> set (butlast (summary_chunks es limit)) \<and> (es \<noteq> [] \<longrightarrow> [] \<notin> set (summary_chunks es limit))"
  proof (induction es rule: rev_induct)
    case (snoc e es)
    let ?c = "summary_chunks es limit"
    have step: "summary_chunks (es @ [e]) limit = add_entry limit ?c e" by (simp add: summary_chunks_def)
    have "add_entry limit ?c e \<noteq> []" by (simp add: add_entry_def Let_def)
    moreover have "[] \<notin> set (add_entry limit ?c e)" using snoc add_entry_full [of ?c limit e] by blast
    moreover have "\<forall>c \<in> set (add_entry limit ?c e). length c \<le> limit + 2" using snoc add_entry_bound by blast
    ultimately show ?case using snoc add_entry_concat [of ?c limit e] unfolding step
      by (auto dest: in_set_butlastD)
  qed (simp add: summary_chunks_def)
  then show ?thesis by blast
qed

text \<open>The bound is tight: an entry as long as the limit makes a request two bytes longer.\<close>

lemma chunk_over_limit: "summary_chunks [''abcd''] 4 = [''abcd'' @ newline @ newline]"
  by (simp add: summary_chunks_def add_entry_def clip_entry_def newline_def)

theorem chunks_cover_witness:
  "summary_chunks [''ab'', ''c''] 2 = [''ab'' @ newline @ newline, ''c'' @ newline @ newline] \<and>
    concat (summary_chunks [''ab'', ''c''] 2) = concat (map (\<lambda>e. clip_entry 2 e @ newline @ newline) [''ab'', ''c''])"
  using chunks_cover [of "[''ab'', ''c'']" 2]
  by (simp add: summary_chunks_def add_entry_def clip_entry_def newline_def)

section \<open>Where a conversation is cut\<close>

lemma messages_tokens_simps [simp]:
  "messages_tokens [] = 0" "messages_tokens (m # ms) = message_tokens m + messages_tokens ms"
  "messages_tokens (ms @ ns) = messages_tokens ms + messages_tokens ns"
  by (simp_all add: messages_tokens_def)

lemma tokens_drop_mono: "i \<le> j \<Longrightarrow> messages_tokens (drop j ms) \<le> messages_tokens (drop i ms)"
proof -
  assume "i \<le> j"
  then have "drop i ms = take (j - i) (drop i ms) @ drop j ms"
    by (metis append_take_drop_id drop_drop le_add_diff_inverse2)
  then show ?thesis by (metis le_add2 messages_tokens_simps(3))
qed

lemma tokens_drop_Suc: "n < length ms \<Longrightarrow> messages_tokens (drop n ms) = message_tokens (ms ! n) + messages_tokens (drop (Suc n) ms)"
  by (simp add: Cons_nth_drop_Suc [symmetric])

lemma kept_exact:
  assumes "messages_tokens ms \<le> u64_max" and "n < length ms"
  shows "saturating_add u64_max (messages_tokens (drop (Suc n) ms)) (messages_tokens [ms ! n]) = messages_tokens (drop n ms)"
  using assms tokens_drop_Suc [OF assms(2)] tokens_drop_mono [of 0 n ms] by (simp add: saturating_add_def)

lemma recent_cut_earliest:
  assumes "messages_tokens ms \<le> u64_max" and "n \<le> length ms" and "n \<le> c"
  shows "(recent_cut keep (messages_tokens (drop n ms)) c (rev (take n ms)) = c \<or>
      (\<exists>i < n. recent_cut keep (messages_tokens (drop n ms)) c (rev (take n ms)) = i \<and>
        pm_role (ms ! i) = RoleUser \<and> messages_tokens (drop i ms) \<le> keep)) \<and>
    (\<forall>j < n. pm_role (ms ! j) = RoleUser \<longrightarrow> messages_tokens (drop j ms) \<le> keep \<longrightarrow>
      recent_cut keep (messages_tokens (drop n ms)) c (rev (take n ms)) \<le> j)"
  using assms(2,3)
proof (induction n arbitrary: c)
  case (Suc n)
  then have n: "n < length ms" by simp
  have rev: "rev (take (Suc n) ms) = ms ! n # rev (take n ms)" using n by (simp add: take_Suc_conv_app_nth)
  note exact = kept_exact [OF assms(1) n]
  show ?case
  proof (cases "keep < messages_tokens (drop n ms)")
    case True
    have "\<not> messages_tokens (drop j ms) \<le> keep" if "j < Suc n" for j
      using True tokens_drop_mono [of j n ms] that by linarith
    then show ?thesis using True by (auto simp: rev exact Let_def simp del: messages_tokens_simps)
  next
    case False
    let ?c = "if pm_role (ms ! n) = RoleUser then n else c"
    have eq: "recent_cut keep (messages_tokens (drop (Suc n) ms)) c (rev (take (Suc n) ms)) =
        recent_cut keep (messages_tokens (drop n ms)) ?c (rev (take n ms))"
      using False n by (simp add: rev exact Let_def min_def del: messages_tokens_simps)
    have "n \<le> ?c" using Suc.prems by simp
    from Suc.IH [OF _ this] n have ih: "recent_cut keep (messages_tokens (drop n ms)) ?c (rev (take n ms)) = ?c \<or>
        (\<exists>i < n. recent_cut keep (messages_tokens (drop n ms)) ?c (rev (take n ms)) = i \<and>
          pm_role (ms ! i) = RoleUser \<and> messages_tokens (drop i ms) \<le> keep)"
      "\<forall>j < n. pm_role (ms ! j) = RoleUser \<longrightarrow> messages_tokens (drop j ms) \<le> keep \<longrightarrow>
        recent_cut keep (messages_tokens (drop n ms)) ?c (rev (take n ms)) \<le> j" by simp_all
    show ?thesis unfolding eq using ih False Suc.prems
      by (auto simp: less_Suc_eq split: if_splits)
  qed
qed simp

lemma split_recent_parts:
  assumes "messages_tokens ms \<le> u64_max" and "split_recent ms keep = (older, recent)"
  shows "older @ recent = ms \<and> messages_tokens recent \<le> keep \<and> (recent = [] \<or> pm_role (hd recent) = RoleUser) \<and>
    (\<forall>j < length older. pm_role (ms ! j) = RoleUser \<longrightarrow> keep < messages_tokens (drop j ms))"
proof -
  let ?c = "recent_cut keep 0 (length ms) (rev ms)"
  have parts: "older = take ?c ms" "recent = drop ?c ms" using assms(2) by (simp_all add: split_recent_def split_at_def)
  from recent_cut_earliest [OF assms(1), of "length ms" "length ms" keep]
  have c: "?c = length ms \<or> (?c < length ms \<and> pm_role (ms ! ?c) = RoleUser \<and> messages_tokens (drop ?c ms) \<le> keep)"
    and early: "\<forall>j < length ms. pm_role (ms ! j) = RoleUser \<longrightarrow> messages_tokens (drop j ms) \<le> keep \<longrightarrow> ?c \<le> j"
    by simp_all
  from c have "messages_tokens recent \<le> keep" "recent = [] \<or> pm_role (hd recent) = RoleUser"
    by (auto simp: parts hd_drop_conv_nth)
  moreover have "\<forall>j < length older. pm_role (ms ! j) = RoleUser \<longrightarrow> keep < messages_tokens (drop j ms)"
    using early by (auto simp: parts)
  ultimately show ?thesis by (simp add: parts)
qed

lemma last_of_filter:
  "last_of (filter P [0..<n]) = Some k \<longleftrightarrow> k < n \<and> P k \<and> (\<forall>j. k < j \<longrightarrow> j < n \<longrightarrow> \<not> P j)"
  "last_of (filter P [0..<n]) = None \<longleftrightarrow> (\<forall>j < n. \<not> P j)"
proof (induction n arbitrary: k)
  case (Suc n)
  { case 1
    from Suc(1) [of k] show ?case by (cases "P n") (auto simp: last_of_def less_Suc_eq) }
  { case 2
    from Suc(2) show ?case by (auto simp: last_of_def less_Suc_eq) }
qed (simp_all add: last_of_def)

lemma turn_cut_earliest:
  assumes "messages_tokens ms \<le> u64_max" and "n \<le> length ms" and "off \<le> n"
    and "messages_tokens (drop n ms) \<le> keep" and "\<forall>i. c = Some i \<longrightarrow> n \<le> i"
  shows "(turn_cut keep (messages_tokens (drop n ms)) c off (rev (take (n - off) (drop off ms))) = c \<or>
      (\<exists>i \<ge> off. i < n \<and> turn_cut keep (messages_tokens (drop n ms)) c off (rev (take (n - off) (drop off ms))) = Some i \<and>
        pm_role (ms ! i) = RoleAssistant \<and> messages_tokens (drop (Suc i) ms) \<le> keep)) \<and>
    (\<forall>j \<ge> off. j < n \<longrightarrow> pm_role (ms ! j) = RoleAssistant \<longrightarrow> messages_tokens (drop (Suc j) ms) \<le> keep \<longrightarrow>
      (\<exists>i \<le> j. turn_cut keep (messages_tokens (drop n ms)) c off (rev (take (n - off) (drop off ms))) = Some i))"
  using assms(2-5)
proof (induction n arbitrary: c)
  case (Suc n)
  show ?case
  proof (cases "off = Suc n")
    case False
    with Suc.prems have n: "n < length ms" "off \<le> n" by simp_all
    let ?older = "rev (take (n - off) (drop off ms))" and ?c = "if pm_role (ms ! n) = RoleAssistant then Some n else c"
    have rev: "rev (take (Suc n - off) (drop off ms)) = ms ! n # ?older"
      using n by (simp add: Suc_diff_le take_Suc_conv_app_nth)
    have len: "off + length ?older = n" using n by simp
    note exact = kept_exact [OF assms(1) n(1)]
    have step: "turn_cut keep (messages_tokens (drop (Suc n) ms)) c off (rev (take (Suc n - off) (drop off ms))) =
        (if keep < messages_tokens (drop n ms) then ?c else turn_cut keep (messages_tokens (drop n ms)) ?c off ?older)"
      unfolding rev by (simp add: exact Let_def len del: messages_tokens_simps length_rev)
    show ?thesis
    proof (cases "keep < messages_tokens (drop n ms)")
      case True
      have "\<not> messages_tokens (drop (Suc j) ms) \<le> keep" if "j < n" for j
        using True tokens_drop_mono [of "Suc j" n ms] that by simp
      then show ?thesis unfolding step using True n Suc.prems by (auto simp: less_Suc_eq)
    next
      case False
      have "\<forall>i. ?c = Some i \<longrightarrow> n \<le> i" using Suc.prems(4) by (auto dest: Suc_leD)
      from Suc.IH [OF _ n(2) _ this] n False show ?thesis
        unfolding step using Suc.prems(3) by (auto simp: less_Suc_eq split: if_splits)
    qed
  qed simp
qed simp

lemma split_turn_parts:
  assumes "messages_tokens ms \<le> u64_max"
  shows "split_turn ms keep = Some (start, at) \<longleftrightarrow>
    start < length ms \<and> pm_role (ms ! start) = RoleUser \<and> (\<forall>j. start < j \<longrightarrow> j < length ms \<longrightarrow> pm_role (ms ! j) \<noteq> RoleUser) \<and>
    Suc start < at \<and> at < length ms \<and> pm_role (ms ! at) = RoleAssistant \<and> messages_tokens (drop (Suc at) ms) \<le> keep \<and>
    (\<forall>j. start < j \<longrightarrow> j < at \<longrightarrow> pm_role (ms ! j) = RoleAssistant \<longrightarrow> keep < messages_tokens (drop (Suc j) ms))"
    (is "?split \<longleftrightarrow> ?parts")
proof (cases "start < length ms \<and> pm_role (ms ! start) = RoleUser \<and> (\<forall>j. start < j \<longrightarrow> j < length ms \<longrightarrow> pm_role (ms ! j) \<noteq> RoleUser)")
  case False
  then have "last_of (user_indices ms) \<noteq> Some start" unfolding user_indices_def last_of_filter by blast
  then have "\<not> ?split" by (auto simp: split_turn_def split: option.splits)
  with False show ?thesis by blast
next
  case True
  then have s: "last_of (user_indices ms) = Some start" unfolding user_indices_def last_of_filter by blast
  let ?t = "turn_cut keep 0 None (Suc start) (rev (drop (Suc start) ms))"
  have "Suc start \<le> length ms" using True by simp
  from turn_cut_earliest [OF assms order.refl this, of keep None]
  have t: "?t = None \<or> (\<exists>i > start. i < length ms \<and> ?t = Some i \<and> pm_role (ms ! i) = RoleAssistant \<and> messages_tokens (drop (Suc i) ms) \<le> keep)"
    and early: "\<forall>j > start. j < length ms \<longrightarrow> pm_role (ms ! j) = RoleAssistant \<longrightarrow> messages_tokens (drop (Suc j) ms) \<le> keep \<longrightarrow> (\<exists>i \<le> j. ?t = Some i)"
    by (simp_all add: Suc_le_eq)
  have split: "?split \<longleftrightarrow> ?t = Some at \<and> Suc start < at" by (auto simp: split_turn_def s split: option.splits)
  show ?thesis
  proof
    assume ?split
    then have "?t = Some at" "Suc start < at" using split by simp_all
    moreover from this t have "at < length ms" "pm_role (ms ! at) = RoleAssistant" "messages_tokens (drop (Suc at) ms) \<le> keep"
      by auto
    moreover have "keep < messages_tokens (drop (Suc j) ms)" if "start < j" "j < at" "pm_role (ms ! j) = RoleAssistant" for j
    proof (rule ccontr)
      assume "\<not> keep < messages_tokens (drop (Suc j) ms)"
      with early that \<open>at < length ms\<close> obtain i where "i \<le> j" "?t = Some i" by (meson leI less_trans)
      with \<open>?t = Some at\<close> that show False by simp
    qed
    ultimately show ?parts using True by blast
  next
    assume p: ?parts
    with early obtain i where i: "i \<le> at" "?t = Some i" by (meson Suc_lessD)
    with t have "i > start" "pm_role (ms ! i) = RoleAssistant" "messages_tokens (drop (Suc i) ms) \<le> keep" by auto
    with p i have "i = at" by (metis leD le_neq_implies_less)
    with i p split show ?split by simp
  qed
qed

text \<open>
  A conversation is cut where the code means to cut it: the kept end of \<open>split_recent\<close> starts at
  the earliest user message from which the rest fits the tokens to keep, and a turn is cut at the
  earliest of its assistant messages after which the rest fits, the message after the request
  excepted.
\<close>

theorem cuts_earliest:
  assumes "messages_tokens ms \<le> u64_max" and "split_recent ms keep = (older, recent)"
  shows "older @ recent = ms \<and> messages_tokens recent \<le> keep \<and> (recent = [] \<or> pm_role (hd recent) = RoleUser) \<and>
    (\<forall>j < length older. pm_role (ms ! j) = RoleUser \<longrightarrow> keep < messages_tokens (drop j ms)) \<and>
    (split_turn ms keep = Some (start, at) \<longleftrightarrow>
      start < length ms \<and> pm_role (ms ! start) = RoleUser \<and> (\<forall>j. start < j \<longrightarrow> j < length ms \<longrightarrow> pm_role (ms ! j) \<noteq> RoleUser) \<and>
      Suc start < at \<and> at < length ms \<and> pm_role (ms ! at) = RoleAssistant \<and> messages_tokens (drop (Suc at) ms) \<le> keep \<and>
      (\<forall>j. start < j \<longrightarrow> j < at \<longrightarrow> pm_role (ms ! j) = RoleAssistant \<longrightarrow> keep < messages_tokens (drop (Suc j) ms)))"
  using split_recent_parts [OF assms] split_turn_parts [OF assms(1), of keep start at] by simp

lemma aligned_cut_user: "aligned_cut ms natural = Some i \<Longrightarrow> i < length ms \<and> pm_role (ms ! i) = RoleUser \<and> i \<le> natural"
proof -
  let ?p = "\<lambda>(ordinal :: nat, i). 0 < ordinal \<and> ordinal mod compaction_cut_stride = 0 \<and> i \<le> natural"
  let ?l = "filter ?p (zip [0..<length (user_indices ms)] (user_indices ms))"
  assume "aligned_cut ms natural = Some i"
  then have "?l \<noteq> []" "snd (last ?l) = i" by (auto simp: aligned_cut_def last_of_def split: if_splits)
  moreover obtain k i' where "last ?l = (k, i')" by fastforce
  ultimately have "(k, i) \<in> set ?l" using last_in_set [of ?l] by simp
  then have "(k, i) \<in> set (zip [0..<length (user_indices ms)] (user_indices ms)) \<and> i \<le> natural" by simp
  then have "i \<in> set (user_indices ms)" "i \<le> natural" by (auto dest: set_zip_rightD)
  then show ?thesis by (simp add: user_indices_def)
qed

lemma aligned_parts:
  assumes "messages_tokens ms \<le> u64_max" and "split_recent_aligned ms keep max_keep = (older, recent)"
  shows "older @ recent = ms \<and> messages_tokens recent \<le> max keep max_keep \<and> (recent = [] \<or> pm_role (hd recent) = RoleUser)"
proof -
  obtain o' r' where n: "split_recent ms keep = (o', r')" by (cases "split_recent ms keep")
  from split_recent_parts [OF assms(1) n] have natural: "o' @ r' = ms" "messages_tokens r' \<le> keep"
    "r' = [] \<or> pm_role (hd r') = RoleUser" by auto
  from assms(2) n have "(older, recent) = (o', r') \<or> (\<exists>i. aligned_cut ms (length o') = Some i \<and>
      messages_tokens (drop i ms) \<le> max_keep \<and> (older, recent) = (take i ms, drop i ms))"
    by (auto simp: split_recent_aligned_def split_at_def split: option.splits if_splits)
  then show ?thesis
  proof (elim disjE exE conjE)
    fix i assume "aligned_cut ms (length o') = Some i" "messages_tokens (drop i ms) \<le> max_keep" "(older, recent) = (take i ms, drop i ms)"
    with aligned_cut_user [of ms "length o'" i] show ?thesis by (auto simp: hd_drop_conv_nth)
  qed (use natural in auto)
qed

section \<open>Calls keep their results\<close>

text \<open>No call before the position is answered at or after it.\<close>

definition closed_at :: "provider_message list \<Rightarrow> nat \<Rightarrow> bool" where
  "closed_at ms k \<longleftrightarrow> set (call_ids (take k ms)) \<inter> set (result_ids (drop k ms)) = {}"

lemma ids_append: "call_ids ms = call_ids (take k ms) @ call_ids (drop k ms)"
  "result_ids ms = result_ids (take k ms) @ result_ids (drop k ms)"
  by (metis append_take_drop_id call_ids_simps(3)) (metis append_take_drop_id result_ids_simps(3))

lemma result_ids_nth: "k < length ms \<Longrightarrow> pm_tool_call_id (ms ! k) = Some i \<Longrightarrow> i \<in> set (result_ids ms)"
  by (force simp: result_ids_def in_set_conv_nth)

lemma paired_take: "well_paired {} {} ms \<Longrightarrow> well_paired {} {} (take k ms)"
  using ids_append [of ms k] by (auto simp: well_paired_def min_def take_all)

lemma paired_drop:
  assumes "well_paired {} {} ms" and "closed_at ms k"
  shows "well_paired {} {} (drop k ms)"
proof -
  have "i \<in> set (call_ids (take (Suc j) (drop k ms)))"
    if j: "j < length (drop k ms)" "pm_tool_call_id (drop k ms ! j) = Some i" for i j
  proof -
    have "k + j < length ms" "pm_tool_call_id (ms ! (k + j)) = Some i" using j by simp_all
    with assms(1) have "i \<in> set (call_ids (take (Suc (k + j)) ms))" by (simp add: well_paired_def)
    also have "take (Suc (k + j)) ms = take k ms @ take (Suc j) (drop k ms)"
      using take_add [of k "Suc j" ms] by simp
    finally have "i \<in> set (call_ids (take k ms)) \<union> set (call_ids (take (Suc j) (drop k ms)))" by simp
    moreover have "i \<notin> set (call_ids (take k ms))"
      using assms(2) result_ids_nth [OF j] by (auto simp: closed_at_def)
    ultimately show ?thesis by simp
  qed
  then show ?thesis using assms(1) ids_append [of ms k] by (auto simp: well_paired_def)
qed

lemma paired_append:
  assumes "well_paired {} {} ms" and "well_paired {} {} ns"
    and "set (call_ids ms) \<inter> set (call_ids ns) = {}" and "set (result_ids ms) \<inter> set (result_ids ns) = {}"
  shows "well_paired {} {} (ms @ ns)"
proof -
  have "i \<in> set (call_ids (take (Suc j) (ms @ ns)))"
    if j: "j < length (ms @ ns)" "pm_tool_call_id ((ms @ ns) ! j) = Some i" for i j
  proof (cases "j < length ms")
    case True
    with j assms(1) have "i \<in> set (call_ids (take (Suc j) ms))" by (simp add: well_paired_def nth_append)
    then show ?thesis by simp
  next
    case False
    with j assms(2) have "i \<in> set (call_ids (take (Suc (j - length ms)) ns))" by (simp add: well_paired_def nth_append)
    with False show ?thesis by (simp add: Suc_diff_le)
  qed
  then show ?thesis using assms by (auto simp: well_paired_def)
qed

text \<open>The rest of a transcript is one itself exactly when no call before it is answered in it.\<close>

lemma paired_drop_iff:
  assumes "well_paired {} {} ms"
  shows "well_paired {} {} (drop k ms) \<longleftrightarrow> closed_at ms k"
proof
  assume d: "well_paired {} {} (drop k ms)"
  show "closed_at ms k"
  proof (rule ccontr)
    assume "\<not> closed_at ms k"
    then obtain i where i: "i \<in> set (call_ids (take k ms))" "i \<in> set (result_ids (drop k ms))" by (auto simp: closed_at_def)
    from i(2) obtain j where j: "j < length (drop k ms)" "pm_tool_call_id (drop k ms ! j) = Some i"
      by (auto simp: result_ids_def in_set_conv_nth split: option.splits)
    with d have "i \<in> set (call_ids (take (Suc j) (drop k ms)))" by (simp add: well_paired_def)
    then have "i \<in> set (call_ids (drop k ms))"
      using ids_append(1) [of "drop k ms" "Suc j"] by simp
    with i(1) assms ids_append(1) [of ms k] show False by (auto simp: well_paired_def)
  qed
qed (rule paired_drop [OF assms])

text \<open>Where a conversation is cut.\<close>

lemma cut_points:
  assumes "messages_tokens ms \<le> u64_max" and "cut_conversation ms threshold = (history, prefix, kept)"
  shows "history @ prefix @ kept = ms \<and> (prefix \<noteq> [] \<longrightarrow> pm_role (hd prefix) = RoleUser) \<and>
    (kept \<noteq> [] \<longrightarrow> pm_role (hd kept) \<in> {RoleUser, RoleAssistant})"
proof -
  define keep where "keep = min keep_recent_tokens (threshold div 4)"
  obtain older recent where a: "split_recent_aligned ms keep (max (threshold div 2) keep) = (older, recent)"
    by (cases "split_recent_aligned ms keep (max (threshold div 2) keep)")
  from aligned_parts [OF assms(1) a] have parts: "older @ recent = ms" "recent = [] \<or> pm_role (hd recent) = RoleUser" by auto
  have eq: "cut_conversation ms threshold = (if recent = [] then (case split_turn older keep of
        Some (start, at) \<Rightarrow> (take start older, take (at - start) (drop start older), drop at older)
      | None \<Rightarrow> (older, [], recent)) else (older, [], recent))"
    unfolding cut_conversation_def Let_def keep_def [symmetric] a by simp
  show ?thesis
  proof (cases "recent = [] \<and> split_turn older keep \<noteq> None")
    case True
    then obtain start at where t: "split_turn ms keep = Some (start, at)" and older: "older = ms" and recent: "recent = []"
      using parts by auto
    from split_turn_parts [OF assms(1), of keep start at] t have s: "start < length ms" "pm_role (ms ! start) = RoleUser"
      "start < at" "at < length ms" "pm_role (ms ! at) = RoleAssistant" by auto
    have cut: "history = take start ms" "prefix = take (at - start) (drop start ms)" "kept = drop at ms"
      using assms(2) t by (simp_all add: eq older recent)
    have "take start ms @ take (at - start) (drop start ms) @ drop at ms = ms"
      using \<open>start < at\<close> by (metis append.assoc append_take_drop_id le_add_diff_inverse less_imp_le take_add)
    with s show ?thesis by (simp add: cut hd_drop_conv_nth hd_take)
  next
    case False
    then have "history = older" "prefix = []" "kept = recent"
      using assms(2) unfolding eq by (auto split: if_splits option.splits)
    with parts show ?thesis by auto
  qed
qed

text \<open>
  C29. Compacting a conversation keeps its messages in order and cuts it only before a message of
  the user or the assistant; what is summarized is a transcript the providers accept, and the start
  of a split turn and the end that is kept are so exactly when no call before their first message is
  answered in them. So no call is separated from its result when each is answered before the next
  message of the user or the assistant.
\<close>

theorem cut_keeps_pairs:
  assumes "messages_tokens ms \<le> u64_max" and "validate_transcript ms = Inr ()"
    and "cut_conversation ms threshold = (history, prefix, kept)"
  shows "history @ prefix @ kept = ms \<and> (prefix \<noteq> [] \<longrightarrow> pm_role (hd prefix) = RoleUser) \<and>
    (kept \<noteq> [] \<longrightarrow> pm_role (hd kept) \<in> {RoleUser, RoleAssistant}) \<and>
    validate_transcript history = Inr () \<and>
    (validate_transcript prefix = Inr () \<longleftrightarrow> closed_at (history @ prefix) (length history)) \<and>
    (validate_transcript kept = Inr () \<longleftrightarrow> closed_at ms (length (history @ prefix))) \<and>
    ((\<forall>k < length ms. pm_role (ms ! k) \<in> {RoleUser, RoleAssistant} \<longrightarrow> closed_at ms k) \<longrightarrow>
      validate_transcript prefix = Inr () \<and> validate_transcript kept = Inr ())"
proof -
  have ok: "validate_transcript xs = Inr () \<longleftrightarrow> well_paired {} {} xs" for xs
    by (simp add: validate_transcript_def check_transcript_ok)
  have p: "well_paired {} {} ms" using assms(2) by (simp add: ok)
  from cut_points [OF assms(1,3)] have ms: "ms = history @ prefix @ kept"
    and hds: "prefix \<noteq> [] \<longrightarrow> pm_role (hd prefix) = RoleUser" "kept \<noteq> [] \<longrightarrow> pm_role (hd kept) \<in> {RoleUser, RoleAssistant}"
    by auto
  have h: "well_paired {} {} history" "well_paired {} {} (history @ prefix)"
    using paired_take [OF p, of "length history"] paired_take [OF p, of "length (history @ prefix)"] by (simp_all add: ms)
  have pre: "validate_transcript prefix = Inr () \<longleftrightarrow> closed_at (history @ prefix) (length history)"
    using paired_drop_iff [OF h(2), of "length history"] by (simp add: ok)
  have kept: "validate_transcript kept = Inr () \<longleftrightarrow> closed_at ms (length (history @ prefix))"
    using paired_drop_iff [OF p, of "length (history @ prefix)"] by (simp add: ok ms)
  have "validate_transcript prefix = Inr () \<and> validate_transcript kept = Inr ()"
    if closed: "\<forall>k < length ms. pm_role (ms ! k) \<in> {RoleUser, RoleAssistant} \<longrightarrow> closed_at ms k"
  proof
    show "validate_transcript kept = Inr ()"
    proof (cases "kept = []")
      case False
      with hds(2) have "closed_at ms (length (history @ prefix))"
        using closed [rule_format, of "length (history @ prefix)"] by (auto simp: ms nth_append hd_conv_nth)
      with kept show ?thesis by blast
    qed (simp add: ok)
    show "validate_transcript prefix = Inr ()"
    proof (cases "prefix = []")
      case False
      with hds(1) have "closed_at ms (length history)"
        using closed [rule_format, of "length history"] by (auto simp: ms nth_append hd_conv_nth)
      then have "closed_at (history @ prefix) (length history)" by (auto simp: closed_at_def ms)
      with pre show ?thesis by blast
    qed (simp add: ok)
  qed
  with ms hds h(1) pre kept show ?thesis by (auto simp: ok)
qed

section \<open>What shortening and folding keep\<close>

lemma ids_cong:
  assumes "list_all2 (\<lambda>m m'. pm_tool_calls m' = pm_tool_calls m \<and> pm_tool_call_id m' = pm_tool_call_id m) ms ms'"
  shows "map pm_tool_calls ms' = map pm_tool_calls ms \<and> map pm_tool_call_id ms' = map pm_tool_call_id ms"
  using assms by (induction rule: list_all2_induct) auto

lemma paired_map:
  assumes "map pm_tool_calls ms' = map pm_tool_calls ms \<and> map pm_tool_call_id ms' = map pm_tool_call_id ms"
  shows "well_paired seen got ms' \<longleftrightarrow> well_paired seen got ms"
  using assms
proof (induction ms arbitrary: ms' seen got)
  case (Cons m ms)
  then obtain m' ns where ns: "ms' = m' # ns" by (cases ms') auto
  with Cons.prems have "map pm_tool_calls ns = map pm_tool_calls ms \<and> map pm_tool_call_id ns = map pm_tool_call_id ms" by simp
  from Cons.IH [OF this] have "well_paired s g ns \<longleftrightarrow> well_paired s g ms" for s g .
  with Cons.prems ns show ?case by (simp add: well_paired_Cons)
qed simp

text \<open>How a shortened message relates to the one it was.\<close>

definition shortened :: "provider_message \<Rightarrow> provider_message \<Rightarrow> bool" where
  "shortened m m' \<longleftrightarrow> m' = m \<or> (is_tool m \<and> \<not> starts_with fitted_note (pm_content m) \<and>
    m' = m\<lparr>pm_content := fitted_result (pm_content m)\<rparr> \<and> message_tokens m' \<le> message_tokens m)"

lemma fit_saves:
  assumes "saved_tokens m \<noteq> 0" and "message_tokens m < u64_max"
  shows "message_tokens (m\<lparr>pm_content := fitted_result (pm_content m)\<rparr>) = message_tokens m - saved_tokens m \<and>
    saved_tokens m \<le> message_tokens m \<and> is_tool m \<and> \<not> starts_with fitted_note (pm_content m)"
  using assms by (auto simp: saved_tokens_def message_tokens_def calls_tokens_def saturating_add_def split: if_splits)

lemma fit_loop_spec:
  assumes "\<forall>m \<in> set ms. message_tokens m < u64_max" and "fit_loop budget newest i t ms = (ms', n)"
    and "t = before + messages_tokens ms"
  shows "list_all2 shortened ms ms' \<and> n = length (filter (\<lambda>(m, m'). m \<noteq> m') (zip ms ms')) \<and>
    (budget < before + messages_tokens ms' \<longrightarrow> (\<forall>m \<in> set ms'. saved_tokens m = 0)) \<and>
    messages_tokens ms' \<le> messages_tokens ms"
  using assms
proof (induction ms arbitrary: i t before ms' n)
  case (Cons m ms)
  show ?case
  proof (cases "t \<le> budget div 4 * 3 \<or> (t \<le> budget \<and> newest = Some i)")
    case True
    moreover have "budget div 4 * 3 \<le> budget" by simp
    ultimately have "t \<le> budget" by linarith
    have "ms' = m # ms" "n = 0" using True Cons.prems(2) by auto
    moreover have "filter (\<lambda>(m, m'). m \<noteq> m') (zip xs xs) = []" for xs :: "provider_message list"
      by (induction xs) simp_all
    moreover have "list_all2 shortened xs xs" for xs by (simp add: list_all2_refl shortened_def)
    ultimately show ?thesis using Cons.prems(3) \<open>t \<le> budget\<close> by auto
  next
    case False
    show ?thesis
    proof (cases "saved_tokens m = 0")
      case True
      with False Cons.prems(2) obtain ns where r: "fit_loop budget newest (Suc i) t ms = (ns, n)" and ms': "ms' = m # ns"
        by (auto split: prod.splits)
      have "t = (before + message_tokens m) + messages_tokens ms" using Cons.prems(3) by simp
      from Cons.IH [OF _ r this] Cons.prems(1) True show ?thesis
        by (auto simp: ms' shortened_def)
    next
      case saves: False
      define m' where "m' = m\<lparr>pm_content := fitted_result (pm_content m)\<rparr>"
      from False saves Cons.prems(2) obtain ns k where r: "fit_loop budget newest (Suc i) (t - saved_tokens m) ms = (ns, k)"
          and ms': "ms' = m' # ns" "n = Suc k" by (auto simp: m'_def split: prod.splits)
      from Cons.prems(1) have "message_tokens m < u64_max" by simp
      from fit_saves [OF saves this, folded m'_def] have fit: "message_tokens m' = message_tokens m - saved_tokens m"
        "saved_tokens m \<le> message_tokens m" "is_tool m" "\<not> starts_with fitted_note (pm_content m)" by simp_all
      have less: "message_tokens m' < message_tokens m" using fit(1,2) saves by simp
      then have diff: "m \<noteq> m'" by (metis less_irrefl)
      have "starts_with fitted_note (pm_content m')" by (simp add: m'_def fitted_result_def Let_def)
      then have none: "saved_tokens m' = 0" by (simp add: saved_tokens_def)
      have short: "shortened m m'" using fit(3,4) less by (simp add: shortened_def m'_def)
      have "t - saved_tokens m = (before + message_tokens m') + messages_tokens ms"
        using Cons.prems(3) fit(1,2) by simp
      from Cons.IH [OF _ r this] Cons.prems(1) have ih: "list_all2 shortened ms ns"
        "k = length (filter (\<lambda>(m, m'). m \<noteq> m') (zip ms ns))"
        "budget < before + message_tokens m' + messages_tokens ns \<longrightarrow> (\<forall>m \<in> set ns. saved_tokens m = 0)"
        "messages_tokens ns \<le> messages_tokens ms" by simp_all
      show ?thesis using ih less short diff none unfolding ms' by simp
    qed
  qed
qed simp

lemma shortened_ids: "list_all2 shortened ms ms' \<Longrightarrow> well_paired seen got ms' \<longleftrightarrow> well_paired seen got ms"
  by (rule paired_map, rule ids_cong, erule list_all2_mono) (auto simp: shortened_def)

lemma refused_or_ok: "validate_transcript xs = Inl ProviderProtocol \<or> validate_transcript xs = Inr ()"
proof -
  have announce: "announce seen cs = Inl ProviderProtocol \<or> (\<exists>s. announce seen cs = Inr s)" for seen cs
    by (induction cs arbitrary: seen) auto
  have "check_transcript seen got xs = Inl ProviderProtocol \<or> check_transcript seen got xs = Inr ()" for seen got
  proof (induction xs arbitrary: seen got)
    case (Cons m ms)
    from announce [of seen "pm_tool_calls m"] show ?case
    proof (elim disjE exE)
      fix s assume "announce seen (pm_tool_calls m) = Inr s"
      then show ?thesis using Cons.IH [of s] by (simp split: option.split)
    qed simp
  qed simp
  then show ?thesis by (simp add: validate_transcript_def)
qed

lemma result_ids_via: "result_ids ms = concat (map (\<lambda>x. case x of None \<Rightarrow> [] | Some i \<Rightarrow> [i]) (map pm_tool_call_id ms))"
  by (simp add: result_ids_def o_def)

text \<open>
  Shortening tool results changes the text of tool results only and never their pairing, never
  costs tokens, does nothing to messages within the budget, counts what it changed, and leaves the
  messages over the budget only when no result is left that shortening would make smaller.
\<close>

theorem fit_results:
  assumes "\<forall>m \<in> set ms. message_tokens m < u64_max" and "fit_tool_results ms budget = (ms', n)"
  shows "list_all2 shortened ms ms' \<and> n = length (filter (\<lambda>(m, m'). m \<noteq> m') (zip ms ms')) \<and>
    messages_tokens ms' \<le> messages_tokens ms \<and> (messages_tokens ms \<le> budget \<longrightarrow> ms' = ms) \<and>
    (budget < messages_tokens ms' \<longrightarrow> (\<forall>m \<in> set ms'. saved_tokens m = 0)) \<and>
    validate_transcript ms' = validate_transcript ms"
proof -
  have same: "filter (\<lambda>(m, m'). m \<noteq> m') (zip xs xs) = []" for xs :: "provider_message list" by (induction xs) simp_all
  have spec: "list_all2 shortened ms ms' \<and> n = length (filter (\<lambda>(m, m'). m \<noteq> m') (zip ms ms')) \<and>
    messages_tokens ms' \<le> messages_tokens ms \<and> (messages_tokens ms \<le> budget \<longrightarrow> ms' = ms) \<and>
    (budget < messages_tokens ms' \<longrightarrow> (\<forall>m \<in> set ms'. saved_tokens m = 0))"
  proof (cases "messages_tokens ms \<le> budget")
    case True
    then show ?thesis using assms(2) same by (auto simp: fit_tool_results_def shortened_def intro: list_all2_refl)
  next
    case False
    with assms(2) have "fit_loop budget (newest_result ms) 0 (messages_tokens ms) ms = (ms', n)"
      by (simp add: fit_tool_results_def)
    from fit_loop_spec [OF assms(1) this, of 0] False show ?thesis by simp
  qed
  then have "validate_transcript ms' = Inr () \<longleftrightarrow> validate_transcript ms = Inr ()"
    using shortened_ids [of ms ms'] by (simp add: validate_transcript_def check_transcript_ok)
  moreover have "validate_transcript xs = Inl ProviderProtocol \<or> validate_transcript xs = Inr ()" for xs
    by (rule refused_or_ok)
  ultimately have "validate_transcript ms' = validate_transcript ms" by metis
  with spec show ?thesis by blast
qed

lemma place_summary_ids:
  "map pm_tool_calls (place_summary s p ms) = map pm_tool_calls ms \<and> map pm_tool_call_id (place_summary s p ms) = map pm_tool_call_id ms"
  by (induction ms arbitrary: p) auto

lemma place_summary_once: "(\<exists>m \<in> set ms. is_tool m) \<Longrightarrow>
    length (filter (\<lambda>m. pm_content m = folded_note @ newline @ s) (place_summary s False ms)) \<ge> 1"
  by (induction ms) auto

lemma fold_points_order:
  assumes "fold_points ms keep = Some (a, b, c)"
  shows "a < b \<and> b < c \<and> {a, b, c} \<subseteq> set (step_starts ms)"
proof -
  have sorted: "sorted_wrt (<) (step_starts ms)" by (simp add: step_starts_def sorted_wrt_filter)
  from assms obtain others where st: "step_starts ms = a # b # others"
    by (auto simp: fold_points_def Let_def split: list.splits option.splits if_splits)
  have "c \<in> set others"
  proof (cases "find (\<lambda>i. messages_tokens (drop i ms) \<le> keep) others")
    case None
    with assms st have "c = last (step_starts ms)" "b < c" by (auto simp: fold_points_def Let_def split: if_splits)
    with st show ?thesis by (cases others rule: rev_cases) auto
  next
    case (Some i)
    with assms st show ?thesis by (auto simp: fold_points_def find_Some_iff)
  qed
  with sorted show ?thesis unfolding st by auto
qed

text \<open>
  Folding the steps of a turn keeps it a transcript the providers accept, keeps the newest steps
  as they are, and puts the summary in the place of the first result of the first step, when that
  step has one.
\<close>

theorem fold_keeps_pairs:
  assumes "fold_points ms keep = Some (a, b, c)" and "validate_transcript ms = Inr ()"
    and "\<forall>k < length ms. pm_role (ms ! k) = RoleAssistant \<longrightarrow> closed_at ms k"
  shows "validate_transcript (fold_turn ms a b c summary) = Inr () \<and>
    (\<exists>steps. fold_turn ms a b c summary = steps @ drop c ms \<and> length steps = b) \<and>
    ((\<exists>k. a < k \<and> k < b \<and> is_tool (ms ! k)) \<longrightarrow>
      (\<exists>m \<in> set (fold_turn ms a b c summary). pm_content m = folded_note @ newline @ summary))"
proof -
  have p: "well_paired {} {} ms" using assms(2) by (simp add: validate_transcript_def check_transcript_ok)
  have order: "a < b" "b < c" "c < length ms" "pm_role (ms ! b) = RoleAssistant" "pm_role (ms ! c) = RoleAssistant"
    using fold_points_order [OF assms(1)] by (auto simp: step_starts_def)
  with assms(3) have closed: "closed_at ms b" "closed_at ms c" by auto
  let ?f = "take (Suc a) (take b ms) @ place_summary summary False (drop (Suc a) (take b ms))"
  have f: "fold_turn ms a b c summary = ?f @ drop c ms" by (simp add: fold_turn_def)
  have same: "map pm_tool_calls ?f = map pm_tool_calls (take b ms) \<and> map pm_tool_call_id ?f = map pm_tool_call_id (take b ms)"
    using place_summary_ids [of summary False "drop (Suc a) (take b ms)"]
    by (metis append_take_drop_id map_append)
  then have len: "length ?f = b" using order by (metis length_map length_take less_imp_le min.absorb2 order.strict_trans)
  have ids: "call_ids ?f = call_ids (take b ms)" "result_ids ?f = result_ids (take b ms)"
    using same by (simp_all only: call_ids_def result_ids_via)
  have sub: "set (call_ids (drop c ms)) \<subseteq> set (call_ids (drop b ms))" "set (result_ids (drop c ms)) \<subseteq> set (result_ids (drop b ms))"
    using set_drop_subset_set_drop [of b c ms] order by (auto simp: call_ids_def result_ids_def)
  have "well_paired {} {} (?f @ drop c ms)"
  proof (rule paired_append)
    show "well_paired {} {} ?f" using paired_map [OF same] paired_take [OF p] by blast
    show "well_paired {} {} (drop c ms)" by (rule paired_drop [OF p closed(2)])
    show "set (call_ids ?f) \<inter> set (call_ids (drop c ms)) = {}" "set (result_ids ?f) \<inter> set (result_ids (drop c ms)) = {}"
      unfolding ids using p sub ids_append [of ms b] by (auto simp: well_paired_def)
  qed
  moreover have "\<exists>m \<in> set ?f. pm_content m = folded_note @ newline @ summary" if k: "a < k" "k < b" "is_tool (ms ! k)" for k
  proof -
    have "drop (Suc a) (take b ms) ! (k - Suc a) = ms ! k" "k - Suc a < length (drop (Suc a) (take b ms))" using k order by simp_all
    with k(3) have "\<exists>m \<in> set (drop (Suc a) (take b ms)). is_tool m" by (metis nth_mem)
    from place_summary_once [OF this, of summary] show ?thesis by (auto simp: Suc_le_eq length_greater_0_conv filter_empty_conv)
  qed
  ultimately show ?thesis unfolding f using len
    by (auto simp only: validate_transcript_def check_transcript_ok set_append Un_iff bex_Un)
qed

section \<open>Examples\<close>

definition sample_exchange :: "string \<Rightarrow> provider_message list" where
  "sample_exchange i = [assistant_with_calls [] [\<lparr>pc_call_id = i, pc_name = ''read'', pc_arguments = ''{}''\<rparr>], tool_result i ''ok'']"

definition sample_turn :: "provider_message list" where
  "sample_turn = sample_exchange ''c1'' @ sample_exchange ''c2'' @ sample_exchange ''c3''"

definition sample_talk :: "provider_message list" where
  "sample_talk = plain_message RoleUser ''hi'' # sample_exchange ''c1'' @ [plain_message RoleUser ''go'']"

lemmas sample_messages = sample_turn_def sample_talk_def sample_exchange_def assistant_with_calls_def tool_result_def plain_message_def

lemma sample_tokens: "estimate_tokens [] = 1" "estimate_tokens ''ok'' = 1" "estimate_tokens ''{}'' = 1" "estimate_tokens ''hi'' = 1"
  "estimate_tokens ''go'' = 1" "message_tokens (plain_message RoleUser ''hi'') = 1" "message_tokens (plain_message RoleUser ''go'') = 1"
  by (simp_all add: estimate_tokens_def saturating_add_def u64_max_def message_tokens_def calls_tokens_def plain_message_def)

lemma sample_exchange_tokens: "map message_tokens (sample_exchange i) = [2, 1]"
  by (simp add: message_tokens_def calls_tokens_def sample_exchange_def assistant_with_calls_def tool_result_def
      plain_message_def sample_tokens saturating_add_def u64_max_def)

lemma sample_talk_tokens: "messages_tokens sample_talk = 5"
  by (simp add: messages_tokens_def sample_talk_def sample_exchange_tokens sample_tokens)

lemma sample_not_blank: "\<not> blank ''c1''" "\<not> blank ''c2''" "\<not> blank ''c3''"
  by (simp_all add: blank_def trim_start_nonspace byte_def)

lemma sample_transcripts: "validate_transcript sample_talk = Inr ()" "validate_transcript sample_turn = Inr ()"
  by (simp_all add: validate_transcript_def sample_messages sample_not_blank)

theorem cuts_earliest_witness:
  "split_recent sample_talk 3 = (take 3 sample_talk, drop 3 sample_talk) \<and> messages_tokens (drop 3 sample_talk) \<le> 3 \<and>
    split_turn (take 3 sample_talk) 0 = None"
proof -
  have s: "split_recent sample_talk 3 = (take 3 sample_talk, drop 3 sample_talk)"
    by (simp add: split_recent_def split_at_def sample_talk_def sample_exchange_def sample_tokens saturating_add_def u64_max_def
        Let_def assistant_with_calls_def tool_result_def plain_message_def message_tokens_def calls_tokens_def)
  have "messages_tokens sample_talk \<le> u64_max" by (simp add: sample_talk_tokens u64_max_def)
  from cuts_earliest [OF this s] have "messages_tokens (drop 3 sample_talk) \<le> 3" by blast
  moreover have "split_turn (take 3 sample_talk) 0 = None"
    by (simp add: split_turn_def user_indices_def sample_messages last_of_def upt_rec numeral_3_eq_3 sample_tokens
        message_tokens_def calls_tokens_def saturating_add_def u64_max_def)
  ultimately show ?thesis using s by blast
qed

theorem fit_results_witness:
  "fit_tool_results (sample_exchange ''c1'') 0 = (sample_exchange ''c1'', 0) \<and>
    validate_transcript (fst (fit_tool_results (sample_exchange ''c1'') 0)) = validate_transcript (sample_exchange ''c1'')"
proof -
  have est: "estimate_tokens s \<ge> 1" for s by (simp add: estimate_tokens_def)
  have "saved_tokens m = 0" if "m \<in> set (sample_exchange ''c1'')" for m
    using that est [of "fitted_result ''ok''"] by (auto simp: saved_tokens_def sample_exchange_def is_tool_def assistant_with_calls_def
        tool_result_def plain_message_def sample_tokens)
  then have f: "fit_tool_results (sample_exchange ''c1'') 0 = (sample_exchange ''c1'', 0)"
    by (simp add: fit_tool_results_def messages_tokens_def sample_exchange_tokens) (simp add: sample_exchange_def)
  have "\<forall>m \<in> set (sample_exchange ''c1''). message_tokens m < u64_max"
    using sample_exchange_tokens [of "''c1''"] by (simp add: sample_exchange_def u64_max_def)
  from fit_results [OF this f] f show ?thesis by simp
qed

theorem fold_keeps_pairs_witness:
  "fold_points sample_turn 0 = Some (0, 2, 4) \<and> validate_transcript (fold_turn sample_turn 0 2 4 ''did it'') = Inr () \<and>
    length (fold_turn sample_turn 0 2 4 ''did it'') = 4"
proof -
  have "step_starts sample_turn = [0, 2, 4]" by (simp add: step_starts_def sample_messages upt_rec numeral_eq_Suc)
  moreover have "messages_tokens (drop 4 sample_turn) \<noteq> 0"
    using sample_exchange_tokens [of "''c3''"] by (simp add: sample_turn_def sample_exchange_def messages_tokens_def)
  ultimately have f: "fold_points sample_turn 0 = Some (0, 2, 4)" by (simp add: fold_points_def)
  have "closed_at sample_turn k" if "k < length sample_turn" "pm_role (sample_turn ! k) = RoleAssistant" for k
    using that by (auto simp: sample_messages less_Suc_eq numeral_eq_Suc closed_at_def)
  with fold_keeps_pairs [OF f sample_transcripts(2)] f show ?thesis by (simp add: fold_turn_def sample_messages)
qed

theorem cut_keeps_pairs_witness:
  "\<exists>history prefix kept. cut_conversation sample_talk 12 = (history, prefix, kept) \<and> history @ prefix @ kept = sample_talk \<and>
    validate_transcript history = Inr () \<and> validate_transcript kept = Inr ()"
proof -
  obtain h p k where c: "cut_conversation sample_talk 12 = (h, p, k)" by (cases "cut_conversation sample_talk 12") auto
  have tokens: "messages_tokens sample_talk \<le> u64_max" by (simp add: sample_talk_tokens u64_max_def)
  have "\<forall>k < length sample_talk. pm_role (sample_talk ! k) \<in> {RoleUser, RoleAssistant} \<longrightarrow> closed_at sample_talk k"
    by (auto simp: sample_messages less_Suc_eq numeral_eq_Suc closed_at_def)
  with cut_keeps_pairs [OF tokens sample_transcripts(1) c] c show ?thesis by blast
qed

text \<open>A result that comes after a message of the user is cut off from its call there.\<close>

lemma late_result_cut:
  "validate_transcript [assistant_with_calls [] [\<lparr>pc_call_id = ''c1'', pc_name = ''read'', pc_arguments = ''{}''\<rparr>],
      plain_message RoleUser ''go'', tool_result ''c1'' ''ok''] = Inr () \<and>
    \<not> closed_at [assistant_with_calls [] [\<lparr>pc_call_id = ''c1'', pc_name = ''read'', pc_arguments = ''{}''\<rparr>],
      plain_message RoleUser ''go'', tool_result ''c1'' ''ok''] 1"
  by (simp add: validate_transcript_def sample_messages sample_not_blank closed_at_def)

end
