(* ===== verification/Edit_Diff.thy ===== *)
theory Edit_Diff imports Tool_Actions Compaction "HOL-Library.Word" begin

text \<open>
  The edits of \<^verbatim>\<open>edit_file\<close> (\<^verbatim>\<open>crates/harness-tools/src/filesystem/edit_diff.rs\<close>): how the text an
  edit names is found in a file and what the file becomes. Unicode's compatibility composition
  (\<^verbatim>\<open>nfkc\<close> of \<^verbatim>\<open>unicode_normalization\<close>) is the argument \<open>nfkc\<close>; the diff that is shown (crate
  \<^verbatim>\<open>similar\<close>) is not part of the model.
\<close>

unbundle bit_operations_syntax

section \<open>Strings\<close>

text \<open>\<^verbatim>\<open>split(c)\<close>: the pieces between the separators, one more than there are separators.\<close>

fun split_on :: "char \<Rightarrow> string \<Rightarrow> string list" where
  "split_on c [] = [[]]"
| "split_on c (x # s) = (if x = c then [] # split_on c s
    else (case split_on c s of l # ls \<Rightarrow> (x # l) # ls | [] \<Rightarrow> [[x]]))"

definition lf :: char where "lf = CHR 0x0A"
definition cr :: char where "cr = CHR 0x0D"

text \<open>\<^verbatim>\<open>find\<close>: where the first occurrence starts.\<close>

fun find_sub :: "string \<Rightarrow> string \<Rightarrow> nat option" where
  "find_sub p s = (if starts_with p s then Some 0
    else case s of [] \<Rightarrow> None | _ # t \<Rightarrow> map_option Suc (find_sub p t))"

declare find_sub.simps [simp del]

text \<open>
  \<^verbatim>\<open>matches(p).count()\<close> and \<^verbatim>\<open>replace(p, r)\<close>: occurrences from the left that do not overlap. The
  empty text occurs before every character and at the end.
\<close>

lemma starts_with_shrinks: "starts_with p s \<Longrightarrow> p \<noteq> [] \<Longrightarrow> length s - length p < length s"
  by (cases p) (auto dest: starts_with_length)

function count_sub :: "string \<Rightarrow> string \<Rightarrow> nat" where
  "count_sub p s = (if p = [] then Suc (char_count s)
    else if starts_with p s then Suc (count_sub p (drop (length p) s))
    else case s of [] \<Rightarrow> 0 | _ # t \<Rightarrow> count_sub p t)"
  by pat_completeness auto
termination
  by (relation "measure (\<lambda>(p, s). length s)") (auto intro: starts_with_shrinks)

declare count_sub.simps [simp del]

fun between_chars :: "string \<Rightarrow> string \<Rightarrow> string" where
  "between_chars r [] = r"
| "between_chars r (c # s) = (if continues c then c # between_chars r s else r @ c # between_chars r s)"

function replace_sub :: "string \<Rightarrow> string \<Rightarrow> string \<Rightarrow> string" where
  "replace_sub p r s = (if p = [] then between_chars r s
    else if starts_with p s then r @ replace_sub p r (drop (length p) s)
    else case s of [] \<Rightarrow> [] | c # t \<Rightarrow> c # replace_sub p r t)"
  by pat_completeness auto
termination
  by (relation "measure (\<lambda>(p, r, s). length s)") (auto intro: starts_with_shrinks)

declare replace_sub.simps [simp del]

definition replace_first :: "string \<Rightarrow> string \<Rightarrow> string \<Rightarrow> string" where
  "replace_first p r s = (case find_sub p s of None \<Rightarrow> s
    | Some i \<Rightarrow> take i s @ r @ drop (i + length p) s)"

definition trim_end :: "string \<Rightarrow> string" where
  "trim_end s = rev (trim_end_rev (rev s))"

definition strip_char :: "char \<Rightarrow> string \<Rightarrow> string" where
  "strip_char c s = rev (dropWhile (\<lambda>x. x = c) (rev (dropWhile (\<lambda>x. x = c) s)))"

definition strip_char_end :: "char \<Rightarrow> string \<Rightarrow> string" where
  "strip_char_end c s = rev (dropWhile (\<lambda>x. x = c) (rev s))"

section \<open>Line endings and the byte-order mark\<close>

definition bom :: string where
  "bom = [CHR 0xEF, CHR 0xBB, CHR 0xBF]"

definition detect_line_ending :: "string \<Rightarrow> string" where
  "detect_line_ending s = (case (find_sub [cr, lf] s, find_sub [lf] s) of
      (Some crlf, Some l) \<Rightarrow> if crlf < l then [cr, lf] else [lf]
    | _ \<Rightarrow> [lf])"

definition normalize_to_lf :: "string \<Rightarrow> string" where
  "normalize_to_lf s = replace_sub [cr] [lf] (replace_sub [cr, lf] [lf] s)"

definition restore_line_endings :: "string \<Rightarrow> string \<Rightarrow> string" where
  "restore_line_endings s ending = (if ending = [cr, lf] then replace_sub [lf] [cr, lf] s else s)"

definition strip_bom :: "string \<Rightarrow> string \<times> string" where
  "strip_bom s = (if starts_with bom s then (bom, drop 3 s) else ([], s))"

section \<open>The normalized form\<close>

text \<open>The typographic characters, by their bytes in UTF-8, and what they are written as in ASCII.\<close>

definition ascii_of :: "char \<Rightarrow> char \<Rightarrow> char \<Rightarrow> char option" where
  "ascii_of a b c = (let x = byte a; y = byte b; z = byte c in
    if x = 226 \<and> y = 128 \<and> 152 \<le> z \<and> z \<le> 155 then Some (CHR 0x27)
    else if x = 226 \<and> y = 128 \<and> 156 \<le> z \<and> z \<le> 159 then Some (CHR 0x22)
    else if x = 226 \<and> y = 128 \<and> 144 \<le> z \<and> z \<le> 149 then Some (CHR ''-'')
    else if x = 226 \<and> y = 136 \<and> z = 146 then Some (CHR ''-'')
    else if x = 226 \<and> y = 128 \<and> ((130 \<le> z \<and> z \<le> 138) \<or> z = 175) then Some (CHR '' '')
    else if x = 226 \<and> y = 129 \<and> z = 159 then Some (CHR '' '')
    else if x = 227 \<and> y = 128 \<and> z = 128 then Some (CHR '' '')
    else None)"

fun to_ascii :: "string \<Rightarrow> string" where
  "to_ascii (a # b # c # s) =
    (if byte a = 194 \<and> byte b = 160 then CHR '' '' # to_ascii (c # s)
     else case ascii_of a b c of Some x \<Rightarrow> x # to_ascii s | None \<Rightarrow> a # to_ascii (b # c # s))"
| "to_ascii [a, b] = (if byte a = 194 \<and> byte b = 160 then [CHR '' ''] else [a, b])"
| "to_ascii s = s"

definition normalize_fuzzy :: "(string \<Rightarrow> string) \<Rightarrow> string \<Rightarrow> string" where
  "normalize_fuzzy nfkc s = to_ascii (join_with [lf] (map trim_end (split_on lf (nfkc s))))"

section \<open>Finding the text\<close>

record fuzzy_match =
  fm_index :: nat
  fm_length :: nat
  fm_normalized :: bool
  fm_content :: string

definition fuzzy_find_text :: "(string \<Rightarrow> string) \<Rightarrow> string \<Rightarrow> string \<Rightarrow> fuzzy_match option" where
  "fuzzy_find_text nfkc content old = (case find_sub old content of
      Some i \<Rightarrow> Some \<lparr>fm_index = i, fm_length = length old, fm_normalized = False, fm_content = content\<rparr>
    | None \<Rightarrow> (let c = normalize_fuzzy nfkc content; p = normalize_fuzzy nfkc old in
        map_option (\<lambda>i. \<lparr>fm_index = i, fm_length = length p, fm_normalized = True, fm_content = c\<rparr>) (find_sub p c)))"

definition count_occurrences :: "(string \<Rightarrow> string) \<Rightarrow> string \<Rightarrow> string \<Rightarrow> nat" where
  "count_occurrences nfkc content old = (let p = normalize_fuzzy nfkc old in
    if p = [] then 0 else count_sub p (normalize_fuzzy nfkc content))"

record applied_edit =
  ed_base :: string
  ed_new :: string
  ed_replacements :: nat

text \<open>The form a line is compared in, and the start and the end of every line with it.\<close>

definition line_key :: "(string \<Rightarrow> string) \<Rightarrow> string \<Rightarrow> string" where
  "line_key nfkc l = trim (normalize_fuzzy nfkc l)"

fun line_spans :: "(string \<Rightarrow> string) \<Rightarrow> nat \<Rightarrow> string list \<Rightarrow> (nat \<times> nat \<times> string) list" where
  "line_spans nfkc at [] = []"
| "line_spans nfkc at (l # ls) = (at, at + length l, line_key nfkc l) # line_spans nfkc (at + length l + 1) ls"

definition trimmed_line_matches :: "(string \<Rightarrow> string) \<Rightarrow> string \<Rightarrow> string list \<Rightarrow> (nat \<times> nat \<times> nat) list" where
  "trimmed_line_matches nfkc content old_lines = (let wanted = map (line_key nfkc) old_lines;
      spans = line_spans nfkc 0 (split_on lf content) in
    if wanted = [] \<or> length spans < length wanted then []
    else map (\<lambda>i. (fst (spans ! i), fst (snd (spans ! (i + length wanted - 1))), i + 1))
      (filter (\<lambda>i. map (\<lambda>s. snd (snd s)) (take (length wanted) (drop i spans)) = wanted)
        [0..<Suc (length spans - length wanted)]))"

definition leading_whitespace :: "string \<Rightarrow> string" where
  "leading_whitespace l = take (length l - length (trim_start l)) l"

definition reindent :: "string \<Rightarrow> string \<Rightarrow> string \<Rightarrow> string" where
  "reindent model_indent file_indent new_block = join_with [lf] (map (\<lambda>l.
      if blank l then l
      else if starts_with model_indent l then file_indent @ drop (length model_indent) l
      else l) (split_on lf new_block))"

definition nonblank_at :: "string list \<Rightarrow> nat" where
  "nonblank_at ls = (let i = length (takeWhile blank ls) in if i < length ls then i else 0)"

definition apply_by_trimmed_lines ::
    "(string \<Rightarrow> string) \<Rightarrow> string \<Rightarrow> string \<Rightarrow> string \<Rightarrow> applied_edit option res" where
  "apply_by_trimmed_lines nfkc content old new = (let old_lines = split_on lf (strip_char lf old) in
    if list_all blank old_lines then Inr None
    else case trimmed_line_matches nfkc content old_lines of
      [] \<Rightarrow> Inr None
    | [(start, stop, _)] \<Rightarrow> (let i = nonblank_at old_lines;
          file_lines = split_on lf (take (stop - start) (drop start content));
          file_line = (if i < length file_lines then file_lines ! i else []);
          block = reindent (leading_whitespace (old_lines ! i)) (leading_whitespace file_line) (strip_char lf new);
          result = take start content @ block @ drop stop content in
        if result = content then Inl InvalidPayload
        else Inr (Some \<lparr>ed_base = content, ed_new = result, ed_replacements = 1\<rparr>))
    | _ \<Rightarrow> Inl EditAmbiguous)"

section \<open>Read gutters and anchors\<close>

definition ascii_alphanumeric :: "char \<Rightarrow> bool" where
  "ascii_alphanumeric c \<longleftrightarrow> ascii_digit c \<or> (65 \<le> byte c \<and> byte c \<le> 90) \<or> (97 \<le> byte c \<and> byte c \<le> 122)"

definition after_prefix :: "string \<Rightarrow> string \<Rightarrow> string option" where
  "after_prefix p s = (if starts_with p s then Some (drop (length p) s) else None)"

definition ungutter_line :: "string \<Rightarrow> string option" where
  "ungutter_line l = (let rest = dropWhile ascii_digit l in
    if rest = l then None
    else Option.bind (case after_prefix ''#'' rest of
        None \<Rightarrow> Some rest
      | Some anchor \<Rightarrow> (let r = dropWhile ascii_alphanumeric anchor in if r = anchor then None else Some r)) (\<lambda>rest.
      map_option (\<lambda>r. case after_prefix '' '' r of Some t \<Rightarrow> t | None \<Rightarrow> r) (after_prefix '':'' rest)))"

fun all_some :: "'a option list \<Rightarrow> 'a list option" where
  "all_some [] = Some []"
| "all_some (x # xs) = (case x of None \<Rightarrow> None | Some y \<Rightarrow> map_option ((#) y) (all_some xs))"

definition without_read_gutter :: "string \<Rightarrow> string option" where
  "without_read_gutter s = (let lines = split_on lf s;
      counted = (if last lines = [] then butlast lines else lines) in
    if counted = [] then None
    else map_option (\<lambda>out. join_with [lf] (if length counted < length lines then out @ [[]] else out))
      (all_some (map ungutter_line counted)))"

definition fnv_step :: "32 word \<Rightarrow> char \<Rightarrow> 32 word" where
  "fnv_step h c = (h XOR of_nat (byte c)) * 0x01000193"

definition line_fnv :: "string \<Rightarrow> 32 word" where
  "line_fnv s = foldl fnv_step 0x811c9dc5 s"

definition line_hash :: "string \<Rightarrow> string" where
  "line_hash l = (let h = line_fnv (trim_end l);
      n = unat ((h XOR drop_bit 8 h XOR drop_bit 16 h XOR drop_bit 24 h) AND 0xff) in
    [hex_chars ! (n div 16), hex_chars ! (n mod 16)])"

definition line_anchor :: "nat \<Rightarrow> string \<Rightarrow> string" where
  "line_anchor number l = decimal number @ ''#'' @
    line_hash (if number = 1 then (case after_prefix bom l of Some t \<Rightarrow> t | None \<Rightarrow> l) else l)"

definition parse_usize :: "string \<Rightarrow> nat option" where
  "parse_usize s = (let t = (case after_prefix ''+'' s of Some t \<Rightarrow> t | None \<Rightarrow> s) in
    if digits t \<and> decimal_value t \<le> u64_max then Some (decimal_value t) else None)"

definition ascii_lower :: "char \<Rightarrow> char" where
  "ascii_lower c = (if 65 \<le> byte c \<and> byte c \<le> 90 then char_of (byte c + 32) else c)"

definition parse_anchor :: "string \<Rightarrow> (nat \<times> string) res" where
  "parse_anchor anchor = (let s = trim anchor in case find_sub ''#'' s of
      None \<Rightarrow> Inl InvalidPayload
    | Some i \<Rightarrow> (case parse_usize (trim (take i s)) of
        None \<Rightarrow> Inl InvalidPayload
      | Some line \<Rightarrow> (let hash = map ascii_lower (strip_char_end (CHR '':'') (trim (drop (Suc i) s))) in
          if line = 0 \<or> length hash \<noteq> 2 \<or> \<not> list_all hex_digit hash then Inl InvalidPayload
          else Inr (line, hash))))"

definition anchor_holds :: "string list \<Rightarrow> nat \<Rightarrow> nat \<times> string \<Rightarrow> bool" where
  "anchor_holds lines known a \<longleftrightarrow> fst a \<le> known \<and> line_hash (lines ! (fst a - 1)) = snd a"

definition apply_anchored :: "string \<Rightarrow> string \<Rightarrow> string option \<Rightarrow> string \<Rightarrow> applied_edit res" where
  "apply_anchored content start stop new = (let lines = split_on lf content;
      known = (if content \<noteq> [] \<and> last content = lf then length lines - 1 else length lines) in
    bind_res (parse_anchor start) (\<lambda>first.
    bind_res (case stop of Some e \<Rightarrow> parse_anchor e | None \<Rightarrow> Inr first) (\<lambda>final.
    if fst final < fst first then Inl InvalidPayload
    else if \<not> (anchor_holds lines known first \<and> anchor_holds lines known final) then Inl StaleWorkspace
    else let kept = take (fst first - 1) lines @
          (if new = [] then [] else split_on lf (strip_char_end lf new)) @ drop (fst final) lines;
        result = join_with [lf] kept in
      if result = content then Inl InvalidPayload
      else Inr \<lparr>ed_base = content, ed_new = result, ed_replacements = 1\<rparr>)))"

section \<open>One edit\<close>

lemma length_replace_sub: "length r \<le> length p \<Longrightarrow> p \<noteq> [] \<Longrightarrow> length (replace_sub p r s) \<le> length s"
proof (induction p r s rule: replace_sub.induct)
  case (1 p r s)
  show ?case
  proof (cases "starts_with p s")
    case True
    with 1 starts_with_length [OF True] show ?thesis by (subst replace_sub.simps) fastforce
  next
    case False
    with 1 show ?thesis by (subst replace_sub.simps) (auto split: list.split)
  qed
qed

lemma length_normalize_to_lf: "length (normalize_to_lf s) \<le> length s"
  unfolding normalize_to_lf_def
  by (rule le_trans [OF length_replace_sub length_replace_sub]) simp_all

lemma split_on_nonempty [simp]: "split_on c s \<noteq> []"
  by (induction s) (auto split: list.splits)

lemma join_split [simp]: "join_with [c] (split_on c s) = s"
proof (induction s)
  case (Cons x s)
  obtain l ls where "split_on c s = l # ls" by (cases "split_on c s") auto
  with Cons show ?case by (cases ls) auto
qed simp

lemma length_join: "xs \<noteq> [] \<Longrightarrow> length (join_with [c] xs) + 1 = sum_list (map (\<lambda>x. length x + 1) xs)"
proof (induction xs)
  case (Cons x xs)
  then show ?case by (cases xs) auto
qed simp

lemma ungutter_shorter: "ungutter_line l = Some t \<Longrightarrow> length t < length l"
proof -
  have drop: "length (dropWhile P xs) \<le> length xs" for P :: "char \<Rightarrow> bool" and xs by (rule length_dropWhile_le)
  have pre: "after_prefix p xs = Some ys \<Longrightarrow> length xs = length p + length ys" for p xs ys
    by (auto simp: after_prefix_def dest: starts_with_length split: if_splits)
  assume "ungutter_line l = Some t"
  then obtain r u where r': "(case after_prefix ''#'' (dropWhile ascii_digit l) of None \<Rightarrow> Some (dropWhile ascii_digit l)
        | Some anchor \<Rightarrow> (let r = dropWhile ascii_alphanumeric anchor in if r = anchor then None else Some r)) = Some r"
      and u: "after_prefix '':'' r = Some u" and t: "t = (case after_prefix '' '' u of Some t \<Rightarrow> t | None \<Rightarrow> u)"
    by (auto simp: ungutter_line_def Let_def bind_eq_Some_conv split: if_splits)
  have r: "length r \<le> length (dropWhile ascii_digit l)"
  proof (cases "after_prefix ''#'' (dropWhile ascii_digit l)")
    case None
    with r' show ?thesis by simp
  next
    case (Some anchor)
    with r' have "r = dropWhile ascii_alphanumeric anchor" by (simp add: Let_def split: if_splits)
    with drop [of ascii_alphanumeric anchor] pre [OF Some] show ?thesis by simp
  qed
  have "length t \<le> length u" using t by (auto dest: pre split: option.splits)
  with pre [OF u] r drop [of ascii_digit l] show ?thesis by simp
qed

lemma all_some_shorter:
  "all_some (map ungutter_line ls) = Some out \<Longrightarrow> length out = length ls \<and>
    sum_list (map (\<lambda>x. length x + 1) out) + length ls \<le> sum_list (map (\<lambda>x. length x + 1) ls)"
proof (induction ls arbitrary: out)
  case (Cons l ls)
  then show ?case by (fastforce split: option.splits dest!: ungutter_shorter)
qed simp

lemma gutter_shorter: "without_read_gutter s = Some t \<Longrightarrow> length t < length s"
proof -
  let ?lines = "split_on lf s" and ?counted = "if last (split_on lf s) = [] then butlast (split_on lf s) else split_on lf s"
  assume "without_read_gutter s = Some t"
  then obtain out where c: "?counted \<noteq> []" and out: "all_some (map ungutter_line ?counted) = Some out"
      and t: "t = join_with [lf] (if length ?counted < length ?lines then out @ [[]] else out)"
    by (auto simp: without_read_gutter_def Let_def split: if_splits)
  from all_some_shorter [OF out] have len: "length out = length ?counted"
    and less: "sum_list (map (\<lambda>x. length x + 1) out) + length ?counted \<le> sum_list (map (\<lambda>x. length x + 1) ?counted)" by auto
  have s: "length s + 1 = sum_list (map (\<lambda>x. length x + 1) ?lines)" using length_join [of ?lines lf] by simp
  have "sum_list (map (\<lambda>x. length x + 1) ?lines) =
      sum_list (map (\<lambda>x. length x + 1) ?counted) + (if last ?lines = [] then 1 else 0)"
  proof (cases "last ?lines = []")
    case True
    then obtain b where "?lines = b @ [[]]" by (metis append_butlast_last_id split_on_nonempty)
    then show ?thesis by simp
  qed simp
  moreover have "0 < length ?counted" using c by blast
  moreover have "length t + 1 = sum_list (map (\<lambda>x. length x + 1) out) + (if last ?lines = [] then 1 else 0)"
  proof -
    have "out \<noteq> []" using c len by auto
    then show ?thesis
      using length_join [of "if length ?counted < length ?lines then out @ [[]] else out" lf] t len
      by (auto split: if_splits)
  qed
  ultimately show ?thesis using s less by linarith
qed

definition replace_match :: "(string \<Rightarrow> string) \<Rightarrow> string \<Rightarrow> string \<Rightarrow> string \<Rightarrow> bool \<Rightarrow> fuzzy_match \<Rightarrow> string \<times> nat" where
  "replace_match nfkc base old new replace_all f =
    (if replace_all then
       (let haystack = (if fm_normalized f then fm_content f else base);
          needle = (if fm_normalized f then normalize_fuzzy nfkc old else old) in
        (replace_sub needle new haystack, count_sub needle haystack))
     else (take (fm_index f) (fm_content f) @ new @ drop (fm_index f + fm_length f) (fm_content f), 1))"

text \<open>The text an edit is made in: the normalized one when only there the old text is found.\<close>

definition edit_base :: "(string \<Rightarrow> string) \<Rightarrow> string \<Rightarrow> string \<Rightarrow> string" where
  "edit_base nfkc content old = (case fuzzy_find_text nfkc content old of
      Some f \<Rightarrow> if fm_normalized f then normalize_fuzzy nfkc content else content
    | None \<Rightarrow> content)"

function apply_edit :: "(string \<Rightarrow> string) \<Rightarrow> string \<Rightarrow> string \<Rightarrow> string \<Rightarrow> bool \<Rightarrow> applied_edit res" where
  "apply_edit nfkc content old_text new_text replace_all =
    (let old = normalize_to_lf old_text; new = normalize_to_lf new_text in
     if old = [] then Inl InvalidPayload
     else let base = edit_base nfkc content old in
       case fuzzy_find_text nfkc base old of
         None \<Rightarrow> (case apply_by_trimmed_lines nfkc base old new of
             Inl e \<Rightarrow> Inl e
           | Inr (Some a) \<Rightarrow> Inr a
           | Inr None \<Rightarrow> (case without_read_gutter old of
               None \<Rightarrow> Inl EditNotFound
             | Some old' \<Rightarrow> if blank old' then Inl EditNotFound
                 else case apply_edit nfkc content old'
                     (case without_read_gutter new of Some n \<Rightarrow> n | None \<Rightarrow> new) replace_all of
                   Inr a \<Rightarrow> Inr a
                 | Inl _ \<Rightarrow> Inl EditNotFound))
       | Some f \<Rightarrow>
           if 1 < count_occurrences nfkc base old \<and> \<not> replace_all then Inl EditAmbiguous
           else let (result, n) = replace_match nfkc base old new replace_all f in
             if base = result then Inl InvalidPayload
             else Inr \<lparr>ed_base = base, ed_new = result, ed_replacements = n\<rparr>)"
  by pat_completeness auto
termination
proof (relation "measure (\<lambda>(nfkc, content, old, new, replace_all). length old)", goal_cases)
  case (2 nfkc content old_text new_text replace_all)
  then show ?case using gutter_shorter length_normalize_to_lf [of old_text] by fastforce
qed simp

declare apply_edit.simps [simp del]

section \<open>All edits of a call\<close>

definition repeats_in_batch :: "string \<Rightarrow> edit_spec \<Rightarrow> edit_spec list \<Rightarrow> bool" where
  "repeats_in_batch content e later \<longleftrightarrow> \<not> es_replace_all e \<and> es_old_string e \<noteq> [] \<and>
    (let n = length (filter (\<lambda>o'. es_start o' = None \<and> \<not> es_replace_all o' \<and> es_old_string o' = es_old_string e) (e # later)) in
     1 < n \<and> count_sub (normalize_to_lf (es_old_string e)) content = n)"

definition apply_first :: "string \<Rightarrow> string \<Rightarrow> string \<Rightarrow> applied_edit" where
  "apply_first content old new = \<lparr>ed_base = content,
    ed_new = replace_first (normalize_to_lf old) (normalize_to_lf new) content, ed_replacements = 1\<rparr>"

definition apply_spec :: "(string \<Rightarrow> string) \<Rightarrow> string \<Rightarrow> edit_spec \<Rightarrow> edit_spec list \<Rightarrow> applied_edit res" where
  "apply_spec nfkc content e later = (case es_start e of
      Some start \<Rightarrow> apply_anchored content start (es_end e) (normalize_to_lf (es_new_string e))
    | None \<Rightarrow> if repeats_in_batch content e later then Inr (apply_first content (es_old_string e) (es_new_string e))
        else apply_edit nfkc content (es_old_string e) (es_new_string e) (es_replace_all e))"

fun apply_specs :: "(string \<Rightarrow> string) \<Rightarrow> string \<Rightarrow> edit_spec list \<Rightarrow> (string \<times> nat) res" where
  "apply_specs nfkc content [] = Inr (content, 0)"
| "apply_specs nfkc content (e # es) = bind_res (apply_spec nfkc content e es) (\<lambda>a.
    bind_res (apply_specs nfkc (ed_new a) es) (\<lambda>(c, n). Inr (c, saturating_add u64_max (ed_replacements a) n)))"

definition plan_edits :: "(string \<Rightarrow> string) \<Rightarrow> string \<Rightarrow> edit_spec list \<Rightarrow> (string \<times> nat) res" where
  "plan_edits nfkc current edits = (let (mark, s) = strip_bom current in
    bind_res (apply_specs nfkc (normalize_to_lf s) edits) (\<lambda>(c, n).
    if edits = [] then Inl InvalidPayload
    else Inr (mark @ restore_line_endings c (detect_line_ending s), n)))"

section \<open>Occurrences\<close>

lemma find_sub_Nil [simp]: "find_sub [] s = Some 0"
  by (subst find_sub.simps) (simp add: starts_with_def)

lemma find_sub_parts:
  "find_sub p s = Some i \<Longrightarrow> s = take i s @ p @ drop (i + length p) s \<and> (\<forall>j < i. \<not> starts_with p (drop j s))"
proof (induction p s arbitrary: i rule: find_sub.induct)
  case (1 p s)
  show ?case
  proof (cases "starts_with p s")
    case True
    with 1(2) have "i = 0" by (subst (asm) find_sub.simps) simp
    with True show ?thesis by (simp add: starts_with_def) (metis append_take_drop_id)
  next
    case False
    with 1(2) obtain c t k where s: "s = c # t" and k: "find_sub p t = Some k" "i = Suc k"
      by (subst (asm) find_sub.simps) (auto split: list.splits)
    from 1(1) [OF False s k(1)] have ih: "t = take k t @ p @ drop (k + length p) t" "\<forall>j < k. \<not> starts_with p (drop j t)" by auto
    have "\<not> starts_with p (drop j s)" if "j < i" for j
      using that ih(2) False by (cases j) (auto simp: s k)
    with ih(1) show ?thesis by (simp add: s k)
  qed
qed

lemma starts_with_iff: "starts_with p s \<longleftrightarrow> (\<exists>t. s = p @ t)"
  by (metis append_eq_conv_conj append_take_drop_id starts_with_def)

section \<open>Where an edit lands\<close>

text \<open>
  The ways \<open>new\<close> may take the place of \<open>old\<close> in a text: where \<open>old\<close> stands, as written or in
  its normalized form; at the start, when the normalized form of \<open>old\<close> is empty; in place of whole
  lines that are those of \<open>old\<close> but for white space, indented like them; or as the text left once
  the line numbers of \<^verbatim>\<open>read_file\<close> are dropped.
\<close>

inductive lands :: "(string \<Rightarrow> string) \<Rightarrow> string \<Rightarrow> string \<Rightarrow> string \<Rightarrow> string \<Rightarrow> bool" for nfkc base where
  lands_text: "base = before @ m @ after \<Longrightarrow> m = old \<or> m = normalize_fuzzy nfkc old \<Longrightarrow> m \<noteq> [] \<Longrightarrow>
    lands nfkc base old new (before @ new @ after)"
| lands_start: "normalize_fuzzy nfkc old = [] \<Longrightarrow> lands nfkc base old new (new @ base)"
| lands_lines: "base = before @ m @ after \<Longrightarrow> before = [] \<or> last before = lf \<Longrightarrow> after = [] \<or> hd after = lf \<Longrightarrow>
    map (line_key nfkc) (split_on lf m) = map (line_key nfkc) (split_on lf (strip_char lf old)) \<Longrightarrow>
    block = reindent indent indent' (strip_char lf new) \<Longrightarrow> lands nfkc base old new (before @ block @ after)"
| lands_gutter: "without_read_gutter old = Some old' \<Longrightarrow>
    new' = (case without_read_gutter new of Some n \<Rightarrow> n | None \<Rightarrow> new) \<Longrightarrow>
    lands nfkc base (normalize_to_lf old') (normalize_to_lf new') result \<Longrightarrow> lands nfkc base old new result"

text \<open>The text between the start of one line and the end of another is those lines.\<close>

lemma line_spans_length [simp]: "length (line_spans nfkc at ls) = length ls"
  by (induction ls arbitrary: at) auto

lemma line_spans_nth:
  "i < length ls \<Longrightarrow> line_spans nfkc at ls ! i =
    (at + sum_list (map (\<lambda>l. length l + 1) (take i ls)),
     at + sum_list (map (\<lambda>l. length l + 1) (take i ls)) + length (ls ! i), line_key nfkc (ls ! i))"
proof (induction ls arbitrary: i at)
  case (Cons l ls)
  then show ?case by (cases i) (auto simp: line_key_def)
qed simp

lemma join_append: "xs \<noteq> [] \<Longrightarrow> ys \<noteq> [] \<Longrightarrow> join_with s (xs @ ys) = join_with s xs @ s @ join_with s ys"
proof (induction xs)
  case (Cons x xs)
  then show ?case by (cases xs; cases ys) auto
qed simp

lemma split_on_pieces: "l \<in> set (split_on c s) \<Longrightarrow> c \<notin> set l"
  by (induction s arbitrary: l) (auto split: list.splits if_splits)

lemma split_on_plain: "c \<notin> set l \<Longrightarrow> split_on c l = [l]"
  by (induction l) auto

lemma split_on_sep: "c \<notin> set l \<Longrightarrow> split_on c (l @ c # s) = l # split_on c s"
  by (induction l) auto

lemma split_join: "ls \<noteq> [] \<Longrightarrow> \<forall>l \<in> set ls. c \<notin> set l \<Longrightarrow> split_on c (join_with [c] ls) = ls"
proof (induction ls)
  case (Cons l ls)
  then show ?case by (cases ls) (auto simp: split_on_plain split_on_sep)
qed simp

lemma lines_between:
  assumes "i \<le> j" "j < length (split_on lf s)"
  shows "\<exists>before m after. s = before @ m @ after \<and> length before = fst (line_spans nfkc 0 (split_on lf s) ! i) \<and>
    length before + length m = fst (snd (line_spans nfkc 0 (split_on lf s) ! j)) \<and>
    split_on lf m = take (Suc j - i) (drop i (split_on lf s)) \<and>
    (before = [] \<or> last before = lf) \<and> (after = [] \<or> hd after = lf)"
proof -
  let ?ls = "split_on lf s" and ?w = "\<lambda>ls. sum_list (map (\<lambda>l :: string. length l + 1) ls)"
  define A where "A = take i ?ls"
  define B where "B = take (Suc j - i) (drop i ?ls)"
  define C where "C = drop (Suc j) ?ls"
  have split: "?ls = A @ B @ C"
    proof -
    have "drop i ?ls = B @ drop (Suc j - i) (drop i ?ls)" unfolding B_def by (rule append_take_drop_id [symmetric])
    moreover have "drop (Suc j - i) (drop i ?ls) = C" using assms(1) by (simp add: C_def)
    ultimately show ?thesis unfolding A_def by (metis append_take_drop_id)
  qed
  have B: "B \<noteq> []" "\<forall>l \<in> set B. lf \<notin> set l"
    using assms split_on_pieces [of _ lf s] by (auto simp: B_def dest!: in_set_takeD in_set_dropD)
  define before where "before = (if A = [] then [] else join_with [lf] A @ [lf])"
  define after where "after = (if C = [] then [] else lf # join_with [lf] C)"
  have "s = join_with [lf] (A @ B @ C)" by (metis join_split split)
  also have "\<dots> = before @ join_with [lf] B @ after"
    using B(1) by (auto simp: before_def after_def join_append)
  finally have s: "s = before @ join_with [lf] B @ after" .
  have lenb: "length before = ?w A" using length_join [of A lf] by (auto simp: before_def)
  have lenm: "length (join_with [lf] B) + 1 = ?w B" by (rule length_join [OF B(1)])
  have "take (Suc j) ?ls = A @ B" using assms(1) unfolding A_def B_def
    by (simp flip: take_add)
  moreover have "take (Suc j) ?ls = take j ?ls @ [?ls ! j]" by (rule take_Suc_conv_app_nth [OF assms(2)])
  ultimately have "?w (A @ B) = ?w (take j ?ls @ [?ls ! j])" by simp
  then have "?w A + ?w B = ?w (take j ?ls) + length (?ls ! j) + 1" by simp
  with lenb lenm assms have "length before = fst (line_spans nfkc 0 ?ls ! i)"
      "length before + length (join_with [lf] B) = fst (snd (line_spans nfkc 0 ?ls ! j))"
    by (simp_all add: line_spans_nth A_def)
  moreover have "split_on lf (join_with [lf] B) = take (Suc j - i) (drop i ?ls)"
    using split_join [OF B] by (simp only: B_def)
  moreover have "before = [] \<or> last before = lf" "after = [] \<or> hd after = lf" by (simp_all add: before_def after_def)
  ultimately show ?thesis using s by blast
qed

lemma trimmed_match_lines:
  assumes "(start, stop, n) \<in> set (trimmed_line_matches nfkc content old_lines)"
  obtains before m after where "content = before @ m @ after" "before = [] \<or> last before = lf" "after = [] \<or> hd after = lf"
    "map (line_key nfkc) (split_on lf m) = map (line_key nfkc) old_lines" "start = length before" "stop = length before + length m"
proof -
  let ?ls = "split_on lf content" and ?m = "length old_lines"
  let ?spans = "line_spans nfkc 0 ?ls"
  let ?at = "\<lambda>i. map (\<lambda>s. snd (snd s)) (take ?m (drop i ?spans))"
  from assms have "(start, stop, n) \<in> (\<lambda>i. (fst (?spans ! i), fst (snd (?spans ! (i + ?m - 1))), i + 1)) `
        set (filter (\<lambda>i. ?at i = map (line_key nfkc) old_lines) [0..<Suc (length ?ls - ?m)])"
      and fits: "\<not> length ?ls < ?m" "old_lines \<noteq> []"
    unfolding trimmed_line_matches_def Let_def by (auto simp del: upt_Suc set_upt split: if_split_asm)
  then obtain i where i: "i \<in> set [0..<Suc (length ?ls - ?m)]" and at: "?at i = map (line_key nfkc) old_lines"
      and ends: "start = fst (?spans ! i)" "stop = fst (snd (?spans ! (i + ?m - 1)))" by (auto simp del: upt_Suc set_upt)
  have "0 < ?m" using fits(2) by blast
  moreover have "i < Suc (length ?ls - ?m)" using i by (simp only: set_upt atLeastLessThan_iff)
  ultimately have le: "i \<le> i + ?m - 1" "i + ?m - 1 < length ?ls" "Suc (i + ?m - 1) - i = ?m" using fits(1) by linarith+
  have keys: "map (\<lambda>s. snd (snd s)) (line_spans nfkc k ls) = map (line_key nfkc) ls" for k ls
    by (induction ls arbitrary: k) (auto simp: line_key_def)
  have "?at i = map (line_key nfkc) (take ?m (drop i ?ls))" by (simp add: keys flip: take_map drop_map)
  with at lines_between [OF le(1,2), of nfkc] le(3) ends that show thesis by metis
qed

lemma trimmed_edit:
  assumes "apply_by_trimmed_lines nfkc content old new = Inr (Some a)"
  shows "lands nfkc content old new (ed_new a) \<and> ed_base a = content \<and> ed_new a \<noteq> content \<and> ed_replacements a = 1"
proof -
  from assms obtain start stop n indent indent' where
      m: "trimmed_line_matches nfkc content (split_on lf (strip_char lf old)) = [(start, stop, n)]"
      and a: "a = \<lparr>ed_base = content,
        ed_new = take start content @ reindent indent indent' (strip_char lf new) @ drop stop content, ed_replacements = 1\<rparr>"
      and ne: "ed_new a \<noteq> content"
    unfolding apply_by_trimmed_lines_def Let_def by (auto split: if_split_asm list.split_asm)
  have "(start, stop, n) \<in> set (trimmed_line_matches nfkc content (split_on lf (strip_char lf old)))" by (simp add: m)
  then show ?thesis
  proof (rule trimmed_match_lines)
    fix before m after
    assume l: "content = before @ m @ after" "before = [] \<or> last before = lf" "after = [] \<or> hd after = lf"
        "map (line_key nfkc) (split_on lf m) = map (line_key nfkc) (split_on lf (strip_char lf old))"
        "start = length before" "stop = length before + length m"
    have "lands nfkc content old new (before @ reindent indent indent' (strip_char lf new) @ after)"
      by (rule lands_lines [OF l(1-4) refl])
    with a ne l(1,5,6) show ?thesis by simp
  qed
qed

lemma fuzzy_found:
  "fuzzy_find_text nfkc content old = Some f \<Longrightarrow>
    fm_content f = (if fm_normalized f then normalize_fuzzy nfkc content else content) \<and>
    (fm_normalized f \<longleftrightarrow> find_sub old content = None) \<and>
    (let p = (if fm_normalized f then normalize_fuzzy nfkc old else old) in
      find_sub p (fm_content f) = Some (fm_index f) \<and> fm_length f = length p)"
  by (auto simp: fuzzy_find_text_def Let_def split: option.splits)

lemma apply_edit_found:
  "normalize_to_lf old \<noteq> [] \<Longrightarrow>
    fuzzy_find_text nfkc (edit_base nfkc content (normalize_to_lf old)) (normalize_to_lf old) = Some f \<Longrightarrow>
    apply_edit nfkc content old new replace_all = (let base = edit_base nfkc content (normalize_to_lf old) in
      if 1 < count_occurrences nfkc base (normalize_to_lf old) \<and> \<not> replace_all then Inl EditAmbiguous
      else let (result, n) = replace_match nfkc base (normalize_to_lf old) (normalize_to_lf new) replace_all f in
        if base = result then Inl InvalidPayload
        else Inr \<lparr>ed_base = base, ed_new = result, ed_replacements = n\<rparr>)"
  by (subst apply_edit.simps) (simp add: Let_def)

lemma edit_base_stable:
  assumes "normalize_fuzzy nfkc (normalize_fuzzy nfkc content) = normalize_fuzzy nfkc content"
    and "fuzzy_find_text nfkc (edit_base nfkc content old) old = Some f"
  shows "fm_content f = edit_base nfkc content old"
  using assms by (auto simp: edit_base_def fuzzy_find_text_def Let_def split: option.splits)

lemma found_lands:
  assumes "fuzzy_find_text nfkc base old = Some f" and "fm_content f = base" and "old \<noteq> []"
  shows "lands nfkc base old new (fst (replace_match nfkc base old new False f)) \<and>
    snd (replace_match nfkc base old new False f) = 1"
proof -
  define p where "p = (if fm_normalized f then normalize_fuzzy nfkc old else old)"
  have found: "find_sub p base = Some (fm_index f)" "fm_length f = length p"
    using fuzzy_found [OF assms(1)] assms(2) by (auto simp: p_def Let_def)
  have at: "base = take (fm_index f) base @ p @ drop (fm_index f + length p) base"
    using find_sub_parts [OF found(1)] by blast
  have which: "p = old \<or> p = normalize_fuzzy nfkc old" by (simp add: p_def)
  have "lands nfkc base old new (take (fm_index f) base @ new @ drop (fm_index f + length p) base)"
  proof (cases "p = []")
    case True
    with found(1) which assms(3) have "fm_index f = 0" "normalize_fuzzy nfkc old = []" by auto
    with True lands_start show ?thesis by simp
  qed (rule lands_text [OF at which])
  then show ?thesis by (simp add: replace_match_def found(2) assms(2))
qed


text \<open>The line is found without its indentation and the new line gets the file's.\<close>

lemma read_edit:
  "(case r of Inr a \<Rightarrow> Some (ed_base a, ed_new a, ed_replacements a) | Inl _ \<Rightarrow> None) = Some (b, n, k) \<Longrightarrow>
    r = Inr \<lparr>ed_base = b, ed_new = n, ed_replacements = k\<rparr>"
  by (cases r) auto

lemma read_res: "(case r of Inr x \<Rightarrow> Some x | Inl _ \<Rightarrow> None) = Some y \<Longrightarrow> r = Inr y"
  by (cases r) auto

lemma sample_edit:
  "apply_edit (\<lambda>s. s) (''  go(a)'' @ lf # ''end'') ''    go(a) '' ''    go(b)'' False =
    Inr \<lparr>ed_base = ''  go(a)'' @ lf # ''end'', ed_new = ''  go(b)'' @ lf # ''end'', ed_replacements = 1\<rparr>"
  by (rule read_edit) code_simp

lemma sample_edit_plain:
  "normalize_fuzzy (\<lambda>s. s) (normalize_fuzzy (\<lambda>s. s) (''  go(a)'' @ lf # ''end'')) = normalize_fuzzy (\<lambda>s. s) (''  go(a)'' @ lf # ''end'')"
  by code_simp


text \<open>The text as written is looked for first, and what stands there alone is replaced.\<close>

lemma exact_edit:
  assumes "normalize_to_lf old \<noteq> []" "find_sub (normalize_to_lf old) content = Some i"
  shows "apply_edit nfkc content old new False =
    (let result = take i content @ normalize_to_lf new @ drop (i + length (normalize_to_lf old)) content in
     if 1 < count_occurrences nfkc content (normalize_to_lf old) then Inl EditAmbiguous
     else if content = result then Inl InvalidPayload
     else Inr \<lparr>ed_base = content, ed_new = result, ed_replacements = 1\<rparr>)"
proof -
  have base: "edit_base nfkc content (normalize_to_lf old) = content"
    using assms(2) by (simp add: edit_base_def fuzzy_find_text_def)
  have "fuzzy_find_text nfkc (edit_base nfkc content (normalize_to_lf old)) (normalize_to_lf old) =
      Some \<lparr>fm_index = i, fm_length = length (normalize_to_lf old), fm_normalized = False, fm_content = content\<rparr>"
    using assms(2) by (simp add: base fuzzy_find_text_def)
  from apply_edit_found [OF assms(1) this] show ?thesis by (simp add: base Let_def replace_match_def)
qed

text \<open>
  C39. A text whose normalized form is empty, as is that of spaces and tabs without a line feed, is
  not checked to be unique: it is counted as no occurrence at all, so of any number of copies in the
  file the first is replaced.
\<close>

theorem blank_text_unchecked:
  assumes "normalize_to_lf old \<noteq> []" "normalize_fuzzy nfkc (normalize_to_lf old) = []"
    and "find_sub (normalize_to_lf old) content = Some i" and "normalize_to_lf new \<noteq> normalize_to_lf old"
  shows "apply_edit nfkc content old new False = Inr \<lparr>ed_base = content,
    ed_new = take i content @ normalize_to_lf new @ drop (i + length (normalize_to_lf old)) content, ed_replacements = 1\<rparr>"
proof -
  let ?old = "normalize_to_lf old" and ?new = "normalize_to_lf new" and ?rest = "drop (i + length (normalize_to_lf old)) content"
  have none: "count_occurrences nfkc content ?old = 0" by (simp add: count_occurrences_def assms(2))
  have c: "content = take i content @ ?old @ ?rest" using find_sub_parts [OF assms(3)] by blast
  have "content \<noteq> take i content @ ?new @ ?rest"
  proof
    assume "content = take i content @ ?new @ ?rest"
    with c have "?old @ ?rest = ?new @ ?rest" by (metis same_append_eq)
    with assms(4) show False by simp
  qed
  then show ?thesis unfolding exact_edit [OF assms(1,3)] Let_def by (simp add: none)
qed

lemma sample_blank:
  "normalize_to_lf ''  '' = ''  ''" "normalize_fuzzy (\<lambda>s. s) ''  '' = []" "find_sub ''  '' ''a  b  c'' = Some 1"
  "normalize_to_lf ''X'' = ''X''" "count_sub ''  '' ''a  b  c'' = 2"
  by code_simp+

theorem blank_text_unchecked_witness:
  "apply_edit (\<lambda>s. s) ''a  b  c'' ''  '' ''X'' False =
    Inr \<lparr>ed_base = ''a  b  c'', ed_new = ''aXb  c'', ed_replacements = 1\<rparr> \<and> count_sub ''  '' ''a  b  c'' = 2"
  using blank_text_unchecked [of "''  ''" "\<lambda>s. s" "''a  b  c''" 1 "''X''"]
  by (simp add: sample_blank)

text \<open>Nor is it refused when the file does not hold it: the new text is put at the start.\<close>

lemma blank_text_inserted:
  assumes "normalize_to_lf old \<noteq> []" "normalize_fuzzy nfkc (normalize_to_lf old) = []"
    and "find_sub (normalize_to_lf old) content = None" "find_sub (normalize_to_lf old) (normalize_fuzzy nfkc content) = None"
    and "normalize_fuzzy nfkc (normalize_fuzzy nfkc content) = normalize_fuzzy nfkc content" "normalize_to_lf new \<noteq> []"
  shows "apply_edit nfkc content old new False = Inr \<lparr>ed_base = normalize_fuzzy nfkc content,
    ed_new = normalize_to_lf new @ normalize_fuzzy nfkc content, ed_replacements = 1\<rparr>"
proof -
  let ?old = "normalize_to_lf old" and ?fuzzy = "normalize_fuzzy nfkc content"
  have base: "edit_base nfkc content ?old = ?fuzzy" by (simp add: edit_base_def fuzzy_find_text_def assms)
  have "fuzzy_find_text nfkc (edit_base nfkc content ?old) ?old =
      Some \<lparr>fm_index = 0, fm_length = 0, fm_normalized = True, fm_content = ?fuzzy\<rparr>"
    by (simp add: base fuzzy_find_text_def assms)
  from apply_edit_found [OF assms(1) this] assms(6) show ?thesis
    by (simp add: base Let_def replace_match_def count_occurrences_def assms(2))
qed

section \<open>Endings and the mark\<close>

lemma replace_absent: "p \<noteq> [] \<Longrightarrow> hd p \<notin> set s \<Longrightarrow> replace_sub p r s = s"
proof (induction s)
  case (Cons c s)
  then have "\<not> starts_with p (c # s)" by (cases p) (auto simp: starts_with_def)
  with Cons show ?case by (subst replace_sub.simps) simp
qed (auto simp: replace_sub.simps starts_with_def)

lemma starts_with_Cons [simp]: "starts_with (a # p) (c # s) \<longleftrightarrow> a = c \<and> starts_with p s"
  by (auto simp: starts_with_def)

lemma starts_with_Nil [simp]: "starts_with [] s" "starts_with (a # p) [] \<longleftrightarrow> False"
  by (simp_all add: starts_with_def)

lemma to_crlf [simp]:
  "replace_sub [lf] r [] = []"
  "replace_sub [lf] r (c # s) = (if c = lf then r @ replace_sub [lf] r s else c # replace_sub [lf] r s)"
  by (subst replace_sub.simps; simp)+

lemma from_crlf [simp]:
  "replace_sub [cr, lf] r [] = []"
  "replace_sub [cr, lf] r (cr # lf # s) = r @ replace_sub [cr, lf] r s"
  "c \<noteq> cr \<Longrightarrow> replace_sub [cr, lf] r (c # s) = c # replace_sub [cr, lf] r s"
  by (subst replace_sub.simps; simp)+

lemma lf_not_cr [simp]: "lf \<noteq> cr" "cr \<noteq> lf"
  by (simp_all add: lf_def cr_def)

lemma crlf_back: "cr \<notin> set s \<Longrightarrow> replace_sub [cr, lf] [lf] (replace_sub [lf] [cr, lf] s) = s"
  by (induction s) auto

lemma normalize_restored: "cr \<notin> set s \<Longrightarrow> normalize_to_lf (restore_line_endings s ending) = s"
  by (simp add: normalize_to_lf_def restore_line_endings_def crlf_back replace_absent)

lemma find_absent: "p \<noteq> [] \<Longrightarrow> hd p \<notin> set s \<Longrightarrow> find_sub p s = None"
proof (induction s)
  case (Cons c s)
  then have "\<not> starts_with p (c # s)" by (cases p) auto
  with Cons show ?case by (subst find_sub.simps) simp
qed (subst find_sub.simps, cases p, auto)

lemma find_crlf:
  "cr \<notin> set s \<Longrightarrow> lf \<in> set s \<Longrightarrow> \<exists>i. find_sub [cr, lf] (replace_sub [lf] [cr, lf] s) = Some i \<and>
    find_sub [lf] (replace_sub [lf] [cr, lf] s) = Some (Suc i)"
proof (induction s)
  case (Cons c s)
  show ?case
  proof (cases "c = lf")
    case True
    then show ?thesis by (simp add: find_sub.simps)
  next
    case False
    with Cons obtain i where "find_sub [cr, lf] (replace_sub [lf] [cr, lf] s) = Some i"
        "find_sub [lf] (replace_sub [lf] [cr, lf] s) = Some (Suc i)" by auto
    with False Cons.prems show ?thesis
      by (intro exI [of _ "Suc i"]) (auto simp: find_sub.simps [of _ "_ # _"])
  qed
qed simp

lemma detect_restored:
  assumes "cr \<notin> set s" "ending = [lf] \<or> ending = [cr, lf] \<and> lf \<in> set s"
  shows "detect_line_ending (restore_line_endings s ending) = ending"
  using assms(2)
proof
  assume "ending = [lf]"
  with find_absent [of "[cr, lf]" s] assms(1) show ?thesis
    by (simp add: detect_line_ending_def restore_line_endings_def)
next
  assume "ending = [cr, lf] \<and> lf \<in> set s"
  with find_crlf [OF assms(1)] show ?thesis
    by (auto simp: detect_line_ending_def restore_line_endings_def)
qed

lemma mark_restored: "starts_with bom (restore_line_endings s ending) \<longleftrightarrow> starts_with bom s"
proof -
  have ne: "lf \<notin> set bom" "cr \<notin> set bom" by (simp_all add: bom_def lf_def cr_def)
  have "starts_with p (replace_sub [lf] [cr, lf] s) \<longleftrightarrow> starts_with p s" if "lf \<notin> set p" "cr \<notin> set p" for p
    using that
  proof (induction s arbitrary: p)
    case (Cons c s)
    then show ?case by (cases p) auto
  qed simp
  with ne show ?thesis by (simp add: restore_line_endings_def)
qed

text \<open>An edit of one line rewrites the endings of all others when the file mixes them.\<close>

lemma mixed_endings_lost:
  "plan_edits (\<lambda>s. s) (''a'' @ [cr, lf] @ ''b'' @ [lf] @ ''c'' @ [lf])
    [\<lparr>es_old_string = ''a'', es_new_string = ''d'', es_replace_all = False, es_start = None, es_end = None\<rparr>] =
    Inr (''d'' @ [cr, lf] @ ''b'' @ [cr, lf] @ ''c'' @ [cr, lf], 1)"
proof -
  let ?lines = "''a'' @ [lf] @ ''b'' @ [lf] @ ''c'' @ [lf]"
  have "apply_edit (\<lambda>s. s) ?lines ''a'' ''d'' False =
      Inr \<lparr>ed_base = ?lines, ed_new = ''d'' @ [lf] @ ''b'' @ [lf] @ ''c'' @ [lf], ed_replacements = 1\<rparr>"
    by (rule read_edit) code_simp
  then have e: "apply_specs (\<lambda>s. s) ?lines
      [\<lparr>es_old_string = ''a'', es_new_string = ''d'', es_replace_all = False, es_start = None, es_end = None\<rparr>] =
    Inr (''d'' @ [lf] @ ''b'' @ [lf] @ ''c'' @ [lf], 1)"
    by (simp add: apply_spec_def repeats_in_batch_def saturating_add_def u64_max_def)
  have "strip_bom (''a'' @ [cr, lf] @ ''b'' @ [lf] @ ''c'' @ [lf]) = ([], ''a'' @ [cr, lf] @ ''b'' @ [lf] @ ''c'' @ [lf])"
      "normalize_to_lf (''a'' @ [cr, lf] @ ''b'' @ [lf] @ ''c'' @ [lf]) = ?lines"
      "restore_line_endings (''d'' @ [lf] @ ''b'' @ [lf] @ ''c'' @ [lf]) (detect_line_ending (''a'' @ [cr, lf] @ ''b'' @ [lf] @ ''c'' @ [lf])) =
        ''d'' @ [cr, lf] @ ''b'' @ [cr, lf] @ ''c'' @ [cr, lf]"
    by code_simp+
  then show ?thesis unfolding plan_edits_def by (simp only: Let_def case_prod_conv e bind_res_simps) simp
qed



section \<open>Anchors\<close>

lemma parse_anchor_positive: "parse_anchor a = Inr (n, h) \<Longrightarrow> 0 < n"
  by (auto simp: parse_anchor_def Let_def split: option.splits if_splits)

lemma lines_cut:
  assumes "0 < n" "n \<le> k" "k \<le> length ls"
  shows "\<exists>old. ls = take (n - 1) ls @ old @ drop k ls \<and> length old = k + 1 - n \<and> hd old = ls ! (n - 1) \<and> last old = ls ! (k - 1)"
proof -
  let ?old = "take (k + 1 - n) (drop (n - 1) ls)"
  have "drop (n - 1) ls = ?old @ drop k ls"
    using append_take_drop_id [of "k + 1 - n" "drop (n - 1) ls"] assms by (simp add: add.commute)
  then have "ls = take (n - 1) ls @ ?old @ drop k ls" by (metis append_take_drop_id)
  moreover have "length ?old = k + 1 - n" using assms by simp
  moreover have "hd ?old = ls ! (n - 1)" using assms by (simp add: hd_conv_nth)
  moreover have "last ?old = ls ! (k - 1)" using assms by (simp add: last_conv_nth)
  ultimately show ?thesis by blast
qed

text \<open>
  An edit by anchors replaces whole lines, those from the first anchor to the last, and no
  other: each of the two lines has the number and the hash its anchor gives, so a file that has
  changed there since it was read is not edited.
\<close>

lemma anchored_replaces_lines:
  assumes "apply_anchored content start stop new = Inr a"
  shows "\<exists>first final before old after. parse_anchor start = Inr first \<and>
    (case stop of Some e \<Rightarrow> parse_anchor e | None \<Rightarrow> Inr first) = Inr final \<and>
    split_on lf content = before @ old @ after \<and> old \<noteq> [] \<and>
    length before + 1 = fst first \<and> length before + length old = fst final \<and>
    line_hash (hd old) = snd first \<and> line_hash (last old) = snd final \<and>
    ed_new a = join_with [lf] (before @ (if new = [] then [] else split_on lf (strip_char_end lf new)) @ after) \<and>
    ed_new a \<noteq> content \<and> ed_base a = content"
proof -
  let ?lines = "split_on lf content"
  let ?known = "if content \<noteq> [] \<and> last content = lf then length ?lines - 1 else length ?lines"
  from assms obtain first final where p: "parse_anchor start = Inr first"
      "(case stop of Some e \<Rightarrow> parse_anchor e | None \<Rightarrow> Inr first) = Inr final"
      and le: "fst first \<le> fst final" and holds: "anchor_holds ?lines ?known first" "anchor_holds ?lines ?known final"
      and a: "ed_new a = join_with [lf] (take (fst first - 1) ?lines @
          (if new = [] then [] else split_on lf (strip_char_end lf new)) @ drop (fst final) ?lines)"
        "ed_new a \<noteq> content" "ed_base a = content"
    by (auto simp: apply_anchored_def Let_def bind_res_def split: sum.splits if_split_asm)
  have pos: "0 < fst first" using parse_anchor_positive p(1) by (metis prod.collapse)
  have "?known \<le> length ?lines" by simp
  then have fits: "fst final \<le> length ?lines" using holds(2) unfolding anchor_holds_def by linarith
  from lines_cut [OF pos le fits] obtain old where old:
      "?lines = take (fst first - 1) ?lines @ old @ drop (fst final) ?lines" "length old = fst final + 1 - fst first"
      "hd old = ?lines ! (fst first - 1)" "last old = ?lines ! (fst final - 1)" by blast
  have "length (take (fst first - 1) ?lines) + 1 = fst first" using pos le fits by simp
  moreover have "old \<noteq> []" using old(2) le by auto
  moreover have "length (take (fst first - 1) ?lines) + length old = fst final" using old(2) pos le fits by simp
  moreover have "line_hash (hd old) = snd first" "line_hash (last old) = snd final"
    using holds old(3,4) by (simp_all add: anchor_holds_def)
  ultimately show ?thesis using p old(1) a by blast
qed

lemma anchored_replaces_lines_witness:
  "\<exists>before old after. split_on lf (''a'' @ lf # ''b'' @ [lf]) = before @ old @ after \<and> length before = 1 \<and> length old = 1 \<and>
    ''a'' @ lf # ''c'' @ [lf] = join_with [lf] (before @ [''c''] @ after)"
proof -
  have "parse_usize ''2'' = Some 2" by (simp add: parse_usize_def after_prefix_def Let_def digits_def decimal_value_def ascii_digit_def byte_def u64_max_def)
  moreover have "trim (line_anchor 2 ''b'') = ''2#'' @ line_hash ''b''" "find_sub ''#'' (''2#'' @ line_hash ''b'') = Some 1"
      "trim ''2'' = ''2''" "map ascii_lower (strip_char_end (CHR '':'') (trim (line_hash ''b''))) = line_hash ''b''"
      "length (line_hash ''b'') = 2" "list_all hex_digit (line_hash ''b'')" by code_simp+
  ultimately have p: "parse_anchor (line_anchor 2 ''b'') = Inr (2, line_hash ''b'')"
    by (simp add: parse_anchor_def)
  have l: "split_on lf (''a'' @ lf # ''b'' @ [lf]) = [''a'', ''b'', []]" by code_simp
  have c: "split_on lf (strip_char_end lf ''c'') = [''c'']" by code_simp
  have e: "apply_anchored (''a'' @ lf # ''b'' @ [lf]) (line_anchor 2 ''b'') None ''c'' =
    Inr \<lparr>ed_base = ''a'' @ lf # ''b'' @ [lf], ed_new = ''a'' @ lf # ''c'' @ [lf], ed_replacements = 1\<rparr>"
    by (simp only: apply_anchored_def p l c bind_res_simps Let_def option.case) (simp add: anchor_holds_def lf_def)
  from anchored_replaces_lines [OF e] show ?thesis by (simp add: p c) fastforce
qed

end
