(* ===== verification/Command_Guard.thy ===== *)
theory Command_Guard imports Edit_Diff begin

text \<open>
  The guards on the commands the model runs
  (\<^verbatim>\<open>crates/harness-tools/src/security/command_guard.rs\<close>): how a command line is read, and what each
  command in it is refused for. Paths are those of Unix. The variables that lift a guard, the home
  directory and the directories of the host are arguments, and so is \<open>git\<close>: the output of
  \<^verbatim>\<open>git status\<close> on a path of the workspace, or nothing when it fails. A refusal is the guard that
  gave it; the text shown to the model is not part of the model.
\<close>

section \<open>Reading a command\<close>

record segment =
  sg_words :: "string list"
  sg_redirects :: "string list"
  sg_piped :: bool

definition no_segment :: segment where
  "no_segment = \<lparr>sg_words = [], sg_redirects = [], sg_piped = False\<rparr>"

abbreviation slash :: char where "slash \<equiv> CHR ''/''"
abbreviation backslash :: char where "backslash \<equiv> CHR 0x5C"
abbreviation quote_mark :: char where "quote_mark \<equiv> CHR 0x27"
abbreviation double_mark :: char where "double_mark \<equiv> CHR 0x22"

definition lower :: "string \<Rightarrow> string" where
  "lower s = map ascii_lower s"

definition ends_with :: "string \<Rightarrow> string \<Rightarrow> bool" where
  "ends_with p s \<longleftrightarrow> starts_with (rev p) (rev s)"

definition contains :: "string \<Rightarrow> string \<Rightarrow> bool" where
  "contains p s \<longleftrightarrow> find_sub p s \<noteq> None"

text \<open>\<^verbatim>\<open>split(['/', '\\'])\<close>.\<close>

definition path_parts :: "string \<Rightarrow> string list" where
  "path_parts s = split_on slash (map (\<lambda>c. if c = backslash then slash else c) s)"

definition segment_command :: "segment \<Rightarrow> string" where
  "segment_command sg = (case sg_words sg of [] \<Rightarrow> []
    | w # _ \<Rightarrow> (let name = lower (last (path_parts w)) in
        if ends_with ''.exe'' name then take (length name - 4) name else name))"

definition arguments :: "segment \<Rightarrow> string list" where
  "arguments sg = drop 1 (sg_words sg)"

definition lower_arguments :: "segment \<Rightarrow> string list" where
  "lower_arguments sg = map lower (arguments sg)"

definition is_assignment :: "string \<Rightarrow> bool" where
  "is_assignment w \<longleftrightarrow> (case find_sub ''='' w of None \<Rightarrow> False
    | Some i \<Rightarrow> (let name = take i w in name \<noteq> [] \<and>
        list_all (\<lambda>c. ascii_alphanumeric c \<or> c = CHR ''_'') name \<and> \<not> ascii_digit (hd name)))"

definition is_wrapper :: "string \<Rightarrow> bool" where
  "is_wrapper w \<longleftrightarrow>
    w \<in> {''sudo'', ''env'', ''nice'', ''time'', ''command'', ''exec'', ''nohup'', ''&'', ''.''} \<or> is_assignment w"

text \<open>What the scan of \<^verbatim>\<open>parse_flat\<close> carries from one character to the next.\<close>

record scan_state =
  sc_segments :: "segment list"
  sc_current :: segment
  sc_word :: string
  sc_in_word :: bool
  sc_redirect :: bool
  sc_quote :: "char option"

definition scan_start :: scan_state where
  "scan_start = \<lparr>sc_segments = [], sc_current = no_segment, sc_word = [], sc_in_word = False,
    sc_redirect = False, sc_quote = None\<rparr>"

definition push_char :: "char \<Rightarrow> scan_state \<Rightarrow> scan_state" where
  "push_char c st = st\<lparr>sc_word := sc_word st @ [c]\<rparr>"

definition finish_word :: "scan_state \<Rightarrow> scan_state" where
  "finish_word st = (let w = sc_word st; cur = sc_current st in
    if \<not> sc_in_word st then st
    else if sc_redirect st then st\<lparr>sc_current := cur\<lparr>sg_redirects := sg_redirects cur @ [w]\<rparr>,
      sc_word := [], sc_redirect := False, sc_in_word := False\<rparr>
    else if sg_words cur = [] \<and> is_wrapper w then st\<lparr>sc_word := [], sc_in_word := False\<rparr>
    else st\<lparr>sc_current := cur\<lparr>sg_words := sg_words cur @ [w]\<rparr>, sc_word := [], sc_in_word := False\<rparr>)"

definition finish_segment :: "bool \<Rightarrow> scan_state \<Rightarrow> scan_state" where
  "finish_segment piped st = (let cur = sc_current st in
    if sg_words cur \<noteq> [] \<or> sg_redirects cur \<noteq> []
    then st\<lparr>sc_segments := sc_segments st @ [cur], sc_current := no_segment\<lparr>sg_piped := piped\<rparr>\<rparr>
    else st\<lparr>sc_current := cur\<lparr>sg_piped := piped\<rparr>\<rparr>)"

text \<open>After \<^verbatim>\<open>>\<close>: a second one, then a stream number or the start of a file's name.\<close>

definition open_redirect :: "scan_state \<Rightarrow> string \<Rightarrow> scan_state \<times> string" where
  "open_redirect st s = (let
      st = (if sc_in_word st \<and> sc_word st \<in> {''2'', ''1'', [CHR 0x2A]} then st\<lparr>sc_word := [], sc_in_word := False\<rparr> else st);
      st = finish_word st;
      s = (if starts_with ''>'' s then drop 1 s else s) in
    if starts_with ''&'' s then (st, dropWhile ascii_digit (drop 1 s)) else (st\<lparr>sc_redirect := True\<rparr>, s))"

definition separators :: string where
  "separators = [CHR ''|'', CHR '';'', lf, CHR 0x28, CHR 0x29, CHR ''{'', CHR ''}'', CHR ''&'']"

text \<open>One character outside quotes, and what is left to read after it.\<close>

definition scan_plain :: "scan_state \<Rightarrow> char \<Rightarrow> string \<Rightarrow> scan_state \<times> string" where
  "scan_plain st c s = (
    if c = quote_mark \<or> c = double_mark then (st\<lparr>sc_quote := Some c, sc_in_word := True\<rparr>, s)
    else if c = CHR ''#'' \<and> \<not> sc_in_word st then (finish_segment False st, drop 1 (dropWhile (\<lambda>x. x \<noteq> lf) s))
    else if c = CHR ''>'' then open_redirect st s
    else if c = CHR ''{'' \<and> sc_in_word st \<and> ends_with ''$'' (sc_word st) then
      (let inner = takeWhile (\<lambda>x. x \<noteq> CHR ''}'') s; rest = dropWhile (\<lambda>x. x \<noteq> CHR ''}'') s in
       (st\<lparr>sc_word := sc_word st @ [CHR ''{''] @ inner @ take 1 rest\<rparr>, drop 1 rest))
    else if c \<in> set separators then
      (if c = CHR ''&'' \<and> \<not> sc_in_word st \<and> sg_words (sc_current st) = [] \<and> 0 < ws_len s
       then (st\<lparr>sc_current := (sc_current st)\<lparr>sg_words := [''&'']\<rparr>\<rparr>, s)
       else (let doubled = starts_with [c] s in
         (finish_segment (c = CHR ''|'' \<and> \<not> doubled) (finish_word st),
          if doubled \<and> (c = CHR ''|'' \<or> c = CHR ''&'') then drop 1 s else s)))
    else if c = CHR ''$'' \<and> starts_with [CHR 0x28] s then (finish_segment False (finish_word st), s)
    else if 0 < ws_len (c # s) then (finish_word st, drop (ws_len (c # s)) (c # s))
    else ((push_char c st)\<lparr>sc_in_word := True\<rparr>, s))"

definition scan_quoted :: "char \<Rightarrow> scan_state \<Rightarrow> char \<Rightarrow> string \<Rightarrow> scan_state \<times> string" where
  "scan_quoted q st c s = (
    if c = q then (st\<lparr>sc_quote := None\<rparr>, s)
    else if q = double_mark \<and> c = backslash \<and> starts_with [double_mark] s then (push_char double_mark st, drop 1 s)
    else (push_char c st, s))"

definition scan_one :: "scan_state \<Rightarrow> char \<Rightarrow> string \<Rightarrow> scan_state \<times> string" where
  "scan_one st c s = (case sc_quote st of Some q \<Rightarrow> scan_quoted q st c s | None \<Rightarrow> scan_plain st c s)"

lemma drop_after_shrinks: "length (drop n (dropWhile P s)) \<le> length s" "length (dropWhile P (drop n s)) \<le> length s"
  using length_dropWhile_le [of P s] length_dropWhile_le [of P "drop n s"] by auto

lemma open_redirect_shrinks: "length (snd (open_redirect st s)) \<le> length s"
proof -
  have "length (dropWhile ascii_digit (drop 1 t)) \<le> length s" if "length t \<le> length s" for t
    using drop_after_shrinks(2) [of ascii_digit 1 t] that by simp
  then show ?thesis by (simp add: open_redirect_def Let_def)
qed

lemma scan_one_shrinks: "length (snd (scan_one st c s)) \<le> length s"
proof -
  have "length (snd (scan_plain st c s)) \<le> length s"
    unfolding scan_plain_def Let_def
    using open_redirect_shrinks [of st s] drop_after_shrinks(1) [of 1 _ s]
    by (simp del: length_drop) (simp add: Suc_le_eq le_diff_conv)
  then show ?thesis by (simp add: scan_one_def scan_quoted_def split: option.split)
qed

function scan :: "scan_state \<Rightarrow> string \<Rightarrow> scan_state" where
  "scan st [] = st"
| "scan st (c # s) = scan (fst (scan_one st c s)) (snd (scan_one st c s))"
  by pat_completeness auto
termination
  by (relation "measure (\<lambda>(st, s). length s)") (simp_all add: case_prod_beta le_imp_less_Suc scan_one_shrinks)

definition drop_call_operator :: "segment \<Rightarrow> segment" where
  "drop_call_operator sg = (case sg_words sg of
      a # b # ws \<Rightarrow> if a = ''&'' \<and> \<not> starts_with ''$'' b then sg\<lparr>sg_words := b # ws\<rparr> else sg
    | _ \<Rightarrow> sg)"

definition parse_flat :: "string \<Rightarrow> segment list" where
  "parse_flat command = map drop_call_operator
    (sc_segments (finish_segment False (finish_word (scan scan_start command))))"

section \<open>Commands within commands\<close>

definition is_short_flag_cluster :: "string \<Rightarrow> string \<Rightarrow> bool" where
  "is_short_flag_cluster w letters \<longleftrightarrow> 1 < length w \<and> length w \<le> 5 \<and> starts_with ''-'' w \<and>
    \<not> starts_with ''--'' w \<and> list_all (\<lambda>c. c \<in> set letters) (drop 1 w)"

definition is_parameter :: "string \<Rightarrow> string \<Rightarrow> nat \<Rightarrow> bool" where
  "is_parameter w name least \<longleftrightarrow> least < length w \<and> starts_with ''-'' (lower w) \<and> starts_with (drop 1 (lower w)) name"

definition position :: "('a \<Rightarrow> bool) \<Rightarrow> 'a list \<Rightarrow> nat option" where
  "position P xs = (let i = length (takeWhile (\<lambda>x. \<not> P x) xs) in if i < length xs then Some i else None)"

definition inner_command :: "segment \<Rightarrow> string option" where
  "inner_command sg = (let command = segment_command sg; low = lower_arguments sg; args = arguments sg in
    if command \<in> {''bash'', ''sh'', ''zsh'', ''dash'', ''ksh''} then
      Option.bind (position (\<lambda>w. is_short_flag_cluster w ''celixs'' \<and> CHR ''c'' \<in> set w) low)
        (\<lambda>i. if i + 1 < length args then Some (args ! (i + 1)) else None)
    else if command \<in> {''powershell'', ''pwsh''} then
      map_option (\<lambda>i. join_with '' '' (drop (i + 1) args)) (position (\<lambda>w. is_parameter w ''command'' 0 \<and> 2 \<le> length w) low)
    else if command = ''cmd'' then
      map_option (\<lambda>i. join_with '' '' (drop (i + 1) args)) (position (\<lambda>w. w = ''/c'' \<or> w = ''/k'') low)
    else None)"

function expand :: "nat \<Rightarrow> segment list \<Rightarrow> segment list" where
  "expand depth [] = []"
| "expand depth (sg # sgs) = sg # (case inner_command sg of
      Some inner \<Rightarrow> if \<not> blank inner \<and> depth < 4 then expand (Suc depth) (parse_flat inner) else []
    | None \<Rightarrow> []) @ expand depth sgs"
  by pat_completeness auto
termination
  by (relation "measures [\<lambda>(depth, sgs). 4 - depth, \<lambda>(depth, sgs). length sgs]") auto

definition parse_command :: "string \<Rightarrow> segment list" where
  "parse_command command = expand 0 (parse_flat command)"

section \<open>Paths\<close>

text \<open>\<^verbatim>\<open>Path::is_absolute\<close>, \<^verbatim>\<open>Path::join\<close> and the components of a path, by name.\<close>

definition is_absolute :: "string \<Rightarrow> bool" where
  "is_absolute p \<longleftrightarrow> starts_with ''/'' p"

definition join_path :: "string \<Rightarrow> string \<Rightarrow> string" where
  "join_path p q = (if is_absolute q \<or> p = [] then q else if ends_with ''/'' p then p @ q else p @ ''/'' @ q)"

definition path_names :: "string \<Rightarrow> string list" where
  "path_names p = filter (\<lambda>n. n \<noteq> [] \<and> n \<noteq> ''.'') (split_on slash p)"

definition lexical_step :: "string list \<Rightarrow> string \<Rightarrow> string list" where
  "lexical_step out n = (if n = ''..'' then butlast out else out @ [n])"

definition lexical :: "string \<Rightarrow> string" where
  "lexical p = (if is_absolute p then ''/'' else []) @ join_with ''/'' (foldl lexical_step [] (path_names p))"

definition folded_path :: "string \<Rightarrow> string" where
  "folded_path p = strip_char_end slash (map (\<lambda>c. if c = backslash then slash else c) p)"

definition same_or_inside :: "string \<Rightarrow> string \<Rightarrow> bool" where
  "same_or_inside p base \<longleftrightarrow> folded_path p = folded_path base \<or> starts_with (folded_path base @ ''/'') (folded_path p)"

definition literal :: "string \<Rightarrow> bool" where
  "literal w \<longleftrightarrow> w \<noteq> [] \<and> list_all (\<lambda>c. c \<notin> set [CHR ''$'', CHR 0x2A, CHR ''?'', CHR ''~'', CHR ''%'', CHR 0x60, CHR ''['', CHR ''{'']) w \<and>
    \<not> starts_with ''-'' w"

definition absolute :: "string \<Rightarrow> string \<Rightarrow> string" where
  "absolute root w = lexical (if is_absolute w \<or> starts_with [backslash] w then w else join_path root w)"

definition names :: "string \<Rightarrow> string list" where
  "names w = map lower (filter (\<lambda>p. p \<noteq> []) (path_parts w))"

text \<open>\<^verbatim>\<open>Path::strip_prefix\<close>, on the components of both paths.\<close>

definition components :: "string \<Rightarrow> string list" where
  "components p = (if is_absolute p then [''/''] else if p = ''.'' \<or> starts_with ''./'' p then [''.''] else []) @ path_names p"

definition strip_root :: "string \<Rightarrow> string \<Rightarrow> string option" where
  "strip_root root p = (let r = components root; c = components p in
    if take (length r) c = r then Some (join_with ''/'' (drop (length r) c)) else None)"

section \<open>Secret files\<close>

definition after_last_dot :: "string \<Rightarrow> (string \<times> string) option" where
  "after_last_dot n = (if CHR ''.'' \<in> set n
    then let ext = rev (takeWhile (\<lambda>c. c \<noteq> CHR ''.'') (rev n)) in Some (take (length n - length ext - 1) n, ext)
    else None)"

definition env_file :: "string \<Rightarrow> bool" where
  "env_file n \<longleftrightarrow> n = ''.env'' \<or> n = ''.envrc'' \<or> (case after_prefix ''.env.'' n of None \<Rightarrow> False
    | Some suffix \<Rightarrow> suffix \<notin> {''example'', ''sample'', ''template'', ''dist''})"

definition key_file :: "string \<Rightarrow> bool" where
  "key_file n \<longleftrightarrow> n \<in> {''id_rsa'', ''id_ed25519'', ''id_ecdsa'', ''id_dsa'', ''.secrets'', ''.secrets.env''} \<or>
    contains ''private_key'' n"

definition token_file :: "string option \<Rightarrow> string \<Rightarrow> bool" where
  "token_file prev n \<longleftrightarrow> n \<in> {''credentials.json'', ''.npmrc'', ''.netrc'', ''.pgpass'', ''.git-credentials''} \<or>
    (n = ''credentials'' \<and> prev = Some ''.aws'')"

definition key_extension :: "string \<Rightarrow> bool" where
  "key_extension n \<longleftrightarrow> (case after_last_dot n of None \<Rightarrow> False
    | Some (stem, ext) \<Rightarrow> stem \<noteq> [] \<and> ext \<in> {''pem'', ''key'', ''p12'', ''pfx'', ''clixml''})"

fun secret_parts :: "string option \<Rightarrow> string list \<Rightarrow> bool" where
  "secret_parts prev [] = False"
| "secret_parts prev (n # ns) \<longleftrightarrow>
    env_file n \<or> key_file n \<or> token_file prev n \<or> (ns = [] \<and> key_extension n) \<or> secret_parts (Some n) ns"

definition names_secret :: "string \<Rightarrow> bool" where
  "names_secret w = secret_parts None (names w)"

section \<open>What a command does\<close>

fun target_words :: "string list \<Rightarrow> string list \<Rightarrow> string list \<Rightarrow> string list" where
  "target_words value_of skip_of [] = []"
| "target_words value_of skip_of [w] =
    (if list_ex (\<lambda>n. is_parameter (lower w) n 1) (value_of @ skip_of) then []
     else if \<not> starts_with ''-'' (lower w) \<and> (\<not> starts_with ''/'' (lower w) \<or> length w \<noteq> 2) then [w] else [])"
| "target_words value_of skip_of (w # v # ws) =
    (if list_ex (\<lambda>n. is_parameter (lower w) n 1) value_of then v # target_words value_of skip_of ws
     else if list_ex (\<lambda>n. is_parameter (lower w) n 1) skip_of then target_words value_of skip_of ws
     else (if \<not> starts_with ''-'' (lower w) \<and> (\<not> starts_with ''/'' (lower w) \<or> length w \<noteq> 2) then [w] else [])
       @ target_words value_of skip_of (v # ws))"

definition delete_targets :: "string list \<Rightarrow> string list" where
  "delete_targets args = filter (\<lambda>t. t \<noteq> []) (map trim (concat (map (split_on (CHR '',''))
    (target_words [''path'', ''literalpath''] [''include'', ''exclude'', ''filter''] args))))"

definition recursive_delete :: "segment \<Rightarrow> string list option" where
  "recursive_delete sg = (let command = segment_command sg; args = arguments sg; low = lower_arguments sg in
    if command = ''rm'' then
      (if list_ex (\<lambda>w. w = ''--recursive'' \<or> is_parameter w ''recurse'' 1 \<or>
            (is_short_flag_cluster w ''rRfivdI'' \<and> (CHR ''r'' \<in> set w \<or> CHR ''R'' \<in> set w))) low \<or>
          list_ex (\<lambda>w. is_short_flag_cluster w ''rRfivdI'' \<and> CHR ''R'' \<in> set w) args
       then Some (delete_targets args) else None)
    else if command \<in> {''remove-item'', ''ri'', ''del'', ''erase'', ''rd'', ''rmdir''} then
      (if list_ex (\<lambda>w. is_parameter w ''recurse'' 1 \<or> w = ''/s'') low then Some (delete_targets args) else None)
    else if command = ''find'' \<and> ''-delete'' \<in> set low then Some (takeWhile (\<lambda>w. \<not> starts_with ''-'' w) args)
    else None)"

definition kill_by_name :: "segment \<Rightarrow> segment option \<Rightarrow> bool" where
  "kill_by_name sg prev = (let command = segment_command sg; low = lower_arguments sg;
      least = (if command = ''kill'' then 3 else 2);
      by_name = list_ex (\<lambda>w. is_parameter w ''name'' 0 \<and> least \<le> length w) low;
      by_id = list_ex (\<lambda>w. is_parameter w ''id'' 0 \<or> is_parameter w ''inputobject'' 1) low in
    (command \<in> {''stop-process'', ''spps'', ''kill''} \<and> by_name) \<or>
    (command \<in> {''&'', ''iex'', ''invoke-expression''} \<and> by_name) \<or>
    (command \<in> {''stop-process'', ''spps'', ''kill''} \<and> sg_piped sg \<and> \<not> by_id \<and>
      (case prev of None \<Rightarrow> False | Some b \<Rightarrow> segment_command b \<in> {''get-process'', ''gps'', ''ps''} \<and>
        \<not> list_ex (\<lambda>w. is_parameter w ''id'' 0) (lower_arguments b))) \<or>
    (command = ''taskkill'' \<and> (''/im'' \<in> set low \<or> ''-im'' \<in> set low)) \<or> command = ''pkill'' \<or> command = ''killall'')"

definition ascii_alphabetic :: "char \<Rightarrow> bool" where
  "ascii_alphabetic c \<longleftrightarrow> (65 \<le> byte c \<and> byte c \<le> 90) \<or> (97 \<le> byte c \<and> byte c \<le> 122)"

definition slashed :: "string \<Rightarrow> string" where
  "slashed s = map (\<lambda>c. if c = backslash then slash else c) s"

definition strip_separators :: "string \<Rightarrow> string" where
  "strip_separators s = rev (dropWhile (\<lambda>c. c = slash \<or> c = backslash) (rev s))"

definition is_root :: "string option \<Rightarrow> string \<Rightarrow> bool" where
  "is_root home w = (let low = lower (strip_separators w); mnt = (case after_prefix ''/mnt'' low of Some t \<Rightarrow> t | None \<Rightarrow> low) in
    (low = [] \<and> w \<noteq> []) \<or>
    (length low = 2 \<and> ascii_alphabetic (low ! 0) \<and> low ! 1 = CHR '':'') \<or>
    (length mnt = 2 \<and> starts_with ''/'' mnt \<and> ascii_alphabetic (mnt ! 1)) \<or>
    low \<in> {''~'', ''$home'', ''${home}'', ''$env:userprofile'', ''%userprofile%'', ''$env:home''} \<or>
    ends_with ('':'' @ [backslash] @ ''users'') low \<or> ends_with '':/users'' low \<or>
    (case home of None \<Rightarrow> False | Some h \<Rightarrow> slashed low = lower (strip_char_end slash (slashed h))))"

definition searches_below :: "segment \<Rightarrow> bool" where
  "searches_below sg = (let command = segment_command sg; args = arguments sg; low = lower_arguments sg;
      short = (\<lambda>w. starts_with ''-'' w \<and> \<not> starts_with ''--'' w) in
    if command \<in> {''grep'', ''egrep'', ''fgrep''} then
      list_ex (\<lambda>w. w = ''--recursive'' \<or> w = ''--dereference-recursive'' \<or> (short w \<and> CHR ''r'' \<in> set w)) low \<or>
      list_ex (\<lambda>w. short w \<and> CHR ''R'' \<in> set w) args
    else if command \<in> {''rg'', ''ag'', ''find'', ''fd''} then True
    else if command \<in> {''get-childitem'', ''gci''} then list_ex (\<lambda>w. is_parameter w ''recurse'' 0) low
    else if command \<in> {''ls'', ''dir''} then
      list_ex (\<lambda>w. is_parameter w ''recurse'' 2 \<or> w = ''/s'') low \<or> ''-R'' \<in> set args
    else False)"

fun rooted_word :: "string option \<Rightarrow> string list \<Rightarrow> bool" where
  "rooted_word home [] = False"
| "rooted_word home [w] \<longleftrightarrow> \<not> (is_parameter w ''path'' 1 \<or> is_parameter w ''literalpath'' 1) \<and> \<not> starts_with ''-'' w \<and> is_root home w"
| "rooted_word home (w # v # ws) \<longleftrightarrow>
    (if is_parameter w ''path'' 1 \<or> is_parameter w ''literalpath'' 1 then is_root home v \<or> rooted_word home ws
     else (\<not> starts_with ''-'' w \<and> is_root home w) \<or> rooted_word home (v # ws))"

definition root_search :: "string option \<Rightarrow> segment \<Rightarrow> bool" where
  "root_search home sg \<longleftrightarrow> searches_below sg \<and> rooted_word home (arguments sg)"

definition only_looks :: "segment \<Rightarrow> bool" where
  "only_looks sg = (let command = segment_command sg; low = lower_arguments sg in
    if command \<in> {''echo'', ''printf'', ''write-output'', ''write-host'', ''test-path'', ''stat'', ''ls'', ''dir'',
        ''get-childitem'', ''gci'', ''file''} then True
    else if command = ''git'' then (case low of [] \<Rightarrow> False
      | w # _ \<Rightarrow> w \<in> {''check-ignore'', ''status'', ''ls-files'', ''log''} \<or> (w = ''rm'' \<and> ''--cached'' \<in> set low))
    else False)"

fun secret_argument :: "string option \<Rightarrow> string list \<Rightarrow> bool" where
  "secret_argument prev [] = False"
| "secret_argument prev (w # ws) \<longleftrightarrow>
    (names_secret w \<and> map_option lower prev \<noteq> Some ''--env-file'') \<or> secret_argument (Some w) ws"

definition secret_path :: "segment \<Rightarrow> bool" where
  "secret_path sg \<longleftrightarrow> (\<not> only_looks sg \<and> secret_argument None (arguments sg)) \<or> list_ex names_secret (sg_redirects sg)"

definition modifies :: "segment \<Rightarrow> bool" where
  "modifies sg = (let command = segment_command sg in
    command \<in> {''rm'', ''del'', ''erase'', ''remove-item'', ''ri'', ''rd'', ''rmdir'', ''mv'', ''move'', ''move-item'',
      ''mi'', ''ren'', ''rename'', ''rename-item'', ''rni'', ''cp'', ''copy'', ''copy-item'', ''cpi'', ''set-content'',
      ''sc'', ''add-content'', ''ac'', ''out-file'', ''new-item'', ''ni'', ''tee'', ''tee-object'', ''truncate'',
      ''chmod'', ''icacls'', ''attrib'', ''touch'', ''mkdir'', ''md''} \<or>
    (command \<in> {''sed'', ''perl''} \<and> list_ex (starts_with ''-i'') (lower_arguments sg)))"

definition inside_protected :: "string \<Rightarrow> string list \<Rightarrow> string \<Rightarrow> bool" where
  "inside_protected root protected w \<longleftrightarrow> literal w \<and> (let p = absolute root w in
    list_ex (\<lambda>base. same_or_inside p base \<and> (\<not> same_or_inside p root \<or> same_or_inside base root)) protected)"

definition protected_write :: "string \<Rightarrow> string list \<Rightarrow> segment \<Rightarrow> bool" where
  "protected_write root protected sg \<longleftrightarrow>
    (modifies sg \<and> list_ex (inside_protected root protected) (arguments sg)) \<or>
    list_ex (inside_protected root protected) (sg_redirects sg)"

section \<open>The verdict\<close>

datatype guard = Kill_By_Name | Root_Search | Secret_Path | Harness_Integrity | Recursive_Delete

record guard_world =
  gw_root :: string
  gw_home :: "string option"
  gw_protected :: "string list"
  gw_lifted :: "guard \<Rightarrow> string option"
  gw_git :: "string \<Rightarrow> string option"

text \<open>\<^verbatim>\<open>lifted\<close>: the guard's variable is set, and not to \<^verbatim>\<open>0\<close>.\<close>

definition lifted :: "guard_world \<Rightarrow> guard \<Rightarrow> bool" where
  "lifted gw g \<longleftrightarrow> (case gw_lifted gw g of None \<Rightarrow> False | Some v \<Rightarrow> v \<noteq> [] \<and> v \<noteq> ''0'')"

definition disposable_dirs :: "string list" where
  "disposable_dirs = [''node_modules'', ''dist'', ''build'', ''target'', ''out'', ''.next'', ''.nuxt'', ''.svelte-kit'',
    ''.turbo'', ''.parcel-cache'', ''coverage'', ''__pycache__'', ''.pytest_cache'', ''.mypy_cache'', ''.cache'', ''tmp'', ''.tmp'']"

definition disposable :: "string \<Rightarrow> bool" where
  "disposable t \<longleftrightarrow> ''..'' \<notin> set (names t) \<and> list_ex (\<lambda>n. n \<in> set disposable_dirs) (names t)"

datatype delete_reason = No_Targets | Not_Literal | Elsewhere | Outside | Whole_Workspace | Would_Lose | No_Repository

definition clean_status :: "string \<Rightarrow> bool" where
  "clean_status out \<longleftrightarrow> list_all (\<lambda>l. trim_end l = []) (split_on lf out)"

definition target_refusal :: "guard_world \<Rightarrow> bool \<Rightarrow> string \<Rightarrow> delete_reason option" where
  "target_refusal gw relocated t = (
    if \<not> literal t then (if disposable t then None else Some Not_Literal)
    else if relocated \<and> \<not> is_absolute t then (if disposable t then None else Some Elsewhere)
    else let p = absolute (gw_root gw) t in
    if \<not> same_or_inside p (gw_root gw) then Some Outside
    else if disposable t then None
    else if lexical p = lexical (gw_root gw) then Some Whole_Workspace
    else case gw_git gw (case strip_root (gw_root gw) p of Some r \<Rightarrow> r | None \<Rightarrow> t) of
      None \<Rightarrow> Some No_Repository
    | Some out \<Rightarrow> if clean_status out then None else Some Would_Lose)"

fun targets_refusal :: "guard_world \<Rightarrow> bool \<Rightarrow> string list \<Rightarrow> delete_reason option" where
  "targets_refusal gw relocated [] = None"
| "targets_refusal gw relocated (t # ts) = (case target_refusal gw relocated t of
      None \<Rightarrow> targets_refusal gw relocated ts | Some r \<Rightarrow> Some r)"

definition delete_refusal :: "guard_world \<Rightarrow> bool \<Rightarrow> string list \<Rightarrow> delete_reason option" where
  "delete_refusal gw relocated targets = (if targets = [] then Some No_Targets else targets_refusal gw relocated targets)"

definition relocates :: "segment \<Rightarrow> bool" where
  "relocates sg \<longleftrightarrow> segment_command sg \<in> {''cd'', ''pushd'', ''set-location'', ''sl'', ''chdir'', ''push-location''}"

definition all_protected :: "guard_world \<Rightarrow> string list" where
  "all_protected gw = gw_protected gw @ [join_path (gw_root gw) ''.harness'']"

definition segment_refusal :: "guard_world \<Rightarrow> bool \<Rightarrow> segment option \<Rightarrow> segment \<Rightarrow> guard option" where
  "segment_refusal gw relocated prev sg = (
    if kill_by_name sg prev \<and> \<not> lifted gw Kill_By_Name then Some Kill_By_Name
    else if root_search (gw_home gw) sg \<and> \<not> lifted gw Root_Search then Some Root_Search
    else if secret_path sg \<and> \<not> lifted gw Secret_Path then Some Secret_Path
    else if protected_write (gw_root gw) (all_protected gw) sg \<and> \<not> lifted gw Harness_Integrity then Some Harness_Integrity
    else case recursive_delete sg of None \<Rightarrow> None
    | Some targets \<Rightarrow> if \<not> lifted gw Recursive_Delete \<and> delete_refusal gw relocated targets \<noteq> None
        then Some Recursive_Delete else None)"

fun judge_from :: "guard_world \<Rightarrow> bool \<Rightarrow> segment option \<Rightarrow> segment list \<Rightarrow> guard option" where
  "judge_from gw relocated prev [] = None"
| "judge_from gw relocated prev (sg # sgs) = (case segment_refusal gw relocated prev sg of
      Some g \<Rightarrow> Some g
    | None \<Rightarrow> judge_from gw (relocated \<or> relocates sg) (Some sg) sgs)"

definition judge :: "guard_world \<Rightarrow> segment list \<Rightarrow> guard option" where
  "judge gw sgs = judge_from gw False None sgs"

definition shell_refusal :: "guard_world \<Rightarrow> string \<Rightarrow> guard option" where
  "shell_refusal gw command = judge gw (parse_command command)"

definition process_refusal :: "guard_world \<Rightarrow> string \<Rightarrow> string list \<Rightarrow> guard option" where
  "process_refusal gw executable args = judge gw (expand 0 [no_segment\<lparr>sg_words := executable # args\<rparr>])"

section \<open>How a word may be spelled\<close>

text \<open>
  The spellings of a word: characters that mean themselves, and quoted pieces. A shell removes the
  quotes and joins the pieces, and so does the scan.
\<close>

datatype piece = Bare char | Single string | Double string

fun piece_text :: "piece \<Rightarrow> string" where
  "piece_text (Bare c) = [c]"
| "piece_text (Single s) = [quote_mark] @ s @ [quote_mark]"
| "piece_text (Double s) = [double_mark] @ s @ [double_mark]"

fun piece_word :: "piece \<Rightarrow> string" where
  "piece_word (Bare c) = [c]"
| "piece_word (Single s) = s"
| "piece_word (Double s) = s"

definition plain_char :: "char \<Rightarrow> bool" where
  "plain_char c \<longleftrightarrow> byte c < 128 \<and> ws_len [c] = 0 \<and>
    c \<notin> set ([quote_mark, double_mark, CHR ''#'', CHR ''>'', CHR ''$''] @ separators)"

fun well_quoted :: "piece \<Rightarrow> bool" where
  "well_quoted (Bare c) = plain_char c"
| "well_quoted (Single s) \<longleftrightarrow> quote_mark \<notin> set s"
| "well_quoted (Double s) \<longleftrightarrow> double_mark \<notin> set s \<and> backslash \<notin> set s"

definition spelling :: "piece list \<Rightarrow> string" where
  "spelling ps = concat (map piece_text ps)"

definition spelled :: "piece list \<Rightarrow> string" where
  "spelled ps = concat (map piece_word ps)"

lemma scan_quotes:
  "q \<notin> set s \<Longrightarrow> q = double_mark \<longrightarrow> backslash \<notin> set s \<Longrightarrow>
    scan (st\<lparr>sc_quote := Some q\<rparr>) (s @ q # rest) = scan (st\<lparr>sc_word := sc_word st @ s, sc_quote := None\<rparr>) rest"
proof (induction s arbitrary: st)
  case Nil
  then show ?case by (simp add: scan_one_def scan_quoted_def)
next
  case (Cons c s)
  have "scan_one (st\<lparr>sc_quote := Some q\<rparr>) c (s @ q # rest) =
      ((st\<lparr>sc_word := sc_word st @ [c]\<rparr>)\<lparr>sc_quote := Some q\<rparr>, s @ q # rest)"
    using Cons.prems by (auto simp: scan_one_def scan_quoted_def push_char_def)
  with Cons.IH [of "st\<lparr>sc_word := sc_word st @ [c]\<rparr>"] Cons.prems show ?case by simp
qed

lemma plain_not_space: "plain_char c \<Longrightarrow> ws_len (c # s) = 0"
  by (cases s) (auto simp: plain_char_def split: if_splits list.split)

lemma scan_piece:
  assumes "well_quoted p" "sc_quote st = None"
  shows "scan st (piece_text p @ rest) = scan (st\<lparr>sc_word := sc_word st @ piece_word p, sc_in_word := True\<rparr>) rest"
proof (cases p)
  case (Bare c)
  with assms(1) have "plain_char c" by simp
  then have "scan_one st c rest = ((push_char c st)\<lparr>sc_in_word := True\<rparr>, rest)"
    using assms(2) plain_not_space by (auto simp: scan_one_def scan_plain_def plain_char_def separators_def)
  with Bare show ?thesis by (simp add: push_char_def)
next
  case (Single s)
  have "scan_one st quote_mark (s @ quote_mark # rest) = (st\<lparr>sc_in_word := True, sc_quote := Some quote_mark\<rparr>, s @ quote_mark # rest)"
    using assms(2) by (simp add: scan_one_def scan_plain_def)
  with Single assms scan_quotes [of quote_mark s "st\<lparr>sc_in_word := True\<rparr>" rest] show ?thesis by (cases st) simp
next
  case (Double s)
  have "scan_one st double_mark (s @ double_mark # rest) = (st\<lparr>sc_in_word := True, sc_quote := Some double_mark\<rparr>, s @ double_mark # rest)"
    using assms(2) by (simp add: scan_one_def scan_plain_def)
  with Double assms scan_quotes [of double_mark s "st\<lparr>sc_in_word := True\<rparr>" rest] show ?thesis by (cases st) simp
qed

lemma scan_spelling:
  "list_all well_quoted ps \<Longrightarrow> sc_quote st = None \<Longrightarrow> ps \<noteq> [] \<Longrightarrow>
    scan st (spelling ps @ rest) = scan (st\<lparr>sc_word := sc_word st @ spelled ps, sc_in_word := True\<rparr>) rest"
proof (induction ps arbitrary: st)
  case (Cons p ps)
  then show ?case
    by (cases "ps = []") (simp_all add: spelling_def spelled_def scan_piece)
qed simp

definition between_words :: "string list \<Rightarrow> scan_state" where
  "between_words ws = scan_start\<lparr>sc_current := no_segment\<lparr>sg_words := ws\<rparr>\<rparr>"

lemma finish_spelled:
  "ws \<noteq> [] \<or> \<not> is_wrapper w \<Longrightarrow>
    finish_word ((between_words ws)\<lparr>sc_word := w, sc_in_word := True\<rparr>) = between_words (ws @ [w])"
  by (auto simp: finish_word_def between_words_def scan_start_def no_segment_def Let_def)

lemma scan_space:
  "sc_quote st = None \<Longrightarrow> scan st (CHR '' '' # s) = scan (finish_word st) s"
  by (simp add: scan_one_def scan_plain_def separators_def lf_def byte_def)

lemma scan_between:
  assumes "list_all well_quoted ps" "ps \<noteq> []"
  shows "scan (between_words ws) (spelling ps @ rest) = scan ((between_words ws)\<lparr>sc_word := spelled ps, sc_in_word := True\<rparr>) rest"
  using scan_spelling [OF assms(1) _ assms(2), of "between_words ws" rest] by (simp add: between_words_def scan_start_def)

lemma scan_spelled_words:
  "\<forall>ps \<in> set (p # pss). list_all well_quoted ps \<and> ps \<noteq> [] \<Longrightarrow> ws \<noteq> [] \<or> \<not> is_wrapper (spelled p) \<Longrightarrow>
    finish_word (scan (between_words ws) (join_with '' '' (map spelling (p # pss)))) = between_words (ws @ map spelled (p # pss))"
proof (induction pss arbitrary: p ws)
  case Nil
  then show ?case using scan_between [of p ws "[]"] by (simp add: finish_spelled)
next
  case (Cons p' pss)
  let ?rest = "join_with '' '' (map spelling (p' # pss))"
  have "scan (between_words ws) (join_with '' '' (map spelling (p # p' # pss))) =
      scan ((between_words ws)\<lparr>sc_word := spelled p, sc_in_word := True\<rparr>) (CHR '' '' # ?rest)"
    using scan_between [of p ws "CHR '' '' # ?rest"] Cons.prems by simp
  also have "\<dots> = scan (between_words (ws @ [spelled p])) ?rest"
    by (subst scan_space) (simp_all only: finish_spelled [OF Cons.prems(2)], simp add: between_words_def scan_start_def)
  finally show ?case using Cons.IH [of p' "ws @ [spelled p]"] Cons.prems(1) by simp
qed

text \<open>Whatever the quotes, the words of a command are read as a shell reads them.\<close>

lemma spelled_back:
  assumes "\<forall>ps \<in> set (p # pss). list_all well_quoted ps \<and> ps \<noteq> []" "\<not> is_wrapper (spelled p)"
  shows "parse_flat (join_with '' '' (map spelling (p # pss))) = [no_segment\<lparr>sg_words := map spelled (p # pss)\<rparr>]"
proof -
  have "spelled p \<noteq> ''&''" using assms(2) by (auto simp: is_wrapper_def)
  moreover have "scan_start = between_words []" by (simp add: between_words_def scan_start_def no_segment_def)
  ultimately show ?thesis using scan_spelled_words [OF assms(1), of "[]"] assms(2)
    by (simp add: parse_flat_def finish_segment_def drop_call_operator_def between_words_def scan_start_def no_segment_def split: list.split)
qed

section \<open>What passes\<close>

text \<open>A command line passes exactly when each of its commands passes where it stands.\<close>

lemma judge_from_iff:
  "judge_from gw relocated prev sgs = None \<longleftrightarrow> (\<forall>i < length sgs.
    segment_refusal gw (relocated \<or> list_ex relocates (take i sgs)) (if i = 0 then prev else Some (sgs ! (i - 1))) (sgs ! i) = None)"
proof (induction sgs arbitrary: relocated prev)
  case (Cons sg sgs)
  define ok where "ok = (\<lambda>i. segment_refusal gw (relocated \<or> list_ex relocates (take i (sg # sgs)))
      (if i = 0 then prev else Some ((sg # sgs) ! (i - 1))) ((sg # sgs) ! i) = None)"
  have later: "ok (Suc i) \<longleftrightarrow> segment_refusal gw ((relocated \<or> relocates sg) \<or> list_ex relocates (take i sgs))
      (if i = 0 then Some sg else Some (sgs ! (i - 1))) (sgs ! i) = None" for i
    by (cases i) (simp_all add: ok_def disj_assoc)
  have "judge_from gw relocated prev (sg # sgs) = None \<longleftrightarrow> ok 0 \<and> judge_from gw (relocated \<or> relocates sg) (Some sg) sgs = None"
    by (simp add: ok_def split: option.split)
  also have "\<dots> \<longleftrightarrow> ok 0 \<and> (\<forall>i < length sgs. ok (Suc i))"
    unfolding later Cons.IH [of "relocated \<or> relocates sg" "Some sg"] by (rule refl)
  also have "\<dots> \<longleftrightarrow> (\<forall>i < length (sg # sgs). ok i)" by (simp add: All_less_Suc2)
  finally show ?case by (simp only: ok_def)
qed simp

lemma judge_iff:
  "judge gw sgs = None \<longleftrightarrow> (\<forall>i < length sgs.
    segment_refusal gw (list_ex relocates (take i sgs)) (if i = 0 then None else Some (sgs ! (i - 1))) (sgs ! i) = None)"
  by (simp add: judge_def judge_from_iff)

lemma targets_refusal_none:
  "targets_refusal gw relocated ts = None \<longleftrightarrow> (\<forall>t \<in> set ts. target_refusal gw relocated t = None)"
  by (induction ts) (auto split: option.split)

definition recoverable :: "guard_world \<Rightarrow> bool \<Rightarrow> string \<Rightarrow> bool" where
  "recoverable gw relocated t \<longleftrightarrow> literal t \<and> (relocated \<longrightarrow> is_absolute t) \<and>
    (let p = absolute (gw_root gw) t in same_or_inside p (gw_root gw) \<and> lexical p \<noteq> lexical (gw_root gw) \<and>
     (\<exists>out. gw_git gw (case strip_root (gw_root gw) p of Some r \<Rightarrow> r | None \<Rightarrow> t) = Some out \<and> clean_status out))"

text \<open>The place of a target is known when it is literal and does not depend on a change of directory.\<close>

definition regenerable :: "guard_world \<Rightarrow> bool \<Rightarrow> string \<Rightarrow> bool" where
  "regenerable gw relocated t \<longleftrightarrow> disposable t \<and>
    (literal t \<and> (relocated \<longrightarrow> is_absolute t) \<longrightarrow> same_or_inside (absolute (gw_root gw) t) (gw_root gw))"

lemma target_passes: "target_refusal gw relocated t = None \<longleftrightarrow> regenerable gw relocated t \<or> recoverable gw relocated t"
  by (auto simp: target_refusal_def recoverable_def regenerable_def Let_def split: if_splits option.splits)

text \<open>
  C18. In a command line that passes with the delete guard not lifted, every recursive delete the
  guard reads, in a wrapped shell too, has targets, and every target it reads either has the name of
  a build or cache directory among its parts, and lies within the workspace when its place is known,
  or lies within the workspace, is not the workspace, is named from the root when the directory was
  changed before, and holds nothing that git could not restore. (What the guard does not read as a
  delete, or not as a target, is in the last section.)
\<close>

theorem deletes_recoverable:
  assumes "shell_refusal gw command = None" "\<not> lifted gw Recursive_Delete"
    and "i < length (parse_command command)" "recursive_delete (parse_command command ! i) = Some targets"
  shows "targets \<noteq> [] \<and> (\<forall>t \<in> set targets. regenerable gw (list_ex relocates (take i (parse_command command))) t \<or>
    recoverable gw (list_ex relocates (take i (parse_command command))) t)"
proof -
  let ?r = "list_ex relocates (take i (parse_command command))"
  have "segment_refusal gw ?r (if i = 0 then None else Some (parse_command command ! (i - 1))) (parse_command command ! i) = None"
    using assms(1,3) by (simp add: shell_refusal_def judge_iff)
  with assms(2,4) have "delete_refusal gw ?r targets = None"
    by (simp add: segment_refusal_def split: if_splits)
  then show ?thesis by (auto simp: delete_refusal_def targets_refusal_none target_passes split: if_splits)
qed

text \<open>A workspace whose \<^verbatim>\<open>src\<close> git holds, and the same without git.\<close>

definition sample_guard :: guard_world where
  "sample_guard = \<lparr>gw_root = ''/w'', gw_home = Some ''/home/u'', gw_protected = [''/home/u/.config/ha''],
    gw_lifted = (\<lambda>_. None), gw_git = (\<lambda>p. if p = ''src'' then Some [] else None)\<rparr>"

definition sample_no_git :: guard_world where
  "sample_no_git = sample_guard\<lparr>gw_git := (\<lambda>_. None)\<rparr>"

theorem deletes_recoverable_witness:
  "\<not> disposable ''src'' \<and> recoverable sample_guard False ''src''"
proof -
  have c: "shell_refusal sample_guard ''rm -rf src'' = None" "parse_command ''rm -rf src'' = [no_segment\<lparr>sg_words := [''rm'', ''-rf'', ''src'']\<rparr>]"
      "recursive_delete (no_segment\<lparr>sg_words := [''rm'', ''-rf'', ''src'']\<rparr>) = Some [''src'']" "\<not> disposable ''src''"
      "\<not> lifted sample_guard Recursive_Delete"
    by code_simp+
  from deletes_recoverable [of sample_guard "''rm -rf src''" 0 "[''src'']"] show ?thesis by (simp add: c regenerable_def)
qed

lemma refused_after: "segment_refusal gw r None sg \<noteq> None \<Longrightarrow> segment_refusal gw r (Some p) sg \<noteq> None"
  by (auto simp: segment_refusal_def kill_by_name_def Let_def split: if_splits option.splits)

lemma judge_after: "judge_from gw r None sgs \<noteq> None \<Longrightarrow> judge_from gw r (Some p) sgs \<noteq> None"
proof (cases sgs)
  case (Cons sg rest)
  then show "judge_from gw r None sgs \<noteq> None \<Longrightarrow> judge_from gw r (Some p) sgs \<noteq> None"
    using refused_after [of gw r sg p] by (cases "segment_refusal gw r (Some p) sg") (auto split: option.splits)
qed simp

lemma shell_named:
  assumes "shell \<in> {''bash'', ''sh'', ''zsh'', ''dash'', ''ksh''}"
  shows "segment_command (no_segment\<lparr>sg_words := shell # args\<rparr>) = shell"
proof -
  have "segment_command (no_segment\<lparr>sg_words := w # args\<rparr>) = w" if "segment_command (no_segment\<lparr>sg_words := [w]\<rparr>) = w" for w
    using that by (simp add: segment_command_def)
  moreover have "\<forall>w \<in> set [''bash'', ''sh'', ''zsh'', ''dash'', ''ksh'']. segment_command (no_segment\<lparr>sg_words := [w]\<rparr>) = w"
    by code_simp
  ultimately show ?thesis using assms by auto
qed

text \<open>
  How deep shells are nested in a command, within a bound. The guards read four levels; below them a
  nested command is not read.
\<close>

fun shells_within :: "nat \<Rightarrow> segment list \<Rightarrow> bool" where
  "shells_within 0 sgs \<longleftrightarrow> list_all (\<lambda>sg. case inner_command sg of None \<Rightarrow> True | Some i \<Rightarrow> blank i) sgs"
| "shells_within (Suc n) sgs \<longleftrightarrow> list_all (\<lambda>sg. case inner_command sg of None \<Rightarrow> True
    | Some i \<Rightarrow> blank i \<or> shells_within n (parse_flat i)) sgs"

lemma shells_within_simps [simp]:
  "shells_within n []"
  "shells_within n (sg # sgs) \<longleftrightarrow> (case inner_command sg of None \<Rightarrow> True
    | Some i \<Rightarrow> blank i \<or> (0 < n \<and> shells_within (n - 1) (parse_flat i))) \<and> shells_within n sgs"
  by (cases n; auto split: option.split)+

text \<open>Where no nested command is cut off, the depth at which the reading starts does not matter.\<close>

lemma expand_same: "shells_within n sgs \<Longrightarrow> d + n \<le> 4 \<Longrightarrow> e + n \<le> 4 \<Longrightarrow> expand d sgs = expand e sgs"
proof (induction n arbitrary: sgs d e)
  case 0
  from 0(1) show ?case by (induction sgs) (auto split: option.splits)
next
  case (Suc n)
  show ?case using Suc.prems(1)
  proof (induction sgs)
    case (Cons sg sgs)
    have "expand (Suc d) (parse_flat i) = expand (Suc e) (parse_flat i)" if "inner_command sg = Some i" "\<not> blank i" for i
      using Suc.IH [of "parse_flat i" "Suc d" "Suc e"] Cons.prems that Suc.prems(2,3) by auto
    moreover have "d < 4" "e < 4" using Suc.prems(2,3) by auto
    ultimately show ?case using Cons by (auto split: option.split)
  qed simp
qed

text \<open>
  C19. A shell in front hides nothing that is not nested too deep: what is refused, and nests shells
  at most three deep itself, is refused as well when it is handed to another shell in single quotes,
  whichever shell that is.
\<close>

theorem wrapped_refused:
  assumes "quote_mark \<notin> set command" "\<not> blank command" "shell \<in> {''bash'', ''sh'', ''zsh'', ''dash'', ''ksh''}"
    and "shell_refusal gw command \<noteq> None" "shells_within 3 (parse_flat command)"
  shows "shell_refusal gw (shell @ '' -c '' @ [quote_mark] @ command @ [quote_mark]) \<noteq> None"
proof -
  let ?sg = "no_segment\<lparr>sg_words := [shell, ''-c'', command]\<rparr>"
  have inside: "judge gw (expand 1 (parse_flat command)) \<noteq> None"
    using assms(4) expand_same [OF assms(5), of 0 1] by (simp add: shell_refusal_def parse_command_def)
  have "join_with '' '' (map spelling [map Bare shell, map Bare ''-c'', [Single command]]) =
      shell @ '' -c '' @ [quote_mark] @ command @ [quote_mark]"
    using assms(3) by (auto simp: spelling_def)
  moreover have "map spelled [map Bare shell, map Bare ''-c'', [Single command]] = [shell, ''-c'', command]"
    using assms(3) by (auto simp: spelled_def)
  moreover have "\<not> is_wrapper shell" "list_all well_quoted (map Bare shell)" "list_all well_quoted (map Bare ''-c'')" "shell \<noteq> []"
    using assms(3) by (auto simp: is_wrapper_def is_assignment_def find_sub.simps plain_char_def separators_def lf_def byte_def)
  ultimately have "parse_flat (shell @ '' -c '' @ [quote_mark] @ command @ [quote_mark]) = [?sg]"
    using spelled_back [of "map Bare shell" "[map Bare ''-c'', [Single command]]"] assms(1) by simp
  moreover have "inner_command ?sg = Some command" "\<not> relocates ?sg"
  proof -
    have "lower ''-c'' = ''-c''" "is_short_flag_cluster ''-c'' ''celixs''" by code_simp+
    then have "position (\<lambda>w. is_short_flag_cluster w ''celixs'' \<and> CHR ''c'' \<in> set w) (lower_arguments ?sg) = Some 0"
      by (simp add: position_def lower_arguments_def arguments_def)
    with assms(3) shell_named [OF assms(3)] show "inner_command ?sg = Some command"
      by (auto simp: inner_command_def Let_def arguments_def)
    show "\<not> relocates ?sg" using assms(3) by (auto simp: relocates_def shell_named [OF assms(3)])
  qed
  ultimately have "parse_command (shell @ '' -c '' @ [quote_mark] @ command @ [quote_mark]) = ?sg # expand 1 (parse_flat command)"
    using assms(2) by (simp add: parse_command_def)
  then show ?thesis using judge_after [of gw False "expand 1 (parse_flat command)" ?sg] inside \<open>\<not> relocates ?sg\<close>
    by (simp add: shell_refusal_def judge_def split: option.split)
qed

theorem wrapped_refused_witness:
  "shell_refusal sample_guard (''sh -c '' @ [quote_mark] @ ''cmd /c pkill node'' @ [quote_mark]) \<noteq> None"
proof -
  have "quote_mark \<notin> set ''cmd /c pkill node''" "\<not> blank ''cmd /c pkill node''" "shell_refusal sample_guard ''cmd /c pkill node'' \<noteq> None"
      "shells_within 3 (parse_flat ''cmd /c pkill node'')"
    by code_simp+
  from wrapped_refused [OF this(1,2) _ this(3,4), of "''sh''"] show ?thesis by simp
qed

text \<open>Four shells are read through; the command behind a fifth is not.\<close>

lemma fifth_shell_unread:
  "shell_refusal sample_guard ''cmd /c cmd /c cmd /c cmd /c pkill node'' \<noteq> None"
  "shell_refusal sample_guard (''sh -c '' @ [quote_mark] @ ''cmd /c cmd /c cmd /c cmd /c pkill node'' @ [quote_mark]) = None"
proof -
  let ?sg = "\<lambda>ws. no_segment\<lparr>sg_words := ws\<rparr>"
  let ?c1 = "?sg [''cmd'', ''/c'', ''pkill'', ''node'']"
  let ?c2 = "?sg [''cmd'', ''/c'', ''cmd'', ''/c'', ''pkill'', ''node'']"
  let ?c3 = "?sg [''cmd'', ''/c'', ''cmd'', ''/c'', ''cmd'', ''/c'', ''pkill'', ''node'']"
  let ?c4 = "?sg [''cmd'', ''/c'', ''cmd'', ''/c'', ''cmd'', ''/c'', ''cmd'', ''/c'', ''pkill'', ''node'']"
  let ?sh = "?sg [''sh'', ''-c'', ''cmd /c cmd /c cmd /c cmd /c pkill node'']"
  have "parse_command ''cmd /c cmd /c cmd /c cmd /c pkill node'' = [?c4, ?c3, ?c2, ?c1, ?sg [''pkill'', ''node'']]"
    by code_simp
  moreover have "judge sample_guard [?c4, ?c3, ?c2, ?c1, ?sg [''pkill'', ''node'']] \<noteq> None" by code_simp
  ultimately show "shell_refusal sample_guard ''cmd /c cmd /c cmd /c cmd /c pkill node'' \<noteq> None" by (simp add: shell_refusal_def)
  have "parse_command (''sh -c '' @ [quote_mark] @ ''cmd /c cmd /c cmd /c cmd /c pkill node'' @ [quote_mark]) = [?sh, ?c4, ?c3, ?c2, ?c1]"
    by code_simp
  moreover have "judge sample_guard [?sh, ?c4, ?c3, ?c2, ?c1] = None" by code_simp
  ultimately show "shell_refusal sample_guard (''sh -c '' @ [quote_mark] @ ''cmd /c cmd /c cmd /c cmd /c pkill node'' @ [quote_mark]) = None"
    by (simp only: shell_refusal_def)
qed

section \<open>What escapes\<close>

text \<open>
  C40. A delete whose \<^verbatim>\<open>-f\<close> is written apart is checked without the word after it: the switch is read
  as PowerShell's \<^verbatim>\<open>-Filter\<close>, that word as the filter, and only the words after it as what is deleted.
  So a directory that is no secret and not protected can be deleted with all that git could not
  restore, when the name of a build directory follows.
\<close>

theorem switch_hides_target:
  assumes "\<not> names_secret t" "\<not> list_ex (inside_protected (gw_root gw) (all_protected gw)) [t, ''build'']"
    and "same_or_inside (absolute (gw_root gw) ''build'') (gw_root gw)"
  shows "process_refusal gw ''rm'' [''-r'', ''-f'', t, ''build''] = None"
proof -
  let ?sg = "no_segment\<lparr>sg_words := [''rm'', ''-r'', ''-f'', t, ''build'']\<rparr>"
  have low: "lower ''-r'' = ''-r''" "lower ''-f'' = ''-f''" "lower ''build'' = ''build''" by code_simp+
  have cmd: "segment_command ?sg = ''rm''"
    using arg_cong [of "segment_command (no_segment\<lparr>sg_words := [''rm'']\<rparr>)" "''rm''" id]
    by (simp add: segment_command_def) code_simp
  have secret: "\<not> names_secret ''-r''" "\<not> names_secret ''-f''" "\<not> names_secret ''build''" by code_simp+
  have switch: "\<not> literal ''-r''" "\<not> literal ''-f''" "literal ''build''" "disposable ''build''" by code_simp+
  have par: "list_ex (\<lambda>n. is_parameter ''-f'' n 1) [''include'', ''exclude'', ''filter'']"
      "\<not> list_ex (\<lambda>n. is_parameter ''-f'' n 1) [''path'', ''literalpath'']"
      "\<not> list_ex (\<lambda>n. is_parameter ''-r'' n 1) [''path'', ''literalpath'', ''include'', ''exclude'', ''filter'']"
      "is_parameter ''-r'' ''recurse'' 1" "delete_targets [''build''] = [''build'']"
    by code_simp+
  have "target_words [''path'', ''literalpath''] [''include'', ''exclude'', ''filter''] [''-r'', ''-f'', t, ''build''] =
      target_words [''path'', ''literalpath''] [''include'', ''exclude'', ''filter''] [''build'']"
    using par by (simp add: low)
  then have "delete_targets [''-r'', ''-f'', t, ''build''] = [''build'']" using par(5) by (simp add: delete_targets_def)
  then have "recursive_delete ?sg = Some [''build'']"
    by (simp add: recursive_delete_def cmd arguments_def lower_arguments_def low par(4) [unfolded One_nat_def])
  moreover have "delete_refusal gw False [''build''] = None"
    using assms(3) switch by (simp add: delete_refusal_def target_refusal_def)
  moreover have "\<not> kill_by_name ?sg None" "\<not> root_search (gw_home gw) ?sg"
    by (simp_all add: kill_by_name_def root_search_def searches_below_def cmd)
  moreover have "\<not> secret_path ?sg" using assms(1) secret by (simp add: secret_path_def arguments_def no_segment_def)
  moreover have "\<not> protected_write (gw_root gw) (all_protected gw) ?sg"
    using assms(2) switch by (simp add: protected_write_def arguments_def inside_protected_def no_segment_def)
  ultimately have "segment_refusal gw False None ?sg = None" by (simp add: segment_refusal_def)
  moreover have "inner_command ?sg = None" by (simp add: inner_command_def cmd)
  ultimately show ?thesis by (simp add: process_refusal_def judge_def)
qed

text \<open>The same words with \<^verbatim>\<open>-rf\<close> are refused.\<close>

theorem switch_hides_target_witness:
  "process_refusal sample_no_git ''rm'' [''-r'', ''-f'', ''src'', ''build''] = None \<and>
    process_refusal sample_no_git ''rm'' [''-rf'', ''src'', ''build''] = Some Recursive_Delete"
proof -
  have "process_refusal sample_no_git ''rm'' [''-rf'', ''src'', ''build''] = Some Recursive_Delete"
      "\<not> names_secret ''src''"
      "\<not> list_ex (inside_protected (gw_root sample_no_git) (all_protected sample_no_git)) [''src'', ''build'']"
      "same_or_inside (absolute (gw_root sample_no_git) ''build'') (gw_root sample_no_git)"
    by code_simp+
  with switch_hides_target [of "''src''" sample_no_git] show ?thesis by blast
qed

text \<open>
  A path with a directory of such a name anywhere in it counts as a build directory: one outside
  the workspace when it is not literal or the directory was changed, and the whole workspace when
  it lies below one. A command whose name has a backslash in it, or stands after a wrapper's own
  option, is not recognised.
\<close>

lemma disposable_elsewhere:
  "shell_refusal sample_no_git ''rm -rf ~/build'' = None" "shell_refusal sample_no_git ''cd / && rm -rf tmp'' = None"
  "shell_refusal (sample_no_git\<lparr>gw_root := ''/build/w''\<rparr>) ''rm -rf /build/w'' = None"
  by code_simp+

lemma name_escapes:
  "shell_refusal sample_no_git (''r'' @ [backslash] @ ''m -rf src'') = None" "shell_refusal sample_no_git ''sudo -u x rm -rf src'' = None"
  by code_simp+

end
