(* ===== verification/Turn_Regulation.thy ===== *)
theory Turn_Regulation imports Command_Guard begin

text \<open>
  The regulation of a turn (\<^verbatim>\<open>crates/harness-tools/src/runtime/regulation.rs\<close>): what the calls that
  settled show, and which notes the model is given for it. The short hash of a text (SHA-256) is
  the argument \<open>hash\<close>. A note is its kind with what it is about; its wording is not part of the
  model.
\<close>

section \<open>Failures\<close>

definition repeat_failures :: nat where "repeat_failures = 3"
definition stop_failures :: nat where "stop_failures = 5"
definition oscillation_calls :: nat where "oscillation_calls = 4"

text \<open>\<^verbatim>\<open>split_whitespace\<close>: the pieces between white space that are not empty.\<close>

function ws_tokens :: "string \<Rightarrow> string \<Rightarrow> string list" where
  "ws_tokens acc [] = (if acc = [] then [] else [acc])"
| "ws_tokens acc (c # s) = (if ws_len (c # s) = 0 then ws_tokens (acc @ [c]) s
    else (if acc = [] then [] else [acc]) @ ws_tokens [] (drop (ws_len (c # s) - 1) s))"
  by pat_completeness auto
termination
  by (relation "measure (\<lambda>(acc, s). length s)") auto

definition trim_end_of :: "string \<Rightarrow> string \<Rightarrow> string" where
  "trim_end_of cs s = rev (dropWhile (\<lambda>c. c \<in> set cs) (rev s))"

definition shape_token :: "string \<Rightarrow> string" where
  "shape_token t = (if CHR ''.'' \<in> set (trim_end_of ''.,:;'' t) \<or>
      list_ex (\<lambda>c. ascii_digit c \<or> c \<in> set [slash, backslash, double_mark, quote_mark, CHR 0x60]) t
    then ''_'' else t)"

definition shape_of_message :: "string \<Rightarrow> string" where
  "shape_of_message m = join_with '' '' (take 24 (map shape_token (ws_tokens [] m)))"

text \<open>The longest prefix of at most \<open>n\<close> bytes that ends between two characters.\<close>

fun cut_before :: "nat \<Rightarrow> string \<Rightarrow> string" where
  "cut_before 0 s = []"
| "cut_before (Suc n) s = (if char_boundary s (Suc n) then take (Suc n) s else cut_before n s)"

definition first_line :: "string \<Rightarrow> string" where
  "first_line m = (let l = trim (case split_on lf m of l # _ \<Rightarrow> l | [] \<Rightarrow> []) in cut_before (min (length l) 240) l)"

definition refusal_codes :: "string list" where
  "refusal_codes = [''refused'', ''policy_denied'', ''approval_required'', ''approval_stale'', ''approval_consumed'',
    ''approval_revoked'', ''blocked_by_hook'']"

definition transient_codes :: "string list" where
  "transient_codes = [''stale_workspace'', ''revision_conflict'', ''task_lease_conflict'', ''writer_locked'', ''rate_limited'',
    ''service_unavailable'', ''provider_canceled'', ''process_timed_out'', ''process_canceled'']"

record failure =
  fl_code :: string
  fl_message :: string
  fl_class :: string
  fl_refused :: bool

definition new_failure :: "(string \<Rightarrow> string) \<Rightarrow> string \<Rightarrow> string \<Rightarrow> failure" where
  "new_failure hash code message = (let m = first_line message in
    \<lparr>fl_code = code, fl_message = m, fl_class = code @ '':'' @ hash (shape_of_message m),
      fl_refused = (code \<in> set refusal_codes)\<rparr>)"

definition failure_refusal :: "(string \<Rightarrow> string) \<Rightarrow> string \<Rightarrow> failure" where
  "failure_refusal hash message = (new_failure hash ''refused'' message)\<lparr>fl_refused := True\<rparr>"

section \<open>The regulator\<close>

record settled_call =
  sd_tool :: string
  sd_signature :: string
  sd_effect :: effect_class
  sd_failure :: "failure option"

text \<open>What a note is about, which is also what it is said once for.\<close>

datatype regulation_note = Failing string string nat | Oscillating "string set" | Budget_Low

record regulator =
  rg_calls :: "settled_call list"
  rg_noted :: "(string \<times> string \<times> nat) set"
  rg_oscillations :: "string set set"
  rg_budget_noted :: bool
  rg_steered :: bool

definition new_regulator :: regulator where
  "new_regulator = \<lparr>rg_calls = [], rg_noted = {}, rg_oscillations = {}, rg_budget_noted = False, rg_steered = False\<rparr>"

definition deterministic :: "string \<Rightarrow> bool" where
  "deterministic tool = (case effect_class_for tool of
      EffectReadOnly \<Rightarrow> tool \<notin> {''read_process_output'', ''history_search'', ''history_read''}
    | EffectMutating \<Rightarrow> True
    | _ \<Rightarrow> False)"

definition repeat_of_failure :: "string \<Rightarrow> string \<Rightarrow> regulator \<Rightarrow> failure option" where
  "repeat_of_failure tool signature rg = (
    if \<not> deterministic tool \<or> rg_steered rg \<or> rg_calls rg = [] then None
    else let call = last (rg_calls rg) in case sd_failure call of None \<Rightarrow> None
    | Some f \<Rightarrow> if sd_signature call \<noteq> signature \<or> fl_refused f \<or> fl_code f \<in> set transient_codes then None else Some f)"

definition steer :: "regulator \<Rightarrow> regulator" where
  "steer rg = rg\<lparr>rg_steered := True\<rparr>"

text \<open>The failures of one class from one tool since its last success, newest first.\<close>

fun same_failures :: "string \<Rightarrow> string \<Rightarrow> settled_call list \<Rightarrow> settled_call list" where
  "same_failures tool cls [] = []"
| "same_failures tool cls (c # cs) = (if sd_tool c \<noteq> tool then same_failures tool cls cs
    else case sd_failure c of None \<Rightarrow> []
    | Some f \<Rightarrow> if fl_class f = cls then c # same_failures tool cls cs else same_failures tool cls cs)"

definition failure_level :: "nat \<Rightarrow> nat option" where
  "failure_level n = (if stop_failures \<le> n then Some stop_failures
    else if repeat_failures \<le> n then Some repeat_failures else None)"

definition repeated_failure :: "regulator \<Rightarrow> regulation_note option \<times> regulator" where
  "repeated_failure rg = (case rg_calls rg of [] \<Rightarrow> (None, rg)
    | _ \<Rightarrow> (let call = last (rg_calls rg); tool = sd_tool call in case sd_failure call of None \<Rightarrow> (None, rg)
      | Some f \<Rightarrow> (case failure_level (length (same_failures tool (fl_class f) (rev (rg_calls rg)))) of None \<Rightarrow> (None, rg)
        | Some level \<Rightarrow> if (tool, fl_class f, level) \<in> rg_noted rg then (None, rg)
            else (Some (Failing tool (fl_class f) level), rg\<lparr>rg_noted := insert (tool, fl_class f, level) (rg_noted rg)\<rparr>))))"

definition alternate :: "settled_call list \<Rightarrow> (string \<times> string) option" where
  "alternate cs = (case rev (take oscillation_calls (rev (filter (\<lambda>c. sd_effect c = EffectMutating) cs))) of
      [p, q, r, s] \<Rightarrow> if sd_signature p \<noteq> sd_signature q \<and> sd_signature r = sd_signature p \<and> sd_signature s = sd_signature q
        then Some (sd_signature p, sd_signature q) else None
    | _ \<Rightarrow> None)"

definition oscillation :: "regulator \<Rightarrow> regulation_note option \<times> regulator" where
  "oscillation rg = (case alternate (rg_calls rg) of None \<Rightarrow> (None, rg)
    | Some (a, b) \<Rightarrow> if {a, b} \<in> rg_oscillations rg then (None, rg)
        else (Some (Oscillating {a, b}), rg\<lparr>rg_oscillations := insert {a, b} (rg_oscillations rg)\<rparr>))"

definition record_call :: "string \<Rightarrow> string \<Rightarrow> failure option \<Rightarrow> regulator \<Rightarrow> regulator" where
  "record_call tool signature failed rg = rg\<lparr>rg_steered := False, rg_calls := rg_calls rg @
    [\<lparr>sd_tool = tool, sd_signature = signature, sd_effect = effect_class_for tool, sd_failure = failed\<rparr>]\<rparr>"

definition settle_call :: "string \<Rightarrow> string \<Rightarrow> failure option \<Rightarrow> regulator \<Rightarrow> regulation_note option \<times> regulator" where
  "settle_call tool signature failed rg = (
    if (case failed of None \<Rightarrow> False | Some f \<Rightarrow> fl_refused f) then (None, rg\<lparr>rg_steered := False\<rparr>)
    else (case repeated_failure (record_call tool signature failed rg) of
        (Some n, rg) \<Rightarrow> (Some n, rg) | (None, rg) \<Rightarrow> oscillation rg))"

definition near :: "nat \<Rightarrow> nat \<Rightarrow> bool" where
  "near used limit \<longleftrightarrow> 10 \<le> limit \<and> limit - used \<le> max (limit div 10) 2"

definition budget_note :: "nat \<Rightarrow> nat \<Rightarrow> nat \<Rightarrow> nat \<Rightarrow> regulator \<Rightarrow> regulation_note option \<times> regulator" where
  "budget_note steps max_steps calls max_calls rg = (
    if rg_budget_noted rg \<or> \<not> (near steps max_steps \<or> near calls max_calls) then (None, rg)
    else (Some Budget_Low, rg\<lparr>rg_budget_noted := True\<rparr>))"

section \<open>A turn\<close>

datatype turn_event = Steered | Settled string string "failure option" | Budget nat nat nat nat

fun regulate :: "turn_event \<Rightarrow> regulator \<Rightarrow> regulation_note option \<times> regulator" where
  "regulate Steered rg = (None, steer rg)"
| "regulate (Settled tool signature failed) rg = settle_call tool signature failed rg"
| "regulate (Budget steps max_steps calls max_calls) rg = budget_note steps max_steps calls max_calls rg"

fun turn_notes :: "turn_event list \<Rightarrow> regulator \<Rightarrow> regulation_note list" where
  "turn_notes [] rg = []"
| "turn_notes (e # es) rg = (case regulate e rg of (n, rg) \<Rightarrow> (case n of None \<Rightarrow> [] | Some n \<Rightarrow> [n]) @ turn_notes es rg)"

fun regulate_all :: "turn_event list \<Rightarrow> regulator \<Rightarrow> regulator" where
  "regulate_all [] rg = rg"
| "regulate_all (e # es) rg = regulate_all es (snd (regulate e rg))"

text \<open>What has been noted.\<close>

definition said :: "regulator \<Rightarrow> regulation_note set" where
  "said rg = {Failing t c l | t c l. (t, c, l) \<in> rg_noted rg} \<union> Oscillating ` rg_oscillations rg \<union>
    (if rg_budget_noted rg then {Budget_Low} else {})"

definition said_once :: "regulator \<Rightarrow> regulation_note option \<times> regulator \<Rightarrow> bool" where
  "said_once rg r \<longleftrightarrow> (case fst r of None \<Rightarrow> said (snd r) = said rg | Some n \<Rightarrow> n \<notin> said rg \<and> said (snd r) = insert n (said rg))"

lemma said_unchanged [simp]: "said (rg\<lparr>rg_steered := b\<rparr>) = said rg" "said (rg\<lparr>rg_calls := cs\<rparr>) = said rg"
  by (simp_all add: said_def)

lemma repeated_failure_said: "said_once rg (repeated_failure rg)"
proof -
  have "said_once rg (None, rg)" by (simp add: said_once_def)
  moreover have "said_once rg (Some (Failing t c l), rg\<lparr>rg_noted := insert (t, c, l) (rg_noted rg)\<rparr>)"
    if "(t, c, l) \<notin> rg_noted rg" for t c l
    using that by (auto simp: said_once_def said_def)
  ultimately show ?thesis by (simp add: repeated_failure_def Let_def split: option.split list.split)
qed

lemma oscillation_said: "said_once rg (oscillation rg)"
proof -
  have "said_once rg (None, rg)" by (simp add: said_once_def)
  moreover have "said_once rg (Some (Oscillating p), rg\<lparr>rg_oscillations := insert p (rg_oscillations rg)\<rparr>)"
    if "p \<notin> rg_oscillations rg" for p
    using that by (auto simp: said_once_def said_def)
  ultimately show ?thesis by (simp add: oscillation_def split: option.split prod.split)
qed

lemma regulate_said: "said_once rg (regulate e rg)"
proof (cases e)
  case Steered
  then show ?thesis by (simp add: said_once_def steer_def)
next
  case (Settled tool signature failed)
  let ?rg = "record_call tool signature failed rg"
  have same: "said ?rg = said rg" by (simp add: record_call_def)
  obtain n rg2 where r: "repeated_failure ?rg = (n, rg2)" by fastforce
  have "rg2 = ?rg" if "n = None" using r that by (auto simp: repeated_failure_def Let_def split: option.splits list.splits if_splits)
  then have "said_once rg (case repeated_failure ?rg of (Some n, rg) \<Rightarrow> (Some n, rg) | (None, rg) \<Rightarrow> oscillation rg)"
    using repeated_failure_said [of ?rg] oscillation_said [of ?rg] same r by (cases n) (auto simp: said_once_def split: option.splits)
  then show ?thesis by (simp add: Settled settle_call_def) (simp add: said_once_def)
next
  case (Budget steps max_steps calls max_calls)
  then show ?thesis by (auto simp: said_once_def said_def budget_note_def)
qed

text \<open>
  A note is given once: in the whole of a turn, however its calls, steering messages and budget
  checks follow each other, no note about a tool, an error and a level, about two alternating calls
  or about the budget is given a second time.
\<close>

theorem notes_given_once: "distinct (turn_notes es rg) \<and> set (turn_notes es rg) \<inter> said rg = {}"
proof (induction es arbitrary: rg)
  case (Cons e es)
  obtain n rg' where r: "regulate e rg = (n, rg')" by fastforce
  from regulate_said [of rg e] Cons.IH [of rg'] show ?case by (cases n) (auto simp: r said_once_def)
qed simp

section \<open>What a note rests on\<close>

lemma regulate_all_append: "regulate_all (es @ es') rg = regulate_all es' (regulate_all es rg)"
  by (induction es arbitrary: rg) auto

lemma turn_notes_append: "turn_notes (es @ es') rg = turn_notes es rg @ turn_notes es' (regulate_all es rg)"
  by (induction es arbitrary: rg) (auto split: prod.split)

definition recorded :: "turn_event \<Rightarrow> bool" where
  "recorded e \<longleftrightarrow> (case e of Settled _ _ failed \<Rightarrow> (case failed of None \<Rightarrow> True | Some f \<Rightarrow> \<not> fl_refused f) | _ \<Rightarrow> False)"

lemma settle_state:
  "rg_calls (snd (settle_call tool signature failed rg)) = (if recorded (Settled tool signature failed)
      then rg_calls rg @ [\<lparr>sd_tool = tool, sd_signature = signature, sd_effect = effect_class_for tool, sd_failure = failed\<rparr>]
      else rg_calls rg) \<and> \<not> rg_steered (snd (settle_call tool signature failed rg))"
proof -
  have r: "rg_calls (snd (repeated_failure rg)) = rg_calls rg \<and> rg_steered (snd (repeated_failure rg)) = rg_steered rg" for rg
    by (simp add: repeated_failure_def Let_def split: option.split list.split)
  have o: "rg_calls (snd (oscillation rg)) = rg_calls rg \<and> rg_steered (snd (oscillation rg)) = rg_steered rg" for rg
    by (simp add: oscillation_def split: option.split prod.split)
  show ?thesis
  proof (cases "recorded (Settled tool signature failed)")
    case True
    obtain n rg' where n: "repeated_failure (record_call tool signature failed rg) = (n, rg')" by fastforce
    with r [of "record_call tool signature failed rg"]
    have c: "rg_calls rg' = rg_calls (record_call tool signature failed rg)" "\<not> rg_steered rg'" by (simp_all add: record_call_def)
    from True have "settle_call tool signature failed rg = (case n of Some m \<Rightarrow> (Some m, rg') | None \<Rightarrow> oscillation rg')"
      by (simp add: settle_call_def recorded_def n split: option.splits)
    with c o [of rg'] True show ?thesis by (simp add: record_call_def split: option.split)
  next
    case False
    then show ?thesis by (simp add: settle_call_def recorded_def split: option.splits)
  qed
qed

text \<open>Where the last recorded call of a turn stands, and when the turn counts as steered.\<close>

lemma last_recorded:
  "rg_calls (regulate_all es new_regulator) \<noteq> [] \<Longrightarrow>
    \<exists>pre tool signature failed post. es = pre @ Settled tool signature failed # post \<and> recorded (Settled tool signature failed) \<and>
      (\<forall>e \<in> set post. \<not> recorded e) \<and> last (rg_calls (regulate_all es new_regulator)) =
        \<lparr>sd_tool = tool, sd_signature = signature, sd_effect = effect_class_for tool, sd_failure = failed\<rparr>"
proof (induction es rule: rev_induct)
  case Nil
  then show ?case by (simp add: new_regulator_def)
next
  case (snoc e es)
  let ?rg = "regulate_all es new_regulator"
  have all: "regulate_all (es @ [e]) new_regulator = snd (regulate e ?rg)" by (simp add: regulate_all_append)
  show ?case
  proof (cases "recorded e")
    case True
    then obtain tool signature failed where e: "e = Settled tool signature failed" by (cases e) (auto simp: recorded_def)
    with True settle_state [of tool signature failed ?rg] show ?thesis
      by - (rule exI [of _ es], rule exI [of _ tool], rule exI [of _ signature], rule exI [of _ failed], rule exI [of _ "[]"],
        simp add: regulate_all_append)
  next
    case False
    then have same: "rg_calls (snd (regulate e ?rg)) = rg_calls ?rg"
      using settle_state by (cases e) (simp_all add: steer_def budget_note_def)
    with snoc.prems snoc.IH obtain pre tool signature failed post where
        "es = pre @ Settled tool signature failed # post" "recorded (Settled tool signature failed)" "\<forall>e \<in> set post. \<not> recorded e"
        "last (rg_calls ?rg) = \<lparr>sd_tool = tool, sd_signature = signature, sd_effect = effect_class_for tool, sd_failure = failed\<rparr>"
      unfolding all by metis
    with False same show ?thesis
      by - (rule exI [of _ pre], rule exI [of _ tool], rule exI [of _ signature], rule exI [of _ failed], rule exI [of _ "post @ [e]"],
        use all in simp)
  qed
qed

text \<open>The events of a turn without the checks of its budget.\<close>

definition spoken :: "turn_event list \<Rightarrow> turn_event list" where
  "spoken es = filter (\<lambda>e. case e of Budget _ _ _ _ \<Rightarrow> False | _ \<Rightarrow> True) es"

lemma steered_since:
  "rg_steered (regulate_all es rg) \<longleftrightarrow> (if spoken es = [] then rg_steered rg else last (spoken es) = Steered)"
proof (induction es rule: rev_induct)
  case (snoc e es)
  then show ?case using settle_state
    by (cases e) (simp_all add: spoken_def regulate_all_append steer_def budget_note_def)
qed (simp add: spoken_def)

text \<open>
  A call is refused as a repeat only when it is one: the last call of the turn that ran had the
  same arguments and failed, not by a refusal and not in a way that may pass, the tool's answer
  depends on the workspace alone, what settled since were refusals only, and the user did not
  speak after the last of them.
\<close>

theorem repeat_is_repeat:
  assumes "repeat_of_failure tool signature (regulate_all es new_regulator) = Some f"
  shows "\<exists>pre tool' post. es = pre @ Settled tool' signature (Some f) # post \<and> deterministic tool \<and> \<not> fl_refused f \<and>
    fl_code f \<notin> set transient_codes \<and> (\<forall>e \<in> set post. \<not> recorded e) \<and>
    (spoken post = [] \<or> last (spoken post) \<noteq> Steered)"
proof -
  let ?rg = "regulate_all es new_regulator"
  from assms have r: "deterministic tool" "\<not> rg_steered ?rg" "rg_calls ?rg \<noteq> []" "sd_failure (last (rg_calls ?rg)) = Some f"
      "sd_signature (last (rg_calls ?rg)) = signature" "\<not> fl_refused f" "fl_code f \<notin> set transient_codes"
    by (auto simp: repeat_of_failure_def Let_def split: if_splits option.splits)
  from last_recorded [OF r(3)] r(4,5) obtain pre tool' post where es: "es = pre @ Settled tool' signature (Some f) # post"
      and post: "\<forall>e \<in> set post. \<not> recorded e" by force
  have "spoken post = [] \<or> last (spoken post) \<noteq> Steered"
    using r(2) unfolding steered_since es by (auto simp: spoken_def split: if_splits)
  with es post r show ?thesis by blast
qed

text \<open>
  What the user said is forgotten over a refusal: after a failed call and a message of the
  user, any call that is refused makes the failed call a repeat again.
\<close>

theorem steer_forgotten:
  assumes "deterministic tool" "\<not> fl_refused f" "fl_code f \<notin> set transient_codes" "fl_refused g"
  shows "repeat_of_failure tool signature (regulate_all (es @ [Settled tool signature (Some f), Steered]) rg) = None \<and>
    repeat_of_failure tool signature (regulate_all (es @ [Settled tool signature (Some f), Steered, Settled tool' signature' (Some g)]) rg) = Some f"
proof -
  let ?rg = "snd (settle_call tool signature (Some f) (regulate_all es rg))"
  let ?after = "snd (settle_call tool' signature' (Some g) (steer ?rg))"
  have first: "last (rg_calls ?rg) = \<lparr>sd_tool = tool, sd_signature = signature, sd_effect = effect_class_for tool, sd_failure = Some f\<rparr>"
      "rg_calls ?rg \<noteq> []"
    using settle_state [of tool signature "Some f" "regulate_all es rg"] assms(2) by (simp_all add: recorded_def)
  have "rg_calls ?after = rg_calls ?rg" "\<not> rg_steered ?after"
    using settle_state [of tool' signature' "Some g" "steer ?rg"] assms(4) by (simp_all add: recorded_def steer_def)
  with first assms(1-3) have "repeat_of_failure tool signature ?after = Some f" by (simp add: repeat_of_failure_def)
  then show ?thesis by (simp add: regulate_all_append repeat_of_failure_def) (simp add: steer_def)
qed

theorem steer_forgotten_witness:
  "repeat_of_failure ''read_file'' ''a'' (regulate_all [Settled ''read_file'' ''a'' (Some (new_failure id ''not_found'' ''no file'')),
      Steered, Settled ''write_file'' ''b'' (Some (failure_refusal id ''not now''))] new_regulator) =
    Some (new_failure id ''not_found'' ''no file'')"
proof -
  have "deterministic ''read_file''" by (simp add: deterministic_def effect_class_for_def)
  moreover have "\<not> fl_refused (new_failure id ''not_found'' ''no file'')" "fl_code (new_failure id ''not_found'' ''no file'') \<notin> set transient_codes"
      "fl_refused (failure_refusal id ''not now'')"
    by (simp_all add: new_failure_def failure_refusal_def refusal_codes_def transient_codes_def Let_def)
  ultimately show ?thesis
    using steer_forgotten [of "''read_file''" "new_failure id ''not_found'' ''no file''" "failure_refusal id ''not now''" "''a''" "[]" new_regulator] by simp
qed

lemma same_failures_all:
  "\<forall>c \<in> set cs. sd_tool c = tool \<and> sd_failure c = Some f \<Longrightarrow> same_failures tool (fl_class f) cs = cs"
  by (induction cs) auto

text \<open>What a run of failures of one tool with one error leaves behind.\<close>

definition failing_state :: "string \<Rightarrow> failure \<Rightarrow> nat \<Rightarrow> regulator \<Rightarrow> bool" where
  "failing_state tool f n rg \<longleftrightarrow> length (rg_calls rg) = n \<and>
    (\<forall>c \<in> set (rg_calls rg). sd_tool c = tool \<and> sd_failure c = Some f \<and> sd_effect c \<noteq> EffectMutating) \<and>
    rg_noted rg = {(tool, fl_class f, l) | l. l \<in> {3, 5} \<and> l \<le> n}"

lemma failing_step:
  assumes "failing_state tool f n rg" "effect_class_for tool \<noteq> EffectMutating" "\<not> fl_refused f"
  shows "fst (settle_call tool s (Some f) rg) = (if Suc n \<in> {3, 5} then Some (Failing tool (fl_class f) (Suc n)) else None) \<and>
    failing_state tool f (Suc n) (snd (settle_call tool s (Some f) rg))"
proof -
  let ?rg = "record_call tool s (Some f) rg"
  have calls: "rg_calls ?rg = rg_calls rg @ [\<lparr>sd_tool = tool, sd_signature = s, sd_effect = effect_class_for tool, sd_failure = Some f\<rparr>]"
      "rg_noted ?rg = rg_noted rg" by (simp_all add: record_call_def)
  have "length (same_failures tool (fl_class f) (rev (rg_calls ?rg))) = Suc n"
    using assms(1) same_failures_all [of "rev (rg_calls ?rg)" tool f] by (simp add: failing_state_def calls)
  then have rep: "repeated_failure ?rg = (case failure_level (Suc n) of None \<Rightarrow> (None, ?rg)
      | Some l \<Rightarrow> if (tool, fl_class f, l) \<in> rg_noted rg then (None, ?rg)
        else (Some (Failing tool (fl_class f) l), ?rg\<lparr>rg_noted := insert (tool, fl_class f, l) (rg_noted rg)\<rparr>))"
    by (subst repeated_failure_def, cases "rg_calls rg") (simp_all add: calls Let_def split: option.split)
  have noted: "(tool, fl_class f, l) \<in> rg_noted rg \<longleftrightarrow> l \<in> {3, 5} \<and> l \<le> n" for l using assms(1) by (auto simp: failing_state_def)
  have osc: "oscillation ?rg = (None, ?rg)"
    using assms(1,2) by (auto simp: oscillation_def alternate_def calls failing_state_def filter_empty_conv)
  have state: "length (rg_calls ?rg) = Suc n \<and> (\<forall>c \<in> set (rg_calls ?rg). sd_tool c = tool \<and> sd_failure c = Some f \<and> sd_effect c \<noteq> EffectMutating)"
    using assms(1,2) by (auto simp: failing_state_def calls)
  have settle: "settle_call tool s (Some f) rg = (case repeated_failure ?rg of (Some n, rg) \<Rightarrow> (Some n, rg) | (None, rg) \<Rightarrow> oscillation rg)"
    using assms(3) by (simp add: settle_call_def)
  consider "n < 2" | "n = 2" | "n = 3" | "n = 4" | "5 \<le> n" by linarith
  then show ?thesis
  proof cases
    case 1
    then show ?thesis using rep osc state assms(1) by (simp add: settle failure_level_def stop_failures_def repeat_failures_def failing_state_def calls) auto
  next
    case 2
    then show ?thesis using rep osc state assms(1) noted [of 3] by (simp add: settle failure_level_def stop_failures_def repeat_failures_def failing_state_def calls) auto
  next
    case 3
    then show ?thesis using rep osc state assms(1) noted [of 3] by (simp add: settle failure_level_def stop_failures_def repeat_failures_def failing_state_def calls) auto
  next
    case 4
    then show ?thesis using rep osc state assms(1) noted [of 5] by (simp add: settle failure_level_def stop_failures_def repeat_failures_def failing_state_def calls) auto
  next
    case 5
    then show ?thesis using rep osc state assms(1) noted [of 5] by (simp add: settle failure_level_def stop_failures_def repeat_failures_def failing_state_def calls) auto
  qed
qed


text \<open>
  A tool that fails over and over with one error is noted at its third failure and at its fifth,
  and never again, whatever the arguments of the calls.
\<close>

theorem same_error_noted_twice:
  assumes "effect_class_for tool \<noteq> EffectMutating" "\<not> fl_refused f"
  shows "turn_notes (map (\<lambda>s. Settled tool s (Some f)) signatures) new_regulator =
    (if 3 \<le> length signatures then [Failing tool (fl_class f) 3] else []) @
    (if 5 \<le> length signatures then [Failing tool (fl_class f) 5] else [])"
proof -
  let ?run = "map (\<lambda>s. Settled tool s (Some f))"
  have "failing_state tool f (length signatures) (regulate_all (?run signatures) new_regulator) \<and> ?thesis"
  proof (induction signatures rule: rev_induct)
    case Nil
    then show ?case by (auto simp: failing_state_def new_regulator_def)
  next
    case (snoc s ss)
    let ?rg = "regulate_all (?run ss) new_regulator"
    have step: "fst (settle_call tool s (Some f) ?rg) = (if Suc (length ss) \<in> {3, 5} then Some (Failing tool (fl_class f) (Suc (length ss))) else None)"
        "failing_state tool f (Suc (length ss)) (snd (settle_call tool s (Some f) ?rg))"
      using failing_step [OF conjunct1 [OF snoc.IH] assms] by blast+
    have "turn_notes [Settled tool s (Some f)] ?rg = (if Suc (length ss) \<in> {3, 5} then [Failing tool (fl_class f) (Suc (length ss))] else [])"
      using step(1) by (cases "settle_call tool s (Some f) ?rg") simp
    with snoc.IH step(2) show ?case by (auto simp: turn_notes_append regulate_all_append)
  qed
  then show ?thesis by blast
qed

theorem same_error_noted_twice_witness:
  "turn_notes (map (\<lambda>s. Settled ''read_file'' s (Some (new_failure id ''not_found'' ''no file''))) [''a'', ''b'', ''c'', ''d'', ''e'', ''f'']) new_regulator =
    [Failing ''read_file'' (fl_class (new_failure id ''not_found'' ''no file'')) 3, Failing ''read_file'' (fl_class (new_failure id ''not_found'' ''no file'')) 5]"
proof -
  have "effect_class_for ''read_file'' \<noteq> EffectMutating" by (simp add: effect_class_for_def)
  moreover have "\<not> fl_refused (new_failure id ''not_found'' ''no file'')" by (simp add: new_failure_def refusal_codes_def Let_def)
  ultimately show ?thesis
    using same_error_noted_twice [of "''read_file''" "new_failure id ''not_found'' ''no file''" "[''a'', ''b'', ''c'', ''d'', ''e'', ''f'']"] by simp
qed

end
