(* ===== verification/Run_Control.thy ===== *)
theory Run_Control imports Compaction begin

text \<open>
  The control of a run (\<^verbatim>\<open>crates/harness-runtime\<close>): the state machine of an agent, the waits between
  the attempts of a step (\<^verbatim>\<open>src/lib.rs\<close>), and the goals a run is judged by
  (\<^verbatim>\<open>src/control/goal.rs\<close>). The clock's digits that spread a backoff are the argument \<open>nanos\<close>; the
  hash and the printing of JSON are \<open>hash\<close> and \<open>show\<close>.
\<close>

section \<open>The agent\<close>

datatype agent_state = AgentIdle | AgentRunning | AgentPaused | AgentCompleted | AgentFailed | AgentCanceled | AgentDisposed

datatype agent_command = AgentStart | AgentPause | AgentResume | AgentComplete | AgentFail | AgentCancel | AgentDispose

datatype agent_event = StartedEvent | PausedEvent | ResumedEvent | CompletedEvent | FailedEvent | CanceledEvent | DisposedEvent

definition all_agent_commands :: "agent_command list" where
  "all_agent_commands = [AgentStart, AgentPause, AgentResume, AgentComplete, AgentFail, AgentCancel, AgentDispose]"

definition agent_terminal :: "agent_state \<Rightarrow> bool" where
  "agent_terminal s \<longleftrightarrow> (case s of AgentCompleted \<Rightarrow> True | AgentFailed \<Rightarrow> True | AgentCanceled \<Rightarrow> True | _ \<Rightarrow> False)"

fun agent_apply :: "agent_state \<Rightarrow> agent_command \<Rightarrow> (agent_state \<times> agent_event list) res" where
  "agent_apply AgentIdle AgentStart = Inr (AgentRunning, [StartedEvent])"
| "agent_apply AgentRunning AgentPause = Inr (AgentPaused, [PausedEvent])"
| "agent_apply AgentPaused AgentResume = Inr (AgentRunning, [ResumedEvent])"
| "agent_apply AgentRunning AgentComplete = Inr (AgentCompleted, [CompletedEvent])"
| "agent_apply AgentRunning AgentFail = Inr (AgentFailed, [FailedEvent])"
| "agent_apply AgentRunning AgentCancel = Inr (AgentCanceled, [CanceledEvent])"
| "agent_apply AgentPaused AgentCancel = Inr (AgentCanceled, [CanceledEvent])"
| "agent_apply AgentCompleted AgentDispose = Inr (AgentDisposed, [DisposedEvent])"
| "agent_apply AgentFailed AgentDispose = Inr (AgentDisposed, [DisposedEvent])"
| "agent_apply AgentCanceled AgentDispose = Inr (AgentDisposed, [DisposedEvent])"
| "agent_apply _ _ = Inl InvalidStateTransition"

definition agent_transition :: "agent_state \<Rightarrow> agent_command \<Rightarrow> agent_state res" where
  "agent_transition s c = bind_res (agent_apply s c) (\<lambda>(t, _). Inr t)"

definition command_for :: "agent_state \<Rightarrow> agent_state \<Rightarrow> agent_command res" where
  "command_for s t = (case find (\<lambda>c. agent_transition s c = Inr t) all_agent_commands of
      Some c \<Rightarrow> Inr c | None \<Rightarrow> Inl InvalidStateTransition)"

fun agent_run :: "agent_state \<Rightarrow> agent_command list \<Rightarrow> agent_state res" where
  "agent_run s [] = Inr s"
| "agent_run s (c # cs) = bind_res (agent_transition s c) (\<lambda>t. agent_run t cs)"

section \<open>Waiting between attempts\<close>

text \<open>Times are milliseconds.\<close>

definition retry_after_cap :: nat where "retry_after_cap = 30000"

definition backoff_base :: "nat \<Rightarrow> nat" where
  "backoff_base attempt = min (2000 * 2 ^ min (attempt - 1) 4) 30000"

definition retry_backoff :: "nat \<Rightarrow> nat \<Rightarrow> nat" where
  "retry_backoff nanos attempt = (let base = backoff_base attempt; spread = base div 5 in
    base - spread + nanos mod (2 * spread + 1))"

record attempt_error =
  ae_canceled :: bool
  ae_retryable :: bool
  ae_retry_after :: "nat option"

text \<open>What follows a failed attempt: \<open>None\<close> gives up, \<open>Some t\<close> waits and tries again.\<close>

definition after_failure :: "nat \<Rightarrow> nat \<Rightarrow> nat \<Rightarrow> nat \<Rightarrow> attempt_error \<Rightarrow> nat option" where
  "after_failure max_attempts max_wait_ms nanos attempts e =
    (if ae_canceled e then None
     else if \<not> ae_retryable e \<or> max_attempts \<le> attempts then None
     else if (case ae_retry_after e of Some wait \<Rightarrow> retry_after_cap * (max_attempts - attempts) < wait | None \<Rightarrow> False) then None
     else Some (min (case ae_retry_after e of Some wait \<Rightarrow> wait | None \<Rightarrow> retry_backoff nanos attempts)
       (min max_wait_ms retry_after_cap)))"

text \<open>
  What the attempts of a step meet, by the number of the attempt: what the provider's stream comes to
  (\<open>Inl\<close> its error), the clock, whether the run is cancelled when the attempt is about to start or in
  the wait after it, and what the store answers when the reservation of the attempt is released or
  made, its end is settled and recorded, and the command's counter is raised.
\<close>

record 'r attempt_world =
  aw_call :: "nat \<Rightarrow> attempt_error + 'r"
  aw_nanos :: "nat \<Rightarrow> nat"
  aw_canceled :: "nat \<Rightarrow> bool"
  aw_wait_cut :: "nat \<Rightarrow> bool"
  aw_release :: "nat \<Rightarrow> unit res"
  aw_reserve :: "nat \<Rightarrow> unit res"
  aw_settle :: "nat \<Rightarrow> unit res"
  aw_bump :: "nat \<Rightarrow> unit res"

datatype 'r attempts_end = Answered 'r | Gave_Up attempt_error | Canceled_Before | Canceled_Waiting
  | Store_Error error_code | No_Attempt

text \<open>
  The loop over the attempts, from the number the command has. The result is the attempts that were
  made, the waits between them and how it ended.
\<close>

function attempt_loop :: "nat \<Rightarrow> nat \<Rightarrow> 'r attempt_world \<Rightarrow> nat \<Rightarrow> nat list \<times> nat list \<times> 'r attempts_end" where
  "attempt_loop max_attempts max_wait_ms aw attempts =
    (if max_attempts < attempts then ([], [], No_Attempt)
     else let number = max attempts 1 in
     if aw_canceled aw number then
       ([], [], case aw_release aw number of Inl e \<Rightarrow> Store_Error e | Inr _ \<Rightarrow> Canceled_Before)
     else (case (if 1 < number then aw_reserve aw number else Inr ()) of
       Inl e \<Rightarrow> ([], [], Store_Error e)
     | Inr _ \<Rightarrow> (case aw_call aw number of
         Inr r \<Rightarrow> ([number], [], case aw_settle aw number of Inl e \<Rightarrow> Store_Error e | Inr _ \<Rightarrow> Answered r)
       | Inl e \<Rightarrow> (case aw_settle aw number of
           Inl x \<Rightarrow> ([number], [], Store_Error x)
         | Inr _ \<Rightarrow> (case after_failure max_attempts max_wait_ms (aw_nanos aw number) number e of
             None \<Rightarrow> ([number], [], Gave_Up e)
           | Some wait \<Rightarrow> if wait \<noteq> 0 \<and> aw_wait_cut aw number then ([number], [wait], Canceled_Waiting)
               else (case aw_bump aw number of
                 Inl x \<Rightarrow> ([number], [wait], Store_Error x)
               | Inr _ \<Rightarrow> (let (ns, waits, r) = attempt_loop max_attempts max_wait_ms aw (Suc number) in
                   (number # ns, wait # waits, r))))))))"
  by pat_completeness auto
termination
  by (relation "measure (\<lambda>(max_attempts, _, _, attempts). Suc max_attempts - attempts)") auto

declare attempt_loop.simps [simp del]

section \<open>Goals\<close>

datatype goal_evidence_kind = ResponseEvidence | ToolEvidence | FileEvidence | CheckEvidence | ArtifactEvidence

fun evidence_kind_str :: "goal_evidence_kind \<Rightarrow> string" where
  "evidence_kind_str ResponseEvidence = ''response''"
| "evidence_kind_str ToolEvidence = ''tool_execution''"
| "evidence_kind_str FileEvidence = ''file_change''"
| "evidence_kind_str CheckEvidence = ''check''"
| "evidence_kind_str ArtifactEvidence = ''artifact''"

record goal_criterion =
  gc_id :: string
  gc_description :: string
  gc_required :: bool
  gc_evidence :: goal_evidence_kind

definition criterion :: "bool \<Rightarrow> string \<Rightarrow> goal_evidence_kind \<Rightarrow> goal_criterion" where
  "criterion required i kind = \<lparr>gc_id = i, gc_description = ''produce '' @ evidence_kind_str kind @ '' evidence'',
    gc_required = required, gc_evidence = kind\<rparr>"

record goal_spec =
  gs_objective :: string
  gs_criteria :: "goal_criterion list"
  gs_max_continuations :: nat
  gs_max_no_progress :: nat

definition new_goal :: "string \<Rightarrow> goal_criterion list \<Rightarrow> goal_spec" where
  "new_goal objective criteria = \<lparr>gs_objective = objective, gs_criteria = criteria,
    gs_max_continuations = 2, gs_max_no_progress = 1\<rparr>"

definition required_ids :: "goal_spec \<Rightarrow> string list" where
  "required_ids g = map gc_id (filter gc_required (gs_criteria g))"

fun check_criteria :: "string set \<Rightarrow> goal_criterion list \<Rightarrow> unit res" where
  "check_criteria ids [] = Inr ()"
| "check_criteria ids (c # cs) = (if blank (gc_id c) \<or> blank (gc_description c) then Inl InvalidPayload
    else if gc_id c \<in> ids then Inl InvalidPayload
    else check_criteria (insert (gc_id c) ids) cs)"

definition validate_goal :: "goal_spec \<Rightarrow> unit res" where
  "validate_goal g = (if blank (gs_objective g) then Inl InvalidPayload
    else if gs_criteria g = [] \<or> \<not> list_ex gc_required (gs_criteria g) then Inl InvalidPayload
    else check_criteria {} (gs_criteria g))"

record check_observation =
  co_command_digest :: content_hash
  co_workspace_digest :: "content_hash option"
  co_exit_code :: "int option"
  co_passed :: bool

record goal_evidence =
  ev_response :: string
  ev_finish_reason :: "string option"
  ev_truncated :: bool
  ev_tool_executions :: nat
  ev_successful_tool_executions :: nat
  ev_file_changes :: nat
  ev_checks_passed :: nat
  ev_artifacts :: nat
  ev_pending_tool_calls :: nat
  ev_workspace_digest :: "content_hash option"
  ev_checks :: "check_observation list"

definition check_at_final_digest :: "goal_evidence \<Rightarrow> bool" where
  "check_at_final_digest e = (case ev_workspace_digest e of
      None \<Rightarrow> False
    | Some final \<Rightarrow> list_ex (\<lambda>c. co_passed c \<and> co_workspace_digest c = Some final) (ev_checks e))"

fun satisfies :: "goal_evidence \<Rightarrow> goal_evidence_kind \<Rightarrow> bool" where
  "satisfies e ResponseEvidence = (\<not> blank (ev_response e))"
| "satisfies e ToolEvidence = (0 < ev_successful_tool_executions e)"
| "satisfies e FileEvidence = (0 < ev_file_changes e)"
| "satisfies e CheckEvidence = check_at_final_digest e"
| "satisfies e ArtifactEvidence = (0 < ev_artifacts e)"

definition int_text :: "int \<Rightarrow> string" where
  "int_text n = (if n < 0 then CHR ''-'' # decimal (nat (- n)) else decimal (nat n))"

definition opt_json :: "('a \<Rightarrow> json) \<Rightarrow> 'a option \<Rightarrow> json" where
  "opt_json f x = (case x of None \<Rightarrow> JNull | Some y \<Rightarrow> f y)"

definition evidence_payload :: "goal_evidence \<Rightarrow> json" where
  "evidence_payload e = JObj [(''response'', JStr (trim (ev_response e))),
    (''finish_reason'', opt_json JStr (ev_finish_reason e)),
    (''truncated'', JBool (ev_truncated e)),
    (''tool_executions'', JNum (decimal (ev_tool_executions e))),
    (''successful_tool_executions'', JNum (decimal (ev_successful_tool_executions e))),
    (''file_changes'', JNum (decimal (ev_file_changes e))),
    (''checks_passed'', JNum (decimal (ev_checks_passed e))),
    (''artifacts'', JNum (decimal (ev_artifacts e))),
    (''pending_tool_calls'', JNum (decimal (ev_pending_tool_calls e))),
    (''workspace_digest'', opt_json JStr (ev_workspace_digest e)),
    (''checks'', JArr (map (\<lambda>c. JObj [(''command_digest'', JStr (co_command_digest c)),
      (''workspace_digest'', opt_json JStr (co_workspace_digest c)),
      (''exit_code'', opt_json (\<lambda>n. JNum (int_text n)) (co_exit_code c)),
      (''passed'', JBool (co_passed c))]) (ev_checks e)))]"

definition progress_signature :: "canonical_hash \<Rightarrow> (json \<Rightarrow> string) \<Rightarrow> goal_evidence \<Rightarrow> string" where
  "progress_signature hash show e = (case hash (evidence_payload e) of
      Inr h \<Rightarrow> h | Inl _ \<Rightarrow> ''unhashed:'' @ show (evidence_payload e))"

datatype goal_verdict =
    GoalSatisfied "string list"
  | GoalNeedsWork string string "string list"
  | GoalNeedsInput string "string list"
  | GoalExternalWait string "string list"
  | GoalUnverified string "string list"

datatype acceptance_state = NotEvaluated | AcceptSatisfied | AcceptNeedsWork | AcceptNeedsInput | AcceptExternalWait
  | AcceptUnverified | AcceptRejected

fun verdict_acceptance :: "goal_verdict \<Rightarrow> acceptance_state" where
  "verdict_acceptance (GoalSatisfied _) = AcceptSatisfied"
| "verdict_acceptance (GoalNeedsWork _ _ _) = AcceptNeedsWork"
| "verdict_acceptance (GoalNeedsInput _ _) = AcceptNeedsInput"
| "verdict_acceptance (GoalExternalWait _ _) = AcceptExternalWait"
| "verdict_acceptance (GoalUnverified _ _) = AcceptUnverified"

record goal_evaluation =
  ge_verdict :: goal_verdict
  ge_progress_signature :: string

definition output_capped :: "goal_evidence \<Rightarrow> bool" where
  "output_capped e \<longleftrightarrow> ev_truncated e \<or> ev_finish_reason e = Some ''length'' \<or> ev_finish_reason e = Some ''max_tokens''"

definition missing_ids :: "goal_spec \<Rightarrow> goal_evidence \<Rightarrow> string list" where
  "missing_ids g e = map gc_id (filter (\<lambda>c. \<not> satisfies e (gc_evidence c) \<and> gc_required c) (gs_criteria g))"

definition host_verdict :: "goal_spec \<Rightarrow> goal_evidence \<Rightarrow> goal_verdict" where
  "host_verdict g e =
    (if blank (ev_response e) then GoalUnverified ''the model returned no final text'' (required_ids g)
     else if output_capped e then GoalUnverified ''the response was cut by the output cap'' (required_ids g)
     else if 0 < ev_pending_tool_calls e then GoalNeedsWork ''a tool call is still pending''
       ''settle the pending tool call'' (required_ids g)
     else let missing = missing_ids g e in
       if missing = [] then GoalSatisfied (map gc_id (filter (\<lambda>c. satisfies e (gc_evidence c)) (gs_criteria g)))
       else GoalNeedsWork ''required criteria still lack evidence''
         (''produce '' @ join_with '', '' (map (\<lambda>c. evidence_kind_str (gc_evidence c))
           (filter (\<lambda>c. gc_id c \<in> set missing) (gs_criteria g))) @ '' evidence for '' @ join_with '', '' missing) missing)"

definition host_evaluate :: "canonical_hash \<Rightarrow> (json \<Rightarrow> string) \<Rightarrow> goal_spec \<Rightarrow> goal_evidence \<Rightarrow> goal_evaluation res" where
  "host_evaluate hash show g e = bind_res (validate_goal g) (\<lambda>_.
    Inr \<lparr>ge_verdict = host_verdict g e, ge_progress_signature = progress_signature hash show e\<rparr>)"

fun check_satisfied :: "goal_spec \<Rightarrow> goal_evidence \<Rightarrow> string set \<Rightarrow> string list \<Rightarrow> string set res" where
  "check_satisfied g e reported [] = Inr reported"
| "check_satisfied g e reported (i # ids) = (if i \<in> reported then Inl InvalidPayload
    else case find (\<lambda>c. gc_id c = i) (gs_criteria g) of
      None \<Rightarrow> Inl InvalidPayload
    | Some c \<Rightarrow> if \<not> satisfies e (gc_evidence c) then Inl InvalidPayload
        else check_satisfied g e (insert i reported) ids)"

definition validate_evaluation ::
    "canonical_hash \<Rightarrow> (json \<Rightarrow> string) \<Rightarrow> goal_spec \<Rightarrow> goal_evidence \<Rightarrow> goal_evaluation \<Rightarrow> unit res" where
  "validate_evaluation hash show g e v = bind_res (validate_goal g) (\<lambda>_.
    if ge_progress_signature v \<noteq> progress_signature hash show e then Inl InvalidPayload
    else case ge_verdict v of
      GoalSatisfied ids \<Rightarrow> bind_res (check_satisfied g e {} ids) (\<lambda>reported.
        if list_ex (\<lambda>c. gc_required c \<and> (\<not> satisfies e (gc_evidence c) \<or> gc_id c \<notin> reported)) (gs_criteria g)
        then Inl InvalidPayload else Inr ())
    | GoalNeedsWork _ next_action _ \<Rightarrow> if blank next_action then Inl InvalidPayload else Inr ()
    | GoalNeedsInput question _ \<Rightarrow> if blank question then Inl InvalidPayload else Inr ()
    | _ \<Rightarrow> Inr ())"

section \<open>The state machine\<close>

lemma agent_apply_fun: "agent_transition s c = Inr t \<Longrightarrow> agent_transition s c' = Inr t \<Longrightarrow> c' = c"
  by (cases "(s, c)" rule: agent_apply.cases; cases "(s, c')" rule: agent_apply.cases) (simp_all add: agent_transition_def)

lemma agent_terminal_steps: "agent_terminal s \<Longrightarrow> agent_transition s c = Inr t \<longleftrightarrow> c = AgentDispose \<and> t = AgentDisposed"
  by (cases s; cases c) (auto simp: agent_terminal_def agent_transition_def)

lemma agent_disposed_final: "agent_transition AgentDisposed c = Inl InvalidStateTransition"
  by (cases c) (simp_all add: agent_transition_def)

text \<open>
  The agent's states: the command that leads from one state to another is unique and
  \<open>command_for\<close> finds it when there is one; an agent that completed, failed or was canceled stays
  so, whatever it is asked, until it is disposed, and a disposed one takes no command.
\<close>

theorem agent_states:
  "(command_for s t = Inr c \<longleftrightarrow> agent_transition s c = Inr t) \<and>
    (agent_terminal s \<longrightarrow> agent_run s cs = Inr u \<longrightarrow> (cs = [] \<and> u = s) \<or> (cs = [AgentDispose] \<and> u = AgentDisposed))"
proof
  have "c \<in> set all_agent_commands" by (cases c) (simp_all add: all_agent_commands_def)
  then have "find (\<lambda>c. agent_transition s c = Inr t) all_agent_commands = None \<Longrightarrow> agent_transition s c \<noteq> Inr t"
    by (simp add: find_None_iff)
  moreover have "agent_transition s x = Inr t" if "find (\<lambda>c. agent_transition s c = Inr t) all_agent_commands = Some x" for x
    using that by (auto simp: find_Some_iff)
  ultimately show "command_for s t = Inr c \<longleftrightarrow> agent_transition s c = Inr t"
    using agent_apply_fun by (auto simp: command_for_def split: option.splits)
  show "agent_terminal s \<longrightarrow> agent_run s cs = Inr u \<longrightarrow> (cs = [] \<and> u = s) \<or> (cs = [AgentDispose] \<and> u = AgentDisposed)"
  proof (cases cs)
    case (Cons d ds)
    then show ?thesis by (cases ds) (auto simp: bind_res_Inr agent_terminal_steps agent_disposed_final)
  qed simp
qed

theorem agent_states_witness:
  "agent_run AgentIdle [AgentStart, AgentPause, AgentCancel] = Inr AgentCanceled \<and>
    command_for AgentRunning AgentPaused = Inr AgentPause \<and> agent_run AgentCanceled [AgentResume] = Inl InvalidStateTransition"
  using agent_states [of AgentRunning AgentPaused AgentPause "[]" AgentRunning]
  by (simp add: agent_transition_def)

section \<open>Waits\<close>

lemma backoff_bounds: "backoff_base k - backoff_base k div 5 \<le> retry_backoff nanos k \<and> retry_backoff nanos k \<le> backoff_base k + backoff_base k div 5"
proof -
  let ?s = "backoff_base k div 5"
  have "?s \<le> backoff_base k" "nanos mod (2 * ?s + 1) \<le> 2 * ?s" using mod_less_divisor [of "2 * ?s + 1" nanos] by linarith+
  then show ?thesis unfolding retry_backoff_def Let_def by linarith
qed

lemma after_failure_wait: "after_failure m w nanos k e = Some t \<Longrightarrow> t \<le> retry_after_cap \<and> k < m \<and> ae_retryable e \<and> \<not> ae_canceled e"
  by (auto simp: after_failure_def split: if_splits option.splits)

text \<open>What is so of the attempts made, the waits and the end.\<close>

definition attempts_fit :: "nat \<Rightarrow> 'r attempt_world \<Rightarrow> nat \<Rightarrow> nat list \<Rightarrow> nat list \<Rightarrow> 'r attempts_end \<Rightarrow> bool" where
  "attempts_fit m aw k ns waits r \<longleftrightarrow> ns = [k..<k + length ns] \<and> k + length ns \<le> Suc m \<and> k + length waits \<le> m \<and>
    (\<forall>t \<in> set waits. t \<le> retry_after_cap) \<and> (\<forall>i \<in> set ns. \<not> aw_canceled aw i) \<and>
    (\<forall>i \<in> set (butlast ns). \<exists>e. aw_call aw i = Inl e \<and> ae_retryable e \<and> \<not> ae_canceled e) \<and>
    (case r of Answered x \<Rightarrow> ns \<noteq> [] \<and> aw_call aw (last ns) = Inr x
      | Gave_Up e \<Rightarrow> ns \<noteq> [] \<and> aw_call aw (last ns) = Inl e
      | Canceled_Before \<Rightarrow> aw_canceled aw (k + length ns)
      | Canceled_Waiting \<Rightarrow> ns \<noteq> [] \<and> aw_wait_cut aw (last ns)
      | Store_Error _ \<Rightarrow> True | No_Attempt \<Rightarrow> False)"

lemma attempts_fit_more:
  assumes "attempts_fit m aw (Suc k) ns waits r" and "\<not> aw_canceled aw k" and "aw_call aw k = Inl e"
    and "t \<le> retry_after_cap" and "ae_retryable e" and "\<not> ae_canceled e"
  shows "attempts_fit m aw k (k # ns) (t # waits) r"
proof -
  from assms(1) have ns: "ns = [Suc k..<Suc k + length ns]"
    and len: "Suc k + length ns \<le> Suc m" "Suc k + length waits \<le> m" "\<forall>t \<in> set waits. t \<le> retry_after_cap"
    and free: "\<forall>i \<in> set ns. \<not> aw_canceled aw i"
    and failed: "\<forall>i \<in> set (butlast ns). \<exists>e. aw_call aw i = Inl e \<and> ae_retryable e \<and> \<not> ae_canceled e"
    and ended: "case r of Answered x \<Rightarrow> ns \<noteq> [] \<and> aw_call aw (last ns) = Inr x
      | Gave_Up e \<Rightarrow> ns \<noteq> [] \<and> aw_call aw (last ns) = Inl e
      | Canceled_Before \<Rightarrow> aw_canceled aw (Suc k + length ns)
      | Canceled_Waiting \<Rightarrow> ns \<noteq> [] \<and> aw_wait_cut aw (last ns)
      | Store_Error _ \<Rightarrow> True | No_Attempt \<Rightarrow> False"
    unfolding attempts_fit_def by blast+
  have "[k..<k + length (k # ns)] = k # [Suc k..<Suc k + length ns]" by (simp add: upt_conv_Cons del: upt_Suc)
  with ns have "k # ns = [k..<k + length (k # ns)]" by simp
  moreover have "k + length (k # ns) \<le> Suc m" "k + length (t # waits) \<le> m" "\<forall>x \<in> set (t # waits). x \<le> retry_after_cap"
      "\<forall>i \<in> set (k # ns). \<not> aw_canceled aw i" using len free assms(2,4) by simp_all
  moreover have "\<forall>i \<in> set (butlast (k # ns)). \<exists>e. aw_call aw i = Inl e \<and> ae_retryable e \<and> \<not> ae_canceled e"
    using failed assms(3,5,6) by simp
  moreover have "case r of Answered x \<Rightarrow> k # ns \<noteq> [] \<and> aw_call aw (last (k # ns)) = Inr x
      | Gave_Up e \<Rightarrow> k # ns \<noteq> [] \<and> aw_call aw (last (k # ns)) = Inl e
      | Canceled_Before \<Rightarrow> aw_canceled aw (k + length (k # ns))
      | Canceled_Waiting \<Rightarrow> k # ns \<noteq> [] \<and> aw_wait_cut aw (last (k # ns))
      | Store_Error _ \<Rightarrow> True | No_Attempt \<Rightarrow> False"
    using ended by (cases r) simp_all
  ultimately show ?thesis unfolding attempts_fit_def by blast
qed

lemma attempt_loop_fit:
  assumes "attempt_loop m w aw k = (ns, waits, r)" and "k \<le> m" and "0 < m"
  shows "attempts_fit m aw (max k 1) ns waits r"
  using assms
proof (induction m w aw k arbitrary: ns waits r rule: attempt_loop.induct)
  case (1 m w aw k)
  note eq = attempt_loop.simps [of m w aw k]
  define n where "n = max k 1"
  have le: "\<not> m < k" "n \<le> m" using 1(3,4) by (simp_all add: n_def)
  have step: "(ns, waits, r) = attempt_loop m w aw k" using 1(2) by simp
  note step = step [unfolded eq Let_def, folded n_def]
  note ih = 1(1) [folded n_def]
  have stop: "attempts_fit m aw n [] [] x" if "case x of Canceled_Before \<Rightarrow> aw_canceled aw n | Store_Error _ \<Rightarrow> True | _ \<Rightarrow> False" for x
    using that le(2) by (cases x) (simp_all add: attempts_fit_def)
  have "attempts_fit m aw n ns waits r"
  proof (cases "aw_canceled aw n")
    case True
    with step le(1) stop show ?thesis by (auto split: sum.splits)
  next
    case free: False
    have once: "attempts_fit m aw n [n] ws x"
      if "n + length ws \<le> m" "\<forall>t \<in> set ws. t \<le> retry_after_cap" "case x of Answered y \<Rightarrow> aw_call aw n = Inr y | Gave_Up e \<Rightarrow> aw_call aw n = Inl e
        | Canceled_Waiting \<Rightarrow> aw_wait_cut aw n | Store_Error _ \<Rightarrow> True | _ \<Rightarrow> False" for ws x
      using that le(2) free by (cases x) (simp_all add: attempts_fit_def)
    show ?thesis
    proof (cases "if 1 < n then aw_reserve aw n else Inr ()")
      case (Inl e)
      with step le(1) free stop show ?thesis by simp
    next
      case made: (Inr u)
      show ?thesis
      proof (cases "aw_call aw n")
        case (Inr x)
        with step le free made once [of "[]"] show ?thesis by (auto split: sum.splits)
      next
        case failed: (Inl e)
        show ?thesis
        proof (cases "aw_settle aw n")
          case (Inl x)
          with step le free made failed once [of "[]"] show ?thesis by simp
        next
          case settled: (Inr v)
          show ?thesis
          proof (cases "after_failure m w (aw_nanos aw n) n e")
            case None
            with step le free made failed settled once [of "[]"] show ?thesis by simp
          next
            case (Some t)
            note t = after_failure_wait [OF Some]
            show ?thesis
            proof (cases "t \<noteq> 0 \<and> aw_wait_cut aw n")
              case True
              with step le free made failed settled Some t once [of "[t]"] show ?thesis by simp
            next
              case uncut: False
              show ?thesis
              proof (cases "aw_bump aw n")
                case (Inl x)
                with uncut step le(1) free made failed settled Some t once [of "[t]"] show ?thesis by (auto split: if_splits)
              next
                case bumped: (Inr y)
                obtain ns' ws r' where rec: "attempt_loop m w aw (Suc n) = (ns', ws, r')"
                  by (cases "attempt_loop m w aw (Suc n)") auto
                with step le(1) free made failed settled Some uncut bumped have out: "ns = n # ns'" "waits = t # ws" "r = r'"
                  by (auto split: if_splits)
                have "Suc n \<le> m" using t by simp
                with ih [OF le(1) refl free made failed settled Some uncut bumped rec _ 1(4)]
                have "attempts_fit m aw (Suc n) ns' ws r'" by simp
                from attempts_fit_more [OF this free failed] t show ?thesis unfolding out by blast
              qed
            qed
          qed
        qed
      qed
    qed
  qed
  then show ?case by (simp only: n_def)
qed

text \<open>
  C34. A step makes at most the configured attempts, one after the other, and waits at most thirty
  seconds between two of them; it tries again only after failures the provider calls temporary and
  never after a cancellation, starts no attempt once the run is cancelled, and the answer or the
  error it ends with is that of its last attempt.
\<close>

theorem attempts_bounded:
  assumes "attempt_loop m w aw k = (ns, waits, r)" and "k \<le> m" and "0 < m"
  shows "ns = [max k 1..<max k 1 + length ns] \<and> (\<forall>n \<in> set ns. n \<le> m) \<and>
    (\<forall>t \<in> set waits. t \<le> retry_after_cap) \<and> sum_list waits \<le> retry_after_cap * (m - 1) \<and>
    (\<forall>i \<in> set ns. \<not> aw_canceled aw i) \<and>
    (\<forall>i \<in> set (butlast ns). \<exists>e. aw_call aw i = Inl e \<and> ae_retryable e \<and> \<not> ae_canceled e) \<and>
    (case r of Answered x \<Rightarrow> ns \<noteq> [] \<and> aw_call aw (last ns) = Inr x
      | Gave_Up e \<Rightarrow> ns \<noteq> [] \<and> aw_call aw (last ns) = Inl e
      | Canceled_Before \<Rightarrow> aw_canceled aw (max k 1 + length ns)
      | Canceled_Waiting \<Rightarrow> ns \<noteq> [] \<and> aw_wait_cut aw (last ns)
      | Store_Error _ \<Rightarrow> True | No_Attempt \<Rightarrow> False)"
proof -
  note f = attempt_loop_fit [OF assms, unfolded attempts_fit_def]
  then have ns: "ns = [max k 1..<max k 1 + length ns]" and len: "max k 1 + length ns \<le> Suc m" "max k 1 + length waits \<le> m"
    and waits: "\<forall>t \<in> set waits. t \<le> retry_after_cap" by blast+
  have "n \<le> m" if "n \<in> set ns" for n
  proof -
    from that have "n \<in> set [max k 1..<max k 1 + length ns]" using ns by simp
    with len(1) show ?thesis by (simp only: set_upt atLeastLessThan_iff) linarith
  qed
  moreover have "sum_list waits \<le> length waits * retry_after_cap"
    using waits sum_list_mono [of waits "\<lambda>t. t" "\<lambda>_. retry_after_cap"] by (simp add: sum_list_triv)
  moreover have "length waits * retry_after_cap \<le> (m - 1) * retry_after_cap"
    using len(2) by (intro mult_le_mono1) linarith
  ultimately have "\<forall>n \<in> set ns. n \<le> m" "sum_list waits \<le> retry_after_cap * (m - 1)"
    by (blast, metis le_trans mult.commute)
  with f show ?thesis by blast
qed

text \<open>A provider that fails once and then answers, without a budget to reserve from.\<close>

definition sample_attempts :: "string attempt_world" where
  "sample_attempts = \<lparr>aw_call = (\<lambda>n. if n = 2 then Inr ''ok'' else Inl \<lparr>ae_canceled = False, ae_retryable = True, ae_retry_after = None\<rparr>),
    aw_nanos = (\<lambda>_. 0), aw_canceled = (\<lambda>_. False), aw_wait_cut = (\<lambda>_. False), aw_release = (\<lambda>_. Inr ()),
    aw_reserve = (\<lambda>_. Inr ()), aw_settle = (\<lambda>_. Inr ()), aw_bump = (\<lambda>_. Inr ())\<rparr>"

theorem attempts_bounded_witness:
  "attempt_loop 3 60000 sample_attempts 1 = ([1, 2], [1600], Answered ''ok'') \<and> sum_list [1600 :: nat] \<le> retry_after_cap * (3 - 1)"
proof -
  have two: "attempt_loop 3 60000 sample_attempts (Suc (Suc 0)) = ([2], [], Answered ''ok'')"
    by (subst attempt_loop.simps) (simp add: sample_attempts_def)
  have one: "attempt_loop 3 60000 sample_attempts 1 = ([1, 2], [1600], Answered ''ok'')"
    using two by (subst attempt_loop.simps)
      (simp add: sample_attempts_def after_failure_def retry_backoff_def backoff_base_def retry_after_cap_def Suc_1)
  from attempts_bounded [OF one] one show ?thesis by simp
qed

section \<open>Verdicts\<close>

lemma check_satisfied_ok:
  "check_satisfied g e reported ids = Inr out \<longleftrightarrow> distinct ids \<and> reported \<inter> set ids = {} \<and>
    (\<forall>i \<in> set ids. \<exists>c. find (\<lambda>c. gc_id c = i) (gs_criteria g) = Some c \<and> satisfies e (gc_evidence c)) \<and>
    out = reported \<union> set ids"
  by (induction ids arbitrary: reported) (auto split: option.splits)

lemma check_criteria_ok:
  "check_criteria ids cs = Inr () \<Longrightarrow> distinct (map gc_id cs) \<and> ids \<inter> gc_id ` set cs = {}"
  by (induction cs arbitrary: ids) (auto split: if_splits)

lemma validate_goal_distinct: "validate_goal g = Inr () \<Longrightarrow> distinct (map gc_id (gs_criteria g))"
  by (auto simp: validate_goal_def dest: check_criteria_ok split: if_splits)

lemma find_by_id: "distinct (map gc_id cs) \<Longrightarrow> c \<in> set cs \<Longrightarrow> find (\<lambda>x. gc_id x = gc_id c) cs = Some c"
  by (induction cs) (auto simp: image_iff)

text \<open>
  C31. No evaluator can have a goal accepted without its evidence: when the host accepts a satisfied
  verdict, every required criterion is reported and has its evidence, and every id that is reported
  is reported once and is a criterion whose evidence is there.
\<close>

theorem satisfied_is_earned:
  assumes "validate_evaluation hash show g e v = Inr ()" and "ge_verdict v = GoalSatisfied ids"
  shows "distinct ids \<and> (\<forall>c \<in> set (gs_criteria g). gc_required c \<longrightarrow> gc_id c \<in> set ids \<and> satisfies e (gc_evidence c)) \<and>
    (\<forall>i \<in> set ids. \<exists>c \<in> set (gs_criteria g). gc_id c = i \<and> satisfies e (gc_evidence c))"
proof -
  from assms obtain out where out: "check_satisfied g e {} ids = Inr out"
    and req: "\<forall>c \<in> set (gs_criteria g). gc_required c \<longrightarrow> satisfies e (gc_evidence c) \<and> gc_id c \<in> out"
    by (auto simp: validate_evaluation_def bind_res_Inr list_ex_iff split: if_splits)
  from out [unfolded check_satisfied_ok] have "distinct ids" "out = set ids"
    and found: "\<forall>i \<in> set ids. \<exists>c. find (\<lambda>c. gc_id c = i) (gs_criteria g) = Some c \<and> satisfies e (gc_evidence c)" by auto
  moreover have "\<forall>i \<in> set ids. \<exists>c \<in> set (gs_criteria g). gc_id c = i \<and> satisfies e (gc_evidence c)"
    using found by (fastforce simp: find_Some_iff)
  ultimately show ?thesis using req by blast
qed

text \<open>
  The host's own evaluation of a valid goal always stands the host's check, and it is satisfied
  exactly when there is a final text that was not cut off, no call is pending and every required
  criterion has its evidence; a check counts only at the final state of the workspace.
\<close>

theorem host_evaluation_stands:
  assumes "validate_goal g = Inr ()"
  shows "\<exists>v. host_evaluate hash show g e = Inr v \<and> validate_evaluation hash show g e v = Inr () \<and>
    (verdict_acceptance (ge_verdict v) = AcceptSatisfied \<longleftrightarrow> \<not> blank (ev_response e) \<and> \<not> output_capped e \<and>
      ev_pending_tool_calls e = 0 \<and> (\<forall>c \<in> set (gs_criteria g). gc_required c \<longrightarrow> satisfies e (gc_evidence c)))"
proof -
  let ?v = "\<lparr>ge_verdict = host_verdict g e, ge_progress_signature = progress_signature hash show e\<rparr>"
  have missing: "missing_ids g e = [] \<longleftrightarrow> (\<forall>c \<in> set (gs_criteria g). gc_required c \<longrightarrow> satisfies e (gc_evidence c))"
    by (auto simp: missing_ids_def filter_empty_conv)
  let ?ids = "map gc_id (filter (\<lambda>c. satisfies e (gc_evidence c)) (gs_criteria g))"
  note d = validate_goal_distinct [OF assms]
  have "check_satisfied g e {} ?ids = Inr (set ?ids)"
    unfolding check_satisfied_ok using d by (auto simp: distinct_map_filter find_by_id)
  moreover have "\<not> blank (''produce '' @ s)" "\<not> blank (''settle '' @ s)" for s
    by (simp_all add: blank_def trim_start_nonspace byte_def)
  ultimately have "validate_evaluation hash show g e ?v = Inr ()"
    using assms missing by (auto simp: validate_evaluation_def host_verdict_def Let_def list_ex_iff)
  moreover have "verdict_acceptance (host_verdict g e) = AcceptSatisfied \<longleftrightarrow> \<not> blank (ev_response e) \<and> \<not> output_capped e \<and>
      ev_pending_tool_calls e = 0 \<and> missing_ids g e = []"
    by (simp add: host_verdict_def Let_def)
  ultimately show ?thesis using assms missing by (simp add: host_evaluate_def)
qed

definition sample_goal :: goal_spec where
  "sample_goal = new_goal ''ship'' [criterion True ''text'' ResponseEvidence, criterion False ''files'' FileEvidence]"

definition sample_evidence :: goal_evidence where
  "sample_evidence = \<lparr>ev_response = ''ok'', ev_finish_reason = Some ''stop'', ev_truncated = False, ev_tool_executions = 0,
    ev_successful_tool_executions = 0, ev_file_changes = 0, ev_checks_passed = 0, ev_artifacts = 0,
    ev_pending_tool_calls = 0, ev_workspace_digest = None, ev_checks = []\<rparr>"

lemma sample_goal_ok: "validate_goal sample_goal = Inr ()" "\<not> blank ''ok''"
  by (simp_all add: validate_goal_def sample_goal_def new_goal_def criterion_def blank_def trim_start_nonspace byte_def)

theorem host_evaluation_stands_witness:
  "\<exists>v. host_evaluate (\<lambda>_. Inr ''h'') (\<lambda>_. []) sample_goal sample_evidence = Inr v \<and> verdict_acceptance (ge_verdict v) = AcceptSatisfied"
proof -
  have "\<not> blank (ev_response sample_evidence) \<and> \<not> output_capped sample_evidence \<and> ev_pending_tool_calls sample_evidence = 0 \<and>
      (\<forall>c \<in> set (gs_criteria sample_goal). gc_required c \<longrightarrow> satisfies sample_evidence (gc_evidence c))"
    by (simp add: sample_evidence_def output_capped_def sample_goal_def new_goal_def criterion_def sample_goal_ok(2))
  with host_evaluation_stands [OF sample_goal_ok(1), of "\<lambda>_. Inr ''h''" "\<lambda>_. []" sample_evidence] show ?thesis by blast
qed

theorem satisfied_is_earned_witness:
  "validate_evaluation (\<lambda>_. Inr ''h'') (\<lambda>_. []) sample_goal sample_evidence
      \<lparr>ge_verdict = GoalSatisfied [''text''], ge_progress_signature = ''h''\<rparr> = Inr () \<and>
    satisfies sample_evidence ResponseEvidence"
proof -
  have v: "validate_evaluation (\<lambda>_. Inr ''h'') (\<lambda>_. []) sample_goal sample_evidence
      \<lparr>ge_verdict = GoalSatisfied [''text''], ge_progress_signature = ''h''\<rparr> = Inr ()"
    using sample_goal_ok by (simp add: validate_evaluation_def progress_signature_def sample_goal_def new_goal_def criterion_def sample_evidence_def)
  from satisfied_is_earned [OF v] v show ?thesis by (simp add: sample_goal_def new_goal_def criterion_def)
qed

end
