(* ===== verification/Run_Ledger.thy ===== *)
theory Run_Ledger imports Budget_Store Human_Store Compaction begin

text \<open>
  What the runtime asks of the store on behalf of a run: the budget ledger
  (\<^verbatim>\<open>crates/harness-runtime/src/control/budget.rs\<close>), the inbox of steering and cancel commands
  (\<^verbatim>\<open>control/inbox.rs\<close>) and the questions to the user (\<^verbatim>\<open>control/human_input.rs\<close>). A generated id is
  the argument \<open>new_id\<close>, the canonical hash of a JSON value \<open>hash\<close>.
\<close>

section \<open>The ledger\<close>

definition ledger_ensure_account :: "ident \<Rightarrow> ident option \<Rightarrow> nat \<Rightarrow> store \<Rightarrow> budget_account res \<times> store" where
  "ledger_ensure_account b parent limit s = (if limit = 0 then (Inl BudgetExhausted, s)
    else ensure_budget_account \<lparr>ba_id = b, ba_parent = parent, ba_limit = limit, ba_spent = 0, ba_revision = 1\<rparr> s)"

definition ledger_reserve :: "ident \<Rightarrow> ident \<Rightarrow> string \<Rightarrow> string \<Rightarrow> nat \<Rightarrow> store \<Rightarrow> reservation res \<times> store" where
  "ledger_reserve new_id b operation_id origin bound s =
    (if blank operation_id then (Inl InvalidPayload, s)
     else if bound = 0 then (Inl InvalidPayload, s)
     else reserve_budget \<lparr>br_id = new_id, br_budget_id = b, br_operation_id = operation_id, br_origin = origin,
       br_bound = bound, br_settled = None, br_state = Reserved, br_revision = 1\<rparr> s)"

definition ledger_settle :: "ident \<Rightarrow> nat option \<Rightarrow> store \<Rightarrow> reservation res \<times> store" where
  "ledger_settle i measured = settle_budget_reservation \<lparr>bs_reservation_id = i, bs_measured = measured\<rparr>"

definition ledger_view :: "ident \<Rightarrow> store \<Rightarrow> (budget_account \<times> nat) res" where
  "ledger_view b s = (case read_budget_account b s of
      None \<Rightarrow> Inl BudgetExhausted
    | Some a \<Rightarrow> Inr (a, ba_limit a - ba_spent a))"

text \<open>The loop of \<^verbatim>\<open>remaining\<close>; its reads are taken from one state of the store.\<close>

function remaining_loop :: "ident set \<Rightarrow> ident option \<Rightarrow> nat \<Rightarrow> budget_account list \<Rightarrow> nat res" where
  "remaining_loop visited None left as = Inr left"
| "remaining_loop visited (Some b) left as =
    (if b \<in> visited then Inl StorageWriteFailed
     else case account_by_id b as of
       None \<Rightarrow> Inl BudgetExhausted
     | Some a \<Rightarrow> remaining_loop (insert b visited) (ba_parent a) (min left (ba_limit a - ba_spent a)) as)"
  by pat_completeness auto
termination
proof (relation "measure (\<lambda>(visited, b, left, as). case b of None \<Rightarrow> 0 | Some _ \<Rightarrow> Suc (card (ba_id ` set as - visited)))", goal_cases)
  case (2 visited b left as a)
  then have "b \<in> ba_id ` set as" by (auto simp: account_by_id_def dest: sel_SomeD)
  with 2(1) have "ba_id ` set as - insert b visited \<subset> ba_id ` set as - visited" by auto
  then show ?case by (simp add: psubset_card_mono split: option.splits)
qed simp

definition ledger_remaining :: "ident \<Rightarrow> store \<Rightarrow> nat res" where
  "ledger_remaining b s = remaining_loop {} (Some b) u64_max (db_accounts (s_db s))"

section \<open>The inbox\<close>

definition inbox_enqueue :: "ident \<Rightarrow> run_record \<Rightarrow> run_command_kind \<Rightarrow> json \<Rightarrow> nat \<Rightarrow> store \<Rightarrow> run_command res \<times> store" where
  "inbox_enqueue new_id run kind payload now s =
    (let record = \<lparr>cm_id = new_id, cm_run_id = run_id run, cm_session_id = run_session_id run, cm_task_id = run_task_id run,
       cm_kind = kind, cm_state = RcPending, cm_payload = payload, cm_detail = None, cm_created_at = now,
       cm_claimed_at = None, cm_applied_at = None\<rparr>;
       (r, s) = enqueue_run_command record s in
     (case r of Inl e \<Rightarrow> Inl e | Inr _ \<Rightarrow> Inr record, s))"

definition steer_payload :: "string \<Rightarrow> json" where
  "steer_payload t = JObj [(''text'', JStr t)]"

definition deliver_payload :: "string \<Rightarrow> json" where
  "deliver_payload t = JObj [(''text'', JStr t), (''verbatim'', JBool True)]"

definition inbox_steer :: "ident \<Rightarrow> run_record \<Rightarrow> string \<Rightarrow> nat \<Rightarrow> store \<Rightarrow> run_command res \<times> store" where
  "inbox_steer new_id run t now s = (if blank t then (Inl InvalidPayload, s)
    else inbox_enqueue new_id run Steer (steer_payload t) now s)"

definition inbox_deliver :: "ident \<Rightarrow> run_record \<Rightarrow> string \<Rightarrow> nat \<Rightarrow> store \<Rightarrow> run_command res \<times> store" where
  "inbox_deliver new_id run t now s = (if blank t then (Inl InvalidPayload, s)
    else inbox_enqueue new_id run Steer (deliver_payload t) now s)"

definition inbox_cancel :: "ident \<Rightarrow> run_record \<Rightarrow> string \<Rightarrow> nat \<Rightarrow> store \<Rightarrow> run_command res \<times> store" where
  "inbox_cancel new_id run reason now s = inbox_enqueue new_id run CancelRun (JObj [(''reason'', JStr reason)]) now s"

definition record_host_message :: "ident \<Rightarrow> run_record \<Rightarrow> string \<Rightarrow> nat \<Rightarrow> store \<Rightarrow> unit res \<times> store" where
  "record_host_message new_id run t now = record_applied_run_command \<lparr>cm_id = new_id, cm_run_id = run_id run,
    cm_session_id = run_session_id run, cm_task_id = run_task_id run, cm_kind = Steer, cm_state = RcApplied,
    cm_payload = JObj [(''text'', JStr t), (''verbatim'', JBool True), (''host'', JBool True)], cm_detail = None,
    cm_created_at = now, cm_claimed_at = Some now, cm_applied_at = Some now\<rparr> ''host message delivered to the next step''"

definition inbox_apply :: "run_command \<Rightarrow> string \<Rightarrow> nat \<Rightarrow> store \<Rightarrow> unit res \<times> store" where
  "inbox_apply c detail now = complete_run_command (cm_id c) RcApplied (Some detail) now"

definition inbox_reject :: "run_command \<Rightarrow> string \<Rightarrow> nat \<Rightarrow> store \<Rightarrow> unit res \<times> store" where
  "inbox_reject c detail now = complete_run_command (cm_id c) RcRejected (Some detail) now"

definition is_verbatim :: "run_command \<Rightarrow> bool" where
  "is_verbatim c \<longleftrightarrow> json_get ''verbatim'' (cm_payload c) = Some (JBool True)"

definition steering_text :: "run_command \<Rightarrow> string option" where
  "steering_text c = str_field ''text'' (cm_payload c)"

definition steering_message :: "run_command \<Rightarrow> string option" where
  "steering_message c = map_option (\<lambda>t. if is_verbatim c then t
    else ''[steering correction from the user]'' @ newline @ t) (steering_text c)"

definition cancel_reason :: "run_command \<Rightarrow> string option" where
  "cancel_reason c = str_field ''reason'' (cm_payload c)"

section \<open>Questions\<close>

record ask_request =
  ak_session_id :: ident
  ak_task_id :: ident
  ak_run_id :: "ident option"
  ak_scope_key :: string
  ak_kind :: string
  ak_prompt :: string
  ak_payload :: json
  ak_expires_at :: "nat option"

definition question_scope :: "ident \<Rightarrow> string \<Rightarrow> string" where
  "question_scope run request_id = run @ ''|'' @ request_id"

definition ask_for_request :: "ident \<Rightarrow> ident \<Rightarrow> ident \<Rightarrow> string \<Rightarrow> string \<Rightarrow> ask_request" where
  "ask_for_request session task run request_id prompt = \<lparr>ak_session_id = session, ak_task_id = task, ak_run_id = Some run,
    ak_scope_key = question_scope run request_id, ak_kind = ''clarification'', ak_prompt = prompt, ak_payload = JNull,
    ak_expires_at = None\<rparr>"

definition ask :: "ident \<Rightarrow> ask_request \<Rightarrow> nat \<Rightarrow> store \<Rightarrow> question res \<times> store" where
  "ask new_id r now s =
    (if blank (ak_scope_key r) then (Inl InvalidPayload, s)
     else if blank (ak_prompt r) then (Inl InvalidPayload, s)
     else open_question \<lparr>q_id = new_id, q_scope_key = ak_scope_key r, q_session_id = ak_session_id r,
       q_task_id = ak_task_id r, q_run_id = ak_run_id r, q_kind = ak_kind r, q_prompt = ak_prompt r, q_payload = ak_payload r,
       q_state = QOpen, q_answer = None, q_answer_hash = None, q_answered_by = None, q_expires_at = ak_expires_at r,
       q_created_at = now, q_answered_at = None\<rparr> s)"

fun is_empty_answer :: "json \<Rightarrow> bool" where
  "is_empty_answer JNull = True"
| "is_empty_answer (JStr t) = blank t"
| "is_empty_answer (JArr xs) = (xs = [])"
| "is_empty_answer (JObj es) = (es = [])"
| "is_empty_answer _ = False"

definition human_answer :: "canonical_hash \<Rightarrow> string \<Rightarrow> json \<Rightarrow> string \<Rightarrow> nat \<Rightarrow> store \<Rightarrow> question_outcome res \<times> store" where
  "human_answer hash scope answer actor now s =
    (if is_empty_answer answer then (Inl InvalidPayload, s)
     else if blank actor then (Inl InvalidPayload, s)
     else case hash answer of
       Inl e \<Rightarrow> (Inl e, s)
     | Inr h \<Rightarrow> answer_question scope answer h actor now s)"

section \<open>What is left is what may be reserved\<close>

lemma chain_known: "account_tree as \<Longrightarrow> account_by_id b as = Some a \<Longrightarrow> ba_parent a = Some p \<Longrightarrow> account_by_id p as \<noteq> None"
proof -
  have parents: "parents_older ps \<Longrightarrow> (b, Some p) \<in> set ps \<Longrightarrow> p \<in> fst ` set ps" for ps
    by (induction ps rule: parents_older.induct) (auto split: option.splits)
  assume "account_tree as" "account_by_id b as = Some a" "ba_parent a = Some p"
  then have "(b, Some p) \<in> set (shape as)" unfolding account_by_id_def by (force simp: shape_def dest: sel_SomeD)
  with parents [of "shape as"] \<open>account_tree as\<close> show ?thesis
    unfolding account_known by (auto simp: account_tree_def shape_def)
qed

definition left_over :: "budget_account list \<Rightarrow> ident list \<Rightarrow> nat \<Rightarrow> nat" where
  "left_over as ids left = foldl (\<lambda>n b. case account_by_id b as of None \<Rightarrow> n | Some a \<Rightarrow> min n (ba_limit a - ba_spent a)) left ids"

lemma left_over_le: "n \<le> left_over as ids left \<longleftrightarrow>
    n \<le> left \<and> (\<forall>b \<in> set ids. \<forall>a. account_by_id b as = Some a \<longrightarrow> n \<le> ba_limit a - ba_spent a)"
  by (induction ids arbitrary: left) (auto simp: left_over_def split: option.splits)

lemma remaining_loop_spec:
  assumes "account_tree as" and "account_by_id b as \<noteq> None" and "visited \<inter> set (chain b as) = {}"
  shows "remaining_loop visited (Some b) left as = Inr (left_over as (chain b as) left)"
  using assms
proof (induction visited "Some b" left as arbitrary: b rule: remaining_loop.induct)
  case (2 visited b left as)
  then obtain a where a: "account_by_id b as = Some a" by auto
  note unfold = chain_unfold [OF 2(2) a]
  then have fresh: "b \<notin> visited" using 2(4) by auto
  show ?case
  proof (cases "ba_parent a")
    case None
    then show ?thesis using a fresh unfold by (simp add: left_over_def)
  next
    case (Some p)
    have "insert b visited \<inter> set (chain p as) = {}"
      using chain_distinct [OF 2(2), of b] 2(4) unfold Some by auto
    from 2(1) [OF fresh a Some 2(2) chain_known [OF 2(2) a Some] this] show ?thesis
      using a fresh unfold Some by (simp add: left_over_def)
  qed
qed

lemma charge_loop_goes:
  assumes "account_tree as" and "account_by_id b as \<noteq> None" and "visited \<inter> set (chain b as) = {}"
    and "\<forall>a \<in> set as. ba_id a \<in> set (chain b as) \<longrightarrow> may_charge delta a"
  shows "\<exists>as'. charge_loop delta visited (Some b) as = Inr as'"
  using assms
proof (induction delta visited "Some b" as arbitrary: b rule: charge_loop.induct)
  case (2 delta visited b as)
  obtain a where a: "account_by_id b as = Some a" using 2(3) by auto
  then have in_as: "a \<in> set as" "ba_id a = b" unfolding account_by_id_def by (auto dest: sel_SomeD)
  note unfold = chain_unfold [OF 2(2) a]
  then have fresh: "b \<notin> visited" using 2(4) by auto
  define new_spent where "new_spent = int (ba_spent a) + delta"
  define as1 where "as1 = upd (\<lambda>r. ba_id r = b \<and> ba_revision r = ba_revision a)
    (\<lambda>r. r\<lparr>ba_spent := nat new_spent, ba_revision := ba_revision r + 1\<rparr>) as"
  have ok: "may_charge delta a" using 2(5) in_as unfold by simp
  have range: "\<not> new_spent < 0" "\<not> (int (ba_limit a) < new_spent \<and> 0 < delta)" "\<not> int u64_max < new_spent"
      "\<not> i64_max < nat new_spent"
    using ok i64_max_less_u64_max by (auto simp: may_charge_def new_spent_def)
  have keyed: "keyed ba_id as" using 2(2) by (rule account_tree_keyed)
  have hit: "\<not> affected (\<lambda>r. ba_id r = b \<and> ba_revision r = ba_revision a) as \<noteq> 1"
    using affected_keyed [OF keyed, of b "\<lambda>r. ba_revision r = ba_revision a"] a by (simp add: account_by_id_def)
  have step: "charge_loop delta visited (Some b) as = charge_loop delta (insert b visited) (ba_parent a) as1"
    using fresh a range hit by (auto simp: Let_def as1_def new_spent_def)
  show ?case
  proof (cases "ba_parent a")
    case None
    then show ?thesis unfolding step by simp
  next
    case (Some p)
    have only: "r = a" if "r \<in> set as" "ba_id r = b" for r
      using keyed_same [OF keyed that(1) in_as(1)] that(2) in_as(2) by simp
    have shape: "shape as1 = shape as" by (auto simp: shape_def as1_def upd_def)
    then have tree: "account_tree as1" and chain1: "chain p as1 = chain p as"
      using 2(2) by (simp_all add: account_tree_def chain_def)
    have new: "b \<notin> set (chain p as)" using chain_distinct [OF 2(2), of b] unfold Some by simp
    have "map ba_id as1 = map ba_id as" unfolding as1_def by (rule map_upd_same) simp
    then have "ba_id ` set as1 = ba_id ` set as" by (metis list.set_map)
    then have "account_by_id p as1 \<noteq> None" using chain_known [OF 2(2) a Some] unfolding account_known by simp
    moreover have "insert b visited \<inter> set (chain p as1) = {}" using new 2(4) unfold Some by (simp add: chain1)
    moreover have "may_charge delta x" if "x \<in> set as1" "ba_id x \<in> set (chain p as1)" for x
    proof -
      from that(2) new have "ba_id x \<noteq> b" by (auto simp: chain1)
      with that(1) have "x \<in> set as" by (auto simp: as1_def upd_def split: if_splits)
      with that(2) 2(5) unfold Some show ?thesis by (simp add: chain1)
    qed
    ultimately show ?thesis
      using 2(1) [OF fresh a new_spent_def range(1,2,3,4) refl hit Some, folded as1_def] tree unfolding step Some by simp
  qed
qed

lemma charge_iff:
  assumes "account_tree as" and "account_by_id b as \<noteq> None" and "0 < n"
    and "\<forall>a \<in> set as. ba_spent a \<le> ba_limit a \<and> ba_limit a \<le> i64_max"
  shows "(\<exists>as'. charge_loop (int n) {} (Some b) as = Inr as') \<longleftrightarrow> (\<forall>a \<in> set as. ba_id a \<in> set (chain b as) \<longrightarrow> n \<le> ba_limit a - ba_spent a)"
proof -
  have each: "may_charge (int n) a \<longleftrightarrow> n \<le> ba_limit a - ba_spent a" if "a \<in> set as" for a
  proof -
    from assms(4) that have "ba_spent a \<le> ba_limit a" "ba_limit a \<le> i64_max" by auto
    with assms(3) show ?thesis by (auto simp: may_charge_def)
  qed
  show ?thesis
    using charge_loop_spec [OF _ assms(1), of "int n" "{}" b] charge_loop_goes [OF assms(1,2), of "{}" "int n"] each
    by (metis inf_bot_left)
qed

text \<open>
  C30. What the ledger says is left of a budget is exactly what it grants: in a consistent database
  the reading loop always returns, and a fresh reservation of a positive bound is accepted if and
  only if the bound is at most what it returned, whichever of the account and its ancestors is the
  tightest.
\<close>

theorem remaining_is_granted:
  assumes "budget_inv d" and "\<forall>a \<in> set (db_accounts d). ba_limit a \<le> i64_max"
    and "account_by_id (br_budget_id r) (db_accounts d) \<noteq> None" and "0 < br_bound r"
    and "reservation_by_operation (br_operation_id r) d = None" and "reservation_by_id (br_id r) d = None"
  shows "\<exists>left. remaining_loop {} (Some (br_budget_id r)) u64_max (db_accounts d) = Inr left \<and>
    (br_bound r \<le> i64_max \<longrightarrow> ((\<exists>row d'. reserve_body r f d = Inr (Commit row d')) \<longleftrightarrow> br_bound r \<le> left))"
proof -
  let ?as = "db_accounts d" and ?b = "br_budget_id r"
  have tree: "account_tree ?as" and exact: "\<forall>a \<in> set ?as. ba_spent a \<le> ba_limit a \<and> ba_limit a \<le> i64_max"
    using assms(1,2) by (auto simp: budget_inv_def accounts_exact_def)
  let ?left = "left_over ?as (chain ?b ?as) u64_max"
  have left: "remaining_loop {} (Some ?b) u64_max ?as = Inr ?left" by (rule remaining_loop_spec [OF tree assms(3)]) simp
  have "(\<exists>row d'. reserve_body r f d = Inr (Commit row d')) \<longleftrightarrow> br_bound r \<le> ?left" if fits: "br_bound r \<le> i64_max"
  proof -
    have ins: "\<exists>row. insert_reservation r d = Inr (True, d\<lparr>db_reservations := db_reservations d @ [row]\<rparr>) \<and> br_operation_id row = br_operation_id r"
      using fits assms(5,6)
      by (intro exI [of _ "\<lparr>br_id = br_id r, br_budget_id = br_budget_id r, br_operation_id = br_operation_id r,
        br_origin = br_origin r, br_bound = br_bound r, br_settled = None, br_state = Reserved, br_revision = 1\<rparr>"])
        (simp add: insert_reservation_def to_i64_def)
    have "(\<exists>row d'. reserve_body r f d = Inr (Commit row d')) \<longleftrightarrow> (\<exists>as'. charge_loop (int (br_bound r)) {} (Some ?b) ?as = Inr as')"
    proof -
      from ins obtain row where row: "insert_reservation r d = Inr (True, d\<lparr>db_reservations := db_reservations d @ [row]\<rparr>)"
        "br_operation_id row = br_operation_id r" by blast
      have found: "reservation_by_operation (br_operation_id r) (d\<lparr>db_reservations := db_reservations d @ [row], db_accounts := as\<rparr>) = Some row" for as
        using assms(5) row(2) by (simp add: reservation_by_operation_def sel_append sel_Cons)
      show ?thesis
      proof (cases "charge_loop (int (br_bound r)) {} (Some ?b) ?as")
        case (Inl e)
        then have "reserve_body r f d = Inl e" unfolding reserve_body_def row(1) by (simp add: charge_chain_def del: charge_loop.simps)
        with Inl show ?thesis by simp
      next
        case (Inr as)
        then have "reserve_body r f d = Inr (Commit row (d\<lparr>db_reservations := db_reservations d @ [row], db_accounts := as\<rparr>))"
          unfolding reserve_body_def row(1) by (simp add: charge_chain_def found del: charge_loop.simps)
        with Inr show ?thesis by blast
      qed
    qed
    also have "\<dots> \<longleftrightarrow> (\<forall>a \<in> set ?as. ba_id a \<in> set (chain ?b ?as) \<longrightarrow> br_bound r \<le> ba_limit a - ba_spent a)"
      by (rule charge_iff [OF tree assms(3,4) exact])
    also have "\<dots> \<longleftrightarrow> br_bound r \<le> ?left"
    proof -
      have "account_by_id i ?as = Some a \<longleftrightarrow> a \<in> set ?as \<and> ba_id a = i" for i a
        using sel_keyed [OF account_tree_keyed [OF tree], of a] unfolding account_by_id_def by (auto dest: sel_SomeD)
      then show ?thesis using fits i64_max_less_u64_max unfolding left_over_le by auto
    qed
    finally show ?thesis .
  qed
  with left show ?thesis by blast
qed

theorem remaining_is_granted_witness:
  "\<exists>left. remaining_loop {} (Some ''b'') u64_max [\<lparr>ba_id = ''b'', ba_parent = None, ba_limit = 9, ba_spent = 0, ba_revision = 1\<rparr>] = Inr left \<and>
    ((\<exists>row d'. reserve_body \<lparr>br_id = ''r'', br_budget_id = ''b'', br_operation_id = ''op'', br_origin = [], br_bound = 7,
      br_settled = None, br_state = Reserved, br_revision = 1\<rparr> \<lparr>hf_host_id = ''h'', hf_generation = 1\<rparr>
      (empty_db\<lparr>db_accounts := [\<lparr>ba_id = ''b'', ba_parent = None, ba_limit = 9, ba_spent = 0, ba_revision = 1\<rparr>]\<rparr>) =
      Inr (Commit row d')) \<longleftrightarrow> 7 \<le> left)"
proof -
  let ?a = "\<lparr>ba_id = ''b'', ba_parent = None, ba_limit = 9, ba_spent = 0, ba_revision = 1\<rparr>"
  let ?r = "\<lparr>br_id = ''r'', br_budget_id = ''b'', br_operation_id = ''op'', br_origin = [], br_bound = 7,
      br_settled = None, br_state = Reserved, br_revision = 1\<rparr>"
  let ?d = "empty_db\<lparr>db_accounts := [?a]\<rparr>"
  have "budget_inv ?d" by (simp add: budget_inv_def empty_db_def account_tree_def shape_def keyed_def accounts_exact_def ledger_def)
  moreover have "reservation_by_operation ''op'' ?d = None" "reservation_by_id ''r'' ?d = None"
    by (simp_all add: reservation_by_operation_def reservation_by_id_def empty_db_def)
  ultimately show ?thesis
    using remaining_is_granted [of ?d ?r "\<lparr>hf_host_id = ''h'', hf_generation = 1\<rparr>"]
    by (simp add: account_by_id_def sel_Cons i64_max_def del: remaining_loop.simps)
qed

end
