(* ===== verification/Session_Recovery.thy ===== *)
theory Session_Recovery imports Store_Histories Tool_Actions begin

text \<open>
  The recovery of a session (\<^verbatim>\<open>crates/harness-session/src/lib.rs\<close>): the fold of its journal into the
  working state, receipts and instruction texts, from the start, from a snapshot or from a kept
  cache, and the commands that commit an event with the state it leads to. The readers of stored
  JSON that \<^verbatim>\<open>serde\<close> derives and the check of an identifier are the argument \<open>cd\<close>; what the store
  answers for the newest snapshot is the argument \<open>latest\<close>.
\<close>

section \<open>The fold\<close>

record recovery_snapshot =
  rs_schema_version :: nat
  rs_working_state :: working_state
  rs_receipts :: "tool_receipt list"
  rs_texts :: "string list"
  rs_sources :: "ident option list"

record session_codecs =
  cd_input_id :: "string \<Rightarrow> bool"
  cd_instruction_id :: "string \<Rightarrow> bool"
  cd_execution_id :: "string \<Rightarrow> bool"
  cd_workspace :: "json \<Rightarrow> workspace_observation option"
  cd_plan_items :: "json \<Rightarrow> plan_item list option"
  cd_receipt :: "json \<Rightarrow> tool_receipt option"
  cd_source_ref :: "json \<Rightarrow> source_ref option"
  cd_snapshot :: "json \<Rightarrow> recovery_snapshot option"

text \<open>What a recovery accumulates; the sets and origins are \<^verbatim>\<open>FoldSeen\<close>.\<close>

record recovery_fold =
  rf_state :: "working_state option"
  rf_receipts :: "tool_receipt list"
  rf_texts :: "string list"
  rf_seen_receipts :: "ident set"
  rf_seen_pending :: "ident set"
  rf_sources :: "ident option list"

definition empty_fold :: recovery_fold where
  "empty_fold = \<lparr>rf_state = None, rf_receipts = [], rf_texts = [], rf_seen_receipts = {},
    rf_seen_pending = {}, rf_sources = []\<rparr>"

definition payload_field :: "event_envelope \<Rightarrow> string \<Rightarrow> json res" where
  "payload_field e k = ok_or InvalidPayload (map_of (ev_payload e) k)"

definition payload_string :: "event_envelope \<Rightarrow> string \<Rightarrow> string res" where
  "payload_string e k = ok_or InvalidPayload (Option.bind (map_of (ev_payload e) k) as_str)"

definition payload_value :: "(json \<Rightarrow> 'a option) \<Rightarrow> event_envelope \<Rightarrow> string \<Rightarrow> 'a res" where
  "payload_value parse e k = bind_res (payload_field e k) (\<lambda>v. ok_or InvalidPayload (parse v))"

definition valid_string :: "(string \<Rightarrow> bool) \<Rightarrow> event_envelope \<Rightarrow> string \<Rightarrow> string res" where
  "valid_string ok e k = bind_res (payload_string e k) (\<lambda>s. if ok s then Inr s else Inl InvalidPayload)"

definition event_source :: "event_envelope \<Rightarrow> source_ref" where
  "event_source e = \<lparr>sf_event_id = ev_event_id e, sf_sequence = ev_seq e, sf_content_hash = ev_payload_hash e\<rparr>"

definition initial_working_state ::
    "ident \<Rightarrow> ident \<Rightarrow> plan_item list \<Rightarrow> workspace_observation \<Rightarrow> source_ref \<Rightarrow> ident \<Rightarrow> nat \<Rightarrow> working_state" where
  "initial_working_state session task plan workspace source instruction sequence = \<lparr>
    ws_schema_version = p0_schema_version, ws_session_id = session, ws_task_id = task, ws_revision = sequence,
    ws_through_event_seq = sequence, ws_objective_ref = source, ws_acceptance_criteria_refs = [],
    ws_active_instruction_refs = [instruction], ws_decision_refs = [], ws_superseded_decision_refs = [],
    ws_plan_items = plan, ws_workspace = workspace, ws_changes = [], ws_checks = [],
    ws_pending_tool_calls = [], ws_children = [], ws_blockers = [], ws_pending_questions = [],
    ws_next_action_proposals = []\<rparr>"

definition advance_to :: "nat \<Rightarrow> working_state \<Rightarrow> working_state" where
  "advance_to n w = w\<lparr>ws_revision := n, ws_through_event_seq := n\<rparr>"

definition apply_decision :: "source_ref \<Rightarrow> source_ref option \<Rightarrow> working_state \<Rightarrow> working_state" where
  "apply_decision source supersedes w = (let
      w = (case supersedes of None \<Rightarrow> w
        | Some old \<Rightarrow> w\<lparr>ws_decision_refs := filter (\<lambda>r. r \<noteq> old) (ws_decision_refs w),
            ws_superseded_decision_refs := (if old \<in> set (ws_superseded_decision_refs w) then ws_superseded_decision_refs w
              else ws_superseded_decision_refs w @ [old])\<rparr>) in
    (advance_to (sf_sequence source) w)\<lparr>ws_decision_refs := ws_decision_refs w @ [source]\<rparr>)"

definition fold_input :: "session_codecs \<Rightarrow> ident \<Rightarrow> event_envelope \<Rightarrow> recovery_fold \<Rightarrow> recovery_fold res" where
  "fold_input cd task e f = (
    if rf_state f \<noteq> None then Inl IdempotencyConflict
    else bind_res (payload_string e ''task_id'') (\<lambda>t.
    if t \<noteq> task then Inl InvalidPayload
    else bind_res (valid_string (cd_input_id cd) e ''input_id'') (\<lambda>_.
    bind_res (valid_string (cd_instruction_id cd) e ''instruction_id'') (\<lambda>instruction.
    bind_res (payload_string e ''text'') (\<lambda>text.
    bind_res (payload_value (cd_workspace cd) e ''workspace'') (\<lambda>workspace.
    bind_res (payload_value (cd_plan_items cd) e ''initial_plan_items'') (\<lambda>plan.
    Inr (f\<lparr>rf_state := Some (initial_working_state (ev_session_id e) task plan workspace (event_source e) instruction (ev_seq e)),
      rf_texts := rf_texts f @ [text], rf_sources := rf_sources f @ [None]\<rparr>))))))))"

definition fold_receipt :: "session_codecs \<Rightarrow> event_envelope \<Rightarrow> recovery_fold \<Rightarrow> recovery_fold res" where
  "fold_receipt cd e f = (case rf_state f of None \<Rightarrow> Inl InvalidPayload
    | Some w \<Rightarrow> bind_res (payload_value (cd_receipt cd) e ''receipt'') (\<lambda>r.
      bind_res (tool_receipt_validate r) (\<lambda>_.
      if tr_task_id r \<noteq> ws_task_id w \<or> tr_observed_at_seq r \<noteq> ev_seq e then Inl InvalidPayload
      else if tr_tool_execution_id r \<in> rf_seen_receipts f then Inl IdempotencyConflict
      else Inr (f\<lparr>rf_state := Some ((advance_to (ev_seq e) w)\<lparr>ws_pending_tool_calls :=
          filter (\<lambda>p. pt_execution_id p \<noteq> tr_tool_execution_id r) (ws_pending_tool_calls w)\<rparr>),
        rf_receipts := rf_receipts f @ [r], rf_seen_receipts := insert (tr_tool_execution_id r) (rf_seen_receipts f),
        rf_seen_pending := rf_seen_pending f - {tr_tool_execution_id r}\<rparr>))))"

definition fold_intent :: "session_codecs \<Rightarrow> event_envelope \<Rightarrow> recovery_fold \<Rightarrow> recovery_fold res" where
  "fold_intent cd e f = (case rf_state f of None \<Rightarrow> Inl InvalidPayload
    | Some w \<Rightarrow> bind_res (valid_string (cd_execution_id cd) e ''tool_execution_id'') (\<lambda>x.
      bind_res (payload_string e ''reconciliation_hint'') (\<lambda>hint.
      if x \<in> rf_seen_pending f \<or> x \<in> rf_seen_receipts f then Inl IdempotencyConflict
      else Inr (f\<lparr>rf_state := Some ((advance_to (ev_seq e) w)\<lparr>ws_pending_tool_calls := ws_pending_tool_calls w @
          [\<lparr>pt_execution_id = x, pt_state = ToolPending, pt_reconciliation_hint = hint\<rparr>]\<rparr>),
        rf_seen_pending := insert x (rf_seen_pending f)\<rparr>))))"

definition fold_task_update :: "event_envelope \<Rightarrow> recovery_fold \<Rightarrow> recovery_fold res" where
  "fold_task_update e f = (case rf_state f of None \<Rightarrow> Inl InvalidPayload
    | Some w \<Rightarrow> bind_res (payload_string e ''note'') (\<lambda>note.
      Inr (f\<lparr>rf_state := Some ((advance_to (ev_seq e) w)\<lparr>ws_next_action_proposals := ws_next_action_proposals w @
        [\<lparr>na_authority = ev_authority e, na_description = note\<rparr>]\<rparr>)\<rparr>)))"

text \<open>The text of the decision that is superseded is taken out with its origin.\<close>

definition retire :: "source_ref option \<Rightarrow> recovery_fold \<Rightarrow> recovery_fold" where
  "retire supersedes f = (case supersedes of None \<Rightarrow> f
    | Some old \<Rightarrow> (let i = length (takeWhile (\<lambda>origin. origin \<noteq> Some (sf_event_id old)) (rf_sources f)) in
        if i < length (rf_sources f)
        then f\<lparr>rf_texts := take i (rf_texts f) @ drop (Suc i) (rf_texts f),
          rf_sources := take i (rf_sources f) @ drop (Suc i) (rf_sources f)\<rparr>
        else f))"

definition fold_decision :: "session_codecs \<Rightarrow> event_envelope \<Rightarrow> recovery_fold \<Rightarrow> recovery_fold res" where
  "fold_decision cd e f = (case rf_state f of None \<Rightarrow> Inl InvalidPayload
    | Some w \<Rightarrow> bind_res (payload_string e ''text'') (\<lambda>text.
      bind_res (case map_of (ev_payload e) ''supersedes'' of None \<Rightarrow> Inr None
        | Some v \<Rightarrow> bind_res (ok_or InvalidPayload (cd_source_ref cd v)) (\<lambda>r. Inr (Some r))) (\<lambda>supersedes.
      let g = retire supersedes f in
      Inr (g\<lparr>rf_state := Some (apply_decision (event_source e) supersedes w),
        rf_texts := rf_texts g @ [text], rf_sources := rf_sources g @ [Some (ev_event_id e)]\<rparr>))))"

definition fold_event :: "session_codecs \<Rightarrow> ident \<Rightarrow> event_envelope \<Rightarrow> recovery_fold \<Rightarrow> recovery_fold res" where
  "fold_event cd task e f = (
    if ev_event_type e = ''input.admitted'' then fold_input cd task e f
    else if ev_event_type e = ''receipt.recorded'' then fold_receipt cd e f
    else if ev_event_type e = ''tool.intent.recorded'' then fold_intent cd e f
    else if ev_event_type e = ''task.updated'' then fold_task_update e f
    else if ev_event_type e = ''decision.updated'' then fold_decision cd e f
    else if ev_continuity_critical e then Inl UnknownCriticalEvent
    else Inr (f\<lparr>rf_state := map_option (advance_to (ev_seq e)) (rf_state f)\<rparr>))"

fun fold_events :: "session_codecs \<Rightarrow> ident \<Rightarrow> ident \<Rightarrow> nat \<Rightarrow> recovery_fold \<Rightarrow> event_envelope list \<Rightarrow> (nat \<times> recovery_fold) res" where
  "fold_events cd session task n f [] = Inr (n, f)"
| "fold_events cd session task n f (e # es) = (
    if u64_max \<le> n then Inl SequenceConflict
    else if ev_session_id e \<noteq> session then Inl InvalidPayload
    else if ev_seq e \<noteq> Suc n then Inl SequenceConflict
    else bind_res (fold_event cd task e f) (\<lambda>f. fold_events cd session task (Suc n) f es))"

section \<open>Recovery\<close>

record snapshot_record =
  sn_snapshot_id :: ident
  sn_session_id :: ident
  sn_task_id :: ident
  sn_through_sequence :: nat
  sn_schema_version :: nat
  sn_content :: json
  sn_content_hash :: content_hash

definition restore_snapshot ::
    "session_codecs \<Rightarrow> canonical_hash \<Rightarrow> snapshot_record \<Rightarrow> ident \<Rightarrow> ident \<Rightarrow> recovery_snapshot res" where
  "restore_snapshot cd hash sn session task = (
    if sn_schema_version sn \<noteq> p0_schema_version then Inl SnapshotCorrupt
    else bind_res (hash (sn_content sn)) (\<lambda>h.
    if h \<noteq> sn_content_hash sn then Inl SnapshotCorrupt
    else bind_res (ok_or SnapshotCorrupt (cd_snapshot cd (sn_content sn))) (\<lambda>r.
    if rs_schema_version r \<noteq> p0_schema_version \<or> ws_session_id (rs_working_state r) \<noteq> session
      \<or> ws_task_id (rs_working_state r) \<noteq> task \<or> ws_through_event_seq (rs_working_state r) \<noteq> sn_through_sequence sn
    then Inl SnapshotCorrupt
    else if length (rs_sources r) \<noteq> length (rs_texts r) then Inl SnapshotCorrupt
    else bind_res (working_state_validate (rs_working_state r)) (\<lambda>_.
    bind_res (checks (map tool_receipt_validate (rs_receipts r))) (\<lambda>_. Inr r)))))"

text \<open>\<^verbatim>\<open>FoldSeen::seed\<close>: the duplicate sets are read off what was restored.\<close>

definition seed_fold :: "recovery_snapshot \<Rightarrow> recovery_fold" where
  "seed_fold r = \<lparr>rf_state = Some (rs_working_state r), rf_receipts = rs_receipts r, rf_texts = rs_texts r,
    rf_seen_receipts = set (map tr_tool_execution_id (rs_receipts r)),
    rf_seen_pending = set (map pt_execution_id (ws_pending_tool_calls (rs_working_state r))),
    rf_sources = rs_sources r\<rparr>"

record recovery_start =
  st_fold :: recovery_fold
  st_through :: nat
  st_snapshot :: "nat option"
  st_diagnostic :: "error_code option"

definition seed_recovery ::
    "session_codecs \<Rightarrow> canonical_hash \<Rightarrow> ident \<Rightarrow> ident \<Rightarrow> snapshot_record option res \<Rightarrow> recovery_start res" where
  "seed_recovery cd hash session task latest = (let
      nothing = (\<lambda>diagnostic. \<lparr>st_fold = empty_fold, st_through = 0, st_snapshot = None, st_diagnostic = diagnostic\<rparr>) in
    case latest of
      Inr (Some sn) \<Rightarrow> (case restore_snapshot cd hash sn session task of
          Inr r \<Rightarrow> Inr \<lparr>st_fold = seed_fold r, st_through = sn_through_sequence sn,
            st_snapshot = Some (sn_through_sequence sn), st_diagnostic = None\<rparr>
        | Inl e \<Rightarrow> Inr (nothing (Some e)))
    | Inr None \<Rightarrow> Inr (nothing None)
    | Inl e \<Rightarrow> if e = SnapshotCorrupt then Inr (nothing (Some e)) else Inl e)"

record recovery_cache =
  rc_session_id :: ident
  rc_task_id :: ident
  rc_start :: recovery_start

record recovery_view =
  rv_working_state :: working_state
  rv_receipts :: "tool_receipt list"
  rv_texts :: "string list"
  rv_snapshot_sequence :: "nat option"
  rv_replayed_through :: nat
  rv_diagnostic :: "error_code option"
  rv_pending_count :: nat

definition recovery_view_of :: "recovery_start \<Rightarrow> recovery_view res" where
  "recovery_view_of st = (case rf_state (st_fold st) of None \<Rightarrow> Inl InvalidPayload
    | Some w \<Rightarrow> (let unknown = length (filter (\<lambda>r. tr_outcome_state r = ToolStateUnknown) (rf_receipts (st_fold st))) in
        Inr \<lparr>rv_working_state = w, rv_receipts = rf_receipts (st_fold st), rv_texts = rf_texts (st_fold st),
          rv_snapshot_sequence = st_snapshot st, rv_replayed_through = ws_through_event_seq w,
          rv_diagnostic = st_diagnostic st,
          rv_pending_count = saturating_add u64_max (length (ws_pending_tool_calls w)) unknown\<rparr>))"

text \<open>Where a recovery starts: at what the cache kept, if it is of this session and not ahead of its journal.\<close>

definition recovery_from ::
    "session_codecs \<Rightarrow> canonical_hash \<Rightarrow> ident \<Rightarrow> session_row \<Rightarrow> snapshot_record option res \<Rightarrow> recovery_cache option \<Rightarrow> recovery_start res" where
  "recovery_from cd hash session row latest cache = (let
      fresh = bind_res (seed_recovery cd hash session (ss_task_id row) latest) (\<lambda>st.
        if ss_next_sequence row - 1 < st_through st then Inl SnapshotCorrupt else Inr st) in
    case cache of None \<Rightarrow> fresh
    | Some c \<Rightarrow> if rc_session_id c = session \<and> rc_task_id c = ss_task_id row \<and> st_through (rc_start c) \<le> ss_next_sequence row - 1
        then Inr (rc_start c) else fresh)"

definition recover_cached ::
    "session_codecs \<Rightarrow> canonical_hash \<Rightarrow> ident \<Rightarrow> db \<Rightarrow> snapshot_record option res \<Rightarrow> recovery_cache option \<Rightarrow>
      recovery_view res \<times> recovery_cache option" where
  "recover_cached cd hash session d latest cache = (case session_by_id session d of
      None \<Rightarrow> (Inl InvalidPayload, cache)
    | Some row \<Rightarrow> if ss_next_sequence row = 0 then (Inl StorageWriteFailed, cache)
        else (case bind_res (recovery_from cd hash session row latest cache) (\<lambda>st.
              bind_res (load_events_after hash session (st_through st) d) (\<lambda>es.
              bind_res (fold_events cd session (ss_task_id row) (st_through st) (st_fold st) es) (\<lambda>(n, f).
              if n \<noteq> ss_next_sequence row - 1 then Inl SequenceConflict
              else Inr (st\<lparr>st_fold := f, st_through := n\<rparr>)))) of
            Inl e \<Rightarrow> (Inl e, None)
          | Inr st \<Rightarrow> (recovery_view_of st, Some \<lparr>rc_session_id = session, rc_task_id = ss_task_id row, rc_start = st\<rparr>)))"

definition recover :: "session_codecs \<Rightarrow> canonical_hash \<Rightarrow> ident \<Rightarrow> db \<Rightarrow> snapshot_record option res \<Rightarrow> recovery_view res" where
  "recover cd hash session d latest = fst (recover_cached cd hash session d latest None)"

section \<open>What a fold keeps\<close>

text \<open>The sets of \<^verbatim>\<open>FoldSeen\<close> say what the state and the receipts hold, and every text has its origin.\<close>

definition fold_ok :: "recovery_fold \<Rightarrow> bool" where
  "fold_ok f \<longleftrightarrow> rf_seen_receipts f = set (map tr_tool_execution_id (rf_receipts f)) \<and>
    rf_seen_pending f = (case rf_state f of None \<Rightarrow> {} | Some w \<Rightarrow> set (map pt_execution_id (ws_pending_tool_calls w))) \<and>
    length (rf_sources f) = length (rf_texts f)"

lemma empty_fold_ok: "fold_ok empty_fold"
  by (simp add: fold_ok_def empty_fold_def)

lemma retire_keeps:
  "rf_state (retire r f) = rf_state f" "rf_receipts (retire r f) = rf_receipts f"
  "rf_seen_receipts (retire r f) = rf_seen_receipts f" "rf_seen_pending (retire r f) = rf_seen_pending f"
  "length (rf_sources f) = length (rf_texts f) \<Longrightarrow> length (rf_sources (retire r f)) = length (rf_texts (retire r f))"
  by (simp_all add: retire_def Let_def split: option.split)

lemma advance_to_sel [simp]: "ws_pending_tool_calls (advance_to n w) = ws_pending_tool_calls w"
  "ws_through_event_seq (advance_to n w) = n"
  by (simp_all add: advance_to_def)

lemma apply_decision_sel [simp]: "ws_pending_tool_calls (apply_decision r old w) = ws_pending_tool_calls w"
  "ws_through_event_seq (apply_decision r old w) = sf_sequence r"
  by (simp_all add: apply_decision_def Let_def advance_to_def split: option.split)

lemma fold_event_cases:
  assumes "fold_event cd task e f = Inr g"
  obtains "fold_input cd task e f = Inr g" | "fold_receipt cd e f = Inr g" | "fold_intent cd e f = Inr g"
    | "fold_task_update e f = Inr g" | "fold_decision cd e f = Inr g"
    | "g = f\<lparr>rf_state := map_option (advance_to (ev_seq e)) (rf_state f)\<rparr>"
proof -
  have chain: "(if a then p else if b then q else if c then r else if i then s else if j then t else if k then Inl x else Inr z) = Inr g \<Longrightarrow>
      p = Inr g \<or> q = Inr g \<or> r = Inr g \<or> s = Inr g \<or> t = Inr g \<or> z = g"
    for a b c i j k and p q r s t :: "recovery_fold res" and x z
    by (simp split: if_split_asm)
  from chain [OF assms [unfolded fold_event_def]] that show thesis by metis
qed

lemma fold_event_ok:
  assumes "fold_event cd task e f = Inr g" and "fold_ok f"
  shows "fold_ok g"
  using assms(1)
proof (cases rule: fold_event_cases)
  case 1
  with assms(2) show ?thesis
    by (auto simp: fold_input_def fold_ok_def bind_res_Inr initial_working_state_def split: if_splits)
next
  case 2
  with assms(2) show ?thesis
    by (auto simp: fold_receipt_def fold_ok_def bind_res_Inr split: option.splits if_splits)
next
  case 3
  with assms(2) show ?thesis
    by (auto simp: fold_intent_def fold_ok_def bind_res_Inr split: option.splits if_splits)
next
  case 4
  with assms(2) show ?thesis
    by (auto simp: fold_task_update_def fold_ok_def bind_res_Inr split: option.splits)
next
  case 5
  with assms(2) show ?thesis
    by (auto simp: fold_decision_def fold_ok_def bind_res_Inr Let_def retire_keeps split: option.splits)
next
  case 6
  with assms(2) show ?thesis by (auto simp: fold_ok_def split: option.splits)
qed

lemma fold_events_ok: "fold_events cd session task n f es = Inr (m, g) \<Longrightarrow> fold_ok f \<Longrightarrow> fold_ok g \<and> m = n + length es"
proof (induction es arbitrary: n f)
  case (Cons e es)
  then obtain h where "fold_event cd task e f = Inr h" and h: "fold_events cd session task (Suc n) h es = Inr (m, g)"
    by (auto simp: bind_res_Inr split: if_splits)
  with Cons.IH [OF h] Cons.prems(2) fold_event_ok show ?case by fastforce
qed simp

lemma fold_events_append:
  "fold_events cd session task n f (es @ es') =
    bind_res (fold_events cd session task n f es) (\<lambda>(m, g). fold_events cd session task m g es')"
proof (induction es arbitrary: n f)
  case (Cons e es)
  then show ?case by (cases "fold_event cd task e f") auto
qed simp

text \<open>Every event is the newest of the state it leads to.\<close>

lemma fold_event_through:
  assumes "fold_event cd task e f = Inr g" "rf_state g = Some w"
  shows "ws_through_event_seq w = ev_seq e"
  using assms(1)
proof (cases rule: fold_event_cases)
  case 1
  with assms(2) show ?thesis by (auto simp: fold_input_def bind_res_Inr initial_working_state_def split: if_splits)
next
  case 2
  with assms(2) show ?thesis by (auto simp: fold_receipt_def bind_res_Inr split: option.splits if_splits)
next
  case 3
  with assms(2) show ?thesis by (auto simp: fold_intent_def bind_res_Inr split: option.splits if_splits)
next
  case 4
  with assms(2) show ?thesis by (auto simp: fold_task_update_def bind_res_Inr split: option.splits)
next
  case 5
  with assms(2) show ?thesis by (auto simp: fold_decision_def bind_res_Inr Let_def event_source_def split: option.splits)
next
  case 6
  with assms(2) show ?thesis by auto
qed

section \<open>Recovery is a replay\<close>

text \<open>A start is right when it is what the journal folds to so far; it stays right as the journal grows.\<close>

definition replay_to :: "session_codecs \<Rightarrow> ident \<Rightarrow> ident \<Rightarrow> db \<Rightarrow> nat \<Rightarrow> recovery_fold \<Rightarrow> bool" where
  "replay_to cd session task d n f \<longleftrightarrow>
    fold_events cd session task 0 empty_fold (take n (journal_tail session 0 d)) = Inr (n, f)"

definition cache_right :: "session_codecs \<Rightarrow> db \<Rightarrow> recovery_cache \<Rightarrow> bool" where
  "cache_right cd d c \<longleftrightarrow>
    replay_to cd (rc_session_id c) (rc_task_id c) d (st_through (rc_start c)) (st_fold (rc_start c))"

definition latest_right ::
    "session_codecs \<Rightarrow> canonical_hash \<Rightarrow> db \<Rightarrow> ident \<Rightarrow> ident \<Rightarrow> snapshot_record option res \<Rightarrow> bool" where
  "latest_right cd hash d session task latest \<longleftrightarrow> (case latest of
      Inl e \<Rightarrow> e = SnapshotCorrupt
    | Inr None \<Rightarrow> True
    | Inr (Some sn) \<Rightarrow> (case restore_snapshot cd hash sn session task of
        Inl _ \<Rightarrow> True | Inr r \<Rightarrow> replay_to cd session task d (sn_through_sequence sn) (seed_fold r)))"

lemma replay_to_length: "replay_to cd session task d n f \<Longrightarrow> n \<le> length (journal_tail session 0 d) \<and> fold_ok f"
  unfolding replay_to_def using fold_events_ok [OF _ empty_fold_ok] by fastforce

lemma journal_tail_empty: "journal_inv hash d \<Longrightarrow> session_by_id s d = None \<Longrightarrow> journal_tail s n d = []"
proof -
  assume "journal_inv hash d" "session_by_id s d = None"
  then have "er_session_id r \<noteq> s" if "r \<in> set (db_events d)" for r using that by (auto simp: journal_inv_def)
  then have "filter (\<lambda>r. er_session_id r = s \<and> n < er_sequence r) (db_events d) = []" by (auto simp: filter_empty_conv)
  then show "journal_tail s n d = []" by (simp only: journal_tail_def) simp
qed

lemma journal_tail_grows:
  assumes "journal_inv hash d" "journal_inv hash d'" "journal_later d d'"
  shows "\<exists>more. journal_tail s 0 d' = journal_tail s 0 d @ more"
proof (cases "session_by_id s d")
  case None
  then show ?thesis using journal_tail_empty [OF assms(1)] by simp
next
  case row: (Some r)
  from assms(3) obtain es where es: "db_events d' = db_events d @ es" by (auto simp: journal_later_def)
  show ?thesis
  proof (cases "session_by_id s d'")
    case None
    then have "er_session_id r \<noteq> s" if "r \<in> set (db_events d)" for r
      using that assms(2) None by (auto simp: journal_inv_def es dest!: bspec [of "set (db_events d) \<union> set es" _ r])
    then have "filter (\<lambda>r. er_session_id r = s \<and> 0 < er_sequence r) (db_events d) = []" by (auto simp: filter_empty_conv)
    then have "journal_tail s 0 d = []" by (simp only: journal_tail_def) simp
    then show ?thesis by simp
  next
    case (Some r')
    from journal_tail_rows(1) [OF assms(1) row] journal_tail_rows(1) [OF assms(2) Some] show ?thesis by (simp add: es)
  qed
qed

lemma replay_to_later:
  assumes "reachable_db hash d" "(db_step hash)\<^sup>*\<^sup>* d d'" "replay_to cd session task d n f"
  shows "replay_to cd session task d' n f"
proof -
  have inv: "db_inv hash d" "db_inv hash d'"
    using database.reach_inv [OF assms(1)] database.inv_run [OF assms(2)] by auto
  with db_run_later [OF assms(2)] obtain more where
      "journal_tail session 0 d' = journal_tail session 0 d @ more"
    using journal_tail_grows [of hash d d' session] by (auto simp: db_inv_def db_later_def)
  with assms(3) replay_to_length [OF assms(3)] show ?thesis by (simp add: replay_to_def)
qed

lemma recovery_from_right:
  assumes "case cache of None \<Rightarrow> True | Some c \<Rightarrow> cache_right cd d c" "latest_right cd hash d session (ss_task_id row) latest"
    and "length (journal_tail session 0 d) = ss_next_sequence row - 1"
  shows "\<exists>st. recovery_from cd hash session row latest cache = Inr st \<and>
    replay_to cd session (ss_task_id row) d (st_through st) (st_fold st)"
proof -
  have zero: "replay_to cd session (ss_task_id row) d 0 empty_fold" by (simp add: replay_to_def)
  have "\<exists>st. seed_recovery cd hash session (ss_task_id row) latest = Inr st \<and>
      replay_to cd session (ss_task_id row) d (st_through st) (st_fold st)"
    using assms(2) zero unfolding latest_right_def seed_recovery_def Let_def
    by (auto split: sum.splits option.splits)
  then obtain st where st: "seed_recovery cd hash session (ss_task_id row) latest = Inr st"
      "replay_to cd session (ss_task_id row) d (st_through st) (st_fold st)" by blast
  from replay_to_length [OF st(2)] assms(3) have "\<not> ss_next_sequence row - 1 < st_through st" by simp
  with st assms(1) show ?thesis
    by (auto simp: recovery_from_def cache_right_def Let_def split: option.splits)
qed

text \<open>A view without the way it was reached.\<close>

definition replayed :: "recovery_view \<Rightarrow> recovery_view" where
  "replayed v = v\<lparr>rv_snapshot_sequence := None, rv_diagnostic := None\<rparr>"

lemma recover_cached_replay:
  assumes "reachable_db hash d" "session_by_id session d = Some row" "ss_next_sequence row \<le> i64_max"
    and "case cache of None \<Rightarrow> True | Some c \<Rightarrow> cache_right cd d c" "latest_right cd hash d session (ss_task_id row) latest"
  shows "\<exists>st. recover_cached cd hash session d latest cache =
    (case fold_events cd session (ss_task_id row) 0 empty_fold (journal_tail session 0 d) of
      Inl e \<Rightarrow> (Inl e, None)
    | Inr (n, f) \<Rightarrow> (recovery_view_of (st\<lparr>st_fold := f, st_through := n\<rparr>),
        Some \<lparr>rc_session_id = session, rc_task_id = ss_task_id row, rc_start = st\<lparr>st_fold := f, st_through := n\<rparr>\<rparr>))"
proof -
  let ?js = "journal_tail session 0 d" and ?task = "ss_task_id row"
  have inv: "journal_inv hash d" using database.reach_inv [OF assms(1)] by (simp add: db_inv_def)
  have pos: "0 < ss_next_sequence row" using inv session_by_idD [OF assms(2)] by (auto simp: journal_inv_def)
  have "length (map ev_seq ?js) = ss_next_sequence row - 1"
    unfolding journal_tail_spec(1) [OF inv assms(2)] by simp
  then have len: "length ?js = ss_next_sequence row - 1" by simp
  from recovery_from_right [OF assms(4,5) len] obtain st where
      st: "recovery_from cd hash session row latest cache = Inr st"
      and right: "replay_to cd session ?task d (st_through st) (st_fold st)" by blast
  have le: "st_through st \<le> i64_max" using replay_to_length [OF right] len assms(3) pos by linarith
  have rest: "journal_tail session (st_through st) d = drop (st_through st) ?js"
    using journal_tail_drop [OF inv assms(2), of 0 "st_through st"] by simp
  have "fold_events cd session ?task 0 empty_fold ?js =
      fold_events cd session ?task (st_through st) (st_fold st) (journal_tail session (st_through st) d)"
    using fold_events_append [of cd session ?task 0 empty_fold "take (st_through st) ?js" "drop (st_through st) ?js"] right
    by (simp add: replay_to_def rest)
  moreover have "n = ss_next_sequence row - 1" if "fold_events cd session ?task 0 empty_fold ?js = Inr (n, f)" for n f
    using fold_events_ok [OF that empty_fold_ok] len by simp
  ultimately show ?thesis using pos
    by (intro exI [of _ st])
      (auto simp: recover_cached_def assms(2) st load_events_ok(1) [OF inv assms(2) le] split: sum.splits)
qed

text \<open>
  C20. However a session is recovered, it is the replay of its whole journal: with a cache kept by
  an earlier recovery or not, from the newest snapshot, a damaged one or none, and whatever was
  committed since, the state, the receipts, the texts and the error, if there is one, are those of
  a recovery that reads every event; and the cache it leaves is right for the next one.
\<close>

theorem recovery_is_replay:
  assumes "reachable_db hash d0" "(db_step hash)\<^sup>*\<^sup>* d0 d" "session_by_id session d = Some row" "ss_next_sequence row \<le> i64_max"
    and "case cache of None \<Rightarrow> True | Some c \<Rightarrow> cache_right cd d0 c" "latest_right cd hash d0 session (ss_task_id row) latest"
  shows "bind_res (fst (recover_cached cd hash session d latest cache)) (\<lambda>v. Inr (replayed v)) =
      bind_res (recover cd hash session d (Inr None)) (\<lambda>v. Inr (replayed v)) \<and>
    (case snd (recover_cached cd hash session d latest cache) of None \<Rightarrow> True | Some c \<Rightarrow> cache_right cd d c)"
proof -
  have reach: "reachable_db hash d" by (rule reach_run [OF assms(2,1)])
  note later = replay_to_later [OF assms(1,2)]
  have "case cache of None \<Rightarrow> True | Some c \<Rightarrow> cache_right cd d c"
    using assms(5) later by (auto simp: cache_right_def split: option.splits)
  moreover have "latest_right cd hash d session (ss_task_id row) latest"
    using assms(6) later by (auto simp: latest_right_def split: sum.splits option.splits)
  ultimately obtain st where st: "recover_cached cd hash session d latest cache =
      (case fold_events cd session (ss_task_id row) 0 empty_fold (journal_tail session 0 d) of
        Inl e \<Rightarrow> (Inl e, None)
      | Inr (n, f) \<Rightarrow> (recovery_view_of (st\<lparr>st_fold := f, st_through := n\<rparr>),
          Some \<lparr>rc_session_id = session, rc_task_id = ss_task_id row, rc_start = st\<lparr>st_fold := f, st_through := n\<rparr>\<rparr>))"
    using recover_cached_replay [OF reach assms(3,4)] by blast
  obtain st' where st': "recover_cached cd hash session d (Inr None) None =
      (case fold_events cd session (ss_task_id row) 0 empty_fold (journal_tail session 0 d) of
        Inl e \<Rightarrow> (Inl e, None)
      | Inr (n, f) \<Rightarrow> (recovery_view_of (st'\<lparr>st_fold := f, st_through := n\<rparr>),
          Some \<lparr>rc_session_id = session, rc_task_id = ss_task_id row, rc_start = st'\<lparr>st_fold := f, st_through := n\<rparr>\<rparr>))"
    using recover_cached_replay [OF reach assms(3,4), where cd = cd and cache = None and latest = "Inr None"] by (auto simp: latest_right_def)
  show ?thesis
  proof (cases "fold_events cd session (ss_task_id row) 0 empty_fold (journal_tail session 0 d)")
    case (Inl e)
    then show ?thesis by (simp add: st st' recover_def)
  next
    case (Inr p)
    obtain n f where p: "p = (n, f)" by (cases p)
    have "bind_res (recovery_view_of (st\<lparr>st_fold := f, st_through := n\<rparr>)) (\<lambda>v. Inr (replayed v)) =
        bind_res (recovery_view_of (st'\<lparr>st_fold := f, st_through := n\<rparr>)) (\<lambda>v. Inr (replayed v))"
      by (simp add: recovery_view_of_def replayed_def Let_def split: option.split)
    moreover have "n = length (journal_tail session 0 d)" using fold_events_ok [OF Inr [unfolded p] empty_fold_ok] by simp
    ultimately show ?thesis using Inr by (simp add: st st' p recover_def cache_right_def replay_to_def)
  qed
qed

section \<open>Snapshots\<close>

text \<open>\<^verbatim>\<open>write_snapshot\<close>: the record it hands to the store; \<open>en\<close> is the JSON of what is written.\<close>

definition snapshot_to_write ::
    "session_codecs \<Rightarrow> (recovery_snapshot \<Rightarrow> json) \<Rightarrow> canonical_hash \<Rightarrow> ident \<Rightarrow> ident \<Rightarrow> db \<Rightarrow>
      snapshot_record option res \<Rightarrow> snapshot_record res" where
  "snapshot_to_write cd en hash new_id session d latest = (case recover_cached cd hash session d latest None of
      (Inl e, _) \<Rightarrow> Inl e
    | (Inr v, cache) \<Rightarrow> (let content = en \<lparr>rs_schema_version = p0_schema_version, rs_working_state = rv_working_state v,
          rs_receipts = rv_receipts v, rs_texts = rv_texts v,
          rs_sources = (case cache of Some c \<Rightarrow> rf_sources (st_fold (rc_start c)) | None \<Rightarrow> [])\<rparr> in
        bind_res (hash content) (\<lambda>h. Inr \<lparr>sn_snapshot_id = new_id, sn_session_id = session,
          sn_task_id = ws_task_id (rv_working_state v), sn_through_sequence = rv_replayed_through v,
          sn_schema_version = p0_schema_version, sn_content = content, sn_content_hash = h\<rparr>)))"

lemma fold_events_through:
  "fold_events cd session task n f es = Inr (m, g) \<Longrightarrow> es \<noteq> [] \<Longrightarrow> rf_state g = Some w \<Longrightarrow> ws_through_event_seq w = m"
proof (induction es arbitrary: n f)
  case (Cons e es)
  then obtain h where h: "ev_seq e = Suc n" "fold_event cd task e f = Inr h"
      "fold_events cd session task (Suc n) h es = Inr (m, g)"
    by (auto simp: bind_res_Inr split: if_splits)
  then show ?case
    by (cases "es = []") (use Cons.IH [OF h(3)] Cons.prems fold_event_through [OF h(2)] h in auto)
qed simp

lemma seed_of_fold:
  assumes "fold_ok f" "rf_state f = Some w"
  shows "seed_fold \<lparr>rs_schema_version = n, rs_working_state = w, rs_receipts = rf_receipts f, rs_texts = rf_texts f,
    rs_sources = rf_sources f\<rparr> = f"
  using assms by (cases f) (simp add: seed_fold_def fold_ok_def)

text \<open>
  C21. A snapshot that was written is right: what is restored from it, if it is restored at all, is
  what the journal had folded to when it was written, so the recoveries after it still replay the
  journal.
\<close>

theorem written_snapshot_right:
  assumes "reachable_db hash d" "session_by_id session d = Some row" "ss_next_sequence row \<le> i64_max"
    and "latest_right cd hash d session (ss_task_id row) latest"
    and "snapshot_to_write cd en hash new_id session d latest = Inr sn"
    and "\<And>r. sn_content sn = en r \<Longrightarrow> cd_snapshot cd (sn_content sn) = Some r"
  shows "latest_right cd hash d session (ss_task_id row) (Inr (Some sn))"
proof -
  let ?js = "journal_tail session 0 d"
  obtain st where st: "recover_cached cd hash session d latest None =
      (case fold_events cd session (ss_task_id row) 0 empty_fold ?js of
        Inl e \<Rightarrow> (Inl e, None)
      | Inr (n, f) \<Rightarrow> (recovery_view_of (st\<lparr>st_fold := f, st_through := n\<rparr>),
          Some \<lparr>rc_session_id = session, rc_task_id = ss_task_id row, rc_start = st\<lparr>st_fold := f, st_through := n\<rparr>\<rparr>))"
    using recover_cached_replay [OF assms(1-3), where cache = None and cd = cd] assms(4) by auto
  with assms(5) obtain n f where f: "fold_events cd session (ss_task_id row) 0 empty_fold ?js = Inr (n, f)"
    by (auto simp: snapshot_to_write_def split: sum.splits)
  then obtain w where w: "rf_state f = Some w"
    using assms(5) by (auto simp: snapshot_to_write_def st recovery_view_of_def split: option.splits)
  let ?r = "\<lparr>rs_schema_version = p0_schema_version, rs_working_state = w, rs_receipts = rf_receipts f,
    rs_texts = rf_texts f, rs_sources = rf_sources f\<rparr>"
  from assms(5) have sn: "sn_content sn = en ?r" "sn_through_sequence sn = ws_through_event_seq w"
    by (auto simp: snapshot_to_write_def st f recovery_view_of_def w Let_def bind_res_Inr)
  note ok = fold_events_ok [OF f empty_fold_ok]
  have "?js \<noteq> []" using f w by (auto simp: empty_fold_def)
  with fold_events_through [OF f _ w] have "ws_through_event_seq w = n" by simp
  with ok f seed_of_fold [OF _ w] have "replay_to cd session (ss_task_id row) d (sn_through_sequence sn) (seed_fold ?r)"
    by (simp add: replay_to_def sn)
  moreover have "restore_snapshot cd hash sn session (ss_task_id row) = Inr r \<Longrightarrow> r = ?r" for r
    using assms(6) [OF sn(1)] by (auto simp: restore_snapshot_def bind_res_Inr split: if_splits)
  ultimately show ?thesis by (auto simp: latest_right_def split: sum.split)
qed

section \<open>Events committed with their state\<close>

text \<open>
  \<^verbatim>\<open>sequence_after\<close>, \<^verbatim>\<open>record_decision\<close> and \<^verbatim>\<open>append_runtime_event\<close> up to the commit, which is
  \<open>commit_projected_event\<close>: \<open>w\<close> is the projection that was read, \<open>next\<close> the sequence that was read
  after it, \<open>en\<close> the JSON of a source reference.
\<close>

definition sequence_after :: "nat \<Rightarrow> working_state \<Rightarrow> nat res" where
  "sequence_after next w = (if u64_max \<le> ws_through_event_seq w \<or> next \<noteq> ws_through_event_seq w + 1
    then Inl SequenceConflict else Inr next)"

definition session_event :: "string \<Rightarrow> string \<Rightarrow> ident \<Rightarrow> ident \<Rightarrow> nat \<Rightarrow> source_authority \<Rightarrow> bool \<Rightarrow>
    (string \<times> json) list \<Rightarrow> content_hash \<Rightarrow> event_envelope" where
  "session_event version kind event_id session n authority critical payload h = \<lparr>ev_schema_version = p0_schema_version,
    ev_event_id = event_id, ev_session_id = session, ev_seq = n, ev_event_type = kind,
    ev_producer = \<lparr>pi_plugin_id = ''p2.session'', pi_implementation_version = version\<rparr>, ev_authority = authority,
    ev_correlation_id = None, ev_causation_id = None, ev_continuity_critical = critical, ev_payload = payload,
    ev_payload_hash = h\<rparr>"

definition decision_commit ::
    "(source_ref \<Rightarrow> json) \<Rightarrow> canonical_hash \<Rightarrow> string \<Rightarrow> ident \<Rightarrow> ident \<Rightarrow> ident \<Rightarrow> string \<Rightarrow> source_ref option \<Rightarrow>
      working_state option \<Rightarrow> nat \<Rightarrow> (event_envelope \<times> working_state \<times> source_work_marker) res" where
  "decision_commit en hash version event_id session task text supersedes projection next = (
    if blank text then Inl InvalidPayload
    else case projection of None \<Rightarrow> Inl InvalidPayload
    | Some w \<Rightarrow>
      if ws_session_id w \<noteq> session then Inl IdempotencyConflict
      else if (case supersedes of None \<Rightarrow> False | Some old \<Rightarrow> old \<notin> set (ws_decision_refs w)) then Inl InvalidPayload
      else bind_res (sequence_after next w) (\<lambda>n.
        let payload = [(''task_id'', JStr task), (''text'', JStr text)] @
          (case supersedes of None \<Rightarrow> [] | Some old \<Rightarrow> [(''supersedes'', en old)]) in
        bind_res (hash (JObj payload)) (\<lambda>h.
        let e = session_event version ''decision.updated'' event_id session n AuthUser True payload h in
        Inr (e, apply_decision (event_source e) supersedes w,
          \<lparr>mk_marker_id = ''decision:'' @ decimal n, mk_event_id = event_id, mk_sequence = n,
            mk_kind = ''decision_update'', mk_status = ''committed''\<rparr>))))"

definition runtime_event_commit ::
    "canonical_hash \<Rightarrow> string \<Rightarrow> ident \<Rightarrow> ident \<Rightarrow> string \<Rightarrow> (string \<times> json) list \<Rightarrow> bool \<Rightarrow>
      working_state option \<Rightarrow> nat \<Rightarrow> (event_envelope \<times> working_state \<times> source_work_marker) res" where
  "runtime_event_commit hash version event_id session kind payload critical projection next = (
    case projection of None \<Rightarrow> Inl InvalidPayload
    | Some w \<Rightarrow>
      if ws_session_id w \<noteq> session then Inl IdempotencyConflict
      else bind_res (sequence_after next w) (\<lambda>n.
        bind_res (hash (JObj payload)) (\<lambda>h.
        let e = session_event version kind event_id session n AuthRuntimeObserved critical payload h in
        Inr (e, advance_to n w, \<lparr>mk_marker_id = ''runtime:'' @ event_id, mk_event_id = event_id, mk_sequence = n,
          mk_kind = ''runtime_event'', mk_status = ''committed''\<rparr>))))"

text \<open>
  C22. What a decision commits as the task's state is what its event folds to: if the projection it
  read is the state the journal folds to, so is the one it stores, and of the texts a recovery
  returns that of the superseded decision is gone and the new one is the last.
\<close>

theorem decision_projected:
  assumes "decision_commit en hash version event_id session task text supersedes (rf_state f) next = Inr (e, w, m)"
    and "\<And>old. supersedes = Some old \<Longrightarrow> cd_source_ref cd (en old) = Some old"
  shows "\<exists>g. fold_event cd task e f = Inr g \<and> rf_state g = Some w \<and> rf_texts g = rf_texts (retire supersedes f) @ [text] \<and>
    rf_receipts g = rf_receipts f"
proof -
  obtain w0 n h where w0: "rf_state f = Some w0" and w: "w = apply_decision (event_source e) supersedes w0"
      and e: "e = session_event version ''decision.updated'' event_id session n AuthUser True
        ([(''task_id'', JStr task), (''text'', JStr text)] @ (case supersedes of None \<Rightarrow> [] | Some old \<Rightarrow> [(''supersedes'', en old)])) h"
    using assms(1) by (auto simp: decision_commit_def bind_res_Inr Let_def split: option.splits if_splits)
  have kind: "fold_event cd task e f = fold_decision cd e f" by (simp add: fold_event_def e session_event_def)
  have "payload_string e ''text'' = Inr text" by (simp add: payload_string_def e session_event_def ok_or_def)
  moreover have "(case map_of (ev_payload e) ''supersedes'' of None \<Rightarrow> Inr None
      | Some v \<Rightarrow> bind_res (ok_or InvalidPayload (cd_source_ref cd v)) (\<lambda>r. Inr (Some r))) = (Inr supersedes :: source_ref option res)"
    using assms(2) by (cases supersedes) (simp_all add: e session_event_def ok_or_def)
  ultimately show ?thesis unfolding kind by (simp add: fold_decision_def w0 w Let_def retire_keeps)
qed

text \<open>Other events that recovery does not know and may skip only move the state on.\<close>

lemma runtime_event_projected:
  assumes "runtime_event_commit hash version event_id session kind payload False (rf_state f) next = Inr (e, w, m)"
    and "kind \<notin> {''input.admitted'', ''receipt.recorded'', ''tool.intent.recorded'', ''task.updated'', ''decision.updated''}"
  shows "\<exists>g. fold_event cd task e f = Inr g \<and> rf_state g = Some w \<and> rf_texts g = rf_texts f"
  using assms by (auto simp: runtime_event_commit_def bind_res_Inr Let_def fold_event_def session_event_def split: option.splits if_splits)

section \<open>A sample recovery\<close>

definition sample_codecs :: "recovery_snapshot option \<Rightarrow> session_codecs" where
  "sample_codecs snapshot = \<lparr>cd_input_id = (\<lambda>_. True), cd_instruction_id = (\<lambda>_. True), cd_execution_id = (\<lambda>_. True),
    cd_workspace = (\<lambda>_. Some (ws_workspace sample_state)), cd_plan_items = (\<lambda>_. Some []), cd_receipt = (\<lambda>_. None),
    cd_source_ref = (\<lambda>_. Some sample_source), cd_snapshot = (\<lambda>_. snapshot)\<rparr>"

definition sample_fold :: recovery_fold where
  "sample_fold = \<lparr>rf_state = Some (sample_state\<lparr>ws_active_instruction_refs := [''i'']\<rparr>), rf_receipts = [], rf_texts = [''hello''],
    rf_seen_receipts = {}, rf_seen_pending = {}, rf_sources = [None]\<rparr>"

lemma sample_folded:
  "fold_events (sample_codecs r) ''s'' ''t'' 0 empty_fold (journal_tail ''s'' 0 admitted_db) = Inr (1, sample_fold)"
proof -
  have "journal_tail ''s'' 0 admitted_db = [sample_event]" by (simp add: journal_tail_def admitted_db_def)
  moreover have "fold_input (sample_codecs r) ''t'' sample_event empty_fold = Inr sample_fold"
    by (simp add: fold_input_def valid_string_def payload_string_def payload_value_def payload_field_def ok_or_def
      sample_codecs_def sample_event_def empty_fold_def sample_fold_def initial_working_state_def event_source_def
      sample_state_def sample_source_def p0_schema_version_def)
  ultimately show ?thesis by (simp add: fold_event_def sample_event_def u64_max_def)
qed

definition sample_cache :: recovery_cache where
  "sample_cache = \<lparr>rc_session_id = ''s'', rc_task_id = ''t'',
    rc_start = \<lparr>st_fold = sample_fold, st_through = 1, st_snapshot = None, st_diagnostic = None\<rparr>\<rparr>"

lemma sample_recovery:
  "recover_cached (sample_codecs r) text_hash ''s'' admitted_db (Inr None) None =
    (recovery_view_of (rc_start sample_cache), Some sample_cache)"
proof -
  have le: "(0::nat) \<le> i64_max" by simp
  have "journal_inv text_hash admitted_db" using database.reach_inv [OF admitted_reachable] by (simp add: db_inv_def)
  from load_events_ok(1) [OF this admitted_session le] show ?thesis
    by (simp add: recover_cached_def admitted_session recovery_from_def seed_recovery_def sample_folded sample_cache_def)
qed

theorem recovery_is_replay_witness:
  "bind_res (fst (recover_cached (sample_codecs None) text_hash ''s'' admitted_db (Inl SnapshotCorrupt) (Some sample_cache)))
      (\<lambda>v. Inr (replayed v)) =
    Inr \<lparr>rv_working_state = sample_state\<lparr>ws_active_instruction_refs := [''i'']\<rparr>, rv_receipts = [], rv_texts = [''hello''],
      rv_snapshot_sequence = None, rv_replayed_through = 1, rv_diagnostic = None, rv_pending_count = 0\<rparr>"
proof -
  have right: "cache_right (sample_codecs None) admitted_db sample_cache"
    using sample_folded fold_events_ok [OF sample_folded [of None] empty_fold_ok]
    by (simp add: cache_right_def replay_to_def sample_cache_def)
  have "bind_res (recover (sample_codecs None) text_hash ''s'' admitted_db (Inr None)) (\<lambda>v. Inr (replayed v)) =
    Inr \<lparr>rv_working_state = sample_state\<lparr>ws_active_instruction_refs := [''i'']\<rparr>, rv_receipts = [], rv_texts = [''hello''],
      rv_snapshot_sequence = None, rv_replayed_through = 1, rv_diagnostic = None, rv_pending_count = 0\<rparr>"
    by (simp add: recover_def sample_recovery recovery_view_of_def sample_cache_def sample_fold_def replayed_def sample_state_def
      saturating_add_def u64_max_def)
  with recovery_is_replay [OF admitted_reachable rtranclp.rtrancl_refl admitted_session,
      where cache = "Some sample_cache" and cd = "sample_codecs None" and latest = "Inl SnapshotCorrupt"]
  show ?thesis using right by (simp add: latest_right_def i64_max_def)
qed

definition sample_snapshot :: recovery_snapshot where
  "sample_snapshot = \<lparr>rs_schema_version = 1, rs_working_state = sample_state\<lparr>ws_active_instruction_refs := [''i'']\<rparr>,
    rs_receipts = [], rs_texts = [''hello''], rs_sources = [None]\<rparr>"

theorem written_snapshot_right_witness:
  "\<exists>sn. snapshot_to_write (sample_codecs (Some sample_snapshot)) (\<lambda>r. JBool (r = sample_snapshot)) text_hash ''sn'' ''s''
      admitted_db (Inr None) = Inr sn \<and> sn_through_sequence sn = 1 \<and>
    latest_right (sample_codecs (Some sample_snapshot)) text_hash admitted_db ''s'' ''t'' (Inr (Some sn))"
proof -
  let ?cd = "sample_codecs (Some sample_snapshot)" and ?en = "\<lambda>r. JBool (r = sample_snapshot)"
  let ?sn = "\<lparr>sn_snapshot_id = ''sn'', sn_session_id = ''s'', sn_task_id = ''t'', sn_through_sequence = 1,
    sn_schema_version = p0_schema_version, sn_content = JBool True, sn_content_hash = ''h''\<rparr>"
  have sn: "snapshot_to_write ?cd ?en text_hash ''sn'' ''s'' admitted_db (Inr None) = Inr ?sn"
    by (simp add: snapshot_to_write_def sample_recovery recovery_view_of_def sample_cache_def sample_fold_def
      sample_snapshot_def sample_state_def p0_schema_version_def)
  moreover have "latest_right ?cd text_hash admitted_db ''s'' ''t'' (Inr (Some ?sn))"
    using written_snapshot_right [OF admitted_reachable admitted_session _ _ sn] by (simp add: latest_right_def i64_max_def sample_codecs_def)
  ultimately show ?thesis by auto
qed

theorem decision_projected_witness:
  "\<exists>e w m g. decision_commit (\<lambda>_. JNull) text_hash ''1'' ''e2'' ''s'' ''t'' ''use tabs'' None (rf_state sample_fold) 2 = Inr (e, w, m) \<and>
    fold_event (sample_codecs None) ''t'' e sample_fold = Inr g \<and> rf_state g = Some w \<and> rf_texts g = [''hello'', ''use tabs'']"
proof -
  have "\<not> blank ''use tabs''" by (rule letter_not_blank) (simp_all add: byte_def)
  then have "\<exists>e w m. decision_commit (\<lambda>_. JNull) text_hash ''1'' ''e2'' ''s'' ''t'' ''use tabs'' None (rf_state sample_fold) 2 = Inr (e, w, m)"
    by (simp add: decision_commit_def sample_fold_def sample_state_def sequence_after_def u64_max_def Let_def)
  then obtain e w m where c: "decision_commit (\<lambda>_. JNull) text_hash ''1'' ''e2'' ''s'' ''t'' ''use tabs'' None (rf_state sample_fold) 2 = Inr (e, w, m)"
    by blast
  from decision_projected [OF c, where cd = "sample_codecs None"] c show ?thesis
    by (auto simp: retire_def sample_fold_def)
qed

end
