(* ===== verification/Spec2Isabelle.thy ===== *)
theory Spec2Isabelle imports Kernel_Graph Kernel_Registry Kernel_Lifecycle Tool_Histories
    Coordinator Tool_Policy Turn_Regulation Run_Control Run_Ledger Session_Recovery begin

text \<open>
  A verification development for the agent harness, a host that runs model-driven agents over a
  durable store. The host application (\<^verbatim>\<open>crates/harness-cli\<close>) drives runs through
  \<^verbatim>\<open>harness-runtime\<close>, \<^verbatim>\<open>harness-tools\<close> and \<^verbatim>\<open>harness-orchestrator\<close>; every fact that must
  survive a crash goes through \<^verbatim>\<open>harness-store-sqlite\<close>; components are composed and torn down
  by \<^verbatim>\<open>harness-kernel\<close>; all of them share the types and error codes of
  \<^verbatim>\<open>harness-types\<close>. The model covers the kernel; the durable core of the store; the delegation
  of tasks to workers, from the proposed graph to the accepted report; the way of a tool call from
  the provider's JSON over the policy's decision to its stored receipt, with the edits of a file;
  and what a run is built from: the messages sent to a provider and the stream read back, the
  compaction of a conversation, retries, goals, budgets, inbox and questions, the guards on shell
  commands and the recovery of a session from its journal.

  \<^bold>\<open>Theories.\<close>
  \<open>Prelude\<close>: identifiers, 64-bit ranges, Rust's \<^verbatim>\<open>trim\<close>, tables as lists of rows.
  \<open>Error_Codes\<close>: \<^verbatim>\<open>harness-types/src/error.rs\<close>, the codes with spelling, retry class and exit
  code, and the error that strips its own prefix.
  \<open>Dag\<close>: dependency orders of a graph. \<open>Systems\<close>: reachability, and the locales every state
  machine here interprets.
  \<open>Kernel_Graph\<close>: \<^verbatim>\<open>PluginGraph::validate\<close> and \<^verbatim>\<open>detect_cycle\<close>. \<open>Kernel_Registry\<close>:
  \<^verbatim>\<open>ScopedRegistry\<close>. \<open>Kernel_Lifecycle\<close>: resource sets, \<^verbatim>\<open>ServiceProvider\<close> as a system of
  interleaved calls and drains, and \<^verbatim>\<open>ShutdownCoordinator\<close> (all of
  \<^verbatim>\<open>harness-kernel/src/lib.rs\<close>).
  \<open>Contracts\<close>: the contracts of \<^verbatim>\<open>harness-types/src/contracts\<close> that the store commits.
  \<open>Store_Records\<close>: states, rows and the database (\<^verbatim>\<open>records/models.rs\<close> and the schema).
  \<open>Store_Core\<close>: fences and the write transaction. \<open>Store_Commands\<close>, \<open>Journal\<close>
  (\<^verbatim>\<open>store/mod.rs\<close>), \<open>Budget_Store\<close>, \<open>Human_Store\<close> and \<open>Run_Store\<close> (\<^verbatim>\<open>store/run.rs\<close>): the
  operations, one body per transaction, their frames, invariants and what they never undo.
  \<open>Store_System\<close>: all handles together as one step relation, its invariant, and the properties
  that hold in every reachable database. \<open>Store_Histories\<close>: concrete histories.
  \<open>Tool_Records\<close>, \<open>Tool_Store\<close>, \<open>Tool_Histories\<close>: approvals, intents, settlements and receipts
  of tool calls (\<^verbatim>\<open>store/mod.rs\<close>), as operations of the same system.
  \<open>Tool_Actions\<close>: typed actions and the parser of provider calls
  (\<^verbatim>\<open>harness-tools/src/contracts.rs\<close>). \<open>Tool_Policy\<close>: rules, modes and decisions
  (\<^verbatim>\<open>harness-tools/src/security/policy.rs\<close>) with the policies the host builds.
  \<open>Command_Guard\<close>: how a command line is read and what it is refused for
  (\<^verbatim>\<open>harness-tools/src/security/command_guard.rs\<close>). \<open>Edit_Diff\<close>: the edits of \<^verbatim>\<open>edit_file\<close> (\<^verbatim>\<open>harness-tools/src/filesystem/edit_diff.rs\<close>).
  \<open>Json_Values\<close>: what \<^verbatim>\<open>serde_json\<close> reads off a value. \<open>Provider_Messages\<close>: the check of a
  transcript, its wire form for Chat Completions and the repair of tool arguments
  (\<^verbatim>\<open>harness-providers/src/lib.rs\<close>, \<^verbatim>\<open>support/json_repair.rs\<close>). \<open>Provider_Streams\<close>: the response
  assembled from events and the events a run stores (\<^verbatim>\<open>harness-runtime/src/lib.rs\<close>).
  \<open>Sse_Decoder\<close>: \<^verbatim>\<open>SseDecoder\<close> with its buffer, frames and limits. \<open>Compaction\<close>: estimates, cuts,
  shortened results and folded steps (\<^verbatim>\<open>harness-runtime/src/lib.rs\<close>, \<^verbatim>\<open>control/budget.rs\<close>).
  \<open>Run_Control\<close>: agent states, retries (\<^verbatim>\<open>harness-runtime/src/lib.rs\<close>) and goals
  (\<^verbatim>\<open>control/goal.rs\<close>). \<open>Run_Ledger\<close>: what a run asks of the store, by \<^verbatim>\<open>control/budget.rs\<close>,
  \<^verbatim>\<open>control/inbox.rs\<close> and \<^verbatim>\<open>control/human_input.rs\<close>, over the operations of \<open>Budget_Store\<close>,
  \<open>Store_Commands\<close> and \<open>Human_Store\<close>.
  \<open>Session_Recovery\<close>: the fold of a session's journal, snapshots, caches and decisions
  (\<^verbatim>\<open>harness-session/src/lib.rs\<close>), over the journal of \<open>Store_System\<close>.
  \<open>Acceptance\<close>: the acceptance record of a task (\<^verbatim>\<open>harness-types/src/validation/acceptance.rs\<close>).
  \<open>Delegation_Contracts\<close>: grants, budgets, task states and worker reports, and \<open>Task_Plan\<close>:
  \<^verbatim>\<open>TaskPlan::compile\<close> (\<^verbatim>\<open>harness-orchestrator/src/coordination/contracts.rs\<close>) with the
  enforcement of write scopes (\<^verbatim>\<open>workspaces/workspace.rs\<close>). \<open>Scheduler\<close>: \<^verbatim>\<open>WorkerScheduler\<close>
  (\<^verbatim>\<open>coordination/scheduler.rs\<close>) as interleaved steps. \<open>Delegation_Store\<close> and
  \<open>Delegation_Histories\<close>: the delegation tables (\<^verbatim>\<open>store/delegation.rs\<close>) and what their
  histories keep. \<open>Coordinator\<close>: \<^verbatim>\<open>DelegationCoordinator\<close> (\<^verbatim>\<open>coordination/coordinator.rs\<close>), whose
  operations read, decide and then commit.

  \<^bold>\<open>How state is modelled.\<close> A database is a record of tables, a table the list of its rows in
  \<^verbatim>\<open>rowid\<close> order, a JSON column the value it holds. A handle (\<open>store\<close>) has the fence it was
  opened with, the armed faults and the database. A transaction is a function from the database
  it began in to an error, a rollback or a commit; SQLite's serialised transactions with one
  writer make a step of the system one transaction. An \<^verbatim>\<open>ON CONFLICT(k) DO NOTHING\<close> checks its
  target first; any other refused key, foreign key or check is the operation's storage error.
  An error is its code. Unsigned 64-bit values are naturals with the conversions of the
  database (\<open>to_i64\<close>, \<open>to_u64\<close>) written out; revisions cannot reach the end of that range, since
  each increment is a committed transaction, and are left unchecked as in the code. Hashes,
  generated identifiers, the clock, the output of \<^verbatim>\<open>git status\<close>, the environment, the readers of stored JSON, the published files, the parsers of JSON and of times, the
  printed form of a JSON value, the share of a window that floating point gives, the random part
  of a wait, Unicode's composition (\<open>nfkc\<close>) and the glob matcher are arguments of the operations
  that use them. A string is the list of its bytes in UTF-8.

  \<^bold>\<open>What is shown.\<close> Kernel: validation of a plugin set decides its contract, lookup returns and
  finds the nearest scope, undo is final, shutdown resumes after cancellation, and a provider
  drains before it releases. Store: a takeover fences every other handle out; the journal of a
  session is gapless and reads back in pages; admission, settlement, start and answers are
  idempotent over any later history; the budget ledger is exact; a run revision is used once;
  a lease is not stolen within a generation. Errors and stored states round-trip. Delegation: a
  graph compiles exactly when it is well planned, a grant is never widened on its way down,
  slots and the request budget hold under every schedule, the receiver learns the end of work
  only at its end, messages are consumed once, takeovers of a task are final, and a task that is
  stored as completed has earned it with a report its brief accepts. Tools: a parsed call is within
  every bound, a decision is characterised by its rules and a denial is never lifted by more rules
  or another mode, a policy revision pins its decisions, an approval is used once over any history,
  every recorded intent rests on an approval of its own, and a stored receipt stays. A command line
  that passes deletes only what can be had back, unless one of the escapes that are stated as
  theorems is used, and a shell in front of it hides nothing. An edit
  changes the one place its old text stands, and a file keeps its mark and its line endings; a text
  of white space escapes the check that it is unique. Runs: the messages sent answer every call
  once, a stream is read the same however it is cut and stays within its limits, what is stored of
  it assembles to the same response, a compaction keeps calls with their results, a goal is
  satisfied on evidence alone, the remaining budget is what a reservation is granted, and retries
  are bounded. Sessions: however a session is recovered the result is the replay of its journal,
  written snapshots are right, and a decision commits the state its event folds to.

  \<^bold>\<open>Bounds.\<close> No definition needs fuel: recursion is structural or has a measure (the cycle
  search by the nodes not yet visited), and the loops that may not end (registry lookup, the
  walk to an account's parents) are partial or carry a visited set. The depth of a task is
  found by a loop with the code's own guard, and commands within commands are read four deep, as in the
  code. Worker interleavings are unbounded; a dispatch ends
  within 13 of its own steps.

  \<^bold>\<open>Not modelled.\<close> The host application, its terminal interface and integrations, the
  HTTP clients of the model providers and extension processes are input and output around these
  components. Worktrees and their integration run \<^verbatim>\<open>git\<close>. Tools: files, processes, the guard on discarding
  git commands and the model loop. Runtime: the asynchronous run loop, which composes the parts modelled here,
  the conversation history and the texts of summaries. Within the store: snapshots,
  project registrations, frozen requests, the history index and maintenance. Wall-clock columns that nothing reads back are left out.
\<close>

end
